(* ===== verification/Prelude.thy ===== *)
theory Prelude
  imports Main "HOL-Library.Word" "HOL-Library.Multiset"
begin

unbundle bit_operations_syntax

section \<open>Shared types, collections and generic lemmas\<close>

text \<open>
  This theory holds what the component theories share: names for the machine types of the
  code, the collections of rewrite rules the proofs use, and lemmas on lists, options and
  modular index arithmetic that do not mention any component.
\<close>

subsection \<open>Machine types\<close>

type_synonym u16 = "16 word"
type_synonym u32 = "32 word"
type_synonym u64 = "64 word"

text \<open>Signed integers (\<open>int\<close>, \<open>int64_t\<close>) are words read with \<open>sint\<close> where their
  wrap-around matters, and unbounded \<open>int\<close> otherwise.\<close>

type_synonym i32 = "32 word"
type_synonym i64 = "64 word"

text \<open>
  A \<open>double\<close> is kept as its 64 bits. The code only compares some of its doubles for
  equality; \<open>double_eq\<close> is the comparison \<open>==\<close> of IEEE 754: a NaN is equal to nothing,
  and the two zeros are equal.
\<close>

type_synonym double = "64 word"

definition double_magnitude :: "double \<Rightarrow> nat" where
  "double_magnitude d = unat d mod 2 ^ 63"

definition double_is_nan :: "double \<Rightarrow> bool" where
  "double_is_nan d \<longleftrightarrow> 2047 * 2 ^ 52 < double_magnitude d"

definition double_eq :: "double \<Rightarrow> double \<Rightarrow> bool" where
  "double_eq x y \<longleftrightarrow> \<not> double_is_nan x \<and> \<not> double_is_nan y \<and>
     (x = y \<or> double_magnitude x = 0 \<and> double_magnitude y = 0)"

lemma double_eq_sym: "double_eq x y = double_eq y x"
  by (auto simp: double_eq_def)

subsection \<open>Collections of rules\<close>

named_theorems queue_defs \<open>definitions of the queue operations\<close>
named_theorems pool_defs \<open>definitions of the allocator operations\<close>

subsection \<open>Index arithmetic of rings\<close>

lemma Suc_mod_less [simp]: "0 < n \<Longrightarrow> Suc i mod n < n"
  by simp

lemma mod_add_inj:
  assumes "(r + i) mod n = (r + j) mod n" "i < n" "j < (n::nat)"
  shows "i = j"
proof -
  have "i mod n = j mod n"
    using assms(1) by (simp add: nat_mod_eq_iff)
  with assms(2,3) show ?thesis by simp
qed

subsection \<open>Lists\<close>

lemma nth_Cons_upt_shift: "map (\<lambda>i. f (Suc i)) [0..<n] = map f [1..<Suc n]"
  by (simp add: map_Suc_upt [symmetric] comp_def del: upt_Suc)

lemma map_upt_Suc_front: "map f [0..<Suc n] = f 0 # map (\<lambda>i. f (Suc i)) [0..<n]"
  by (simp add: upt_conv_Cons map_Suc_upt [symmetric] comp_def del: upt_Suc)

lemma map_of_insert_middle:
  assumes "map_of xs i = None"
  shows "map_of (xs @ (i, y) # ys) = (map_of (xs @ ys))(i \<mapsto> y)"
proof
  fix j
  show "map_of (xs @ (i, y) # ys) j = ((map_of (xs @ ys))(i \<mapsto> y)) j"
    using assms by (cases "map_of xs j") (auto simp: map_add_def)
qed

text \<open>How an update changes the number of elements with a property.\<close>

lemma filter_update: "i < length ws \<Longrightarrow>
    length (filter P (ws[i := w])) + (if P (ws ! i) then 1 else 0) = length (filter P ws) + (if P w then 1 else 0)"
proof (induction ws arbitrary: i)
  case (Cons v ws)
  show ?case
  proof (cases i)
    case (Suc j)
    with Cons.IH [of j] Cons.prems show ?thesis by (cases "P w"; cases "P (ws ! j)") simp_all
  qed simp
qed simp

text \<open>
  From every state with the invariant a final state can be reached, when some step brings each
  other state closer.
\<close>

lemma reaches_end:
  fixes rank :: "'s \<Rightarrow> nat"
  assumes "I s"
    and move: "\<And>s. I s \<Longrightarrow> \<not> final s \<Longrightarrow> \<exists>t. step s t \<and> rank t < rank s"
    and keep: "\<And>s t. step s t \<Longrightarrow> I s \<Longrightarrow> I t"
  shows "\<exists>t. step\<^sup>*\<^sup>* s t \<and> I t \<and> final t"
  using assms(1)
proof (induction "rank s" arbitrary: s rule: less_induct)
  case less
  show ?case
  proof (cases "final s")
    case False
    from move [OF less.prems this] obtain t where t: "step s t" "rank t < rank s" by blast
    from less.hyps [OF t(2) keep [OF t(1) less.prems]] t(1) show ?thesis by (meson converse_rtranclp_into_rtranclp)
  qed (use less.prems in blast)
qed

lemma reach_keeps: "step\<^sup>*\<^sup>* s t \<Longrightarrow> I s \<Longrightarrow> (\<And>s t. step s t \<Longrightarrow> I s \<Longrightarrow> I t) \<Longrightarrow> I t"
  by (induction rule: rtranclp_induct) blast+

text \<open>Runs that end whatever the scheduler does: every run from \<open>s\<close> is finite, with a bound on its length, and has come to a final state when nothing can move.\<close>

definition surely_ends :: "('s \<Rightarrow> 's \<Rightarrow> bool) \<Rightarrow> ('s \<Rightarrow> bool) \<Rightarrow> 's \<Rightarrow> bool" where
  "surely_ends step final s \<longleftrightarrow> (\<exists>B. \<forall>k t. (step ^^ k) s t \<longrightarrow> k \<le> B) \<and> (\<forall>t. step\<^sup>*\<^sup>* s t \<longrightarrow> (\<nexists>u. step t u) \<longrightarrow> final t)"

lemma surely_endsI:
  fixes rank :: "'s \<Rightarrow> nat"
  assumes "I s"
    and nearer: "\<And>s t. step s t \<Longrightarrow> I s \<Longrightarrow> I t \<and> rank t < rank s"
    and move: "\<And>s. I s \<Longrightarrow> \<not> final s \<Longrightarrow> \<exists>t. step s t"
  shows "surely_ends step final s"
proof -
  have "I t \<and> k + rank t \<le> rank s" if "(step ^^ k) s t" for k t
    using that
  proof (induction k arbitrary: t)
    case (Suc k)
    then obtain u where "(step ^^ k) s u" "step u t" by auto
    with Suc.IH [of u] nearer [of u t] show ?case by force
  qed (use assms(1) in simp)
  then have "\<forall>k t. (step ^^ k) s t \<longrightarrow> k \<le> rank s" and inv: "\<forall>k t. (step ^^ k) s t \<longrightarrow> I t" by (meson add_leD1)+
  moreover have "final t" if "step\<^sup>*\<^sup>* s t" "\<nexists>u. step t u" for t
    using that inv move rtranclp_imp_relpowp by metis
  ultimately show ?thesis unfolding surely_ends_def by blast
qed

lemma surely_ends_reaches: "surely_ends step final s \<Longrightarrow> \<exists>t. step\<^sup>*\<^sup>* s t \<and> final t"
proof (rule ccontr)
  assume e: "surely_ends step final s" and no: "\<nexists>t. step\<^sup>*\<^sup>* s t \<and> final t"
  then obtain B where B: "\<And>k t. (step ^^ k) s t \<Longrightarrow> k \<le> B" unfolding surely_ends_def by blast
  have "\<exists>t. (step ^^ k) s t" for k
  proof (induction k)
    case (Suc k)
    then obtain t where "(step ^^ k) s t" by blast
    moreover from this e no have "\<exists>u. step t u" unfolding surely_ends_def by (meson relpowp_imp_rtranclp)
    ultimately show ?case by auto
  qed auto
  then obtain t where "(step ^^ Suc B) s t" by blast
  from B [OF this] show False by simp
qed

end
