(* ===== verification/Recon_Spec.thy ===== *)
theory Recon_Spec
  imports Prelude
begin

section \<open>The feed reconcilers: data, the map-based class and the common contract\<close>

text \<open>
  \<open>extras/citadel_interview/main.cpp\<close> implements one reconciler eight times. Three feeds
  report executions; executions with the same id inside a time window must agree, and a
  disagreement raises one alert. This theory holds the data, \<open>ReconcilerUnorderedScan\<close> (the
  class with the simplest state, a map from ids to entries), and the locale \<open>reconciler\<close>:
  what it means for another class to raise the same alerts. The other classes are in
  \<open>Recon_Vector\<close>, \<open>Recon_Heap\<close>, \<open>Recon_Direct\<close> and \<open>Recon_Flat\<close>. Time stamps and
  counters are 64-bit words with their wrap-around.
\<close>

record execution =
  ex_id :: u64
  ex_price :: double
  ex_size :: u32
  ex_ts :: u64

definition eq_exec :: "execution \<Rightarrow> execution \<Rightarrow> bool" where
  "eq_exec x y \<longleftrightarrow> ex_id x = ex_id y \<and> ex_size x = ex_size y \<and> double_eq (ex_price x) (ex_price y)"

fun mismatch :: "execution option \<Rightarrow> execution option \<Rightarrow> bool" where
  "mismatch (Some a) (Some b) = (\<not> eq_exec a b)"
| "mismatch _ _ = False"

definition anyMismatch :: "execution option \<Rightarrow> execution option \<Rightarrow> execution option \<Rightarrow> bool" where
  "anyMismatch a b c \<longleftrightarrow> mismatch a b \<or> mismatch a c \<or> mismatch b c"

lemma eq_exec_sym: "eq_exec x y = eq_exec y x"
  by (auto simp: eq_exec_def double_eq_sym)

lemma mismatch_sym: "mismatch a b = mismatch b a"
  by (cases a; cases b) (auto simp: eq_exec_sym)

datatype feed = One | Two | Three

text \<open>
  All entries hold the last execution of each feed and the \<open>alerted\<close> flag. The scanning
  classes add the first and last time stamps; the heap and hash classes also store the
  expiry time.
\<close>

record feed_slots =
  one :: "execution option"
  two :: "execution option"
  three :: "execution option"
  alerted :: bool

record entry = feed_slots +
  first_ts :: u64
  last_ts :: u64

definition new_entry :: entry where
  "new_entry = \<lparr>one = None, two = None, three = None, alerted = False, first_ts = 0, last_ts = 0\<rparr>"

text \<open>The \<open>switch\<close> over the feed.\<close>

fun store_feed :: "feed \<Rightarrow> execution \<Rightarrow> 'z feed_slots_scheme \<Rightarrow> 'z feed_slots_scheme" where
  "store_feed One exec ent = ent\<lparr>one := Some exec\<rparr>"
| "store_feed Two exec ent = ent\<lparr>two := Some exec\<rparr>"
| "store_feed Three exec ent = ent\<lparr>three := Some exec\<rparr>"

lemma store_feed_frame [simp]:
  "alerted (store_feed f e x) = alerted x"
  "first_ts (store_feed f e y) = first_ts y" "last_ts (store_feed f e y) = last_ts y"
  by (cases f; simp)+

subsection \<open>\<open>ReconcilerUnorderedScan\<close>\<close>

record uscan =
  window_width :: u64
  by_id :: "u64 \<rightharpoonup> entry"
  alerts :: u64
  last_timer :: u64

definition us_new :: "u64 \<Rightarrow> uscan" where
  "us_new w = \<lparr>window_width = w, by_id = Map.empty, alerts = 0, last_timer = 0\<rparr>"

definition us_isExpired :: "u64 \<Rightarrow> entry \<Rightarrow> u64 \<Rightarrow> bool" where
  "us_isExpired w e now \<longleftrightarrow> first_ts e + w \<le> now"

text \<open>The loop over the map erases exactly the expired entries, in whatever order it runs.\<close>

definition us_onTimer :: "u64 \<Rightarrow> uscan \<Rightarrow> uscan" where
  "us_onTimer now s = s\<lparr>last_timer := now,
     by_id := (\<lambda>i. case by_id s i of None \<Rightarrow> None
                 | Some e \<Rightarrow> if us_isExpired (window_width s) e now then None else Some e)\<rparr>"

text \<open>The entry after the time stamps and the execution were stored.\<close>

definition us_touch :: "feed \<Rightarrow> execution \<Rightarrow> entry \<Rightarrow> entry" where
  "us_touch f exec ent =
     (let ts = ex_ts exec;
          ent1 = (if first_ts ent = 0 \<and> last_ts ent = 0 then ent\<lparr>first_ts := ts\<rparr> else ent);
          ent2 = ent1\<lparr>last_ts := ts\<rparr>
      in store_feed f exec ent2)"

definition us_onFeed :: "feed \<Rightarrow> execution \<Rightarrow> uscan \<Rightarrow> uscan" where
  "us_onFeed f exec s =
     (let ts = ex_ts exec in
      if ts + window_width s \<le> last_timer s then s
      else
        let ent = us_touch f exec (case by_id s (ex_id exec) of None \<Rightarrow> new_entry | Some e \<Rightarrow> e)
        in if \<not> alerted ent \<and> anyMismatch (one ent) (two ent) (three ent) \<and>
              \<not> us_isExpired (window_width s) ent ts
           then s\<lparr>by_id := (by_id s)(ex_id exec \<mapsto> ent\<lparr>alerted := True\<rparr>), alerts := alerts s + 1\<rparr>
           else s\<lparr>by_id := (by_id s)(ex_id exec \<mapsto> ent)\<rparr>)"

text \<open>The two outcomes of an event that is not late, in terms of the updated entry.\<close>

lemma us_onFeed_accepted:
  assumes "\<not> ex_ts e + window_width s \<le> last_timer s"
    "us_touch f e (case by_id s (ex_id e) of None \<Rightarrow> new_entry | Some x \<Rightarrow> x) = ent"
  shows "us_onFeed f e s =
    (if \<not> alerted ent \<and> anyMismatch (one ent) (two ent) (three ent) \<and> ex_ts e < first_ts ent + window_width s
     then s\<lparr>by_id := (by_id s)(ex_id e \<mapsto> ent\<lparr>alerted := True\<rparr>), alerts := alerts s + 1\<rparr>
     else s\<lparr>by_id := (by_id s)(ex_id e \<mapsto> ent)\<rparr>)"
  using assms by (simp add: us_onFeed_def Let_def us_isExpired_def not_le)

lemma us_frame [simp]:
  "window_width (us_onTimer now s) = window_width s"
  "window_width (us_onFeed f e s) = window_width s"
  "last_timer (us_onTimer now s) = now"
  "last_timer (us_onFeed f e s) = last_timer s"
  "alerts (us_onTimer now s) = alerts s"
  by (simp_all add: us_onTimer_def us_onFeed_def Let_def)

subsection \<open>Runs of a reconciler\<close>

text \<open>
  What the driver does with a reconciler: feed it executions and fire its timer. An operation
  of a class may fail to return (a probe loop in a full table), so it yields an option.
\<close>

datatype action = Feed feed execution | Timer u64

fun run_actions ::
  "(feed \<Rightarrow> execution \<Rightarrow> 's \<Rightarrow> 's option) \<Rightarrow> (u64 \<Rightarrow> 's \<Rightarrow> 's option) \<Rightarrow> action list \<Rightarrow> 's \<Rightarrow> 's option" where
  "run_actions on_feed on_timer [] s = Some s"
| "run_actions on_feed on_timer (Feed f e # as) s =
     (case on_feed f e s of None \<Rightarrow> None | Some s' \<Rightarrow> run_actions on_feed on_timer as s')"
| "run_actions on_feed on_timer (Timer t # as) s =
     (case on_timer t s of None \<Rightarrow> None | Some s' \<Rightarrow> run_actions on_feed on_timer as s')"

fun us_step :: "action \<Rightarrow> uscan \<Rightarrow> uscan" where
  "us_step (Feed f e) s = us_onFeed f e s"
| "us_step (Timer t) s = us_onTimer t s"

definition us_run :: "action list \<Rightarrow> uscan \<Rightarrow> uscan" where
  "us_run as s = fold us_step as s"

lemma us_run_simps [simp]:
  "us_run [] s = s" "us_run (a # as) s = us_run as (us_step a s)" "us_run (as @ bs) s = us_run bs (us_run as s)"
  by (simp_all add: us_run_def)

lemma run_actions_us:
  "run_actions (\<lambda>f e s. Some (us_onFeed f e s)) (\<lambda>t s. Some (us_onTimer t s)) as s = Some (us_run as s)"
proof (induction as arbitrary: s)
  case (Cons a as)
  then show ?case by (cases a) auto
qed simp

text \<open>
  A schedule is admissible when a class's precondition holds at every action. The number is the
  count of executions fed so far, for the classes whose table fills up.
\<close>

fun fed :: "action \<Rightarrow> nat" where
  "fed (Feed f e) = 1"
| "fed (Timer t) = 0"

fun admissible :: "(nat \<Rightarrow> action \<Rightarrow> uscan \<Rightarrow> bool) \<Rightarrow> nat \<Rightarrow> action list \<Rightarrow> uscan \<Rightarrow> bool" where
  "admissible P n [] s = True"
| "admissible P n (a # as) s = (P n a s \<and> admissible P (n + fed a) as (us_step a s))"

subsection \<open>The contract\<close>

text \<open>
  A class simulates the map-based one: related states stay related under each operation, as
  long as the class's precondition on the action holds, and related states report the same
  number of alerts. \<open>init\<close> is the state its constructor makes.
\<close>

locale reconciler =
  fixes on_feed :: "feed \<Rightarrow> execution \<Rightarrow> 's \<Rightarrow> 's option"
    and on_timer :: "u64 \<Rightarrow> 's \<Rightarrow> 's option"
    and alert_count :: "'s \<Rightarrow> u64"
    and init :: "u64 \<Rightarrow> 's"
    and sim :: "nat \<Rightarrow> uscan \<Rightarrow> 's \<Rightarrow> bool"
    and pre :: "nat \<Rightarrow> action \<Rightarrow> uscan \<Rightarrow> bool"
  assumes sim_init: "sim 0 (us_new w) (init w)"
    and sim_feed: "sim n a c \<Longrightarrow> pre n (Feed f e) a \<Longrightarrow>
      \<exists>c'. on_feed f e c = Some c' \<and> sim (Suc n) (us_onFeed f e a) c'"
    and sim_timer: "sim n a c \<Longrightarrow> pre n (Timer t) a \<Longrightarrow> \<exists>c'. on_timer t c = Some c' \<and> sim n (us_onTimer t a) c'"
    and sim_alerts: "sim n a c \<Longrightarrow> alert_count c = alerts a"
begin

lemma sim_run:
  "sim n a c \<Longrightarrow> admissible pre n as a \<Longrightarrow>
   \<exists>m c'. run_actions on_feed on_timer as c = Some c' \<and> sim m (us_run as a) c'"
proof (induction as arbitrary: n a c)
  case Nil
  then show ?case by auto
next
  case (Cons x as)
  from Cons.prems have x: "pre n x a" "admissible pre (n + fed x) as (us_step x a)" by simp_all
  show ?case
  proof (cases x)
    case (Feed f e)
    with Cons.prems(1) x obtain c' where "on_feed f e c = Some c'" "sim (Suc n) (us_onFeed f e a) c'"
      using sim_feed by blast
    with Feed x Cons.IH [of "Suc n" "us_onFeed f e a" c'] show ?thesis by simp
  next
    case (Timer t)
    with Cons.prems(1) x obtain c' where "on_timer t c = Some c'" "sim n (us_onTimer t a) c'"
      using sim_timer by blast
    with Timer x Cons.IH [of n "us_onTimer t a" c'] show ?thesis by simp
  qed
qed

lemma same_alerts:
  assumes "admissible pre 0 as (us_new w)"
  shows "map_option alert_count (run_actions on_feed on_timer as (init w)) = Some (alerts (us_run as (us_new w)))"
proof -
  from sim_run [OF sim_init assms] obtain m c' where
    "run_actions on_feed on_timer as (init w) = Some c'" "sim m (us_run as (us_new w)) c'" by blast
  then show ?thesis by (simp add: sim_alerts)
qed

end

text \<open>
  A class may be blind to one id, \<open>mark\<close>: it takes an execution of it and stays related to a map that has
  not been fed.
\<close>

definition without_id :: "u64 \<Rightarrow> action list \<Rightarrow> action list" where
  "without_id i = filter (\<lambda>a. case a of Feed f e \<Rightarrow> ex_id e \<noteq> i | Timer t \<Rightarrow> True)"

lemma without_id_simps [simp]:
  "without_id i [] = []"
  "without_id i (Feed f e # as) = (if ex_id e = i then without_id i as else Feed f e # without_id i as)"
  "without_id i (Timer t # as) = Timer t # without_id i as"
  by (simp_all add: without_id_def)

locale blind_reconciler = reconciler +
  fixes mark :: u64 and room :: "nat \<Rightarrow> bool"
  assumes sim_mark: "sim n a c \<Longrightarrow> ex_id e = mark \<Longrightarrow> room n \<Longrightarrow> \<exists>c'. on_feed f e c = Some c' \<and> sim (Suc n) a c'"

lemma admissible_True [simp]: "admissible (\<lambda>_ _ _. True) n as s"
  by (induction as arbitrary: s n) auto

interpretation us: reconciler "\<lambda>f e s. Some (us_onFeed f e s)" "\<lambda>t s. Some (us_onTimer t s)" alerts us_new
  "\<lambda>n. (=)" "\<lambda>_ _ _. True"
  by unfold_locales auto

subsection \<open>What an alert means\<close>

text \<open>
  Properties of the map-based class that every simulating class inherits. The first: between
  two timer ticks an id alerts at most once, and only when two feeds disagree.
\<close>

lemma us_onFeed_alerts:
  "alerts (us_onFeed f e s) = alerts s \<or>
   alerts (us_onFeed f e s) = alerts s + 1 \<and>
   (\<exists>ent. by_id (us_onFeed f e s) (ex_id e) = Some ent \<and> alerted ent \<and> anyMismatch (one ent) (two ent) (three ent))"
  by (auto simp: us_onFeed_def Let_def)

definition us_inv :: "uscan \<Rightarrow> bool" where
  "us_inv s \<longleftrightarrow> (\<forall>i ent. by_id s i = Some ent \<longrightarrow>
     \<not> us_isExpired (window_width s) ent (last_timer s) \<and>
     (\<forall>x \<in> set_option (one ent) \<union> set_option (two ent) \<union> set_option (three ent). ex_id x = i))"

lemma us_inv_new: "us_inv (us_new w)"
  by (simp add: us_inv_def us_new_def)

lemma us_inv_timer: "us_inv s \<Longrightarrow> us_inv (us_onTimer t s)"
  by (auto simp: us_inv_def us_onTimer_def us_isExpired_def split: option.splits if_splits)

lemma us_touch_inv:
  assumes "\<forall>x \<in> set_option (one ent) \<union> set_option (two ent) \<union> set_option (three ent). ex_id x = ex_id e"
    "ent = new_entry \<or> \<not> us_isExpired w ent t" "\<not> ex_ts e + w \<le> t"
  shows "\<not> us_isExpired w (us_touch f e ent) t \<and>
    (\<forall>x \<in> set_option (one (us_touch f e ent)) \<union> set_option (two (us_touch f e ent)) \<union>
       set_option (three (us_touch f e ent)). ex_id x = ex_id e)"
  using assms by (cases f) (auto simp: us_touch_def us_isExpired_def new_entry_def Let_def)

lemma us_inv_feed:
  assumes "us_inv s"
  shows "us_inv (us_onFeed f e s)"
proof (cases "ex_ts e + window_width s \<le> last_timer s")
  case True
  with assms show ?thesis by (simp add: us_onFeed_def)
next
  case False
  define ent where "ent = (case by_id s (ex_id e) of None \<Rightarrow> new_entry | Some x \<Rightarrow> x)"
  have "\<forall>x \<in> set_option (one ent) \<union> set_option (two ent) \<union> set_option (three ent). ex_id x = ex_id e"
    "ent = new_entry \<or> \<not> us_isExpired (window_width s) ent (last_timer s)"
    using assms by (auto simp: ent_def us_inv_def new_entry_def split: option.splits)
  note new = us_touch_inv [OF this False, of f]
  have upd: "us_isExpired w (x\<lparr>alerted := True\<rparr>) t = us_isExpired w x t" for w x t
    by (simp add: us_isExpired_def)
  from assms new show ?thesis
    using False
    by (auto simp: us_onFeed_def us_inv_def Let_def upd simp flip: ent_def split: if_splits)
qed

lemma us_inv_run: "us_inv s \<Longrightarrow> us_inv (us_run as s)"
proof (induction as arbitrary: s)
  case (Cons a as)
  then have "us_inv (us_step a s)" by (cases a) (auto intro: us_inv_feed us_inv_timer)
  with Cons.IH show ?case by simp
qed simp

lemma us_alert_once:
  assumes "by_id s (ex_id e) = Some ent" "alerted ent"
  shows "alerts (us_onFeed f e s) = alerts s"
  using assms by (auto simp: us_onFeed_def us_touch_def Let_def)

end
