(* ===== verification/Recon_Vector.thy ===== *)
theory Recon_Vector
  imports Recon_Spec
begin

section \<open>\<open>ReconcilerVectorScan\<close>: a sorted vector with binary search\<close>

text \<open>
  Impl 1. The vector of items is a list of (id, entry) pairs; \<open>std::lower_bound\<close> is the
  position of the first item whose id is not below the key, and \<open>remove_if\<close> with \<open>erase\<close> is
  \<open>filter\<close>. The lemmas show that the vector stays strictly sorted, so it is a map, and that
  the class simulates the map-based one on every schedule.
\<close>

type_synonym items = "(u64 \<times> entry) list"

record vscan =
  vs_window_width :: u64
  vs_by_id :: items
  vs_alerts :: u64
  vs_last_timer :: u64

definition vs_new :: "u64 \<Rightarrow> vscan" where
  "vs_new w = \<lparr>vs_window_width = w, vs_by_id = [], vs_alerts = 0, vs_last_timer = 0\<rparr>"

definition lower_bound :: "u64 \<Rightarrow> items \<Rightarrow> nat" where
  "lower_bound key v = length (takeWhile (\<lambda>(k, e). k < key) v)"

definition vs_isExpired :: "u64 \<Rightarrow> entry \<Rightarrow> u64 \<Rightarrow> bool" where
  "vs_isExpired w e now \<longleftrightarrow> first_ts e + w \<le> now"

definition vs_onTimer :: "u64 \<Rightarrow> vscan \<Rightarrow> vscan" where
  "vs_onTimer now s = s\<lparr>vs_last_timer := now,
     vs_by_id := filter (\<lambda>(k, e). \<not> vs_isExpired (vs_window_width s) e now) (vs_by_id s)\<rparr>"

text \<open>\<open>getOrCreate\<close> returns the vector with the item in it and the item's position.\<close>

definition getOrCreate :: "u64 \<Rightarrow> items \<Rightarrow> items \<times> nat" where
  "getOrCreate i v =
     (let it = lower_bound i v
      in if it = length v \<or> fst (v ! it) \<noteq> i then (take it v @ [(i, new_entry)] @ drop it v, it) else (v, it))"

definition vs_touch :: "feed \<Rightarrow> execution \<Rightarrow> entry \<Rightarrow> entry" where
  "vs_touch f exec ent =
     (let ts = ex_ts exec;
          ent1 = (if first_ts ent = 0 \<and> last_ts ent = 0 then ent\<lparr>first_ts := ts, last_ts := ts\<rparr>
                  else ent\<lparr>last_ts := ts\<rparr>)
      in store_feed f exec ent1)"

definition vs_onFeed :: "feed \<Rightarrow> execution \<Rightarrow> vscan \<Rightarrow> vscan" where
  "vs_onFeed f exec s =
     (let ts = ex_ts exec in
      if ts + vs_window_width s \<le> vs_last_timer s then s
      else
        let (v, it) = getOrCreate (ex_id exec) (vs_by_id s);
            ent = vs_touch f exec (snd (v ! it))
        in if \<not> alerted ent \<and> anyMismatch (one ent) (two ent) (three ent) \<and>
              \<not> vs_isExpired (vs_window_width s) ent ts
           then s\<lparr>vs_by_id := v[it := (fst (v ! it), ent\<lparr>alerted := True\<rparr>)], vs_alerts := vs_alerts s + 1\<rparr>
           else s\<lparr>vs_by_id := v[it := (fst (v ! it), ent)]\<rparr>)"

subsection \<open>The vector is a map\<close>

definition items_ok :: "items \<Rightarrow> bool" where
  "items_ok v \<longleftrightarrow> sorted_wrt (<) (map fst v)"

lemma lower_bound_split:
  assumes "items_ok v"
  shows "\<forall>(k, e) \<in> set (take (lower_bound i v) v). k < i" "\<forall>(k, e) \<in> set (drop (lower_bound i v) v). i \<le> k"
proof -
  have take: "take (lower_bound i v) v = takeWhile (\<lambda>(k, e). k < i) v"
    and drop: "drop (lower_bound i v) v = dropWhile (\<lambda>(k, e). k < i) v"
    by (simp_all add: lower_bound_def takeWhile_eq_take [symmetric] dropWhile_eq_drop)
  show "\<forall>(k, e) \<in> set (take (lower_bound i v) v). k < i"
    unfolding take by (auto dest: set_takeWhileD)
  show "\<forall>(k, e) \<in> set (drop (lower_bound i v) v). i \<le> k"
    using assms unfolding drop items_ok_def by (induction v) (auto simp: less_imp_le)
qed

text \<open>After \<open>getOrCreate\<close> the vector is \<open>pre @ (i, ent) # post\<close> around the returned position.\<close>

text \<open>The entry is missing, and put in front of the larger ids.\<close>

lemma getOrCreate_new:
  assumes "items_ok v" "n = lower_bound i v" "n = length v \<or> fst (v ! n) \<noteq> i"
  shows "getOrCreate i v = (take n v @ (i, new_entry) # drop n v, n)" "n \<le> length v" "map_of v i = None"
    "\<forall>(k, e) \<in> set (drop n v). i < k"
    "(map_of v)(i \<mapsto> x) = map_of (take n v @ (i, x) # drop n v)" "items_ok (take n v @ (i, x) # drop n v)"
proof -
  show n: "n \<le> length v" unfolding assms(2) lower_bound_def by (rule length_takeWhile_le)
  note sp = lower_bound_split [OF assms(1), of i, folded assms(2)]
  show lt: "\<forall>(k, e) \<in> set (drop n v). i < k"
  proof (cases "drop n v")
    case (Cons kx rest)
    then have "kx = v ! n" "n < length v" by (auto simp: nth_via_drop [symmetric] intro: ccontr)
    with assms(3) sp(2) Cons have "i < fst kx" by (auto simp: order_less_le)
    moreover have "sorted_wrt (<) (map fst (drop n v))"
      using assms(1) by (simp add: items_ok_def drop_map [symmetric] sorted_wrt_drop)
    ultimately show ?thesis using Cons by auto
  qed simp
  show "map_of v i = None"
    using sp(1) lt by (subst append_take_drop_id [of n v, symmetric])
      (force simp: map_of_eq_None_iff map_add_None simp del: append_take_drop_id)
  have "map_of (take n v) i = None" using sp(1) by (force simp: map_of_eq_None_iff)
  from map_of_insert_middle [OF this, of x "drop n v"]
  show "(map_of v)(i \<mapsto> x) = map_of (take n v @ (i, x) # drop n v)" by simp
  show "items_ok (take n v @ (i, x) # drop n v)"
    using assms(1) sp(1) lt unfolding items_ok_def
    by (subst (asm) append_take_drop_id [of n v, symmetric], simp only: map_append sorted_wrt_append) fastforce
  from assms(2,3) n show "getOrCreate i v = (take n v @ (i, new_entry) # drop n v, n)"
    by (auto simp: getOrCreate_def Let_def)
qed

text \<open>The entry is there.\<close>

lemma getOrCreate_old:
  assumes "items_ok v" "n = lower_bound i v" "n < length v" "fst (v ! n) = i"
  shows "getOrCreate i v = (take n v @ (i, snd (v ! n)) # drop (Suc n) v, n)" "map_of v i = Some (snd (v ! n))"
    "\<forall>(k, e) \<in> set (drop (Suc n) v). i < k"
    "(map_of v)(i \<mapsto> x) = map_of (take n v @ (i, x) # drop (Suc n) v)" "items_ok (take n v @ (i, x) # drop (Suc n) v)"
proof -
  note sp = lower_bound_split [OF assms(1), of i, folded assms(2)]
  have v: "v = take n v @ (i, snd (v ! n)) # drop (Suc n) v"
    using assms(3,4) by (metis id_take_nth_drop prod.collapse)
  have s: "items_ok (take n v @ (i, y) # drop (Suc n) v)" for y
    using assms(1) by (subst (asm) v) (simp add: items_ok_def)
  then show "items_ok (take n v @ (i, x) # drop (Suc n) v)" .
  show "\<forall>(k, e) \<in> set (drop (Suc n) v). i < k"
    using s [of "snd (v ! n)"] by (auto simp: items_ok_def sorted_wrt_append)
  have none: "map_of (take n v) i = None" using sp(1) by (force simp: map_of_eq_None_iff)
  show "map_of v i = Some (snd (v ! n))" by (subst v) (simp add: none map_add_def)
  show "(map_of v)(i \<mapsto> x) = map_of (take n v @ (i, x) # drop (Suc n) v)"
    by (subst v) (simp add: map_of_insert_middle [OF none] del: map_of_append)
  from assms(2-4) v show "getOrCreate i v = (take n v @ (i, snd (v ! n)) # drop (Suc n) v, n)"
    by (simp add: getOrCreate_def Let_def)
qed

lemma getOrCreate_split:
  assumes "items_ok v"
  obtains pre ent post where "getOrCreate i v = (pre @ (i, ent) # post, length pre)"
    "ent = (case map_of v i of None \<Rightarrow> new_entry | Some x \<Rightarrow> x)"
    "\<forall>(k, e) \<in> set pre. k < i" "\<forall>(k, e) \<in> set post. i < k"
    "(map_of v)(i \<mapsto> x) = map_of (pre @ (i, x) # post)" "items_ok (pre @ (i, x) # post)"
proof -
  define n where "n = lower_bound i v"
  have n: "n \<le> length v" unfolding n_def lower_bound_def by (rule length_takeWhile_le)
  note sp = lower_bound_split [OF assms, of i, folded n_def]
  show ?thesis
  proof (cases "n = length v \<or> fst (v ! n) \<noteq> i")
    case True
    note g = getOrCreate_new [OF assms n_def True]
    have "getOrCreate i v = (take n v @ (i, new_entry) # drop n v, length (take n v))" using g(1) n by simp
    from that [OF this _ sp(1) g(4-6)] g(3) show ?thesis by simp
  next
    case False
    with n have less: "n < length v" "fst (v ! n) = i" by simp_all
    note g = getOrCreate_old [OF assms n_def less]
    have "getOrCreate i v = (take n v @ (i, snd (v ! n)) # drop (Suc n) v, length (take n v))" using g(1) n by simp
    from that [OF this _ sp(1) g(3-5)] g(2) show ?thesis by simp
  qed
qed

subsection \<open>Simulation\<close>

definition vs_sim :: "uscan \<Rightarrow> vscan \<Rightarrow> bool" where
  "vs_sim a c \<longleftrightarrow> vs_window_width c = window_width a \<and> vs_alerts c = alerts a \<and>
     vs_last_timer c = last_timer a \<and> items_ok (vs_by_id c) \<and> map_of (vs_by_id c) = by_id a"

lemma vs_touch_us: "vs_touch f e ent = us_touch f e ent"
  by (simp add: vs_touch_def us_touch_def Let_def)

lemma items_ok_filter: "items_ok v \<Longrightarrow> items_ok (filter P v)"
  unfolding items_ok_def by (simp add: sorted_wrt_map sorted_wrt_filter)

lemma map_of_filter_val:
  assumes "items_ok v"
  shows "map_of (filter (\<lambda>(k, e). P e) v) i = (case map_of v i of None \<Rightarrow> None | Some e \<Rightarrow> if P e then Some e else None)"
  using assms unfolding items_ok_def
proof (induction v)
  case (Cons kx v)
  have "fst kx \<notin> set (map fst v)" using Cons.prems by auto
  then have "map_of v (fst kx) = None" by (simp add: map_of_eq_None_iff)
  with Cons show ?case by (auto split: option.splits)
qed simp

lemma vs_sim_timer: "vs_sim a c \<Longrightarrow> vs_sim (us_onTimer t a) (vs_onTimer t c)"
  using map_of_filter_val [of "vs_by_id c" "\<lambda>e. \<not> vs_isExpired (window_width a) e t"]
  by (auto simp: vs_sim_def vs_onTimer_def us_onTimer_def items_ok_filter fun_eq_iff vs_isExpired_def us_isExpired_def
      split: option.split)

lemma vs_sim_feed:
  assumes "vs_sim a c"
  shows "vs_sim (us_onFeed f e a) (vs_onFeed f e c)"
proof -
  from assms have ok: "items_ok (vs_by_id c)" and m: "map_of (vs_by_id c) = by_id a" by (simp_all add: vs_sim_def)
  have exp: "vs_isExpired = us_isExpired" by (simp add: fun_eq_iff vs_isExpired_def us_isExpired_def)
  let ?ent = "us_touch f e (case by_id a (ex_id e) of None \<Rightarrow> new_entry | Some x \<Rightarrow> x)"
  from getOrCreate_split [OF ok, of "ex_id e" "?ent"] obtain pre post where
    1: "getOrCreate (ex_id e) (vs_by_id c) =
      (pre @ (ex_id e, case by_id a (ex_id e) of None \<Rightarrow> new_entry | Some x \<Rightarrow> x) # post, length pre)"
    "(by_id a)(ex_id e \<mapsto> ?ent) = map_of (pre @ (ex_id e, ?ent) # post)" "items_ok (pre @ (ex_id e, ?ent) # post)"
    using m by metis
  have 2: "items_ok (pre @ (ex_id e, x) # post)" for x
    using 1(3) by (simp add: items_ok_def)
  have upd: "map_of (pre @ (ex_id e, y) # post) = (map_of (pre @ (ex_id e, x) # post))(ex_id e \<mapsto> y)" for x y
  proof -
    have "map_of pre (ex_id e) = None"
      using 1(3) by (force simp: items_ok_def sorted_wrt_append map_of_eq_None_iff)
    then show ?thesis by (simp add: map_of_insert_middle del: map_of_append)
  qed
  have 3: "map_of (pre @ (ex_id e, ?ent\<lparr>alerted := True\<rparr>) # post) = (by_id a)(ex_id e \<mapsto> ?ent\<lparr>alerted := True\<rparr>)"
    using upd [of "?ent\<lparr>alerted := True\<rparr>" ?ent] by (simp only: 1(2) [symmetric] fun_upd_upd)
  show ?thesis
    using assms 1(1) 1(2) [symmetric] 2 3
    by (simp add: vs_onFeed_def us_onFeed_def vs_sim_def Let_def vs_touch_us exp)
qed

lemma vs_sim_new: "vs_sim (us_new w) (vs_new w)"
  by (simp add: vs_sim_def vs_new_def us_new_def items_ok_def)

lemma vs_sim_alerts: "vs_sim a c \<Longrightarrow> vs_alerts c = alerts a"
  by (simp add: vs_sim_def)

interpretation vs: reconciler "\<lambda>f e s. Some (vs_onFeed f e s)" "\<lambda>t s. Some (vs_onTimer t s)" vs_alerts vs_new
  "\<lambda>n. vs_sim" "\<lambda>_ _ _. True"
  by unfold_locales (auto intro: vs_sim_new vs_sim_feed vs_sim_timer vs_sim_alerts)

end
