(* ===== verification/Min_Queue.thy ===== *)
theory Min_Queue
  imports Prelude
begin

section \<open>The expiry queue: \<open>std::priority_queue\<close> ordered by expiry time\<close>

text \<open>
  Four reconcilers keep their expiry times in a \<open>std::priority_queue<Exp, vector<Exp>, ExpMin>\<close>,
  whose top has the least \<open>expire_at\<close>. The standard does not say which of several entries with
  the same time comes first, so the classes rest on the locale \<open>min_queue\<close>, which leaves it
  open; a sorted list is the executable instance. \<open>drain\<close> is the loop of \<open>onTimer\<close>: pop and
  process entries until the queue is empty or its top is in the future.
\<close>

record expiry =
  x_at :: u64
  x_id :: u64

locale min_queue =
  fixes push :: "'x \<Rightarrow> 'q \<Rightarrow> 'q"
    and top :: "'q \<Rightarrow> 'x option"
    and pop :: "'q \<Rightarrow> 'q"
    and elems :: "'q \<Rightarrow> 'x multiset"
    and ok :: "'q \<Rightarrow> bool"
    and key :: "'x \<Rightarrow> u64"
  assumes top_None: "ok q \<Longrightarrow> top q = None \<longleftrightarrow> elems q = {#}"
    and top_mem: "ok q \<Longrightarrow> top q = Some x \<Longrightarrow> x \<in># elems q"
    and top_least: "ok q \<Longrightarrow> top q = Some x \<Longrightarrow> y \<in># elems q \<Longrightarrow> key x \<le> key y"
    and pop_elems: "ok q \<Longrightarrow> top q = Some x \<Longrightarrow> elems (pop q) = elems q - {#x#}"
    and pop_ok: "ok q \<Longrightarrow> top q = Some x \<Longrightarrow> ok (pop q)"
    and push_elems: "ok q \<Longrightarrow> elems (push x q) = add_mset x (elems q)"
    and push_ok: "ok q \<Longrightarrow> ok (push x q)"

partial_function (option) drain ::
  "('q \<Rightarrow> 'x option) \<Rightarrow> ('q \<Rightarrow> 'q) \<Rightarrow> ('x \<Rightarrow> u64) \<Rightarrow> ('x \<Rightarrow> 's \<Rightarrow> 's option) \<Rightarrow> u64 \<Rightarrow> 'q \<Rightarrow> 's \<Rightarrow> ('q \<times> 's) option" where
  "drain tp pp key body now q s =
     (case tp q of None \<Rightarrow> Some (q, s)
      | Some x \<Rightarrow> if now < key x then Some (q, s)
                  else Option.bind (body x s) (\<lambda>s'. drain tp pp key body now (pp q) s'))"

declare drain.simps [code]

fun fold_option :: "('x \<Rightarrow> 's \<Rightarrow> 's option) \<Rightarrow> 'x list \<Rightarrow> 's \<Rightarrow> 's option" where
  "fold_option body [] s = Some s"
| "fold_option body (x # xs) s = Option.bind (body x s) (fold_option body xs)"

context min_queue begin

text \<open>
  The loop ends, processes exactly the entries that are due, and leaves the others, provided
  the body returns. The order of the processed entries is not fixed.
\<close>

lemma drain_due:
  assumes "ok q" "P s" "\<And>x s. P s \<Longrightarrow> \<exists>s'. body x s = Some s' \<and> P s'"
  shows "\<exists>xs q' s'. drain top pop key body now q s = Some (q', s') \<and> ok q' \<and> P s' \<and>
    elems q' = filter_mset (\<lambda>x. now < key x) (elems q) \<and>
    mset xs = filter_mset (\<lambda>x. key x \<le> now) (elems q) \<and> fold_option body xs s = Some s'"
  using assms(1,2)
proof (induction "size (elems q)" arbitrary: q s rule: less_induct)
  case less
  show ?case
  proof (cases "top q")
    case None
    with less.prems top_None have "elems q = {#}" by simp
    with None less.prems show ?thesis
      by (intro exI [of _ "[]"] exI [of _ q] exI [of _ s]) (simp add: drain.simps)
  next
    case (Some x)
    show ?thesis
    proof (cases "now < key x")
      case True
      have "\<forall>y \<in># elems q. now < key y"
        using True top_least [OF less.prems(1) Some] by (auto intro: less_le_trans)
      then have "filter_mset (\<lambda>x. now < key x) (elems q) = elems q"
        "filter_mset (\<lambda>x. key x \<le> now) (elems q) = {#}"
        by (auto simp: filter_mset_eq_conv not_le filter_mset_eq_mempty_iff)
      with Some True less.prems show ?thesis
        by (intro exI [of _ "[]"] exI [of _ q] exI [of _ s]) (simp add: drain.simps)
    next
      case False
      obtain s1 where s1: "body x s = Some s1" "P s1" using assms(3) less.prems(2) by blast
      have mem: "x \<in># elems q" using less.prems(1) Some by (rule top_mem)
      have pop: "elems (pop q) = elems q - {#x#}" "ok (pop q)"
        using less.prems(1) Some by (simp_all add: pop_elems pop_ok)
      then have "size (elems (pop q)) < size (elems q)" using mem by (simp add: size_Diff1_less)
      from less.hyps [OF this pop(2) s1(2)] obtain xs q' s' where
        r: "drain top pop key body now (pop q) s1 = Some (q', s')" "ok q'" "P s'"
          "elems q' = filter_mset (\<lambda>x. now < key x) (elems (pop q))"
          "mset xs = filter_mset (\<lambda>x. key x \<le> now) (elems (pop q))" "fold_option body xs s1 = Some s'"
        by blast
      obtain M where M: "elems q = add_mset x M" using mem by (metis mset_add)
      show ?thesis
        using r s1 Some False M pop
        by (intro exI [of _ "x # xs"] exI [of _ q'] exI [of _ s']) (simp add: drain.simps)
    qed
  qed
qed

end

subsection \<open>The sorted list\<close>

fun pq_push :: "expiry \<Rightarrow> expiry list \<Rightarrow> expiry list" where
  "pq_push x [] = [x]"
| "pq_push x (y # q) = (if x_at x < x_at y then x # y # q else y # pq_push x q)"

fun pq_top :: "expiry list \<Rightarrow> expiry option" where
  "pq_top [] = None"
| "pq_top (x # q) = Some x"

fun pq_pop :: "expiry list \<Rightarrow> expiry list" where
  "pq_pop [] = []"
| "pq_pop (x # q) = q"

definition pq_ok :: "expiry list \<Rightarrow> bool" where
  "pq_ok q \<longleftrightarrow> sorted (map x_at q)"

lemma set_pq_push [simp]: "set (pq_push x q) = insert x (set q)"
  by (induction x q rule: pq_push.induct) auto

lemma mset_pq_push: "mset (pq_push x q) = add_mset x (mset q)"
  by (induction x q rule: pq_push.induct) auto

lemma sorted_pq_push: "pq_ok q \<Longrightarrow> pq_ok (pq_push x q)"
  unfolding pq_ok_def by (induction x q rule: pq_push.induct) auto

lemma pq_top_SomeD: "pq_top q = Some x \<Longrightarrow> \<exists>r. q = x # r"
  by (cases q) auto

interpretation pq: min_queue pq_push pq_top pq_pop mset pq_ok x_at
proof unfold_locales
  fix q :: "expiry list"
  show "pq_top q = None \<longleftrightarrow> mset q = {#}" by (cases q) auto
qed (auto simp: mset_pq_push pq_ok_def sorted_pq_push [unfolded pq_ok_def] dest!: pq_top_SomeD)

lemmas pq_drain_due = pq.drain_due

end
