(* ===== verification/Recon_Heap.thy ===== *)
theory Recon_Heap
  imports Recon_Spec Min_Queue
begin

section \<open>\<open>ReconcilerUnorderedHeap\<close> and \<open>ReconcilerUnorderedHeapReserved\<close>\<close>

text \<open>
  Impl 3 and 3b replace the scan of \<open>onTimer\<close> by a heap of expiry times. An event pushes its
  entry's expiry time every time, so the heap holds stale and repeated elements; \<open>onTimer\<close>
  pops the due ones and erases an entry only when the popped time is the entry's own. The
  invariant that makes this equal to a scan: every entry's expiry time is in the heap.
\<close>

record hentry = entry +
  expire_at :: u64

definition new_hentry :: hentry where
  "new_hentry = \<lparr>one = None, two = None, three = None, alerted = False, first_ts = 0, last_ts = 0, expire_at = 0\<rparr>"

lemma store_feed_expire_at [simp]: "expire_at (store_feed f e x) = expire_at x"
  by (cases f) auto

record uheap =
  uh_window_width :: u64
  uh_by_id :: "u64 \<rightharpoonup> hentry"
  uh_expiry :: "expiry list"
  uh_alerts :: u64
  uh_last_timer :: u64

definition uh_new :: "u64 \<Rightarrow> uheap" where
  "uh_new w = \<lparr>uh_window_width = w, uh_by_id = Map.empty, uh_expiry = [], uh_alerts = 0, uh_last_timer = 0\<rparr>"

text \<open>The body of the loop of \<open>onTimer\<close>, for one popped element.\<close>

definition uh_expire :: "expiry \<Rightarrow> (u64 \<rightharpoonup> hentry) \<Rightarrow> (u64 \<rightharpoonup> hentry)" where
  "uh_expire x m = (case m (x_id x) of None \<Rightarrow> m
     | Some ent \<Rightarrow> if expire_at ent = x_at x then m(x_id x := None) else m)"

definition uh_onTimer :: "u64 \<Rightarrow> uheap \<Rightarrow> uheap option" where
  "uh_onTimer now s =
     (case drain pq_top pq_pop x_at (\<lambda>x m. Some (uh_expire x m)) now (uh_expiry s) (uh_by_id s) of
        None \<Rightarrow> None
      | Some (q, m) \<Rightarrow> Some (s\<lparr>uh_last_timer := now, uh_expiry := q, uh_by_id := m\<rparr>))"

definition uh_touch :: "u64 \<Rightarrow> feed \<Rightarrow> execution \<Rightarrow> hentry \<Rightarrow> hentry" where
  "uh_touch w f exec ent =
     (let ts = ex_ts exec;
          ent1 = (if first_ts ent = 0 \<and> last_ts ent = 0 then ent\<lparr>first_ts := ts\<rparr> else ent);
          ent2 = ent1\<lparr>last_ts := ts\<rparr>;
          ent3 = ent2\<lparr>expire_at := first_ts ent2 + w\<rparr>
      in store_feed f exec ent3)"

definition uh_onFeed :: "feed \<Rightarrow> execution \<Rightarrow> uheap \<Rightarrow> uheap" where
  "uh_onFeed f exec s =
     (let ts = ex_ts exec in
      if ts + uh_window_width s \<le> uh_last_timer s then s
      else
        let ent = uh_touch (uh_window_width s) f exec
                    (case uh_by_id s (ex_id exec) of None \<Rightarrow> new_hentry | Some e \<Rightarrow> e);
            s1 = s\<lparr>uh_expiry := pq_push \<lparr>x_at = expire_at ent, x_id = ex_id exec\<rparr> (uh_expiry s)\<rparr>
        in if \<not> alerted ent \<and> anyMismatch (one ent) (two ent) (three ent) \<and> ts < expire_at ent
           then s1\<lparr>uh_by_id := (uh_by_id s)(ex_id exec \<mapsto> ent\<lparr>alerted := True\<rparr>), uh_alerts := uh_alerts s + 1\<rparr>
           else s1\<lparr>uh_by_id := (uh_by_id s)(ex_id exec \<mapsto> ent)\<rparr>)"

subsection \<open>Impl 3b\<close>

text \<open>
  The class repeats the code of Impl 3 and only reserves buckets in its constructor, which a
  map does not show.
\<close>

definition uhr_new :: "u64 \<Rightarrow> nat \<Rightarrow> uheap" where
  "uhr_new w expected_ids =
     \<lparr>uh_window_width = w, uh_by_id = Map.empty, uh_expiry = [], uh_alerts = 0, uh_last_timer = 0\<rparr>"

definition uhr_onTimer :: "u64 \<Rightarrow> uheap \<Rightarrow> uheap option" where
  "uhr_onTimer now s =
     (case drain pq_top pq_pop x_at
        (\<lambda>x m. Some (case m (x_id x) of None \<Rightarrow> m
          | Some ent \<Rightarrow> if expire_at ent = x_at x then m(x_id x := None) else m)) now (uh_expiry s) (uh_by_id s) of
        None \<Rightarrow> None
      | Some (q, m) \<Rightarrow> Some (s\<lparr>uh_last_timer := now, uh_expiry := q, uh_by_id := m\<rparr>))"

definition uhr_onFeed :: "feed \<Rightarrow> execution \<Rightarrow> uheap \<Rightarrow> uheap" where
  "uhr_onFeed f exec s =
     (if ex_ts exec + uh_window_width s \<le> uh_last_timer s then s
      else
        let ent0 = (case uh_by_id s (ex_id exec) of None \<Rightarrow> new_hentry | Some e \<Rightarrow> e);
            ent1 = (if first_ts ent0 = 0 \<and> last_ts ent0 = 0 then ent0\<lparr>first_ts := ex_ts exec\<rparr> else ent0);
            ent2 = ent1\<lparr>last_ts := ex_ts exec\<rparr>;
            ent3 = ent2\<lparr>expire_at := first_ts ent2 + uh_window_width s\<rparr>;
            q = pq_push \<lparr>x_at = expire_at ent3, x_id = ex_id exec\<rparr> (uh_expiry s);
            ent = store_feed f exec ent3
        in if \<not> alerted ent \<and> anyMismatch (one ent) (two ent) (three ent) \<and> ex_ts exec < expire_at ent
           then s\<lparr>uh_by_id := (uh_by_id s)(ex_id exec \<mapsto> ent\<lparr>alerted := True\<rparr>), uh_expiry := q,
                  uh_alerts := uh_alerts s + 1\<rparr>
           else s\<lparr>uh_by_id := (uh_by_id s)(ex_id exec \<mapsto> ent), uh_expiry := q\<rparr>)"

lemma uhr_is_uh: "uhr_onFeed f e s = uh_onFeed f e s" "uhr_onTimer t s = uh_onTimer t s" "uhr_new w n = uh_new w"
  by (simp_all add: uhr_onFeed_def uh_onFeed_def uh_touch_def Let_def uhr_onTimer_def uh_onTimer_def uh_expire_def
      uhr_new_def uh_new_def cong: if_cong)

subsection \<open>Draining the heap is scanning the map\<close>

definition heap_inv :: "expiry multiset \<Rightarrow> (u64 \<rightharpoonup> hentry) \<Rightarrow> bool" where
  "heap_inv q m \<longleftrightarrow> (\<forall>i ent. m i = Some ent \<longrightarrow> \<lparr>x_at = expire_at ent, x_id = i\<rparr> \<in># q)"

lemma uh_expire_apply:
  "uh_expire x m i =
   (case m i of None \<Rightarrow> None | Some ent \<Rightarrow> if \<lparr>x_at = expire_at ent, x_id = i\<rparr> = x then None else Some ent)"
proof (cases x)
  case (fields t j)
  then show ?thesis by (cases "m i"; cases "i = j") (auto simp: uh_expire_def split: option.split)
qed

lemma uh_expire_fold:
  "fold_option (\<lambda>x m. Some (uh_expire x m)) xs m =
   Some (\<lambda>i. case m i of None \<Rightarrow> None | Some ent \<Rightarrow> if \<lparr>x_at = expire_at ent, x_id = i\<rparr> \<in> set xs then None else Some ent)"
proof (induction xs arbitrary: m)
  case Nil
  then show ?case by (simp add: fun_eq_iff split: option.split)
next
  case (Cons x xs)
  show ?case
    by (simp add: Cons.IH) (simp add: uh_expire_apply fun_eq_iff split: option.split)
qed

lemma uh_drain_scan:
  assumes "pq_ok q" "heap_inv (mset q) m"
  shows "\<exists>q'. drain pq_top pq_pop x_at (\<lambda>x m. Some (uh_expire x m)) now q m =
      Some (q', \<lambda>i. case m i of None \<Rightarrow> None | Some ent \<Rightarrow> if expire_at ent \<le> now then None else Some ent) \<and>
    pq_ok q' \<and> mset q' = filter_mset (\<lambda>x. now < x_at x) (mset q)"
proof -
  obtain xs q' m' where d: "drain pq_top pq_pop x_at (\<lambda>x m. Some (uh_expire x m)) now q m = Some (q', m')" "pq_ok q'"
      "mset q' = filter_mset (\<lambda>x. now < x_at x) (mset q)" "mset xs = filter_mset (\<lambda>x. x_at x \<le> now) (mset q)"
      "fold_option (\<lambda>x m. Some (uh_expire x m)) xs m = Some m'"
    using pq_drain_due [where P = "\<lambda>_. True" and s = m and body = "\<lambda>x m. Some (uh_expire x m)" and now = now,
        OF assms(1)] by auto
  have "set xs = {x \<in> set q. x_at x \<le> now}"
    using arg_cong [OF d(4), of set_mset] by auto
  then have "\<lparr>x_at = expire_at ent, x_id = i\<rparr> \<in> set xs \<longleftrightarrow> expire_at ent \<le> now" if "m i = Some ent" for i ent
    using assms(2) that by (auto simp: heap_inv_def)
  moreover have "m' = (\<lambda>i. case m i of None \<Rightarrow> None
      | Some ent \<Rightarrow> if \<lparr>x_at = expire_at ent, x_id = i\<rparr> \<in> set xs then None else Some ent)"
    using d(5) by (simp add: uh_expire_fold)
  ultimately have "m' = (\<lambda>i. case m i of None \<Rightarrow> None | Some ent \<Rightarrow> if expire_at ent \<le> now then None else Some ent)"
    by (auto simp: fun_eq_iff split: option.split)
  with d show ?thesis by blast
qed

subsection \<open>Simulation\<close>

definition uh_sim :: "uscan \<Rightarrow> uheap \<Rightarrow> bool" where
  "uh_sim a c \<longleftrightarrow> uh_window_width c = window_width a \<and> uh_alerts c = alerts a \<and> uh_last_timer c = last_timer a \<and>
     pq_ok (uh_expiry c) \<and> heap_inv (mset (uh_expiry c)) (uh_by_id c) \<and>
     by_id a = (\<lambda>i. map_option entry.truncate (uh_by_id c i)) \<and>
     (\<forall>i ent. uh_by_id c i = Some ent \<longrightarrow> expire_at ent = first_ts ent + window_width a)"

lemma truncate_simps [simp]:
  "one (entry.truncate h) = one h" "two (entry.truncate h) = two h" "three (entry.truncate h) = three h"
  "alerted (entry.truncate h) = alerted h" "first_ts (entry.truncate h) = first_ts h"
  "last_ts (entry.truncate h) = last_ts h" "entry.truncate (h\<lparr>alerted := b\<rparr>) = (entry.truncate h)\<lparr>alerted := b\<rparr>"
  "entry.truncate new_hentry = new_entry"
  by (simp_all add: entry.truncate_def new_hentry_def new_entry_def)

lemma us_touch_truncate: "us_touch f e (entry.truncate h) = entry.truncate (uh_touch w f e h)"
  by (cases f) (simp_all add: us_touch_def uh_touch_def Let_def entry.truncate_def)

lemma uh_touch_expire: "expire_at (uh_touch w f e h) = first_ts (uh_touch w f e h) + w"
  by (simp add: uh_touch_def Let_def)

lemma uh_sim_new: "uh_sim (us_new w) (uh_new w)"
  by (simp add: uh_sim_def us_new_def uh_new_def pq_ok_def heap_inv_def)

lemma uh_sim_alerts: "uh_sim a c \<Longrightarrow> uh_alerts c = alerts a"
  by (simp add: uh_sim_def)

lemma uh_sim_timer:
  assumes "uh_sim a c"
  shows "\<exists>c'. uh_onTimer t c = Some c' \<and> uh_sim (us_onTimer t a) c'"
proof -
  from assms have sim: "pq_ok (uh_expiry c)" "heap_inv (mset (uh_expiry c)) (uh_by_id c)"
    by (simp_all add: uh_sim_def)
  let ?m = "\<lambda>i. case uh_by_id c i of None \<Rightarrow> None | Some ent \<Rightarrow> if expire_at ent \<le> t then None else Some ent"
  from uh_drain_scan [OF sim, of t] obtain q' where
    q: "drain pq_top pq_pop x_at (\<lambda>x m. Some (uh_expire x m)) t (uh_expiry c) (uh_by_id c) = Some (q', ?m)"
      "pq_ok q'" "mset q' = filter_mset (\<lambda>x. t < x_at x) (mset (uh_expiry c))" by blast
  have inv: "heap_inv (mset q') ?m"
    using sim(2) unfolding q(3) by (auto simp: heap_inv_def split: option.splits if_splits)
  have "by_id (us_onTimer t a) = (\<lambda>i. map_option entry.truncate (?m i))"
    using assms by (auto simp: us_onTimer_def uh_sim_def us_isExpired_def fun_eq_iff split: option.split)
  with assms q inv show ?thesis
    by (simp add: uh_onTimer_def uh_sim_def split: option.splits)
qed

lemma uh_sim_feed:
  assumes "uh_sim a c"
  shows "uh_sim (us_onFeed f e a) (uh_onFeed f e c)"
proof (cases "ex_ts e + window_width a \<le> last_timer a")
  case True
  with assms show ?thesis by (simp add: us_onFeed_def uh_onFeed_def uh_sim_def)
next
  case False
  let ?w = "window_width a"
  define h where "h = uh_touch ?w f e (case uh_by_id c (ex_id e) of None \<Rightarrow> new_hentry | Some x \<Rightarrow> x)"
  let ?x = "\<lparr>x_at = first_ts h + ?w, x_id = ex_id e\<rparr>"
  have ent: "us_touch f e (case by_id a (ex_id e) of None \<Rightarrow> new_entry | Some x \<Rightarrow> x) = entry.truncate h"
    using assms by (auto simp: h_def uh_sim_def us_touch_truncate [symmetric] split: option.split)
  have exp: "expire_at h = first_ts h + ?w" by (simp add: h_def uh_touch_expire)
  let ?al = "\<not> alerted h \<and> anyMismatch (one h) (two h) (three h) \<and> ex_ts e < first_ts h + ?w"
  have U: "us_onFeed f e a =
      (if ?al then a\<lparr>by_id := (by_id a)(ex_id e \<mapsto> entry.truncate (h\<lparr>alerted := True\<rparr>)), alerts := alerts a + 1\<rparr>
       else a\<lparr>by_id := (by_id a)(ex_id e \<mapsto> entry.truncate h)\<rparr>)"
    using us_onFeed_accepted [OF False ent] by simp
  have C: "uh_onFeed f e c =
      (if ?al then c\<lparr>uh_expiry := pq_push ?x (uh_expiry c), uh_by_id := (uh_by_id c)(ex_id e \<mapsto> h\<lparr>alerted := True\<rparr>),
                     uh_alerts := uh_alerts c + 1\<rparr>
       else c\<lparr>uh_expiry := pq_push ?x (uh_expiry c), uh_by_id := (uh_by_id c)(ex_id e \<mapsto> h)\<rparr>)"
    using assms False by (simp add: uh_onFeed_def Let_def uh_sim_def exp flip: h_def)
  have inv: "heap_inv (mset (pq_push ?x (uh_expiry c))) ((uh_by_id c)(ex_id e \<mapsto> y))" 
    if "expire_at y = first_ts h + ?w" for y
    using assms that by (auto simp: heap_inv_def uh_sim_def)
  have upd: "by_id a = (\<lambda>i. map_option entry.truncate (uh_by_id c i)) \<Longrightarrow>
      (by_id a)(i \<mapsto> entry.truncate y) = (\<lambda>j. map_option entry.truncate (((uh_by_id c)(i \<mapsto> y)) j))" for i y
    by (simp add: fun_eq_iff)
  from assms show ?thesis
    unfolding U C by (auto simp: uh_sim_def sorted_pq_push inv exp upd simp del: truncate_simps)
qed

interpretation uh: reconciler "\<lambda>f e s. Some (uh_onFeed f e s)" uh_onTimer uh_alerts uh_new "\<lambda>n. uh_sim" "\<lambda>_ _ _. True"
  by unfold_locales (auto intro: uh_sim_new uh_sim_feed uh_sim_timer uh_sim_alerts)

interpretation uhr: reconciler "\<lambda>f e s. Some (uhr_onFeed f e s)" uhr_onTimer uh_alerts "\<lambda>w. uhr_new w n" "\<lambda>n. uh_sim"
  "\<lambda>_ _ _. True" for n
  by unfold_locales (auto simp: uhr_is_uh intro: uh_sim_new uh_sim_feed uh_sim_timer uh_sim_alerts)

end
