(* ===== verification/Expiry_Store.thy ===== *)
theory Expiry_Store
  imports Min_Queue
begin

section \<open>Stores whose entries expire: draining a heap or a timer wheel is a scan\<close>

text \<open>
  The direct-index and flat-hash reconcilers evict entries in two ways: a heap of expiry times
  (\<open>drain\<close>, \<open>Min_Queue\<close>), or a timer wheel, whose bucket \<open>t % tick_mod\<close> is processed and
  cleared for every tick \<open>t\<close> up to now. The locale \<open>expiry_store\<close> is what either needs of the
  store: \<open>expire t id\<close> erases the entry of \<open>id\<close> if it is due, and nothing else. What counts as
  due differs between the classes (the exact time in the heap classes, any time up to \<open>t\<close> in
  the wheel classes). The two lemmas say that both mechanisms remove exactly the entries whose
  time has come.
\<close>

partial_function (option) wheel_drain ::
  "(u64 \<Rightarrow> u64 \<Rightarrow> 's \<Rightarrow> 's option) \<Rightarrow> u64 \<Rightarrow> u64 \<Rightarrow> u64 \<Rightarrow> u64 list list \<Rightarrow> 's \<Rightarrow> (u64 list list \<times> 's) option" where
  "wheel_drain expire tick_mod now t wheel s =
     (if now < t then Some (wheel, s)
      else if tick_mod = 0 then None
      else Option.bind (fold_option (expire t) (wheel ! unat (t mod tick_mod)) s)
             (\<lambda>s'. wheel_drain expire tick_mod now (t + 1) (wheel[unat (t mod tick_mod) := []]) s'))"

declare wheel_drain.simps [code]

definition prune :: "('e \<Rightarrow> u64) \<Rightarrow> u64 \<Rightarrow> (u64 \<rightharpoonup> 'e) \<Rightarrow> (u64 \<rightharpoonup> 'e)" where
  "prune time now m = (\<lambda>i. case m i of None \<Rightarrow> None | Some e \<Rightarrow> if time e \<le> now then None else Some e)"

lemma prune_SomeD: "prune time now m i = Some e \<Longrightarrow> m i = Some e \<and> now < time e"
  by (auto simp: prune_def split: option.splits if_splits)

lemma prune_all_later: "(\<And>i e. m i = Some e \<Longrightarrow> now < time e) \<Longrightarrow> prune time now m = m"
  by (fastforce simp: prune_def fun_eq_iff split: option.splits)

lemma prune_prune: "t \<le> now \<Longrightarrow> prune time now (prune time t m) = prune time now m"
  by (auto simp: prune_def fun_eq_iff split: option.splits)

lemma word_less_Suc:
  assumes "now \<noteq> -1" "t \<le> now"
  shows "unat (t + 1 :: u64) = Suc (unat t)"
proof -
  have "t \<noteq> -1" using assms by (auto simp: word_order.extremum_unique)
  then have "1 + t \<noteq> 0" by (metis add.commute add_eq_0_iff)
  from unatSuc [OF this] show ?thesis by (simp add: add.commute)
qed

locale expiry_store =
  fixes expire :: "u64 \<Rightarrow> u64 \<Rightarrow> 's \<Rightarrow> 's option"
    and lookup :: "'s \<Rightarrow> u64 \<rightharpoonup> 'e"
    and time :: "'e \<Rightarrow> u64"
    and due :: "u64 \<Rightarrow> u64 \<Rightarrow> bool"
    and ok :: "'s \<Rightarrow> bool"
  assumes due_refl: "due t t"
    and due_le: "due x t \<Longrightarrow> x \<le> t"
    and expire_due: "ok s \<Longrightarrow> \<exists>s'. expire t i s = Some s' \<and> ok s' \<and>
      lookup s' = (case lookup s i of None \<Rightarrow> lookup s
                   | Some e \<Rightarrow> if due (time e) t then (lookup s)(i := None) else lookup s)"
begin

text \<open>A list of expirations, each with its time.\<close>

lemma expire_fold:
  assumes "ok s"
  shows "\<exists>s'. fold_option (\<lambda>x. expire (x_at x) (x_id x)) xs s = Some s' \<and> ok s' \<and>
    lookup s' = (\<lambda>i. case lookup s i of None \<Rightarrow> None
      | Some e \<Rightarrow> if \<exists>x \<in> set xs. x_id x = i \<and> due (time e) (x_at x) then None else Some e)"
  using assms
proof (induction xs arbitrary: s)
  case Nil
  then show ?case by (auto simp: fun_eq_iff split: option.split)
next
  case (Cons x xs)
  obtain s1 where s1: "expire (x_at x) (x_id x) s = Some s1" "ok s1"
    "lookup s1 = (case lookup s (x_id x) of None \<Rightarrow> lookup s
       | Some e \<Rightarrow> if due (time e) (x_at x) then (lookup s)(x_id x := None) else lookup s)"
    using expire_due [OF Cons.prems] by blast
  obtain s' where s': "fold_option (\<lambda>x. expire (x_at x) (x_id x)) xs s1 = Some s'" "ok s'"
    "lookup s' = (\<lambda>i. case lookup s1 i of None \<Rightarrow> None
      | Some e \<Rightarrow> if \<exists>x \<in> set xs. x_id x = i \<and> due (time e) (x_at x) then None else Some e)"
    using Cons.IH [OF s1(2)] by blast
  have "lookup s' = (\<lambda>i. case lookup s i of None \<Rightarrow> None
      | Some e \<Rightarrow> if \<exists>x \<in> set (x # xs). x_id x = i \<and> due (time e) (x_at x) then None else Some e)"
    unfolding s'(3) s1(3) by (auto simp: fun_eq_iff split: option.splits)
  with s1 s' show ?case by simp
qed

lemma heap_scan:
  assumes "ok s" "pq_ok q" "\<And>i e. lookup s i = Some e \<Longrightarrow> \<lparr>x_at = time e, x_id = i\<rparr> \<in># mset q"
  shows "\<exists>q' s'. drain pq_top pq_pop x_at (\<lambda>x. expire (x_at x) (x_id x)) now q s = Some (q', s') \<and>
    pq_ok q' \<and> mset q' = filter_mset (\<lambda>x. now < x_at x) (mset q) \<and> ok s' \<and> lookup s' = prune time now (lookup s)"
proof -
  have "\<exists>s'. expire (x_at x) (x_id x) s = Some s' \<and> ok s'" if "ok s" for x s
    using expire_due [OF that] by blast
  from pq_drain_due [where P = ok and body = "\<lambda>x. expire (x_at x) (x_id x)" and now = now, OF assms(2,1) this]
  obtain xs q' s' where d:
    "drain pq_top pq_pop x_at (\<lambda>x. expire (x_at x) (x_id x)) now q s = Some (q', s')" "pq_ok q'" "ok s'"
    "mset q' = filter_mset (\<lambda>x. now < x_at x) (mset q)" "mset xs = filter_mset (\<lambda>x. x_at x \<le> now) (mset q)"
    "fold_option (\<lambda>x. expire (x_at x) (x_id x)) xs s = Some s'" by blast
  have xs: "x \<in> set xs \<longleftrightarrow> x \<in> set q \<and> x_at x \<le> now" for x
    using arg_cong [OF d(5), of set_mset] by auto
  have "(\<exists>x \<in> set xs. x_id x = i \<and> due (time e) (x_at x)) \<longleftrightarrow> time e \<le> now" if "lookup s i = Some e" for i e
  proof
    assume "time e \<le> now"
    with assms(3) [OF that] have "\<lparr>x_at = time e, x_id = i\<rparr> \<in> set xs" by (simp add: xs)
    then show "\<exists>x \<in> set xs. x_id x = i \<and> due (time e) (x_at x)"
      by (rule bexI [rotated]) (simp add: due_refl)
  qed (auto simp: xs dest!: due_le intro: order_trans)
  note gone = this
  obtain s2 where s2: "fold_option (\<lambda>x. expire (x_at x) (x_id x)) xs s = Some s2"
    "lookup s2 = (\<lambda>i. case lookup s i of None \<Rightarrow> None
      | Some e \<Rightarrow> if \<exists>x \<in> set xs. x_id x = i \<and> due (time e) (x_at x) then None else Some e)"
    using expire_fold [OF assms(1), of xs] by blast
  have "lookup s2 = prune time now (lookup s)"
    unfolding s2(2) prune_def by (rule ext) (simp add: gone split: option.split)
  with d s2(1) show ?thesis by (intro exI [of _ q'] exI [of _ s']) simp
qed

lemma bucket_scan:
  assumes "ok s"
  shows "\<exists>s'. fold_option (expire t) ids s = Some s' \<and> ok s' \<and>
    lookup s' = (\<lambda>i. case lookup s i of None \<Rightarrow> None
      | Some e \<Rightarrow> if i \<in> set ids \<and> due (time e) t then None else Some e)"
proof -
  have "fold_option (expire t) ids s = fold_option (\<lambda>x. expire (x_at x) (x_id x)) (map (\<lambda>i. \<lparr>x_at = t, x_id = i\<rparr>) ids) s"
    by (induction ids arbitrary: s) (auto intro!: Option.bind_cong)
  moreover have "(\<exists>x \<in> set (map (\<lambda>i. \<lparr>x_at = t, x_id = i\<rparr>) ids). x_id x = i \<and> due (time e) (x_at x)) \<longleftrightarrow>
      i \<in> set ids \<and> due (time e) t" for i e
    by auto
  ultimately show ?thesis
    using expire_fold [OF assms, of "map (\<lambda>i. \<lparr>x_at = t, x_id = i\<rparr>) ids"] by (simp only:)
qed

text \<open>
  The wheel: every entry expires within one rotation, and is in the bucket of its time. Then the
  ticks up to now remove what a scan at now removes.
\<close>

definition wheel_inv :: "u64 \<Rightarrow> u64 \<Rightarrow> u64 list list \<Rightarrow> 's \<Rightarrow> bool" where
  "wheel_inv T prev wheel s \<longleftrightarrow> length wheel = unat T \<and>
     (\<forall>i e. lookup s i = Some e \<longrightarrow>
       prev < time e \<and> unat (time e) \<le> unat prev + unat T \<and> i \<in> set (wheel ! unat (time e mod T)))"

lemma wheel_tick:
  assumes "ok s" "T \<noteq> 0" "prev < t" "unat t = Suc (unat prev)" "wheel_inv T prev wheel s"
  shows "\<exists>s'. fold_option (expire t) (wheel ! unat (t mod T)) s = Some s' \<and> ok s' \<and>
    lookup s' = prune time t (lookup s) \<and> wheel_inv T t (wheel[unat (t mod T) := []]) s'"
proof -
  obtain s' where s': "fold_option (expire t) (wheel ! unat (t mod T)) s = Some s'" "ok s'"
    "lookup s' = (\<lambda>i. case lookup s i of None \<Rightarrow> None
      | Some e \<Rightarrow> if i \<in> set (wheel ! unat (t mod T)) \<and> due (time e) t then None else Some e)"
    using bucket_scan [OF assms(1)] by blast
  have inv: "prev < time e" "unat (time e) \<le> unat prev + unat T" "i \<in> set (wheel ! unat (time e mod T))"
    if "lookup s i = Some e" for i e
    using assms(5) that by (auto simp: wheel_inv_def)
  have ge: "t \<le> time e" if "lookup s i = Some e" for i e
    using inv(1) [OF that] assms(4) by (simp add: word_le_nat_alt word_less_nat_alt)
  have "i \<in> set (wheel ! unat (t mod T)) \<and> due (time e) t \<longleftrightarrow> time e \<le> t" if "lookup s i = Some e" for i e
  proof
    assume "time e \<le> t"
    with ge [OF that] have "time e = t" by simp
    with inv(3) [OF that] show "i \<in> set (wheel ! unat (t mod T)) \<and> due (time e) t" by (simp add: due_refl)
  qed (auto dest: due_le)
  then have l: "lookup s' = prune time t (lookup s)"
    unfolding s'(3) prune_def by (auto simp: fun_eq_iff split: option.split)
  have "wheel_inv T t (wheel[unat (t mod T) := []]) s'"
    unfolding wheel_inv_def
  proof (intro conjI allI impI)
    show "length (wheel[unat (t mod T) := []]) = unat T" using assms(5) by (simp add: wheel_inv_def)
  next
    fix i e
    assume "lookup s' i = Some e"
    then have e: "lookup s i = Some e" "t < time e" by (auto simp: l dest: prune_SomeD)
    show "t < time e" by fact
    show "unat (time e) \<le> unat t + unat T" using inv(2) [OF e(1)] assms(4) by simp
    have "unat (time e) mod unat T \<noteq> unat t mod unat T"
    proof
      assume "unat (time e) mod unat T = unat t mod unat T"
      moreover have "unat t < unat (time e)" using e(2) by (simp add: word_less_nat_alt)
      ultimately have "unat T dvd unat (time e) - unat t" by (simp add: mod_eq_dvd_iff_nat)
      moreover have "unat (time e) - unat t < unat T" using inv(2) [OF e(1)] assms(4) \<open>unat t < unat (time e)\<close> by simp
      ultimately show False using \<open>unat t < unat (time e)\<close> by (auto dest: dvd_imp_le)
    qed
    then have "unat (time e mod T) \<noteq> unat (t mod T)" by (simp add: unat_mod)
    with inv(3) [OF e(1)] show "i \<in> set (wheel[unat (t mod T) := []] ! unat (time e mod T))"
      by (simp add: nth_list_update_neq)
  qed
  with s' l show ?thesis by blast
qed

lemma wheel_scan:
  assumes "ok s" "T \<noteq> 0" "prev \<le> now" "now \<noteq> -1" "wheel_inv T prev wheel s"
  shows "\<exists>wheel' s'. wheel_drain expire T now (prev + 1) wheel s = Some (wheel', s') \<and> ok s' \<and>
    lookup s' = prune time now (lookup s) \<and> wheel_inv T now wheel' s'"
  using assms
proof (induction "unat now - unat prev" arbitrary: prev wheel s)
  case 0
  then have "prev = now" by (simp add: word_le_nat_alt word_unat_eq_iff)
  with 0 have "now < prev + 1" using word_less_Suc [of now prev] by (simp add: word_less_nat_alt)
  moreover have "prune time now (lookup s) = lookup s"
    using 0 \<open>prev = now\<close> by (intro prune_all_later) (auto simp: wheel_inv_def)
  ultimately show ?case using 0 \<open>prev = now\<close> by (subst wheel_drain.simps) simp
next
  case (Suc n)
  then have less: "unat prev < unat now" by simp
  have u: "unat (prev + 1) = Suc (unat prev)" using Suc.prems by (intro word_less_Suc [of now]) auto
  have lt: "prev < prev + 1" "prev + 1 \<le> now" using u less by (simp_all add: word_less_nat_alt word_le_nat_alt)
  obtain s1 where s1: "fold_option (expire (prev + 1)) (wheel ! unat ((prev + 1) mod T)) s = Some s1" "ok s1"
    "lookup s1 = prune time (prev + 1) (lookup s)" "wheel_inv T (prev + 1) (wheel[unat ((prev + 1) mod T) := []]) s1"
    using wheel_tick [OF Suc.prems(1,2) lt(1) u Suc.prems(5)] by blast
  have "n = unat now - unat (prev + 1)" using Suc.hyps(2) u by simp
  from Suc.hyps(1) [OF this s1(2) Suc.prems(2) lt(2) Suc.prems(4) s1(4)] s1(1,3) lt(2) Suc.prems(2)
  show ?case by (subst wheel_drain.simps) (auto simp: prune_prune not_less)
qed

text \<open>Scheduling an entry that expires within one rotation keeps the wheel's invariant.\<close>

lemma wheel_schedule:
  assumes "wheel_inv T prev wheel s" "T \<noteq> 0" "prev < time x" "unat (time x) \<le> unat prev + unat T"
    "lookup s' = (lookup s)(i \<mapsto> x)"
  shows "wheel_inv T prev (wheel[unat (time x mod T) := wheel ! unat (time x mod T) @ [i]]) s'"
proof -
  have "unat (time x mod T) < unat T" using assms(2) by (simp add: unat_mod unat_gt_0)
  with assms show ?thesis
    by (auto simp: wheel_inv_def nth_list_update)
qed

lemma wheel_update:
  assumes "wheel_inv T prev wheel s" "lookup s i = Some e" "time x = time e" "lookup s' = (lookup s)(i \<mapsto> x)"
  shows "wheel_inv T prev wheel s'"
  using assms by (auto simp: wheel_inv_def)

end

end
