(* ===== verification/Recon_Direct.thy ===== *)
theory Recon_Direct
  imports Recon_Spec Expiry_Store
begin

section \<open>\<open>ReconcilerDirectIndexHeap\<close> and \<open>ReconcilerDirectIndexWheel\<close>\<close>

text \<open>
  Impl 5b and 5 keep their entries in a vector indexed by id, of length \<open>max_id + 1\<close>, and mark
  the live ones \<open>active\<close>; events with a larger id are dropped. An entry's expiry time is fixed
  when the entry becomes active and scheduled once, in a heap or in a wheel of \<open>tick_mod\<close>
  buckets. An access outside the vector, or a remainder by a zero \<open>tick_mod\<close>, has no defined
  result in C++ and is \<open>None\<close> here, and so is the timer loop of the wheel when it does not end.

  The classes agree with the map-based one when ids are in range and time stamps are not zero
  (the map-based class reads a zero time stamp as a fresh entry), and for the wheel when the
  timer does not go back and no entry expires later than one rotation after the last tick.
\<close>

record dentry = feed_slots +
  active :: bool
  d_first_ts :: u64
  d_expire_at :: u64

definition new_dentry :: dentry where
  "new_dentry = \<lparr>one = None, two = None, three = None, alerted = False, active = False, d_first_ts = 0, d_expire_at = 0\<rparr>"

lemma store_feed_d [simp]:
  "active (store_feed f e x) = active x" "d_first_ts (store_feed f e x) = d_first_ts x"
  "d_expire_at (store_feed f e x) = d_expire_at x"
  by (cases f; simp)+

record dheap =
  dh_window_width :: u64
  dh_max_id :: u64
  dh_entries :: "dentry list"
  dh_expiry :: "expiry list"
  dh_alerts :: u64
  dh_last_timer :: u64

definition dh_new :: "u64 \<Rightarrow> u64 \<Rightarrow> dheap" where
  "dh_new w max_id = \<lparr>dh_window_width = w, dh_max_id = max_id, dh_entries = replicate (unat (max_id + 1)) new_dentry,
     dh_expiry = [], dh_alerts = 0, dh_last_timer = 0\<rparr>"

text \<open>The body of the timer's loop, for a popped expiry time and id.\<close>

definition dh_expire :: "u64 \<Rightarrow> u64 \<Rightarrow> u64 \<Rightarrow> dentry list \<Rightarrow> dentry list option" where
  "dh_expire max_id t i es =
     (if max_id < i then Some es
      else if unat i < length es then
        Some (if active (es ! unat i) \<and> d_expire_at (es ! unat i) = t then es[unat i := new_dentry] else es)
      else None)"

definition dh_onTimer :: "u64 \<Rightarrow> dheap \<Rightarrow> dheap option" where
  "dh_onTimer now s =
     (case drain pq_top pq_pop x_at (\<lambda>x. dh_expire (dh_max_id s) (x_at x) (x_id x)) now (dh_expiry s) (dh_entries s) of
        None \<Rightarrow> None
      | Some (q, es) \<Rightarrow> Some (s\<lparr>dh_last_timer := now, dh_expiry := q, dh_entries := es\<rparr>))"

definition dh_onFeed :: "feed \<Rightarrow> execution \<Rightarrow> dheap \<Rightarrow> dheap option" where
  "dh_onFeed f exec s =
     (let ts = ex_ts exec; i = unat (ex_id exec) in
      if ts + dh_window_width s \<le> dh_last_timer s then Some s
      else if dh_max_id s < ex_id exec then Some s
      else if length (dh_entries s) \<le> i then None
      else
        let ent0 = dh_entries s ! i;
            (ent1, q) = (if \<not> active ent0
              then (ent0\<lparr>active := True, d_first_ts := ts, d_expire_at := ts + dh_window_width s\<rparr>,
                    pq_push \<lparr>x_at = ts + dh_window_width s, x_id = ex_id exec\<rparr> (dh_expiry s))
              else (ent0, dh_expiry s));
            ent = store_feed f exec ent1
        in if \<not> alerted ent \<and> anyMismatch (one ent) (two ent) (three ent) \<and> ts < d_expire_at ent
           then Some (s\<lparr>dh_entries := (dh_entries s)[i := ent\<lparr>alerted := True\<rparr>], dh_expiry := q,
                        dh_alerts := dh_alerts s + 1\<rparr>)
           else Some (s\<lparr>dh_entries := (dh_entries s)[i := ent], dh_expiry := q\<rparr>))"

subsection \<open>The timer wheel class\<close>

record dwheel =
  dw_window_width :: u64
  dw_max_id :: u64
  dw_tick_mod :: u64
  dw_entries :: "dentry list"
  dw_wheel :: "u64 list list"
  dw_last_timer :: u64
  dw_alerts :: u64

definition dw_new :: "u64 \<Rightarrow> u64 \<Rightarrow> u64 \<Rightarrow> dwheel" where
  "dw_new w max_id tick_mod = \<lparr>dw_window_width = w, dw_max_id = max_id, dw_tick_mod = tick_mod,
     dw_entries = replicate (unat (max_id + 1)) new_dentry, dw_wheel = replicate (unat tick_mod) [],
     dw_last_timer = 0, dw_alerts = 0\<rparr>"

definition dw_expire :: "u64 \<Rightarrow> u64 \<Rightarrow> u64 \<Rightarrow> dentry list \<Rightarrow> dentry list option" where
  "dw_expire max_id t i es =
     (if max_id < i then Some es
      else if unat i < length es then
        Some (if active (es ! unat i) \<and> d_expire_at (es ! unat i) \<le> t then es[unat i := new_dentry] else es)
      else None)"

definition dw_onTimer :: "u64 \<Rightarrow> dwheel \<Rightarrow> dwheel option" where
  "dw_onTimer now s =
     (case wheel_drain (dw_expire (dw_max_id s)) (dw_tick_mod s) now (dw_last_timer s + 1) (dw_wheel s) (dw_entries s) of
        None \<Rightarrow> None
      | Some (wheel, es) \<Rightarrow> Some (s\<lparr>dw_wheel := wheel, dw_entries := es, dw_last_timer := now\<rparr>))"

definition scheduleExpiry :: "u64 \<Rightarrow> u64 \<Rightarrow> u64 \<Rightarrow> u64 list list \<Rightarrow> u64 list list option" where
  "scheduleExpiry tick_mod i expire wheel =
     (if tick_mod = 0 then None
      else Some (wheel[unat (expire mod tick_mod) := wheel ! unat (expire mod tick_mod) @ [i]]))"

definition dw_onFeed :: "feed \<Rightarrow> execution \<Rightarrow> dwheel \<Rightarrow> dwheel option" where
  "dw_onFeed f exec s =
     (let ts = ex_ts exec; i = unat (ex_id exec) in
      if ts + dw_window_width s \<le> dw_last_timer s then Some s
      else if dw_max_id s < ex_id exec then Some s
      else if length (dw_entries s) \<le> i then None
      else
        let ent0 = dw_entries s ! i;
            ent1 = (if \<not> active ent0
              then ent0\<lparr>active := True, d_first_ts := ts, d_expire_at := ts + dw_window_width s\<rparr> else ent0);
            ent = store_feed f exec ent1
        in case (if \<not> active ent0 then scheduleExpiry (dw_tick_mod s) (ex_id exec) (d_expire_at ent1) (dw_wheel s)
                 else Some (dw_wheel s)) of
             None \<Rightarrow> None
           | Some wheel \<Rightarrow>
               if \<not> alerted ent \<and> anyMismatch (one ent) (two ent) (three ent) \<and> ts < d_expire_at ent
               then Some (s\<lparr>dw_entries := (dw_entries s)[i := ent\<lparr>alerted := True\<rparr>], dw_wheel := wheel,
                            dw_alerts := dw_alerts s + 1\<rparr>)
               else Some (s\<lparr>dw_entries := (dw_entries s)[i := ent], dw_wheel := wheel\<rparr>))"

subsection \<open>The vector as a store of entries\<close>

definition d_lookup :: "dentry list \<Rightarrow> u64 \<rightharpoonup> dentry" where
  "d_lookup es i = (if unat i < length es \<and> active (es ! unat i) then Some (es ! unat i) else None)"

text \<open>The vector is as long as \<open>max_id + 1\<close>, and an inactive entry is a fresh one.\<close>

definition d_ok :: "u64 \<Rightarrow> dentry list \<Rightarrow> bool" where
  "d_ok max_id es \<longleftrightarrow> max_id \<noteq> -1 \<and> length es = Suc (unat max_id) \<and> (\<forall>x \<in> set es. active x \<or> x = new_dentry)"

lemma d_lookup_update:
  assumes "unat i < length es" "active x"
  shows "d_lookup (es[unat i := x]) = (d_lookup es)(i \<mapsto> x)"
  using assms by (auto simp: d_lookup_def fun_eq_iff nth_list_update simp flip: word_unat_eq_iff)

lemma d_lookup_clear: "d_lookup (es[unat i := new_dentry]) = (d_lookup es)(i := None)"
  by (auto simp: d_lookup_def fun_eq_iff nth_list_update new_dentry_def simp flip: word_unat_eq_iff)

lemma d_ok_update: "d_ok m es \<Longrightarrow> active x \<or> x = new_dentry \<Longrightarrow> d_ok m (es[k := x])"
  unfolding d_ok_def by (auto dest!: set_update_subset_insert [THEN subsetD])

lemma d_ok_less: "d_ok m es \<Longrightarrow> \<not> m < i \<Longrightarrow> unat i < length es"
  by (simp add: d_ok_def not_less word_le_nat_alt)

lemma d_lookup_range: "d_ok m es \<Longrightarrow> m < i \<Longrightarrow> d_lookup es i = None"
  by (auto simp: d_ok_def d_lookup_def word_less_nat_alt)

lemma d_expire_cases:
  assumes "d_ok m es"
  obtains "m < i" "d_lookup es i = None"
  | "\<not> m < i" "unat i < length es" "\<not> active (es ! unat i)" "d_lookup es i = None"
  | "\<not> m < i" "unat i < length es" "active (es ! unat i)" "d_lookup es i = Some (es ! unat i)"
  using assms d_ok_less [OF assms, of i] d_lookup_range [OF assms, of i]
  by (cases "m < i"; cases "active (es ! unat i)") (simp_all add: d_lookup_def)

interpretation dhs: expiry_store "dh_expire m" d_lookup d_expire_at "(=)" "d_ok m" for m
proof unfold_locales
  fix es t i
  assume ok: "d_ok m es"
  show "\<exists>es'. dh_expire m t i es = Some es' \<and> d_ok m es' \<and> d_lookup es' =
      (case d_lookup es i of None \<Rightarrow> d_lookup es
       | Some e \<Rightarrow> if d_expire_at e = t then (d_lookup es)(i := None) else d_lookup es)"
    using ok
    by (rule d_expire_cases [where i = i])
      (use ok in \<open>simp_all add: dh_expire_def d_lookup_clear d_ok_update\<close>)
qed simp_all

interpretation dws: expiry_store "dw_expire m" d_lookup d_expire_at "(\<le>)" "d_ok m" for m
proof unfold_locales
  fix es t i
  assume ok: "d_ok m es"
  show "\<exists>es'. dw_expire m t i es = Some es' \<and> d_ok m es' \<and> d_lookup es' =
      (case d_lookup es i of None \<Rightarrow> d_lookup es
       | Some e \<Rightarrow> if d_expire_at e \<le> t then (d_lookup es)(i := None) else d_lookup es)"
    using ok
    by (rule d_expire_cases [where i = i])
      (use ok in \<open>simp_all add: dw_expire_def d_lookup_clear d_ok_update\<close>)
qed simp_all

lemmas dh_scan = dhs.heap_scan
lemmas dw_scan = dws.wheel_scan

subsection \<open>Entries of the two kinds\<close>

definition d_same :: "entry \<Rightarrow> dentry \<Rightarrow> bool" where
  "d_same e x \<longleftrightarrow> one x = one e \<and> two x = two e \<and> three x = three e \<and> alerted x = alerted e \<and>
     d_first_ts x = first_ts e \<and> first_ts e \<noteq> 0"

definition d_touch :: "u64 \<Rightarrow> feed \<Rightarrow> execution \<Rightarrow> dentry \<Rightarrow> dentry" where
  "d_touch w f e x = store_feed f e
     (if \<not> active x then x\<lparr>active := True, d_first_ts := ex_ts e, d_expire_at := ex_ts e + w\<rparr> else x)"

lemma d_touch_active [simp]: "active (d_touch w f e x)"
  by (simp add: d_touch_def)

lemma d_touch_same:
  assumes "ex_ts e \<noteq> 0"
  shows "d_same (us_touch f e new_entry) (d_touch w f e new_dentry)"
    and "active x \<Longrightarrow> d_same y x \<Longrightarrow> d_same (us_touch f e y) (d_touch w f e x)"
  using assms by (cases f; auto simp: d_same_def us_touch_def d_touch_def new_entry_def new_dentry_def Let_def)+

definition d_rel :: "u64 \<Rightarrow> uscan \<Rightarrow> dentry list \<Rightarrow> bool" where
  "d_rel m a es \<longleftrightarrow> d_ok m es \<and> (\<forall>i. rel_option d_same (by_id a i) (d_lookup es i)) \<and>
     (\<forall>i x. d_lookup es i = Some x \<longrightarrow> d_expire_at x = d_first_ts x + window_width a)"

lemma d_lookup_fresh: "d_lookup (replicate n new_dentry) = Map.empty"
  by (auto simp: d_lookup_def new_dentry_def fun_eq_iff)

lemma d_rel_new: "m \<noteq> -1 \<Longrightarrow> d_rel m (us_new w) (replicate (unat (m + 1)) new_dentry)"
  using word_less_Suc [of m m]
  by (simp add: d_rel_def d_ok_def us_new_def d_lookup_fresh del: replicate_Suc)

lemma d_rel_timer:
  assumes "d_rel m a es" "d_ok m es'" "d_lookup es' = prune d_expire_at t (d_lookup es)"
  shows "d_rel m (us_onTimer t a) es'"
proof -
  have "rel_option d_same (by_id (us_onTimer t a) i) (d_lookup es' i)" for i
  proof -
    from assms(1) have "rel_option d_same (by_id a i) (d_lookup es i)" by (simp add: d_rel_def)
    then show ?thesis
    proof (cases rule: option.rel_cases)
      case None
      then show ?thesis by (simp add: us_onTimer_def assms(3) prune_def)
    next
      case (Some e x)
      then have "d_expire_at x = first_ts e + window_width a"
        using assms(1) by (metis d_rel_def d_same_def)
      with Some show ?thesis by (simp add: us_onTimer_def assms(3) prune_def us_isExpired_def)
    qed
  qed
  moreover have "d_expire_at x = d_first_ts x + window_width a" if "d_lookup es' i = Some x" for i x
    using that assms(1) unfolding assms(3) by (auto simp: d_rel_def dest: prune_SomeD)
  ultimately show ?thesis using assms(2) by (simp add: d_rel_def)
qed

text \<open>
  One accepted event: \<open>h\<close> is the entry the class writes. Both classes then branch on the same
  condition as the map-based one.
\<close>

lemma d_rel_feed:
  assumes "d_rel m a es" "ex_ts e \<noteq> 0" "\<not> m < ex_id e" "\<not> ex_ts e + window_width a \<le> last_timer a"
    "h = d_touch (window_width a) f e (es ! unat (ex_id e))"
    "al \<longleftrightarrow> \<not> alerted h \<and> anyMismatch (one h) (two h) (three h) \<and> ex_ts e < d_expire_at h"
    "es' = es[unat (ex_id e) := (if al then h\<lparr>alerted := True\<rparr> else h)]"
  shows "d_rel m (us_onFeed f e a) es'" "alerts (us_onFeed f e a) = (if al then alerts a + 1 else alerts a)"
    "d_lookup es' = (d_lookup es)(ex_id e \<mapsto> (if al then h\<lparr>alerted := True\<rparr> else h))"
    "d_expire_at h = d_first_ts h + window_width a"
proof -
  let ?i = "ex_id e" and ?w = "window_width a"
  from assms(1) have ok: "d_ok m es" by (simp add: d_rel_def)
  have i: "unat ?i < length es" using ok assms(3) by (rule d_ok_less)
  have rel: "rel_option d_same (by_id a ?i) (d_lookup es ?i)" using assms(1) by (simp add: d_rel_def)
  define y where "y = us_touch f e (case by_id a ?i of None \<Rightarrow> new_entry | Some x \<Rightarrow> x)"
  have "d_same y h \<and> d_expire_at h = d_first_ts h + ?w"
  proof (cases "active (es ! unat ?i)")
    case True
    then have l: "d_lookup es ?i = Some (es ! unat ?i)" using i by (simp add: d_lookup_def)
    with rel obtain z where z: "by_id a ?i = Some z" "d_same z (es ! unat ?i)" by (auto simp: option_rel_Some2)
    have "d_expire_at (es ! unat ?i) = d_first_ts (es ! unat ?i) + ?w" using assms(1) l by (simp add: d_rel_def)
    then show ?thesis using True z d_touch_same(2) [OF assms(2) True z(2)]
      by (simp add: y_def assms(5)) (simp add: d_touch_def)
  next
    case False
    then have l: "d_lookup es ?i = None" "es ! unat ?i = new_dentry"
      using ok i by (auto simp: d_lookup_def d_ok_def)
    with rel have "by_id a ?i = None" by simp
    then show ?thesis using l False d_touch_same(1) [OF assms(2), of f ?w]
      by (simp add: y_def assms(5)) (simp add: d_touch_def)
  qed
  then have s: "d_same y h" and ex: "d_expire_at h = d_first_ts h + ?w" by simp_all
  show "d_expire_at h = d_first_ts h + ?w" by fact
  have act: "active (if al then h\<lparr>alerted := True\<rparr> else h)" by (simp add: assms(5))
  have al: "al \<longleftrightarrow> \<not> alerted y \<and> anyMismatch (one y) (two y) (three y) \<and> ex_ts e < first_ts y + ?w"
    using s ex by (simp add: assms(6) d_same_def)
  note U = us_onFeed_accepted [OF assms(4) y_def [symmetric], folded al]
  show "alerts (us_onFeed f e a) = (if al then alerts a + 1 else alerts a)" by (simp add: U)
  show l: "d_lookup es' = (d_lookup es)(?i \<mapsto> (if al then h\<lparr>alerted := True\<rparr> else h))"
    unfolding assms(7) using i act by (rule d_lookup_update)
  have by': "by_id (us_onFeed f e a) = (by_id a)(?i \<mapsto> (if al then y\<lparr>alerted := True\<rparr> else y))" by (simp add: U)
  have "d_same (if al then y\<lparr>alerted := True\<rparr> else y) (if al then h\<lparr>alerted := True\<rparr> else h)"
    using s by (simp add: d_same_def)
  moreover have "d_ok m es'" unfolding assms(7) by (rule d_ok_update [OF ok disjI1 [OF act]])
  ultimately show "d_rel m (us_onFeed f e a) es'"
    using assms(1) ex unfolding d_rel_def l by' by (cases al) simp_all
qed

subsection \<open>Simulation by the heap class\<close>

definition dh_sim :: "u64 \<Rightarrow> uscan \<Rightarrow> dheap \<Rightarrow> bool" where
  "dh_sim m a c \<longleftrightarrow> dh_alerts c = alerts a \<and> (m \<noteq> -1 \<longrightarrow>
     dh_window_width c = window_width a \<and> dh_max_id c = m \<and> dh_last_timer c = last_timer a \<and>
     d_rel m a (dh_entries c) \<and> pq_ok (dh_expiry c) \<and>
     (\<forall>i x. d_lookup (dh_entries c) i = Some x \<longrightarrow> \<lparr>x_at = d_expire_at x, x_id = i\<rparr> \<in># mset (dh_expiry c)))"

definition dh_pre :: "u64 \<Rightarrow> action \<Rightarrow> uscan \<Rightarrow> bool" where
  "dh_pre m act a \<longleftrightarrow> m \<noteq> -1 \<and> (case act of Feed f e \<Rightarrow> ex_id e \<le> m \<and> ex_ts e \<noteq> 0 | Timer t \<Rightarrow> True)"

lemma dh_sim_timer:
  assumes "dh_sim m a c" "m \<noteq> -1"
  shows "\<exists>c'. dh_onTimer t c = Some c' \<and> dh_sim m (us_onTimer t a) c'"
proof -
  from assms have c: "pq_ok (dh_expiry c)" "d_rel m a (dh_entries c)" "dh_max_id c = m"
    "\<And>i x. d_lookup (dh_entries c) i = Some x \<Longrightarrow> \<lparr>x_at = d_expire_at x, x_id = i\<rparr> \<in># mset (dh_expiry c)"
    by (simp_all add: dh_sim_def)
  then have ok: "d_ok m (dh_entries c)" by (simp add: d_rel_def)
  from dh_scan [OF ok c(1,4), where now = t] obtain q' es' where
    d: "drain pq_top pq_pop x_at (\<lambda>x. dh_expire m (x_at x) (x_id x)) t (dh_expiry c) (dh_entries c) = Some (q', es')"
    "pq_ok q'" "mset q' = filter_mset (\<lambda>x. t < x_at x) (mset (dh_expiry c))" "d_ok m es'"
    "d_lookup es' = prune d_expire_at t (d_lookup (dh_entries c))" by blast
  have "d_rel m (us_onTimer t a) es'" using c(2) d(4,5) by (rule d_rel_timer)
  moreover have "\<forall>i x. d_lookup es' i = Some x \<longrightarrow> \<lparr>x_at = d_expire_at x, x_id = i\<rparr> \<in># mset q'"
    using c(4) unfolding d(3,5) by (auto dest!: prune_SomeD)
  ultimately show ?thesis using assms c(3) d(1,2) by (simp add: dh_onTimer_def dh_sim_def)
qed

lemma dh_sim_feed:
  assumes "dh_sim m a c" "dh_pre m (Feed f e) a"
  shows "\<exists>c'. dh_onFeed f e c = Some c' \<and> dh_sim m (us_onFeed f e a) c'"
proof (cases "ex_ts e + window_width a \<le> last_timer a")
  case True
  with assms show ?thesis by (auto simp: dh_onFeed_def us_onFeed_def dh_sim_def dh_pre_def Let_def)
next
  case False
  let ?es = "dh_entries c" and ?i = "unat (ex_id e)"
  from assms have c: "d_rel m a ?es" "ex_ts e \<noteq> 0" "\<not> m < ex_id e" "dh_max_id c = m" "m \<noteq> -1"
    "dh_window_width c = window_width a" "dh_last_timer c = last_timer a" "pq_ok (dh_expiry c)"
    "dh_alerts c = alerts a"
    "\<And>i x. d_lookup ?es i = Some x \<Longrightarrow> \<lparr>x_at = d_expire_at x, x_id = i\<rparr> \<in># mset (dh_expiry c)"
    by (auto simp: dh_sim_def dh_pre_def)
  define h where "h = d_touch (window_width a) f e (?es ! ?i)"
  define al where "al \<longleftrightarrow> \<not> alerted h \<and> anyMismatch (one h) (two h) (three h) \<and> ex_ts e < d_expire_at h"
  define es' where "es' = ?es[?i := (if al then h\<lparr>alerted := True\<rparr> else h)]"
  define q where "q = (if \<not> active (?es ! ?i)
    then pq_push \<lparr>x_at = ex_ts e + window_width a, x_id = ex_id e\<rparr> (dh_expiry c) else dh_expiry c)"
  note R = d_rel_feed [OF c(1-3) False h_def al_def es'_def]
  have i: "?i < length ?es" using c(1,3) by (auto simp: d_rel_def intro: d_ok_less)
  have step: "dh_onFeed f e c = Some (c\<lparr>dh_entries := es', dh_expiry := q, dh_alerts := alerts (us_onFeed f e a)\<rparr>)"
    using False c i unfolding R(2) es'_def al_def h_def d_touch_def q_def
    by (auto simp: dh_onFeed_def Let_def)
  have "\<lparr>x_at = d_expire_at h, x_id = ex_id e\<rparr> \<in> set q"
  proof (cases "active (?es ! ?i)")
    case True
    with i have "d_lookup ?es (ex_id e) = Some (?es ! ?i)" by (simp add: d_lookup_def)
    from c(10) [OF this] True show ?thesis by (simp add: q_def h_def d_touch_def)
  next
    case False
    then show ?thesis by (simp add: q_def h_def d_touch_def)
  qed
  moreover have "set (dh_expiry c) \<subseteq> set q" by (auto simp: q_def)
  ultimately have "\<lparr>x_at = d_expire_at x, x_id = i\<rparr> \<in># mset q" if "d_lookup es' i = Some x" for i x
    using that c(10) [of i x] unfolding R(3) by (auto split: if_splits)
  moreover have "pq_ok q" using c(8) by (simp add: q_def sorted_pq_push)
  ultimately show ?thesis using step R(1) c by (simp add: dh_sim_def)
qed

lemma dh_sim_new: "dh_sim m (us_new w) (dh_new w m)"
  using d_rel_new [of m w] by (auto simp: dh_sim_def dh_new_def us_new_def pq_ok_def d_lookup_fresh)

interpretation dh: reconciler dh_onFeed dh_onTimer dh_alerts "\<lambda>w. dh_new w m" "\<lambda>n. dh_sim m" "\<lambda>n. dh_pre m" for m
proof unfold_locales
  fix n a c f e t
  assume s: "dh_sim m a c"
  show "dh_alerts c = alerts a" using s by (simp add: dh_sim_def)
  show "dh_pre m (Feed f e) a \<Longrightarrow> \<exists>c'. dh_onFeed f e c = Some c' \<and> dh_sim m (us_onFeed f e a) c'"
    using s by (rule dh_sim_feed)
  show "dh_pre m (Timer t) a \<Longrightarrow> \<exists>c'. dh_onTimer t c = Some c' \<and> dh_sim m (us_onTimer t a) c'"
    using s by (auto simp: dh_pre_def intro: dh_sim_timer)
qed (rule dh_sim_new)

subsection \<open>Simulation by the wheel class\<close>

definition dw_sim :: "u64 \<Rightarrow> u64 \<Rightarrow> uscan \<Rightarrow> dwheel \<Rightarrow> bool" where
  "dw_sim m T a c \<longleftrightarrow> dw_alerts c = alerts a \<and> (m \<noteq> -1 \<longrightarrow>
     dw_window_width c = window_width a \<and> dw_max_id c = m \<and> dw_tick_mod c = T \<and> dw_last_timer c = last_timer a \<and>
     d_rel m a (dw_entries c) \<and>
     dws.wheel_inv T (last_timer a) (dw_wheel c) (dw_entries c))"

definition dw_pre :: "u64 \<Rightarrow> u64 \<Rightarrow> action \<Rightarrow> uscan \<Rightarrow> bool" where
  "dw_pre m T act a \<longleftrightarrow> m \<noteq> -1 \<and> T \<noteq> 0 \<and>
     (case act of Feed f e \<Rightarrow> ex_id e \<le> m \<and> ex_ts e \<noteq> 0 \<and>
                    unat (ex_ts e + window_width a) \<le> unat (last_timer a) + unat T
      | Timer t \<Rightarrow> last_timer a \<le> t \<and> t \<noteq> -1)"

lemma dw_sim_timer:
  assumes "dw_sim m T a c" "dw_pre m T (Timer t) a"
  shows "\<exists>c'. dw_onTimer t c = Some c' \<and> dw_sim m T (us_onTimer t a) c'"
proof -
  from assms have c: "d_ok m (dw_entries c)" "T \<noteq> 0" "last_timer a \<le> t" "t \<noteq> -1" 
    "dws.wheel_inv T (last_timer a) (dw_wheel c) (dw_entries c)" "d_rel m a (dw_entries c)"
    by (auto simp: dw_sim_def d_rel_def dw_pre_def)
  from dw_scan [OF c(1-5)] obtain wheel' es' where
    d: "wheel_drain (dw_expire m) T t (last_timer a + 1) (dw_wheel c) (dw_entries c) = Some (wheel', es')"
    "d_ok m es'" "d_lookup es' = prune d_expire_at t (d_lookup (dw_entries c))" "dws.wheel_inv T t wheel' es'" by blast
  have "d_rel m (us_onTimer t a) es'" using c(6) d(2,3) by (rule d_rel_timer)
  with assms d show ?thesis by (simp add: dw_onTimer_def dw_sim_def dw_pre_def)
qed

lemma dw_sim_feed:
  assumes "dw_sim m T a c" "dw_pre m T (Feed f e) a"
  shows "\<exists>c'. dw_onFeed f e c = Some c' \<and> dw_sim m T (us_onFeed f e a) c'"
proof (cases "ex_ts e + window_width a \<le> last_timer a")
  case True
  with assms show ?thesis by (auto simp: dw_onFeed_def us_onFeed_def dw_sim_def dw_pre_def Let_def)
next
  case False
  let ?es = "dw_entries c" and ?i = "unat (ex_id e)"
  from assms have c: "d_rel m a ?es" "ex_ts e \<noteq> 0" "\<not> m < ex_id e" "dw_max_id c = m" "m \<noteq> -1"
    "dw_window_width c = window_width a" "dw_last_timer c = last_timer a" "dw_tick_mod c = T" "T \<noteq> 0"
    "dw_alerts c = alerts a" "dws.wheel_inv T (last_timer a) (dw_wheel c) ?es"
    "unat (ex_ts e + window_width a) \<le> unat (last_timer a) + unat T"
    by (auto simp: dw_sim_def dw_pre_def)
  define h where "h = d_touch (window_width a) f e (?es ! ?i)"
  define al where "al \<longleftrightarrow> \<not> alerted h \<and> anyMismatch (one h) (two h) (three h) \<and> ex_ts e < d_expire_at h"
  define h' where "h' = (if al then h\<lparr>alerted := True\<rparr> else h)"
  define es' where "es' = ?es[?i := h']"
  define b where "b = unat (d_expire_at h mod T)"
  define wheel where "wheel = (if \<not> active (?es ! ?i) then (dw_wheel c)[b := dw_wheel c ! b @ [ex_id e]] else dw_wheel c)"
  note R = d_rel_feed [OF c(1-3) False h_def al_def es'_def [unfolded h'_def]]
  have i: "?i < length ?es" using c(1,3) by (auto simp: d_rel_def intro: d_ok_less)
  have "dw_onFeed f e c = Some (c\<lparr>dw_entries := es', dw_wheel := wheel, dw_alerts := alerts (us_onFeed f e a)\<rparr>)"
    using False c i unfolding R(2) es'_def al_def h_def h'_def d_touch_def wheel_def b_def
    by (auto simp: dw_onFeed_def Let_def scheduleExpiry_def)
  moreover have "dws.wheel_inv T (last_timer a) wheel es'"
  proof (cases "active (?es ! ?i)")
    case True
    with i have l: "d_lookup ?es (ex_id e) = Some (?es ! ?i)" by (simp add: d_lookup_def)
    have "d_expire_at h' = d_expire_at (?es ! ?i)" using True by (simp add: h'_def h_def d_touch_def)
    from dws.wheel_update [OF c(11) l this R(3) [folded h'_def]] True show ?thesis by (simp add: wheel_def)
  next
    case inactive: False
    then have ex: "d_expire_at h' = ex_ts e + window_width a" "d_expire_at h = d_expire_at h'"
      by (simp_all add: h'_def h_def d_touch_def)
    from False c(12) have "last_timer a < d_expire_at h'" "unat (d_expire_at h') \<le> unat (last_timer a) + unat T"
      by (simp_all add: ex not_le)
    from dws.wheel_schedule [OF c(11) c(9) this R(3) [folded h'_def]] inactive ex(2)
    show ?thesis by (simp add: wheel_def b_def)
  qed
  ultimately show ?thesis using R(1) c by (simp add: dw_sim_def es'_def h'_def)
qed

lemma dw_sim_new: "dw_sim m T (us_new w) (dw_new w m T)"
  using d_rel_new [of m w]
  by (auto simp: dw_sim_def dw_new_def us_new_def dws.wheel_inv_def d_lookup_fresh)

interpretation dw: reconciler dw_onFeed dw_onTimer dw_alerts "\<lambda>w. dw_new w m T" "\<lambda>n. dw_sim m T" "\<lambda>n. dw_pre m T"
  for m T
proof unfold_locales
  fix n a c f e t
  assume s: "dw_sim m T a c"
  show "dw_alerts c = alerts a" using s by (simp add: dw_sim_def)
  show "dw_pre m T (Feed f e) a \<Longrightarrow> \<exists>c'. dw_onFeed f e c = Some c' \<and> dw_sim m T (us_onFeed f e a) c'"
    using s by (rule dw_sim_feed)
  show "dw_pre m T (Timer t) a \<Longrightarrow> \<exists>c'. dw_onTimer t c = Some c' \<and> dw_sim m T (us_onTimer t a) c'"
    using s by (rule dw_sim_timer)
qed (rule dw_sim_new)

end
