(* ===== verification/Ring_Index.thy ===== *)
theory Ring_Index
  imports Prelude
begin

section \<open>The contents of a circular buffer\<close>

text \<open>
  All rings of the repository keep one slot free: the buffer is empty when the read and the
  write index are equal, and full when the successor of the write index is the read index.
  \<open>ring_items buf r w\<close> lists the stored values from the read index on. The lemmas below are
  what the correctness of every ring class rests on.
\<close>

definition ring_items :: "'a list \<Rightarrow> nat \<Rightarrow> nat \<Rightarrow> 'a list" where
  "ring_items buf r w =
     map (\<lambda>i. buf ! ((r + i) mod length buf)) [0..<(w + length buf - r) mod length buf]"

definition ring_wf :: "'a list \<Rightarrow> nat \<Rightarrow> nat \<Rightarrow> bool" where
  "ring_wf buf r w \<longleftrightarrow> r < length buf \<and> w < length buf"

lemma ring_distance:
  assumes "r < n" "w < (n::nat)"
  shows "(w + n - r) mod n = (if r \<le> w then w - r else w + n - r)"
  using assms by (auto simp: mod_if)

lemma ring_next: "i < n \<Longrightarrow> Suc i mod n = (if Suc i = n then 0 else Suc i)"
  by auto

lemma ring_next_less [simp]: "i < (n::nat) \<Longrightarrow> Suc i mod n < n"
  by (simp add: ring_next)

lemma ring_distance_push:
  assumes "r < n" "w < n" "Suc w mod n \<noteq> r"
  shows "(Suc w mod n + n - r) mod n = Suc ((w + n - r) mod n)"
  using assms by (simp add: ring_distance) (auto simp: ring_next)

lemma ring_distance_pop:
  assumes "r < n" "w < n" "r \<noteq> w"
  shows "(w + n - r) mod n = Suc ((w + n - Suc r mod n) mod n)"
  using assms by (simp add: ring_distance) (auto simp: ring_next)

lemma ring_last:
  assumes "r < n" "w < (n::nat)"
  shows "(r + (w + n - r) mod n) mod n = w"
  using assms by (simp add: ring_distance)

lemma length_ring_items: "length (ring_items buf r w) = (w + length buf - r) mod length buf"
  by (simp add: ring_items_def)

lemma ring_items_length_less: "ring_wf buf r w \<Longrightarrow> length (ring_items buf r w) \<le> length buf - Suc 0"
  by (auto simp: length_ring_items ring_wf_def ring_distance)

lemma ring_items_empty_iff: "ring_wf buf r w \<Longrightarrow> ring_items buf r w = [] \<longleftrightarrow> r = w"
  by (auto simp: length_0_conv [symmetric] length_ring_items ring_wf_def ring_distance
      simp del: length_0_conv split: if_splits)

lemma ring_full_iff:
  "ring_wf buf r w \<Longrightarrow> Suc w mod length buf = r \<longleftrightarrow> length (ring_items buf r w) = length buf - Suc 0"
  by (simp add: length_ring_items ring_wf_def ring_distance) (auto simp: ring_next)

lemma ring_wf_nonempty: "ring_wf buf r w \<Longrightarrow> buf \<noteq> []"
  by (cases buf) (auto simp: ring_wf_def)

lemma ring_wf_push: "ring_wf buf r w \<Longrightarrow> ring_wf (buf[w := x]) r (Suc w mod length buf)"
  by (auto simp: ring_wf_def)

lemma ring_wf_pop: "ring_wf buf r w \<Longrightarrow> ring_wf (buf[r := x]) (Suc r mod length buf) w"
  by (auto simp: ring_wf_def)

lemma ring_wf_pop': "ring_wf buf r w \<Longrightarrow> ring_wf buf (Suc r mod length buf) w"
  by (auto simp: ring_wf_def)

text \<open>A slot is read or written at the position its index in the stored list names.\<close>

lemma ring_items_push:
  assumes wf: "ring_wf buf r w" and room: "Suc w mod length buf \<noteq> r"
  shows "ring_items (buf[w := x]) r (Suc w mod length buf) = ring_items buf r w @ [x]"
proof -
  let ?n = "length buf"
  let ?d = "(w + ?n - r) mod ?n"
  have d: "(Suc w mod ?n + ?n - r) mod ?n = Suc ?d"
    using wf room by (simp add: ring_wf_def ring_distance_push)
  have last: "(r + ?d) mod ?n = w"
    using wf by (simp add: ring_wf_def ring_last)
  have "(r + i) mod ?n \<noteq> w" if "i < ?d" for i
  proof
    assume "(r + i) mod ?n = w"
    with last have "(r + i) mod ?n = (r + ?d) mod ?n" by simp
    moreover have "?d < ?n" using wf by (cases buf) (auto simp: ring_wf_def)
    ultimately have "i = ?d" using that by (meson less_trans mod_add_inj)
    with that show False by simp
  qed
  then have "buf[w := x] ! ((r + i) mod ?n) = buf ! ((r + i) mod ?n)" if "i < ?d" for i
    using that by (metis nth_list_update_neq)
  then have "map (\<lambda>i. buf[w := x] ! ((r + i) mod ?n)) [0..<?d] = ring_items buf r w"
    by (simp add: ring_items_def)
  moreover have "buf[w := x] ! ((r + ?d) mod ?n) = x"
    using wf last by (simp add: ring_wf_def)
  ultimately show ?thesis
    by (simp add: ring_items_def [of "buf[w := x]"] d)
qed

lemma ring_items_pop:
  assumes wf: "ring_wf buf r w" and some: "r \<noteq> w"
  shows "ring_items buf r w = buf ! r # ring_items buf (Suc r mod length buf) w"
proof -
  let ?n = "length buf"
  let ?d = "(w + ?n - Suc r mod ?n) mod ?n"
  have d: "(w + ?n - r) mod ?n = Suc ?d"
    using wf some by (simp add: ring_wf_def ring_distance_pop)
  have "(r + Suc i) mod ?n = (Suc r mod ?n + i) mod ?n" for i
    by (simp add: mod_add_left_eq)
  then show ?thesis
    using wf by (simp add: ring_items_def d map_upt_Suc_front ring_wf_def del: upt_Suc)
qed

text \<open>What is left in a slot after its value was taken out does not matter.\<close>

lemma ring_items_dead_slot:
  assumes wf: "ring_wf buf r w" and some: "r \<noteq> w"
  shows "ring_items (buf[r := x]) (Suc r mod length buf) w = ring_items buf (Suc r mod length buf) w"
proof -
  let ?n = "length buf"
  let ?d = "(w + ?n - Suc r mod ?n) mod ?n"
  have n: "(w + ?n - r) mod ?n = Suc ?d" and pos: "0 < ?n"
    using wf some by (auto simp: ring_wf_def ring_distance_pop)
  then have d: "Suc ?d < ?n" by (metis mod_less_divisor)
  have "(Suc r mod ?n + i) mod ?n \<noteq> r" if "i < ?d" for i
  proof
    assume "(Suc r mod ?n + i) mod ?n = r"
    then have "(r + Suc i) mod ?n = (r + 0) mod ?n"
      using wf by (simp add: mod_add_left_eq ring_wf_def)
    moreover have "Suc i < ?n" "0 < ?n" using that d wf by (auto simp: ring_wf_def)
    ultimately show False using mod_add_inj by blast
  qed
  then have "buf[r := x] ! ((Suc r mod ?n + i) mod ?n) = buf ! ((Suc r mod ?n + i) mod ?n)" if "i < ?d" for i
    using that by (metis nth_list_update_neq)
  then show ?thesis by (auto simp: ring_items_def)
qed

lemmas ring_queue_facts =
  ring_items_length_less ring_items_empty_iff ring_full_iff ring_wf_push ring_wf_pop ring_wf_pop'
  ring_items_push ring_items_pop ring_items_dead_slot

text \<open>
  Rings whose size is a power of two reduce an index with a mask instead of a division. Their
  \<open>static_assert((N & (N - 1)) == 0)\<close> is exactly what makes the two agree.
\<close>

lemma power_of_two_check: "0 < n \<Longrightarrow> n AND (n - 1) = 0 \<Longrightarrow> \<exists>k. n = 2 ^ k" for n :: nat
proof (induction n rule: less_induct)
  case (less n)
  have half: "(n div 2) AND ((n - 1) div 2) = 0"
    using less.prems(2) drop_bit_and [of 1 n "n - 1"] by (simp add: drop_bit_Suc)
  show ?case
  proof (cases "even n")
    case True
    then obtain m where m: "n = 2 * m" by blast
    with less.prems(1) have "0 < m" "(n - 1) div 2 = m - 1" by auto
    with half m have "m AND (m - 1) = 0" by simp
    with less.IH [of m] m \<open>0 < m\<close> obtain k where "m = 2 ^ k" by auto
    with m have "n = 2 ^ Suc k" by simp
    then show ?thesis ..
  next
    case False
    then obtain m where m: "n = 2 * m + 1" by (elim oddE)
    with half have "m = 0" by simp
    with m have "n = 2 ^ 0" by simp
    then show ?thesis ..
  qed
qed

lemma mask_index:
  fixes i n :: nat
  assumes "0 < n" "n AND (n - 1) = 0"
  shows "i AND (n - 1) = i mod n"
proof -
  from power_of_two_check [OF assms] obtain k where "n = 2 ^ k" by blast
  then show ?thesis
    by (simp add: take_bit_eq_mod [symmetric] take_bit_eq_mask mask_eq_exp_minus_1)
qed

end
