(* ===== verification/Flat_Table.thy ===== *)
theory Flat_Table
  imports Recon_Heap Expiry_Store Ring_Index
begin

section \<open>The open-addressing table of the flat-hash reconcilers\<close>

text \<open>
  \<open>ReconcilerFlatHashHeap\<close> and \<open>ReconcilerFlatHashWheel\<close> keep their entries in a table of
  \<open>2 ^ j\<close> slots with linear probing. A slot's key is an id, \<open>kEmpty = 0\<close> or the tombstone
  \<open>kTomb = 1\<close>, so the table can only hold ids from 2. The probe loops have no exit but an empty
  slot or the key: they are partial functions, and a table without an empty slot makes them run
  forever. Under the invariant \<open>ft_ok\<close> (live keys are distinct, each is reachable from its home
  slot over non-empty slots, at most \<open>k < 2 ^ j\<close> slots are not empty) they return, and the table
  is a map from ids to entries.
\<close>

abbreviation kEmpty :: u64 where "kEmpty \<equiv> 0"
abbreviation kTomb :: u64 where "kTomb \<equiv> 1"
abbreviation npos :: u64 where "npos \<equiv> -1"

record ftab =
  ft_keys :: "u64 list"
  ft_entries :: "hentry list"
  ft_used :: "bool list"
  ft_mask :: u64

definition mix :: "u64 \<Rightarrow> u64" where
  "mix x0 =
     (let x = x0 + 0x9e3779b97f4a7c15;
          x = (x XOR (drop_bit 30 x)) * 0xbf58476d1ce4e5b9;
          x = (x XOR (drop_bit 27 x)) * 0x94d049bb133111eb
      in x XOR (drop_bit 31 x))"

definition probe :: "ftab \<Rightarrow> u64 \<Rightarrow> u64" where
  "probe s i = mix i AND ft_mask s"

partial_function (option) findOrInsert_from :: "u64 \<Rightarrow> u64 \<Rightarrow> u64 \<Rightarrow> ftab \<Rightarrow> (u64 \<times> ftab) option" where
  "findOrInsert_from i idx first_tomb s =
     (let k = ft_keys s ! unat idx in
      if k = kEmpty then
        (let idx = (if first_tomb \<noteq> npos then first_tomb else idx) in
         Some (idx, s\<lparr>ft_keys := (ft_keys s)[unat idx := i], ft_used := (ft_used s)[unat idx := True],
                      ft_entries := (ft_entries s)[unat idx := new_hentry]\<rparr>))
      else if k = kTomb then
        findOrInsert_from i ((idx + 1) AND ft_mask s) (if first_tomb = npos then idx else first_tomb) s
      else if k = i then Some (idx, s)
      else findOrInsert_from i ((idx + 1) AND ft_mask s) first_tomb s)"

declare findOrInsert_from.simps [code]

definition findOrInsert :: "u64 \<Rightarrow> ftab \<Rightarrow> (u64 \<times> ftab) option" where
  "findOrInsert i s = findOrInsert_from i (probe s i) npos s"

partial_function (option) findIndex_from :: "u64 \<Rightarrow> u64 \<Rightarrow> ftab \<Rightarrow> u64 option" where
  "findIndex_from i idx s =
     (let k = ft_keys s ! unat idx in
      if k = kEmpty then Some npos
      else if k \<noteq> kTomb \<and> k = i then Some idx
      else findIndex_from i ((idx + 1) AND ft_mask s) s)"

declare findIndex_from.simps [code]

definition findIndex :: "u64 \<Rightarrow> ftab \<Rightarrow> u64 option" where
  "findIndex i s = findIndex_from i (probe s i) s"

definition eraseAt :: "u64 \<Rightarrow> ftab \<Rightarrow> ftab" where
  "eraseAt idx s = s\<lparr>ft_keys := (ft_keys s)[unat idx := kTomb], ft_used := (ft_used s)[unat idx := False],
     ft_entries := (ft_entries s)[unat idx := new_hentry]\<rparr>"

text \<open>The loop of the constructor that doubles the capacity, and the table it then makes.\<close>

partial_function (option) cap_loop :: "u64 \<Rightarrow> u64 \<Rightarrow> u64 option" where
  "cap_loop cap target = (if cap < target then cap_loop (push_bit 1 cap) target else Some cap)"

declare cap_loop.simps [code]

definition ftab_new :: "u64 \<Rightarrow> ftab" where
  "ftab_new cap = \<lparr>ft_keys = replicate (unat cap) kEmpty, ft_entries = replicate (unat cap) new_hentry,
     ft_used = replicate (unat cap) False, ft_mask = cap - 1\<rparr>"

subsection \<open>The capacity\<close>

lemma unat_exp: "j < 64 \<Longrightarrow> unat (2 ^ j :: u64) = 2 ^ j"
proof -
  assume "j < 64"
  have "(2 ^ j :: u64) = of_nat (2 ^ j)" by simp
  moreover have "(2::nat) ^ j < 2 ^ 64" using \<open>j < 64\<close> by (simp only: power_strict_increasing_iff)
  ultimately show ?thesis by (simp only: unat_of_nat) simp
qed

lemma cap_loop_pow:
  assumes "unat target \<le> 2 ^ 63" "j < 64" "j = 0 \<or> 2 ^ (j - 1) < unat target"
  shows "\<exists>i<64. cap_loop (2 ^ j) target = Some (2 ^ i) \<and> unat target \<le> 2 ^ i \<and> (i = 0 \<or> 2 ^ (i - 1) < unat target)"
  using assms
proof (induction "64 - j" arbitrary: j rule: less_induct)
  case less
  show ?case
  proof (cases "(2 ^ j :: u64) < target")
    case True
    then have lt: "2 ^ j < unat target" using less.prems(2) by (simp add: word_less_nat_alt unat_exp)
    with less.prems(1) have "(2::nat) ^ j < 2 ^ 63" by linarith
    then have j: "j < 63" by (simp only: power_strict_increasing_iff)
    have "push_bit 1 (2 ^ j :: u64) = 2 ^ Suc j" by (simp add: push_bit_eq_mult)
    moreover have "\<exists>i<64. cap_loop (2 ^ Suc j) target = Some (2 ^ i) \<and> unat target \<le> 2 ^ i \<and>
        (i = 0 \<or> 2 ^ (i - 1) < unat target)"
      using j lt less.prems by (intro less.hyps) auto
    ultimately show ?thesis using True by (subst cap_loop.simps) (simp del: power_Suc)
  next
    case False
    then have "unat target \<le> 2 ^ j" using less.prems(2) by (simp add: not_less word_le_nat_alt unat_exp)
    with False less.prems show ?thesis by (subst cap_loop.simps) auto
  qed
qed

text \<open>
  A target above \<open>2 ^ 63\<close> makes the doubled capacity wrap to zero, and the loop never ends.
\<close>

lemma cap_loop_zero: "0 < target \<Longrightarrow> cap_loop 0 target = None"
proof (rule ccontr)
  assume t: "0 < target" and "cap_loop 0 target \<noteq> None"
  then obtain r where r: "cap_loop 0 target = Some r" by auto
  have step: "0 < tgt \<longrightarrow> cap \<noteq> 0"
    if IH: "\<And>c t y. f c t = Some y \<Longrightarrow> 0 < t \<longrightarrow> c \<noteq> 0"
      and y: "(if cap < tgt then f (push_bit 1 cap) tgt else Some cap) = Some y" for f and cap tgt y :: u64
  proof (intro impI notI)
    assume "0 < tgt" "cap = 0"
    with y have "f 0 tgt = Some y" by simp
    from IH [OF this] \<open>0 < tgt\<close> show False by simp
  qed
  have "0 < target \<longrightarrow> (0::u64) \<noteq> 0"
    by (rule cap_loop.raw_induct [where P = "\<lambda>c t y. 0 < t \<longrightarrow> c \<noteq> 0", OF step r])
  with t show False by simp
qed

lemma cap_loop_overflow:
  assumes "2 ^ 63 < unat target" "j \<le> 64"
  shows "cap_loop (2 ^ j) target = None"
  using assms(2)
proof (induction "64 - j" arbitrary: j)
  case 0
  then have "j = 64" by simp
  moreover have "(2 ^ 64 :: u64) = 0" by simp
  moreover have "0 < target" using assms(1) by (simp add: word_less_nat_alt)
  ultimately show ?case by (simp only: cap_loop_zero)
next
  case (Suc d)
  then have "j \<le> 63" by simp
  then have "(2::nat) ^ j \<le> 2 ^ 63" by (rule power_increasing) simp
  then have "(2 ^ j :: u64) < target"
    using assms(1) \<open>j \<le> 63\<close> by (simp add: word_less_nat_alt unat_exp)
  moreover have "push_bit 1 (2 ^ j :: u64) = 2 ^ Suc j" by (simp add: push_bit_eq_mult)
  moreover have "cap_loop (2 ^ Suc j) target = None" using Suc by (intro Suc.hyps(1)) auto
  ultimately show ?case by (subst cap_loop.simps) (simp del: power_Suc)
qed

subsection \<open>Probing\<close>

text \<open>The table has \<open>2 ^ j\<close> slots; \<open>cell s p\<close> is the key in slot \<open>p\<close>, and \<open>home s i\<close> the slot of \<open>i\<close>.\<close>

definition ft_wf :: "nat \<Rightarrow> ftab \<Rightarrow> bool" where
  "ft_wf j s \<longleftrightarrow> j < 64 \<and> ft_mask s = 2 ^ j - 1 \<and> length (ft_keys s) = 2 ^ j \<and>
     length (ft_entries s) = 2 ^ j \<and> length (ft_used s) = 2 ^ j"

abbreviation cell :: "ftab \<Rightarrow> nat \<Rightarrow> u64" where
  "cell s p \<equiv> ft_keys s ! p"

abbreviation home :: "ftab \<Rightarrow> u64 \<Rightarrow> nat" where
  "home s i \<equiv> unat (probe s i)"

lemma and_mask_index:
  assumes "j < 64"
  shows "unat (x AND (2 ^ j - 1) :: u64) = unat x mod 2 ^ j"
proof -
  have "x AND (2 ^ j - 1) = take_bit j x" by (simp add: take_bit_eq_mask mask_eq_exp_minus_1)
  then show ?thesis by (simp only: unsigned_take_bit_eq) (simp add: take_bit_eq_mod)
qed

lemma next_index:
  assumes "ft_wf j s"
  shows "unat ((idx + 1) AND ft_mask s) = Suc (unat idx) mod 2 ^ j"
proof -
  have "2 ^ j dvd (2 ^ 64 :: nat)" using assms by (intro le_imp_power_dvd) (simp add: ft_wf_def)
  then have "unat (idx + 1) mod 2 ^ j = Suc (unat idx) mod 2 ^ j"
    by (simp add: unat_word_ariths mod_mod_cancel)
  with assms show ?thesis by (simp add: ft_wf_def and_mask_index)
qed

lemma home_less: "ft_wf j s \<Longrightarrow> home s i < 2 ^ j"
  by (simp add: probe_def ft_wf_def and_mask_index)

lemma not_npos: "j < 64 \<Longrightarrow> unat idx < 2 ^ j \<Longrightarrow> idx \<noteq> npos"
proof
  assume "j < 64" "unat idx < 2 ^ j" "idx = npos"
  moreover have "(2::nat) ^ j \<le> 2 ^ 63" using \<open>j < 64\<close> by (intro power_increasing) auto
  ultimately show False by (simp add: unsigned_minus_1_eq_mask mask_eq_exp_minus_1)
qed

text \<open>The \<open>d\<close>-th slot of a probe sequence, one step later in the sequence of the next slot.\<close>

lemma path_Suc: "(Suc a mod n + d) mod n = (a + Suc d) mod (n::nat)"
  by (simp add: mod_simps)

lemma findIndex_miss:
  assumes "ft_wf j s" "unat idx < 2 ^ j" "cell s ((unat idx + e) mod 2 ^ j) = kEmpty"
    "\<And>d. d < e \<Longrightarrow> cell s ((unat idx + d) mod 2 ^ j) \<noteq> kEmpty \<and>
       (i \<noteq> kTomb \<longrightarrow> cell s ((unat idx + d) mod 2 ^ j) \<noteq> i)"
  shows "findIndex_from i idx s = Some npos"
  using assms(2-)
proof (induction e arbitrary: idx)
  case 0
  then show ?case by (subst findIndex_from.simps) simp
next
  case (Suc e)
  let ?next = "(idx + 1) AND ft_mask s"
  have n: "unat ?next = Suc (unat idx) mod 2 ^ j" using assms(1) by (rule next_index)
  have "findIndex_from i ?next s = Some npos"
  proof (rule Suc.IH)
    show "unat ?next < 2 ^ j" by (simp add: n)
    show "cell s ((unat ?next + e) mod 2 ^ j) = kEmpty" using Suc.prems(2) unfolding n path_Suc .
    show "cell s ((unat ?next + d) mod 2 ^ j) \<noteq> kEmpty \<and>
        (i \<noteq> kTomb \<longrightarrow> cell s ((unat ?next + d) mod 2 ^ j) \<noteq> i)" if "d < e" for d
      using Suc.prems(3) [of "Suc d"] that unfolding n path_Suc by simp
  qed
  moreover have "cell s (unat idx) \<noteq> kEmpty \<and> (i \<noteq> kTomb \<longrightarrow> cell s (unat idx) \<noteq> i)"
    using Suc.prems(3) [of 0] Suc.prems(1) by simp
  ultimately show ?case by (subst findIndex_from.simps) (auto simp: Let_def)
qed

lemma findIndex_hit:
  assumes "ft_wf j s" "unat idx < 2 ^ j" "cell s ((unat idx + e) mod 2 ^ j) = i" "i \<noteq> kEmpty" "i \<noteq> kTomb"
    "\<And>d. d < e \<Longrightarrow> cell s ((unat idx + d) mod 2 ^ j) \<noteq> kEmpty \<and> cell s ((unat idx + d) mod 2 ^ j) \<noteq> i"
  shows "\<exists>r. findIndex_from i idx s = Some r \<and> unat r = (unat idx + e) mod 2 ^ j"
    and "\<exists>r. findOrInsert_from i idx ft s = Some (r, s) \<and> unat r = (unat idx + e) mod 2 ^ j"
proof -
  have "(\<exists>r. findIndex_from i idx s = Some r \<and> unat r = (unat idx + e) mod 2 ^ j) \<and>
    (\<exists>r. findOrInsert_from i idx ft s = Some (r, s) \<and> unat r = (unat idx + e) mod 2 ^ j)"
    using assms(2,3,6)
  proof (induction e arbitrary: idx ft)
    case 0
    with assms(4,5) show ?case
      by (subst findIndex_from.simps, subst findOrInsert_from.simps) (simp add: Let_def)
  next
    case (Suc e)
    let ?next = "(idx + 1) AND ft_mask s"
    have n: "unat ?next = Suc (unat idx) mod 2 ^ j" using assms(1) by (rule next_index)
    have "(\<exists>r. findIndex_from i ?next s = Some r \<and> unat r = (unat ?next + e) mod 2 ^ j) \<and>
      (\<exists>r. findOrInsert_from i ?next ft s = Some (r, s) \<and> unat r = (unat ?next + e) mod 2 ^ j)" for ft
    proof (rule Suc.IH)
      show "unat ?next < 2 ^ j" by (simp add: n)
      show "cell s ((unat ?next + e) mod 2 ^ j) = i" using Suc.prems(2) unfolding n path_Suc .
      show "cell s ((unat ?next + d) mod 2 ^ j) \<noteq> kEmpty \<and> cell s ((unat ?next + d) mod 2 ^ j) \<noteq> i"
        if "d < e" for d
        using Suc.prems(3) [of "Suc d"] that unfolding n path_Suc by simp
    qed
    moreover have "cell s (unat idx) \<noteq> kEmpty" "cell s (unat idx) \<noteq> i"
      using Suc.prems(3) [of 0] Suc.prems(1) by simp_all
    ultimately show ?case
      unfolding n path_Suc
      by (subst findIndex_from.simps, subst findOrInsert_from.simps) (simp add: Let_def)
  qed
  then show "\<exists>r. findIndex_from i idx s = Some r \<and> unat r = (unat idx + e) mod 2 ^ j"
    "\<exists>r. findOrInsert_from i idx ft s = Some (r, s) \<and> unat r = (unat idx + e) mod 2 ^ j" by blast+
qed

text \<open>What \<open>findOrInsert\<close> does to the slot it takes.\<close>

definition ft_put :: "u64 \<Rightarrow> u64 \<Rightarrow> ftab \<Rightarrow> ftab" where
  "ft_put idx i s = s\<lparr>ft_keys := (ft_keys s)[unat idx := i], ft_used := (ft_used s)[unat idx := True],
     ft_entries := (ft_entries s)[unat idx := new_hentry]\<rparr>"

lemma findOrInsert_miss:
  assumes "ft_wf j s" "unat idx < 2 ^ j" "cell s ((unat idx + e) mod 2 ^ j) = kEmpty"
    "\<And>d. d < e \<Longrightarrow> cell s ((unat idx + d) mod 2 ^ j) \<noteq> kEmpty \<and>
       (i \<noteq> kTomb \<longrightarrow> cell s ((unat idx + d) mod 2 ^ j) \<noteq> i)"
  shows "\<exists>r. findOrInsert_from i idx ft s = Some (r, ft_put r i s) \<and>
    (if ft \<noteq> npos then r = ft else
      \<exists>d\<le>e. unat r = (unat idx + d) mod 2 ^ j \<and> (cell s (unat r) = kEmpty \<or> cell s (unat r) = kTomb))"
  using assms(2-)
proof (induction e arbitrary: idx ft)
  case 0
  then show ?case
    by (subst findOrInsert_from.simps) (simp add: Let_def ft_put_def)
next
  case (Suc e)
  let ?next = "(idx + 1) AND ft_mask s"
  have n: "unat ?next = Suc (unat idx) mod 2 ^ j" using assms(1) by (rule next_index)
  have IH: "\<exists>r. findOrInsert_from i ?next ft s = Some (r, ft_put r i s) \<and>
    (if ft \<noteq> npos then r = ft else
      \<exists>d\<le>e. unat r = (unat ?next + d) mod 2 ^ j \<and> (cell s (unat r) = kEmpty \<or> cell s (unat r) = kTomb))" for ft
  proof (rule Suc.IH)
    show "unat ?next < 2 ^ j" by (simp add: n)
    show "cell s ((unat ?next + e) mod 2 ^ j) = kEmpty" using Suc.prems(2) unfolding n path_Suc .
    show "cell s ((unat ?next + d) mod 2 ^ j) \<noteq> kEmpty \<and>
        (i \<noteq> kTomb \<longrightarrow> cell s ((unat ?next + d) mod 2 ^ j) \<noteq> i)"
      if "d < e" for d
      using Suc.prems(3) [of "Suc d"] that unfolding n path_Suc by simp
  qed
  have c: "cell s (unat idx) \<noteq> kEmpty" "i \<noteq> kTomb \<longrightarrow> cell s (unat idx) \<noteq> i"
    using Suc.prems(3) [of 0] Suc.prems(1) by simp_all
  have idx: "idx \<noteq> npos" using assms(1) Suc.prems(1) by (intro not_npos [of j]) (auto simp: ft_wf_def)
  consider "ft \<noteq> npos" | "ft = npos" "cell s (unat idx) = kTomb" | "ft = npos" "cell s (unat idx) \<noteq> kTomb" by blast
  then show ?case
  proof cases
    case 1
    with IH [of ft] c show ?thesis by (subst findOrInsert_from.simps) (auto simp: Let_def)
  next
    case 2
    with IH [of idx] c idx Suc.prems(1) show ?thesis
      by (subst findOrInsert_from.simps) (auto simp: Let_def intro!: exI [of _ 0])
  next
    case 3
    from IH [of npos] obtain r d where r: "findOrInsert_from i ?next npos s = Some (r, ft_put r i s)"
      "d \<le> e" "unat r = (unat ?next + d) mod 2 ^ j" "cell s (unat r) = kEmpty \<or> cell s (unat r) = kTomb" by auto
    then have "unat r = (unat idx + Suc d) mod 2 ^ j" "Suc d \<le> Suc e" by (simp_all only: n path_Suc)
    with r 3 c show ?thesis by (subst findOrInsert_from.simps) (auto simp: Let_def)
  qed
qed

subsection \<open>The table is a map\<close>

definition ft_ok :: "nat \<Rightarrow> nat \<Rightarrow> ftab \<Rightarrow> bool" where
  "ft_ok j k s \<longleftrightarrow> ft_wf j s \<and>
     (\<forall>p<2 ^ j. \<forall>q<2 ^ j. cell s p = cell s q \<longrightarrow> cell s p \<noteq> kEmpty \<longrightarrow> cell s p \<noteq> kTomb \<longrightarrow> p = q) \<and>
     (\<forall>p<2 ^ j. cell s p \<noteq> kEmpty \<longrightarrow> cell s p \<noteq> kTomb \<longrightarrow> ft_used s ! p \<and>
        (\<exists>e<2 ^ j. p = (home s (cell s p) + e) mod 2 ^ j \<and>
          (\<forall>d<e. cell s ((home s (cell s p) + d) mod 2 ^ j) \<noteq> kEmpty))) \<and>
     card {p. p < 2 ^ j \<and> cell s p \<noteq> kEmpty} \<le> k \<and> k < 2 ^ j"

definition ft_lookup :: "ftab \<Rightarrow> u64 \<rightharpoonup> hentry" where
  "ft_lookup s i = (if i = kEmpty \<or> i = kTomb then None else map_of (zip (ft_keys s) (ft_entries s)) i)"

lemma ft_ok_wf: "ft_ok j k s \<Longrightarrow> ft_wf j s"
  by (simp add: ft_ok_def)

lemma ft_distinct:
  "ft_ok j k s \<Longrightarrow> p < 2 ^ j \<Longrightarrow> q < 2 ^ j \<Longrightarrow> cell s p = i \<Longrightarrow> cell s q = i \<Longrightarrow> i \<noteq> kEmpty \<Longrightarrow> i \<noteq> kTomb \<Longrightarrow> p = q"
  unfolding ft_ok_def by (elim conjE) simp

lemma ft_path:
  assumes "ft_ok j k s" "p < 2 ^ j" "cell s p \<noteq> kEmpty" "cell s p \<noteq> kTomb"
  obtains e where "ft_used s ! p" "e < 2 ^ j" "p = (home s (cell s p) + e) mod 2 ^ j"
    "\<And>d. d < e \<Longrightarrow> cell s ((home s (cell s p) + d) mod 2 ^ j) \<noteq> kEmpty"
proof -
  from assms(1) have "\<forall>p<2 ^ j. cell s p \<noteq> kEmpty \<longrightarrow> cell s p \<noteq> kTomb \<longrightarrow> ft_used s ! p \<and>
        (\<exists>e<2 ^ j. p = (home s (cell s p) + e) mod 2 ^ j \<and>
          (\<forall>d<e. cell s ((home s (cell s p) + d) mod 2 ^ j) \<noteq> kEmpty))"
    unfolding ft_ok_def by (elim conjE)
  with assms(2-4) have "ft_used s ! p \<and> (\<exists>e<2 ^ j. p = (home s (cell s p) + e) mod 2 ^ j \<and>
          (\<forall>d<e. cell s ((home s (cell s p) + d) mod 2 ^ j) \<noteq> kEmpty))" by simp
  then show thesis by (elim conjE exE) (rule that, assumption+, blast)
qed

lemma ft_lookup_iff:
  assumes "ft_ok j k s"
  shows "ft_lookup s i = Some x \<longleftrightarrow> i \<noteq> kEmpty \<and> i \<noteq> kTomb \<and> (\<exists>p<2 ^ j. cell s p = i \<and> ft_entries s ! p = x)"
proof -
  from assms have len: "length (ft_keys s) = 2 ^ j" "length (ft_entries s) = 2 ^ j"
    by (simp_all add: ft_ok_def ft_wf_def)
  have "\<exists>p<2 ^ j. cell s p = i \<and> ft_entries s ! p = x" if "map_of (zip (ft_keys s) (ft_entries s)) i = Some x" for x
    using map_of_SomeD [OF that] len by (force simp: in_set_zip)
  note some = this
  show ?thesis
  proof
    assume "ft_lookup s i = Some x"
    then show "i \<noteq> kEmpty \<and> i \<noteq> kTomb \<and> (\<exists>p<2 ^ j. cell s p = i \<and> ft_entries s ! p = x)"
      using some by (auto simp: ft_lookup_def split: if_splits)
  next
    assume r: "i \<noteq> kEmpty \<and> i \<noteq> kTomb \<and> (\<exists>p<2 ^ j. cell s p = i \<and> ft_entries s ! p = x)"
    then obtain p where p: "p < 2 ^ j" "cell s p = i" "ft_entries s ! p = x" by blast
    then have "i \<in> set (ft_keys s)" using len by (auto simp: in_set_conv_nth)
    then obtain y where y: "map_of (zip (ft_keys s) (ft_entries s)) i = Some y"
      using len map_of_zip_is_Some [of "ft_keys s" "ft_entries s"] by auto
    from some [OF this] obtain q where "q < 2 ^ j" "cell s q = i" "ft_entries s ! q = y" by blast
    with ft_distinct [OF assms] p r have "x = y" by metis
    with y r show "ft_lookup s i = Some x" by (simp add: ft_lookup_def)
  qed
qed

lemma map_eqI: "(\<And>i x. m i = Some x \<longleftrightarrow> m' i = Some x) \<Longrightarrow> m = m'"
  by (rule ext) (metis not_Some_eq)

lemma ft_lookup_NoneD:
  "ft_ok j k s \<Longrightarrow> ft_lookup s i = None \<Longrightarrow> i \<noteq> kEmpty \<Longrightarrow> i \<noteq> kTomb \<Longrightarrow> p < 2 ^ j \<Longrightarrow> cell s p \<noteq> i"
  using ft_lookup_iff [of j k s i] by auto

text \<open>A probe sequence reaches an empty slot.\<close>

lemma ft_empty_ahead:
  assumes "ft_ok j k s"
  shows "\<exists>e. cell s ((h + e) mod 2 ^ j) = kEmpty \<and> (\<forall>d<e. cell s ((h + d) mod 2 ^ j) \<noteq> kEmpty)"
proof -
  have "\<exists>p<2 ^ j. cell s p = kEmpty"
  proof (rule ccontr)
    assume "\<not> (\<exists>p<2 ^ j. cell s p = kEmpty)"
    then have "{p. p < 2 ^ j \<and> cell s p \<noteq> kEmpty} = {..<2 ^ j}" by auto
    then have "card {p. p < 2 ^ j \<and> cell s p \<noteq> kEmpty} = 2 ^ j" by (simp only: card_lessThan)
    moreover have "card {p. p < 2 ^ j \<and> cell s p \<noteq> kEmpty} \<le> k" "k < 2 ^ j"
      using assms by (simp_all only: ft_ok_def)
    ultimately show False by linarith
  qed
  then obtain p where p: "p < 2 ^ j" "cell s p = kEmpty" by blast
  have "(h + (p + (2 ^ j - h mod 2 ^ j))) mod 2 ^ j = p"
  proof -
    have "(h + (p + (2 ^ j - h mod 2 ^ j))) mod 2 ^ j = (h mod 2 ^ j + (p + (2 ^ j - h mod 2 ^ j))) mod 2 ^ j"
      by (simp add: mod_simps)
    also have "h mod 2 ^ j + (p + (2 ^ j - h mod 2 ^ j)) = p + 2 ^ j"
    proof -
      have "h mod 2 ^ j \<le> 2 ^ j" by (rule less_imp_le) simp
      then show ?thesis by linarith
    qed
    finally show ?thesis using p(1) by simp
  qed
  with p(2) have "\<exists>e. cell s ((h + e) mod 2 ^ j) = kEmpty" by metis
  then show ?thesis using exists_least_iff [of "\<lambda>e. cell s ((h + e) mod 2 ^ j) = kEmpty"] by blast
qed

lemma ft_findIndex_None:
  assumes "ft_ok j k s" "ft_lookup s i = None"
  shows "findIndex i s = Some npos"
proof -
  obtain e where e: "cell s ((home s i + e) mod 2 ^ j) = kEmpty"
    "\<And>d. d < e \<Longrightarrow> cell s ((home s i + d) mod 2 ^ j) \<noteq> kEmpty"
    using ft_empty_ahead [OF assms(1), of "home s i"] by blast
  have "cell s ((home s i + d) mod 2 ^ j) \<noteq> kEmpty \<and> (i \<noteq> kTomb \<longrightarrow> cell s ((home s i + d) mod 2 ^ j) \<noteq> i)"
    if "d < e" for d
    using e(2) [OF that] ft_lookup_NoneD [OF assms, of "(home s i + d) mod 2 ^ j"] by auto
  with e(1) ft_ok_wf [OF assms(1)] show ?thesis
    unfolding findIndex_def by (intro findIndex_miss home_less) auto
qed

lemma ft_find_Some:
  assumes "ft_ok j k s" "ft_lookup s i = Some x"
  obtains r where "findIndex i s = Some r" "findOrInsert i s = Some (r, s)" "r \<noteq> npos" "unat r < 2 ^ j"
    "cell s (unat r) = i" "ft_entries s ! unat r = x" "ft_used s ! unat r" "i \<noteq> kEmpty" "i \<noteq> kTomb"
proof -
  note wf = ft_ok_wf [OF assms(1)]
  from assms obtain p where p: "p < 2 ^ j" "cell s p = i" "ft_entries s ! p = x" and i: "i \<noteq> kEmpty" "i \<noteq> kTomb"
    by (auto simp: ft_lookup_iff)
  obtain e where e: "ft_used s ! p" "e < 2 ^ j" "p = (home s i + e) mod 2 ^ j"
    "\<And>d. d < e \<Longrightarrow> cell s ((home s i + d) mod 2 ^ j) \<noteq> kEmpty"
    using ft_path [OF assms(1) p(1)] i unfolding p(2) by metis
  have "cell s ((home s i + d) mod 2 ^ j) \<noteq> i" if "d < e" for d
  proof
    assume "cell s ((home s i + d) mod 2 ^ j) = i"
    with p i have "(home s i + d) mod 2 ^ j = (home s i + e) mod 2 ^ j"
      using ft_distinct [OF assms(1), of "(home s i + d) mod 2 ^ j" p i] e(3) by simp
    from mod_add_inj [OF this] that e(2) show False by simp
  qed
  note free = this
  have path: "cell s ((home s i + d) mod 2 ^ j) \<noteq> kEmpty \<and> cell s ((home s i + d) mod 2 ^ j) \<noteq> i" if "d < e" for d
    using e(4) [OF that] free [OF that] by simp
  note hit = findIndex_hit [OF wf home_less [OF wf] p(2) [unfolded e(3)] i path]
  from hit(1) obtain r where r: "findIndex i s = Some r" "unat r = p" unfolding findIndex_def e(3) by auto
  from hit(2) [of npos] obtain r' where r': "findOrInsert i s = Some (r', s)" "unat r' = p"
    unfolding findOrInsert_def e(3) by auto
  from r(2) r'(2) have "r' = r" by (simp add: word_unat_eq_iff)
  moreover have "r \<noteq> npos" using wf r(2) p(1) by (intro not_npos [of j]) (auto simp: ft_wf_def)
  ultimately show thesis using r r' p e(1) i by (intro that [of r]) simp_all
qed

text \<open>
  Writing one slot: with a tombstone, or with an id that is not in the table and whose probe
  sequence reaches the slot over non-empty ones.
\<close>

text \<open>Writing one cell occupies at most one more.\<close>

lemma ft_occupied_update:
  assumes "\<And>p. cell s' p = (if p = r then v else cell s p)" "v \<noteq> kEmpty" "card {p. p < 2 ^ j \<and> cell s p \<noteq> kEmpty} \<le> k"
    "k \<le> k'" "cell s r = kEmpty \<Longrightarrow> Suc k \<le> k'"
  shows "card {p. p < 2 ^ j \<and> cell s' p \<noteq> kEmpty} \<le> k'"
proof (cases "cell s r = kEmpty")
  case True
  have "card {p. p < 2 ^ j \<and> cell s' p \<noteq> kEmpty} \<le> card (insert r {p. p < 2 ^ j \<and> cell s p \<noteq> kEmpty})"
    by (intro card_mono) (auto simp: assms(1))
  also have "\<dots> \<le> Suc (card {p. p < 2 ^ j \<and> cell s p \<noteq> kEmpty})" by (rule card_insert_le_m1) simp_all
  finally show ?thesis using assms(3) assms(5) [OF True] by simp
next
  case False
  then have "{p. p < 2 ^ j \<and> cell s' p \<noteq> kEmpty} = {p. p < 2 ^ j \<and> cell s p \<noteq> kEmpty}"
    using assms(2) by (auto simp: assms(1))
  with assms(3,4) show ?thesis by simp
qed

lemma ft_ok_update:
  assumes ok: "ft_ok j k s" and r: "r < 2 ^ j" and v: "v \<noteq> kEmpty"
    and s': "s' = s\<lparr>ft_keys := (ft_keys s)[r := v], ft_used := (ft_used s)[r := u], ft_entries := es\<rparr>"
    and es: "length es = 2 ^ j"
    and live: "v \<noteq> kTomb \<Longrightarrow> u \<and> (\<forall>p<2 ^ j. cell s p \<noteq> v) \<and>
      (\<exists>e<2 ^ j. r = (home s v + e) mod 2 ^ j \<and> (\<forall>d<e. cell s ((home s v + d) mod 2 ^ j) \<noteq> kEmpty))"
    and k: "k \<le> k'" "cell s r = kEmpty \<Longrightarrow> Suc k \<le> k'" "k' < 2 ^ j"
  shows "ft_ok j k' s'"
proof -
  from ok have wf: "ft_wf j s" by (rule ft_ok_wf)
  then have len: "length (ft_keys s) = 2 ^ j" "length (ft_used s) = 2 ^ j" by (simp_all add: ft_wf_def)
  have c: "cell s' p = (if p = r then v else cell s p)" for p using r len by (simp add: s' nth_list_update)
  have hm: "home s' i = home s i" for i by (simp add: s' probe_def)
  have us: "ft_used s' ! p = (if p = r then u else ft_used s ! p)" for p using r len by (simp add: s' nth_list_update)
  have ne: "cell s p \<noteq> kEmpty \<Longrightarrow> cell s' p \<noteq> kEmpty" for p using v by (simp add: c)
  have dist: "p = q" if "p < 2 ^ j" "q < 2 ^ j" "cell s' p = cell s' q" "cell s' p \<noteq> kEmpty" "cell s' p \<noteq> kTomb" for p q
  proof (cases "p = r \<or> q = r")
    case True
    with that show ?thesis using live by (auto simp: c split: if_splits)
  next
    case False
    with that ft_distinct [OF ok that(1,2) refl] show ?thesis by (simp add: c)
  qed
  have path: "ft_used s' ! p \<and> (\<exists>e<2 ^ j. p = (home s' (cell s' p) + e) mod 2 ^ j \<and>
      (\<forall>d<e. cell s' ((home s' (cell s' p) + d) mod 2 ^ j) \<noteq> kEmpty))"
    if p: "p < 2 ^ j" "cell s' p \<noteq> kEmpty" "cell s' p \<noteq> kTomb" for p
  proof (cases "p = r")
    case True
    with p live obtain e where "u" "e < 2 ^ j" "r = (home s v + e) mod 2 ^ j"
      "\<forall>d<e. cell s ((home s v + d) mod 2 ^ j) \<noteq> kEmpty" by (auto simp: c)
    with True show ?thesis unfolding hm by (intro conjI exI [of _ e]) (simp_all add: us ne, auto simp: c v)
  next
    case False
    then have eq: "cell s' p = cell s p" by (simp add: c)
    obtain e where e: "ft_used s ! p" "e < 2 ^ j" "p = (home s (cell s p) + e) mod 2 ^ j"
      "\<And>d. d < e \<Longrightarrow> cell s ((home s (cell s p) + d) mod 2 ^ j) \<noteq> kEmpty"
      using ft_path [OF ok p(1)] p(2,3) unfolding eq by metis
    have "\<forall>d<e. cell s' ((home s (cell s p) + d) mod 2 ^ j) \<noteq> kEmpty" using ne [OF e(4)] by simp
    moreover have "ft_used s' ! p" using e(1) False by (simp add: us)
    ultimately show ?thesis using e(2,3) unfolding hm eq by blast
  qed
  have "card {p. p < 2 ^ j \<and> cell s p \<noteq> kEmpty} \<le> k" using ok by (simp add: ft_ok_def)
  from ft_occupied_update [of s' r v s, OF c v this k(1,2)] have "card {p. p < 2 ^ j \<and> cell s' p \<noteq> kEmpty} \<le> k'" .
  moreover have "ft_wf j s'" using wf es by (simp add: s' ft_wf_def)
  ultimately show ?thesis unfolding ft_ok_def using dist path k(3) by blast
qed

lemma ft_erase:
  assumes "ft_ok j k s" "unat r < 2 ^ j" "cell s (unat r) = i" "i \<noteq> kEmpty" "i \<noteq> kTomb"
  shows "ft_ok j k (eraseAt r s)" "ft_lookup (eraseAt r s) = (ft_lookup s)(i := None)"
proof -
  have len: "length (ft_entries s) = 2 ^ j" "length (ft_keys s) = 2 ^ j" "k < 2 ^ j"
    using assms(1) by (simp_all add: ft_ok_def ft_wf_def)
  show ok: "ft_ok j k (eraseAt r s)"
    by (rule ft_ok_update [OF assms(1,2) _ eraseAt_def]) (use assms(3,4) len in simp_all)
  show "ft_lookup (eraseAt r s) = (ft_lookup s)(i := None)"
  proof (rule map_eqI)
    fix l x
    have c: "cell (eraseAt r s) p = (if p = unat r then kTomb else cell s p)"
      "ft_entries (eraseAt r s) ! p = (if p = unat r then new_hentry else ft_entries s ! p)" if "p < 2 ^ j" for p
      using that len by (simp_all add: eraseAt_def nth_list_update)
    have only: "p = unat r" if "p < 2 ^ j" "cell s p = i" for p
      using ft_distinct [OF assms(1) that(1) assms(2) that(2) assms(3-5)] .
    have "(\<exists>p<2 ^ j. cell (eraseAt r s) p = l \<and> ft_entries (eraseAt r s) ! p = x) \<longleftrightarrow>
      l \<noteq> i \<and> (\<exists>p<2 ^ j. cell s p = l \<and> ft_entries s ! p = x)" if l: "l \<noteq> kTomb"
    proof (cases "l = i")
      case True
      with c l only show ?thesis by (metis (full_types))
    next
      case False
      with c l assms(3) show ?thesis by (metis (full_types))
    qed
    then show "ft_lookup (eraseAt r s) l = Some x \<longleftrightarrow> ((ft_lookup s)(i := None)) l = Some x"
      unfolding ft_lookup_iff [OF ok] by (auto simp: ft_lookup_iff [OF assms(1)])
  qed
qed

text \<open>The entry at a live slot is overwritten.\<close>

lemma ft_store:
  assumes "ft_ok j k s" "unat r < 2 ^ j" "cell s (unat r) = i" "i \<noteq> kEmpty" "i \<noteq> kTomb"
    "s' = s\<lparr>ft_entries := (ft_entries s)[unat r := x]\<rparr>"
  shows "ft_ok j k s'" "ft_lookup s' = (ft_lookup s)(i \<mapsto> x)"
proof -
  have len: "length (ft_entries s) = 2 ^ j" using assms(1) by (simp add: ft_ok_def ft_wf_def)
  show ok: "ft_ok j k s'"
  proof -
    have hm: "home s' l = home s l" for l by (simp add: assms(6) probe_def)
    have "ft_wf j s'" using ft_ok_wf [OF assms(1)] by (simp add: assms(6) ft_wf_def)
    with assms(1) show ?thesis unfolding ft_ok_def hm by (simp add: assms(6))
  qed
  show "ft_lookup s' = (ft_lookup s)(i \<mapsto> x)"
  proof (rule map_eqI)
    fix l y
    have c: "cell s' p = cell s p" "ft_entries s' ! p = (if p = unat r then x else ft_entries s ! p)" if "p < 2 ^ j" for p
      using that len by (simp_all add: assms(6) nth_list_update)
    have only: "p = unat r" if "p < 2 ^ j" "cell s p = i" for p
      using ft_distinct [OF assms(1) that(1) assms(2) that(2) assms(3-5)] .
    have "(\<exists>p<2 ^ j. cell s' p = l \<and> ft_entries s' ! p = y) \<longleftrightarrow>
      (if l = i then y = x else \<exists>p<2 ^ j. cell s p = l \<and> ft_entries s ! p = y)"
    proof (cases "l = i")
      case True
      with c only assms(2,3) show ?thesis by (metis (full_types))
    next
      case False
      with c assms(3) show ?thesis by (metis (full_types))
    qed
    then show "ft_lookup s' l = Some y \<longleftrightarrow> ((ft_lookup s)(i \<mapsto> x)) l = Some y"
      using assms(4,5) unfolding ft_lookup_iff [OF ok] by (auto simp: ft_lookup_iff [OF assms(1)])
  qed
qed

lemma ft_insert:
  assumes "ft_ok j k s" "ft_lookup s i = None" "i \<noteq> kEmpty" "i \<noteq> kTomb" "Suc k < 2 ^ j"
  obtains r where "findOrInsert i s = Some (r, ft_put r i s)" "unat r < 2 ^ j" "ft_ok j (Suc k) (ft_put r i s)"
    "ft_lookup (ft_put r i s) = (ft_lookup s)(i \<mapsto> new_hentry)"
proof -
  note wf = ft_ok_wf [OF assms(1)]
  have len: "length (ft_entries s) = 2 ^ j" "length (ft_keys s) = 2 ^ j"
    using assms(1) by (simp_all add: ft_ok_def ft_wf_def)
  have free: "\<forall>p<2 ^ j. cell s p \<noteq> i" using ft_lookup_NoneD [OF assms(1-4)] by blast
  obtain e where e: "cell s ((home s i + e) mod 2 ^ j) = kEmpty"
    "\<And>d. d < e \<Longrightarrow> cell s ((home s i + d) mod 2 ^ j) \<noteq> kEmpty"
    using ft_empty_ahead [OF assms(1), of "home s i"] by blast
  have "cell s ((home s i + d) mod 2 ^ j) \<noteq> kEmpty \<and> (i \<noteq> kTomb \<longrightarrow> cell s ((home s i + d) mod 2 ^ j) \<noteq> i)" if "d < e" for d
    using e(2) [OF that] free by simp
  from findOrInsert_miss [OF wf home_less [OF wf] e(1) this, of npos] obtain r d where
    r: "findOrInsert i s = Some (r, ft_put r i s)" and d: "d \<le> e" "unat r = (home s i + d) mod 2 ^ j"
    and c: "cell s (unat r) = kEmpty \<or> cell s (unat r) = kTomb" unfolding findOrInsert_def by auto
  have less: "unat r < 2 ^ j" by (simp add: d(2))
  have ok: "ft_ok j (Suc k) (ft_put r i s)"
  proof (rule ft_ok_update [OF assms(1) less assms(3) ft_put_def])
    have "unat r = (home s i + d mod 2 ^ j) mod 2 ^ j" by (simp add: d(2) mod_simps)
    moreover have "\<forall>d'<d mod 2 ^ j. cell s ((home s i + d') mod 2 ^ j) \<noteq> kEmpty"
      using e(2) d(1) mod_less_eq_dividend [of d "2 ^ j"] by (meson less_le_trans)
    moreover have "d mod 2 ^ j < 2 ^ j" by simp
    ultimately show "True \<and> (\<forall>p<2 ^ j. cell s p \<noteq> i) \<and> (\<exists>e<2 ^ j. unat r = (home s i + e) mod 2 ^ j \<and>
        (\<forall>d<e. cell s ((home s i + d) mod 2 ^ j) \<noteq> kEmpty))" using free by blast
  qed (use assms(5) len in simp_all)
  have "ft_lookup (ft_put r i s) = (ft_lookup s)(i \<mapsto> new_hentry)"
  proof (rule map_eqI)
    fix l x
    have p: "cell (ft_put r i s) p = (if p = unat r then i else cell s p)"
      "ft_entries (ft_put r i s) ! p = (if p = unat r then new_hentry else ft_entries s ! p)" if "p < 2 ^ j" for p
      using that len by (simp_all add: ft_put_def nth_list_update)
    have "(\<exists>p<2 ^ j. cell (ft_put r i s) p = l \<and> ft_entries (ft_put r i s) ! p = x) \<longleftrightarrow>
      (if l = i then x = new_hentry else \<exists>p<2 ^ j. cell s p = l \<and> ft_entries s ! p = x)"
      if l: "l \<noteq> kEmpty" "l \<noteq> kTomb"
    proof (cases "l = i")
      case True
      with p less free show ?thesis by (metis (full_types))
    next
      case False
      with p l c show ?thesis by (metis (full_types))
    qed
    then show "ft_lookup (ft_put r i s) l = Some x \<longleftrightarrow> ((ft_lookup s)(i \<mapsto> new_hentry)) l = Some x"
      using assms(3,4) unfolding ft_lookup_iff [OF ok] by (auto simp: ft_lookup_iff [OF assms(1)])
  qed
  with r less ok show thesis by (rule that)
qed

text \<open>Both cases of \<open>findOrInsert\<close>, followed by writing the entry.\<close>

lemma ft_write:
  assumes "ft_ok j k s" "i \<noteq> kEmpty" "i \<noteq> kTomb" "Suc k < 2 ^ j"
  obtains r s' where "findOrInsert i s = Some (r, s')"
    "ft_entries s' ! unat r = (case ft_lookup s i of None \<Rightarrow> new_hentry | Some x \<Rightarrow> x)"
    "\<And>x. ft_ok j (Suc k) (s'\<lparr>ft_entries := (ft_entries s')[unat r := x]\<rparr>)"
    "\<And>x. ft_lookup (s'\<lparr>ft_entries := (ft_entries s')[unat r := x]\<rparr>) = (ft_lookup s)(i \<mapsto> x)"
proof (cases "ft_lookup s i")
  case None
  obtain r where r: "findOrInsert i s = Some (r, ft_put r i s)" "unat r < 2 ^ j" "ft_ok j (Suc k) (ft_put r i s)"
    "ft_lookup (ft_put r i s) = (ft_lookup s)(i \<mapsto> new_hentry)"
    using ft_insert [OF assms(1) None assms(2-4)] by blast
  have c: "cell (ft_put r i s) (unat r) = i" "ft_entries (ft_put r i s) ! unat r = new_hentry"
    using r(2) assms(1) by (simp_all add: ft_put_def ft_ok_def ft_wf_def)
  note st = ft_store [OF r(3,2) c(1) assms(2,3) refl]
  show thesis using that [OF r(1)] c(2) None st r(4) by simp
next
  case (Some x)
  obtain r where r: "findOrInsert i s = Some (r, s)" "unat r < 2 ^ j" "cell s (unat r) = i" "ft_entries s ! unat r = x"
    using ft_find_Some [OF assms(1) Some] by metis
  note st = ft_store [OF assms(1) r(2,3) assms(2,3) refl]
  have "ft_ok j (Suc k) t" if "ft_ok j k t" for t using that assms(4) by (auto simp: ft_ok_def)
  with that [OF r(1)] r(4) Some st show thesis by simp
qed

text \<open>
  An id that equals the tombstone is never found: it takes a slot that is empty or a tombstone,
  which reads as a tombstone again, and starts with a new entry each time.
\<close>

lemma ft_write_mark:
  assumes "ft_ok j k s" "Suc k < 2 ^ j"
  obtains r s' where "findOrInsert kTomb s = Some (r, s')" "ft_entries s' ! unat r = new_hentry"
    "\<And>x. ft_ok j (Suc k) (s'\<lparr>ft_entries := (ft_entries s')[unat r := x]\<rparr>)"
    "\<And>x. ft_lookup (s'\<lparr>ft_entries := (ft_entries s')[unat r := x]\<rparr>) = ft_lookup s"
proof -
  note wf = ft_ok_wf [OF assms(1)]
  have len: "length (ft_entries s) = 2 ^ j" "length (ft_keys s) = 2 ^ j"
    using wf by (simp_all add: ft_wf_def)
  obtain e where e: "cell s ((home s kTomb + e) mod 2 ^ j) = kEmpty"
    "\<And>d. d < e \<Longrightarrow> cell s ((home s kTomb + d) mod 2 ^ j) \<noteq> kEmpty"
    using ft_empty_ahead [OF assms(1), of "home s kTomb"] by blast
  have "cell s ((home s kTomb + d) mod 2 ^ j) \<noteq> kEmpty \<and> (kTomb \<noteq> kTomb \<longrightarrow> cell s ((home s kTomb + d) mod 2 ^ j) \<noteq> kTomb)"
    if "d < e" for d using e(2) [OF that] by simp
  from findOrInsert_miss [OF wf home_less [OF wf] e(1) this, of npos] obtain r d where
    r: "findOrInsert kTomb s = Some (r, ft_put r kTomb s)" and d: "unat r = (home s kTomb + d) mod 2 ^ j"
    and c: "cell s (unat r) = kEmpty \<or> cell s (unat r) = kTomb" unfolding findOrInsert_def by auto
  have less: "unat r < 2 ^ j" by (simp add: d)
  let ?t = "\<lambda>x. (ft_put r kTomb s)\<lparr>ft_entries := (ft_entries (ft_put r kTomb s))[unat r := x]\<rparr>"
  have t: "?t x = s\<lparr>ft_keys := (ft_keys s)[unat r := kTomb], ft_used := (ft_used s)[unat r := True],
      ft_entries := (ft_entries s)[unat r := x]\<rparr>" for x
    by (simp add: ft_put_def)
  have ok: "ft_ok j (Suc k) (?t x)" for x
    by (rule ft_ok_update [OF assms(1) less _ t]) (use assms(2) len in simp_all)
  have "ft_lookup (?t x) = ft_lookup s" for x
  proof (rule map_eqI)
    fix l y
    have p: "cell (?t x) p = (if p = unat r then kTomb else cell s p)"
      "ft_entries (?t x) ! p = (if p = unat r then x else ft_entries s ! p)" if "p < 2 ^ j" for p
      using that len by (simp_all add: t nth_list_update)
    have "(\<exists>p<2 ^ j. cell (?t x) p = l \<and> ft_entries (?t x) ! p = y) \<longleftrightarrow> (\<exists>p<2 ^ j. cell s p = l \<and> ft_entries s ! p = y)"
      if "l \<noteq> kEmpty" "l \<noteq> kTomb" using p that c by (metis (full_types))
    then show "ft_lookup (?t x) l = Some y \<longleftrightarrow> ft_lookup s l = Some y"
      unfolding ft_lookup_iff [OF ok] ft_lookup_iff [OF assms(1)] by blast
  qed
  moreover have "ft_entries (ft_put r kTomb s) ! unat r = new_hentry" using less len by (simp add: ft_put_def)
  ultimately show thesis using that [OF r] ok by blast
qed

lemma ft_new:
  assumes "j < 64"
  shows "ft_ok j 0 (ftab_new (2 ^ j))" "ft_lookup (ftab_new (2 ^ j)) = Map.empty"
proof -
  have u: "unat (2 ^ j :: u64) = 2 ^ j" using assms by (rule unat_exp)
  have empty: "cell (ftab_new (2 ^ j)) p = kEmpty" if "p < 2 ^ j" for p using that by (simp add: ftab_new_def u)
  show ok: "ft_ok j 0 (ftab_new (2 ^ j))"
    using assms empty by (simp add: ft_ok_def ft_wf_def ftab_new_def u)
  show "ft_lookup (ftab_new (2 ^ j)) = Map.empty"
    by (rule map_eqI) (use empty in \<open>auto simp: ft_lookup_iff [OF ok]\<close>)
qed

end
