(* ===== verification/Recon_Flat.thy ===== *)
theory Recon_Flat
  imports Flat_Table
begin

section \<open>\<open>ReconcilerFlatHashHeap\<close> and \<open>ReconcilerFlatHashWheel\<close>\<close>

text \<open>
  Impl 4 and 4b keep the entries in the open-addressing table of \<open>Flat_Table\<close> and their expiry
  times in a heap or in a timer wheel. They agree with the map-based class for ids from 2 (the
  table uses 0 and 1 as marks), as long as fewer executions were fed than the table has slots:
  every execution fills at most one empty slot, and a slot never becomes empty again.
\<close>

subsection \<open>Impl 4\<close>

record fheap =
  fh_window_width :: u64
  fh_tab :: ftab
  fh_expiry :: "expiry list"
  fh_alerts :: u64
  fh_last_timer :: u64

definition fh_make :: "u64 \<Rightarrow> u64 \<Rightarrow> fheap" where
  "fh_make w cap = \<lparr>fh_window_width = w, fh_tab = ftab_new cap, fh_expiry = [], fh_alerts = 0, fh_last_timer = 0\<rparr>"

definition fh_new :: "u64 \<Rightarrow> u64 \<Rightarrow> fheap option" where
  "fh_new w expected_ids = map_option (fh_make w) (cap_loop 1 (expected_ids * 2))"

text \<open>The body of the timer's loop, for a popped expiry time and id.\<close>

definition fh_expire :: "u64 \<Rightarrow> u64 \<Rightarrow> ftab \<Rightarrow> ftab option" where
  "fh_expire t i s =
     (case findIndex i s of None \<Rightarrow> None
      | Some idx \<Rightarrow>
          if idx = npos then Some s
          else if ft_used s ! unat idx \<and> expire_at (ft_entries s ! unat idx) = t then Some (eraseAt idx s)
          else Some s)"

definition fh_onTimer :: "u64 \<Rightarrow> fheap \<Rightarrow> fheap option" where
  "fh_onTimer now s =
     (case drain pq_top pq_pop x_at (\<lambda>x. fh_expire (x_at x) (x_id x)) now (fh_expiry s) (fh_tab s) of
        None \<Rightarrow> None
      | Some (q, tab) \<Rightarrow> Some (s\<lparr>fh_last_timer := now, fh_expiry := q, fh_tab := tab\<rparr>))"

definition fh_onFeed :: "feed \<Rightarrow> execution \<Rightarrow> fheap \<Rightarrow> fheap option" where
  "fh_onFeed f exec s =
     (let ts = ex_ts exec in
      if ts + fh_window_width s \<le> fh_last_timer s then Some s
      else case findOrInsert (ex_id exec) (fh_tab s) of None \<Rightarrow> None
      | Some (idx, tab) \<Rightarrow>
        let ent0 = ft_entries tab ! unat idx;
            ent1 = (if first_ts ent0 = 0 \<and> last_ts ent0 = 0 then ent0\<lparr>first_ts := ts\<rparr> else ent0);
            ent2 = ent1\<lparr>last_ts := ts\<rparr>;
            ent3 = ent2\<lparr>expire_at := first_ts ent2 + fh_window_width s\<rparr>;
            q = pq_push \<lparr>x_at = expire_at ent3, x_id = ex_id exec\<rparr> (fh_expiry s);
            ent = store_feed f exec ent3
        in if \<not> alerted ent \<and> anyMismatch (one ent) (two ent) (three ent) \<and> ts < expire_at ent
           then Some (s\<lparr>fh_tab := tab\<lparr>ft_entries := (ft_entries tab)[unat idx := ent\<lparr>alerted := True\<rparr>]\<rparr>,
                        fh_expiry := q, fh_alerts := fh_alerts s + 1\<rparr>)
           else Some (s\<lparr>fh_tab := tab\<lparr>ft_entries := (ft_entries tab)[unat idx := ent]\<rparr>, fh_expiry := q\<rparr>))"

subsection \<open>Impl 4b\<close>

text \<open>The class repeats the table of Impl 4; its own copies of the operations are the same.\<close>

definition fw_mix :: "u64 \<Rightarrow> u64" where
  "fw_mix x0 =
     (let x = x0 + 0x9e3779b97f4a7c15;
          x = (x XOR (drop_bit 30 x)) * 0xbf58476d1ce4e5b9;
          x = (x XOR (drop_bit 27 x)) * 0x94d049bb133111eb
      in x XOR (drop_bit 31 x))"

definition fw_probe :: "ftab \<Rightarrow> u64 \<Rightarrow> u64" where
  "fw_probe s i = fw_mix i AND ft_mask s"

partial_function (option) fw_findOrInsert_from :: "u64 \<Rightarrow> u64 \<Rightarrow> u64 \<Rightarrow> ftab \<Rightarrow> (u64 \<times> ftab) option" where
  "fw_findOrInsert_from i idx first_tomb s =
     (let k = ft_keys s ! unat idx in
      if k = kEmpty then
        (let idx = (if first_tomb \<noteq> npos then first_tomb else idx) in
         Some (idx, s\<lparr>ft_keys := (ft_keys s)[unat idx := i], ft_used := (ft_used s)[unat idx := True],
                      ft_entries := (ft_entries s)[unat idx := new_hentry]\<rparr>))
      else if k = kTomb then
        fw_findOrInsert_from i ((idx + 1) AND ft_mask s) (if first_tomb = npos then idx else first_tomb) s
      else if k = i then Some (idx, s)
      else fw_findOrInsert_from i ((idx + 1) AND ft_mask s) first_tomb s)"

declare fw_findOrInsert_from.simps [code]

definition fw_findOrInsert :: "u64 \<Rightarrow> ftab \<Rightarrow> (u64 \<times> ftab) option" where
  "fw_findOrInsert i s = fw_findOrInsert_from i (fw_probe s i) npos s"

partial_function (option) fw_findIndex_from :: "u64 \<Rightarrow> u64 \<Rightarrow> ftab \<Rightarrow> u64 option" where
  "fw_findIndex_from i idx s =
     (let k = ft_keys s ! unat idx in
      if k = kEmpty then Some npos
      else if k \<noteq> kTomb \<and> k = i then Some idx
      else fw_findIndex_from i ((idx + 1) AND ft_mask s) s)"

declare fw_findIndex_from.simps [code]

definition fw_findIndex :: "u64 \<Rightarrow> ftab \<Rightarrow> u64 option" where
  "fw_findIndex i s = fw_findIndex_from i (fw_probe s i) s"

definition fw_eraseAt :: "u64 \<Rightarrow> ftab \<Rightarrow> ftab" where
  "fw_eraseAt idx s = s\<lparr>ft_keys := (ft_keys s)[unat idx := kTomb], ft_used := (ft_used s)[unat idx := False],
     ft_entries := (ft_entries s)[unat idx := new_hentry]\<rparr>"

lemma fw_probe_same: "fw_probe s i = probe s i"
  by (simp add: fw_probe_def probe_def fw_mix_def mix_def)

lemma option_eqI: "(\<And>y. a = Some y \<Longrightarrow> b = Some y) \<Longrightarrow> (\<And>y. b = Some y \<Longrightarrow> a = Some y) \<Longrightarrow> a = b"
  by (cases a; cases b) auto

lemma fw_findIndex_from_same: "fw_findIndex_from i idx s = findIndex_from i idx s"
proof (rule option_eqI)
  fix y
  show "fw_findIndex_from i idx s = Some y \<Longrightarrow> findIndex_from i idx s = Some y"
    by (erule fw_findIndex_from.raw_induct [rotated])
      (subst findIndex_from.simps, auto simp: Let_def split: if_splits)
  show "findIndex_from i idx s = Some y \<Longrightarrow> fw_findIndex_from i idx s = Some y"
    by (erule findIndex_from.raw_induct [rotated])
      (subst fw_findIndex_from.simps, auto simp: Let_def split: if_splits)
qed

lemma fw_findIndex_same: "fw_findIndex i s = findIndex i s"
  by (simp add: fw_findIndex_def findIndex_def fw_probe_same fw_findIndex_from_same)

lemma fw_findOrInsert_from_same: "fw_findOrInsert_from i idx ft s = findOrInsert_from i idx ft s"
proof (rule option_eqI)
  fix y
  show "fw_findOrInsert_from i idx ft s = Some y \<Longrightarrow> findOrInsert_from i idx ft s = Some y"
    by (erule fw_findOrInsert_from.raw_induct [rotated])
      (subst findOrInsert_from.simps, auto simp: Let_def split: if_splits)
  show "findOrInsert_from i idx ft s = Some y \<Longrightarrow> fw_findOrInsert_from i idx ft s = Some y"
    by (erule findOrInsert_from.raw_induct [rotated])
      (subst fw_findOrInsert_from.simps, auto simp: Let_def split: if_splits)
qed

lemma fw_findOrInsert_same: "fw_findOrInsert i s = findOrInsert i s"
  by (simp add: fw_findOrInsert_def findOrInsert_def fw_probe_same fw_findOrInsert_from_same)

lemma fw_eraseAt_same: "fw_eraseAt r s = eraseAt r s"
  by (simp add: fw_eraseAt_def eraseAt_def)

lemmas fw_same = fw_findIndex_same fw_findOrInsert_same fw_eraseAt_same

record fwheel =
  fw_window_width :: u64
  fw_tick_mod :: u64
  fw_tab :: ftab
  fw_wheel :: "u64 list list"
  fw_last_timer :: u64
  fw_alerts :: u64

definition fw_make :: "u64 \<Rightarrow> u64 \<Rightarrow> u64 \<Rightarrow> fwheel" where
  "fw_make w tick_mod cap = \<lparr>fw_window_width = w, fw_tick_mod = tick_mod, fw_tab = ftab_new cap,
     fw_wheel = replicate (unat tick_mod) [], fw_last_timer = 0, fw_alerts = 0\<rparr>"

definition fw_new :: "u64 \<Rightarrow> u64 \<Rightarrow> u64 \<Rightarrow> fwheel option" where
  "fw_new w expected_ids tick_mod = map_option (fw_make w tick_mod) (cap_loop 1 (expected_ids * 2))"

definition fw_expire :: "u64 \<Rightarrow> u64 \<Rightarrow> ftab \<Rightarrow> ftab option" where
  "fw_expire t i s =
     (case fw_findIndex i s of None \<Rightarrow> None
      | Some idx \<Rightarrow>
          if idx = npos then Some s
          else if ft_used s ! unat idx \<and> expire_at (ft_entries s ! unat idx) \<le> t then Some (fw_eraseAt idx s)
          else Some s)"

definition fw_onTimer :: "u64 \<Rightarrow> fwheel \<Rightarrow> fwheel option" where
  "fw_onTimer now s =
     (case wheel_drain fw_expire (fw_tick_mod s) now (fw_last_timer s + 1) (fw_wheel s) (fw_tab s) of
        None \<Rightarrow> None
      | Some (wheel, tab) \<Rightarrow> Some (s\<lparr>fw_wheel := wheel, fw_tab := tab, fw_last_timer := now\<rparr>))"

definition schedule :: "u64 \<Rightarrow> u64 \<Rightarrow> u64 \<Rightarrow> u64 list list \<Rightarrow> u64 list list option" where
  "schedule tick_mod i expire wheel =
     (if tick_mod = 0 then None
      else Some (wheel[unat (expire mod tick_mod) := wheel ! unat (expire mod tick_mod) @ [i]]))"

definition fw_onFeed :: "feed \<Rightarrow> execution \<Rightarrow> fwheel \<Rightarrow> fwheel option" where
  "fw_onFeed f exec s =
     (let ts = ex_ts exec in
      if ts + fw_window_width s \<le> fw_last_timer s then Some s
      else case fw_findOrInsert (ex_id exec) (fw_tab s) of None \<Rightarrow> None
      | Some (idx, tab) \<Rightarrow>
        let ent0 = ft_entries tab ! unat idx;
            fresh = (first_ts ent0 = 0 \<and> last_ts ent0 = 0);
            ent1 = (if fresh then ent0\<lparr>first_ts := ts, expire_at := ts + fw_window_width s\<rparr> else ent0);
            ent2 = ent1\<lparr>last_ts := ts\<rparr>;
            ent = store_feed f exec ent2
        in case (if fresh then schedule (fw_tick_mod s) (ex_id exec) (expire_at ent1) (fw_wheel s)
                 else Some (fw_wheel s)) of
             None \<Rightarrow> None
           | Some wheel \<Rightarrow>
               if \<not> alerted ent \<and> anyMismatch (one ent) (two ent) (three ent) \<and> ts < expire_at ent
               then Some (s\<lparr>fw_tab := tab\<lparr>ft_entries := (ft_entries tab)[unat idx := ent\<lparr>alerted := True\<rparr>]\<rparr>,
                            fw_wheel := wheel, fw_alerts := fw_alerts s + 1\<rparr>)
               else Some (s\<lparr>fw_tab := tab\<lparr>ft_entries := (ft_entries tab)[unat idx := ent]\<rparr>, fw_wheel := wheel\<rparr>))"

subsection \<open>The table as a store of entries that expire\<close>

lemma ft_expire_cases:
  assumes "ft_ok j k s"
  obtains "findIndex i s = Some npos" "ft_lookup s i = None"
  | r x where "findIndex i s = Some r" "r \<noteq> npos" "ft_lookup s i = Some x" "ft_used s ! unat r"
      "ft_entries s ! unat r = x" "ft_ok j k (eraseAt r s)" "ft_lookup (eraseAt r s) = (ft_lookup s)(i := None)"
proof (cases "ft_lookup s i")
  case None
  with ft_findIndex_None [OF assms] that(1) show thesis by blast
next
  case (Some x)
  obtain r where r: "findIndex i s = Some r" "r \<noteq> npos" "unat r < 2 ^ j" "cell s (unat r) = i"
    "ft_entries s ! unat r = x" "ft_used s ! unat r" "i \<noteq> kEmpty" "i \<noteq> kTomb"
    using ft_find_Some [OF assms Some] by metis
  from ft_erase [OF assms r(3,4,7,8)] r Some that(2) show thesis by blast
qed

interpretation fhs: expiry_store fh_expire ft_lookup expire_at "(=)" "ft_ok j k" for j k
proof unfold_locales
  fix s t i
  assume ok: "ft_ok j k s"
  show "\<exists>s'. fh_expire t i s = Some s' \<and> ft_ok j k s' \<and> ft_lookup s' =
      (case ft_lookup s i of None \<Rightarrow> ft_lookup s
       | Some e \<Rightarrow> if expire_at e = t then (ft_lookup s)(i := None) else ft_lookup s)"
    using ok by (rule ft_expire_cases [where i = i]) (use ok in \<open>simp_all add: fh_expire_def\<close>)
qed simp_all

interpretation fws: expiry_store fw_expire ft_lookup expire_at "(\<le>)" "ft_ok j k" for j k
proof unfold_locales
  fix s t i
  assume ok: "ft_ok j k s"
  show "\<exists>s'. fw_expire t i s = Some s' \<and> ft_ok j k s' \<and> ft_lookup s' =
      (case ft_lookup s i of None \<Rightarrow> ft_lookup s
       | Some e \<Rightarrow> if expire_at e \<le> t then (ft_lookup s)(i := None) else ft_lookup s)"
    using ok by (rule ft_expire_cases [where i = i]) (use ok in \<open>simp_all add: fw_expire_def fw_same\<close>)
qed simp_all

lemmas fh_scan = fhs.heap_scan
lemmas fw_scan = fws.wheel_scan

subsection \<open>Tables related to the map\<close>

definition ft_rel :: "nat \<Rightarrow> nat \<Rightarrow> uscan \<Rightarrow> ftab \<Rightarrow> bool" where
  "ft_rel j k a tab \<longleftrightarrow> ft_ok j k tab \<and> by_id a = (\<lambda>i. map_option entry.truncate (ft_lookup tab i)) \<and>
     (\<forall>i x. ft_lookup tab i = Some x \<longrightarrow> expire_at x = first_ts x + window_width a)"

lemma ft_rel_new: "j < 64 \<Longrightarrow> ft_rel j 0 (us_new w) (ftab_new (2 ^ j))"
  by (simp add: ft_rel_def ft_new us_new_def)

lemma ft_ok_more: "ft_ok j k s \<Longrightarrow> Suc k < 2 ^ j \<Longrightarrow> ft_ok j (Suc k) s"
  by (simp add: ft_ok_def)

lemma ft_rel_timer:
  assumes "ft_rel j k a tab" "ft_ok j k tab'" "ft_lookup tab' = prune expire_at t (ft_lookup tab)"
  shows "ft_rel j k (us_onTimer t a) tab'"
proof -
  have "by_id (us_onTimer t a) i = map_option entry.truncate (ft_lookup tab' i)" for i
    using assms(1) unfolding assms(3) ft_rel_def
    by (cases "ft_lookup tab i") (auto simp: us_onTimer_def prune_def us_isExpired_def)
  moreover have "expire_at x = first_ts x + window_width a" if "ft_lookup tab' i = Some x" for i x
    using that assms(1) unfolding assms(3) by (auto simp: ft_rel_def dest: prune_SomeD)
  ultimately show ?thesis using assms(2) by (auto simp: ft_rel_def)
qed

text \<open>One accepted event; \<open>h\<close> is the entry the class writes, from the entry \<open>old\<close> it found or made.\<close>

lemma ft_rel_feed:
  assumes "ft_rel j k a tab" "\<not> ex_ts e + window_width a \<le> last_timer a"
    "old = (case ft_lookup tab (ex_id e) of None \<Rightarrow> new_hentry | Some x \<Rightarrow> x)"
    "entry.truncate h = us_touch f e (entry.truncate old)" "expire_at h = first_ts h + window_width a"
    "al \<longleftrightarrow> \<not> alerted h \<and> anyMismatch (one h) (two h) (three h) \<and> ex_ts e < expire_at h"
    "ft_ok j k' tab'" "ft_lookup tab' = (ft_lookup tab)(ex_id e \<mapsto> (if al then h\<lparr>alerted := True\<rparr> else h))"
  shows "ft_rel j k' (us_onFeed f e a) tab'" "alerts (us_onFeed f e a) = (if al then alerts a + 1 else alerts a)"
proof -
  have ent: "us_touch f e (case by_id a (ex_id e) of None \<Rightarrow> new_entry | Some x \<Rightarrow> x) = entry.truncate h"
    using assms(1) unfolding assms(4) assms(3) by (auto simp: ft_rel_def split: option.split)
  have al: "al \<longleftrightarrow> \<not> alerted h \<and> anyMismatch (one h) (two h) (three h) \<and> ex_ts e < first_ts h + window_width a"
    using assms(5,6) by simp
  note U = us_onFeed_accepted [OF assms(2) ent, simplified truncate_simps, folded al]
  show "alerts (us_onFeed f e a) = (if al then alerts a + 1 else alerts a)" by (simp add: U)
  have "by_id (us_onFeed f e a) = (\<lambda>i. map_option entry.truncate (ft_lookup tab' i))"
    using assms(1) unfolding U assms(8) ft_rel_def by (auto simp: fun_eq_iff)
  then show "ft_rel j k' (us_onFeed f e a) tab'"
    using assms(1,5,7) by (auto simp: ft_rel_def assms(8))
qed

subsection \<open>Simulation by the heap class\<close>

definition fh_sim :: "nat \<Rightarrow> nat \<Rightarrow> uscan \<Rightarrow> fheap \<Rightarrow> bool" where
  "fh_sim j n a c \<longleftrightarrow> fh_window_width c = window_width a \<and> fh_alerts c = alerts a \<and>
     fh_last_timer c = last_timer a \<and> ft_rel j n a (fh_tab c) \<and> pq_ok (fh_expiry c) \<and>
     (\<forall>i x. ft_lookup (fh_tab c) i = Some x \<longrightarrow> \<lparr>x_at = expire_at x, x_id = i\<rparr> \<in># mset (fh_expiry c))"

definition fh_pre :: "nat \<Rightarrow> nat \<Rightarrow> action \<Rightarrow> uscan \<Rightarrow> bool" where
  "fh_pre j n act a = (case act of Feed f e \<Rightarrow> ex_id e \<noteq> kEmpty \<and> ex_id e \<noteq> kTomb \<and> Suc n < 2 ^ j | Timer t \<Rightarrow> True)"

lemma fh_sim_timer:
  assumes "fh_sim j n a c"
  shows "\<exists>c'. fh_onTimer t c = Some c' \<and> fh_sim j n (us_onTimer t a) c'"
proof -
  from assms have c: "pq_ok (fh_expiry c)" "ft_rel j n a (fh_tab c)"
    "\<And>i x. ft_lookup (fh_tab c) i = Some x \<Longrightarrow> \<lparr>x_at = expire_at x, x_id = i\<rparr> \<in># mset (fh_expiry c)"
    by (simp_all add: fh_sim_def)
  then have ok: "ft_ok j n (fh_tab c)" by (simp add: ft_rel_def)
  from fh_scan [OF ok c(1,3), where now = t] obtain q' tab' where
    d: "drain pq_top pq_pop x_at (\<lambda>x. fh_expire (x_at x) (x_id x)) t (fh_expiry c) (fh_tab c) = Some (q', tab')"
    "pq_ok q'" "mset q' = filter_mset (\<lambda>x. t < x_at x) (mset (fh_expiry c))" "ft_ok j n tab'"
    "ft_lookup tab' = prune expire_at t (ft_lookup (fh_tab c))" by blast
  have "ft_rel j n (us_onTimer t a) tab'" using c(2) d(4,5) by (rule ft_rel_timer)
  moreover have "\<forall>i x. ft_lookup tab' i = Some x \<longrightarrow> \<lparr>x_at = expire_at x, x_id = i\<rparr> \<in># mset q'"
    using c(3) unfolding d(3,5) by (auto dest!: prune_SomeD)
  ultimately show ?thesis using assms d(1,2) by (simp add: fh_onTimer_def fh_sim_def)
qed

lemma fh_onFeed_accepted:
  assumes "\<not> ex_ts e + fh_window_width s \<le> fh_last_timer s" "findOrInsert (ex_id e) (fh_tab s) = Some (idx, tab)"
    "h = uh_touch (fh_window_width s) f e (ft_entries tab ! unat idx)"
  shows "fh_onFeed f e s =
    (if \<not> alerted h \<and> anyMismatch (one h) (two h) (three h) \<and> ex_ts e < expire_at h
     then Some (s\<lparr>fh_tab := tab\<lparr>ft_entries := (ft_entries tab)[unat idx := h\<lparr>alerted := True\<rparr>]\<rparr>,
            fh_expiry := pq_push \<lparr>x_at = expire_at h, x_id = ex_id e\<rparr> (fh_expiry s), fh_alerts := fh_alerts s + 1\<rparr>)
     else Some (s\<lparr>fh_tab := tab\<lparr>ft_entries := (ft_entries tab)[unat idx := h]\<rparr>,
            fh_expiry := pq_push \<lparr>x_at = expire_at h, x_id = ex_id e\<rparr> (fh_expiry s)\<rparr>))"
proof -
  define old where "old = ft_entries tab ! unat idx"
  define x where "x = (if first_ts old = 0 \<and> last_ts old = 0 then old\<lparr>first_ts := ex_ts e\<rparr> else old)"
  have h: "h = store_feed f e (x\<lparr>last_ts := ex_ts e, expire_at := first_ts (x\<lparr>last_ts := ex_ts e\<rparr>) + fh_window_width s\<rparr>)"
    by (simp add: assms(3) uh_touch_def x_def old_def Let_def)
  have "expire_at h = first_ts x + fh_window_width s" "alerted h = alerted x" by (simp_all add: h)
  with assms(1) show ?thesis
    unfolding fh_onFeed_def Let_def assms(2) option.case prod.case old_def [symmetric] x_def [symmetric]
    unfolding h [symmetric] by simp
qed

lemma fh_sim_feed:
  assumes "fh_sim j n a c" "fh_pre j n (Feed f e) a"
  shows "\<exists>c'. fh_onFeed f e c = Some c' \<and> fh_sim j (Suc n) (us_onFeed f e a) c'"
proof (cases "ex_ts e + window_width a \<le> last_timer a")
  case True
  with assms show ?thesis
    by (auto simp: fh_onFeed_def us_onFeed_def fh_sim_def fh_pre_def Let_def ft_rel_def intro: ft_ok_more)
next
  case False
  let ?tab = "fh_tab c" and ?w = "window_width a"
  from assms have c: "ft_rel j n a ?tab" "fh_window_width c = ?w" "fh_last_timer c = last_timer a"
    "fh_alerts c = alerts a" "pq_ok (fh_expiry c)"
    "\<And>i x. ft_lookup ?tab i = Some x \<Longrightarrow> \<lparr>x_at = expire_at x, x_id = i\<rparr> \<in># mset (fh_expiry c)"
    and p: "ex_id e \<noteq> kEmpty" "ex_id e \<noteq> kTomb" "Suc n < 2 ^ j"
    by (simp_all add: fh_sim_def fh_pre_def)
  then have ok: "ft_ok j n ?tab" by (simp add: ft_rel_def)
  define old where "old = (case ft_lookup ?tab (ex_id e) of None \<Rightarrow> new_hentry | Some x \<Rightarrow> x)"
  obtain r tab where r: "findOrInsert (ex_id e) ?tab = Some (r, tab)" "ft_entries tab ! unat r = old"
    "\<And>x. ft_ok j (Suc n) (tab\<lparr>ft_entries := (ft_entries tab)[unat r := x]\<rparr>)"
    "\<And>x. ft_lookup (tab\<lparr>ft_entries := (ft_entries tab)[unat r := x]\<rparr>) = (ft_lookup ?tab)(ex_id e \<mapsto> x)"
    using ft_write [OF ok p] unfolding old_def by metis
  define h where "h = uh_touch ?w f e old"
  define al where "al \<longleftrightarrow> \<not> alerted h \<and> anyMismatch (one h) (two h) (three h) \<and> ex_ts e < expire_at h"
  define h' where "h' = (if al then h\<lparr>alerted := True\<rparr> else h)"
  define tab' where "tab' = tab\<lparr>ft_entries := (ft_entries tab)[unat r := h']\<rparr>"
  let ?x = "\<lparr>x_at = expire_at h, x_id = ex_id e\<rparr>"
  have tab': "ft_ok j (Suc n) tab'" "ft_lookup tab' = (ft_lookup ?tab)(ex_id e \<mapsto> (if al then h\<lparr>alerted := True\<rparr> else h))"
    unfolding tab'_def using r(3,4) by (simp_all add: h'_def)
  have ex: "expire_at h = first_ts h + ?w" by (simp add: h_def uh_touch_expire)
  note R = ft_rel_feed [OF c(1) False old_def us_touch_truncate [of f e old ?w, symmetric, folded h_def] ex al_def tab']
  have step: "fh_onFeed f e c = Some (c\<lparr>fh_tab := tab', fh_expiry := pq_push ?x (fh_expiry c),
      fh_alerts := alerts (us_onFeed f e a)\<rparr>)"
    using fh_onFeed_accepted [of e c r tab, where f = f] False c(2-4) r(1,2)
    unfolding R(2) tab'_def h'_def al_def h_def by (simp split: if_split)
  have "\<lparr>x_at = expire_at x, x_id = i\<rparr> \<in># mset (pq_push ?x (fh_expiry c))" if "ft_lookup tab' i = Some x" for i x
    using that c(6) [of i x] unfolding tab'(2) by (auto split: if_splits)
  with step R(1) c show ?thesis by (simp add: fh_sim_def sorted_pq_push)
qed

text \<open>Id 1: the entry that is written is new, so it holds one feed and raises no alert.\<close>

lemma store_new_agrees:
  "\<not> anyMismatch (one (store_feed f e h)) (two (store_feed f e h)) (three (store_feed f e h))"
  if "one h = None" "two h = None" "three h = None"
  using that by (cases f) (simp_all add: anyMismatch_def)

lemma fh_sim_mark:
  assumes "fh_sim j n a c" "ex_id e = kTomb" "Suc n < 2 ^ j"
  shows "\<exists>c'. fh_onFeed f e c = Some c' \<and> fh_sim j (Suc n) a c'"
proof (cases "ex_ts e + window_width a \<le> last_timer a")
  case True
  with assms show ?thesis by (auto simp: fh_onFeed_def fh_sim_def Let_def ft_rel_def intro: ft_ok_more)
next
  case False
  let ?tab = "fh_tab c"
  from assms have c: "ft_rel j n a ?tab" "fh_window_width c = window_width a" "fh_last_timer c = last_timer a"
    "\<And>i x. ft_lookup ?tab i = Some x \<Longrightarrow> \<lparr>x_at = expire_at x, x_id = i\<rparr> \<in># mset (fh_expiry c)"
    by (simp_all add: fh_sim_def)
  then have "ft_ok j n ?tab" by (simp add: ft_rel_def)
  from ft_write_mark [OF this assms(3)] obtain r tab where
    r: "findOrInsert (ex_id e) ?tab = Some (r, tab)" "ft_entries tab ! unat r = new_hentry"
    "\<And>x. ft_ok j (Suc n) (tab\<lparr>ft_entries := (ft_entries tab)[unat r := x]\<rparr>)"
    "\<And>x. ft_lookup (tab\<lparr>ft_entries := (ft_entries tab)[unat r := x]\<rparr>) = ft_lookup ?tab"
    unfolding assms(2) by blast
  define h where "h = uh_touch (fh_window_width c) f e (ft_entries tab ! unat r)"
  have "\<not> anyMismatch (one h) (two h) (three h)"
    unfolding h_def r(2) uh_touch_def Let_def by (rule store_new_agrees) (simp_all add: new_hentry_def)
  with fh_onFeed_accepted [OF _ r(1) h_def] False c(2,3)
  have step: "fh_onFeed f e c = Some (c\<lparr>fh_tab := tab\<lparr>ft_entries := (ft_entries tab)[unat r := h]\<rparr>,
      fh_expiry := pq_push \<lparr>x_at = expire_at h, x_id = ex_id e\<rparr> (fh_expiry c)\<rparr>)" by simp
  have "ft_rel j (Suc n) a (tab\<lparr>ft_entries := (ft_entries tab)[unat r := h]\<rparr>)"
    using c(1) r(3,4) by (simp add: ft_rel_def)
  with step assms(1) r(4) show ?thesis by (simp add: fh_sim_def sorted_pq_push)
qed

lemma fh_sim_new: "j < 64 \<Longrightarrow> fh_sim j 0 (us_new w) (fh_make w (2 ^ j))"
  by (simp add: fh_sim_def fh_make_def ft_rel_new, simp add: us_new_def ft_new pq_ok_def)

text \<open>The capacity the constructor chooses is a power of two below \<open>2 ^ 64\<close>.\<close>

interpretation fh: reconciler fh_onFeed fh_onTimer fh_alerts "\<lambda>w. fh_make w (2 ^ (j mod 64))" "fh_sim (j mod 64)"
  "fh_pre (j mod 64)" for j
proof unfold_locales
  fix n a c f e t
  assume s: "fh_sim (j mod 64) n a c"
  show "fh_alerts c = alerts a" using s by (simp add: fh_sim_def)
  show "fh_pre (j mod 64) n (Feed f e) a \<Longrightarrow>
      \<exists>c'. fh_onFeed f e c = Some c' \<and> fh_sim (j mod 64) (Suc n) (us_onFeed f e a) c'"
    using s by (rule fh_sim_feed)
  show "\<exists>c'. fh_onTimer t c = Some c' \<and> fh_sim (j mod 64) n (us_onTimer t a) c'"
    using s by (rule fh_sim_timer)
qed (rule fh_sim_new, simp)

interpretation fh1: blind_reconciler fh_onFeed fh_onTimer fh_alerts "\<lambda>w. fh_make w (2 ^ (j mod 64))" "fh_sim (j mod 64)"
  "fh_pre (j mod 64)" kTomb "\<lambda>n. Suc n < 2 ^ (j mod 64)" for j
  by unfold_locales (rule fh_sim_mark)

subsection \<open>Simulation by the wheel class\<close>

definition fw_touch :: "u64 \<Rightarrow> feed \<Rightarrow> execution \<Rightarrow> hentry \<Rightarrow> hentry" where
  "fw_touch w f e x =
     (let ts = ex_ts e;
          x1 = (if first_ts x = 0 \<and> last_ts x = 0 then x\<lparr>first_ts := ts, expire_at := ts + w\<rparr> else x)
      in store_feed f e (x1\<lparr>last_ts := ts\<rparr>))"

lemma fw_touch_truncate: "us_touch f e (entry.truncate h) = entry.truncate (fw_touch w f e h)"
  by (cases f) (simp_all add: us_touch_def fw_touch_def Let_def entry.truncate_def)

definition fw_sim :: "nat \<Rightarrow> u64 \<Rightarrow> nat \<Rightarrow> uscan \<Rightarrow> fwheel \<Rightarrow> bool" where
  "fw_sim j T n a c \<longleftrightarrow> fw_window_width c = window_width a \<and> fw_alerts c = alerts a \<and>
     fw_last_timer c = last_timer a \<and> fw_tick_mod c = T \<and> ft_rel j n a (fw_tab c) \<and>
     fws.wheel_inv T (last_timer a) (fw_wheel c) (fw_tab c)"

definition fw_pre :: "nat \<Rightarrow> u64 \<Rightarrow> nat \<Rightarrow> action \<Rightarrow> uscan \<Rightarrow> bool" where
  "fw_pre j T n act a \<longleftrightarrow> T \<noteq> 0 \<and>
     (case act of Feed f e \<Rightarrow> ex_id e \<noteq> kEmpty \<and> ex_id e \<noteq> kTomb \<and> Suc n < 2 ^ j \<and>
                    unat (ex_ts e + window_width a) \<le> unat (last_timer a) + unat T
      | Timer t \<Rightarrow> last_timer a \<le> t \<and> t \<noteq> -1)"

lemma fw_sim_timer:
  assumes "fw_sim j T n a c" "fw_pre j T n (Timer t) a"
  shows "\<exists>c'. fw_onTimer t c = Some c' \<and> fw_sim j T n (us_onTimer t a) c'"
proof -
  from assms have c: "ft_ok j n (fw_tab c)" "T \<noteq> 0" "last_timer a \<le> t" "t \<noteq> -1"
    "fws.wheel_inv T (last_timer a) (fw_wheel c) (fw_tab c)" "ft_rel j n a (fw_tab c)"
    by (auto simp: fw_sim_def ft_rel_def fw_pre_def)
  from fw_scan [OF c(1-5)] obtain wheel' tab' where
    d: "wheel_drain fw_expire T t (last_timer a + 1) (fw_wheel c) (fw_tab c) = Some (wheel', tab')"
    "ft_ok j n tab'" "ft_lookup tab' = prune expire_at t (ft_lookup (fw_tab c))" "fws.wheel_inv T t wheel' tab'" by blast
  have "ft_rel j n (us_onTimer t a) tab'" using c(6) d(2,3) by (rule ft_rel_timer)
  with assms d show ?thesis by (simp add: fw_onTimer_def fw_sim_def fw_pre_def)
qed

lemma fw_onFeed_accepted:
  assumes "\<not> ex_ts e + fw_window_width s \<le> fw_last_timer s" "findOrInsert (ex_id e) (fw_tab s) = Some (idx, tab)"
    "old = ft_entries tab ! unat idx" "h = fw_touch (fw_window_width s) f e old"
    "(if first_ts old = 0 \<and> last_ts old = 0 then schedule (fw_tick_mod s) (ex_id e) (expire_at h) (fw_wheel s)
      else Some (fw_wheel s)) = Some wheel"
  shows "fw_onFeed f e s =
    (if \<not> alerted h \<and> anyMismatch (one h) (two h) (three h) \<and> ex_ts e < expire_at h
     then Some (s\<lparr>fw_tab := tab\<lparr>ft_entries := (ft_entries tab)[unat idx := h\<lparr>alerted := True\<rparr>]\<rparr>,
            fw_wheel := wheel, fw_alerts := fw_alerts s + 1\<rparr>)
     else Some (s\<lparr>fw_tab := tab\<lparr>ft_entries := (ft_entries tab)[unat idx := h]\<rparr>, fw_wheel := wheel\<rparr>))"
proof -
  define x where "x = (if first_ts old = 0 \<and> last_ts old = 0
    then old\<lparr>first_ts := ex_ts e, expire_at := ex_ts e + fw_window_width s\<rparr> else old)"
  have h: "h = store_feed f e (x\<lparr>last_ts := ex_ts e\<rparr>)" by (simp add: assms(4) fw_touch_def x_def Let_def)
  have "expire_at h = expire_at x" "alerted h = alerted x" by (simp_all add: h)
  note sch = assms(5) [unfolded this(1)]
  with assms(1) \<open>alerted h = alerted x\<close> show ?thesis
    unfolding fw_onFeed_def Let_def fw_same assms(2) option.case prod.case assms(3) [symmetric] x_def [symmetric]
    unfolding h [symmetric] sch option.case by simp
qed

text \<open>The expiry time of a touched entry: set when the entry is fresh, and kept otherwise.\<close>

lemma fw_touch_fresh:
  "first_ts old = 0 \<and> last_ts old = 0 \<Longrightarrow> expire_at (fw_touch w f e old) = ex_ts e + w \<and> first_ts (fw_touch w f e old) = ex_ts e"
  by (simp add: fw_touch_def Let_def)

lemma fw_touch_kept:
  "\<not> (first_ts old = 0 \<and> last_ts old = 0) \<Longrightarrow> expire_at (fw_touch w f e old) = expire_at old \<and> first_ts (fw_touch w f e old) = first_ts old"
  by (auto simp: fw_touch_def Let_def)

lemma fw_wheel_touch:
  assumes "fws.wheel_inv T now wheel tab" "T \<noteq> 0" "\<not> ex_ts e + w \<le> now" "unat (ex_ts e + w) \<le> unat now + unat T"
    "old = (case ft_lookup tab (ex_id e) of None \<Rightarrow> new_hentry | Some x \<Rightarrow> x)" "expire_at h' = expire_at (fw_touch w f e old)"
    "ft_lookup tab' = (ft_lookup tab)(ex_id e \<mapsto> h')" "b = unat (expire_at h' mod T)"
  shows "fws.wheel_inv T now (if first_ts old = 0 \<and> last_ts old = 0 then wheel[b := wheel ! b @ [ex_id e]] else wheel) tab'"
proof (cases "first_ts old = 0 \<and> last_ts old = 0")
  case True
  then have "now < expire_at h'" "unat (expire_at h') \<le> unat now + unat T"
    using fw_touch_fresh [OF True] assms(3,4,6) by (simp_all add: not_le)
  from fws.wheel_schedule [OF assms(1,2) this assms(7)] True show ?thesis by (simp add: assms(8))
next
  case False
  then have "ft_lookup tab (ex_id e) = Some old"
    by (auto simp: assms(5) new_hentry_def split: option.splits)
  moreover have "expire_at h' = expire_at old" using fw_touch_kept [OF False] assms(6) by simp
  ultimately show ?thesis using fws.wheel_update [OF assms(1) _ _ assms(7)] False by auto
qed

lemma fw_sim_feed:
  assumes "fw_sim j T n a c" "fw_pre j T n (Feed f e) a"
  shows "\<exists>c'. fw_onFeed f e c = Some c' \<and> fw_sim j T (Suc n) (us_onFeed f e a) c'"
proof (cases "ex_ts e + window_width a \<le> last_timer a")
  case True
  with assms show ?thesis
    by (auto simp: fw_onFeed_def us_onFeed_def fw_sim_def fw_pre_def Let_def ft_rel_def intro: ft_ok_more)
next
  case False
  let ?tab = "fw_tab c" and ?w = "window_width a"
  from assms have c: "ft_rel j n a ?tab" "fw_window_width c = ?w" "fw_last_timer c = last_timer a"
    "fw_alerts c = alerts a" "fw_tick_mod c = T" "fws.wheel_inv T (last_timer a) (fw_wheel c) ?tab"
    and p: "ex_id e \<noteq> kEmpty" "ex_id e \<noteq> kTomb" "Suc n < 2 ^ j"
    and T: "T \<noteq> 0" "unat (ex_ts e + ?w) \<le> unat (last_timer a) + unat T"
    by (simp_all add: fw_sim_def fw_pre_def)
  then have ok: "ft_ok j n ?tab" by (simp add: ft_rel_def)
  define old where "old = (case ft_lookup ?tab (ex_id e) of None \<Rightarrow> new_hentry | Some x \<Rightarrow> x)"
  obtain r tab where r: "findOrInsert (ex_id e) ?tab = Some (r, tab)" "ft_entries tab ! unat r = old"
    "\<And>x. ft_ok j (Suc n) (tab\<lparr>ft_entries := (ft_entries tab)[unat r := x]\<rparr>)"
    "\<And>x. ft_lookup (tab\<lparr>ft_entries := (ft_entries tab)[unat r := x]\<rparr>) = (ft_lookup ?tab)(ex_id e \<mapsto> x)"
    using ft_write [OF ok p] unfolding old_def by metis
  define fresh where "fresh \<longleftrightarrow> first_ts old = 0 \<and> last_ts old = 0"
  define h where "h = fw_touch ?w f e old"
  define al where "al \<longleftrightarrow> \<not> alerted h \<and> anyMismatch (one h) (two h) (three h) \<and> ex_ts e < expire_at h"
  define h' where "h' = (if al then h\<lparr>alerted := True\<rparr> else h)"
  define tab' where "tab' = tab\<lparr>ft_entries := (ft_entries tab)[unat r := h']\<rparr>"
  define b where "b = unat (expire_at h' mod T)"
  define wheel where "wheel = (if fresh then (fw_wheel c)[b := fw_wheel c ! b @ [ex_id e]] else fw_wheel c)"
  have tab': "ft_ok j (Suc n) tab'" "ft_lookup tab' = (ft_lookup ?tab)(ex_id e \<mapsto> h')"
    unfolding tab'_def using r(3,4) by simp_all
  have eh: "expire_at h' = expire_at h" by (simp add: h'_def)
  have "expire_at old = first_ts old + ?w" if "\<not> fresh"
    using that c(1) by (auto simp: old_def fresh_def new_hentry_def ft_rel_def split: option.splits)
  then have ex: "expire_at h = first_ts h + ?w"
    using fw_touch_fresh [of old ?w f e] fw_touch_kept [of old ?w f e] unfolding h_def fresh_def
    by (cases "first_ts old = 0 \<and> last_ts old = 0") (simp, metis)
  note R = ft_rel_feed [OF c(1) False old_def fw_touch_truncate [of f e old ?w, symmetric, folded h_def] ex al_def
      tab' [unfolded h'_def]]
  have sch: "(if first_ts old = 0 \<and> last_ts old = 0 then schedule (fw_tick_mod c) (ex_id e) (expire_at h) (fw_wheel c)
      else Some (fw_wheel c)) = Some wheel"
    using T(1) c(5) by (simp add: schedule_def wheel_def b_def eh fresh_def)
  from False have late: "\<not> ex_ts e + fw_window_width c \<le> fw_last_timer c" by (simp add: c(2,3))
  have step: "fw_onFeed f e c = Some (c\<lparr>fw_tab := tab', fw_wheel := wheel, fw_alerts := alerts (us_onFeed f e a)\<rparr>)"
    unfolding fw_onFeed_accepted [OF late r(1) r(2) [symmetric] h_def [folded c(2)] sch] al_def [symmetric]
    using c(4) by (simp add: R(2) tab'_def h'_def)
  have "fws.wheel_inv T (last_timer a) wheel tab'"
    using fw_wheel_touch [OF c(6) T(1) False T(2) old_def eh [unfolded h_def] tab'(2) b_def]
    by (simp add: wheel_def fresh_def)
  with step R(1) c show ?thesis by (simp add: fw_sim_def)
qed

lemma fw_sim_mark:
  assumes "fw_sim j T n a c" "ex_id e = kTomb" "Suc n < 2 ^ j" "T \<noteq> 0"
  shows "\<exists>c'. fw_onFeed f e c = Some c' \<and> fw_sim j T (Suc n) a c'"
proof (cases "ex_ts e + window_width a \<le> last_timer a")
  case True
  with assms show ?thesis by (auto simp: fw_onFeed_def fw_sim_def Let_def ft_rel_def intro: ft_ok_more)
next
  case False
  let ?tab = "fw_tab c"
  from assms have c: "ft_rel j n a ?tab" "fw_window_width c = window_width a" "fw_last_timer c = last_timer a"
    "fw_tick_mod c = T" "fws.wheel_inv T (last_timer a) (fw_wheel c) ?tab"
    by (simp_all add: fw_sim_def)
  then have "ft_ok j n ?tab" by (simp add: ft_rel_def)
  from ft_write_mark [OF this assms(3)] obtain r tab where
    r: "findOrInsert (ex_id e) ?tab = Some (r, tab)" "ft_entries tab ! unat r = new_hentry"
    "\<And>x. ft_ok j (Suc n) (tab\<lparr>ft_entries := (ft_entries tab)[unat r := x]\<rparr>)"
    "\<And>x. ft_lookup (tab\<lparr>ft_entries := (ft_entries tab)[unat r := x]\<rparr>) = ft_lookup ?tab"
    unfolding assms(2) by blast
  define old where "old = ft_entries tab ! unat r"
  define h where "h = fw_touch (fw_window_width c) f e old"
  have new: "first_ts old = 0 \<and> last_ts old = 0" by (simp add: old_def r(2) new_hentry_def)
  have h: "\<not> anyMismatch (one h) (two h) (three h)"
    unfolding h_def old_def r(2) fw_touch_def Let_def by (rule store_new_agrees) (simp_all add: new_hentry_def)
  define b where "b = unat (expire_at h mod T)"
  define wheel where "wheel = (fw_wheel c)[b := fw_wheel c ! b @ [ex_id e]]"
  define tab' where "tab' = tab\<lparr>ft_entries := (ft_entries tab)[unat r := h]\<rparr>"
  have sch: "(if first_ts old = 0 \<and> last_ts old = 0 then schedule (fw_tick_mod c) (ex_id e) (expire_at h) (fw_wheel c)
      else Some (fw_wheel c)) = Some wheel"
    using assms(4) c(4) new by (simp add: schedule_def wheel_def b_def)
  have late: "\<not> ex_ts e + fw_window_width c \<le> fw_last_timer c" using False by (simp add: c(2,3))
  have step: "fw_onFeed f e c = Some (c\<lparr>fw_tab := tab', fw_wheel := wheel\<rparr>)"
    using fw_onFeed_accepted [OF late r(1) old_def h_def sch] h by (simp add: tab'_def)
  have "b < length (fw_wheel c)" using c(5) assms(4) by (simp add: b_def fws.wheel_inv_def unat_mod unat_gt_0)
  then have "set (fw_wheel c ! p) \<subseteq> set (wheel ! p)" for p by (auto simp: wheel_def nth_list_update)
  with c(5) have "fws.wheel_inv T (last_timer a) wheel tab'"
    by (auto simp: fws.wheel_inv_def tab'_def r(4) wheel_def [symmetric]) (simp_all add: wheel_def)
  moreover have "ft_rel j (Suc n) a tab'" using c(1) r(3,4) by (simp add: ft_rel_def tab'_def)
  ultimately show ?thesis using step assms(1) by (simp add: fw_sim_def)
qed

lemma fw_sim_new: "j < 64 \<Longrightarrow> fw_sim j T 0 (us_new w) (fw_make w T (2 ^ j))"
  by (simp add: fw_sim_def fw_make_def ft_rel_new, simp add: us_new_def ft_new fws.wheel_inv_def)

interpretation fw: reconciler fw_onFeed fw_onTimer fw_alerts "\<lambda>w. fw_make w T (2 ^ (j mod 64))" "fw_sim (j mod 64) T"
  "fw_pre (j mod 64) T" for j T
proof unfold_locales
  fix n a c f e t
  assume s: "fw_sim (j mod 64) T n a c"
  show "fw_alerts c = alerts a" using s by (simp add: fw_sim_def)
  show "fw_pre (j mod 64) T n (Feed f e) a \<Longrightarrow>
      \<exists>c'. fw_onFeed f e c = Some c' \<and> fw_sim (j mod 64) T (Suc n) (us_onFeed f e a) c'"
    using s by (rule fw_sim_feed)
  show "fw_pre (j mod 64) T n (Timer t) a \<Longrightarrow>
      \<exists>c'. fw_onTimer t c = Some c' \<and> fw_sim (j mod 64) T n (us_onTimer t a) c'"
    using s by (rule fw_sim_timer)
qed (rule fw_sim_new, simp)

interpretation fw1: blind_reconciler fw_onFeed fw_onTimer fw_alerts "\<lambda>w. fw_make w T (2 ^ (j mod 64))" "fw_sim (j mod 64) T"
  "fw_pre (j mod 64) T" kTomb "\<lambda>n. Suc n < 2 ^ (j mod 64) \<and> T \<noteq> 0" for j T
  by unfold_locales (auto intro: fw_sim_mark)

end
