(* ===== verification/Recon_Bench.thy ===== *)
theory Recon_Bench
  imports Recon_Vector Recon_Heap Recon_Direct Recon_Flat
begin

section \<open>The driver: \<open>runBench\<close>\<close>

text \<open>
  \<open>runBench\<close> feeds a time-ordered stream of events to a reconciler, fires its timer at every
  window end \<open>W, 2W, 3W, ...\<close> that has passed, and flushes the last windows. It is a template
  over the class, so here it takes the class's operations. The lemmas show what sequence of
  actions it performs (\<open>bench_actions\<close>) when the time stamps stay far enough from \<open>2 ^ 64\<close>, and
  that this sequence meets the preconditions of all classes: the timer moves forward in steps of
  the window, and an event is less than one window past the last tick, so it expires less than
  two windows after it. A wheel of \<open>2 * W\<close> buckets is therefore large enough.
\<close>

record event =
  ev_feed :: feed
  ev_exec :: execution
  ev_tie :: u32

text \<open>The two \<open>while\<close> loops that fire the timer are the same loop.\<close>

partial_function (option) fire ::
  "(u64 \<Rightarrow> 's \<Rightarrow> 's option) \<Rightarrow> u64 \<Rightarrow> u64 \<Rightarrow> u64 \<Rightarrow> 's \<Rightarrow> (u64 \<times> 's) option" where
  "fire on_timer w now next_timer s =
     (if next_timer \<le> now
      then (case on_timer next_timer s of None \<Rightarrow> None
            | Some s' \<Rightarrow> fire on_timer w now (next_timer + w) s')
      else Some (next_timer, s))"

declare fire.simps [code]

fun bench_events :: "(feed \<Rightarrow> execution \<Rightarrow> 's \<Rightarrow> 's option) \<Rightarrow> (u64 \<Rightarrow> 's \<Rightarrow> 's option) \<Rightarrow> u64 \<Rightarrow>
    event list \<Rightarrow> u64 \<Rightarrow> u64 \<Rightarrow> 's \<Rightarrow> (u64 \<times> u64 \<times> 's) option" where
  "bench_events on_feed on_timer w [] now next_timer s = Some (now, next_timer, s)"
| "bench_events on_feed on_timer w (ev # evs) now next_timer s =
     (let ts = ex_ts (ev_exec ev);
          now = (if now < ts then ts else now)
      in case fire on_timer w now next_timer s of None \<Rightarrow> None
         | Some (next_timer, s) \<Rightarrow>
             (case on_feed (ev_feed ev) (ev_exec ev) s of None \<Rightarrow> None
              | Some s \<Rightarrow> bench_events on_feed on_timer w evs now next_timer s))"

definition runBench :: "(feed \<Rightarrow> execution \<Rightarrow> 's \<Rightarrow> 's option) \<Rightarrow> (u64 \<Rightarrow> 's \<Rightarrow> 's option) \<Rightarrow> ('s \<Rightarrow> u64) \<Rightarrow>
    event list \<Rightarrow> 's \<Rightarrow> u64 \<Rightarrow> u64 option" where
  "runBench on_feed on_timer alert_count events r w =
     (case bench_events on_feed on_timer w events 0 w r of None \<Rightarrow> None
      | Some (now, next_timer, s) \<Rightarrow>
          if w = 0 then None
          else (case fire on_timer w (((now div w) + 3) * w) next_timer s of None \<Rightarrow> None
                | Some (_, s) \<Rightarrow> Some (alert_count s)))"

subsection \<open>The actions of a run\<close>

definition fire_count :: "u64 \<Rightarrow> u64 \<Rightarrow> u64 \<Rightarrow> nat" where
  "fire_count w now nxt = (if now < nxt then 0 else Suc ((unat now - unat nxt) div unat w))"

primrec fire_times :: "nat \<Rightarrow> u64 \<Rightarrow> u64 \<Rightarrow> u64 list" where
  "fire_times 0 w nxt = []"
| "fire_times (Suc n) w nxt = nxt # fire_times n w (nxt + w)"

fun bench_actions :: "u64 \<Rightarrow> event list \<Rightarrow> u64 \<Rightarrow> u64 \<Rightarrow> action list" where
  "bench_actions w [] now nxt = map Timer (fire_times (fire_count w (((now div w) + 3) * w) nxt) w nxt)"
| "bench_actions w (ev # evs) now nxt =
     (let now = max now (ex_ts (ev_exec ev)); n = fire_count w now nxt
      in map Timer (fire_times n w nxt) @ Feed (ev_feed ev) (ev_exec ev) # bench_actions w evs now (nxt + of_nat n * w))"

lemma run_actions_append:
  "run_actions f g (as @ bs) s = Option.bind (run_actions f g as s) (run_actions f g bs)"
proof (induction as arbitrary: s)
  case (Cons a as)
  then show ?case by (cases a) (auto split: option.splits)
qed simp

lemma unat_plus_less: "unat x + unat y < 2 ^ 64 \<Longrightarrow> unat (x + y :: u64) = unat x + unat y"
  by (simp add: unat_word_ariths)

text \<open>One firing of the loop advances \<open>next_timer\<close> by the window.\<close>

lemma fire_count_step:
  assumes "w \<noteq> 0" "unat now + unat w < 2 ^ 64" "\<not> now < nxt"
  shows "fire_count w now nxt = Suc (fire_count w now (nxt + w))" "unat (nxt + w) = unat nxt + unat w"
proof -
  have le: "unat nxt \<le> unat now" using assms(3) by (simp add: not_less word_le_nat_alt)
  then show eq: "unat (nxt + w) = unat nxt + unat w" using assms(2) by (intro unat_plus_less) linarith
  have w: "0 < unat w" using assms(1) by (simp add: unat_gt_0)
  have "(unat now - unat nxt) div unat w = fire_count w now (nxt + w)"
  proof (cases "now < nxt + w")
    case True
    then have "unat now - unat nxt < unat w" using le by (simp add: word_less_nat_alt eq)
    with True show ?thesis by (simp add: fire_count_def)
  next
    case False
    then have "unat nxt + unat w \<le> unat now" by (simp add: not_less word_le_nat_alt eq)
    then have "unat now - unat nxt = (unat now - (unat nxt + unat w)) + unat w" by simp
    then have "(unat now - unat nxt) div unat w = Suc ((unat now - (unat nxt + unat w)) div unat w)"
      using w by (simp only: div_add_self2)
    with False show ?thesis by (simp add: fire_count_def eq)
  qed
  with assms(3) show "fire_count w now nxt = Suc (fire_count w now (nxt + w))" by (simp add: fire_count_def)
qed

lemma fire_run:
  assumes "w \<noteq> 0" "unat now + unat w < 2 ^ 64"
  shows "fire on_timer w now nxt s =
    map_option (Pair (nxt + of_nat (fire_count w now nxt) * w))
      (run_actions on_feed on_timer (map Timer (fire_times (fire_count w now nxt) w nxt)) s)"
proof (induction "fire_count w now nxt" arbitrary: nxt s)
  case 0
  then have "\<not> nxt \<le> now" by (simp add: fire_count_def not_le split: if_splits)
  then show ?case by (subst fire.simps) (simp add: 0 [symmetric])
next
  case (Suc n)
  then have "\<not> now < nxt" by (auto simp: fire_count_def)
  note st = fire_count_step [OF assms this]
  from st(1) Suc.hyps(2) have n: "n = fire_count w now (nxt + w)" by simp
  show ?case
    using \<open>\<not> now < nxt\<close> Suc.hyps(1) [OF n]
    by (subst fire.simps)
      (simp add: Suc.hyps(2) [symmetric] n [symmetric] algebra_simps not_less split: option.split)
qed

text \<open>The state of the driver's clock between two events.\<close>

definition clock_ok :: "nat \<Rightarrow> u64 \<Rightarrow> u64 \<Rightarrow> u64 \<Rightarrow> bool" where
  "clock_ok B w now nxt \<longleftrightarrow> w \<noteq> 0 \<and> unat now \<le> B \<and> unat w \<le> unat nxt \<and> unat nxt \<le> B + unat w \<and> B + 4 * unat w < 2 ^ 64"

lemma fire_next:
  assumes "w \<noteq> 0" "unat now + unat w < 2 ^ 64"
  shows "now < nxt + of_nat (fire_count w now nxt) * w"
    "nxt + of_nat (fire_count w now nxt) * w = nxt \<and> now < nxt \<or>
     unat nxt \<le> unat (nxt + of_nat (fire_count w now nxt) * w) \<and>
     unat (nxt + of_nat (fire_count w now nxt) * w) \<le> unat now + unat w"
proof (induction "fire_count w now nxt" arbitrary: nxt)
  case 0
  then have "now < nxt" by (simp add: fire_count_def split: if_splits)
  { case 1 show ?case using 0 \<open>now < nxt\<close> by (simp flip: 0) }
  { case 2 show ?case using 0 \<open>now < nxt\<close> by (simp flip: 0) }
next
  case (Suc n)
  then have nl: "\<not> now < nxt" by (auto simp: fire_count_def)
  note st = fire_count_step [OF assms nl]
  from st(1) Suc.hyps(3) have n: "n = fire_count w now (nxt + w)" by simp
  have eq: "nxt + of_nat (fire_count w now nxt) * w = nxt + w + of_nat (fire_count w now (nxt + w)) * w"
    by (simp add: st(1) algebra_simps)
  note IH = Suc.hyps(1) [OF n] Suc.hyps(2) [OF n]
  have le: "unat nxt \<le> unat now" using nl by (simp add: not_less word_le_nat_alt)
  { case 1 show ?case unfolding eq by (rule IH(1)) }
  { case 2 show ?case using IH(2) st(2) le unfolding eq by auto }
qed


lemma clock_step:
  assumes "clock_ok B w now nxt" "unat ts \<le> B"
  shows "clock_ok B w (max now ts) (nxt + of_nat (fire_count w (max now ts) nxt) * w)"
    "max now ts < nxt + of_nat (fire_count w (max now ts) nxt) * w"
    "unat (max now ts) + unat w < 2 ^ 64"
proof -
  have le: "unat (max now ts) \<le> B" using assms by (simp add: clock_ok_def max_def)
  with assms show less: "unat (max now ts) + unat w < 2 ^ 64" by (simp add: clock_ok_def)
  have w: "w \<noteq> 0" using assms by (simp add: clock_ok_def)
  note N = fire_next [OF w less, of nxt]
  show "max now ts < nxt + of_nat (fire_count w (max now ts) nxt) * w" by (rule N(1))
  show "clock_ok B w (max now ts) (nxt + of_nat (fire_count w (max now ts) nxt) * w)"
    using assms(1) le N(2) unfolding clock_ok_def by auto
qed

lemma flush_bound:
  assumes "clock_ok B w now nxt"
  shows "unat (((now div w) + 3) * w) + unat w < 2 ^ 64"
proof -
  have b: "unat now \<le> B" "B + 4 * unat w < 2 ^ 64" using assms by (simp_all add: clock_ok_def)
  have "unat (((now div w) + 3) * w) \<le> unat (now div w + 3) * unat w" by (simp add: unat_word_ariths)
  also have "unat (now div w + 3) \<le> unat now div unat w + 3"
  proof -
    have "unat (now div w + 3) \<le> unat (now div w) + unat (3 :: u64)" by (simp add: unat_word_ariths)
    then show ?thesis by (simp add: unat_div)
  qed
  finally have "unat (((now div w) + 3) * w) \<le> (unat now div unat w + 3) * unat w" by simp
  also have "\<dots> \<le> unat now + 3 * unat w" by (simp add: algebra_simps div_times_less_eq_dividend)
  finally show ?thesis using b by linarith
qed

theorem bench_run:
  assumes "clock_ok B w now nxt" "\<And>ev. ev \<in> set evs \<Longrightarrow> unat (ex_ts (ev_exec ev)) \<le> B"
  shows "Option.bind (bench_events on_feed on_timer w evs now nxt s)
      (\<lambda>(now, nxt, s). map_option snd (fire on_timer w (((now div w) + 3) * w) nxt s)) =
    run_actions on_feed on_timer (bench_actions w evs now nxt) s"
  using assms
proof (induction evs arbitrary: now nxt s)
  case Nil
  then have "w \<noteq> 0" by (simp add: clock_ok_def)
  show ?case
    by (simp add: fire_run [OF \<open>w \<noteq> 0\<close> flush_bound [OF Nil.prems(1)], where on_feed = on_feed]
        option.map_comp comp_def option.map_ident)
next
  case (Cons ev evs)
  let ?ts = "ex_ts (ev_exec ev)"
  have "unat ?ts \<le> B" using Cons.prems(2) by simp
  note st = clock_step [OF Cons.prems(1) this]
  have w: "w \<noteq> 0" using Cons.prems(1) by (simp add: clock_ok_def)
  have m: "(if now < ?ts then ?ts else now) = max now ?ts" by (auto simp: max_def)
  note IH = Cons.IH [OF st(1) Cons.prems(2)]
  show ?case
    unfolding bench_events.simps bench_actions.simps Let_def m fire_run [OF w st(3), where on_feed = on_feed] run_actions_append
    using IH by (auto split: option.splits simp: option.map_comp)
qed

corollary runBench_actions:
  assumes "w \<noteq> 0" "B + 4 * unat w < 2 ^ 64" "\<And>ev. ev \<in> set evs \<Longrightarrow> unat (ex_ts (ev_exec ev)) \<le> B"
  shows "runBench on_feed on_timer alert_count evs r w =
    map_option alert_count (run_actions on_feed on_timer (bench_actions w evs 0 w) r)"
proof -
  have "clock_ok B w 0 w" using assms(1,2) by (simp add: clock_ok_def)
  from bench_run [OF this assms(3), of evs on_feed on_timer r, symmetric] assms(1) show ?thesis
    by (auto simp: runBench_def option.map_comp comp_def split: option.splits)
qed

subsection \<open>The actions meet the preconditions\<close>

text \<open>What holds at each action of a run; \<open>E\<close> is the set of events and \<open>k\<close> their number.\<close>

definition bench_pre :: "(feed \<times> execution) set \<Rightarrow> nat \<Rightarrow> u64 \<Rightarrow> nat \<Rightarrow> action \<Rightarrow> uscan \<Rightarrow> bool" where
  "bench_pre E k w n act a \<longleftrightarrow> window_width a = w \<and>
     (case act of Feed f e \<Rightarrow> (f, e) \<in> E \<and> n < k \<and> unat (ex_ts e + w) \<le> unat (last_timer a) + 2 * unat w
      | Timer t \<Rightarrow> last_timer a \<le> t \<and> t \<noteq> -1)"

lemma admissible_append:
  "admissible P n (as @ bs) a \<longleftrightarrow> admissible P n as a \<and> admissible P (n + sum_list (map fed as)) bs (us_run as a)"
  by (induction as arbitrary: n a) (auto simp: add.assoc)

lemma admissible_mono: "(\<And>n x a. P n x a \<Longrightarrow> Q n x a) \<Longrightarrow> admissible P n as a \<Longrightarrow> admissible Q n as a"
  by (induction as arbitrary: n a) auto

lemma fed_timers [simp]: "sum_list (map fed (map Timer ts)) = 0"
  and fed_timers_comp [simp]: "sum_list (map (fed \<circ> Timer) ts) = 0"
  by (induction ts) auto

lemma us_run_frame [simp]: "window_width (us_run as a) = window_width a"
proof (induction as arbitrary: a)
  case (Cons x as)
  then show ?case by (cases x) simp_all
qed simp

lemma fire_admissible:
  assumes "w \<noteq> 0" "unat now + unat w < 2 ^ 64" "last_timer a + w = nxt" "unat w \<le> unat nxt" "window_width a = w"
  shows "admissible (bench_pre E k w) n (map Timer (fire_times (fire_count w now nxt) w nxt)) a \<and>
    last_timer (us_run (map Timer (fire_times (fire_count w now nxt) w nxt)) a) + w =
      nxt + of_nat (fire_count w now nxt) * w"
  using assms(3-5)
proof (induction "fire_count w now nxt" arbitrary: nxt a)
  case 0
  have "fire_count w now nxt = 0" using 0(1) by simp
  with 0(2) show ?case by simp
next
  case (Suc c)
  then have nl: "\<not> now < nxt" by (auto simp: fire_count_def)
  note st = fire_count_step [OF assms(1,2) nl]
  from st(1) Suc.hyps(2) have c: "c = fire_count w now (nxt + w)" by simp
  have "last_timer (us_onTimer nxt a) + w = nxt + w" "unat w \<le> unat (nxt + w)" "window_width (us_onTimer nxt a) = w"
    using Suc.prems(3) by (simp_all add: st(2))
  note IH = Suc.hyps(1) [OF c this]
  have "unat (last_timer a) + unat w = unat nxt"
  proof -
    have "last_timer a = nxt - w" using Suc.prems(1) by (simp add: algebra_simps)
    then have "unat (last_timer a) = unat nxt - unat w"
      using Suc.prems(2) by (simp add: unat_sub word_le_nat_alt)
    with Suc.prems(2) show ?thesis by simp
  qed
  then have "last_timer a \<le> nxt" by (simp add: word_le_nat_alt)
  moreover have "nxt \<noteq> -1"
  proof
    assume "nxt = -1"
    have "unat (nxt + w) = unat nxt + unat w" "0 < unat w" using st(2) assms(1) by (simp_all add: unat_gt_0)
    then have "nxt < nxt + w" by (simp add: word_less_nat_alt)
    with \<open>nxt = -1\<close> show False by simp
  qed
  ultimately have pre: "bench_pre E k w n (Timer nxt) a" using Suc.prems(3) by (simp add: bench_pre_def)
  have eq: "nxt + of_nat (fire_count w now nxt) * w = nxt + w + of_nat (fire_count w now (nxt + w)) * w"
    by (simp add: st(1) algebra_simps)
  from IH pre show ?case unfolding eq by (simp add: st(1))
qed

lemma bench_admissible:
  assumes "clock_ok B w now nxt" "\<And>ev. ev \<in> set evs \<Longrightarrow> unat (ex_ts (ev_exec ev)) \<le> B \<and> (ev_feed ev, ev_exec ev) \<in> E"
    "last_timer a + w = nxt" "window_width a = w" "n + length evs \<le> k"
  shows "admissible (bench_pre E k w) n (bench_actions w evs now nxt) a"
  using assms
proof (induction evs arbitrary: n now nxt a)
  case Nil
  then have "w \<noteq> 0" "unat w \<le> unat nxt" by (simp_all add: clock_ok_def)
  with fire_admissible [OF this(1) flush_bound [OF Nil.prems(1)] Nil.prems(3) this(2) Nil.prems(4)]
  show ?case by simp
next
  case (Cons ev evs)
  let ?e = "ev_exec ev"
  let ?now = "max now (ex_ts ?e)"
  let ?nxt = "nxt + of_nat (fire_count w ?now nxt) * w"
  let ?ts = "map Timer (fire_times (fire_count w ?now nxt) w nxt)"
  have ev: "unat (ex_ts ?e) \<le> B" "(ev_feed ev, ?e) \<in> E" using Cons.prems(2) by simp_all
  note st = clock_step [OF Cons.prems(1) ev(1)]
  have w: "w \<noteq> 0" "unat w \<le> unat nxt" using Cons.prems(1) by (simp_all add: clock_ok_def)
  note F = fire_admissible [OF w(1) st(3) Cons.prems(3) w(2) Cons.prems(4), of E k n]
  define b where "b = us_run ?ts a"
  have b: "last_timer b + w = ?nxt" "window_width b = w" using F Cons.prems(4) by (simp_all add: b_def)
  have nx: "unat w \<le> unat ?nxt" "unat ?nxt \<le> B + unat w" "B + 4 * unat w < 2 ^ 64" using st(1) by (simp_all add: clock_ok_def)
  have "last_timer b = ?nxt - w" using b(1) by (simp add: algebra_simps)
  then have "unat (last_timer b) = unat ?nxt - unat w" using nx(1) by (simp add: unat_sub word_le_nat_alt)
  moreover have "unat (ex_ts ?e) < unat ?nxt"
    using le_less_trans [OF max.cobounded2 st(2)] by (simp add: word_less_nat_alt)
  moreover have "unat (ex_ts ?e + w) = unat (ex_ts ?e) + unat w"
    using ev(1) nx(3) by (intro unat_plus_less) linarith
  ultimately have "unat (ex_ts ?e + w) \<le> unat (last_timer b) + 2 * unat w" using nx(1) by linarith
  then have "bench_pre E k w n (Feed (ev_feed ev) ?e) b"
    using ev(2) b(2) Cons.prems(5) by (simp add: bench_pre_def)
  moreover have "admissible (bench_pre E k w) (Suc n) (bench_actions w evs ?now ?nxt) (us_onFeed (ev_feed ev) ?e b)"
    using Cons.prems(2,5) b by (intro Cons.IH [OF st(1)]) simp_all
  ultimately show ?case using F by (simp add: Let_def admissible_append b_def)
qed

context reconciler begin

text \<open>The driver gets the same number of alerts from the class as from the map-based one.\<close>

lemma same_bench:
  assumes "w \<noteq> 0" "B + 4 * unat w < 2 ^ 64" "\<And>ev. ev \<in> set evs \<Longrightarrow> unat (ex_ts (ev_exec ev)) \<le> B"
    "\<And>n x a. bench_pre ((\<lambda>ev. (ev_feed ev, ev_exec ev)) ` set evs) (length evs) w n x a \<Longrightarrow> pre n x a"
  shows "runBench on_feed on_timer alert_count evs (init w) w =
    runBench (\<lambda>f e s. Some (us_onFeed f e s)) (\<lambda>t s. Some (us_onTimer t s)) alerts evs (us_new w) w"
proof -
  have "clock_ok B w 0 w" using assms(1,2) by (simp add: clock_ok_def)
  moreover have "last_timer (us_new w) + w = w" "window_width (us_new w) = w" by (simp_all add: us_new_def)
  ultimately have "admissible (bench_pre ((\<lambda>ev. (ev_feed ev, ev_exec ev)) ` set evs) (length evs) w) 0
      (bench_actions w evs 0 w) (us_new w)"
    using assms(3) by (intro bench_admissible) auto
  then have "admissible pre 0 (bench_actions w evs 0 w) (us_new w)" by (rule admissible_mono [rotated]) (rule assms(4))
  then show ?thesis
    by (simp add: runBench_actions [OF assms(1-3)] run_actions_us same_alerts)
qed

end

context blind_reconciler begin

text \<open>The preconditions of the driver's actions do not depend on what is in the map.\<close>

lemma bench_run_without:
  assumes "sim n a c" "admissible (bench_pre E k w) n as b" "last_timer b = last_timer a" "window_width b = window_width a"
    and keep: "\<And>n x a. bench_pre E k w n x a \<Longrightarrow> (\<forall>f e. x = Feed f e \<longrightarrow> ex_id e \<noteq> mark) \<Longrightarrow> pre n x a"
    and room: "\<And>n. n < k \<Longrightarrow> room n"
  shows "\<exists>m c'. run_actions on_feed on_timer as c = Some c' \<and> sim m (us_run (without_id mark as) a) c'"
  using assms(1-4)
proof (induction as arbitrary: n a b c)
  case Nil
  then show ?case by auto
next
  case (Cons x as)
  from Cons.prems(2) have x: "bench_pre E k w n x b" "admissible (bench_pre E k w) (n + fed x) as (us_step x b)" by simp_all
  then have xa: "bench_pre E k w n x a" using Cons.prems(3,4) by (cases x) (simp_all add: bench_pre_def)
  show ?case
  proof (cases x)
    case (Feed f e)
    have n: "n < k" using x(1) Feed by (simp add: bench_pre_def)
    note next_b = x(2) [unfolded Feed, simplified]
    show ?thesis
    proof (cases "ex_id e = mark")
      case True
      then obtain c' where c': "on_feed f e c = Some c'" "sim (Suc n) a c'"
        using sim_mark [OF Cons.prems(1) _ room [OF n]] by blast
      from Cons.IH [OF c'(2) next_b] Cons.prems(3,4) c'(1) True Feed show ?thesis by simp
    next
      case False
      then have "pre n (Feed f e) a" using keep [OF xa] Feed by simp
      then obtain c' where c': "on_feed f e c = Some c'" "sim (Suc n) (us_onFeed f e a) c'"
        using sim_feed [OF Cons.prems(1)] by blast
      from Cons.IH [OF c'(2) next_b] Cons.prems(3,4) c'(1) False Feed show ?thesis by simp
    qed
  next
    case (Timer t)
    then have "pre n (Timer t) a" using keep [OF xa] by simp
    then obtain c' where c': "on_timer t c = Some c'" "sim n (us_onTimer t a) c'"
      using sim_timer [OF Cons.prems(1)] by blast
    from Cons.IH [OF c'(2) x(2) [unfolded Timer, simplified]] Cons.prems(4) c'(1) Timer show ?thesis by simp
  qed
qed

lemma bench_without:
  assumes "w \<noteq> 0" "B + 4 * unat w < 2 ^ 64" "\<And>ev. ev \<in> set evs \<Longrightarrow> unat (ex_ts (ev_exec ev)) \<le> B"
    and keep: "\<And>n x a. bench_pre ((\<lambda>ev. (ev_feed ev, ev_exec ev)) ` set evs) (length evs) w n x a \<Longrightarrow>
      (\<forall>f e. x = Feed f e \<longrightarrow> ex_id e \<noteq> mark) \<Longrightarrow> pre n x a"
    and room: "\<And>n. n < length evs \<Longrightarrow> room n"
  shows "runBench on_feed on_timer alert_count evs (init w) w =
    Some (alerts (us_run (without_id mark (bench_actions w evs 0 w)) (us_new w)))"
proof -
  have "clock_ok B w 0 w" using assms(1,2) by (simp add: clock_ok_def)
  moreover have "last_timer (us_new w) + w = w" "window_width (us_new w) = w" by (simp_all add: us_new_def)
  ultimately have "admissible (bench_pre ((\<lambda>ev. (ev_feed ev, ev_exec ev)) ` set evs) (length evs) w) 0
      (bench_actions w evs 0 w) (us_new w)"
    using assms(3) by (intro bench_admissible) auto
  from bench_run_without [OF sim_init this refl refl keep room] obtain m c' where
    "run_actions on_feed on_timer (bench_actions w evs 0 w) (init w) = Some c'"
    "sim m (us_run (without_id mark (bench_actions w evs 0 w)) (us_new w)) c'" by blast
  then show ?thesis by (simp add: runBench_actions [OF assms(1-3)] sim_alerts)
qed

end

end
