(* ===== verification/Recon_Workload.thy ===== *)
theory Recon_Workload
  imports Recon_Bench
begin

section \<open>The benchmark program: \<open>makeWorkload\<close>, \<open>benchOne\<close> and \<open>main\<close>\<close>

text \<open>
  \<open>makeWorkload\<close> draws its events from a 64-bit Mersenne twister through the distributions of
  the standard library. A round of the loop consumes one \<open>draw\<close>; the model takes the list of
  draws, one per round, in place of the seed, so a statement about all lists with in-range
  draws covers every seed. The floating-point operations on prices are a parameter
  (\<open>fp_ops\<close>): no property depends on their rounding. \<open>std::sort\<close> may order events that
  compare equal either way; \<open>sort_events\<close> is one such order, and the properties hold for every
  permutation of the events.
\<close>

record fp_ops =
  fadd :: "double \<Rightarrow> double \<Rightarrow> double"
  fsub :: "double \<Rightarrow> double \<Rightarrow> double"
  fmul :: "double \<Rightarrow> double \<Rightarrow> double"
  of_u64 :: "u64 \<Rightarrow> double"

text \<open>The bit patterns of the literals \<open>0.01\<close>, \<open>0.02\<close> and \<open>100.0\<close>.\<close>

definition d_0_01 :: double where "d_0_01 = 0x3F847AE147AE147B"
definition d_0_02 :: double where "d_0_02 = 0x3F947AE147AE147B"
definition d_100 :: double where "d_100 = 0x4059000000000000"

text \<open>The order of two doubles: by sign and magnitude, and false on a NaN.\<close>

definition double_key :: "double \<Rightarrow> int" where
  "double_key d = (if unat d < 2 ^ 63 then int (double_magnitude d) else - int (double_magnitude d))"

definition double_less :: "double \<Rightarrow> double \<Rightarrow> bool" where
  "double_less x y \<longleftrightarrow> \<not> double_is_nan x \<and> \<not> double_is_nan y \<and> double_key x < double_key y"

record draw =
  dr_id :: u64
  dr_uni :: double
  dr_which :: u64
  dr_jitter1 :: u64
  dr_jitter2 :: u64
  dr_jitter3 :: u64
  dr_tie1 :: u64
  dr_tie2 :: u64
  dr_tie3 :: u64

definition baseExec :: "fp_ops \<Rightarrow> u64 \<Rightarrow> execution" where
  "baseExec fp i = \<lparr>ex_id = i, ex_price = fadd fp d_100 (fmul fp (of_u64 fp (i mod 1000)) d_0_01),
     ex_size = ucast (1 + i mod 10), ex_ts = 0\<rparr>"

text \<open>One round: the three executions of an id, one of them changed in a mismatching round.\<close>

definition round_events :: "fp_ops \<Rightarrow> double \<Rightarrow> u64 \<Rightarrow> draw \<Rightarrow> event list" where
  "round_events fp mismatch_rate t d =
     (let b = baseExec fp (dr_id d);
          mis = double_less (dr_uni d) mismatch_rate;
          which = dr_which d mod 3;
          e1 = (if mis \<and> which = 0 then b\<lparr>ex_price := fadd fp (ex_price b) d_0_01\<rparr> else b);
          e2 = (if mis \<and> which = 1 then b\<lparr>ex_size := ex_size b + 1\<rparr> else b);
          e3 = (if mis \<and> which \<noteq> 0 \<and> which \<noteq> 1 then b\<lparr>ex_price := fsub fp (ex_price b) d_0_02\<rparr> else b)
      in [\<lparr>ev_feed = One, ev_exec = e1\<lparr>ex_ts := t + dr_jitter1 d\<rparr>, ev_tie = ucast (dr_tie1 d)\<rparr>,
          \<lparr>ev_feed = Two, ev_exec = e2\<lparr>ex_ts := t + dr_jitter2 d\<rparr>, ev_tie = ucast (dr_tie2 d)\<rparr>,
          \<lparr>ev_feed = Three, ev_exec = e3\<lparr>ex_ts := t + dr_jitter3 d\<rparr>, ev_tie = ucast (dr_tie3 d)\<rparr>])"

fun rounds :: "fp_ops \<Rightarrow> double \<Rightarrow> u64 \<Rightarrow> u64 \<Rightarrow> draw list \<Rightarrow> event list" where
  "rounds fp mismatch_rate w t [] = []"
| "rounds fp mismatch_rate w t (d # ds) =
     round_events fp mismatch_rate t d @
     rounds fp mismatch_rate w (t + (1 + w div 20)) ds"

definition event_less :: "event \<Rightarrow> event \<Rightarrow> bool" where
  "event_less a b = (if ex_ts (ev_exec a) \<noteq> ex_ts (ev_exec b) then ex_ts (ev_exec a) < ex_ts (ev_exec b)
                     else ev_tie a < ev_tie b)"

fun insert_event :: "event \<Rightarrow> event list \<Rightarrow> event list" where
  "insert_event x [] = [x]"
| "insert_event x (y # ys) = (if event_less y x then y # insert_event x ys else x # y # ys)"

definition sort_events :: "event list \<Rightarrow> event list" where
  "sort_events evs = foldr insert_event evs []"

definition makeWorkload :: "fp_ops \<Rightarrow> u64 \<Rightarrow> double \<Rightarrow> draw list \<Rightarrow> event list" where
  "makeWorkload fp w mismatch_rate ds = sort_events (rounds fp mismatch_rate w 1 ds)"

text \<open>
  \<open>benchOne\<close> runs the events on a reconciler it throws away and then on a second one, whose
  alerts it prints. The function \<open>make\<close> (here its result \<open>mk\<close>) may fail to return a reconciler, as the loop in the constructor of
  the hash classes can.
\<close>

definition benchOne :: "(feed \<Rightarrow> execution \<Rightarrow> 's \<Rightarrow> 's option) \<Rightarrow> (u64 \<Rightarrow> 's \<Rightarrow> 's option) \<Rightarrow> ('s \<Rightarrow> u64) \<Rightarrow>
    event list \<Rightarrow> u64 \<Rightarrow> 's option \<Rightarrow> u64 option" where
  "benchOne on_feed on_timer alert_count events w mk =
     Option.bind mk (\<lambda>r. Option.bind (runBench on_feed on_timer alert_count events r w)
       (\<lambda>_. Option.bind mk (\<lambda>r2. runBench on_feed on_timer alert_count events r2 w)))"

text \<open>The constants of \<open>main\<close>, and the alerts it prints, one row per class.\<close>

definition bench_window :: u64 where "bench_window = 1000"
definition distinct_ids :: u64 where "distinct_ids = 200000"
definition events_per_feed :: nat where "events_per_feed = 200000"
definition out_of_order_jitter :: u64 where "out_of_order_jitter = 200"
definition tick_mod :: u64 where "tick_mod = 4096"

definition main_rows :: "event list \<Rightarrow> (string \<times> u64 option) list" where
  "main_rows events =
     [(''VectorScan'', benchOne (\<lambda>f e s. Some (vs_onFeed f e s)) (\<lambda>t s. Some (vs_onTimer t s)) vs_alerts
          events bench_window (Some (vs_new bench_window))),
      (''UnorderedScan'', benchOne (\<lambda>f e s. Some (us_onFeed f e s)) (\<lambda>t s. Some (us_onTimer t s)) alerts
          events bench_window (Some (us_new bench_window))),
      (''UnorderedHeap'', benchOne (\<lambda>f e s. Some (uh_onFeed f e s)) uh_onTimer uh_alerts
          events bench_window (Some (uh_new bench_window))),
      (''UnorderedHeapReserved'', benchOne (\<lambda>f e s. Some (uhr_onFeed f e s)) uhr_onTimer uh_alerts
          events bench_window (Some (uhr_new bench_window (unat distinct_ids)))),
      (''FlatHashHeap'', benchOne fh_onFeed fh_onTimer fh_alerts
          events bench_window (fh_new bench_window distinct_ids)),
      (''FlatHashWheel'', benchOne fw_onFeed fw_onTimer fw_alerts
          events bench_window (fw_new bench_window distinct_ids tick_mod)),
      (''DirectIndexWheel'', benchOne dw_onFeed dw_onTimer dw_alerts
          events bench_window (Some (dw_new bench_window (distinct_ids + 5) tick_mod))),
      (''DirectIndexHeap'', benchOne dh_onFeed dh_onTimer dh_alerts
          events bench_window (Some (dh_new bench_window (distinct_ids + 5))))]"

subsection \<open>The events of a workload\<close>

lemma set_insert_event [simp]: "set (insert_event x ys) = insert x (set ys)"
  by (induction x ys rule: insert_event.induct) auto

lemma set_sort_events [simp]: "set (sort_events evs) = set evs"
  unfolding sort_events_def by (induction evs) auto

text \<open>The ranges that the two integer distributions promise.\<close>

definition draw_ok :: "draw \<Rightarrow> bool" where
  "draw_ok d \<longleftrightarrow> 1 \<le> dr_id d \<and> dr_id d \<le> distinct_ids \<and> dr_jitter1 d \<le> out_of_order_jitter \<and>
     dr_jitter2 d \<le> out_of_order_jitter \<and> dr_jitter3 d \<le> out_of_order_jitter"

definition event_ok :: "nat \<Rightarrow> event \<Rightarrow> bool" where
  "event_ok B ev \<longleftrightarrow> 1 \<le> ex_id (ev_exec ev) \<and> ex_id (ev_exec ev) \<le> distinct_ids \<and> 0 < ex_ts (ev_exec ev) \<and>
     unat (ex_ts (ev_exec ev)) \<le> B"

lemma jitter_sum:
  assumes "unat t \<le> B" "0 < t" "j \<le> out_of_order_jitter" "B + 200 < 2 ^ 64"
  shows "0 < t + j \<and> unat (t + j) \<le> B + 200"
proof -
  have "unat j \<le> 200" using assms(3) by (simp add: out_of_order_jitter_def word_le_nat_alt)
  moreover from this assms have "unat (t + j) = unat t + unat j" by (intro unat_plus_less) linarith
  moreover have "0 < unat t" using assms(2) by (simp add: word_less_nat_alt)
  ultimately show ?thesis using assms(1) by (simp add: word_less_nat_alt)
qed

lemma round_events_ok:
  assumes "draw_ok d" "unat t \<le> B" "0 < t" "B + 200 < 2 ^ 64" "ev \<in> set (round_events fp rate t d)"
  shows "event_ok (B + 200) ev"
proof -
  have "ex_id (ev_exec ev) = dr_id d \<and> ex_ts (ev_exec ev) \<in> {t + dr_jitter1 d, t + dr_jitter2 d, t + dr_jitter3 d}"
    using assms(5) by (auto simp: round_events_def baseExec_def Let_def)
  then show ?thesis
    using assms(1) jitter_sum [OF assms(2,3) _ assms(4)] by (auto simp: event_ok_def draw_ok_def)
qed

lemma rounds_ok:
  assumes "list_all draw_ok ds" "0 < t" "unat t + length ds * 51 + 200 < 2 ^ 64" "ev \<in> set (rounds fp rate bench_window t ds)"
  shows "event_ok (unat t + length ds * 51 + 200) ev"
  using assms
proof (induction ds arbitrary: t)
  case Nil
  then show ?case by simp
next
  case (Cons d ds)
  have s: "1 + bench_window div 20 = 51" by (simp add: bench_window_def)
  have t: "unat (t + 51) = unat t + 51" "0 < t + 51"
    using Cons.prems(3) unat_plus_less [of t 51] by (simp_all add: word_less_nat_alt)
  from Cons.prems(4) consider "ev \<in> set (round_events fp rate t d)" | "ev \<in> set (rounds fp rate bench_window (t + 51) ds)"
    unfolding rounds.simps s by auto
  then show ?case
  proof cases
    case 1
    then show ?thesis
      using Cons.prems round_events_ok [of d t "unat t" ev fp rate] by (auto simp: event_ok_def)
  next
    case 2
    with Cons.IH [of "t + 51"] Cons.prems t show ?thesis by (simp add: event_ok_def)
  qed
qed

lemma workload_ok:
  assumes "length ds = events_per_feed" "list_all draw_ok ds" "ev \<in> set (makeWorkload fp bench_window rate ds)"
  shows "event_ok 10200201 ev"
  using rounds_ok [of ds 1 ev fp rate] assms by (simp add: makeWorkload_def events_per_feed_def)

end
