(* ===== verification/Recon_Properties.thy ===== *)
theory Recon_Properties
  imports Recon_Workload
begin

section \<open>The eight reconcilers compared\<close>

text \<open>
  The eight classes are meant to be exchangeable. This theory states how far they are: three of
  them on every schedule, the two direct-index ones for ids in range, the wheels when they have
  enough buckets, the hash tables for ids that are not their markers and as long as they have
  free slots; and what the program of the benchmark prints. Three concrete runs show what
  happens outside those conditions.
\<close>

abbreviation us_alerts_of :: "event list \<Rightarrow> u64 \<Rightarrow> u64 option" where
  "us_alerts_of evs w \<equiv> runBench (\<lambda>f e s. Some (us_onFeed f e s)) (\<lambda>t s. Some (us_onTimer t s)) alerts evs (us_new w) w"

subsection \<open>Classes that agree on every schedule\<close>

text \<open>C3: On every schedule of feeds and timer calls, with any ids and any time stamps, also
  decreasing or wrapping ones, \<open>ReconcilerVectorScan\<close>, \<open>ReconcilerUnorderedHeap\<close> and
  \<open>ReconcilerUnorderedHeapReserved\<close> return and have raised exactly the alerts of
  \<open>ReconcilerUnorderedScan\<close>.\<close>

theorem scan_and_heap_agree:
  "map_option vs_alerts (run_actions (\<lambda>f e s. Some (vs_onFeed f e s)) (\<lambda>t s. Some (vs_onTimer t s)) as (vs_new w)) =
     Some (alerts (us_run as (us_new w))) \<and>
   map_option uh_alerts (run_actions (\<lambda>f e s. Some (uh_onFeed f e s)) uh_onTimer as (uh_new w)) =
     Some (alerts (us_run as (us_new w))) \<and>
   map_option uh_alerts (run_actions (\<lambda>f e s. Some (uhr_onFeed f e s)) uhr_onTimer as (uhr_new w n)) =
     Some (alerts (us_run as (us_new w)))"
  by (intro conjI vs.same_alerts uh.same_alerts uhr.same_alerts) simp_all

text \<open>\<open>ReconcilerDirectIndexHeap\<close> agrees on every schedule whose ids are at most \<open>max_id\<close> and
  whose time stamps are not zero (it marks a tracked entry by a flag, the scanning class by a
  time stamp that is not zero).\<close>

theorem direct_heap_agrees:
  assumes "max_id \<noteq> -1" "\<And>f e. Feed f e \<in> set as \<Longrightarrow> ex_id e \<le> max_id \<and> ex_ts e \<noteq> 0"
  shows "map_option dh_alerts (run_actions dh_onFeed dh_onTimer as (dh_new w max_id)) =
    Some (alerts (us_run as (us_new w)))"
proof (rule dh.same_alerts)
  have "admissible (\<lambda>n. dh_pre max_id) n bs s" if "set bs \<subseteq> set as" for n bs s
    using that
  proof (induction bs arbitrary: n s)
    case (Cons b bs)
    then show ?case using assms by (cases b) (auto simp: dh_pre_def)
  qed simp
  then show "admissible (\<lambda>n. dh_pre max_id) 0 as (us_new w)" by simp
qed

lemma direct_heap_agrees_witness:
  "map_option dh_alerts (run_actions dh_onFeed dh_onTimer
     [Feed One \<lparr>ex_id = 2, ex_price = 5, ex_size = 7, ex_ts = 1\<rparr>,
      Feed Two \<lparr>ex_id = 2, ex_price = 5, ex_size = 8, ex_ts = 3\<rparr>] (dh_new 4 2)) = Some 1"
proof -
  have "alerts (us_run [Feed One \<lparr>ex_id = 2, ex_price = 5, ex_size = 7, ex_ts = 1\<rparr>,
      Feed Two \<lparr>ex_id = 2, ex_price = 5, ex_size = 8, ex_ts = 3\<rparr>] (us_new 4)) = 1" by code_simp
  moreover have "map_option dh_alerts (run_actions dh_onFeed dh_onTimer
     [Feed One \<lparr>ex_id = 2, ex_price = 5, ex_size = 7, ex_ts = 1\<rparr>,
      Feed Two \<lparr>ex_id = 2, ex_price = 5, ex_size = 8, ex_ts = 3\<rparr>] (dh_new 4 2)) =
    Some (alerts (us_run [Feed One \<lparr>ex_id = 2, ex_price = 5, ex_size = 7, ex_ts = 1\<rparr>,
      Feed Two \<lparr>ex_id = 2, ex_price = 5, ex_size = 8, ex_ts = 3\<rparr>] (us_new 4)))"
    by (rule direct_heap_agrees) auto
  ultimately show ?thesis by simp
qed

subsection \<open>Wheels under the driver\<close>

lemma direct_wheel_bench:
  assumes "w \<noteq> 0" "B + 4 * unat w < 2 ^ 64" "2 * unat w \<le> unat ticks" "max_id \<noteq> -1"
    "\<And>ev. ev \<in> set evs \<Longrightarrow> ex_id (ev_exec ev) \<le> max_id \<and> ex_ts (ev_exec ev) \<noteq> 0 \<and> unat (ex_ts (ev_exec ev)) \<le> B"
  shows "runBench dw_onFeed dw_onTimer dw_alerts evs (dw_new w max_id ticks) w = us_alerts_of evs w"
proof (rule dw.same_bench [OF assms(1,2)])
  have "ticks \<noteq> 0" using assms(1,3) by (auto simp: unat_eq_0)
  then show "dw_pre max_id ticks x a"
    if "bench_pre ((\<lambda>ev. (ev_feed ev, ev_exec ev)) ` set evs) (length evs) w n x a" for n x a
    using that assms(3-5) by (fastforce simp: bench_pre_def dw_pre_def split: action.splits)
qed (use assms(5) in simp)

lemma direct_heap_bench:
  assumes "w \<noteq> 0" "B + 4 * unat w < 2 ^ 64" "max_id \<noteq> -1"
    "\<And>ev. ev \<in> set evs \<Longrightarrow> ex_id (ev_exec ev) \<le> max_id \<and> ex_ts (ev_exec ev) \<noteq> 0 \<and> unat (ex_ts (ev_exec ev)) \<le> B"
  shows "runBench dh_onFeed dh_onTimer dh_alerts evs (dh_new w max_id) w = us_alerts_of evs w"
proof (rule dh.same_bench [OF assms(1,2)])
  show "dh_pre max_id x a"
    if "bench_pre ((\<lambda>ev. (ev_feed ev, ev_exec ev)) ` set evs) (length evs) w n x a" for n x a
    using that assms(3,4) by (fastforce simp: bench_pre_def dh_pre_def split: action.splits)
qed (use assms(4) in simp)

text \<open>Driven by \<open>runBench\<close>, \<open>ReconcilerDirectIndexWheel\<close> with at least two windows of buckets
  reports the alerts of the scanning class, for ids in range, time stamps that are not zero and
  far enough from \<open>2 ^ 64\<close>; in particular it returns.\<close>

theorem direct_wheel_agrees:
  assumes "w \<noteq> 0" "B + 4 * unat w < 2 ^ 64" "2 * unat w \<le> unat ticks" "max_id \<noteq> -1"
    "\<And>ev. ev \<in> set evs \<Longrightarrow> ex_id (ev_exec ev) \<le> max_id \<and> ex_ts (ev_exec ev) \<noteq> 0 \<and> unat (ex_ts (ev_exec ev)) \<le> B"
  shows "runBench dw_onFeed dw_onTimer dw_alerts evs (dw_new w max_id ticks) w = us_alerts_of evs w"
  using assms by (rule direct_wheel_bench)

lemma us_bench_returns:
  assumes "w \<noteq> 0" "B + 4 * unat w < 2 ^ 64" "\<And>ev. ev \<in> set evs \<Longrightarrow> unat (ex_ts (ev_exec ev)) \<le> B"
  shows "us_alerts_of evs w \<noteq> None"
  by (simp add: runBench_actions [OF assms] run_actions_us)

text \<open>C7: Driven by \<open>runBench\<close>, the scanning class and the two hash classes, built by their
  constructors, all return and report the same number of alerts, under these conditions: the
  window is not zero; no time stamp is above some \<open>B\<close> with \<open>B\<close> and four windows below \<open>2 ^ 64\<close>; the
  wheel of the second has at least two windows of buckets; at most \<open>2 ^ 62\<close> ids are expected and
  there are fewer events than twice as many; and no id is one of the two markers of the table, 0 and 1.\<close>

theorem flat_hash_agrees:
  assumes "w \<noteq> 0" "B + 4 * unat w < 2 ^ 64" "2 * unat w \<le> unat ticks" "unat expected \<le> 2 ^ 62"
    "length evs < 2 * unat expected"
    "\<And>ev. ev \<in> set evs \<Longrightarrow> ex_id (ev_exec ev) \<notin> {kEmpty, kTomb} \<and> unat (ex_ts (ev_exec ev)) \<le> B"
  shows "\<exists>n. us_alerts_of evs w = Some n \<and>
    Option.bind (fh_new w expected) (\<lambda>r. runBench fh_onFeed fh_onTimer fh_alerts evs r w) = Some n \<and>
    Option.bind (fw_new w expected ticks) (\<lambda>r. runBench fw_onFeed fw_onTimer fw_alerts evs r w) = Some n"
proof -
  have "unat (expected * 2) = 2 * unat expected" using assms(4) by (simp add: unat_word_ariths)
  with cap_loop_pow [of "expected * 2" 0] assms(4) obtain j where
    j: "j < 64" "cap_loop 1 (expected * 2) = Some (2 ^ j)" "2 * unat expected \<le> 2 ^ j" by auto
  have ticks: "ticks \<noteq> 0" using assms(1,3) by (auto simp: unat_eq_0)
  let ?E = "(\<lambda>ev. (ev_feed ev, ev_exec ev)) ` set evs"
  have h: "fh_pre j n x a" if "bench_pre ?E (length evs) w n x a" for n x a
    using that assms(5,6) j by (fastforce simp: bench_pre_def fh_pre_def split: action.splits)
  have wh: "fw_pre j ticks n x a" if "bench_pre ?E (length evs) w n x a" for n x a
    using that assms(3,5,6) j ticks by (fastforce simp: bench_pre_def fw_pre_def split: action.splits)
  have B: "\<And>ev. ev \<in> set evs \<Longrightarrow> unat (ex_ts (ev_exec ev)) \<le> B" using assms(6) by simp
  obtain n where "us_alerts_of evs w = Some n" using us_bench_returns [OF assms(1,2) B] by blast
  with fh.same_bench [of w B evs j, OF assms(1,2) B] fw.same_bench [of w B evs j ticks, OF assms(1,2) B] h wh j
  show ?thesis by (simp add: fh_new_def fw_new_def)
qed

definition ev1 :: event where
  "ev1 = \<lparr>ev_feed = One, ev_exec = \<lparr>ex_id = 3, ex_price = 5, ex_size = 7, ex_ts = 1\<rparr>, ev_tie = 0\<rparr>"

definition ev2 :: event where
  "ev2 = \<lparr>ev_feed = Two, ev_exec = \<lparr>ex_id = 3, ex_price = 5, ex_size = 8, ex_ts = 2\<rparr>, ev_tie = 0\<rparr>"

lemma ev12_alerts: "us_alerts_of [ev1, ev2] 10 = Some 1"
  by code_simp

lemma direct_wheel_agrees_witness:
  "runBench dw_onFeed dw_onTimer dw_alerts [ev1, ev2] (dw_new 10 3 20) 10 = Some 1"
  unfolding ev12_alerts [symmetric] by (rule direct_wheel_agrees [of 10 2]) (auto simp: ev1_def ev2_def)

lemma flat_hash_agrees_witness:
  "Option.bind (fh_new 10 4) (\<lambda>r. runBench fh_onFeed fh_onTimer fh_alerts [ev1, ev2] r 10) = Some 1 \<and>
   Option.bind (fw_new 10 4 20) (\<lambda>r. runBench fw_onFeed fw_onTimer fw_alerts [ev1, ev2] r 10) = Some 1"
proof -
  have "\<exists>n. us_alerts_of [ev1, ev2] 10 = Some n \<and>
    Option.bind (fh_new 10 4) (\<lambda>r. runBench fh_onFeed fh_onTimer fh_alerts [ev1, ev2] r 10) = Some n \<and>
    Option.bind (fw_new 10 4 20) (\<lambda>r. runBench fw_onFeed fw_onTimer fw_alerts [ev1, ev2] r 10) = Some n"
    by (rule flat_hash_agrees [of 10 2]) (auto simp: ev1_def ev2_def)
  with ev12_alerts show ?thesis by auto
qed

subsection \<open>The program\<close>

lemma benchOne_some: "benchOne on_feed on_timer alert_count evs w (Some r) = runBench on_feed on_timer alert_count evs r w"
  by (cases "runBench on_feed on_timer alert_count evs r w") (simp_all add: benchOne_def)

text \<open>C4: The benchmark program prints the same number of alerts for the vector, map, heap and
  direct-index classes: whatever in-range numbers the generator draws, whatever the mismatch
  rate and the rounding of prices, and however \<open>std::sort\<close> orders events that compare equal,
  all six runs return and agree.\<close>

theorem main_rows_agree:
  assumes "length ds = events_per_feed" "list_all draw_ok ds"
    "mset evs = mset (makeWorkload fp bench_window rate ds)"
  shows "\<exists>n. \<forall>row \<in> {''VectorScan'', ''UnorderedScan'', ''UnorderedHeap'', ''UnorderedHeapReserved'',
    ''DirectIndexWheel'', ''DirectIndexHeap''}. map_of (main_rows evs) row = Some (Some n)"
proof -
  have ev: "event_ok 10200201 ev" if "ev \<in> set evs" for ev
    using that workload_ok [OF assms(1,2), of ev fp rate] mset_eq_setD [OF assms(3)] by simp
  have W: "bench_window \<noteq> 0" "unat bench_window = 1000" "unat tick_mod = 4096"
    by (simp_all add: bench_window_def tick_mod_def)
  have B: "\<And>ev. ev \<in> set evs \<Longrightarrow> unat (ex_ts (ev_exec ev)) \<le> 10200201" using ev by (simp add: event_ok_def)
  have C: "10200201 + 4 * unat bench_window < 2 ^ 64" using W by simp
  note bench = W(1) C B
  have ids: "ex_id (ev_exec ev) \<le> distinct_ids + 5" "ex_ts (ev_exec ev) \<noteq> 0" if "ev \<in> set evs" for ev
    using ev [OF that] by (auto simp: event_ok_def distinct_ids_def word_le_nat_alt word_less_nat_alt)
  have m: "distinct_ids + 5 \<noteq> -1" by (simp add: distinct_ids_def)
  have dw: "runBench dw_onFeed dw_onTimer dw_alerts evs (dw_new bench_window (distinct_ids + 5) tick_mod) bench_window =
      us_alerts_of evs bench_window"
    using W ids m B by (intro direct_wheel_bench [OF W(1) C]) simp_all
  have dh: "runBench dh_onFeed dh_onTimer dh_alerts evs (dh_new bench_window (distinct_ids + 5)) bench_window =
      us_alerts_of evs bench_window"
    using ids m B by (intro direct_heap_bench [OF W(1) C]) simp_all
  note rest = vs.same_bench [OF bench] uh.same_bench [OF bench] uhr.same_bench [OF bench]
  obtain n where "us_alerts_of evs bench_window = Some n" using us_bench_returns [OF bench] by blast
  then show ?thesis
    using dw dh rest by (intro exI [of _ n]) (simp add: main_rows_def benchOne_some)
qed

lemma main_rows_agree_witness:
  "\<exists>n. \<forall>row \<in> {''VectorScan'', ''UnorderedScan'', ''UnorderedHeap'', ''UnorderedHeapReserved'',
    ''DirectIndexWheel'', ''DirectIndexHeap''}.
    map_of (main_rows (makeWorkload \<lparr>fadd = (+), fsub = (-), fmul = (*), of_u64 = id\<rparr> bench_window d_0_02
      (replicate events_per_feed \<lparr>dr_id = 1, dr_uni = 0, dr_which = 1, dr_jitter1 = 0, dr_jitter2 = 200,
        dr_jitter3 = 5, dr_tie1 = 0, dr_tie2 = 1, dr_tie3 = 2\<rparr>))) row = Some (Some n)"
  by (rule main_rows_agree [OF _ _ refl])
    (simp_all add: list_all_iff draw_ok_def distinct_ids_def out_of_order_jitter_def)

subsection \<open>Outside the conditions\<close>

text \<open>C8: Id 1, which the benchmark draws, is the tombstone of the hash classes, and they are blind to
  it: under the conditions of the agreement, but with ids that may be 1, both return and report exactly the
  alerts of a scanning class that is fed no execution of id 1, while the timer fires as before. So
  no disagreement on id 1 raises an alert in them, and the scanning class, which is fed
  everything, may report more.\<close>

theorem flat_hash_loses_id_one:
  assumes "w \<noteq> 0" "B + 4 * unat w < 2 ^ 64" "2 * unat w \<le> unat ticks" "unat expected \<le> 2 ^ 62"
    "length evs < 2 * unat expected"
    "\<And>ev. ev \<in> set evs \<Longrightarrow> ex_id (ev_exec ev) \<noteq> kEmpty \<and> unat (ex_ts (ev_exec ev)) \<le> B"
  shows "us_alerts_of evs w = Some (alerts (us_run (bench_actions w evs 0 w) (us_new w))) \<and>
    Option.bind (fh_new w expected) (\<lambda>r. runBench fh_onFeed fh_onTimer fh_alerts evs r w) =
      Some (alerts (us_run (without_id 1 (bench_actions w evs 0 w)) (us_new w))) \<and>
    Option.bind (fw_new w expected ticks) (\<lambda>r. runBench fw_onFeed fw_onTimer fw_alerts evs r w) =
      Some (alerts (us_run (without_id 1 (bench_actions w evs 0 w)) (us_new w)))"
proof -
  have "unat (expected * 2) = 2 * unat expected" using assms(4) by (simp add: unat_word_ariths)
  with cap_loop_pow [of "expected * 2" 0] assms(4) obtain j where
    j: "j < 64" "cap_loop 1 (expected * 2) = Some (2 ^ j)" "2 * unat expected \<le> 2 ^ j" by auto
  have ticks: "ticks \<noteq> 0" using assms(1,3) by (auto simp: unat_eq_0)
  let ?E = "(\<lambda>ev. (ev_feed ev, ev_exec ev)) ` set evs"
  have B: "\<And>ev. ev \<in> set evs \<Longrightarrow> unat (ex_ts (ev_exec ev)) \<le> B" using assms(6) by simp
  have room: "Suc n < 2 ^ j" if "n < length evs" for n using that assms(5) j(3) by linarith
  have h: "fh_pre j n x a" if "bench_pre ?E (length evs) w n x a" "\<forall>f e. x = Feed f e \<longrightarrow> ex_id e \<noteq> kTomb" for n x a
    using that assms(6) room by (fastforce simp: bench_pre_def fh_pre_def split: action.splits)
  have wh: "fw_pre j ticks n x a" if "bench_pre ?E (length evs) w n x a" "\<forall>f e. x = Feed f e \<longrightarrow> ex_id e \<noteq> kTomb" for n x a
    using that assms(3,6) room ticks by (fastforce simp: bench_pre_def fw_pre_def split: action.splits)
  from fh1.bench_without [of w B evs j, OF assms(1,2) B] fw1.bench_without [of w B evs j ticks, OF assms(1,2) B] h wh j room ticks
  show ?thesis by (simp add: fh_new_def fw_new_def runBench_actions [OF assms(1,2) B] run_actions_us)
qed

definition ev1_one :: event where
  "ev1_one = ev1\<lparr>ev_exec := (ev_exec ev1)\<lparr>ex_id := 1\<rparr>\<rparr>"

definition ev2_one :: event where
  "ev2_one = ev2\<lparr>ev_exec := (ev_exec ev2)\<lparr>ex_id := 1\<rparr>\<rparr>"

text \<open>Two feeds disagree on id 1, and then two on id 3: two alerts, and one in the hash classes.\<close>

lemma flat_hash_loses_id_one_witness:
  "us_alerts_of [ev1_one, ev1, ev2_one, ev2] 10 = Some 2 \<and>
   Option.bind (fh_new 10 4) (\<lambda>r. runBench fh_onFeed fh_onTimer fh_alerts [ev1_one, ev1, ev2_one, ev2] r 10) = Some 1 \<and>
   Option.bind (fw_new 10 4 20) (\<lambda>r. runBench fw_onFeed fw_onTimer fw_alerts [ev1_one, ev1, ev2_one, ev2] r 10) = Some 1"
proof -
  let ?evs = "[ev1_one, ev1, ev2_one, ev2]"
  have a: "alerts (us_run (bench_actions 10 ?evs 0 10) (us_new 10)) = 2"
    "alerts (us_run (without_id 1 (bench_actions 10 ?evs 0 10)) (us_new 10)) = 1"
    by code_simp+
  have "us_alerts_of ?evs 10 = Some (alerts (us_run (bench_actions 10 ?evs 0 10) (us_new 10))) \<and>
    Option.bind (fh_new 10 4) (\<lambda>r. runBench fh_onFeed fh_onTimer fh_alerts ?evs r 10) =
      Some (alerts (us_run (without_id 1 (bench_actions 10 ?evs 0 10)) (us_new 10))) \<and>
    Option.bind (fw_new 10 4 20) (\<lambda>r. runBench fw_onFeed fw_onTimer fw_alerts ?evs r 10) =
      Some (alerts (us_run (without_id 1 (bench_actions 10 ?evs 0 10)) (us_new 10)))"
    by (rule flat_hash_loses_id_one [of 10 2]) (auto simp: ev1_def ev2_def ev1_one_def ev2_one_def)
  then show ?thesis unfolding a .
qed

text \<open>A wheel with fewer buckets than the window forgets entries: the timer empties a bucket
  before the entries in it are due, they never expire, and a disagreement of a later window
  goes unnoticed that the scanning class reports.\<close>

theorem short_wheel_misses_alert:
  "let evs = [ev1, ev1\<lparr>ev_exec := (ev_exec ev1)\<lparr>ex_ts := 21\<rparr>\<rparr>, ev2\<lparr>ev_exec := (ev_exec ev2)\<lparr>ex_ts := 22\<rparr>\<rparr>] in
   us_alerts_of evs 10 = Some 1 \<and>
   runBench dw_onFeed dw_onTimer dw_alerts evs (dw_new 10 3 4) 10 = Some 0 \<and>
   Option.bind (fw_new 10 4 4) (\<lambda>r. runBench fw_onFeed fw_onTimer fw_alerts evs r 10) = Some 0"
  by code_simp

text \<open>The constructors of the hash classes return a table of \<open>2 ^ i\<close> slots, the least power of
  two that is at least twice the expected ids; but for a doubled size above \<open>2 ^ 63\<close> their loop
  never ends, because the capacity wraps to zero.\<close>

theorem flat_hash_constructor:
  "if unat (expected * 2) \<le> 2 ^ 63
   then \<exists>i < 64. fh_new w expected = Some (fh_make w (2 ^ i)) \<and> fw_new w expected t = Some (fw_make w t (2 ^ i)) \<and>
     unat (expected * 2) \<le> 2 ^ i \<and> (i = 0 \<or> 2 ^ (i - 1) < unat (expected * 2))
   else fh_new w expected = None \<and> fw_new w expected t = None"
  using cap_loop_pow [of "expected * 2" 0] cap_loop_overflow [of "expected * 2" 0]
  by (auto simp: fh_new_def fw_new_def)

end
