(* ===== verification/Recon_Alerts.thy ===== *)
theory Recon_Alerts
  imports Recon_Spec
begin

section \<open>What the alerts of a reconciler mean\<close>

text \<open>
  Properties of \<open>ReconcilerUnorderedScan\<close> over whole schedules. The other classes inherit them
  through the simulations: they raise the same alerts.
\<close>

subsection \<open>Where the stored executions come from\<close>

definition slot :: "feed \<Rightarrow> 'z feed_slots_scheme \<Rightarrow> execution option" where
  "slot f e = (case f of One \<Rightarrow> one e | Two \<Rightarrow> two e | Three \<Rightarrow> three e)"

lemma slot_touch: "slot g (us_touch f e ent) = (if g = f then Some e else slot g ent)"
  by (cases f; cases g) (auto simp: slot_def us_touch_def Let_def)

lemma slot_alerted [simp]: "slot g (ent\<lparr>alerted := b\<rparr>) = slot g ent"
  by (cases g) (auto simp: slot_def)

lemma slot_new [simp]: "slot g new_entry = None"
  by (cases g) (auto simp: slot_def new_entry_def)

lemma anyMismatch_slots:
  "anyMismatch (one x) (two x) (three x) \<longleftrightarrow>
   (\<exists>f g a b. f \<noteq> g \<and> slot f x = Some a \<and> slot g x = Some b \<and> \<not> eq_exec a b)"
proof -
  have m: "mismatch p q \<longleftrightarrow> (\<exists>a b. p = Some a \<and> q = Some b \<and> \<not> eq_exec a b)" for p q
    by (cases p; cases q) auto
  have f: "(\<exists>f g. f \<noteq> g \<and> P f g) \<longleftrightarrow> P One Two \<or> P Two One \<or> P One Three \<or> P Three One \<or> P Two Three \<or> P Three Two"
    for P by (metis feed.exhaust feed.distinct(1,3,5))
  show ?thesis
    using f [of "\<lambda>f g. \<exists>a b. slot f x = Some a \<and> slot g x = Some b \<and> \<not> eq_exec a b"]
    by (auto simp: anyMismatch_def m slot_def eq_exec_sym)
qed

text \<open>Every stored execution was fed by that feed, under the id of its entry.\<close>

definition fed_by :: "(feed \<times> execution) set \<Rightarrow> uscan \<Rightarrow> bool" where
  "fed_by E s \<longleftrightarrow> (\<forall>i ent f x. by_id s i = Some ent \<longrightarrow> slot f ent = Some x \<longrightarrow> (f, x) \<in> E \<and> ex_id x = i)"

lemma fed_by_timer: "fed_by E s \<Longrightarrow> fed_by E (us_onTimer t s)"
  by (auto simp: fed_by_def us_onTimer_def split: option.splits if_splits)

lemma fed_by_touch:
  assumes "fed_by E s" "(f, e) \<in> E"
    "slot g (us_touch f e (case by_id s (ex_id e) of None \<Rightarrow> new_entry | Some x \<Rightarrow> x)) = Some x"
  shows "(g, x) \<in> E \<and> ex_id x = ex_id e"
  using assms by (auto simp: slot_touch fed_by_def split: if_splits option.splits)

lemma feed_by_id:
  assumes "ent = us_touch f e (case by_id s (ex_id e) of None \<Rightarrow> new_entry | Some x \<Rightarrow> x)"
  shows "by_id (us_onFeed f e s) = by_id s \<or> by_id (us_onFeed f e s) = (by_id s)(ex_id e \<mapsto> ent) \<or>
    by_id (us_onFeed f e s) = (by_id s)(ex_id e \<mapsto> ent\<lparr>alerted := True\<rparr>)"
  unfolding assms by (simp add: us_onFeed_def Let_def)

lemma fed_by_update:
  assumes "fed_by E s" "\<And>g x. slot g ent = Some x \<Longrightarrow> (g, x) \<in> E \<and> ex_id x = i" "by_id s' = (by_id s)(i \<mapsto> ent)"
  shows "fed_by E s'"
  using assms by (auto simp: fed_by_def)

lemma fed_by_feed:
  assumes "fed_by E s" "(f, e) \<in> E"
  shows "fed_by E (us_onFeed f e s)"
proof -
  define ent where ent: "ent = us_touch f e (case by_id s (ex_id e) of None \<Rightarrow> new_entry | Some x \<Rightarrow> x)"
  note slots = fed_by_touch [OF assms, folded ent]
  from feed_by_id [OF ent] show ?thesis
  proof (elim disjE)
    assume "by_id (us_onFeed f e s) = by_id s"
    with assms(1) show ?thesis by (simp add: fed_by_def)
  next
    assume "by_id (us_onFeed f e s) = (by_id s)(ex_id e \<mapsto> ent)"
    then show ?thesis using slots by (intro fed_by_update [OF assms(1)])
  next
    assume "by_id (us_onFeed f e s) = (by_id s)(ex_id e \<mapsto> ent\<lparr>alerted := True\<rparr>)"
    then show ?thesis using slots by (intro fed_by_update [OF assms(1)]) simp_all
  qed
qed

lemma feed_no_alert:
  assumes "fed_by E s" "(f, e) \<in> E"
    and agree: "\<And>g x h y. (g, x) \<in> E \<Longrightarrow> (h, y) \<in> E \<Longrightarrow> g \<noteq> h \<Longrightarrow> ex_id x = ex_id y \<Longrightarrow> eq_exec x y"
  shows "alerts (us_onFeed f e s) = alerts s"
proof -
  let ?ent = "us_touch f e (case by_id s (ex_id e) of None \<Rightarrow> new_entry | Some x \<Rightarrow> x)"
  have "\<not> anyMismatch (one ?ent) (two ?ent) (three ?ent)"
    unfolding anyMismatch_slots using fed_by_touch [OF assms(1,2)] agree by metis
  then show ?thesis by (simp add: us_onFeed_def Let_def)
qed

subsection \<open>Ids that have alerted\<close>

definition alerted_ids :: "uscan \<Rightarrow> u64 set" where
  "alerted_ids s = {i. \<exists>ent. by_id s i = Some ent \<and> alerted ent}"

lemma alerted_touch [simp]: "alerted (us_touch f e ent) = alerted ent"
  by (cases f) (simp_all add: us_touch_def Let_def)

lemma feed_alerted_ids:
  "alerts (us_onFeed f e s) = alerts s \<and> alerted_ids s \<subseteq> alerted_ids (us_onFeed f e s) \<or>
   alerts (us_onFeed f e s) = alerts s + 1 \<and> ex_id e \<notin> alerted_ids s \<and>
     alerted_ids (us_onFeed f e s) = insert (ex_id e) (alerted_ids s)"
  by (auto simp: us_onFeed_def Let_def alerted_ids_def new_entry_def split: option.splits)

lemma feeds_alerts_bound:
  "\<exists>k \<le> card (ex_id ` snd ` set fs - alerted_ids s).
     alerts (us_run (map (\<lambda>(f, e). Feed f e) fs) s) = alerts s + of_nat k"
proof (induction fs arbitrary: s)
  case Nil
  then show ?case by simp
next
  case (Cons fe fs)
  obtain f e where fe: "fe = (f, e)" by fastforce
  let ?I = "ex_id ` snd ` set fs"
  let ?s = "us_onFeed f e s"
  from Cons.IH [of ?s] obtain k where k: "k \<le> card (?I - alerted_ids ?s)"
    "alerts (us_run (map (\<lambda>(f, e). Feed f e) fs) ?s) = alerts ?s + of_nat k" by blast
  consider "alerts ?s = alerts s" "alerted_ids s \<subseteq> alerted_ids ?s"
    | "alerts ?s = alerts s + 1" "ex_id e \<notin> alerted_ids s" "alerted_ids ?s = insert (ex_id e) (alerted_ids s)"
    using feed_alerted_ids [of f e s] by blast
  then show ?case
  proof cases
    case 1
    then have "card (?I - alerted_ids ?s) \<le> card (insert (ex_id e) ?I - alerted_ids s)"
      by (intro card_mono) auto
    with k 1 show ?thesis unfolding fe by (intro exI [of _ k]) auto
  next
    case 2
    then have "insert (ex_id e) (?I - alerted_ids ?s) \<subseteq> insert (ex_id e) ?I - alerted_ids s"
      "ex_id e \<notin> ?I - alerted_ids ?s" by auto
    then have "Suc (card (?I - alerted_ids ?s)) \<le> card (insert (ex_id e) ?I - alerted_ids s)"
      using card_mono [of "insert (ex_id e) ?I - alerted_ids s" "insert (ex_id e) (?I - alerted_ids ?s)"] by simp
    with k 2 show ?thesis unfolding fe by (intro exI [of _ "Suc k"]) (auto simp: add.assoc add.commute)
  qed
qed

subsection \<open>An entry until the next event of its id\<close>

lemma feed_other: "ex_id e \<noteq> i \<Longrightarrow> by_id (us_onFeed f e s) i = by_id s i"
  by (simp add: us_onFeed_def Let_def)

lemma feeds_other:
  "\<forall>(f, e) \<in> set fs. ex_id e \<noteq> i \<Longrightarrow>
   by_id (us_run (map (\<lambda>(f, e). Feed f e) fs) s) i = by_id s i \<and>
   last_timer (us_run (map (\<lambda>(f, e). Feed f e) fs) s) = last_timer s \<and>
   window_width (us_run (map (\<lambda>(f, e). Feed f e) fs) s) = window_width s"
  by (induction fs arbitrary: s) (auto simp: feed_other)

lemma feed_fresh:
  assumes "by_id s (ex_id e) = None" "ex_ts e \<noteq> 0" "last_timer s < ex_ts e + window_width s"
  shows "\<exists>ent. by_id (us_onFeed f e s) (ex_id e) = Some ent \<and> \<not> alerted ent \<and> slot f ent = Some e \<and>
    first_ts ent = ex_ts e \<and> \<not> (first_ts ent = 0 \<and> last_ts ent = 0)"
proof -
  let ?ent = "us_touch f e new_entry"
  have "\<not> anyMismatch (one ?ent) (two ?ent) (three ?ent)" by (auto simp: anyMismatch_slots slot_touch)
  moreover have "first_ts ?ent = ex_ts e" "last_ts ?ent = ex_ts e" "\<not> alerted ?ent"
    by (simp_all add: us_touch_def new_entry_def Let_def)
  ultimately show ?thesis
    using assms slot_touch [of f f e new_entry] by (auto simp: us_onFeed_def Let_def)
qed

lemma feed_detects:
  assumes "by_id s (ex_id e) = Some ent" "\<not> alerted ent" "slot f ent = Some x" "f \<noteq> g" "\<not> eq_exec x e"
    "\<not> (first_ts ent = 0 \<and> last_ts ent = 0)" "ex_ts e < first_ts ent + window_width s"
    "last_timer s < ex_ts e + window_width s"
  shows "alerts (us_onFeed g e s) = alerts s + 1 \<and> ex_id e \<in> alerted_ids (us_onFeed g e s)"
proof -
  let ?ent = "us_touch g e ent"
  have "anyMismatch (one ?ent) (two ?ent) (three ?ent)"
    unfolding anyMismatch_slots using assms(3-5) by (metis slot_touch)
  moreover have "first_ts ?ent = first_ts ent" using assms(6) by (auto simp: us_touch_def Let_def)
  ultimately show ?thesis
    using assms by (auto simp: us_onFeed_def Let_def alerted_ids_def us_isExpired_def not_le)
qed

subsection \<open>Properties\<close>

text \<open>C5: No false alarm: when any two executions that different feeds report for one id agree,
  no schedule of feeds and timer calls, late or out of order, raises an alert.\<close>

theorem no_false_alarm:
  assumes "\<And>f e g e'. Feed f e \<in> set as \<Longrightarrow> Feed g e' \<in> set as \<Longrightarrow> f \<noteq> g \<Longrightarrow> ex_id e = ex_id e' \<Longrightarrow> eq_exec e e'"
  shows "alerts (us_run as (us_new w)) = 0"
proof -
  let ?E = "{(f, e). Feed f e \<in> set as}"
  have "set bs \<subseteq> set as \<Longrightarrow> fed_by ?E s \<Longrightarrow> alerts (us_run bs s) = alerts s" for bs s
  proof (induction bs arbitrary: s)
    case (Cons b bs)
    show ?case
    proof (cases b)
      case (Feed f e)
      with Cons.prems have fe: "(f, e) \<in> ?E" by simp
      have "alerts (us_onFeed f e s) = alerts s"
        by (rule feed_no_alert [OF Cons.prems(2) fe]) (use assms in auto)
      with Feed Cons fe show ?thesis by (simp add: fed_by_feed)
    qed (use Cons fed_by_timer in auto)
  qed simp
  from this [of as "us_new w"] show ?thesis by (simp add: fed_by_def us_new_def)
qed

lemma no_false_alarm_witness:
  "alerts (us_run [Feed One \<lparr>ex_id = 3, ex_price = 5, ex_size = 7, ex_ts = 1\<rparr>, Timer 10,
                   Feed Two \<lparr>ex_id = 3, ex_price = 5, ex_size = 7, ex_ts = 12\<rparr>] (us_new 4)) = 0"
  by (rule no_false_alarm) (auto simp: eq_exec_def double_eq_def double_is_nan_def double_magnitude_def)

text \<open>C6: Detection: when an id that is not tracked is reported by one feed and, after any
  number of events of other ids, by another feed with a different execution inside the window,
  exactly one alert is raised at that moment.\<close>

theorem mismatch_detected:
  assumes "by_id s (ex_id e) = None" "ex_ts e \<noteq> 0" "ex_id e' = ex_id e" "f \<noteq> g" "\<not> eq_exec e e'"
    "list_all (\<lambda>(h, x). ex_id x \<noteq> ex_id e) fs"
    "last_timer s < ex_ts e + window_width s" "last_timer s < ex_ts e' + window_width s"
    "ex_ts e' < ex_ts e + window_width s"
    "s1 = us_run (Feed f e # map (\<lambda>(h, x). Feed h x) fs) s"
  shows "alerts (us_onFeed g e' s1) = alerts s1 + 1 \<and> ex_id e \<in> alerted_ids (us_onFeed g e' s1)"
proof -
  from feed_fresh [OF assms(1,2,7), of f] obtain ent where
    ent: "by_id (us_onFeed f e s) (ex_id e) = Some ent" "\<not> alerted ent" "slot f ent = Some e"
    "first_ts ent = ex_ts e" "\<not> (first_ts ent = 0 \<and> last_ts ent = 0)" by blast
  have o: "by_id s1 (ex_id e) = Some ent" "last_timer s1 = last_timer s" "window_width s1 = window_width s"
    using feeds_other [of fs "ex_id e" "us_onFeed f e s"] assms(6) ent(1) unfolding assms(10)
    by (auto simp: list_all_iff)
  show ?thesis
    using feed_detects [of s1 e' ent f e g] assms ent o by simp
qed

lemma mismatch_detected_witness:
  "alerts (us_onFeed Two \<lparr>ex_id = 3, ex_price = 5, ex_size = 8, ex_ts = 2\<rparr>
     (us_run [Feed One \<lparr>ex_id = 3, ex_price = 5, ex_size = 7, ex_ts = 1\<rparr>] (us_new 4))) =
   alerts (us_run [Feed One \<lparr>ex_id = 3, ex_price = 5, ex_size = 7, ex_ts = 1\<rparr>] (us_new 4)) + 1"
  using mismatch_detected [of "us_new 4" "\<lparr>ex_id = 3, ex_price = 5, ex_size = 7, ex_ts = 1\<rparr>"
      "\<lparr>ex_id = 3, ex_price = 5, ex_size = 8, ex_ts = 2\<rparr>" One Two "[]"]
  by (simp add: us_new_def eq_exec_def)

text \<open>No alert is repeated: between two timer calls the number of alerts grows by at most
  one per id that is fed; and the invariant that makes this meaningful holds in every reachable
  state, that no tracked entry is expired and all its executions carry its id.\<close>

theorem alerts_once_per_id:
  "(\<exists>k \<le> card (ex_id ` snd ` set fs).
     alerts (us_run (as @ map (\<lambda>(f, e). Feed f e) fs) (us_new w)) = alerts (us_run as (us_new w)) + of_nat k) \<and>
   us_inv (us_run (as @ map (\<lambda>(f, e). Feed f e) fs) (us_new w))"
proof
  have "card (ex_id ` snd ` set fs - alerted_ids s) \<le> card (ex_id ` snd ` set fs)" for s
    by (intro card_mono) auto
  then show "\<exists>k \<le> card (ex_id ` snd ` set fs).
     alerts (us_run (as @ map (\<lambda>(f, e). Feed f e) fs) (us_new w)) = alerts (us_run as (us_new w)) + of_nat k"
    using feeds_alerts_bound [of fs "us_run as (us_new w)"] by (auto intro: order_trans)
qed (rule us_inv_run [OF us_inv_new])

end
