(* ===== verification/Fifo_Queue.thy ===== *)
theory Fifo_Queue
  imports Prelude
begin

section \<open>Bounded first-in first-out queues: the interface and the mutex-protected deques\<close>

text \<open>
  Every queue of the repository that hands messages from one thread to another offers
  \<open>bool push(v)\<close>, which fails when the queue is full, and \<open>bool pop(out)\<close>, which fails when
  it is empty. The locale \<open>bounded_fifo\<close> states that contract; the programs that move values
  through a queue are proved against it once, and every queue class (the deques under a mutex
  here, the rings of \<open>Spsc_Rings\<close>, the flagged slots of \<open>Waitfree_Queue\<close>) interprets it.
  An out-parameter that is written only on success is returned as an option.
\<close>

subsection \<open>The contract\<close>

locale bounded_fifo =
  fixes push :: "'a \<Rightarrow> 'q \<Rightarrow> bool \<times> 'q"
    and pop :: "'q \<Rightarrow> 'a option \<times> 'q"
    and items :: "'q \<Rightarrow> 'a list"
    and ok :: "'q \<Rightarrow> bool"
    and cap :: nat
  assumes ok_length: "ok q \<Longrightarrow> length (items q) \<le> cap"
    and push_full: "ok q \<Longrightarrow> length (items q) = cap \<Longrightarrow> push x q = (False, q)"
    and push_fst: "ok q \<Longrightarrow> length (items q) < cap \<Longrightarrow> fst (push x q)"
    and push_ok: "ok q \<Longrightarrow> ok (snd (push x q))"
    and push_items: "ok q \<Longrightarrow> length (items q) < cap \<Longrightarrow> items (snd (push x q)) = items q @ [x]"
    and pop_empty: "ok q \<Longrightarrow> items q = [] \<Longrightarrow> pop q = (None, q)"
    and pop_fst: "ok q \<Longrightarrow> items q \<noteq> [] \<Longrightarrow> fst (pop q) = Some (hd (items q))"
    and pop_ok: "ok q \<Longrightarrow> ok (snd (pop q))"
    and pop_items: "ok q \<Longrightarrow> items q \<noteq> [] \<Longrightarrow> items (snd (pop q)) = tl (items q)"

subsection \<open>Clients of a queue\<close>

text \<open>A sequence of operations, with the values that were accepted and those that came out.\<close>

datatype 'a queue_op = Push 'a | Pop

fun fifo_run ::
  "('a \<Rightarrow> 'q \<Rightarrow> bool \<times> 'q) \<Rightarrow> ('q \<Rightarrow> 'a option \<times> 'q) \<Rightarrow> 'a queue_op list \<Rightarrow> 'q \<Rightarrow> 'a list \<times> 'a list \<times> 'q" where
  "fifo_run psh pp [] q = ([], [], q)"
| "fifo_run psh pp (Push x # ops) q =
     (let (b, q') = psh x q; (acc, out, q'') = fifo_run psh pp ops q'
      in ((if b then x # acc else acc), out, q''))"
| "fifo_run psh pp (Pop # ops) q =
     (let (r, q') = pp q; (acc, out, q'') = fifo_run psh pp ops q'
      in (acc, (case r of None \<Rightarrow> out | Some x \<Rightarrow> x # out), q''))"

text \<open>
  A producer thread that pushes a list of values, spinning while the queue is full, and a
  consumer thread that pops, in any interleaving of whole operations. A state holds the values
  still to be pushed, the queue, and the values received so far.
\<close>

inductive transfer_step ::
  "('a \<Rightarrow> 'q \<Rightarrow> bool \<times> 'q) \<Rightarrow> ('q \<Rightarrow> 'a option \<times> 'q) \<Rightarrow>
   'a list \<times> 'q \<times> 'a list \<Rightarrow> 'a list \<times> 'q \<times> 'a list \<Rightarrow> bool"
  for psh :: "'a \<Rightarrow> 'q \<Rightarrow> bool \<times> 'q" and pp :: "'q \<Rightarrow> 'a option \<times> 'q" where
  produced: "psh x q = (True, q') \<Longrightarrow> transfer_step psh pp (x # todo, q, got) (todo, q', got)"
| spin_full: "psh x q = (False, q') \<Longrightarrow> transfer_step psh pp (x # todo, q, got) (x # todo, q', got)"
| consumed: "pp q = (Some y, q') \<Longrightarrow> transfer_step psh pp (todo, q, got) (todo, q', got @ [y])"
| spin_empty: "pp q = (None, q') \<Longrightarrow> transfer_step psh pp (todo, q, got) (todo, q', got)"

inductive_cases transfer_stepE: "transfer_step psh pp (todo, q, got) s'"

text \<open>The reference queue: a list that holds at most \<open>cap\<close> values.\<close>

definition list_push :: "nat \<Rightarrow> 'a \<Rightarrow> 'a list \<Rightarrow> bool \<times> 'a list" where [queue_defs]:
  "list_push cap x xs = (if length xs < cap then (True, xs @ [x]) else (False, xs))"

definition list_pop :: "'a list \<Rightarrow> 'a option \<times> 'a list" where [queue_defs]:
  "list_pop xs = (case xs of [] \<Rightarrow> (None, []) | x # xs' \<Rightarrow> (Some x, xs'))"

text \<open>What a client sees of a run: the values that were accepted and the values that came out.\<close>

definition visible :: "'a list \<times> 'a list \<times> 'q \<Rightarrow> 'a list \<times> 'a list" where
  "visible r = (fst r, fst (snd r))"

context bounded_fifo begin

lemma push_result: "ok q \<Longrightarrow> push x q = (b, q') \<Longrightarrow>
    ok q' \<and> (b \<longleftrightarrow> length (items q) < cap) \<and> items q' = (if b then items q @ [x] else items q)"
  using ok_length [of q] push_full [of q x] push_fst [of q x] push_ok [of q x] push_items [of q x]
  by (cases "length (items q) = cap") auto

lemma pop_result: "ok q \<Longrightarrow> pop q = (r, q') \<Longrightarrow>
    ok q' \<and> (r = None \<longleftrightarrow> items q = []) \<and> items q = (case r of None \<Rightarrow> [] | Some x \<Rightarrow> [x]) @ items q'"
  using pop_empty [of q] pop_fst [of q] pop_ok [of q] pop_items [of q]
  by (cases "items q") auto

lemma push_room:
  assumes "ok q" "length (items q) < cap"
  obtains q' where "push x q = (True, q')" "ok q'" "items q' = items q @ [x]"
  using assms push_result [of q x "fst (push x q)" "snd (push x q)"] by (cases "push x q") auto

lemma pop_item:
  assumes "ok q" "items q \<noteq> []"
  obtains x q' where "pop q = (Some x, q')" "ok q'" "items q = x # items q'"
  using assms pop_result [of q "fst (pop q)" "snd (pop q)"]
  by (cases "pop q") (auto split: option.splits)

text \<open>Whatever the order of the operations, the values leave in the order they were accepted.\<close>

lemma run_fifo:
  "ok q \<Longrightarrow> fifo_run push pop ops q = (acc, out, q') \<Longrightarrow>
   ok q' \<and> items q @ acc = out @ items q' \<and> length (items q') \<le> cap"
proof (induction ops arbitrary: q acc out q')
  case Nil
  then show ?case by (auto intro: ok_length)
next
  case (Cons op ops)
  show ?case
  proof (cases op)
    case (Push x)
    obtain b q1 where p: "push x q = (b, q1)" by fastforce
    obtain acc1 out1 q2 where r: "fifo_run push pop ops q1 = (acc1, out1, q2)"
      by (cases "fifo_run push pop ops q1")
    have "ok q1" "items q1 = (if b then items q @ [x] else items q)"
      using push_result [OF Cons.prems(1) p] by auto
    with Cons.prems(2) Push p r Cons.IH [OF _ r] show ?thesis by (auto split: if_splits)
  next
    case Pop
    obtain b q1 where p: "pop q = (b, q1)" by fastforce
    obtain acc1 out1 q2 where r: "fifo_run push pop ops q1 = (acc1, out1, q2)"
      by (cases "fifo_run push pop ops q1")
    have "ok q1" "items q = (case b of None \<Rightarrow> [] | Some x \<Rightarrow> [x]) @ items q1"
      using pop_result [OF Cons.prems(1) p] by auto
    with Cons.prems(2) Pop p r Cons.IH [OF _ r] show ?thesis by (auto split: option.splits)
  qed
qed

text \<open>Every run of the queue is a run of the reference queue on its contents.\<close>

lemma push_reference: "ok q \<Longrightarrow> push x q = (b, q1) \<Longrightarrow> list_push cap x (items q) = (b, items q1)"
  using push_result [of q x b q1] by (cases b) (simp_all add: list_push_def)

lemma pop_reference: "ok q \<Longrightarrow> pop q = (r, q1) \<Longrightarrow> list_pop (items q) = (r, items q1)"
  using pop_result [of q r q1] by (cases r) (auto simp: list_pop_def split: list.splits)

lemma run_reference:
  "ok q \<Longrightarrow> fifo_run (list_push cap) list_pop ops (items q) =
     (case fifo_run push pop ops q of (acc, out, q') \<Rightarrow> (acc, out, items q'))"
proof (induction ops arbitrary: q)
  case (Cons op ops)
  show ?case
  proof (cases op)
    case (Push x)
    obtain b q1 where p: "push x q = (b, q1)" by fastforce
    have "ok q1" using push_result [OF Cons.prems p] by simp
    from Cons.IH [OF this] push_reference [OF Cons.prems p] show ?thesis
      unfolding Push by (simp add: p split: prod.split)
  next
    case Pop
    obtain r q1 where p: "pop q = (r, q1)" by fastforce
    have "ok q1" using pop_result [OF Cons.prems p] by simp
    from Cons.IH [OF this] pop_reference [OF Cons.prems p] show ?thesis
      unfolding Pop by (simp add: p split: prod.split)
  qed
qed simp

lemma visible_reference:
  assumes "ok q"
  shows "visible (fifo_run push pop ops q) = visible (fifo_run (list_push cap) list_pop ops (items q))"
  unfolding run_reference [OF assms] by (cases "fifo_run push pop ops q") (simp add: visible_def)

text \<open>One step of the two threads keeps the received, queued and pending values in order.\<close>

lemma transfer_step_inv:
  assumes "transfer_step push pop (todo, q, got) (todo', q', got')" "ok q"
  shows "ok q' \<and> got' @ items q' @ todo' = got @ items q @ todo"
  using assms by (auto elim!: transfer_stepE dest: push_result pop_result)

lemma transfer_inv:
  assumes "(transfer_step push pop)\<^sup>*\<^sup>* (todo, q, got) (todo', q', got')" "ok q"
  shows "ok q' \<and> got' @ items q' @ todo' = got @ items q @ todo"
  using assms
proof (induction "(todo', q', got')" arbitrary: todo' q' got' rule: rtranclp_induct)
  case base
  then show ?case by simp
next
  case (step s)
  then show ?case
    by (cases s) (metis transfer_step_inv)
qed

text \<open>
  No state is stuck, and one of the two threads makes progress: a full queue lets the consumer
  move and an empty one lets the producer move, so a pending value is always received in the end.
\<close>

lemma transfer_progress:
  assumes "ok q" "0 < cap" "todo \<noteq> [] \<or> items q \<noteq> []"
  shows "\<exists>s'. transfer_step push pop (todo, q, got) s' \<and> s' \<noteq> (todo, q, got)"
proof (cases "items q = []")
  case True
  with assms obtain x xs where t: "todo = x # xs" by (cases todo) auto
  from True assms obtain q' where "push x q = (True, q')" using push_room [of q x] by auto
  then have "transfer_step push pop (x # xs, q, got) (xs, q', got)" by (rule transfer_step.produced)
  with t show ?thesis by fastforce
next
  case False
  with assms obtain y q' where "pop q = (Some y, q')" by (auto elim: pop_item)
  then have "transfer_step push pop (todo, q, got) (todo, q', got @ [y])" by (rule transfer_step.consumed)
  then show ?thesis by fastforce
qed

text \<open>Running both threads to the end delivers every value, in order.\<close>

lemma transfer_complete:
  assumes "ok q" "0 < cap"
  shows "\<exists>q'. (transfer_step push pop)\<^sup>*\<^sup>* (todo, q, got) ([], q', got @ items q @ todo) \<and> ok q' \<and> items q' = []"
  using assms(1)
proof (induction "2 * length todo + length (items q)" arbitrary: todo q got rule: less_induct)
  case less
  show ?case
  proof (cases "items q = []")
    case True
    show ?thesis
    proof (cases todo)
      case Nil
      with True less.prems show ?thesis by auto
    next
      case (Cons x xs)
      from less.prems True assms(2) obtain q1 where q1: "push x q = (True, q1)" "ok q1" "items q1 = [x]"
        using push_room [of q x] by auto
      from less.hyps [of xs q1 got] q1 Cons True obtain q' where
        "(transfer_step push pop)\<^sup>*\<^sup>* (xs, q1, got) ([], q', got @ items q1 @ xs)" "ok q'" "items q' = []"
        by auto
      moreover have "transfer_step push pop (todo, q, got) (xs, q1, got)"
        using q1 Cons by (auto intro: transfer_step.produced)
      ultimately show ?thesis using q1 Cons True by (auto intro: converse_rtranclp_into_rtranclp)
    qed
  next
    case False
    with less.prems obtain y q1 where q1: "items q = y # items q1" "pop q = (Some y, q1)" "ok q1"
      by (auto elim: pop_item)
    from less.hyps [of todo q1 "got @ [y]"] q1 obtain q' where
      "(transfer_step push pop)\<^sup>*\<^sup>* (todo, q1, got @ [y]) ([], q', (got @ [y]) @ items q1 @ todo)" "ok q'" "items q' = []"
      by auto
    moreover have "transfer_step push pop (todo, q, got) (todo, q1, got @ [y])"
      using q1 by (auto intro: transfer_step.consumed)
    ultimately show ?thesis using q1 by (auto intro: converse_rtranclp_into_rtranclp)
  qed
qed

end

subsection \<open>Deques under a mutex\<close>

text \<open>
  Each operation holds the mutex from its first to its last statement, so it is one step on
  the deque. \<open>MutexSPSCDeque<T, MaxSize>\<close> (the baseline of the ring benchmarks, written out
  in two files), \<open>MutexMsgQueue\<close> with \<open>Capacity\<close> 1024 and \<open>MutexQueue\<close> with \<open>MaxSize\<close> 512.
\<close>

record 'a mutex_spsc_deque =
  msd_q :: "'a list"

definition msd_new :: "'a mutex_spsc_deque" where [queue_defs]:
  "msd_new = \<lparr>msd_q = []\<rparr>"

definition msd_push :: "nat \<Rightarrow> 'a \<Rightarrow> 'a mutex_spsc_deque \<Rightarrow> bool \<times> 'a mutex_spsc_deque" where [queue_defs]:
  "msd_push MaxSize v d =
     (if MaxSize \<le> length (msd_q d) then (False, d) else (True, d\<lparr>msd_q := msd_q d @ [v]\<rparr>))"

definition msd_pop :: "'a mutex_spsc_deque \<Rightarrow> 'a option \<times> 'a mutex_spsc_deque" where [queue_defs]:
  "msd_pop d = (case msd_q d of [] \<Rightarrow> (None, d) | x # xs \<Rightarrow> (Some x, d\<lparr>msd_q := xs\<rparr>))"

definition msd_empty :: "'a mutex_spsc_deque \<Rightarrow> bool" where [queue_defs]:
  "msd_empty d \<longleftrightarrow> msd_q d = []"

definition msd_ok :: "nat \<Rightarrow> 'a mutex_spsc_deque \<Rightarrow> bool" where [queue_defs]:
  "msd_ok MaxSize d \<longleftrightarrow> length (msd_q d) \<le> MaxSize"

interpretation msd: bounded_fifo "msd_push MaxSize" msd_pop msd_q "msd_ok MaxSize" MaxSize for MaxSize
  by unfold_locales (auto simp: queue_defs split: list.splits)

lemma msd_new_ok: "msd_ok MaxSize msd_new \<and> msd_q msd_new = []"
  by (simp add: queue_defs)

text \<open>The copy of the class in \<open>waitfree_spsc_queue.cpp\<close>, which has no \<open>empty\<close>.\<close>

definition msdw_push :: "nat \<Rightarrow> 'a \<Rightarrow> 'a mutex_spsc_deque \<Rightarrow> bool \<times> 'a mutex_spsc_deque" where [queue_defs]:
  "msdw_push MaxSize v d =
     (if MaxSize \<le> length (msd_q d) then (False, d) else (True, d\<lparr>msd_q := msd_q d @ [v]\<rparr>))"

definition msdw_pop :: "'a mutex_spsc_deque \<Rightarrow> 'a option \<times> 'a mutex_spsc_deque" where [queue_defs]:
  "msdw_pop d = (case msd_q d of [] \<Rightarrow> (None, d) | x # xs \<Rightarrow> (Some x, d\<lparr>msd_q := xs\<rparr>))"

interpretation msdw: bounded_fifo "msdw_push MaxSize" msdw_pop msd_q "msd_ok MaxSize" MaxSize for MaxSize
  by unfold_locales (auto simp: queue_defs split: list.splits)

text \<open>\<open>MutexMsgQueue\<close>: the message type is a parameter, the queue copies whole messages.\<close>

record 'm mutex_msg_queue =
  mmq_q :: "'m list"

definition mmq_Capacity :: nat where
  "mmq_Capacity = 1024"

definition mmq_publish :: "'m \<Rightarrow> 'm mutex_msg_queue \<Rightarrow> bool \<times> 'm mutex_msg_queue" where [queue_defs]:
  "mmq_publish msg d =
     (if mmq_Capacity \<le> length (mmq_q d) then (False, d) else (True, d\<lparr>mmq_q := mmq_q d @ [msg]\<rparr>))"

definition mmq_consume :: "'m mutex_msg_queue \<Rightarrow> 'm option \<times> 'm mutex_msg_queue" where [queue_defs]:
  "mmq_consume d = (case mmq_q d of [] \<Rightarrow> (None, d) | x # xs \<Rightarrow> (Some x, d\<lparr>mmq_q := xs\<rparr>))"

definition mmq_ok :: "'m mutex_msg_queue \<Rightarrow> bool" where [queue_defs]:
  "mmq_ok d \<longleftrightarrow> length (mmq_q d) \<le> mmq_Capacity"

interpretation mmq: bounded_fifo mmq_publish mmq_consume mmq_q mmq_ok mmq_Capacity
  by unfold_locales (auto simp: queue_defs split: list.splits)

text \<open>\<open>MutexQueue\<close> holds pointers, and its \<open>pop\<close> returns null for an empty queue.\<close>

record 'p mutex_queue =
  mq_q :: "'p list"

definition mq_MaxSize :: nat where
  "mq_MaxSize = 512"

definition mq_push :: "'p \<Rightarrow> 'p mutex_queue \<Rightarrow> bool \<times> 'p mutex_queue" where [queue_defs]:
  "mq_push item d =
     (if mq_MaxSize \<le> length (mq_q d) then (False, d) else (True, d\<lparr>mq_q := mq_q d @ [item]\<rparr>))"

definition mq_pop :: "'p mutex_queue \<Rightarrow> 'p option \<times> 'p mutex_queue" where [queue_defs]:
  "mq_pop d = (case mq_q d of [] \<Rightarrow> (None, d) | x # xs \<Rightarrow> (Some x, d\<lparr>mq_q := xs\<rparr>))"

definition mq_ok :: "'p mutex_queue \<Rightarrow> bool" where [queue_defs]:
  "mq_ok d \<longleftrightarrow> length (mq_q d) \<le> mq_MaxSize"

interpretation mq: bounded_fifo mq_push mq_pop mq_q mq_ok mq_MaxSize
  by unfold_locales (auto simp: queue_defs split: list.splits)

end
