(* ===== verification/Spsc_Rings.thy ===== *)
theory Spsc_Rings
  imports Ring_Index Fifo_Queue
begin

section \<open>The single-producer single-consumer rings\<close>

text \<open>
  Six ring classes of the repository, each with its own record, \<open>push\<close> and \<open>pop\<close>. Here an
  operation is one step, as seen by a caller; \<open>Spsc_Concurrent\<close> splits the operations of
  \<open>SPSCQueue\<close> into their loads and stores. A store to an atomic index is the update of
  its field. Indices are below the capacity, so \<open>size_t\<close> does not wrap in \<open>index + 1\<close>.
  Each class is an instance of \<open>bounded_fifo\<close> with capacity one less than its array.
\<close>

subsection \<open>\<open>SPSCRingBuffer<T, Capacity>\<close>\<close>

text \<open>
  \<open>pop\<close> moves the value out of its slot; \<open>mv x\<close> is what the move leaves behind (the identity
  for the \<open>int\<close> of the demo, some valid value in general). \<open>Capacity\<close> is the array's length.
\<close>

record 'a spsc_ring_buffer =
  srb_buffer :: "'a list"
  srb_write_idx :: nat
  srb_read_idx :: nat

definition srb_new :: "nat \<Rightarrow> 'a \<Rightarrow> 'a spsc_ring_buffer" where [queue_defs]:
  "srb_new Capacity dflt = \<lparr>srb_buffer = replicate Capacity dflt, srb_write_idx = 0, srb_read_idx = 0\<rparr>"

definition srb_push :: "nat \<Rightarrow> 'a \<Rightarrow> 'a spsc_ring_buffer \<Rightarrow> bool \<times> 'a spsc_ring_buffer" where [queue_defs]:
  "srb_push Capacity value q =
     (let w = srb_write_idx q; next = (w + 1) mod Capacity
      in if next = srb_read_idx q then (False, q)
         else (True, q\<lparr>srb_buffer := (srb_buffer q)[w := value], srb_write_idx := next\<rparr>))"

definition srb_pop :: "nat \<Rightarrow> ('a \<Rightarrow> 'a) \<Rightarrow> 'a spsc_ring_buffer \<Rightarrow> 'a option \<times> 'a spsc_ring_buffer" where [queue_defs]:
  "srb_pop Capacity mv q =
     (let r = srb_read_idx q
      in if r = srb_write_idx q then (None, q)
         else let value = srb_buffer q ! r
              in (Some value, q\<lparr>srb_buffer := (srb_buffer q)[r := mv value], srb_read_idx := (r + 1) mod Capacity\<rparr>))"

definition srb_empty :: "'a spsc_ring_buffer \<Rightarrow> bool" where [queue_defs]:
  "srb_empty q \<longleftrightarrow> srb_read_idx q = srb_write_idx q"

definition srb_items :: "'a spsc_ring_buffer \<Rightarrow> 'a list" where [queue_defs]:
  "srb_items q = ring_items (srb_buffer q) (srb_read_idx q) (srb_write_idx q)"

definition srb_ok :: "nat \<Rightarrow> 'a spsc_ring_buffer \<Rightarrow> bool" where [queue_defs]:
  "srb_ok Capacity q \<longleftrightarrow> length (srb_buffer q) = Capacity \<and> ring_wf (srb_buffer q) (srb_read_idx q) (srb_write_idx q)"

interpretation srb: bounded_fifo "srb_push Capacity" "srb_pop Capacity mv" srb_items "srb_ok Capacity" "Capacity - 1"
  for Capacity mv
  by unfold_locales (auto simp: queue_defs Let_def ring_queue_facts)

lemma srb_new_ok: "0 < Capacity \<Longrightarrow> srb_ok Capacity (srb_new Capacity d) \<and> srb_items (srb_new Capacity d) = []"
  by (auto simp: queue_defs ring_wf_def ring_items_empty_iff)

lemma srb_empty_iff: "srb_ok Capacity q \<Longrightarrow> srb_empty q \<longleftrightarrow> srb_items q = []"
  by (auto simp: queue_defs ring_items_empty_iff)

subsection \<open>\<open>SpscRing<T, Capacity>\<close> of the pipeline\<close>

record 'a spsc_ring =
  sr_slots :: "'a list"
  sr_write :: nat
  sr_read :: nat

definition sr_new :: "nat \<Rightarrow> 'a \<Rightarrow> 'a spsc_ring" where [queue_defs]:
  "sr_new Capacity dflt = \<lparr>sr_slots = replicate Capacity dflt, sr_write = 0, sr_read = 0\<rparr>"

definition sr_push :: "nat \<Rightarrow> 'a \<Rightarrow> 'a spsc_ring \<Rightarrow> bool \<times> 'a spsc_ring" where [queue_defs]:
  "sr_push Capacity v q =
     (let w = sr_write q; next = (w + 1) mod Capacity
      in if next = sr_read q then (False, q)
         else (True, q\<lparr>sr_slots := (sr_slots q)[w := v], sr_write := next\<rparr>))"

definition sr_pop :: "nat \<Rightarrow> 'a spsc_ring \<Rightarrow> 'a option \<times> 'a spsc_ring" where [queue_defs]:
  "sr_pop Capacity q =
     (let r = sr_read q
      in if r = sr_write q then (None, q)
         else (Some (sr_slots q ! r), q\<lparr>sr_read := (r + 1) mod Capacity\<rparr>))"

definition sr_items :: "'a spsc_ring \<Rightarrow> 'a list" where [queue_defs]:
  "sr_items q = ring_items (sr_slots q) (sr_read q) (sr_write q)"

definition sr_ok :: "nat \<Rightarrow> 'a spsc_ring \<Rightarrow> bool" where [queue_defs]:
  "sr_ok Capacity q \<longleftrightarrow> length (sr_slots q) = Capacity \<and> ring_wf (sr_slots q) (sr_read q) (sr_write q)"

interpretation sr: bounded_fifo "sr_push Capacity" "sr_pop Capacity" sr_items "sr_ok Capacity" "Capacity - 1"
  for Capacity
  by unfold_locales (auto simp: queue_defs Let_def ring_queue_facts)

lemma sr_new_ok: "0 < Capacity \<Longrightarrow> sr_ok Capacity (sr_new Capacity d) \<and> sr_items (sr_new Capacity d) = []"
  by (auto simp: queue_defs ring_wf_def ring_items_empty_iff)

subsection \<open>\<open>MarketDataQueue<Capacity>\<close>\<close>

text \<open>
  A slot holds a 32-bit sequence word beside the payload; \<open>publish\<close> stores \<open>w + 1\<close> in it,
  truncated to 32 bits, and \<open>consume\<close> does not read it. The byte copy of a message is the
  copy of a value of the message type \<open>'m\<close>.
\<close>

record 'm mdq_slot =
  seq_word :: u32
  payload :: 'm

record 'm market_data_queue =
  mdq_slots :: "'m mdq_slot list"
  mdq_write :: nat
  mdq_read :: nat

definition mdq_new :: "nat \<Rightarrow> 'm \<Rightarrow> 'm market_data_queue" where [queue_defs]:
  "mdq_new Capacity junk =
     \<lparr>mdq_slots = replicate Capacity \<lparr>seq_word = 0, payload = junk\<rparr>, mdq_write = 0, mdq_read = 0\<rparr>"

definition mdq_publish :: "nat \<Rightarrow> 'm \<Rightarrow> 'm market_data_queue \<Rightarrow> bool \<times> 'm market_data_queue" where [queue_defs]:
  "mdq_publish Capacity msg q =
     (let w = mdq_write q; next = (w + 1) mod Capacity
      in if next = mdq_read q then (False, q)
         else (True, q\<lparr>mdq_slots := (mdq_slots q)[w := \<lparr>seq_word = of_nat (w + 1), payload = msg\<rparr>],
                       mdq_write := next\<rparr>))"

definition mdq_consume :: "nat \<Rightarrow> 'm market_data_queue \<Rightarrow> 'm option \<times> 'm market_data_queue" where [queue_defs]:
  "mdq_consume Capacity q =
     (let r = mdq_read q
      in if r = mdq_write q then (None, q)
         else (Some (payload (mdq_slots q ! r)), q\<lparr>mdq_read := (r + 1) mod Capacity\<rparr>))"

definition mdq_items :: "'m market_data_queue \<Rightarrow> 'm list" where [queue_defs]:
  "mdq_items q = map payload (ring_items (mdq_slots q) (mdq_read q) (mdq_write q))"

definition mdq_ok :: "nat \<Rightarrow> 'm market_data_queue \<Rightarrow> bool" where [queue_defs]:
  "mdq_ok Capacity q \<longleftrightarrow> length (mdq_slots q) = Capacity \<and> ring_wf (mdq_slots q) (mdq_read q) (mdq_write q)"

interpretation mdq: bounded_fifo "mdq_publish Capacity" "mdq_consume Capacity" mdq_items "mdq_ok Capacity" "Capacity - 1"
  for Capacity
  by unfold_locales (auto simp: queue_defs Let_def ring_queue_facts)

lemma mdq_new_ok: "0 < Capacity \<Longrightarrow> mdq_ok Capacity (mdq_new Capacity d) \<and> mdq_items (mdq_new Capacity d) = []"
  by (auto simp: queue_defs ring_wf_def ring_items_empty_iff)

subsection \<open>\<open>RingBuffer<T>\<close> with a capacity chosen at run time\<close>

record 'a ring_buffer =
  rb_buffer :: "'a list"
  rb_capacity :: nat
  rb_head :: nat
  rb_tail :: nat

definition rb_new :: "nat \<Rightarrow> 'a \<Rightarrow> 'a ring_buffer" where [queue_defs]:
  "rb_new capacity dflt =
     \<lparr>rb_buffer = replicate capacity dflt, rb_capacity = capacity, rb_head = 0, rb_tail = 0\<rparr>"

definition rb_push :: "'a \<Rightarrow> 'a ring_buffer \<Rightarrow> bool \<times> 'a ring_buffer" where [queue_defs]:
  "rb_push value q =
     (let head = rb_head q; next = (head + 1) mod rb_capacity q
      in if next = rb_tail q then (False, q)
         else (True, q\<lparr>rb_buffer := (rb_buffer q)[head := value], rb_head := next\<rparr>))"

definition rb_pop :: "'a ring_buffer \<Rightarrow> 'a option \<times> 'a ring_buffer" where [queue_defs]:
  "rb_pop q =
     (let tail = rb_tail q
      in if tail = rb_head q then (None, q)
         else (Some (rb_buffer q ! tail), q\<lparr>rb_tail := (tail + 1) mod rb_capacity q\<rparr>))"

definition rb_raw_buffer :: "'a ring_buffer \<Rightarrow> 'a list" where
  "rb_raw_buffer q = rb_buffer q"

definition rb_indices :: "'a ring_buffer \<Rightarrow> nat \<times> nat" where
  "rb_indices q = (rb_tail q, rb_head q)"

definition rb_items :: "'a ring_buffer \<Rightarrow> 'a list" where [queue_defs]:
  "rb_items q = ring_items (rb_buffer q) (rb_tail q) (rb_head q)"

definition rb_ok :: "nat \<Rightarrow> 'a ring_buffer \<Rightarrow> bool" where [queue_defs]:
  "rb_ok capacity q \<longleftrightarrow> rb_capacity q = length (rb_buffer q) \<and> length (rb_buffer q) = capacity \<and>
     ring_wf (rb_buffer q) (rb_tail q) (rb_head q)"

interpretation rb: bounded_fifo rb_push rb_pop rb_items "rb_ok capacity" "capacity - 1" for capacity
  by unfold_locales (auto simp: queue_defs Let_def ring_queue_facts)

lemma rb_new_ok: "0 < capacity \<Longrightarrow> rb_ok capacity (rb_new capacity d) \<and> rb_items (rb_new capacity d) = []"
  by (auto simp: queue_defs ring_wf_def ring_items_empty_iff)

text \<open>What the monitor thread prints is enough to recover the stored values.\<close>

lemma rb_monitor_view:
  "rb_items q = (let (tail, head) = rb_indices q in ring_items (rb_raw_buffer q) tail head)"
  by (simp add: rb_indices_def rb_raw_buffer_def rb_items_def)

subsection \<open>\<open>SPSCQueue<T, N>\<close> of pointers, indices reduced with a mask\<close>

record 'p spsc_queue =
  sq_write_idx :: nat
  sq_read_idx :: nat
  sq_slots :: "'p list"

definition sq_mask :: "nat \<Rightarrow> nat" where [queue_defs]:
  "sq_mask N = N - 1"

definition sq_new :: "nat \<Rightarrow> 'p list \<Rightarrow> 'p spsc_queue" where [queue_defs]:
  "sq_new N junk = \<lparr>sq_write_idx = 0, sq_read_idx = 0, sq_slots = junk\<rparr>"

definition sq_push :: "nat \<Rightarrow> 'p \<Rightarrow> 'p spsc_queue \<Rightarrow> bool \<times> 'p spsc_queue" where [queue_defs]:
  "sq_push N item q =
     (let w = sq_write_idx q; next_w = (w + 1) AND sq_mask N
      in if next_w = sq_read_idx q then (False, q)
         else (True, q\<lparr>sq_slots := (sq_slots q)[w := item], sq_write_idx := next_w\<rparr>))"

definition sq_pop :: "nat \<Rightarrow> 'p spsc_queue \<Rightarrow> 'p option \<times> 'p spsc_queue" where [queue_defs]:
  "sq_pop N q =
     (let r = sq_read_idx q
      in if r = sq_write_idx q then (None, q)
         else (Some (sq_slots q ! r), q\<lparr>sq_read_idx := (r + 1) AND sq_mask N\<rparr>))"

definition sq_items :: "'p spsc_queue \<Rightarrow> 'p list" where [queue_defs]:
  "sq_items q = ring_items (sq_slots q) (sq_read_idx q) (sq_write_idx q)"

text \<open>The \<open>static_assert\<close> on \<open>N\<close> is part of the well-formedness.\<close>

definition sq_ok :: "nat \<Rightarrow> 'p spsc_queue \<Rightarrow> bool" where [queue_defs]:
  "sq_ok N q \<longleftrightarrow> N AND (N - 1) = 0 \<and> length (sq_slots q) = N \<and>
     ring_wf (sq_slots q) (sq_read_idx q) (sq_write_idx q)"

lemma sq_next: "N AND (N - Suc 0) = 0 \<Longrightarrow> 0 < N \<Longrightarrow> Suc i AND sq_mask N = Suc i mod N"
  using mask_index [of N "Suc i"] by (simp add: sq_mask_def)

interpretation sq: bounded_fifo "sq_push N" "sq_pop N" sq_items "sq_ok N" "N - 1" for N
  by unfold_locales
    (auto simp: sq_push_def sq_pop_def sq_items_def sq_ok_def sq_next ring_wf_nonempty Let_def ring_queue_facts)

lemma sq_new_ok:
  "N AND (N - 1) = 0 \<Longrightarrow> 0 < N \<Longrightarrow> length junk = N \<Longrightarrow> sq_ok N (sq_new N junk) \<and> sq_items (sq_new N junk) = []"
  by (auto simp: queue_defs ring_wf_def ring_items_def)

subsection \<open>Properties\<close>

text \<open>\<open>SPSCRingBuffer<T, Capacity>\<close> and \<open>MutexSPSCDeque<T, MaxSize>\<close> do the same thing when
  \<open>Capacity = MaxSize + 1\<close>: on every sequence of pushes and pops, from empty, they accept the
  same values and hand out the same values, those of a list bounded by \<open>MaxSize\<close>. With equal
  parameters, as the benchmark instantiates them, the ring holds one value less.\<close>

theorem ring_is_deque:
  "visible (fifo_run (srb_push (Suc MaxSize)) (srb_pop (Suc MaxSize) mv) ops (srb_new (Suc MaxSize) d)) =
     visible (fifo_run (msd_push MaxSize) msd_pop ops (msd_new)) \<and>
   visible (fifo_run (msd_push MaxSize) msd_pop ops (msd_new)) =
     visible (fifo_run (list_push MaxSize) list_pop ops [])"
  using srb.visible_reference [of "Suc MaxSize" "srb_new (Suc MaxSize) d" mv ops]
    msd.visible_reference [of MaxSize msd_new ops] srb_new_ok [of "Suc MaxSize" d]
  by (simp add: msd_new_ok)

text \<open>C9: The five ring classes of the repository are interchangeable: \<open>SPSCRingBuffer\<close>,
  \<open>SPSCRing\<close>, \<open>MarketDataQueue\<close>, \<open>RingBuffer\<close> and, for a capacity its \<open>static_assert\<close> admits,
  \<open>SPSCQueue\<close> accept and return the same values on every sequence of operations.\<close>

theorem rings_interchangeable:
  assumes "0 < N" "N AND (N - 1) = 0" "length junk = N"
  shows "visible (fifo_run (sr_push N) (sr_pop N) ops (sr_new N d)) =
      visible (fifo_run (srb_push N) (srb_pop N mv) ops (srb_new N d)) \<and>
    visible (fifo_run (mdq_publish N) (mdq_consume N) ops (mdq_new N d)) =
      visible (fifo_run (srb_push N) (srb_pop N mv) ops (srb_new N d)) \<and>
    visible (fifo_run rb_push rb_pop ops (rb_new N d)) =
      visible (fifo_run (srb_push N) (srb_pop N mv) ops (srb_new N d)) \<and>
    visible (fifo_run (sq_push N) (sq_pop N) ops (sq_new N junk)) =
      visible (fifo_run (srb_push N) (srb_pop N mv) ops (srb_new N d))"
  using srb.visible_reference [of N "srb_new N d" mv ops] sr.visible_reference [of N "sr_new N d" ops]
    mdq.visible_reference [of N "mdq_new N d" ops] rb.visible_reference [of N "rb_new N d" ops]
    sq.visible_reference [of N "sq_new N junk" ops]
    srb_new_ok [OF assms(1), of d] sr_new_ok [OF assms(1), of d] mdq_new_ok [OF assms(1), of d]
    rb_new_ok [OF assms(1), of d] sq_new_ok [OF assms(2,1,3)]
  by simp

lemma rings_interchangeable_witness:
  "visible (fifo_run (sq_push 4) (sq_pop 4) [Push 7, Pop] (sq_new 4 [0, 0, 0, 0 :: nat])) = ([7], [7]) \<and>
   visible (fifo_run (sr_push 4) (sr_pop 4) [Push 7, Pop] (sr_new 4 0)) =
     visible (fifo_run (srb_push 4) (srb_pop 4 id) [Push 7, Pop] (srb_new 4 (0 :: nat)))"
  using rings_interchangeable [of 4 "[0, 0, 0, 0 :: nat]" "[Push 7, Pop]" 0 id]
  by (simp add: queue_defs visible_def Let_def)

text \<open>The latency servers' \<open>SPSCQueue\<close> loses, duplicates and reorders nothing: in every
  interleaving of a producer that retries on a full queue and a consumer that retries on an
  empty one, what was received, then what is queued, then what is still to be pushed is the
  input; and from every reachable state both threads can finish with everything received.\<close>

theorem spsc_queue_transfer:
  assumes "1 < N" "N AND (N - 1) = 0" "length junk = N"
    "(transfer_step (sq_push N) (sq_pop N))\<^sup>*\<^sup>* (msgs, sq_new N junk, []) (todo, q, got)"
  shows "got @ sq_items q @ todo = msgs \<and> length (sq_items q) \<le> N - 1 \<and>
    (\<exists>q'. (transfer_step (sq_push N) (sq_pop N))\<^sup>*\<^sup>* (todo, q, got) ([], q', msgs))"
proof -
  from assms(1) have "0 < N" by simp
  note new = sq_new_ok [OF assms(2) this assms(3)]
  from sq.transfer_inv [OF assms(4)] new have i: "sq_ok N q" "got @ sq_items q @ todo = msgs" by simp_all
  from sq.transfer_complete [OF i(1), of todo got] assms(1) i(2)
  have "\<exists>q'. (transfer_step (sq_push N) (sq_pop N))\<^sup>*\<^sup>* (todo, q, got) ([], q', msgs)" by auto
  with i sq.ok_length [OF i(1)] show ?thesis by simp
qed

lemma spsc_queue_transfer_witness:
  "\<exists>q'. (transfer_step (sq_push 2) (sq_pop 2))\<^sup>*\<^sup>* ([7 :: nat, 8], sq_new 2 [0, 0], []) ([], q', [7, 8])"
  using spsc_queue_transfer [of 2 "[0, 0]" "[7 :: nat, 8]" "[7, 8]" "sq_new 2 [0, 0]" "[]"] by simp

end
