(* ===== verification/Waitfree_Queue.thy ===== *)
theory Waitfree_Queue
  imports Fifo_Queue
begin

section \<open>\<open>WaitFreeSPSCQueue\<close>: slots with a ready flag\<close>

text \<open>
  The queue of \<open>waitfree_spsc_queue.cpp\<close> does not compare its indices: a slot carries a flag
  \<open>ready\<close>, the producer refuses to write a slot whose flag is set and the consumer refuses
  to read one whose flag is clear. All \<open>Capacity\<close> slots are usable. The stored values are the
  run of ready slots that starts at the read index.
\<close>

record 'a wf_slot =
  ready :: bool
  slot_value :: 'a

record 'a waitfree_queue =
  wf_slots :: "'a wf_slot list"
  wf_write :: nat
  wf_read :: nat

definition wf_new :: "nat \<Rightarrow> 'a \<Rightarrow> 'a waitfree_queue" where [queue_defs]:
  "wf_new Capacity junk =
     \<lparr>wf_slots = replicate Capacity \<lparr>ready = False, slot_value = junk\<rparr>, wf_write = 0, wf_read = 0\<rparr>"

definition wf_enqueue :: "nat \<Rightarrow> 'a \<Rightarrow> 'a waitfree_queue \<Rightarrow> bool \<times> 'a waitfree_queue" where [queue_defs]:
  "wf_enqueue Capacity value q =
     (let w = wf_write q; s = wf_slots q ! w
      in if ready s then (False, q)
         else (True, q\<lparr>wf_slots := (wf_slots q)[w := \<lparr>ready = True, slot_value = value\<rparr>],
                       wf_write := (w + 1) mod Capacity\<rparr>))"

definition wf_dequeue :: "nat \<Rightarrow> ('a \<Rightarrow> 'a) \<Rightarrow> 'a waitfree_queue \<Rightarrow> 'a option \<times> 'a waitfree_queue" where [queue_defs]:
  "wf_dequeue Capacity mv q =
     (let r = wf_read q; s = wf_slots q ! r
      in if \<not> ready s then (None, q)
         else (Some (slot_value s),
               q\<lparr>wf_slots := (wf_slots q)[r := \<lparr>ready = False, slot_value = mv (slot_value s)\<rparr>],
                 wf_read := (r + 1) mod Capacity\<rparr>))"

subsection \<open>Slots seen from the read index\<close>

definition wf_view :: "'a waitfree_queue \<Rightarrow> 'a wf_slot list" where
  "wf_view q = rotate (wf_read q) (wf_slots q)"

definition wf_run :: "'a waitfree_queue \<Rightarrow> 'a wf_slot list" where
  "wf_run q = takeWhile ready (wf_view q)"

definition wf_items :: "'a waitfree_queue \<Rightarrow> 'a list" where
  "wf_items q = map slot_value (wf_run q)"

definition wf_ok :: "nat \<Rightarrow> 'a waitfree_queue \<Rightarrow> bool" where
  "wf_ok Capacity q \<longleftrightarrow> length (wf_slots q) = Capacity \<and> wf_read q < Capacity \<and>
     wf_write q = (wf_read q + length (wf_run q)) mod Capacity \<and>
     filter ready (wf_view q) = wf_run q"

lemma rotate_update:
  assumes "n < length xs"
  shows "rotate r (xs[(r + n) mod length xs := x]) = (rotate r xs)[n := x]"
proof (rule nth_equalityI)
  fix i assume i: "i < length (rotate r (xs[(r + n) mod length xs := x]))"
  have pos: "(r + n) mod length xs < length xs"
    by (rule mod_less_divisor) (use assms in auto)
  from i have "(r + i) mod length xs = (r + n) mod length xs \<longleftrightarrow> i = n"
    using assms mod_add_inj [of r i "length xs" n] by auto
  with i assms show "rotate r (xs[(r + n) mod length xs := x]) ! i = (rotate r xs)[n := x] ! i"
    using pos by (cases "i = n") (auto simp: nth_rotate nth_list_update)
qed simp

lemma hd_rotate_nth: "r < length xs \<Longrightarrow> hd (rotate r xs) = xs ! r"
  by (subst hd_rotate_conv_nth) auto

lemma rotate_take_first:
  assumes "r < length xs"
  shows "rotate (Suc r mod length xs) (xs[r := x]) = tl (rotate r xs) @ [x]"
proof -
  have "rotate r (xs[(r + 0) mod length xs := x]) = (rotate r xs)[0 := x]"
    using assms by (intro rotate_update) auto
  with assms have "rotate r (xs[r := x]) = (rotate r xs)[0 := x]" by simp
  moreover have "rotate (Suc r mod length xs) (xs[r := x]) = rotate1 (rotate r (xs[r := x]))"
    by (metis length_list_update rotate_Suc rotate_conv_mod)
  moreover have "rotate r xs \<noteq> []" using assms by auto
  ultimately show ?thesis by (cases "rotate r xs") auto
qed

text \<open>A list whose ready slots all come first is such a run followed by free slots.\<close>

lemma filter_run_split:
  assumes "filter P xs = takeWhile P xs"
  shows "\<exists>ys. xs = takeWhile P xs @ ys \<and> (\<forall>y \<in> set ys. \<not> P y)"
proof (intro exI conjI)
  show "xs = takeWhile P xs @ dropWhile P xs" by simp
  have "filter P (takeWhile P xs) @ filter P (dropWhile P xs) = takeWhile P xs"
    using assms by (simp flip: filter_append)
  moreover have "filter P (takeWhile P xs) = takeWhile P xs"
    by (simp add: filter_id_conv) (meson set_takeWhileD)
  ultimately have "filter P (dropWhile P xs) = []" by simp
  then show "\<forall>y \<in> set (dropWhile P xs). \<not> P y" by (simp add: filter_empty_conv)
qed

lemma wf_ok_view:
  assumes "wf_ok N q"
  obtains free where "wf_view q = wf_run q @ free" "\<forall>s \<in> set free. \<not> ready s" "\<forall>s \<in> set (wf_run q). ready s"
    "length (wf_run q) + length free = N" "0 < N"
proof -
  from assms obtain free where f: "wf_view q = wf_run q @ free" "\<forall>s \<in> set free. \<not> ready s"
    using filter_run_split [of ready "wf_view q"] by (auto simp: wf_ok_def wf_run_def)
  moreover have "\<forall>s \<in> set (wf_run q). ready s"
    by (auto simp: wf_run_def dest: set_takeWhileD)
  moreover have "length (wf_run q) + length free = N"
    using arg_cong [OF f(1), of length] assms by (simp add: wf_view_def wf_ok_def)
  ultimately show ?thesis using that assms by (auto simp: wf_ok_def)
qed

lemma wf_write_slot:
  assumes "wf_ok N q" "wf_view q = wf_run q @ free" "length (wf_run q) + length free = N"
  shows "wf_slots q ! wf_write q = (case free of [] \<Rightarrow> hd (wf_run q) | s # _ \<Rightarrow> s)"
proof (cases free)
  case Nil
  with assms have n: "length (wf_run q) = N" "wf_write q = wf_read q" "wf_read q < N"
    by (auto simp: wf_ok_def)
  with assms(1) have "hd (wf_view q) = wf_slots q ! wf_read q"
    by (simp add: wf_view_def wf_ok_def hd_rotate_nth)
  with Nil assms(2) n show ?thesis by simp
next
  case (Cons s ss)
  have "wf_view q ! length (wf_run q) = wf_slots q ! ((wf_read q + length (wf_run q)) mod N)"
    using assms(1,3) Cons by (simp add: wf_view_def wf_ok_def nth_rotate)
  moreover have "wf_write q = (wf_read q + length (wf_run q)) mod N"
    using assms(1) by (simp add: wf_ok_def)
  ultimately show ?thesis using Cons assms(2) by (simp add: nth_append)
qed

lemma wf_read_slot:
  assumes "wf_ok N q"
  shows "wf_slots q ! wf_read q = hd (wf_view q)"
  using assms by (simp add: wf_view_def wf_ok_def hd_rotate_nth)

lemma wf_enqueue_view:
  assumes "wf_ok N q" "wf_view q = wf_run q @ s # free" "\<not> ready s"
  shows "wf_view (snd (wf_enqueue N x q)) = wf_run q @ \<lparr>ready = True, slot_value = x\<rparr> # free"
proof -
  have len: "length (wf_view q) = N" using assms(1) by (simp add: wf_view_def wf_ok_def)
  with assms have slot: "wf_slots q ! wf_write q = s"
    using wf_write_slot [of N q "s # free"] by simp
  from len assms(2) have "length (wf_run q) < N" by simp
  then have "rotate (wf_read q) ((wf_slots q)[wf_write q := y]) = (wf_view q)[length (wf_run q) := y]" for y
    using assms(1) rotate_update [of "length (wf_run q)" "wf_slots q" "wf_read q" y]
    by (simp add: wf_view_def wf_ok_def)
  with slot assms show ?thesis
    by (simp add: wf_enqueue_def wf_view_def Let_def)
qed

lemma wf_dequeue_view:
  assumes "wf_ok N q" "wf_view q = s # rest" "ready s"
  shows "wf_view (snd (wf_dequeue N mv q)) = rest @ [\<lparr>ready = False, slot_value = mv (slot_value s)\<rparr>]"
  using assms rotate_take_first [of "wf_read q" "wf_slots q"] wf_read_slot [OF assms(1)]
  by (simp add: wf_dequeue_def wf_view_def wf_ok_def Let_def)

lemma wf_push_facts:
  assumes ok: "wf_ok N q"
  shows "ready (wf_slots q ! wf_write q) \<longleftrightarrow> length (wf_items q) = N"
    and "length (wf_items q) < N \<Longrightarrow> wf_items (snd (wf_enqueue N x q)) = wf_items q @ [x] \<and> wf_ok N (snd (wf_enqueue N x q))"
proof -
  obtain free where f: "wf_view q = wf_run q @ free" "\<forall>s \<in> set free. \<not> ready s"
      "\<forall>s \<in> set (wf_run q). ready s" "length (wf_run q) + length free = N" "0 < N"
    using ok by (rule wf_ok_view)
  show full: "ready (wf_slots q ! wf_write q) \<longleftrightarrow> length (wf_items q) = N"
    using wf_write_slot [OF ok f(1,4)] f
    by (auto simp: wf_items_def split: list.splits)
  assume "length (wf_items q) < N"
  then obtain s ss where c: "free = s # ss" using f(4) by (cases free) (auto simp: wf_items_def)
  have v: "wf_view (snd (wf_enqueue N x q)) = wf_run q @ \<lparr>ready = True, slot_value = x\<rparr> # ss"
    using ok f c by (intro wf_enqueue_view) auto
  have run: "wf_run (snd (wf_enqueue N x q)) = wf_run q @ [\<lparr>ready = True, slot_value = x\<rparr>]"
    using f c by (simp add: wf_run_def [of "snd _"] v takeWhile_append2) (cases ss; simp)
  have flt: "filter ready (wf_view (snd (wf_enqueue N x q))) = wf_run q @ [\<lparr>ready = True, slot_value = x\<rparr>]"
    using f c by (simp add: v)
  have "\<not> ready (wf_slots q ! wf_write q)" using full \<open>length (wf_items q) < N\<close> by simp
  then have "wf_write (snd (wf_enqueue N x q)) = Suc (wf_write q) mod N"
    "wf_read (snd (wf_enqueue N x q)) = wf_read q" "length (wf_slots (snd (wf_enqueue N x q))) = length (wf_slots q)"
    by (simp_all add: wf_enqueue_def Let_def)
  with ok run flt show "wf_items (snd (wf_enqueue N x q)) = wf_items q @ [x] \<and> wf_ok N (snd (wf_enqueue N x q))"
    by (simp add: wf_items_def wf_ok_def mod_Suc_eq)
qed

lemma wf_pop_facts:
  assumes ok: "wf_ok N q"
  shows "ready (wf_slots q ! wf_read q) \<longleftrightarrow> wf_items q \<noteq> []"
    and "wf_items q \<noteq> [] \<Longrightarrow> slot_value (wf_slots q ! wf_read q) = hd (wf_items q)"
    and "wf_items q \<noteq> [] \<Longrightarrow> wf_items (snd (wf_dequeue N mv q)) = tl (wf_items q) \<and> wf_ok N (snd (wf_dequeue N mv q))"
proof -
  obtain free where f: "wf_view q = wf_run q @ free" "\<forall>s \<in> set free. \<not> ready s"
      "\<forall>s \<in> set (wf_run q). ready s" "length (wf_run q) + length free = N" "0 < N"
    using ok by (rule wf_ok_view)
  have ne: "wf_view q \<noteq> []" using f(1,4,5) by auto
  show hd: "ready (wf_slots q ! wf_read q) \<longleftrightarrow> wf_items q \<noteq> []"
  proof (cases "wf_run q")
    case Nil
    with f(1) ne have "hd (wf_view q) \<in> set free" by (cases free) auto
    with f(2) Nil show ?thesis by (simp add: wf_items_def wf_read_slot [OF ok])
  next
    case (Cons s rs)
    with f(1,3) show ?thesis by (simp add: wf_items_def wf_read_slot [OF ok])
  qed
  show "wf_items q \<noteq> [] \<Longrightarrow> slot_value (wf_slots q ! wf_read q) = hd (wf_items q)"
    using f wf_read_slot [OF ok] by (auto simp: wf_items_def hd_append hd_map)
  assume "wf_items q \<noteq> []"
  then obtain s rs where c: "wf_run q = s # rs" by (cases "wf_run q") (auto simp: wf_items_def)
  let ?t = "\<lparr>ready = False, slot_value = mv (slot_value s)\<rparr>"
  have v: "wf_view (snd (wf_dequeue N mv q)) = rs @ free @ [?t]"
    using ok f c wf_dequeue_view [of N q s "rs @ free" mv] by simp
  have run: "wf_run (snd (wf_dequeue N mv q)) = rs"
    using f c by (simp add: wf_run_def [of "snd _"] v takeWhile_append2) (cases free; simp)
  have flt: "filter ready (wf_view (snd (wf_dequeue N mv q))) = rs"
    using f c by (simp add: v)
  have "ready (wf_slots q ! wf_read q)" using hd \<open>wf_items q \<noteq> []\<close> by simp
  then have "wf_read (snd (wf_dequeue N mv q)) = Suc (wf_read q) mod N"
    "wf_write (snd (wf_dequeue N mv q)) = wf_write q" "length (wf_slots (snd (wf_dequeue N mv q))) = length (wf_slots q)"
    by (simp_all add: wf_dequeue_def Let_def)
  with ok run flt c f(5) show "wf_items (snd (wf_dequeue N mv q)) = tl (wf_items q) \<and> wf_ok N (snd (wf_dequeue N mv q))"
    by (simp add: wf_items_def wf_ok_def mod_add_left_eq)
qed

lemma wf_items_bound: "wf_ok N q \<Longrightarrow> length (wf_items q) \<le> N"
  by (erule wf_ok_view) (simp add: wf_items_def)

interpretation wfq: bounded_fifo "wf_enqueue Capacity" "wf_dequeue Capacity mv" wf_items "wf_ok Capacity" Capacity
  for Capacity mv
proof unfold_locales
  fix q :: "'a waitfree_queue" and x
  assume ok: "wf_ok Capacity q"
  show "length (wf_items q) \<le> Capacity" using ok by (rule wf_items_bound)
  show "length (wf_items q) = Capacity \<Longrightarrow> wf_enqueue Capacity x q = (False, q)"
    using wf_push_facts(1) [OF ok] by (simp add: wf_enqueue_def Let_def)
  show "length (wf_items q) < Capacity \<Longrightarrow> fst (wf_enqueue Capacity x q)"
    using wf_push_facts(1) [OF ok] by (simp add: wf_enqueue_def Let_def)
  show "wf_ok Capacity (snd (wf_enqueue Capacity x q))"
    using wf_push_facts(1) [OF ok] wf_push_facts(2) [OF ok, of x] wf_items_bound [OF ok] ok
    by (cases "length (wf_items q) = Capacity") (auto simp: wf_enqueue_def Let_def)
  show "length (wf_items q) < Capacity \<Longrightarrow> wf_items (snd (wf_enqueue Capacity x q)) = wf_items q @ [x]"
    using wf_push_facts(2) [OF ok] by blast
  show "wf_items q = [] \<Longrightarrow> wf_dequeue Capacity mv q = (None, q)"
    using wf_pop_facts(1) [OF ok] by (simp add: wf_dequeue_def Let_def)
  show "wf_items q \<noteq> [] \<Longrightarrow> fst (wf_dequeue Capacity mv q) = Some (hd (wf_items q))"
    using wf_pop_facts(1,2) [OF ok] by (simp add: wf_dequeue_def Let_def)
  show "wf_ok Capacity (snd (wf_dequeue Capacity mv q))"
    using wf_pop_facts(1) [OF ok] wf_pop_facts(3) [OF ok, of mv] ok
    by (cases "wf_items q = []") (auto simp: wf_dequeue_def Let_def)
  show "wf_items q \<noteq> [] \<Longrightarrow> wf_items (snd (wf_dequeue Capacity mv q)) = tl (wf_items q)"
    using wf_pop_facts(3) [OF ok] by blast
qed

lemma wf_new_ok: "0 < Capacity \<Longrightarrow> wf_ok Capacity (wf_new Capacity d) \<and> wf_items (wf_new Capacity d) = []"
  by (auto simp: wf_new_def wf_ok_def wf_items_def wf_run_def wf_view_def)

subsection \<open>Properties\<close>

text \<open>C10: \<open>WaitFreeSPSCQueue<T, Capacity>\<close> is a bounded list queue that uses all of its
  \<open>Capacity\<close> slots, so it behaves as \<open>MutexSPSCDeque<T, Capacity>\<close> does: on every sequence of
  enqueues and dequeues from empty the same values are accepted and the same come out.\<close>

theorem waitfree_is_deque:
  assumes "0 < Capacity"
  shows "visible (fifo_run (wf_enqueue Capacity) (wf_dequeue Capacity mv) ops (wf_new Capacity d)) =
      visible (fifo_run (list_push Capacity) list_pop ops []) \<and>
    visible (fifo_run (wf_enqueue Capacity) (wf_dequeue Capacity mv) ops (wf_new Capacity d)) =
      visible (fifo_run (msdw_push Capacity) msdw_pop ops msd_new)"
  using wfq.visible_reference [of Capacity "wf_new Capacity d" mv ops] wf_new_ok [OF assms, of d]
    msdw.visible_reference [of Capacity msd_new ops]
  by (simp add: msd_new_ok)

lemma waitfree_is_deque_witness:
  "visible (fifo_run (list_push 2) list_pop [Push 1, Push 2, Push 3, Pop] []) = ([1, 2], [1 :: nat]) \<and>
   visible (fifo_run (wf_enqueue 2) (wf_dequeue 2 id) [Push 1, Push 2, Push 3, Pop] (wf_new 2 (0 :: nat))) =
     ([1, 2], [1])"
  using waitfree_is_deque [of 2 id "[Push 1, Push 2, Push 3, Pop]" "0 :: nat"]
  by (simp add: list_push_def list_pop_def visible_def)

text \<open>Liveness of the wait-free queue between two threads: from every reachable state of a
  producer and a consumer with something left to deliver some step changes the state, and the
  two can always finish with every message received in order.\<close>

theorem waitfree_transfer:
  assumes "0 < Capacity"
    "(transfer_step (wf_enqueue Capacity) (wf_dequeue Capacity mv))\<^sup>*\<^sup>* (msgs, wf_new Capacity d, []) (todo, q, got)"
  shows "got @ wf_items q @ todo = msgs \<and>
    (got \<noteq> msgs \<longrightarrow> (\<exists>s. transfer_step (wf_enqueue Capacity) (wf_dequeue Capacity mv) (todo, q, got) s \<and> s \<noteq> (todo, q, got))) \<and>
    (\<exists>q'. (transfer_step (wf_enqueue Capacity) (wf_dequeue Capacity mv))\<^sup>*\<^sup>* (todo, q, got) ([], q', msgs))"
proof -
  from wfq.transfer_inv [OF assms(2)] wf_new_ok [OF assms(1), of d]
  have i: "wf_ok Capacity q" "got @ wf_items q @ todo = msgs" by simp_all
  from wfq.transfer_complete [OF i(1) assms(1), of mv todo got] i(2)
  have "\<exists>q'. (transfer_step (wf_enqueue Capacity) (wf_dequeue Capacity mv))\<^sup>*\<^sup>* (todo, q, got) ([], q', msgs)" by auto
  moreover have "got \<noteq> msgs \<Longrightarrow> todo \<noteq> [] \<or> wf_items q \<noteq> []" using i(2) by auto
  ultimately show ?thesis using i wfq.transfer_progress [OF i(1) assms(1), of todo mv got] by blast
qed

lemma waitfree_transfer_witness:
  "\<exists>q'. (transfer_step (wf_enqueue 1) (wf_dequeue 1 id))\<^sup>*\<^sup>* ([7 :: nat, 8], wf_new 1 0, []) ([], q', [7, 8])"
  using waitfree_transfer [of 1 id "[7 :: nat, 8]" 0 "[7, 8]" "wf_new 1 0" "[]"] by simp

end
