(* ===== verification/Order_Book.thy ===== *)
theory Order_Book
  imports Prelude
begin

section \<open>The order book and its matching engine\<close>

text \<open>
  \<open>topics/domain_sketches/order_book_matching_engine.cpp\<close>. A \<open>std::map<Price, vector<Order>>\<close>
  is the list of its entries in ascending key order: \<open>begin()\<close> is the head, \<open>rbegin()\<close> the
  last entry, \<open>operator[]\<close> finds an entry or inserts an empty one in order. Prices and
  quantities are \<open>int\<close>: the code only compares prices, and takes from a positive quantity at
  most its own value, so its 64-bit arithmetic does not wrap. \<open>OrderBook\<close> has no other state.
\<close>

datatype side = Buy | Sell

record order =
  oid :: u64
  oside :: side
  price :: int
  qty :: int

record fill =
  order_id :: u64
  match_id :: u64
  fprice :: int
  fqty :: int

type_synonym levels = "(int \<times> order list) list"

record order_book =
  bids :: levels
  asks :: levels

definition empty_book :: order_book where
  "empty_book = \<lparr>bids = [], asks = []\<rparr>"

subsection \<open>Operations\<close>

text \<open>\<open>levels[p].push_back(x)\<close>.\<close>

fun level_push :: "int \<Rightarrow> order \<Rightarrow> levels \<Rightarrow> levels" where
  "level_push p x [] = [(p, [x])]"
| "level_push p x ((k, level) # rest) =
     (if p < k then (p, [x]) # (k, level) # rest
      else if p = k then (k, level @ [x]) # rest
      else (k, level) # level_push p x rest)"

text \<open>
  The inner loop of \<open>match_buy\<close> and \<open>match_sell\<close>, over one price level: fill against the front
  order, and erase it when nothing of it is left.
\<close>

function match_level :: "order \<Rightarrow> order list \<Rightarrow> fill list \<Rightarrow> order \<times> order list \<times> fill list" where
  "match_level ord [] fills = (ord, [], fills)"
| "match_level ord (resting # level) fills =
     (if 0 < qty ord then
        let fill_qty = min (qty ord) (qty resting);
            fills' = fills @ [\<lparr>order_id = oid ord, match_id = oid resting, fprice = price resting, fqty = fill_qty\<rparr>];
            ord' = ord\<lparr>qty := qty ord - fill_qty\<rparr>;
            resting' = resting\<lparr>qty := qty resting - fill_qty\<rparr>
        in if qty resting' = 0 then match_level ord' level fills'
           else match_level ord' (resting' # level) fills'
      else (ord, resting # level, fills))"
  by pat_completeness auto
termination
  by (relation "measures [\<lambda>(ord, level, fills). length level, \<lambda>(ord, level, fills). if 0 < qty ord then 1 else 0]")
    (auto simp: min_def split: if_splits)

declare match_level.simps(2) [simp del]

text \<open>The inner loop stops because the incoming order is used up or the level is empty.\<close>

lemma match_level_exit:
  "match_level ord level fills = (ord', level', fills') \<Longrightarrow> level' = [] \<or> qty ord' \<le> 0"
  by (induction ord level fills rule: match_level.induct)
    (auto simp: match_level.simps(2) Let_def split: if_splits)

text \<open>\<open>match_buy\<close>: the outer loop over the ask levels from the lowest price up.\<close>

function match_buy :: "order \<Rightarrow> levels \<Rightarrow> fill list \<Rightarrow> order \<times> levels \<times> fill list" where
  "match_buy ord [] fills = (ord, [], fills)"
| "match_buy ord ((p, level) # rest) fills =
     (if 0 < qty ord \<and> p \<le> price ord then
        (case match_level ord level fills of (ord', level', fills') \<Rightarrow>
           if level' = [] then match_buy ord' rest fills'
           else match_buy ord' ((p, level') # rest) fills')
      else (ord, (p, level) # rest, fills))"
  by pat_completeness auto
termination
proof (relation "measures [\<lambda>(ord, ls, fills). length ls, \<lambda>(ord, ls, fills). if 0 < qty ord then 1 else 0]", goal_cases)
  case 3
  then show ?case by (fastforce dest: match_level_exit match_level_exit [OF sym])
qed auto

declare match_buy.simps(2) [simp del]

text \<open>\<open>match_sell\<close>: the loop over the bid levels from the highest price down, here on the
  reversed list of levels.\<close>

function match_sell_down :: "order \<Rightarrow> levels \<Rightarrow> fill list \<Rightarrow> order \<times> levels \<times> fill list" where
  "match_sell_down ord [] fills = (ord, [], fills)"
| "match_sell_down ord ((p, level) # rest) fills =
     (if 0 < qty ord \<and> price ord \<le> p then
        (case match_level ord level fills of (ord', level', fills') \<Rightarrow>
           if level' = [] then match_sell_down ord' rest fills'
           else match_sell_down ord' ((p, level') # rest) fills')
      else (ord, (p, level) # rest, fills))"
  by pat_completeness auto
termination
proof (relation "measures [\<lambda>(ord, ls, fills). length ls, \<lambda>(ord, ls, fills). if 0 < qty ord then 1 else 0]", goal_cases)
  case 3
  then show ?case by (fastforce dest: match_level_exit match_level_exit [OF sym])
qed auto

declare match_sell_down.simps(2) [simp del]

definition match_sell :: "order \<Rightarrow> levels \<Rightarrow> fill list \<Rightarrow> order \<times> levels \<times> fill list" where
  "match_sell ord levels fills =
     (case match_sell_down ord (rev levels) fills of (ord', down, fills') \<Rightarrow> (ord', rev down, fills'))"

definition add_order :: "order \<Rightarrow> order_book \<Rightarrow> fill list \<times> order_book" where
  "add_order ord book =
     (case oside ord of
        Buy \<Rightarrow> (case match_buy ord (asks book) [] of (ord', asks', fills) \<Rightarrow>
          (fills, if 0 < qty ord'
                  then book\<lparr>bids := level_push (price ord') ord' (bids book), asks := asks'\<rparr>
                  else book\<lparr>asks := asks'\<rparr>))
      | Sell \<Rightarrow> (case match_sell ord (bids book) [] of (ord', bids', fills) \<Rightarrow>
          (fills, if 0 < qty ord'
                  then book\<lparr>bids := bids', asks := level_push (price ord') ord' (asks book)\<rparr>
                  else book\<lparr>bids := bids'\<rparr>)))"

definition best_bid :: "order_book \<Rightarrow> int" where
  "best_bid book = (if bids book = [] then 0 else fst (last (bids book)))"

definition best_ask :: "order_book \<Rightarrow> int" where
  "best_ask book = (if asks book = [] then 0 else fst (hd (asks book)))"

fun add_orders :: "order list \<Rightarrow> order_book \<Rightarrow> fill list \<times> order_book" where
  "add_orders [] book = ([], book)"
| "add_orders (ord # ords) book =
     (let (fs, book') = add_order ord book; (fs', book'') = add_orders ords book' in (fs @ fs', book''))"

subsection \<open>The reference: a queue of resting orders served front to back\<close>

text \<open>
  \<open>serve q rs\<close> takes a quantity out of a queue of orders, strictly in order, and returns the
  quantity not served, what is left of the queue and the fills as (order id, price, quantity).
\<close>

fun serve :: "int \<Rightarrow> order list \<Rightarrow> int \<times> order list \<times> (u64 \<times> int \<times> int) list" where
  "serve q [] = (q, [], [])"
| "serve q (r # rs) =
     (if q \<le> 0 then (q, r # rs, [])
      else if qty r \<le> q then
        (case serve (q - qty r) rs of (q', rs', fs) \<Rightarrow> (q', rs', (oid r, price r, qty r) # fs))
      else (0, r\<lparr>qty := qty r - q\<rparr> # rs, [(oid r, price r, q)]))"

definition fill_of :: "order \<Rightarrow> u64 \<times> int \<times> int \<Rightarrow> fill" where
  "fill_of ord f = (case f of (i, p, q) \<Rightarrow> \<lparr>order_id = oid ord, match_id = i, fprice = p, fqty = q\<rparr>)"

definition resting_qty :: "levels \<Rightarrow> int" where
  "resting_qty ls = (\<Sum>r \<leftarrow> concat (map snd ls). qty r)"

definition fills_qty :: "fill list \<Rightarrow> int" where
  "fills_qty fs = (\<Sum>f \<leftarrow> fs. fqty f)"

lemma fills_qty_append [simp]: "fills_qty (xs @ ys) = fills_qty xs + fills_qty ys"
  by (simp add: fills_qty_def)

lemma serve_done: "q \<le> 0 \<Longrightarrow> serve q rs = (q, rs, [])"
  by (cases rs) auto

lemma match_level_serve:
  assumes "\<forall>r \<in> set level. 0 < qty r"
  shows "match_level ord level fills =
    (case serve (qty ord) level of (q, level', fs) \<Rightarrow> (ord\<lparr>qty := q\<rparr>, level', fills @ map (fill_of ord) fs))"
  using assms
proof (induction ord level fills rule: match_level.induct)
  case (1 ord fills)
  then show ?case by simp
next
  case (2 ord resting level fills)
  consider (stop) "qty ord \<le> 0" | (erase) "0 < qty ord" "qty resting \<le> qty ord"
    | (part) "0 < qty ord" "qty ord < qty resting" by linarith
  then show ?case
  proof cases
    case stop
    then show ?thesis by (simp add: match_level.simps(2))
  next
    case erase
    with "2.IH"(1) "2.prems" show ?thesis
      by (auto simp: match_level.simps(2) Let_def min_def fill_of_def split: prod.splits)
  next
    case part
    let ?r = "resting\<lparr>qty := qty resting - qty ord\<rparr>"
    have "match_level (ord\<lparr>qty := 0\<rparr>) (?r # level) fs = (ord\<lparr>qty := 0\<rparr>, ?r # level, fs)" for fs
      by (simp add: match_level.simps(2))
    with part show ?thesis by (simp add: match_level.simps(2) Let_def min_def fill_of_def)
  qed
qed

fun taken :: "(u64 \<times> int \<times> int) list \<Rightarrow> int" where
  "taken [] = 0"
| "taken ((i, p, x) # fs) = x + taken fs"

lemma taken_append [simp]: "taken (fs @ gs) = taken fs + taken gs"
  by (induction fs rule: taken.induct) auto

lemma fills_qty_fill_of [simp]: "fills_qty (map (fill_of ord) fs) = taken fs"
  by (induction fs rule: taken.induct) (auto simp: fills_qty_def fill_of_def)

definition qty_sum :: "order list \<Rightarrow> int" where
  "qty_sum rs = (\<Sum>r \<leftarrow> rs. qty r)"

lemma qty_sum_simps [simp]:
  "qty_sum [] = 0" "qty_sum (r # rs) = qty r + qty_sum rs" "qty_sum (rs @ rs') = qty_sum rs + qty_sum rs'"
  by (simp_all add: qty_sum_def)

abbreviation all_pos :: "order list \<Rightarrow> bool" where
  "all_pos rs \<equiv> \<forall>r \<in> set rs. 0 < qty r"

lemma serve_account:
  "serve q rs = (q', rs', fs) \<Longrightarrow> q' = q - taken fs \<and> qty_sum rs' = qty_sum rs - taken fs"
  by (induction q rs arbitrary: q' rs' fs rule: serve.induct) (fastforce split: if_splits prod.splits)+

lemma serve_pos:
  "serve q rs = (q', rs', fs) \<Longrightarrow> all_pos rs \<Longrightarrow>
   all_pos rs' \<and> (0 \<le> q \<longrightarrow> 0 \<le> q') \<and> (0 < q' \<longrightarrow> rs' = []) \<and> (\<forall>(i, p, x) \<in> set fs. 0 < x)"
  by (induction q rs arbitrary: q' rs' fs rule: serve.induct) (fastforce split: if_splits prod.splits)+

lemma serve_keeps:
  "serve q rs = (q', rs', fs) \<Longrightarrow> \<forall>r \<in> set rs. price r = k \<and> oside r = d \<Longrightarrow>
   (\<forall>r \<in> set rs'. price r = k \<and> oside r = d) \<and> (\<forall>(i, p, x) \<in> set fs. p = k)"
  by (induction q rs arbitrary: q' rs' fs rule: serve.induct) (fastforce split: if_splits prod.splits)+

lemma serve_append:
  "serve q (xs @ ys) =
    (case serve q xs of (q', xs', fs) \<Rightarrow>
       if xs' = [] then (case serve q' ys of (q'', ys', gs) \<Rightarrow> (q'', ys', fs @ gs)) else (q', xs' @ ys, fs))"
  by (induction q xs rule: serve.induct) (auto split: prod.splits)

subsection \<open>Serving the levels a price reaches\<close>

fun serve_levels :: "(int \<Rightarrow> bool) \<Rightarrow> int \<Rightarrow> levels \<Rightarrow> int \<times> levels \<times> (u64 \<times> int \<times> int) list" where
  "serve_levels P q [] = (q, [], [])"
| "serve_levels P q ((k, l) # rest) =
     (if 0 < q \<and> P k then
        (case serve q l of (q', l', fs) \<Rightarrow>
           if l' = [] then (case serve_levels P q' rest of (q'', rest', gs) \<Rightarrow> (q'', rest', fs @ gs))
           else (q', (k, l') # rest, fs))
      else (q, (k, l) # rest, []))"

definition levels_pos :: "levels \<Rightarrow> bool" where
  "levels_pos ls \<longleftrightarrow> (\<forall>(k, l) \<in> set ls. all_pos l)"

lemma levels_pos_Cons [simp]: "levels_pos ((k, l) # ls) \<longleftrightarrow> all_pos l \<and> levels_pos ls"
  by (simp add: levels_pos_def)

lemma match_buy_stop: "qty ord \<le> 0 \<Longrightarrow> match_buy ord ls fills = (ord, ls, fills)"
  by (cases ls) (auto simp: match_buy.simps(2))

lemma match_sell_stop: "qty ord \<le> 0 \<Longrightarrow> match_sell_down ord ls fills = (ord, ls, fills)"
  by (cases ls) (auto simp: match_sell_down.simps(2))

lemma serve_exit: "serve q rs = (q', rs', fs) \<Longrightarrow> rs' \<noteq> [] \<Longrightarrow> q' \<le> 0"
  by (induction q rs arbitrary: q' rs' fs rule: serve.induct) (auto split: if_splits prod.splits)

lemma match_buy_serve:
  "levels_pos ls \<Longrightarrow> match_buy ord ls fills =
    (case serve_levels (\<lambda>k. k \<le> price ord) (qty ord) ls of (q, ls', fs) \<Rightarrow>
       (ord\<lparr>qty := q\<rparr>, ls', fills @ map (fill_of ord) fs))"
proof (induction ls arbitrary: ord fills)
  case (Cons kl rest)
  obtain k l where kl: "kl = (k, l)" by fastforce
  obtain q' l' fs where sv: "serve (qty ord) l = (q', l', fs)" by (cases "serve (qty ord) l")
  from Cons.prems kl sv have ml: "match_level ord l fills = (ord\<lparr>qty := q'\<rparr>, l', fills @ map (fill_of ord) fs)"
    by (simp add: match_level_serve)
  have "fill_of (ord\<lparr>qty := q'\<rparr>) = fill_of ord" by (auto simp: fill_of_def)
  moreover have "l' \<noteq> [] \<Longrightarrow> match_buy (ord\<lparr>qty := q'\<rparr>) ((k, l') # rest) fs' = (ord\<lparr>qty := q'\<rparr>, (k, l') # rest, fs')" for fs'
    using serve_exit [OF sv] by (simp add: match_buy_stop)
  moreover have "levels_pos rest" using Cons.prems kl by simp
  ultimately show ?case
    using Cons.IH [of "ord\<lparr>qty := q'\<rparr>"]
    by (subst kl, subst match_buy.simps(2)) (simp add: kl ml sv split: prod.split)
qed simp

lemma match_sell_down_serve:
  "levels_pos ls \<Longrightarrow> match_sell_down ord ls fills =
    (case serve_levels (\<lambda>k. price ord \<le> k) (qty ord) ls of (q, ls', fs) \<Rightarrow>
       (ord\<lparr>qty := q\<rparr>, ls', fills @ map (fill_of ord) fs))"
proof (induction ls arbitrary: ord fills)
  case (Cons kl rest)
  obtain k l where kl: "kl = (k, l)" by fastforce
  obtain q' l' fs where sv: "serve (qty ord) l = (q', l', fs)" by (cases "serve (qty ord) l")
  from Cons.prems kl sv have ml: "match_level ord l fills = (ord\<lparr>qty := q'\<rparr>, l', fills @ map (fill_of ord) fs)"
    by (simp add: match_level_serve)
  have "fill_of (ord\<lparr>qty := q'\<rparr>) = fill_of ord" by (auto simp: fill_of_def)
  moreover have "l' \<noteq> [] \<Longrightarrow> match_sell_down (ord\<lparr>qty := q'\<rparr>) ((k, l') # rest) fs' = (ord\<lparr>qty := q'\<rparr>, (k, l') # rest, fs')" for fs'
    using serve_exit [OF sv] by (simp add: match_sell_stop)
  moreover have "levels_pos rest" using Cons.prems kl by simp
  ultimately show ?case
    using Cons.IH [of "ord\<lparr>qty := q'\<rparr>"]
    by (subst kl, subst match_sell_down.simps(2)) (simp add: kl ml sv split: prod.split)
qed simp

text \<open>Level by level or through one queue: the orders that a price reaches, in priority order.\<close>

definition reached :: "(int \<Rightarrow> bool) \<Rightarrow> levels \<Rightarrow> order list" where
  "reached P ls = concat (map snd (takeWhile (\<lambda>(k, l). P k) ls))"

lemma reached_rest:
  "concat (map snd ls) =
   concat (map snd (takeWhile (\<lambda>(k, l). P k) ls)) @ concat (map snd (dropWhile (\<lambda>(k, l). P k) ls))"
  by (simp flip: concat_append map_append)

lemma serve_levels_reached:
  "serve_levels P q ls = (q', ls', fs) \<Longrightarrow>
   \<exists>rest. serve q (reached P ls) = (q', rest, fs) \<and>
     concat (map snd ls') = rest @ concat (map snd (dropWhile (\<lambda>(k, l). P k) ls))"
proof (induction ls arbitrary: q q' ls' fs)
  case Nil
  then show ?case by (simp add: reached_def)
next
  case (Cons kl ls)
  obtain k l where kl: "kl = (k, l)" by fastforce
  show ?case
  proof (cases "0 < q \<and> P k")
    case False
    with Cons.prems kl reached_rest [of ls P] show ?thesis by (auto simp: reached_def serve_done)
  next
    case True
    obtain q1 l1 gs where sv: "serve q l = (q1, l1, gs)" by (cases "serve q l")
    obtain q2 ls2 hs where r: "serve_levels P q1 ls = (q2, ls2, hs)" by (cases "serve_levels P q1 ls")
    from True Cons.prems kl sv r Cons.IH [OF r] reached_rest [of ls P] show ?thesis
      by (auto simp: reached_def serve_append split: if_splits)
  qed
qed

lemma serve_levels_sum:
  "serve_levels P q ls = (q', ls', fs) \<Longrightarrow> q' = q - taken fs \<and>
   resting_qty ls' = resting_qty ls - taken fs"
proof (induction ls arbitrary: q q' ls' fs)
  case Nil
  then show ?case by simp
next
  case (Cons kl ls)
  obtain k l where kl: "kl = (k, l)" by fastforce
  obtain q1 l1 gs where sv: "serve q l = (q1, l1, gs)" by (cases "serve q l")
  obtain q2 ls2 hs where r: "serve_levels P q1 ls = (q2, ls2, hs)" by (cases "serve_levels P q1 ls")
  from Cons.prems kl sv r Cons.IH [OF r] serve_account [OF sv] show ?case
    by (auto simp: resting_qty_def qty_sum_def split: if_splits)
qed

subsection \<open>The invariant of a book\<close>

definition level_ok :: "side \<Rightarrow> int \<times> order list \<Rightarrow> bool" where
  "level_ok d kl \<longleftrightarrow> snd kl \<noteq> [] \<and> all_pos (snd kl) \<and> (\<forall>r \<in> set (snd kl). price r = fst kl \<and> oside r = d)"

definition levels_ok :: "side \<Rightarrow> levels \<Rightarrow> bool" where
  "levels_ok d ls \<longleftrightarrow> sorted_wrt (<) (map fst ls) \<and> list_all (level_ok d) ls"

definition book_ok :: "order_book \<Rightarrow> bool" where
  "book_ok b \<longleftrightarrow> levels_ok Buy (bids b) \<and> levels_ok Sell (asks b) \<and>
     (\<forall>x \<in> set (map fst (bids b)). \<forall>y \<in> set (map fst (asks b)). x < y)"

lemma levels_ok_pos: "levels_ok d ls \<Longrightarrow> levels_pos ls"
  by (fastforce simp: levels_ok_def levels_pos_def level_ok_def list_all_iff)

lemma levels_pos_rev [simp]: "levels_pos (rev ls) = levels_pos ls"
  by (simp add: levels_pos_def)

lemma serve_level_ok:
  assumes "serve q l = (q', l', fs)" "level_ok d (k, l)" "l' \<noteq> []"
  shows "level_ok d (k, l')"
  using assms serve_pos [OF assms(1)] serve_keeps [OF assms(1), of k d] by (auto simp: level_ok_def)

text \<open>Serving removes whole levels from the front, and shortens at most one.\<close>

lemma serve_levels_suffix:
  "serve_levels P q ls = (q', ls', fs) \<Longrightarrow> list_all (level_ok d) ls \<Longrightarrow>
   list_all (level_ok d) ls' \<and> (\<exists>n. map fst ls' = drop n (map fst ls))"
proof (induction ls arbitrary: q q' ls' fs)
  case Nil
  then show ?case by simp
next
  case (Cons kl ls)
  obtain k l where kl: "kl = (k, l)" by fastforce
  obtain q1 l1 gs where sv: "serve q l = (q1, l1, gs)" by (cases "serve q l")
  obtain q2 ls2 hs where r: "serve_levels P q1 ls = (q2, ls2, hs)" by (cases "serve_levels P q1 ls")
  have same: "\<exists>n. map fst ((k, x) # ls) = drop n (map fst ((k, l) # ls))" for x
    by (rule exI [of _ 0]) simp
  show ?case
  proof (cases "0 < q \<and> P k \<and> l1 = []")
    case True
    with Cons.prems kl sv r Cons.IH [OF r] obtain n where
      "list_all (level_ok d) ls'" "map fst ls' = drop n (map fst ls)" by auto
    then show ?thesis using kl by (intro conjI exI [of _ "Suc n"]) auto
  next
    case False
    with Cons.prems kl sv same [of l1] same [of l] serve_level_ok [OF sv, of d k] show ?thesis
      by (auto split: if_splits)
  qed
qed

lemma serve_levels_left:
  "serve_levels P q ls = (q', ls', fs) \<Longrightarrow> levels_pos ls \<Longrightarrow> 0 < q' \<Longrightarrow> ls' = [] \<or> \<not> P (fst (hd ls'))"
proof (induction ls arbitrary: q q' ls' fs)
  case Nil
  then show ?case by simp
next
  case (Cons kl ls)
  obtain k l where kl: "kl = (k, l)" by fastforce
  obtain q1 l1 gs where sv: "serve q l = (q1, l1, gs)" by (cases "serve q l")
  obtain q2 ls2 hs where r: "serve_levels P q1 ls = (q2, ls2, hs)" by (cases "serve_levels P q1 ls")
  from Cons.prems kl sv r Cons.IH [OF r] serve_exit [OF sv] show ?case
    by (auto split: if_splits)
qed

lemma sorted_wrt_drop_map: "sorted_wrt R xs \<Longrightarrow> sorted_wrt R (drop n xs)"
  by (simp add: sorted_wrt_drop)

lemma level_push_keys: "set (map fst (level_push p x ls)) = insert p (set (map fst ls))"
  by (induction ls rule: level_push.induct [of _ p x]) auto

lemma level_push_ok:
  assumes "levels_ok d ls" "0 < qty x" "price x = p" "oside x = d"
  shows "levels_ok d (level_push p x ls)"
  using assms
proof (induction p x ls rule: level_push.induct)
  case (1 p x)
  then show ?case by (simp add: levels_ok_def level_ok_def)
next
  case (2 p x k level rest)
  then have "levels_ok d rest" by (simp add: levels_ok_def)
  with 2 show ?case
    using level_push_keys [of p x rest]
    by (auto simp: levels_ok_def level_ok_def)
qed

lemma levels_ok_suffix:
  assumes "levels_ok d ls" "list_all (level_ok d) ls'" "map fst ls' = drop n (map fst ls)"
  shows "levels_ok d ls'" "set (map fst ls') \<subseteq> set (map fst ls)"
  using assms set_drop_subset [of n "map fst ls"] by (auto simp: levels_ok_def sorted_wrt_drop)

lemma match_buy_book:
  assumes "match_buy ord ls [] = (ord', ls', fills)" "levels_ok Sell ls"
  shows "levels_ok Sell ls'" "set (map fst ls') \<subseteq> set (map fst ls)" "price ord' = price ord" "oside ord' = oside ord"
    "0 < qty ord' \<Longrightarrow> \<forall>k \<in> set (map fst ls'). price ord < k"
proof -
  obtain q fs where s: "serve_levels (\<lambda>k. k \<le> price ord) (qty ord) ls = (q, ls', fs)" "ord' = ord\<lparr>qty := q\<rparr>"
    using assms match_buy_serve [OF levels_ok_pos, of Sell ls ord "[]"] by (auto split: prod.splits)
  have all: "list_all (level_ok Sell) ls" using assms(2) by (simp add: levels_ok_def)
  from serve_levels_suffix [OF s(1) all] obtain n where
    n: "list_all (level_ok Sell) ls'" "map fst ls' = drop n (map fst ls)" by blast
  show ok: "levels_ok Sell ls'" and "set (map fst ls') \<subseteq> set (map fst ls)"
    using levels_ok_suffix [OF assms(2) n] by auto
  show "price ord' = price ord" "oside ord' = oside ord" using s(2) by simp_all
  assume "0 < qty ord'"
  with s serve_levels_left [OF s(1) levels_ok_pos [OF assms(2)]]
  have "ls' = [] \<or> price ord < fst (hd ls')" by auto
  with ok show "\<forall>k \<in> set (map fst ls'). price ord < k"
    by (cases ls') (auto simp: levels_ok_def)
qed

lemma match_sell_book:
  assumes "match_sell ord ls [] = (ord', ls', fills)" "levels_ok Buy ls"
  shows "levels_ok Buy ls'" "set (map fst ls') \<subseteq> set (map fst ls)" "price ord' = price ord" "oside ord' = oside ord"
    "0 < qty ord' \<Longrightarrow> \<forall>k \<in> set (map fst ls'). k < price ord"
proof -
  have pos: "levels_pos (rev ls)" using levels_ok_pos [OF assms(2)] by simp
  obtain q fs where s: "serve_levels (\<lambda>k. price ord \<le> k) (qty ord) (rev ls) = (q, rev ls', fs)" "ord' = ord\<lparr>qty := q\<rparr>"
    using assms match_sell_down_serve [OF pos, of ord "[]"] by (auto simp: match_sell_def split: prod.splits)
  have all: "list_all (level_ok Buy) (rev ls)" using assms(2) by (simp add: levels_ok_def)
  from serve_levels_suffix [OF s(1) all] obtain n where
    n: "list_all (level_ok Buy) (rev ls')" "map fst (rev ls') = drop n (map fst (rev ls))" by blast
  then have take: "map fst ls' = take (length ls - n) (map fst ls)"
    by (simp add: rev_map [symmetric] drop_rev)
  show ok: "levels_ok Buy ls'"
    using assms(2) n(1) take by (auto simp: levels_ok_def sorted_wrt_take)
  show "set (map fst ls') \<subseteq> set (map fst ls)" unfolding take by (rule set_take_subset)
  show "price ord' = price ord" "oside ord' = oside ord" using s(2) by simp_all
  assume "0 < qty ord'"
  with s serve_levels_left [OF s(1) pos]
  have "ls' = [] \<or> fst (last ls') < price ord" by (auto simp: hd_rev)
  moreover have "k \<le> fst (last ls')" if "k \<in> set (map fst ls')" for k
    using ok that by (cases ls' rule: rev_cases) (auto simp: levels_ok_def sorted_wrt_append)
  ultimately show "\<forall>k \<in> set (map fst ls'). k < price ord" by fastforce
qed

lemma add_order_ok: "book_ok b \<Longrightarrow> book_ok (snd (add_order ord b))"
proof (cases "oside ord")
  case Buy
  assume b: "book_ok b"
  obtain ord' ls' fills where m: "match_buy ord (asks b) [] = (ord', ls', fills)"
    by (cases "match_buy ord (asks b) []")
  from b have "levels_ok Sell (asks b)" by (simp add: book_ok_def)
  note f = match_buy_book [OF m this]
  show ?thesis
  proof (cases "0 < qty ord'")
    case True
    with b Buy f have "levels_ok Buy (level_push (price ord') ord' (bids b))"
      by (intro level_push_ok) (auto simp: book_ok_def)
    with True b Buy m f f(5) [OF True] level_push_keys [of "price ord'" ord' "bids b"] show ?thesis
      by (simp add: add_order_def book_ok_def del: set_map list.set_map) blast
  next
    case False
    with b Buy m f show ?thesis
      by (simp add: add_order_def book_ok_def del: set_map list.set_map) blast
  qed
next
  case Sell
  assume b: "book_ok b"
  obtain ord' ls' fills where m: "match_sell ord (bids b) [] = (ord', ls', fills)"
    by (cases "match_sell ord (bids b) []")
  from b have "levels_ok Buy (bids b)" by (simp add: book_ok_def)
  note f = match_sell_book [OF m this]
  show ?thesis
  proof (cases "0 < qty ord'")
    case True
    with b Sell f have "levels_ok Sell (level_push (price ord') ord' (asks b))"
      by (intro level_push_ok) (auto simp: book_ok_def)
    with True b Sell m f f(5) [OF True] level_push_keys [of "price ord'" ord' "asks b"] show ?thesis
      by (simp add: add_order_def book_ok_def del: set_map list.set_map) blast
  next
    case False
    with b Sell m f show ?thesis
      by (simp add: add_order_def book_ok_def del: set_map list.set_map) blast
  qed
qed

lemma add_orders_ok: "book_ok b \<Longrightarrow> book_ok (snd (add_orders ords b))"
proof (induction ords arbitrary: b)
  case Nil
  then show ?case by simp
next
  case (Cons ord ords)
  have "book_ok (snd (add_order ord b))" using Cons.prems by (rule add_order_ok)
  from Cons.IH [OF this] show ?case by (auto split: prod.split)
qed

lemma empty_book_ok: "book_ok empty_book"
  by (simp add: book_ok_def empty_book_def levels_ok_def)

lemma best_prices_uncrossed:
  "book_ok b \<Longrightarrow> bids b = [] \<or> asks b = [] \<or> best_bid b < best_ask b"
  by (cases "bids b" rule: rev_cases; cases "asks b") (auto simp: best_bid_def best_ask_def book_ok_def)

text \<open>\<open>rbegin\<close> and \<open>begin\<close> are the best prices because the levels are in key order.\<close>

lemma best_prices_extreme:
  assumes "book_ok b"
  shows "x \<in> set (map fst (bids b)) \<Longrightarrow> x \<le> best_bid b" "y \<in> set (map fst (asks b)) \<Longrightarrow> best_ask b \<le> y"
  using assms
  by (cases "bids b" rule: rev_cases; force simp: best_bid_def book_ok_def levels_ok_def sorted_wrt_append)
    (use assms in \<open>cases "asks b"; force simp: best_ask_def book_ok_def levels_ok_def\<close>)

lemma level_push_qty: "resting_qty (level_push p x ls) = resting_qty ls + qty x"
  by (induction p x ls rule: level_push.induct) (auto simp: resting_qty_def)

lemma resting_qty_rev [simp]: "resting_qty (rev ls) = resting_qty ls"
  by (induction ls) (auto simp: resting_qty_def)

lemma match_buy_account:
  assumes "match_buy ord ls [] = (ord', ls', fills)" "levels_ok d ls"
  shows "qty ord' = qty ord - fills_qty fills" "resting_qty ls' = resting_qty ls - fills_qty fills"
proof -
  obtain q fs where s: "serve_levels (\<lambda>k. k \<le> price ord) (qty ord) ls = (q, ls', fs)"
      "ord' = ord\<lparr>qty := q\<rparr>" "fills = map (fill_of ord) fs"
    using assms match_buy_serve [OF levels_ok_pos, of d ls ord "[]"] by (auto split: prod.splits)
  with serve_levels_sum [OF s(1)] show "qty ord' = qty ord - fills_qty fills"
    "resting_qty ls' = resting_qty ls - fills_qty fills" by simp_all
qed

lemma match_sell_account:
  assumes "match_sell ord ls [] = (ord', ls', fills)" "levels_ok d ls"
  shows "qty ord' = qty ord - fills_qty fills" "resting_qty ls' = resting_qty ls - fills_qty fills"
proof -
  have pos: "levels_pos (rev ls)" using levels_ok_pos [OF assms(2)] by simp
  obtain q fs where s: "serve_levels (\<lambda>k. price ord \<le> k) (qty ord) (rev ls) = (q, rev ls', fs)"
      "ord' = ord\<lparr>qty := q\<rparr>" "fills = map (fill_of ord) fs"
    using assms match_sell_down_serve [OF pos, of ord "[]"] by (auto simp: match_sell_def split: prod.splits)
  with serve_levels_sum [OF s(1)] show "qty ord' = qty ord - fills_qty fills"
    "resting_qty ls' = resting_qty ls - fills_qty fills" by simp_all
qed

definition opposite :: "order \<Rightarrow> order_book \<Rightarrow> levels" where
  "opposite ord b = (case oside ord of Buy \<Rightarrow> asks b | Sell \<Rightarrow> rev (bids b))"

definition crosses :: "order \<Rightarrow> int \<Rightarrow> bool" where
  "crosses ord k \<longleftrightarrow> (case oside ord of Buy \<Rightarrow> k \<le> price ord | Sell \<Rightarrow> price ord \<le> k)"

lemma add_order_serves:
  assumes "book_ok b"
  shows "(case serve (qty ord) (reached (crosses ord) (opposite ord b)) of (q, left, fs) \<Rightarrow>
     fst (add_order ord b) = map (fill_of ord) fs \<and>
     concat (map snd (opposite ord (snd (add_order ord b)))) =
       left @ concat (map snd (dropWhile (\<lambda>(k, l). crosses ord k) (opposite ord b))))"
proof (cases "oside ord")
  case Buy
  from assms have pos: "levels_pos (asks b)" by (auto simp: book_ok_def intro: levels_ok_pos)
  have "crosses ord = (\<lambda>k. k \<le> price ord)" using Buy by (auto simp: crosses_def)
  then show ?thesis
    using Buy match_buy_serve [OF pos, of ord "[]"] serve_levels_reached [of "crosses ord" "qty ord" "asks b"]
    by (cases "serve_levels (\<lambda>k. k \<le> price ord) (qty ord) (asks b)") (fastforce simp: opposite_def add_order_def)
next
  case Sell
  from assms have pos: "levels_pos (rev (bids b))" by (auto simp: book_ok_def dest: levels_ok_pos)
  have "crosses ord = (\<lambda>k. price ord \<le> k)" using Sell by (auto simp: crosses_def)
  then show ?thesis
    using Sell match_sell_down_serve [OF pos, of ord "[]"] serve_levels_reached [of "crosses ord" "qty ord" "rev (bids b)"]
    by (cases "serve_levels (\<lambda>k. price ord \<le> k) (qty ord) (rev (bids b))")
      (fastforce simp: opposite_def add_order_def match_sell_def)
qed

lemma add_order_account:
  assumes "book_ok b" "add_order ord b = (fills, b')"
  shows "resting_qty (bids b') + resting_qty (asks b') =
      resting_qty (bids b) + resting_qty (asks b) - fills_qty fills + max 0 (qty ord - fills_qty fills)"
proof (cases "oside ord")
  case Buy
  obtain ord' ls' fs where m: "match_buy ord (asks b) [] = (ord', ls', fs)"
    by (cases "match_buy ord (asks b) []")
  with assms Buy match_buy_account [OF m] show ?thesis
    by (auto simp: add_order_def book_ok_def level_push_qty split: if_splits)
next
  case Sell
  obtain ord' ls' fs where m: "match_sell ord (bids b) [] = (ord', ls', fs)"
    by (cases "match_sell ord (bids b) []")
  with assms Sell match_sell_account [OF m] show ?thesis
    by (auto simp: add_order_def book_ok_def level_push_qty split: if_splits)
qed

lemma reached_pos: "book_ok b \<Longrightarrow> all_pos (reached (crosses ord) (opposite ord b))"
  by (cases "oside ord")
    (fastforce simp: reached_def opposite_def book_ok_def dest!: levels_ok_pos set_takeWhileD simp: levels_pos_def)+

subsection \<open>Properties\<close>

text \<open>C1: The order book stays well formed under every sequence of orders, whatever their
  quantities: both sides are sorted by price without repeated or empty levels, every resting
  order has a positive quantity and lies on its own side at its own price, no two opposite
  orders could still trade, and \<open>best_bid\<close> and \<open>best_ask\<close> are the extreme prices of their sides.\<close>

theorem order_book_invariant:
  "book_ok (snd (add_orders ords empty_book)) \<and>
   (let b = snd (add_orders ords empty_book) in
     (bids b = [] \<or> asks b = [] \<or> best_bid b < best_ask b) \<and>
     list_all (\<lambda>p. p \<le> best_bid b) (map fst (bids b)) \<and> list_all (\<lambda>p. best_ask b \<le> p) (map fst (asks b)))"
proof -
  have b: "book_ok (snd (add_orders ords empty_book))" by (rule add_orders_ok [OF empty_book_ok])
  show ?thesis
    using b best_prices_uncrossed [OF b] best_prices_extreme [OF b]
    by (simp add: Let_def list_all_iff)
qed


text \<open>Conservation. On a well-formed book an order changes the resting quantity by the
  fills it takes out and by its own rest, no more and no less; and every fill is positive.\<close>

theorem order_conservation:
  assumes "book_ok b" "add_order ord b = (fills, b')"
  shows "resting_qty (bids b') + resting_qty (asks b') + fills_qty fills =
      resting_qty (bids b) + resting_qty (asks b) + max 0 (qty ord - fills_qty fills) \<and>
    list_all (\<lambda>f. 0 < fqty f \<and> order_id f = oid ord) fills"
proof -
  from assms(1) have pos: "all_pos (reached (crosses ord) (opposite ord b))"
    by (rule reached_pos)
  obtain q left fs where sv: "serve (qty ord) (reached (crosses ord) (opposite ord b)) = (q, left, fs)"
    by (cases "serve (qty ord) (reached (crosses ord) (opposite ord b))")
  with add_order_serves [OF assms(1), of ord] assms(2) have "fills = map (fill_of ord) fs" by simp
  with serve_pos [OF sv pos] have "list_all (\<lambda>f. 0 < fqty f \<and> order_id f = oid ord) fills"
    by (auto simp: list_all_iff fill_of_def)
  with add_order_account [OF assms] show ?thesis by simp
qed

lemma order_conservation_witness:
  "fst (add_order \<lparr>oid = 2, oside = Sell, price = 9, qty = 4\<rparr> (snd (add_order \<lparr>oid = 1, oside = Buy, price = 10, qty = 3\<rparr> empty_book)))
     = [\<lparr>order_id = 2, match_id = 1, fprice = 10, fqty = 3\<rparr>] \<and>
   resting_qty (asks (snd (add_order \<lparr>oid = 2, oside = Sell, price = 9, qty = 4\<rparr>
     (snd (add_order \<lparr>oid = 1, oside = Buy, price = 10, qty = 3\<rparr> empty_book))))) = 1"
proof -
  let ?b = "snd (add_order \<lparr>oid = 1, oside = Buy, price = 10, qty = 3\<rparr> empty_book)"
  let ?s = "\<lparr>oid = 2, oside = Sell, price = 9, qty = 4\<rparr>"
  have ok: "book_ok ?b" by (rule add_order_ok [OF empty_book_ok])
  have run: "fst (add_order ?s ?b) = [\<lparr>order_id = 2, match_id = 1, fprice = 10, fqty = 3\<rparr>]"
    "bids (snd (add_order ?s ?b)) = []" "resting_qty (bids ?b) = 3" "asks ?b = []"
    by (simp_all add: add_order_def match_sell_def empty_book_def match_sell_down.simps match_level.simps
      match_buy.simps Let_def resting_qty_def)
  with order_conservation [OF ok surjective_pairing [of "add_order ?s ?b"]]
  show ?thesis by (simp add: resting_qty_def fills_qty_def)
qed

end
