(* ===== verification/Pools.thy ===== *)
theory Pools
  imports Prelude
begin

section \<open>Free-list allocators\<close>

text \<open>
  \<open>FixedSizePool\<close> (\<open>topics/memory/fixed_size_memory_pool.cpp\<close>), \<open>SlabSlotPool\<close>
  (\<open>slab_allocator.cpp\<close>) and \<open>MemoryPool\<close> (\<open>extras/latency/common.hpp\<close>) keep their free blocks
  in a list that is threaded through the blocks themselves: the first word of a free block is
  the address of the next one, and the client of an allocated block overwrites it. The model
  keeps that word in an explicit store \<open>nxt\<close> from block addresses, so a client's write, a
  double free and an interleaved access show. A block's address is its index among all blocks
  allocated so far.

  The locale \<open>allocator\<close> is the contract of the three, and \<open>pool_run\<close> a client that allocates,
  writes and frees in any order: no block is ever handed out twice.
\<close>

subsection \<open>The contract\<close>

datatype pool_op = PAlloc | PFree nat | PWrite nat "nat option"

locale allocator =
  fixes alloc :: "'s \<Rightarrow> nat option \<times> 's"
    and free :: "nat \<Rightarrow> 's \<Rightarrow> 's"
    and scribble :: "nat \<Rightarrow> nat option \<Rightarrow> 's \<Rightarrow> 's"
    and avail :: "'s \<Rightarrow> nat list"
    and owned :: "'s \<Rightarrow> nat set"
    and ok :: "'s \<Rightarrow> bool"
  assumes ok_avail: "ok s \<Longrightarrow> distinct (avail s) \<and> set (avail s) \<subseteq> owned s"
    and alloc_Some: "ok s \<Longrightarrow> alloc s = (Some a, s') \<Longrightarrow> ok s' \<and> a \<notin> set (avail s') \<and> owned s \<subseteq> owned s' \<and>
      insert a (set (avail s')) = set (avail s) \<union> (owned s' - owned s)"
    and alloc_None: "ok s \<Longrightarrow> alloc s = (None, s') \<Longrightarrow> s' = s \<and> avail s = []"
    and free_avail: "ok s \<Longrightarrow> a \<in> owned s \<Longrightarrow> a \<notin> set (avail s) \<Longrightarrow>
      ok (free a s) \<and> avail (free a s) = a # avail s \<and> owned (free a s) = owned s"
    and scribble_avail: "ok s \<Longrightarrow> a \<in> owned s \<Longrightarrow> a \<notin> set (avail s) \<Longrightarrow>
      ok (scribble a v s) \<and> avail (scribble a v s) = avail s \<and> owned (scribble a v s) = owned s"

text \<open>A client holds the blocks it was given, and frees or writes the \<open>n\<close>-th of them.\<close>

fun pool_step :: "('s \<Rightarrow> nat option \<times> 's) \<Rightarrow> (nat \<Rightarrow> 's \<Rightarrow> 's) \<Rightarrow> (nat \<Rightarrow> nat option \<Rightarrow> 's \<Rightarrow> 's) \<Rightarrow>
    pool_op \<Rightarrow> nat list \<times> 's \<Rightarrow> nat list \<times> 's" where
  "pool_step alloc free scribble PAlloc (held, s) =
     (case alloc s of (Some a, s') \<Rightarrow> (a # held, s') | (None, s') \<Rightarrow> (held, s'))"
| "pool_step alloc free scribble (PFree n) (held, s) =
     (if n < length held then (take n held @ drop (Suc n) held, free (held ! n) s) else (held, s))"
| "pool_step alloc free scribble (PWrite n v) (held, s) =
     (if n < length held then (held, scribble (held ! n) v s) else (held, s))"

definition pool_run :: "('s \<Rightarrow> nat option \<times> 's) \<Rightarrow> (nat \<Rightarrow> 's \<Rightarrow> 's) \<Rightarrow> (nat \<Rightarrow> nat option \<Rightarrow> 's \<Rightarrow> 's) \<Rightarrow>
    pool_op list \<Rightarrow> 's \<Rightarrow> nat list \<times> 's" where
  "pool_run alloc free scribble ops s = fold (pool_step alloc free scribble) ops ([], s)"

context allocator begin

text \<open>Held and free blocks are distinct, and together they are all blocks.\<close>

definition partitioned :: "nat list \<times> 's \<Rightarrow> bool" where
  "partitioned hs \<longleftrightarrow> ok (snd hs) \<and> distinct (fst hs @ avail (snd hs)) \<and>
     set (fst hs) \<union> set (avail (snd hs)) = owned (snd hs)"

lemma partitionedD:
  assumes "partitioned (held, s)"
  shows "ok s" "distinct held" "set held \<inter> set (avail s) = {}" "set held \<union> set (avail s) = owned s"
  using assms by (simp_all add: partitioned_def)

lemma partitioned_alloc:
  assumes "partitioned (held, s)" "alloc s = (Some a, s')"
  shows "partitioned (a # held, s')"
proof -
  note p = partitionedD [OF assms(1)]
  have a: "ok s'" "a \<notin> set (avail s')" "owned s \<subseteq> owned s'"
    "insert a (set (avail s')) = set (avail s) \<union> (owned s' - owned s)" using alloc_Some [OF p(1) assms(2)] by blast+
  have "set held \<subseteq> owned s" using p(4) by blast
  then have "set held \<inter> insert a (set (avail s')) = {}" using a(4) p(3) by blast
  moreover have "set held \<union> insert a (set (avail s')) = owned s'" using a(3,4) p(4) by blast
  ultimately show ?thesis using a(1,2) p(2) ok_avail [OF a(1)] unfolding partitioned_def by auto
qed

lemma partitioned_free:
  assumes "partitioned (held, s)" "n < length held"
  shows "partitioned (take n held @ drop (Suc n) held, free (held ! n) s)"
proof -
  note p = partitionedD [OF assms(1)]
  have split: "held = take n held @ held ! n # drop (Suc n) held" using assms(2) by (rule id_take_nth_drop)
  define a where "a = held ! n"
  define rest where "rest = take n held @ drop (Suc n) held"
  have "distinct (take n held @ a # drop (Suc n) held)" using p(2) split by (simp add: a_def)
  then have r: "distinct rest" "a \<notin> set rest" by (auto simp: rest_def)
  have h: "set held = insert a (set rest)" by (subst split) (auto simp: a_def rest_def)
  then have "a \<in> owned s" "a \<notin> set (avail s)" using p(3,4) by blast+
  from free_avail [OF p(1) this] have "ok (free a s)" "avail (free a s) = a # avail s" "owned (free a s) = owned s"
    by blast+
  then have "partitioned (rest, free a s)" using h r p ok_avail [OF p(1)] unfolding partitioned_def by auto
  then show ?thesis by (simp add: a_def rest_def)
qed

lemma partitioned_step:
  assumes "partitioned hs"
  shows "partitioned (pool_step alloc free scribble op hs)"
proof -
  obtain held s where hs: "hs = (held, s)" by (cases hs)
  note p = assms [unfolded hs]
  show ?thesis
  proof (cases op)
    case PAlloc
    obtain r s' where al: "alloc s = (r, s')" by (cases "alloc s")
    show ?thesis
    proof (cases r)
      case None
      with alloc_None [OF partitionedD(1) [OF p]] al p PAlloc hs show ?thesis by simp
    next
      case (Some a)
      with partitioned_alloc [OF p, of a s'] al PAlloc hs show ?thesis by simp
    qed
  next
    case (PFree n)
    with partitioned_free [OF p, of n] p hs show ?thesis by simp
  next
    case (PWrite n v)
    show ?thesis
    proof (cases "n < length held")
      case True
      then have "held ! n \<in> owned s" "held ! n \<notin> set (avail s)" using partitionedD(3,4) [OF p] nth_mem by blast+
      from scribble_avail [OF partitionedD(1) [OF p] this, of v] PWrite True p hs show ?thesis
        by (simp add: partitioned_def)
    qed (use PWrite p hs in simp)
  qed
qed

lemma partitioned_run:
  assumes "ok s" "set (avail s) = owned s"
  shows "partitioned (pool_run alloc free scribble ops s)"
proof -
  have "partitioned (fold (pool_step alloc free scribble) ops hs)" if "partitioned hs" for hs
    using that
  proof (induction ops arbitrary: hs)
    case (Cons op ops)
    from Cons.IH [OF partitioned_step [OF Cons.prems]] show ?case by simp
  qed simp
  moreover have "partitioned ([], s)" using assms ok_avail by (simp add: partitioned_def)
  ultimately show ?thesis by (simp add: pool_run_def)
qed

text \<open>The blocks a client holds are pairwise different, whatever it did.\<close>

lemma held_distinct:
  assumes "ok s" "set (avail s) = owned s"
  shows "distinct (fst (pool_run alloc free scribble ops s))"
  using partitioned_run [OF assms, of ops] by (auto simp: partitioned_def)

end

subsection \<open>Chains of free blocks\<close>

text \<open>\<open>chain nxt p xs\<close>: following \<open>nxt\<close> from \<open>p\<close> visits the blocks \<open>xs\<close> and ends in null.\<close>

fun chain :: "(nat \<Rightarrow> nat option) \<Rightarrow> nat option \<Rightarrow> nat list \<Rightarrow> bool" where
  "chain nxt p [] \<longleftrightarrow> p = None"
| "chain nxt p (x # xs) \<longleftrightarrow> p = Some x \<and> chain nxt (nxt x) xs"

lemma chain_det: "chain nxt p xs \<Longrightarrow> chain nxt p ys \<Longrightarrow> xs = ys"
proof (induction xs arbitrary: p ys)
  case Nil
  then show ?case by (cases ys) auto
next
  case (Cons x xs)
  then show ?case by (cases ys) auto
qed

lemma chain_frame: "a \<notin> set xs \<Longrightarrow> chain (nxt(a := v)) p xs = chain nxt p xs"
  by (induction xs arbitrary: p) auto

lemma chain_cong: "(\<And>x. x \<in> set xs \<Longrightarrow> m x = m' x) \<Longrightarrow> chain m p xs = chain m' p xs"
  by (induction xs arbitrary: p) auto

text \<open>The blocks of a chain, with a bound on its length.\<close>

fun walk :: "nat \<Rightarrow> (nat \<Rightarrow> nat option) \<Rightarrow> nat option \<Rightarrow> nat list" where
  "walk 0 nxt p = []"
| "walk (Suc n) nxt None = []"
| "walk (Suc n) nxt (Some a) = a # walk n nxt (nxt a)"

lemma walk_chain: "chain nxt p xs \<Longrightarrow> length xs \<le> n \<Longrightarrow> walk n nxt p = xs"
proof (induction xs arbitrary: n p)
  case Nil
  then show ?case by (cases n) auto
next
  case (Cons x xs)
  then show ?case by (cases n) auto
qed

text \<open>The free list of a store with blocks \<open>0, ..., cap - 1\<close>.\<close>

definition free_list_ok :: "nat \<Rightarrow> (nat \<Rightarrow> nat option) \<Rightarrow> nat option \<Rightarrow> nat list \<Rightarrow> bool" where
  "free_list_ok cap nxt p xs \<longleftrightarrow> chain nxt p xs \<and> distinct xs \<and> set xs \<subseteq> {..<cap}"

lemma free_list_walk: "free_list_ok cap nxt p xs \<Longrightarrow> walk cap nxt p = xs"
proof -
  assume ok: "free_list_ok cap nxt p xs"
  then have "card (set xs) \<le> card {..<cap}" unfolding free_list_ok_def by (intro card_mono) auto
  with ok have "length xs \<le> cap" by (simp add: free_list_ok_def distinct_card)
  with ok show ?thesis by (simp add: walk_chain free_list_ok_def)
qed

lemma free_list_take:
  "free_list_ok cap nxt (Some a) xs \<Longrightarrow> \<exists>ys. xs = a # ys \<and> free_list_ok cap nxt (nxt a) ys"
  by (cases xs) (auto simp: free_list_ok_def)

lemma free_list_put:
  "free_list_ok cap nxt p xs \<Longrightarrow> a < cap \<Longrightarrow> a \<notin> set xs \<Longrightarrow> free_list_ok cap (nxt(a := p)) (Some a) (a # xs)"
  by (simp add: free_list_ok_def chain_frame)

lemma free_list_write:
  "free_list_ok cap nxt p xs \<Longrightarrow> a \<notin> set xs \<Longrightarrow> free_list_ok cap (nxt(a := v)) p xs"
  by (simp add: free_list_ok_def chain_frame)

lemma free_list_nil: "free_list_ok cap nxt None xs \<longleftrightarrow> xs = []"
  by (cases xs) (auto simp: free_list_ok_def)

text \<open>The loop that links \<open>n\<close> fresh blocks from \<open>base\<close> to each other, and the last to \<open>p\<close>.\<close>

definition link_blocks :: "nat \<Rightarrow> nat \<Rightarrow> nat option \<Rightarrow> (nat \<Rightarrow> nat option) \<Rightarrow> (nat \<Rightarrow> nat option)" where
  "link_blocks base n p nxt =
     (fold (\<lambda>i m. m(base + i := Some (base + (i + 1)))) [0..<n - 1] nxt)(base + (n - 1) := p)"

lemma link_fold:
  "fold (\<lambda>i m. m(base + i := Some (base + (i + 1)))) [0..<k] nxt =
   (\<lambda>a. if base \<le> a \<and> a < base + k then Some (Suc a) else nxt a)"
  by (induction k) (auto simp: fun_eq_iff)

lemma link_blocks_chain:
  assumes "chain nxt p xs" "set xs \<subseteq> {..<base}" "0 < n"
  shows "chain (link_blocks base n p nxt) (Some base) ([base..<base + n] @ xs)"
proof -
  define m where "m = link_blocks base n p nxt"
  have m: "m a = (if base \<le> a \<and> a + 1 < base + n then Some (Suc a) else if a + 1 = base + n then p else nxt a)" for a
    using assms(3) unfolding m_def link_blocks_def link_fold by auto
  have old: "chain m p xs"
  proof -
    have "m x = nxt x" if "x \<in> set xs" for x
    proof -
      have "x < base" using that assms(2) by auto
      then show ?thesis using assms(3) by (simp add: m)
    qed
    then show ?thesis using assms(1) chain_cong [of xs m nxt p] by simp
  qed
  have "chain m (Some a) ([a..<base + n] @ xs)" if "base \<le> a" "a < base + n" for a
    using that
  proof (induction "base + n - a" arbitrary: a)
    case (Suc d)
    show ?case
    proof (cases "Suc a = base + n")
      case True
      with Suc.prems old m [of a] show ?thesis by (simp add: upt_conv_Cons)
    next
      case False
      with Suc.prems have "Suc a < base + n" by simp
      moreover have "chain m (Some (Suc a)) ([Suc a..<base + n] @ xs)"
        using Suc \<open>Suc a < base + n\<close> by (intro Suc.hyps(1)) auto
      ultimately show ?thesis using Suc.prems m [of a] by (simp add: upt_conv_Cons)
    qed
  qed simp
  from this [of base] assms(3) show ?thesis by (simp add: m_def)
qed

lemma free_list_grow:
  assumes "free_list_ok cap nxt p xs" "0 < n"
  shows "free_list_ok (cap + n) (link_blocks cap n p nxt) (Some cap) ([cap..<cap + n] @ xs)"
  using assms link_blocks_chain [of nxt p xs cap n] unfolding free_list_ok_def by auto

subsection \<open>\<open>FixedSizePool\<close>\<close>

record fpool =
  fp_next :: "nat \<Rightarrow> nat option"
  fp_free_list :: "nat option"
  fp_blocks :: nat

definition fp_grow :: "nat \<Rightarrow> fpool \<Rightarrow> fpool" where
  "fp_grow BlockSize s =
     (let base = fp_blocks s * BlockSize
      in s\<lparr>fp_blocks := fp_blocks s + 1, fp_next := link_blocks base BlockSize (fp_free_list s) (fp_next s),
           fp_free_list := Some base\<rparr>)"

definition fp_new :: "nat \<Rightarrow> fpool" where
  "fp_new BlockSize = fp_grow BlockSize \<lparr>fp_next = (\<lambda>_. None), fp_free_list = None, fp_blocks = 0\<rparr>"

text \<open>After \<open>grow\<close> the list is not empty, so \<open>allocate\<close> always returns a block.\<close>

definition fp_allocate :: "nat \<Rightarrow> fpool \<Rightarrow> nat option \<times> fpool" where
  "fp_allocate BlockSize s =
     (let s = (if fp_free_list s = None then fp_grow BlockSize s else s)
      in case fp_free_list s of None \<Rightarrow> (None, s)
         | Some p \<Rightarrow> (Some p, s\<lparr>fp_free_list := fp_next s p\<rparr>))"

definition fp_deallocate :: "nat option \<Rightarrow> fpool \<Rightarrow> fpool" where
  "fp_deallocate ptr s = (case ptr of None \<Rightarrow> s
     | Some p \<Rightarrow> s\<lparr>fp_next := (fp_next s)(p := fp_free_list s), fp_free_list := Some p\<rparr>)"

text \<open>A client writing to the storage of a block, which shares its bytes with \<open>next\<close>.\<close>

definition fp_write :: "nat \<Rightarrow> nat option \<Rightarrow> fpool \<Rightarrow> fpool" where
  "fp_write a v s = s\<lparr>fp_next := (fp_next s)(a := v)\<rparr>"

definition fp_total :: "nat \<Rightarrow> fpool \<Rightarrow> nat" where
  "fp_total n s = fp_blocks s * n"

definition fp_avail :: "nat \<Rightarrow> fpool \<Rightarrow> nat list" where
  "fp_avail n s = walk (fp_total n s) (fp_next s) (fp_free_list s)"

definition fp_ok :: "nat \<Rightarrow> fpool \<Rightarrow> bool" where
  "fp_ok n s \<longleftrightarrow> free_list_ok (fp_total n s) (fp_next s) (fp_free_list s) (fp_avail n s)"

lemma fp_okI:
  "free_list_ok (fp_total n s) (fp_next s) (fp_free_list s) xs \<Longrightarrow> fp_ok n s \<and> fp_avail n s = xs"
  by (simp add: fp_ok_def fp_avail_def free_list_walk)

lemma fp_grow_ok:
  assumes "fp_ok n s" "0 < n"
  shows "fp_ok n (fp_grow n s) \<and> fp_avail n (fp_grow n s) = [fp_total n s..<fp_total n s + n] @ fp_avail n s"
    "fp_total n (fp_grow n s) = fp_total n s + n"
    "fp_free_list (fp_grow n s) \<noteq> None"
proof -
  show tot: "fp_total n (fp_grow n s) = fp_total n s + n" by (simp add: fp_total_def fp_grow_def Let_def)
  show "fp_free_list (fp_grow n s) \<noteq> None" by (simp add: fp_grow_def Let_def)
  have "free_list_ok (fp_total n (fp_grow n s)) (fp_next (fp_grow n s)) (fp_free_list (fp_grow n s))
    ([fp_total n s..<fp_total n s + n] @ fp_avail n s)"
    using free_list_grow [OF assms(1) [unfolded fp_ok_def] assms(2)] unfolding tot
    by (simp add: fp_grow_def Let_def fp_total_def)
  then show "fp_ok n (fp_grow n s) \<and> fp_avail n (fp_grow n s) = [fp_total n s..<fp_total n s + n] @ fp_avail n s"
    by (rule fp_okI)
qed

lemma fp_new_ok: "0 < n \<Longrightarrow> fp_ok n (fp_new n) \<and> fp_avail n (fp_new n) = [0..<n] \<and> fp_total n (fp_new n) = n"
proof -
  assume n: "0 < n"
  let ?s = "\<lparr>fp_next = (\<lambda>_. None), fp_free_list = None, fp_blocks = 0\<rparr>"
  have "free_list_ok (fp_total n ?s) (fp_next ?s) (fp_free_list ?s) []" by (simp add: free_list_nil)
  from fp_okI [OF this] have "fp_ok n ?s" "fp_avail n ?s = []" by simp_all
  with fp_grow_ok [OF this(1) n] show ?thesis by (simp add: fp_new_def fp_total_def)
qed

text \<open>Taking the head of a list that is not empty.\<close>

lemma fp_take:
  assumes "fp_ok n s" "fp_free_list s = Some p"
  shows "fp_ok n (s\<lparr>fp_free_list := fp_next s p\<rparr>) \<and> fp_avail n s = p # fp_avail n (s\<lparr>fp_free_list := fp_next s p\<rparr>)"
proof -
  from assms free_list_take [of "fp_total n s" "fp_next s" p "fp_avail n s"] obtain ys where
    ys: "fp_avail n s = p # ys" "free_list_ok (fp_total n s) (fp_next s) (fp_next s p) ys"
    by (auto simp: fp_ok_def)
  from ys(2) have "free_list_ok (fp_total n (s\<lparr>fp_free_list := fp_next s p\<rparr>)) (fp_next (s\<lparr>fp_free_list := fp_next s p\<rparr>))
    (fp_free_list (s\<lparr>fp_free_list := fp_next s p\<rparr>)) ys" by (simp add: fp_total_def)
  from fp_okI [OF this] ys(1) show ?thesis by simp
qed

lemma fp_allocate_ok:
  assumes "fp_ok n s" "0 < n"
  obtains a s' where "fp_allocate n s = (Some a, s')" "fp_ok n s'"
    "a # fp_avail n s' = (if fp_free_list s = None then [fp_total n s..<fp_total n s + n] @ fp_avail n s else fp_avail n s)"
    "fp_total n s' = (if fp_free_list s = None then fp_total n s + n else fp_total n s)"
proof (cases "fp_free_list s")
  case None
  note g = fp_grow_ok [OF assms]
  then obtain p where p: "fp_free_list (fp_grow n s) = Some p" by blast
  from fp_take [OF conjunct1 [OF g(1)] p] g None p show thesis
    by (intro that [of p "fp_grow n s\<lparr>fp_free_list := fp_next (fp_grow n s) p\<rparr>"])
      (simp_all add: fp_allocate_def fp_total_def Let_def)
next
  case (Some p)
  from fp_take [OF assms(1) Some] Some show thesis
    by (intro that [of p "s\<lparr>fp_free_list := fp_next s p\<rparr>"]) (simp_all add: fp_allocate_def fp_total_def)
qed

interpretation fp: allocator "fp_allocate (Suc n)" "\<lambda>a. fp_deallocate (Some a)" fp_write "fp_avail (Suc n)"
  "\<lambda>s. {..<fp_total (Suc n) s}" "fp_ok (Suc n)" for n
proof unfold_locales
  fix s s' a v
  assume ok: "fp_ok (Suc n) s"
  then have fl: "free_list_ok (fp_total (Suc n) s) (fp_next s) (fp_free_list s) (fp_avail (Suc n) s)"
    by (simp add: fp_ok_def)
  then show "distinct (fp_avail (Suc n) s) \<and> set (fp_avail (Suc n) s) \<subseteq> {..<fp_total (Suc n) s}"
    by (simp add: free_list_ok_def)
  obtain b t where b: "fp_allocate (Suc n) s = (Some b, t)" "fp_ok (Suc n) t"
    "b # fp_avail (Suc n) t = (if fp_free_list s = None
      then [fp_total (Suc n) s..<fp_total (Suc n) s + Suc n] @ fp_avail (Suc n) s else fp_avail (Suc n) s)"
    "fp_total (Suc n) t = (if fp_free_list s = None then fp_total (Suc n) s + Suc n else fp_total (Suc n) s)"
    using fp_allocate_ok [OF ok] by blast
  show "fp_allocate (Suc n) s = (None, s') \<Longrightarrow> s' = s \<and> fp_avail (Suc n) s = []" using b(1) by simp
  assume "fp_allocate (Suc n) s = (Some a, s')"
  with b have e: "a # fp_avail (Suc n) s' = (if fp_free_list s = None
      then [fp_total (Suc n) s..<fp_total (Suc n) s + Suc n] @ fp_avail (Suc n) s else fp_avail (Suc n) s)"
    and tot: "fp_total (Suc n) s' = (if fp_free_list s = None then fp_total (Suc n) s + Suc n else fp_total (Suc n) s)"
    and ok': "fp_ok (Suc n) s'" by simp_all
  have d: "distinct (a # fp_avail (Suc n) s')"
    using fl unfolding e by (auto simp: free_list_ok_def)
  have "insert a (set (fp_avail (Suc n) s')) = set (a # fp_avail (Suc n) s')" by simp
  also have "\<dots> = set (fp_avail (Suc n) s) \<union> ({..<fp_total (Suc n) s'} - {..<fp_total (Suc n) s})"
    unfolding e tot by auto
  finally show "fp_ok (Suc n) s' \<and> a \<notin> set (fp_avail (Suc n) s') \<and> {..<fp_total (Suc n) s} \<subseteq> {..<fp_total (Suc n) s'} \<and>
      insert a (set (fp_avail (Suc n) s')) = set (fp_avail (Suc n) s) \<union> ({..<fp_total (Suc n) s'} - {..<fp_total (Suc n) s})"
    using ok' d tot by auto
next
  fix s a v
  assume ok: "fp_ok (Suc n) s" and a: "a \<in> {..<fp_total (Suc n) s}" "a \<notin> set (fp_avail (Suc n) s)"
  have fl: "free_list_ok (fp_total (Suc n) s) (fp_next s) (fp_free_list s) (fp_avail (Suc n) s)"
    using ok by (simp add: fp_ok_def)
  have tot: "fp_total (Suc n) (fp_deallocate (Some a) s) = fp_total (Suc n) s"
    "fp_total (Suc n) (fp_write a v s) = fp_total (Suc n) s"
    by (simp_all add: fp_deallocate_def fp_write_def fp_total_def)
  have "free_list_ok (fp_total (Suc n) (fp_deallocate (Some a) s)) (fp_next (fp_deallocate (Some a) s))
      (fp_free_list (fp_deallocate (Some a) s)) (a # fp_avail (Suc n) s)"
    using free_list_put [OF fl] a unfolding tot by (simp add: fp_deallocate_def)
  from fp_okI [OF this] show "fp_ok (Suc n) (fp_deallocate (Some a) s) \<and>
      fp_avail (Suc n) (fp_deallocate (Some a) s) = a # fp_avail (Suc n) s \<and>
      {..<fp_total (Suc n) (fp_deallocate (Some a) s)} = {..<fp_total (Suc n) s}" by (simp add: tot)
  have "free_list_ok (fp_total (Suc n) (fp_write a v s)) (fp_next (fp_write a v s))
      (fp_free_list (fp_write a v s)) (fp_avail (Suc n) s)"
    using free_list_write [OF fl a(2), of v] unfolding tot by (simp add: fp_write_def)
  from fp_okI [OF this] show "fp_ok (Suc n) (fp_write a v s) \<and> fp_avail (Suc n) (fp_write a v s) = fp_avail (Suc n) s \<and>
      {..<fp_total (Suc n) (fp_write a v s)} = {..<fp_total (Suc n) s}" by (simp add: tot)
qed

subsection \<open>\<open>PoolAllocator\<close>\<close>

datatype alloc_error = bad_alloc

definition pa_allocate :: "nat \<Rightarrow> nat \<Rightarrow> fpool \<Rightarrow> alloc_error + (nat option \<times> fpool)" where
  "pa_allocate BlockSize n s = (if n \<noteq> 1 then Inl bad_alloc else Inr (fp_allocate BlockSize s))"

definition pa_deallocate :: "nat option \<Rightarrow> nat \<Rightarrow> fpool \<Rightarrow> fpool" where
  "pa_deallocate p n s = fp_deallocate p s"

subsection \<open>\<open>SlabSlotPool\<close>\<close>

text \<open>The same structure with blocks of 256 slots; \<open>grow\<close> registers the block last.\<close>

definition sp_grow :: "fpool \<Rightarrow> fpool" where
  "sp_grow s =
     (let N = 256; block = fp_blocks s * N;
          s = s\<lparr>fp_next := link_blocks block N (fp_free_list s) (fp_next s)\<rparr>;
          s = s\<lparr>fp_free_list := Some block\<rparr>
      in s\<lparr>fp_blocks := fp_blocks s + 1\<rparr>)"

definition sp_new :: fpool where
  "sp_new = \<lparr>fp_next = (\<lambda>_. None), fp_free_list = None, fp_blocks = 0\<rparr>"

definition sp_allocate :: "fpool \<Rightarrow> nat option \<times> fpool" where
  "sp_allocate s =
     (let s = (if fp_free_list s = None then sp_grow s else s)
      in case fp_free_list s of None \<Rightarrow> (None, s)
         | Some p \<Rightarrow> (Some p, s\<lparr>fp_free_list := fp_next s p\<rparr>))"

definition sp_deallocate :: "nat option \<Rightarrow> fpool \<Rightarrow> fpool" where
  "sp_deallocate ptr s = (case ptr of None \<Rightarrow> s
     | Some p \<Rightarrow> s\<lparr>fp_next := (fp_next s)(p := fp_free_list s), fp_free_list := Some p\<rparr>)"

lemma sp_is_fp: "sp_allocate = fp_allocate (Suc 255)" "sp_deallocate = fp_deallocate"
proof -
  have g: "sp_grow s = fp_grow (Suc 255) s" for s by (simp add: sp_grow_def fp_grow_def Let_def)
  show "sp_allocate = fp_allocate (Suc 255)" unfolding sp_allocate_def fp_allocate_def g by (rule refl)
  show "sp_deallocate = fp_deallocate" by (simp add: fun_eq_iff sp_deallocate_def fp_deallocate_def)
qed

interpretation sp: allocator sp_allocate "\<lambda>a. sp_deallocate (Some a)" fp_write "fp_avail (Suc 255)"
  "\<lambda>s. {..<fp_total (Suc 255) s}" "fp_ok (Suc 255)"
  unfolding sp_is_fp by (rule fp.allocator_axioms)

lemma sp_new_ok: "fp_ok (Suc 255) sp_new \<and> fp_avail (Suc 255) sp_new = [] \<and> fp_total (Suc 255) sp_new = 0"
proof -
  have "free_list_ok (fp_total (Suc 255) sp_new) (fp_next sp_new) (fp_free_list sp_new) []"
    by (simp add: sp_new_def free_list_nil)
  from fp_okI [OF this] show ?thesis by (simp add: fp_total_def sp_new_def)
qed

subsection \<open>\<open>MemoryPool\<close>\<close>

text \<open>A fixed number of blocks; \<open>alloc\<close> returns null when none is free.\<close>

record mpool =
  mp_next :: "nat \<Rightarrow> nat option"
  mp_free_head :: "nat option"

definition mp_new :: "nat \<Rightarrow> mpool" where
  "mp_new Capacity = \<lparr>mp_next = link_blocks 0 Capacity None (\<lambda>_. None), mp_free_head = Some 0\<rparr>"

definition mp_alloc :: "mpool \<Rightarrow> nat option \<times> mpool" where
  "mp_alloc s = (case mp_free_head s of None \<Rightarrow> (None, s)
     | Some blk \<Rightarrow> (Some blk, s\<lparr>mp_free_head := mp_next s blk\<rparr>))"

definition mp_free :: "nat \<Rightarrow> mpool \<Rightarrow> mpool" where
  "mp_free blk s = s\<lparr>mp_next := (mp_next s)(blk := mp_free_head s), mp_free_head := Some blk\<rparr>"

definition mp_write :: "nat \<Rightarrow> nat option \<Rightarrow> mpool \<Rightarrow> mpool" where
  "mp_write a v s = s\<lparr>mp_next := (mp_next s)(a := v)\<rparr>"

definition mp_avail :: "nat \<Rightarrow> mpool \<Rightarrow> nat list" where
  "mp_avail n s = walk n (mp_next s) (mp_free_head s)"

definition mp_ok :: "nat \<Rightarrow> mpool \<Rightarrow> bool" where
  "mp_ok n s \<longleftrightarrow> free_list_ok n (mp_next s) (mp_free_head s) (mp_avail n s)"

lemma mp_okI: "free_list_ok n (mp_next s) (mp_free_head s) xs \<Longrightarrow> mp_ok n s \<and> mp_avail n s = xs"
  by (simp add: mp_ok_def mp_avail_def free_list_walk)

lemma mp_new_ok: "0 < n \<Longrightarrow> mp_ok n (mp_new n) \<and> mp_avail n (mp_new n) = [0..<n]"
proof -
  assume "0 < n"
  from free_list_grow [of 0 "\<lambda>_. None" None "[]", OF _ this] have
    "free_list_ok n (mp_next (mp_new n)) (mp_free_head (mp_new n)) [0..<n]"
    by (simp add: mp_new_def free_list_nil)
  from mp_okI [OF this] show ?thesis .
qed

interpretation mp: allocator mp_alloc mp_free mp_write "mp_avail n" "\<lambda>_. {..<n}" "mp_ok n" for n
proof unfold_locales
  fix s s' a v
  assume ok: "mp_ok n s"
  then have fl: "free_list_ok n (mp_next s) (mp_free_head s) (mp_avail n s)" by (simp add: mp_ok_def)
  then show "distinct (mp_avail n s) \<and> set (mp_avail n s) \<subseteq> {..<n}" by (simp add: free_list_ok_def)
  { assume "mp_alloc s = (None, s')"
    then have "mp_free_head s = None" "s' = s" by (auto simp: mp_alloc_def split: option.splits)
    with fl show "s' = s \<and> mp_avail n s = []" by (simp add: free_list_nil) }
  { assume "mp_alloc s = (Some a, s')"
    then have h: "mp_free_head s = Some a" "s' = s\<lparr>mp_free_head := mp_next s a\<rparr>"
      by (auto simp: mp_alloc_def split: option.splits)
    from fl free_list_take [of n "mp_next s" a] h(1) obtain ys where
      ys: "mp_avail n s = a # ys" "free_list_ok n (mp_next s) (mp_next s a) ys" by auto
    from ys(2) have "free_list_ok n (mp_next s') (mp_free_head s') ys" by (simp add: h(2))
    from mp_okI [OF this] fl ys(1) show "mp_ok n s' \<and> a \<notin> set (mp_avail n s') \<and> {..<n} \<subseteq> {..<n} \<and>
        insert a (set (mp_avail n s')) = set (mp_avail n s) \<union> ({..<n} - {..<n})"
      by (simp add: free_list_ok_def) }
  assume a: "a \<in> {..<n}" "a \<notin> set (mp_avail n s)"
  have "free_list_ok n (mp_next (mp_free a s)) (mp_free_head (mp_free a s)) (a # mp_avail n s)"
    using free_list_put [OF fl] a by (simp add: mp_free_def)
  from mp_okI [OF this] show "mp_ok n (mp_free a s) \<and> mp_avail n (mp_free a s) = a # mp_avail n s \<and> {..<n} = {..<n}"
    by simp
  have "free_list_ok n (mp_next (mp_write a v s)) (mp_free_head (mp_write a v s)) (mp_avail n s)"
    using free_list_write [OF fl a(2), of v] by (simp add: mp_write_def)
  from mp_okI [OF this] show "mp_ok n (mp_write a v s) \<and> mp_avail n (mp_write a v s) = mp_avail n s \<and> {..<n} = {..<n}"
    by simp
qed

subsection \<open>\<open>MemoryPool\<close> under two threads\<close>

text \<open>
  In the latency variants the network thread allocates from the pool that the consumer thread
  frees into, with no lock. The steps are the loads and stores of \<open>alloc\<close> and \<open>free\<close>, each
  taken to be atomic (the code's data race gives less); the test of \<open>free_head_\<close> and the load of
  it that follows are one step. \<open>A_head b\<close> is after \<open>blk = free_head_\<close>,
  \<open>A_next b v\<close> after the load of the next block; \<open>F_load b v\<close> is after the load of
  \<open>free_head_\<close> in \<open>free\<close>, \<open>F_link b\<close> after its store into the block.
\<close>

datatype alloc_pc = A_start | A_head "nat option" | A_next nat "nat option" | A_done "nat option"
datatype free_pc = F_start nat | F_load nat "nat option" | F_link nat | F_done

inductive pool_race :: "alloc_pc \<times> free_pc \<times> mpool \<Rightarrow> alloc_pc \<times> free_pc \<times> mpool \<Rightarrow> bool" where
  a_load: "pool_race (A_start, f, s) (A_head (mp_free_head s), f, s)"
| a_null: "pool_race (A_head None, f, s) (A_done None, f, s)"
| a_next: "pool_race (A_head (Some b), f, s) (A_next b (mp_next s b), f, s)"
| a_store: "pool_race (A_next b v, f, s) (A_done (Some b), f, s\<lparr>mp_free_head := v\<rparr>)"
| f_load: "pool_race (a, F_start b, s) (a, F_load b (mp_free_head s), s)"
| f_link: "pool_race (a, F_load b v, s) (a, F_link b, s\<lparr>mp_next := (mp_next s)(b := v)\<rparr>)"
| f_store: "pool_race (a, F_link b, s) (a, F_done, s\<lparr>mp_free_head := Some b\<rparr>)"

text \<open>Without interleaving the steps are the operations.\<close>

lemma race_alloc_alone: "pool_race\<^sup>*\<^sup>* (A_start, f, s) (A_done (fst (mp_alloc s)), f, snd (mp_alloc s))"
proof (cases "mp_free_head s")
  case None
  then have "pool_race (A_start, f, s) (A_head None, f, s)" using a_load [of f s] by simp
  with a_null [of f s] None show ?thesis by (simp add: mp_alloc_def)
next
  case (Some b)
  then have "pool_race (A_start, f, s) (A_head (Some b), f, s)" using a_load [of f s] by simp
  with a_next [of b f s] a_store [of b "mp_next s b" f s] Some show ?thesis
    by (simp add: mp_alloc_def)
qed

lemma race_free_alone: "pool_race\<^sup>*\<^sup>* (a, F_start b, s) (a, F_done, mp_free b s)"
proof -
  let ?v = "mp_free_head s"
  have "pool_race (a, F_link b, s\<lparr>mp_next := (mp_next s)(b := ?v)\<rparr>) (a, F_done, mp_free b s)"
    using f_store [of a b "s\<lparr>mp_next := (mp_next s)(b := ?v)\<rparr>"] by (simp add: mp_free_def)
  with f_load [of a b s] f_link [of a b ?v s] show ?thesis
    by (meson converse_rtranclp_into_rtranclp rtranclp.rtrancl_refl)
qed

lemma free_list_head:
  "free_list_ok cap nxt p (a # xs) \<Longrightarrow> p = Some a \<and> free_list_ok cap nxt (nxt a) xs"
  by (cases p) (auto simp: free_list_ok_def)

text \<open>\<open>free\<close> has read the head when \<open>alloc\<close> takes it, so it links the taken block back in.\<close>

lemma race_double_alloc:
  assumes "mp_free_head s = Some b"
  shows "pool_race\<^sup>*\<^sup>* (A_start, F_start c, s)
    (A_done (Some b), F_done, s\<lparr>mp_next := (mp_next s)(c := Some b), mp_free_head := Some c\<rparr>)"
proof -
  let ?s1 = "s\<lparr>mp_free_head := mp_next s b\<rparr>"
  have "pool_race\<^sup>*\<^sup>* (A_start, F_start c, s) (A_start, F_load c (Some b), s)"
    using f_load [of A_start c s] assms by auto
  also have "pool_race\<^sup>*\<^sup>* (A_start, F_load c (Some b), s) (A_done (Some b), F_load c (Some b), ?s1)"
    using race_alloc_alone [of "F_load c (Some b)" s] assms by (simp add: mp_alloc_def)
  also have "pool_race (A_done (Some b), F_load c (Some b), ?s1)
      (A_done (Some b), F_link c, ?s1\<lparr>mp_next := (mp_next ?s1)(c := Some b)\<rparr>)" by (rule f_link)
  also have "pool_race (A_done (Some b), F_link c, ?s1\<lparr>mp_next := (mp_next ?s1)(c := Some b)\<rparr>)
      (A_done (Some b), F_done, ?s1\<lparr>mp_next := (mp_next ?s1)(c := Some b), mp_free_head := Some c\<rparr>)"
    using f_store [of _ c "?s1\<lparr>mp_next := (mp_next ?s1)(c := Some b)\<rparr>"] by simp
  finally show ?thesis by simp
qed

text \<open>\<open>alloc\<close> has read head and next when \<open>free\<close> runs, so its store drops the freed block.\<close>

lemma race_lost_block:
  assumes "mp_free_head s = Some b"
  shows "pool_race\<^sup>*\<^sup>* (A_start, F_start c, s)
    (A_done (Some b), F_done, s\<lparr>mp_next := (mp_next s)(c := Some b), mp_free_head := mp_next s b\<rparr>)"
proof -
  have "pool_race\<^sup>*\<^sup>* (A_start, F_start c, s) (A_head (Some b), F_start c, s)"
    using a_load [of "F_start c" s] assms by auto
  also have "pool_race (A_head (Some b), F_start c, s) (A_next b (mp_next s b), F_start c, s)" by (rule a_next)
  also have "pool_race\<^sup>*\<^sup>* (A_next b (mp_next s b), F_start c, s) (A_next b (mp_next s b), F_done, mp_free c s)"
    by (rule race_free_alone)
  also have "pool_race (A_next b (mp_next s b), F_done, mp_free c s)
      (A_done (Some b), F_done, (mp_free c s)\<lparr>mp_free_head := mp_next s b\<rparr>)" by (rule a_store)
  finally show ?thesis using assms by (simp add: mp_free_def)
qed

subsection \<open>Properties\<close>

text \<open>C25: \<open>FixedSizePool\<close> and \<open>SlabSlotPool\<close> under a client that allocates, writes into the
  blocks it holds (over their free-list links) and frees them, in any order: the blocks it holds
  are pairwise distinct and not in the free list, and together with the free list they are all
  blocks the pool ever obtained; so no block is handed out twice and none is lost.\<close>

theorem growing_pools_partition:
  "(let (held, s) = pool_run (fp_allocate (Suc n)) (\<lambda>a. fp_deallocate (Some a)) fp_write ops (fp_new (Suc n))
    in distinct (held @ fp_avail (Suc n) s) \<and> set held \<union> set (fp_avail (Suc n) s) = {..<fp_total (Suc n) s}) \<and>
   (let (held, s) = pool_run sp_allocate (\<lambda>a. sp_deallocate (Some a)) fp_write ops sp_new
    in distinct (held @ fp_avail 256 s) \<and> set held \<union> set (fp_avail 256 s) = {..<fp_total 256 s})"
proof -
  note f = fp_new_ok [of "Suc n", simplified] and s = sp_new_ok
  have "set (fp_avail (Suc n) (fp_new (Suc n))) = {..<fp_total (Suc n) (fp_new (Suc n))}" using f by auto
  then have "fp.partitioned n (pool_run (fp_allocate (Suc n)) (\<lambda>a. fp_deallocate (Some a)) fp_write ops (fp_new (Suc n)))"
    using f by (intro fp.partitioned_run) simp_all
  moreover have "sp.partitioned (pool_run sp_allocate (\<lambda>a. sp_deallocate (Some a)) fp_write ops sp_new)"
    using s by (intro sp.partitioned_run) simp_all
  ultimately show ?thesis unfolding fp.partitioned_def sp.partitioned_def by (simp add: split_beta)
qed

text \<open>\<open>MemoryPool\<close> of the latency servers, used by one thread: held and free blocks
  partition the \<open>Capacity\<close> blocks, and \<open>alloc\<close> returns null exactly when all are held.\<close>

theorem memory_pool_partition:
  assumes "0 < n" "pool_run mp_alloc mp_free mp_write ops (mp_new n) = (held, s)"
  shows "distinct (held @ mp_avail n s) \<and> set held \<union> set (mp_avail n s) = {..<n} \<and>
    (fst (mp_alloc s) = None \<longleftrightarrow> length held = n)"
proof -
  note new = mp_new_ok [OF assms(1)]
  then have "set (mp_avail n (mp_new n)) = {..<n}" by auto
  from mp.partitioned_run [OF conjunct1 [OF new] this, of ops]
  have p: "mp_ok n s" "distinct (held @ mp_avail n s)" "set held \<union> set (mp_avail n s) = {..<n}"
    unfolding assms(2) mp.partitioned_def by simp_all
  then have "length held + length (mp_avail n s) = n"
    by (metis card_lessThan distinct_card length_append set_append)
  moreover have "fst (mp_alloc s) = None \<longleftrightarrow> mp_avail n s = []"
    using mp.alloc_None [OF p(1), of "snd (mp_alloc s)"] mp.alloc_Some [OF p(1)]
    by (cases "mp_alloc s"; cases "fst (mp_alloc s)") auto
  ultimately show ?thesis using p by auto
qed

lemma memory_pool_partition_witness:
  "fst (mp_alloc (snd (pool_run mp_alloc mp_free mp_write [PAlloc, PAlloc, PFree 1] (mp_new 2)))) = Some 0 \<and>
   length (fst (pool_run mp_alloc mp_free mp_write [PAlloc, PAlloc, PFree 1] (mp_new 2))) \<noteq> 2"
  using memory_pool_partition [of 2 "[PAlloc, PAlloc, PFree 1]", OF _ surjective_pairing]
  by (simp add: pool_run_def mp_new_def mp_alloc_def mp_free_def link_blocks_def)

text \<open>The pool of the latency variants is shared by two threads without a lock: when the
  consumer frees a block while the network thread allocates one, an interleaving of their loads
  and stores ends with the allocated block still in the free list, where the next \<open>alloc\<close> but
  one hands it out again; another ends with the freed block in no list, lost for ever.\<close>

theorem memory_pool_race:
  assumes "mp_ok n s" "mp_avail n s = b # rest" "c < n" "c \<notin> set (mp_avail n s)"
  shows "(\<exists>s'. pool_race\<^sup>*\<^sup>* (A_start, F_start c, s) (A_done (Some b), F_done, s') \<and> b \<in> set (mp_avail n s')) \<and>
    (\<exists>s'. pool_race\<^sup>*\<^sup>* (A_start, F_start c, s) (A_done (Some b), F_done, s') \<and> c \<notin> set (mp_avail n s'))"
proof -
  have fl: "free_list_ok n (mp_next s) (mp_free_head s) (b # rest)" using assms(1,2) by (simp add: mp_ok_def)
  from free_list_head [OF fl] have h: "mp_free_head s = Some b" "free_list_ok n (mp_next s) (mp_next s b) rest" by auto
  let ?d = "s\<lparr>mp_next := (mp_next s)(c := Some b), mp_free_head := Some c\<rparr>"
  let ?l = "s\<lparr>mp_next := (mp_next s)(c := Some b), mp_free_head := mp_next s b\<rparr>"
  have "free_list_ok n (mp_next ?d) (mp_free_head ?d) (c # b # rest)"
    using free_list_put [OF fl assms(3)] assms(2,4) h(1) by simp
  then have d: "b \<in> set (mp_avail n ?d)" using mp_okI by fastforce
  have "free_list_ok n (mp_next ?l) (mp_free_head ?l) rest"
    using free_list_write [OF h(2), of c] assms(2,4) by simp
  then have l: "c \<notin> set (mp_avail n ?l)" using mp_okI assms(2,4) by fastforce
  have "pool_race\<^sup>*\<^sup>* (A_start, F_start c, s) (A_done (Some b), F_done, ?d)"
    using race_double_alloc [OF h(1)] .
  moreover have "pool_race\<^sup>*\<^sup>* (A_start, F_start c, s) (A_done (Some b), F_done, ?l)"
    using race_lost_block [OF h(1)] .
  ultimately show ?thesis using d l by blast
qed

lemma memory_pool_race_witness:
  "\<exists>s'. pool_race\<^sup>*\<^sup>* (A_start, F_start 0, snd (mp_alloc (mp_new 2))) (A_done (Some 1), F_done, s') \<and>
     1 \<in> set (mp_avail 2 s')"
proof -
  have n: "mp_ok 2 (mp_new 2)" "mp_avail 2 (mp_new 2) = [0, 1]"
    using mp_new_ok [of 2] by (simp_all add: upt_rec numeral_2_eq_2)
  have "mp_alloc (mp_new 2) = (Some 0, snd (mp_alloc (mp_new 2)))"
    by (simp add: mp_alloc_def mp_new_def)
  from mp.alloc_Some [OF n(1) this] n(2) have
    a: "mp_ok 2 (snd (mp_alloc (mp_new 2)))" "0 \<notin> set (mp_avail 2 (snd (mp_alloc (mp_new 2))))" by simp_all
  have "mp_avail 2 (snd (mp_alloc (mp_new 2))) = [1]"
    by (simp add: mp_avail_def mp_alloc_def mp_new_def link_blocks_def numeral_2_eq_2)
  from memory_pool_race [OF a(1) this _ a(2)] show ?thesis by auto
qed

end
