(* ===== verification/Lru_Cache.thy ===== *)
theory Lru_Cache
  imports Prelude
begin

section \<open>\<open>LRUCache\<close> (\<open>topics/memory/lru_cache.cpp\<close>)\<close>

text \<open>
  The cache is a doubly linked list of (key, value) pairs, most recent first, and a hash map
  from keys to list iterators. An iterator is the identity of a list node: the model gives every
  node a number, so the map and the list can disagree, and the invariant says that they do not.
  \<open>splice\<close> moves a node to the front and keeps the iterators valid. \<open>back()\<close> of an empty list
  has no defined result, so \<open>put\<close> on a cache of capacity 0 is \<open>None\<close>.

  The specification is a list of pairs without nodes: \<open>spec_get\<close> and \<open>spec_put\<close>.
\<close>

type_synonym ('k, 'v) node = "nat \<times> 'k \<times> 'v"

record ('k, 'v) lru =
  lru_cap :: nat
  lru_list :: "('k, 'v) node list"
  lru_map :: "'k \<rightharpoonup> nat"
  lru_fresh :: nat

definition lru_new :: "nat \<Rightarrow> ('k, 'v) lru" where
  "lru_new capacity = \<lparr>lru_cap = capacity, lru_list = [], lru_map = Map.empty, lru_fresh = 0\<rparr>"

text \<open>\<open>splice(begin, list, it)\<close>, reading the node of an iterator, and writing its value.\<close>

definition splice_front :: "nat \<Rightarrow> ('k, 'v) node list \<Rightarrow> ('k, 'v) node list" where
  "splice_front n xs = filter (\<lambda>(m, kv). m = n) xs @ filter (\<lambda>(m, kv). m \<noteq> n) xs"

definition node_value :: "nat \<Rightarrow> ('k, 'v) node list \<Rightarrow> 'v option" where
  "node_value n xs = map_option snd (map_of xs n)"

definition set_node :: "nat \<Rightarrow> 'v \<Rightarrow> ('k, 'v) node list \<Rightarrow> ('k, 'v) node list" where
  "set_node n v xs = map (\<lambda>(m, k, w). if m = n then (m, k, v) else (m, k, w)) xs"

definition lru_get :: "'k \<Rightarrow> ('k, 'v) lru \<Rightarrow> 'v option \<times> ('k, 'v) lru" where
  "lru_get key s = (case lru_map s key of
       None \<Rightarrow> (None, s)
     | Some it \<Rightarrow> let xs = splice_front it (lru_list s) in (node_value it xs, s\<lparr>lru_list := xs\<rparr>))"

definition lru_put :: "'k \<Rightarrow> 'v \<Rightarrow> ('k, 'v) lru \<Rightarrow> ('k, 'v) lru option" where
  "lru_put key v s = (case lru_map s key of
       Some it \<Rightarrow> Some (s\<lparr>lru_list := splice_front it (set_node it v (lru_list s))\<rparr>)
     | None \<Rightarrow>
         (case (if lru_cap s \<le> length (lru_list s)
                then (if lru_list s = [] then None
                      else Some (s\<lparr>lru_map := (lru_map s)(fst (snd (last (lru_list s))) := None),
                                   lru_list := butlast (lru_list s)\<rparr>))
                else Some s) of
            None \<Rightarrow> None
          | Some s \<Rightarrow> Some (s\<lparr>lru_list := (lru_fresh s, key, v) # lru_list s,
                             lru_map := (lru_map s)(key \<mapsto> lru_fresh s), lru_fresh := lru_fresh s + 1\<rparr>)))"

subsection \<open>Specification\<close>

text \<open>A list of distinct keys with their values, most recently used first.\<close>

definition spec_get :: "'k \<Rightarrow> ('k \<times> 'v) list \<Rightarrow> 'v option \<times> ('k \<times> 'v) list" where
  "spec_get key xs = (case map_of xs key of None \<Rightarrow> (None, xs)
     | Some v \<Rightarrow> (Some v, (key, v) # filter (\<lambda>(k, w). k \<noteq> key) xs))"

definition spec_put :: "nat \<Rightarrow> 'k \<Rightarrow> 'v \<Rightarrow> ('k \<times> 'v) list \<Rightarrow> ('k \<times> 'v) list" where
  "spec_put cap key v xs = take cap ((key, v) # filter (\<lambda>(k, w). k \<noteq> key) xs)"

definition contents :: "('k, 'v) lru \<Rightarrow> ('k \<times> 'v) list" where
  "contents s = map snd (lru_list s)"

definition lru_ok :: "('k, 'v) lru \<Rightarrow> bool" where
  "lru_ok s \<longleftrightarrow> distinct (map fst (lru_list s)) \<and> distinct (map fst (contents s)) \<and>
     length (lru_list s) \<le> lru_cap s \<and> (\<forall>n \<in> fst ` set (lru_list s). n < lru_fresh s) \<and>
     (\<forall>k n. lru_map s k = Some n \<longleftrightarrow> (\<exists>v. (n, k, v) \<in> set (lru_list s)))"

lemma lru_new_ok: "lru_ok (lru_new c)" "contents (lru_new c) = []"
  by (simp_all add: lru_ok_def lru_new_def contents_def)

lemma filter_key_absent:
  "n \<notin> fst ` set xs \<Longrightarrow> filter (\<lambda>(m, y). m \<noteq> n) xs = xs"
  "n \<notin> fst ` set xs \<Longrightarrow> filter (\<lambda>(m, y). m = n) xs = []"
  by (induction xs) auto

lemma set_node_absent: "n \<notin> fst ` set xs \<Longrightarrow> set_node n v xs = xs"
  by (induction xs) (auto simp: set_node_def)

text \<open>With distinct nodes, splicing puts the iterator's node in front of the others.\<close>

lemma splice_split:
  assumes "distinct (map fst xs)" "xs = ys @ (n, kv) # zs"
  shows "splice_front n xs = (n, kv) # ys @ zs"
proof -
  have "n \<notin> fst ` set ys" "n \<notin> fst ` set zs" using assms by auto
  then show ?thesis by (simp add: splice_front_def assms(2) filter_key_absent)
qed

lemma set_node_split:
  assumes "distinct (map fst xs)" "xs = ys @ (n, k, w) # zs"
  shows "set_node n v xs = ys @ (n, k, v) # zs"
proof -
  have n: "n \<notin> fst ` set ys" "n \<notin> fst ` set zs" using assms by auto
  have "set_node n v ys = ys" using n(1) by (rule set_node_absent)
  moreover have "set_node n v zs = zs" using n(2) by (rule set_node_absent)
  ultimately show ?thesis by (simp add: assms(2)) (simp add: set_node_def)
qed

lemma lru_hit:
  assumes "lru_ok s" "lru_map s key = Some n"
  obtains ys v zs where "lru_list s = ys @ (n, key, v) # zs" "map_of (contents s) key = Some v"
    "filter (\<lambda>(k, w). k \<noteq> key) (contents s) = map snd (ys @ zs)"
proof -
  from assms obtain v where "(n, key, v) \<in> set (lru_list s)" by (auto simp: lru_ok_def)
  then obtain ys zs where xs: "lru_list s = ys @ (n, key, v) # zs" by (meson split_list)
  have d: "distinct (map fst (contents s))" using assms(1) by (simp add: lru_ok_def)
  then have "key \<notin> fst ` set (map snd (ys @ zs))" by (force simp: contents_def xs)
  then have "filter (\<lambda>(k, w). k \<noteq> key) (map snd (ys @ zs)) = map snd (ys @ zs)"
    by (rule filter_key_absent)
  moreover have "map_of (contents s) key = Some v"
    by (rule map_of_is_SomeI [OF d]) (simp add: contents_def xs)
  ultimately show thesis using that [OF xs] by (simp add: contents_def xs)
qed

lemma lru_miss:
  assumes "lru_ok s" "lru_map s key = None"
  shows "map_of (contents s) key = None" "filter (\<lambda>(k, w). k \<noteq> key) (contents s) = contents s"
    "\<forall>n v. (n, key, v) \<notin> set (lru_list s)"
proof -
  show none: "\<forall>n v. (n, key, v) \<notin> set (lru_list s)"
  proof (intro allI notI)
    fix n v assume "(n, key, v) \<in> set (lru_list s)"
    with assms(1) have "lru_map s key = Some n" unfolding lru_ok_def by blast
    with assms(2) show False by simp
  qed
  then have "key \<notin> fst ` set (contents s)" by (force simp: contents_def)
  then show "map_of (contents s) key = None" "filter (\<lambda>(k, w). k \<noteq> key) (contents s) = contents s"
    by (simp_all add: map_of_eq_None_iff filter_key_absent)
qed

text \<open>Moving a node, with a new value, to the front.\<close>

lemma lru_move:
  assumes "lru_ok s" "lru_list s = ys @ (n, key, v) # zs"
  shows "lru_ok (s\<lparr>lru_list := (n, key, w) # ys @ zs\<rparr>)"
proof -
  have "((\<exists>u. (m, k, u) \<in> set (lru_list s)) \<longleftrightarrow> (\<exists>u. (m, k, u) \<in> set ((n, key, w) # ys @ zs)))" for m k
    unfolding assms(2) by auto
  with assms show ?thesis unfolding lru_ok_def contents_def by auto
qed

theorem lru_get_refines:
  assumes "lru_ok s"
  shows "lru_ok (snd (lru_get key s)) \<and> (fst (lru_get key s), contents (snd (lru_get key s))) = spec_get key (contents s)"
proof (cases "lru_map s key")
  case None
  with lru_miss [OF assms None] assms show ?thesis by (simp add: lru_get_def spec_get_def)
next
  case (Some n)
  obtain ys v zs where h: "lru_list s = ys @ (n, key, v) # zs" "map_of (contents s) key = Some v"
    "filter (\<lambda>(k, w). k \<noteq> key) (contents s) = map snd (ys @ zs)" using lru_hit [OF assms Some] .
  have "splice_front n (lru_list s) = (n, key, v) # ys @ zs"
    using assms by (intro splice_split [OF _ h(1)]) (simp add: lru_ok_def)
  with h Some lru_move [OF assms h(1), of v] show ?thesis
    by (simp add: lru_get_def spec_get_def Let_def node_value_def) (simp add: contents_def)
qed

text \<open>\<open>put\<close> of a key that is there, and the two steps of one that is not.\<close>

lemma lru_put_hit:
  assumes "lru_ok s" "lru_map s key = Some n"
  shows "\<exists>s'. lru_put key v s = Some s' \<and> lru_ok s' \<and> lru_cap s' = lru_cap s \<and>
    contents s' = spec_put (lru_cap s) key v (contents s)"
proof -
  obtain ys w zs where h: "lru_list s = ys @ (n, key, w) # zs" "map_of (contents s) key = Some w"
    "filter (\<lambda>(k, w). k \<noteq> key) (contents s) = map snd (ys @ zs)" using lru_hit [OF assms] .
  have d: "distinct (map fst (lru_list s))" "length (lru_list s) \<le> lru_cap s" using assms(1) by (simp_all add: lru_ok_def)
  have sn: "set_node n v (lru_list s) = ys @ (n, key, v) # zs" by (rule set_node_split [OF d(1) h(1)])
  have "splice_front n (set_node n v (lru_list s)) = (n, key, v) # ys @ zs"
    by (rule splice_split [OF _ sn]) (use d(1) in \<open>simp add: sn, simp add: h(1)\<close>)
  with h assms(2) lru_move [OF assms(1) h(1), of v] d(2) show ?thesis
    by (simp add: lru_put_def spec_put_def) (simp add: contents_def)
qed

lemma lru_evict:
  assumes "lru_ok s" "0 < lru_cap s" "lru_cap s \<le> length (lru_list s)"
  defines "t \<equiv> s\<lparr>lru_map := (lru_map s)(fst (snd (last (lru_list s))) := None), lru_list := butlast (lru_list s)\<rparr>"
  shows "lru_ok t" "Suc (length (lru_list t)) = lru_cap s" "contents t = take (lru_cap s - 1) (contents s)"
proof -
  have "lru_list s \<noteq> []" using assms(2,3) by auto
  then obtain ys n k w where xs: "lru_list s = ys @ [(n, k, w)]" by (metis append_butlast_last_id prod_cases3)
  have tt: "t = s\<lparr>lru_map := (lru_map s)(k := None), lru_list := ys\<rparr>" by (simp add: t_def xs)
  have l: "Suc (length ys) = lru_cap s" using assms(1,3) by (simp add: xs lru_ok_def)
  have notk: "\<forall>m v. (m, k, v) \<notin> set ys"
    using assms(1) unfolding lru_ok_def contents_def xs by (auto simp: image_iff)
  have map: "((lru_map s)(k := None)) k' = Some m \<longleftrightarrow> (\<exists>v. (m, k', v) \<in> set ys)" for k' m
    using assms(1) notk unfolding lru_ok_def xs by auto
  show "lru_ok t" using assms(1) l map unfolding lru_ok_def tt contents_def xs by auto
  show "Suc (length (lru_list t)) = lru_cap s" using l by (simp add: tt)
  show "contents t = take (lru_cap s - 1) (contents s)" using l by (simp add: tt contents_def xs flip: l)
qed

lemma lru_insert_front:
  assumes "lru_ok t" "length (lru_list t) < lru_cap t" "lru_map t key = None"
  shows "lru_ok (t\<lparr>lru_list := (lru_fresh t, key, v) # lru_list t, lru_map := (lru_map t)(key \<mapsto> lru_fresh t),
    lru_fresh := lru_fresh t + 1\<rparr>)" (is "lru_ok ?s'")
proof -
  note missed = lru_miss [OF assms(1,3)]
  have fr: "lru_fresh t \<notin> fst ` set (lru_list t)" using assms(1) unfolding lru_ok_def by auto
  have nk: "key \<notin> fst ` set (contents t)" using missed(1) by (simp add: map_of_eq_None_iff)
  have map: "((lru_map t)(key \<mapsto> lru_fresh t)) k = Some m \<longleftrightarrow>
      (\<exists>w. (m, k, w) \<in> set ((lru_fresh t, key, v) # lru_list t))" for k m
    using assms(1) missed(3) unfolding lru_ok_def by auto
  show ?thesis
    unfolding lru_ok_def
  proof (intro conjI)
    show "\<forall>k n. lru_map ?s' k = Some n \<longleftrightarrow> (\<exists>v. (n, k, v) \<in> set (lru_list ?s'))" using map by simp
    have "contents ?s' = (key, v) # contents t" by (simp add: contents_def)
    with assms(1) nk show "distinct (map fst (contents ?s'))" by (simp add: lru_ok_def)
  qed (use assms fr in \<open>auto simp: lru_ok_def\<close>)
qed

theorem lru_put_refines:
  assumes "lru_ok s" "0 < lru_cap s"
  shows "\<exists>s'. lru_put key v s = Some s' \<and> lru_ok s' \<and> lru_cap s' = lru_cap s \<and>
    contents s' = spec_put (lru_cap s) key v (contents s)"
proof (cases "lru_map s key")
  case None
  define t where "t = (if lru_cap s \<le> length (lru_list s)
    then s\<lparr>lru_map := (lru_map s)(fst (snd (last (lru_list s))) := None), lru_list := butlast (lru_list s)\<rparr> else s)"
  have t: "lru_ok t" "lru_cap t = lru_cap s" "length (lru_list t) < lru_cap s" "lru_map t key = None"
    "contents t = take (lru_cap s - 1) (contents s)"
    using lru_evict [OF assms] assms(1) None by (auto simp: t_def contents_def)
  let ?s' = "t\<lparr>lru_list := (lru_fresh t, key, v) # lru_list t, lru_map := (lru_map t)(key \<mapsto> lru_fresh t),
      lru_fresh := lru_fresh t + 1\<rparr>"
  have "\<not> (lru_cap s \<le> length (lru_list s) \<and> lru_list s = [])" using assms(2) by auto
  then have "lru_put key v s = Some ?s'" by (auto simp: lru_put_def None t_def)
  moreover have "lru_ok ?s'" by (rule lru_insert_front [OF t(1) _ t(4)]) (simp add: t(2,3))
  moreover have "contents ?s' = spec_put (lru_cap s) key v (contents s)"
    using assms(2) t(5) lru_miss(2) [OF assms(1) None] by (simp add: spec_put_def take_Cons' contents_def)
  ultimately show ?thesis using t(2) by simp
qed (rule lru_put_hit [OF assms(1)])

subsection \<open>Runs\<close>

datatype ('k, 'v) lru_op = Get 'k | Put 'k 'v

fun lru_run :: "('k, 'v) lru_op list \<Rightarrow> ('k, 'v) lru \<Rightarrow> ('v option list \<times> ('k, 'v) lru) option" where
  "lru_run [] s = Some ([], s)"
| "lru_run (Get k # ops) s = (let (r, s) = lru_get k s in map_option (\<lambda>(rs, s). (r # rs, s)) (lru_run ops s))"
| "lru_run (Put k v # ops) s = (case lru_put k v s of None \<Rightarrow> None | Some s \<Rightarrow> lru_run ops s)"

fun spec_run :: "nat \<Rightarrow> ('k, 'v) lru_op list \<Rightarrow> ('k \<times> 'v) list \<Rightarrow> 'v option list \<times> ('k \<times> 'v) list" where
  "spec_run cap [] xs = ([], xs)"
| "spec_run cap (Get k # ops) xs =
     (let (r, xs) = spec_get k xs; (rs, xs) = spec_run cap ops xs in (r # rs, xs))"
| "spec_run cap (Put k v # ops) xs = spec_run cap ops (spec_put cap k v xs)"

lemma lru_get_cap [simp]: "lru_cap (snd (lru_get k s)) = lru_cap s"
  by (simp add: lru_get_def Let_def split: option.split)

lemma lru_run_refines:
  assumes "lru_ok s" "0 < lru_cap s"
  shows "\<exists>s'. lru_run ops s = Some (fst (spec_run (lru_cap s) ops (contents s)), s') \<and> lru_ok s' \<and>
    lru_cap s' = lru_cap s \<and> contents s' = snd (spec_run (lru_cap s) ops (contents s))"
  using assms
proof (induction ops arbitrary: s)
  case Nil
  then show ?case by simp
next
  case (Cons op ops)
  show ?case
  proof (cases op)
    case (Get k)
    obtain r s1 where g: "lru_get k s = (r, s1)" by fastforce
    with lru_get_refines [OF Cons.prems(1), of k] lru_get_cap [of k s] have
      s1: "lru_ok s1" "spec_get k (contents s) = (r, contents s1)" "lru_cap s1 = lru_cap s" by simp_all
    with Cons.IH [OF s1(1)] Cons.prems(2) obtain s' where
      "lru_run ops s1 = Some (fst (spec_run (lru_cap s) ops (contents s1)), s')" "lru_ok s'" "lru_cap s' = lru_cap s"
      "contents s' = snd (spec_run (lru_cap s) ops (contents s1))" by auto
    with Get g s1 show ?thesis by (simp add: split_beta)
  next
    case (Put k v)
    obtain s1 where s1: "lru_put k v s = Some s1" "lru_ok s1" "lru_cap s1 = lru_cap s"
      "contents s1 = spec_put (lru_cap s) k v (contents s)"
      using lru_put_refines [OF Cons.prems] by blast
    from Cons.IH [OF s1(2)] s1 Cons.prems(2) Put show ?thesis by auto
  qed
qed

subsection \<open>Properties\<close>

text \<open>C26: \<open>LRUCache\<close> refines its specification: for a positive capacity every sequence of \<open>get\<close>
  and \<open>put\<close> returns, with the results of a list of distinct keys in order of last use that is cut
  to the capacity; and it never holds more than the capacity.\<close>

theorem lru_cache_refines:
  assumes "0 < capacity"
  shows "\<exists>s. lru_run ops (lru_new capacity) = Some (fst (spec_run capacity ops []), s) \<and>
    contents s = snd (spec_run capacity ops []) \<and> length (contents s) \<le> capacity \<and> distinct (map fst (contents s))"
  using lru_run_refines [OF lru_new_ok(1), of capacity ops] assms
  by (auto simp: lru_new_def contents_def lru_ok_def)

lemma lru_cache_refines_witness:
  "\<exists>s. lru_run [Put 1 ''a'', Put 2 ''b'', Get 1, Put 3 ''c'', Get 2, Get (1 :: nat)] (lru_new 2) =
     Some ([Some ''a'', None, Some ''a''], s) \<and> contents s = [(1, ''a''), (3, ''c'')]"
  using lru_cache_refines [of 2 "[Put 1 ''a'', Put 2 ''b'', Get 1, Put 3 ''c'', Get 2, Get (1 :: nat)]"]
  by (auto simp: spec_get_def spec_put_def)

text \<open>The capacity must be positive: the first \<open>put\<close> into a cache of capacity 0 takes the last
  element of an empty list, which has no defined result.\<close>

theorem lru_capacity_zero: "lru_put k v (lru_new 0) = None"
  by (simp add: lru_put_def lru_new_def)

end
