(* ===== verification/Timer_Wheel.thy ===== *)
theory Timer_Wheel
  imports Prelude
begin

section \<open>\<open>TimerWheel\<close> (\<open>topics/io/timer_wheel.cpp\<close>)\<close>

text \<open>
  A ring of slots, each with the callbacks due in it; a tick advances the current slot, empties
  it and runs what it held. Durations are the counts of \<open>int64_t\<close> milliseconds, \<open>size_t\<close> values
  are numbers with their wrap-around at \<open>2 ^ 64\<close>. A division by zero (an interval of 0, no
  slots) is \<open>None\<close>. Callbacks are values; running them is returning them.

  \<open>pending w r\<close> is what the \<open>r\<close>-th tick from now will run. A callback is run exactly once, by the
  tick that its number of ticks selects modulo the number of slots: a delay of more than one
  rotation fires early.
\<close>

record 'c timer_wheel =
  slots :: "'c list list"
  tick_interval :: int
  current_slot :: nat

definition tw_new :: "nat \<Rightarrow> int \<Rightarrow> 'c timer_wheel" where
  "tw_new num_slots tick_ms = \<lparr>slots = replicate num_slots [], tick_interval = tick_ms, current_slot = 0\<rparr>"

text \<open>Integer division that truncates towards zero, as in C++, converted to \<open>size_t\<close>.\<close>

definition quot_trunc :: "int \<Rightarrow> int \<Rightarrow> int" where
  "quot_trunc x y = sgn x * sgn y * (\<bar>x\<bar> div \<bar>y\<bar>)"

definition delay_ticks :: "int \<Rightarrow> int \<Rightarrow> nat" where
  "delay_ticks delay interval =
     (let ticks = nat (quot_trunc delay interval mod 2 ^ 64) in if ticks = 0 then 1 else ticks)"

definition schedule_after :: "int \<Rightarrow> 'c \<Rightarrow> 'c timer_wheel \<Rightarrow> 'c timer_wheel option" where
  "schedule_after delay cb w =
     (if tick_interval w = 0 \<or> slots w = [] then None
      else let ticks = delay_ticks delay (tick_interval w);
               slot = (current_slot w + ticks) mod 2 ^ 64 mod length (slots w)
           in Some (w\<lparr>slots := (slots w)[slot := slots w ! slot @ [cb]]\<rparr>))"

definition tick :: "'c timer_wheel \<Rightarrow> ('c list \<times> 'c timer_wheel) option" where
  "tick w =
     (if slots w = [] then None
      else let cur = (current_slot w + 1) mod length (slots w)
           in Some (slots w ! cur, w\<lparr>current_slot := cur, slots := (slots w)[cur := []]\<rparr>))"

text \<open>What \<open>k\<close> ticks run, in order.\<close>

fun ticks :: "nat \<Rightarrow> 'c timer_wheel \<Rightarrow> ('c list list \<times> 'c timer_wheel) option" where
  "ticks 0 w = Some ([], w)"
| "ticks (Suc k) w = (case tick w of None \<Rightarrow> None
     | Some (cs, w) \<Rightarrow> (case ticks k w of None \<Rightarrow> None | Some (css, w) \<Rightarrow> Some (cs # css, w)))"

subsection \<open>Pending callbacks\<close>

definition tw_ok :: "'c timer_wheel \<Rightarrow> bool" where
  "tw_ok w \<longleftrightarrow> 0 < length (slots w) \<and> length (slots w) < 2 ^ 63 \<and> current_slot w < length (slots w) \<and> 0 < tick_interval w"

definition pending :: "'c timer_wheel \<Rightarrow> nat \<Rightarrow> 'c list" where
  "pending w r = slots w ! ((current_slot w + r) mod length (slots w))"

lemma tw_new_ok: "0 < n \<Longrightarrow> n < 2 ^ 63 \<Longrightarrow> 0 < i \<Longrightarrow> tw_ok (tw_new n i)" "0 < n \<Longrightarrow> pending (tw_new n i) r = []"
  by (simp_all add: tw_ok_def tw_new_def pending_def)

lemma tick_pending:
  assumes "tw_ok w"
  shows "\<exists>w'. tick w = Some (pending w 1, w') \<and> tw_ok w' \<and> length (slots w') = length (slots w) \<and>
    tick_interval w' = tick_interval w \<and>
    (\<forall>r. pending w' r = (if r mod length (slots w) = 0 then [] else pending w (Suc r)))"
proof -
  let ?n = "length (slots w)" and ?cur = "(current_slot w + 1) mod length (slots w)"
  have n: "0 < ?n" using assms by (simp add: tw_ok_def)
  have "(?cur + r) mod ?n = ?cur \<longleftrightarrow> r mod ?n = 0" for r
  proof
    assume "(?cur + r) mod ?n = ?cur"
    then have "(?cur + r mod ?n) mod ?n = (?cur + 0) mod ?n" by (simp add: mod_simps)
    from mod_add_inj [OF this] n show "r mod ?n = 0" by simp
  next
    assume "r mod ?n = 0"
    then have "(?cur + r) mod ?n = (?cur + 0) mod ?n" by (metis mod_add_right_eq)
    then show "(?cur + r) mod ?n = ?cur" by simp
  qed
  note self = this
  have shift: "(?cur + r) mod ?n = (current_slot w + Suc r) mod ?n" for r by (simp add: mod_simps)
  define w' where "w' = w\<lparr>current_slot := ?cur, slots := (slots w)[?cur := []]\<rparr>"
  have "pending w' r = (if r mod ?n = 0 then [] else pending w (Suc r))" for r
  proof -
    have "pending w' r = (slots w)[?cur := []] ! ((?cur + r) mod ?n)" by (simp add: pending_def w'_def)
    also have "\<dots> = (if (?cur + r) mod ?n = ?cur then [] else slots w ! ((?cur + r) mod ?n))"
      using n by (simp add: nth_list_update)
    also have "\<dots> = (if r mod ?n = 0 then [] else slots w ! ((?cur + r) mod ?n))" by (simp only: self)
    finally show ?thesis by (simp only: shift) (simp add: pending_def)
  qed
  moreover have "tick w = Some (pending w 1, w')" using n by (auto simp: tick_def Let_def pending_def w'_def)
  moreover have "tw_ok w'" "length (slots w') = ?n" "tick_interval w' = tick_interval w"
    using assms n by (simp_all add: tw_ok_def w'_def)
  ultimately show ?thesis by blast
qed

text \<open>The ticks of one rotation run what is pending, in order.\<close>

lemma ticks_pending:
  assumes "tw_ok w" "k \<le> length (slots w)"
  shows "\<exists>w'. ticks k w = Some (map (pending w) [1..<Suc k], w') \<and> tw_ok w'"
  using assms
proof (induction k arbitrary: w)
  case 0
  then show ?case by simp
next
  case (Suc k)
  obtain w1 where w1: "tick w = Some (pending w 1, w1)" "tw_ok w1" "length (slots w1) = length (slots w)"
    "\<And>r. pending w1 r = (if r mod length (slots w) = 0 then [] else pending w (Suc r))"
    using tick_pending [OF Suc.prems(1)] by blast
  obtain w2 where w2: "ticks k w1 = Some (map (pending w1) [1..<Suc k], w2)" "tw_ok w2"
    using Suc.IH [OF w1(2)] Suc.prems(2) w1(3) by auto
  have "map (pending w1) [1..<Suc k] = map (\<lambda>r. pending w (Suc r)) [1..<Suc k]"
  proof (intro map_cong refl)
    fix r assume "r \<in> set [1..<Suc k]"
    then have "r mod length (slots w) = r" "r \<noteq> 0" using Suc.prems(2) by (auto simp del: upt_Suc)
    then show "pending w1 r = pending w (Suc r)" by (simp add: w1(4))
  qed
  also have "\<dots> = map (pending w) [2..<Suc (Suc k)]"
    by (simp add: map_Suc_upt [symmetric] comp_def numeral_2_eq_2 del: upt_Suc)
  finally have "pending w 1 # map (pending w1) [1..<Suc k] = map (pending w) [1..<Suc (Suc k)]"
    by (simp add: upt_conv_Cons numeral_2_eq_2 del: upt_Suc)
  with w1(1) w2 show ?case by (simp del: upt_Suc)
qed

text \<open>The tick that runs a callback with \<open>t\<close> ticks of delay in a wheel of \<open>n\<close> slots.\<close>

definition due_tick :: "nat \<Rightarrow> nat \<Rightarrow> nat" where
  "due_tick n t = Suc ((t - 1) mod n)"

lemma schedule_pending:
  assumes "tw_ok w" "delay_ticks delay (tick_interval w) < 2 ^ 63"
  shows "\<exists>w'. schedule_after delay cb w = Some w' \<and> tw_ok w' \<and> length (slots w') = length (slots w) \<and>
    (\<forall>r. 1 \<le> r \<longrightarrow> r \<le> length (slots w) \<longrightarrow> pending w' r =
      (if r = due_tick (length (slots w)) (delay_ticks delay (tick_interval w)) then pending w r @ [cb] else pending w r))"
proof -
  let ?n = "length (slots w)" and ?t = "delay_ticks delay (tick_interval w)"
  let ?d = "due_tick ?n ?t" and ?s = "(current_slot w + ?t) mod 2 ^ 64 mod length (slots w)"
  have n: "0 < ?n" using assms by (simp add: tw_ok_def)
  have t: "0 < ?t" by (simp add: delay_ticks_def Let_def)
  have "current_slot w + ?t < 2 ^ 64" using assms by (simp add: tw_ok_def)
  moreover have "(current_slot w + ?t) mod ?n = (current_slot w + ?d) mod ?n"
  proof -
    have "(current_slot w + ?d) mod ?n = (current_slot w + 1 + (?t - 1)) mod ?n"
      unfolding due_tick_def by (metis (no_types) add.assoc add_Suc_right mod_add_right_eq plus_1_eq_Suc add.commute)
    with t show ?thesis by simp
  qed
  ultimately have s: "?s = (current_slot w + ?d) mod ?n" by simp
  have eq: "(current_slot w + r) mod ?n = (current_slot w + ?d) mod ?n \<longleftrightarrow> r = ?d" if "1 \<le> r" "r \<le> ?n" for r
  proof
    assume "(current_slot w + r) mod ?n = (current_slot w + ?d) mod ?n"
    then have "(Suc (current_slot w) + (r - 1)) mod ?n = (Suc (current_slot w) + (?t - 1) mod ?n) mod ?n"
      using that by (simp add: due_tick_def)
    from mod_add_inj [OF this] that n have "r - 1 = (?t - 1) mod ?n" by simp
    with that show "r = ?d" by (simp add: due_tick_def)
  qed simp
  have "schedule_after delay cb w = Some (w\<lparr>slots := (slots w)[?s := slots w ! ?s @ [cb]]\<rparr>)"
    using assms by (auto simp: schedule_after_def tw_ok_def Let_def)
  moreover have "pending (w\<lparr>slots := (slots w)[?s := slots w ! ?s @ [cb]]\<rparr>) r =
      (if r = ?d then pending w r @ [cb] else pending w r)" if "1 \<le> r" "r \<le> ?n" for r
    using eq [OF that] n unfolding s by (auto simp: pending_def nth_list_update)
  ultimately show ?thesis using assms(1) by (simp add: tw_ok_def)
qed

subsection \<open>Properties\<close>

text \<open>A scheduled callback runs exactly once in the next rotation, after the callbacks that
  were already scheduled for that tick and with everything else undisturbed: at the tick of its
  delay when that is at most the number of slots, and otherwise at the tick it has modulo the
  number of slots.\<close>

theorem scheduled_callback_runs:
  assumes "tw_ok w" "delay_ticks delay (tick_interval w) < 2 ^ 63"
    "t = delay_ticks delay (tick_interval w)" "n = length (slots w)"
  shows "\<exists>w1 w2 css. schedule_after delay cb w = Some w1 \<and> ticks n w1 = Some (css, w2) \<and> length css = n \<and>
    (\<forall>r < n. css ! r = pending w (Suc r) @ (if Suc r = (if t \<le> n then t else Suc ((t - 1) mod n)) then [cb] else []))"
proof -
  obtain w1 where w1: "schedule_after delay cb w = Some w1" "tw_ok w1" "length (slots w1) = n"
    "\<And>r. 1 \<le> r \<Longrightarrow> r \<le> n \<Longrightarrow> pending w1 r = (if r = due_tick n t then pending w r @ [cb] else pending w r)"
    using schedule_pending [OF assms(1,2), of cb] assms(3,4) by blast
  obtain w2 where w2: "ticks n w1 = Some (map (pending w1) [1..<Suc n], w2)"
    using ticks_pending [OF w1(2), of n] w1(3) by auto
  have "0 < t" by (simp add: assms(3) delay_ticks_def Let_def)
  then have due: "due_tick n t = (if t \<le> n then t else Suc ((t - 1) mod n))"
    by (auto simp: due_tick_def)
  have "\<forall>r < n. map (pending w1) [1..<Suc n] ! r =
      pending w (Suc r) @ (if Suc r = (if t \<le> n then t else Suc ((t - 1) mod n)) then [cb] else [])"
    unfolding due [symmetric] by (simp add: w1(4) del: upt_Suc)
  with w1(1) w2 show ?thesis
    by (intro exI [of _ w1] exI [of _ w2] exI [of _ "map (pending w1) [1..<Suc n]"]) (simp del: upt_Suc)
qed

lemma scheduled_callback_runs_witness:
  "\<exists>w1 w2 css. schedule_after 120 ''cb'' (tw_new 4 50) = Some w1 \<and> ticks 4 w1 = Some (css, w2) \<and> css ! 1 = [''cb'']"
proof -
  have ok: "tw_ok (tw_new 4 50 :: string timer_wheel)" by (simp add: tw_new_ok)
  have t: "delay_ticks 120 (tick_interval (tw_new 4 50 :: string timer_wheel)) = 2"
    by (simp add: delay_ticks_def quot_trunc_def tw_new_def Let_def)
  have n: "length (slots (tw_new 4 50 :: string timer_wheel)) = 4" by (simp add: tw_new_def)
  from scheduled_callback_runs [OF ok, of 120 2 4 "''cb''"] t n show ?thesis
    by (fastforce simp: tw_new_ok)
qed

text \<open>A delay of one tick more than the wheel has slots fires at the very next tick, not after
  a full rotation: the wheel keeps no rotation count.\<close>

theorem long_delay_fires_early:
  fixes cb :: 'c
  assumes "0 < n" "n < 2 ^ 62" "0 < interval" "interval \<le> 2 ^ 30"
  shows "\<exists>w1 w2. schedule_after (int (n + 1) * interval) cb (tw_new n interval) = Some w1 \<and> tick w1 = Some ([cb], w2)"
proof -
  have ok: "tw_ok (tw_new n interval :: 'c timer_wheel)" using assms by (simp add: tw_new_ok)
  have "quot_trunc (int (n + 1) * interval) interval = int (n + 1)"
    using assms by (simp add: quot_trunc_def sgn_mult)
  then have t: "delay_ticks (int (n + 1) * interval) interval = n + 1"
    using assms(2) by (simp add: delay_ticks_def Let_def nat_add_distrib)
  have l: "length (slots (tw_new n interval :: 'c timer_wheel)) = n"
    "tick_interval (tw_new n interval :: 'c timer_wheel) = interval" by (simp_all add: tw_new_def)
  have "due_tick n (n + 1) = 1" by (simp add: due_tick_def)
  with schedule_pending [OF ok, of "int (n + 1) * interval" cb, unfolded l t] assms(2) obtain w1 where
    w1: "schedule_after (int (n + 1) * interval) cb (tw_new n interval) = Some w1" "tw_ok w1"
      "\<And>r. 1 \<le> r \<Longrightarrow> r \<le> n \<Longrightarrow> pending w1 r = (if r = 1 then pending (tw_new n interval) r @ [cb] else pending (tw_new n interval) r)"
    by auto
  have "pending w1 1 = [cb]" using w1(3) [of 1] assms(1) by (simp add: tw_new_ok)
  with w1(1) tick_pending [OF w1(2)] show ?thesis by auto
qed

lemma long_delay_fires_early_witness:
  "\<exists>w1 w2. schedule_after 450 ''cb'' (tw_new 8 50) = Some w1 \<and> tick w1 = Some ([''cb''], w2)"
  using long_delay_fires_early [of 8 50 "''cb''"] by simp

end
