(* ===== verification/Smart_Container.thy ===== *)
theory Smart_Container
  imports Prelude
begin

section \<open>\<open>SmartContainer\<close> (\<open>topics/memory/smart_container/SmartContainer.h\<close>)\<close>

text \<open>
  A vector over \<open>std::unique_ptr<T[]>\<close>. The model keeps the arrays in a heap, so that the
  storage a container gives up is gone, and every array cell knows whether an object lives in it:
  \<open>new T[n]\<close> makes \<open>n\<close> live objects, \<open>destroy_at\<close> ends the life of one, and \<open>delete[]\<close>
  destroys all of them. Reading, assigning or destroying an object that does not live, an access
  outside the array and the use of a freed array have no defined result in C++; they are the
  error \<open>undefined_behaviour\<close>. \<open>std::out_of_range\<close> is the other error. An allocation that fails
  (\<open>std::bad_alloc\<close>) is not modelled, and sizes are numbers far below \<open>2 ^ 64\<close>.

  For a trivial type (\<open>int\<close>) \<open>destroy\<close> does nothing; \<open>triv\<close> says which kind \<open>T\<close> is, and \<open>dflt\<close> is
  the value-initialised object. The lemmas show that the container of a trivial type is a list,
  and \<open>sc_ok_nontrivial\<close> how far this goes for other types: \<open>pop_back\<close>, \<open>clear\<close> and
  \<open>shrink_to_fit\<close> destroy objects that \<open>delete[]\<close> destroys again.
\<close>

subsection \<open>Heap\<close>

datatype 'a cell = Live 'a | Dead

record 'a heap =
  arr :: "nat \<rightharpoonup> 'a cell list"
  fresh :: nat

datatype sc_error = out_of_range | undefined_behaviour

definition bindE :: "sc_error + 'a \<Rightarrow> ('a \<Rightarrow> sc_error + 'b) \<Rightarrow> sc_error + 'b" where
  "bindE m f = (case m of Inl e \<Rightarrow> Inl e | Inr x \<Rightarrow> f x)"

lemma bindE_simps [simp]: "bindE (Inl e) f = Inl e" "bindE (Inr x) f = f x"
  by (simp_all add: bindE_def)

definition read_cell :: "'a heap \<Rightarrow> nat option \<Rightarrow> nat \<Rightarrow> sc_error + 'a" where
  "read_cell h p i = (case Option.bind p (arr h) of None \<Rightarrow> Inl undefined_behaviour
     | Some cs \<Rightarrow> if i < length cs then (case cs ! i of Live v \<Rightarrow> Inr v | Dead \<Rightarrow> Inl undefined_behaviour)
                 else Inl undefined_behaviour)"

text \<open>Storing a cell: assignment needs a live object, construction only storage.\<close>

definition put_cell :: "'a heap \<Rightarrow> nat option \<Rightarrow> nat \<Rightarrow> 'a cell \<Rightarrow> sc_error + 'a heap" where
  "put_cell h p i c = (case p of None \<Rightarrow> Inl undefined_behaviour
     | Some a \<Rightarrow> (case arr h a of None \<Rightarrow> Inl undefined_behaviour
         | Some cs \<Rightarrow> if i < length cs then Inr (h\<lparr>arr := (arr h)(a \<mapsto> cs[i := c])\<rparr>) else Inl undefined_behaviour))"

definition assign_cell :: "'a heap \<Rightarrow> nat option \<Rightarrow> nat \<Rightarrow> 'a \<Rightarrow> sc_error + 'a heap" where
  "assign_cell h p i v = bindE (read_cell h p i) (\<lambda>_. put_cell h p i (Live v))"

definition destroy_cell :: "bool \<Rightarrow> 'a heap \<Rightarrow> nat option \<Rightarrow> nat \<Rightarrow> sc_error + 'a heap" where
  "destroy_cell triv h p i = (if triv then Inr h else bindE (read_cell h p i) (\<lambda>_. put_cell h p i Dead))"

fun destroy_range :: "bool \<Rightarrow> 'a heap \<Rightarrow> nat option \<Rightarrow> nat list \<Rightarrow> sc_error + 'a heap" where
  "destroy_range triv h p [] = Inr h"
| "destroy_range triv h p (i # is) = bindE (destroy_cell triv h p i) (\<lambda>h. destroy_range triv h p is)"

definition alloc_array :: "'a \<Rightarrow> nat \<Rightarrow> 'a heap \<Rightarrow> nat \<times> 'a heap" where
  "alloc_array dflt n h = (fresh h, h\<lparr>arr := (arr h)(fresh h \<mapsto> replicate n (Live dflt)), fresh := fresh h + 1\<rparr>)"

definition is_live :: "'a cell \<Rightarrow> bool" where
  "is_live c \<longleftrightarrow> (case c of Live v \<Rightarrow> True | Dead \<Rightarrow> False)"

lemma is_live_simps [simp]: "is_live (Live v)" "\<not> is_live Dead"
  by (simp_all add: is_live_def)

definition delete_array :: "bool \<Rightarrow> 'a heap \<Rightarrow> nat option \<Rightarrow> sc_error + 'a heap" where
  "delete_array triv h p = (case p of None \<Rightarrow> Inr h
     | Some a \<Rightarrow> (case arr h a of None \<Rightarrow> Inl undefined_behaviour
         | Some cs \<Rightarrow> if triv \<or> list_all is_live cs then Inr (h\<lparr>arr := (arr h)(a := None)\<rparr>)
                     else Inl undefined_behaviour))"

subsection \<open>The container\<close>

record sc =
  sc_data :: "nat option"
  sc_size :: nat
  sc_capacity :: nat

definition sc_new :: sc where
  "sc_new = \<lparr>sc_data = None, sc_size = 0, sc_capacity = 0\<rparr>"

text \<open>Moving or copying the first \<open>n\<close> elements of one array into another by assignment.\<close>

fun copy_cells :: "'a heap \<Rightarrow> nat option \<Rightarrow> nat option \<Rightarrow> nat list \<Rightarrow> sc_error + 'a heap" where
  "copy_cells h src dst [] = Inr h"
| "copy_cells h src dst (i # is) =
     bindE (read_cell h src i) (\<lambda>v. bindE (assign_cell h dst i v) (\<lambda>h. copy_cells h src dst is))"

text \<open>\<open>reserve\<close>; its two branches differ in how they copy, not in the result.\<close>

definition sc_reserve :: "bool \<Rightarrow> 'a \<Rightarrow> nat \<Rightarrow> 'a heap \<times> sc \<Rightarrow> sc_error + 'a heap \<times> sc" where
  "sc_reserve triv dflt new_cap s = (case s of (h, c) \<Rightarrow>
     if new_cap \<le> sc_capacity c then Inr (h, c)
     else
       let (a, h) = alloc_array dflt new_cap h in
       bindE (if sc_data c \<noteq> None \<and> 0 < sc_size c then copy_cells h (sc_data c) (Some a) [0..<sc_size c] else Inr h) (\<lambda>h.
       bindE (delete_array triv h (sc_data c)) (\<lambda>h.
       Inr (h, c\<lparr>sc_data := Some a, sc_capacity := new_cap\<rparr>))))"

definition grow_if_full :: "bool \<Rightarrow> 'a \<Rightarrow> 'a heap \<times> sc \<Rightarrow> sc_error + 'a heap \<times> sc" where
  "grow_if_full triv dflt s = (case s of (h, c) \<Rightarrow>
     if sc_size c = sc_capacity c
     then sc_reserve triv dflt (if sc_capacity c = 0 then 1 else sc_capacity c * 2) (h, c) else Inr (h, c))"

definition sc_push_back :: "bool \<Rightarrow> 'a \<Rightarrow> 'a \<Rightarrow> 'a heap \<times> sc \<Rightarrow> sc_error + 'a heap \<times> sc" where
  "sc_push_back triv dflt v s =
     bindE (grow_if_full triv dflt s) (\<lambda>(h, c).
     bindE (assign_cell h (sc_data c) (sc_size c) v) (\<lambda>h. Inr (h, c\<lparr>sc_size := sc_size c + 1\<rparr>)))"

text \<open>
  \<open>push_back(const T &)\<close> reads its argument after the storage was reserved; here the argument
  is a reference to cell \<open>i\<close> of the array at \<open>p\<close>.
\<close>

definition sc_push_back_ref :: "bool \<Rightarrow> 'a \<Rightarrow> nat option \<Rightarrow> nat \<Rightarrow> 'a heap \<times> sc \<Rightarrow> sc_error + 'a heap \<times> sc" where
  "sc_push_back_ref triv dflt p i s =
     bindE (grow_if_full triv dflt s) (\<lambda>(h, c).
     bindE (read_cell h p i) (\<lambda>v.
     bindE (assign_cell h (sc_data c) (sc_size c) v) (\<lambda>h. Inr (h, c\<lparr>sc_size := sc_size c + 1\<rparr>))))"

definition sc_emplace_back :: "bool \<Rightarrow> 'a \<Rightarrow> 'a \<Rightarrow> 'a heap \<times> sc \<Rightarrow> sc_error + 'a heap \<times> sc" where
  "sc_emplace_back triv dflt v s =
     bindE (grow_if_full triv dflt s) (\<lambda>(h, c).
     bindE (put_cell h (sc_data c) (sc_size c) (Live v)) (\<lambda>h. Inr (h, c\<lparr>sc_size := sc_size c + 1\<rparr>)))"

definition sc_empty :: "sc \<Rightarrow> bool" where
  "sc_empty c \<longleftrightarrow> sc_size c = 0"

definition sc_pop_back :: "bool \<Rightarrow> 'a heap \<times> sc \<Rightarrow> sc_error + 'a heap \<times> sc" where
  "sc_pop_back triv s = (case s of (h, c) \<Rightarrow>
     if sc_empty c then Inl out_of_range
     else let c = c\<lparr>sc_size := sc_size c - 1\<rparr> in
       bindE (destroy_cell triv h (sc_data c) (sc_size c)) (\<lambda>h. Inr (h, c)))"

definition sc_clear :: "bool \<Rightarrow> 'a heap \<times> sc \<Rightarrow> sc_error + 'a heap \<times> sc" where
  "sc_clear triv s = (case s of (h, c) \<Rightarrow>
     bindE (destroy_range triv h (sc_data c) [0..<sc_size c]) (\<lambda>h. Inr (h, c\<lparr>sc_size := 0\<rparr>)))"

text \<open>\<open>uninitialized_move\<close> constructs in the new array, whatever lives there.\<close>

fun move_construct :: "'a heap \<Rightarrow> nat option \<Rightarrow> nat option \<Rightarrow> nat list \<Rightarrow> sc_error + 'a heap" where
  "move_construct h src dst [] = Inr h"
| "move_construct h src dst (i # is) =
     bindE (read_cell h src i) (\<lambda>v. bindE (put_cell h dst i (Live v)) (\<lambda>h. move_construct h src dst is))"

definition sc_shrink_to_fit :: "bool \<Rightarrow> 'a \<Rightarrow> 'a heap \<times> sc \<Rightarrow> sc_error + 'a heap \<times> sc" where
  "sc_shrink_to_fit triv dflt s = (case s of (h, c) \<Rightarrow>
     if sc_size c < sc_capacity c then
       let (a, h) = alloc_array dflt (sc_size c) h in
       bindE (move_construct h (sc_data c) (Some a) [0..<sc_size c]) (\<lambda>h.
       bindE (destroy_range triv h (sc_data c) [0..<sc_size c]) (\<lambda>h.
       bindE (delete_array triv h (sc_data c)) (\<lambda>h.
       Inr (h, c\<lparr>sc_data := Some a, sc_capacity := sc_size c\<rparr>))))
     else Inr (h, c))"

definition sc_index :: "nat \<Rightarrow> 'a heap \<times> sc \<Rightarrow> sc_error + 'a" where
  "sc_index pos s = (case s of (h, c) \<Rightarrow> read_cell h (sc_data c) pos)"

definition sc_at :: "nat \<Rightarrow> 'a heap \<times> sc \<Rightarrow> sc_error + 'a" where
  "sc_at pos s = (case s of (h, c) \<Rightarrow> if sc_size c \<le> pos then Inl out_of_range else read_cell h (sc_data c) pos)"

definition sc_front :: "'a heap \<times> sc \<Rightarrow> sc_error + 'a" where
  "sc_front s = (case s of (h, c) \<Rightarrow> read_cell h (sc_data c) 0)"

text \<open>\<open>size_ - 1\<close> wraps around on an empty container, far outside the array.\<close>

definition sc_back :: "'a heap \<times> sc \<Rightarrow> sc_error + 'a" where
  "sc_back s = (case s of (h, c) \<Rightarrow>
     read_cell h (sc_data c) (if sc_size c = 0 then 2 ^ 64 - 1 else sc_size c - 1))"

subsection \<open>Construction, assignment, comparison\<close>

fun push_all :: "bool \<Rightarrow> 'a \<Rightarrow> 'a list \<Rightarrow> 'a heap \<times> sc \<Rightarrow> sc_error + 'a heap \<times> sc" where
  "push_all triv dflt [] s = Inr s"
| "push_all triv dflt (v # vs) s = bindE (sc_push_back triv dflt v s) (push_all triv dflt vs)"

definition sc_init :: "bool \<Rightarrow> 'a \<Rightarrow> 'a list \<Rightarrow> 'a heap \<Rightarrow> sc_error + 'a heap \<times> sc" where
  "sc_init triv dflt ilist h =
     bindE (sc_reserve triv dflt (length ilist) (h, sc_new)) (push_all triv dflt ilist)"

fun push_cells :: "bool \<Rightarrow> 'a \<Rightarrow> nat option \<Rightarrow> nat list \<Rightarrow> 'a heap \<times> sc \<Rightarrow> sc_error + 'a heap \<times> sc" where
  "push_cells triv dflt src [] s = Inr s"
| "push_cells triv dflt src (i # is) s =
     bindE (sc_push_back_ref triv dflt src i s) (push_cells triv dflt src is)"

definition sc_copy :: "bool \<Rightarrow> 'a \<Rightarrow> 'a heap \<times> sc \<Rightarrow> sc_error + 'a heap \<times> sc" where
  "sc_copy triv dflt s = (case s of (h, other) \<Rightarrow>
     bindE (sc_reserve triv dflt (sc_size other) (h, sc_new))
       (push_cells triv dflt (sc_data other) [0..<sc_size other]))"

text \<open>Move construction takes the storage: the new container and what is left of the other.\<close>

definition sc_move :: "sc \<Rightarrow> sc \<times> sc" where
  "sc_move other = (\<lparr>sc_data = sc_data other, sc_size = sc_size other, sc_capacity = sc_capacity other\<rparr>,
     other\<lparr>sc_data := None, sc_size := 0, sc_capacity := 0\<rparr>)"

definition sc_swap :: "sc \<Rightarrow> sc \<Rightarrow> sc \<times> sc" where
  "sc_swap this other =
     (\<lparr>sc_data = sc_data other, sc_size = sc_size other, sc_capacity = sc_capacity other\<rparr>,
      \<lparr>sc_data = sc_data this, sc_size = sc_size this, sc_capacity = sc_capacity this\<rparr>)"

text \<open>Copy and swap: the temporary, with the old storage, is destroyed at the end.\<close>

definition sc_assign_copy :: "bool \<Rightarrow> 'a \<Rightarrow> sc \<Rightarrow> sc \<Rightarrow> 'a heap \<Rightarrow> sc_error + 'a heap \<times> sc" where
  "sc_assign_copy triv dflt this other h =
     bindE (sc_copy triv dflt (h, other)) (\<lambda>(h, tmp).
       let (this, tmp) = sc_swap this tmp
       in bindE (delete_array triv h (sc_data tmp)) (\<lambda>h. Inr (h, this)))"

definition sc_assign_move :: "bool \<Rightarrow> sc \<Rightarrow> sc \<Rightarrow> 'a heap \<Rightarrow> sc_error + 'a heap \<times> sc \<times> sc" where
  "sc_assign_move triv this other h =
     bindE (delete_array triv h (sc_data this)) (\<lambda>h.
       Inr (h, this\<lparr>sc_data := sc_data other, sc_size := sc_size other, sc_capacity := sc_capacity other\<rparr>,
            other\<lparr>sc_data := None, sc_size := 0, sc_capacity := 0\<rparr>))"

text \<open>The operators return at once when a container is assigned to itself.\<close>

definition sc_op_assign_copy :: "bool \<Rightarrow> bool \<Rightarrow> 'a \<Rightarrow> sc \<Rightarrow> sc \<Rightarrow> 'a heap \<Rightarrow> sc_error + 'a heap \<times> sc" where
  "sc_op_assign_copy self triv dflt this other h =
     (if \<not> self then sc_assign_copy triv dflt this other h else Inr (h, this))"

definition sc_op_assign_move :: "bool \<Rightarrow> bool \<Rightarrow> sc \<Rightarrow> sc \<Rightarrow> 'a heap \<Rightarrow> sc_error + 'a heap \<times> sc \<times> sc" where
  "sc_op_assign_move self triv this other h =
     (if \<not> self then sc_assign_move triv this other h else Inr (h, this, other))"

definition sc_destroy :: "bool \<Rightarrow> 'a heap \<times> sc \<Rightarrow> sc_error + 'a heap" where
  "sc_destroy triv s = (case s of (h, c) \<Rightarrow> delete_array triv h (sc_data c))"

fun eq_cells :: "'a heap \<Rightarrow> nat option \<Rightarrow> nat option \<Rightarrow> nat list \<Rightarrow> sc_error + bool" where
  "eq_cells h p q [] = Inr True"
| "eq_cells h p q (i # is) =
     bindE (read_cell h p i) (\<lambda>x. bindE (read_cell h q i) (\<lambda>y. if x \<noteq> y then Inr False else eq_cells h p q is))"

definition sc_eq :: "'a heap \<Rightarrow> sc \<Rightarrow> sc \<Rightarrow> sc_error + bool" where
  "sc_eq h this rhs = (if sc_size this \<noteq> sc_size rhs then Inr False
     else eq_cells h (sc_data this) (sc_data rhs) [0..<sc_size this])"

subsection \<open>Iterators\<close>

text \<open>An iterator is a pointer: an array and an offset in it, which may lie outside.\<close>

type_synonym iter = "nat option \<times> int"

definition it_begin :: "sc \<Rightarrow> iter" where "it_begin c = (sc_data c, 0)"
definition it_end :: "sc \<Rightarrow> iter" where "it_end c = (sc_data c, int (sc_size c))"

definition it_deref :: "'a heap \<Rightarrow> iter \<Rightarrow> sc_error + 'a" where
  "it_deref h it = (if snd it < 0 then Inl undefined_behaviour else read_cell h (fst it) (nat (snd it)))"

definition it_inc :: "iter \<Rightarrow> iter" where "it_inc it = (fst it, snd it + 1)"
definition it_dec :: "iter \<Rightarrow> iter" where "it_dec it = (fst it, snd it - 1)"

text \<open>Post-increment and post-decrement: the old iterator, and the new one.\<close>

definition it_post_inc :: "iter \<Rightarrow> iter \<times> iter" where "it_post_inc it = (let tmp = it in (tmp, it_inc it))"
definition it_post_dec :: "iter \<Rightarrow> iter \<times> iter" where "it_post_dec it = (let tmp = it in (tmp, it_dec it))"
definition it_add :: "iter \<Rightarrow> int \<Rightarrow> iter" where "it_add it n = (fst it, snd it + n)"
definition it_sub :: "iter \<Rightarrow> int \<Rightarrow> iter" where "it_sub it n = (fst it, snd it - n)"

text \<open>The distance of two iterators is defined in one array only.\<close>

definition it_diff :: "iter \<Rightarrow> iter \<Rightarrow> int option" where
  "it_diff it rhs = (if fst it = fst rhs then Some (snd it - snd rhs) else None)"

text \<open>\<open>for (auto it = begin; it != end; ++it)\<close>, collecting the elements, with the distance as fuel.\<close>

fun it_walk :: "nat \<Rightarrow> 'a heap \<Rightarrow> iter \<Rightarrow> iter \<Rightarrow> sc_error + 'a list" where
  "it_walk n h it stop = (if it = stop then Inr []
     else case n of 0 \<Rightarrow> Inl undefined_behaviour
       | Suc n \<Rightarrow> bindE (it_deref h it) (\<lambda>v. bindE (it_walk n h (it_inc it) stop) (\<lambda>vs. Inr (v # vs))))"

subsection \<open>Representation\<close>

text \<open>\<open>sc_ok h c xs\<close>: the container \<open>c\<close> in the heap \<open>h\<close> holds the list \<open>xs\<close>, and all its cells are live.\<close>

definition heap_ok :: "'a heap \<Rightarrow> bool" where
  "heap_ok h \<longleftrightarrow> (\<forall>a. arr h a \<noteq> None \<longrightarrow> a < fresh h)"

definition sc_ok :: "'a heap \<Rightarrow> sc \<Rightarrow> 'a list \<Rightarrow> bool" where
  "sc_ok h c xs \<longleftrightarrow> sc_size c = length xs \<and>
     (case sc_data c of None \<Rightarrow> xs = [] \<and> sc_capacity c = 0
      | Some a \<Rightarrow> \<exists>cs. arr h a = Some cs \<and> length cs = sc_capacity c \<and> list_all is_live cs \<and>
          length xs \<le> length cs \<and> (\<forall>i<length xs. cs ! i = Live (xs ! i)))"

text \<open>\<open>keeps h h' p\<close>: going from \<open>h\<close> to \<open>h'\<close> touched no old array but the one at \<open>p\<close>.\<close>

definition keeps :: "'a heap \<Rightarrow> 'a heap \<Rightarrow> nat option \<Rightarrow> bool" where
  "keeps h h' p \<longleftrightarrow> (\<forall>b. arr h b \<noteq> None \<longrightarrow> p \<noteq> Some b \<longrightarrow> arr h' b = arr h b)"

lemma keeps_refl [simp]: "keeps h h p"
  by (simp add: keeps_def)

lemma sc_ok_keeps:
  "sc_ok h d xs \<Longrightarrow> keeps h h' p \<Longrightarrow> sc_data d = None \<or> sc_data d \<noteq> p \<Longrightarrow> sc_ok h' d xs"
  by (auto simp: sc_ok_def keeps_def split: option.splits)

lemma sc_new_ok [simp]: "sc_ok h sc_new []"
  by (simp add: sc_ok_def sc_new_def)

lemma heap_same [simp]: "arr h b = Some ds \<Longrightarrow> h\<lparr>arr := (arr h)(b \<mapsto> ds)\<rparr> = h"
  by (simp add: fun_upd_idem)

lemma sc_read: "sc_ok h c xs \<Longrightarrow> i < length xs \<Longrightarrow> read_cell h (sc_data c) i = Inr (xs ! i)"
  by (auto simp: sc_ok_def read_cell_def split: option.splits)

text \<open>Assigning to a live cell.\<close>

lemma assign_live:
  assumes "arr h a = Some cs" "i < length cs" "list_all is_live cs"
  shows "assign_cell h (Some a) i v = Inr (h\<lparr>arr := (arr h)(a \<mapsto> cs[i := Live v])\<rparr>)"
proof -
  have "is_live (cs ! i)" using assms(2,3) by (simp add: list_all_length)
  then obtain w where "cs ! i = Live w" by (cases "cs ! i") auto
  with assms show ?thesis by (simp add: assign_cell_def read_cell_def put_cell_def)
qed

lemma live_update: "list_all is_live cs \<Longrightarrow> list_all is_live (cs[i := Live v])"
  by (cases "i < length cs") (auto simp: list_all_length nth_list_update)

definition set_cells :: "(nat \<Rightarrow> 'a) \<Rightarrow> nat list \<Rightarrow> 'a cell list \<Rightarrow> 'a cell list" where
  "set_cells f is ds = fold (\<lambda>i d. d[i := Live (f i)]) is ds"

lemma set_cells_upt:
  "length (set_cells f [0..<k] ds) = length ds"
  "i < length ds \<Longrightarrow> set_cells f [0..<k] ds ! i = (if i < k then Live (f i) else ds ! i)"
proof -
  show len: "length (set_cells f [0..<k] ds) = length ds" for k by (induction k) (simp_all add: set_cells_def)
  assume i: "i < length ds"
  show "set_cells f [0..<k] ds ! i = (if i < k then Live (f i) else ds ! i)"
  proof (induction k)
    case (Suc k)
    have s: "set_cells f [0..<Suc k] ds = (set_cells f [0..<k] ds)[k := Live (f k)]" by (simp add: set_cells_def)
    show ?case
      using Suc i len [of k] unfolding s by (cases "i = k") (simp_all add: less_Suc_eq)
  qed (simp add: set_cells_def)
qed

lemma copy_cells_set:
  assumes "a \<noteq> b" "arr h a = Some cs" "arr h b = Some ds" "list_all is_live ds"
    "\<And>i. i \<in> set is \<Longrightarrow> i < length cs \<and> cs ! i = Live (f i) \<and> i < length ds"
  shows "copy_cells h (Some a) (Some b) is = Inr (h\<lparr>arr := (arr h)(b \<mapsto> set_cells f is ds)\<rparr>)"
    and "move_construct h (Some a) (Some b) is = Inr (h\<lparr>arr := (arr h)(b \<mapsto> set_cells f is ds)\<rparr>)"
proof -
  have "copy_cells h (Some a) (Some b) is = Inr (h\<lparr>arr := (arr h)(b \<mapsto> set_cells f is ds)\<rparr>) \<and>
    move_construct h (Some a) (Some b) is = Inr (h\<lparr>arr := (arr h)(b \<mapsto> set_cells f is ds)\<rparr>)"
    using assms
  proof (induction "is" arbitrary: h ds)
    case Nil
    from heap_same [OF Nil.prems(3)] show ?case
      by (simp add: set_cells_def del: heap_same fun_upd_apply)
  next
    case (Cons i "is")
    let ?ds = "ds[i := Live (f i)]"
    let ?h = "h\<lparr>arr := (arr h)(b \<mapsto> ?ds)\<rparr>"
    have i: "i < length cs" "cs ! i = Live (f i)" "i < length ds" using Cons.prems(5) [of i] by simp_all
    have rd: "read_cell h (Some a) i = Inr (f i)" using i Cons.prems(2) by (simp add: read_cell_def)
    have "copy_cells ?h (Some a) (Some b) is = Inr (?h\<lparr>arr := (arr ?h)(b \<mapsto> set_cells f is ?ds)\<rparr>) \<and>
      move_construct ?h (Some a) (Some b) is = Inr (?h\<lparr>arr := (arr ?h)(b \<mapsto> set_cells f is ?ds)\<rparr>)"
      using Cons.prems by (intro Cons.IH) (auto intro: live_update)
    moreover have "assign_cell h (Some b) i (f i) = Inr ?h"
      using assign_live [OF Cons.prems(3) i(3) Cons.prems(4)] by simp
    moreover have "put_cell h (Some b) i (Live (f i)) = Inr ?h" using i(3) Cons.prems(3) by (simp add: put_cell_def)
    ultimately show ?case using rd by (simp add: set_cells_def del: fun_upd_apply)
  qed
  then show "copy_cells h (Some a) (Some b) is = Inr (h\<lparr>arr := (arr h)(b \<mapsto> set_cells f is ds)\<rparr>)"
    "move_construct h (Some a) (Some b) is = Inr (h\<lparr>arr := (arr h)(b \<mapsto> set_cells f is ds)\<rparr>)" by simp_all
qed

lemma replicate_live: "list_all is_live (replicate n (Live v))"
  by (simp add: list_all_length)

text \<open>The cells of a fresh array after the elements were brought over.\<close>

lemma set_cells_fresh:
  assumes "length xs \<le> n"
  shows "length (set_cells ((!) xs) [0..<length xs] (replicate n (Live d))) = n"
    "list_all is_live (set_cells ((!) xs) [0..<length xs] (replicate n (Live d)))"
    "\<forall>i<length xs. set_cells ((!) xs) [0..<length xs] (replicate n (Live d)) ! i = Live (xs ! i)"
  using assms by (simp_all add: set_cells_upt list_all_length)

lemma sc_okI:
  assumes "arr h a = Some cs" "length cs = n" "list_all is_live cs" "length xs \<le> n" "\<forall>i<length xs. cs ! i = Live (xs ! i)"
  shows "sc_ok h \<lparr>sc_data = Some a, sc_size = length xs, sc_capacity = n\<rparr> xs"
  using assms by (simp add: sc_ok_def)

text \<open>The storage that \<open>reserve\<close> allocates and fills, when there was none and when there was some.\<close>

definition grown :: "'a \<Rightarrow> nat \<Rightarrow> 'a heap \<Rightarrow> 'a heap" where
  "grown dflt n h = h\<lparr>arr := (arr h)(fresh h \<mapsto> replicate n (Live dflt)), fresh := fresh h + 1\<rparr>"

lemma grown_fields [simp]:
  "arr (grown dflt n h) = (arr h)(fresh h \<mapsto> replicate n (Live dflt))" "fresh (grown dflt n h) = fresh h + 1"
  by (simp_all add: grown_def)

lemma alloc_grown: "alloc_array dflt n h = (fresh h, grown dflt n h)"
  by (simp add: alloc_array_def grown_def)

lemma grown_ok: "heap_ok h \<Longrightarrow> heap_ok (grown dflt n h) \<and> arr h (fresh h) = None"
  by (auto simp: heap_ok_def less_Suc_eq)

lemma sc_reserve_first:
  assumes "heap_ok h" "sc_ok h c xs" "sc_data c = None" "sc_capacity c < n"
  shows "sc_reserve triv dflt n (h, c) = Inr (grown dflt n h, c\<lparr>sc_data := Some (fresh h), sc_capacity := n\<rparr>)"
    and "sc_ok (grown dflt n h) (c\<lparr>sc_data := Some (fresh h), sc_capacity := n\<rparr>) xs"
proof -
  have "xs = []" using assms(2,3) by (simp add: sc_ok_def)
  then show "sc_ok (grown dflt n h) (c\<lparr>sc_data := Some (fresh h), sc_capacity := n\<rparr>) xs"
    using assms(2) by (simp add: sc_ok_def replicate_live)
  show "sc_reserve triv dflt n (h, c) = Inr (grown dflt n h, c\<lparr>sc_data := Some (fresh h), sc_capacity := n\<rparr>)"
    using assms(3,4) by (simp add: sc_reserve_def delete_array_def alloc_array_def grown_def)
qed

lemma sc_reserve_again:
  fixes dflt :: 'a and h :: "'a heap"
  assumes "heap_ok h" "sc_ok h c xs" "sc_data c = Some b" "sc_capacity c < n"
  defines "ds \<equiv> set_cells ((!) xs) [0..<length xs] (replicate n (Live dflt))"
  defines "h' \<equiv> (grown dflt n h)\<lparr>arr := (arr h)(fresh h \<mapsto> ds, b := None)\<rparr>"
  shows "sc_reserve triv dflt n (h, c) = Inr (h', c\<lparr>sc_data := Some (fresh h), sc_capacity := n\<rparr>)"
    and "sc_ok h' (c\<lparr>sc_data := Some (fresh h), sc_capacity := n\<rparr>) xs"
proof -
  let ?a = "fresh h" and ?h1 = "grown dflt n h"
  from assms(2,3) obtain cs where cs: "arr h b = Some cs" "length cs = sc_capacity c" "list_all is_live cs"
    "length xs \<le> length cs" "\<forall>i<length xs. cs ! i = Live (xs ! i)" by (auto simp: sc_ok_def)
  have ab: "b \<noteq> ?a" using cs(1) grown_ok [OF assms(1)] by auto
  have n: "length xs \<le> n" using cs(2,4) assms(4) by simp
  note ds = set_cells_fresh [OF n, of dflt, folded ds_def]
  have sz: "sc_size c = length xs" using assms(2) by (simp add: sc_ok_def)
  define h2 where "h2 = ?h1\<lparr>arr := (arr ?h1)(?a \<mapsto> ds)\<rparr>"
  have cp: "copy_cells ?h1 (Some b) (Some ?a) [0..<length xs] = Inr h2"
    unfolding h2_def ds_def using ab cs n by (intro copy_cells_set(1)) (auto simp: replicate_live)
  have cond: "(if sc_data c \<noteq> None \<and> 0 < sc_size c then copy_cells ?h1 (sc_data c) (Some ?a) [0..<sc_size c] else Inr ?h1) = Inr h2"
  proof (cases "xs = []")
    case True
    then have "h2 = ?h1" by (simp add: h2_def ds_def set_cells_def grown_def)
    with True sz show ?thesis by simp
  qed (use cp assms(3) sz in simp)
  have "delete_array triv h2 (Some b) = Inr h'"
    using ab cs(1,3) by (simp add: delete_array_def h2_def h'_def)
  then show "sc_reserve triv dflt n (h, c) = Inr (h', c\<lparr>sc_data := Some ?a, sc_capacity := n\<rparr>)"
    using assms(3,4) cond by (simp add: sc_reserve_def alloc_grown)
  have "arr h' ?a = Some ds" using ab by (simp add: h'_def)
  from sc_okI [OF this ds(1,2) n ds(3)] show "sc_ok h' (c\<lparr>sc_data := Some ?a, sc_capacity := n\<rparr>) xs"
    using sz by (simp add: sc_ok_def)
qed

lemma sc_reserve_ok:
  assumes "heap_ok h" "sc_ok h c xs"
  obtains h' c' where "sc_reserve triv dflt n (h, c) = Inr (h', c')" "heap_ok h'" "sc_ok h' c' xs"
    "sc_capacity c' = max n (sc_capacity c)" "keeps h h' (sc_data c)"
    "sc_capacity c < n \<longrightarrow> (\<forall>a. sc_data c = Some a \<longrightarrow> arr h' a = None)"
    "sc_data c' = sc_data c \<or> sc_data c' = Some (fresh h)" "fresh h \<le> fresh h'"
proof (cases "n \<le> sc_capacity c")
  case True
  with assms that [of h c] show thesis by (simp add: sc_reserve_def max_def)
next
  case False
  then have less: "sc_capacity c < n" by simp
  note g = grown_ok [OF assms(1), of dflt n]
  show thesis
  proof (cases "sc_data c")
    case None
    have "keeps h (grown dflt n h) (sc_data c)" using g by (auto simp: keeps_def)
    with that [OF sc_reserve_first(1) [OF assms None less] _ sc_reserve_first(2) [OF assms None less]] g less None
    show thesis by (simp add: max_def)
  next
    case (Some b)
    let ?h' = "(grown dflt n h)\<lparr>arr := (arr h)(fresh h \<mapsto> set_cells ((!) xs) [0..<length xs] (replicate n (Live dflt)), b := None)\<rparr>"
    have "heap_ok ?h'" using assms(1) by (auto simp: heap_ok_def less_Suc_eq)
    moreover have "keeps h ?h' (sc_data c)" using g Some by (auto simp: keeps_def)
    ultimately show thesis
      using that [OF sc_reserve_again(1) [OF assms Some less] _ sc_reserve_again(2) [OF assms Some less]] less Some
      by (simp add: max_def)
  qed
qed

lemma grow_if_full_ok:
  assumes "heap_ok h" "sc_ok h c xs"
  obtains h' c' where "grow_if_full triv dflt (h, c) = Inr (h', c')" "heap_ok h'" "sc_ok h' c' xs"
    "length xs < sc_capacity c'" "keeps h h' (sc_data c)" "sc_data c' = sc_data c \<or> sc_data c' = Some (fresh h)"
    "fresh h \<le> fresh h'" "sc_size c = sc_capacity c \<longrightarrow> (\<forall>a. sc_data c = Some a \<longrightarrow> arr h' a = None)"
    "sc_capacity c' = (if sc_size c = sc_capacity c then max 1 (2 * sc_capacity c) else sc_capacity c)"
proof (cases "sc_size c = sc_capacity c")
  case True
  let ?n = "if sc_capacity c = 0 then 1 else sc_capacity c * 2"
  obtain h' c' where r: "sc_reserve triv dflt ?n (h, c) = Inr (h', c')" "heap_ok h'" "sc_ok h' c' xs"
    "sc_capacity c' = max ?n (sc_capacity c)" "keeps h h' (sc_data c)"
    "sc_capacity c < ?n \<longrightarrow> (\<forall>a. sc_data c = Some a \<longrightarrow> arr h' a = None)"
    "sc_data c' = sc_data c \<or> sc_data c' = Some (fresh h)" "fresh h \<le> fresh h'"
    using sc_reserve_ok [OF assms, where triv = triv and dflt = dflt and n = ?n] .
  have sz: "sc_size c = length xs" using assms(2) by (simp add: sc_ok_def)
  show thesis
    by (rule that [of h' c']) (use r True sz in \<open>auto simp: grow_if_full_def max_def\<close>)
next
  case False
  have "sc_size c = length xs" "length xs \<le> sc_capacity c"
    using assms(2) by (auto simp: sc_ok_def split: option.splits)
  with False assms that [of h c] show thesis by (simp add: grow_if_full_def)
qed

subsection \<open>The operations on a list\<close>

text \<open>Writing the cell behind the last element, when there is room.\<close>

lemma sc_append:
  assumes "heap_ok h" "sc_ok h c xs" "length xs < sc_capacity c"
  obtains h' where "assign_cell h (sc_data c) (sc_size c) v = Inr h'"
    "put_cell h (sc_data c) (sc_size c) (Live v) = Inr h'" "heap_ok h'" "sc_ok h' (c\<lparr>sc_size := sc_size c + 1\<rparr>) (xs @ [v])"
    "keeps h h' (sc_data c)" "fresh h' = fresh h"
proof -
  from assms(2,3) obtain a cs where cs: "sc_data c = Some a" "sc_size c = length xs" "arr h a = Some cs"
    "length cs = sc_capacity c" "list_all is_live cs" "\<forall>i<length xs. cs ! i = Live (xs ! i)"
    by (auto simp: sc_ok_def split: option.splits)
  let ?h = "h\<lparr>arr := (arr h)(a \<mapsto> cs[length xs := Live v])\<rparr>"
  have "heap_ok ?h" using assms(1) cs(3) by (auto simp: heap_ok_def)
  moreover have "sc_ok ?h (c\<lparr>sc_size := sc_size c + 1\<rparr>) (xs @ [v])"
    using cs assms(3) live_update [OF cs(5)] by (auto simp: sc_ok_def nth_list_update nth_append less_Suc_eq)
  moreover have "assign_cell h (sc_data c) (sc_size c) v = Inr ?h"
    using cs assms(3) by (simp add: assign_live)
  moreover have "put_cell h (sc_data c) (sc_size c) (Live v) = Inr ?h"
    using cs assms(3) by (simp add: put_cell_def)
  moreover have "keeps h ?h (sc_data c)" using cs(1) by (auto simp: keeps_def)
  ultimately show thesis using that by simp
qed

lemma keeps_trans:
  "keeps h h1 p \<Longrightarrow> keeps h1 h2 q \<Longrightarrow> q = p \<or> q = Some (fresh h) \<Longrightarrow> heap_ok h \<Longrightarrow> keeps h h2 p"
  unfolding keeps_def heap_ok_def by (metis less_irrefl option.inject)

lemma sc_push_ok:
  assumes "heap_ok h" "sc_ok h c xs"
  obtains h' c' where "sc_push_back triv dflt v (h, c) = Inr (h', c')" "sc_emplace_back triv dflt v (h, c) = Inr (h', c')"
    "heap_ok h'" "sc_ok h' c' (xs @ [v])" "keeps h h' (sc_data c)"
    "sc_data c' = sc_data c \<or> sc_data c' = Some (fresh h)" "fresh h \<le> fresh h'"
    "sc_capacity c' = (if length xs = sc_capacity c then max 1 (2 * sc_capacity c) else sc_capacity c)"
proof -
  have sz: "sc_size c = length xs" using assms(2) by (simp add: sc_ok_def)
  obtain h1 c1 where g: "grow_if_full triv dflt (h, c) = Inr (h1, c1)" "heap_ok h1" "sc_ok h1 c1 xs"
    "length xs < sc_capacity c1" "keeps h h1 (sc_data c)" "sc_data c1 = sc_data c \<or> sc_data c1 = Some (fresh h)"
    "fresh h \<le> fresh h1"
    "sc_capacity c1 = (if sc_size c = sc_capacity c then max 1 (2 * sc_capacity c) else sc_capacity c)"
    using grow_if_full_ok [OF assms, where triv = triv and dflt = dflt] by metis
  obtain h2 where w: "assign_cell h1 (sc_data c1) (sc_size c1) v = Inr h2"
    "put_cell h1 (sc_data c1) (sc_size c1) (Live v) = Inr h2" "heap_ok h2"
    "sc_ok h2 (c1\<lparr>sc_size := sc_size c1 + 1\<rparr>) (xs @ [v])" "keeps h1 h2 (sc_data c1)" "fresh h2 = fresh h1"
    using sc_append [OF g(2-4), where v = v] .
  have "keeps h h2 (sc_data c)" using keeps_trans [OF g(5) w(5) g(6) assms(1)] .
  with g w sz that [of h2 "c1\<lparr>sc_size := sc_size c1 + 1\<rparr>"] show thesis
    by (simp add: sc_push_back_def sc_emplace_back_def)
qed

text \<open>A reference into another array, or into spare capacity, survives the reservation.\<close>

lemma sc_push_back_ref_other:
  assumes "heap_ok h" "sc_ok h c xs" "read_cell h p i = Inr v" "p \<noteq> sc_data c \<or> length xs < sc_capacity c"
  shows "sc_push_back_ref triv dflt p i (h, c) = sc_push_back triv dflt v (h, c)"
proof -
  have sz: "sc_size c = length xs" using assms(2) by (simp add: sc_ok_def)
  obtain h1 c1 where g: "grow_if_full triv dflt (h, c) = Inr (h1, c1)" "keeps h h1 (sc_data c)"
    using grow_if_full_ok [OF assms(1,2), where triv = triv and dflt = dflt] by metis
  have "read_cell h1 p i = Inr v"
  proof (cases "p = sc_data c")
    case True
    with assms(4) have "h1 = h" using g(1) sz by (simp add: grow_if_full_def)
    with assms(3) show ?thesis by simp
  next
    case False
    from assms(3) obtain b where b: "p = Some b" "arr h b \<noteq> None"
      by (auto simp: read_cell_def bind_eq_Some_conv split: option.splits)
    with False g(2) have "arr h1 b = arr h b" by (simp add: keeps_def)
    with assms(3) b show ?thesis by (simp add: read_cell_def)
  qed
  with g(1) show ?thesis by (simp add: sc_push_back_ref_def sc_push_back_def)
qed

text \<open>A reference to an element of the full container itself dangles when it is read.\<close>

lemma sc_push_back_ref_self:
  assumes "heap_ok h" "sc_ok h c xs" "length xs = sc_capacity c" "sc_data c = Some a"
  shows "sc_push_back_ref triv dflt (sc_data c) i (h, c) = Inl undefined_behaviour"
proof -
  have sz: "sc_size c = length xs" using assms(2) by (simp add: sc_ok_def)
  obtain h1 c1 where "grow_if_full triv dflt (h, c) = Inr (h1, c1)" "arr h1 a = None"
    using grow_if_full_ok [OF assms(1,2), where triv = triv and dflt = dflt] assms(3,4) sz by metis
  with assms(4) show ?thesis by (simp add: sc_push_back_ref_def read_cell_def)
qed

lemma sc_push_all_ok:
  assumes "heap_ok h" "sc_ok h c xs"
  shows "\<exists>h' c'. push_all triv dflt vs (h, c) = Inr (h', c') \<and> heap_ok h' \<and> sc_ok h' c' (xs @ vs)"
  using assms
proof (induction vs arbitrary: h c xs)
  case (Cons v vs)
  obtain h1 c1 where p: "sc_push_back triv dflt v (h, c) = Inr (h1, c1)" "heap_ok h1" "sc_ok h1 c1 (xs @ [v])"
    using sc_push_ok [OF Cons.prems, where triv = triv and dflt = dflt and v = v] by metis
  from Cons.IH [OF p(2,3)] p(1) show ?case by simp
qed simp

theorem sc_init_ok:
  assumes "heap_ok h"
  shows "\<exists>h' c'. sc_init triv dflt xs h = Inr (h', c') \<and> heap_ok h' \<and> sc_ok h' c' xs"
proof -
  obtain h1 c1 where "sc_reserve triv dflt (length xs) (h, sc_new) = Inr (h1, c1)" "heap_ok h1" "sc_ok h1 c1 []"
    using sc_reserve_ok [OF assms sc_new_ok, where triv = triv and dflt = dflt and n = "length xs"] by metis
  with sc_push_all_ok [of h1 c1 "[]" triv dflt xs] show ?thesis by (simp add: sc_init_def)
qed

text \<open>Copying from another container: the source stays as it is, and the copy has its own array.\<close>

lemma push_cells_ok:
  assumes "heap_ok h" "sc_ok h c xs" "sc_ok h other ys" "sc_data c \<noteq> sc_data other \<or> ys = []" "\<forall>i \<in> set js. i < length ys"
  shows "\<exists>h' c'. push_cells triv dflt (sc_data other) js (h, c) = Inr (h', c') \<and> heap_ok h' \<and>
    sc_ok h' c' (xs @ map ((!) ys) js) \<and> sc_ok h' other ys \<and> (sc_data c' \<noteq> sc_data other \<or> ys = []) \<and>
    keeps h h' (sc_data c) \<and> (sc_data c' = sc_data c \<or> (\<exists>a \<ge> fresh h. sc_data c' = Some a)) \<and> fresh h \<le> fresh h'"
  using assms
proof (induction js arbitrary: h c xs)
  case (Cons i js)
  have i: "i < length ys" and ne: "ys \<noteq> []" "sc_data c \<noteq> sc_data other" using Cons.prems(4,5) by auto
  have "sc_push_back_ref triv dflt (sc_data other) i (h, c) = sc_push_back triv dflt (ys ! i) (h, c)"
    using sc_push_back_ref_other [OF Cons.prems(1,2) sc_read [OF Cons.prems(3) i]] ne by simp
  moreover obtain h1 c1 where p: "sc_push_back triv dflt (ys ! i) (h, c) = Inr (h1, c1)" "heap_ok h1"
    "sc_ok h1 c1 (xs @ [ys ! i])" "keeps h h1 (sc_data c)" "sc_data c1 = sc_data c \<or> sc_data c1 = Some (fresh h)"
    "fresh h \<le> fresh h1"
    using sc_push_ok [OF Cons.prems(1,2), where triv = triv and dflt = dflt and v = "ys ! i"] by metis
  moreover have o1: "sc_ok h1 other ys" using sc_ok_keeps [OF Cons.prems(3) p(4)] ne by simp
  moreover have d1: "sc_data c1 \<noteq> sc_data other"
  proof
    assume eq: "sc_data c1 = sc_data other"
    with p(5) ne have "sc_data other = Some (fresh h)" by auto
    with Cons.prems(1,3) show False by (auto simp: sc_ok_def heap_ok_def)
  qed
  ultimately obtain h2 c2 where q: "push_cells triv dflt (sc_data other) js (h1, c1) = Inr (h2, c2)" "heap_ok h2"
    "sc_ok h2 c2 ((xs @ [ys ! i]) @ map ((!) ys) js)" "sc_ok h2 other ys" "sc_data c2 \<noteq> sc_data other \<or> ys = []"
    "keeps h1 h2 (sc_data c1)" "sc_data c2 = sc_data c1 \<or> (\<exists>a \<ge> fresh h1. sc_data c2 = Some a)" "fresh h1 \<le> fresh h2"
    using Cons.IH [OF p(2,3) o1] Cons.prems(5) by auto
  have "keeps h h2 (sc_data c)" using keeps_trans [OF p(4) q(6) p(5) Cons.prems(1)] .
  moreover have "sc_data c2 = sc_data c \<or> (\<exists>a \<ge> fresh h. sc_data c2 = Some a)"
    using q(7) p(5,6) by (metis le_trans order_refl)
  ultimately show ?case using q p
      sc_push_back_ref_other [OF Cons.prems(1,2) sc_read [OF Cons.prems(3) i]] ne by simp
qed auto

theorem sc_copy_ok:
  assumes "heap_ok h" "sc_ok h other ys"
  shows "\<exists>h' c'. sc_copy triv dflt (h, other) = Inr (h', c') \<and> heap_ok h' \<and> sc_ok h' c' ys \<and> sc_ok h' other ys \<and>
    (sc_data c' = None \<or> (\<exists>a \<ge> fresh h. sc_data c' = Some a)) \<and> keeps h h' None"
proof -
  have sz: "sc_size other = length ys" using assms(2) by (simp add: sc_ok_def)
  obtain h1 c1 where r: "sc_reserve triv dflt (length ys) (h, sc_new) = Inr (h1, c1)" "heap_ok h1" "sc_ok h1 c1 []"
    "keeps h h1 None" "sc_data c1 = None \<or> sc_data c1 = Some (fresh h)" "fresh h \<le> fresh h1"
    using sc_reserve_ok [OF assms(1) sc_new_ok, where triv = triv and dflt = dflt and n = "length ys"]
    by (metis sc.select_convs(1) sc_new_def)
  have o1: "sc_ok h1 other ys"
    using assms(2) r(4) unfolding sc_ok_def keeps_def by (auto split: option.splits)
  have d: "sc_data c1 \<noteq> sc_data other \<or> ys = []"
  proof (rule ccontr)
    assume "\<not> ?thesis"
    then have "sc_data c1 = sc_data other" "ys \<noteq> []" by auto
    with r(5) assms show False by (auto simp: sc_ok_def heap_ok_def split: option.splits)
  qed
  obtain h2 c2 where q: "push_cells triv dflt (sc_data other) [0..<length ys] (h1, c1) = Inr (h2, c2)" "heap_ok h2"
    "sc_ok h2 c2 (map ((!) ys) [0..<length ys])" "sc_ok h2 other ys" "keeps h1 h2 (sc_data c1)"
    "sc_data c2 = sc_data c1 \<or> (\<exists>a \<ge> fresh h1. sc_data c2 = Some a)"
    using push_cells_ok [OF r(2,3) o1 d, where triv = triv and dflt = dflt and js = "[0..<length ys]"] by auto
  have "keeps h h2 None" using keeps_trans [OF r(4) q(5) _ assms(1)] r(5) by simp
  moreover have "sc_data c2 = None \<or> (\<exists>a \<ge> fresh h. sc_data c2 = Some a)"
    using q(6) r(5,6) by (metis le_trans order_refl)
  moreover have "sc_copy triv dflt (h, other) = Inr (h2, c2)" using r(1) q(1) sz by (simp add: sc_copy_def)
  ultimately show ?thesis using q(2-4) by (simp add: map_nth)
qed

text \<open>Deleting the storage of a container whose cells are all live.\<close>

lemma sc_delete_ok:
  assumes "heap_ok h" "sc_ok h c xs"
  obtains h' where "delete_array triv h (sc_data c) = Inr h'" "heap_ok h'" "keeps h h' (sc_data c)"
proof (cases "sc_data c")
  case None
  with assms(1) that [of h] show thesis by (simp add: delete_array_def)
next
  case (Some a)
  with assms(2) obtain cs where cs: "arr h a = Some cs" "list_all is_live cs" by (auto simp: sc_ok_def)
  have "heap_ok (h\<lparr>arr := (arr h)(a := None)\<rparr>)" using assms(1) by (simp add: heap_ok_def)
  with cs Some that [of "h\<lparr>arr := (arr h)(a := None)\<rparr>"] show thesis
    by (simp add: delete_array_def keeps_def)
qed

theorem sc_assign_copy_ok:
  assumes "heap_ok h" "sc_ok h this xs" "sc_ok h other ys" "sc_data this \<noteq> sc_data other \<or> sc_data other = None"
  shows "\<exists>h' this'. sc_assign_copy triv dflt this other h = Inr (h', this') \<and> heap_ok h' \<and>
    sc_ok h' this' ys \<and> sc_ok h' other ys"
proof -
  obtain h1 tmp where c: "sc_copy triv dflt (h, other) = Inr (h1, tmp)" "heap_ok h1" "sc_ok h1 tmp ys" "sc_ok h1 other ys"
    "sc_data tmp = None \<or> (\<exists>a \<ge> fresh h. sc_data tmp = Some a)" "keeps h h1 None"
    using sc_copy_ok [OF assms(1,3), of triv dflt] by blast
  have t1: "sc_ok h1 this xs"
    using assms(2) c(6) unfolding sc_ok_def keeps_def by (auto split: option.splits)
  obtain h2 where d: "delete_array triv h1 (sc_data this) = Inr h2" "heap_ok h2" "keeps h1 h2 (sc_data this)"
    using sc_delete_ok [OF c(2) t1] .
  let ?new = "\<lparr>sc_data = sc_data tmp, sc_size = sc_size tmp, sc_capacity = sc_capacity tmp\<rparr>"
  have "sc_data tmp \<noteq> sc_data this \<or> sc_data tmp = None"
    using c(5) assms(1,2) by (auto simp: sc_ok_def heap_ok_def split: option.splits)
  then have "sc_ok h2 tmp ys" using sc_ok_keeps [OF c(3) d(3)] by blast
  moreover have "?new = tmp" by (cases tmp) simp
  ultimately have "sc_ok h2 ?new ys" by (simp only:)
  moreover have "sc_ok h2 other ys" using sc_ok_keeps [OF c(4) d(3)] assms(4) by auto
  ultimately show ?thesis using c(1) d(1,2) by (simp add: sc_assign_copy_def sc_swap_def)
qed

theorem sc_assign_move_ok:
  assumes "heap_ok h" "sc_ok h this xs" "sc_ok h other ys" "sc_data this \<noteq> sc_data other \<or> sc_data other = None"
  shows "\<exists>h' this' other'. sc_assign_move triv this other h = Inr (h', this', other') \<and> heap_ok h' \<and>
    sc_ok h' this' ys \<and> sc_ok h' other' []"
proof -
  obtain h2 where d: "delete_array triv h (sc_data this) = Inr h2" "heap_ok h2" "keeps h h2 (sc_data this)"
    using sc_delete_ok [OF assms(1,2)] .
  have "sc_ok h2 other ys" using sc_ok_keeps [OF assms(3) d(3)] assms(4) by auto
  then have "sc_ok h2 (this\<lparr>sc_data := sc_data other, sc_size := sc_size other, sc_capacity := sc_capacity other\<rparr>) ys"
    by (auto simp: sc_ok_def split: option.splits)
  with d(1,2) show ?thesis by (simp add: sc_assign_move_def) (simp add: sc_ok_def)
qed

lemma eq_cells_ok:
  assumes "sc_ok h c xs" "sc_ok h d ys" "\<forall>i \<in> set is. i < length xs \<and> i < length ys"
  shows "eq_cells h (sc_data c) (sc_data d) is = Inr (\<forall>i \<in> set is. xs ! i = ys ! i)"
  using assms(3) by (induction "is") (simp_all add: sc_read [OF assms(1)] sc_read [OF assms(2)])

theorem sc_eq_ok: "sc_ok h c xs \<Longrightarrow> sc_ok h d ys \<Longrightarrow> sc_eq h c d = Inr (xs = ys)"
proof -
  assume c: "sc_ok h c xs" and d: "sc_ok h d ys"
  then have sz: "sc_size c = length xs" "sc_size d = length ys" by (simp_all add: sc_ok_def)
  show ?thesis
  proof (cases "length xs = length ys")
    case True
    then have eq: "(\<forall>i \<in> set [0..<length xs]. xs ! i = ys ! i) \<longleftrightarrow> xs = ys" by (auto intro: nth_equalityI)
    have "eq_cells h (sc_data c) (sc_data d) [0..<length xs] = Inr (xs = ys)"
      unfolding eq [symmetric] using True by (intro eq_cells_ok [OF c d]) simp
    with True sz show ?thesis by (simp add: sc_eq_def)
  next
    case False
    then have "xs \<noteq> ys" by blast
    with False sz show ?thesis by (simp add: sc_eq_def)
  qed
qed

text \<open>Iterating from \<open>begin\<close> to \<open>end\<close> visits the elements in order.\<close>

lemma it_walk_ok:
  assumes "sc_ok h c xs" "k \<le> length xs" "length xs - k \<le> n"
  shows "it_walk n h (sc_data c, int k) (it_end c) = Inr (drop k xs)"
  using assms(2,3)
proof (induction n arbitrary: k)
  case 0
  then have "k = length xs" by simp
  with assms(1) show ?case by (simp add: it_end_def sc_ok_def)
next
  case (Suc n)
  have e: "it_end c = (sc_data c, int (length xs))" using assms(1) by (simp add: it_end_def sc_ok_def)
  show ?case
  proof (cases "k = length xs")
    case True
    then show ?thesis by (simp add: e)
  next
    case False
    with Suc.prems have k: "k < length xs" by simp
    have "it_walk n h (sc_data c, int (Suc k)) (it_end c) = Inr (drop (Suc k) xs)"
      using Suc.prems k by (intro Suc.IH) simp_all
    with k sc_read [OF assms(1) k] show ?thesis
      by (simp add: e it_deref_def it_inc_def Cons_nth_drop_Suc algebra_simps)
  qed
qed

subsection \<open>Destroying elements\<close>

text \<open>For a trivial type, removing elements keeps every cell usable.\<close>

lemma destroy_range_triv: "destroy_range True h p is = Inr h"
  by (induction "is") (simp_all add: destroy_cell_def)

lemma sc_pop_back_triv:
  assumes "sc_ok h c xs"
  shows "sc_pop_back True (h, c) = (if xs = [] then Inl out_of_range else Inr (h, c\<lparr>sc_size := length xs - 1\<rparr>))"
    "xs \<noteq> [] \<Longrightarrow> sc_ok h (c\<lparr>sc_size := length xs - 1\<rparr>) (butlast xs)"
proof -
  have sz: "sc_size c = length xs" using assms by (simp add: sc_ok_def)
  then show "sc_pop_back True (h, c) = (if xs = [] then Inl out_of_range else Inr (h, c\<lparr>sc_size := length xs - 1\<rparr>))"
    by (simp add: sc_pop_back_def sc_empty_def destroy_cell_def Let_def)
  show "sc_ok h (c\<lparr>sc_size := length xs - 1\<rparr>) (butlast xs)" if "xs \<noteq> []"
    using assms that by (auto simp: sc_ok_def nth_butlast split: option.splits)
qed

lemma sc_clear_triv:
  assumes "sc_ok h c xs"
  shows "sc_clear True (h, c) = Inr (h, c\<lparr>sc_size := 0\<rparr>)" "sc_ok h (c\<lparr>sc_size := 0\<rparr>) []"
  using assms by (auto simp: sc_clear_def destroy_range_triv sc_ok_def split: option.splits)

text \<open>
  For other types \<open>pop_back\<close> leaves a dead cell in the array. The container's own destructor
  runs \<open>delete[]\<close> over all cells, and so destroys that object a second time.
\<close>

lemma sc_ok_nontrivial:
  assumes "sc_ok h c xs" "xs \<noteq> []"
  shows "\<exists>h' c'. sc_pop_back False (h, c) = Inr (h', c') \<and> sc_destroy False (h', c') = Inl undefined_behaviour"
proof -
  from assms obtain a cs where cs: "sc_data c = Some a" "sc_size c = length xs" "arr h a = Some cs"
    "length xs \<le> length cs" "\<forall>i<length xs. cs ! i = Live (xs ! i)"
    by (auto simp: sc_ok_def split: option.splits)
  let ?n = "length xs - 1"
  have n: "?n < length xs" using assms(2) by simp
  then have n2: "?n < length cs" using cs(4) by linarith
  let ?h = "h\<lparr>arr := (arr h)(a \<mapsto> cs[?n := Dead])\<rparr>"
  have "sc_pop_back False (h, c) = Inr (?h, c\<lparr>sc_size := ?n\<rparr>)"
    using cs n n2 assms(2)
    by (simp add: sc_pop_back_def sc_empty_def destroy_cell_def read_cell_def put_cell_def Let_def)
  moreover have "\<not> list_all is_live (cs[?n := Dead])"
    unfolding list_all_length using n2 by (auto intro!: exI [of _ ?n])
  ultimately show ?thesis using cs(1) by (simp add: sc_destroy_def delete_array_def)
qed

text \<open>
  \<open>shrink_to_fit\<close> destroys the moved-from elements and then deletes the array that held them:
  again twice, unless the type is trivial or there are none.
\<close>

lemma destroy_range_dead:
  assumes "arr h a = Some cs" "js \<noteq> []" "distinct js" "\<forall>i \<in> set js. i < length cs \<and> is_live (cs ! i)"
  shows "\<exists>ds. destroy_range False h (Some a) js = Inr (h\<lparr>arr := (arr h)(a \<mapsto> ds)\<rparr>) \<and> \<not> list_all is_live ds"
  using assms
proof (induction js arbitrary: h cs)
  case (Cons i js)
  let ?ds = "cs[i := Dead]"
  let ?h = "h\<lparr>arr := (arr h)(a \<mapsto> ?ds)\<rparr>"
  have i: "i < length cs" "is_live (cs ! i)" using Cons.prems(4) by simp_all
  then obtain v where v: "cs ! i = Live v" by (cases "cs ! i") auto
  have d: "destroy_cell False h (Some a) i = Inr ?h"
    using i v Cons.prems(1) by (simp add: destroy_cell_def read_cell_def put_cell_def)
  show ?case
  proof (cases "js = []")
    case True
    have "\<not> list_all is_live ?ds" unfolding list_all_length using i by (auto intro!: exI [of _ i])
    with True d show ?thesis by (intro exI [of _ ?ds]) (simp del: fun_upd_apply)
  next
    case False
    have l: "\<forall>k \<in> set js. k < length ?ds \<and> is_live (?ds ! k)"
      using Cons.prems(3,4) by (auto simp: nth_list_update)
    have dj: "distinct js" and aj: "arr ?h a = Some ?ds" using Cons.prems(3) by simp_all
    from Cons.IH [OF aj False dj l] obtain ds where
      "destroy_range False ?h (Some a) js = Inr (?h\<lparr>arr := (arr ?h)(a \<mapsto> ds)\<rparr>)" "\<not> list_all is_live ds" by blast
    with d show ?thesis by (intro exI [of _ ds]) (simp del: fun_upd_apply)
  qed
qed simp

lemma sc_shrink_move:
  assumes "heap_ok h" "sc_ok h c xs" "sc_data c = Some b" "sc_size c < sc_capacity c" "a = fresh h"
  obtains h2 ds cs where
    "alloc_array dflt (sc_size c) h = (a, h\<lparr>arr := (arr h)(a \<mapsto> replicate (length xs) (Live dflt)), fresh := fresh h + 1\<rparr>)"
    "move_construct (h\<lparr>arr := (arr h)(a \<mapsto> replicate (length xs) (Live dflt)), fresh := fresh h + 1\<rparr>) (Some b) (Some a)
       [0..<sc_size c] = Inr h2"
    "arr h2 = (arr h)(a \<mapsto> ds)" "fresh h2 = fresh h + 1" "arr h b = Some cs" "a \<noteq> b" "list_all is_live cs"
    "length xs \<le> length cs"
    "length ds = length xs" "list_all is_live ds" "\<forall>i<length xs. ds ! i = Live (xs ! i)"
proof -
  from assms(2,3) obtain cs where cs: "arr h b = Some cs" "list_all is_live cs" "length xs \<le> length cs"
    "\<forall>i<length xs. cs ! i = Live (xs ! i)" "sc_size c = length xs" by (auto simp: sc_ok_def)
  have ab: "a \<noteq> b" using cs(1) assms(1,5) by (auto simp: heap_ok_def)
  define h1 where "h1 = h\<lparr>arr := (arr h)(a \<mapsto> replicate (length xs) (Live dflt)), fresh := fresh h + 1\<rparr>"
  define ds where "ds = set_cells ((!) xs) [0..<length xs] (replicate (length xs) (Live dflt))"
  note ds = set_cells_fresh [OF order_refl, of xs dflt, folded ds_def]
  have "move_construct h1 (Some b) (Some a) [0..<length xs] = Inr (h1\<lparr>arr := (arr h1)(a \<mapsto> ds)\<rparr>)"
    unfolding ds_def using ab cs by (intro copy_cells_set(2)) (auto simp: h1_def replicate_live)
  with cs ab ds show thesis
    by (intro that [of "h1\<lparr>arr := (arr h1)(a \<mapsto> ds)\<rparr>" ds cs]) (simp_all add: h1_def alloc_array_def assms(5))
qed

lemma sc_shrink_nontrivial:
  assumes "heap_ok h" "sc_ok h c xs" "xs \<noteq> []" "length xs < sc_capacity c"
  shows "sc_shrink_to_fit False dflt (h, c) = Inl undefined_behaviour"
proof -
  have sz: "sc_size c = length xs" using assms(2) by (simp add: sc_ok_def)
  obtain b where b: "sc_data c = Some b" using assms(2,3) by (auto simp: sc_ok_def split: option.splits)
  obtain h2 ds cs where m:
    "alloc_array dflt (sc_size c) h = (fresh h, h\<lparr>arr := (arr h)(fresh h \<mapsto> replicate (length xs) (Live dflt)), fresh := fresh h + 1\<rparr>)"
    "move_construct (h\<lparr>arr := (arr h)(fresh h \<mapsto> replicate (length xs) (Live dflt)), fresh := fresh h + 1\<rparr>) (Some b)
       (Some (fresh h)) [0..<sc_size c] = Inr h2"
    "arr h2 = (arr h)(fresh h \<mapsto> ds)" "arr h b = Some cs" "fresh h \<noteq> b" "list_all is_live cs" "length xs \<le> length cs"
    using sc_shrink_move [OF assms(1,2) b _ refl, of dflt] assms(4) sz by metis
  have "arr h2 b = Some cs" using m(3-5) by simp
  from destroy_range_dead [OF this, of "[0..<length xs]"] assms(3) m(6,7) obtain es where
    "destroy_range False h2 (Some b) [0..<length xs] = Inr (h2\<lparr>arr := (arr h2)(b \<mapsto> es)\<rparr>)" "\<not> list_all is_live es"
    by (auto simp: list_all_length)
  with m(1,2) b sz assms(4) show ?thesis by (simp add: sc_shrink_to_fit_def delete_array_def)
qed

theorem sc_shrink_triv:
  assumes "heap_ok h" "sc_ok h c xs"
  shows "\<exists>h' c'. sc_shrink_to_fit True dflt (h, c) = Inr (h', c') \<and> heap_ok h' \<and> sc_ok h' c' xs \<and>
    sc_capacity c' = length xs"
proof (cases "sc_size c < sc_capacity c")
  case True
  have sz: "sc_size c = length xs" using assms(2) by (simp add: sc_ok_def)
  obtain b where b: "sc_data c = Some b" using assms(2) True by (auto simp: sc_ok_def split: option.splits)
  obtain h2 ds cs where m:
    "alloc_array dflt (sc_size c) h = (fresh h, h\<lparr>arr := (arr h)(fresh h \<mapsto> replicate (length xs) (Live dflt)), fresh := fresh h + 1\<rparr>)"
    "move_construct (h\<lparr>arr := (arr h)(fresh h \<mapsto> replicate (length xs) (Live dflt)), fresh := fresh h + 1\<rparr>) (Some b)
       (Some (fresh h)) [0..<sc_size c] = Inr h2"
    "arr h2 = (arr h)(fresh h \<mapsto> ds)" "fresh h2 = fresh h + 1" "arr h b = Some cs" "fresh h \<noteq> b"
    "length ds = length xs" "list_all is_live ds" "\<forall>i<length xs. ds ! i = Live (xs ! i)"
    using sc_shrink_move [OF assms(1,2) b True refl, of dflt] by metis
  let ?h = "h2\<lparr>arr := (arr h2)(b := None)\<rparr>"
  let ?c = "c\<lparr>sc_data := Some (fresh h), sc_capacity := length xs\<rparr>"
  have "delete_array True h2 (Some b) = Inr ?h" using m(3,5,6) by (simp add: delete_array_def)
  with m(1,2) b sz True have "sc_shrink_to_fit True dflt (h, c) = Inr (?h, ?c)"
    by (simp add: sc_shrink_to_fit_def destroy_range_triv)
  moreover have "heap_ok ?h" using assms(1) m(3,4) by (auto simp: heap_ok_def less_Suc_eq)
  moreover have "sc_ok ?h ?c xs" using m(3,6-9) sz by (simp add: sc_ok_def)
  ultimately show ?thesis by auto
next
  case False
  with assms have "sc_capacity c = length xs" by (auto simp: sc_ok_def split: option.splits)
  with False assms show ?thesis by (simp add: sc_shrink_to_fit_def)
qed

declare it_walk.simps [simp del]

subsection \<open>Runs\<close>

text \<open>The operations of a container of a trivial type, and what they do to a list.\<close>

datatype 'a sc_op = PushBack 'a | EmplaceBack 'a | PopBack | Clear | Reserve nat | ShrinkToFit

fun sc_step :: "'a \<Rightarrow> 'a sc_op \<Rightarrow> 'a heap \<times> sc \<Rightarrow> sc_error + 'a heap \<times> sc" where
  "sc_step dflt (PushBack v) s = sc_push_back True dflt v s"
| "sc_step dflt (EmplaceBack v) s = sc_emplace_back True dflt v s"
| "sc_step dflt PopBack s = sc_pop_back True s"
| "sc_step dflt Clear s = sc_clear True s"
| "sc_step dflt (Reserve n) s = sc_reserve True dflt n s"
| "sc_step dflt ShrinkToFit s = sc_shrink_to_fit True dflt s"

fun list_step :: "'a sc_op \<Rightarrow> 'a list \<Rightarrow> sc_error + 'a list" where
  "list_step (PushBack v) xs = Inr (xs @ [v])"
| "list_step (EmplaceBack v) xs = Inr (xs @ [v])"
| "list_step PopBack xs = (if xs = [] then Inl out_of_range else Inr (butlast xs))"
| "list_step Clear xs = Inr []"
| "list_step (Reserve n) xs = Inr xs"
| "list_step ShrinkToFit xs = Inr xs"

fun sc_run :: "'a \<Rightarrow> 'a sc_op list \<Rightarrow> 'a heap \<times> sc \<Rightarrow> sc_error + 'a heap \<times> sc" where
  "sc_run dflt [] s = Inr s"
| "sc_run dflt (op # ops) s = bindE (sc_step dflt op s) (sc_run dflt ops)"

fun list_run :: "'a sc_op list \<Rightarrow> 'a list \<Rightarrow> sc_error + 'a list" where
  "list_run [] xs = Inr xs"
| "list_run (op # ops) xs = bindE (list_step op xs) (list_run ops)"

lemma sc_step_list:
  assumes "heap_ok h" "sc_ok h c xs"
  shows "case list_step op xs of
      Inl e \<Rightarrow> sc_step dflt op (h, c) = Inl e
    | Inr ys \<Rightarrow> \<exists>h' c'. sc_step dflt op (h, c) = Inr (h', c') \<and> heap_ok h' \<and> sc_ok h' c' ys"
proof (cases op)
  case (PushBack v)
  obtain h' c' where "sc_push_back True dflt v (h, c) = Inr (h', c')" "heap_ok h'" "sc_ok h' c' (xs @ [v])"
    using sc_push_ok [OF assms, where triv = True and dflt = dflt and v = v] by metis
  with PushBack show ?thesis by simp
next
  case (EmplaceBack v)
  obtain h' c' where "sc_emplace_back True dflt v (h, c) = Inr (h', c')" "heap_ok h'" "sc_ok h' c' (xs @ [v])"
    using sc_push_ok [OF assms, where triv = True and dflt = dflt and v = v] by metis
  with EmplaceBack show ?thesis by simp
next
  case PopBack
  with sc_pop_back_triv [OF assms(2)] assms(1) show ?thesis by auto
next
  case Clear
  with sc_clear_triv [OF assms(2)] assms(1) show ?thesis by simp
next
  case (Reserve n)
  obtain h' c' where "sc_reserve True dflt n (h, c) = Inr (h', c')" "heap_ok h'" "sc_ok h' c' xs"
    using sc_reserve_ok [OF assms, where triv = True and dflt = dflt and n = n] by metis
  with Reserve show ?thesis by simp
next
  case ShrinkToFit
  with sc_shrink_triv [OF assms, of dflt] show ?thesis by auto
qed

lemma sc_run_list:
  assumes "heap_ok h" "sc_ok h c xs"
  shows "case list_run ops xs of
      Inl e \<Rightarrow> sc_run dflt ops (h, c) = Inl e
    | Inr ys \<Rightarrow> \<exists>h' c'. sc_run dflt ops (h, c) = Inr (h', c') \<and> heap_ok h' \<and> sc_ok h' c' ys"
  using assms
proof (induction ops arbitrary: h c xs)
  case Nil
  then show ?case by simp
next
  case (Cons op ops)
  show ?case
  proof (cases "list_step op xs")
    case (Inl e)
    with sc_step_list [OF Cons.prems, where op = op and dflt = dflt] show ?thesis by simp
  next
    case (Inr ys)
    with sc_step_list [OF Cons.prems, where op = op and dflt = dflt] obtain h' c' where
      "sc_step dflt op (h, c) = Inr (h', c')" "heap_ok h'" "sc_ok h' c' ys" by auto
    with Cons.IH [of h' c' ys] Inr show ?thesis by (simp cong: sum.case_cong)
  qed
qed

lemma sc_walk_all: "sc_ok h c xs \<Longrightarrow> it_walk (sc_size c) h (it_begin c) (it_end c) = Inr xs"
  using it_walk_ok [of h c xs 0 "sc_size c"] by (simp add: it_begin_def sc_ok_def)

definition heap_empty :: "'a heap" where
  "heap_empty = \<lparr>arr = Map.empty, fresh = 0\<rparr>"

lemma heap_empty_ok [simp]: "heap_ok heap_empty"
  by (simp add: heap_ok_def heap_empty_def)

lemma sc_push_first:
  "\<exists>h c. sc_push_back triv dflt v (heap_empty, sc_new) = Inr (h, c) \<and> heap_ok h \<and> sc_ok h c [v] \<and> sc_capacity c = 1"
proof -
  obtain h c where "sc_push_back triv dflt v (heap_empty, sc_new) = Inr (h, c)" "heap_ok h" "sc_ok h c ([] @ [v])"
    "sc_capacity c = (if length ([] :: 'a list) = sc_capacity sc_new then max 1 (2 * sc_capacity sc_new) else sc_capacity sc_new)"
    using sc_push_ok [OF heap_empty_ok sc_new_ok, where triv = triv and dflt = dflt and v = v] .
  then show ?thesis by (simp add: sc_new_def)
qed

subsection \<open>Properties\<close>

text \<open>C22: \<open>SmartContainer\<close> of a trivial type is a list: after any sequence of \<open>push_back\<close>,
  \<open>emplace_back\<close>, \<open>pop_back\<close>, \<open>clear\<close>, \<open>reserve\<close> and \<open>shrink_to_fit\<close>, iterating from \<open>begin\<close> to
  \<open>end\<close> yields the elements of the list the same operations make, no access ever is undefined,
  and the only error is \<open>std::out_of_range\<close> for a \<open>pop_back\<close> on the empty container.\<close>

theorem container_is_list:
  "case list_run ops [] of
      Inl e \<Rightarrow> e = out_of_range \<and> sc_run dflt ops (heap_empty, sc_new) = Inl out_of_range
    | Inr xs \<Rightarrow> \<exists>h c. sc_run dflt ops (heap_empty, sc_new) = Inr (h, c) \<and>
        sc_size c = length xs \<and> it_walk (sc_size c) h (it_begin c) (it_end c) = Inr xs"
proof -
  have e: "list_run ops xs = Inl err \<Longrightarrow> err = out_of_range" for err and xs :: "'a list"
  proof (induction ops arbitrary: xs)
    case (Cons op ops)
    then show ?case by (cases op) (auto split: if_splits)
  qed simp
  show ?thesis
  proof (cases "list_run ops []")
    case (Inl err)
    with e [OF Inl] sc_run_list [OF heap_empty_ok sc_new_ok, where ops = ops and dflt = dflt] show ?thesis by simp
  next
    case (Inr xs)
    with sc_run_list [OF heap_empty_ok sc_new_ok, where ops = ops and dflt = dflt] obtain h c where
      "sc_run dflt ops (heap_empty, sc_new) = Inr (h, c)" "sc_ok h c xs" by auto
    with Inr sc_walk_all [of h c xs] show ?thesis by (auto simp: sc_ok_def)
  qed
qed

lemma container_is_list_witness:
  "\<exists>h c. sc_run 0 [PushBack 1, EmplaceBack 2, PopBack, ShrinkToFit, PushBack (3 :: int)] (heap_empty, sc_new) = Inr (h, c) \<and>
     it_walk 2 h (it_begin c) (it_end c) = Inr [1, 3]"
  using container_is_list [where ops = "[PushBack 1, EmplaceBack 2, PopBack, ShrinkToFit, PushBack (3 :: int)]" and dflt = 0]
  by (auto simp: numeral_2_eq_2)

text \<open>Copying is deep: copying a container, of any element type, and pushing to the copy leaves
  the original as it was, the copy equals the original before the push and differs after it, and
  copy assignment replaces the old content.\<close>

theorem copy_is_deep:
  assumes "heap_ok h" "sc_ok h c xs"
  shows "\<exists>h1 d h2 d2. sc_copy triv dflt (h, c) = Inr (h1, d) \<and> sc_eq h1 c d = Inr True \<and>
    sc_push_back triv dflt v (h1, d) = Inr (h2, d2) \<and> sc_eq h2 c d2 = Inr False \<and>
    it_walk (sc_size c) h2 (it_begin c) (it_end c) = Inr xs \<and>
    it_walk (sc_size d2) h2 (it_begin d2) (it_end d2) = Inr (xs @ [v])"
proof -
  obtain h1 d where 1: "sc_copy triv dflt (h, c) = Inr (h1, d)" "heap_ok h1" "sc_ok h1 d xs" "sc_ok h1 c xs"
    "sc_data d = None \<or> (\<exists>a \<ge> fresh h. sc_data d = Some a)"
    using sc_copy_ok [OF assms, of triv dflt] by blast
  obtain h2 d2 where 2: "sc_push_back triv dflt v (h1, d) = Inr (h2, d2)" "sc_ok h2 d2 (xs @ [v])" "keeps h1 h2 (sc_data d)"
    using sc_push_ok [OF 1(2,3), where triv = triv and dflt = dflt and v = v] by metis
  have "\<forall>a. sc_data c = Some a \<longrightarrow> a < fresh h" using assms by (auto simp: sc_ok_def heap_ok_def)
  with 1(5) have "sc_data d \<noteq> sc_data c \<or> sc_data c = None" by (cases "sc_data c") auto
  then have "sc_data c = None \<or> sc_data c \<noteq> sc_data d" by auto
  from sc_ok_keeps [OF 1(4) 2(3) this] have "sc_ok h2 c xs" .
  with 1 2 sc_eq_ok [of h1 c xs d xs] sc_eq_ok [of h2 c xs d2 "xs @ [v]"] sc_walk_all [of h2] show ?thesis
    by (intro exI [of _ h1] exI [of _ d] exI [of _ h2] exI [of _ d2]) simp
qed

lemma copy_is_deep_witness:
  "\<exists>h1 d h2 d2. sc_copy True 0 (heap_empty, sc_new) = Inr (h1, d) \<and>
     sc_push_back True 0 (5 :: int) (h1, d) = Inr (h2, d2) \<and> it_walk (sc_size d2) h2 (it_begin d2) (it_end d2) = Inr [5]"
  using copy_is_deep [of "heap_empty :: int heap" sc_new "[]" True 0 5] by auto

text \<open>Assignment: copy assignment and move assignment between different containers make the
  left one hold the right one's elements; the right one is unchanged after a copy, and empty
  after a move; assigning a container to itself changes nothing.\<close>

theorem assignment:
  assumes "heap_ok h" "sc_ok h this xs" "sc_ok h other ys" "sc_data this \<noteq> sc_data other \<or> sc_data other = None"
  shows "(\<exists>h1 t1. sc_op_assign_copy False triv dflt this other h = Inr (h1, t1) \<and>
      it_walk (sc_size t1) h1 (it_begin t1) (it_end t1) = Inr ys \<and> sc_eq h1 t1 other = Inr True) \<and>
    (\<exists>h1 t1 o1. sc_op_assign_move False triv this other h = Inr (h1, t1, o1) \<and>
      it_walk (sc_size t1) h1 (it_begin t1) (it_end t1) = Inr ys \<and> sc_empty o1) \<and>
    sc_op_assign_copy True triv dflt this this h = Inr (h, this) \<and> sc_op_assign_move True triv this this h = Inr (h, this, this)"
proof (intro conjI)
  obtain h1 t1 where "sc_assign_copy triv dflt this other h = Inr (h1, t1)" "sc_ok h1 t1 ys" "sc_ok h1 other ys"
    using sc_assign_copy_ok [OF assms, of triv dflt] by blast
  with sc_walk_all [of h1 t1 ys] sc_eq_ok [of h1 t1 ys other ys]
  show "\<exists>h1 t1. sc_op_assign_copy False triv dflt this other h = Inr (h1, t1) \<and>
      it_walk (sc_size t1) h1 (it_begin t1) (it_end t1) = Inr ys \<and> sc_eq h1 t1 other = Inr True"
    by (auto simp: sc_op_assign_copy_def)
  obtain h1 t1 o1 where "sc_assign_move triv this other h = Inr (h1, t1, o1)" "sc_ok h1 t1 ys" "sc_ok h1 o1 []"
    using sc_assign_move_ok [OF assms, of triv] by blast
  with sc_walk_all [of h1 t1 ys]
  show "\<exists>h1 t1 o1. sc_op_assign_move False triv this other h = Inr (h1, t1, o1) \<and>
      it_walk (sc_size t1) h1 (it_begin t1) (it_end t1) = Inr ys \<and> sc_empty o1"
    by (auto simp: sc_empty_def sc_ok_def sc_op_assign_move_def)
qed (simp_all add: sc_op_assign_copy_def sc_op_assign_move_def)

lemma assignment_witness:
  "\<exists>h1 t1. sc_op_assign_copy False True (0 :: int) sc_new sc_new heap_empty = Inr (h1, t1) \<and> sc_eq h1 t1 sc_new = Inr True"
proof -
  have "sc_data sc_new \<noteq> sc_data sc_new \<or> sc_data sc_new = None" by (simp add: sc_new_def)
  from assignment [OF heap_empty_ok sc_new_ok sc_new_ok this, of True "0 :: int"] show ?thesis by auto
qed

text \<open>\<open>push_back(c[i])\<close> on a full container reads a dangling reference: the argument is a
  reference into the storage that \<open>reserve\<close> has just freed. Below the capacity, and for an
  argument in other storage, it pushes the referenced value.\<close>

theorem push_back_own_element:
  assumes "heap_ok h" "sc_ok h c xs" "i < length xs"
  shows "sc_push_back_ref triv dflt (sc_data c) i (h, c) =
    (if length xs = sc_capacity c then Inl undefined_behaviour else sc_push_back triv dflt (xs ! i) (h, c))"
proof (cases "length xs = sc_capacity c")
  case True
  from assms(2,3) obtain a where "sc_data c = Some a" by (auto simp: sc_ok_def split: option.splits)
  with sc_push_back_ref_self [OF assms(1,2) True] True show ?thesis by simp
next
  case False
  with assms(2) have "length xs < sc_capacity c" by (auto simp: sc_ok_def split: option.splits)
  with sc_push_back_ref_other [OF assms(1,2) sc_read [OF assms(2,3)]] False show ?thesis by simp
qed

lemma push_back_own_element_witness:
  "\<exists>h c. sc_push_back True 0 (5 :: int) (heap_empty, sc_new) = Inr (h, c) \<and>
     sc_push_back_ref True 0 (sc_data c) 0 (h, c) = Inl undefined_behaviour"
proof -
  obtain h c where p: "sc_push_back True 0 (5 :: int) (heap_empty, sc_new) = Inr (h, c)" "heap_ok h" "sc_ok h c [5]"
    "sc_capacity c = 1" using sc_push_first [of True 0 "5 :: int"] by blast
  with push_back_own_element [OF p(2,3), of 0 True 0] show ?thesis by auto
qed

text \<open>For a type with a destructor, \<open>pop_back\<close> on a container with elements destroys an object
  that the container's own destructor destroys a second time, and \<open>shrink_to_fit\<close> with spare
  capacity does so at once.\<close>

theorem double_destruction:
  assumes "heap_ok h" "sc_ok h c xs" "xs \<noteq> []"
  shows "(\<exists>h' c'. sc_pop_back False (h, c) = Inr (h', c') \<and> sc_destroy False (h', c') = Inl undefined_behaviour) \<and>
    (length xs < sc_capacity c \<longrightarrow> sc_shrink_to_fit False dflt (h, c) = Inl undefined_behaviour)"
  using sc_ok_nontrivial [OF assms(2,3)] sc_shrink_nontrivial [OF assms] by blast

lemma double_destruction_witness:
  "\<exists>h c h' c'. sc_push_back False ''dflt'' ''a'' (heap_empty, sc_new) = Inr (h, c) \<and>
     sc_pop_back False (h, c) = Inr (h', c') \<and> sc_destroy False (h', c') = Inl undefined_behaviour"
proof -
  obtain h c where p: "sc_push_back False ''dflt'' ''a'' (heap_empty, sc_new) = Inr (h, c)" "heap_ok h" "sc_ok h c [''a'']"
    using sc_push_first [of False "''dflt''" "''a''"] by blast
  with double_destruction [OF p(2,3), of "''dflt''"] show ?thesis by auto
qed

end
