(* ===== verification/Classic_Algorithms.thy ===== *)
theory Classic_Algorithms
  imports Prelude
begin

section \<open>\<open>topics/appendix/classic_algorithms\<close>: searching and sorting\<close>

text \<open>
  The functions of \<open>search.cpp\<close> and \<open>sort.cpp\<close> on a list of integers. Indices and values are
  mathematical integers: the sizes are far from the range of \<open>int\<close>, and a difference that
  overflows has no defined result in C++. The loops of the binary searches are partial
  functions, because they need not end: their midpoint is \<open>(i + (j - i)) / 2 = j / 2\<close>, which
  does not depend on \<open>i\<close>.
\<close>

subsection \<open>\<open>BinarySearch\<close> and \<open>BinarySearchInsertion\<close>\<close>

partial_function (option) bs_loop :: "int list \<Rightarrow> int \<Rightarrow> int \<Rightarrow> int \<Rightarrow> int option" where
  "bs_loop nums target i j =
     (if i \<le> j then
        (let m = (i + (j - i)) div 2 in
         if nums ! nat m < target then bs_loop nums target (m + 1) j
         else if nums ! nat m > target then bs_loop nums target i (m - i)
         else Some m)
      else Some (-1))"

declare bs_loop.simps [code]

definition BinarySearch :: "int list \<Rightarrow> int \<Rightarrow> int option" where
  "BinarySearch nums target = bs_loop nums target 0 (int (length nums) - 1)"

partial_function (option) bsi_loop :: "int list \<Rightarrow> int \<Rightarrow> int \<Rightarrow> int \<Rightarrow> int option" where
  "bsi_loop nums target i j =
     (if i \<le> j then
        (let m = (i + (j - i)) div 2 in
         if nums ! nat m < target then bsi_loop nums target (m + 1) j
         else if nums ! nat m > target then bsi_loop nums target i (m - 1)
         else bsi_loop nums target i (m - 1))
      else Some i)"

declare bsi_loop.simps [code]

definition BinarySearchInsertion :: "int list \<Rightarrow> int \<Rightarrow> int option" where
  "BinarySearchInsertion nums target = bsi_loop nums target 0 (int (length nums) - 1)"

text \<open>An index that \<open>BinarySearch\<close> returns is right.\<close>

lemma bs_loop_sound:
  assumes "bs_loop nums target i j = Some m" "0 \<le> i" "j < int (length nums)"
  shows "m = -1 \<or> 0 \<le> m \<and> m < int (length nums) \<and> nums ! nat m = target"
proof -
  have step: "0 \<le> i \<longrightarrow> j < int (length nums) \<longrightarrow> m = -1 \<or> 0 \<le> m \<and> m < int (length nums) \<and> nums ! nat m = target"
    if IH: "\<And>nums target i j m. f nums target i j = Some m \<Longrightarrow>
        0 \<le> i \<longrightarrow> j < int (length nums) \<longrightarrow> m = -1 \<or> 0 \<le> m \<and> m < int (length nums) \<and> nums ! nat m = target"
      and b: "(if i \<le> j then let m = (i + (j - i)) div 2 in
          if nums ! nat m < target then f nums target (m + 1) j
          else if nums ! nat m > target then f nums target i (m - i) else Some m
        else Some (-1)) = Some m" for f and nums :: "int list" and target i j m
  proof (intro impI)
    assume ij: "0 \<le> i" "j < int (length nums)"
    show "m = -1 \<or> 0 \<le> m \<and> m < int (length nums) \<and> nums ! nat m = target"
    proof (cases "i \<le> j")
      case True
      define k where "k = (i + (j - i)) div 2"
      have k: "0 \<le> k" "k \<le> j" "k - i < int (length nums)" using True ij by (simp_all add: k_def)
      show ?thesis
      proof (cases "nums ! nat k" target rule: linorder_cases)
        case less
        with b True have "f nums target (k + 1) j = Some m" by (simp add: k_def)
        from IH [OF this] k ij show ?thesis by simp
      next
        case greater
        with b True have "f nums target i (k - i) = Some m" by (simp add: k_def)
        from IH [OF this] k ij show ?thesis by simp
      next
        case equal
        with b True have "m = k" by (simp add: k_def)
        with equal k ij show ?thesis by simp
      qed
    next
      case False
      with b show ?thesis by simp
    qed
  qed
  have "0 \<le> i \<longrightarrow> j < int (length nums) \<longrightarrow> m = -1 \<or> 0 \<le> m \<and> m < int (length nums) \<and> nums ! nat m = target"
    by (rule bs_loop.raw_induct [where P = "\<lambda>nums target i j m. 0 \<le> i \<longrightarrow> j < int (length nums) \<longrightarrow>
      m = -1 \<or> 0 \<le> m \<and> m < int (length nums) \<and> nums ! nat m = target", OF step assms(1)])
  with assms(2,3) show ?thesis by blast
qed

text \<open>A loop whose step leads back to its own arguments never returns.\<close>

lemma bs_loop_stuck:
  assumes "i \<le> j" "nums ! nat (j div 2) < target" "i = j div 2 + 1"
  shows "bs_loop nums target i j = None"
proof (rule ccontr)
  assume "bs_loop nums target i j \<noteq> None"
  then obtain m where m: "bs_loop nums target i j = Some m" by auto
  have step: "\<not> (i \<le> j \<and> nums ! nat (j div 2) < target \<and> i = j div 2 + 1)"
    if IH: "\<And>nums target i j m. f nums target i j = Some m \<Longrightarrow>
        \<not> (i \<le> j \<and> nums ! nat (j div 2) < target \<and> i = j div 2 + 1)"
      and b: "(if i \<le> j then let m = (i + (j - i)) div 2 in
          if nums ! nat m < target then f nums target (m + 1) j
          else if nums ! nat m > target then f nums target i (m - i) else Some m
        else Some (-1)) = Some m" for f and nums :: "int list" and target i j m
  proof
    assume c: "i \<le> j \<and> nums ! nat (j div 2) < target \<and> i = j div 2 + 1"
    then have "f nums target (j div 2 + 1) j = Some m" using b by (simp add: Let_def)
    from IH [OF this] c show False by simp
  qed
  have "\<not> (i \<le> j \<and> nums ! nat (j div 2) < target \<and> i = j div 2 + 1)"
    by (rule bs_loop.raw_induct [where P = "\<lambda>nums target i j m.
        \<not> (i \<le> j \<and> nums ! nat (j div 2) < target \<and> i = j div 2 + 1)", OF step m])
  with assms show False by blast
qed

text \<open>
  The target is above the element in the middle of two or more: the search sets \<open>i\<close> just past
  the middle, and every further midpoint is the same.
\<close>

lemma BinarySearch_upper_half:
  assumes "2 \<le> length nums" "nums ! ((length nums - 1) div 2) < target"
  shows "BinarySearch nums target = None"
proof -
  let ?j = "int (length nums) - 1"
  have n: "nat (?j div 2) = (length nums - 1) div 2" using assms(1) by (simp add: nat_div_distrib of_nat_diff nat_diff_distrib)
  show ?thesis
  proof (cases "?j div 2 + 1 \<le> ?j")
    case True
    have "bs_loop nums target (?j div 2 + 1) ?j = None"
      by (rule bs_loop_stuck [OF True]) (use assms(2) n in simp_all)
    moreover have "nums \<noteq> []" using assms(1) by auto
    ultimately show ?thesis using assms n unfolding BinarySearch_def by (subst bs_loop.simps) (simp add: Let_def)
  next
    case False
    with assms(1) show ?thesis by presburger
  qed
qed

text \<open>
  An index that \<open>BinarySearchInsertion\<close> returns is the insertion point in a sorted list, but it
  has the same midpoint and runs forever on the same inputs.
\<close>

definition insertion_point :: "int list \<Rightarrow> int \<Rightarrow> int \<Rightarrow> bool" where
  "insertion_point nums target r \<longleftrightarrow> 0 \<le> r \<and> r \<le> int (length nums) \<and>
     (\<forall>p. 0 \<le> p \<longrightarrow> p < r \<longrightarrow> nums ! nat p < target) \<and>
     (\<forall>p. r \<le> p \<longrightarrow> p < int (length nums) \<longrightarrow> target \<le> nums ! nat p)"

definition bsi_inv :: "int list \<Rightarrow> int \<Rightarrow> int \<Rightarrow> int \<Rightarrow> bool" where
  "bsi_inv nums target i j \<longleftrightarrow> sorted nums \<and> 0 \<le> i \<and> i \<le> int (length nums) \<and> j < int (length nums) \<and>
     (\<forall>p. 0 \<le> p \<longrightarrow> p < i \<longrightarrow> nums ! nat p < target) \<and>
     (\<forall>p. j < p \<longrightarrow> 0 \<le> p \<longrightarrow> p < int (length nums) \<longrightarrow> target \<le> nums ! nat p)"

lemma bsi_inv_step:
  assumes "bsi_inv nums target i j" "i \<le> j" "k = j div 2"
  shows "nums ! nat k < target \<Longrightarrow> bsi_inv nums target (k + 1) j"
    and "target \<le> nums ! nat k \<Longrightarrow> bsi_inv nums target i (k - 1)"
proof -
  from assms have k: "0 \<le> k" "k \<le> j" "k < int (length nums)" by (auto simp: bsi_inv_def)
  have mono: "nums ! nat p \<le> nums ! nat q" if "0 \<le> p" "p \<le> q" "q < int (length nums)" for p q
    using assms(1) that by (intro sorted_nth_mono) (auto simp: bsi_inv_def)
  show "bsi_inv nums target (k + 1) j" if l: "nums ! nat k < target"
  proof -
    have "nums ! nat p < target" if "0 \<le> p" "p < k + 1" for p
      using mono [of p k] that k l by simp
    with assms(1) k show ?thesis by (simp add: bsi_inv_def)
  qed
  show "bsi_inv nums target i (k - 1)" if g: "target \<le> nums ! nat k"
  proof -
    have "target \<le> nums ! nat p" if "k - 1 < p" "0 \<le> p" "p < int (length nums)" for p
      using mono [of k p] that k g by simp
    with assms(1) k show ?thesis by (simp add: bsi_inv_def)
  qed
qed

lemma bsi_loop_sound:
  assumes "bsi_loop nums target i j = Some r" "bsi_inv nums target i j"
  shows "insertion_point nums target r"
proof -
  have step: "bsi_inv nums target i j \<longrightarrow> insertion_point nums target r"
    if IH: "\<And>nums target i j r. f nums target i j = Some r \<Longrightarrow> bsi_inv nums target i j \<longrightarrow> insertion_point nums target r"
      and b: "(if i \<le> j then let m = (i + (j - i)) div 2 in
          if nums ! nat m < target then f nums target (m + 1) j
          else if nums ! nat m > target then f nums target i (m - 1) else f nums target i (m - 1)
        else Some i) = Some r" for f and nums :: "int list" and target i j r
  proof
    assume inv: "bsi_inv nums target i j"
    show "insertion_point nums target r"
    proof (cases "i \<le> j")
      case True
      define k where "k = j div 2"
      note st = bsi_inv_step [OF inv True k_def]
      show ?thesis
      proof (cases "nums ! nat k < target")
        case less: True
        with b True have "f nums target (k + 1) j = Some r" by (simp add: k_def)
        from IH [OF this] st(1) [OF less] show ?thesis by simp
      next
        case False
        with b True have "f nums target i (k - 1) = Some r" by (simp add: k_def)
        from IH [OF this] st(2) False show ?thesis by simp
      qed
    next
      case False
      with b inv show ?thesis by (simp add: bsi_inv_def insertion_point_def)
    qed
  qed
  have "bsi_inv nums target i j \<longrightarrow> insertion_point nums target r"
    by (rule bsi_loop.raw_induct [where P = "\<lambda>nums target i j r. bsi_inv nums target i j \<longrightarrow> insertion_point nums target r",
        OF step assms(1)])
  with assms(2) show ?thesis by blast
qed

lemma BinarySearchInsertion_sound:
  assumes "BinarySearchInsertion nums target = Some r" "sorted nums"
  shows "insertion_point nums target r"
  using assms unfolding BinarySearchInsertion_def
  by (intro bsi_loop_sound) (auto simp: bsi_inv_def)

subsection \<open>\<open>twoSumHashTable\<close>\<close>

fun two_sum_loop :: "int \<Rightarrow> int list \<Rightarrow> nat \<Rightarrow> (int \<rightharpoonup> nat) \<Rightarrow> nat list" where
  "two_sum_loop target [] i dict = []"
| "two_sum_loop target (x # xs) i dict =
     (case dict (target - x) of
        Some k \<Rightarrow> [k, i]
      | None \<Rightarrow> two_sum_loop target xs (i + 1) (if x \<in> dom dict then dict else dict(x \<mapsto> i)))"

definition twoSumHashTable :: "int list \<Rightarrow> int \<Rightarrow> nat list" where
  "twoSumHashTable nums target = two_sum_loop target nums 0 Map.empty"

text \<open>The dictionary maps each value to the first index where it occurs.\<close>

definition dict_ok :: "int list \<Rightarrow> nat \<Rightarrow> (int \<rightharpoonup> nat) \<Rightarrow> bool" where
  "dict_ok nums i dict \<longleftrightarrow> (\<forall>v k. dict v = Some k \<longrightarrow> k < i \<and> nums ! k = v) \<and> (\<forall>k<i. nums ! k \<in> dom dict)"

lemma two_sum_loop_ok:
  assumes "dict_ok nums i dict" "i + length xs = length nums" "xs = drop i nums"
    "\<And>p q. p < q \<Longrightarrow> q < i \<Longrightarrow> nums ! p + nums ! q \<noteq> target"
  shows "case two_sum_loop target xs i dict of
      [] \<Rightarrow> \<forall>p q. p < q \<longrightarrow> q < length nums \<longrightarrow> nums ! p + nums ! q \<noteq> target
    | [p, q] \<Rightarrow> p < q \<and> q < length nums \<and> nums ! p + nums ! q = target
    | _ \<Rightarrow> False"
  using assms
proof (induction xs arbitrary: i dict)
  case Nil
  then show ?case by simp
next
  case (Cons x xs)
  have i: "i < length nums" using Cons.prems(2) by simp
  with Cons.prems(3) have "x # xs = nums ! i # drop (Suc i) nums" by (simp add: Cons_nth_drop_Suc)
  with i have x: "x = nums ! i" "xs = drop (Suc i) nums" "i < length nums" by simp_all
  show ?case
  proof (cases "dict (target - x)")
    case (Some k)
    with Cons.prems(1) have "k < i" "nums ! k = target - x" by (simp_all add: dict_ok_def)
    with Some x show ?thesis by simp
  next
    case None
    let ?dict = "if x \<in> dom dict then dict else dict(x \<mapsto> i)"
    have ok: "dict_ok nums (Suc i) ?dict"
      using Cons.prems(1) x(1) by (auto simp: dict_ok_def less_Suc_eq domIff)
    have "nums ! p + nums ! q \<noteq> target" if "p < q" "q < Suc i" for p q
    proof (cases "q = i")
      case True
      show ?thesis
      proof
        assume "nums ! p + nums ! q = target"
        then have "target - x = nums ! p" using True x(1) by simp
        with Cons.prems(1) True that(1) have "target - x \<in> dom dict" by (simp add: dict_ok_def)
        with None show False by (simp add: domIff)
      qed
    next
      case False
      with that Cons.prems(4) show ?thesis by simp
    qed
    from Cons.IH [OF ok _ x(2) this] Cons.prems(2) None show ?thesis by simp
  qed
qed

subsection \<open>Swapping\<close>

definition swap_at :: "int list \<Rightarrow> nat \<Rightarrow> nat \<Rightarrow> int list" where
  "swap_at xs i j = xs[i := xs ! j, j := xs ! i]"

lemma length_swap_at [simp]: "length (swap_at xs i j) = length xs"
  by (simp add: swap_at_def)

lemma mset_swap_at: "i < length xs \<Longrightarrow> j < length xs \<Longrightarrow> mset (swap_at xs i j) = mset xs"
  by (simp add: swap_at_def mset_swap)

lemma nth_swap_at:
  "i < length xs \<Longrightarrow> j < length xs \<Longrightarrow> p < length xs \<Longrightarrow>
   swap_at xs i j ! p = (if p = j then xs ! i else if p = i then xs ! j else xs ! p)"
  by (simp add: swap_at_def nth_list_update)

subsection \<open>\<open>selectionSort\<close>\<close>

text \<open>The exchange stands inside the inner loop, so it runs at every \<open>j\<close>.\<close>

definition sel_step :: "nat \<Rightarrow> nat \<Rightarrow> int list \<times> nat \<Rightarrow> int list \<times> nat" where
  "sel_step i j s = (let (nums, k) = s; k = (if nums ! j < nums ! k then j else k) in (swap_at nums i k, k))"

definition sel_outer :: "nat \<Rightarrow> nat \<Rightarrow> int list \<Rightarrow> int list" where
  "sel_outer n i nums = fst (fold (sel_step i) [i + 1..<n] (nums, i))"

definition selectionSort :: "int list \<Rightarrow> int list" where
  "selectionSort nums = (let n = length nums in fold (sel_outer n) [0..<n - 1] nums)"

lemma sel_inner_mset:
  assumes "i < length nums" "k < length nums" "set js \<subseteq> {..<length nums}"
  shows "mset (fst (fold (sel_step i) js (nums, k))) = mset nums \<and>
    length (fst (fold (sel_step i) js (nums, k))) = length nums"
  using assms
proof (induction js arbitrary: nums k)
  case (Cons j js)
  let ?k = "if nums ! j < nums ! k then j else k"
  have k: "?k < length nums" using Cons.prems by auto
  have "mset (fst (fold (sel_step i) js (swap_at nums i ?k, ?k))) = mset (swap_at nums i ?k) \<and>
    length (fst (fold (sel_step i) js (swap_at nums i ?k, ?k))) = length (swap_at nums i ?k)"
    using Cons.prems k by (intro Cons.IH) auto
  moreover have "sel_step i j (nums, k) = (swap_at nums i ?k, ?k)" by (simp add: sel_step_def Let_def)
  ultimately show ?case using Cons.prems(1) k by (simp add: mset_swap_at)
qed simp

subsection \<open>\<open>bubbleSort\<close>\<close>

definition bub_step :: "nat \<Rightarrow> int list \<times> bool \<Rightarrow> int list \<times> bool" where
  "bub_step j s = (let (nums, flag) = s in
     if nums ! j > nums ! (j + 1) then (swap_at nums j (j + 1), True) else (nums, flag))"

definition bub_inner :: "nat \<Rightarrow> int list \<Rightarrow> int list \<times> bool" where
  "bub_inner i nums = fold bub_step [0..<i] (nums, False)"

fun bub_loop :: "nat \<Rightarrow> int list \<Rightarrow> int list" where
  "bub_loop 0 nums = nums"
| "bub_loop (Suc i) nums =
     (let (nums, flag) = bub_inner (Suc i) nums in if \<not> flag then nums else bub_loop i nums)"

definition bubbleSort :: "int list \<Rightarrow> int list" where
  "bubbleSort nums = bub_loop (length nums - 1) nums"

text \<open>\<open>top_sorted i xs\<close>: everything behind \<open>i\<close> is in its final place.\<close>

definition top_sorted :: "nat \<Rightarrow> int list \<Rightarrow> bool" where
  "top_sorted i xs \<longleftrightarrow> (\<forall>p q. i < q \<longrightarrow> q < length xs \<longrightarrow> p \<le> q \<longrightarrow> xs ! p \<le> xs ! q)"

lemma top_sorted_swap:
  assumes "top_sorted i xs" "Suc j \<le> i" "i < length xs"
  shows "top_sorted i (swap_at xs j (Suc j))"
  unfolding top_sorted_def
proof (intro allI impI)
  fix p q
  assume q: "i < q" "q < length (swap_at xs j (Suc j))" "p \<le> q"
  then have "\<And>r. r \<le> q \<Longrightarrow> xs ! r \<le> xs ! q" using assms(1) by (simp add: top_sorted_def)
  with q assms(2,3) show "swap_at xs j (Suc j) ! p \<le> swap_at xs j (Suc j) ! q" by (simp add: nth_swap_at)
qed

lemma bub_inner_ok:
  assumes "k \<le> i" "i < length xs" "top_sorted i xs" "fold bub_step [0..<k] (xs, False) = (ys, flag)"
  shows "length ys = length xs \<and> mset ys = mset xs \<and> top_sorted i ys \<and> (\<forall>p\<le>k. ys ! p \<le> ys ! k) \<and>
    (\<not> flag \<longrightarrow> (\<forall>p q. p \<le> q \<longrightarrow> q \<le> k \<longrightarrow> ys ! p \<le> ys ! q))"
  using assms
proof (induction k arbitrary: ys flag)
  case 0
  then show ?case by simp
next
  case (Suc k)
  obtain zs f where z: "fold bub_step [0..<k] (xs, False) = (zs, f)" by (cases "fold bub_step [0..<k] (xs, False)")
  from Suc.IH [OF _ Suc.prems(2,3) z] Suc.prems(1) have IH: "length zs = length xs" "mset zs = mset xs" "top_sorted i zs"
    "\<forall>p\<le>k. zs ! p \<le> zs ! k" "\<not> f \<longrightarrow> (\<forall>p q. p \<le> q \<longrightarrow> q \<le> k \<longrightarrow> zs ! p \<le> zs ! q)" by simp_all
  have s: "(ys, flag) = bub_step k (zs, f)" using Suc.prems(4) z by simp
  show ?case
  proof (cases "zs ! k > zs ! Suc k")
    case True
    with s have ys: "ys = swap_at zs k (Suc k)" "flag" by (simp_all add: bub_step_def)
    have n: "ys ! p = (if p = Suc k then zs ! k else if p = k then zs ! Suc k else zs ! p)" if "p \<le> Suc k" for p
      using that Suc.prems(1,2) IH(1) by (simp add: ys nth_swap_at)
    have "ys ! p \<le> ys ! Suc k" if "p \<le> Suc k" for p
      using that IH(4) True by (auto simp: n less_imp_le le_Suc_eq)
    moreover have "top_sorted i ys"
      unfolding ys(1) using Suc.prems(1,2) IH(1,3) by (intro top_sorted_swap) simp_all
    ultimately show ?thesis using IH(1,2) Suc.prems(1,2) by (simp add: ys mset_swap_at)
  next
    case False
    with s have ys: "ys = zs" "flag = f" by (simp_all add: bub_step_def)
    have "zs ! p \<le> zs ! Suc k" if "p \<le> Suc k" for p
      using that IH(4) False by (auto simp: le_Suc_eq intro: order_trans)
    with IH show ?thesis by (auto simp: ys le_Suc_eq)
  qed
qed

lemma top_sorted_all: "top_sorted i xs \<Longrightarrow> (\<And>p q. p \<le> q \<Longrightarrow> q \<le> i \<Longrightarrow> xs ! p \<le> xs ! q) \<Longrightarrow> sorted xs"
  unfolding sorted_iff_nth_mono top_sorted_def by (meson not_le)

lemma bub_loop_ok:
  "top_sorted i xs \<Longrightarrow> i < length xs \<or> xs = [] \<and> i = 0 \<Longrightarrow> sorted (bub_loop i xs) \<and> mset (bub_loop i xs) = mset xs"
proof (induction i arbitrary: xs)
  case 0
  then show ?case by (auto intro: top_sorted_all)
next
  case (Suc i)
  obtain ys flag where y: "bub_inner (Suc i) xs = (ys, flag)" by (cases "bub_inner (Suc i) xs")
  from Suc.prems have len: "Suc i < length xs" by auto
  from bub_inner_ok [OF le_refl len Suc.prems(1) y [unfolded bub_inner_def]] have
    Y: "length ys = length xs" "mset ys = mset xs" "top_sorted (Suc i) ys" "\<forall>p\<le>Suc i. ys ! p \<le> ys ! Suc i"
    "\<not> flag \<longrightarrow> (\<forall>p q. p \<le> q \<longrightarrow> q \<le> Suc i \<longrightarrow> ys ! p \<le> ys ! q)" by simp_all
  show ?case
  proof (cases flag)
    case True
    have "top_sorted i ys"
      using Y(3,4) unfolding top_sorted_def by (metis Suc_lessI less_or_eq_imp_le)
    from Suc.IH [OF this] len Y True y show ?thesis by simp
  next
    case False
    with Y(5) have "sorted ys" by (intro top_sorted_all [OF Y(3)]) simp
    with False y Y(2) show ?thesis by simp
  qed
qed

subsection \<open>\<open>insertionSort\<close>\<close>

text \<open>The inner loop, with \<open>k = j + 1\<close>, and the final store.\<close>

fun ins_shift :: "int \<Rightarrow> nat \<Rightarrow> int list \<Rightarrow> int list" where
  "ins_shift base 0 nums = nums[0 := base]"
| "ins_shift base (Suc k) nums =
     (if nums ! k > base then ins_shift base k (nums[Suc k := nums ! k]) else nums[Suc k := base])"

definition insertionSort :: "int list \<Rightarrow> int list" where
  "insertionSort nums = fold (\<lambda>i nums. ins_shift (nums ! i) i nums) [1..<length nums] nums"

lemma ins_shift_ok:
  assumes "k < length nums" "sorted (take k nums)"
  shows "\<exists>ys. ins_shift base k nums = ys @ drop (Suc k) nums \<and> sorted ys \<and>
    mset ys = add_mset base (mset (take k nums)) \<and> length ys = Suc k"
  using assms
proof (induction k arbitrary: nums)
  case 0
  then show ?case by (cases nums) (auto intro: exI [of _ "[base]"])
next
  case (Suc k)
  have t: "take (Suc k) nums = take k nums @ [nums ! k]" using Suc.prems(1) by (simp add: take_Suc_conv_app_nth)
  with Suc.prems(2) have s: "sorted (take k nums)" "\<And>x. x \<in> set (take k nums) \<Longrightarrow> x \<le> nums ! k"
    by (auto simp: sorted_append)
  show ?case
  proof (cases "nums ! k > base")
    case True
    let ?n = "nums[Suc k := nums ! k]"
    have "take k ?n = take k nums" by simp
    with Suc.IH [of ?n] Suc.prems(1) s(1) obtain ys where
      ys: "ins_shift base k ?n = ys @ drop (Suc k) ?n" "sorted ys" "mset ys = add_mset base (mset (take k nums))"
        "length ys = Suc k" by auto
    have "drop (Suc k) ?n = nums ! k # drop (Suc (Suc k)) nums"
      using Suc.prems(1) by (simp add: Cons_nth_drop_Suc [symmetric])
    moreover have "sorted (ys @ [nums ! k])"
    proof -
      have "set ys = insert base (set (take k nums))" using arg_cong [OF ys(3), of set_mset] by simp
      with s(2) True ys(2) show ?thesis by (auto simp: sorted_append)
    qed
    ultimately show ?thesis
      using True ys t by (intro exI [of _ "ys @ [nums ! k]"]) simp
  next
    case False
    have "sorted (take (Suc k) nums @ [base])"
      using Suc.prems(2) s(2) False unfolding t by (fastforce simp: sorted_append)
    moreover have "nums[Suc k := base] = (take (Suc k) nums @ [base]) @ drop (Suc (Suc k)) nums"
      using Suc.prems(1) by (simp add: upd_conv_take_nth_drop)
    ultimately show ?thesis using False Suc.prems(1)
      by (intro exI [of _ "take (Suc k) nums @ [base]"]) simp
  qed
qed

lemma insertion_loop_ok:
  assumes "i \<le> length nums" "0 < i"
  shows "\<exists>ys. fold (\<lambda>i nums. ins_shift (nums ! i) i nums) [1..<i] nums = ys @ drop i nums \<and> sorted ys \<and>
    mset ys = mset (take i nums) \<and> length ys = i"
  using assms
proof (induction i)
  case (Suc i)
  show ?case
  proof (cases "i = 0")
    case True
    with Suc.prems show ?thesis by (cases nums) (auto intro: exI [of _ "[hd nums]"])
  next
    case False
    with Suc obtain ys where ys: "fold (\<lambda>i nums. ins_shift (nums ! i) i nums) [1..<i] nums = ys @ drop i nums"
      "sorted ys" "mset ys = mset (take i nums)" "length ys = i" by auto
    let ?n = "ys @ drop i nums"
    have n: "?n ! i = nums ! i" "take i ?n = ys" "drop (Suc i) ?n = drop (Suc i) nums" "i < length ?n"
      using ys(4) Suc.prems(1) by (simp_all add: nth_append)
    from ins_shift_ok [OF n(4), of "?n ! i", unfolded n(1-3), OF ys(2)] obtain zs where
      "ins_shift (nums ! i) i ?n = zs @ drop (Suc i) nums" "sorted zs" "mset zs = add_mset (nums ! i) (mset ys)"
      "length zs = Suc i" by blast
    moreover have "mset (take (Suc i) nums) = add_mset (nums ! i) (mset (take i nums))"
      using Suc.prems(1) by (simp add: take_Suc_conv_app_nth)
    ultimately show ?thesis using False n(1) ys by (auto simp: upt_Suc)
  qed
qed simp

subsection \<open>When \<open>BinarySearch\<close> returns\<close>

text \<open>Left of the middle the upper end becomes the middle itself, which repeats at 0.\<close>

lemma bs_loop_stuck_low:
  assumes "target < nums ! 0"
  shows "bs_loop nums target 0 0 = None"
proof (rule ccontr)
  assume "bs_loop nums target 0 0 \<noteq> None"
  then obtain m where m: "bs_loop nums target 0 0 = Some m" by auto
  have step: "\<not> (i = 0 \<and> j = 0 \<and> target < nums ! 0)"
    if IH: "\<And>nums target i j m. f nums target i j = Some m \<Longrightarrow> \<not> (i = 0 \<and> j = 0 \<and> target < nums ! 0)"
      and b: "(if i \<le> j then let m = (i + (j - i)) div 2 in
          if nums ! nat m < target then f nums target (m + 1) j
          else if nums ! nat m > target then f nums target i (m - i) else Some m
        else Some (-1)) = Some m" for f and nums :: "int list" and target i j m
  proof
    assume c: "i = 0 \<and> j = 0 \<and> target < nums ! 0"
    then have "f nums target 0 0 = Some m" using b by (simp add: Let_def split: if_splits)
    from IH [OF this] c show False by simp
  qed
  have "\<not> ((0::int) = 0 \<and> (0::int) = 0 \<and> target < nums ! 0)"
    by (rule bs_loop.raw_induct [where P = "\<lambda>nums target i j m. \<not> (i = 0 \<and> j = 0 \<and> target < nums ! 0)", OF step m])
  with assms show False by simp
qed

lemma bs_loop_low:
  "bs_loop nums target 0 (int j) =
    (if nums ! (j div 2) < target then (if j = 0 then Some (-1) else None)
     else if nums ! (j div 2) = target then Some (int (j div 2))
     else if j = 0 then None else bs_loop nums target 0 (int (j div 2)))"
proof -
  have d: "int j div 2 = int (j div 2)" by (simp add: zdiv_int)
  have one: "bs_loop nums target 0 (int j) =
     (if nums ! (j div 2) < target then bs_loop nums target (int (j div 2) + 1) (int j)
      else if nums ! (j div 2) = target then Some (int (j div 2))
      else bs_loop nums target 0 (int (j div 2)))"
    by (subst bs_loop.simps) (auto simp: Let_def d)
  show ?thesis
  proof (cases "j = 0")
    case True
    have "bs_loop nums target 1 0 = Some (-1)" by (subst bs_loop.simps) simp
    with True bs_loop_stuck_low [of target nums] show ?thesis unfolding one by simp
  next
    case False
    have "bs_loop nums target (int (j div 2) + 1) (int j) = None" if "nums ! (j div 2) < target"
      using that False by (intro bs_loop_stuck) (simp_all add: d)
    with False show ?thesis unfolding one by simp
  qed
qed

text \<open>The same for \<open>BinarySearchInsertion\<close>: stuck right of the middle, fine at the front.\<close>

lemma bsi_loop_stuck:
  assumes "i \<le> j" "nums ! nat (j div 2) < target" "i = j div 2 + 1"
  shows "bsi_loop nums target i j = None"
proof (rule ccontr)
  assume "bsi_loop nums target i j \<noteq> None"
  then obtain m where m: "bsi_loop nums target i j = Some m" by auto
  have step: "\<not> (i \<le> j \<and> nums ! nat (j div 2) < target \<and> i = j div 2 + 1)"
    if IH: "\<And>nums target i j m. f nums target i j = Some m \<Longrightarrow>
        \<not> (i \<le> j \<and> nums ! nat (j div 2) < target \<and> i = j div 2 + 1)"
      and b: "(if i \<le> j then let m = (i + (j - i)) div 2 in
          if nums ! nat m < target then f nums target (m + 1) j
          else if nums ! nat m > target then f nums target i (m - 1) else f nums target i (m - 1)
        else Some i) = Some m" for f and nums :: "int list" and target i j m
  proof
    assume c: "i \<le> j \<and> nums ! nat (j div 2) < target \<and> i = j div 2 + 1"
    then have "f nums target (j div 2 + 1) j = Some m" using b by (simp add: Let_def)
    from IH [OF this] c show False by simp
  qed
  have "\<not> (i \<le> j \<and> nums ! nat (j div 2) < target \<and> i = j div 2 + 1)"
    by (rule bsi_loop.raw_induct [where P = "\<lambda>nums target i j m.
        \<not> (i \<le> j \<and> nums ! nat (j div 2) < target \<and> i = j div 2 + 1)", OF step m])
  with assms show False by blast
qed

lemma bsi_upper_half:
  assumes "2 \<le> length nums \<and> nums ! ((length nums - 1) div 2) < target"
  shows "BinarySearchInsertion nums target = None"
proof -
  define e where "e = length nums - 1"
  have e: "int (length nums) - 1 = int e" "1 \<le> e" "nums ! (e div 2) < target" using assms by (auto simp: e_def)
  have d: "int e div 2 = int (e div 2)" by (simp add: zdiv_int)
  have "bsi_loop nums target (int (e div 2) + 1) (int e) = None"
    using e by (intro bsi_loop_stuck) (simp_all add: d)
  with e show ?thesis
    unfolding BinarySearchInsertion_def e(1) by (subst bsi_loop.simps) (simp add: Let_def d)
qed

lemma bsi_front:
  assumes "sorted nums" "nums = [] \<or> target \<le> nums ! 0"
  shows "BinarySearchInsertion nums target = Some 0"
proof -
  have "bsi_loop nums target 0 (int j - 1) = Some 0" if "j \<le> length nums" for j
    using that
  proof (induction j rule: less_induct)
    case (less j)
    show ?case
    proof (cases j)
      case 0
      then show ?thesis by (subst bsi_loop.simps) simp
    next
      case (Suc k)
      have d: "int k div 2 = int (k div 2)" by (simp add: zdiv_int)
      have k: "k div 2 < length nums" "k div 2 < j" using less.prems Suc by auto
      then have "target \<le> nums ! (k div 2)"
        using assms sorted_nth_mono [OF assms(1), of 0 "k div 2"] by (cases "nums = []") auto
      then have "bsi_loop nums target 0 (int k) = bsi_loop nums target 0 (int (k div 2) - 1)"
        by (subst bsi_loop.simps) (auto simp: Let_def d)
      with less.IH [OF k(2)] k(1) Suc show ?thesis by simp
    qed
  qed
  from this [OF order_refl] show ?thesis by (simp add: BinarySearchInsertion_def)
qed

text \<open>The positions the search looks at before it is stuck: the last index halved repeatedly.\<close>

lemma bs_loop_returns:
  assumes "sorted nums" "j < length nums"
  shows "(\<exists>r. bs_loop nums target 0 (int j) = Some r) \<longleftrightarrow>
    (\<exists>k \<ge> 1. nums ! (j div 2 ^ k) = target) \<or> j = 0 \<and> nums ! 0 < target"
  using assms(2)
proof (induction j rule: less_induct)
  case (less j)
  have shift: "(\<exists>k \<ge> 1. P (j div 2 ^ k)) \<longleftrightarrow> P (j div 2) \<or> (\<exists>k \<ge> 1. P ((j div 2) div 2 ^ k))" for P
  proof -
    have "(\<exists>k \<ge> 1. P (j div 2 ^ k)) \<longleftrightarrow> (\<exists>k. P (j div 2 ^ Suc k))" by (metis One_nat_def Suc_le_D le_SucI le0 Suc_le_mono)
    also have "\<dots> \<longleftrightarrow> (\<exists>k. P ((j div 2) div 2 ^ k))" by (simp add: div_mult2_eq)
    also have "\<dots> \<longleftrightarrow> P (j div 2) \<or> (\<exists>k \<ge> 1. P ((j div 2) div 2 ^ k))"
      by (metis One_nat_def div_by_1 less_Suc_eq_le less_one not_le power_0)
    finally show ?thesis .
  qed
  have mono: "nums ! ((j div 2) div 2 ^ k) \<le> nums ! (j div 2)" for k
    using assms(1) less.prems by (intro sorted_nth_mono) (auto intro: le_less_trans [OF div_le_dividend])
  consider "nums ! (j div 2) < target" | "nums ! (j div 2) = target" | "target < nums ! (j div 2)" by linarith
  then show ?case
  proof cases
    case 1
    then have "nums ! ((j div 2) div 2 ^ k) \<noteq> target" for k using mono [of k] by auto
    with 1 show ?thesis unfolding shift [of "\<lambda>p. nums ! p = target"] by (auto simp: bs_loop_low)
  next
    case 2
    then show ?thesis unfolding shift [of "\<lambda>p. nums ! p = target"] by (auto simp: bs_loop_low)
  next
    case 3
    show ?thesis
    proof (cases "j = 0")
      case True
      with 3 show ?thesis by (auto simp: bs_loop_low [of nums target 0, simplified])
    next
      case False
      then have "j div 2 < j" by simp
      from less.IH [OF this] less.prems \<open>j div 2 < j\<close> have
        "(\<exists>r. bs_loop nums target 0 (int (j div 2)) = Some r) \<longleftrightarrow>
         (\<exists>k \<ge> 1. nums ! ((j div 2) div 2 ^ k) = target) \<or> j div 2 = 0 \<and> nums ! 0 < target" by simp
      with 3 False show ?thesis unfolding shift [of "\<lambda>p. nums ! p = target"]
        by (auto simp: bs_loop_low [of nums target j])
    qed
  qed
qed

subsection \<open>Properties\<close>

text \<open>\<open>bubbleSort\<close> and \<open>insertionSort\<close> sort every vector.\<close>

theorem bubble_and_insertion_sort: "bubbleSort nums = sort nums \<and> insertionSort nums = sort nums"
proof -
  have "sorted (bubbleSort nums) \<and> mset (bubbleSort nums) = mset nums"
    using bub_loop_ok [of "length nums - 1" nums] by (cases nums) (auto simp: bubbleSort_def top_sorted_def)
  moreover have "sorted (insertionSort nums) \<and> mset (insertionSort nums) = mset nums"
  proof (cases nums)
    case (Cons x xs)
    with insertion_loop_ok [of "length nums" nums] show ?thesis by (auto simp: insertionSort_def)
  qed (simp add: insertionSort_def)
  ultimately show ?thesis by (metis properties_for_sort)
qed

text \<open>\<open>selectionSort\<close> only permutes its vector, and does not sort all of them: the exchange
  stands inside the inner loop, and undoes itself on \<open>[2, 1, 5]\<close>.\<close>

theorem selection_sort_permutes_only:
  "mset (selectionSort nums) = mset nums \<and> selectionSort [2, 1, 5] = [2, 1, 5]"
proof
  have "mset (fold (sel_outer n) is xs) = mset xs \<and> length (fold (sel_outer n) is xs) = n"
    if "set is \<subseteq> {..<n}" "length xs = n" for n "is" xs
    using that
  proof (induction "is" arbitrary: xs)
    case (Cons i js)
    have "mset (sel_outer n i xs) = mset xs \<and> length (sel_outer n i xs) = length xs"
      unfolding sel_outer_def using Cons.prems by (intro sel_inner_mset) auto
    with Cons show ?case by simp
  qed simp
  moreover have "set [0..<length nums - 1] \<subseteq> {..<length nums}" by auto
  ultimately show "mset (selectionSort nums) = mset nums"
    by (simp add: selectionSort_def Let_def)
  show "selectionSort [2, 1, 5] = [2, 1, 5]" by code_simp
qed

text \<open>C27: \<open>BinarySearch\<close> on a sorted vector: what it returns is -1 or an index of the target; but it
  returns at all only when the target stands at the last index divided by a power of two, or the
  vector has at most one element. Its midpoint \<open>(i + (j - i)) / 2\<close> ignores the lower end, so
  every search that goes right, and every search that ends left, loops for ever.\<close>

theorem binary_search_returns_iff:
  assumes "sorted nums" "nums \<noteq> []"
  shows "((\<exists>r. BinarySearch nums target = Some r) \<longleftrightarrow>
      (\<exists>k \<ge> 1. nums ! ((length nums - 1) div 2 ^ k) = target) \<or> length nums = 1 \<and> nums ! 0 < target) \<and>
    (\<forall>r. BinarySearch nums target = Some r \<longrightarrow>
      r = -1 \<or> 0 \<le> r \<and> r < int (length nums) \<and> nums ! nat r = target)"
proof (intro conjI allI impI)
  have l: "int (length nums) - 1 = int (length nums - 1)" "length nums - 1 < length nums"
    "length nums - 1 = 0 \<longleftrightarrow> length nums = 1"
    using assms(2) by (cases nums; simp)+
  show "(\<exists>r. BinarySearch nums target = Some r) \<longleftrightarrow>
      (\<exists>k \<ge> 1. nums ! ((length nums - 1) div 2 ^ k) = target) \<or> length nums = 1 \<and> nums ! 0 < target"
    unfolding BinarySearch_def l(1) bs_loop_returns [OF assms(1) l(2)] l(3) ..
  show "r = -1 \<or> 0 \<le> r \<and> r < int (length nums) \<and> nums ! nat r = target" if "BinarySearch nums target = Some r" for r
    using bs_loop_sound [of nums target 0 "int (length nums) - 1" r] that by (simp add: BinarySearch_def)
qed

lemma binary_search_returns_iff_witness: "BinarySearch [1, 2, 3] 3 = None \<and> (\<exists>r. BinarySearch [1, 2, 3] 2 = Some r)"
proof -
  have "3 \<noteq> [1, 2, 3 :: int] ! ((length [1, 2, 3 :: int] - 1) div 2 ^ k)" if "k \<ge> 1" for k
  proof -
    have "2 div 2 ^ k < (2 :: nat)" using that by (cases k) (auto simp: div_mult2_eq less_eq_Suc_le)
    then show ?thesis by (auto simp: less_2_cases_iff numeral_3_eq_3 numeral_2_eq_2 less_Suc_eq)
  qed
  with binary_search_returns_iff [of "[1, 2, 3]" 3] binary_search_returns_iff [of "[1, 2, 3]" 2]
  show ?thesis by (fastforce intro: exI [of _ 1])
qed

text \<open>\<open>BinarySearchInsertion\<close>, when it returns on a sorted vector, returns the insertion point:
  everything before it is smaller, everything from it on is not. On two or more elements it
  never returns when the target is above the middle one.\<close>

theorem binary_search_insertion:
  assumes "sorted nums"
  shows "(BinarySearchInsertion nums target = Some r \<longrightarrow> insertion_point nums target r) \<and>
    (2 \<le> length nums \<and> nums ! ((length nums - 1) div 2) < target \<longrightarrow> BinarySearchInsertion nums target = None) \<and>
    (nums = [] \<or> target \<le> nums ! 0 \<longrightarrow> BinarySearchInsertion nums target = Some 0)"
  using BinarySearchInsertion_sound [OF _ assms] bsi_upper_half bsi_front [OF assms] by blast

lemma binary_search_insertion_witness:
  "BinarySearchInsertion [1, 2, 3] 3 = None \<and> BinarySearchInsertion [1, 2, 3] 1 = Some 0"
  using binary_search_insertion [of "[1, 2, 3]" 3] binary_search_insertion [of "[1, 2, 3]" 1] by simp

text \<open>\<open>twoSumHashTable\<close> returns indices \<open>p < q\<close> whose elements add up to the target, and the
  empty vector exactly when there are none.\<close>

theorem two_sum_correct:
  "case twoSumHashTable nums target of
      [] \<Rightarrow> \<forall>p q. p < q \<longrightarrow> q < length nums \<longrightarrow> nums ! p + nums ! q \<noteq> target
    | [p, q] \<Rightarrow> p < q \<and> q < length nums \<and> nums ! p + nums ! q = target
    | _ \<Rightarrow> False"
  unfolding twoSumHashTable_def by (rule two_sum_loop_ok) (simp_all add: dict_ok_def)

lemma two_sum_correct_witness: "twoSumHashTable [4, 1, 5] 9 = [0, 2] \<and> (4 :: int) + 5 = 9"
  using two_sum_correct [of "[4, 1, 5]" 9] by (simp add: twoSumHashTable_def)

end
