(* ===== verification/Spsc_Concurrent.thy ===== *)
theory Spsc_Concurrent
  imports Spsc_Rings
begin

section \<open>\<open>SPSCQueue\<close> at the level of its loads and stores\<close>

text \<open>
  \<open>Spsc_Rings\<close> treats \<open>push\<close> and \<open>pop\<close> as single steps. Here each load and store of
  \<open>SPSCQueue\<close> (\<open>extras/latency/common.hpp\<close>) is a step of its own, and the steps of a producer and
  a consumer interleave freely. A program counter holds what the thread has loaded so far:
  \<open>P_start x\<close> is about to load \<open>write_idx_\<close>, \<open>P_w x w\<close> to load \<open>read_idx_\<close>, \<open>P_room x w n\<close> to store
  the item into slot \<open>w\<close>, \<open>P_stored n\<close> to publish the index \<open>n\<close>; \<open>C_start\<close>, \<open>C_r r\<close>, \<open>C_slot r\<close> and
  \<open>C_item r x\<close> are the same for \<open>pop\<close>. Memory is sequentially consistent, which the
  acquire and release orders of the code give for these accesses.
\<close>

datatype 'p push_pc = P_start 'p | P_w 'p nat | P_room 'p nat nat | P_stored nat | P_done bool
datatype 'p pop_pc = C_start | C_r nat | C_slot nat | C_item nat 'p | C_done "'p option"

inductive push_step :: "nat \<Rightarrow> 'p push_pc \<times> 'p spsc_queue \<Rightarrow> 'p push_pc \<times> 'p spsc_queue \<Rightarrow> bool" for N where
  load_write: "push_step N (P_start x, q) (P_w x (sq_write_idx q), q)"
| full: "(w + 1) AND sq_mask N = sq_read_idx q \<Longrightarrow> push_step N (P_w x w, q) (P_done False, q)"
| room: "(w + 1) AND sq_mask N \<noteq> sq_read_idx q \<Longrightarrow> push_step N (P_w x w, q) (P_room x w ((w + 1) AND sq_mask N), q)"
| store_slot: "push_step N (P_room x w n, q) (P_stored n, q\<lparr>sq_slots := (sq_slots q)[w := x]\<rparr>)"
| store_write: "push_step N (P_stored n, q) (P_done True, q\<lparr>sq_write_idx := n\<rparr>)"

inductive pop_step :: "nat \<Rightarrow> 'p pop_pc \<times> 'p spsc_queue \<Rightarrow> 'p pop_pc \<times> 'p spsc_queue \<Rightarrow> bool" for N where
  load_read: "pop_step N (C_start, q) (C_r (sq_read_idx q), q)"
| empty: "r = sq_write_idx q \<Longrightarrow> pop_step N (C_r r, q) (C_done None, q)"
| item: "r \<noteq> sq_write_idx q \<Longrightarrow> pop_step N (C_r r, q) (C_slot r, q)"
| load_slot: "pop_step N (C_slot r, q) (C_item r (sq_slots q ! r), q)"
| store_read: "pop_step N (C_item r x, q) (C_done (Some x), q\<lparr>sq_read_idx := (r + 1) AND sq_mask N\<rparr>)"

inductive_cases push_stepE: "push_step N (pc, q) (pc', q')"
inductive_cases pop_stepE: "pop_step N (pc, q) (pc', q')"

text \<open>Alone, the steps of an operation are the operation.\<close>

lemma push_alone: "(push_step N)\<^sup>*\<^sup>* (P_start x, q) (P_done (fst (sq_push N x q)), snd (sq_push N x q))"
proof -
  let ?w = "sq_write_idx q"
  let ?n = "(?w + 1) AND sq_mask N"
  have 1: "push_step N (P_start x, q) (P_w x ?w, q)" by (rule load_write)
  show ?thesis
  proof (cases "?n = sq_read_idx q")
    case True
    with 1 full [of ?w N q x] show ?thesis by (simp add: sq_push_def Let_def)
  next
    case False
    let ?q = "q\<lparr>sq_slots := (sq_slots q)[?w := x]\<rparr>"
    have "(push_step N)\<^sup>*\<^sup>* (P_start x, q) (P_room x ?w ?n, q)" using 1 room [OF False, of x] by auto
    also have "push_step N (P_room x ?w ?n, q) (P_stored ?n, ?q)" by (rule store_slot)
    also have "push_step N (P_stored ?n, ?q) (P_done True, ?q\<lparr>sq_write_idx := ?n\<rparr>)" by (rule store_write)
    finally show ?thesis using False by (simp add: sq_push_def Let_def)
  qed
qed

lemma pop_alone: "(pop_step N)\<^sup>*\<^sup>* (C_start, q) (C_done (fst (sq_pop N q)), snd (sq_pop N q))"
proof -
  let ?r = "sq_read_idx q"
  have 1: "pop_step N (C_start, q) (C_r ?r, q)" by (rule load_read)
  show ?thesis
  proof (cases "?r = sq_write_idx q")
    case True
    with 1 empty [OF True, of N] show ?thesis by (simp add: sq_pop_def Let_def)
  next
    case False
    have "(pop_step N)\<^sup>*\<^sup>* (C_start, q) (C_slot ?r, q)" using 1 item [OF False, of N] by auto
    also have "pop_step N (C_slot ?r, q) (C_item ?r (sq_slots q ! ?r), q)" by (rule load_slot)
    also have "pop_step N (C_item ?r (sq_slots q ! ?r), q)
      (C_done (Some (sq_slots q ! ?r)), q\<lparr>sq_read_idx := (?r + 1) AND sq_mask N\<rparr>)" by (rule store_read)
    finally show ?thesis using False by (simp add: sq_pop_def Let_def)
  qed
qed

subsection \<open>A producer and a consumer\<close>

text \<open>
  The producer pushes a list of items, retrying when the queue is full; the consumer pops for
  ever. A state is the producer's counter and its remaining items, the consumer's counter and
  what it received, and the queue.
\<close>

record 'p duo =
  duo_push :: "'p push_pc"
  duo_todo :: "'p list"
  duo_pop :: "'p pop_pc"
  duo_got :: "'p list"
  duo_q :: "'p spsc_queue"

text \<open>\<open>while (!q.push(x)) {}\<close>: after a failed attempt the same item is pushed again.\<close>

inductive duo_step :: "nat \<Rightarrow> 'p duo \<Rightarrow> 'p duo \<Rightarrow> bool" for N where
  push_next: "duo_push s = P_done True \<Longrightarrow> duo_todo s = x # xs \<Longrightarrow>
    duo_step N s (s\<lparr>duo_push := P_start x, duo_todo := xs\<rparr>)"
| push_fail: "push_step N (duo_push s, duo_q s) (P_done False, q) \<Longrightarrow> duo_push s = P_w x w \<Longrightarrow>
    duo_step N s (s\<lparr>duo_push := P_start x, duo_q := q\<rparr>)"
| push_go: "push_step N (duo_push s, duo_q s) (pc, q) \<Longrightarrow> pc \<noteq> P_done False \<Longrightarrow>
    duo_step N s (s\<lparr>duo_push := pc, duo_q := q\<rparr>)"
| pop_go: "pop_step N (duo_pop s, duo_q s) (pc, q) \<Longrightarrow> duo_step N s (s\<lparr>duo_pop := pc, duo_q := q\<rparr>)"
| pop_some: "duo_pop s = C_done (Some x) \<Longrightarrow> duo_step N s (s\<lparr>duo_pop := C_start, duo_got := duo_got s @ [x]\<rparr>)"
| pop_none: "duo_pop s = C_done None \<Longrightarrow> duo_step N s (s\<lparr>duo_pop := C_start\<rparr>)"

definition duo_init :: "nat \<Rightarrow> 'p list \<Rightarrow> 'p list \<Rightarrow> 'p duo" where
  "duo_init N junk msgs = \<lparr>duo_push = P_done True, duo_todo = msgs, duo_pop = C_start, duo_got = [], duo_q = sq_new N junk\<rparr>"

text \<open>What the threads know about the shared state at each counter.\<close>

fun push_inv :: "nat \<Rightarrow> 'p push_pc \<Rightarrow> 'p spsc_queue \<Rightarrow> bool" where
  "push_inv N (P_start x) q = True"
| "push_inv N (P_w x w) q = (w = sq_write_idx q)"
| "push_inv N (P_room x w n) q = (w = sq_write_idx q \<and> n = (w + 1) AND sq_mask N \<and> n \<noteq> sq_read_idx q)"
| "push_inv N (P_stored n) q = (n = (sq_write_idx q + 1) AND sq_mask N \<and> n \<noteq> sq_read_idx q)"
| "push_inv N (P_done b) q = b"

fun pop_inv :: "'p pop_pc \<Rightarrow> 'p spsc_queue \<Rightarrow> bool" where
  "pop_inv C_start q = True"
| "pop_inv (C_r r) q = (r = sq_read_idx q)"
| "pop_inv (C_slot r) q = (r = sq_read_idx q \<and> r \<noteq> sq_write_idx q)"
| "pop_inv (C_item r x) q = (r = sq_read_idx q \<and> r \<noteq> sq_write_idx q \<and> x = sq_slots q ! r)"
| "pop_inv (C_done r) q = True"

text \<open>Items the producer has not published yet, and items the consumer has taken off the queue.\<close>

fun unpublished :: "'p push_pc \<Rightarrow> 'p spsc_queue \<Rightarrow> 'p list" where
  "unpublished (P_start x) q = [x]"
| "unpublished (P_w x w) q = [x]"
| "unpublished (P_room x w n) q = [x]"
| "unpublished (P_stored n) q = [sq_slots q ! sq_write_idx q]"
| "unpublished (P_done b) q = []"

fun taken_off :: "'p pop_pc \<Rightarrow> 'p list" where
  "taken_off (C_done (Some x)) = [x]"
| "taken_off _ = []"

definition duo_inv :: "nat \<Rightarrow> 'p list \<Rightarrow> 'p duo \<Rightarrow> bool" where
  "duo_inv N msgs s \<longleftrightarrow> sq_ok N (duo_q s) \<and> push_inv N (duo_push s) (duo_q s) \<and> pop_inv (duo_pop s) (duo_q s) \<and>
     duo_got s @ taken_off (duo_pop s) @ sq_items (duo_q s) @ unpublished (duo_push s) (duo_q s) @ duo_todo s = msgs"

subsection \<open>The invariant\<close>

lemma ring_items_free_slot:
  assumes "ring_wf buf r w"
  shows "ring_items (buf[w := x]) r w = ring_items buf r w"
proof -
  have "(r + i) mod length buf \<noteq> w" if "i < (w + length buf - r) mod length buf" for i
  proof
    assume "(r + i) mod length buf = w"
    also have "w = (r + (w + length buf - r) mod length buf) mod length buf"
      using assms by (simp add: ring_wf_def ring_last)
    finally have eq: "(r + i) mod length buf = (r + (w + length buf - r) mod length buf) mod length buf" .
    have "(w + length buf - r) mod length buf < length buf" using assms by (intro mod_less_divisor) (auto simp: ring_wf_def)
    with that have "i = (w + length buf - r) mod length buf" by (intro mod_add_inj [OF eq]) simp_all
    with that show False by simp
  qed
  from this [THEN not_sym] show ?thesis by (simp add: ring_items_def)
qed

lemma sq_ok_facts:
  assumes "sq_ok N q"
  shows "length (sq_slots q) = N" "0 < N" "sq_read_idx q < N" "sq_write_idx q < N"
    "ring_wf (sq_slots q) (sq_read_idx q) (sq_write_idx q)" "Suc i AND sq_mask N = Suc i mod N"
proof -
  from assms show w: "length (sq_slots q) = N" "ring_wf (sq_slots q) (sq_read_idx q) (sq_write_idx q)"
    by (simp_all add: sq_ok_def)
  then show n: "sq_read_idx q < N" "sq_write_idx q < N" by (simp_all add: ring_wf_def)
  then show "0 < N" by simp
  with assms show "Suc i AND sq_mask N = Suc i mod N" by (simp add: sq_ok_def sq_next)
qed

text \<open>A step of the producer changes neither what it has to push nor what the consumer relies on.\<close>

lemma push_step_inv:
  assumes "push_step N (pc, q) (pc', q')" "sq_ok N q" "push_inv N pc q" "pc' \<noteq> P_done False"
  shows "sq_ok N q' \<and> push_inv N pc' q' \<and> sq_read_idx q' = sq_read_idx q \<and>
    sq_items q' @ unpublished pc' q' = sq_items q @ unpublished pc q \<and> (pop_inv cc q \<longrightarrow> pop_inv cc q')"
  using assms(1)
proof cases
  case (store_slot x w n)
  note q = sq_ok_facts [OF assms(2)]
  from store_slot assms(2,3) q ring_items_free_slot [OF q(5)] show ?thesis
    by (cases cc) (auto simp: sq_ok_def sq_items_def ring_wf_def)
next
  case (store_write n)
  note q = sq_ok_facts [OF assms(2)]
  let ?s = "sq_slots q" and ?w = "sq_write_idx q" and ?r = "sq_read_idx q"
  have n: "n = Suc ?w mod length ?s" "n \<noteq> ?r" using store_write assms(3) q(1,6) by auto
  have "ring_items (?s[?w := ?s ! ?w]) ?r (Suc ?w mod length ?s) = ring_items ?s ?r ?w @ [?s ! ?w]"
    using n by (intro ring_items_push [OF q(5)]) simp
  then have "ring_items ?s ?r n = ring_items ?s ?r ?w @ [?s ! ?w]" using n by simp
  with store_write assms(2,3) n q show ?thesis
    by (cases cc) (auto simp: sq_ok_def sq_items_def ring_wf_def)
qed (use assms in auto)

lemma pop_step_inv:
  assumes "pop_step N (pc, q) (pc', q')" "sq_ok N q" "pop_inv pc q" "taken_off pc = []"
  shows "sq_ok N q' \<and> pop_inv pc' q' \<and> sq_write_idx q' = sq_write_idx q \<and> sq_slots q' = sq_slots q \<and>
    taken_off pc' @ sq_items q' = sq_items q \<and> (push_inv N cc q \<longrightarrow> push_inv N cc q')"
  using assms(1)
proof cases
  case (store_read r x)
  note q = sq_ok_facts [OF assms(2)]
  let ?s = "sq_slots q" and ?w = "sq_write_idx q" and ?r = "sq_read_idx q"
  have r: "r = ?r" "?r \<noteq> ?w" "x = ?s ! ?r" using store_read assms(3) by simp_all
  have "ring_items ?s ?r ?w = ?s ! ?r # ring_items ?s (Suc ?r mod N) ?w"
    using ring_items_pop [OF q(5) r(2)] q(1) by simp
  moreover have "Suc ?w mod N \<noteq> Suc ?r mod N" using r(2) q(3,4) by (auto simp: ring_next split: if_splits)
  ultimately show ?thesis
    using store_read assms(2) q r by (cases cc) (auto simp: sq_ok_def sq_items_def ring_wf_def)
qed (use assms in auto)

lemma unpublished_same:
  "sq_write_idx q' = sq_write_idx q \<Longrightarrow> sq_slots q' = sq_slots q \<Longrightarrow> unpublished pc q' = unpublished pc q"
  by (cases pc) auto

lemma duo_step_inv:
  assumes "duo_step N s s'" "duo_inv N msgs s"
  shows "duo_inv N msgs s'"
  using assms(1)
proof cases
  case (push_fail q x w)
  then have "q = duo_q s" by (auto elim: push_stepE)
  with push_fail assms(2) show ?thesis by (simp add: duo_inv_def)
next
  case (push_go pc q)
  from assms(2) have i: "sq_ok N (duo_q s)" "push_inv N (duo_push s) (duo_q s)" by (simp_all add: duo_inv_def)
  from push_step_inv [OF push_go(2) i push_go(3), of "duo_pop s"] push_go(1) assms(2) show ?thesis
    by (auto simp: duo_inv_def)
next
  case (pop_go pc q)
  have t: "taken_off (duo_pop s) = []" using pop_go(2) by (auto elim: pop_stepE)
  from assms(2) have i: "sq_ok N (duo_q s)" "pop_inv (duo_pop s) (duo_q s)" by (simp_all add: duo_inv_def)
  note p = pop_step_inv [OF pop_go(2) i t, of "duo_push s"]
  then have "unpublished (duo_push s) q = unpublished (duo_push s) (duo_q s)" by (intro unpublished_same) simp_all
  with p pop_go(1) assms(2) t show ?thesis by (auto simp: duo_inv_def)
qed (use assms(2) in \<open>auto simp: duo_inv_def\<close>)

lemma duo_inv_reach:
  assumes "(duo_step N)\<^sup>*\<^sup>* s s'" "duo_inv N msgs s"
  shows "duo_inv N msgs s'"
  using assms by (induction rule: rtranclp_induct) (auto intro: duo_step_inv)

subsection \<open>Progress\<close>

text \<open>
  While something is undelivered one of the threads can take a step that brings the delivery
  nearer: the consumer when an item is queued or in its hands, and the producer otherwise.
\<close>

fun push_rank :: "'p push_pc \<Rightarrow> nat" where
  "push_rank (P_start x) = 14"
| "push_rank (P_w x w) = 13"
| "push_rank (P_room x w n) = 12"
| "push_rank (P_stored n) = 11"
| "push_rank (P_done b) = 0"

fun pop_rank :: "'p pop_pc \<Rightarrow> nat" where
  "pop_rank (C_done r) = 6"
| "pop_rank C_start = 5"
| "pop_rank (C_r r) = 4"
| "pop_rank (C_slot r) = 3"
| "pop_rank (C_item r x) = 2"

definition duo_rank :: "'p duo \<Rightarrow> nat" where
  "duo_rank s = 20 * length (duo_todo s) + push_rank (duo_push s) + 6 * length (sq_items (duo_q s)) + pop_rank (duo_pop s)"

lemma sq_items_empty: "sq_ok N q \<Longrightarrow> sq_items q = [] \<longleftrightarrow> sq_read_idx q = sq_write_idx q"
  by (simp add: sq_items_def sq_ok_def ring_items_empty_iff)

lemma pop_moves:
  assumes "duo_inv N msgs s" "sq_items (duo_q s) \<noteq> []"
  shows "\<exists>s'. duo_step N s s' \<and> duo_rank s' < duo_rank s"
proof -
  let ?q = "duo_q s"
  from assms(1) have ok: "sq_ok N ?q" and inv: "pop_inv (duo_pop s) ?q" by (simp_all add: duo_inv_def)
  have ne: "sq_read_idx ?q \<noteq> sq_write_idx ?q" using assms(2) sq_items_empty [OF ok] by simp
  have go: "\<exists>s'. duo_step N s s' \<and> duo_rank s' < duo_rank s"
    if "pop_step N (duo_pop s, ?q) (pc, q)" "pop_rank pc + 6 * length (sq_items q) < pop_rank (duo_pop s) + 6 * length (sq_items ?q)"
    for pc q using duo_step.pop_go [OF that(1)] that(2) by (force simp: duo_rank_def)
  show ?thesis
  proof (cases "duo_pop s")
    case C_start
    with go [OF pop_step.load_read [of N ?q, folded C_start]] show ?thesis by simp
  next
    case (C_r r)
    with inv ne go [OF pop_step.item [of r ?q N, folded C_r]] show ?thesis by simp
  next
    case (C_slot r)
    with go [OF pop_step.load_slot [of N r ?q, folded C_slot]] show ?thesis by simp
  next
    case (C_item r x)
    let ?q' = "?q\<lparr>sq_read_idx := (r + 1) AND sq_mask N\<rparr>"
    have st: "pop_step N (duo_pop s, ?q) (C_done (Some x), ?q')" unfolding C_item by (rule pop_step.store_read)
    from pop_step_inv [OF this ok inv, of "P_start x"] C_item have "length (sq_items ?q) = Suc (length (sq_items ?q'))"
      by (metis append_Cons append_Nil length_Cons taken_off.simps(1,5))
    with go [OF st] C_item show ?thesis by simp
  next
    case (C_done r)
    then show ?thesis
      using duo_step.pop_some [of s _ N] duo_step.pop_none [of s N] by (cases r) (force simp: duo_rank_def)+
  qed
qed

lemma push_moves:
  assumes "duo_inv N msgs s" "sq_items (duo_q s) = []" "1 < N" "duo_todo s \<noteq> [] \<or> unpublished (duo_push s) (duo_q s) \<noteq> []"
  shows "\<exists>s'. duo_step N s s' \<and> duo_rank s' < duo_rank s"
proof -
  let ?q = "duo_q s"
  from assms(1) have ok: "sq_ok N ?q" and inv: "push_inv N (duo_push s) ?q" by (simp_all add: duo_inv_def)
  note q = sq_ok_facts [OF ok]
  have eq: "sq_read_idx ?q = sq_write_idx ?q" using assms(2) sq_items_empty [OF ok] by simp
  have go: "\<exists>s'. duo_step N s s' \<and> duo_rank s' < duo_rank s"
    if "push_step N (duo_push s, ?q) (pc, q)" "pc \<noteq> P_done False"
      "push_rank pc + 6 * length (sq_items q) < push_rank (duo_push s)" for pc q
    using duo_step.push_go [OF that(1,2)] that(3) by (force simp: duo_rank_def)
  show ?thesis
  proof (cases "duo_push s")
    case (P_start x)
    with assms(2) go [OF push_step.load_write [of N x ?q, folded P_start]] show ?thesis by simp
  next
    case (P_w x w)
    have "Suc (sq_write_idx ?q) mod N \<noteq> sq_write_idx ?q" using assms(3) q(4) by (auto simp: ring_next)
    then have "(w + 1) AND sq_mask N \<noteq> sq_read_idx ?q" using P_w inv eq q(6) by simp
    from go [OF push_step.room [OF this, of x, folded P_w]] P_w assms(2) show ?thesis by simp
  next
    case (P_room x w n)
    have st: "push_step N (duo_push s, ?q) (P_stored n, ?q\<lparr>sq_slots := (sq_slots ?q)[w := x]\<rparr>)"
      unfolding P_room by (rule push_step.store_slot)
    have "sq_items (?q\<lparr>sq_slots := (sq_slots ?q)[w := x]\<rparr>) = []"
      using P_room inv assms(2) ring_items_free_slot [OF q(5), of x] by (simp add: sq_items_def)
    with go [OF st] P_room show ?thesis by simp
  next
    case (P_stored n)
    let ?q' = "?q\<lparr>sq_write_idx := n\<rparr>"
    have st: "push_step N (duo_push s, ?q) (P_done True, ?q')" unfolding P_stored by (rule push_step.store_write)
    from push_step_inv [OF st ok inv, of C_start] P_stored assms(2) have "length (sq_items ?q') = 1" by simp
    with go [OF st] P_stored show ?thesis by simp
  next
    case (P_done b)
    with inv assms(4) obtain x xs where "duo_push s = P_done True" "duo_todo s = x # xs"
      by (cases "duo_todo s") auto
    with duo_step.push_next [OF this, of N] show ?thesis by (force simp: duo_rank_def)
  qed
qed

lemma duo_finishes:
  assumes "duo_inv N msgs s" "1 < N"
  shows "\<exists>s'. (duo_step N)\<^sup>*\<^sup>* s s' \<and> duo_got s' = msgs"
proof -
  have move: "\<exists>s'. duo_step N s s' \<and> duo_rank s' < duo_rank s" if inv: "duo_inv N msgs s" "duo_got s \<noteq> msgs" for s
  proof (cases "sq_items (duo_q s) = []")
    case True
    show ?thesis
    proof (cases "taken_off (duo_pop s)")
      case Nil
      with True that push_moves [OF inv(1) True assms(2)] show ?thesis by (auto simp: duo_inv_def)
    next
      case (Cons x xs)
      then obtain y where "duo_pop s = C_done (Some y)" by (cases "duo_pop s" rule: taken_off.cases) auto
      with duo_step.pop_some [OF this, of N] show ?thesis by (force simp: duo_rank_def)
    qed
  qed (use pop_moves [OF inv(1)] in blast)
  have "\<exists>s'. (duo_step N)\<^sup>*\<^sup>* s s' \<and> duo_inv N msgs s' \<and> duo_got s' = msgs"
    by (rule reaches_end [where I = "duo_inv N msgs" and rank = duo_rank, OF assms(1)]) (use move duo_step_inv in blast)+
  then show ?thesis by blast
qed

lemma duo_init_inv:
  assumes "1 < N" "N AND (N - 1) = 0" "length junk = N"
  shows "duo_inv N msgs (duo_init N junk msgs)"
  using sq_new_ok [OF assms(2) _ assms(3)] assms(1) by (simp add: duo_inv_def duo_init_def)

subsection \<open>Properties\<close>

text \<open>C17: \<open>SPSCQueue\<close> is correct for one producer and one consumer at the granularity of its
  loads and stores: in every interleaving, what the consumer has received, what it has taken off,
  what is queued, what the producer has not published and what it has still to push are the
  input in order; a load never sees a slot that is being written; and from every reachable state
  the threads can go on until everything is received.\<close>

theorem spsc_queue_memory_steps:
  assumes "1 < N" "N AND (N - 1) = 0" "length junk = N" "(duo_step N)\<^sup>*\<^sup>* (duo_init N junk msgs) s"
  shows "duo_got s @ taken_off (duo_pop s) @ sq_items (duo_q s) @ unpublished (duo_push s) (duo_q s) @ duo_todo s = msgs \<and>
    (\<forall>x w n r. duo_push s = P_room x w n \<longrightarrow> duo_pop s = C_slot r \<longrightarrow> r \<noteq> w) \<and>
    (\<exists>s'. (duo_step N)\<^sup>*\<^sup>* s s' \<and> duo_got s' = msgs)"
proof -
  have i: "duo_inv N msgs s" using duo_inv_reach [OF assms(4) duo_init_inv [OF assms(1-3)]] .
  then have "\<forall>x w n r. duo_push s = P_room x w n \<longrightarrow> duo_pop s = C_slot r \<longrightarrow> r \<noteq> w"
    by (auto simp: duo_inv_def)
  moreover have "duo_got s @ taken_off (duo_pop s) @ sq_items (duo_q s) @ unpublished (duo_push s) (duo_q s) @ duo_todo s = msgs"
    using i by (simp add: duo_inv_def)
  ultimately show ?thesis using duo_finishes [OF i assms(1)] by blast
qed

lemma spsc_queue_memory_steps_witness:
  "\<exists>s'. (duo_step 2)\<^sup>*\<^sup>* (duo_init 2 [0, 0] [7 :: nat, 8]) s' \<and> duo_got s' = [7, 8]"
  using spsc_queue_memory_steps [of 2 "[0, 0]" "[7 :: nat, 8]" "duo_init 2 [0, 0] [7, 8]"] by simp

end
