(* ===== verification/Latency_Server.thy ===== *)
theory Latency_Server
  imports Spsc_Concurrent Pools
begin

section \<open>The latency servers (\<open>extras/latency\<close>)\<close>

text \<open>
  Five variants of one server: a network thread reads payloads from its connections, wraps each
  in a \<open>Message\<close> and pushes its address into a queue; a consumer thread pops it, accounts its
  latency and gives the message back. The variants differ in the allocator (a pool, or \<open>new\<close> and
  \<open>delete\<close>), the queue (a lock-free ring, or a deque under a mutex) and in how the network side
  waits. So the steps of the two threads take the operations of a queue and an allocator, and
  the locale \<open>pipeline\<close> joins the contracts \<open>bounded_fifo\<close> and \<open>allocator\<close>.

  Payloads, their arrival and the clock are inputs: a step may happen with any of them. Here an
  operation of a queue or allocator is one step. That is what \<open>new\<close> and \<open>delete\<close> give (\<open>v2\<close>), and
  the ring too by \<open>Spsc_Concurrent\<close>; the pool, which has no protection against its second thread,
  is split into its loads and stores in \<open>Latency_Pool\<close>, which refines these steps where it can.
\<close>

subsection \<open>Messages and statistics\<close>

type_synonym byte = "8 word"

text \<open>\<open>data\<close> is an array of 46 bytes; only the first \<open>len\<close> are the payload's.\<close>

record message =
  m_recv_ns :: i64
  m_seq :: u32
  m_len :: u16
  m_data :: "byte list"

definition data_size :: nat where "data_size = 46"

definition fill_message :: "i64 \<Rightarrow> u32 \<Rightarrow> byte list \<Rightarrow> message \<Rightarrow> message" where
  "fill_message ts seq buf msg =
     (let len = min data_size (length buf)
      in \<lparr>m_recv_ns = ts, m_seq = seq, m_len = of_nat len, m_data = take len buf @ drop len (m_data msg)\<rparr>)"

record stats =
  st_total_ns :: i64
  st_count :: u64
  st_max_ns :: i64

definition stats_init :: stats where
  "stats_init = \<lparr>st_total_ns = 0, st_count = 0, st_max_ns = 0\<rparr>"

text \<open>
  The consumer is the only thread that writes the statistics, so its compare-and-swap loop ends
  with the larger of the old maximum and the latency. The comparison is signed.
\<close>

definition account :: "i64 \<Rightarrow> message \<Rightarrow> stats \<Rightarrow> stats" where
  "account now msg st =
     (let latency = now - m_recv_ns msg
      in \<lparr>st_total_ns = st_total_ns st + latency, st_count = st_count st + 1,
          st_max_ns = (if sint (st_max_ns st) < sint latency then latency else st_max_ns st)\<rparr>)"

text \<open>The line of \<open>stats_thread\<close> and of the end of \<open>main\<close>: count, average (signed division, towards zero), maximum.\<close>

definition stats_line :: "stats \<Rightarrow> (u64 \<times> int \<times> int) option" where
  "stats_line st = (if st_count st = 0 then None
     else Some (st_count st, sgn (sint (st_total_ns st)) * sgn (sint (st_count st)) *
       (\<bar>sint (st_total_ns st)\<bar> div \<bar>sint (st_count st)\<bar>), sint (st_max_ns st)))"

subsection \<open>The threads\<close>

text \<open>
  The network thread looks at \<open>g_running\<close> only between events: not inside the \<open>recv\<close> loop, and
  not while it pushes. The consumer looks at it before each \<open>pop\<close>. \<open>N_got b\<close> is between \<open>alloc\<close> and
  the message being filled, \<open>C_free b\<close> between the accounting and \<open>free\<close>.
\<close>

datatype net_pc = N_idle | N_got nat | N_hold nat | N_done
datatype con_pc = C_check | C_poll | C_hold nat | C_free nat | C_done
datatype main_pc = M_wait | M_join | M_exit "(u64 \<times> int \<times> int) option"

text \<open>The last three fields are histories: payloads accepted, messages processed, payloads dropped.\<close>

record ('q, 's) server =
  sv_main :: main_pc
  sv_run :: bool
  sv_net :: net_pc
  sv_con :: con_pc
  sv_queue :: 'q
  sv_pool :: 's
  sv_store :: "nat \<Rightarrow> message"
  sv_seq :: u32
  sv_stats :: stats
  sv_in :: "(i64 \<times> byte list) list"
  sv_out :: "(i64 \<times> message) list"
  sv_drop :: nat

text \<open>
  The body of the \<open>recv\<close> loop: \<open>alloc\<close>, the message, \<open>push\<close>. Filling the message overwrites the free-list link that shares its
  first bytes (\<open>scribble\<close>, with any value). Without a free message the payload is dropped.
\<close>

inductive net_step :: "(nat \<Rightarrow> 'q \<Rightarrow> bool \<times> 'q) \<Rightarrow> ('s \<Rightarrow> nat option \<times> 's) \<Rightarrow> (nat \<Rightarrow> nat option \<Rightarrow> 's \<Rightarrow> 's) \<Rightarrow>
    ('q, 's) server \<Rightarrow> ('q, 's) server \<Rightarrow> bool" for psh alloc scribble where
  allocated: "sv_net s = N_idle \<Longrightarrow> alloc (sv_pool s) = (Some b, p) \<Longrightarrow>
    net_step psh alloc scribble s (s\<lparr>sv_net := N_got b, sv_pool := p\<rparr>)"
| receive: "sv_net s = N_got b \<Longrightarrow> 0 < length buf \<Longrightarrow> length buf \<le> 1024 \<Longrightarrow>
    net_step psh alloc scribble s (s\<lparr>sv_net := N_hold b, sv_pool := scribble b v (sv_pool s),
      sv_store := (sv_store s)(b := fill_message ts (sv_seq s) buf (sv_store s b)),
      sv_seq := sv_seq s + 1, sv_in := sv_in s @ [(ts, buf)]\<rparr>)"
| no_message: "sv_net s = N_idle \<Longrightarrow> alloc (sv_pool s) = (None, p) \<Longrightarrow>
    net_step psh alloc scribble s (s\<lparr>sv_pool := p, sv_drop := sv_drop s + 1\<rparr>)"
| pushed: "sv_net s = N_hold b \<Longrightarrow> psh b (sv_queue s) = (True, q) \<Longrightarrow>
    net_step psh alloc scribble s (s\<lparr>sv_net := N_idle, sv_queue := q\<rparr>)"
| push_again: "sv_net s = N_hold b \<Longrightarrow> psh b (sv_queue s) = (False, q) \<Longrightarrow>
    net_step psh alloc scribble s (s\<lparr>sv_queue := q\<rparr>)"
| net_leaves: "sv_net s = N_idle \<Longrightarrow> \<not> sv_run s \<Longrightarrow> net_step psh alloc scribble s (s\<lparr>sv_net := N_done\<rparr>)"

text \<open>The loop of \<open>consumer_thread\<close>.\<close>

inductive con_step :: "('q \<Rightarrow> nat option \<times> 'q) \<Rightarrow> (nat \<Rightarrow> 's \<Rightarrow> 's) \<Rightarrow>
    ('q, 's) server \<Rightarrow> ('q, 's) server \<Rightarrow> bool" for pp free where
  con_runs: "sv_con s = C_check \<Longrightarrow> sv_run s \<Longrightarrow> con_step pp free s (s\<lparr>sv_con := C_poll\<rparr>)"
| con_leaves: "sv_con s = C_check \<Longrightarrow> \<not> sv_run s \<Longrightarrow> con_step pp free s (s\<lparr>sv_con := C_done\<rparr>)"
| popped: "sv_con s = C_poll \<Longrightarrow> pp (sv_queue s) = (Some b, q) \<Longrightarrow>
    con_step pp free s (s\<lparr>sv_con := C_hold b, sv_queue := q\<rparr>)"
| pause: "sv_con s = C_poll \<Longrightarrow> pp (sv_queue s) = (None, q) \<Longrightarrow>
    con_step pp free s (s\<lparr>sv_con := C_check, sv_queue := q\<rparr>)"
| processed: "sv_con s = C_hold b \<Longrightarrow>
    con_step pp free s (s\<lparr>sv_con := C_free b, sv_stats := account now (sv_store s b) (sv_stats s),
      sv_out := sv_out s @ [(now, sv_store s b)]\<rparr>)"
| freed: "sv_con s = C_free b \<Longrightarrow> con_step pp free s (s\<lparr>sv_con := C_check, sv_pool := free b (sv_pool s)\<rparr>)"

text \<open>\<open>main\<close> clears the flag, joins the threads and prints the final statistics.\<close>

inductive main_step :: "('q, 's, 'z) server_scheme \<Rightarrow> ('q, 's, 'z) server_scheme \<Rightarrow> bool" where
  stop: "sv_main s = M_wait \<Longrightarrow> main_step s (s\<lparr>sv_main := M_join, sv_run := False\<rparr>)"
| joined: "sv_main s = M_join \<Longrightarrow> sv_net s = N_done \<Longrightarrow> sv_con s = C_done \<Longrightarrow>
    main_step s (s\<lparr>sv_main := M_exit (stats_line (sv_stats s))\<rparr>)"

definition server_init :: "'q \<Rightarrow> 's \<Rightarrow> (nat \<Rightarrow> message) \<Rightarrow> ('q, 's) server" where
  "server_init q p m = \<lparr>sv_main = M_wait, sv_run = True, sv_net = N_idle, sv_con = C_check, sv_queue = q,
     sv_pool = p, sv_store = m, sv_seq = 0, sv_stats = stats_init, sv_in = [], sv_out = [], sv_drop = 0\<rparr>"

definition server_step :: "(nat \<Rightarrow> 'q \<Rightarrow> bool \<times> 'q) \<Rightarrow> ('q \<Rightarrow> nat option \<times> 'q) \<Rightarrow> ('s \<Rightarrow> nat option \<times> 's) \<Rightarrow>
    (nat \<Rightarrow> 's \<Rightarrow> 's) \<Rightarrow> (nat \<Rightarrow> nat option \<Rightarrow> 's \<Rightarrow> 's) \<Rightarrow> ('q, 's) server \<Rightarrow> ('q, 's) server \<Rightarrow> bool" where
  "server_step psh pp alloc free scribble s s' \<longleftrightarrow>
     net_step psh alloc scribble s s' \<or> con_step pp free s s' \<or> main_step s s'"

subsection \<open>The contract\<close>

text \<open>The blocks that hold a message, and those that a thread holds without one.\<close>

fun net_blocks :: "net_pc \<Rightarrow> nat list" where
  "net_blocks (N_hold b) = [b]"
| "net_blocks _ = []"

fun con_blocks :: "con_pc \<Rightarrow> nat list" where
  "con_blocks (C_hold b) = [b]"
| "con_blocks _ = []"

fun net_spare :: "net_pc \<Rightarrow> nat list" where
  "net_spare (N_got b) = [b]"
| "net_spare _ = []"

fun con_spare :: "con_pc \<Rightarrow> nat list" where
  "con_spare (C_free b) = [b]"
| "con_spare _ = []"

text \<open>The message of the \<open>i\<close>-th accepted payload.\<close>

definition carries :: "nat \<Rightarrow> i64 \<times> byte list \<Rightarrow> message \<Rightarrow> bool" where
  "carries i p m \<longleftrightarrow> m_recv_ns m = fst p \<and> m_seq m = of_nat i \<and> m_len m = of_nat (min data_size (length (snd p))) \<and>
     take (min data_size (length (snd p))) (m_data m) = take data_size (snd p)"

lemma fill_message_carries: "carries i (ts, buf) (fill_message ts (of_nat i) buf m)"
  by (simp add: carries_def fill_message_def Let_def min_def)

definition carry_all :: "(i64 \<times> byte list) list \<Rightarrow> message list \<Rightarrow> bool" where
  "carry_all ps ms \<longleftrightarrow> length ps = length ms \<and> (\<forall>i<length ms. carries i (ps ! i) (ms ! i))"

lemma carry_all_snoc: "carry_all ps ms \<Longrightarrow> carries (length ps) p m \<Longrightarrow> carry_all (ps @ [p]) (ms @ [m])"
  by (auto simp: carry_all_def nth_append less_Suc_eq)

text \<open>What the accounting amounts to: the sum (in 64 bits), the number and the largest of the latencies, at least 0.\<close>

definition stats_of :: "(i64 \<times> message) list \<Rightarrow> stats" where
  "stats_of out = (let ls = map (\<lambda>(now, m). now - m_recv_ns m) out
     in \<lparr>st_total_ns = sum_list ls, st_count = of_nat (length ls), st_max_ns = of_int (Max (insert 0 (sint ` set ls)))\<rparr>)"

lemma stats_of_nil: "stats_of [] = stats_init"
  by (simp add: stats_of_def stats_init_def)

lemma stats_of_snoc: "stats_of (out @ [(now, m)]) = account now m (stats_of out)"
proof -
  define L where "L = insert 0 (sint ` set (map (\<lambda>(now, m). now - m_recv_ns m) out))"
  have fin: "finite L" "L \<noteq> {}" by (auto simp: L_def)
  have "Max L \<in> L" using fin by (rule Max_in)
  then have M: "sint (of_int (Max L) :: i64) = Max L" by (auto simp: L_def)
  have new: "insert 0 (sint ` set (map (\<lambda>(now, m). now - m_recv_ns m) (out @ [(now, m)]))) =
      insert (sint (now - m_recv_ns m)) L" by (auto simp: L_def)
  have "Max (insert (sint (now - m_recv_ns m)) L) = max (sint (now - m_recv_ns m)) (Max L)"
    using fin by simp
  then have big: "of_int (Max (insert (sint (now - m_recv_ns m)) L)) =
      (if Max L < sint (now - m_recv_ns m) then now - m_recv_ns m else of_int (Max L))"
    by simp
  have "st_max_ns (stats_of out) = of_int (Max L)" by (simp add: stats_of_def L_def)
  moreover have "st_max_ns (stats_of (out @ [(now, m)])) = of_int (Max (insert (sint (now - m_recv_ns m)) L))"
    unfolding stats_of_def Let_def new by simp
  ultimately have "st_max_ns (stats_of (out @ [(now, m)])) = st_max_ns (account now m (stats_of out))"
    using big M by (simp add: account_def Let_def)
  then show ?thesis
    by (intro stats.equality) (simp_all add: stats_of_def account_def Let_def)
qed

text \<open>The promise of the pipeline, over the histories alone.\<close>

definition delivers :: "nat \<Rightarrow> ('q, 's, 'z) server_scheme \<Rightarrow> bool" where
  "delivers n s \<longleftrightarrow> carry_all (take (length (sv_out s)) (sv_in s)) (map snd (sv_out s)) \<and>
     length (sv_out s) \<le> length (sv_in s) \<and> length (sv_in s) \<le> length (sv_out s) + n \<and>
     sv_stats s = stats_of (sv_out s) \<and>
     (\<forall>r. sv_main s = M_exit r \<longrightarrow> r = stats_line (stats_of (sv_out s)))"

locale pipeline = queue: bounded_fifo psh pp items qok cap + pool: allocator alloc free scribble avail owned pok
  for psh :: "nat \<Rightarrow> 'q \<Rightarrow> bool \<times> 'q" and pp items qok cap
    and alloc :: "'s \<Rightarrow> nat option \<times> 's" and free scribble avail owned pok
begin

abbreviation step where "step \<equiv> server_step psh pp alloc free scribble"

definition in_use :: "('q, 's) server \<Rightarrow> nat list" where
  "in_use s = con_blocks (sv_con s) @ items (sv_queue s) @ net_blocks (sv_net s)"

definition at_hand :: "('q, 's) server \<Rightarrow> nat list" where
  "at_hand s = con_spare (sv_con s) @ net_spare (sv_net s) @ in_use s"

definition server_inv :: "('q, 's) server \<Rightarrow> bool" where
  "server_inv s \<longleftrightarrow> qok (sv_queue s) \<and> pok (sv_pool s) \<and>
     distinct (at_hand s) \<and> set (at_hand s) \<inter> set (avail (sv_pool s)) = {} \<and>
     set (at_hand s) \<union> set (avail (sv_pool s)) = owned (sv_pool s) \<and>
     carry_all (sv_in s) (map snd (sv_out s) @ map (sv_store s) (in_use s)) \<and>
     sv_seq s = of_nat (length (sv_in s)) \<and>
     sv_stats s = stats_of (sv_out s)"

lemmas hand_defs = server_inv_def at_hand_def in_use_def

lemma inv_init:
  assumes "qok q" "items q = []" "pok p" "set (avail p) = owned p"
  shows "server_inv (server_init q p m)"
  using assms by (simp add: hand_defs server_init_def carry_all_def stats_of_nil)

lemma inv_net:
  assumes "net_step psh alloc scribble s s'" "server_inv s"
  shows "server_inv s'"
  using assms(1)
proof cases
  case (allocated b p)
  from assms(2) have i: "pok (sv_pool s)" by (simp add: server_inv_def)
  note a = pool.alloc_Some [OF i allocated(3)]
  have h: "at_hand s' = con_spare (sv_con s) @ b # in_use s" "at_hand s = con_spare (sv_con s) @ in_use s" "in_use s' = in_use s"
    using allocated by (simp_all add: at_hand_def in_use_def)
  have "b \<notin> set (at_hand s)" "set (at_hand s) \<inter> set (avail p) = {}"
    "insert b (set (at_hand s) \<union> set (avail p)) = owned p"
    using assms(2) a pool.ok_avail [OF i] pool.ok_avail [of p] unfolding server_inv_def by blast+
  then show ?thesis
    using assms(2) a allocated(1) unfolding server_inv_def h by auto
next
  case (receive b buf ts v)
  have u: "in_use s' = in_use s @ [b]" "set (at_hand s') = set (at_hand s)" "distinct (at_hand s') \<longleftrightarrow> distinct (at_hand s)"
    using receive by (auto simp: in_use_def at_hand_def)
  have b: "b \<in> set (at_hand s)" "b \<notin> set (in_use s)"
    using assms(2) receive(2) by (simp_all add: at_hand_def server_inv_def)
  have o: "pok (sv_pool s)" "b \<in> owned (sv_pool s)" "b \<notin> set (avail (sv_pool s))"
    using assms(2) b(1) by (auto simp: server_inv_def)
  note w = pool.scribble_avail [OF o, of v]
  have st: "map (sv_store s') (in_use s') = map (sv_store s) (in_use s) @ [fill_message ts (sv_seq s) buf (sv_store s b)]"
    using b(2) receive(1) u(1) by auto
  have c: "carry_all (sv_in s @ [(ts, buf)]) ((map snd (sv_out s) @ map (sv_store s) (in_use s)) @
      [fill_message ts (sv_seq s) buf (sv_store s b)])"
    using assms(2) by (intro carry_all_snoc) (simp_all add: server_inv_def fill_message_carries)
  show ?thesis
    unfolding server_inv_def st u(2,3) using receive(1) assms(2) w c
    by (simp add: server_inv_def)
next
  case (no_message p)
  with assms(2) pool.alloc_None [OF _ no_message(3)] show ?thesis by (simp add: hand_defs)
next
  case (pushed b q)
  with assms(2) queue.push_result [OF _ pushed(3)] show ?thesis by (simp add: hand_defs)
next
  case (push_again b q)
  with assms(2) queue.push_result [OF _ push_again(3)] show ?thesis by (simp add: hand_defs)
next
  case net_leaves
  with assms(2) show ?thesis by (simp add: hand_defs)
qed

lemma inv_con:
  assumes "con_step pp free s s'" "server_inv s"
  shows "server_inv s'"
  using assms(1)
proof cases
  case con_runs
  with assms(2) show ?thesis by (simp add: hand_defs)
next
  case con_leaves
  with assms(2) show ?thesis by (simp add: hand_defs)
next
  case (popped b q)
  with assms(2) queue.pop_result [OF _ popped(3)] show ?thesis by (simp add: hand_defs)
next
  case (pause q)
  with assms(2) queue.pop_result [OF _ pause(3)] show ?thesis
    by (auto simp: hand_defs split: option.splits)
next
  case (processed b now)
  have h: "set (at_hand s') = set (at_hand s)" "distinct (at_hand s') \<longleftrightarrow> distinct (at_hand s)"
    using processed by (auto simp: in_use_def at_hand_def)
  have u: "map snd (sv_out s') @ map (sv_store s') (in_use s') = map snd (sv_out s) @ map (sv_store s) (in_use s)"
    using processed by (simp add: in_use_def)
  show ?thesis
    using assms(2) processed(1) unfolding server_inv_def h u by (simp add: stats_of_snoc)
next
  case (freed b)
  have u: "at_hand s = b # at_hand s'" "in_use s' = in_use s" using freed by (simp_all add: in_use_def at_hand_def)
  have i: "pok (sv_pool s)" "b \<in> owned (sv_pool s)" "b \<notin> set (avail (sv_pool s))"
    using assms(2) u(1) by (auto simp: server_inv_def)
  note f = pool.free_avail [OF i]
  show ?thesis
    using assms(2) f u(1) freed(1) unfolding server_inv_def u(2) by auto
qed

lemma inv_main: "main_step s s' \<Longrightarrow> server_inv s \<Longrightarrow> server_inv s'"
  by (erule main_step.cases) (simp_all add: hand_defs)

lemma inv_reach:
  assumes "step\<^sup>*\<^sup>* s s'" "server_inv s"
  shows "server_inv s'"
  using assms by (induction rule: rtranclp_induct) (auto simp: server_step_def intro: inv_net inv_con inv_main)

lemma at_hand_bound:
  assumes "server_inv s"
  shows "length (at_hand s) \<le> cap + 2" and "length (in_use s) \<le> cap + 2"
proof -
  have "length (items (sv_queue s)) \<le> cap" using assms queue.ok_length by (simp add: server_inv_def)
  then show "length (at_hand s) \<le> cap + 2" by (cases "sv_con s"; cases "sv_net s") (auto simp: at_hand_def in_use_def)
  then show "length (in_use s) \<le> cap + 2" by (simp add: at_hand_def)
qed

text \<open>With more blocks than the queue and the two threads can hold, the pool is never empty.\<close>

lemma alloc_succeeds:
  assumes "server_inv s" "cap + 2 < card (owned (sv_pool s))"
  shows "fst (alloc (sv_pool s)) \<noteq> None"
proof
  assume n: "fst (alloc (sv_pool s)) = None"
  have "pok (sv_pool s)" using assms(1) by (simp add: server_inv_def)
  from pool.alloc_None [OF this, of "snd (alloc (sv_pool s))"] n have "avail (sv_pool s) = []"
    by (metis prod.collapse)
  with assms(1) have "owned (sv_pool s) = set (at_hand s)" by (auto simp: server_inv_def)
  then have "card (owned (sv_pool s)) \<le> length (at_hand s)" by (simp add: card_length)
  with at_hand_bound(1) [OF assms(1)] assms(2) show False by linarith
qed


text \<open>Histories alone: the processed messages are those of the first payloads, in order.\<close>

lemma inv_histories:
  assumes "server_inv s"
  shows "carry_all (take (length (sv_out s)) (sv_in s)) (map snd (sv_out s))"
    and "length (sv_out s) \<le> length (sv_in s)" and "length (sv_in s) \<le> length (sv_out s) + cap + 2"
proof -
  have c: "carry_all (sv_in s) (map snd (sv_out s) @ map (sv_store s) (in_use s))"
    using assms by (simp add: server_inv_def)
  then have l: "length (sv_in s) = length (sv_out s) + length (in_use s)" by (simp add: carry_all_def)
  then show "length (sv_out s) \<le> length (sv_in s)" "length (sv_in s) \<le> length (sv_out s) + cap + 2"
    using at_hand_bound(2) [OF assms] by simp_all
  show "carry_all (take (length (sv_out s)) (sv_in s)) (map snd (sv_out s))"
    unfolding carry_all_def
  proof (intro conjI allI impI)
    fix i assume "i < length (map snd (sv_out s))"
    then show "carries i (take (length (sv_out s)) (sv_in s) ! i) (map snd (sv_out s) ! i)"
      using c l by (auto simp: carry_all_def nth_append dest: spec [of _ i])
  qed (simp add: l)
qed

lemma no_drop:
  assumes "step\<^sup>*\<^sup>* s s'" "server_inv s" "sv_drop s = 0" "owned (sv_pool s) = B" "cap + 2 < card B"
    and owned: "\<And>p b v. pok p \<Longrightarrow> owned (snd (alloc p)) = owned p"
  shows "sv_drop s' = 0 \<and> owned (sv_pool s') = B"
  using assms(1)
proof (induction rule: rtranclp_induct)
  case (step s1 s2)
  have i: "server_inv s1" using step.hyps(1) assms(2) by (rule inv_reach)
  then have p: "pok (sv_pool s1)" by (simp add: server_inv_def)
  have some: "fst (alloc (sv_pool s1)) \<noteq> None"
    using alloc_succeeds [OF i] step.IH assms(5) by simp
  from step.hyps(2) show ?case unfolding server_step_def
  proof (elim disjE)
    assume n: "net_step psh alloc scribble s1 s2"
    then show ?thesis
    proof cases
      case (allocated b p')
      with owned [OF p] step.IH show ?thesis by simp
    next
      case (receive b buf ts v)
      have "b \<in> owned (sv_pool s1)" "b \<notin> set (avail (sv_pool s1))"
        using i receive(2) by (auto simp: hand_defs)
      with pool.scribble_avail [OF p this, of v] receive step.IH show ?thesis by simp
    next
      case (no_message p')
      with some show ?thesis by simp
    qed (use step.IH in simp_all)
  next
    assume "con_step pp free s1 s2"
    then show ?thesis
    proof cases
      case (freed b)
      have "b \<in> owned (sv_pool s1)" "b \<notin> set (avail (sv_pool s1))"
        using i freed(2) by (auto simp: hand_defs)
      with pool.free_avail [OF p this] freed step.IH show ?thesis by simp
    qed (use step.IH in simp_all)
  next
    assume "main_step s1 s2"
    then show ?thesis by cases (use step.IH in simp_all)
  qed
qed (use assms in simp)

lemma exit_stats: "step\<^sup>*\<^sup>* s s' \<Longrightarrow> sv_main s = M_wait \<Longrightarrow>
    sv_main s' = M_exit r \<Longrightarrow> r = stats_line (sv_stats s') \<and> sv_con s' = C_done \<and> sv_net s' = N_done"
proof (induction arbitrary: r rule: rtranclp_induct)
  case (step s1 s2)
  from step.hyps(2) show ?case unfolding server_step_def
  proof (elim disjE)
    assume "net_step psh alloc scribble s1 s2"
    then show ?thesis by cases (use step in simp_all)
  next
    assume "con_step pp free s1 s2"
    then show ?thesis by cases (use step in simp_all)
  next
    assume "main_step s1 s2"
    then show ?thesis by cases (use step in simp_all)
  qed
qed simp

lemma reach_delivers:
  assumes "step\<^sup>*\<^sup>* s s'" "server_inv s" "sv_main s = M_wait"
  shows "delivers (cap + 2) s'"
proof -
  have i: "server_inv s'" using assms(1,2) by (rule inv_reach)
  then have "sv_stats s' = stats_of (sv_out s')" by (simp add: server_inv_def)
  with inv_histories [OF i] exit_stats [OF assms(1,3)] show ?thesis
    by (simp add: delivers_def)
qed

text \<open>
  The shutdown. Once the consumer has left, nobody pops: a network thread that holds a message and
  finds the queue full pushes forever, and \<open>main\<close> waits for it forever.
\<close>

definition hung :: "('q, 's) server \<Rightarrow> bool" where
  "hung s \<longleftrightarrow> qok (sv_queue s) \<and> length (items (sv_queue s)) = cap \<and> sv_con s = C_done \<and>
     (\<exists>b. sv_net s = N_hold b) \<and> sv_main s = M_join \<and> \<not> sv_run s"

lemma hung_step: "step s s' \<Longrightarrow> hung s \<Longrightarrow> s' = s"
  unfolding server_step_def
proof (elim disjE)
  assume h: "hung s"
  {
    assume "net_step psh alloc scribble s s'"
    then show "s' = s"
      by cases (use h queue.push_full in \<open>auto simp: hung_def\<close>)
  next
    assume "con_step pp free s s'"
    then show "s' = s" by cases (use h in \<open>auto simp: hung_def\<close>)
  next
    assume "main_step s s'"
    then show "s' = s" by cases (use h in \<open>auto simp: hung_def\<close>)
  }
qed

lemma hung_facts:
  assumes "hung s"
  shows "sv_main s = M_join \<and> \<not> sv_run s \<and> step s s"
proof -
  from assms obtain b where b: "sv_net s = N_hold b" "psh b (sv_queue s) = (False, sv_queue s)"
    by (auto simp: hung_def queue.push_full)
  from net_step.push_again [where psh = psh, OF b, of alloc scribble] assms show ?thesis
    by (simp add: hung_def server_step_def)
qed

lemma hung_forever: "step\<^sup>*\<^sup>* s s' \<Longrightarrow> hung s \<Longrightarrow> s' = s"
  by (induction rule: rtranclp_induct) (auto dest: hung_step)

text \<open>Such a state is reachable: the consumer does not run while the network thread fills the queue.\<close>

lemma receive_one:
  assumes "server_inv s" "sv_net s = N_idle" "fst (alloc (sv_pool s)) \<noteq> None"
  shows "\<exists>b s'. step\<^sup>*\<^sup>* s s' \<and> server_inv s' \<and> sv_net s' = N_hold b \<and> sv_con s' = sv_con s \<and> sv_main s' = sv_main s \<and>
    sv_run s' = sv_run s \<and> sv_queue s' = sv_queue s"
proof -
  from assms(3) obtain b p where a: "alloc (sv_pool s) = (Some b, p)" by (cases "alloc (sv_pool s)") auto
  let ?g = "s\<lparr>sv_net := N_got b, sv_pool := p\<rparr>"
  let ?s = "?g\<lparr>sv_net := N_hold b, sv_pool := scribble b None (sv_pool ?g),
      sv_store := (sv_store ?g)(b := fill_message 0 (sv_seq ?g) [0] (sv_store ?g b)),
      sv_seq := sv_seq ?g + 1, sv_in := sv_in ?g @ [(0, [0])]\<rparr>"
  have "net_step psh alloc scribble s ?g" by (rule net_step.allocated) (use assms(2) a in simp_all)
  then have "step s ?g" by (simp add: server_step_def)
  moreover have "net_step psh alloc scribble ?g ?s" by (rule net_step.receive) simp_all
  then have "step ?g ?s" by (simp add: server_step_def)
  ultimately have r: "step\<^sup>*\<^sup>* s ?s" by (meson rtranclp.rtrancl_refl rtranclp.rtrancl_into_rtrancl)
  from inv_reach [OF r assms(1)] have "server_inv ?s" .
  with r show ?thesis by (intro exI [of _ b] exI [of _ ?s]) simp
qed

lemma fill_up:
  assumes "server_inv s" "sv_net s = N_idle" "sv_con s = C_check" "sv_main s = M_wait" "sv_run s" "items (sv_queue s) = []"
    and room: "\<And>t. step\<^sup>*\<^sup>* s t \<Longrightarrow> fst (alloc (sv_pool t)) \<noteq> None"
  shows "n \<le> cap \<Longrightarrow> \<exists>t. step\<^sup>*\<^sup>* s t \<and> sv_net t = N_idle \<and> sv_con t = C_check \<and> sv_main t = M_wait \<and>
    sv_run t \<and> length (items (sv_queue t)) = n"
proof (induction n)
  case 0
  show ?case using assms by (intro exI [of _ s]) simp
next
  case (Suc n)
  then obtain t where t: "step\<^sup>*\<^sup>* s t" "sv_net t = N_idle" "sv_con t = C_check" "sv_main t = M_wait" "sv_run t"
    "length (items (sv_queue t)) = n" by auto
  from receive_one [OF inv_reach [OF t(1) assms(1)] t(2) room [OF t(1)]] obtain b u
    where u: "step\<^sup>*\<^sup>* t u" "server_inv u" "sv_net u = N_hold b" "sv_con u = sv_con t" "sv_main u = sv_main t"
      "sv_run u = sv_run t" "sv_queue u = sv_queue t" by blast
  have q: "qok (sv_queue u)" "length (items (sv_queue u)) < cap" using u t Suc.prems by (auto simp: server_inv_def)
  obtain q' where p: "psh b (sv_queue u) = (True, q')" "items q' = items (sv_queue u) @ [b]"
    using queue.push_fst [OF q, of b] queue.push_items [OF q, of b] by (cases "psh b (sv_queue u)") auto
  have "step u (u\<lparr>sv_net := N_idle, sv_queue := q'\<rparr>)"
    using net_step.pushed [where psh = psh, OF u(3) p(1)] by (simp add: server_step_def)
  with t(1) u(1) have "step\<^sup>*\<^sup>* s (u\<lparr>sv_net := N_idle, sv_queue := q'\<rparr>)"
    by (meson rtranclp_trans rtranclp.rtrancl_into_rtrancl)
  with t u p show ?case by (intro exI [of _ "u\<lparr>sv_net := N_idle, sv_queue := q'\<rparr>"]) simp
qed

lemma hang_reachable:
  assumes "server_inv s" "sv_net s = N_idle" "sv_con s = C_check" "sv_main s = M_wait" "sv_run s" "items (sv_queue s) = []"
    and room: "\<And>t. step\<^sup>*\<^sup>* s t \<Longrightarrow> fst (alloc (sv_pool t)) \<noteq> None"
  shows "\<exists>t. step\<^sup>*\<^sup>* s t \<and> hung t"
proof -
  from fill_up [OF assms, of cap] obtain t where t: "step\<^sup>*\<^sup>* s t" "sv_net t = N_idle" "sv_con t = C_check"
    "sv_main t = M_wait" "sv_run t" "length (items (sv_queue t)) = cap" by blast
  from receive_one [OF inv_reach [OF t(1) assms(1)] t(2) room [OF t(1)]] obtain b u
    where u: "step\<^sup>*\<^sup>* t u" "server_inv u" "sv_net u = N_hold b" "sv_con u = sv_con t" "sv_main u = sv_main t"
      "sv_run u = sv_run t" "sv_queue u = sv_queue t" by blast
  define v where "v = u\<lparr>sv_main := M_join, sv_run := False\<rparr>"
  have v: "step u v" unfolding v_def server_step_def using u(5) t(4) by (intro disjI2 main_step.stop) simp
  define w where "w = v\<lparr>sv_con := C_done\<rparr>"
  have w: "step v w" unfolding w_def server_step_def
    using u(4) t(3) by (intro disjI2 disjI1 con_step.con_leaves) (simp_all add: v_def)
  have "step\<^sup>*\<^sup>* s w" using t(1) u(1) v w by (meson rtranclp_trans rtranclp.rtrancl_into_rtrancl)
  moreover have "hung w" using t u by (auto simp: hung_def w_def v_def server_inv_def)
  ultimately show ?thesis by blast
qed

end

end
