(* ===== verification/Latency_Pool.thy ===== *)
theory Latency_Pool
  imports Latency_Server
begin

section \<open>The latency servers on the shared pool\<close>

text \<open>
  In \<open>v1\<close>, \<open>v3\<close> and \<open>v5\<close> the network thread calls \<open>MemoryPool::alloc\<close> while the consumer thread calls
  \<open>MemoryPool::free\<close>, and \<open>MemoryPool\<close> has no lock. Here the two calls are the loads and stores of
  \<open>pool_race\<close>, interleaved with everything else. As long as no call of \<open>alloc\<close> overlaps a call of
  \<open>free\<close> this refines the pipeline of \<open>Latency_Server\<close>, whose promise follows; and each run of that pipeline
  is one of these. Where they overlap, the promise fails: \<open>race_breaks_order\<close>.
\<close>

subsection \<open>The threads\<close>

text \<open>
  \<open>ps_alloc\<close> is where the network thread is in \<open>alloc\<close> (\<open>A_start\<close> when it has not begun), \<open>ps_free\<close> where
  the consumer is in \<open>free\<close> (\<open>F_done\<close> when it does not call it).
\<close>

record 'q pool_server = "('q, mpool) server" +
  ps_alloc :: alloc_pc
  ps_free :: free_pc

inductive pool_net :: "(nat \<Rightarrow> 'q \<Rightarrow> bool \<times> 'q) \<Rightarrow> 'q pool_server \<Rightarrow> 'q pool_server \<Rightarrow> bool" for psh where
  alloc_on: "sv_net s = N_idle \<Longrightarrow> pool_race (ps_alloc s, ps_free s, sv_pool s) (a, ps_free s, p) \<Longrightarrow> (\<And>r. a \<noteq> A_done r) \<Longrightarrow>
    pool_net psh s (s\<lparr>sv_pool := p, ps_alloc := a\<rparr>)"
| alloc_some: "sv_net s = N_idle \<Longrightarrow> pool_race (ps_alloc s, ps_free s, sv_pool s) (A_done (Some b), ps_free s, p) \<Longrightarrow>
    pool_net psh s (s\<lparr>sv_net := N_got b, sv_pool := p, ps_alloc := A_start\<rparr>)"
| alloc_none: "sv_net s = N_idle \<Longrightarrow> pool_race (ps_alloc s, ps_free s, sv_pool s) (A_done None, ps_free s, p) \<Longrightarrow>
    pool_net psh s (s\<lparr>sv_pool := p, sv_drop := sv_drop s + 1, ps_alloc := A_start\<rparr>)"
| fill: "sv_net s = N_got b \<Longrightarrow> 0 < length buf \<Longrightarrow> length buf \<le> 1024 \<Longrightarrow>
    pool_net psh s (s\<lparr>sv_net := N_hold b, sv_pool := mp_write b v (sv_pool s),
      sv_store := (sv_store s)(b := fill_message ts (sv_seq s) buf (sv_store s b)),
      sv_seq := sv_seq s + 1, sv_in := sv_in s @ [(ts, buf)]\<rparr>)"
| push_ok: "sv_net s = N_hold b \<Longrightarrow> psh b (sv_queue s) = (True, q) \<Longrightarrow>
    pool_net psh s (s\<lparr>sv_net := N_idle, sv_queue := q\<rparr>)"
| push_full: "sv_net s = N_hold b \<Longrightarrow> psh b (sv_queue s) = (False, q) \<Longrightarrow> pool_net psh s (s\<lparr>sv_queue := q\<rparr>)"
| leaves: "sv_net s = N_idle \<Longrightarrow> ps_alloc s = A_start \<Longrightarrow> \<not> sv_run s \<Longrightarrow> pool_net psh s (s\<lparr>sv_net := N_done\<rparr>)"

inductive pool_con :: "('q \<Rightarrow> nat option \<times> 'q) \<Rightarrow> 'q pool_server \<Rightarrow> 'q pool_server \<Rightarrow> bool" for pp where
  runs: "sv_con s = C_check \<Longrightarrow> sv_run s \<Longrightarrow> pool_con pp s (s\<lparr>sv_con := C_poll\<rparr>)"
| ends: "sv_con s = C_check \<Longrightarrow> \<not> sv_run s \<Longrightarrow> pool_con pp s (s\<lparr>sv_con := C_done\<rparr>)"
| pop_some: "sv_con s = C_poll \<Longrightarrow> pp (sv_queue s) = (Some b, q) \<Longrightarrow>
    pool_con pp s (s\<lparr>sv_con := C_hold b, sv_queue := q\<rparr>)"
| pop_none: "sv_con s = C_poll \<Longrightarrow> pp (sv_queue s) = (None, q) \<Longrightarrow>
    pool_con pp s (s\<lparr>sv_con := C_check, sv_queue := q\<rparr>)"
| accounted: "sv_con s = C_hold b \<Longrightarrow>
    pool_con pp s (s\<lparr>sv_con := C_free b, sv_stats := account now (sv_store s b) (sv_stats s),
      sv_out := sv_out s @ [(now, sv_store s b)], ps_free := F_start b\<rparr>)"
| free_on: "sv_con s = C_free b \<Longrightarrow> pool_race (ps_alloc s, ps_free s, sv_pool s) (ps_alloc s, f, p) \<Longrightarrow> f \<noteq> F_done \<Longrightarrow>
    pool_con pp s (s\<lparr>sv_pool := p, ps_free := f\<rparr>)"
| free_end: "sv_con s = C_free b \<Longrightarrow> pool_race (ps_alloc s, ps_free s, sv_pool s) (ps_alloc s, F_done, p) \<Longrightarrow>
    pool_con pp s (s\<lparr>sv_con := C_check, sv_pool := p, ps_free := F_done\<rparr>)"

definition pool_step :: "(nat \<Rightarrow> 'q \<Rightarrow> bool \<times> 'q) \<Rightarrow> ('q \<Rightarrow> nat option \<times> 'q) \<Rightarrow> 'q pool_server \<Rightarrow> 'q pool_server \<Rightarrow> bool" where
  "pool_step psh pp s s' \<longleftrightarrow> pool_net psh s s' \<or> pool_con pp s s' \<or> main_step s s'"

definition pool_init :: "nat \<Rightarrow> 'q \<Rightarrow> (nat \<Rightarrow> message) \<Rightarrow> 'q pool_server" where
  "pool_init n q m = server.extend (server_init q (mp_new n) m) \<lparr>ps_alloc = A_start, ps_free = F_done\<rparr>"

text \<open>Both threads have done their first load or store of the pool, and not their last.\<close>

fun mid_free :: "free_pc \<Rightarrow> bool" where
  "mid_free (F_load b v) = True"
| "mid_free (F_link b) = True"
| "mid_free f = False"

definition pool_overlap :: "'q pool_server \<Rightarrow> bool" where
  "pool_overlap s \<longleftrightarrow> ps_alloc s \<noteq> A_start \<and> mid_free (ps_free s)"

definition serially :: "('q pool_server \<Rightarrow> 'q pool_server \<Rightarrow> bool) \<Rightarrow> 'q pool_server \<Rightarrow> 'q pool_server \<Rightarrow> bool" where
  "serially step s s' \<longleftrightarrow> step s s' \<and> \<not> pool_overlap s'"

inductive_cases alloc_race: "pool_race (a, f, s) (a', f, s')"
inductive_cases free_race: "pool_race (a, f, s) (a, f', s')"

subsection \<open>Calls that do not overlap\<close>

text \<open>The pipeline that a state stands for: \<open>free\<close> takes effect when it has linked the block.\<close>

fun free_con :: "free_pc \<Rightarrow> con_pc \<Rightarrow> con_pc" where
  "free_con (F_link b) c = C_check"
| "free_con f c = c"

fun free_pool :: "free_pc \<Rightarrow> mpool \<Rightarrow> mpool" where
  "free_pool (F_link b) p = p\<lparr>mp_free_head := Some b\<rparr>"
| "free_pool f p = p"

definition coarse :: "'q pool_server \<Rightarrow> ('q, mpool) server" where
  "coarse s = \<lparr>sv_main = sv_main s, sv_run = sv_run s, sv_net = sv_net s,
     sv_con = free_con (ps_free s) (sv_con s), sv_queue = sv_queue s,
     sv_pool = free_pool (ps_free s) (sv_pool s),
     sv_store = sv_store s, sv_seq = sv_seq s, sv_stats = sv_stats s, sv_in = sv_in s, sv_out = sv_out s, sv_drop = sv_drop s\<rparr>"

text \<open>What the threads have loaded is still so.\<close>

fun alloc_knows :: "alloc_pc \<Rightarrow> mpool \<Rightarrow> bool" where
  "alloc_knows A_start p = True"
| "alloc_knows (A_head h) p = (h = mp_free_head p)"
| "alloc_knows (A_next b v) p = (mp_free_head p = Some b \<and> v = mp_next p b)"
| "alloc_knows (A_done r) p = False"

fun free_knows :: "con_pc \<Rightarrow> free_pc \<Rightarrow> mpool \<Rightarrow> bool" where
  "free_knows (C_free b) f p = (f = F_start b \<or> f = F_load b (mp_free_head p) \<or> f = F_link b)"
| "free_knows c f p = (f = F_done)"

definition pool_knows :: "'q pool_server \<Rightarrow> bool" where
  "pool_knows s \<longleftrightarrow> \<not> pool_overlap s \<and> (sv_net s \<noteq> N_idle \<longrightarrow> ps_alloc s = A_start) \<and>
     alloc_knows (ps_alloc s) (sv_pool s) \<and> free_knows (sv_con s) (ps_free s) (sv_pool s)"

lemmas knows_defs = pool_knows_def pool_overlap_def coarse_def

lemma free_same: "\<not> mid_free f \<Longrightarrow> free_con f c = c \<and> free_pool f p = p"
  by (cases f) simp_all

lemma free_pool_write: "free_pool f (mp_write b v p) = mp_write b v (free_pool f p)"
  by (cases f) (simp_all add: mp_write_def)

lemma free_knows_head: "mp_free_head p' = mp_free_head p \<Longrightarrow> free_knows c f p' = free_knows c f p"
  by (cases c) simp_all

lemma free_knows_idle: "\<not> mid_free f \<Longrightarrow> free_knows c f p' = free_knows c f p"
  by (cases c; cases f) simp_all

lemma net_refined:
  assumes "pool_net psh s s'" "pool_knows s" "\<not> pool_overlap s'"
  shows "pool_knows s' \<and> (net_step psh mp_alloc mp_write (coarse s) (coarse s') \<or> coarse s' = coarse s)"
  using assms(1)
proof cases
  case (alloc_on a p)
  from alloc_on(3) show ?thesis
    by (cases rule: alloc_race) (use alloc_on assms(2,3) in \<open>auto simp: knows_defs\<close>)
next
  case (alloc_some b p)
  from alloc_some(3) obtain v where a: "ps_alloc s = A_next b v" "p = (sv_pool s)\<lparr>mp_free_head := v\<rparr>"
    by (cases rule: alloc_race) auto
  then have f: "\<not> mid_free (ps_free s)" and h: "mp_free_head (sv_pool s) = Some b" "v = mp_next (sv_pool s) b"
    using assms(2) by (auto simp: knows_defs)
  have k: "pool_knows s'"
    using f alloc_some(1) assms(2) free_knows_idle [OF f, of _ p "sv_pool s"] by (simp add: pool_knows_def pool_overlap_def)
  have i: "sv_net (coarse s) = N_idle" "mp_alloc (sv_pool (coarse s)) = (Some b, p)"
    using f h a alloc_some(2) by (simp_all add: coarse_def mp_alloc_def free_same)
  have "coarse s' = (coarse s)\<lparr>sv_net := N_got b, sv_pool := p\<rparr>"
    using f alloc_some(1) by (simp add: coarse_def free_same)
  with net_step.allocated [where psh = psh and alloc = mp_alloc, of "coarse s" b p mp_write] i k show ?thesis by simp
next
  case (alloc_none p)
  from alloc_none(3) have "ps_alloc s = A_head None \<and> p = sv_pool s" by (cases rule: alloc_race) auto
  then have a: "ps_alloc s = A_head None" "p = sv_pool s" by simp_all
  then have f: "\<not> mid_free (ps_free s)" and h: "mp_free_head (sv_pool s) = None"
    using assms(2) by (auto simp: knows_defs)
  have k: "pool_knows s'"
    using f a alloc_none(1) assms(2) by (simp add: pool_knows_def pool_overlap_def)
  have i: "sv_net (coarse s) = N_idle" "mp_alloc (sv_pool (coarse s)) = (None, p)"
    using f h a alloc_none(2) by (simp_all add: coarse_def mp_alloc_def free_same)
  have "coarse s' = (coarse s)\<lparr>sv_pool := p, sv_drop := sv_drop (coarse s) + 1\<rparr>"
    using f a alloc_none(1) by (simp add: coarse_def free_same)
  with net_step.no_message [where psh = psh and alloc = mp_alloc, of "coarse s" p mp_write] i k show ?thesis by simp
next
  case (fill b buf ts v)
  have "mp_free_head (mp_write b v (sv_pool s)) = mp_free_head (sv_pool s)" by (simp add: mp_write_def)
  from free_knows_head [OF this] have k: "pool_knows s'"
    using fill(1,2) assms(2) by (simp add: pool_knows_def pool_overlap_def)
  have "coarse s' = (coarse s)\<lparr>sv_net := N_hold b, sv_pool := mp_write b v (sv_pool (coarse s)),
      sv_store := (sv_store (coarse s))(b := fill_message ts (sv_seq (coarse s)) buf (sv_store (coarse s) b)),
      sv_seq := sv_seq (coarse s) + 1, sv_in := sv_in (coarse s) @ [(ts, buf)]\<rparr>"
    using fill(1) by (simp add: coarse_def free_pool_write)
  moreover have "sv_net (coarse s) = N_got b" using fill(2) by (simp add: coarse_def)
  ultimately show ?thesis using k net_step.receive [where psh = psh and alloc = mp_alloc] fill(3,4) by metis
next
  case (push_ok b q)
  have "pool_knows s'" using push_ok(1,2) assms(2) by (simp add: knows_defs)
  moreover have "coarse s' = (coarse s)\<lparr>sv_net := N_idle, sv_queue := q\<rparr>" using push_ok(1) by (simp add: coarse_def)
  moreover have "sv_net (coarse s) = N_hold b" "psh b (sv_queue (coarse s)) = (True, q)"
    using push_ok by (simp_all add: coarse_def)
  ultimately show ?thesis using net_step.pushed by metis
next
  case (push_full b q)
  have "pool_knows s'" using push_full(1,2) assms(2) by (simp add: knows_defs)
  moreover have "coarse s' = (coarse s)\<lparr>sv_queue := q\<rparr>" using push_full(1) by (simp add: coarse_def)
  moreover have "sv_net (coarse s) = N_hold b" "psh b (sv_queue (coarse s)) = (False, q)"
    using push_full by (simp_all add: coarse_def)
  ultimately show ?thesis using net_step.push_again by metis
next
  case leaves
  have "pool_knows s'" using leaves assms(2) by (simp add: knows_defs)
  moreover have "coarse s' = (coarse s)\<lparr>sv_net := N_done\<rparr>" using leaves(1) by (simp add: coarse_def)
  moreover have "sv_net (coarse s) = N_idle" "\<not> sv_run (coarse s)" using leaves by (simp_all add: coarse_def)
  ultimately show ?thesis using net_step.net_leaves by metis
qed

lemma con_refined:
  assumes "pool_con pp s s'" "pool_knows s" "\<not> pool_overlap s'"
  shows "pool_knows s' \<and> (con_step pp mp_free (coarse s) (coarse s') \<or> coarse s' = coarse s)"
  using assms(1)
proof cases
  case runs
  have f: "ps_free s = F_done" using runs assms(2) by (simp add: pool_knows_def)
  have "pool_knows s'" using f runs assms(2) by (simp add: knows_defs)
  moreover have "coarse s' = (coarse s)\<lparr>sv_con := C_poll\<rparr>" using f runs(1) by (simp add: coarse_def)
  moreover have "sv_con (coarse s) = C_check" "sv_run (coarse s)" using f runs by (simp_all add: coarse_def)
  ultimately show ?thesis using con_step.con_runs by metis
next
  case ends
  have f: "ps_free s = F_done" using ends assms(2) by (simp add: pool_knows_def)
  have "pool_knows s'" using f ends assms(2) by (simp add: knows_defs)
  moreover have "coarse s' = (coarse s)\<lparr>sv_con := C_done\<rparr>" using f ends(1) by (simp add: coarse_def)
  moreover have "sv_con (coarse s) = C_check" "\<not> sv_run (coarse s)" using f ends by (simp_all add: coarse_def)
  ultimately show ?thesis using con_step.con_leaves by metis
next
  case (pop_some b q)
  have f: "ps_free s = F_done" using pop_some assms(2) by (simp add: pool_knows_def)
  have "pool_knows s'" using f pop_some assms(2) by (simp add: knows_defs)
  moreover have "coarse s' = (coarse s)\<lparr>sv_con := C_hold b, sv_queue := q\<rparr>" using f pop_some(1) by (simp add: coarse_def)
  moreover have "sv_con (coarse s) = C_poll" "pp (sv_queue (coarse s)) = (Some b, q)"
    using f pop_some by (simp_all add: coarse_def)
  ultimately show ?thesis using con_step.popped by metis
next
  case (pop_none q)
  have f: "ps_free s = F_done" using pop_none assms(2) by (simp add: pool_knows_def)
  have "pool_knows s'" using f pop_none assms(2) by (simp add: knows_defs)
  moreover have "coarse s' = (coarse s)\<lparr>sv_con := C_check, sv_queue := q\<rparr>" using f pop_none(1) by (simp add: coarse_def)
  moreover have "sv_con (coarse s) = C_poll" "pp (sv_queue (coarse s)) = (None, q)"
    using f pop_none by (simp_all add: coarse_def)
  ultimately show ?thesis using con_step.pause by metis
next
  case (accounted b now)
  have f: "ps_free s = F_done" using accounted assms(2) by (simp add: pool_knows_def)
  have "pool_knows s'" using f accounted assms(2) by (simp add: knows_defs)
  moreover have "coarse s' = (coarse s)\<lparr>sv_con := C_free b,
      sv_stats := account now (sv_store (coarse s) b) (sv_stats (coarse s)),
      sv_out := sv_out (coarse s) @ [(now, sv_store (coarse s) b)]\<rparr>" using f accounted(1) by (simp add: coarse_def)
  moreover have "sv_con (coarse s) = C_hold b" using f accounted by (simp add: coarse_def)
  ultimately show ?thesis using con_step.processed by metis
next
  case (free_on b g p)
  have f: "ps_free s = F_start b \<or> ps_free s = F_load b (mp_free_head (sv_pool s)) \<or> ps_free s = F_link b"
    using free_on(2) assms(2) by (simp add: pool_knows_def)
  from free_on(3,4) f have "ps_free s = F_start b \<and> g = F_load b (mp_free_head (sv_pool s)) \<and> p = sv_pool s \<or>
      ps_free s = F_load b (mp_free_head (sv_pool s)) \<and> g = F_link b \<and>
      p = (sv_pool s)\<lparr>mp_next := (mp_next (sv_pool s))(b := mp_free_head (sv_pool s))\<rparr>"
    by (elim free_race) auto
  then show ?thesis
  proof
    assume "ps_free s = F_start b \<and> g = F_load b (mp_free_head (sv_pool s)) \<and> p = sv_pool s"
    with free_on(1,2) assms(2,3) show ?thesis by (simp add: knows_defs)
  next
    assume l: "ps_free s = F_load b (mp_free_head (sv_pool s)) \<and> g = F_link b \<and>
      p = (sv_pool s)\<lparr>mp_next := (mp_next (sv_pool s))(b := mp_free_head (sv_pool s))\<rparr>"
    then have "ps_alloc s = A_start" using assms(2) by (simp add: knows_defs)
    with l free_on(1,2) assms(2) have "pool_knows s'" by (simp add: knows_defs)
    moreover have "coarse s' = (coarse s)\<lparr>sv_con := C_check, sv_pool := mp_free b (sv_pool (coarse s))\<rparr>"
      using l free_on(1) by (simp add: coarse_def mp_free_def)
    moreover have "sv_con (coarse s) = C_free b" using l free_on(2) by (simp add: coarse_def)
    ultimately show ?thesis using con_step.freed by metis
  qed
next
  case (free_end b p)
  have "ps_free s \<noteq> F_done" using free_end(2) assms(2) by (auto simp: pool_knows_def)
  with free_end(3) obtain c where "ps_free s = F_link c" "p = (sv_pool s)\<lparr>mp_free_head := Some c\<rparr>"
    by (elim free_race) auto
  with free_end(2) assms(2) have f: "ps_free s = F_link b" "p = (sv_pool s)\<lparr>mp_free_head := Some b\<rparr>"
    by (auto simp: pool_knows_def)
  then have "ps_alloc s = A_start" using assms(2) by (simp add: knows_defs)
  with f free_end(1) assms(2) show ?thesis by (simp add: knows_defs)
qed

lemma main_refined:
  assumes "main_step s s'" "pool_knows s"
  shows "pool_knows s' \<and> main_step (coarse s) (coarse s')"
  using assms(1)
proof cases
  case stop
  have "pool_knows s'" using stop assms(2) by (auto simp: knows_defs)
  moreover have "coarse s' = (coarse s)\<lparr>sv_main := M_join, sv_run := False\<rparr>" using stop(1) by (simp add: coarse_def)
  moreover have "sv_main (coarse s) = M_wait" using stop by (simp add: coarse_def)
  ultimately show ?thesis using main_step.stop by metis
next
  case joined
  have f: "ps_free s = F_done" using joined assms(2) by (simp add: pool_knows_def)
  have "pool_knows s'" using f joined assms(2) by (simp add: knows_defs)
  moreover have "coarse s' = (coarse s)\<lparr>sv_main := M_exit (stats_line (sv_stats (coarse s)))\<rparr>"
    using f joined(1) by (simp add: coarse_def)
  moreover have "sv_main (coarse s) = M_join" "sv_net (coarse s) = N_done" "sv_con (coarse s) = C_done"
    using f joined by (simp_all add: coarse_def)
  ultimately show ?thesis using main_step.joined by metis
qed

text \<open>A run without overlap is a run of the pipeline.\<close>

lemma serial_refined:
  assumes "(serially (pool_step psh pp))\<^sup>*\<^sup>* s s'" "pool_knows s"
  shows "pool_knows s' \<and> (server_step psh pp mp_alloc mp_free mp_write)\<^sup>*\<^sup>* (coarse s) (coarse s')"
  using assms
proof (induction rule: rtranclp_induct)
  case (step t u)
  then have t: "pool_knows t" "(server_step psh pp mp_alloc mp_free mp_write)\<^sup>*\<^sup>* (coarse s) (coarse t)" by blast+
  have "pool_step psh pp t u" "\<not> pool_overlap u" using step.hyps(2) by (simp_all add: serially_def)
  then have "pool_knows u \<and> (server_step psh pp mp_alloc mp_free mp_write (coarse t) (coarse u) \<or> coarse u = coarse t)"
    unfolding pool_step_def server_step_def using net_refined con_refined main_refined t(1) by blast
  with t(2) show ?case by (auto intro: rtranclp.rtrancl_into_rtrancl)
qed simp

lemma coarse_histories: "delivers n (coarse s) = delivers n s" "sv_drop (coarse s) = sv_drop s"
  by (simp_all add: delivers_def coarse_def)

text \<open>Conversely, each run of the pipeline is a run without overlap: the calls are made one at a time.\<close>

fun free_of :: "con_pc \<Rightarrow> free_pc" where
  "free_of (C_free b) = F_start b"
| "free_of c = F_done"

definition embed :: "('q, mpool) server \<Rightarrow> 'q pool_server" where
  "embed s = \<lparr>sv_main = sv_main s, sv_run = sv_run s, sv_net = sv_net s, sv_con = sv_con s, sv_queue = sv_queue s,
     sv_pool = sv_pool s, sv_store = sv_store s, sv_seq = sv_seq s, sv_stats = sv_stats s, sv_in = sv_in s, sv_out = sv_out s,
     sv_drop = sv_drop s, ps_alloc = A_start, ps_free = free_of (sv_con s)\<rparr>"

lemma embed_init: "embed (server_init q (mp_new n) m) = pool_init n q m"
  by (simp add: embed_def server_init_def pool_init_def server.extend_def)

lemma embed_knows: "pool_knows (embed s)" "coarse (embed s) = s"
  by (cases "sv_con s"; simp add: knows_defs embed_def)+

lemma embed_histories: "delivers n (embed s) = delivers n s" "sv_drop (embed s) = sv_drop s"
  by (simp_all add: delivers_def embed_def)

lemma free_of_early: "\<not> mid_free (free_of c)"
  by (cases c) simp_all

lemma alloc_run:
  assumes "sv_net s = N_idle" "ps_alloc s = A_start" "mp_alloc (sv_pool s) = (Some b, p)"
    and R: "\<And>t u. pool_net psh t u \<Longrightarrow> ps_free u = ps_free s \<Longrightarrow> R t u"
  shows "R\<^sup>*\<^sup>* s (s\<lparr>sv_net := N_got b, sv_pool := p, ps_alloc := A_start\<rparr>)"
proof -
  let ?P = "sv_pool s"
  from assms(3) have h: "mp_free_head ?P = Some b" "p = ?P\<lparr>mp_free_head := mp_next ?P b\<rparr>"
    by (auto simp: mp_alloc_def split: option.splits)
  let ?s1 = "s\<lparr>sv_pool := ?P, ps_alloc := A_head (Some b)\<rparr>"
  let ?s2 = "?s1\<lparr>sv_pool := ?P, ps_alloc := A_next b (mp_next ?P b)\<rparr>"
  have "pool_net psh s ?s1" by (rule alloc_on) (use assms(1,2) h a_load [of "ps_free s" ?P] in simp_all)
  moreover have "pool_net psh ?s1 ?s2" by (rule alloc_on) (use assms(1) a_next in simp_all)
  moreover have "pool_net psh ?s2 (?s2\<lparr>sv_net := N_got b, sv_pool := p, ps_alloc := A_start\<rparr>)"
    by (rule alloc_some) (use assms(1) h(2) a_store in simp_all)
  ultimately have "R s ?s1" "R ?s1 ?s2" "R ?s2 (s\<lparr>sv_net := N_got b, sv_pool := p, ps_alloc := A_start\<rparr>)"
    by (simp_all add: R)
  then show ?thesis by (meson rtranclp.rtrancl_refl rtranclp.rtrancl_into_rtrancl)
qed

lemma serial_net: "pool_net psh t u \<Longrightarrow> \<not> mid_free (ps_free u) \<Longrightarrow> serially (pool_step psh pp) t u"
  by (simp add: serially_def pool_step_def pool_overlap_def)

lemma alloc_fails_alone:
  assumes "sv_net s = N_idle" "ps_alloc s = A_start" "\<not> mid_free (ps_free s)" "mp_alloc (sv_pool s) = (None, p)"
  shows "(serially (pool_step psh pp))\<^sup>*\<^sup>* s (s\<lparr>sv_pool := p, sv_drop := sv_drop s + 1, ps_alloc := A_start\<rparr>)"
proof -
  let ?P = "sv_pool s" and ?R = "serially (pool_step psh pp)"
  from assms(4) have h: "mp_free_head ?P = None" "p = ?P" by (auto simp: mp_alloc_def split: option.splits)
  let ?s1 = "s\<lparr>sv_pool := ?P, ps_alloc := A_head None\<rparr>"
  have "pool_net psh s ?s1" by (rule alloc_on) (use assms(1,2) h a_load [of "ps_free s" ?P] in simp_all)
  then have 1: "?R s ?s1" using assms(3) by (simp add: serially_def pool_step_def pool_overlap_def)
  have "pool_net psh ?s1 (?s1\<lparr>sv_pool := p, sv_drop := sv_drop ?s1 + 1, ps_alloc := A_start\<rparr>)"
    by (rule alloc_none) (use assms(1) h(2) a_null in simp_all)
  then have "?R ?s1 (s\<lparr>sv_pool := p, sv_drop := sv_drop s + 1, ps_alloc := A_start\<rparr>)"
    by (simp add: serially_def pool_step_def pool_overlap_def)
  with 1 show ?thesis by (meson rtranclp.rtrancl_refl rtranclp.rtrancl_into_rtrancl)
qed

lemma free_alone:
  assumes "sv_con s = C_free b" "ps_alloc s = A_start" "ps_free s = F_start b"
  shows "(serially (pool_step psh pp))\<^sup>*\<^sup>* s (s\<lparr>sv_con := C_check, sv_pool := mp_free b (sv_pool s), ps_free := F_done\<rparr>)"
proof -
  let ?P = "sv_pool s" and ?R = "serially (pool_step psh pp)"
  let ?h = "mp_free_head ?P"
  let ?s1 = "s\<lparr>sv_pool := ?P, ps_free := F_load b ?h\<rparr>"
  let ?s2 = "?s1\<lparr>sv_pool := ?P\<lparr>mp_next := (mp_next ?P)(b := ?h)\<rparr>, ps_free := F_link b\<rparr>"
  have "pool_con pp s ?s1" by (rule free_on) (use assms f_load [of A_start b ?P] in simp_all)
  then have 1: "?R s ?s1" using assms(2) by (simp add: serially_def pool_step_def pool_overlap_def)
  have "pool_con pp ?s1 ?s2" by (rule free_on) (use assms(1) f_link in simp_all)
  then have 2: "?R ?s1 ?s2" using assms(2) by (simp add: serially_def pool_step_def pool_overlap_def)
  have "pool_con pp ?s2 (?s2\<lparr>sv_con := C_check, sv_pool := (sv_pool ?s2)\<lparr>mp_free_head := Some b\<rparr>, ps_free := F_done\<rparr>)"
    by (rule free_end) (use assms(1) f_store in simp_all)
  then have "?R ?s2 (s\<lparr>sv_con := C_check, sv_pool := mp_free b ?P, ps_free := F_done\<rparr>)"
    by (simp add: serially_def pool_step_def pool_overlap_def mp_free_def)
  with 1 2 show ?thesis by (meson rtranclp.rtrancl_refl rtranclp.rtrancl_into_rtrancl)
qed

lemma net_realised:
  assumes "net_step psh mp_alloc mp_write s s'"
  shows "(serially (pool_step psh pp))\<^sup>*\<^sup>* (embed s) (embed s')"
proof -
  let ?R = "serially (pool_step psh pp)"
  have one: "?R\<^sup>*\<^sup>* (embed s) t" if "pool_net psh (embed s) t" "ps_alloc t = A_start" for t
    using that by (auto simp: serially_def pool_step_def pool_overlap_def)
  from assms show ?thesis
  proof cases
    case (allocated b p)
    have "?R\<^sup>*\<^sup>* (embed s) ((embed s)\<lparr>sv_net := N_got b, sv_pool := p, ps_alloc := A_start\<rparr>)"
      by (rule alloc_run [where psh = psh]) (use allocated in \<open>auto simp: embed_def free_of_early intro: serial_net\<close>)
    with allocated(1) show ?thesis by (simp add: embed_def)
  next
    case (receive b buf ts v)
    from receive(2) have "sv_net (embed s) = N_got b" by (simp add: embed_def)
    from fill [where s = "embed s" and psh = psh and v = v and ts = ts, OF this receive(3,4)] receive(1) one show ?thesis by (simp add: embed_def)
  next
    case (no_message p)
    from alloc_fails_alone [of "embed s" p psh pp] no_message show ?thesis by (simp add: embed_def free_of_early)
  next
    case (pushed b q)
    from push_ok [of "embed s" b psh q] pushed one show ?thesis by (simp add: embed_def)
  next
    case (push_again b q)
    from push_full [of "embed s" b psh q] push_again one show ?thesis by (simp add: embed_def)
  next
    case net_leaves
    from leaves [of "embed s" psh] net_leaves one show ?thesis by (simp add: embed_def)
  qed
qed

lemma con_realised:
  assumes "con_step pp mp_free s s'"
  shows "(serially (pool_step psh pp))\<^sup>*\<^sup>* (embed s) (embed s')"
proof -
  let ?R = "serially (pool_step psh pp)"
  have one: "?R\<^sup>*\<^sup>* (embed s) t" if "pool_con pp (embed s) t" "ps_alloc t = A_start" for t
    using that by (auto simp: serially_def pool_step_def pool_overlap_def)
  from assms show ?thesis
  proof cases
    case con_runs
    from runs [of "embed s" pp] con_runs one show ?thesis by (simp add: embed_def)
  next
    case con_leaves
    from ends [of "embed s" pp] con_leaves one show ?thesis by (simp add: embed_def)
  next
    case (popped b q)
    from pop_some [of "embed s" pp b q] popped one show ?thesis by (simp add: embed_def)
  next
    case (pause q)
    from pop_none [of "embed s" pp q] pause one show ?thesis by (simp add: embed_def)
  next
    case (processed b now)
    from accounted [of "embed s" b pp now] processed one show ?thesis by (simp add: embed_def)
  next
    case (freed b)
    from free_alone [of "embed s" b psh pp] freed show ?thesis by (simp add: embed_def)
  qed
qed

lemma main_realised:
  assumes "main_step s s'"
  shows "(serially (pool_step psh pp))\<^sup>*\<^sup>* (embed s) (embed s')"
proof -
  have "main_step (embed s) (embed s')"
    using assms
  proof cases
    case stop
    from main_step.stop [of "embed s"] stop show ?thesis by (simp add: embed_def)
  next
    case joined
    from main_step.joined [of "embed s"] joined show ?thesis by (simp add: embed_def)
  qed
  moreover have "\<not> pool_overlap (embed s')" by (simp add: pool_overlap_def embed_def)
  ultimately show ?thesis by (auto simp: serially_def pool_step_def)
qed

lemma pipeline_realised:
  assumes "(server_step psh pp mp_alloc mp_free mp_write)\<^sup>*\<^sup>* s s'"
  shows "(serially (pool_step psh pp))\<^sup>*\<^sup>* (embed s) (embed s')"
  using assms
proof (induction rule: rtranclp_induct)
  case (step t u)
  have "(serially (pool_step psh pp))\<^sup>*\<^sup>* (embed t) (embed u)"
    using step.hyps(2) net_realised con_realised main_realised unfolding server_step_def by blast
  with step.IH show ?case by (rule rtranclp_trans)
qed simp

lemma serially_runs: "(serially R)\<^sup>*\<^sup>* s s' \<Longrightarrow> R\<^sup>*\<^sup>* s s'"
  by (rule rtranclp_mono [THEN predicate2D]) (auto simp: serially_def)

subsection \<open>What a run without overlap promises\<close>

locale pool_pipeline = queue: bounded_fifo psh pp items qok cap
  for psh :: "nat \<Rightarrow> 'q \<Rightarrow> bool \<times> 'q" and pp items qok cap + fixes blocks :: nat
  assumes enough: "cap + 2 < blocks"

sublocale pool_pipeline \<subseteq> coarse: pipeline psh pp items qok cap mp_alloc mp_free mp_write "mp_avail blocks" "\<lambda>_. {..<blocks}" "mp_ok blocks"
  ..

context pool_pipeline
begin

lemma pool_init_inv: "qok q \<Longrightarrow> items q = [] \<Longrightarrow> coarse.server_inv (server_init q (mp_new blocks) m)"
  by (rule coarse.inv_init) (use mp_new_ok [of blocks] enough in auto)

lemma coarse_room:
  assumes "qok q" "items q = []" "coarse.step\<^sup>*\<^sup>* (server_init q (mp_new blocks) m) s"
  shows "sv_drop s = 0" and "fst (mp_alloc (sv_pool s)) \<noteq> None"
proof -
  note i = pool_init_inv [OF assms(1,2), of m]
  show "sv_drop s = 0"
    using coarse.no_drop [OF assms(3) i, of "{..<blocks}"] enough by (simp add: server_init_def)
  show "fst (mp_alloc (sv_pool s)) \<noteq> None"
    by (rule coarse.alloc_succeeds [OF coarse.inv_reach [OF assms(3) i]]) (use enough in simp)
qed

lemma serial_delivers:
  assumes "qok q" "items q = []" "(serially (pool_step psh pp))\<^sup>*\<^sup>* (pool_init blocks q m) s"
  shows "delivers (cap + 2) s \<and> sv_drop s = 0"
proof -
  let ?i = "server_init q (mp_new blocks) m"
  have r: "coarse.step\<^sup>*\<^sup>* ?i (coarse s)"
    using serial_refined [OF assms(3)] embed_knows [of ?i] by (simp add: embed_init)
  have "delivers (cap + 2) (coarse s)"
    by (rule coarse.reach_delivers [OF r pool_init_inv [OF assms(1,2)]]) (simp add: server_init_def)
  with coarse_room(1) [OF assms(1,2) r] show ?thesis by (simp add: coarse_histories)
qed

text \<open>The hang of the pipeline, at the level of loads and stores.\<close>

lemma pool_hung:
  assumes "coarse.hung s" "pool_step psh pp (embed s) t"
  shows "t = embed s"
proof -
  from assms(1) obtain b where h: "qok (sv_queue s)" "length (items (sv_queue s)) = cap" "sv_con s = C_done"
    "sv_net s = N_hold b" "sv_main s = M_join" by (auto simp: coarse.hung_def)
  then have f: "psh c (sv_queue s) = (False, sv_queue s)" for c by (simp add: queue.push_full)
  from assms(2) show ?thesis unfolding pool_step_def
    by (elim disjE pool_net.cases pool_con.cases main_step.cases) (use h f in \<open>auto simp: embed_def\<close>)
qed

lemma pool_hang:
  assumes "qok q" "items q = []"
  shows "\<exists>t. (pool_step psh pp)\<^sup>*\<^sup>* (pool_init blocks q m) t \<and> sv_main t = M_join \<and> \<not> sv_run t \<and> pool_step psh pp t t \<and>
    (\<forall>u. (pool_step psh pp)\<^sup>*\<^sup>* t u \<longrightarrow> u = t)"
proof -
  let ?i = "server_init q (mp_new blocks) m"
  have "\<exists>t. coarse.step\<^sup>*\<^sup>* ?i t \<and> coarse.hung t"
    by (rule coarse.hang_reachable [OF pool_init_inv [OF assms]])
      (use coarse_room(2) [OF assms] assms(2) in \<open>auto simp: server_init_def\<close>)
  then obtain t where t: "coarse.step\<^sup>*\<^sup>* ?i t" "coarse.hung t" by blast
  from serially_runs [OF pipeline_realised [OF t(1)]] have r: "(pool_step psh pp)\<^sup>*\<^sup>* (pool_init blocks q m) (embed t)"
    by (simp add: embed_init)
  from t(2) obtain b where b: "sv_net t = N_hold b" "psh b (sv_queue t) = (False, sv_queue t)" "sv_main t = M_join" "\<not> sv_run t"
    by (auto simp: coarse.hung_def queue.push_full)
  have "pool_net psh (embed t) ((embed t)\<lparr>sv_queue := sv_queue t\<rparr>)" by (rule push_full) (use b in \<open>simp_all add: embed_def\<close>)
  then have "pool_step psh pp (embed t) (embed t)" by (simp add: pool_step_def embed_def)
  moreover have "u = embed t" if "(pool_step psh pp)\<^sup>*\<^sup>* (embed t) u" for u
    using that by (induction rule: rtranclp_induct) (use pool_hung [OF t(2)] in auto)
  ultimately show ?thesis using r b by (intro exI [of _ "embed t"]) (auto simp: embed_def)
qed

end

subsection \<open>Calls that overlap\<close>

text \<open>A message is sent, and one is taken and accounted, whatever the other thread is doing.\<close>

lemma sends:
  assumes "sv_net s = N_idle" "ps_alloc s = A_start" "mp_free_head (sv_pool s) = Some b" "psh b (sv_queue s) = (True, q)"
    "0 < length buf" "length buf \<le> 1024"
  shows "\<exists>t. (pool_step psh pp)\<^sup>*\<^sup>* s t \<and> sv_net t = N_idle \<and> ps_alloc t = A_start \<and> sv_queue t = q \<and>
    sv_pool t = mp_write b v ((sv_pool s)\<lparr>mp_free_head := mp_next (sv_pool s) b\<rparr>) \<and>
    sv_store t = (sv_store s)(b := fill_message ts (sv_seq s) buf (sv_store s b)) \<and> sv_seq t = sv_seq s + 1 \<and>
    sv_in t = sv_in s @ [(ts, buf)] \<and> sv_run t = sv_run s \<and> sv_con t = sv_con s \<and> sv_out t = sv_out s \<and> ps_free t = ps_free s"
proof -
  let ?p = "(sv_pool s)\<lparr>mp_free_head := mp_next (sv_pool s) b\<rparr>"
  let ?g = "s\<lparr>sv_net := N_got b, sv_pool := ?p, ps_alloc := A_start\<rparr>"
  have "(pool_step psh pp)\<^sup>*\<^sup>* s ?g"
    by (rule alloc_run [where psh = psh]) (use assms in \<open>auto simp: mp_alloc_def pool_step_def\<close>)
  moreover have "sv_net ?g = N_got b" by simp
  from fill [where s = ?g and psh = psh and v = v and ts = ts, OF this assms(5,6)]
  have "pool_step psh pp ?g (?g\<lparr>sv_net := N_hold b, sv_pool := mp_write b v (sv_pool ?g),
      sv_store := (sv_store ?g)(b := fill_message ts (sv_seq ?g) buf (sv_store ?g b)),
      sv_seq := sv_seq ?g + 1, sv_in := sv_in ?g @ [(ts, buf)]\<rparr>)" (is "pool_step _ _ _ ?h")
    unfolding pool_step_def ..
  moreover have "pool_net psh ?h (?h\<lparr>sv_net := N_idle, sv_queue := q\<rparr>)"
    by (rule push_ok) (use assms(4) in simp_all)
  then have "pool_step psh pp ?h (?h\<lparr>sv_net := N_idle, sv_queue := q\<rparr>)" unfolding pool_step_def ..
  ultimately have "(pool_step psh pp)\<^sup>*\<^sup>* s (?h\<lparr>sv_net := N_idle, sv_queue := q\<rparr>)"
    by (meson rtranclp.rtrancl_into_rtrancl)
  then show ?thesis by (intro exI [of _ "?h\<lparr>sv_net := N_idle, sv_queue := q\<rparr>"]) simp
qed

lemma takes:
  assumes "sv_con s = C_check" "sv_run s" "pp (sv_queue s) = (Some b, q)"
  shows "\<exists>t. (pool_step psh pp)\<^sup>*\<^sup>* s t \<and> sv_con t = C_free b \<and> ps_free t = F_start b \<and> sv_queue t = q \<and>
    sv_out t = sv_out s @ [(now, sv_store s b)] \<and> sv_net t = sv_net s \<and> ps_alloc t = ps_alloc s \<and> sv_pool t = sv_pool s \<and>
    sv_store t = sv_store s \<and> sv_seq t = sv_seq s \<and> sv_in t = sv_in s \<and> sv_run t"
proof -
  let ?p = "s\<lparr>sv_con := C_poll\<rparr>"
  let ?h = "?p\<lparr>sv_con := C_hold b, sv_queue := q\<rparr>"
  let ?t = "?h\<lparr>sv_con := C_free b, sv_stats := account now (sv_store ?h b) (sv_stats ?h),
      sv_out := sv_out ?h @ [(now, sv_store ?h b)], ps_free := F_start b\<rparr>"
  have "pool_con pp s ?p" by (rule runs) (use assms in simp_all)
  moreover have "pool_con pp ?p ?h" by (rule pop_some) (use assms in simp_all)
  moreover have "pool_con pp ?h ?t" by (rule accounted) simp
  ultimately have "pool_step psh pp s ?p" "pool_step psh pp ?p ?h" "pool_step psh pp ?h ?t"
    unfolding pool_step_def by blast+
  then have "(pool_step psh pp)\<^sup>*\<^sup>* s ?t" by (meson rtranclp.rtrancl_refl rtranclp.rtrancl_into_rtrancl)
  with assms(2) show ?thesis by (intro exI [of _ ?t]) simp
qed

lemma mp_new_links:
  assumes "2 < n"
  shows "mp_free_head (mp_new n) = Some 0" "mp_next (mp_new n) 0 = Some 1" "mp_next (mp_new n) 1 = Some 2"
proof -
  have "mp_ok n (mp_new n) \<and> mp_avail n (mp_new n) = [0..<n]" using assms by (intro mp_new_ok) simp
  then have "free_list_ok n (mp_next (mp_new n)) (mp_free_head (mp_new n)) [0..<n]"
    unfolding mp_ok_def by metis
  moreover have "[0..<n] = 0 # 1 # 2 # [3..<n]" using assms by (simp add: upt_conv_Cons numeral_2_eq_2 numeral_3_eq_3)
  ultimately show "mp_free_head (mp_new n) = Some 0" "mp_next (mp_new n) 0 = Some 1" "mp_next (mp_new n) 1 = Some 2"
    by (auto simp: free_list_ok_def)
qed

text \<open>
  The consumer has loaded \<open>free_head_\<close> for freeing block 0 when the network thread takes block 1 for
  the second payload. The consumer's store makes block 1 free again although it is queued, so the fourth payload is
  written over the second.
\<close>

definition overwritten :: "(i64 \<times> byte list) list \<Rightarrow> 'q pool_server \<Rightarrow> bool" where
  "overwritten ps s \<longleftrightarrow> sv_in s = ps \<and> length ps = 4 \<and> length (sv_out s) = 2 \<and>
     carries 0 (ps ! 0) (snd (sv_out s ! 0)) \<and> carries 3 (ps ! 3) (snd (sv_out s ! 1))"

lemma overwritten_not_delivered: "overwritten ps s \<Longrightarrow> \<not> delivers n s"
proof
  assume o: "overwritten ps s" and d: "delivers n s"
  from d have "carries 1 (take 2 ps ! 1) (map snd (sv_out s) ! 1)"
    using o by (auto simp: delivers_def carry_all_def overwritten_def)
  then have "m_seq (snd (sv_out s ! 1)) = of_nat 1" using o by (simp add: overwritten_def carries_def)
  moreover have "m_seq (snd (sv_out s ! 1)) = of_nat 3" using o by (simp add: overwritten_def carries_def)
  ultimately show False by simp
qed

context pool_pipeline
begin

lemma push_room:
  assumes "qok q" "length (items q) < cap"
  obtains q' where "psh b q = (True, q')" "qok q'" "items q' = items q @ [b]"
  using queue.push_fst [OF assms, of b] queue.push_items [OF assms, of b] queue.push_ok [OF assms(1), of b]
  by (cases "psh b q") auto

lemma pop_some_item:
  assumes "qok q" "items q = b # bs"
  obtains q' where "pp q = (Some b, q')" "qok q'" "items q' = bs"
  using queue.pop_fst [OF assms(1)] queue.pop_items [OF assms(1)] queue.pop_ok [OF assms(1)] assms(2)
  by (cases "pp q") auto

lemma race_breaks_order:
  assumes "qok q" "items q = []" "3 \<le> cap"
    and len: "\<forall>p\<in>{p0, p1, p2, p3 :: i64 \<times> byte list}. 0 < length (snd p) \<and> length (snd p) \<le> 1024"
  shows "\<exists>s. (pool_step psh pp)\<^sup>*\<^sup>* (pool_init blocks q m) s \<and> overwritten [p0, p1, p2, p3] s"
proof -
  let ?R = "pool_step psh pp"
  let ?i = "pool_init blocks q m"
  have n: "2 < blocks" using enough assms(3) by linarith
  note links = mp_new_links [OF n]
  have i: "sv_net ?i = N_idle" "ps_alloc ?i = A_start" "sv_con ?i = C_check" "sv_run ?i" "sv_queue ?i = q"
    "sv_pool ?i = mp_new blocks" "sv_seq ?i = 0" "sv_in ?i = []" "sv_out ?i = []"
    by (simp_all add: pool_init_def server_init_def server.extend_def)
  obtain q1 where q1: "psh 0 q = (True, q1)" "qok q1" "items q1 = [0]"
    using push_room [OF assms(1), of 0] assms(2,3) by auto
  obtain s1 where s1: "?R\<^sup>*\<^sup>* ?i s1" "sv_net s1 = N_idle" "ps_alloc s1 = A_start" "sv_queue s1 = q1"
    "sv_pool s1 = mp_write 0 None ((mp_new blocks)\<lparr>mp_free_head := Some 1\<rparr>)"
    "carries 0 p0 (sv_store s1 0)" "sv_seq s1 = 1" "sv_in s1 = [p0]" "sv_run s1" "sv_con s1 = C_check" "sv_out s1 = []"
    using sends [of ?i 0 psh q1 "snd p0" pp None "fst p0"] i links q1 len fill_message_carries [of 0 "fst p0" "snd p0"] by auto
  obtain q2 where q2: "pp q1 = (Some 0, q2)" "qok q2" "items q2 = []" using pop_some_item [OF q1(2,3)] by auto
  obtain s2 where s2: "?R\<^sup>*\<^sup>* s1 s2" "sv_con s2 = C_free 0" "ps_free s2 = F_start 0" "sv_queue s2 = q2"
    "sv_out s2 = [(0, sv_store s1 0)]" "sv_net s2 = N_idle" "ps_alloc s2 = A_start" "sv_pool s2 = sv_pool s1"
    "sv_seq s2 = 1" "sv_in s2 = [p0]" "sv_run s2"
    using takes [of s1 pp 0 q2 psh 0] s1 q2 by auto
  let ?s3 = "s2\<lparr>sv_pool := sv_pool s2, ps_free := F_load 0 (Some 1)\<rparr>"
  have "pool_con pp s2 ?s3"
    by (rule free_on) (use s2 s1(5) f_load [of A_start 0 "sv_pool s2"] in \<open>simp_all add: mp_write_def\<close>)
  then have s3: "?R s2 ?s3" by (simp add: pool_step_def)
  obtain q4 where q4: "psh 1 q2 = (True, q4)" "qok q4" "items q4 = [1]"
    using push_room [OF q2(2), of 1] q2(3) assms(3) by auto
  obtain s4 where s4: "?R\<^sup>*\<^sup>* ?s3 s4" "sv_net s4 = N_idle" "ps_alloc s4 = A_start" "sv_queue s4 = q4"
    "sv_pool s4 = mp_write 1 None ((sv_pool s1)\<lparr>mp_free_head := Some 2\<rparr>)" "sv_seq s4 = 2" "sv_in s4 = [p0, p1]"
    "sv_run s4" "sv_con s4 = C_free 0" "ps_free s4 = F_load 0 (Some 1)" "sv_out s4 = [(0, sv_store s1 0)]"
    using sends [of ?s3 1 psh q4 "snd p1" pp None "fst p1"] s2 s1(5) links q4 len by (auto simp: mp_write_def)
  let ?s5 = "s4\<lparr>sv_pool := (sv_pool s4)\<lparr>mp_next := (mp_next (sv_pool s4))(0 := Some 1)\<rparr>, ps_free := F_link 0\<rparr>"
  let ?s6 = "?s5\<lparr>sv_con := C_check, sv_pool := (sv_pool ?s5)\<lparr>mp_free_head := Some 0\<rparr>, ps_free := F_done\<rparr>"
  have "pool_con pp s4 ?s5" by (rule free_on) (use s4 f_link in simp_all)
  moreover have "pool_con pp ?s5 ?s6" by (rule free_end) (use s4 f_store in simp_all)
  ultimately have s6: "?R s4 ?s5" "?R ?s5 ?s6" by (simp_all add: pool_step_def)
  have p6: "mp_free_head (sv_pool ?s6) = Some 0" "mp_next (sv_pool ?s6) 0 = Some 1" by simp_all
  obtain q7 where q7: "psh 0 q4 = (True, q7)" "qok q7" "items q7 = [1, 0]"
    using push_room [OF q4(2), of 0] q4(3) assms(3) by auto
  obtain s7 where s7: "?R\<^sup>*\<^sup>* ?s6 s7" "sv_net s7 = N_idle" "ps_alloc s7 = A_start" "sv_queue s7 = q7"
    "mp_free_head (sv_pool s7) = Some 1" "sv_seq s7 = 3" "sv_in s7 = [p0, p1, p2]"
    "sv_run s7" "sv_con s7 = C_check" "sv_out s7 = [(0, sv_store s1 0)]"
    using sends [of ?s6 0 psh q7 "snd p2" pp None "fst p2"] s4 p6 q7 len by (auto simp: mp_write_def)
  obtain q8 where q8: "psh 1 q7 = (True, q8)" "qok q8" "items q8 = [1, 0, 1]"
    using push_room [OF q7(2), of 1] q7(3) assms(3) by auto
  obtain s8 where s8: "?R\<^sup>*\<^sup>* s7 s8" "sv_queue s8 = q8" "carries 3 p3 (sv_store s8 1)" "sv_in s8 = [p0, p1, p2, p3]"
    "sv_run s8" "sv_con s8 = C_check" "sv_out s8 = [(0, sv_store s1 0)]"
    using sends [of s7 1 psh q8 "snd p3" pp None "fst p3"] s7 q8 len fill_message_carries [of 3 "fst p3" "snd p3"] by auto
  obtain q9 where q9: "pp q8 = (Some 1, q9)" using pop_some_item [OF q8(2,3)] by auto
  obtain s9 where s9: "?R\<^sup>*\<^sup>* s8 s9" "sv_out s9 = [(0, sv_store s1 0), (0, sv_store s8 1)]" "sv_in s9 = [p0, p1, p2, p3]"
    using takes [of s8 pp 1 q9 psh 0] s8 q9 by auto
  have "?R\<^sup>*\<^sup>* s2 ?s6" using s3 s4(1) s6 by (meson converse_rtranclp_into_rtranclp rtranclp.rtrancl_into_rtrancl)
  with s1(1) s2(1) s7(1) s8(1) s9(1) have "?R\<^sup>*\<^sup>* ?i s9" by (meson rtranclp_trans)
  moreover have "overwritten [p0, p1, p2, p3] s9" using s9 s1(6) s8(3) by (simp add: overwritten_def)
  ultimately show ?thesis by blast
qed

end

end
