(* ===== verification/Latency_Variants.thy ===== *)
theory Latency_Variants
  imports Latency_Pool
begin

section \<open>The variants of the latency server\<close>

text \<open>
  \<open>v1\<close> to \<open>v5\<close> on the model's own queues and allocators: \<open>v2\<close> with \<open>new\<close> and \<open>delete\<close>, the others on
  the pool that both threads use without a lock, load by load and store by store. \<open>v4\<close> pushes into the single-producer queue from
  one thread per connection; its handlers are modelled with the loads and stores of
  \<open>Spsc_Concurrent\<close>.
\<close>

subsection \<open>\<open>new\<close> and \<open>delete\<close>\<close>

text \<open>
  The heap of \<open>v2\<close>: the address of a new message is chosen by the allocator of the C++ library,
  a parameter \<open>pick\<close>, which is only known to avoid the live addresses.
\<close>

record heap =
  hp_live :: "nat list"
  hp_freed :: "nat list"

definition fresh_pick :: "(nat list \<Rightarrow> nat) \<Rightarrow> bool" where
  "fresh_pick pick \<longleftrightarrow> (\<forall>live. pick live \<notin> set live)"

definition hp_new :: "(nat list \<Rightarrow> nat) \<Rightarrow> heap \<Rightarrow> nat option \<times> heap" where
  "hp_new pick h = (let a = pick (hp_live h)
     in (Some a, \<lparr>hp_live = a # hp_live h, hp_freed = removeAll a (hp_freed h)\<rparr>))"

definition hp_delete :: "nat \<Rightarrow> heap \<Rightarrow> heap" where
  "hp_delete a h = \<lparr>hp_live = removeAll a (hp_live h), hp_freed = a # hp_freed h\<rparr>"

definition hp_write :: "nat \<Rightarrow> nat option \<Rightarrow> heap \<Rightarrow> heap" where
  "hp_write a v h = h"

definition hp_empty :: heap where
  "hp_empty = \<lparr>hp_live = [], hp_freed = []\<rparr>"

definition hp_owned :: "heap \<Rightarrow> nat set" where
  "hp_owned h = set (hp_live h) \<union> set (hp_freed h)"

definition hp_ok :: "heap \<Rightarrow> bool" where
  "hp_ok h \<longleftrightarrow> distinct (hp_freed h) \<and> set (hp_live h) \<inter> set (hp_freed h) = {}"

lemmas hp_defs = hp_new_def hp_delete_def hp_write_def hp_empty_def hp_owned_def hp_ok_def Let_def

lemma hp_allocator:
  assumes "fresh_pick pick"
  shows "allocator (hp_new pick) hp_delete hp_write hp_freed hp_owned hp_ok"
  using assms
  by unfold_locales (auto simp: hp_defs fresh_pick_def distinct_removeAll)

subsection \<open>The variants\<close>

definition QUEUE_SIZE :: nat where "QUEUE_SIZE = 512"
definition POOL_SIZE :: nat where "POOL_SIZE = 1024"

interpretation v1: pool_pipeline "sq_push QUEUE_SIZE" "sq_pop QUEUE_SIZE" sq_items "sq_ok QUEUE_SIZE" "QUEUE_SIZE - 1" POOL_SIZE
  by unfold_locales (simp add: QUEUE_SIZE_def POOL_SIZE_def)

interpretation v3: pool_pipeline mq_push mq_pop mq_q mq_ok mq_MaxSize POOL_SIZE
  by unfold_locales (simp add: POOL_SIZE_def mq_MaxSize_def)

lemma v2_pipeline:
  assumes "fresh_pick pick"
  shows "pipeline (sq_push QUEUE_SIZE) (sq_pop QUEUE_SIZE) sq_items (sq_ok QUEUE_SIZE) (QUEUE_SIZE - 1)
    (hp_new pick) hp_delete hp_write hp_freed hp_owned hp_ok"
  using hp_allocator [OF assms] sq.bounded_fifo_axioms by (rule pipeline.intro [rotated])

definition v1_net where "v1_net = pool_net (sq_push QUEUE_SIZE)"
definition v1_con where "v1_con = pool_con (sq_pop QUEUE_SIZE)"
definition v1_main where "v1_main = main_step"
definition v1_step where "v1_step s s' \<longleftrightarrow> v1_net s s' \<or> v1_con s s' \<or> v1_main s s'"
definition v1_init where "v1_init junk m = pool_init POOL_SIZE (sq_new QUEUE_SIZE junk) m"

definition v2_net where "v2_net pick = net_step (sq_push QUEUE_SIZE) (hp_new pick) hp_write"
definition v2_con where "v2_con = con_step (sq_pop QUEUE_SIZE) hp_delete"
definition v2_main where "v2_main = main_step"
definition v2_step where "v2_step pick s s' \<longleftrightarrow> v2_net pick s s' \<or> v2_con s s' \<or> v2_main s s'"
definition v2_init where "v2_init junk m = server_init (sq_new QUEUE_SIZE junk) hp_empty m"

definition v3_net where "v3_net = pool_net mq_push"
definition v3_con where "v3_con = pool_con mq_pop"
definition v3_main where "v3_main = main_step"
definition v3_step where "v3_step s s' \<longleftrightarrow> v3_net s s' \<or> v3_con s s' \<or> v3_main s s'"
definition v3_init where "v3_init m = pool_init POOL_SIZE \<lparr>mq_q = []\<rparr> m"

text \<open>\<open>v5\<close> has the same two threads as \<open>v1\<close>; its \<open>poll\<close> loop is in \<open>Latency_Connections\<close>.\<close>

definition v5_net where "v5_net = pool_net (sq_push QUEUE_SIZE)"
definition v5_con where "v5_con = pool_con (sq_pop QUEUE_SIZE)"
definition v5_main where "v5_main = main_step"
definition v5_step where "v5_step s s' \<longleftrightarrow> v5_net s s' \<or> v5_con s s' \<or> v5_main s s'"

lemmas variant_defs = v1_net_def v1_con_def v1_main_def v1_step_def v1_init_def v2_net_def v2_con_def v2_main_def v2_step_def v2_init_def
  v3_net_def v3_con_def v3_main_def v3_step_def v3_init_def v5_net_def v5_con_def v5_main_def v5_step_def

lemma variant_steps:
  "v1_step = pool_step (sq_push QUEUE_SIZE) (sq_pop QUEUE_SIZE)"
  "v2_step pick = server_step (sq_push QUEUE_SIZE) (sq_pop QUEUE_SIZE) (hp_new pick) hp_delete hp_write"
  "v3_step = pool_step mq_push mq_pop"
  "v5_step = v1_step"
  by (auto simp: variant_defs server_step_def pool_step_def fun_eq_iff)

lemma sizes: "QUEUE_SIZE = 512" "POOL_SIZE = 1024" "mq_MaxSize = 512"
  by (simp_all add: QUEUE_SIZE_def POOL_SIZE_def mq_MaxSize_def)

lemma new_queue:
  "length (junk :: nat list) = QUEUE_SIZE \<Longrightarrow> sq_ok QUEUE_SIZE (sq_new QUEUE_SIZE junk)"
  "length (junk :: nat list) = QUEUE_SIZE \<Longrightarrow> sq_items (sq_new QUEUE_SIZE junk) = []"
  "mq_ok \<lparr>mq_q = []\<rparr>"
  using sq_new_ok [of QUEUE_SIZE junk] by (simp_all add: sizes mq_ok_def)

lemma v2_inv_init:
  assumes "length (junk :: nat list) = QUEUE_SIZE" "fresh_pick pick"
  shows "pipeline.server_inv sq_items (sq_ok QUEUE_SIZE) hp_freed hp_owned hp_ok (v2_init junk m)"
  unfolding v2_init_def
  by (rule pipeline.inv_init [OF v2_pipeline [OF assms(2)]]) (use new_queue assms(1) in \<open>auto simp: hp_defs\<close>)

lemma v2_no_drop: "v2_step pick s s' \<Longrightarrow> sv_drop s' = sv_drop s"
  unfolding v2_step_def v2_net_def v2_con_def v2_main_def
  by (elim disjE net_step.cases con_step.cases main_step.cases) (simp_all add: hp_new_def Let_def)

lemma v2_room: "(v2_step pick)\<^sup>*\<^sup>* s s' \<Longrightarrow> sv_drop s' = sv_drop s"
  by (induction rule: rtranclp_induct) (simp_all add: v2_no_drop)

subsection \<open>Properties of the pipelines\<close>

text \<open>C18: In every state that the server \<open>v2\<close> reaches, whatever arrives and however its threads
  interleave, the messages processed are those of the first payloads, in the order of arrival,
  each with its time stamp, its number and the first 46 bytes; the statistics are the number, sum
  and maximum of their latencies; at most 513 payloads are under way; \<open>main\<close> prints the statistics
  of everything processed; and no payload is dropped for want of a message. The same holds of \<open>v1\<close>,
  \<open>v3\<close> (with 514 payloads under way) and \<open>v5\<close>, whose pool has no lock, in every run in which no call
  of \<open>alloc\<close> overlaps a call of \<open>free\<close> in their loads and stores of the pool; there 1024 blocks are enough for a queue of 511
  or 512.\<close>

theorem servers_deliver_in_order:
  assumes "length junk = QUEUE_SIZE" "fresh_pick pick"
  shows "((serially v1_step)\<^sup>*\<^sup>* (v1_init junk m) s1 \<longrightarrow> delivers 513 s1 \<and> sv_drop s1 = 0) \<and>
    ((v2_step pick)\<^sup>*\<^sup>* (v2_init junk m) s2 \<longrightarrow> delivers 513 s2 \<and> sv_drop s2 = 0) \<and>
    ((serially v3_step)\<^sup>*\<^sup>* (v3_init m) s3 \<longrightarrow> delivers 514 s3 \<and> sv_drop s3 = 0) \<and>
    ((serially v5_step)\<^sup>*\<^sup>* (v1_init junk m) s5 \<longrightarrow> delivers 513 s5 \<and> sv_drop s5 = 0)"
proof -
  note q = new_queue(1,2) [OF assms(1)]
  have one: "delivers 513 s \<and> sv_drop s = 0" if "(serially v1_step)\<^sup>*\<^sup>* (v1_init junk m) s" for s
    using v1.serial_delivers [OF q, of m s] that by (simp add: variant_steps sizes v1_init_def)
  have two: "delivers 513 s2 \<and> sv_drop s2 = 0" if "(v2_step pick)\<^sup>*\<^sup>* (v2_init junk m) s2"
    using pipeline.reach_delivers [OF v2_pipeline [OF assms(2)] _ v2_inv_init [OF assms], of m s2]
      that v2_room [OF that]
    by (simp add: variant_steps sizes v2_init_def server_init_def)
  have three: "delivers 514 s3 \<and> sv_drop s3 = 0" if "(serially v3_step)\<^sup>*\<^sup>* (v3_init m) s3"
    using v3.serial_delivers [OF new_queue(3), of m s3] that by (simp add: variant_steps sizes v3_init_def)
  from one two three show ?thesis by (auto simp: variant_steps)
qed

text \<open>C24: Where a call of \<open>alloc\<close> does overlap a call of \<open>free\<close>, the servers \<open>v1\<close>, \<open>v3\<close> and \<open>v5\<close> lose a payload: for
  any four payloads a state is reachable in which all four were accepted, and the second message
  that the consumer has processed is that of the fourth payload, not of the second. The block of the
  second was freed again by the consumer's late store into the head of the free list, and the
  fourth was written over it. So the promise of the pipeline fails, whatever bound is put on the
  payloads under way.\<close>

theorem unlocked_pool_breaks_order:
  assumes "length junk = QUEUE_SIZE"
    and "\<forall>p\<in>{p0, p1, p2, p3 :: i64 \<times> byte list}. 0 < length (snd p) \<and> length (snd p) \<le> 1024"
  shows "(\<exists>s. v1_step\<^sup>*\<^sup>* (v1_init junk m) s \<and> overwritten [p0, p1, p2, p3] s \<and> (\<forall>n. \<not> delivers n s)) \<and>
    (\<exists>s. v3_step\<^sup>*\<^sup>* (v3_init m) s \<and> overwritten [p0, p1, p2, p3] s \<and> (\<forall>n. \<not> delivers n s)) \<and>
    v5_step = v1_step"
proof (intro conjI)
  show "\<exists>s. v1_step\<^sup>*\<^sup>* (v1_init junk m) s \<and> overwritten [p0, p1, p2, p3] s \<and> (\<forall>n. \<not> delivers n s)"
    using v1.race_breaks_order [OF new_queue(1,2) [OF assms(1)] _ assms(2), of m] overwritten_not_delivered
    unfolding variant_steps v1_init_def by (simp add: sizes) blast
  show "\<exists>s. v3_step\<^sup>*\<^sup>* (v3_init m) s \<and> overwritten [p0, p1, p2, p3] s \<and> (\<forall>n. \<not> delivers n s)"
    using v3.race_breaks_order [OF new_queue(3) _ _ assms(2), of m] overwritten_not_delivered
    unfolding variant_steps v3_init_def by (simp add: sizes) blast
qed (rule variant_steps)

lemma unlocked_pool_breaks_order_witness:
  "\<exists>s. v1_step\<^sup>*\<^sup>* (v1_init (replicate 512 0) (\<lambda>_. \<lparr>m_recv_ns = 0, m_seq = 0, m_len = 0, m_data = []\<rparr>)) s \<and>
     overwritten [(1, [65]), (2, [66]), (3, [67]), (4, [68])] s \<and> \<not> delivers 513 s"
  using unlocked_pool_breaks_order [of "replicate 512 0" "(1, [65])" "(2, [66])" "(3, [67])" "(4, [68])"
      "\<lambda>_. \<lparr>m_recv_ns = 0, m_seq = 0, m_len = 0, m_data = []\<rparr>"]
  by (auto simp: sizes)

text \<open>C19: The shutdown of \<open>v1\<close>, \<open>v2\<close>, \<open>v3\<close> and \<open>v5\<close> can hang: a state is reachable in which \<open>main\<close> has
  cleared \<open>g_running\<close> and waits for the threads, the consumer has left, and the network thread
  pushes into a full queue. Its steps lead nowhere else, so \<open>main\<close> never prints the final
  statistics: the loop \<open>while (!g_queue.push(msg))\<close> does not look at the flag.\<close>

theorem shutdown_can_hang:
  assumes "length junk = QUEUE_SIZE" "fresh_pick pick"
  shows "(\<exists>t. v1_step\<^sup>*\<^sup>* (v1_init junk m) t \<and> sv_main t = M_join \<and> \<not> sv_run t \<and> v1_step t t \<and> (\<forall>u. v1_step\<^sup>*\<^sup>* t u \<longrightarrow> u = t)) \<and>
    (\<exists>t. (v2_step pick)\<^sup>*\<^sup>* (v2_init junk m) t \<and> sv_main t = M_join \<and> \<not> sv_run t \<and> v2_step pick t t \<and>
      (\<forall>u. (v2_step pick)\<^sup>*\<^sup>* t u \<longrightarrow> u = t)) \<and>
    (\<exists>t. v3_step\<^sup>*\<^sup>* (v3_init m) t \<and> sv_main t = M_join \<and> \<not> sv_run t \<and> v3_step t t \<and> (\<forall>u. v3_step\<^sup>*\<^sup>* t u \<longrightarrow> u = t)) \<and>
    v5_step = v1_step"
proof (intro conjI)
  show "\<exists>t. v1_step\<^sup>*\<^sup>* (v1_init junk m) t \<and> sv_main t = M_join \<and> \<not> sv_run t \<and> v1_step t t \<and> (\<forall>u. v1_step\<^sup>*\<^sup>* t u \<longrightarrow> u = t)"
    unfolding variant_steps v1_init_def by (rule v1.pool_hang [OF new_queue(1,2) [OF assms(1)]])
next
  note P = v2_pipeline [OF assms(2)]
  have "\<exists>t. (server_step (sq_push QUEUE_SIZE) (sq_pop QUEUE_SIZE) (hp_new pick) hp_delete hp_write)\<^sup>*\<^sup>* (v2_init junk m) t \<and>
      pipeline.hung sq_items (sq_ok QUEUE_SIZE) (QUEUE_SIZE - 1) t"
    by (rule pipeline.hang_reachable [OF P v2_inv_init [OF assms]])
      (use new_queue(2) [OF assms(1)] in \<open>auto simp: v2_init_def server_init_def hp_new_def Let_def\<close>)
  then obtain t where t: "(v2_step pick)\<^sup>*\<^sup>* (v2_init junk m) t" "pipeline.hung sq_items (sq_ok QUEUE_SIZE) (QUEUE_SIZE - 1) t"
    by (auto simp: variant_steps)
  with pipeline.hung_facts [OF P t(2)] pipeline.hung_forever [OF P _ t(2)]
  show "\<exists>t. (v2_step pick)\<^sup>*\<^sup>* (v2_init junk m) t \<and> sv_main t = M_join \<and> \<not> sv_run t \<and> v2_step pick t t \<and>
      (\<forall>u. (v2_step pick)\<^sup>*\<^sup>* t u \<longrightarrow> u = t)"
    unfolding variant_steps by blast
next
  show "\<exists>t. v3_step\<^sup>*\<^sup>* (v3_init m) t \<and> sv_main t = M_join \<and> \<not> sv_run t \<and> v3_step t t \<and> (\<forall>u. v3_step\<^sup>*\<^sup>* t u \<longrightarrow> u = t)"
    unfolding variant_steps v3_init_def by (rule v3.pool_hang [OF new_queue(3)]) simp
qed (rule variant_steps)

lemma fresh_pick_sum: "fresh_pick (\<lambda>live. Suc (sum_list live))"
  using member_le_sum_list by (force simp: fresh_pick_def)

lemma servers_deliver_in_order_witness:
  "\<exists>s. (serially v1_step)\<^sup>*\<^sup>* (v1_init (replicate 512 0) (\<lambda>_. \<lparr>m_recv_ns = 0, m_seq = 0, m_len = 0, m_data = []\<rparr>)) s \<and>
     sv_in s = [(7, replicate 50 1)] \<and> delivers 513 s \<and> sv_drop s = 0"
proof -
  let ?m = "\<lambda>_. \<lparr>m_recv_ns = 0, m_seq = 0, m_len = 0, m_data = []\<rparr> :: message"
  let ?step = "server_step (sq_push QUEUE_SIZE) (sq_pop QUEUE_SIZE) mp_alloc mp_free mp_write"
  let ?i = "server_init (sq_new QUEUE_SIZE (replicate 512 (0::nat))) (mp_new POOL_SIZE) ?m"
  obtain p where a: "mp_alloc (sv_pool ?i) = (Some 0, p)"
    using mp_new_links [of POOL_SIZE] by (simp add: mp_alloc_def server_init_def sizes)
  let ?g = "?i\<lparr>sv_net := N_got 0, sv_pool := p\<rparr>"
  have g: "?step ?i ?g" unfolding server_step_def by (intro disjI1 net_step.allocated a) (simp add: server_init_def)
  obtain t where t: "net_step (sq_push QUEUE_SIZE) mp_alloc mp_write ?g t" "sv_in t = [(7, replicate 50 1)]"
    using net_step.receive [where s = ?g and b = 0 and buf = "replicate 50 1" and psh = "sq_push QUEUE_SIZE" and alloc = mp_alloc
        and scribble = mp_write and ts = 7] by (force simp: server_init_def)
  then have "?step ?g t" by (simp add: server_step_def)
  with g have "?step\<^sup>*\<^sup>* ?i t" by (meson rtranclp.rtrancl_refl rtranclp.rtrancl_into_rtrancl)
  from pipeline_realised [OF this] have r: "(serially v1_step)\<^sup>*\<^sup>* (v1_init (replicate 512 0) ?m) (embed t)"
    by (simp add: variant_steps v1_init_def embed_init)
  have "delivers 513 (embed t) \<and> sv_drop (embed t) = 0"
    using servers_deliver_in_order [of "replicate 512 0" "\<lambda>live. Suc (sum_list live)" ?m "embed t"] fresh_pick_sum r
    by (simp add: QUEUE_SIZE_def)
  moreover have "sv_in (embed t) = [(7, replicate 50 1)]" using t(2) by (simp add: embed_def)
  ultimately show ?thesis using r by blast
qed

lemma shutdown_can_hang_witness:
  "\<exists>t. v3_step\<^sup>*\<^sup>* (v3_init (\<lambda>_. \<lparr>m_recv_ns = 0, m_seq = 0, m_len = 0, m_data = []\<rparr>)) t \<and> sv_main t = M_join \<and> v3_step t t \<and>
     (\<forall>u. v3_step\<^sup>*\<^sup>* t u \<longrightarrow> u = t)"
  using shutdown_can_hang [of "replicate 512 0" "\<lambda>live. Suc (sum_list live)"] fresh_pick_sum
  by (force simp: QUEUE_SIZE_def)

subsection \<open>\<open>v4\<close>: one handler per connection\<close>

text \<open>
  Each handler runs \<open>push\<close> itself, load by load and store by store. (The pool is shared without
  protection as well; its own race is \<open>memory_pool_race\<close>, so here \<open>alloc\<close> is one step.)
\<close>

datatype handler_pc = H_recv | H_msg nat "nat push_pc" | H_done

record v4 =
  v4_run :: bool
  v4_pc :: "nat \<Rightarrow> handler_pc"
  v4_q :: "nat spsc_queue"
  v4_pool :: mpool
  v4_store :: "nat \<Rightarrow> message"
  v4_seq :: u32
  v4_in :: "(i64 \<times> byte list) list"

inductive client_handler :: "nat \<Rightarrow> v4 \<Rightarrow> v4 \<Rightarrow> bool" for i where
  h_receive: "v4_pc s i = H_recv \<Longrightarrow> v4_run s \<Longrightarrow> 0 < length buf \<Longrightarrow> length buf \<le> 1024 \<Longrightarrow>
    mp_alloc (v4_pool s) = (Some b, p) \<Longrightarrow>
    client_handler i s (s\<lparr>v4_pc := (v4_pc s)(i := H_msg b (P_start b)), v4_pool := mp_write b v p,
      v4_store := (v4_store s)(b := fill_message ts (v4_seq s) buf (v4_store s b)),
      v4_seq := v4_seq s + 1, v4_in := v4_in s @ [(ts, buf)]\<rparr>)"
| h_no_message: "v4_pc s i = H_recv \<Longrightarrow> v4_run s \<Longrightarrow> mp_alloc (v4_pool s) = (None, p) \<Longrightarrow>
    client_handler i s (s\<lparr>v4_pool := p\<rparr>)"
| h_push: "v4_pc s i = H_msg b pc \<Longrightarrow> push_step QUEUE_SIZE (pc, v4_q s) (pc', q) \<Longrightarrow>
    client_handler i s (s\<lparr>v4_pc := (v4_pc s)(i := H_msg b pc'), v4_q := q\<rparr>)"
| h_again: "v4_pc s i = H_msg b (P_done False) \<Longrightarrow> client_handler i s (s\<lparr>v4_pc := (v4_pc s)(i := H_msg b (P_start b))\<rparr>)"
| h_pushed: "v4_pc s i = H_msg b (P_done True) \<Longrightarrow> client_handler i s (s\<lparr>v4_pc := (v4_pc s)(i := H_recv)\<rparr>)"
| h_leaves: "v4_pc s i = H_recv \<Longrightarrow> client_handler i s (s\<lparr>v4_pc := (v4_pc s)(i := H_done)\<rparr>)"

definition v4_init :: "nat list \<Rightarrow> (nat \<Rightarrow> message) \<Rightarrow> v4" where
  "v4_init junk m = \<lparr>v4_run = True, v4_pc = (\<lambda>_. H_recv), v4_q = sq_new QUEUE_SIZE junk, v4_pool = mp_new POOL_SIZE,
     v4_store = m, v4_seq = 0, v4_in = []\<rparr>"

definition handlers_step :: "v4 \<Rightarrow> v4 \<Rightarrow> bool" where
  "handlers_step s s' \<longleftrightarrow> (\<exists>i. client_handler i s s')"

lemma mp_alloc_avail:
  assumes "mp_ok n s" "mp_avail n s = b # rest"
  shows "\<exists>p. mp_alloc s = (Some b, p) \<and> mp_ok n p \<and> mp_avail n p = rest"
proof -
  have "free_list_ok n (mp_next s) (mp_free_head s) (b # rest)" using assms by (simp add: mp_ok_def)
  from free_list_head [OF this] have "mp_free_head s = Some b" "free_list_ok n (mp_next s) (mp_next s b) rest" by auto
  then show ?thesis
    using mp_okI [of n "s\<lparr>mp_free_head := mp_next s b\<rparr>" rest] by (simp add: mp_alloc_def)
qed

lemma handler_push:
  assumes "v4_pc s i = H_msg b pc" "push_step QUEUE_SIZE (pc, v4_q s) (pc', q)"
    "t = s\<lparr>v4_pc := (v4_pc s)(i := H_msg b pc'), v4_q := q\<rparr>"
  shows "handlers_step s t"
  using h_push [OF assms(1,2)] assms(3) by (auto simp: handlers_step_def)

text \<open>The states of a run in which the handlers \<open>i\<close> and \<open>j\<close> are at \<open>a\<close> and \<open>b\<close>.\<close>

definition v4_pair where
  "v4_pair i j ins p a b q c d k = \<lparr>v4_run = True, v4_pc = (\<lambda>_. H_recv)(i := a, j := b), v4_q = q, v4_pool = p,
    v4_store = c, v4_seq = d, v4_in = take k ins\<rparr>"

lemma v4_pair_push:
  assumes "i \<noteq> j" "push_step QUEUE_SIZE (pc, q) (pc', q')"
  shows "handlers_step (v4_pair i j ins p (H_msg b pc) pj q c d k) (v4_pair i j ins p (H_msg b pc') pj q' c d k)"
    and "handlers_step (v4_pair i j ins p pi (H_msg b pc) q c d k) (v4_pair i j ins p pi (H_msg b pc') q' c d k)"
proof -
  have swap: "(\<lambda>_. H_recv)(i := a, j := b, i := a') = (\<lambda>_. H_recv)(i := a', j := b)" for a b a'
    using assms(1) by (simp add: fun_upd_twist)
  show "handlers_step (v4_pair i j ins p (H_msg b pc) pj q c d k) (v4_pair i j ins p (H_msg b pc') pj q' c d k)"
    by (rule handler_push [where i = i and b = b and pc = pc and pc' = pc' and q = q'])
      (use assms in \<open>auto simp: v4_pair_def swap\<close>)
  show "handlers_step (v4_pair i j ins p pi (H_msg b pc) q c d k) (v4_pair i j ins p pi (H_msg b pc') q' c d k)"
    by (rule handler_push [where i = j and b = b and pc = pc and pc' = pc' and q = q'])
      (use assms in \<open>auto simp: v4_pair_def\<close>)
qed

lemma v4_two_receive:
  assumes "i \<noteq> j"
  obtains P c where "handlers_step\<^sup>*\<^sup>* (v4_init junk m)
      (v4_pair i j [(t1, [x]), (t2, [y])] P (H_msg 0 (P_start 0)) (H_msg 1 (P_start 1)) (v4_q (v4_init junk m)) c 2 2)"
    "0 \<notin> set (mp_avail POOL_SIZE P)"
proof -
  let ?q = "v4_q (v4_init junk m)" and ?ins = "[(t1, [x]), (t2, [y])]"
  have "mp_ok POOL_SIZE (mp_new POOL_SIZE)" "mp_avail POOL_SIZE (mp_new POOL_SIZE) = 0 # 1 # [2..<1024]"
    using mp_new_ok [of POOL_SIZE] upt_conv_Cons [of 0 1024] upt_conv_Cons [of 1 1024]
    by (simp_all add: sizes numeral_2_eq_2)
  from mp_alloc_avail [OF this] obtain p1 where p1: "mp_alloc (mp_new POOL_SIZE) = (Some 0, p1)" "mp_ok POOL_SIZE p1"
    "mp_avail POOL_SIZE p1 = 1 # [2..<1024]" by blast
  have w1: "mp_ok POOL_SIZE (mp_write 0 None p1)" "mp_avail POOL_SIZE (mp_write 0 None p1) = 1 # [2..<1024]"
    using mp.scribble_avail [OF p1(2), of 0 None] p1(3) by (simp_all add: sizes)
  from mp_alloc_avail [OF w1] obtain p2 where p2: "mp_alloc (mp_write 0 None p1) = (Some 1, p2)" "mp_ok POOL_SIZE p2"
    "mp_avail POOL_SIZE p2 = [2..<1024]" by blast
  have w2: "mp_avail POOL_SIZE (mp_write 1 None p2) = [2..<1024]"
    using mp.scribble_avail [OF p2(2), of 1 None] p2(3) by (simp add: sizes)
  define c1 where "c1 = m(0 := fill_message t1 0 [x] (m 0))"
  let ?s = "v4_pair i j ?ins (mp_write 0 None p1) (H_msg 0 (P_start 0)) H_recv ?q c1 1 1"
  have "handlers_step (v4_init junk m) ?s"
    using h_receive [of "v4_init junk m" i "[x]" 0 p1 t1 None] p1(1) assms(1)
    by (auto simp: handlers_step_def v4_pair_def v4_init_def c1_def fun_upd_idem fun_upd_twist [of j i])
  moreover have "handlers_step ?s (v4_pair i j ?ins (mp_write 1 None p2) (H_msg 0 (P_start 0)) (H_msg 1 (P_start 1)) ?q
      (c1(1 := fill_message t2 1 [y] (c1 1))) 2 2)"
    using h_receive [of ?s j "[y]" 1 p2 t2 None] p2(1) by (auto simp: handlers_step_def v4_pair_def)
  ultimately show thesis
    using w2 by (intro that [of "mp_write 1 None p2" "c1(1 := fill_message t2 1 [y] (c1 1))"]) (auto intro: rtranclp_trans)
qed

lemma v4_two_push:
  assumes "i \<noteq> j" "sq_write_idx q = 0" "sq_read_idx q = 0" "length (sq_slots q) = QUEUE_SIZE"
  obtains q' where "sq_items q' = [1]" "handlers_step\<^sup>*\<^sup>* (v4_pair i j ins P (H_msg 0 (P_start 0)) (H_msg 1 (P_start 1)) q c d k)
    (v4_pair i j ins P H_recv H_recv q' c d k)"
proof -
  let ?st = "\<lambda>a b q. v4_pair i j ins P a b q c d k"
  have n1: "(0 + 1) AND sq_mask QUEUE_SIZE = 1" by (simp add: sq_mask_def sizes)
  note mi = v4_pair_push(1) [OF assms(1)] and mj = v4_pair_push(2) [OF assms(1)]
  let ?q1 = "q\<lparr>sq_slots := (sq_slots q)[0 := 0]\<rparr>"
  let ?q2 = "?q1\<lparr>sq_slots := (sq_slots ?q1)[0 := 1]\<rparr>"
  let ?q3 = "?q2\<lparr>sq_write_idx := 1\<rparr>"
  have "handlers_step (?st (H_msg 0 (P_start 0)) (H_msg 1 (P_start 1)) q) (?st (H_msg 0 (P_w 0 0)) (H_msg 1 (P_start 1)) q)"
    using mi [OF load_write [of QUEUE_SIZE _ q]] assms by simp
  moreover have "handlers_step \<dots> (?st (H_msg 0 (P_w 0 0)) (H_msg 1 (P_w 1 0)) q)"
    using mj [OF load_write [of QUEUE_SIZE _ q]] assms by simp
  moreover have "handlers_step \<dots> (?st (H_msg 0 (P_room 0 0 1)) (H_msg 1 (P_w 1 0)) q)"
    using mi [OF room [of 0 QUEUE_SIZE q]] n1 assms by simp
  moreover have "handlers_step \<dots> (?st (H_msg 0 (P_room 0 0 1)) (H_msg 1 (P_room 1 0 1)) q)"
    using mj [OF room [of 0 QUEUE_SIZE q]] n1 assms by simp
  moreover have "handlers_step \<dots> (?st (H_msg 0 (P_stored 1)) (H_msg 1 (P_room 1 0 1)) ?q1)" by (rule mi [OF store_slot])
  moreover have "handlers_step \<dots> (?st (H_msg 0 (P_stored 1)) (H_msg 1 (P_stored 1)) ?q2)" by (rule mj [OF store_slot])
  moreover have "handlers_step \<dots> (?st (H_msg 0 (P_done True)) (H_msg 1 (P_stored 1)) ?q3)" by (rule mi [OF store_write])
  moreover have "handlers_step \<dots> (?st (H_msg 0 (P_done True)) (H_msg 1 (P_done True)) ?q3)"
    using mj [OF store_write [of QUEUE_SIZE 1 ?q3]] by simp
  moreover have "handlers_step \<dots> (?st H_recv (H_msg 1 (P_done True)) ?q3)" (is "handlers_step ?u _")
    using h_pushed [of ?u i 0] assms(1) by (auto simp: handlers_step_def v4_pair_def fun_upd_twist)
  moreover have "handlers_step \<dots> (?st H_recv H_recv ?q3)" (is "handlers_step ?v _")
    using h_pushed [of ?v j 1] by (auto simp: handlers_step_def v4_pair_def)
  ultimately have "handlers_step\<^sup>*\<^sup>* (?st (H_msg 0 (P_start 0)) (H_msg 1 (P_start 1)) q) (?st H_recv H_recv ?q3)"
    by (meson rtranclp.rtrancl_refl rtranclp.rtrancl_into_rtrancl)
  moreover have "sq_items ?q3 = [1]" using assms by (simp add: sq_items_def ring_items_def sizes)
  ultimately show thesis using that by blast
qed

text \<open>C20: In \<open>v4\<close> two handlers can lose a message: both load the same write index, both store into
  the same slot, both publish the same next index, and both \<open>push\<close> calls succeed. Two payloads
  were accepted and both handlers are back at \<open>recv\<close>, but the queue holds one message; the block
  of the other is neither queued nor free, so it is lost to the pool as well.\<close>

theorem v4_loses_a_message:
  assumes "i \<noteq> j" "length junk = QUEUE_SIZE"
  shows "\<exists>s. handlers_step\<^sup>*\<^sup>* (v4_init junk m) s \<and> v4_pc s i = H_recv \<and> v4_pc s j = H_recv \<and>
    v4_in s = [(t1, [x]), (t2, [y])] \<and> sq_items (v4_q s) = [1] \<and> 0 \<notin> set (mp_avail POOL_SIZE (v4_pool s))"
proof -
  let ?q = "v4_q (v4_init junk m)" and ?ins = "[(t1, [x]), (t2, [y])]"
  obtain P c where r: "handlers_step\<^sup>*\<^sup>* (v4_init junk m)
      (v4_pair i j ?ins P (H_msg 0 (P_start 0)) (H_msg 1 (P_start 1)) ?q c 2 2)" "0 \<notin> set (mp_avail POOL_SIZE P)"
    using v4_two_receive [OF assms(1)] by blast
  have "sq_write_idx ?q = 0" "sq_read_idx ?q = 0" "length (sq_slots ?q) = QUEUE_SIZE"
    using assms(2) by (simp_all add: v4_init_def sq_new_def)
  from v4_two_push [OF assms(1) this] obtain q' where q': "sq_items q' = [1]"
    "handlers_step\<^sup>*\<^sup>* (v4_pair i j ?ins P (H_msg 0 (P_start 0)) (H_msg 1 (P_start 1)) ?q c 2 2)
      (v4_pair i j ?ins P H_recv H_recv q' c 2 2)" by blast
  show ?thesis
    using rtranclp_trans [OF r(1) q'(2)] q'(1) r(2)
    by (intro exI [of _ "v4_pair i j ?ins P H_recv H_recv q' c 2 2"]) (simp add: v4_pair_def)
qed

lemma v4_loses_a_message_witness:
  "\<exists>s. handlers_step\<^sup>*\<^sup>* (v4_init (replicate 512 0) (\<lambda>_. \<lparr>m_recv_ns = 0, m_seq = 0, m_len = 0, m_data = []\<rparr>)) s \<and>
     v4_in s = [(5, [65]), (6, [66])] \<and> sq_items (v4_q s) = [1]"
  using v4_loses_a_message [of 0 1 "replicate 512 0" _ 5 65 6 66] by (fastforce simp: QUEUE_SIZE_def)

end
