(* ===== verification/Latency_Connections.thy ===== *)
theory Latency_Connections
  imports Prelude
begin

section \<open>The connections of the latency servers\<close>

text \<open>
  How the network threads of \<open>extras/latency\<close> keep their descriptors: the \<open>epoll\<close> interest list of
  \<open>v1\<close>, \<open>v2\<close> and \<open>v3\<close>, and the \<open>pollfd\<close> array of \<open>v5\<close>, from which a closed connection is removed by
  moving the last entry into its place while the array is being scanned. What \<open>epoll_wait\<close>, \<open>poll\<close>,
  \<open>accept4\<close> and \<open>recv\<close> return is an input; the kernel never hands out a descriptor that is open.
  \<open>fd_bad\<close> records that a descriptor was closed that is not open.
\<close>

subsection \<open>Descriptors\<close>

record fds =
  fd_open :: "nat list"
  fd_bad :: bool

definition open_fd :: "nat \<Rightarrow> fds \<Rightarrow> fds" where
  "open_fd fd s = s\<lparr>fd_open := fd # fd_open s\<rparr>"

definition close_fd :: "nat \<Rightarrow> fds \<Rightarrow> fds" where
  "close_fd fd s = (if fd \<in> set (fd_open s) then s\<lparr>fd_open := removeAll fd (fd_open s)\<rparr> else s\<lparr>fd_bad := True\<rparr>)"

lemma open_fd_simps [simp]: "fd_open (open_fd fd s) = fd # fd_open s" "fd_bad (open_fd fd s) = fd_bad s"
  by (simp_all add: open_fd_def)

lemma close_fd_simps [simp]:
  "fd_open (close_fd fd s) = removeAll fd (fd_open s)"
  "fd_bad (close_fd fd s) \<longleftrightarrow> fd_bad s \<or> fd \<notin> set (fd_open s)"
  by (auto simp: close_fd_def)

subsection \<open>\<open>epoll\<close>\<close>

record epoll =
  ep_watch :: "nat list"
  ep_fds :: fds

text \<open>One event. \<open>conn\<close> is what \<open>accept4\<close> returns, \<open>eof\<close> whether the \<open>recv\<close> loop ends with 0 bytes.\<close>

definition epoll_event :: "nat \<Rightarrow> nat \<Rightarrow> nat option \<Rightarrow> bool \<Rightarrow> epoll \<Rightarrow> epoll" where
  "epoll_event listen_fd fd conn eof s =
     (if fd = listen_fd then
        (case conn of None \<Rightarrow> s
         | Some c \<Rightarrow> \<lparr>ep_watch = ep_watch s @ [c], ep_fds = open_fd c (ep_fds s)\<rparr>)
      else if eof then \<lparr>ep_watch = removeAll fd (ep_watch s), ep_fds = close_fd fd (ep_fds s)\<rparr>
      else s)"

text \<open>The same code stands in \<open>v2\<close> and \<open>v3\<close>.\<close>

definition v2_event where "v2_event = epoll_event"
definition v3_event where "v3_event = epoll_event"

definition epoll_start :: "nat \<Rightarrow> epoll" where
  "epoll_start listen_fd = \<lparr>ep_watch = [listen_fd], ep_fds = \<lparr>fd_open = [listen_fd], fd_bad = False\<rparr>\<rparr>"

definition epoll_stop :: "nat \<Rightarrow> epoll \<Rightarrow> epoll" where
  "epoll_stop listen_fd s = s\<lparr>ep_watch := [], ep_fds := close_fd listen_fd (ep_fds s)\<rparr>"

inductive epoll_step :: "nat \<Rightarrow> epoll \<Rightarrow> epoll \<Rightarrow> bool" for listen_fd where
  event: "fd \<in> set (ep_watch s) \<Longrightarrow> (\<forall>c. conn = Some c \<longrightarrow> c \<notin> set (fd_open (ep_fds s))) \<Longrightarrow>
    epoll_step listen_fd s (epoll_event listen_fd fd conn eof s)"

definition epoll_ok :: "nat \<Rightarrow> epoll \<Rightarrow> bool" where
  "epoll_ok listen_fd s \<longleftrightarrow> distinct (ep_watch s) \<and> set (fd_open (ep_fds s)) = set (ep_watch s) \<and>
     listen_fd \<in> set (ep_watch s) \<and> \<not> fd_bad (ep_fds s)"

lemma epoll_step_ok: "epoll_step listen_fd s s' \<Longrightarrow> epoll_ok listen_fd s \<Longrightarrow> epoll_ok listen_fd s'"
  by (erule epoll_step.cases) (auto simp: epoll_ok_def epoll_event_def distinct_removeAll split: option.splits)

lemma epoll_reach_ok: "(epoll_step listen_fd)\<^sup>*\<^sup>* (epoll_start listen_fd) s \<Longrightarrow> epoll_ok listen_fd s"
  by (induction rule: rtranclp_induct) (auto simp: epoll_step_ok, simp add: epoll_ok_def epoll_start_def)

subsection \<open>\<open>poll\<close>\<close>

text \<open>
  \<open>pl_arr\<close> is the whole array of \<open>MAX_FDS\<close> entries, each with its descriptor and the \<open>POLLIN\<close> bit
  of its \<open>revents\<close>; entries from \<open>pl_nfds\<close> on keep what was last there.
\<close>

definition MAX_FDS :: nat where "MAX_FDS = 64"

record pollset =
  pl_arr :: "(nat \<times> bool) list"
  pl_nfds :: nat
  pl_fds :: fds

definition poll_start :: "nat \<Rightarrow> (nat \<times> bool) list \<Rightarrow> pollset" where
  "poll_start listen_fd junk = \<lparr>pl_arr = junk[0 := (listen_fd, snd (junk ! 0))], pl_nfds = 1,
     pl_fds = \<lparr>fd_open = [listen_fd], fd_bad = False\<rparr>\<rparr>"

text \<open>A new connection is closed at once when the array is full; its entry's \<open>revents\<close> is not written.\<close>

definition poll_accept :: "nat option \<Rightarrow> pollset \<Rightarrow> pollset" where
  "poll_accept conn s =
     (case conn of None \<Rightarrow> s
      | Some c \<Rightarrow> if MAX_FDS \<le> pl_nfds s then s\<lparr>pl_fds := close_fd c (open_fd c (pl_fds s))\<rparr>
         else s\<lparr>pl_arr := (pl_arr s)[pl_nfds s := (c, snd (pl_arr s ! pl_nfds s))], pl_nfds := pl_nfds s + 1,
           pl_fds := open_fd c (pl_fds s)\<rparr>)"

definition poll_remove :: "nat \<Rightarrow> pollset \<Rightarrow> pollset" where
  "poll_remove i s = s\<lparr>pl_fds := close_fd (fst (pl_arr s ! i)) (pl_fds s),
     pl_arr := (pl_arr s)[i := pl_arr s ! (pl_nfds s - 1)], pl_nfds := pl_nfds s - 1\<rparr>"

lemma poll_nfds [simp]: "pl_nfds (poll_accept conn s) \<le> Suc (pl_nfds s)" "pl_nfds (poll_remove i s) = pl_nfds s - 1"
  by (auto simp: poll_accept_def poll_remove_def split: option.splits)

text \<open>The scan: \<open>i\<close> and \<open>ret\<close> are the variables of the \<open>for\<close> loop.\<close>

function poll_scan :: "nat \<Rightarrow> nat option \<Rightarrow> (nat \<Rightarrow> bool) \<Rightarrow> nat \<Rightarrow> nat \<Rightarrow> pollset \<Rightarrow> pollset" where
  "poll_scan listen_fd conn eof i ret s =
     (if i < pl_nfds s \<and> 0 < ret then
        if \<not> snd (pl_arr s ! i) then poll_scan listen_fd conn eof (i + 1) ret s
        else if fst (pl_arr s ! i) = listen_fd then poll_scan listen_fd conn eof (i + 1) (ret - 1) (poll_accept conn s)
        else if eof (fst (pl_arr s ! i)) then poll_scan listen_fd conn eof i (ret - 1) (poll_remove i s)
        else poll_scan listen_fd conn eof (i + 1) (ret - 1) s
      else s)"
  by pat_completeness auto
termination
  by (relation "measures [\<lambda>(l, c, e, i, ret, s). ret, \<lambda>(l, c, e, i, ret, s). pl_nfds s - i]") auto

declare poll_scan.simps [simp del]

definition poll_stop :: "nat \<Rightarrow> pollset \<Rightarrow> pollset" where
  "poll_stop listen_fd s = s\<lparr>pl_fds := close_fd listen_fd
     (fold (\<lambda>i. close_fd (fst (pl_arr s ! i))) [1..<pl_nfds s] (pl_fds s))\<rparr>"

text \<open>
  A round: \<open>poll\<close> writes the \<open>revents\<close> of the first \<open>nfds\<close> entries and returns how many are not zero:
  those with \<open>POLLIN\<close>, which the code looks at, and possibly others (an error or hang-up alone).
\<close>

inductive poll_round :: "nat \<Rightarrow> pollset \<Rightarrow> pollset \<Rightarrow> bool" for listen_fd where
  round: "length arr = length (pl_arr s) \<Longrightarrow> map fst arr = map fst (pl_arr s) \<Longrightarrow>
    (\<forall>c. conn = Some c \<longrightarrow> c \<notin> set (fd_open (pl_fds s))) \<Longrightarrow>
    length (filter snd (take (pl_nfds s) arr)) \<le> ret \<Longrightarrow> ret \<le> pl_nfds s \<Longrightarrow>
    poll_round listen_fd s (poll_scan listen_fd conn eof 0 ret (s\<lparr>pl_arr := arr\<rparr>))"

subsection \<open>The array and the open descriptors\<close>

definition entries :: "pollset \<Rightarrow> nat list" where
  "entries s = map fst (take (pl_nfds s) (pl_arr s))"

definition poll_ok :: "nat \<Rightarrow> pollset \<Rightarrow> bool" where
  "poll_ok listen_fd s \<longleftrightarrow> length (pl_arr s) = MAX_FDS \<and> 1 \<le> pl_nfds s \<and> pl_nfds s \<le> MAX_FDS \<and>
     hd (entries s) = listen_fd \<and> distinct (entries s) \<and> set (fd_open (pl_fds s)) = set (entries s) \<and> \<not> fd_bad (pl_fds s)"

lemma length_entries [simp]: "length (entries s) = min (length (pl_arr s)) (pl_nfds s)"
  by (simp add: entries_def)

lemma entries_nth: "i < pl_nfds s \<Longrightarrow> pl_nfds s \<le> length (pl_arr s) \<Longrightarrow> entries s ! i = fst (pl_arr s ! i)"
  by (simp add: entries_def)

lemma accept_ok:
  assumes "poll_ok l s" "\<forall>c. conn = Some c \<longrightarrow> c \<notin> set (fd_open (pl_fds s))"
  shows "poll_ok l (poll_accept conn s)"
proof (cases conn)
  case (Some c)
  show ?thesis
  proof (cases "MAX_FDS \<le> pl_nfds s")
    case True
    with Some assms show ?thesis by (auto simp: poll_accept_def poll_ok_def entries_def)
  next
    case False
    then have "entries (poll_accept conn s) = entries s @ [c]"
      using assms(1) Some by (simp add: poll_accept_def entries_def poll_ok_def take_Suc_conv_app_nth)
    moreover have "entries s \<noteq> []" using assms(1) by (auto simp: poll_ok_def entries_def MAX_FDS_def)
    moreover have "pl_nfds (poll_accept conn s) = Suc (pl_nfds s)" "length (pl_arr (poll_accept conn s)) = length (pl_arr s)"
      "pl_fds (poll_accept conn s) = open_fd c (pl_fds s)"
      using Some False by (simp_all add: poll_accept_def)
    ultimately show ?thesis using assms Some False by (simp add: poll_ok_def)
  qed
qed (use assms in \<open>simp add: poll_accept_def\<close>)

text \<open>Moving the last element of a list over the \<open>i\<close>-th removes the \<open>i\<close>-th.\<close>

lemma swap_remove: "i < length xs \<Longrightarrow> mset (butlast (xs[i := last xs])) = mset (remove1 (xs ! i) xs)"
proof (induction xs rule: rev_induct)
  case (snoc x xs)
  show ?case
  proof (cases "i < length xs")
    case True
    then show ?thesis by (simp add: list_update_append nth_append remove1_append mset_update)
  next
    case False
    with snoc.prems have "i = length xs" by simp
    then show ?thesis by (simp add: list_update_append)
  qed
qed simp

lemma swap_remove_set:
  assumes "i < length xs" "distinct xs"
  shows "distinct (butlast (xs[i := last xs]))" "set (butlast (xs[i := last xs])) = set xs - {xs ! i}"
proof -
  have "distinct (remove1 (xs ! i) xs)" using assms(2) by simp
  then show "distinct (butlast (xs[i := last xs]))"
    using mset_eq_imp_distinct_iff [OF swap_remove [OF assms(1)]] by blast
  show "set (butlast (xs[i := last xs])) = set xs - {xs ! i}"
    using mset_eq_setD [OF swap_remove [OF assms(1)]] assms(2) by simp
qed

lemma remove_ok:
  assumes "poll_ok l s" "1 \<le> i" "i < pl_nfds s"
  shows "poll_ok l (poll_remove i s)"
proof -
  have len: "length (pl_arr s) = MAX_FDS" "pl_nfds s \<le> MAX_FDS" "2 \<le> pl_nfds s" using assms by (auto simp: poll_ok_def)
  have last: "last (entries s) = fst (pl_arr s ! (pl_nfds s - 1))"
    using len by (subst last_conv_nth) (auto simp: entries_def)
  have "entries (poll_remove i s) = take (pl_nfds s - 1) ((map fst (pl_arr s))[i := last (entries s)])"
    unfolding last by (simp add: entries_def poll_remove_def flip: take_map) (simp add: map_update)
  also have "\<dots> = butlast ((entries s)[i := last (entries s)])"
    using len unfolding entries_def take_map [symmetric] take_update_swap [symmetric]
    by (subst butlast_take) simp_all
  finally have e: "entries (poll_remove i s) = butlast ((entries s)[i := last (entries s)])" .
  have i: "i < length (entries s)" using assms(3) len by simp
  have "hd (entries (poll_remove i s)) = entries s ! 0"
    unfolding e using assms(2) len by (subst hd_conv_nth) (auto simp: nth_butlast simp flip: length_greater_0_conv)
  then have "hd (entries (poll_remove i s)) = l" using assms(1) len by (simp add: poll_ok_def hd_conv_nth flip: length_greater_0_conv)
  moreover have "set (entries (poll_remove i s)) = set (entries s) - {fst (pl_arr s ! i)}" "distinct (entries (poll_remove i s))"
    unfolding e using swap_remove_set [OF i] assms len by (simp_all add: poll_ok_def entries_nth)
  moreover have "fst (pl_arr s ! i) \<in> set (entries s)"
    using nth_mem [OF i] assms(3) len by (simp add: entries_nth)
  ultimately show ?thesis using assms(1) len
    unfolding poll_ok_def by (auto simp: poll_remove_def)
qed

lemma scan_ok:
  assumes "poll_ok l s" "i = 0 \<Longrightarrow> \<forall>c. conn = Some c \<longrightarrow> c \<notin> set (fd_open (pl_fds s))"
  shows "poll_ok l (poll_scan l conn eof i ret s)"
  using assms
proof (induction l conn eof i ret s rule: poll_scan.induct)
  case (1 l conn eof i ret s)
  show ?case
  proof (cases "i < pl_nfds s \<and> 0 < ret")
    case False
    then have "poll_scan l conn eof i ret s = s" by (subst poll_scan.simps) (simp only: if_False)
    with 1 show ?thesis by simp
  next
    case True
    note unfold = poll_scan.simps [of l conn eof i ret s]
    have ent: "entries s ! i = fst (pl_arr s ! i)" "i < length (entries s)" "entries s \<noteq> []" "hd (entries s) = l" "distinct (entries s)"
      using True 1(5) by (auto simp: entries_nth poll_ok_def entries_def)
    have first: "fst (pl_arr s ! i) = l \<longleftrightarrow> i = 0"
      using ent by (metis hd_conv_nth length_greater_0_conv nth_eq_iff_index_eq)
    show ?thesis
    proof (cases "snd (pl_arr s ! i)")
      case False
      with True 1 unfold show ?thesis by simp
    next
      case ready: True
      consider "i = 0" | "i \<noteq> 0" "eof (fst (pl_arr s ! i))" | "i \<noteq> 0" "\<not> eof (fst (pl_arr s ! i))" by blast
      then show ?thesis
      proof cases
        case 1
        with True ready first unfold have "poll_scan l conn eof i ret s = poll_scan l conn eof (i + 1) (ret - 1) (poll_accept conn s)"
          by simp
        moreover have "poll_ok l (poll_accept conn s)" using 1 "1.prems" by (intro accept_ok) auto
        ultimately show ?thesis using "1.IH"(2) [OF True _ _] ready first 1 by simp
      next
        case 2
        with True ready first unfold have "poll_scan l conn eof i ret s = poll_scan l conn eof i (ret - 1) (poll_remove i s)"
          by simp
        moreover have "poll_ok l (poll_remove i s)" using 2 True "1.prems" by (intro remove_ok) auto
        ultimately show ?thesis using "1.IH"(3) [OF True _ _] ready first 2 by simp
      next
        case 3
        with True ready first unfold have "poll_scan l conn eof i ret s = poll_scan l conn eof (i + 1) (ret - 1) s"
          by simp
        then show ?thesis using "1.IH"(4) [OF True _ _] ready first 3 "1.prems" by simp
      qed
    qed
  qed
qed

lemma poll_round_ok:
  assumes "poll_round l s s'" "poll_ok l s"
  shows "poll_ok l s'"
  using assms(1)
proof cases
  case (round arr conn ret eof)
  have "entries (s\<lparr>pl_arr := arr\<rparr>) = entries s" by (simp add: entries_def round(3) flip: take_map)
  with assms(2) round(2) have "poll_ok l (s\<lparr>pl_arr := arr\<rparr>)" by (simp add: poll_ok_def)
  then show ?thesis unfolding round(1) by (rule scan_ok) (use round(4) in simp)
qed

lemma poll_start_ok: "length junk = MAX_FDS \<Longrightarrow> poll_ok l (poll_start l junk)"
  by (cases junk) (simp_all add: poll_ok_def poll_start_def entries_def MAX_FDS_def)

lemma poll_reach_ok: "(poll_round l)\<^sup>*\<^sup>* (poll_start l junk) s \<Longrightarrow> length junk = MAX_FDS \<Longrightarrow> poll_ok l s"
  by (induction rule: rtranclp_induct) (auto intro: poll_start_ok poll_round_ok)

lemma close_all:
  "distinct xs \<Longrightarrow> set xs \<subseteq> set (fd_open s) \<Longrightarrow> \<not> fd_bad s \<Longrightarrow>
   set (fd_open (fold close_fd xs s)) = set (fd_open s) - set xs \<and> \<not> fd_bad (fold close_fd xs s)"
proof (induction xs arbitrary: s)
  case (Cons x xs)
  have "set xs \<subseteq> set (fd_open (close_fd x s))" "\<not> fd_bad (close_fd x s)" using Cons.prems by auto
  from Cons.IH [OF _ this] Cons.prems(1) show ?case by auto
qed simp

lemma poll_stop_closes:
  assumes "poll_ok l s"
  shows "fd_open (pl_fds (poll_stop l s)) = [] \<and> \<not> fd_bad (pl_fds (poll_stop l s))"
proof -
  have len: "1 \<le> pl_nfds s" "pl_nfds s \<le> length (pl_arr s)" using assms by (auto simp: poll_ok_def)
  have ne: "entries s = l # tl (entries s)"
    using assms len by (auto simp: poll_ok_def entries_def intro: list.collapse [symmetric])
  have "fold (\<lambda>i. close_fd (fst (pl_arr s ! i))) [1..<pl_nfds s] (pl_fds s) =
      fold close_fd (map (\<lambda>i. fst (pl_arr s ! i)) [1..<pl_nfds s]) (pl_fds s)"
    by (simp add: fold_map comp_def)
  also have "map (\<lambda>i. fst (pl_arr s ! i)) [1..<pl_nfds s] = tl (entries s)"
    using len by (intro nth_equalityI) (auto simp: entries_def nth_tl)
  finally have f: "fold (\<lambda>i. close_fd (fst (pl_arr s ! i))) [1..<pl_nfds s] (pl_fds s) = fold close_fd (tl (entries s)) (pl_fds s)" .
  have "distinct (l # tl (entries s))" "set (fd_open (pl_fds s)) = set (l # tl (entries s))" "\<not> fd_bad (pl_fds s)"
    using assms ne by (simp_all add: poll_ok_def)
  with close_all [of "tl (entries s)" "pl_fds s"] show ?thesis
    unfolding poll_stop_def f by (auto simp flip: set_empty)
qed

subsection \<open>Properties\<close>

text \<open>C21: The array of \<open>v5\<close> and the kernel's open descriptors stay in step through any number of
  rounds, with new connections, connections refused because the array is full, and connections
  closed in the middle of the scan: the first \<open>nfds\<close> entries, at most 64 and the listening socket
  first, are the open descriptors, each once, no descriptor is closed that is not open, and
  closing the entries at the end leaves none open. The interest lists of \<open>v1\<close>, \<open>v2\<close> and \<open>v3\<close> are
  the open descriptors as well, but these variants close only the listening socket when they
  stop: exactly the client connections stay open.\<close>

theorem descriptors_tracked:
  assumes "length junk = MAX_FDS" "(poll_round listen_fd)\<^sup>*\<^sup>* (poll_start listen_fd junk) s"
    and "(epoll_step listen_fd)\<^sup>*\<^sup>* (epoll_start listen_fd) e"
  shows "pl_nfds s \<le> MAX_FDS \<and> fst (pl_arr s ! 0) = listen_fd \<and> distinct (map fst (take (pl_nfds s) (pl_arr s))) \<and>
    set (fd_open (pl_fds s)) = set (map fst (take (pl_nfds s) (pl_arr s))) \<and> \<not> fd_bad (pl_fds s) \<and>
    fd_open (pl_fds (poll_stop listen_fd s)) = [] \<and> \<not> fd_bad (pl_fds (poll_stop listen_fd s)) \<and>
    distinct (ep_watch e) \<and> set (fd_open (ep_fds e)) = set (ep_watch e) \<and> \<not> fd_bad (ep_fds e) \<and>
    \<not> fd_bad (ep_fds (epoll_stop listen_fd e)) \<and>
    set (fd_open (ep_fds (epoll_stop listen_fd e))) = set (ep_watch e) - {listen_fd}"
proof -
  have ok: "poll_ok listen_fd s" using poll_reach_ok [OF assms(2,1)] .
  moreover have "fst (pl_arr s ! 0) = listen_fd"
    using ok by (cases "pl_arr s"; cases "pl_nfds s") (auto simp: poll_ok_def entries_def)
  moreover have "epoll_ok listen_fd e" using epoll_reach_ok [OF assms(3)] .
  ultimately show ?thesis using poll_stop_closes [OF ok]
    by (simp add: poll_ok_def entries_def) (simp add: epoll_ok_def epoll_stop_def)
qed

text \<open>A connection arrives in the first round and is closed in the second.\<close>

lemma descriptors_tracked_witness:
  "\<exists>s e. (poll_round 3)\<^sup>*\<^sup>* (poll_start 3 (replicate 64 (0, False))) s \<and> (epoll_step 3)\<^sup>*\<^sup>* (epoll_start 3) e \<and>
     pl_nfds s = 1 \<and> fd_open (pl_fds (poll_stop 3 s)) = [] \<and> fd_open (ep_fds (epoll_stop 3 e)) = [4]"
proof -
  let ?s0 = "poll_start 3 (replicate 64 (0, False))"
  let ?a = "(3, True) # replicate 63 (0, False)"
  define s1 where "s1 = poll_scan 3 (Some 4) (\<lambda>_. False) 0 1 (?s0\<lparr>pl_arr := ?a\<rparr>)"
  have n: "replicate 64 x = x # replicate 63 x" "replicate 63 x = x # replicate 62 x" for x :: "nat \<times> bool"
    by (simp_all flip: replicate_Suc)
  have r1: "poll_round 3 ?s0 s1"
    unfolding s1_def by (rule poll_round.round) (simp_all add: poll_start_def n(1))
  have s1: "s1 = \<lparr>pl_arr = (3, True) # (4, False) # replicate 62 (0, False), pl_nfds = 2,
      pl_fds = \<lparr>fd_open = [4, 3], fd_bad = False\<rparr>\<rparr>"
    by (simp add: s1_def poll_scan.simps poll_start_def poll_accept_def open_fd_def MAX_FDS_def n)
  define s2 where "s2 = poll_scan 3 None (\<lambda>_. True) 0 1 (s1\<lparr>pl_arr := (3, False) # (4, True) # replicate 62 (0, False)\<rparr>)"
  have r2: "poll_round 3 s1 s2"
    unfolding s2_def by (rule poll_round.round) (simp_all add: s1)
  have s2: "pl_nfds s2 = 1"
    by (simp add: s2_def s1 poll_scan.simps poll_remove_def)
  have r: "(poll_round 3)\<^sup>*\<^sup>* ?s0 s2" using r1 r2 by (meson converse_rtranclp_into_rtranclp rtranclp.rtrancl_refl)
  let ?e = "epoll_event 3 3 (Some 4) False (epoll_start 3)"
  have "epoll_step 3 (epoll_start 3) ?e" by (rule event) (simp_all add: epoll_start_def)
  then have e: "(epoll_step 3)\<^sup>*\<^sup>* (epoll_start 3) ?e" by blast
  have "fd_open (pl_fds (poll_stop 3 s2)) = []"
    using descriptors_tracked [of "replicate 64 (0, False)" 3 s2 ?e] r e by (simp add: MAX_FDS_def)
  moreover have "fd_open (ep_fds (epoll_stop 3 ?e)) = [4]"
    by (simp add: epoll_stop_def epoll_event_def epoll_start_def)
  ultimately show ?thesis using r e s2 by blast
qed

end
