(* ===== verification/Smart_Iterators.thy ===== *)
theory Smart_Iterators
  imports Smart_Container
begin

section \<open>Iterators of \<open>SmartContainer\<close>\<close>

text \<open>
  The class \<open>const_iterator\<close>, the functions that make one, and what both iterator classes are good
  for: the locale \<open>random_access\<close> holds the laws of a pointer-like iterator, and its lemmas say
  which elements a loop over it meets. Both classes are instances.
\<close>

subsection \<open>\<open>const_iterator\<close>\<close>

record const_iter =
  cit_ptr :: iter

definition cit_deref :: "'a heap \<Rightarrow> const_iter \<Rightarrow> sc_error + 'a" where
  "cit_deref h it = (case cit_ptr it of (a, k) \<Rightarrow> if k < 0 then Inl undefined_behaviour else read_cell h a (nat k))"

definition cit_inc :: "const_iter \<Rightarrow> const_iter" where
  "cit_inc it = it\<lparr>cit_ptr := (fst (cit_ptr it), snd (cit_ptr it) + 1)\<rparr>"

definition cit_post_inc :: "const_iter \<Rightarrow> const_iter \<times> const_iter" where
  "cit_post_inc it = (let tmp = it; it = cit_inc it in (tmp, it))"

definition cit_dec :: "const_iter \<Rightarrow> const_iter" where
  "cit_dec it = it\<lparr>cit_ptr := (fst (cit_ptr it), snd (cit_ptr it) - 1)\<rparr>"

definition cit_post_dec :: "const_iter \<Rightarrow> const_iter \<times> const_iter" where
  "cit_post_dec it = (let tmp = it; it = cit_dec it in (tmp, it))"

definition cit_add_assign :: "const_iter \<Rightarrow> int \<Rightarrow> const_iter" where
  "cit_add_assign it n = it\<lparr>cit_ptr := (fst (cit_ptr it), snd (cit_ptr it) + n)\<rparr>"

definition cit_sub_assign :: "const_iter \<Rightarrow> int \<Rightarrow> const_iter" where
  "cit_sub_assign it n = it\<lparr>cit_ptr := (fst (cit_ptr it), snd (cit_ptr it) - n)\<rparr>"

definition cit_add :: "const_iter \<Rightarrow> int \<Rightarrow> const_iter" where
  "cit_add it n = \<lparr>cit_ptr = (fst (cit_ptr it), snd (cit_ptr it) + n)\<rparr>"

definition cit_sub :: "const_iter \<Rightarrow> int \<Rightarrow> const_iter" where
  "cit_sub it n = \<lparr>cit_ptr = (fst (cit_ptr it), snd (cit_ptr it) - n)\<rparr>"

text \<open>Distance and order are those of the pointers, defined in one array only.\<close>

definition cit_diff :: "const_iter \<Rightarrow> const_iter \<Rightarrow> int option" where
  "cit_diff it rhs = it_diff (cit_ptr it) (cit_ptr rhs)"

definition it_less :: "iter \<Rightarrow> iter \<Rightarrow> bool option" where
  "it_less it rhs = (if fst it = fst rhs then Some (snd it < snd rhs) else None)"

definition cit_less :: "const_iter \<Rightarrow> const_iter \<Rightarrow> bool option" where
  "cit_less it rhs = (if fst (cit_ptr it) = fst (cit_ptr rhs) then Some (snd (cit_ptr it) < snd (cit_ptr rhs)) else None)"

definition sc_begin_const :: "sc \<Rightarrow> const_iter" where "sc_begin_const c = \<lparr>cit_ptr = (sc_data c, 0)\<rparr>"
definition sc_end_const :: "sc \<Rightarrow> const_iter" where "sc_end_const c = \<lparr>cit_ptr = (sc_data c, int (sc_size c))\<rparr>"
definition sc_cbegin :: "sc \<Rightarrow> const_iter" where "sc_cbegin c = \<lparr>cit_ptr = (sc_data c, 0)\<rparr>"
definition sc_cend :: "sc \<Rightarrow> const_iter" where "sc_cend c = \<lparr>cit_ptr = (sc_data c, int (sc_size c))\<rparr>"

lemmas cit_defs = cit_deref_def cit_inc_def cit_post_inc_def cit_dec_def cit_post_dec_def cit_add_assign_def
  cit_sub_assign_def cit_add_def cit_sub_def cit_diff_def cit_less_def sc_begin_const_def sc_end_const_def
  sc_cbegin_def sc_cend_def

subsection \<open>Loops over iterators\<close>

text \<open>Reading \<open>n\<close> elements, moving by \<open>advance\<close> after each.\<close>

fun traverse :: "('it \<Rightarrow> sc_error + 'a) \<Rightarrow> ('it \<Rightarrow> 'it) \<Rightarrow> nat \<Rightarrow> 'it \<Rightarrow> sc_error + 'a list" where
  "traverse deref advance 0 it = Inr []"
| "traverse deref advance (Suc n) it =
     bindE (deref it) (\<lambda>v. bindE (traverse deref advance n (advance it)) (\<lambda>vs. Inr (v # vs)))"

locale random_access =
  fixes pos :: "'it \<Rightarrow> iter"
    and mk :: "iter \<Rightarrow> 'it"
    and deref :: "'a heap \<Rightarrow> 'it \<Rightarrow> sc_error + 'a"
    and inc dec :: "'it \<Rightarrow> 'it"
    and add sub :: "'it \<Rightarrow> int \<Rightarrow> 'it"
    and diff :: "'it \<Rightarrow> 'it \<Rightarrow> int option"
    and less :: "'it \<Rightarrow> 'it \<Rightarrow> bool option"
  assumes pos_mk: "pos (mk p) = p" "mk (pos it) = it"
    and deref_law: "deref h it = (if snd (pos it) < 0 then Inl undefined_behaviour else read_cell h (fst (pos it)) (nat (snd (pos it))))"
    and moves: "inc it = add it 1" "dec it = add it (- 1)" "sub it n = add it (- n)"
    and add_law: "pos (add it n) = (fst (pos it), snd (pos it) + n)"
    and diff_law: "diff it it' = (if fst (pos it) = fst (pos it') then Some (snd (pos it) - snd (pos it')) else None)"
    and less_law: "less it it' = (if fst (pos it) = fst (pos it') then Some (snd (pos it) < snd (pos it')) else None)"
begin

lemma add_add: "add (add it m) n = add it (m + n)"
  by (metis (no_types, lifting) add_law pos_mk(2) fst_conv snd_conv add.assoc)

lemma back_and_forth: "dec (inc it) = it" "inc (dec it) = it" "sub (add it n) n = it"
proof -
  have z: "add it 0 = it" by (metis add_law add_0_right pos_mk(2) prod.collapse)
  show "dec (inc it) = it" "inc (dec it) = it" "sub (add it n) n = it" by (simp_all add: moves add_add z)
qed

lemma distance: "diff (add it m) (add it n) = Some (m - n)" "less (add it m) (add it n) = Some (m < n)"
  by (simp_all add: diff_law less_law add_law)

lemma deref_element:
  assumes "sc_ok h c xs" "i < length xs"
  shows "deref h (add (mk (sc_data c, 0)) (int i)) = Inr (xs ! i)"
  using sc_read [OF assms] by (simp add: deref_law add_law pos_mk)

lemma deref_outside:
  assumes "sc_ok h c xs" "i < 0 \<or> int (sc_capacity c) \<le> i"
  shows "deref h (add (mk (sc_data c, 0)) i) = Inl undefined_behaviour"
  using assms by (auto simp: deref_law add_law pos_mk sc_ok_def read_cell_def split: option.splits)

lemma forward:
  assumes "sc_ok h c xs"
  shows "n \<le> length xs \<Longrightarrow> k = length xs - n \<Longrightarrow> traverse (deref h) inc n (add (mk (sc_data c, 0)) (int k)) = Inr (drop k xs)"
proof (induction n arbitrary: k)
  case (Suc n)
  then have k: "k < length xs" by simp
  have "inc (add (mk (sc_data c, 0)) (int k)) = add (mk (sc_data c, 0)) (int (Suc k))"
    by (simp add: moves add_add algebra_simps)
  moreover have "length xs - n = Suc k" "n \<le> length xs" using Suc.prems by simp_all
  ultimately show ?case using Suc.IH [of "Suc k"] deref_element [OF assms k] k by (simp add: Cons_nth_drop_Suc)
qed simp

lemma backward:
  assumes "sc_ok h c xs"
  shows "n \<le> length xs \<Longrightarrow> traverse (deref h) dec n (add (mk (sc_data c, 0)) (int n - 1)) = Inr (rev (take n xs))"
proof (induction n)
  case (Suc n)
  have "dec (add (mk (sc_data c, 0)) (int n)) = add (mk (sc_data c, 0)) (int n - 1)"
    by (simp add: moves add_add)
  with Suc deref_element [OF assms, of n] show ?case by (simp add: take_Suc_conv_app_nth)
qed simp

text \<open>After the storage has moved, an iterator into the old one cannot be read.\<close>

lemma dangling:
  assumes "arr h a = None"
  shows "deref h (mk (Some a, i)) = Inl undefined_behaviour"
  using assms by (simp add: deref_law pos_mk read_cell_def)

end

interpretation it: random_access id id it_deref it_inc it_dec it_add it_sub it_diff it_less
  by unfold_locales (auto simp: it_deref_def it_inc_def it_dec_def it_add_def it_sub_def it_diff_def it_less_def)

interpretation cit: random_access cit_ptr const_iter.make cit_deref cit_inc cit_dec cit_add cit_sub cit_diff cit_less
  by unfold_locales (auto simp: cit_defs it_diff_def const_iter.make_def split: prod.splits)

lemma push_keeps_or_moves:
  assumes "heap_ok h" "sc_ok h c xs"
  shows "\<exists>h' c'. sc_push_back triv dflt v (h, c) = Inr (h', c') \<and>
    (if length xs = sc_capacity c then \<forall>a. sc_data c = Some a \<longrightarrow> arr h' a = None
     else sc_data c' = sc_data c \<and> sc_ok h' c' (xs @ [v]))"
proof (cases "length xs = sc_capacity c")
  case True
  have sz: "sc_size c = length xs" using assms(2) by (simp add: sc_ok_def)
  obtain h1 c1 where g: "grow_if_full triv dflt (h, c) = Inr (h1, c1)" "sc_ok h1 c1 xs" "length xs < sc_capacity c1"
      "\<forall>a. sc_data c = Some a \<longrightarrow> arr h1 a = None"
    using grow_if_full_ok [OF assms, where triv = triv and dflt = dflt] True sz by metis
  from g(2,3) obtain b cs where b: "sc_data c1 = Some b" "arr h1 b = Some cs" "length cs = sc_capacity c1"
    "list_all is_live cs" "sc_size c1 = length xs" by (auto simp: sc_ok_def split: option.splits)
  have "assign_cell h1 (sc_data c1) (sc_size c1) v = Inr (h1\<lparr>arr := (arr h1)(b \<mapsto> cs[length xs := Live v])\<rparr>)"
    using assign_live [OF b(2) _ b(4)] b(1,3,5) g(3) by simp
  with g(1,4) b(2) True show ?thesis by (auto simp: sc_push_back_def)
next
  case False
  with assms(2) have "length xs < sc_capacity c" by (auto simp: sc_ok_def split: option.splits)
  obtain h' where "assign_cell h (sc_data c) (sc_size c) v = Inr h'" "sc_ok h' (c\<lparr>sc_size := sc_size c + 1\<rparr>) (xs @ [v])"
    using sc_append [OF assms \<open>length xs < sc_capacity c\<close>, where v = v] .
  moreover have "sc_size c \<noteq> sc_capacity c" using False assms(2) by (simp add: sc_ok_def)
  ultimately show ?thesis using False by (simp add: sc_push_back_def grow_if_full_def)
qed

subsection \<open>Properties\<close>

text \<open>Both iterator classes walk over the elements: from \<open>begin\<close> forwards the elements in order,
  from the last one backwards the reversed list, \<open>begin + i\<close> is the \<open>i\<close>-th element, \<open>end - begin\<close>
  is the size, and the four functions that make a \<open>const_iterator\<close> agree. Reading before the first
  or behind the last cell is undefined. After a \<open>push_back\<close> an iterator to the \<open>i\<close>-th element
  still reads it when there was room, and dangles when the container was full.\<close>

theorem iterators_walk:
  assumes "heap_ok h" "sc_ok h c xs"
  shows "traverse (cit_deref h) cit_inc (sc_size c) (sc_cbegin c) = Inr xs \<and>
    traverse (cit_deref h) cit_dec (sc_size c) (cit_dec (sc_cend c)) = Inr (rev xs) \<and>
    traverse (it_deref h) it_inc (sc_size c) (it_begin c) = Inr xs \<and>
    traverse (it_deref h) it_dec (sc_size c) (it_dec (it_end c)) = Inr (rev xs) \<and>
    cit_diff (sc_cend c) (sc_cbegin c) = Some (int (length xs)) \<and> it_diff (it_end c) (it_begin c) = Some (int (length xs)) \<and>
    sc_begin_const c = sc_cbegin c \<and> sc_end_const c = sc_cend c \<and>
    cit_deref h (cit_sub (sc_cbegin c) 1) = Inl undefined_behaviour \<and>
    cit_deref h (cit_add (sc_cbegin c) (int (sc_capacity c))) = Inl undefined_behaviour \<and>
    (\<exists>h' c'. sc_push_back triv dflt v (h, c) = Inr (h', c') \<and> (\<forall>i<length xs.
       cit_deref h (cit_add (sc_cbegin c) (int i)) = Inr (xs ! i) \<and> it_deref h (it_add (it_begin c) (int i)) = Inr (xs ! i) \<and>
       cit_deref h' (cit_add (sc_cbegin c) (int i)) = (if length xs = sc_capacity c then Inl undefined_behaviour else Inr (xs ! i))))"
proof -
  have sz: "sc_size c = length xs" using assms(2) by (simp add: sc_ok_def)
  have at: "const_iter.make (sc_data c, 0) = sc_cbegin c" "id (sc_data c, 0) = it_begin c"
    by (simp_all add: cit_defs const_iter.make_def it_begin_def)
  have ends: "sc_cend c = cit_add (sc_cbegin c) (int (length xs))" "it_end c = it_add (it_begin c) (int (length xs))"
    "cit_dec (sc_cend c) = cit_add (sc_cbegin c) (int (length xs) - 1)" "it_dec (it_end c) = it_add (it_begin c) (int (length xs) - 1)"
    "cit_sub (sc_cbegin c) 1 = cit_add (sc_cbegin c) (- 1)"
    by (simp_all add: cit_defs it_add_def it_begin_def it_end_def it_dec_def sz)
  have zero: "cit_add (sc_cbegin c) 0 = sc_cbegin c" "it_add (it_begin c) 0 = it_begin c"
    by (simp_all add: cit_defs it_add_def it_begin_def)
  have elem: "cit_deref h2 (cit_add (sc_cbegin d) (int i)) = Inr (ys ! i) \<and> it_deref h2 (it_add (it_begin d) (int i)) = Inr (ys ! i)"
    if "sc_ok h2 d ys" "i < length ys" for h2 d and ys :: "'a list" and i
    using cit.deref_element [OF that] it.deref_element [OF that]
    by (simp add: cit_defs const_iter.make_def it_add_def it_begin_def)
  obtain h' c' where p: "sc_push_back triv dflt v (h, c) = Inr (h', c')"
    "if length xs = sc_capacity c then \<forall>a. sc_data c = Some a \<longrightarrow> arr h' a = None
     else sc_data c' = sc_data c \<and> sc_ok h' c' (xs @ [v])"
    using push_keeps_or_moves [OF assms, of triv dflt v] by blast
  have after: "cit_deref h' (cit_add (sc_cbegin c) (int i)) = (if length xs = sc_capacity c then Inl undefined_behaviour else Inr (xs ! i))"
    if "i < length xs" for i
  proof (cases "length xs = sc_capacity c")
    case True
    from assms(2) that obtain a where "sc_data c = Some a" by (auto simp: sc_ok_def split: option.splits)
    with True p(2) cit.dangling [of h' a "int i"] show ?thesis by (simp add: cit_defs const_iter.make_def)
  next
    case False
    with p(2) elem [of h' c' "xs @ [v]" i] that show ?thesis by (simp add: cit_defs nth_append)
  qed
  have walks: "traverse (cit_deref h) cit_inc (sc_size c) (sc_cbegin c) = Inr xs"
    "traverse (cit_deref h) cit_dec (sc_size c) (cit_dec (sc_cend c)) = Inr (rev xs)"
    "traverse (it_deref h) it_inc (sc_size c) (it_begin c) = Inr xs"
    "traverse (it_deref h) it_dec (sc_size c) (it_dec (it_end c)) = Inr (rev xs)"
    using cit.forward [OF assms(2), of "length xs" 0] cit.backward [OF assms(2), of "length xs"]
      it.forward [OF assms(2), of "length xs" 0] it.backward [OF assms(2), of "length xs"]
    unfolding ends(3,4) sz at by (simp_all add: zero)
  have "cit_deref h (cit_add (sc_cbegin c) k) = Inl undefined_behaviour" if "k < 0 \<or> int (sc_capacity c) \<le> k" for k
    using cit.deref_outside [OF assms(2) that] by (simp add: at)
  moreover have "cit_diff (sc_cend c) (sc_cbegin c) = Some (int (length xs))" "it_diff (it_end c) (it_begin c) = Some (int (length xs))"
    by (simp_all add: cit_defs it_diff_def it_begin_def it_end_def sz)
  moreover have "sc_begin_const c = sc_cbegin c" "sc_end_const c = sc_cend c" by (simp_all add: cit_defs)
  ultimately show ?thesis
    using walks p(1) after elem [OF assms(2)] unfolding ends(5) by auto
qed

lemma iterators_walk_witness:
  "\<exists>h c h' c'. sc_push_back True 0 (5 :: int) (heap_empty, sc_new) = Inr (h, c) \<and>
     sc_push_back True 0 6 (h, c) = Inr (h', c') \<and> cit_deref h (sc_cbegin c) = Inr 5 \<and>
     cit_deref h' (sc_cbegin c) = Inl undefined_behaviour"
proof -
  obtain h c where p: "sc_push_back True 0 (5 :: int) (heap_empty, sc_new) = Inr (h, c)" "heap_ok h" "sc_ok h c [5]"
    "sc_capacity c = 1" using sc_push_first [of True 0 "5 :: int"] by blast
  have z: "cit_add (sc_cbegin c) 0 = sc_cbegin c" by (simp add: cit_defs)
  from iterators_walk [OF p(2,3), of True 0 6] p(1,4) z show ?thesis by auto
qed

end
