(* ===== verification/Monitors.thy ===== *)
theory Monitors
  imports Prelude
begin

section \<open>Work queues with a condition variable\<close>

text \<open>
  \<open>ThreadPool\<close> (\<open>topics/concurrency/thread_pool.cpp\<close>), \<open>ThreadSafeQueue\<close> (\<open>thread_safe_queue.cpp\<close>)
  and \<open>AsyncLogger\<close> (\<open>topics/io/async_logger.cpp\<close>) are the same monitor: a queue and a flag under a
  mutex, and worker threads that wait on a condition variable until there is work or the flag is
  set. A critical section is one step. A worker that waits is \<open>Asleep\<close> until a notification or a
  spurious wake-up makes it \<open>Ready\<close> to test the condition again, so a lost wake-up would show.
  \<open>ThreadPool\<close> notifies after it has released the mutex; those notifications are steps of their
  own, and \<open>mo_notify\<close>, \<open>mo_notify_all\<close> count the ones still to come.
\<close>

subsection \<open>State and workers\<close>

datatype 'a worker = Ready | Asleep | Busy 'a | Gone

text \<open>\<open>mo_in\<close>, \<open>mo_started\<close> and \<open>mo_out\<close> are histories: items accepted, taken off the queue, and done with.\<close>

record 'a monitor =
  mo_queue :: "'a list"
  mo_done :: bool
  mo_ws :: "'a worker list"
  mo_notify :: nat
  mo_notify_all :: bool
  mo_in :: "'a list"
  mo_started :: "'a list"
  mo_out :: "'a list"

definition monitor_init :: "nat \<Rightarrow> 'a monitor" where
  "monitor_init n = \<lparr>mo_queue = [], mo_done = False, mo_ws = replicate n Ready, mo_notify = 0, mo_notify_all = False,
     mo_in = [], mo_started = [], mo_out = []\<rparr>"

inductive worker_step :: "nat \<Rightarrow> 'a monitor \<Rightarrow> 'a monitor \<Rightarrow> bool" for i where
  sleeps: "i < length (mo_ws s) \<Longrightarrow> mo_ws s ! i = Ready \<Longrightarrow> \<not> (mo_done s \<or> mo_queue s \<noteq> []) \<Longrightarrow>
    worker_step i s (s\<lparr>mo_ws := (mo_ws s)[i := Asleep]\<rparr>)"
| leaves: "i < length (mo_ws s) \<Longrightarrow> mo_ws s ! i = Ready \<Longrightarrow> mo_done s \<Longrightarrow> mo_queue s = [] \<Longrightarrow>
    worker_step i s (s\<lparr>mo_ws := (mo_ws s)[i := Gone]\<rparr>)"
| takes: "i < length (mo_ws s) \<Longrightarrow> mo_ws s ! i = Ready \<Longrightarrow> mo_queue s = x # xs \<Longrightarrow>
    worker_step i s (s\<lparr>mo_ws := (mo_ws s)[i := Busy x], mo_queue := xs, mo_started := mo_started s @ [x]\<rparr>)"
| runs: "i < length (mo_ws s) \<Longrightarrow> mo_ws s ! i = Busy x \<Longrightarrow>
    worker_step i s (s\<lparr>mo_ws := (mo_ws s)[i := Ready], mo_out := mo_out s @ [x]\<rparr>)"

inductive spurious_step :: "nat \<Rightarrow> 'a monitor \<Rightarrow> 'a monitor \<Rightarrow> bool" for i where
  spurious: "i < length (mo_ws s) \<Longrightarrow> mo_ws s ! i = Asleep \<Longrightarrow> spurious_step i s (s\<lparr>mo_ws := (mo_ws s)[i := Ready]\<rparr>)"

text \<open>\<open>notify_one\<close> wakes some waiting thread, or nobody; \<open>notify_all\<close> wakes them all.\<close>

inductive notify_one :: "'a monitor \<Rightarrow> 'a monitor \<Rightarrow> bool" where
  wakes: "i < length (mo_ws s) \<Longrightarrow> mo_ws s ! i = Asleep \<Longrightarrow> notify_one s (s\<lparr>mo_ws := (mo_ws s)[i := Ready]\<rparr>)"
| nobody: "Asleep \<notin> set (mo_ws s) \<Longrightarrow> notify_one s s"

fun wake :: "'a worker \<Rightarrow> 'a worker" where
  "wake Asleep = Ready"
| "wake w = w"

definition notify_all :: "'a monitor \<Rightarrow> 'a monitor" where
  "notify_all s = s\<lparr>mo_ws := map wake (mo_ws s)\<rparr>"

definition enqueue :: "'a \<Rightarrow> 'a monitor \<Rightarrow> 'a monitor" where
  "enqueue x s = s\<lparr>mo_queue := mo_queue s @ [x], mo_in := mo_in s @ [x]\<rparr>"

subsection \<open>The three programs\<close>

text \<open>\<open>submit\<close> on a stopped pool throws, so it is no step of the pool.\<close>

definition tp_submit :: "'a \<Rightarrow> 'a monitor \<Rightarrow> 'a monitor option" where
  "tp_submit x s = (if mo_done s then None else Some ((enqueue x s)\<lparr>mo_notify := mo_notify s + 1\<rparr>))"

definition tp_stop :: "'a monitor \<Rightarrow> 'a monitor" where
  "tp_stop s = s\<lparr>mo_done := True, mo_notify_all := True\<rparr>"

inductive tp_client :: "'a monitor \<Rightarrow> 'a monitor \<Rightarrow> bool" where
  submit: "tp_submit x s = Some s' \<Longrightarrow> tp_client s s'"
| stop: "\<not> mo_done s \<Longrightarrow> tp_client s (tp_stop s)"

inductive tp_step :: "'a monitor \<Rightarrow> 'a monitor \<Rightarrow> bool" where
  tp_worker: "worker_step i s s' \<Longrightarrow> tp_step s s'"
| tp_notify_one: "0 < mo_notify s \<Longrightarrow> notify_one (s\<lparr>mo_notify := mo_notify s - 1\<rparr>) s' \<Longrightarrow> tp_step s s'"
| tp_notify_all: "mo_notify_all s \<Longrightarrow> tp_step s (notify_all (s\<lparr>mo_notify_all := False\<rparr>))"

definition tpool_step :: "'a monitor \<Rightarrow> 'a monitor \<Rightarrow> bool" where
  "tpool_step s s' \<longleftrightarrow> tp_step s s' \<or> tp_client s s' \<or> (\<exists>i. spurious_step i s s')"

text \<open>\<open>ThreadSafeQueue\<close> accepts items after \<open>set_done\<close> as well; \<open>try_pop\<close> may come from any thread.\<close>

inductive tsq_client :: "'a monitor \<Rightarrow> 'a monitor \<Rightarrow> bool" where
  tsq_push: "notify_one (enqueue x s) s' \<Longrightarrow> tsq_client s s'"
| tsq_try_pop: "mo_queue s = x # xs \<Longrightarrow>
    tsq_client s (s\<lparr>mo_queue := xs, mo_started := mo_started s @ [x], mo_out := mo_out s @ [x]\<rparr>)"
| tsq_try_pop_fails: "mo_queue s = [] \<Longrightarrow> tsq_client s s"
| tsq_set_done: "tsq_client s (notify_all (s\<lparr>mo_done := True\<rparr>))"

definition tsq_wait_and_pop :: "nat \<Rightarrow> 'a monitor \<Rightarrow> 'a monitor \<Rightarrow> bool" where
  "tsq_wait_and_pop = worker_step"

definition tsq_step :: "'a monitor \<Rightarrow> 'a monitor \<Rightarrow> bool" where
  "tsq_step s s' \<longleftrightarrow> (\<exists>i. tsq_wait_and_pop i s s') \<or> tsq_client s s' \<or> (\<exists>i. spurious_step i s s')"

text \<open>The logger has one worker, and its items are strings; an empty string prints nothing anyway.\<close>

inductive log_client :: "string monitor \<Rightarrow> string monitor \<Rightarrow> bool" where
  log: "notify_one (enqueue msg s) s' \<Longrightarrow> \<not> mo_done s \<Longrightarrow> log_client s s'"
| destructor: "log_client s (notify_all (s\<lparr>mo_done := True\<rparr>))"

definition log_worker :: "string monitor \<Rightarrow> string monitor \<Rightarrow> bool" where
  "log_worker = worker_step 0"

definition log_step :: "string monitor \<Rightarrow> string monitor \<Rightarrow> bool" where
  "log_step s s' \<longleftrightarrow> log_worker s s' \<or> log_client s s' \<or> spurious_step 0 s s'"

definition printed :: "string monitor \<Rightarrow> string" where
  "printed s = concat (mo_out s)"

subsection \<open>The invariant\<close>

fun busy :: "'a worker \<Rightarrow> 'a list" where
  "busy (Busy x) = [x]"
| "busy _ = []"

definition in_hand :: "'a worker list \<Rightarrow> 'a multiset" where
  "in_hand ws = mset (concat (map busy ws))"

definition ready :: "'a worker list \<Rightarrow> nat" where
  "ready ws = length (filter (\<lambda>w. w = Ready) ws)"

lemma in_hand_update: "i < length ws \<Longrightarrow> in_hand (ws[i := w]) + mset (busy (ws ! i)) = in_hand ws + mset (busy w)"
  unfolding in_hand_def by (induction ws arbitrary: i) (auto simp: nth_Cons split: nat.splits)

lemma ready_update: "i < length ws \<Longrightarrow>
    ready (ws[i := w]) + (if ws ! i = Ready then 1 else 0) = ready ws + (if w = Ready then 1 else 0)"
  unfolding ready_def by (rule filter_update)

lemma in_hand_wake: "in_hand (map wake ws) = in_hand ws"
proof -
  have "busy (wake w) = busy w" for w :: "'a worker" by (cases w) simp_all
  then show ?thesis by (simp add: in_hand_def comp_def)
qed

lemma asleep_wake: "Asleep \<notin> set (map wake ws)"
proof -
  have "Asleep \<noteq> wake w" for w :: "'a worker" by (cases w) simp_all
  then show ?thesis by (force simp: in_set_conv_nth)
qed

definition monitor_inv :: "nat \<Rightarrow> 'a monitor \<Rightarrow> bool" where
  "monitor_inv n s \<longleftrightarrow> length (mo_ws s) = n \<and> mo_started s @ mo_queue s = mo_in s \<and>
     mset (mo_started s) = mset (mo_out s) + in_hand (mo_ws s) \<and>
     (Asleep \<in> set (mo_ws s) \<longrightarrow> length (mo_queue s) \<le> ready (mo_ws s) + mo_notify s) \<and>
     (mo_done s \<longrightarrow> mo_notify_all s \<or> Asleep \<notin> set (mo_ws s)) \<and>
     (Gone \<in> set (mo_ws s) \<longrightarrow> mo_done s)"

lemma init_inv: "monitor_inv n (monitor_init n)"
  by (induction n) (auto simp: monitor_inv_def monitor_init_def in_hand_def)

lemma Asleep_update: "i < length ws \<Longrightarrow> Asleep \<in> set (ws[i := w]) \<Longrightarrow> Asleep \<in> set ws \<or> w = Asleep"
  using set_update_subset_insert [of ws i w] by auto

lemma Gone_update: "i < length ws \<Longrightarrow> Gone \<in> set (ws[i := w]) \<Longrightarrow> Gone \<in> set ws \<or> w = Gone"
  using set_update_subset_insert [of ws i w] by auto

lemma worker_inv:
  assumes "worker_step i s s'" "monitor_inv n s"
  shows "monitor_inv n s'"
  using assms(1)
proof cases
  case sleeps
  with assms(2) in_hand_update [OF sleeps(2), of Asleep] show ?thesis
    by (auto simp: monitor_inv_def dest: Gone_update)
next
  case leaves
  with assms(2) in_hand_update [OF leaves(2), of Gone] show ?thesis
    by (auto simp: monitor_inv_def dest: Asleep_update)
next
  case (takes x xs)
  from in_hand_update [OF takes(2), of "Busy x"] takes(3)
  have "in_hand ((mo_ws s)[i := Busy x]) = add_mset x (in_hand (mo_ws s))" by simp
  with takes assms(2) ready_update [OF takes(2), of "Busy x"] show ?thesis
    by (auto simp: monitor_inv_def dest: Asleep_update [OF takes(2)] Gone_update [OF takes(2)])
next
  case (runs x)
  from in_hand_update [OF runs(2), of Ready] runs(3)
  have "in_hand (mo_ws s) = add_mset x (in_hand ((mo_ws s)[i := Ready]))" by simp
  with runs assms(2) ready_update [OF runs(2), of Ready] show ?thesis
    by (auto simp: monitor_inv_def dest!: Asleep_update [OF runs(2)] Gone_update [OF runs(2)])
qed

lemma spurious_inv:
  assumes "spurious_step i s s'" "monitor_inv n s"
  shows "monitor_inv n s'"
  using assms(1)
proof cases
  case spurious
  with assms(2) ready_update [OF spurious(2), of Ready] in_hand_update [OF spurious(2), of Ready] show ?thesis
    by (auto simp: monitor_inv_def dest!: Asleep_update [OF spurious(2)] Gone_update [OF spurious(2)])
qed

text \<open>A notification that was still to come reaches a waiting worker, or there is none.\<close>

lemma notify_inv:
  assumes "notify_one (s\<lparr>mo_notify := mo_notify s - 1\<rparr>) s'" "0 < mo_notify s" "monitor_inv n s"
  shows "monitor_inv n s'"
  using assms(1)
proof cases
  case (wakes i)
  then have i: "i < length (mo_ws s)" "mo_ws s ! i = Asleep" by simp_all
  with wakes(1) assms(2,3) ready_update [OF i(1), of Ready] in_hand_update [OF i(1), of Ready] show ?thesis
    by (auto simp: monitor_inv_def dest!: Asleep_update [OF i(1)] Gone_update [OF i(1)])
next
  case nobody
  with assms(3) show ?thesis by (simp add: monitor_inv_def)
qed

lemma notify_all_inv:
  assumes "monitor_inv n s" "mo_done s \<Longrightarrow> d"
  shows "monitor_inv n (notify_all (s\<lparr>mo_done := d, mo_notify_all := False\<rparr>))"
proof -
  have "Gone \<in> set (map wake (mo_ws s)) \<Longrightarrow> Gone \<in> set (mo_ws s)"
  proof -
    have "wake w = Gone \<Longrightarrow> w = Gone" for w :: "'a worker" by (cases w) simp_all
    then show "Gone \<in> set (map wake (mo_ws s)) \<Longrightarrow> Gone \<in> set (mo_ws s)" by (auto simp: image_iff) metis
  qed
  with assms asleep_wake [of "mo_ws s"] show ?thesis
    by (auto simp: monitor_inv_def notify_all_def in_hand_wake)
qed

lemma enqueue_inv: "monitor_inv n s \<Longrightarrow> monitor_inv n ((enqueue x s)\<lparr>mo_notify := mo_notify s + 1\<rparr>)"
  by (auto simp: monitor_inv_def enqueue_def)

lemma enqueue_notify_inv:
  assumes "notify_one (enqueue x s) s'" "monitor_inv n s"
  shows "monitor_inv n s'"
  by (rule notify_inv [OF _ _ enqueue_inv [OF assms(2), of x]]) (use assms(1) in \<open>simp_all add: enqueue_def\<close>)

lemma pool_inv:
  assumes "tpool_step s s'" "monitor_inv n s"
  shows "monitor_inv n s'"
proof -
  consider i where "worker_step i s s'" | i where "spurious_step i s s'" | "tp_client s s'"
    | "0 < mo_notify s" "notify_one (s\<lparr>mo_notify := mo_notify s - 1\<rparr>) s'"
    | "s' = notify_all (s\<lparr>mo_notify_all := False\<rparr>)"
    using assms(1) by (auto simp: tpool_step_def elim: tp_step.cases)
  then show ?thesis
  proof cases
    case 3
    then show ?thesis
    proof cases
      case (submit x)
      with enqueue_inv [OF assms(2)] show ?thesis by (auto simp: tp_submit_def split: if_splits)
    next
      case stop
      with assms(2) show ?thesis by (auto simp: monitor_inv_def tp_stop_def)
    qed
  next
    case 5
    with notify_all_inv [OF assms(2), of "mo_done s"] show ?thesis by simp
  qed (use assms(2) in \<open>auto intro: worker_inv spurious_inv notify_inv\<close>)
qed

definition quiet :: "'a monitor \<Rightarrow> bool" where
  "quiet s \<longleftrightarrow> mo_notify s = 0 \<and> \<not> mo_notify_all s"

lemma worker_quiet: "worker_step i s s' \<Longrightarrow> quiet s \<Longrightarrow> quiet s'"
  by (erule worker_step.cases) (simp_all add: quiet_def)

lemma spurious_quiet: "spurious_step i s s' \<Longrightarrow> quiet s \<Longrightarrow> quiet s'"
  by (erule spurious_step.cases) (simp_all add: quiet_def)

lemma enqueue_quiet: "notify_one (enqueue x s) s' \<Longrightarrow> quiet s \<Longrightarrow> quiet s'"
  by (erule notify_one.cases) (auto simp: quiet_def enqueue_def)

lemma set_done_inv:
  assumes "monitor_inv n s" "quiet s"
  shows "monitor_inv n (notify_all (s\<lparr>mo_done := True\<rparr>)) \<and> quiet (notify_all (s\<lparr>mo_done := True\<rparr>))"
proof -
  have "s\<lparr>mo_done := True, mo_notify_all := False\<rparr> = s\<lparr>mo_done := True\<rparr>"
    using assms(2) by (cases s) (simp add: quiet_def)
  with notify_all_inv [OF assms(1), of True] assms(2) show ?thesis by (simp add: quiet_def notify_all_def)
qed

lemma tsq_inv:
  assumes "tsq_step s s'" "monitor_inv n s" "quiet s"
  shows "monitor_inv n s' \<and> quiet s'"
proof -
  consider i where "worker_step i s s'" | i where "spurious_step i s s'" | "tsq_client s s'"
    using assms(1) by (auto simp: tsq_step_def tsq_wait_and_pop_def)
  then show ?thesis
  proof cases
    case 3
    then show ?thesis
    proof cases
      case (tsq_push x)
      with assms(2,3) show ?thesis by (blast intro: enqueue_notify_inv enqueue_quiet)
    next
      case (tsq_try_pop x xs)
      with assms(2,3) show ?thesis by (auto simp: monitor_inv_def quiet_def)
    next
      case tsq_set_done
      with set_done_inv [OF assms(2,3)] show ?thesis by simp
    qed (use assms(2,3) in simp)
  qed (use assms(2,3) in \<open>blast intro: worker_inv worker_quiet spurious_inv spurious_quiet\<close>)+
qed

lemma log_inv:
  assumes "log_step s s'" "monitor_inv n s" "quiet s"
  shows "monitor_inv n s' \<and> quiet s'"
proof -
  consider "worker_step 0 s s'" | "spurious_step 0 s s'" | "log_client s s'"
    using assms(1) by (auto simp: log_step_def log_worker_def)
  then show ?thesis
  proof cases
    case 3
    then show ?thesis
    proof cases
      case (log msg)
      with assms(2,3) show ?thesis by (blast intro: enqueue_notify_inv enqueue_quiet)
    next
      case destructor
      with set_done_inv [OF assms(2,3)] show ?thesis by simp
    qed
  qed (use assms(2,3) in \<open>blast intro: worker_inv worker_quiet spurious_inv spurious_quiet\<close>)+
qed

lemma pool_reach: "tpool_step\<^sup>*\<^sup>* (monitor_init n) s \<Longrightarrow> monitor_inv n s"
  by (induction rule: rtranclp_induct) (auto intro: init_inv pool_inv)

lemma init_quiet: "quiet (monitor_init n)"
  by (simp add: quiet_def monitor_init_def)

lemma tsq_reach: "tsq_step\<^sup>*\<^sup>* (monitor_init n) s \<Longrightarrow> monitor_inv n s \<and> quiet s"
  by (induction rule: rtranclp_induct) (auto intro: init_inv init_quiet dest: tsq_inv)

lemma log_reach: "log_step\<^sup>*\<^sup>* (monitor_init 1) s \<Longrightarrow> monitor_inv 1 s \<and> quiet s"
  by (induction rule: rtranclp_induct) (auto intro: init_inv init_quiet dest: log_inv)

subsection \<open>Shutdown\<close>

fun weight :: "'a worker \<Rightarrow> nat" where
  "weight Gone = 0"
| "weight Ready = 1"
| "weight Asleep = 2"
| "weight (Busy x) = 2"

text \<open>Once the flag is set, every step of a worker or a notification takes this down.\<close>

definition left_to_do :: "'a monitor \<Rightarrow> nat" where
  "left_to_do s = 3 * length (mo_queue s) + sum_list (map weight (mo_ws s)) + mo_notify s + (if mo_notify_all s then 1 else 0)"

lemma weight_update:
  "i < length ws \<Longrightarrow> sum_list (map weight (ws[i := w])) + weight (ws ! i) = sum_list (map weight ws) + weight w"
proof (induction ws arbitrary: i)
  case (Cons v ws)
  show ?case
  proof (cases i)
    case (Suc j)
    with Cons.IH [of j] Cons.prems show ?thesis by simp
  qed simp
qed simp

lemma worker_decreases:
  assumes "worker_step i s s'" "mo_done s"
  shows "left_to_do s' < left_to_do s \<and> mo_done s' \<and> mo_in s' = mo_in s"
  using assms(1)
proof cases
  case leaves
  with assms(2) weight_update [OF leaves(2), of Gone] show ?thesis by (simp add: left_to_do_def)
next
  case (takes x xs)
  with assms(2) weight_update [OF takes(2), of "Busy x"] show ?thesis by (simp add: left_to_do_def)
next
  case (runs x)
  with assms(2) weight_update [OF runs(2), of Ready] show ?thesis by (simp add: left_to_do_def)
qed (use assms(2) in simp)

lemma weight_wake: "sum_list (map weight (map wake ws)) \<le> sum_list (map weight ws)"
proof -
  have "weight (wake w) \<le> weight w" for w :: "'a worker" by (cases w) simp_all
  then show ?thesis by (simp add: comp_def sum_list_mono)
qed

lemma tp_decreases:
  assumes "tp_step s s'" "mo_done s"
  shows "left_to_do s' < left_to_do s \<and> mo_done s' \<and> mo_in s' = mo_in s"
  using assms(1)
proof cases
  case (tp_worker i)
  with worker_decreases assms(2) show ?thesis by blast
next
  case tp_notify_one
  from tp_notify_one(2) show ?thesis
  proof cases
    case (wakes i)
    then have "i < length (mo_ws s)" "mo_ws s ! i = Asleep" by simp_all
    with wakes(1) assms(2) tp_notify_one(1) weight_update [of i "mo_ws s" Ready] show ?thesis
      by (simp add: left_to_do_def)
  qed (use tp_notify_one assms(2) in \<open>simp add: left_to_do_def\<close>)
next
  case tp_notify_all
  with assms(2) weight_wake [of "mo_ws s"] show ?thesis by (simp add: left_to_do_def notify_all_def)
qed

lemma not_gone:
  assumes "set ws \<noteq> {Gone}" "ws \<noteq> []"
  obtains i where "i < length ws" "ws ! i \<noteq> Gone"
proof -
  have "set ws \<subseteq> {Gone} \<Longrightarrow> set ws = {Gone}" using assms(2) by (cases ws) auto
  with assms(1) obtain w where "w \<in> set ws" "w \<noteq> Gone" by blast
  with that show thesis by (auto simp: in_set_conv_nth)
qed

lemma worker_can_move:
  "i < length (mo_ws s) \<Longrightarrow> mo_ws s ! i = Ready \<or> (\<exists>x. mo_ws s ! i = Busy x) \<Longrightarrow> \<exists>s'. worker_step i s s'"
  by (cases "mo_queue s"; cases "mo_done s") (auto intro: worker_step.intros)

text \<open>Workers that have not left can move, or a notification is on its way, when there is something to do.\<close>

lemma no_lost_wakeup:
  assumes "monitor_inv n s" "i < n" "mo_ws s ! i \<noteq> Gone" "mo_queue s \<noteq> [] \<or> mo_done s"
  shows "(\<exists>j s'. worker_step j s s') \<or> 0 < mo_notify s \<or> mo_notify_all s"
proof (cases "\<exists>j < n. mo_ws s ! j = Ready \<or> (\<exists>x. mo_ws s ! j = Busy x)")
  case True
  with assms(1) worker_can_move show ?thesis by (auto simp: monitor_inv_def)
next
  case False
  have n: "length (mo_ws s) = n" using assms(1) by (simp add: monitor_inv_def)
  from False assms(2,3) have "mo_ws s ! i = Asleep" by (cases "mo_ws s ! i") auto
  then have a: "Asleep \<in> set (mo_ws s)" using n assms(2) by (metis nth_mem)
  have "\<forall>w\<in>set (mo_ws s). w \<noteq> Ready" using False n by (metis in_set_conv_nth)
  then have "ready (mo_ws s) = 0" by (simp add: ready_def filter_empty_conv)
  with a assms(1,4) show ?thesis by (auto simp: monitor_inv_def)
qed

definition gone_empty :: "'a monitor \<Rightarrow> bool" where
  "gone_empty s \<longleftrightarrow> (Gone \<in> set (mo_ws s) \<longrightarrow> mo_done s \<and> mo_queue s = [])"

lemma worker_gone_empty: "worker_step i s s' \<Longrightarrow> gone_empty s \<Longrightarrow> gone_empty s'"
  by (erule worker_step.cases) (auto simp: gone_empty_def dest!: Gone_update)

lemma spurious_gone_empty: "spurious_step i s s' \<Longrightarrow> gone_empty s \<Longrightarrow> gone_empty s'"
  by (erule spurious_step.cases) (auto simp: gone_empty_def dest!: Gone_update)

lemma notify_gone_empty: "notify_one s s' \<Longrightarrow> gone_empty s \<Longrightarrow> gone_empty s'"
  by (erule notify_one.cases) (auto simp: gone_empty_def dest!: Gone_update)

lemma Gone_wake: "Gone \<in> set (map wake ws) \<Longrightarrow> Gone \<in> set ws"
proof -
  have "Gone = wake w \<Longrightarrow> Gone = w" for w :: "'a worker" by (cases w) simp_all
  then show "Gone \<in> set (map wake ws) \<Longrightarrow> Gone \<in> set ws" by (auto simp: image_iff)
qed

lemma notify_all_gone_empty: "gone_empty s \<Longrightarrow> gone_empty (notify_all s)"
  using Gone_wake [of "mo_ws s"] by (auto simp: gone_empty_def notify_all_def)

lemma pool_gone_empty:
  assumes "tpool_step s s'" "gone_empty s"
  shows "gone_empty s'"
proof -
  consider i where "worker_step i s s'" | i where "spurious_step i s s'" | "tp_client s s'"
    | "notify_one (s\<lparr>mo_notify := mo_notify s - 1\<rparr>) s'" | "s' = notify_all (s\<lparr>mo_notify_all := False\<rparr>)"
    using assms(1) by (auto simp: tpool_step_def elim: tp_step.cases)
  then show ?thesis
  proof cases
    case 3
    then show ?thesis
      by cases (use assms(2) in \<open>auto simp: gone_empty_def tp_submit_def tp_stop_def enqueue_def split: if_splits\<close>)
  next
    case 4
    have "gone_empty (s\<lparr>mo_notify := mo_notify s - 1\<rparr>)" using assms(2) by (simp add: gone_empty_def)
    with 4 show ?thesis by (rule notify_gone_empty)
  next
    case 5
    have "gone_empty (s\<lparr>mo_notify_all := False\<rparr>)" using assms(2) by (simp add: gone_empty_def)
    with 5 show ?thesis by (simp add: notify_all_gone_empty)
  qed (use assms(2) in \<open>auto intro: worker_gone_empty spurious_gone_empty\<close>)
qed

lemma init_gone_empty: "gone_empty (monitor_init n)"
  by (simp add: gone_empty_def monitor_init_def)

lemma pool_reach_gone: "tpool_step\<^sup>*\<^sup>* (monitor_init n) s \<Longrightarrow> gone_empty s"
  by (induction rule: rtranclp_induct) (auto intro: init_gone_empty pool_gone_empty)

lemma tp_pool: "tp_step\<^sup>*\<^sup>* s t \<Longrightarrow> tpool_step\<^sup>*\<^sup>* s t"
  by (induction rule: rtranclp_induct) (auto simp: tpool_step_def intro: rtranclp.rtrancl_into_rtrancl)

lemma all_gone_finished:
  assumes "monitor_inv n s" "0 < n" "gone_empty s" "set (mo_ws s) = {Gone}"
  shows "mo_queue s = [] \<and> mset (mo_out s) = mset (mo_in s)"
proof -
  have "\<forall>w\<in>set (mo_ws s). busy w = []" unfolding assms(4) by simp
  then have "concat (map busy (mo_ws s)) = []" by simp
  then have "in_hand (mo_ws s) = {#}" by (simp add: in_hand_def)
  moreover have q: "mo_queue s = []" using assms(3,4) unfolding gone_empty_def by blast
  moreover have "mo_started s @ mo_queue s = mo_in s" "mset (mo_started s) = mset (mo_out s) + in_hand (mo_ws s)"
    using assms(1) unfolding monitor_inv_def by blast+
  ultimately show ?thesis by (metis append_Nil2 empty_neutral(2))
qed

lemma stopped_runs:
  assumes "mo_done s"
  shows "tp_step\<^sup>*\<^sup>* s t \<Longrightarrow> mo_done t \<and> mo_in t = mo_in s"
  by (induction rule: rtranclp_induct) (use assms tp_decreases in fastforce)+

lemma stopped_ends:
  assumes "mo_done s"
  shows "\<exists>t. tp_step\<^sup>*\<^sup>* s t \<and> \<not> (\<exists>u. tp_step t u)"
proof -
  have "\<exists>t. tp_step\<^sup>*\<^sup>* s t \<and> mo_done t \<and> \<not> (\<exists>u. tp_step t u)"
    by (rule reaches_end [where I = mo_done and rank = left_to_do, OF assms]) (use tp_decreases in blast)+
  then show ?thesis by blast
qed

lemma stopped_bound:
  assumes "mo_done s" "(tp_step ^^ k) s t"
  shows "k + left_to_do t \<le> left_to_do s \<and> mo_done t"
  using assms(2)
proof (induction k arbitrary: t)
  case (Suc k)
  then obtain u where u: "(tp_step ^^ k) s u" "tp_step u t" by auto
  from Suc.IH [OF u(1)] tp_decreases [OF u(2)] show ?case by auto
qed (use assms(1) in simp)

lemma tp_moves:
  assumes "0 < n" "monitor_inv n t" "gone_empty t" "mo_queue t \<noteq> [] \<or> mo_done t \<and> set (mo_ws t) \<noteq> {Gone}"
  shows "\<exists>u. tp_step t u"
proof -
  have l: "length (mo_ws t) = n" using assms(2) by (simp add: monitor_inv_def)
  have "\<exists>i<n. mo_ws t ! i \<noteq> Gone"
  proof (cases "mo_queue t = []")
    case True
    with assms(4) not_gone [of "mo_ws t"] l assms(1) show ?thesis by (metis length_greater_0_conv)
  next
    case False
    with assms(3) l assms(1) show ?thesis by (metis gone_empty_def nth_mem)
  qed
  then obtain i where "i < n" "mo_ws t ! i \<noteq> Gone" by blast
  then have "(\<exists>j u. worker_step j t u) \<or> 0 < mo_notify t \<or> mo_notify_all t"
    using no_lost_wakeup [OF assms(2)] assms(4) by blast
  then consider j u where "worker_step j t u" | "0 < mo_notify t" | "mo_notify_all t"
    by (elim disjE exE)
  then show ?thesis
  proof cases
    case 2
    have "\<exists>u. notify_one (t\<lparr>mo_notify := mo_notify t - 1\<rparr>) u"
    proof (cases "Asleep \<in> set (mo_ws t)")
      case True
      then obtain j where "j < length (mo_ws t)" "mo_ws t ! j = Asleep" by (auto simp: in_set_conv_nth)
      with wakes [of j "t\<lparr>mo_notify := mo_notify t - 1\<rparr>"] show ?thesis by auto
    next
      case False
      with nobody [of "t\<lparr>mo_notify := mo_notify t - 1\<rparr>"] show ?thesis by auto
    qed
    with 2 show ?thesis by (blast intro: tp_notify_one)
  qed (blast intro: tp_worker tp_notify_all)+
qed

lemma tp_final:
  assumes "0 < n" "tpool_step\<^sup>*\<^sup>* (monitor_init n) s" "mo_done s" "tp_step\<^sup>*\<^sup>* s t" "\<not> (\<exists>u. tp_step t u)"
  shows "set (mo_ws t) = {Gone} \<and> mo_queue t = [] \<and> mset (mo_out t) = mset (mo_in s)"
proof -
  have "tpool_step\<^sup>*\<^sup>* (monitor_init n) t" using assms(2) tp_pool [OF assms(4)] by simp
  then have t: "monitor_inv n t" "gone_empty t" using pool_reach pool_reach_gone by blast+
  have d: "mo_done t" "mo_in t = mo_in s" using stopped_runs [OF assms(3,4)] by blast+
  with tp_moves [OF assms(1) t] assms(5) have "set (mo_ws t) = {Gone}" by blast
  with all_gone_finished [OF t(1) assms(1) t(2)] d show ?thesis by simp
qed

text \<open>C11: \<open>ThreadPool\<close>: with at least one worker, in every reachable state tasks are taken off the
  queue in the order they were submitted, each once, and while tasks wait some worker can move or
  a notification is on its way, unless all have left: no wake-up is lost. From every state in
  which the destructor has set \<open>stop_\<close> the workers take at most \<open>left_to_do\<close> further steps, and
  however they go, at the end all have left and every task that was submitted has run once.\<close>

theorem thread_pool_runs_every_task:
  assumes "0 < n" "tpool_step\<^sup>*\<^sup>* (monitor_init n) s"
  shows "mo_started s @ mo_queue s = mo_in s \<and>
    (mo_queue s \<noteq> [] \<longrightarrow> (\<exists>t. tp_step s t)) \<and>
    (mo_done s \<longrightarrow> (\<exists>t. tp_step\<^sup>*\<^sup>* s t \<and> \<not> (\<exists>u. tp_step t u)) \<and> (\<forall>k t. (tp_step ^^ k) s t \<longrightarrow> k \<le> left_to_do s) \<and>
      (\<forall>t. tp_step\<^sup>*\<^sup>* s t \<and> \<not> (\<exists>u. tp_step t u) \<longrightarrow>
         set (mo_ws t) = {Gone} \<and> mo_queue t = [] \<and> mset (mo_out t) = mset (mo_in s)))"
proof (intro conjI impI allI)
  have inv: "monitor_inv n s" "gone_empty s" using pool_reach [OF assms(2)] pool_reach_gone [OF assms(2)] by blast+
  show "mo_started s @ mo_queue s = mo_in s" using inv(1) by (simp add: monitor_inv_def)
  show "\<exists>t. tp_step s t" if "mo_queue s \<noteq> []" using tp_moves [OF assms(1) inv] that by blast
  show "k \<le> left_to_do s" if "mo_done s" "(tp_step ^^ k) s t" for k t
    using stopped_bound [OF that] by simp
  show "\<exists>t. tp_step\<^sup>*\<^sup>* s t \<and> \<not> (\<exists>u. tp_step t u)" if "mo_done s" using stopped_ends [OF that] .
  show "set (mo_ws t) = {Gone}" "mo_queue t = []" "mset (mo_out t) = mset (mo_in s)"
    if "mo_done s" "tp_step\<^sup>*\<^sup>* s t \<and> \<not> (\<exists>u. tp_step t u)" for t
    using tp_final [OF assms that(1)] that(2) by blast+
qed

lemma thread_pool_runs_every_task_witness:
  "\<exists>s. tpool_step\<^sup>*\<^sup>* (monitor_init 2) s \<and> mo_in s = [7 :: int] \<and>
     (\<exists>t. tp_step\<^sup>*\<^sup>* s t \<and> mset (mo_out t) = {#7#})"
proof -
  let ?i = "monitor_init 2 :: int monitor"
  obtain s1 where 1: "tp_submit 7 ?i = Some s1" "mo_in s1 = [7]" "\<not> mo_done s1"
    by (simp add: tp_submit_def monitor_init_def enqueue_def)
  then have "tpool_step ?i s1" "tpool_step s1 (tp_stop s1)"
    by (auto simp: tpool_step_def intro: tp_client.intros)
  then have r: "tpool_step\<^sup>*\<^sup>* ?i (tp_stop s1)" by (meson converse_rtranclp_into_rtranclp rtranclp.rtrancl_refl)
  have d: "mo_done (tp_stop s1)" "mo_in (tp_stop s1) = [7]" using 1 by (simp_all add: tp_stop_def)
  from thread_pool_runs_every_task [OF _ r] d obtain t where "tp_step\<^sup>*\<^sup>* (tp_stop s1) t" "mset (mo_out t) = mset [7]"
    by (metis zero_less_numeral)
  with r d show ?thesis by (intro exI [of _ "tp_stop s1"]) auto
qed

subsection \<open>The queue and the logger\<close>

lemma worker_only_decreases:
  assumes "mo_done s"
  shows "\<exists>t. (worker_step j)\<^sup>*\<^sup>* s t \<and> \<not> (\<exists>u. worker_step j t u) \<and> mo_done t \<and> mo_in t = mo_in s"
proof -
  have "\<exists>t. (worker_step j)\<^sup>*\<^sup>* s t \<and> (mo_done t \<and> mo_in t = mo_in s) \<and> \<not> (\<exists>u. worker_step j t u)"
    by (rule reaches_end [where I = "\<lambda>t. mo_done t \<and> mo_in t = mo_in s" and rank = left_to_do])
      (use assms worker_decreases in \<open>blast | metis\<close>)+
  then show ?thesis by blast
qed

definition in_order :: "'a monitor \<Rightarrow> bool" where
  "in_order s \<longleftrightarrow> (\<exists>w. mo_ws s = [w] \<and> mo_started s = mo_out s @ busy w)"

lemma worker_in_order: "worker_step 0 s s' \<Longrightarrow> in_order s \<Longrightarrow> in_order s'"
  by (erule worker_step.cases) (auto simp: in_order_def)

lemma spurious_in_order: "spurious_step 0 s s' \<Longrightarrow> in_order s \<Longrightarrow> in_order s'"
  by (erule spurious_step.cases) (auto simp: in_order_def)

lemma log_accepts:
  assumes "notify_one (enqueue x s) s'" "\<not> mo_done s" "in_order s" "gone_empty s"
  shows "in_order s' \<and> gone_empty s'"
proof -
  have "gone_empty (enqueue x s)" using assms(2,4) by (auto simp: gone_empty_def enqueue_def)
  with assms(1) have "gone_empty s'" by (rule notify_gone_empty)
  moreover have "in_order s'" using assms(1) by cases (use assms(3) in \<open>auto simp: in_order_def enqueue_def\<close>)
  ultimately show ?thesis by blast
qed

lemma log_closes:
  assumes "in_order s" "gone_empty s"
  shows "in_order (notify_all (s\<lparr>mo_done := True\<rparr>)) \<and> gone_empty (notify_all (s\<lparr>mo_done := True\<rparr>))"
proof -
  have "gone_empty (s\<lparr>mo_done := True\<rparr>)" using assms(2) by (auto simp: gone_empty_def)
  then have "gone_empty (notify_all (s\<lparr>mo_done := True\<rparr>))" by (rule notify_all_gone_empty)
  moreover have "busy (wake w) = busy w" for w :: "'a worker" by (cases w) simp_all
  then have "in_order (notify_all (s\<lparr>mo_done := True\<rparr>))" using assms(1) by (auto simp: in_order_def notify_all_def)
  ultimately show ?thesis by blast
qed

lemma log_in_order:
  assumes "log_step s s'" "in_order s \<and> gone_empty s"
  shows "in_order s' \<and> gone_empty s'"
proof -
  consider "worker_step 0 s s'" | "spurious_step 0 s s'" | "log_client s s'"
    using assms(1) by (auto simp: log_step_def log_worker_def)
  then show ?thesis
  proof cases
    case 3
    then show ?thesis
    proof cases
      case (log msg)
      with assms(2) log_accepts [OF log] show ?thesis by simp
    next
      case destructor
      with assms(2) log_closes [of s] show ?thesis by simp
    qed
  qed (use assms(2) worker_in_order worker_gone_empty spurious_in_order spurious_gone_empty in blast)+
qed

lemma log_reach_order: "log_step\<^sup>*\<^sup>* (monitor_init 1) s \<Longrightarrow> in_order s \<and> gone_empty s"
proof (induction rule: rtranclp_induct)
  case base
  show ?case by (simp add: in_order_def gone_empty_def monitor_init_def)
qed (blast dest: log_in_order)

lemma log_ended:
  assumes "log_step\<^sup>*\<^sup>* (monitor_init 1) t" "mo_ws t = [Gone]"
  shows "printed t = concat (mo_in t)"
  using log_reach [OF assms(1)] log_reach_order [OF assms(1)] assms(2)
  by (auto simp: monitor_inv_def in_order_def gone_empty_def printed_def)

lemma log_prefix:
  assumes "log_step\<^sup>*\<^sup>* (monitor_init 1) l"
  shows "\<exists>rest. concat (mo_in l) = printed l @ rest"
proof -
  obtain w where "mo_started l = mo_out l @ busy w" "mo_started l @ mo_queue l = mo_in l"
    using log_reach [OF assms] log_reach_order [OF assms] unfolding monitor_inv_def in_order_def by blast
  then have "concat (mo_in l) = printed l @ concat (busy w @ mo_queue l)"
    unfolding printed_def concat_append [symmetric] by simp
  then show ?thesis ..
qed

lemma log_finishes:
  assumes "log_step\<^sup>*\<^sup>* (monitor_init 1) l" "mo_done l"
  shows "\<exists>t. log_worker\<^sup>*\<^sup>* l t \<and> mo_ws t = [Gone] \<and> printed t = concat (mo_in l)"
proof -
  obtain t where t: "(worker_step 0)\<^sup>*\<^sup>* l t" "\<not> (\<exists>u. worker_step 0 t u)" "mo_done t" "mo_in t = mo_in l"
    using worker_only_decreases [OF assms(2)] by blast
  have "log_step\<^sup>*\<^sup>* l t" using t(1)
    by (induction rule: rtranclp_induct) (auto simp: log_step_def log_worker_def intro: rtranclp.rtrancl_into_rtrancl)
  with assms(1) have r: "log_step\<^sup>*\<^sup>* (monitor_init 1) t" by simp
  obtain w where w: "mo_ws t = [w]" using log_reach_order [OF r] by (auto simp: in_order_def)
  have "w = Gone"
  proof (rule ccontr)
    assume "w \<noteq> Gone"
    with no_lost_wakeup [of 1 t 0] log_reach [OF r] w t(3) obtain j u where "worker_step j t u"
      by (auto simp: quiet_def)
    moreover from this w have "j = 0" by (cases rule: worker_step.cases) auto
    ultimately show False using t(2) by blast
  qed
  with w log_ended [OF r] t(1,4) show ?thesis by (auto simp: log_worker_def)
qed

text \<open>C12: \<open>ThreadSafeQueue\<close> hands out its items in the order of the pushes, each once, \<open>wait_and_pop\<close>
  returns false only after \<open>set_done\<close>, and no wake-up is lost: while there are items, or the flag
  is set, some consumer that has not left can move. \<open>AsyncLogger\<close> prints its messages in the order
  of the \<open>log\<close> calls, and its destructor, which sets the flag and joins the worker, returns only when
  everything that was logged has been printed, and does return.\<close>

theorem queue_and_logger_in_order:
  assumes "tsq_step\<^sup>*\<^sup>* (monitor_init n) q" "log_step\<^sup>*\<^sup>* (monitor_init 1) l"
  shows "mo_started q @ mo_queue q = mo_in q \<and> mset (mo_started q) = mset (mo_out q) + in_hand (mo_ws q) \<and>
    (Gone \<in> set (mo_ws q) \<longrightarrow> mo_done q) \<and>
    (\<forall>i<n. mo_ws q ! i \<noteq> Gone \<and> (mo_queue q \<noteq> [] \<or> mo_done q) \<longrightarrow> (\<exists>j s. tsq_wait_and_pop j q s)) \<and>
    (\<exists>rest. concat (mo_in l) = printed l @ rest) \<and>
    (mo_ws l = [Gone] \<longrightarrow> printed l = concat (mo_in l)) \<and>
    (mo_done l \<longrightarrow> (\<exists>t. log_worker\<^sup>*\<^sup>* l t \<and> mo_ws t = [Gone] \<and> printed t = concat (mo_in l)))"
proof (intro conjI allI impI)
  have q: "monitor_inv n q" "quiet q" using tsq_reach [OF assms(1)] by blast+
  show "mo_started q @ mo_queue q = mo_in q" "mset (mo_started q) = mset (mo_out q) + in_hand (mo_ws q)"
    using q by (auto simp: monitor_inv_def)
  show "mo_done q" if "Gone \<in> set (mo_ws q)" using q(1) that by (simp add: monitor_inv_def)
  show "\<exists>j s. tsq_wait_and_pop j q s" if "i < n" "mo_ws q ! i \<noteq> Gone \<and> (mo_queue q \<noteq> [] \<or> mo_done q)" for i
    using no_lost_wakeup [OF q(1) that(1)] that(2) q(2) by (auto simp: quiet_def tsq_wait_and_pop_def)
  show "\<exists>rest. concat (mo_in l) = printed l @ rest" by (rule log_prefix [OF assms(2)])
  show "printed l = concat (mo_in l)" if "mo_ws l = [Gone]" using log_ended [OF assms(2) that] .
  show "\<exists>t. log_worker\<^sup>*\<^sup>* l t \<and> mo_ws t = [Gone] \<and> printed t = concat (mo_in l)" if "mo_done l"
    using log_finishes [OF assms(2) that] .
qed

lemma queue_and_logger_in_order_witness:
  "\<exists>q l. tsq_step\<^sup>*\<^sup>* (monitor_init 1) q \<and> log_step\<^sup>*\<^sup>* (monitor_init 1) l \<and> mo_in q = [3 :: int] \<and> mo_in l = [''a'', ''b''] \<and>
     (\<exists>t. log_worker\<^sup>*\<^sup>* l t \<and> printed t = ''ab'')"
proof -
  let ?q = "enqueue 3 (monitor_init 1 :: int monitor)"
  let ?l = "enqueue ''b'' (enqueue ''a'' (monitor_init 1))"
  let ?d = "notify_all (?l\<lparr>mo_done := True\<rparr>)"
  have n: "notify_one ?q ?q" "notify_one (enqueue ''a'' (monitor_init 1)) (enqueue ''a'' (monitor_init 1))" "notify_one ?l ?l"
    by (auto intro!: nobody simp: enqueue_def monitor_init_def)
  have "tsq_step (monitor_init 1) ?q" using n by (auto simp: tsq_step_def intro: tsq_push)
  then have q: "tsq_step\<^sup>*\<^sup>* (monitor_init 1) ?q" by blast
  have "log_client (monitor_init 1) (enqueue ''a'' (monitor_init 1))" "log_client (enqueue ''a'' (monitor_init 1)) ?l"
    using n by (intro log; simp add: enqueue_def monitor_init_def)+
  moreover have "log_client ?l ?d" by (rule destructor)
  ultimately have "log_step (monitor_init 1) (enqueue ''a'' (monitor_init 1))" "log_step (enqueue ''a'' (monitor_init 1)) ?l" "log_step ?l ?d"
    unfolding log_step_def by blast+
  then have l: "log_step\<^sup>*\<^sup>* (monitor_init 1) ?d" by (meson rtranclp.rtrancl_refl rtranclp.rtrancl_into_rtrancl)
  have "mo_done ?d" "mo_in ?d = [''a'', ''b'']" "mo_in ?q = [3]"
    by (simp_all add: notify_all_def enqueue_def monitor_init_def)
  with queue_and_logger_in_order [OF q l] q l show ?thesis
    by (intro exI [of _ ?q] exI [of _ ?d]) auto
qed

end
