(* ===== verification/Waiting_Threads.thy ===== *)
theory Waiting_Threads
  imports Fifo_Queue
begin

section \<open>Threads that wait for a lock or for room\<close>

text \<open>
  \<open>ReaderWriterLock\<close> (\<open>topics/concurrency/reader_writer_lock.cpp\<close>) and \<open>BoundedBlockingQueue\<close>
  (\<open>bounded_blocking_queue.cpp\<close>). The state has a program counter for every thread; a critical
  section is one step, a waiting thread sleeps until a notification or a spurious wake-up lets it
  test its condition again.
\<close>

subsection \<open>\<open>ReaderWriterLock\<close>\<close>

datatype rw_pc = Outside | R_test | R_asleep | R_in | W_test | W_asleep | W_in

record rw_lock =
  readers :: int
  writing :: bool
  rw_ts :: "rw_pc list"

definition rw_init :: "nat \<Rightarrow> rw_lock" where
  "rw_init n = \<lparr>readers = 0, writing = False, rw_ts = replicate n Outside\<rparr>"

fun rw_wake :: "rw_pc \<Rightarrow> rw_pc" where
  "rw_wake R_asleep = R_test"
| "rw_wake W_asleep = W_test"
| "rw_wake t = t"

definition rw_notify_all :: "rw_lock \<Rightarrow> rw_lock" where
  "rw_notify_all s = s\<lparr>rw_ts := map rw_wake (rw_ts s)\<rparr>"

definition rw_set :: "nat \<Rightarrow> rw_pc \<Rightarrow> rw_lock \<Rightarrow> rw_lock" where
  "rw_set i t s = s\<lparr>rw_ts := (rw_ts s)[i := t]\<rparr>"

text \<open>The test of the wait loop and what follows it.\<close>

definition lock_read :: "nat \<Rightarrow> rw_lock \<Rightarrow> rw_lock" where
  "lock_read i s = (if \<not> writing s then rw_set i R_in (s\<lparr>readers := readers s + 1\<rparr>) else rw_set i R_asleep s)"

definition unlock_read :: "nat \<Rightarrow> rw_lock \<Rightarrow> rw_lock" where
  "unlock_read i s = (let s = rw_set i Outside (s\<lparr>readers := readers s - 1\<rparr>)
     in if readers s = 0 then rw_notify_all s else s)"

definition lock_write :: "nat \<Rightarrow> rw_lock \<Rightarrow> rw_lock" where
  "lock_write i s = (if \<not> writing s \<and> readers s = 0 then rw_set i W_in (s\<lparr>writing := True\<rparr>) else rw_set i W_asleep s)"

definition unlock_write :: "nat \<Rightarrow> rw_lock \<Rightarrow> rw_lock" where
  "unlock_write i s = rw_notify_all (rw_set i Outside (s\<lparr>writing := False\<rparr>))"

text \<open>A thread enters and leaves by a guard: it locks for reading or writing, and unlocks the same way.\<close>

inductive guard_step :: "nat \<Rightarrow> rw_lock \<Rightarrow> rw_lock \<Rightarrow> bool" for i where
  read_guard: "i < length (rw_ts s) \<Longrightarrow> rw_ts s ! i = Outside \<Longrightarrow> guard_step i s (rw_set i R_test s)"
| write_guard: "i < length (rw_ts s) \<Longrightarrow> rw_ts s ! i = Outside \<Longrightarrow> guard_step i s (rw_set i W_test s)"
| read_lock: "i < length (rw_ts s) \<Longrightarrow> rw_ts s ! i = R_test \<Longrightarrow> guard_step i s (lock_read i s)"
| read_unlock: "i < length (rw_ts s) \<Longrightarrow> rw_ts s ! i = R_in \<Longrightarrow> guard_step i s (unlock_read i s)"
| write_lock: "i < length (rw_ts s) \<Longrightarrow> rw_ts s ! i = W_test \<Longrightarrow> guard_step i s (lock_write i s)"
| write_unlock: "i < length (rw_ts s) \<Longrightarrow> rw_ts s ! i = W_in \<Longrightarrow> guard_step i s (unlock_write i s)"

text \<open>A thread that is asleep may wake up without a notification.\<close>

inductive rw_spurious :: "nat \<Rightarrow> rw_lock \<Rightarrow> rw_lock \<Rightarrow> bool" for i where
  "i < length (rw_ts s) \<Longrightarrow> rw_ts s ! i = R_asleep \<or> rw_ts s ! i = W_asleep \<Longrightarrow>
    rw_spurious i s (rw_set i (rw_wake (rw_ts s ! i)) s)"

definition rw_step :: "rw_lock \<Rightarrow> rw_lock \<Rightarrow> bool" where
  "rw_step s s' \<longleftrightarrow> (\<exists>i. guard_step i s s' \<or> rw_spurious i s s')"

definition inside :: "rw_pc \<Rightarrow> rw_lock \<Rightarrow> nat" where
  "inside t s = length (filter (\<lambda>u. u = t) (rw_ts s))"

text \<open>Who is inside, and why a thread sleeps.\<close>

definition rw_inv :: "rw_lock \<Rightarrow> bool" where
  "rw_inv s \<longleftrightarrow> readers s = int (inside R_in s) \<and> inside W_in s = (if writing s then 1 else 0) \<and>
     (writing s \<longrightarrow> readers s = 0) \<and> (R_asleep \<in> set (rw_ts s) \<longrightarrow> writing s) \<and>
     (W_asleep \<in> set (rw_ts s) \<longrightarrow> writing s \<or> readers s \<noteq> 0)"

lemma inside_set: "i < length (rw_ts s) \<Longrightarrow>
    inside t (rw_set i u s) + (if rw_ts s ! i = t then 1 else 0) = inside t s + (if u = t then 1 else 0)"
  using filter_update [of i "rw_ts s" "\<lambda>u. u = t" u] by (simp add: inside_def rw_set_def)

lemma inside_fields [simp]: "inside t (s\<lparr>readers := r\<rparr>) = inside t s" "inside t (s\<lparr>writing := w\<rparr>) = inside t s"
  by (simp_all add: inside_def)

lemma rw_set_fields [simp]: "readers (rw_set i t s) = readers s" "writing (rw_set i t s) = writing s"
    "length (rw_ts (rw_set i t s)) = length (rw_ts s)" "rw_ts (s\<lparr>readers := r\<rparr>) = rw_ts s" "rw_ts (s\<lparr>writing := w\<rparr>) = rw_ts s"
  by (simp_all add: rw_set_def)

lemma asleep_set: "t \<in> set (rw_ts (rw_set i u s)) \<Longrightarrow> t \<in> set (rw_ts s) \<or> t = u"
  using set_update_subset_insert [of "rw_ts s" i u] by (auto simp: rw_set_def)

lemma wake_iff: "rw_wake u = R_in \<longleftrightarrow> u = R_in" "rw_wake u = W_in \<longleftrightarrow> u = W_in" "rw_wake u \<noteq> R_asleep" "rw_wake u \<noteq> W_asleep"
  by (cases u; simp)+

lemma notify_facts [simp]:
  "inside R_in (rw_notify_all s) = inside R_in s" "inside W_in (rw_notify_all s) = inside W_in s"
  "readers (rw_notify_all s) = readers s" "writing (rw_notify_all s) = writing s"
  "R_asleep \<notin> set (rw_ts (rw_notify_all s))" "W_asleep \<notin> set (rw_ts (rw_notify_all s))"
  using wake_iff by (auto simp: inside_def rw_notify_all_def filter_map comp_def dest: sym)

lemma guard_inv:
  assumes "guard_step i s s'" "rw_inv s"
  shows "rw_inv s'"
  using assms(1)
proof cases
  case read_guard
  with assms(2) inside_set [OF read_guard(2), of R_in R_test] inside_set [OF read_guard(2), of W_in R_test] show ?thesis
    by (auto simp: rw_inv_def dest!: asleep_set)
next
  case write_guard
  with assms(2) inside_set [OF write_guard(2), of R_in W_test] inside_set [OF write_guard(2), of W_in W_test] show ?thesis
    by (auto simp: rw_inv_def dest!: asleep_set)
next
  case read_lock
  then have i: "i < length (rw_ts (s\<lparr>readers := r\<rparr>))" for r by simp
  have "inside R_in (rw_set i R_in (s\<lparr>readers := r\<rparr>)) = inside R_in s + 1" "inside W_in (rw_set i R_in (s\<lparr>readers := r\<rparr>)) = inside W_in s" for r
    using inside_set [OF i [of r], of R_in R_in] inside_set [OF i [of r], of W_in R_in] read_lock(3) by simp_all
  moreover have "inside R_in (rw_set i R_asleep s) = inside R_in s" "inside W_in (rw_set i R_asleep s) = inside W_in s"
    using inside_set [OF read_lock(2), of R_in R_asleep] inside_set [OF read_lock(2), of W_in R_asleep] read_lock(3) by simp_all
  ultimately show ?thesis
    using assms(2) unfolding read_lock(1) lock_read_def by (auto simp: rw_inv_def dest!: asleep_set)
next
  case read_unlock
  then have i: "i < length (rw_ts (s\<lparr>readers := readers s - 1\<rparr>))" by simp
  have c: "inside R_in (rw_set i Outside (s\<lparr>readers := readers s - 1\<rparr>)) + 1 = inside R_in s"
      "inside W_in (rw_set i Outside (s\<lparr>readers := readers s - 1\<rparr>)) = inside W_in s"
    using inside_set [OF i, of R_in Outside] inside_set [OF i, of W_in Outside] read_unlock(3) by simp_all
  moreover have "\<not> writing s" using assms(2) c(1) by (auto simp: rw_inv_def)
  ultimately show ?thesis
    using assms(2) unfolding read_unlock(1) unlock_read_def Let_def by (auto simp: rw_inv_def dest!: asleep_set)
next
  case write_lock
  then have i: "i < length (rw_ts (s\<lparr>writing := True\<rparr>))" by simp
  have "inside R_in (rw_set i W_in (s\<lparr>writing := True\<rparr>)) = inside R_in s"
      "inside W_in (rw_set i W_in (s\<lparr>writing := True\<rparr>)) = inside W_in s + 1"
    using inside_set [OF i, of R_in W_in] inside_set [OF i, of W_in W_in] write_lock(3) by simp_all
  moreover have "inside R_in (rw_set i W_asleep s) = inside R_in s" "inside W_in (rw_set i W_asleep s) = inside W_in s"
    using inside_set [OF write_lock(2), of R_in W_asleep] inside_set [OF write_lock(2), of W_in W_asleep] write_lock(3) by simp_all
  ultimately show ?thesis
    using assms(2) unfolding write_lock(1) lock_write_def by (auto simp: rw_inv_def dest!: asleep_set)
next
  case write_unlock
  then have i: "i < length (rw_ts (s\<lparr>writing := False\<rparr>))" by simp
  have c: "inside W_in (rw_set i Outside (s\<lparr>writing := False\<rparr>)) + 1 = inside W_in s"
      "inside R_in (rw_set i Outside (s\<lparr>writing := False\<rparr>)) = inside R_in s"
    using inside_set [OF i, of R_in Outside] inside_set [OF i, of W_in Outside] write_unlock(3) by simp_all
  with assms(2) show ?thesis
    unfolding write_unlock(1) unlock_write_def by (auto simp: rw_inv_def split: if_splits)
qed

lemma rw_spurious_inv:
  assumes "rw_spurious i s s'" "rw_inv s"
  shows "rw_inv s'"
  using assms(1)
proof cases
  case 1
  note w = wake_iff(3,4) [of "rw_ts s ! i"]
  have "inside t (rw_set i (rw_wake (rw_ts s ! i)) s) = inside t s" if "t = R_in \<or> t = W_in" for t
    using inside_set [OF 1(2), of t "rw_wake (rw_ts s ! i)"] wake_iff(1,2) [of "rw_ts s ! i"] that by auto
  with 1(1,2) assms(2) show ?thesis
    using w by (auto simp: rw_inv_def dest!: asleep_set)
qed

lemma rw_reach: "rw_step\<^sup>*\<^sup>* (rw_init n) s \<Longrightarrow> rw_inv s \<and> length (rw_ts s) = n"
proof (induction rule: rtranclp_induct)
  case base
  show ?case by (auto simp: rw_inv_def rw_init_def inside_def)
next
  case (step s s')
  have "length (rw_ts s') = length (rw_ts s)"
    using step.hyps(2) by (auto simp: rw_step_def rw_notify_all_def lock_read_def unlock_read_def lock_write_def
        unlock_write_def Let_def elim!: guard_step.cases rw_spurious.cases)
  with step guard_inv rw_spurious_inv show ?case by (auto simp: rw_step_def)
qed

text \<open>When threads are waiting, some thread can make a step that is no spurious wake-up.\<close>

lemma rw_progress:
  assumes "rw_inv s" "i < length (rw_ts s)" "rw_ts s ! i \<noteq> Outside"
  shows "\<exists>j s'. guard_step j s s' \<and> rw_ts s ! j \<noteq> Outside"
proof (rule ccontr)
  assume "\<not> ?thesis"
  then have n: "rw_ts s ! j = Outside" if "guard_step j s s'" for j s' using that by blast
  have a: "rw_ts s ! j \<in> {Outside, R_asleep, W_asleep}" if "j < length (rw_ts s)" for j
    using n [OF read_lock, OF that] n [OF read_unlock, OF that] n [OF write_lock, OF that] n [OF write_unlock, OF that]
    by (cases "rw_ts s ! j") simp_all
  then have "R_in \<notin> set (rw_ts s)" "W_in \<notin> set (rw_ts s)" by (fastforce simp: in_set_conv_nth)+
  then have "inside R_in s = 0" "inside W_in s = 0" by (auto simp: inside_def filter_empty_conv)
  moreover have "R_asleep \<in> set (rw_ts s) \<or> W_asleep \<in> set (rw_ts s)" using a [OF assms(2)] assms(2,3) nth_mem by fastforce
  ultimately show False using assms(1) by (auto simp: rw_inv_def split: if_splits)
qed

text \<open>Two readers that relay each other keep a writer out.\<close>

definition relay :: rw_lock where
  "relay = \<lparr>readers = 1, writing = False, rw_ts = [R_in, Outside, W_asleep]\<rparr>"

lemma relay_reachable: "rw_step\<^sup>*\<^sup>* (rw_init 3) relay"
proof -
  let ?s = "\<lambda>r ts. \<lparr>readers = r, writing = False, rw_ts = ts\<rparr>"
  have "guard_step 0 (?s 0 [Outside, Outside, Outside]) (rw_set 0 R_test (?s 0 [Outside, Outside, Outside]))"
    by (rule read_guard) simp_all
  moreover have "guard_step 0 (?s 0 [R_test, Outside, Outside]) (lock_read 0 (?s 0 [R_test, Outside, Outside]))"
    by (rule read_lock) simp_all
  moreover have "guard_step 2 (?s 1 [R_in, Outside, Outside]) (rw_set 2 W_test (?s 1 [R_in, Outside, Outside]))"
    by (rule write_guard) simp_all
  moreover have "guard_step 2 (?s 1 [R_in, Outside, W_test]) (lock_write 2 (?s 1 [R_in, Outside, W_test]))"
    by (rule write_lock) simp_all
  ultimately have "rw_step (rw_init 3) (?s 0 [R_test, Outside, Outside])" "rw_step (?s 0 [R_test, Outside, Outside]) (?s 1 [R_in, Outside, Outside])"
    "rw_step (?s 1 [R_in, Outside, Outside]) (?s 1 [R_in, Outside, W_test])" "rw_step (?s 1 [R_in, Outside, W_test]) relay"
    by (auto simp: rw_step_def rw_init_def relay_def rw_set_def lock_read_def lock_write_def numeral_3_eq_3 numeral_2_eq_2)
  then show ?thesis by (meson rtranclp.rtrancl_refl rtranclp.rtrancl_into_rtrancl)
qed

fun relay_at :: "nat \<Rightarrow> rw_lock" where
  "relay_at k = (let (r, a, b) = [(1, R_in, Outside), (1, R_in, R_test), (2, R_in, R_in),
       (1, Outside, R_in), (1, R_test, R_in), (2, R_in, R_in)] ! (k mod 6)
     in \<lparr>readers = r, writing = False, rw_ts = [a, b, W_asleep]\<rparr>)"

lemma relay_step: "\<exists>i<2. guard_step i (relay_at k) (relay_at (Suc k))"
proof -
  let ?s = "\<lambda>r ts. \<lparr>readers = r, writing = False, rw_ts = ts\<rparr>"
  have 1: "\<exists>i<2. guard_step i (?s 1 [R_in, Outside, W_asleep]) (?s 1 [R_in, R_test, W_asleep])"
    using read_guard [of 1 "?s 1 [R_in, Outside, W_asleep]"] by (intro exI [of _ 1]) (simp add: rw_set_def)
  have 2: "\<exists>i<2. guard_step i (?s 1 [R_in, R_test, W_asleep]) (?s 2 [R_in, R_in, W_asleep])"
    using read_lock [of 1 "?s 1 [R_in, R_test, W_asleep]"] by (intro exI [of _ 1]) (simp add: rw_set_def lock_read_def)
  have 3: "\<exists>i<2. guard_step i (?s 2 [R_in, R_in, W_asleep]) (?s 1 [Outside, R_in, W_asleep])"
    using read_unlock [of 0 "?s 2 [R_in, R_in, W_asleep]"] by (intro exI [of _ 0]) (simp add: rw_set_def unlock_read_def)
  have 4: "\<exists>i<2. guard_step i (?s 1 [Outside, R_in, W_asleep]) (?s 1 [R_test, R_in, W_asleep])"
    using read_guard [of 0 "?s 1 [Outside, R_in, W_asleep]"] by (intro exI [of _ 0]) (simp add: rw_set_def)
  have 5: "\<exists>i<2. guard_step i (?s 1 [R_test, R_in, W_asleep]) (?s 2 [R_in, R_in, W_asleep])"
    using read_lock [of 0 "?s 1 [R_test, R_in, W_asleep]"] by (intro exI [of _ 0]) (simp add: rw_set_def lock_read_def)
  have 6: "\<exists>i<2. guard_step i (?s 2 [R_in, R_in, W_asleep]) (?s 1 [R_in, Outside, W_asleep])"
    using read_unlock [of 1 "?s 2 [R_in, R_in, W_asleep]"] by (intro exI [of _ 1]) (simp add: rw_set_def unlock_read_def)
  have "k mod 6 < 6" by simp
  then consider "k mod 6 = 0" | "k mod 6 = 1" | "k mod 6 = 2" | "k mod 6 = 3" | "k mod 6 = 4" | "k mod 6 = 5" by linarith
  then show ?thesis using 1 2 3 4 5 6 by cases (simp_all add: mod_Suc)
qed

text \<open>Both readers keep coming and going, and the writer sleeps throughout.\<close>

lemma relay_turns:
  assumes "i < 2"
  shows "\<exists>m\<ge>k. rw_ts (relay_at m) ! i = R_in" "\<exists>m\<ge>k. rw_ts (relay_at m) ! i = Outside"
proof -
  have i: "i = 0 \<or> i = 1" using assms by linarith
  have m: "(6 * k + j) mod 6 = j" "k \<le> 6 * k + j" if "j < 6" for j using that by simp_all
  have "rw_ts (relay_at (6 * k + 2)) ! i = R_in" using i m(1) [of 2] by auto
  then show "\<exists>m\<ge>k. rw_ts (relay_at m) ! i = R_in" using m(2) [of 2] by (intro exI [of _ "6 * k + 2"]) simp
  have "rw_ts (relay_at (6 * k + (if i = 0 then 3 else 0))) ! i = Outside" using i m(1) [of 3] m(1) [of 0] by auto
  then show "\<exists>m\<ge>k. rw_ts (relay_at m) ! i = Outside"
    using m(2) [of 3] by (intro exI [of _ "6 * k + (if i = 0 then 3 else 0)"]) simp
qed

lemma relay_asleep: "rw_ts (relay_at k) ! 2 = W_asleep"
  by (simp split: prod.split)

text \<open>The writer waits although nobody but the two readers is there and each keeps releasing the lock.\<close>

definition starves :: "(nat \<Rightarrow> rw_lock) \<Rightarrow> bool" where
  "starves r \<longleftrightarrow> rw_step\<^sup>*\<^sup>* (rw_init 3) (r 0) \<and>
     (\<forall>k. (\<exists>i<2. guard_step i (r k) (r (Suc k))) \<and> rw_ts (r k) ! 2 = W_asleep) \<and>
     (\<forall>i<2. \<forall>k. (\<exists>m\<ge>k. rw_ts (r m) ! i = R_in) \<and> (\<exists>m\<ge>k. rw_ts (r m) ! i = Outside))"

lemma relay_starves: "starves relay_at"
  unfolding starves_def using relay_reachable relay_step relay_asleep relay_turns by (simp add: relay_def)

text \<open>C13: \<open>ReaderWriterLock\<close> excludes: in every state that any number of threads reach, at most one
  writer is inside, and then no reader; a thread that waits has a reason to (a reader, a writer
  inside; a writer, anybody inside), so no wake-up is lost, and while any thread is not outside,
  one of these can make a step. A writer can wait forever, though: there is an infinite run of
  two readers, each entering and leaving again and again, in which a third thread that wants to
  write is asleep throughout.\<close>

theorem reader_writer_lock:
  assumes "rw_step\<^sup>*\<^sup>* (rw_init n) s"
  shows "inside W_in s \<le> 1 \<and> (0 < inside W_in s \<longrightarrow> inside R_in s = 0) \<and>
    (R_asleep \<in> set (rw_ts s) \<longrightarrow> 0 < inside W_in s) \<and>
    (W_asleep \<in> set (rw_ts s) \<longrightarrow> 0 < inside W_in s + inside R_in s) \<and>
    ((\<exists>i<n. rw_ts s ! i \<noteq> Outside) \<longrightarrow> (\<exists>j s'. guard_step j s s' \<and> rw_ts s ! j \<noteq> Outside)) \<and>
    (\<exists>r. rw_step\<^sup>*\<^sup>* (rw_init 3) (r 0) \<and> (\<forall>k. (\<exists>i<2. guard_step i (r k) (r (Suc k))) \<and> rw_ts (r k) ! 2 = W_asleep) \<and>
      (\<forall>i<2. \<forall>k. (\<exists>m\<ge>k. rw_ts (r m) ! i = R_in) \<and> (\<exists>m\<ge>k. rw_ts (r m) ! i = Outside)))"
proof -
  have i: "rw_inv s" "length (rw_ts s) = n" using rw_reach [OF assms] by blast+
  have safe: "inside W_in s \<le> 1 \<and> (0 < inside W_in s \<longrightarrow> inside R_in s = 0) \<and>
    (R_asleep \<in> set (rw_ts s) \<longrightarrow> 0 < inside W_in s) \<and>
    (W_asleep \<in> set (rw_ts s) \<longrightarrow> 0 < inside W_in s + inside R_in s) \<and>
    ((\<exists>i<n. rw_ts s ! i \<noteq> Outside) \<longrightarrow> (\<exists>j s'. guard_step j s s' \<and> rw_ts s ! j \<noteq> Outside))"
    using i rw_progress [OF i(1)] by (auto simp: rw_inv_def split: if_splits)
  have "\<exists>r. starves r" using relay_starves by blast
  from conjI [OF safe this] show ?thesis unfolding starves_def conj_assoc .
qed

lemma reader_writer_lock_witness:
  "\<exists>s. rw_step\<^sup>*\<^sup>* (rw_init 3) s \<and> W_asleep \<in> set (rw_ts s) \<and> 0 < inside R_in s \<and> inside W_in s = 0"
  using reader_writer_lock [OF relay_reachable] relay_reachable
  by (intro exI [of _ relay]) (auto simp: relay_def inside_def)

subsection \<open>\<open>BoundedBlockingQueue\<close>\<close>

datatype 'a bb_pc = B_out | B_push 'a | B_push_asleep 'a | B_pop | B_pop_asleep

text \<open>\<open>bb_in\<close> and \<open>bb_got\<close> are histories: values pushed and popped.\<close>

record 'a blocking_queue =
  bb_queue :: "'a list"
  bb_ts :: "'a bb_pc list"
  bb_in :: "'a list"
  bb_got :: "'a list"

definition bb_init :: "nat \<Rightarrow> 'a blocking_queue" where
  "bb_init n = \<lparr>bb_queue = [], bb_ts = replicate n B_out, bb_in = [], bb_got = []\<rparr>"

definition bb_set :: "nat \<Rightarrow> 'a bb_pc \<Rightarrow> 'a blocking_queue \<Rightarrow> 'a blocking_queue" where
  "bb_set i t s = s\<lparr>bb_ts := (bb_ts s)[i := t]\<rparr>"

definition pushing :: "'a bb_pc list \<Rightarrow> nat" where
  "pushing ts = length (filter (\<lambda>t. \<exists>x. t = B_push x) ts)"

definition popping :: "'a bb_pc list \<Rightarrow> nat" where
  "popping ts = length (filter (\<lambda>t. t = B_pop) ts)"

text \<open>\<open>not_empty_.notify_one()\<close> and \<open>not_full_.notify_one()\<close>.\<close>

inductive notify_not_empty :: "'a blocking_queue \<Rightarrow> 'a blocking_queue \<Rightarrow> bool" where
  wakes_pop: "i < length (bb_ts s) \<Longrightarrow> bb_ts s ! i = B_pop_asleep \<Longrightarrow> notify_not_empty s (bb_set i B_pop s)"
| nobody_pops: "B_pop_asleep \<notin> set (bb_ts s) \<Longrightarrow> notify_not_empty s s"

inductive notify_not_full :: "'a blocking_queue \<Rightarrow> 'a blocking_queue \<Rightarrow> bool" where
  wakes_push: "i < length (bb_ts s) \<Longrightarrow> bb_ts s ! i = B_push_asleep x \<Longrightarrow> notify_not_full s (bb_set i (B_push x) s)"
| nobody_pushes: "(\<forall>x. B_push_asleep x \<notin> set (bb_ts s)) \<Longrightarrow> notify_not_full s s"

inductive bb_step :: "nat \<Rightarrow> nat \<Rightarrow> 'a blocking_queue \<Rightarrow> 'a blocking_queue \<Rightarrow> bool" for MaxSize i where
  call_push: "i < length (bb_ts s) \<Longrightarrow> bb_ts s ! i = B_out \<Longrightarrow> bb_step MaxSize i s (bb_set i (B_push x) s)"
| call_pop: "i < length (bb_ts s) \<Longrightarrow> bb_ts s ! i = B_out \<Longrightarrow> bb_step MaxSize i s (bb_set i B_pop s)"
| push_waits: "i < length (bb_ts s) \<Longrightarrow> bb_ts s ! i = B_push x \<Longrightarrow> \<not> length (bb_queue s) < MaxSize \<Longrightarrow>
    bb_step MaxSize i s (bb_set i (B_push_asleep x) s)"
| push_done: "i < length (bb_ts s) \<Longrightarrow> bb_ts s ! i = B_push x \<Longrightarrow> length (bb_queue s) < MaxSize \<Longrightarrow>
    notify_not_empty (bb_set i B_out (s\<lparr>bb_queue := bb_queue s @ [x], bb_in := bb_in s @ [x]\<rparr>)) s' \<Longrightarrow> bb_step MaxSize i s s'"
| pop_waits: "i < length (bb_ts s) \<Longrightarrow> bb_ts s ! i = B_pop \<Longrightarrow> bb_queue s = [] \<Longrightarrow>
    bb_step MaxSize i s (bb_set i B_pop_asleep s)"
| pop_done: "i < length (bb_ts s) \<Longrightarrow> bb_ts s ! i = B_pop \<Longrightarrow> bb_queue s = x # xs \<Longrightarrow>
    notify_not_full (bb_set i B_out (s\<lparr>bb_queue := xs, bb_got := bb_got s @ [x]\<rparr>)) s' \<Longrightarrow> bb_step MaxSize i s s'"

inductive bb_spurious :: "nat \<Rightarrow> 'a blocking_queue \<Rightarrow> 'a blocking_queue \<Rightarrow> bool" for i where
  spurious_pop: "i < length (bb_ts s) \<Longrightarrow> bb_ts s ! i = B_pop_asleep \<Longrightarrow> bb_spurious i s (bb_set i B_pop s)"
| spurious_push: "i < length (bb_ts s) \<Longrightarrow> bb_ts s ! i = B_push_asleep x \<Longrightarrow> bb_spurious i s (bb_set i (B_push x) s)"

definition bb_any :: "nat \<Rightarrow> 'a blocking_queue \<Rightarrow> 'a blocking_queue \<Rightarrow> bool" where
  "bb_any MaxSize s s' \<longleftrightarrow> (\<exists>i. bb_step MaxSize i s s' \<or> bb_spurious i s s')"

text \<open>
  The invariant, with a queue length of its own, so that it can be stated between a push or pop and
  its notification: then one more waiting thread is accounted for than there is (\<open>e\<close>, \<open>f\<close>).
\<close>

definition bb_waits :: "nat \<Rightarrow> nat \<Rightarrow> nat \<Rightarrow> nat \<Rightarrow> 'a bb_pc list \<Rightarrow> bool" where
  "bb_waits MaxSize e f len ts \<longleftrightarrow> (B_pop_asleep \<in> set ts \<longrightarrow> len \<le> popping ts + e) \<and>
     ((\<exists>x. B_push_asleep x \<in> set ts) \<longrightarrow> MaxSize - len \<le> pushing ts + f)"

definition bb_inv :: "nat \<Rightarrow> 'a blocking_queue \<Rightarrow> bool" where
  "bb_inv MaxSize s \<longleftrightarrow> length (bb_queue s) \<le> MaxSize \<and> bb_got s @ bb_queue s = bb_in s \<and>
     bb_waits MaxSize 0 0 (length (bb_queue s)) (bb_ts s)"

lemma pushing_update: "i < length ts \<Longrightarrow> pushing (ts[i := t]) + (if \<exists>x. ts ! i = B_push x then 1 else 0) =
    pushing ts + (if \<exists>x. t = B_push x then 1 else 0)"
  unfolding pushing_def by (rule filter_update)

lemma popping_update: "i < length ts \<Longrightarrow> popping (ts[i := t]) + (if ts ! i = B_pop then 1 else 0) =
    popping ts + (if t = B_pop then 1 else 0)"
  unfolding popping_def by (rule filter_update)

lemma member_update: "u \<in> set (ts[i := t]) \<Longrightarrow> u \<in> set ts \<or> u = t"
  using set_update_subset_insert [of ts i t] by auto

lemma not_empty_waits:
  assumes "notify_not_empty s s'" "bb_waits MaxSize 1 0 len (bb_ts s)"
  shows "bb_waits MaxSize 0 0 len (bb_ts s') \<and> s' = s\<lparr>bb_ts := bb_ts s'\<rparr> \<and> length (bb_ts s') = length (bb_ts s)"
  using assms(1)
proof cases
  case (wakes_pop i)
  with assms(2) pushing_update [OF wakes_pop(2), of B_pop] popping_update [OF wakes_pop(2), of B_pop] show ?thesis
    by (auto simp: bb_waits_def bb_set_def dest!: member_update)
next
  case nobody_pops
  with assms(2) show ?thesis by (auto simp: bb_waits_def)
qed

lemma not_full_waits:
  assumes "notify_not_full s s'" "bb_waits MaxSize 0 1 len (bb_ts s)"
  shows "bb_waits MaxSize 0 0 len (bb_ts s') \<and> s' = s\<lparr>bb_ts := bb_ts s'\<rparr> \<and> length (bb_ts s') = length (bb_ts s)"
  using assms(1)
proof cases
  case (wakes_push i x)
  with assms(2) pushing_update [OF wakes_push(2), of "B_push x"] popping_update [OF wakes_push(2), of "B_push x"] show ?thesis
    by (auto simp: bb_waits_def bb_set_def dest!: member_update)
next
  case nobody_pushes
  with assms(2) show ?thesis by (auto simp: bb_waits_def)
qed

lemma bb_step_inv:
  assumes "bb_step MaxSize i s s'" "bb_inv MaxSize s"
  shows "bb_inv MaxSize s' \<and> length (bb_ts s') = length (bb_ts s)"
  using assms(1)
proof cases
  case (call_push x)
  with assms(2) pushing_update [OF call_push(2), of "B_push x"] popping_update [OF call_push(2), of "B_push x"] show ?thesis
    by (auto simp: bb_inv_def bb_waits_def bb_set_def dest!: member_update)
next
  case call_pop
  with assms(2) pushing_update [OF call_pop(2), of B_pop] popping_update [OF call_pop(2), of B_pop] show ?thesis
    by (auto simp: bb_inv_def bb_waits_def bb_set_def dest!: member_update)
next
  case (push_waits x)
  with assms(2) popping_update [OF push_waits(2), of "B_push_asleep x"] show ?thesis
    by (auto simp: bb_inv_def bb_waits_def bb_set_def dest!: member_update)
next
  case (push_done x)
  let ?s = "bb_set i B_out (s\<lparr>bb_queue := bb_queue s @ [x], bb_in := bb_in s @ [x]\<rparr>)"
  have "bb_waits MaxSize 1 0 (Suc (length (bb_queue s))) (bb_ts ?s)"
    using assms(2) push_done(2) pushing_update [OF push_done(1), of B_out] popping_update [OF push_done(1), of B_out]
    by (auto simp: bb_inv_def bb_waits_def bb_set_def dest!: member_update)
  note w = not_empty_waits [OF push_done(4) this]
  then have eq: "s' = ?s\<lparr>bb_ts := bb_ts s'\<rparr>" by blast
  have "bb_queue s' = bb_queue s @ [x]" "bb_in s' = bb_in s @ [x]" "bb_got s' = bb_got s"
    by (subst eq, simp add: bb_set_def)+
  moreover have "length (bb_ts s') = length (bb_ts s)" using w by (simp add: bb_set_def)
  ultimately show ?thesis using w assms(2) push_done(3) by (simp add: bb_inv_def)
next
  case pop_waits
  with assms(2) pushing_update [OF pop_waits(2), of B_pop_asleep] show ?thesis
    by (auto simp: bb_inv_def bb_waits_def bb_set_def dest!: member_update)
next
  case (pop_done x xs)
  let ?s = "bb_set i B_out (s\<lparr>bb_queue := xs, bb_got := bb_got s @ [x]\<rparr>)"
  have "bb_waits MaxSize 0 1 (length xs) (bb_ts ?s)"
    using assms(2) pop_done(2,3) pushing_update [OF pop_done(1), of B_out] popping_update [OF pop_done(1), of B_out]
    by (auto simp: bb_inv_def bb_waits_def bb_set_def dest!: member_update)
  note w = not_full_waits [OF pop_done(4) this]
  then have eq: "s' = ?s\<lparr>bb_ts := bb_ts s'\<rparr>" by blast
  have "bb_queue s' = xs" "bb_in s' = bb_in s" "bb_got s' = bb_got s @ [x]"
    by (subst eq, simp add: bb_set_def)+
  moreover have "length (bb_ts s') = length (bb_ts s)" using w by (simp add: bb_set_def)
  ultimately show ?thesis using w assms(2) pop_done(3) by (simp add: bb_inv_def)
qed

lemma bb_spurious_inv:
  assumes "bb_spurious i s s'" "bb_inv MaxSize s"
  shows "bb_inv MaxSize s' \<and> length (bb_ts s') = length (bb_ts s)"
  using assms(1)
proof cases
  case spurious_pop
  with assms(2) pushing_update [OF spurious_pop(2), of B_pop] popping_update [OF spurious_pop(2), of B_pop] show ?thesis
    by (auto simp: bb_inv_def bb_waits_def bb_set_def dest!: member_update)
next
  case (spurious_push x)
  with assms(2) pushing_update [OF spurious_push(2), of "B_push x"] popping_update [OF spurious_push(2), of "B_push x"] show ?thesis
    by (auto simp: bb_inv_def bb_waits_def bb_set_def dest!: member_update)
qed

lemma bb_reach: "(bb_any MaxSize)\<^sup>*\<^sup>* (bb_init n) s \<Longrightarrow> bb_inv MaxSize s \<and> length (bb_ts s) = n"
proof (induction rule: rtranclp_induct)
  case base
  show ?case by (simp add: bb_inv_def bb_init_def bb_waits_def)
next
  case (step s s')
  with bb_step_inv bb_spurious_inv show ?case unfolding bb_any_def by metis
qed

lemma notified: "\<exists>s'. notify_not_empty s s'" "\<exists>s'. notify_not_full s s'"
proof -
  show "\<exists>s'. notify_not_empty s s'"
    by (cases "B_pop_asleep \<in> set (bb_ts s)") (auto simp: in_set_conv_nth intro: wakes_pop nobody_pops [unfolded in_set_conv_nth])
  show "\<exists>s'. notify_not_full s s'"
    by (cases "\<exists>x. B_push_asleep x \<in> set (bb_ts s)") (auto simp: in_set_conv_nth intro: wakes_push nobody_pushes [unfolded in_set_conv_nth])
qed

lemma bb_can_move:
  assumes "j < length (bb_ts s)" "bb_ts s ! j = B_pop \<or> (\<exists>x. bb_ts s ! j = B_push x)"
  shows "\<exists>s'. bb_step MaxSize j s s'"
proof (cases "bb_ts s ! j = B_pop")
  case True
  with notified assms(1) show ?thesis by (cases "bb_queue s") (blast intro: bb_step.intros)+
next
  case False
  with assms(2) notified assms(1) show ?thesis by (cases "length (bb_queue s) < MaxSize") (blast intro: bb_step.intros)+
qed

text \<open>C14: \<open>BoundedBlockingQueue\<close> with any number of threads that push and pop: in every reachable
  state the queue holds at most \<open>MaxSize\<close> values, what was popped and what is queued is what was
  pushed, in that order; and no wake-up is lost: while some call is under way, either one of the
  calls can make a step, or all of them are \<open>pop\<close>s asleep on an empty queue, or all are
  \<open>push\<close>es asleep on a full one.\<close>

theorem bounded_blocking_queue:
  assumes "0 < MaxSize" "(bb_any MaxSize)\<^sup>*\<^sup>* (bb_init n) s"
  shows "length (bb_queue s) \<le> MaxSize \<and> bb_got s @ bb_queue s = bb_in s \<and>
    ((\<exists>i<n. bb_ts s ! i \<noteq> B_out) \<longrightarrow>
      (\<exists>j s'. bb_step MaxSize j s s' \<and> bb_ts s ! j \<noteq> B_out) \<or>
      bb_queue s = [] \<and> set (bb_ts s) \<subseteq> {B_out, B_pop_asleep} \<or>
      length (bb_queue s) = MaxSize \<and> set (bb_ts s) \<subseteq> insert B_out (range B_push_asleep))"
proof -
  have i: "bb_inv MaxSize s" "length (bb_ts s) = n" using bb_reach [OF assms(2)] by blast+
  have "bb_queue s = [] \<and> set (bb_ts s) \<subseteq> {B_out, B_pop_asleep} \<or>
      length (bb_queue s) = MaxSize \<and> set (bb_ts s) \<subseteq> insert B_out (range B_push_asleep)"
    if stuck: "\<not> (\<exists>j s'. bb_step MaxSize j s s' \<and> bb_ts s ! j \<noteq> B_out)" and busy: "\<exists>i<n. bb_ts s ! i \<noteq> B_out"
  proof -
    have a: "t = B_out \<or> t = B_pop_asleep \<or> t \<in> range B_push_asleep" if t: "t \<in> set (bb_ts s)" for t
    proof -
      from t obtain j where j: "j < length (bb_ts s)" "t = bb_ts s ! j" by (auto simp: in_set_conv_nth)
      have "\<not> (t = B_pop \<or> (\<exists>x. t = B_push x))"
        using bb_can_move [OF j(1), of MaxSize] stuck unfolding j(2) by fastforce
      then show ?thesis by (cases t) auto
    qed
    have "B_pop \<notin> set (bb_ts s)" "\<And>x. B_push x \<notin> set (bb_ts s)" using a by blast+
    then have z: "popping (bb_ts s) = 0" "pushing (bb_ts s) = 0"
      by (auto simp: popping_def pushing_def filter_empty_conv)
    show ?thesis
    proof (cases "B_pop_asleep \<in> set (bb_ts s)")
      case True
      with i(1) z have q: "bb_queue s = []" by (simp add: bb_inv_def bb_waits_def)
      have "\<not> (\<exists>x. B_push_asleep x \<in> set (bb_ts s))"
        using i(1) z q assms(1) by (simp add: bb_inv_def bb_waits_def)
      with a q show ?thesis by auto
    next
      case False
      with a have sub: "set (bb_ts s) \<subseteq> insert B_out (range B_push_asleep)" by auto
      from busy i(2) obtain t where "t \<in> set (bb_ts s)" "t \<noteq> B_out" by (metis nth_mem)
      with sub i(1) z have "length (bb_queue s) = MaxSize" by (auto simp: bb_inv_def bb_waits_def)
      with sub show ?thesis by blast
    qed
  qed
  with i(1) show ?thesis by (auto simp: bb_inv_def)
qed

text \<open>One thread pops from the empty queue and sleeps; a push wakes it.\<close>

lemma bounded_blocking_queue_witness:
  "\<exists>s. (bb_any 3)\<^sup>*\<^sup>* (bb_init 2) s \<and> bb_in s = [5 :: int] \<and> bb_ts s = [B_pop, B_out] \<and> bb_got s @ bb_queue s = [5]"
proof -
  let ?s = "\<lambda>q ts. \<lparr>bb_queue = q, bb_ts = ts, bb_in = q, bb_got = []\<rparr> :: int blocking_queue"
  have "bb_step 3 0 (?s [] [B_out, B_out]) (bb_set 0 B_pop (?s [] [B_out, B_out]))" by (rule call_pop) simp_all
  moreover have "bb_step 3 0 (?s [] [B_pop, B_out]) (bb_set 0 B_pop_asleep (?s [] [B_pop, B_out]))"
    by (rule pop_waits) simp_all
  moreover have "bb_step 3 1 (?s [] [B_pop_asleep, B_out]) (bb_set 1 (B_push 5) (?s [] [B_pop_asleep, B_out]))"
    by (rule call_push) simp_all
  moreover have "notify_not_empty (?s [5] [B_pop_asleep, B_out]) (bb_set 0 B_pop (?s [5] [B_pop_asleep, B_out]))"
    by (rule wakes_pop) simp_all
  then have "bb_step 3 1 (?s [] [B_pop_asleep, B_push 5]) (?s [5] [B_pop, B_out])"
    by (intro push_done [where x = 5]) (simp_all add: bb_set_def)
  ultimately have "bb_any 3 (bb_init 2) (?s [] [B_pop, B_out])" "bb_any 3 (?s [] [B_pop, B_out]) (?s [] [B_pop_asleep, B_out])"
    "bb_any 3 (?s [] [B_pop_asleep, B_out]) (?s [] [B_pop_asleep, B_push 5])" "bb_any 3 (?s [] [B_pop_asleep, B_push 5]) (?s [5] [B_pop, B_out])"
    by (auto simp: bb_any_def bb_set_def bb_init_def numeral_2_eq_2)
  then have r: "(bb_any 3)\<^sup>*\<^sup>* (bb_init 2) (?s [5] [B_pop, B_out])"
    by (meson rtranclp.rtrancl_refl rtranclp.rtrancl_into_rtrancl)
  from bounded_blocking_queue [OF _ r] have "bb_got (?s [5] [B_pop, B_out]) @ bb_queue (?s [5] [B_pop, B_out]) = bb_in (?s [5] [B_pop, B_out])"
    by simp
  with r show ?thesis by (intro exI [of _ "?s [5] [B_pop, B_out]"]) simp
qed

subsection \<open>The baselines\<close>

text \<open>
  \<open>SpinBoundedQueue<Cap>\<close> tries again until it succeeds; one attempt is an operation of a bounded
  queue, so its transfers complete (\<open>transfer_complete\<close> of the locale).
\<close>

record 'a spin_queue =
  sb_q :: "'a list"

definition sb_push :: "nat \<Rightarrow> 'a \<Rightarrow> 'a spin_queue \<Rightarrow> bool \<times> 'a spin_queue" where [queue_defs]:
  "sb_push Cap x s = (if length (sb_q s) < Cap then (True, s\<lparr>sb_q := sb_q s @ [x]\<rparr>) else (False, s))"

definition sb_pop :: "'a spin_queue \<Rightarrow> 'a option \<times> 'a spin_queue" where [queue_defs]:
  "sb_pop s = (case sb_q s of [] \<Rightarrow> (None, s) | x # xs \<Rightarrow> (Some x, s\<lparr>sb_q := xs\<rparr>))"

definition sb_ok :: "nat \<Rightarrow> 'a spin_queue \<Rightarrow> bool" where [queue_defs]:
  "sb_ok Cap s \<longleftrightarrow> length (sb_q s) \<le> Cap"

interpretation sb: bounded_fifo "sb_push Cap" sb_pop sb_q "sb_ok Cap" Cap for Cap
  by unfold_locales (auto simp: queue_defs split: list.splits)

end
