(* ===== verification/Lockfree_Stack.thy ===== *)
theory Lockfree_Stack
  imports Prelude
begin

section \<open>\<open>LockFreeStack\<close> (\<open>topics/concurrency/lockfree_stack.cpp\<close>)\<close>

text \<open>
  A Treiber stack. Nodes live at addresses; \<open>new\<close> may hand out any address that is not live, so
  also one that was deleted before. Every access to \<open>head_\<close> or to a node that other threads can
  reach is a step of its own. Reading a node that was deleted has no defined result; it sets
  \<open>sk_bad\<close>. The weak compare-and-swap may fail for no reason; \<open>push\<close> then has the current head as
  the next node, \<open>pop\<close> as its old head.
\<close>

subsection \<open>Steps\<close>

datatype 'a stack_pc = K_idle | K_push 'a | K_cas nat | K_pop | K_old "nat option" | K_next nat "nat option" | K_took nat

text \<open>The last three fields are histories: values pushed, values popped, and the stack as a list.\<close>

record 'a stack =
  sk_head :: "nat option"
  sk_node :: "nat \<Rightarrow> ('a \<times> nat option) option"
  sk_pc :: "nat \<Rightarrow> 'a stack_pc"
  sk_bad :: bool
  sk_pushed :: "'a list"
  sk_popped :: "'a list"
  sk_abs :: "'a list"

definition stack_init :: "'a stack" where
  "stack_init = \<lparr>sk_head = None, sk_node = (\<lambda>_. None), sk_pc = (\<lambda>_. K_idle), sk_bad = False, sk_pushed = [],
     sk_popped = [], sk_abs = []\<rparr>"

definition goto :: "nat \<Rightarrow> 'a stack_pc \<Rightarrow> 'a stack \<Rightarrow> 'a stack" where
  "goto i pc s = s\<lparr>sk_pc := (sk_pc s)(i := pc)\<rparr>"

inductive stack_push :: "nat \<Rightarrow> 'a stack \<Rightarrow> 'a stack \<Rightarrow> bool" for i where
  push_call: "sk_pc s i = K_idle \<Longrightarrow> stack_push i s (goto i (K_push x) s)"
| push_node: "sk_pc s i = K_push x \<Longrightarrow> sk_node s a = None \<Longrightarrow>
    stack_push i s (goto i (K_cas a) (s\<lparr>sk_node := (sk_node s)(a \<mapsto> (x, sk_head s))\<rparr>))"
| push_cas: "sk_pc s i = K_cas a \<Longrightarrow> sk_node s a = Some (x, sk_head s) \<Longrightarrow>
    stack_push i s (goto i K_idle (s\<lparr>sk_head := Some a, sk_pushed := sk_pushed s @ [x], sk_abs := x # sk_abs s\<rparr>))"
| push_retry: "sk_pc s i = K_cas a \<Longrightarrow> sk_node s a = Some (x, n) \<Longrightarrow>
    stack_push i s (s\<lparr>sk_node := (sk_node s)(a \<mapsto> (x, sk_head s))\<rparr>)"

inductive stack_pop :: "nat \<Rightarrow> 'a stack \<Rightarrow> 'a stack \<Rightarrow> bool" for i where
  pop_call: "sk_pc s i = K_idle \<Longrightarrow> stack_pop i s (goto i K_pop s)"
| pop_load: "sk_pc s i = K_pop \<Longrightarrow> stack_pop i s (goto i (K_old (sk_head s)) s)"
| pop_empty: "sk_pc s i = K_old None \<Longrightarrow> stack_pop i s (goto i K_idle s)"
| pop_next: "sk_pc s i = K_old (Some p) \<Longrightarrow> sk_node s p = Some (x, n) \<Longrightarrow> stack_pop i s (goto i (K_next p n) s)"
| pop_next_freed: "sk_pc s i = K_old (Some p) \<Longrightarrow> sk_node s p = None \<Longrightarrow>
    stack_pop i s (goto i K_idle (s\<lparr>sk_bad := True\<rparr>))"
| pop_cas: "sk_pc s i = K_next p n \<Longrightarrow> sk_head s = Some p \<Longrightarrow>
    stack_pop i s (goto i (K_took p) (s\<lparr>sk_head := n, sk_abs := tl (sk_abs s)\<rparr>))"
| pop_retry: "sk_pc s i = K_next p n \<Longrightarrow> stack_pop i s (goto i (K_old (sk_head s)) s)"
| pop_take: "sk_pc s i = K_took p \<Longrightarrow> sk_node s p = Some (x, n) \<Longrightarrow>
    stack_pop i s (goto i K_idle (s\<lparr>sk_node := (sk_node s)(p := None), sk_popped := sk_popped s @ [x]\<rparr>))"
| pop_take_freed: "sk_pc s i = K_took p \<Longrightarrow> sk_node s p = None \<Longrightarrow>
    stack_pop i s (goto i K_idle (s\<lparr>sk_bad := True\<rparr>))"

definition sk_empty :: "'a stack \<Rightarrow> bool" where
  "sk_empty s \<longleftrightarrow> sk_head s = None"

text \<open>Any thread pushes and pops; only thread \<open>p\<close> pops.\<close>

definition stack_step :: "'a stack \<Rightarrow> 'a stack \<Rightarrow> bool" where
  "stack_step s s' \<longleftrightarrow> (\<exists>i. stack_push i s s' \<or> stack_pop i s s')"

definition one_popper :: "nat \<Rightarrow> 'a stack \<Rightarrow> 'a stack \<Rightarrow> bool" where
  "one_popper p s s' \<longleftrightarrow> (\<exists>i. stack_push i s s') \<or> stack_pop p s s'"

subsection \<open>The nodes reached from the head\<close>

fun stack_of :: "(nat \<Rightarrow> ('a \<times> nat option) option) \<Rightarrow> nat option \<Rightarrow> nat list \<Rightarrow> 'a list \<Rightarrow> bool" where
  "stack_of nd p [] vs = (p = None \<and> vs = [])"
| "stack_of nd p (a # as) vs = (\<exists>v n vs'. p = Some a \<and> vs = v # vs' \<and> nd a = Some (v, n) \<and> stack_of nd n as vs')"

lemma stack_of_frame: "a \<notin> set as \<Longrightarrow> stack_of (nd(a := c)) p as vs = stack_of nd p as vs"
  by (induction as arbitrary: p vs) auto

definition is_pop :: "'a stack_pc \<Rightarrow> bool" where
  "is_pop pc \<longleftrightarrow> (case pc of K_idle \<Rightarrow> False | K_push x \<Rightarrow> False | K_cas a \<Rightarrow> False | _ \<Rightarrow> True)"

fun popper_knows :: "'a stack_pc \<Rightarrow> (nat \<Rightarrow> ('a \<times> nat option) option) \<Rightarrow> nat list \<Rightarrow> bool" where
  "popper_knows (K_old (Some q)) nd as = (q \<in> set as)"
| "popper_knows (K_next q n) nd as = (q \<in> set as \<and> (\<exists>v. nd q = Some (v, n)))"
| "popper_knows (K_took q) nd as = (q \<notin> set as \<and> nd q \<noteq> None)"
| "popper_knows pc nd as = True"

fun in_hands :: "'a stack_pc \<Rightarrow> (nat \<Rightarrow> ('a \<times> nat option) option) \<Rightarrow> 'a list" where
  "in_hands (K_took q) nd = (case nd q of None \<Rightarrow> [] | Some (v, n) \<Rightarrow> [v])"
| "in_hands pc nd = []"

definition stack_inv :: "nat \<Rightarrow> nat list \<Rightarrow> 'a stack \<Rightarrow> bool" where
  "stack_inv p as s \<longleftrightarrow> stack_of (sk_node s) (sk_head s) as (sk_abs s) \<and> distinct as \<and> \<not> sk_bad s \<and>
     (\<forall>i a. sk_pc s i = K_cas a \<longrightarrow> sk_node s a \<noteq> None \<and> a \<notin> set as \<and> sk_pc s p \<noteq> K_took a) \<and>
     (\<forall>i j a. sk_pc s i = K_cas a \<and> sk_pc s j = K_cas a \<longrightarrow> i = j) \<and>
     popper_knows (sk_pc s p) (sk_node s) as \<and> (\<forall>i. i \<noteq> p \<longrightarrow> \<not> is_pop (sk_pc s i)) \<and>
     mset (sk_pushed s) = mset (sk_abs s) + mset (sk_popped s) + mset (in_hands (sk_pc s p) (sk_node s))"

lemma goto_simps [simp]:
  "sk_head (goto i pc s) = sk_head s" "sk_node (goto i pc s) = sk_node s" "sk_bad (goto i pc s) = sk_bad s"
  "sk_pushed (goto i pc s) = sk_pushed s" "sk_popped (goto i pc s) = sk_popped s" "sk_abs (goto i pc s) = sk_abs s"
  "sk_pc (goto i pc s) = (sk_pc s)(i := pc)"
  by (simp_all add: goto_def)

lemma live: "stack_of nd q as vs \<Longrightarrow> a \<in> set as \<Longrightarrow> \<exists>v n. nd a = Some (v, n)"
  by (induction as arbitrary: q vs) auto

lemma knows_frame: "popper_knows pc nd as \<Longrightarrow> a \<notin> set as \<Longrightarrow> popper_knows pc (nd(a := Some c)) as"
proof (cases pc)
  case (K_old q)
  then show "popper_knows pc nd as \<Longrightarrow> a \<notin> set as \<Longrightarrow> popper_knows pc (nd(a := Some c)) as" by (cases q) auto
qed auto

lemma hands_frame: "pc \<noteq> K_took a \<Longrightarrow> in_hands pc (nd(a := c)) = in_hands pc nd"
  by (cases pc) auto

lemma knows_cons: "popper_knows pc nd as \<Longrightarrow> pc \<noteq> K_took a \<Longrightarrow> popper_knows pc nd (a # as)"
proof (cases pc)
  case (K_old q)
  then show "popper_knows pc nd as \<Longrightarrow> pc \<noteq> K_took a \<Longrightarrow> popper_knows pc nd (a # as)" by (cases q) auto
qed auto

text \<open>What a step of a pushing thread does to its own program counter.\<close>

lemma pusher_pc:
  assumes "\<not> is_pop pc"
  shows "popper_knows pc nd as" "in_hands pc nd = []" "pc \<noteq> K_took a"
  using assms by (cases pc; simp add: is_pop_def)+

lemma push_inv:
  assumes "stack_push i s s'" "stack_inv p as s"
  shows "\<exists>as'. stack_inv p as' s'"
proof -
  have inv: "stack_of (sk_node s) (sk_head s) as (sk_abs s)" "distinct as" "\<not> sk_bad s"
    "\<And>j a. sk_pc s j = K_cas a \<Longrightarrow> sk_node s a \<noteq> None \<and> a \<notin> set as \<and> sk_pc s p \<noteq> K_took a"
    "\<And>j k a. sk_pc s j = K_cas a \<Longrightarrow> sk_pc s k = K_cas a \<Longrightarrow> j = k"
    "popper_knows (sk_pc s p) (sk_node s) as" "\<And>j. j \<noteq> p \<Longrightarrow> \<not> is_pop (sk_pc s j)"
    "mset (sk_pushed s) = mset (sk_abs s) + mset (sk_popped s) + mset (in_hands (sk_pc s p) (sk_node s))"
    using assms(2) unfolding stack_inv_def by blast+
  from assms(1) show ?thesis
  proof cases
    case (push_call x)
    have "popper_knows (sk_pc s' p) (sk_node s) as" "in_hands (sk_pc s' p) (sk_node s) = in_hands (sk_pc s p) (sk_node s)"
      using push_call inv(6) by auto
    with inv push_call have "stack_inv p as s'" by (auto simp: stack_inv_def is_pop_def)
    then show ?thesis ..
  next
    case (push_node x a)
    have new: "a \<notin> set as" using live inv(1) push_node(3) by fastforce
    have "\<And>j. sk_pc s j \<noteq> K_cas a" using inv(4) push_node(3) by blast
    moreover have t: "sk_pc s p \<noteq> K_took a" using inv(6) push_node(3) by auto
    moreover have "popper_knows (sk_pc s' p) (sk_node s') as" "in_hands (sk_pc s' p) (sk_node s') = in_hands (sk_pc s p) (sk_node s)"
      using push_node(1,2) knows_frame [OF inv(6) new] hands_frame [OF t] by auto
    ultimately have "stack_inv p as s'" using inv push_node(1,2) new
      unfolding stack_inv_def by (auto simp: is_pop_def stack_of_frame)
    then show ?thesis ..
  next
    case (push_cas a x)
    note a = inv(4) [OF push_cas(2)]
    have "popper_knows (sk_pc s' p) (sk_node s') (a # as)" "in_hands (sk_pc s' p) (sk_node s') = in_hands (sk_pc s p) (sk_node s)"
      using push_cas(1,2) knows_cons [OF inv(6), of a] a by auto
    moreover have "sk_pc s j \<noteq> K_cas a" if "j \<noteq> i" for j using inv(5) push_cas(2) that by blast
    ultimately have "stack_inv p (a # as) s'" using inv push_cas a
      unfolding stack_inv_def by (auto simp: is_pop_def)
    then show ?thesis ..
  next
    case (push_retry a x n)
    note a = inv(4) [OF push_retry(2)]
    have "popper_knows (sk_pc s' p) (sk_node s') as" "in_hands (sk_pc s' p) (sk_node s') = in_hands (sk_pc s p) (sk_node s)"
      using push_retry(1,2) knows_frame [OF inv(6)] hands_frame [of "sk_pc s p" a] a by auto
    with inv push_retry(1) a have "stack_inv p as s'"
      unfolding stack_inv_def by (auto simp: stack_of_frame)
    then show ?thesis ..
  qed
qed

lemma pop_inv:
  assumes "stack_pop p s s'" "stack_inv p as s"
  shows "\<exists>as'. stack_inv p as' s'"
proof -
  have inv: "stack_of (sk_node s) (sk_head s) as (sk_abs s)" "distinct as" "\<not> sk_bad s"
    "\<And>j a. sk_pc s j = K_cas a \<Longrightarrow> sk_node s a \<noteq> None \<and> a \<notin> set as \<and> sk_pc s p \<noteq> K_took a"
    "\<And>j k a. sk_pc s j = K_cas a \<Longrightarrow> sk_pc s k = K_cas a \<Longrightarrow> j = k"
    "popper_knows (sk_pc s p) (sk_node s) as" "\<And>j. j \<noteq> p \<Longrightarrow> \<not> is_pop (sk_pc s j)"
    "mset (sk_pushed s) = mset (sk_abs s) + mset (sk_popped s) + mset (in_hands (sk_pc s p) (sk_node s))"
    using assms(2) unfolding stack_inv_def by blast+
  have head: "popper_knows (K_old (sk_head s)) (sk_node s) as"
    using inv(1) by (cases as; cases "sk_head s") auto
  from assms(1) show ?thesis
  proof cases
    case pop_call
    with inv have "stack_inv p as s'" unfolding stack_inv_def by auto
    then show ?thesis ..
  next
    case pop_load
    with inv head have "stack_inv p as s'" unfolding stack_inv_def by auto
    then show ?thesis ..
  next
    case pop_empty
    with inv have "stack_inv p as s'" unfolding stack_inv_def by (auto simp: is_pop_def)
    then show ?thesis ..
  next
    case (pop_next q x n)
    with inv have "stack_inv p as s'" unfolding stack_inv_def by auto
    then show ?thesis ..
  next
    case (pop_next_freed q)
    with inv(6) live [OF inv(1)] show ?thesis by fastforce
  next
    case (pop_cas q n)
    from inv(1) pop_cas(3) obtain v vs' as' where q: "as = q # as'" "sk_abs s = v # vs'" "sk_node s q = Some (v, n)"
      "stack_of (sk_node s) n as' vs'"
      using inv(6) pop_cas(2) by (cases as) auto
    have "\<And>j. sk_pc s j \<noteq> K_cas q" using inv(4) q(1) by auto
    with inv q pop_cas(1,2) have "stack_inv p as' s'" unfolding stack_inv_def by auto
    then show ?thesis ..
  next
    case (pop_retry q n)
    with inv head have "stack_inv p as s'" unfolding stack_inv_def by auto
    then show ?thesis ..
  next
    case (pop_take q x n)
    have q: "q \<notin> set as" "\<And>j. sk_pc s j \<noteq> K_cas q" using inv(4,6) pop_take(2) by auto
    with inv pop_take have "stack_inv p as s'" unfolding stack_inv_def by (auto simp: is_pop_def stack_of_frame)
    then show ?thesis ..
  next
    case (pop_take_freed q)
    with inv(6) show ?thesis by auto
  qed
qed

lemma one_popper_reach:
  assumes "(one_popper p)\<^sup>*\<^sup>* stack_init s"
  shows "\<exists>as. stack_inv p as s"
  using assms
proof (induction rule: rtranclp_induct)
  case base
  show ?case by (intro exI [of _ "[]"]) (simp add: stack_inv_def stack_init_def is_pop_def)
next
  case (step s s')
  then show ?case using push_inv pop_inv unfolding one_popper_def by metis
qed

subsection \<open>One thread pops\<close>

lemma pop_one:
  assumes "stack_inv p as s" "sk_pc s p = K_idle" "sk_abs s = v # vs"
  shows "\<exists>t as'. (stack_pop p)\<^sup>*\<^sup>* s t \<and> stack_inv p as' t \<and> sk_pc t p = K_idle \<and> sk_abs t = vs \<and>
    sk_popped t = sk_popped s @ [v] \<and> sk_pushed t = sk_pushed s"
proof -
  from assms(1,3) obtain a n as' where h: "sk_head s = Some a" "sk_node s a = Some (v, n)" "as = a # as'"
    by (cases as) (auto simp: stack_inv_def)
  define s1 where "s1 = goto p K_pop s"
  define s2 where "s2 = goto p (K_old (Some a)) s1"
  define s3 where "s3 = goto p (K_next a n) s2"
  define s4 where "s4 = goto p (K_took a) (s3\<lparr>sk_head := n, sk_abs := vs\<rparr>)"
  define s5 where "s5 = goto p K_idle (s4\<lparr>sk_node := (sk_node s4)(a := None), sk_popped := sk_popped s4 @ [v]\<rparr>)"
  have "stack_pop p s s1" using pop_call assms(2) by (simp add: s1_def)
  moreover have "stack_pop p s1 s2" using pop_load [of s1 p] h by (simp add: s1_def s2_def)
  moreover have "stack_pop p s2 s3" using pop_next [of s2 p a v n] h by (simp add: s1_def s2_def s3_def)
  moreover have "stack_pop p s3 s4" using pop_cas [of s3 p a n] h assms(3) by (simp add: s1_def s2_def s3_def s4_def)
  moreover have "stack_pop p s4 s5" using pop_take [of s4 p a v n] h by (simp add: s1_def s2_def s3_def s4_def s5_def)
  ultimately have r: "(stack_pop p)\<^sup>*\<^sup>* s s5" by (meson rtranclp.rtrancl_refl rtranclp.rtrancl_into_rtrancl)
  then have "\<exists>as. stack_inv p as s5"
    using assms(1) by (induction rule: rtranclp_induct) (blast dest: pop_inv)+
  with r show ?thesis by (auto simp: s1_def s2_def s3_def s4_def s5_def)
qed

text \<open>\<open>while (stack.pop(v))\<close>.\<close>

lemma pop_all:
  assumes "stack_inv p as s" "sk_pc s p = K_idle"
  shows "\<exists>t as'. (stack_pop p)\<^sup>*\<^sup>* s t \<and> stack_inv p as' t \<and> sk_pc t p = K_idle \<and> sk_abs t = [] \<and>
    sk_popped t = sk_popped s @ sk_abs s \<and> sk_pushed t = sk_pushed s"
  using assms
proof (induction "sk_abs s" arbitrary: s as)
  case Nil
  then show ?case by (intro exI [of _ s] exI [of _ as]) simp
next
  case (Cons v vs)
  from pop_one [OF Cons.prems Cons.hyps(2) [symmetric]] obtain t as' where t: "(stack_pop p)\<^sup>*\<^sup>* s t" "stack_inv p as' t"
    "sk_pc t p = K_idle" "sk_abs t = vs" "sk_popped t = sk_popped s @ [v]" "sk_pushed t = sk_pushed s" by blast
  from Cons.hyps(1) [OF t(4) [symmetric] t(2,3)] t(1,4,5,6) Cons.hyps(2) [symmetric] show ?case
    by (metis append.assoc append_Cons append_Nil rtranclp_trans)
qed

text \<open>The destructor deletes the nodes from the head on; reading a deleted one has no defined result.\<close>

partial_function (option) sk_delete :: "(nat \<Rightarrow> ('a \<times> nat option) option) \<Rightarrow> nat option \<Rightarrow> (nat \<Rightarrow> ('a \<times> nat option) option) option" where
  "sk_delete nd p = (case p of None \<Rightarrow> Some nd
     | Some a \<Rightarrow> (case nd a of None \<Rightarrow> None | Some c \<Rightarrow> sk_delete (nd(a := None)) (snd c)))"

lemma sk_delete_all:
  assumes "stack_of nd p as vs" "distinct as"
  shows "sk_delete nd p = Some (\<lambda>a. if a \<in> set as then None else nd a)"
  using assms
proof (induction as arbitrary: nd p vs)
  case (Cons a as)
  then obtain v n vs' where h: "p = Some a" "nd a = Some (v, n)" "stack_of nd n as vs'" by auto
  have "stack_of (nd(a := None)) n as vs'" using stack_of_frame [of a as nd None n vs'] Cons.prems(2) h(3) by simp
  with Cons.IH Cons.prems(2) have "sk_delete (nd(a := None)) n = Some (\<lambda>b. if b \<in> set as then None else (nd(a := None)) b)" by simp
  then show ?case using h by (subst sk_delete.simps) auto
next
  case Nil
  then show ?case by (subst sk_delete.simps) simp
qed

text \<open>C15: With any number of pushing threads and one that pops, \<open>LockFreeStack\<close> is a stack: in every
  reachable state the nodes linked from the head hold the values of the abstract stack, from which
  the successful exchanges add and remove the first; no deleted node is ever read; and every value
  pushed is on the stack, popped, or in the hands of the popper. When all threads are idle, popping
  until \<open>pop\<close> returns false takes every value that is left, in order.\<close>

theorem one_popper_is_a_stack:
  assumes "(one_popper p)\<^sup>*\<^sup>* stack_init s"
  shows "(\<exists>as. stack_of (sk_node s) (sk_head s) as (sk_abs s)) \<and> \<not> sk_bad s \<and>
    mset (sk_pushed s) = mset (sk_abs s) + mset (sk_popped s) + mset (in_hands (sk_pc s p) (sk_node s)) \<and>
    (sk_pc s p = K_idle \<longrightarrow> (\<exists>t. (stack_pop p)\<^sup>*\<^sup>* s t \<and> sk_pc t p = K_idle \<and> sk_empty t \<and>
      sk_popped t = sk_popped s @ sk_abs s \<and> mset (sk_popped t) = mset (sk_pushed s)))"
proof -
  from one_popper_reach [OF assms] obtain as where i: "stack_inv p as s" by blast
  have "\<exists>t. (stack_pop p)\<^sup>*\<^sup>* s t \<and> sk_pc t p = K_idle \<and> sk_empty t \<and> sk_popped t = sk_popped s @ sk_abs s \<and>
      mset (sk_popped t) = mset (sk_pushed s)" if "sk_pc s p = K_idle"
  proof -
    from pop_all [OF i that] obtain t as' where t: "(stack_pop p)\<^sup>*\<^sup>* s t" "stack_inv p as' t" "sk_pc t p = K_idle"
      "sk_abs t = []" "sk_popped t = sk_popped s @ sk_abs s" "sk_pushed t = sk_pushed s" by blast
    have "sk_empty t" using t(2,4) by (cases as') (auto simp: stack_inv_def sk_empty_def)
    moreover have "mset (sk_popped t) = mset (sk_pushed t)" using t(2,3,4) by (simp add: stack_inv_def)
    ultimately show ?thesis using t by auto
  qed
  with i show ?thesis unfolding stack_inv_def by blast
qed

subsection \<open>Two threads pop\<close>

text \<open>
  The ABA run. Thread 0 has read node 0 and its successor, node 1. Thread 1 pops and deletes both
  and pushes a new value, for which \<open>new\<close> hands out node 0 again. The exchange of thread 0 succeeds,
  and the head is node 1, which is deleted; the next \<open>pop\<close> reads it.
\<close>

text \<open>A step that a thread is told to take, and a schedule of such steps.\<close>

datatype 'a stack_act = Begin_push 'a | New_node nat | Go_on

definition stack_do :: "nat \<Rightarrow> 'a stack_act \<Rightarrow> 'a stack \<Rightarrow> 'a stack option" where
  "stack_do i act s =
     (case act of
        Begin_push x \<Rightarrow> if sk_pc s i = K_idle then Some (goto i (K_push x) s) else None
      | New_node a \<Rightarrow> (case sk_pc s i of
            K_push x \<Rightarrow> if sk_node s a = None then Some (goto i (K_cas a) (s\<lparr>sk_node := (sk_node s)(a \<mapsto> (x, sk_head s))\<rparr>)) else None
          | _ \<Rightarrow> None)
      | Go_on \<Rightarrow> (case sk_pc s i of
            K_idle \<Rightarrow> Some (goto i K_pop s)
          | K_cas a \<Rightarrow> (case sk_node s a of None \<Rightarrow> None | Some (x, n) \<Rightarrow>
              if n = sk_head s then Some (goto i K_idle (s\<lparr>sk_head := Some a, sk_pushed := sk_pushed s @ [x], sk_abs := x # sk_abs s\<rparr>))
              else None)
          | K_pop \<Rightarrow> Some (goto i (K_old (sk_head s)) s)
          | K_old (Some p) \<Rightarrow> (case sk_node s p of None \<Rightarrow> Some (goto i K_idle (s\<lparr>sk_bad := True\<rparr>))
              | Some (x, n) \<Rightarrow> Some (goto i (K_next p n) s))
          | K_next p n \<Rightarrow> if sk_head s = Some p then Some (goto i (K_took p) (s\<lparr>sk_head := n, sk_abs := tl (sk_abs s)\<rparr>)) else None
          | K_took p \<Rightarrow> (case sk_node s p of None \<Rightarrow> None
              | Some (x, n) \<Rightarrow> Some (goto i K_idle (s\<lparr>sk_node := (sk_node s)(p := None), sk_popped := sk_popped s @ [x]\<rparr>)))
          | _ \<Rightarrow> None))"

fun stack_schedule :: "(nat \<times> 'a stack_act) list \<Rightarrow> 'a stack \<Rightarrow> 'a stack option" where
  "stack_schedule [] s = Some s"
| "stack_schedule ((i, act) # acts) s = Option.bind (stack_do i act s) (stack_schedule acts)"

lemma stack_do_push: "stack_do i act s = Some t \<Longrightarrow> \<not> is_pop (sk_pc s i) \<Longrightarrow> sk_pc s i \<noteq> K_idle \<or> act \<noteq> Go_on \<Longrightarrow> stack_push i s t"
  by (cases act; cases "sk_pc s i")
    (auto simp: stack_do_def is_pop_def intro: stack_push.intros split: if_splits option.splits)

lemma stack_do_pop: "stack_do i Go_on s = Some t \<Longrightarrow> is_pop (sk_pc s i) \<or> sk_pc s i = K_idle \<Longrightarrow> stack_pop i s t"
  by (cases "sk_pc s i") (auto simp: stack_do_def is_pop_def intro: stack_pop.intros split: if_splits option.splits)

lemma stack_do_step: "stack_do i act s = Some t \<Longrightarrow> stack_step s t"
proof (cases "is_pop (sk_pc s i) \<or> sk_pc s i = K_idle \<and> act = Go_on")
  case True
  assume d: "stack_do i act s = Some t"
  have "act = Go_on" using True d by (cases act; cases "sk_pc s i") (auto simp: stack_do_def is_pop_def)
  with stack_do_pop [of i s t] d True show ?thesis by (auto simp: stack_step_def)
next
  case False
  moreover assume "stack_do i act s = Some t"
  ultimately show ?thesis using stack_do_push [of i act s t] by (auto simp: stack_step_def)
qed

lemma stack_schedule_run: "stack_schedule acts s = Some t \<Longrightarrow> stack_step\<^sup>*\<^sup>* s t"
proof (induction acts s rule: stack_schedule.induct)
  case (2 i act acts s)
  then obtain u where "stack_do i act s = Some u" "stack_schedule acts u = Some t" by (auto simp: bind_eq_Some_conv)
  with 2(1) [of u] stack_do_step [of i act s u] show ?case by (simp add: converse_rtranclp_into_rtranclp)
qed simp

definition aba_schedule :: "(nat \<times> int stack_act) list" where
  "aba_schedule =
     [(1, Begin_push 10), (1, New_node 1), (1, Go_on), (1, Begin_push 20), (1, New_node 0), (1, Go_on)] @
     [(0, Go_on), (0, Go_on), (0, Go_on)] @
     replicate 5 (1, Go_on) @ replicate 5 (1, Go_on) @ [(1, Begin_push 30), (1, New_node 0), (1, Go_on)] @
     [(0, Go_on), (0, Go_on)]"

definition aba_state :: "int stack" where
  "aba_state = \<lparr>sk_head = Some 1, sk_node = (\<lambda>_. None), sk_pc = (\<lambda>_. K_idle), sk_bad = False,
     sk_pushed = [10, 20, 30], sk_popped = [20, 10, 30], sk_abs = []\<rparr>"

lemma aba_run:
  "stack_schedule aba_schedule stack_init = Some aba_state"
  "\<exists>t. stack_schedule [(0, Go_on), (0, Go_on), (0, Go_on)] aba_state = Some t \<and> sk_bad t"
  by (simp_all add: aba_schedule_def aba_state_def stack_init_def stack_do_def goto_def numeral_eq_Suc fun_upd_idem fun_upd_twist)

text \<open>With two threads that pop, \<open>LockFreeStack\<close> is not \<open>ABA-safe\<close>, as its comment has it: a
  state is reachable with every value that was pushed popped, both threads idle, and the head at a
  node that was deleted, and from it one in which \<open>pop\<close> has read that node.\<close>

theorem two_poppers_aba:
  "\<exists>s t :: int stack. stack_step\<^sup>*\<^sup>* stack_init s \<and> stack_step\<^sup>*\<^sup>* s t \<and> sk_pc s = (\<lambda>_. K_idle) \<and>
     mset (sk_popped s) = mset (sk_pushed s) \<and> sk_abs s = [] \<and> \<not> sk_empty s \<and>
     (\<exists>a. sk_head s = Some a \<and> sk_node s a = None) \<and> \<not> sk_bad s \<and> sk_bad t"
proof -
  obtain t where "stack_step\<^sup>*\<^sup>* stack_init aba_state" "stack_step\<^sup>*\<^sup>* aba_state t" "sk_bad t"
    using aba_run stack_schedule_run by blast
  then show ?thesis by (intro exI [of _ aba_state] exI [of _ t]) (simp add: aba_state_def sk_empty_def)
qed

lemma one_popper_is_a_stack_witness:
  "\<exists>s t :: int stack. (one_popper 0)\<^sup>*\<^sup>* stack_init s \<and> sk_pushed s = [10] \<and> (stack_pop 0)\<^sup>*\<^sup>* s t \<and> sk_popped t = [10]"
proof -
  let ?b = "goto 1 (K_push 10) stack_init :: int stack"
  let ?c = "goto 1 (K_cas 1) (?b\<lparr>sk_node := (sk_node ?b)(1 \<mapsto> (10, sk_head ?b))\<rparr>)"
  let ?d = "goto 1 K_idle (?c\<lparr>sk_head := Some 1, sk_pushed := sk_pushed ?c @ [10], sk_abs := 10 # sk_abs ?c\<rparr>)"
  have "stack_push 1 stack_init ?b" by (rule push_call) (simp add: stack_init_def)
  moreover have "stack_push 1 ?b ?c" by (rule push_node) (simp_all add: stack_init_def)
  moreover have "stack_push 1 ?c ?d" by (rule push_cas) (simp_all add: stack_init_def)
  ultimately have "one_popper 0 stack_init ?b" "one_popper 0 ?b ?c" "one_popper 0 ?c ?d" unfolding one_popper_def by blast+
  then have r: "(one_popper 0)\<^sup>*\<^sup>* stack_init ?d"
    by (metis (no_types, lifting) rtranclp.rtrancl_refl rtranclp.rtrancl_into_rtrancl)
  have d: "sk_pushed ?d = [10]" "sk_popped ?d = []" "sk_abs ?d = [10]" "sk_pc ?d 0 = K_idle" by (simp_all add: stack_init_def)
  from one_popper_is_a_stack [OF r] d have "\<exists>t. (stack_pop 0)\<^sup>*\<^sup>* ?d t \<and> sk_popped t = [10]" by simp blast
  with r d(1) show ?thesis by blast
qed

end
