(* ===== verification/Open_Hash.thy ===== *)
theory Open_Hash
  imports Prelude
begin

section \<open>\<open>OpenAddressingHashTable\<close> (\<open>topics/microarchitecture/cache_friendly_hash_table.cpp\<close>)\<close>

text \<open>
  A table of optional key-value pairs with linear probing; it doubles when it is half full, by
  inserting all pairs into a new array. The hash function is a parameter. \<open>insert\<close> and \<open>rehash\<close>
  call each other, so they are one partial function over the call that is made; its value \<open>None\<close>
  is a call that never returns, or one whose result is undefined because it takes a remainder
  modulo 0, which happens for a table of capacity 0. For every other table it is shown to return.
\<close>

subsection \<open>Operations\<close>

type_synonym ('k, 'v) cells = "('k \<times> 'v) option list"

record ('k, 'v) oh_table =
  oh_cells :: "('k, 'v) cells"
  oh_size :: nat

definition oh_new :: "nat \<Rightarrow> ('k, 'v) oh_table" where
  "oh_new capacity = \<lparr>oh_cells = replicate capacity None, oh_size = 0\<rparr>"

definition oh_index :: "('k \<Rightarrow> nat) \<Rightarrow> 'k \<Rightarrow> ('k, 'v) cells \<Rightarrow> nat" where
  "oh_index hasher key cells = hasher key mod length cells"

text \<open>The probe loop of \<open>insert\<close>: the index of the cell it stops at.\<close>

function oh_slot :: "'k \<Rightarrow> ('k, 'v) cells \<Rightarrow> nat \<Rightarrow> nat \<Rightarrow> nat option" where
  "oh_slot key cells i j =
     (if j < length cells then
        let idx = (i + j) mod length cells in
        case cells ! idx of None \<Rightarrow> Some idx
        | Some (k, v) \<Rightarrow> if k = key then Some idx else oh_slot key cells i (j + 1)
      else None)"
  by pat_completeness auto
termination by (relation "measure (\<lambda>(k, c, i, j). length c - j)") auto

declare oh_slot.simps [simp del]

definition oh_store :: "nat \<Rightarrow> 'k \<Rightarrow> 'v \<Rightarrow> ('k, 'v) oh_table \<Rightarrow> ('k, 'v) oh_table" where
  "oh_store idx key value t =
     (case oh_cells t ! idx of
        None \<Rightarrow> \<lparr>oh_cells = (oh_cells t)[idx := Some (key, value)], oh_size = oh_size t + 1\<rparr>
      | Some (k, v) \<Rightarrow> t\<lparr>oh_cells := (oh_cells t)[idx := Some (k, value)]\<rparr>)"

datatype ('k, 'v) oh_call = Insert 'k 'v | Refill "('k, 'v) cells"

text \<open>\<open>Refill old\<close> is the loop of \<open>rehash\<close> over the old cells; \<open>rehash\<close> starts it on an empty table.\<close>

partial_function (option) oh_run :: "('k \<Rightarrow> nat) \<Rightarrow> ('k, 'v) oh_call \<Rightarrow> ('k, 'v) oh_table \<Rightarrow> ('k, 'v) oh_table option" where
  "oh_run hasher c t =
     (case c of
        Refill [] \<Rightarrow> Some t
      | Refill (cell # old) \<Rightarrow>
          (case cell of None \<Rightarrow> oh_run hasher (Refill old) t
           | Some (k, v) \<Rightarrow> Option.bind (oh_run hasher (Insert k v) t) (oh_run hasher (Refill old)))
      | Insert key value \<Rightarrow>
          Option.bind (if length (oh_cells t) \<le> oh_size t * 2
                       then oh_run hasher (Refill (oh_cells t)) (oh_new (length (oh_cells t) * 2)) else Some t)
            (\<lambda>t. if length (oh_cells t) = 0 then None
              else case oh_slot key (oh_cells t) (oh_index hasher key (oh_cells t)) 0 of
                Some idx \<Rightarrow> Some (oh_store idx key value t)
              | None \<Rightarrow> Option.bind (oh_run hasher (Refill (oh_cells t)) (oh_new (length (oh_cells t) * 2)))
                  (oh_run hasher (Insert key value))))"

declare oh_run.simps [code]

definition oh_insert :: "('k \<Rightarrow> nat) \<Rightarrow> 'k \<Rightarrow> 'v \<Rightarrow> ('k, 'v) oh_table \<Rightarrow> ('k, 'v) oh_table option" where
  "oh_insert hasher key value t = oh_run hasher (Insert key value) t"

definition oh_rehash :: "('k \<Rightarrow> nat) \<Rightarrow> ('k, 'v) oh_table \<Rightarrow> ('k, 'v) oh_table option" where
  "oh_rehash hasher t = oh_run hasher (Refill (oh_cells t)) (oh_new (length (oh_cells t) * 2))"

function oh_find_from :: "'k \<Rightarrow> ('k, 'v) cells \<Rightarrow> nat \<Rightarrow> nat \<Rightarrow> 'v option" where
  "oh_find_from key cells i j =
     (if j < length cells then
        let idx = (i + j) mod length cells in
        case cells ! idx of None \<Rightarrow> None
        | Some (k, v) \<Rightarrow> if k = key then Some v else oh_find_from key cells i (j + 1)
      else None)"
  by pat_completeness auto
termination by (relation "measure (\<lambda>(k, c, i, j). length c - j)") auto

declare oh_find_from.simps [simp del]

text \<open>
  In a table of capacity 0 \<open>find\<close> takes a remainder modulo 0, which is undefined; the value here is
  then \<open>None\<close>, and nothing is stated of it. Only \<open>oh_new 0\<close> is such a table, and \<open>insert\<close> does not return on it.
\<close>

definition oh_find :: "('k \<Rightarrow> nat) \<Rightarrow> 'k \<Rightarrow> ('k, 'v) oh_table \<Rightarrow> 'v option" where
  "oh_find hasher key t = oh_find_from key (oh_cells t) (oh_index hasher key (oh_cells t)) 0"

subsection \<open>Probing\<close>

definition stops :: "'k \<Rightarrow> ('k, 'v) cells \<Rightarrow> nat \<Rightarrow> bool" where
  "stops key cells idx \<longleftrightarrow> (case cells ! idx of None \<Rightarrow> True | Some (k, v) \<Rightarrow> k = key)"

lemma slot_Some:
  "oh_slot key cells i j = Some idx \<Longrightarrow>
   \<exists>d. j \<le> d \<and> d < length cells \<and> idx = (i + d) mod length cells \<and> stops key cells idx \<and>
     (\<forall>e. j \<le> e \<and> e < d \<longrightarrow> \<not> stops key cells ((i + e) mod length cells))"
proof (induction key cells i j rule: oh_slot.induct)
  case (1 key cells i j)
  show ?case
  proof (cases "j < length cells \<and> \<not> stops key cells ((i + j) mod length cells)")
    case True
    then obtain k v where c: "cells ! ((i + j) mod length cells) = Some (k, v)" "k \<noteq> key"
      by (auto simp: stops_def split: option.splits)
    with True "1.prems" have "oh_slot key cells i (j + 1) = Some idx"
      by (simp add: oh_slot.simps [of key cells i j] Let_def)
    with "1.IH" [OF _ refl c(1) refl c(2)] True obtain d where d: "j + 1 \<le> d" "d < length cells"
      "idx = (i + d) mod length cells" "stops key cells idx"
      "\<forall>e. j + 1 \<le> e \<and> e < d \<longrightarrow> \<not> stops key cells ((i + e) mod length cells)" by auto
    have "\<not> stops key cells ((i + e) mod length cells)" if "j \<le> e" "e < d" for e
      using True d(5) that by (cases "e = j") auto
    with d show ?thesis by (intro exI [of _ d]) auto
  next
    case False
    with "1.prems" show ?thesis
      by (intro exI [of _ j]) (auto simp: oh_slot.simps [of key cells i j] stops_def Let_def split: if_splits option.splits)
  qed
qed

lemma slot_None:
  "oh_slot key cells i j = None \<Longrightarrow> j \<le> d \<Longrightarrow> d < length cells \<Longrightarrow> \<not> stops key cells ((i + d) mod length cells)"
proof (induction key cells i j rule: oh_slot.induct)
  case (1 key cells i j)
  have j: "j < length cells" using "1.prems" by simp
  with "1.prems"(1) obtain k v where c: "cells ! ((i + j) mod length cells) = Some (k, v)" "k \<noteq> key"
    by (auto simp: oh_slot.simps [of key cells i j] Let_def split: option.splits if_splits)
  with "1.prems"(1) j have "oh_slot key cells i (j + 1) = None"
    by (simp add: oh_slot.simps [of key cells i j] Let_def)
  with "1.IH" [OF j refl c(1) refl c(2)] "1.prems" c show ?case
    by (cases "d = j") (auto simp: stops_def)
qed

lemma find_slot: "oh_find_from key cells i j = (case oh_slot key cells i j of None \<Rightarrow> None | Some idx \<Rightarrow> map_option snd (cells ! idx))"
proof (induction key cells i j rule: oh_slot.induct)
  case (1 key cells i j)
  note unfold = oh_find_from.simps [of key cells i j] oh_slot.simps [of key cells i j]
  show ?case
  proof (cases "j < length cells \<and> \<not> stops key cells ((i + j) mod length cells)")
    case True
    then obtain k v where c: "cells ! ((i + j) mod length cells) = Some (k, v)" "k \<noteq> key"
      by (auto simp: stops_def split: option.splits)
    with True "1.IH" [OF _ refl c(1) refl c(2)] show ?thesis by (simp add: unfold Let_def)
  next
    case False
    then show ?thesis by (auto simp: unfold stops_def Let_def split: option.splits)
  qed
qed

subsection \<open>Well-formed tables\<close>

definition occupied :: "('k, 'v) cells \<Rightarrow> nat" where
  "occupied cells = length (filter (\<lambda>c. c \<noteq> None) cells)"

text \<open>
  Keys are distinct, and from the home cell of a key up to its own cell there is no empty one;
  the size is the number of pairs, at most one more than half of the cells.
\<close>

definition oh_ok :: "('k \<Rightarrow> nat) \<Rightarrow> ('k, 'v) oh_table \<Rightarrow> bool" where
  "oh_ok hasher t \<longleftrightarrow> (let cells = oh_cells t; n = length cells in
     0 < n \<and> oh_size t = occupied cells \<and> 2 * oh_size t \<le> n + 2 \<and>
     (\<forall>a b k v w. a < n \<and> b < n \<and> cells ! a = Some (k, v) \<and> cells ! b = Some (k, w) \<longrightarrow> a = b) \<and>
     (\<forall>a k v. a < n \<and> cells ! a = Some (k, v) \<longrightarrow>
        (\<exists>d<n. a = (oh_index hasher k cells + d) mod n \<and> (\<forall>e<d. cells ! ((oh_index hasher k cells + e) mod n) \<noteq> None))))"

lemma stops_simps: "cells ! a = None \<Longrightarrow> stops k cells a" "cells ! a = Some (k', v) \<Longrightarrow> stops k cells a = (k' = k)"
  by (simp_all add: stops_def)

lemma probe_unique:
  assumes "a = (i + d) mod n" "d < n" "\<forall>e<d. \<not> P ((i + e) mod n)" "P a"
    and "b = (i + d') mod n" "d' < n" "\<forall>e<d'. \<not> P ((i + e) mod (n :: nat))" "P b"
  shows "a = b"
  using assms by (metis nat_neq_iff)

text \<open>A probe for a key in the table stops at its cell; for another key it stops at an empty cell, if there is one.\<close>

lemma slot_present:
  assumes "oh_ok hasher t" "a < length (oh_cells t)" "oh_cells t ! a = Some (k, v)"
  shows "oh_slot k (oh_cells t) (oh_index hasher k (oh_cells t)) 0 = Some a"
proof -
  let ?c = "oh_cells t"
  let ?i = "oh_index hasher k ?c"
  obtain d where d: "d < length ?c" "a = (?i + d) mod length ?c" "\<forall>e<d. ?c ! ((?i + e) mod length ?c) \<noteq> None"
    using assms unfolding oh_ok_def Let_def by blast
  have "\<not> stops k ?c ((?i + e) mod length ?c)" if "e < d" for e
  proof
    assume s: "stops k ?c ((?i + e) mod length ?c)"
    with d(3) that obtain w where "?c ! ((?i + e) mod length ?c) = Some (k, w)" by (auto simp: stops_def split: option.splits)
    moreover have "(?i + e) mod length ?c < length ?c" using assms(2) by (intro mod_less_divisor) auto
    ultimately have "(?i + e) mod length ?c = a" using assms unfolding oh_ok_def Let_def by blast
    with d(1,2) that show False using mod_add_inj [of ?i e "length ?c" d] by simp
  qed
  then have u: "\<forall>e<d. \<not> stops k ?c ((?i + e) mod length ?c)" by blast
  have sa: "stops k ?c a" using assms(3) by (simp add: stops_simps)
  show ?thesis
  proof (cases "oh_slot k ?c ?i 0")
    case None
    from slot_None [OF this _ d(1)] d(2) sa show ?thesis by simp
  next
    case (Some b)
    from slot_Some [OF this] obtain d' where "d' < length ?c" "b = (?i + d') mod length ?c" "stops k ?c b"
      "\<forall>e<d'. \<not> stops k ?c ((?i + e) mod length ?c)" by auto
    with probe_unique [of a ?i d "length ?c" "stops k ?c" b d'] d u sa Some show ?thesis by simp
  qed
qed

lemma mod_reaches:
  assumes "a < (n :: nat)"
  shows "\<exists>d<n. (i + d) mod n = a"
proof (intro exI conjI)
  show "(a + n - i mod n) mod n < n" using assms by (intro mod_less_divisor) auto
  have "i mod n < n" using assms by (intro mod_less_divisor) auto
  then have "i mod n + (a + n - i mod n) = a + n" by simp
  moreover have "(i + (a + n - i mod n) mod n) mod n = (i mod n + (a + n - i mod n)) mod n" by (simp only: mod_add_left_eq mod_add_right_eq)
  ultimately show "(i + (a + n - i mod n) mod n) mod n = a" using assms by simp
qed

lemma slot_room:
  assumes "occupied cells < length cells"
  shows "oh_slot k cells i 0 \<noteq> None"
proof
  assume n: "oh_slot k cells i 0 = None"
  have "c \<noteq> None" if "c \<in> set cells" for c
  proof -
    from that obtain a where a: "a < length cells" "cells ! a = c" by (auto simp: in_set_conv_nth)
    from mod_reaches [OF a(1), of i] have "\<exists>d<length cells. (i + d) mod length cells = a" .
    then obtain d where d: "d < length cells" "(i + d) mod length cells = a" by blast
    from slot_None [OF n _ d(1)] d(2) a(2) show ?thesis by (auto simp: stops_def split: option.splits)
  qed
  then have "occupied cells = length cells" by (simp add: occupied_def)
  with assms show False by simp
qed

lemma find_iff:
  assumes "oh_ok hasher t"
  shows "oh_find hasher k t = Some v \<longleftrightarrow> (\<exists>a<length (oh_cells t). oh_cells t ! a = Some (k, v))"
proof
  assume "oh_find hasher k t = Some v"
  then obtain a where a: "oh_slot k (oh_cells t) (oh_index hasher k (oh_cells t)) 0 = Some a" "map_option snd (oh_cells t ! a) = Some v"
    by (auto simp: oh_find_def find_slot split: option.splits)
  from slot_Some [OF a(1)] have "a < length (oh_cells t)" "stops k (oh_cells t) a" by (auto intro: mod_less_divisor)
  with a(2) show "\<exists>a<length (oh_cells t). oh_cells t ! a = Some (k, v)"
    by (intro exI [of _ a]) (auto simp: stops_def split: option.splits)
next
  assume "\<exists>a<length (oh_cells t). oh_cells t ! a = Some (k, v)"
  then obtain a where "a < length (oh_cells t)" "oh_cells t ! a = Some (k, v)" by blast
  with slot_present [OF assms this] show "oh_find hasher k t = Some v" by (simp add: oh_find_def find_slot)
qed

lemma occupied_update: "i < length cells \<Longrightarrow>
    occupied (cells[i := c]) + (if cells ! i \<noteq> None then 1 else 0) = occupied cells + (if c \<noteq> None then 1 else 0)"
  unfolding occupied_def by (rule filter_update)

lemma store_cells:
  assumes "oh_slot k (oh_cells t) (oh_index hasher k (oh_cells t)) 0 = Some idx"
  obtains d where "d < length (oh_cells t)" "idx = (oh_index hasher k (oh_cells t) + d) mod length (oh_cells t)"
    "idx < length (oh_cells t)" "stops k (oh_cells t) idx"
    "\<And>e. e < d \<Longrightarrow> oh_cells t ! ((oh_index hasher k (oh_cells t) + e) mod length (oh_cells t)) \<noteq> None"
    "oh_cells (oh_store idx k v t) = (oh_cells t)[idx := Some (k, v)]"
proof -
  let ?c = "oh_cells t"
  obtain d where d: "d < length ?c" "idx = (oh_index hasher k ?c + d) mod length ?c" "stops k ?c idx"
    "\<forall>e<d. \<not> stops k ?c ((oh_index hasher k ?c + e) mod length ?c)"
    using slot_Some [OF assms] by auto
  have "idx < length ?c" using d(1,2) by (auto intro: mod_less_divisor)
  moreover have "oh_cells (oh_store idx k v t) = ?c[idx := Some (k, v)]"
    using d(3) by (auto simp: oh_store_def stops_def split: option.splits)
  moreover have "?c ! ((oh_index hasher k ?c + e) mod length ?c) \<noteq> None" if "e < d" for e
    using d(4) that by (auto simp: stops_def split: option.splits)
  ultimately show thesis using that d(1-3) by blast
qed

lemma store_entry:
  assumes "oh_ok hasher t" "oh_slot k (oh_cells t) (oh_index hasher k (oh_cells t)) 0 = Some idx"
  shows "a < length (oh_cells t) \<Longrightarrow> (oh_cells (oh_store idx k v t) ! a = Some (q, w)) =
      (if a = idx then q = k \<and> w = v else oh_cells t ! a = Some (q, w))"
    "a \<noteq> idx \<Longrightarrow> a < length (oh_cells t) \<Longrightarrow> oh_cells t ! a = Some (q, w) \<Longrightarrow> q \<noteq> k"
    "oh_cells t ! a \<noteq> None \<Longrightarrow> oh_cells (oh_store idx k v t) ! a \<noteq> None"
proof -
  from store_cells [OF assms(2), of v] have c: "idx < length (oh_cells t)"
    "oh_cells (oh_store idx k v t) = (oh_cells t)[idx := Some (k, v)]" by blast+
  then show "a < length (oh_cells t) \<Longrightarrow> (oh_cells (oh_store idx k v t) ! a = Some (q, w)) =
      (if a = idx then q = k \<and> w = v else oh_cells t ! a = Some (q, w))"
    "oh_cells t ! a \<noteq> None \<Longrightarrow> oh_cells (oh_store idx k v t) ! a \<noteq> None"
    by (auto simp: nth_list_update)
  show "a \<noteq> idx \<Longrightarrow> a < length (oh_cells t) \<Longrightarrow> oh_cells t ! a = Some (q, w) \<Longrightarrow> q \<noteq> k"
    using slot_present [OF assms(1), of a k w] assms(2) by auto
qed

lemma store_size:
  assumes "oh_slot k (oh_cells t) (oh_index hasher k (oh_cells t)) 0 = Some idx"
  shows "length (oh_cells (oh_store idx k v t)) = length (oh_cells t)"
    "oh_cells t ! idx \<noteq> None \<longleftrightarrow> oh_find hasher k t \<noteq> None"
    "oh_size (oh_store idx k v t) = oh_size t + (if oh_find hasher k t = None then 1 else 0)"
proof -
  show "length (oh_cells (oh_store idx k v t)) = length (oh_cells t)"
    using store_cells [OF assms, of v] by (metis length_list_update)
  show here: "oh_cells t ! idx \<noteq> None \<longleftrightarrow> oh_find hasher k t \<noteq> None"
    using assms by (auto simp: oh_find_def find_slot)
  show "oh_size (oh_store idx k v t) = oh_size t + (if oh_find hasher k t = None then 1 else 0)"
    using here by (auto simp: oh_store_def split: option.splits)
qed

lemma store_keeps_ok:
  fixes v :: 'v and t :: "('k, 'v) oh_table"
  assumes "oh_ok hasher t" "2 * oh_size t \<le> length (oh_cells t)"
    and slot: "oh_slot k (oh_cells t) (oh_index hasher k (oh_cells t)) 0 = Some idx"
  shows "oh_ok hasher (oh_store idx k v t)"
proof -
  let ?c = "oh_cells t" and ?t = "oh_store idx k v t"
  let ?n = "length ?c"
  note entry = store_entry(1) [OF assms(1) slot, where v = v] store_entry(2) [OF assms(1) slot]
    store_entry(3) [OF assms(1) slot, where v = v]
  note sz = store_size(1) [OF slot, where v = v] store_size(2) [OF slot] store_size(3) [OF slot, where v = v]
  obtain d where d: "d < ?n" "idx = (oh_index hasher k ?c + d) mod ?n" "idx < ?n"
    "\<And>e. e < d \<Longrightarrow> ?c ! ((oh_index hasher k ?c + e) mod ?n) \<noteq> None" "oh_cells ?t = ?c[idx := Some (k, v)]"
    using store_cells [OF slot, of v] by blast
  have ix: "oh_index hasher q (oh_cells ?t) = oh_index hasher q ?c" for q by (simp add: oh_index_def sz(1))
  have ok: "0 < ?n" "oh_size t = occupied ?c"
    "\<And>a b k v w. a < ?n \<Longrightarrow> b < ?n \<Longrightarrow> ?c ! a = Some (k, v) \<Longrightarrow> ?c ! b = Some (k, w) \<Longrightarrow> a = b"
    "\<And>a k v. a < ?n \<Longrightarrow> ?c ! a = Some (k, v) \<Longrightarrow>
       \<exists>d<?n. a = (oh_index hasher k ?c + d) mod ?n \<and> (\<forall>e<d. ?c ! ((oh_index hasher k ?c + e) mod ?n) \<noteq> None)"
    using assms(1) unfolding oh_ok_def Let_def by blast+
  have "occupied (oh_cells ?t) = oh_size ?t"
    using occupied_update [OF d(3), of "Some (k, v)"] sz(2,3) ok(2) by (auto simp: d(5) split: if_splits)
  moreover have "a = b" if "a < ?n" "b < ?n" "oh_cells ?t ! a = Some (q, x)" "oh_cells ?t ! b = Some (q, y)" for a b q x y
    using that entry(1) [of a q x] entry(1) [of b q y] entry(2) [of a q x] entry(2) [of b q y] ok(3) [of a b q x y]
    by (auto split: if_splits)
  moreover have "\<exists>d<?n. a = (oh_index hasher q ?c + d) mod ?n \<and> (\<forall>e<d. oh_cells ?t ! ((oh_index hasher q ?c + e) mod ?n) \<noteq> None)"
    if a: "a < ?n" "oh_cells ?t ! a = Some (q, x)" for a q x
  proof (cases "a = idx")
    case True
    with entry(1) [OF a(1), of q x] a(2) have "q = k" by simp
    with d(1,2,4) True entry(3) show ?thesis by blast
  next
    case False
    with entry(1) [OF a(1), of q x] a(2) have "?c ! a = Some (q, x)" by simp
    from ok(4) [OF a(1) this] entry(3) show ?thesis by blast
  qed
  ultimately show ?thesis
    using ok(1) assms(2) sz(3) unfolding oh_ok_def Let_def sz(1) ix by (intro conjI allI impI) (auto split: if_splits)
qed

lemma store_find:
  assumes ok: "oh_ok hasher t" "oh_ok hasher (oh_store idx k v t)"
    and slot: "oh_slot k (oh_cells t) (oh_index hasher k (oh_cells t)) 0 = Some idx"
  shows "oh_find hasher k' (oh_store idx k v t) = (if k' = k then Some v else oh_find hasher k' t)"
proof -
  let ?c = "oh_cells t" and ?t = "oh_store idx k v t"
  let ?n = "length ?c"
  note entry = store_entry(1) [OF ok(1) slot, where v = v] store_entry(2) [OF ok(1) slot]
    and n = store_size(1) [OF slot, where v = v]
  have idx: "idx < ?n" "stops k ?c idx" using store_cells [OF slot, of v] by blast+
  have "oh_find hasher k' ?t = Some w \<longleftrightarrow> (if k' = k then w = v else oh_find hasher k' t = Some w)" for w
  proof (cases "k' = k")
    case True
    have "(\<exists>a<?n. oh_cells ?t ! a = Some (k, w)) \<longleftrightarrow> w = v"
    proof
      assume "\<exists>a<?n. oh_cells ?t ! a = Some (k, w)"
      then obtain a where "a < ?n" "oh_cells ?t ! a = Some (k, w)" by blast
      then show "w = v" using entry(1) [of a k w] entry(2) [of a k w] by (metis (full_types))
    next
      assume "w = v"
      then have "oh_cells ?t ! idx = Some (k, w)" using entry(1) [OF idx(1), of k w] by simp
      with idx(1) show "\<exists>a<?n. oh_cells ?t ! a = Some (k, w)" by (intro exI [of _ idx] conjI)
    qed
    with True show ?thesis unfolding find_iff [OF ok(2)] n by simp
  next
    case False
    have "?c ! idx \<noteq> Some (k', w)" using idx(2) False by (auto simp: stops_def)
    with False entry(1) [of _ k' w] have "oh_cells ?t ! a = Some (k', w) \<longleftrightarrow> ?c ! a = Some (k', w)" if "a < ?n" for a
      using that by (cases "a = idx") simp_all
    with False show ?thesis unfolding find_iff [OF ok(2)] find_iff [OF ok(1)] n by auto
  qed
  note iff = this
  show ?thesis
    using iff [of v] iff [of "the (oh_find hasher k' t)"] iff [of "the (oh_find hasher k' ?t)"]
    by (cases "oh_find hasher k' t"; cases "oh_find hasher k' ?t") (auto split: if_splits)
qed

lemma store_ok:
  fixes v :: 'v and t :: "('k, 'v) oh_table"
  assumes "oh_ok hasher t" "2 * oh_size t \<le> length (oh_cells t)"
    and "oh_slot k (oh_cells t) (oh_index hasher k (oh_cells t)) 0 = Some idx"
  defines "t' \<equiv> oh_store idx k v t"
  shows "oh_ok hasher t'" "length (oh_cells t') = length (oh_cells t)"
    and "oh_find hasher k' t' = (if k' = k then Some v else oh_find hasher k' t)"
    and "oh_size t' = oh_size t + (if oh_find hasher k t = None then 1 else 0)"
  unfolding t'_def
  using store_keeps_ok [OF assms(1-3)] store_find [OF assms(1) store_keeps_ok [OF assms(1-3)] assms(3)] store_size [OF assms(3)]
  by blast+

subsection \<open>Insertion and growth\<close>

lemma new_ok: "0 < n \<Longrightarrow> oh_ok hasher (oh_new n) \<and> oh_find hasher k (oh_new n) = None"
proof -
  assume n: "0 < n"
  then have ok: "oh_ok hasher (oh_new n)" by (auto simp: oh_ok_def oh_new_def occupied_def Let_def)
  have "\<not> (\<exists>v. oh_find hasher k (oh_new n) = Some v)"
    unfolding find_iff [OF ok] by (auto simp: oh_new_def)
  with ok show ?thesis by simp
qed

text \<open>What \<open>insert\<close> does after it has made room.\<close>

lemma place_ok:
  fixes v :: 'v and t :: "('k, 'v) oh_table"
  assumes "oh_ok hasher t" "2 * oh_size t \<le> length (oh_cells t)"
  shows "\<exists>t'. (if length (oh_cells t) = 0 then None
      else case oh_slot k (oh_cells t) (oh_index hasher k (oh_cells t)) 0 of
        Some idx \<Rightarrow> Some (oh_store idx k v t)
      | None \<Rightarrow> Option.bind (oh_run hasher (Refill (oh_cells t)) (oh_new (length (oh_cells t) * 2))) (oh_run hasher (Insert k v))) = Some t' \<and>
    oh_ok hasher t' \<and> length (oh_cells t') = length (oh_cells t) \<and>
    (\<forall>q. oh_find hasher q t' = (if q = k then Some v else oh_find hasher q t)) \<and>
    oh_size t' = oh_size t + (if oh_find hasher k t = None then 1 else 0)"
proof -
  have n: "0 < length (oh_cells t)" "oh_size t = occupied (oh_cells t)" using assms unfolding oh_ok_def Let_def by blast+
  with assms(2) have "occupied (oh_cells t) < length (oh_cells t)" by linarith
  from slot_room [OF this] obtain idx where i: "oh_slot k (oh_cells t) (oh_index hasher k (oh_cells t)) 0 = Some idx" by fastforce
  with n(1) store_ok [OF assms i, where v = v] show ?thesis by auto
qed

lemma insert_half_full:
  fixes v :: 'v and t :: "('k, 'v) oh_table"
  assumes "oh_ok hasher t" "2 * oh_size t < length (oh_cells t)"
  shows "\<exists>t'. oh_run hasher (Insert k v) t = Some t' \<and> oh_ok hasher t' \<and> length (oh_cells t') = length (oh_cells t) \<and>
    (\<forall>q. oh_find hasher q t' = (if q = k then Some v else oh_find hasher q t)) \<and>
    oh_size t' = oh_size t + (if oh_find hasher k t = None then 1 else 0)"
  using place_ok [OF assms(1), of k v] assms(2) by (subst oh_run.simps) simp

text \<open>The pairs of the cells, which \<open>rehash\<close> inserts one after the other.\<close>

fun pairs :: "('k, 'v) cells \<Rightarrow> ('k \<times> 'v) list" where
  "pairs [] = []"
| "pairs (None # cs) = pairs cs"
| "pairs (Some p # cs) = p # pairs cs"

lemma length_pairs: "length (pairs cs) = occupied cs"
  by (induction cs rule: pairs.induct) (simp_all add: occupied_def)

lemma set_pairs: "p \<in> set (pairs cs) \<longleftrightarrow> Some p \<in> set cs"
  by (induction cs rule: pairs.induct) auto

lemma distinct_pairs:
  "(\<And>a b k v w. a < length cs \<Longrightarrow> b < length cs \<Longrightarrow> cs ! a = Some (k, v) \<Longrightarrow> cs ! b = Some (k, w) \<Longrightarrow> a = b) \<Longrightarrow>
   distinct (map fst (pairs cs))"
proof (induction cs rule: pairs.induct)
  case (2 cs)
  have "distinct (map fst (pairs cs))"
  proof (rule "2.IH")
    fix a b k v w
    assume "a < length cs" "b < length cs" "cs ! a = Some (k, v)" "cs ! b = Some (k, w)"
    with "2.prems" [of "Suc a" "Suc b" k v w] show "a = b" by simp
  qed
  then show ?case by simp
next
  case (3 p cs)
  have "distinct (map fst (pairs cs))"
  proof (rule "3.IH")
    fix a b k v w
    assume "a < length cs" "b < length cs" "cs ! a = Some (k, v)" "cs ! b = Some (k, w)"
    with "3.prems" [of "Suc a" "Suc b" k v w] show "a = b" by simp
  qed
  moreover have "fst p \<notin> fst ` set (pairs cs)"
  proof
    assume "fst p \<in> fst ` set (pairs cs)"
    then obtain w where "Some (fst p, w) \<in> set cs" by (auto simp: set_pairs)
    then obtain b where "b < length cs" "cs ! b = Some (fst p, w)" by (auto simp: in_set_conv_nth)
    with "3.prems" [of 0 "Suc b" "fst p" "snd p" w] show False by simp
  qed
  ultimately show ?case by simp
qed simp

lemma refill:
  assumes "oh_ok hasher t" "distinct (map fst (pairs cs))" "\<forall>k\<in>fst ` set (pairs cs). oh_find hasher k t = None"
    and "2 * (oh_size t + length (pairs cs)) < length (oh_cells t) + 2"
  shows "\<exists>t'. oh_run hasher (Refill cs) t = Some t' \<and> oh_ok hasher t' \<and> length (oh_cells t') = length (oh_cells t) \<and>
    oh_size t' = oh_size t + length (pairs cs) \<and>
    (\<forall>q. oh_find hasher q t' = (case map_of (pairs cs) q of None \<Rightarrow> oh_find hasher q t | Some v \<Rightarrow> Some v))"
  using assms
proof (induction cs arbitrary: t rule: pairs.induct)
  case 1
  then show ?case by (subst oh_run.simps) simp
next
  case (2 cs)
  then show ?case by (subst oh_run.simps) simp
next
  case (3 p cs)
  obtain k v where p: "p = (k, v)" by (cases p)
  have "2 * oh_size t < length (oh_cells t)" using "3.prems"(4) by simp
  from insert_half_full [OF "3.prems"(1) this, of k v] obtain t1 where t1: "oh_run hasher (Insert k v) t = Some t1"
    "oh_ok hasher t1" "length (oh_cells t1) = length (oh_cells t)"
    "\<forall>q. oh_find hasher q t1 = (if q = k then Some v else oh_find hasher q t)" "oh_size t1 = oh_size t + 1"
    using "3.prems"(3) p by auto
  have "\<exists>t'. oh_run hasher (Refill cs) t1 = Some t' \<and> oh_ok hasher t' \<and> length (oh_cells t') = length (oh_cells t1) \<and>
    oh_size t' = oh_size t1 + length (pairs cs) \<and>
    (\<forall>q. oh_find hasher q t' = (case map_of (pairs cs) q of None \<Rightarrow> oh_find hasher q t1 | Some v \<Rightarrow> Some v))"
    by (rule "3.IH") (use t1 "3.prems" p in auto)
  then obtain t' where t': "oh_run hasher (Refill cs) t1 = Some t'" "oh_ok hasher t'" "length (oh_cells t') = length (oh_cells t1)"
    "oh_size t' = oh_size t1 + length (pairs cs)"
    "\<forall>q. oh_find hasher q t' = (case map_of (pairs cs) q of None \<Rightarrow> oh_find hasher q t1 | Some v \<Rightarrow> Some v)" by blast
  have "map_of (pairs cs) k = None" using "3.prems"(2) p by (auto simp: map_of_eq_None_iff)
  moreover have "oh_run hasher (Refill (Some p # cs)) t = Some t'"
    using t1(1) t'(1) p by (subst oh_run.simps) simp
  ultimately show ?case using t' t1 p by (auto split: option.splits)
qed

lemma pairs_find:
  assumes "oh_ok hasher t"
  shows "map_of (pairs (oh_cells t)) k = oh_find hasher k t" and "distinct (map fst (pairs (oh_cells t)))"
proof -
  show d: "distinct (map fst (pairs (oh_cells t)))"
    by (rule distinct_pairs) (use assms in \<open>unfold oh_ok_def Let_def, blast\<close>)
  have "map_of (pairs (oh_cells t)) k = Some v \<longleftrightarrow> oh_find hasher k t = Some v" for v
    unfolding map_of_eq_Some_iff [OF d] find_iff [OF assms] set_pairs by (auto simp: in_set_conv_nth)
  then show "map_of (pairs (oh_cells t)) k = oh_find hasher k t"
    by (metis not_Some_eq)
qed

text \<open>\<open>rehash\<close> doubles the table and keeps its contents.\<close>

lemma rehash_ok:
  assumes "oh_ok hasher t"
  shows "\<exists>t'. oh_rehash hasher t = Some t' \<and> oh_ok hasher t' \<and> length (oh_cells t') = 2 * length (oh_cells t) \<and>
    oh_size t' = oh_size t \<and> (\<forall>q. oh_find hasher q t' = oh_find hasher q t)"
proof -
  let ?n = "length (oh_cells t)"
  have n: "0 < ?n" "oh_size t = occupied (oh_cells t)" "2 * oh_size t \<le> ?n + 2"
    using assms unfolding oh_ok_def Let_def by blast+
  have e: "oh_ok hasher (oh_new (?n * 2))" "\<And>q. oh_find hasher q (oh_new (?n * 2) :: ('a, 'b) oh_table) = None"
    using new_ok [of "?n * 2" hasher] n(1) by auto
  have s: "oh_size (oh_new (?n * 2)) = 0" "length (oh_cells (oh_new (?n * 2))) = ?n * 2" by (simp_all add: oh_new_def)
  have "\<exists>t'. oh_run hasher (Refill (oh_cells t)) (oh_new (?n * 2)) = Some t' \<and> oh_ok hasher t' \<and>
    length (oh_cells t') = length (oh_cells (oh_new (?n * 2) :: ('a, 'b) oh_table)) \<and>
    oh_size t' = oh_size (oh_new (?n * 2) :: ('a, 'b) oh_table) + length (pairs (oh_cells t)) \<and>
    (\<forall>q. oh_find hasher q t' = (case map_of (pairs (oh_cells t)) q of None \<Rightarrow> oh_find hasher q (oh_new (?n * 2)) | Some v \<Rightarrow> Some v))"
  proof (rule refill [OF e(1) pairs_find(2) [OF assms]])
    show "2 * (oh_size (oh_new (?n * 2) :: ('a, 'b) oh_table) + length (pairs (oh_cells t))) < length (oh_cells (oh_new (?n * 2) :: ('a, 'b) oh_table)) + 2"
      unfolding s length_pairs using n by presburger
  qed (use e(2) in simp)
  then obtain t' where t': "oh_run hasher (Refill (oh_cells t)) (oh_new (?n * 2)) = Some t'" "oh_ok hasher t'"
    "length (oh_cells t') = 2 * ?n" "oh_size t' = oh_size t"
    "\<And>q. oh_find hasher q t' = (case oh_find hasher q t of None \<Rightarrow> None | Some v \<Rightarrow> Some v)"
    unfolding length_pairs pairs_find(1) [OF assms] e(2) s n(2) [symmetric] by (auto simp: mult.commute)
  have "oh_find hasher q t' = oh_find hasher q t" for q using t'(5) [of q] by (cases "oh_find hasher q t") simp_all
  with t'(1-4) show ?thesis unfolding oh_rehash_def by blast
qed

lemma insert_ok:
  assumes "oh_ok hasher t"
  shows "\<exists>t'. oh_insert hasher k v t = Some t' \<and> oh_ok hasher t' \<and>
    (\<forall>q. oh_find hasher q t' = (if q = k then Some v else oh_find hasher q t)) \<and>
    oh_size t' = oh_size t + (if oh_find hasher k t = None then 1 else 0)"
proof (cases "2 * oh_size t < length (oh_cells t)")
  case True
  from insert_half_full [OF assms this, of k v] show ?thesis unfolding oh_insert_def by blast
next
  case False
  from rehash_ok [OF assms] obtain t1 where t1: "oh_rehash hasher t = Some t1" "oh_ok hasher t1"
    "length (oh_cells t1) = 2 * length (oh_cells t)" "oh_size t1 = oh_size t" "\<And>q. oh_find hasher q t1 = oh_find hasher q t" by blast
  have b: "2 * oh_size t \<le> length (oh_cells t) + 2" "0 < length (oh_cells t)"
    using assms unfolding oh_ok_def Let_def by blast+
  have "2 * oh_size t1 \<le> length (oh_cells t1)" unfolding t1(3,4) using b by presburger
  from place_ok [OF t1(2) this, of k v] obtain t' where t': "(if length (oh_cells t1) = 0 then None
      else case oh_slot k (oh_cells t1) (oh_index hasher k (oh_cells t1)) 0 of
        Some idx \<Rightarrow> Some (oh_store idx k v t1)
      | None \<Rightarrow> Option.bind (oh_run hasher (Refill (oh_cells t1)) (oh_new (length (oh_cells t1) * 2))) (oh_run hasher (Insert k v))) = Some t'"
    "oh_ok hasher t'" "\<forall>q. oh_find hasher q t' = (if q = k then Some v else oh_find hasher q t1)"
    "oh_size t' = oh_size t1 + (if oh_find hasher k t1 = None then 1 else 0)" by blast
  have "length (oh_cells t) \<le> oh_size t * 2" using False by simp
  with t1(1) t'(1) have "oh_run hasher (Insert k v) t = Some t'"
    unfolding oh_rehash_def by (subst oh_run.simps) simp
  with t'(2-4) t1(4,5) show ?thesis unfolding oh_insert_def by auto
qed

text \<open>A sequence of insertions.\<close>

fun oh_inserts :: "('k \<Rightarrow> nat) \<Rightarrow> ('k \<times> 'v) list \<Rightarrow> ('k, 'v) oh_table \<Rightarrow> ('k, 'v) oh_table option" where
  "oh_inserts hasher [] t = Some t"
| "oh_inserts hasher ((k, v) # kvs) t = Option.bind (oh_insert hasher k v t) (oh_inserts hasher kvs)"

lemma inserts_ok:
  assumes "oh_ok hasher t" "oh_size t = card (dom (\<lambda>k. oh_find hasher k t))" "finite (dom (\<lambda>k. oh_find hasher k t))"
  shows "\<exists>t'. oh_inserts hasher kvs t = Some t' \<and> oh_ok hasher t' \<and>
    (\<lambda>k. oh_find hasher k t') = (\<lambda>k. oh_find hasher k t) ++ map_of (rev kvs) \<and>
    oh_size t' = card (dom (\<lambda>k. oh_find hasher k t'))"
  using assms
proof (induction kvs arbitrary: t)
  case (Cons p kvs)
  obtain k v where p: "p = (k, v)" by (cases p)
  from insert_ok [OF Cons.prems(1), of k v] obtain t1 where t1: "oh_insert hasher k v t = Some t1" "oh_ok hasher t1"
    "\<forall>q. oh_find hasher q t1 = (if q = k then Some v else oh_find hasher q t)"
    "oh_size t1 = oh_size t + (if oh_find hasher k t = None then 1 else 0)" by blast
  have f: "(\<lambda>q. oh_find hasher q t1) = (\<lambda>q. oh_find hasher q t)(k \<mapsto> v)" using t1(3) by auto
  have "oh_size t1 = card (dom (\<lambda>q. oh_find hasher q t1))"
    unfolding f t1(4) Cons.prems(2) using Cons.prems(3) by (auto simp: insert_absorb card_insert_if)
  moreover have "finite (dom (\<lambda>q. oh_find hasher q t1))" unfolding f using Cons.prems(3) by simp
  ultimately obtain t' where "oh_inserts hasher kvs t1 = Some t'" "oh_ok hasher t'"
    "(\<lambda>q. oh_find hasher q t') = (\<lambda>q. oh_find hasher q t1) ++ map_of (rev kvs)" "oh_size t' = card (dom (\<lambda>q. oh_find hasher q t'))"
    using Cons.IH [OF t1(2)] by blast
  with t1(1) p f show ?case by (intro exI [of _ t']) (simp add: map_add_upd_left)
qed simp

subsection \<open>Property\<close>

text \<open>C16: For every hash function and every capacity but 0, the table is a map: any sequence of
  insertions returns, although \<open>insert\<close> and \<open>rehash\<close> call each other, \<open>find\<close> then gives the value
  inserted last for the key, or nothing, and \<open>size\<close> is the number of distinct keys, at most one
  more than half of the cells. A table of capacity 0 computes a remainder modulo 0 when the first
  pair is inserted.\<close>

theorem open_addressing_is_a_map:
  assumes "0 < capacity"
  shows "(\<exists>t. oh_inserts hasher kvs (oh_new capacity) = Some t \<and> (\<forall>k. oh_find hasher k t = map_of (rev kvs) k) \<and>
      oh_size t = card (fst ` set kvs) \<and> 2 * oh_size t \<le> length (oh_cells t) + 2) \<and>
    oh_insert hasher k v (oh_new 0) = None"
proof
  have n: "oh_ok hasher (oh_new capacity)" "\<And>k. oh_find hasher k (oh_new capacity :: ('a, 'b) oh_table) = None"
    by (simp_all add: new_ok [OF assms])
  then have "oh_size (oh_new capacity :: ('a, 'b) oh_table) = card (dom (\<lambda>k. oh_find hasher k (oh_new capacity :: ('a, 'b) oh_table)))"
    by (simp add: oh_new_def)
  from inserts_ok [OF n(1) this, of kvs] n(2) obtain t where t: "oh_inserts hasher kvs (oh_new capacity) = Some t" "oh_ok hasher t"
    "(\<lambda>k. oh_find hasher k t) = Map.empty ++ map_of (rev kvs)" "oh_size t = card (dom (\<lambda>k. oh_find hasher k t))"
    by auto
  have "dom (\<lambda>k. oh_find hasher k t) = fst ` set kvs" unfolding t(3) by (simp add: dom_map_of_conv_image_fst)
  moreover have "oh_find hasher k t = map_of (rev kvs) k" for k using t(3) by (metis empty_map_add)
  ultimately show "\<exists>t. oh_inserts hasher kvs (oh_new capacity) = Some t \<and> (\<forall>k. oh_find hasher k t = map_of (rev kvs) k) \<and>
      oh_size t = card (fst ` set kvs) \<and> 2 * oh_size t \<le> length (oh_cells t) + 2"
    using t by (intro exI [of _ t]) (simp add: oh_ok_def Let_def)
  show "oh_insert hasher k v (oh_new 0) = None"
    unfolding oh_insert_def by (subst oh_run.simps) (simp add: oh_new_def oh_run.simps [of hasher "Refill []"])
qed

text \<open>The keys of \<open>main\<close>: 1 and 17 collide in a table of 16 cells.\<close>

lemma open_addressing_is_a_map_witness:
  "\<exists>t. oh_inserts (\<lambda>k. k) [(1, ''one''), (2, ''two''), (17, ''seventeen'')] (oh_new 16) = Some t \<and>
     oh_find (\<lambda>k. k) 17 t = Some ''seventeen'' \<and> oh_find (\<lambda>k. k) 1 t = Some ''one'' \<and> oh_find (\<lambda>k. k) 33 t = None \<and> oh_size t = 3"
proof -
  let ?kvs = "[(1, ''one''), (2, ''two''), (17, ''seventeen'')] :: (nat \<times> string) list"
  obtain t where t: "oh_inserts (\<lambda>k. k) ?kvs (oh_new 16) = Some t" "\<forall>k. oh_find (\<lambda>k. k) k t = map_of (rev ?kvs) k"
    "oh_size t = card (fst ` set ?kvs)"
    using open_addressing_is_a_map [of 16 "\<lambda>k. k" ?kvs 1 "''one''"] by auto
  then show ?thesis by (intro exI [of _ t]) simp
qed

end
