(* ===== verification/Queue_Drivers.thy ===== *)
theory Queue_Drivers
  imports Spsc_Rings Waitfree_Queue
begin

section \<open>The programs around the queues\<close>

text \<open>
  The \<open>main\<close> functions of the ring, market-data and wait-free queue programs, and their
  benchmarks: a producer thread pushes \<open>N\<close> messages, spinning while the queue is full, and sets
  a flag; a consumer thread pops until its loop condition says that there is nothing left. The
  loop conditions differ, and that nothing is left behind depends on them. An operation of a
  queue is one step here; a loop condition with two operands is read in two steps.
\<close>

subsection \<open>The two threads\<close>

datatype consumer_pc = C_head | C_second | C_body | C_out

record ('m, 'q) driver =
  dv_i :: nat
  dv_done :: bool
  dv_q :: 'q
  dv_pc :: consumer_pc
  dv_got :: "'m list"

definition driver_init :: "'q \<Rightarrow> ('m, 'q) driver" where
  "driver_init q = \<lparr>dv_i = 0, dv_done = False, dv_q = q, dv_pc = C_head, dv_got = []\<rparr>"

text \<open>The producer; a thread that has ended has no step.\<close>

definition spin_producer :: "('m \<Rightarrow> 'q \<Rightarrow> bool \<times> 'q) \<Rightarrow> (nat \<Rightarrow> 'm) \<Rightarrow> nat \<Rightarrow> ('m, 'q) driver \<Rightarrow> ('m, 'q) driver option" where
  "spin_producer psh msg N s =
     (if dv_i s < N
      then case psh (msg (dv_i s)) (dv_q s) of
             (b, q) \<Rightarrow> Some (s\<lparr>dv_q := q, dv_i := if b then dv_i s + 1 else dv_i s\<rparr>)
      else if dv_done s then None else Some (s\<lparr>dv_done := True\<rparr>))"

text \<open>
  The consumer's loop \<open>while (!done || again) { if (pop(v)) ... }\<close>. With \<open>checks\<close> false the
  condition is \<open>again\<close> alone. What the threads have received is a list, whose length is the
  counter of the code.
\<close>

definition drain_consumer :: "bool \<Rightarrow> (('m, 'q) driver \<Rightarrow> bool) \<Rightarrow> ('q \<Rightarrow> 'm option \<times> 'q) \<Rightarrow>
    ('m, 'q) driver \<Rightarrow> ('m, 'q) driver option" where
  "drain_consumer checks again pp s =
     (case dv_pc s of
        C_head \<Rightarrow> Some (s\<lparr>dv_pc := if checks \<and> \<not> dv_done s then C_body else C_second\<rparr>)
      | C_second \<Rightarrow> Some (s\<lparr>dv_pc := if again s then C_body else C_out\<rparr>)
      | C_body \<Rightarrow>
          (case pp (dv_q s) of
             (None, q) \<Rightarrow> Some (s\<lparr>dv_q := q, dv_pc := C_head\<rparr>)
           | (Some v, q) \<Rightarrow> Some (s\<lparr>dv_q := q, dv_got := dv_got s @ [v], dv_pc := C_head\<rparr>))
      | C_out \<Rightarrow> None)"

inductive drive :: "('s \<Rightarrow> 's option) \<Rightarrow> ('s \<Rightarrow> 's option) \<Rightarrow> 's \<Rightarrow> 's \<Rightarrow> bool"
  for prod cons :: "'s \<Rightarrow> 's option" where
  produces: "prod s = Some t \<Longrightarrow> drive prod cons s t"
| consumes: "cons s = Some t \<Longrightarrow> drive prod cons s t"

text \<open>What a program promises: whoever looks sees the messages in order, the consumer leaves with
  all of them, and both threads can always come to their end.\<close>

definition delivers :: "(('m, 'q) driver \<Rightarrow> ('m, 'q) driver \<Rightarrow> bool) \<Rightarrow> 'q \<Rightarrow> (nat \<Rightarrow> 'm) \<Rightarrow> nat \<Rightarrow> bool" where
  "delivers step q msg N \<longleftrightarrow>
     (\<forall>s. step\<^sup>*\<^sup>* (driver_init q) s \<longrightarrow>
        dv_got s = map msg [0..<length (dv_got s)] \<and>
        (dv_pc s = C_out \<longrightarrow> dv_got s = map msg [0..<N]) \<and>
        (\<exists>t. step\<^sup>*\<^sup>* s t \<and> dv_pc t = C_out \<and> dv_done t \<and> dv_got t = map msg [0..<N]))"

subsection \<open>One proof for all of them\<close>

text \<open>The law of the loop condition: read when the producer is done (or at any time, if the
  condition does not wait for that), it says that something is still to be received.\<close>

locale drained_queue = bounded_fifo push pop items ok cap
  for push :: "'m \<Rightarrow> 'q \<Rightarrow> bool \<times> 'q" and pop :: "'q \<Rightarrow> 'm option \<times> 'q" and items ok cap +
  fixes msg :: "nat \<Rightarrow> 'm" and N :: nat and checks :: bool and again :: "('m, 'q) driver \<Rightarrow> bool"
  assumes cap_pos: "0 < cap"
    and again_pending: "ok (dv_q s) \<Longrightarrow> dv_got s @ items (dv_q s) = map msg [0..<dv_i s] \<Longrightarrow> dv_i s \<le> N \<Longrightarrow>
      (checks \<Longrightarrow> dv_i s = N) \<Longrightarrow> again s \<longleftrightarrow> length (dv_got s) < N"
begin

abbreviation prod :: "('m, 'q) driver \<Rightarrow> ('m, 'q) driver option" where
  "prod \<equiv> spin_producer push msg N"

abbreviation cons :: "('m, 'q) driver \<Rightarrow> ('m, 'q) driver option" where
  "cons \<equiv> drain_consumer checks again pop"

definition inv :: "('m, 'q) driver \<Rightarrow> bool" where
  "inv s \<longleftrightarrow> ok (dv_q s) \<and> dv_got s @ items (dv_q s) = map msg [0..<dv_i s] \<and> dv_i s \<le> N \<and>
     (dv_done s \<longrightarrow> dv_i s = N) \<and> (dv_pc s = C_second \<longrightarrow> checks \<longrightarrow> dv_done s) \<and>
     (dv_pc s = C_out \<longrightarrow> length (dv_got s) = N)"

lemma inv_init: "ok q \<Longrightarrow> items q = [] \<Longrightarrow> inv (driver_init q)"
  by (simp add: inv_def driver_init_def)

lemma inv_length: "inv s \<Longrightarrow> length (dv_got s) + length (items (dv_q s)) = dv_i s"
  unfolding inv_def by (metis diff_zero length_append length_map length_upt)

lemma inv_got: "inv s \<Longrightarrow> dv_got s = map msg [0..<length (dv_got s)]"
proof -
  assume i: "inv s"
  then have "dv_got s = take (length (dv_got s)) (map msg [0..<dv_i s])"
    unfolding inv_def by (metis append_eq_conv_conj)
  also have "\<dots> = map msg [0..<length (dv_got s)]"
    using inv_length [OF i] by (simp add: take_map take_upt)
  finally show ?thesis .
qed

lemma inv_pending: "inv s \<Longrightarrow> items (dv_q s) \<noteq> [] \<Longrightarrow> length (dv_got s) < N"
proof -
  assume i: "inv s" and "items (dv_q s) \<noteq> []"
  then have "0 < length (items (dv_q s))" "dv_i s \<le> N" by (simp_all add: inv_def)
  with inv_length [OF i] show ?thesis by linarith
qed

lemma inv_again: "inv s \<Longrightarrow> dv_pc s = C_second \<Longrightarrow> again s \<longleftrightarrow> length (dv_got s) < N"
  by (rule again_pending) (unfold inv_def, blast+)

lemma inv_prod:
  assumes i: "inv s" and "prod s = Some t"
  shows "inv t"
proof (cases "dv_i s < N")
  case True
  obtain b q where p: "push (msg (dv_i s)) (dv_q s) = (b, q)" by fastforce
  with True assms have t: "t = s\<lparr>dv_q := q, dv_i := if b then dv_i s + 1 else dv_i s\<rparr>" by (simp add: spin_producer_def)
  have "\<not> dv_done s" using i True by (auto simp: inv_def)
  moreover have "ok q \<and> items q = (if b then items (dv_q s) @ [msg (dv_i s)] else items (dv_q s))"
    using push_result [OF _ p] i by (simp add: inv_def)
  moreover have "dv_got s @ items (dv_q s) = map msg [0..<dv_i s]" using i by (simp add: inv_def)
  ultimately show ?thesis using i True unfolding t by (simp add: inv_def)
next
  case False
  with assms show ?thesis by (auto simp: spin_producer_def inv_def split: if_splits)
qed

lemma inv_cons:
  assumes i: "inv s" and "cons s = Some t"
  shows "inv t"
proof (cases "dv_pc s")
  case C_body
  obtain r q where p: "pop (dv_q s) = (r, q)" by fastforce
  have "ok q \<and> items (dv_q s) = (case r of None \<Rightarrow> [] | Some x \<Rightarrow> [x]) @ items q \<and> (r = None \<longleftrightarrow> items (dv_q s) = [])"
    using pop_result [OF _ p] i by (simp add: inv_def)
  moreover have "dv_got s @ items (dv_q s) = map msg [0..<dv_i s]" using i by (simp add: inv_def)
  ultimately show ?thesis using assms p C_body
    by (cases r) (auto simp: drain_consumer_def inv_def)
next
  case C_second
  have "length (dv_got s) \<le> N" using inv_length [OF i] i by (simp add: inv_def)
  with assms C_second inv_again [OF i C_second] show ?thesis by (auto simp: drain_consumer_def inv_def)
qed (use assms in \<open>auto simp: drain_consumer_def inv_def split: if_splits\<close>)

lemma inv_reach: "(drive prod cons)\<^sup>*\<^sup>* s t \<Longrightarrow> inv s \<Longrightarrow> inv t"
proof (induction rule: rtranclp_induct)
  case (step t u)
  from step.hyps(2) show ?case using step.IH [OF step.prems] by cases (auto intro: inv_prod inv_cons)
qed

lemma out_all: "inv s \<Longrightarrow> dv_pc s = C_out \<Longrightarrow> dv_got s = map msg [0..<N]"
  using inv_got [of s] by (simp add: inv_def)

text \<open>
  From every state the threads can finish: the producer moves while the queue has room, the
  consumer while it is not empty or the producer is done.
\<close>

definition rank :: "('m, 'q) driver \<Rightarrow> nat" where
  "rank s = 4 * (N - dv_i s) + 4 * (N - length (dv_got s)) + (if dv_done s then 0 else 1) +
     (case dv_pc s of C_out \<Rightarrow> 0 | C_second \<Rightarrow> if length (dv_got s) < N then 2 else 1
      | C_head \<Rightarrow> if length (dv_got s) < N then 3 else 2 | C_body \<Rightarrow> if length (dv_got s) < N then 1 else 3)"

lemma prod_moves:
  assumes i: "inv s" and "length (items (dv_q s)) < cap" "dv_i s < N"
  shows "\<exists>t. drive prod cons s t \<and> rank t < rank s"
proof -
  from i have "ok (dv_q s)" by (simp add: inv_def)
  from push_room [OF this assms(2), of "msg (dv_i s)"] obtain q where p: "push (msg (dv_i s)) (dv_q s) = (True, q)" by blast
  let ?t = "s\<lparr>dv_q := q, dv_i := dv_i s + 1\<rparr>"
  have "drive prod cons s ?t" by (rule produces) (use p assms(3) in \<open>simp add: spin_producer_def\<close>)
  moreover have "rank ?t < rank s" using assms(3) by (simp add: rank_def)
  ultimately show ?thesis by blast
qed

lemma cons_moves:
  assumes i: "inv s" and out: "dv_pc s \<noteq> C_out" and ready: "items (dv_q s) \<noteq> [] \<or> dv_i s = N \<and> dv_done s"
  shows "\<exists>t. drive prod cons s t \<and> rank t < rank s"
proof (cases "dv_pc s")
  case C_head
  let ?t = "s\<lparr>dv_pc := if checks \<and> \<not> dv_done s then C_body else C_second\<rparr>"
  from inv_pending [OF i] ready have "rank ?t < rank s" using C_head by (auto simp: rank_def)
  moreover have "drive prod cons s ?t" by (rule consumes) (simp add: C_head drain_consumer_def)
  ultimately show ?thesis by blast
next
  case C_second
  let ?t = "s\<lparr>dv_pc := if again s then C_body else C_out\<rparr>"
  have "rank ?t < rank s" using C_second inv_again [OF i C_second] by (simp add: rank_def)
  moreover have "drive prod cons s ?t" by (rule consumes) (simp add: C_second drain_consumer_def)
  ultimately show ?thesis by blast
next
  case C_body
  have l: "length (dv_got s) + length (items (dv_q s)) = dv_i s" "dv_i s \<le> N" "ok (dv_q s)"
    using inv_length [OF i] i by (auto simp: inv_def)
  show ?thesis
  proof (cases "items (dv_q s) = []")
    case True
    with pop_empty l(3) have p: "pop (dv_q s) = (None, dv_q s)" by blast
    let ?t = "s\<lparr>dv_q := dv_q s, dv_pc := C_head\<rparr>"
    have "drive prod cons s ?t" by (rule consumes) (use p C_body in \<open>simp add: drain_consumer_def\<close>)
    moreover have "length (dv_got s) = N" using True ready l by simp
    then have "rank ?t < rank s" using C_body by (simp add: rank_def)
    ultimately show ?thesis by blast
  next
    case False
    from pop_item [OF l(3) False] obtain x q where p: "pop (dv_q s) = (Some x, q)" by blast
    let ?t = "s\<lparr>dv_q := q, dv_got := dv_got s @ [x], dv_pc := C_head\<rparr>"
    have "drive prod cons s ?t" by (rule consumes) (use p C_body in \<open>simp add: drain_consumer_def\<close>)
    moreover have "0 < length (items (dv_q s))" using False by simp
    then have "length (dv_got s) < N" using l by linarith
    then have "rank ?t < rank s" using C_body Suc_diff_Suc [of "length (dv_got s)" N] by (auto simp: rank_def)
    ultimately show ?thesis by blast
  qed
qed (use out in simp)

lemma some_move:
  assumes i: "inv s" and "\<not> (dv_pc s = C_out \<and> dv_done s)"
  shows "\<exists>t. drive prod cons s t \<and> rank t < rank s"
proof (cases "dv_i s < N")
  case True
  show ?thesis
  proof (cases "length (items (dv_q s)) < cap")
    case True
    with prod_moves [OF i] \<open>dv_i s < N\<close> show ?thesis by blast
  next
    case False
    with cap_pos have "items (dv_q s) \<noteq> []" by auto
    moreover have "dv_pc s \<noteq> C_out" using inv_length [OF i] i True by (auto simp: inv_def)
    ultimately show ?thesis using cons_moves [OF i] by blast
  qed
next
  case False
  with i have n: "dv_i s = N" by (simp add: inv_def)
  show ?thesis
  proof (cases "dv_done s")
    case True
    with cons_moves [OF i] n assms(2) show ?thesis by blast
  next
    case False
    let ?t = "s\<lparr>dv_done := True\<rparr>"
    have "drive prod cons s ?t" by (rule produces) (use n False in \<open>simp add: spin_producer_def\<close>)
    moreover have "rank ?t < rank s" using False by (simp add: rank_def)
    ultimately show ?thesis by blast
  qed
qed

lemma finishes:
  assumes "inv s"
  shows "\<exists>t. (drive prod cons)\<^sup>*\<^sup>* s t \<and> dv_pc t = C_out \<and> dv_done t \<and> dv_got t = map msg [0..<N]"
proof -
  have "\<exists>t. (drive prod cons)\<^sup>*\<^sup>* s t \<and> inv t \<and> dv_pc t = C_out \<and> dv_done t"
    by (rule reaches_end [where I = inv and rank = rank, OF assms])
      (use some_move inv_reach [OF r_into_rtranclp] in blast)+
  with out_all show ?thesis by blast
qed

theorem delivered: "ok q \<Longrightarrow> items q = [] \<Longrightarrow> delivers (drive prod cons) q msg N"
  unfolding delivers_def using inv_reach [OF _ inv_init] inv_got out_all finishes by metis

end

subsection \<open>The programs\<close>

text \<open>The loop condition that counts, \<open>received < N\<close>.\<close>

definition counts_below :: "nat \<Rightarrow> ('m, 'q) driver \<Rightarrow> bool" where
  "counts_below N s \<longleftrightarrow> length (dv_got s) < N"

definition bench_ops :: nat where
  "bench_ops = 2000000"

text \<open>\<open>lockfree_spsc_ring_buffer.cpp\<close>: the demo, the deque baseline (whose consumer only counts) and
  the benchmark of the ring. The messages are the numbers of the loop.\<close>

type_synonym lf_state = "(i32, i32 spsc_ring_buffer) driver"

definition lf_main :: "lf_state \<Rightarrow> lf_state \<Rightarrow> bool" where
  "lf_main = drive (spin_producer (srb_push 64) of_nat 100)
     (drain_consumer True (\<lambda>s. \<not> srb_empty (dv_q s)) (srb_pop 64 id))"

definition lf_baseline :: "(i32, i32 mutex_spsc_deque) driver \<Rightarrow> (i32, i32 mutex_spsc_deque) driver \<Rightarrow> bool" where
  "lf_baseline = drive (spin_producer (msd_push 256) of_nat bench_ops)
     (drain_consumer False (counts_below bench_ops) msd_pop)"

definition lf_bench :: "lf_state \<Rightarrow> lf_state \<Rightarrow> bool" where
  "lf_bench = drive (spin_producer (srb_push 256) of_nat bench_ops)
     (drain_consumer True (\<lambda>s. \<not> srb_empty (dv_q s)) (srb_pop 256 id))"

text \<open>\<open>market_data_message_queue.cpp\<close>: the message of number \<open>i\<close>; its two prices are results of
  floating-point arithmetic and stay parameters.\<close>

record md_msg =
  mm_seq :: u32
  mm_symbol_id :: u32
  mm_bid :: double
  mm_ask :: double
  mm_bid_qty :: u32
  mm_ask_qty :: u32

definition md_message :: "(nat \<Rightarrow> double) \<Rightarrow> (nat \<Rightarrow> double) \<Rightarrow> nat \<Rightarrow> md_msg" where
  "md_message bid ask i =
     \<lparr>mm_seq = of_nat i, mm_symbol_id = 1, mm_bid = bid i, mm_ask = ask i, mm_bid_qty = 100, mm_ask_qty = 100\<rparr>"

type_synonym md_state = "(md_msg, md_msg market_data_queue) driver"

definition md_main :: "(nat \<Rightarrow> md_msg) \<Rightarrow> md_state \<Rightarrow> md_state \<Rightarrow> bool" where
  "md_main msg = drive (spin_producer (mdq_publish 1024) msg 1000)
     (drain_consumer True (counts_below 1000) (mdq_consume 1024))"

definition md_baseline :: "(nat \<Rightarrow> md_msg) \<Rightarrow>
    (md_msg, md_msg mutex_msg_queue) driver \<Rightarrow> (md_msg, md_msg mutex_msg_queue) driver \<Rightarrow> bool" where
  "md_baseline msg = drive (spin_producer mmq_publish msg bench_ops)
     (drain_consumer True (counts_below bench_ops) mmq_consume)"

definition md_bench :: "(nat \<Rightarrow> md_msg) \<Rightarrow> md_state \<Rightarrow> md_state \<Rightarrow> bool" where
  "md_bench msg = drive (spin_producer (mdq_publish 1024) msg bench_ops)
     (drain_consumer True (counts_below bench_ops) (mdq_consume 1024))"

text \<open>\<open>waitfree_spsc_queue.cpp\<close>: nothing waits for the producer's end, which \<open>dv_done\<close> only marks.\<close>

type_synonym wf_state = "(i32, i32 waitfree_queue) driver"

definition wf_main :: "wf_state \<Rightarrow> wf_state \<Rightarrow> bool" where
  "wf_main = drive (spin_producer (wf_enqueue 8) of_nat 20) (drain_consumer False (counts_below 20) (wf_dequeue 8 id))"

definition wf_baseline :: "(i32, i32 mutex_spsc_deque) driver \<Rightarrow> (i32, i32 mutex_spsc_deque) driver \<Rightarrow> bool" where
  "wf_baseline = drive (spin_producer (msdw_push 256) of_nat bench_ops)
     (drain_consumer False (counts_below bench_ops) msdw_pop)"

definition wf_bench :: "wf_state \<Rightarrow> wf_state \<Rightarrow> bool" where
  "wf_bench = drive (spin_producer (wf_enqueue 256) of_nat bench_ops)
     (drain_consumer False (counts_below bench_ops) (wf_dequeue 256 id))"

lemma empty_pending:
  assumes "got @ xs = map msg [0..<N]"
  shows "xs \<noteq> [] \<longleftrightarrow> length got < N"
proof -
  from arg_cong [OF assms, of length] have "length got + length xs = N" by simp
  then show ?thesis by (cases xs) auto
qed

interpretation lfd: drained_queue "srb_push (Suc (Suc C))" "srb_pop (Suc (Suc C)) mv" srb_items "srb_ok (Suc (Suc C))"
  "Suc (Suc C) - 1" msg N True "\<lambda>s. \<not> srb_empty (dv_q s)" for C mv msg N
  by unfold_locales (simp_all add: srb_empty_iff empty_pending)

interpretation lfb: drained_queue "msd_push 256" msd_pop msd_q "msd_ok 256" 256 msg N False "counts_below N" for msg N
  by unfold_locales (simp_all add: counts_below_def)

interpretation mdd: drained_queue "mdq_publish 1024" "mdq_consume 1024" mdq_items "mdq_ok 1024" "1024 - 1" msg N True "counts_below N"
  for msg N
  by unfold_locales (simp_all add: counts_below_def)

interpretation mdb: drained_queue mmq_publish mmq_consume mmq_q mmq_ok mmq_Capacity msg N True "counts_below N" for msg N
  by unfold_locales (simp_all add: counts_below_def mmq_Capacity_def)

interpretation wfd: drained_queue "wf_enqueue (Suc C)" "wf_dequeue (Suc C) mv" wf_items "wf_ok (Suc C)" "Suc C" msg N False
  "counts_below N" for C mv msg N
  by unfold_locales (simp_all add: counts_below_def)

interpretation wfb: drained_queue "msdw_push 256" msdw_pop msd_q "msd_ok 256" 256 msg N False "counts_below N" for msg N
  by unfold_locales (simp_all add: counts_below_def)

text \<open>C28: Each of the nine producer-consumer runs of the three ring programs delivers: in every
  interleaving the consumer receives the messages in order, it does not leave its loop before it
  has received all of them, although the producer's flag and the queue are read one after the
  other, and both threads can always come to their end.\<close>

theorem programs_deliver:
  "delivers lf_main (srb_new 64 d) of_nat 100 \<and>
   delivers lf_baseline msd_new of_nat bench_ops \<and>
   delivers lf_bench (srb_new 256 d) of_nat bench_ops \<and>
   delivers (md_main msg) (mdq_new 1024 junk) msg 1000 \<and>
   delivers (md_baseline msg) \<lparr>mmq_q = []\<rparr> msg bench_ops \<and>
   delivers (md_bench msg) (mdq_new 1024 junk) msg bench_ops \<and>
   delivers wf_main (wf_new 8 d) of_nat 20 \<and>
   delivers wf_baseline msd_new of_nat bench_ops \<and>
   delivers wf_bench (wf_new 256 d) of_nat bench_ops"
proof (intro conjI)
  show "delivers lf_main (srb_new 64 d) of_nat 100" "delivers lf_bench (srb_new 256 d) of_nat bench_ops"
    using lfd.delivered [of 62 "srb_new 64 d" of_nat 100 id] lfd.delivered [of 254 "srb_new 256 d" of_nat bench_ops id] srb_new_ok [of 64 d] srb_new_ok [of 256 d]
    by (simp_all add: lf_main_def lf_bench_def)
  show "delivers lf_baseline msd_new of_nat bench_ops" "delivers wf_baseline msd_new of_nat bench_ops"
    using lfb.delivered [of msd_new "of_nat :: nat \<Rightarrow> i32" bench_ops] wfb.delivered [of msd_new "of_nat :: nat \<Rightarrow> i32" bench_ops] by (simp_all add: lf_baseline_def wf_baseline_def msd_new_ok)
  show "delivers (md_main msg) (mdq_new 1024 junk) msg 1000" "delivers (md_bench msg) (mdq_new 1024 junk) msg bench_ops"
    using mdd.delivered [of "mdq_new 1024 junk" msg 1000] mdd.delivered [of "mdq_new 1024 junk" msg bench_ops] mdq_new_ok [of 1024 junk] by (simp_all add: md_main_def md_bench_def)
  show "delivers (md_baseline msg) \<lparr>mmq_q = []\<rparr> msg bench_ops"
    using mdb.delivered [of "\<lparr>mmq_q = []\<rparr>" msg bench_ops] by (simp add: md_baseline_def mmq_ok_def)
  show "delivers wf_main (wf_new 8 d) of_nat 20" "delivers wf_bench (wf_new 256 d) of_nat bench_ops"
    using wfd.delivered [of 7 "wf_new 8 d" of_nat 20 id] wfd.delivered [of 255 "wf_new 256 d" of_nat bench_ops id] wf_new_ok [of 8 d] wf_new_ok [of 256 d]
    by (simp_all add: wf_main_def wf_bench_def)
qed

end
