(* ===== verification/Buffer_Exchange.thy ===== *)
theory Buffer_Exchange
  imports Ring_Index Fifo_Queue
begin

section \<open>Two ways to hand buffers to a consumer\<close>

text \<open>
  \<open>notes_spsc_bump_vs_double_ring.cpp\<close> compares a ring fed from an arena by a bump counter with
  a pair of rings between which a fixed set of buffers circulates. Both come with single and
  with batched transfers. A buffer is the number of its slot in the arena or the pool (a
  \<open>Buffer*\<close> is \<open>&arena[i]\<close> or \<open>&pool[i]\<close>); the 64 bytes in it are never touched. The sizes are
  parameters, named as in the code.
\<close>

named_theorems exchange_defs \<open>definitions of the two programs\<close>

subsection \<open>\<open>SPSCRing<T, Capacity>\<close>\<close>

record 'a batch_ring =
  br_buffer :: "'a list"
  br_head :: nat
  br_tail :: nat

definition br_new :: "'a list \<Rightarrow> 'a batch_ring" where
  "br_new junk = \<lparr>br_buffer = junk, br_head = 0, br_tail = 0\<rparr>"

definition br_mask :: "nat \<Rightarrow> nat" where
  "br_mask Capacity = Capacity - 1"

definition br_push :: "nat \<Rightarrow> 'a \<Rightarrow> 'a batch_ring \<Rightarrow> bool \<times> 'a batch_ring" where
  "br_push Capacity v q =
     (let head = br_head q; next = (head + 1) AND br_mask Capacity
      in if next = br_tail q then (False, q)
         else (True, q\<lparr>br_buffer := (br_buffer q)[head := v], br_head := next\<rparr>))"

definition br_pop :: "nat \<Rightarrow> 'a batch_ring \<Rightarrow> 'a option \<times> 'a batch_ring" where
  "br_pop Capacity q =
     (let tail = br_tail q
      in if tail = br_head q then (None, q)
         else (Some (br_buffer q ! tail), q\<lparr>br_tail := (tail + 1) AND br_mask Capacity\<rparr>))"

text \<open>
  \<open>pop_batch\<close> writes into the span it is given and returns how many elements it wrote;
  \<open>push_batch\<close> stops at the first element that does not fit.
\<close>

function br_pop_loop :: "nat \<Rightarrow> nat \<Rightarrow> 'a list \<Rightarrow> 'a batch_ring \<Rightarrow> nat \<times> 'a list \<times> 'a batch_ring" where
  "br_pop_loop Capacity cnt out q =
     (if cnt < length out
      then case br_pop Capacity q of
             (None, q') \<Rightarrow> (cnt, out, q')
           | (Some v, q') \<Rightarrow> br_pop_loop Capacity (cnt + 1) (out[cnt := v]) q'
      else (cnt, out, q))"
  by auto
termination by (relation "measure (\<lambda>(_, cnt, out, _). length out - cnt)") auto

definition br_pop_batch :: "nat \<Rightarrow> 'a list \<Rightarrow> 'a batch_ring \<Rightarrow> nat \<times> 'a list \<times> 'a batch_ring" where
  "br_pop_batch Capacity out q = br_pop_loop Capacity 0 out q"

fun br_push_batch :: "nat \<Rightarrow> 'a list \<Rightarrow> 'a batch_ring \<Rightarrow> nat \<times> 'a batch_ring" where
  "br_push_batch Capacity [] q = (0, q)"
| "br_push_batch Capacity (v # vs) q =
     (case br_push Capacity v q of
        (False, q') \<Rightarrow> (0, q')
      | (True, q') \<Rightarrow> let (cnt, q'') = br_push_batch Capacity vs q' in (cnt + 1, q''))"

declare br_pop_loop.simps [simp del]

definition br_items :: "'a batch_ring \<Rightarrow> 'a list" where
  "br_items q = ring_items (br_buffer q) (br_tail q) (br_head q)"

definition br_ok :: "nat \<Rightarrow> 'a batch_ring \<Rightarrow> bool" where
  "br_ok Capacity q \<longleftrightarrow> Capacity AND (Capacity - 1) = 0 \<and> length (br_buffer q) = Capacity \<and>
     ring_wf (br_buffer q) (br_tail q) (br_head q)"

lemma br_next: "Capacity AND (Capacity - Suc 0) = 0 \<Longrightarrow> 0 < Capacity \<Longrightarrow> Suc i AND br_mask Capacity = Suc i mod Capacity"
  using mask_index [of Capacity "Suc i"] by (simp add: br_mask_def)

interpretation br: bounded_fifo "br_push Capacity" "br_pop Capacity" br_items "br_ok Capacity" "Capacity - 1" for Capacity
  by unfold_locales
    (auto simp: br_push_def br_pop_def br_items_def br_ok_def br_next ring_wf_nonempty Let_def ring_queue_facts)

lemma br_new_ok: "Capacity AND (Capacity - 1) = 0 \<Longrightarrow> 0 < Capacity \<Longrightarrow> length junk = Capacity \<Longrightarrow>
    br_ok Capacity (br_new junk) \<and> br_items (br_new junk) = []"
  by (auto simp: br_ok_def br_new_def br_items_def ring_wf_def ring_items_def)

lemma br_push_batch_spec: "br_ok Capacity q \<Longrightarrow> br_push_batch Capacity vs q = (n, q') \<Longrightarrow>
    n = min (length vs) (Capacity - 1 - length (br_items q)) \<and> br_ok Capacity q' \<and> br_items q' = br_items q @ take n vs"
proof (induction vs arbitrary: q n)
  case (Cons v vs)
  obtain b q1 where p: "br_push Capacity v q = (b, q1)" by fastforce
  note r = br.push_result [OF Cons.prems(1) p]
  show ?case
  proof (cases b)
    case False
    with r Cons.prems p br.ok_length [of Capacity q] show ?thesis by auto
  next
    case True
    obtain m q2 where m: "br_push_batch Capacity vs q1 = (m, q2)" by fastforce
    with r True Cons.prems p Cons.IH [of q1 m] show ?thesis by auto
  qed
qed auto

lemma br_pop_loop_spec: "br_ok Capacity q \<Longrightarrow> cnt \<le> length out \<Longrightarrow> br_pop_loop Capacity cnt out q = (n, out', q') \<Longrightarrow>
    n = cnt + min (length out - cnt) (length (br_items q)) \<and> br_ok Capacity q' \<and>
    out' = take cnt out @ take (n - cnt) (br_items q) @ drop n out \<and> br_items q' = drop (n - cnt) (br_items q)"
proof (induction Capacity cnt out q arbitrary: n out' rule: br_pop_loop.induct)
  case (1 Capacity cnt out q)
  show ?case
  proof (cases "cnt < length out")
    case False
    with 1(4) have "n = cnt" "out' = out" "q' = q" by (auto simp: br_pop_loop.simps [of _ cnt])
    with 1(2,3) False show ?thesis by simp
  next
    case True
    obtain r q1 where p: "br_pop Capacity q = (r, q1)" by fastforce
    note s = br.pop_result [OF 1(2) p]
    show ?thesis
    proof (cases r)
      case None
      with 1(4) True p have "n = cnt" "out' = out" "q' = q1" by (auto simp: br_pop_loop.simps [of _ cnt])
      moreover have "br_items q1 = []" "br_items q = []" using s None by auto
      ultimately show ?thesis using s by simp
    next
      case (Some v)
      with 1 True p have "br_pop_loop Capacity (Suc cnt) (out[cnt := v]) q1 = (n, out', q')"
        by (simp add: br_pop_loop.simps [of _ cnt])
      with 1(1) [OF True p [symmetric] Some, of n out'] s True have
        "n = Suc cnt + min (length out - Suc cnt) (length (br_items q1)) \<and> br_ok Capacity q' \<and>
         out' = take (Suc cnt) (out[cnt := v]) @ take (n - Suc cnt) (br_items q1) @ drop n out \<and>
         br_items q' = drop (n - Suc cnt) (br_items q1)"
        using Some by simp
      moreover from this obtain k where "n = Suc cnt + k" by blast
      ultimately show ?thesis using s Some True by (auto simp: take_Suc_conv_app_nth)
    qed
  qed
qed

subsection \<open>A ring fed by a bump counter\<close>

text \<open>
  The phases of a thread, which stand for its place in the loop: at the test of \<open>stop\<close>, in
  \<open>while (!ring.push(buf)) {}\<close>, filling its batch, in \<open>pop_batch\<close> or \<open>push_batch\<close> (whose single
  transfers are steps of their own, so the other thread runs in between), about to add to
  \<open>processed\<close>, or out of the loop. \<open>Sending n i\<close> is \<open>push_batch\<close> of a span of length \<open>n\<close>, \<open>i\<close> of whose
  elements have been accepted.
\<close>

datatype phase = At_top | Spinning | Filling nat | Popping nat | Counting nat | Sending nat nat | Left_loop

text \<open>
  The index a producer takes: \<open>fetch_add\<close>, and the reset once the counter has passed the arena.
  Only the producer uses the counter. With single transfers the index that was fetched is used
  even when the counter is reset; with batches it is replaced by 0.
\<close>

definition bump_idx :: "bool \<Rightarrow> nat \<Rightarrow> nat \<Rightarrow> nat \<times> nat" where
  "bump_idx batch ARENA_CAP offset =
     (let idx = offset; offset' = offset + 1
      in if \<not> batch then (idx, if ARENA_CAP \<le> idx then 0 else offset')
         else if ARENA_CAP \<le> idx then (0, 0) else (idx, offset'))"

record bump =
  bu_offset :: nat
  bu_ring :: "nat batch_ring"
  bu_stop :: bool
  bu_processed :: u64
  bu_prod :: phase
  bu_buf :: nat
  bu_batch_buf :: "nat list"
  bu_cons :: phase
  bu_got :: nat
  bu_got_batch :: "nat list"

definition bump_new :: "nat list \<Rightarrow> nat \<Rightarrow> nat list \<Rightarrow> nat list \<Rightarrow> bump" where
  "bump_new junk p ps qs =
     \<lparr>bu_offset = 0, bu_ring = br_new junk, bu_stop = False, bu_processed = 0, bu_prod = At_top,
      bu_buf = p, bu_batch_buf = ps, bu_cons = At_top, bu_got = p, bu_got_batch = qs\<rparr>"

definition bump_producer :: "bool \<Rightarrow> nat \<Rightarrow> nat \<Rightarrow> nat \<Rightarrow> bump \<Rightarrow> bump option" where [exchange_defs]:
  "bump_producer batch ARENA_CAP RING_SIZE BATCH_SIZE s =
     (case bu_prod s of
        At_top \<Rightarrow>
          Some (if bu_stop s then s\<lparr>bu_prod := Left_loop\<rparr>
                else if \<not> batch
                then case bump_idx False ARENA_CAP (bu_offset s) of
                       (idx, off) \<Rightarrow> s\<lparr>bu_offset := off, bu_buf := idx, bu_prod := Spinning\<rparr>
                else s\<lparr>bu_prod := Filling 0\<rparr>)
      | Spinning \<Rightarrow>
          (case br_push RING_SIZE (bu_buf s) (bu_ring s) of
             (ok, r) \<Rightarrow> Some (s\<lparr>bu_ring := r, bu_prod := if ok then At_top else Spinning\<rparr>))
      | Filling n \<Rightarrow>
          Some (if n < BATCH_SIZE
                then case bump_idx True ARENA_CAP (bu_offset s) of
                       (idx, off) \<Rightarrow> s\<lparr>bu_offset := off, bu_batch_buf := (bu_batch_buf s)[n := idx], bu_prod := Filling (n + 1)\<rparr>
                else s\<lparr>bu_prod := Sending n 0\<rparr>)
      | Sending n i \<Rightarrow>
          if i < n
          then case br_push RING_SIZE (bu_batch_buf s ! i) (bu_ring s) of
                 (ok, r) \<Rightarrow> Some (s\<lparr>bu_ring := r, bu_prod := if ok then Sending n (i + 1) else Sending n 0\<rparr>)
          else Some (s\<lparr>bu_prod := At_top\<rparr>)
      | _ \<Rightarrow> None)"

definition bump_consumer :: "bool \<Rightarrow> nat \<Rightarrow> nat \<Rightarrow> bump \<Rightarrow> bump option" where [exchange_defs]:
  "bump_consumer batch RING_SIZE BATCH_SIZE s =
     (case bu_cons s of
        At_top \<Rightarrow>
          if bu_stop s then Some (s\<lparr>bu_cons := Left_loop\<rparr>)
          else if \<not> batch
          then case br_pop RING_SIZE (bu_ring s) of
                 (None, r) \<Rightarrow> Some (s\<lparr>bu_ring := r\<rparr>)
               | (Some b, r) \<Rightarrow> Some (s\<lparr>bu_ring := r, bu_got := b, bu_cons := Counting 1\<rparr>)
          else Some (s\<lparr>bu_cons := Popping 0\<rparr>)
      | Popping n \<Rightarrow>
          if n < BATCH_SIZE
          then case br_pop RING_SIZE (bu_ring s) of
                 (None, r) \<Rightarrow> Some (s\<lparr>bu_ring := r, bu_cons := if n = 0 then At_top else Counting n\<rparr>)
               | (Some b, r) \<Rightarrow> Some (s\<lparr>bu_ring := r, bu_got_batch := (bu_got_batch s)[n := b], bu_cons := Popping (n + 1)\<rparr>)
          else Some (s\<lparr>bu_cons := if n = 0 then At_top else Counting n\<rparr>)
      | Counting n \<Rightarrow> Some (s\<lparr>bu_processed := bu_processed s + of_nat n, bu_cons := At_top\<rparr>)
      | _ \<Rightarrow> None)"

inductive bump_step :: "bool \<Rightarrow> nat \<Rightarrow> nat \<Rightarrow> nat \<Rightarrow> bump \<Rightarrow> bump \<Rightarrow> bool"
  for batch :: bool and ARENA_CAP RING_SIZE BATCH_SIZE :: nat where
  bump_produces: "bump_producer batch ARENA_CAP RING_SIZE BATCH_SIZE s = Some t \<Longrightarrow> bump_step batch ARENA_CAP RING_SIZE BATCH_SIZE s t"
| bump_consumes: "bump_consumer batch RING_SIZE BATCH_SIZE s = Some t \<Longrightarrow> bump_step batch ARENA_CAP RING_SIZE BATCH_SIZE s t"
| bump_stops: "bump_step batch ARENA_CAP RING_SIZE BATCH_SIZE s (s\<lparr>bu_stop := True\<rparr>)"

subsection \<open>Two rings and a fixed set of buffers\<close>

text \<open>
  \<open>batch_buf\<close> is declared outside both threads, which capture it by reference, so with batches
  they fill and send the same array. \<open>buf\<close> is a local variable of each.
\<close>

record double_ring =
  dr_free :: "nat batch_ring"
  dr_used :: "nat batch_ring"
  dr_stop :: bool
  dr_processed :: u64
  dr_batch_buf :: "nat list"
  dr_prod :: phase
  dr_buf :: nat
  dr_cons :: phase
  dr_got :: nat

text \<open>The loop over the pool ignores whether a buffer was accepted.\<close>

definition dr_fill :: "nat \<Rightarrow> nat \<Rightarrow> nat batch_ring \<Rightarrow> nat batch_ring" where
  "dr_fill POOL_SIZE RING_SIZE q = fold (\<lambda>i q. snd (br_push RING_SIZE i q)) [0..<POOL_SIZE] q"

definition dr_new :: "nat \<Rightarrow> nat \<Rightarrow> nat list \<Rightarrow> nat list \<Rightarrow> nat \<Rightarrow> double_ring" where
  "dr_new POOL_SIZE RING_SIZE junk ps p =
     \<lparr>dr_free = dr_fill POOL_SIZE RING_SIZE (br_new junk), dr_used = br_new junk, dr_stop = False,
      dr_processed = 0, dr_batch_buf = ps, dr_prod = At_top, dr_buf = p, dr_cons = At_top, dr_got = p\<rparr>"

definition dr_producer :: "bool \<Rightarrow> nat \<Rightarrow> nat \<Rightarrow> double_ring \<Rightarrow> double_ring option" where [exchange_defs]:
  "dr_producer batch RING_SIZE BATCH_SIZE s =
     (case dr_prod s of
        At_top \<Rightarrow>
          if dr_stop s then Some (s\<lparr>dr_prod := Left_loop\<rparr>)
          else if \<not> batch
          then case br_pop RING_SIZE (dr_free s) of
                 (None, r) \<Rightarrow> Some (s\<lparr>dr_free := r\<rparr>)
               | (Some b, r) \<Rightarrow> Some (s\<lparr>dr_free := r, dr_buf := b, dr_prod := Spinning\<rparr>)
          else Some (s\<lparr>dr_prod := Filling 0\<rparr>)
      | Spinning \<Rightarrow>
          (case br_push RING_SIZE (dr_buf s) (dr_used s) of
             (ok, r) \<Rightarrow> Some (s\<lparr>dr_used := r, dr_prod := if ok then At_top else Spinning\<rparr>))
      | Filling n \<Rightarrow>
          if n < BATCH_SIZE
          then case br_pop RING_SIZE (dr_free s) of
                 (None, r) \<Rightarrow> Some (s\<lparr>dr_free := r, dr_prod := if n = 0 then At_top else Sending n 0\<rparr>)
               | (Some b, r) \<Rightarrow> Some (s\<lparr>dr_free := r, dr_buf := b, dr_batch_buf := (dr_batch_buf s)[n := b],
                                       dr_prod := Filling (n + 1)\<rparr>)
          else Some (s\<lparr>dr_prod := if n = 0 then At_top else Sending n 0\<rparr>)
      | Sending n i \<Rightarrow>
          if i < n
          then case br_push RING_SIZE (dr_batch_buf s ! i) (dr_used s) of
                 (ok, r) \<Rightarrow> Some (s\<lparr>dr_used := r, dr_prod := if ok then Sending n (i + 1) else Sending n 0\<rparr>)
          else Some (s\<lparr>dr_prod := At_top\<rparr>)
      | _ \<Rightarrow> None)"

definition dr_consumer :: "bool \<Rightarrow> nat \<Rightarrow> nat \<Rightarrow> double_ring \<Rightarrow> double_ring option" where [exchange_defs]:
  "dr_consumer batch RING_SIZE BATCH_SIZE s =
     (case dr_cons s of
        At_top \<Rightarrow>
          if dr_stop s then Some (s\<lparr>dr_cons := Left_loop\<rparr>)
          else if \<not> batch
          then case br_pop RING_SIZE (dr_used s) of
                 (None, r) \<Rightarrow> Some (s\<lparr>dr_used := r\<rparr>)
               | (Some b, r) \<Rightarrow> Some (s\<lparr>dr_used := r, dr_got := b, dr_cons := Counting 1\<rparr>)
          else Some (s\<lparr>dr_cons := Popping 0\<rparr>)
      | Popping n \<Rightarrow>
          if n < BATCH_SIZE
          then case br_pop RING_SIZE (dr_used s) of
                 (None, r) \<Rightarrow> Some (s\<lparr>dr_used := r, dr_cons := if n = 0 then At_top else Counting n\<rparr>)
               | (Some b, r) \<Rightarrow> Some (s\<lparr>dr_used := r, dr_batch_buf := (dr_batch_buf s)[n := b], dr_cons := Popping (n + 1)\<rparr>)
          else Some (s\<lparr>dr_cons := if n = 0 then At_top else Counting n\<rparr>)
      | Counting n \<Rightarrow>
          Some (s\<lparr>dr_processed := dr_processed s + of_nat n, dr_cons := if batch then Sending n 0 else Spinning\<rparr>)
      | Spinning \<Rightarrow>
          (case br_push RING_SIZE (dr_got s) (dr_free s) of
             (ok, r) \<Rightarrow> Some (s\<lparr>dr_free := r, dr_cons := if ok then At_top else Spinning\<rparr>))
      | Sending n i \<Rightarrow>
          if i < n
          then case br_push RING_SIZE (dr_batch_buf s ! i) (dr_free s) of
                 (ok, r) \<Rightarrow> Some (s\<lparr>dr_free := r, dr_cons := if ok then Sending n (i + 1) else Sending n 0\<rparr>)
          else Some (s\<lparr>dr_cons := At_top\<rparr>)
      | _ \<Rightarrow> None)"

inductive dr_step :: "bool \<Rightarrow> nat \<Rightarrow> nat \<Rightarrow> double_ring \<Rightarrow> double_ring \<Rightarrow> bool"
  for batch :: bool and RING_SIZE BATCH_SIZE :: nat where
  dr_produces: "dr_producer batch RING_SIZE BATCH_SIZE s = Some t \<Longrightarrow> dr_step batch RING_SIZE BATCH_SIZE s t"
| dr_consumes: "dr_consumer batch RING_SIZE BATCH_SIZE s = Some t \<Longrightarrow> dr_step batch RING_SIZE BATCH_SIZE s t"
| dr_stops: "dr_step batch RING_SIZE BATCH_SIZE s (s\<lparr>dr_stop := True\<rparr>)"

subsection \<open>Single transfers between the two rings\<close>

lemma dr_fill_spec:
  assumes "br_ok RING_SIZE q" "br_items q = []"
  shows "br_ok RING_SIZE (dr_fill POOL_SIZE RING_SIZE q) \<and>
    br_items (dr_fill POOL_SIZE RING_SIZE q) = [0..<min POOL_SIZE (RING_SIZE - 1)]"
proof (induction POOL_SIZE)
  case 0
  from assms show ?case by (simp add: dr_fill_def)
next
  case (Suc n)
  let ?q = "dr_fill n RING_SIZE q"
  have s: "dr_fill (Suc n) RING_SIZE q = snd (br_push RING_SIZE n ?q)" by (simp add: dr_fill_def)
  obtain b r where p: "br_push RING_SIZE n ?q = (b, r)" by fastforce
  from br.push_result [OF _ p] Suc s p show ?case by (cases "n < RING_SIZE - 1") (auto simp: min_def)
qed

definition in_hand :: "phase \<Rightarrow> nat \<Rightarrow> nat multiset" where
  "in_hand pc b = (if pc = Spinning \<or> pc = Counting 1 then {#b#} else {#})"

definition dr_held :: "double_ring \<Rightarrow> nat multiset" where
  "dr_held s = mset (br_items (dr_free s)) + mset (br_items (dr_used s)) +
     in_hand (dr_prod s) (dr_buf s) + in_hand (dr_cons s) (dr_got s)"

definition dr_inv :: "nat \<Rightarrow> nat \<Rightarrow> double_ring \<Rightarrow> bool" where
  "dr_inv POOL_SIZE RING_SIZE s \<longleftrightarrow>
     br_ok RING_SIZE (dr_free s) \<and> br_ok RING_SIZE (dr_used s) \<and>
     dr_prod s \<in> {At_top, Spinning, Left_loop} \<and> dr_cons s \<in> {At_top, Counting 1, Spinning, Left_loop} \<and>
     dr_held s = mset [0..<min POOL_SIZE (RING_SIZE - 1)]"

lemma dr_inv_init:
  assumes "RING_SIZE AND (RING_SIZE - 1) = 0" "0 < RING_SIZE" "length junk = RING_SIZE"
  shows "dr_inv POOL_SIZE RING_SIZE (dr_new POOL_SIZE RING_SIZE junk ps p)"
  using br_new_ok [OF assms] dr_fill_spec [of RING_SIZE "br_new junk" POOL_SIZE]
  by (simp add: dr_inv_def dr_new_def dr_held_def in_hand_def)

lemma dr_room:
  assumes "dr_inv POOL_SIZE RING_SIZE s"
  shows "dr_prod s = Spinning \<Longrightarrow> length (br_items (dr_used s)) < RING_SIZE - 1"
    and "dr_cons s = Spinning \<Longrightarrow> length (br_items (dr_free s)) < RING_SIZE - 1"
proof -
  have "size (dr_held s) = min POOL_SIZE (RING_SIZE - 1)"
    using assms by (simp add: dr_inv_def del: mset_upt)
  then show "dr_prod s = Spinning \<Longrightarrow> length (br_items (dr_used s)) < RING_SIZE - 1"
    and "dr_cons s = Spinning \<Longrightarrow> length (br_items (dr_free s)) < RING_SIZE - 1"
    by (simp_all add: dr_held_def in_hand_def split: if_splits)
qed

text \<open>A step keeps the invariant when it keeps the two rings in order and what is held.\<close>

lemma dr_inv_step:
  assumes "dr_inv POOL_SIZE RING_SIZE s" "br_ok RING_SIZE (dr_free t)" "br_ok RING_SIZE (dr_used t)"
    "dr_prod t \<in> {At_top, Spinning, Left_loop}" "dr_cons t \<in> {At_top, Counting 1, Spinning, Left_loop}"
    "dr_held t = dr_held s"
  shows "dr_inv POOL_SIZE RING_SIZE t"
  using assms unfolding dr_inv_def by metis

lemma dr_inv_facts:
  assumes "dr_inv POOL_SIZE RING_SIZE s"
  shows "br_ok RING_SIZE (dr_free s)" "br_ok RING_SIZE (dr_used s)"
    "dr_prod s \<in> {At_top, Spinning, Left_loop}" "dr_cons s \<in> {At_top, Counting 1, Spinning, Left_loop}"
  using assms unfolding dr_inv_def by blast+

lemma dr_producer_inv:
  assumes inv: "dr_inv POOL_SIZE RING_SIZE s" and step: "dr_producer False RING_SIZE BATCH_SIZE s = Some t"
  shows "dr_inv POOL_SIZE RING_SIZE t"
proof -
  note i = dr_inv_facts [OF inv]
  obtain r f where pop: "br_pop RING_SIZE (dr_free s) = (r, f)" by fastforce
  obtain b u where push: "br_push RING_SIZE (dr_buf s) (dr_used s) = (b, u)" by fastforce
  note pops = br.pop_result [OF i(1) pop] and pushes = br.push_result [OF i(2) push]
  consider "dr_prod s = At_top" "dr_stop s" | "dr_prod s = At_top" "\<not> dr_stop s" "r = None"
    | x where "dr_prod s = At_top" "\<not> dr_stop s" "r = Some x" | "dr_prod s = Spinning" | "dr_prod s = Left_loop"
    using i(3) by blast
  then show ?thesis
  proof cases
    case 1
    then have t: "t = s\<lparr>dr_prod := Left_loop\<rparr>" using step by (simp add: dr_producer_def)
    show ?thesis by (rule dr_inv_step [OF inv]) (use t i 1 in \<open>simp_all add: dr_held_def in_hand_def\<close>)
  next
    case 2
    then have t: "t = s\<lparr>dr_free := f\<rparr>" using step pop by (simp add: dr_producer_def)
    show ?thesis by (rule dr_inv_step [OF inv]) (use t i 2 pops in \<open>simp_all add: dr_held_def in_hand_def\<close>)
  next
    case 3
    then have t: "t = s\<lparr>dr_free := f, dr_buf := x, dr_prod := Spinning\<rparr>" using step pop by (simp add: dr_producer_def)
    show ?thesis by (rule dr_inv_step [OF inv]) (use t i 3 pops in \<open>simp_all add: dr_held_def in_hand_def\<close>)
  next
    case 4
    with pushes dr_room(1) [OF inv] have b: b by simp
    then have t: "t = s\<lparr>dr_used := u, dr_prod := At_top\<rparr>" using step push 4 by (simp add: dr_producer_def)
    show ?thesis by (rule dr_inv_step [OF inv]) (use t i 4 b pushes in \<open>simp_all add: dr_held_def in_hand_def\<close>)
  next
    case 5
    with step show ?thesis by (simp add: dr_producer_def)
  qed
qed

lemma dr_consumer_inv:
  assumes inv: "dr_inv POOL_SIZE RING_SIZE s" and step: "dr_consumer False RING_SIZE BATCH_SIZE s = Some t"
  shows "dr_inv POOL_SIZE RING_SIZE t"
proof -
  note i = dr_inv_facts [OF inv]
  obtain r u where pop: "br_pop RING_SIZE (dr_used s) = (r, u)" by fastforce
  obtain b f where push: "br_push RING_SIZE (dr_got s) (dr_free s) = (b, f)" by fastforce
  note pops = br.pop_result [OF i(2) pop] and pushes = br.push_result [OF i(1) push]
  consider "dr_cons s = At_top" "dr_stop s" | "dr_cons s = At_top" "\<not> dr_stop s" "r = None"
    | x where "dr_cons s = At_top" "\<not> dr_stop s" "r = Some x" | "dr_cons s = Counting 1"
    | "dr_cons s = Spinning" | "dr_cons s = Left_loop"
    using i(4) by blast
  then show ?thesis
  proof cases
    case 1
    then have t: "t = s\<lparr>dr_cons := Left_loop\<rparr>" using step by (simp add: dr_consumer_def)
    show ?thesis by (rule dr_inv_step [OF inv]) (use t i 1 in \<open>simp_all add: dr_held_def in_hand_def\<close>)
  next
    case 2
    then have t: "t = s\<lparr>dr_used := u\<rparr>" using step pop by (simp add: dr_consumer_def)
    show ?thesis by (rule dr_inv_step [OF inv]) (use t i 2 pops in \<open>simp_all add: dr_held_def in_hand_def\<close>)
  next
    case 3
    then have t: "t = s\<lparr>dr_used := u, dr_got := x, dr_cons := Counting 1\<rparr>" using step pop by (simp add: dr_consumer_def)
    show ?thesis by (rule dr_inv_step [OF inv]) (use t i 3 pops in \<open>simp_all add: dr_held_def in_hand_def\<close>)
  next
    case 4
    then have t: "t = s\<lparr>dr_processed := dr_processed s + 1, dr_cons := Spinning\<rparr>" using step by (simp add: dr_consumer_def)
    show ?thesis by (rule dr_inv_step [OF inv]) (use t i 4 in \<open>simp_all add: dr_held_def in_hand_def\<close>)
  next
    case 5
    with pushes dr_room(2) [OF inv] have b: b by simp
    then have t: "t = s\<lparr>dr_free := f, dr_cons := At_top\<rparr>" using step push 5 by (simp add: dr_consumer_def)
    show ?thesis by (rule dr_inv_step [OF inv]) (use t i 5 b pushes in \<open>simp_all add: dr_held_def in_hand_def\<close>)
  next
    case 6
    with step show ?thesis by (simp add: dr_consumer_def)
  qed
qed

lemma dr_step_inv: "dr_step False RING_SIZE BATCH_SIZE s t \<Longrightarrow> dr_inv POOL_SIZE RING_SIZE s \<Longrightarrow> dr_inv POOL_SIZE RING_SIZE t"
proof (induction rule: dr_step.induct)
  case (dr_stops s)
  show ?case by (rule dr_inv_step [OF dr_stops]) (use dr_inv_facts [OF dr_stops] in \<open>simp_all add: dr_held_def\<close>)
qed (auto intro: dr_producer_inv dr_consumer_inv)

lemma dr_reachable_inv:
  assumes "(dr_step False RING_SIZE BATCH_SIZE)\<^sup>*\<^sup>* s t" "dr_inv POOL_SIZE RING_SIZE s"
  shows "dr_inv POOL_SIZE RING_SIZE t"
  using assms by (induction rule: rtranclp_induct) (auto intro: dr_step_inv)

text \<open>How many steps of its own a thread still makes after \<open>stop\<close> was set.\<close>

fun to_exit :: "phase \<Rightarrow> nat" where
  "to_exit Left_loop = 0"
| "to_exit At_top = 1"
| "to_exit Spinning = 2"
| "to_exit _ = 3"

lemma dr_producer_leaves:
  assumes inv: "dr_inv POOL_SIZE RING_SIZE s" and stop: "dr_stop s"
  shows "case dr_producer False RING_SIZE BATCH_SIZE s of None \<Rightarrow> dr_prod s = Left_loop
    | Some t \<Rightarrow> dr_stop t \<and> dr_cons t = dr_cons s \<and> to_exit (dr_prod t) < to_exit (dr_prod s)"
proof -
  note i = dr_inv_facts [OF inv]
  obtain b u where push: "br_push RING_SIZE (dr_buf s) (dr_used s) = (b, u)" by fastforce
  have "dr_prod s = Spinning \<Longrightarrow> b" using br.push_result [OF i(2) push] dr_room(1) [OF inv] by simp
  with i(3) stop push show ?thesis by (auto simp: dr_producer_def)
qed

lemma dr_consumer_leaves:
  assumes inv: "dr_inv POOL_SIZE RING_SIZE s" and stop: "dr_stop s"
  shows "case dr_consumer False RING_SIZE BATCH_SIZE s of None \<Rightarrow> dr_cons s = Left_loop
    | Some t \<Rightarrow> dr_stop t \<and> dr_prod t = dr_prod s \<and> to_exit (dr_cons t) < to_exit (dr_cons s)"
proof -
  note i = dr_inv_facts [OF inv]
  obtain b f where push: "br_push RING_SIZE (dr_got s) (dr_free s) = (b, f)" by fastforce
  have "dr_cons s = Spinning \<Longrightarrow> b" using br.push_result [OF i(1) push] dr_room(2) [OF inv] by simp
  with i(4) stop push show ?thesis by (auto simp: dr_consumer_def)
qed

text \<open>C29: With single transfers the two rings never lose or duplicate a buffer: in every reachable
  state each of the first \<open>min POOL_SIZE (RING_SIZE - 1)\<close> buffers is in exactly one place, a ring or
  the hand of a thread (so of the 16384 buffers of the program 1023 are used, the others were
  refused by the free ring at the start), and no thread ever finds the ring full that it pushes
  into. After \<open>stop\<close> is set every step of a thread brings it closer to the end of its loop, so both
  threads end.\<close>

theorem double_ring_keeps_buffers:
  assumes "RING_SIZE AND (RING_SIZE - 1) = 0" "0 < RING_SIZE" "length junk = RING_SIZE"
    "(dr_step False RING_SIZE BATCH_SIZE)\<^sup>*\<^sup>* (dr_new POOL_SIZE RING_SIZE junk ps p) t"
  shows "mset (br_items (dr_free t)) + mset (br_items (dr_used t)) + in_hand (dr_prod t) (dr_buf t) +
      in_hand (dr_cons t) (dr_got t) = mset [0..<min POOL_SIZE (RING_SIZE - 1)] \<and>
    (dr_prod t = Spinning \<longrightarrow> fst (br_push RING_SIZE (dr_buf t) (dr_used t))) \<and>
    (dr_cons t = Spinning \<longrightarrow> fst (br_push RING_SIZE (dr_got t) (dr_free t))) \<and>
    (dr_stop t \<longrightarrow>
      (case dr_producer False RING_SIZE BATCH_SIZE t of None \<Rightarrow> dr_prod t = Left_loop
       | Some u \<Rightarrow> dr_stop u \<and> dr_cons u = dr_cons t \<and> to_exit (dr_prod u) < to_exit (dr_prod t)) \<and>
      (case dr_consumer False RING_SIZE BATCH_SIZE t of None \<Rightarrow> dr_cons t = Left_loop
       | Some u \<Rightarrow> dr_stop u \<and> dr_prod u = dr_prod t \<and> to_exit (dr_cons u) < to_exit (dr_cons t)))"
proof -
  from dr_reachable_inv [OF assms(4) dr_inv_init [OF assms(1-3)]] have inv: "dr_inv POOL_SIZE RING_SIZE t" .
  note i = dr_inv_facts [OF inv]
  from br.push_fst [OF i(2)] br.push_fst [OF i(1)] dr_room [OF inv]
    dr_producer_leaves [OF inv] dr_consumer_leaves [OF inv] inv show ?thesis
    unfolding dr_inv_def dr_held_def by blast
qed

lemma double_ring_keeps_buffers_witness:
  "\<exists>t. (dr_step False 4 2)\<^sup>*\<^sup>* (dr_new 8 4 [0, 0, 0, 0] [0, 0] 0) t \<and> dr_prod t = Spinning \<and>
     mset (br_items (dr_free t)) + mset (br_items (dr_used t)) + in_hand (dr_prod t) (dr_buf t) +
       in_hand (dr_cons t) (dr_got t) = {#0, 1, 2#} \<and> fst (br_push 4 (dr_buf t) (dr_used t))"
proof -
  let ?s = "dr_new 8 4 [0, 0, 0, 0] [0, 0] 0"
  obtain t where t: "dr_producer False 4 2 ?s = Some t" "dr_prod t = Spinning"
  proof -
    have "dr_free ?s = \<lparr>br_buffer = [0, 1, 2, 0], br_head = 3, br_tail = 0\<rparr>" by code_simp
    then show ?thesis using that by (simp add: dr_producer_def dr_new_def br_pop_def)
  qed
  then have r: "(dr_step False 4 2)\<^sup>*\<^sup>* ?s t" by (auto intro: dr_produces)
  have "(4 :: nat) AND (4 - 1) = 0" by (simp add: and_nat_def)
  from double_ring_keeps_buffers [OF this _ _ r] t r show ?thesis by (auto simp: upt_rec numeral_eq_Suc)
qed

subsection \<open>The bump counter\<close>

text \<open>The first \<open>k\<close> indices a producer takes from counter value \<open>off\<close> on.\<close>

fun bump_take :: "bool \<Rightarrow> nat \<Rightarrow> nat \<Rightarrow> nat \<Rightarrow> nat list" where
  "bump_take batch ARENA_CAP 0 off = []"
| "bump_take batch ARENA_CAP (Suc k) off =
     (case bump_idx batch ARENA_CAP off of (idx, off') \<Rightarrow> idx # bump_take batch ARENA_CAP k off')"

lemma bump_idx_next:
  "bump_idx False ARENA_CAP m = (m, if ARENA_CAP \<le> m then 0 else m + 1)"
  "m \<le> ARENA_CAP \<Longrightarrow> bump_idx True ARENA_CAP m = (m mod ARENA_CAP, if ARENA_CAP \<le> m then 0 else m + 1)"
  by (auto simp: bump_idx_def Let_def)

lemma bump_take_from:
  "bump_take False ARENA_CAP k (j mod (ARENA_CAP + 1)) = map (\<lambda>i. i mod (ARENA_CAP + 1)) [j..<j + k] \<and>
   bump_take True ARENA_CAP k (j mod (ARENA_CAP + 1)) = map (\<lambda>i. i mod (ARENA_CAP + 1) mod ARENA_CAP) [j..<j + k]"
proof (induction k arbitrary: j)
  case (Suc k)
  have n: "(if ARENA_CAP \<le> j mod (ARENA_CAP + 1) then 0 else j mod (ARENA_CAP + 1) + 1) = Suc j mod (ARENA_CAP + 1)"
    by (simp add: mod_Suc) (metis Suc_leI le_less_Suc_eq mod_less_divisor zero_less_Suc)
  have l: "j mod (ARENA_CAP + 1) \<le> ARENA_CAP" by (metis Suc_eq_plus1 less_Suc_eq_le mod_less_divisor zero_less_Suc)
  have u: "[j..<j + Suc k] = j # [Suc j..<Suc j + k]" by (simp add: upt_conv_Cons)
  have "bump_take False ARENA_CAP (Suc k) (j mod (ARENA_CAP + 1)) =
      j mod (ARENA_CAP + 1) # bump_take False ARENA_CAP k (Suc j mod (ARENA_CAP + 1))"
    by (simp only: bump_take.simps bump_idx_next n prod.case)
  moreover have "bump_take True ARENA_CAP (Suc k) (j mod (ARENA_CAP + 1)) =
      j mod (ARENA_CAP + 1) mod ARENA_CAP # bump_take True ARENA_CAP k (Suc j mod (ARENA_CAP + 1))"
    by (simp only: bump_take.simps bump_idx_next(2) [OF l] n prod.case)
  moreover note Suc [of "Suc j"]
  ultimately show ?case unfolding u by (simp only: list.map)
qed simp_all

text \<open>With single transfers: a state in which both threads are at the top of their loops.\<close>

definition bump_idle :: "nat \<Rightarrow> nat \<Rightarrow> bump \<Rightarrow> bool" where
  "bump_idle RING_SIZE off s \<longleftrightarrow> br_ok RING_SIZE (bu_ring s) \<and> br_items (bu_ring s) = [] \<and> \<not> bu_stop s \<and>
     bu_prod s = At_top \<and> bu_cons s = At_top \<and> bu_offset s = off"

lemma bump_round:
  assumes s: "bump_idle RING_SIZE off s" and R: "1 < RING_SIZE" and idx: "bump_idx False ARENA_CAP off = (idx, off')"
  shows "\<exists>t u. (bump_step False ARENA_CAP RING_SIZE BATCH_SIZE)\<^sup>*\<^sup>* s t \<and> bu_cons t = Counting 1 \<and> bu_got t = idx \<and>
    (bump_step False ARENA_CAP RING_SIZE BATCH_SIZE)\<^sup>*\<^sup>* s u \<and> bump_idle RING_SIZE off' u"
proof -
  let ?step = "bump_step False ARENA_CAP RING_SIZE BATCH_SIZE"
  from s have i: "br_ok RING_SIZE (bu_ring s)" "br_items (bu_ring s) = []" "\<not> bu_stop s"
    "bu_prod s = At_top" "bu_cons s = At_top" "bu_offset s = off" by (simp_all add: bump_idle_def)
  from br.push_room [OF i(1), of idx] i(2) R obtain q where
    q: "br_push RING_SIZE idx (bu_ring s) = (True, q)" "br_ok RING_SIZE q" "br_items q = [idx]" by auto
  obtain r q' where p: "br_pop RING_SIZE q = (r, q')" by fastforce
  with br.pop_result [OF q(2) p] q(3) have
    q': "br_pop RING_SIZE q = (Some idx, q')" "br_ok RING_SIZE q'" "br_items q' = []" by (cases r; simp)+
  define a where "a = s\<lparr>bu_offset := off', bu_buf := idx, bu_prod := Spinning\<rparr>"
  define b where "b = a\<lparr>bu_ring := q, bu_prod := At_top\<rparr>"
  define c where "c = b\<lparr>bu_ring := q', bu_got := idx, bu_cons := Counting 1\<rparr>"
  define d where "d = c\<lparr>bu_processed := bu_processed c + 1, bu_cons := At_top\<rparr>"
  have 1: "?step s a" by (rule bump_produces) (use i idx in \<open>simp add: bump_producer_def a_def\<close>)
  have 2: "?step a b" by (rule bump_produces) (use q in \<open>simp add: bump_producer_def a_def b_def\<close>)
  have 3: "?step b c" by (rule bump_consumes) (use i q' in \<open>simp add: bump_consumer_def a_def b_def c_def\<close>)
  have 4: "?step c d" by (rule bump_consumes) (simp add: bump_consumer_def c_def d_def)
  have "?step\<^sup>*\<^sup>* s c" using 1 2 3 by (meson converse_rtranclp_into_rtranclp rtranclp.rtrancl_refl)
  moreover from this 4 have "?step\<^sup>*\<^sup>* s d" by (rule rtranclp.rtrancl_into_rtrancl)
  moreover have "bump_idle RING_SIZE off' d" using i q' by (simp add: bump_idle_def a_def b_def c_def d_def)
  moreover have "bu_cons c = Counting 1" "bu_got c = idx" by (simp_all add: c_def)
  ultimately show ?thesis by blast
qed

lemma bump_reaches:
  assumes "bump_idle RING_SIZE 0 s" "1 < RING_SIZE" "off \<le> ARENA_CAP"
  shows "\<exists>t. (bump_step False ARENA_CAP RING_SIZE BATCH_SIZE)\<^sup>*\<^sup>* s t \<and> bump_idle RING_SIZE off t"
  using assms(3)
proof (induction off)
  case (Suc off)
  then obtain t where t: "(bump_step False ARENA_CAP RING_SIZE BATCH_SIZE)\<^sup>*\<^sup>* s t" "bump_idle RING_SIZE off t" by auto
  have "bump_idx False ARENA_CAP off = (off, Suc off)" using Suc.prems by (simp add: bump_idx_def)
  from bump_round [OF t(2) assms(2) this] t(1) show ?case by (meson rtranclp_trans)
qed (use assms in blast)

lemma bump_past_the_end:
  assumes "bump_idle RING_SIZE 0 s" "1 < RING_SIZE"
  shows "\<exists>t. (bump_step False ARENA_CAP RING_SIZE BATCH_SIZE)\<^sup>*\<^sup>* s t \<and> bu_cons t = Counting 1 \<and> bu_got t = ARENA_CAP"
proof -
  from bump_reaches [OF assms, of ARENA_CAP] obtain t where
    t: "(bump_step False ARENA_CAP RING_SIZE BATCH_SIZE)\<^sup>*\<^sup>* s t" "bump_idle RING_SIZE ARENA_CAP t" by auto
  have "bump_idx False ARENA_CAP ARENA_CAP = (ARENA_CAP, 0)" by (simp add: bump_idx_def)
  from bump_round [OF t(2) assms(2) this] t(1) show ?thesis by (meson rtranclp_trans)
qed

text \<open>With batches: what a producer that runs alone does to the ring.\<close>

definition bump_at :: "nat \<Rightarrow> nat \<Rightarrow> phase \<Rightarrow> nat \<Rightarrow> nat list \<Rightarrow> nat list \<Rightarrow> bump \<Rightarrow> bool" where
  "bump_at RING_SIZE BATCH_SIZE pc off buf xs s \<longleftrightarrow> br_ok RING_SIZE (bu_ring s) \<and> br_items (bu_ring s) = xs \<and>
     \<not> bu_stop s \<and> bu_cons s = At_top \<and> bu_prod s = pc \<and> bu_offset s = off \<and> bu_batch_buf s = buf \<and>
     length buf = BATCH_SIZE"

lemma bump_atD:
  assumes "bump_at RING_SIZE BATCH_SIZE pc off buf xs s"
  shows "br_ok RING_SIZE (bu_ring s)" "br_items (bu_ring s) = xs" "\<not> bu_stop s" "bu_cons s = At_top"
    "bu_prod s = pc" "bu_offset s = off" "bu_batch_buf s = buf" "length buf = BATCH_SIZE"
  using assms by (simp_all add: bump_at_def)

lemma bump_at_fill:
  assumes "bump_at RING_SIZE BATCH_SIZE (Filling 0) off buf xs s" "off + n \<le> ARENA_CAP" "n \<le> BATCH_SIZE"
  shows "\<exists>t. (bump_step True ARENA_CAP RING_SIZE BATCH_SIZE)\<^sup>*\<^sup>* s t \<and>
    bump_at RING_SIZE BATCH_SIZE (Filling n) (off + n) ([off..<off + n] @ drop n buf) xs t"
  using assms(2,3)
proof (induction n)
  case (Suc n)
  then obtain t where t: "(bump_step True ARENA_CAP RING_SIZE BATCH_SIZE)\<^sup>*\<^sup>* s t"
    "bump_at RING_SIZE BATCH_SIZE (Filling n) (off + n) ([off..<off + n] @ drop n buf) xs t" by auto
  note i = bump_atD [OF t(2)]
  have l: "length buf = BATCH_SIZE" using bump_atD(8) [OF assms(1)] .
  define u where "u = t\<lparr>bu_offset := off + Suc n, bu_batch_buf := (bu_batch_buf t)[n := off + n], bu_prod := Filling (Suc n)\<rparr>"
  have "bump_step True ARENA_CAP RING_SIZE BATCH_SIZE t u"
    by (rule bump_produces) (use i Suc.prems in \<open>simp add: bump_producer_def u_def bump_idx_def Let_def\<close>)
  moreover have "([off..<off + n] @ drop n buf)[n := off + n] = [off..<off + Suc n] @ drop (Suc n) buf"
    using Suc.prems l by (simp add: list_update_append Cons_nth_drop_Suc [symmetric])
  then have "bump_at RING_SIZE BATCH_SIZE (Filling (Suc n)) (off + Suc n) ([off..<off + Suc n] @ drop (Suc n) buf) xs u"
    using i l Suc.prems unfolding bump_at_def by (simp add: u_def)
  ultimately show ?case using t(1) by (meson rtranclp.rtrancl_into_rtrancl)
qed (use assms in auto)

lemma bump_at_send:
  assumes "bump_at RING_SIZE BATCH_SIZE (Sending n 0) off buf xs s" "j \<le> n" "n \<le> BATCH_SIZE" "length xs + j \<le> RING_SIZE - 1"
  shows "\<exists>t. (bump_step True ARENA_CAP RING_SIZE BATCH_SIZE)\<^sup>*\<^sup>* s t \<and>
    bump_at RING_SIZE BATCH_SIZE (Sending n j) off buf (xs @ take j buf) t"
  using assms(2,4)
proof (induction j)
  case (Suc j)
  then obtain t where t: "(bump_step True ARENA_CAP RING_SIZE BATCH_SIZE)\<^sup>*\<^sup>* s t"
    "bump_at RING_SIZE BATCH_SIZE (Sending n j) off buf (xs @ take j buf) t" by auto
  note i = bump_atD [OF t(2)]
  have "length (xs @ take j buf) < RING_SIZE - 1" using Suc.prems by simp
  with br.push_room [OF i(1), of "buf ! j"] i(2) obtain q where
    q: "br_push RING_SIZE (buf ! j) (bu_ring t) = (True, q)" "br_ok RING_SIZE q" "br_items q = (xs @ take j buf) @ [buf ! j]"
    by metis
  define u where "u = t\<lparr>bu_ring := q, bu_prod := Sending n (Suc j)\<rparr>"
  have "bump_step True ARENA_CAP RING_SIZE BATCH_SIZE t u"
    by (rule bump_produces) (use i q Suc.prems in \<open>simp add: bump_producer_def u_def\<close>)
  moreover have "bump_at RING_SIZE BATCH_SIZE (Sending n (Suc j)) off buf (xs @ take (Suc j) buf) u"
    using i q Suc.prems assms(3) unfolding bump_at_def by (simp add: u_def take_Suc_conv_app_nth)
  ultimately show ?case using t(1) by (meson rtranclp.rtrancl_into_rtrancl)
qed (use assms in auto)

lemma bump_at_next:
  assumes s: "bump_at RING_SIZE BATCH_SIZE At_top off buf xs s" and "off + BATCH_SIZE \<le> ARENA_CAP"
    and "j \<le> BATCH_SIZE" "length xs + j \<le> RING_SIZE - 1"
  shows "\<exists>t. (bump_step True ARENA_CAP RING_SIZE BATCH_SIZE)\<^sup>*\<^sup>* s t \<and>
    bump_at RING_SIZE BATCH_SIZE (Sending BATCH_SIZE j) (off + BATCH_SIZE) [off..<off + BATCH_SIZE] (xs @ [off..<off + j]) t"
proof -
  let ?step = "bump_step True ARENA_CAP RING_SIZE BATCH_SIZE"
  note i = bump_atD [OF s]
  define a where "a = s\<lparr>bu_prod := Filling 0\<rparr>"
  have 1: "?step s a" by (rule bump_produces) (use i in \<open>simp add: bump_producer_def a_def\<close>)
  have "bump_at RING_SIZE BATCH_SIZE (Filling 0) off buf xs a" using i unfolding bump_at_def by (simp add: a_def)
  from bump_at_fill [OF this assms(2) order_refl] i(8) obtain b where
    b: "?step\<^sup>*\<^sup>* a b" "bump_at RING_SIZE BATCH_SIZE (Filling BATCH_SIZE) (off + BATCH_SIZE) [off..<off + BATCH_SIZE] xs b" by auto
  note j = bump_atD [OF b(2)]
  define c where "c = b\<lparr>bu_prod := Sending BATCH_SIZE 0\<rparr>"
  have 2: "?step b c" by (rule bump_produces) (use j in \<open>simp add: bump_producer_def c_def\<close>)
  have "bump_at RING_SIZE BATCH_SIZE (Sending BATCH_SIZE 0) (off + BATCH_SIZE) [off..<off + BATCH_SIZE] xs c"
    using j unfolding bump_at_def by (simp add: c_def)
  from bump_at_send [OF this assms(3) order_refl assms(4), of ARENA_CAP] assms(3) obtain d where
    d: "?step\<^sup>*\<^sup>* c d" "bump_at RING_SIZE BATCH_SIZE (Sending BATCH_SIZE j) (off + BATCH_SIZE) [off..<off + BATCH_SIZE] (xs @ [off..<off + j]) d"
    by (auto simp: take_upt)
  have "?step\<^sup>*\<^sup>* s d" using 1 b(1) 2 d(1) by (meson converse_rtranclp_into_rtranclp rtranclp_trans)
  with d(2) show ?thesis by blast
qed

lemma bump_at_batches:
  assumes s: "bump_at RING_SIZE BATCH_SIZE At_top 0 buf [] s" and "k * BATCH_SIZE \<le> ARENA_CAP" "k * BATCH_SIZE \<le> RING_SIZE - 1"
  shows "\<exists>t buf'. (bump_step True ARENA_CAP RING_SIZE BATCH_SIZE)\<^sup>*\<^sup>* s t \<and>
    bump_at RING_SIZE BATCH_SIZE At_top (k * BATCH_SIZE) buf' [0..<k * BATCH_SIZE] t"
  using assms(2,3)
proof (induction k)
  case 0
  with s show ?case by auto
next
  case (Suc k)
  let ?step = "bump_step True ARENA_CAP RING_SIZE BATCH_SIZE"
  from Suc obtain t buf' where
    t: "?step\<^sup>*\<^sup>* s t" "bump_at RING_SIZE BATCH_SIZE At_top (k * BATCH_SIZE) buf' [0..<k * BATCH_SIZE] t" by auto
  have "[0..<k * BATCH_SIZE] @ [k * BATCH_SIZE..<k * BATCH_SIZE + BATCH_SIZE] = [0..<Suc k * BATCH_SIZE]"
    using upt_add_eq_append [of 0 "k * BATCH_SIZE" BATCH_SIZE] by (simp add: add.commute)
  with bump_at_next [OF t(2), of ARENA_CAP BATCH_SIZE] Suc.prems obtain u where
    u: "?step\<^sup>*\<^sup>* t u" "bump_at RING_SIZE BATCH_SIZE (Sending BATCH_SIZE BATCH_SIZE) (Suc k * BATCH_SIZE)
      [k * BATCH_SIZE..<k * BATCH_SIZE + BATCH_SIZE] [0..<Suc k * BATCH_SIZE] u"
    by (auto simp: add.commute)
  note i = bump_atD [OF u(2)]
  define v where "v = u\<lparr>bu_prod := At_top\<rparr>"
  have "?step u v" by (rule bump_produces) (use i in \<open>simp add: bump_producer_def v_def\<close>)
  moreover have "bump_at RING_SIZE BATCH_SIZE At_top (Suc k * BATCH_SIZE) [k * BATCH_SIZE..<k * BATCH_SIZE + BATCH_SIZE] [0..<Suc k * BATCH_SIZE] v"
    using i unfolding bump_at_def by (simp add: v_def)
  ultimately show ?case using t(1) u(1) by (meson rtranclp.rtrancl_into_rtrancl rtranclp_trans)
qed

text \<open>A batch that does not fit is sent again from its first element.\<close>

lemma bump_resends:
  assumes s: "bump_at RING_SIZE BATCH_SIZE At_top 0 buf [] s" and R: "RING_SIZE - 1 = k * BATCH_SIZE + m"
    and m: "0 < m" "m < BATCH_SIZE" "0 < k" and A: "Suc k * BATCH_SIZE \<le> ARENA_CAP"
  shows "\<exists>t. (bump_step True ARENA_CAP RING_SIZE BATCH_SIZE)\<^sup>*\<^sup>* s t \<and>
    br_items (bu_ring t) = [1..<k * BATCH_SIZE + m] @ [k * BATCH_SIZE]"
proof -
  let ?step = "bump_step True ARENA_CAP RING_SIZE BATCH_SIZE" and ?kB = "k * BATCH_SIZE"
  from bump_at_batches [OF s, of k ARENA_CAP] R A obtain t buf' where
    t: "?step\<^sup>*\<^sup>* s t" "bump_at RING_SIZE BATCH_SIZE At_top ?kB buf' [0..<?kB] t" by auto
  have "[0..<?kB] @ [?kB..<?kB + m] = [0..<?kB + m]" using upt_add_eq_append [of 0 ?kB m] by simp
  with bump_at_next [OF t(2), of ARENA_CAP m] R m A obtain u where
    u: "?step\<^sup>*\<^sup>* t u" "bump_at RING_SIZE BATCH_SIZE (Sending BATCH_SIZE m) (?kB + BATCH_SIZE) [?kB..<?kB + BATCH_SIZE] [0..<?kB + m] u"
    by (auto simp: add.commute)
  note i = bump_atD [OF u(2)]
  have "br_push RING_SIZE (bu_batch_buf u ! m) (bu_ring u) = (False, bu_ring u)"
    by (rule br.push_full) (use i R in simp_all)
  define v where "v = u\<lparr>bu_prod := Sending BATCH_SIZE 0\<rparr>"
  define w where "w = v\<lparr>bu_cons := Popping 0\<rparr>"
  have 1: "?step u v" by (rule bump_produces) (use i m \<open>br_push _ _ _ = _\<close> in \<open>simp add: bump_producer_def v_def\<close>)
  have 2: "?step v w" by (rule bump_consumes) (use i in \<open>simp add: bump_consumer_def v_def w_def\<close>)
  have kB: "0 < ?kB + m" using m by simp
  then have items: "[0..<?kB + m] = 0 # [1..<?kB + m]" by (simp add: upt_conv_Cons)
  obtain r q where p: "br_pop RING_SIZE (bu_ring u) = (r, q)" by fastforce
  with br.pop_result [OF i(1) p] i(2) items have q: "r = Some 0" "br_ok RING_SIZE q" "br_items q = [1..<?kB + m]"
    by (cases r; simp)+
  define x where "x = w\<lparr>bu_ring := q, bu_got_batch := (bu_got_batch w)[0 := 0], bu_cons := Popping 1\<rparr>"
  have 3: "?step w x" by (rule bump_consumes) (use p q m in \<open>simp add: bump_consumer_def v_def w_def x_def\<close>)
  have "length (br_items q) < RING_SIZE - 1" using q R kB by simp
  from br.push_room [OF q(2) this, of ?kB] q obtain q' where
    q': "br_push RING_SIZE ?kB q = (True, q')" "br_items q' = [1..<?kB + m] @ [?kB]" by auto
  define y where "y = x\<lparr>bu_ring := q', bu_prod := Sending BATCH_SIZE 1\<rparr>"
  have "[?kB..<?kB + BATCH_SIZE] ! 0 = ?kB" using m by simp
  then have 4: "?step x y"
    by (intro bump_produces) (use i q' m in \<open>simp add: bump_producer_def v_def w_def x_def y_def\<close>)
  have "?step\<^sup>*\<^sup>* u y" using 1 2 3 4 by (meson converse_rtranclp_into_rtranclp rtranclp.rtrancl_refl)
  with t(1) u(1) have "?step\<^sup>*\<^sup>* s y" by (meson rtranclp_trans)
  moreover have "br_items (bu_ring y) = [1..<?kB + m] @ [?kB]" using q' by (simp add: y_def)
  ultimately show ?thesis by blast
qed

text \<open>With single transfers: a producer that runs alone fills the ring.\<close>

lemma bump_fills:
  assumes s: "bump_idle RING_SIZE 0 s" and "n \<le> RING_SIZE - 1" "n \<le> ARENA_CAP"
  shows "\<exists>t. (bump_step False ARENA_CAP RING_SIZE BATCH_SIZE)\<^sup>*\<^sup>* s t \<and> br_ok RING_SIZE (bu_ring t) \<and>
    length (br_items (bu_ring t)) = n \<and> \<not> bu_stop t \<and> bu_prod t = At_top \<and> bu_cons t = At_top \<and> bu_offset t = n"
  using assms(2,3)
proof (induction n)
  case 0
  with s show ?case by (auto simp: bump_idle_def)
next
  case (Suc n)
  let ?step = "bump_step False ARENA_CAP RING_SIZE BATCH_SIZE"
  have "n \<le> RING_SIZE - 1" "n \<le> ARENA_CAP" using Suc.prems by simp_all
  from Suc.IH [OF this] obtain t where t: "?step\<^sup>*\<^sup>* s t" "br_ok RING_SIZE (bu_ring t)"
    "length (br_items (bu_ring t)) = n" "\<not> bu_stop t" "bu_prod t = At_top" "bu_cons t = At_top" "bu_offset t = n"
    by blast
  have "length (br_items (bu_ring t)) < RING_SIZE - 1" using t(3) Suc.prems by simp
  from br.push_room [OF t(2) this, of n] obtain q where
    q: "br_push RING_SIZE n (bu_ring t) = (True, q)" "br_ok RING_SIZE q" "br_items q = br_items (bu_ring t) @ [n]" by blast
  define a where "a = t\<lparr>bu_offset := Suc n, bu_buf := n, bu_prod := Spinning\<rparr>"
  define b where "b = a\<lparr>bu_ring := q, bu_prod := At_top\<rparr>"
  have 1: "?step t a"
    by (rule bump_produces) (use t Suc.prems in \<open>simp add: bump_producer_def a_def bump_idx_def Let_def\<close>)
  have 2: "?step a b" by (rule bump_produces) (use q in \<open>simp add: bump_producer_def a_def b_def\<close>)
  have "?step\<^sup>*\<^sup>* s b" using t(1) 1 2 by (meson rtranclp.rtrancl_into_rtrancl)
  moreover have "br_ok RING_SIZE (bu_ring b)" "length (br_items (bu_ring b)) = Suc n" "\<not> bu_stop b"
    "bu_prod b = At_top" "bu_cons b = At_top" "bu_offset b = Suc n" using t q by (simp_all add: a_def b_def)
  ultimately show ?case by blast
qed

lemma bump_hangs:
  assumes s: "bump_idle RING_SIZE 0 s" and A: "RING_SIZE - 1 < ARENA_CAP"
  shows "\<exists>t. (bump_step False ARENA_CAP RING_SIZE BATCH_SIZE)\<^sup>*\<^sup>* s t \<and> bu_stop t \<and> bu_prod t = Spinning \<and> bu_cons t = Left_loop \<and>
    (\<forall>u. (bump_step False ARENA_CAP RING_SIZE BATCH_SIZE)\<^sup>*\<^sup>* t u \<longrightarrow> u = t)"
proof -
  let ?step = "bump_step False ARENA_CAP RING_SIZE BATCH_SIZE"
  from bump_fills [OF s order_refl less_imp_le [OF A]] obtain t where
    t: "?step\<^sup>*\<^sup>* s t" "br_ok RING_SIZE (bu_ring t)" "length (br_items (bu_ring t)) = RING_SIZE - 1"
    "\<not> bu_stop t" "bu_prod t = At_top" "bu_cons t = At_top" "bu_offset t = RING_SIZE - 1" by blast
  define a where "a = t\<lparr>bu_offset := RING_SIZE - 1 + 1, bu_buf := RING_SIZE - 1, bu_prod := Spinning\<rparr>"
  define b where "b = a\<lparr>bu_stop := True\<rparr>"
  define c where "c = b\<lparr>bu_cons := Left_loop\<rparr>"
  have 1: "?step t a"
    by (rule bump_produces) (use t A in \<open>simp add: bump_producer_def a_def bump_idx_def Let_def\<close>)
  have 2: "?step a b" unfolding b_def by (rule bump_stops)
  have 3: "?step b c" by (rule bump_consumes) (use t in \<open>simp add: bump_consumer_def a_def b_def c_def\<close>)
  have c: "bu_prod c = Spinning" "bu_cons c = Left_loop" "bu_stop c" "bu_ring c = bu_ring t"
    by (simp_all add: a_def b_def c_def)
  have full: "br_push RING_SIZE (bu_buf c) (bu_ring c) = (False, bu_ring c)"
    unfolding c(4) by (rule br.push_full [OF t(2,3)])
  have stuck: "u = c" if "?step c u" for u
    using that
  proof cases
    case bump_produces
    with c full have "u = c\<lparr>bu_ring := bu_ring c, bu_prod := Spinning\<rparr>" by (simp add: bump_producer_def)
    with c show ?thesis by simp
  next
    case bump_consumes
    with c show ?thesis by (simp add: bump_consumer_def)
  next
    case bump_stops
    with c show ?thesis by simp
  qed
  have "u = c" if "?step\<^sup>*\<^sup>* c u" for u
    using that by (induction rule: rtranclp_induct) (simp_all add: stuck)
  moreover have "?step\<^sup>*\<^sup>* s c" using t(1) 1 2 3 by (meson rtranclp.rtrancl_into_rtrancl)
  ultimately show ?thesis using c by blast
qed

text \<open>The sizes of the two programs.\<close>

definition ARENA_CAP :: nat where "ARENA_CAP = 2 ^ 20"
definition RING_SIZE :: nat where "RING_SIZE = 1024"
definition BATCH_SIZE :: nat where "BATCH_SIZE = 64"
definition EXCHANGE_POOL :: nat where "EXCHANGE_POOL = 2 ^ 14"

lemma ring_size_power: "RING_SIZE AND (RING_SIZE - 1) = 0" "0 < RING_SIZE"
  by (simp_all add: RING_SIZE_def and_nat_def)

text \<open>What goes wrong with the bump counter, at the sizes of the program. The producer takes the
  indices 0 to \<open>ARENA_CAP\<close> in turn, so with single transfers the consumer is handed
  \<open>&arena[ARENA_CAP]\<close>, which is no buffer, and with batches index 0 comes twice in a row. A batch
  that does not fit is sent again from its first element, so the ring holds a buffer twice. And
  once \<open>stop\<close> is set the program can hang: the consumer has left, and the producer pushes into a
  full ring for ever.\<close>

theorem bump_counter_flaws:
  assumes "length junk = RING_SIZE" "length ps = BATCH_SIZE"
  shows "bump_take False ARENA_CAP n 0 = map (\<lambda>i. i mod (ARENA_CAP + 1)) [0..<n] \<and>
    bump_take True ARENA_CAP n 0 = map (\<lambda>i. i mod (ARENA_CAP + 1) mod ARENA_CAP) [0..<n] \<and>
    (\<exists>t. (bump_step False ARENA_CAP RING_SIZE BATCH_SIZE)\<^sup>*\<^sup>* (bump_new junk p ps qs) t \<and>
       bu_cons t = Counting 1 \<and> bu_got t = ARENA_CAP) \<and>
    (\<exists>t. (bump_step True ARENA_CAP RING_SIZE BATCH_SIZE)\<^sup>*\<^sup>* (bump_new junk p ps qs) t \<and>
       br_items (bu_ring t) = [1..<1023] @ [960]) \<and>
    (\<exists>t. (bump_step False ARENA_CAP RING_SIZE BATCH_SIZE)\<^sup>*\<^sup>* (bump_new junk p ps qs) t \<and>
       bu_stop t \<and> bu_prod t = Spinning \<and> bu_cons t = Left_loop \<and>
       (\<forall>u. (bump_step False ARENA_CAP RING_SIZE BATCH_SIZE)\<^sup>*\<^sup>* t u \<longrightarrow> u = t))"
proof -
  note ok = br_new_ok [OF ring_size_power assms(1)]
  then have idle: "bump_idle RING_SIZE 0 (bump_new junk p ps qs)"
    by (simp add: bump_idle_def bump_new_def)
  from ok assms(2) have at: "bump_at RING_SIZE BATCH_SIZE At_top 0 ps [] (bump_new junk p ps qs)"
    by (simp add: bump_at_def bump_new_def)
  have R: "1 < RING_SIZE" "RING_SIZE - 1 < ARENA_CAP" by (simp_all add: RING_SIZE_def ARENA_CAP_def)
  have "RING_SIZE - 1 = 15 * BATCH_SIZE + 63" "0 < (63 :: nat)" "63 < BATCH_SIZE" "0 < (15 :: nat)"
    "Suc 15 * BATCH_SIZE \<le> ARENA_CAP" by (simp_all add: RING_SIZE_def BATCH_SIZE_def ARENA_CAP_def)
  from bump_resends [OF at this] have "\<exists>t. (bump_step True ARENA_CAP RING_SIZE BATCH_SIZE)\<^sup>*\<^sup>* (bump_new junk p ps qs) t \<and>
      br_items (bu_ring t) = [1..<15 * BATCH_SIZE + 63] @ [15 * BATCH_SIZE]" .
  moreover have "15 * BATCH_SIZE = 960" "15 * BATCH_SIZE + 63 = 1023" by (simp_all add: BATCH_SIZE_def)
  moreover have "bump_take False ARENA_CAP n 0 = map (\<lambda>i. i mod (ARENA_CAP + 1)) [0..<n]"
    "bump_take True ARENA_CAP n 0 = map (\<lambda>i. i mod (ARENA_CAP + 1) mod ARENA_CAP) [0..<n]"
    using bump_take_from [of ARENA_CAP n 0] by (simp_all del: upt_Suc)
  ultimately show ?thesis
    using bump_past_the_end [OF idle R(1), of ARENA_CAP BATCH_SIZE] bump_hangs [OF idle R(2), of BATCH_SIZE] by metis
qed

lemma bump_counter_flaws_witness:
  "\<exists>t. (bump_step False ARENA_CAP RING_SIZE BATCH_SIZE)\<^sup>*\<^sup>* (bump_new (replicate 1024 7) 0 (replicate 64 7) []) t \<and>
     bu_cons t = Counting 1 \<and> bu_got t = ARENA_CAP"
  using bump_counter_flaws [of "replicate 1024 7" "replicate 64 7" 0 0 "[]"]
  by (simp add: RING_SIZE_def BATCH_SIZE_def)

subsection \<open>Batched transfers between the two rings\<close>

definition dr_at :: "phase \<Rightarrow> nat list \<Rightarrow> nat list \<Rightarrow> nat list \<Rightarrow> double_ring \<Rightarrow> bool" where
  "dr_at pc fs us buf s \<longleftrightarrow> br_ok RING_SIZE (dr_free s) \<and> br_ok RING_SIZE (dr_used s) \<and> br_items (dr_free s) = fs \<and>
     br_items (dr_used s) = us \<and> dr_batch_buf s = buf \<and> length buf = BATCH_SIZE \<and> \<not> dr_stop s \<and> dr_prod s = pc \<and>
     dr_cons s = At_top"

lemma dr_atD:
  assumes "dr_at pc fs us buf s"
  shows "br_ok RING_SIZE (dr_free s)" "br_ok RING_SIZE (dr_used s)" "br_items (dr_free s) = fs" "br_items (dr_used s) = us"
    "dr_batch_buf s = buf" "length buf = BATCH_SIZE" "\<not> dr_stop s" "dr_prod s = pc" "dr_cons s = At_top"
  using assms by (simp_all add: dr_at_def)

lemma dr_at_fill:
  assumes s: "dr_at (Filling 0) fs us buf s" and "n \<le> BATCH_SIZE" "n \<le> length fs"
  shows "\<exists>t. (dr_step True RING_SIZE BATCH_SIZE)\<^sup>*\<^sup>* s t \<and> dr_at (Filling n) (drop n fs) us (take n fs @ drop n buf) t"
  using assms(2,3)
proof (induction n)
  case (Suc n)
  then obtain t where t: "(dr_step True RING_SIZE BATCH_SIZE)\<^sup>*\<^sup>* s t"
    "dr_at (Filling n) (drop n fs) us (take n fs @ drop n buf) t" by auto
  note i = dr_atD [OF t(2)]
  have l: "length buf = BATCH_SIZE" using dr_atD(6) [OF s] .
  obtain r q where p: "br_pop RING_SIZE (dr_free t) = (r, q)" by fastforce
  have d: "drop n fs = fs ! n # drop (Suc n) fs" using Suc.prems by (simp add: Cons_nth_drop_Suc)
  with br.pop_result [OF i(1) p] i(3) have q: "r = Some (fs ! n)" "br_ok RING_SIZE q" "br_items q = drop (Suc n) fs"
    by (cases r; simp)+
  define u where "u = t\<lparr>dr_free := q, dr_buf := fs ! n, dr_batch_buf := (dr_batch_buf t)[n := fs ! n], dr_prod := Filling (Suc n)\<rparr>"
  have "dr_step True RING_SIZE BATCH_SIZE t u"
    by (rule dr_produces) (use i p q Suc.prems in \<open>simp add: dr_producer_def u_def\<close>)
  moreover have "(take n fs @ drop n buf)[n := fs ! n] = take (Suc n) fs @ drop (Suc n) buf"
    using Suc.prems l by (simp add: list_update_append take_Suc_conv_app_nth Cons_nth_drop_Suc [symmetric] min_absorb2)
  then have "dr_at (Filling (Suc n)) (drop (Suc n) fs) us (take (Suc n) fs @ drop (Suc n) buf) u"
    using i q l Suc.prems unfolding dr_at_def by (simp add: u_def)
  ultimately show ?case using t(1) by (meson rtranclp.rtrancl_into_rtrancl)
qed (use s in auto)

lemma dr_at_send:
  assumes s: "dr_at (Sending n 0) fs us buf s" and "j \<le> n" "n \<le> BATCH_SIZE" "length us + j \<le> RING_SIZE - 1"
  shows "\<exists>t. (dr_step True RING_SIZE BATCH_SIZE)\<^sup>*\<^sup>* s t \<and> dr_at (Sending n j) fs (us @ take j buf) buf t"
  using assms(2,4)
proof (induction j)
  case (Suc j)
  then obtain t where t: "(dr_step True RING_SIZE BATCH_SIZE)\<^sup>*\<^sup>* s t" "dr_at (Sending n j) fs (us @ take j buf) buf t" by auto
  note i = dr_atD [OF t(2)]
  have "length (br_items (dr_used t)) < RING_SIZE - 1" using Suc.prems i(4) by simp
  from br.push_room [OF i(2) this, of "buf ! j"] obtain q where
    q: "br_push RING_SIZE (buf ! j) (dr_used t) = (True, q)" "br_ok RING_SIZE q" "br_items q = br_items (dr_used t) @ [buf ! j]"
    by blast
  define u where "u = t\<lparr>dr_used := q, dr_prod := Sending n (Suc j)\<rparr>"
  have "dr_step True RING_SIZE BATCH_SIZE t u"
    by (rule dr_produces) (use i q Suc.prems in \<open>simp add: dr_producer_def u_def\<close>)
  moreover have "dr_at (Sending n (Suc j)) fs (us @ take (Suc j) buf) buf u"
    using i q Suc.prems assms(3) unfolding dr_at_def by (simp add: u_def take_Suc_conv_app_nth)
  ultimately show ?case using t(1) by (meson rtranclp.rtrancl_into_rtrancl)
qed (use s in auto)

lemma dr_at_batch:
  assumes s: "dr_at At_top fs us buf s" and "BATCH_SIZE \<le> length fs"
  shows "\<exists>t. (dr_step True RING_SIZE BATCH_SIZE)\<^sup>*\<^sup>* s t \<and>
    dr_at (Sending BATCH_SIZE 0) (drop BATCH_SIZE fs) us (take BATCH_SIZE fs) t"
proof -
  let ?step = "dr_step True RING_SIZE BATCH_SIZE"
  note i = dr_atD [OF s]
  define a where "a = s\<lparr>dr_prod := Filling 0\<rparr>"
  have 1: "?step s a" by (rule dr_produces) (use i in \<open>simp add: dr_producer_def a_def\<close>)
  have "dr_at (Filling 0) fs us buf a" using i unfolding dr_at_def by (simp add: a_def)
  from dr_at_fill [OF this order_refl assms(2)] i(6) obtain b where
    b: "?step\<^sup>*\<^sup>* a b" "dr_at (Filling BATCH_SIZE) (drop BATCH_SIZE fs) us (take BATCH_SIZE fs) b" by auto
  note j = dr_atD [OF b(2)]
  define c where "c = b\<lparr>dr_prod := Sending BATCH_SIZE 0\<rparr>"
  have "0 < BATCH_SIZE" by (simp add: BATCH_SIZE_def)
  then have 2: "?step b c" by (intro dr_produces) (use j in \<open>simp add: dr_producer_def c_def\<close>)
  have "dr_at (Sending BATCH_SIZE 0) (drop BATCH_SIZE fs) us (take BATCH_SIZE fs) c"
    using j unfolding dr_at_def by (simp add: c_def)
  moreover have "?step\<^sup>*\<^sup>* s c" using 1 b(1) 2 by (meson converse_rtranclp_into_rtranclp rtranclp.rtrancl_into_rtrancl)
  ultimately show ?thesis by blast
qed

text \<open>With batches the threads of the two-ring program share \<open>batch_buf\<close>. While the producer waits
  to send its second batch, the consumer overwrites the first element of the array with the buffer
  it has just popped. The producer then sends that buffer: it is in the ring while the consumer
  works on it, and the buffer the producer had taken from the free ring is in no ring and in no
  array any more.\<close>

theorem shared_batch_buffer:
  assumes "length junk = RING_SIZE" "length ps = BATCH_SIZE"
  shows "\<exists>t. (dr_step True RING_SIZE BATCH_SIZE)\<^sup>*\<^sup>* (dr_new EXCHANGE_POOL RING_SIZE junk ps p) t \<and>
    dr_cons t = Popping 1 \<and> dr_batch_buf t ! 0 = 0 \<and> 0 \<in> set (br_items (dr_used t)) \<and>
    64 \<notin> set (br_items (dr_free t)) \<union> set (br_items (dr_used t)) \<union> set (dr_batch_buf t)"
proof -
  let ?step = "dr_step True RING_SIZE BATCH_SIZE" and ?s = "dr_new EXCHANGE_POOL RING_SIZE junk ps p"
  note ok = br_new_ok [OF ring_size_power assms(1)]
  define N where "N = RING_SIZE - 1"
  let ?B = BATCH_SIZE
  have B: "1 < ?B" "?B + ?B \<le> N" "?B \<le> N" "?B \<le> N - ?B" "RING_SIZE - 1 = N" by (simp_all add: BATCH_SIZE_def RING_SIZE_def N_def)
  have "min EXCHANGE_POOL (RING_SIZE - 1) = N" by (simp add: EXCHANGE_POOL_def RING_SIZE_def N_def)
  with dr_fill_spec [of RING_SIZE "br_new junk" EXCHANGE_POOL] ok assms(2) have "dr_at At_top [0..<N] [] ps ?s"
    by (simp add: dr_at_def dr_new_def)
  from dr_at_batch [OF this] obtain a where
    a: "?step\<^sup>*\<^sup>* ?s a" "dr_at (Sending BATCH_SIZE 0) [?B..<N] [] [0..<?B] a" using B(1-4) by (auto simp: take_upt)
  from dr_at_send [OF a(2) order_refl order_refl] obtain b where
    b: "?step\<^sup>*\<^sup>* a b" "dr_at (Sending BATCH_SIZE BATCH_SIZE) [?B..<N] [0..<?B] [0..<?B] b" using B by auto
  note i = dr_atD [OF b(2)]
  define c where "c = b\<lparr>dr_prod := At_top\<rparr>"
  have 1: "?step b c" by (rule dr_produces) (use i in \<open>simp add: dr_producer_def c_def\<close>)
  have "dr_at At_top [?B..<N] [0..<?B] [0..<?B] c" using i unfolding dr_at_def by (simp add: c_def)
  from dr_at_batch [OF this] obtain d where
    d: "?step\<^sup>*\<^sup>* c d" "dr_at (Sending BATCH_SIZE 0) [?B + ?B..<N] [0..<?B] [?B..<?B + ?B] d" using B(1-4) by (auto simp: take_upt)
  note j = dr_atD [OF d(2)]
  define e where "e = d\<lparr>dr_cons := Popping 0\<rparr>"
  have 2: "?step d e" by (rule dr_consumes) (use j in \<open>simp add: dr_consumer_def e_def\<close>)
  have items: "[0..<?B] = 0 # [1..<?B]" using B(1) by (simp add: upt_conv_Cons)
  obtain r q where p: "br_pop RING_SIZE (dr_used d) = (r, q)" by fastforce
  with br.pop_result [OF j(2) p] j(4) items have q: "r = Some 0" "br_ok RING_SIZE q" "br_items q = [1..<?B]"
    by (cases r; simp)+
  define f where "f = e\<lparr>dr_used := q, dr_batch_buf := (dr_batch_buf e)[0 := 0], dr_cons := Popping 1\<rparr>"
  have 3: "?step e f" by (rule dr_consumes) (use p q B in \<open>simp add: dr_consumer_def e_def f_def\<close>)
  have buf: "dr_batch_buf f = 0 # [Suc ?B..<?B + ?B]" using j B(1) by (simp add: e_def f_def upt_conv_Cons)
  have "length (br_items q) < RING_SIZE - 1" using q B by simp
  from br.push_room [OF q(2) this, of 0] q obtain q' where
    q': "br_push RING_SIZE 0 q = (True, q')" "br_items q' = [1..<?B] @ [0]" by auto
  define g where "g = f\<lparr>dr_used := q', dr_prod := Sending BATCH_SIZE 1\<rparr>"
  have "dr_prod f = Sending BATCH_SIZE 0" "dr_used f = q" using j by (simp_all add: e_def f_def)
  then have 4: "?step f g" by (intro dr_produces) (use buf q' B in \<open>simp add: dr_producer_def g_def\<close>)
  have "?step\<^sup>*\<^sup>* d g" using 2 3 4 by (meson converse_rtranclp_into_rtranclp rtranclp.rtrancl_refl)
  moreover have "?step\<^sup>*\<^sup>* ?s d" using a(1) b(1) 1 d(1) by (meson converse_rtranclp_into_rtranclp rtranclp_trans)
  ultimately have "?step\<^sup>*\<^sup>* ?s g" by (rule rtranclp_trans [rotated])
  moreover have "dr_cons g = Popping 1" "dr_batch_buf g = 0 # [Suc ?B..<?B + ?B]" "br_items (dr_used g) = [1..<?B] @ [0]"
    "br_items (dr_free g) = [?B + ?B..<N]"
    using buf q' j by (simp_all add: e_def f_def g_def)
  ultimately have "dr_cons g = Popping 1 \<and> dr_batch_buf g ! 0 = 0 \<and> 0 \<in> set (br_items (dr_used g)) \<and>
      ?B \<notin> set (br_items (dr_free g)) \<union> set (br_items (dr_used g)) \<union> set (dr_batch_buf g)" "?step\<^sup>*\<^sup>* ?s g"
    using B by auto
  moreover have "?B = 64" by (simp add: BATCH_SIZE_def)
  ultimately show ?thesis by metis
qed

lemma shared_batch_buffer_witness:
  "\<exists>t. (dr_step True RING_SIZE BATCH_SIZE)\<^sup>*\<^sup>* (dr_new EXCHANGE_POOL RING_SIZE (replicate 1024 7) (replicate 64 7) 0) t \<and>
     dr_cons t = Popping 1 \<and> dr_batch_buf t ! 0 = 0 \<and> 0 \<in> set (br_items (dr_used t))"
  using shared_batch_buffer [of "replicate 1024 7" "replicate 64 7" 0] by (auto simp: RING_SIZE_def BATCH_SIZE_def)

end
