(* ===== verification/Parallel_Math.thy ===== *)
theory Parallel_Math
  imports Prelude "HOL-Library.AList" "HOL-Library.Product_Lexorder"
begin

section \<open>Common prime factors, computed in parallel\<close>

text \<open>
  \<open>parallel_math/lib.h\<close> and the two programs over it: \<open>main.cpp\<close> runs every call in a future and
  collects the results in order, \<open>main2.cpp\<close> runs them in threads that store their results under
  a mutex, in whatever order they get it. Every value that \<open>get_factors\<close> computes lies between 1
  and its argument, and its counter stops at the argument at the latest, so the \<open>uint64_t\<close> values
  are natural numbers here. An argument of the programs is the number \<open>std::stoull\<close> reads.
\<close>

subsection \<open>\<open>get_factors\<close> and \<open>get_common_factors\<close>\<close>

partial_function (option) divide_out :: "nat \<Rightarrow> nat \<Rightarrow> nat list \<Rightarrow> (nat \<times> nat list) option" where
  "divide_out i num factors =
     (if num mod i = 0 then divide_out i (num div i) (factors @ [i]) else Some (num, factors))"

partial_function (option) factor_loop :: "nat \<Rightarrow> nat \<Rightarrow> nat list \<Rightarrow> nat list option" where
  "factor_loop i num factors =
     (if i \<le> num
      then case divide_out i num factors of
             None \<Rightarrow> None
           | Some r \<Rightarrow> if fst r = 1 then Some (snd r) else factor_loop (i + 1) (fst r) (snd r)
      else Some factors)"

definition get_factors :: "nat \<Rightarrow> nat list option" where
  "get_factors num = factor_loop 2 num []"

fun common_loop :: "nat list \<Rightarrow> nat list \<Rightarrow> nat list \<Rightarrow> nat list" where
  "common_loop [] list2_copy factors = factors"
| "common_loop (elem # list1) list2_copy factors =
     (if elem \<in> set list2_copy then common_loop list1 (remove1 elem list2_copy) (factors @ [elem])
      else common_loop list1 list2_copy factors)"

definition get_common_factors :: "nat list \<Rightarrow> nat list \<Rightarrow> nat list" where
  "get_common_factors list1 list2 = common_loop list1 list2 []"

definition is_prime :: "nat \<Rightarrow> bool" where
  "is_prime p \<longleftrightarrow> 1 < p \<and> (\<forall>d. d dvd p \<longrightarrow> d = 1 \<or> d = p)"

lemma divide_out_returns:
  assumes "1 < i" "0 < num"
  shows "\<exists>k r. divide_out i num factors = Some (r, factors @ replicate k i) \<and> num = i ^ k * r \<and> \<not> i dvd r"
  using assms(2)
proof (induction num arbitrary: factors rule: less_induct)
  case (less num)
  show ?case
  proof (cases "num mod i = 0")
    case True
    then have n: "num = i * (num div i)" by auto
    with less.prems have "0 < num div i" by (metis gr0I mult_0_right)
    moreover have "num div i < num" using assms(1) less.prems by simp
    ultimately obtain k r where r: "divide_out i (num div i) (factors @ [i]) = Some (r, (factors @ [i]) @ replicate k i)"
      "num div i = i ^ k * r" "\<not> i dvd r" using less.IH by blast
    have "divide_out i num factors = Some (r, factors @ replicate (Suc k) i)"
      using True r(1) by (subst divide_out.simps) simp
    moreover have "num = i ^ Suc k * r" using n r(2) by simp
    ultimately show ?thesis using r(3) by blast
  next
    case False
    then have "divide_out i num factors = Some (num, factors @ replicate 0 i)" by (subst divide_out.simps) simp
    moreover have "num = i ^ 0 * num" "\<not> i dvd num" using False by auto
    ultimately show ?thesis by blast
  qed
qed

text \<open>What is left of the number has no divisor below the counter.\<close>

definition rough :: "nat \<Rightarrow> nat \<Rightarrow> bool" where
  "rough i num \<longleftrightarrow> (\<forall>d. d dvd num \<longrightarrow> 1 < d \<longrightarrow> i \<le> d)"

lemma rough_two: "0 < num \<Longrightarrow> rough 2 num"
  by (auto simp: rough_def)

lemma rough_step:
  assumes "rough i (i ^ k * r)" "\<not> i dvd r"
  shows "rough (i + 1) r"
  unfolding rough_def
proof (intro allI impI)
  fix d assume d: "d dvd r" "1 < d"
  then have "d dvd i ^ k * r" by simp
  with assms(1) d(2) have "i \<le> d" unfolding rough_def by blast
  moreover have "d \<noteq> i" using d assms(2) by auto
  ultimately show "i + 1 \<le> d" by simp
qed

lemma rough_divisor_prime:
  assumes "rough i num" "i dvd num" "1 < i" "0 < num"
  shows "is_prime i"
  unfolding is_prime_def
proof (intro conjI allI impI)
  fix d assume d: "d dvd i"
  show "d = 1 \<or> d = i"
  proof (rule ccontr)
    assume "\<not> (d = 1 \<or> d = i)"
    moreover have "0 < d" "d \<le> i" using d assms(3) by (auto dest: dvd_imp_le intro: Nat.gr0I)
    ultimately have "1 < d" "d < i" by auto
    moreover have "d dvd num" using d assms(2) by (rule dvd_trans)
    ultimately show False using assms(1) unfolding rough_def by force
  qed
qed (use assms in simp)

lemma factor_loop_returns:
  assumes "0 < num" "1 < i" "rough i num" "sorted factors" "\<forall>p \<in> set factors. is_prime p \<and> p < i"
  shows "\<exists>fs. factor_loop i num factors = Some fs \<and> prod_list fs = prod_list factors * num \<and> sorted fs \<and>
    (\<forall>p \<in> set fs. is_prime p)"
  using assms
proof (induction "num + 1 - i" arbitrary: i num factors rule: less_induct)
  case less
  show ?case
  proof (cases "i \<le> num")
    case False
    then have "\<not> 1 < num" using less.prems(3) unfolding rough_def by auto
    with less.prems(1) have "num = 1" by simp
    with False less.prems show ?thesis by (subst factor_loop.simps) auto
  next
    case True
    from divide_out_returns [OF less.prems(2,1), of factors] obtain k r where
      r: "divide_out i num factors = Some (r, factors @ replicate k i)" "num = i ^ k * r" "\<not> i dvd r" by blast
    let ?fs = "factors @ replicate k i"
    have "0 < r" using r(3) by (auto intro: Nat.gr0I)
    have prime: "is_prime i" if "0 < k"
    proof (rule rough_divisor_prime [OF less.prems(3) _ less.prems(2,1)])
      show "i dvd num" using that r(2) by (cases k) auto
    qed
    have sorted: "sorted ?fs" using less.prems(4,5) by (auto simp: sorted_append)
    have primes: "\<forall>p \<in> set ?fs. is_prime p \<and> p < i + 1" using prime less.prems(5) by (auto split: if_splits)
    have prod: "prod_list ?fs * r = prod_list factors * num" using r(2) by simp
    show ?thesis
    proof (cases "r = 1")
      case True
      then have "factor_loop i num factors = Some ?fs" using \<open>i \<le> num\<close> r(1) by (subst factor_loop.simps) simp
      then show ?thesis using prod sorted primes True by auto
    next
      case False
      have "r \<le> num" using r(2) less.prems(1,2) by simp
      with True have "r + 1 - (i + 1) < num + 1 - i" by simp
      from less.hyps [OF this \<open>0 < r\<close> _ rough_step [OF less.prems(3) [unfolded r(2)] r(3)] sorted primes] less.prems(2)
      obtain fs where fs: "factor_loop (i + 1) r ?fs = Some fs" "prod_list fs = prod_list ?fs * r" "sorted fs"
        "\<forall>p \<in> set fs. is_prime p" by auto
      then have "factor_loop i num factors = Some fs" using \<open>i \<le> num\<close> r(1) False by (subst factor_loop.simps) simp
      with fs prod show ?thesis by auto
    qed
  qed
qed

lemma get_factors_zero: "get_factors 0 = Some []"
  by (simp add: get_factors_def factor_loop.simps)

lemma get_factors_spec:
  assumes "0 < num"
  shows "\<exists>fs. get_factors num = Some fs \<and> prod_list fs = num \<and> sorted fs \<and> (\<forall>p \<in> set fs. is_prime p)"
  using factor_loop_returns [of num 2 "[]"] rough_two [OF assms] assms by (simp add: get_factors_def)

lemma get_factors_returns: "\<exists>fs. get_factors num = Some fs"
  using get_factors_zero get_factors_spec [of num] by (cases "num = 0") auto

lemma common_loop_mset: "mset (common_loop list1 list2 fs) = mset fs + (mset list1 \<inter># mset list2)"
proof (induction list1 list2 fs rule: common_loop.induct)
  case (2 x xs ys fs)
  show ?case
  proof (cases "x \<in> set ys")
    case True
    with 2(1) show ?thesis by (simp add: inter_add_left2)
  next
    case False
    with 2(2) show ?thesis by (simp add: inter_add_left1)
  qed
qed simp

subsection \<open>The common factors multiply to the greatest common divisor\<close>

lemma distinct_primes_coprime: "is_prime p \<Longrightarrow> is_prime q \<Longrightarrow> p \<noteq> q \<Longrightarrow> coprime p q"
  unfolding is_prime_def coprime_iff_gcd_eq_1 by (metis gcd_dvd1 gcd_dvd2)

lemma coprime_prod_mset:
  assumes "\<forall>q \<in># N. coprime p q"
  shows "coprime (p :: nat) (prod_mset N)"
  using assms by (induction N) auto

lemma disjoint_primes_coprime:
  assumes "\<forall>p \<in># M. is_prime p" "\<forall>q \<in># N. is_prime q" "M \<inter># N = {#}"
  shows "coprime (prod_mset M) (prod_mset N)"
  using assms(1,3)
proof (induction M)
  case (add p M)
  have "p \<notin># N" using add.prems(2) by (metis add_mset_not_empty inter_add_left2)
  then have "coprime p (prod_mset N)"
    using add.prems(1) assms(2) by (intro coprime_prod_mset) (auto intro: distinct_primes_coprime)
  moreover have "coprime (prod_mset M) (prod_mset N)"
    using add.IH add.prems \<open>p \<notin># N\<close> by (simp add: inter_add_left1)
  ultimately show ?case by simp
qed simp

lemma prod_mset_inter_gcd:
  assumes "\<forall>p \<in># M. is_prime p" "\<forall>q \<in># N. is_prime q"
  shows "prod_mset (M \<inter># N) = gcd (prod_mset M) (prod_mset N)"
proof -
  let ?I = "M \<inter># N"
  have M: "M = ?I + (M - ?I)" and N: "N = ?I + (N - ?I)" by (rule multiset_eqI, simp add: min_def)+
  have "(M - ?I) \<inter># (N - ?I) = {#}" by (rule multiset_eqI) (simp add: min_def)
  with assms have "coprime (prod_mset (M - ?I)) (prod_mset (N - ?I))"
    by (intro disjoint_primes_coprime) (auto dest: in_diffD)
  then have "gcd (prod_mset ?I * prod_mset (M - ?I)) (prod_mset ?I * prod_mset (N - ?I)) = prod_mset ?I"
    by (simp add: gcd_mult_left coprime_iff_gcd_eq_1)
  moreover have "prod_mset M = prod_mset ?I * prod_mset (M - ?I)" by (metis M prod_mset_Un)
  moreover have "prod_mset N = prod_mset ?I * prod_mset (N - ?I)" by (metis N prod_mset_Un)
  ultimately show ?thesis by simp
qed

lemma common_prod:
  assumes "get_factors a = Some fa" "get_factors b = Some fb" "0 < a" "0 < b"
  shows "prod_list (get_common_factors fa fb) = gcd a b \<and> set (get_common_factors fa fb) \<subseteq> {p. is_prime p}"
proof -
  from get_factors_spec [OF assms(3)] get_factors_spec [OF assms(4)] assms(1,2)
  have a: "prod_list fa = a" "\<forall>p \<in># mset fa. is_prime p" and b: "prod_list fb = b" "\<forall>p \<in># mset fb. is_prime p" by auto
  have m: "mset (get_common_factors fa fb) = mset fa \<inter># mset fb"
    by (simp add: get_common_factors_def common_loop_mset)
  have "prod_list (get_common_factors fa fb) = prod_mset (mset fa \<inter># mset fb)"
    unfolding m [symmetric] by (rule prod_mset_prod_list [symmetric])
  also have "\<dots> = gcd a b" using prod_mset_inter_gcd [OF a(2) b(2)] a(1) b(1) by (simp add: prod_mset_prod_list)
  finally show ?thesis using a(2) m by (metis (no_types, lifting) inter_iff mem_Collect_eq set_mset_mset subsetI)
qed

text \<open>C30: \<open>get_factors\<close> returns for every number; for a positive one the result is its prime
  factorisation, in ascending order (for 0 it is empty). The common factors of two positive
  numbers are primes whose product is their greatest common divisor.\<close>

theorem factors_and_gcd:
  assumes "0 < a" "0 < b"
  shows "get_factors 0 = Some [] \<and>
    (\<exists>fa fb. get_factors a = Some fa \<and> get_factors b = Some fb \<and>
       prod_list fa = a \<and> sorted fa \<and> set fa \<subseteq> {p. is_prime p} \<and>
       mset (get_common_factors fa fb) = mset fa \<inter># mset fb \<and>
       prod_list (get_common_factors fa fb) = gcd a b)"
proof -
  from get_factors_spec [OF assms(1)] obtain fa where
    a: "get_factors a = Some fa" "prod_list fa = a" "sorted fa" "\<forall>p \<in> set fa. is_prime p" by blast
  from get_factors_returns obtain fb where b: "get_factors b = Some fb" by blast
  from common_prod [OF a(1) b assms] a b get_factors_zero show ?thesis
    by (auto simp: get_common_factors_def common_loop_mset)
qed

lemma factors_and_gcd_witness:
  "\<exists>fa fb. get_factors 12 = Some fa \<and> get_factors 18 = Some fb \<and> prod_list fa = 12 \<and>
     prod_list (get_common_factors fa fb) = 6"
proof -
  have "gcd (12 :: nat) 18 = 6" by (simp add: gcd_nat.simps)
  with factors_and_gcd [of 12 18] show ?thesis by auto
qed

subsection \<open>The two programs\<close>

text \<open>
  A \<open>std::map\<close> is an association list with distinct keys. The threads of the first loop write
  \<open>factors[num]\<close>, in the order of the list; a thread that did not return would leave the
  program waiting. The second loop reads with \<open>at\<close>, which throws for a missing key.
\<close>

fun collect_factors :: "nat list \<Rightarrow> (nat \<times> nat list) list \<Rightarrow> (nat \<times> nat list) list option" where
  "collect_factors [] m = Some m"
| "collect_factors (num # nums) m =
     (case get_factors num of None \<Rightarrow> None | Some fs \<Rightarrow> collect_factors nums (AList.update num fs m))"

definition factor_pairs :: "nat list \<Rightarrow> (nat \<times> nat) list" where
  "factor_pairs args = concat (map (\<lambda>val1. map (Pair val1) (filter (\<lambda>val2. val2 < val1) args)) args)"

fun collect_common :: "(nat \<times> nat list) list \<Rightarrow> (nat \<times> nat) list \<Rightarrow> ((nat \<times> nat) \<times> nat list) list \<Rightarrow>
    ((nat \<times> nat) \<times> nat list) list option" where
  "collect_common factors [] m = Some m"
| "collect_common factors ((a, b) # ps) m =
     (case (map_of factors a, map_of factors b) of
        (Some x, Some y) \<Rightarrow> collect_common factors ps (AList.update (a, b) (get_common_factors x y) m)
      | _ \<Rightarrow> None)"

text \<open>A printed line is a key and its list.\<close>

definition print_lines :: "((nat \<times> nat) \<times> nat list) list \<Rightarrow> ((nat \<times> nat) \<times> nat list) list" where
  "print_lines m = map (\<lambda>key. (key, case map_of m key of Some l \<Rightarrow> l | None \<Rightarrow> [])) (sort (map fst m))"

definition futures_main :: "nat list \<Rightarrow> ((nat \<times> nat) \<times> nat list) list option" where
  "futures_main args =
     (case collect_factors args [] of
        None \<Rightarrow> None
      | Some factors \<Rightarrow> map_option print_lines (collect_common factors (factor_pairs args) []))"

text \<open>
  In \<open>main2.cpp\<close> the threads of a loop run in any order; \<open>nums\<close> and \<open>pairs\<close> are the orders in
  which they get the mutex.
\<close>

definition threads_main :: "nat list \<Rightarrow> (nat \<times> nat) list \<Rightarrow> ((nat \<times> nat) \<times> nat list) list option" where
  "threads_main nums pairs =
     (case collect_factors nums [] of
        None \<Rightarrow> None
      | Some factors \<Rightarrow> map_option print_lines (collect_common factors pairs []))"

lemma collect_factors_spec:
  "\<exists>f. collect_factors nums m = Some f \<and>
     map_of f = (\<lambda>n. if n \<in> set nums then get_factors n else map_of m n)"
proof (induction nums arbitrary: m)
  case (Cons n ns)
  obtain fs where fs: "get_factors n = Some fs" using get_factors_returns by blast
  from Cons.IH [of "AList.update n fs m"] obtain f where
    "collect_factors ns (AList.update n fs m) = Some f"
    "map_of f = (\<lambda>k. if k \<in> set ns then get_factors k else map_of (AList.update n fs m) k)" by blast
  with fs show ?case by (auto simp: update_conv)
qed simp

definition common_of :: "nat \<times> nat \<Rightarrow> nat list" where
  "common_of p = get_common_factors (the (get_factors (fst p))) (the (get_factors (snd p)))"

lemma collect_common_spec:
  assumes "\<forall>(a, b) \<in> set ps. map_of f a = get_factors a \<and> map_of f b = get_factors b"
  shows "\<exists>c. collect_common f ps m = Some c \<and>
    map_of c = (\<lambda>p. if p \<in> set ps then Some (common_of p) else map_of m p) \<and>
    (distinct (map fst m) \<longrightarrow> distinct (map fst c))"
  using assms
proof (induction ps arbitrary: m)
  case (Cons p ps)
  obtain a b where p: "p = (a, b)" by force
  obtain x y where xy: "get_factors a = Some x" "get_factors b = Some y" using get_factors_returns by metis
  let ?m = "AList.update (a, b) (get_common_factors x y) m"
  from Cons.IH [of ?m] Cons.prems obtain c where
    c: "collect_common f ps ?m = Some c" "map_of c = (\<lambda>p. if p \<in> set ps then Some (common_of p) else map_of ?m p)"
      "distinct (map fst ?m) \<longrightarrow> distinct (map fst c)" by auto
  moreover have "map_of f a = Some x" "map_of f b = Some y" using Cons.prems p xy by auto
  ultimately show ?case using p xy by (auto simp: update_conv common_of_def distinct_update)
qed simp

text \<open>What is printed depends only on the set of the pairs.\<close>

lemma print_lines_eq:
  assumes "map_of c = (\<lambda>p. if p \<in> P then Some (common_of p) else None)" "distinct (map fst c)"
  shows "print_lines c = map (\<lambda>p. (p, common_of p)) (sorted_list_of_set P)" "finite P"
proof -
  have "dom (map_of c) = P" unfolding assms(1) by (auto simp: dom_def)
  then have keys: "set (map fst c) = P" by (simp add: dom_map_of_conv_image_fst)
  then show "finite P" by (metis List.finite_set)
  have "sort (map fst c) = sorted_list_of_set P"
    unfolding keys [symmetric] by (rule sorted_list_of_set_sort_remdups [THEN trans, symmetric]) (simp add: distinct_remdups_id assms(2))
  then show "print_lines c = map (\<lambda>p. (p, common_of p)) (sorted_list_of_set P)"
    using \<open>finite P\<close> by (auto simp: print_lines_def assms(1))
qed

lemma program_output:
  assumes "set nums = set args" "set pairs = set (factor_pairs args)"
  shows "threads_main nums pairs = Some (map (\<lambda>p. (p, common_of p)) (sorted_list_of_set (set (factor_pairs args))))"
proof -
  from collect_factors_spec [of nums "[]"] obtain f where
    f: "collect_factors nums [] = Some f" "map_of f = (\<lambda>n. if n \<in> set nums then get_factors n else None)"
    unfolding map_of.simps by blast
  have "\<forall>(a, b) \<in> set pairs. map_of f a = get_factors a \<and> map_of f b = get_factors b"
    unfolding f(2) assms by (auto simp: factor_pairs_def)
  from collect_common_spec [OF this, of "[]"] obtain c where
    c: "collect_common f pairs [] = Some c" "map_of c = (\<lambda>p. if p \<in> set pairs then Some (common_of p) else None)"
      "distinct (map fst c)" unfolding map_of.simps by auto
  from print_lines_eq [OF c(2,3)] f(1) c(1) show ?thesis by (simp add: threads_main_def assms(2))
qed

text \<open>C31: Both programs print the same lines, whatever the order in which the threads of \<open>main2.cpp\<close>
  get the mutex, and neither throws. There is one line for every pair of different arguments, the
  larger one first, in ascending order; for positive arguments the list in a line multiplies to
  the greatest common divisor of the pair.\<close>

theorem parallel_mains_agree:
  assumes "mset nums = mset args" "mset pairs = mset (factor_pairs args)"
  shows "threads_main nums pairs = futures_main args \<and>
    (\<exists>out. futures_main args = Some out \<and> sorted (map fst out) \<and> distinct (map fst out) \<and>
       set (map fst out) = {(a, b). a \<in> set args \<and> b \<in> set args \<and> b < a} \<and>
       (\<forall>a b l. ((a, b), l) \<in> set out \<longrightarrow> 0 < b \<longrightarrow> prod_list l = gcd a b))"
proof -
  let ?P = "set (factor_pairs args)"
  let ?out = "map (\<lambda>p. (p, common_of p)) (sorted_list_of_set ?P)"
  have "set nums = set args" "set pairs = ?P" using assms by (metis set_mset_mset)+
  then have t: "threads_main nums pairs = Some ?out" by (rule program_output)
  have f: "futures_main args = Some ?out"
    using program_output [of args args "factor_pairs args"] by (simp add: futures_main_def threads_main_def)
  have fst: "map fst ?out = sorted_list_of_set ?P" by (simp add: comp_def)
  have P: "?P = {(a, b). a \<in> set args \<and> b \<in> set args \<and> b < a}" by (auto simp: factor_pairs_def)
  have gcd: "prod_list l = gcd a b" if m: "((a, b), l) \<in> set ?out" and "0 < b" for a b l
  proof -
    from m have "(a, b) \<in> ?P" "l = common_of (a, b)" by auto
    moreover from this that(2) have "0 < a" unfolding P by simp
    moreover obtain fa fb where "get_factors a = Some fa" "get_factors b = Some fb" using get_factors_returns by metis
    ultimately show ?thesis using common_prod [of a fa b fb] that(2) by (simp add: common_of_def)
  qed
  from t f fst gcd show ?thesis unfolding P by (intro conjI exI [of _ ?out]) (simp_all add: P [symmetric])
qed

lemma parallel_mains_agree_witness:
  "threads_main [4, 6, 9] [(9, 6), (6, 4), (9, 4)] = futures_main [6, 9, 4]"
  using parallel_mains_agree [of "[4, 6, 9]" "[6, 9, 4]" "[(9, 6), (6, 4), (9, 4)]"]
  by (simp add: factor_pairs_def add_mset_commute)

end
