(* ===== verification/Capstone_Pipeline.thy ===== *)
theory Capstone_Pipeline
  imports Spsc_Rings
begin

section \<open>The market-data pipeline of \<open>hft_capstone_pipeline.cpp\<close>\<close>

text \<open>
  A producer thread sends \<open>total\<close> market updates through a ring to a consumer that keeps the top
  of the book, counts signals and sums latencies. The consumer's loop condition is
  \<open>!done || q.pop(m)\<close>: once the producer is done it pops a message that the body, which pops
  again, never looks at. The theory shows how many messages are lost at most, and that so many
  can be lost. Clock readings are inputs of the steps.
\<close>

subsection \<open>Messages and the book\<close>

record md_update =
  mu_seq :: u32
  mu_symbol_id :: u32
  mu_bid_px :: i64
  mu_ask_px :: i64
  mu_bid_qty :: u32
  mu_ask_qty :: u32
  mu_t_send :: u64

record top_of_book =
  tb_bid_px :: i64
  tb_ask_px :: i64
  tb_bid_qty :: u32
  tb_ask_qty :: u32

definition cap_symbol :: u32 where "cap_symbol = 1"
definition cap_qcap :: nat where "cap_qcap = 4096"
definition cap_total :: nat where "cap_total = 2000000"
definition max_spread_ticks :: int where "max_spread_ticks = 1"
definition min_qty :: u32 where "min_qty = 100"

text \<open>The update the producer builds in iteration \<open>i\<close>, at time \<open>t\<close>.\<close>

definition make_update :: "nat \<Rightarrow> u64 \<Rightarrow> md_update" where
  "make_update i t =
     (let bid = 100000 + of_nat (i mod 4)
      in \<lparr>mu_seq = of_nat i, mu_symbol_id = cap_symbol, mu_bid_px = bid, mu_ask_px = bid + 1,
          mu_bid_qty = 200, mu_ask_qty = 200, mu_t_send = t\<rparr>)"

definition book_of :: "md_update \<Rightarrow> top_of_book" where
  "book_of m = \<lparr>tb_bid_px = mu_bid_px m, tb_ask_px = mu_ask_px m, tb_bid_qty = mu_bid_qty m, tb_ask_qty = mu_ask_qty m\<rparr>"

text \<open>The condition of a signal, on the updated book.\<close>

definition signal :: "top_of_book \<Rightarrow> bool" where
  "signal b \<longleftrightarrow> sint (tb_ask_px b - tb_bid_px b) \<le> max_spread_ticks \<and> min_qty \<le> tb_bid_qty b \<and> min_qty \<le> tb_ask_qty b"

record cap_stats =
  cs_book :: top_of_book
  cs_sum_lat :: u64
  cs_max_lat :: u64
  cs_signals :: u64
  cs_processed :: u64

definition cap_stats_init :: cap_stats where
  "cap_stats_init = \<lparr>cs_book = \<lparr>tb_bid_px = 0, tb_ask_px = 0, tb_bid_qty = 0, tb_ask_qty = 0\<rparr>, cs_sum_lat = 0,
     cs_max_lat = 0, cs_signals = 0, cs_processed = 0\<rparr>"

text \<open>The body of the consumer's loop for one message.\<close>

definition process_update :: "u64 \<Rightarrow> md_update \<Rightarrow> cap_stats \<Rightarrow> cap_stats" where
  "process_update t_recv m s =
     (let lat = (if mu_t_send m \<le> t_recv then t_recv - mu_t_send m else 0);
          s1 = s\<lparr>cs_sum_lat := cs_sum_lat s + lat, cs_max_lat := if cs_max_lat s < lat then lat else cs_max_lat s\<rparr>;
          s2 = (if mu_symbol_id m = cap_symbol
                then let s' = s1\<lparr>cs_book := book_of m\<rparr>
                     in if signal (cs_book s') then s'\<lparr>cs_signals := cs_signals s' + 1\<rparr> else s'
                else s1)
      in s2\<lparr>cs_processed := cs_processed s2 + 1\<rparr>)"

subsection \<open>The two threads\<close>

text \<open>\<open>P_send u\<close> is the loop that pushes \<open>u\<close>. The consumer is at the test of \<open>done\<close>, at the \<open>pop\<close> of
  the loop condition, in the body, or out. \<open>cp_popped\<close> is not part of the program: it lists what
  was popped, marked with whether the body looked at it.\<close>

datatype cap_prod = P_top | P_send md_update | P_end

datatype cap_cons = K_done | K_pop | K_body | K_out

record cap =
  cp_i :: nat
  cp_prod :: cap_prod
  cp_dropped :: u64
  cp_done :: bool
  cp_q :: "md_update spsc_ring"
  cp_cons :: cap_cons
  cp_m :: md_update
  cp_stats :: cap_stats
  cp_popped :: "(bool \<times> md_update) list"

definition cap_init :: "nat \<Rightarrow> md_update \<Rightarrow> cap" where
  "cap_init qcap m = \<lparr>cp_i = 0, cp_prod = P_top, cp_dropped = 0, cp_done = False, cp_q = sr_new qcap m, cp_cons = K_done,
     cp_m = m, cp_stats = cap_stats_init, cp_popped = []\<rparr>"

definition cap_producer :: "nat \<Rightarrow> nat \<Rightarrow> u64 \<Rightarrow> cap \<Rightarrow> cap option" where
  "cap_producer qcap total_msgs now s =
     (case cp_prod s of
        P_top \<Rightarrow> Some (if cp_i s < total_msgs then s\<lparr>cp_prod := P_send (make_update (cp_i s) now)\<rparr>
                       else s\<lparr>cp_done := True, cp_prod := P_end\<rparr>)
      | P_send u \<Rightarrow>
          (case sr_push qcap u (cp_q s) of
             (True, q) \<Rightarrow> Some (s\<lparr>cp_q := q, cp_i := cp_i s + 1, cp_prod := P_top\<rparr>)
           | (False, q) \<Rightarrow> Some (s\<lparr>cp_q := q, cp_dropped := cp_dropped s + 1\<rparr>))
      | P_end \<Rightarrow> None)"

definition cap_consumer :: "nat \<Rightarrow> u64 \<Rightarrow> cap \<Rightarrow> cap option" where
  "cap_consumer qcap now s =
     (case cp_cons s of
        K_done \<Rightarrow> Some (s\<lparr>cp_cons := if \<not> cp_done s then K_body else K_pop\<rparr>)
      | K_pop \<Rightarrow>
          (case sr_pop qcap (cp_q s) of
             (Some m, q) \<Rightarrow> Some (s\<lparr>cp_q := q, cp_m := m, cp_cons := K_body, cp_popped := cp_popped s @ [(False, m)]\<rparr>)
           | (None, q) \<Rightarrow> Some (s\<lparr>cp_q := q, cp_cons := K_out\<rparr>))
      | K_body \<Rightarrow>
          (case sr_pop qcap (cp_q s) of
             (Some m, q) \<Rightarrow> Some (s\<lparr>cp_q := q, cp_m := m, cp_cons := K_done, cp_stats := process_update now m (cp_stats s),
                                  cp_popped := cp_popped s @ [(True, m)]\<rparr>)
           | (None, q) \<Rightarrow> Some (s\<lparr>cp_q := q, cp_cons := K_done\<rparr>))
      | K_out \<Rightarrow> None)"

inductive cap_step :: "nat \<Rightarrow> nat \<Rightarrow> cap \<Rightarrow> cap \<Rightarrow> bool" for qcap total_msgs :: nat where
  cap_produces: "cap_producer qcap total_msgs now s = Some t \<Longrightarrow> cap_step qcap total_msgs s t"
| cap_consumes: "cap_consumer qcap now s = Some t \<Longrightarrow> cap_step qcap total_msgs s t"

subsection \<open>What is popped and what is looked at\<close>

definition seen :: "cap \<Rightarrow> md_update list" where
  "seen s = map snd (filter fst (cp_popped s))"

definition lost :: "cap \<Rightarrow> nat" where
  "lost s = length (filter (\<lambda>p. \<not> fst p) (cp_popped s))"

text \<open>The queue holds nothing the producer did not send, in order; a message is lost only when
  the producer is done, and every loss but the last is paid for by a message that is looked at.\<close>

definition cap_inv :: "nat \<Rightarrow> nat \<Rightarrow> cap \<Rightarrow> bool" where
  "cap_inv qcap total_msgs s \<longleftrightarrow> sr_ok qcap (cp_q s) \<and>
     map mu_seq (map snd (cp_popped s) @ sr_items (cp_q s)) = map of_nat [0..<cp_i s] \<and>
     (\<forall>m \<in> set (map snd (cp_popped s) @ sr_items (cp_q s)). \<exists>i t. m = make_update i t) \<and>
     (\<forall>u. cp_prod s = P_send u \<longrightarrow> cp_i s < total_msgs \<and> (\<exists>t. u = make_update (cp_i s) t)) \<and> cp_i s \<le> total_msgs \<and>
     (cp_done s \<longleftrightarrow> cp_prod s = P_end) \<and> (cp_done s \<longrightarrow> cp_i s = total_msgs) \<and>
     cs_processed (cp_stats s) = of_nat (length (seen s)) \<and> cs_signals (cp_stats s) = cs_processed (cp_stats s) \<and>
     (\<not> cp_done s \<longrightarrow> lost s = 0) \<and>
     (cp_done s \<longrightarrow> 2 * lost s + length (sr_items (cp_q s)) \<le> qcap - 1 \<or>
       2 * lost s + length (sr_items (cp_q s)) \<le> qcap \<and> (cp_cons s = K_body \<or> sr_items (cp_q s) = [])) \<and>
     (cp_cons s = K_pop \<longrightarrow> cp_done s) \<and> (cp_cons s = K_out \<longrightarrow> cp_done s \<and> sr_items (cp_q s) = [])"

lemma make_update_signal: "signal (book_of (make_update i t))"
  by (simp add: signal_def book_of_def make_update_def Let_def max_spread_ticks_def min_qty_def)

lemma make_update_seq [simp]: "mu_seq (make_update i t) = of_nat i" "mu_symbol_id (make_update i t) = cap_symbol"
  by (simp_all add: make_update_def Let_def)

lemma process_counts:
  "cs_processed (process_update t (make_update i t') s) = cs_processed s + 1"
  "cs_signals (process_update t (make_update i t') s) = cs_signals s + 1"
  using make_update_signal [of i t'] by (simp_all add: process_update_def Let_def)

lemma cap_invD:
  assumes "cap_inv qcap total_msgs s"
  shows "sr_ok qcap (cp_q s)"
    "map mu_seq (map snd (cp_popped s) @ sr_items (cp_q s)) = map of_nat [0..<cp_i s]"
    "\<forall>m \<in> set (map snd (cp_popped s) @ sr_items (cp_q s)). \<exists>i t. m = make_update i t"
    "\<And>u. cp_prod s = P_send u \<Longrightarrow> cp_i s < total_msgs \<and> (\<exists>t. u = make_update (cp_i s) t)"
    "cp_i s \<le> total_msgs" "cp_done s \<longleftrightarrow> cp_prod s = P_end" "cp_done s \<Longrightarrow> cp_i s = total_msgs"
    "cs_processed (cp_stats s) = of_nat (length (seen s))" "cs_signals (cp_stats s) = cs_processed (cp_stats s)"
    "cp_cons s = K_pop \<longrightarrow> cp_done s" "cp_cons s = K_out \<longrightarrow> cp_done s \<and> sr_items (cp_q s) = []"
    "\<not> cp_done s \<Longrightarrow> lost s = 0"
    "cp_done s \<Longrightarrow> 2 * lost s + length (sr_items (cp_q s)) \<le> qcap - 1 \<or>
       2 * lost s + length (sr_items (cp_q s)) \<le> qcap \<and> (cp_cons s = K_body \<or> sr_items (cp_q s) = [])"
  using assms unfolding cap_inv_def by blast+

lemma cap_inv_init:
  assumes "0 < qcap"
  shows "cap_inv qcap total_msgs (cap_init qcap m)"
  using sr_new_ok [OF assms, of m]
  by (simp add: cap_inv_def cap_init_def seen_def lost_def cap_stats_init_def)

lemma cap_producer_inv:
  assumes inv: "cap_inv qcap total_msgs s" and step: "cap_producer qcap total_msgs now s = Some t"
  shows "cap_inv qcap total_msgs t"
proof (cases "cp_prod s")
  case P_top
  note i = cap_invD [OF inv]
  show ?thesis
  proof (cases "cp_i s < total_msgs")
    case True
    then have t: "t = s\<lparr>cp_prod := P_send (make_update (cp_i s) now)\<rparr>" using step P_top by (simp add: cap_producer_def)
    show ?thesis using inv True P_top unfolding t cap_inv_def by (auto simp: seen_def lost_def)
  next
    case False
    then have t: "t = s\<lparr>cp_done := True, cp_prod := P_end\<rparr>" using step P_top by (simp add: cap_producer_def)
    have "length (sr_items (cp_q s)) \<le> qcap - 1" using sr.ok_length [OF i(1)] .
    moreover have "lost s = 0" "cp_i s = total_msgs" using i(5,6,12) False P_top by auto
    ultimately show ?thesis using i(1-3,8-11) unfolding t cap_inv_def by (simp add: seen_def lost_def)
  qed
next
  case (P_send u)
  note i = cap_invD [OF inv]
  obtain b q where p: "sr_push qcap u (cp_q s) = (b, q)" by fastforce
  note r = sr.push_result [OF i(1) p]
  from i(4) [OF P_send] obtain tm where u: "cp_i s < total_msgs" "u = make_update (cp_i s) tm" by blast
  have d: "\<not> cp_done s" using i(6) P_send by simp
  show ?thesis
  proof (cases b)
    case True
    then have t: "t = s\<lparr>cp_q := q, cp_i := cp_i s + 1, cp_prod := P_top\<rparr>" using step P_send p by (simp add: cap_producer_def)
    have items: "sr_items q = sr_items (cp_q s) @ [u]" "sr_ok qcap q" using r True by simp_all
    have 1: "map mu_seq (map snd (cp_popped s) @ sr_items q) = map of_nat [0..<cp_i s + 1]"
      using i(2) unfolding items u by simp
    have 2: "\<forall>m \<in> set (map snd (cp_popped s) @ sr_items q). \<exists>i t. m = make_update i t"
      using i(3) unfolding items u by auto
    show ?thesis using 1 2 items(2) i(8-12) u(1) d unfolding t cap_inv_def
      by (simp add: seen_def lost_def)
  next
    case False
    then have t: "t = s\<lparr>cp_q := q, cp_dropped := cp_dropped s + 1\<rparr>" using step P_send p by (simp add: cap_producer_def)
    have "sr_items q = sr_items (cp_q s)" "sr_ok qcap q" using r False by simp_all
    then show ?thesis using inv d unfolding t cap_inv_def by (auto simp: seen_def lost_def)
  qed
next
  case P_end
  with step show ?thesis by (simp add: cap_producer_def)
qed

text \<open>The consumer after the producer is done, and its look at a message.\<close>

lemma cap_pop_inv:
  assumes inv: "cap_inv qcap total_msgs s" and step: "cap_consumer qcap now s = Some t" and at: "cp_cons s = K_pop"
  shows "cap_inv qcap total_msgs t"
proof -
  note i = cap_invD [OF inv]
  obtain r q where p: "sr_pop qcap (cp_q s) = (r, q)" by fastforce
  note pops = sr.pop_result [OF i(1) p]
  have d: "cp_done s" using i(10) at by blast
  show ?thesis
  proof (cases r)
    case None
    then have t: "t = s\<lparr>cp_q := q, cp_cons := K_out\<rparr>" using step at p by (simp add: cap_consumer_def)
    show ?thesis using inv pops None d unfolding t cap_inv_def by (auto simp: seen_def lost_def)
  next
    case (Some m)
    then have t: "t = s\<lparr>cp_q := q, cp_m := m, cp_cons := K_body, cp_popped := cp_popped s @ [(False, m)]\<rparr>"
      using step at p by (simp add: cap_consumer_def)
    have items: "sr_items (cp_q s) = m # sr_items q" "sr_ok qcap q" using pops Some by simp_all
    have "2 * lost t + length (sr_items (cp_q t)) \<le> qcap"
      using i(13) [OF d] at unfolding t by (auto simp: lost_def items)
    then show ?thesis using i(2-9) items(2) d unfolding items t cap_inv_def
      by (simp add: seen_def lost_def)
  qed
qed

lemma cap_body_inv:
  assumes inv: "cap_inv qcap total_msgs s" and step: "cap_consumer qcap now s = Some t" and at: "cp_cons s = K_body"
  shows "cap_inv qcap total_msgs t"
proof -
  note i = cap_invD [OF inv]
  obtain r q where p: "sr_pop qcap (cp_q s) = (r, q)" by fastforce
  note pops = sr.pop_result [OF i(1) p]
  show ?thesis
  proof (cases r)
    case None
    then have t: "t = s\<lparr>cp_q := q, cp_cons := K_done\<rparr>" using step at p by (simp add: cap_consumer_def)
    have e: "sr_items (cp_q s) = []" using pops None by simp
    moreover have "sr_items q = []" using pops None e by simp
    ultimately show ?thesis using inv pops unfolding t cap_inv_def by (auto simp: seen_def lost_def)
  next
    case (Some m)
    then have t: "t = s\<lparr>cp_q := q, cp_m := m, cp_cons := K_done, cp_stats := process_update now m (cp_stats s),
        cp_popped := cp_popped s @ [(True, m)]\<rparr>"
      using step at p by (simp add: cap_consumer_def)
    have items: "sr_items (cp_q s) = m # sr_items q" "sr_ok qcap q" using pops Some by simp_all
    from i(3) obtain j tj where m: "m = make_update j tj" unfolding items by auto
    have l: "cp_done s \<Longrightarrow> 2 * lost t + length (sr_items (cp_q t)) \<le> qcap - 1"
      using i(13) unfolding t by (auto simp: lost_def items)
    have c: "cs_processed (cp_stats t) = of_nat (length (seen t))" "cs_signals (cp_stats t) = cs_processed (cp_stats t)"
      using i(8,9) unfolding t by (simp_all add: m process_counts seen_def)
    have "lost t = lost s" unfolding t by (simp add: lost_def)
    then show ?thesis using i(2-7,12) items(2) l c unfolding items cap_inv_def by (simp add: t)
  qed
qed

lemma cap_consumer_inv:
  assumes inv: "cap_inv qcap total_msgs s" and step: "cap_consumer qcap now s = Some t"
  shows "cap_inv qcap total_msgs t"
proof (cases "cp_cons s")
  case K_done
  then have t: "t = s\<lparr>cp_cons := if \<not> cp_done s then K_body else K_pop\<rparr>" using step by (simp add: cap_consumer_def)
  show ?thesis using inv K_done unfolding t cap_inv_def by (auto simp: seen_def lost_def)
qed (use cap_pop_inv [OF assms] cap_body_inv [OF assms] step in \<open>simp_all add: cap_consumer_def\<close>)

lemma cap_reach_inv:
  assumes "(cap_step qcap total_msgs)\<^sup>*\<^sup>* s t" "cap_inv qcap total_msgs s"
  shows "cap_inv qcap total_msgs t"
  using assms
proof (induction rule: rtranclp_induct)
  case (step t u)
  from step.hyps(2) show ?case using step.IH [OF step.prems] by cases (auto intro: cap_producer_inv cap_consumer_inv)
qed

subsection \<open>A run that loses messages\<close>

definition cap_at :: "nat \<Rightarrow> nat \<Rightarrow> nat \<Rightarrow> nat \<Rightarrow> cap \<Rightarrow> bool" where
  "cap_at qcap i n l s \<longleftrightarrow> sr_ok qcap (cp_q s) \<and> length (sr_items (cp_q s)) = n \<and> cp_i s = i \<and> lost s = l \<and>
     cp_cons s = K_done"

lemma cap_atD:
  assumes "cap_at qcap i n l s"
  shows "sr_ok qcap (cp_q s)" "length (sr_items (cp_q s)) = n" "cp_i s = i" "lost s = l" "cp_cons s = K_done"
  using assms by (simp_all add: cap_at_def)

lemma cap_sends:
  assumes s: "cap_at qcap i n l s" "cp_prod s = P_top" "\<not> cp_done s" and "i < total_msgs" "n < qcap - 1"
  shows "\<exists>t. (cap_step qcap total_msgs)\<^sup>*\<^sup>* s t \<and> cap_at qcap (Suc i) (Suc n) l t \<and> cp_prod t = P_top \<and> \<not> cp_done t"
proof -
  note i = cap_atD [OF s(1)]
  define u where "u = make_update i 0"
  have "length (sr_items (cp_q s)) < qcap - 1" using i(2) assms(5) by simp
  from sr.push_room [OF i(1) this, of u] obtain q where
    q: "sr_push qcap u (cp_q s) = (True, q)" "sr_ok qcap q" "sr_items q = sr_items (cp_q s) @ [u]" by blast
  define a where "a = s\<lparr>cp_prod := P_send u\<rparr>"
  define b where "b = a\<lparr>cp_q := q, cp_i := cp_i a + 1, cp_prod := P_top\<rparr>"
  have 1: "cap_step qcap total_msgs s a"
    by (rule cap_produces [where now = 0]) (use s(2) i(3) assms(4) in \<open>simp add: cap_producer_def a_def u_def\<close>)
  have 2: "cap_step qcap total_msgs a b"
    by (rule cap_produces [where now = 0]) (use q in \<open>simp add: cap_producer_def a_def b_def\<close>)
  have "cap_at qcap (Suc i) (Suc n) l b \<and> cp_prod b = P_top \<and> \<not> cp_done b"
    using i q s(3) by (simp add: cap_at_def a_def b_def lost_def)
  with 1 2 show ?thesis by (meson converse_rtranclp_into_rtranclp rtranclp.rtrancl_refl)
qed

lemma cap_looks:
  assumes s: "cap_at qcap i (Suc n) l s" "\<not> cp_done s"
  shows "\<exists>t. (cap_step qcap total_msgs)\<^sup>*\<^sup>* s t \<and> cap_at qcap i n l t \<and> cp_prod t = cp_prod s \<and> \<not> cp_done t"
proof -
  note i = cap_atD [OF s(1)]
  obtain r q where p: "sr_pop qcap (cp_q s) = (r, q)" by fastforce
  with sr.pop_result [OF i(1) p] i(2) obtain m where m: "r = Some m" "sr_ok qcap q" "sr_items (cp_q s) = m # sr_items q"
    by (cases r) auto
  define a where "a = s\<lparr>cp_cons := K_body\<rparr>"
  define b where "b = a\<lparr>cp_q := q, cp_m := m, cp_cons := K_done, cp_stats := process_update 0 m (cp_stats a),
    cp_popped := cp_popped a @ [(True, m)]\<rparr>"
  have 1: "cap_step qcap total_msgs s a"
    by (rule cap_consumes [where now = 0]) (use i s(2) in \<open>simp add: cap_consumer_def a_def\<close>)
  have 2: "cap_step qcap total_msgs a b"
    by (rule cap_consumes [where now = 0]) (use p m in \<open>simp add: cap_consumer_def a_def b_def\<close>)
  have "cap_at qcap i n l b \<and> cp_prod b = cp_prod s \<and> \<not> cp_done b"
    using i m s(2) by (simp add: cap_at_def a_def b_def lost_def)
  with 1 2 show ?thesis by (meson converse_rtranclp_into_rtranclp rtranclp.rtrancl_refl)
qed

text \<open>After the producer is done, one turn of the loop pops two messages and looks at the second.\<close>

lemma cap_turn:
  assumes s: "cap_at qcap i (Suc n) l s" "cp_done s"
  shows "\<exists>t. (cap_step qcap total_msgs)\<^sup>*\<^sup>* s t \<and> cap_at qcap i (n - 1) (Suc l) t \<and> cp_done t"
proof -
  note i = cap_atD [OF s(1)]
  obtain r q where p: "sr_pop qcap (cp_q s) = (r, q)" by fastforce
  with sr.pop_result [OF i(1) p] i(2) obtain m where m: "r = Some m" "sr_ok qcap q" "sr_items (cp_q s) = m # sr_items q"
    by (cases r) auto
  define a where "a = s\<lparr>cp_cons := K_pop\<rparr>"
  define b where "b = a\<lparr>cp_q := q, cp_m := m, cp_cons := K_body, cp_popped := cp_popped a @ [(False, m)]\<rparr>"
  have 1: "cap_step qcap total_msgs s a"
    by (rule cap_consumes [where now = 0]) (use i s(2) in \<open>simp add: cap_consumer_def a_def\<close>)
  have 2: "cap_step qcap total_msgs a b"
    by (rule cap_consumes [where now = 0]) (use p m in \<open>simp add: cap_consumer_def a_def b_def\<close>)
  obtain r' q' where p': "sr_pop qcap q = (r', q')" by fastforce
  note pops = sr.pop_result [OF m(2) p']
  define c where "c = (case r' of None \<Rightarrow> b\<lparr>cp_q := q', cp_cons := K_done\<rparr>
    | Some m' \<Rightarrow> b\<lparr>cp_q := q', cp_m := m', cp_cons := K_done, cp_stats := process_update 0 m' (cp_stats b),
        cp_popped := cp_popped b @ [(True, m')]\<rparr>)"
  have 3: "cap_step qcap total_msgs b c"
    by (rule cap_consumes [where now = 0]) (use p' in \<open>cases r'; simp add: cap_consumer_def b_def c_def\<close>)
  have "cap_at qcap i (n - 1) (Suc l) c \<and> cp_done c"
    using i m pops s(2) by (cases r') (auto simp: cap_at_def a_def b_def c_def lost_def)
  with 1 2 3 show ?thesis by (meson converse_rtranclp_into_rtranclp rtranclp.rtrancl_refl)
qed

lemma cap_drains:
  assumes "cap_at qcap i n l s" "cp_done s"
  shows "\<exists>t. (cap_step qcap total_msgs)\<^sup>*\<^sup>* s t \<and> cp_cons t = K_out \<and> lost t = l + (n + 1) div 2"
  using assms
proof (induction n arbitrary: l s rule: less_induct)
  case (less n)
  show ?case
  proof (cases n)
    case 0
    note i = cap_atD [OF less.prems(1)]
    from sr.pop_empty [OF i(1)] i(2) 0 have p: "sr_pop qcap (cp_q s) = (None, cp_q s)" by simp
    define a where "a = s\<lparr>cp_cons := K_pop\<rparr>"
    define b where "b = a\<lparr>cp_q := cp_q s, cp_cons := K_out\<rparr>"
    have 1: "cap_step qcap total_msgs s a"
      by (rule cap_consumes [where now = 0]) (use i less.prems(2) in \<open>simp add: cap_consumer_def a_def\<close>)
    have 2: "cap_step qcap total_msgs a b"
      by (rule cap_consumes [where now = 0]) (use p in \<open>simp add: cap_consumer_def a_def b_def\<close>)
    have "cp_cons b = K_out \<and> lost b = l + (n + 1) div 2" using i 0 by (simp add: a_def b_def lost_def)
    with 1 2 show ?thesis by (meson converse_rtranclp_into_rtranclp rtranclp.rtrancl_refl)
  next
    case (Suc k)
    from cap_turn [OF less.prems [unfolded Suc], of total_msgs] obtain t where
      t: "(cap_step qcap total_msgs)\<^sup>*\<^sup>* s t" "cap_at qcap i (k - 1) (Suc l) t" "cp_done t" by blast
    have "k - 1 < n" using Suc by simp
    from less.IH [OF this t(2,3)] t(1) obtain u where
      u: "(cap_step qcap total_msgs)\<^sup>*\<^sup>* s u" "cp_cons u = K_out" "lost u = Suc l + (k - 1 + 1) div 2"
      by (meson rtranclp_trans)
    have "Suc l + (k - 1 + 1) div 2 = l + (n + 1) div 2" using Suc by (cases k) simp_all
    with u show ?thesis by metis
  qed
qed

lemma cap_loses:
  assumes "k \<le> total_msgs" "k \<le> qcap - 1" "1 < qcap"
  shows "\<exists>t. (cap_step qcap total_msgs)\<^sup>*\<^sup>* (cap_init qcap m) t \<and> cp_cons t = K_out \<and> lost t = (k + 1) div 2"
proof -
  let ?step = "cap_step qcap total_msgs" and ?s = "cap_init qcap m"
  have "\<exists>t. ?step\<^sup>*\<^sup>* ?s t \<and> cap_at qcap i 0 0 t \<and> cp_prod t = P_top \<and> \<not> cp_done t" if "i \<le> total_msgs - k" for i
    using that
  proof (induction i)
    case 0
    have "cap_at qcap 0 0 0 ?s" using sr_new_ok [of qcap m] assms(3) by (simp add: cap_at_def cap_init_def lost_def)
    then show ?case by (auto simp: cap_init_def)
  next
    case (Suc i)
    then obtain t where t: "?step\<^sup>*\<^sup>* ?s t" "cap_at qcap i 0 0 t" "cp_prod t = P_top" "\<not> cp_done t" by auto
    have "i < total_msgs" "0 < qcap - 1" using Suc.prems assms by auto
    from cap_sends [OF t(2-4) this] obtain u where
      u: "?step\<^sup>*\<^sup>* t u" "cap_at qcap (Suc i) (Suc 0) 0 u" "cp_prod u = P_top" "\<not> cp_done u" by auto
    from cap_looks [OF u(2,4), of total_msgs] u(3) obtain v where
      "?step\<^sup>*\<^sup>* u v" "cap_at qcap (Suc i) 0 0 v" "cp_prod v = P_top" "\<not> cp_done v" by auto
    with t(1) u(1) show ?case by (meson rtranclp_trans)
  qed
  then obtain t where t: "?step\<^sup>*\<^sup>* ?s t" "cap_at qcap (total_msgs - k) 0 0 t" "cp_prod t = P_top" "\<not> cp_done t" by blast
  have "\<exists>u. ?step\<^sup>*\<^sup>* t u \<and> cap_at qcap (total_msgs - k + j) j 0 u \<and> cp_prod u = P_top \<and> \<not> cp_done u" if "j \<le> k" for j
    using that
  proof (induction j)
    case 0
    with t show ?case by auto
  next
    case (Suc j)
    then obtain u where u: "?step\<^sup>*\<^sup>* t u" "cap_at qcap (total_msgs - k + j) j 0 u" "cp_prod u = P_top" "\<not> cp_done u" by auto
    have "total_msgs - k + j < total_msgs" "j < qcap - 1" using Suc.prems assms by auto
    from cap_sends [OF u(2-4) this] obtain v where
      "?step\<^sup>*\<^sup>* u v" "cap_at qcap (total_msgs - k + Suc j) (Suc j) 0 v" "cp_prod v = P_top" "\<not> cp_done v" by auto
    with u(1) show ?case by (meson rtranclp_trans)
  qed
  from this [OF order_refl] assms(1) obtain u where
    u: "?step\<^sup>*\<^sup>* t u" "cap_at qcap total_msgs k 0 u" "cp_prod u = P_top" "\<not> cp_done u" by auto
  define v where "v = u\<lparr>cp_done := True, cp_prod := P_end\<rparr>"
  have "?step u v"
    by (rule cap_produces [where now = 0]) (use cap_atD [OF u(2)] u(3) in \<open>simp add: cap_producer_def v_def\<close>)
  moreover have "cap_at qcap total_msgs k 0 v" "cp_done v" using u(2) by (simp_all add: cap_at_def v_def lost_def)
  from cap_drains [OF this, of total_msgs] obtain w where "?step\<^sup>*\<^sup>* v w" "cp_cons w = K_out" "lost w = (k + 1) div 2" by auto
  ultimately show ?thesis using t(1) u(1) by (meson converse_rtranclp_into_rtranclp rtranclp_trans)
qed

text \<open>C32: The pipeline, at its sizes of 4096 slots and 2000000 messages. In every interleaving the
  consumer pops what the producer sent, in order, every message it looks at raises a signal, and
  none is lost while the producer runs. When the consumer has left, all messages but the lost ones
  were processed, and at most 2048 are lost; every number of them up to 2048 can be lost, because
  the loop condition pops messages that nobody looks at.\<close>

theorem pipeline_loses_messages:
  shows "(cap_step cap_qcap cap_total)\<^sup>*\<^sup>* (cap_init cap_qcap m) s \<Longrightarrow>
      map mu_seq (map snd (cp_popped s) @ sr_items (cp_q s)) = map of_nat [0..<cp_i s] \<and>
      cs_signals (cp_stats s) = cs_processed (cp_stats s) \<and> (\<not> cp_done s \<longrightarrow> lost s = 0) \<and> lost s \<le> 2048 \<and>
      (cp_cons s = K_out \<longrightarrow> cs_processed (cp_stats s) = of_nat (2000000 - lost s)) \<and>
      (\<forall>l \<le> 2048. \<exists>t. (cap_step cap_qcap cap_total)\<^sup>*\<^sup>* (cap_init cap_qcap m) t \<and> cp_cons t = K_out \<and> lost t = l)"
proof -
  assume r: "(cap_step cap_qcap cap_total)\<^sup>*\<^sup>* (cap_init cap_qcap m) s"
  have n: "0 < cap_qcap" by (simp add: cap_qcap_def)
  note i = cap_invD [OF cap_reach_inv [OF r cap_inv_init [OF n]]]
  have "lost s \<le> 2048" using i(12,13) by (cases "cp_done s") (auto simp: cap_qcap_def)
  moreover have "cs_processed (cp_stats s) = of_nat (2000000 - lost s)" if "cp_cons s = K_out"
  proof -
    from i(7,11) that have "sr_items (cp_q s) = []" "cp_i s = cap_total" by auto
    with arg_cong [OF i(2), of length] have "length (cp_popped s) = 2000000" by (simp add: cap_total_def)
    moreover have "length (seen s) + lost s = length (cp_popped s)"
      using sum_length_filter_compl [of fst "cp_popped s"] by (simp add: seen_def lost_def)
    ultimately have "length (seen s) = 2000000 - lost s" by simp
    with i(8) show ?thesis by simp
  qed
  moreover have "\<exists>t. (cap_step cap_qcap cap_total)\<^sup>*\<^sup>* (cap_init cap_qcap m) t \<and> cp_cons t = K_out \<and> lost t = l" if "l \<le> 2048" for l
    using cap_loses [of "2 * l - 1" cap_total cap_qcap m] that by (cases l) (auto simp: cap_qcap_def cap_total_def)
  ultimately show ?thesis using i(2,9,12) by blast
qed

lemma pipeline_loses_messages_witness:
  "\<exists>t. (cap_step cap_qcap cap_total)\<^sup>*\<^sup>* (cap_init cap_qcap (make_update 0 0)) t \<and> cp_cons t = K_out \<and> lost t = 2048"
  using pipeline_loses_messages [OF rtranclp.rtrancl_refl, of "make_update 0 0"] by blast

end
