(* ===== verification/Hot_Loops.thy ===== *)
theory Hot_Loops
  imports Prelude
begin

section \<open>The loops of the micro-benchmarks\<close>

text \<open>
  The three sums of \<open>hot_loop_optimization.cpp\<close>, the sweep of \<open>working_set_tlb_huge_pages.cpp\<close> and
  the counters of \<open>false_sharing.cpp\<close>. What is timed is left out; what is computed is here, with
  the widths of the integers.
\<close>

subsection \<open>Three ways to add up a vector\<close>

text \<open>An index loop over the first \<open>n\<close> elements of \<open>p\<close>, from index \<open>i\<close> on.\<close>

function sum_loop :: "u32 list \<Rightarrow> nat \<Rightarrow> nat \<Rightarrow> u64 \<Rightarrow> u64" where
  "sum_loop p n i s = (if i < n then sum_loop p n (i + 1) (s + ucast (p ! i)) else s)"
  by auto
termination by (relation "measure (\<lambda>(_, n, i, _). n - i)") auto

declare sum_loop.simps [simp del]

definition sum_naive :: "u32 list \<Rightarrow> u64" where
  "sum_naive v = sum_loop v (length v) 0 0"

definition sum_cache_friendly :: "u32 list \<Rightarrow> u64" where
  "sum_cache_friendly v = (let s = 0; p = v; n = length v in sum_loop p n 0 s)"

text \<open>
  The vector version adds four lanes of 32 bits each, then adds the lanes as \<open>int\<close>s, where an
  overflow is undefined (\<open>None\<close>), and converts the result to 64 bits with its sign.
\<close>

type_synonym lanes = "u32 \<times> u32 \<times> u32 \<times> u32"

definition add_epi32 :: "lanes \<Rightarrow> lanes \<Rightarrow> lanes" where
  "add_epi32 x y = (case (x, y) of ((a, b, c, d), (a', b', c', d')) \<Rightarrow> (a + a', b + b', c + c', d + d'))"

definition loadu :: "u32 list \<Rightarrow> nat \<Rightarrow> lanes" where
  "loadu p i = (p ! i, p ! (i + 1), p ! (i + 2), p ! (i + 3))"

function simd_loop :: "u32 list \<Rightarrow> nat \<Rightarrow> nat \<Rightarrow> lanes \<Rightarrow> nat \<times> lanes" where
  "simd_loop p n i sum4 = (if i + 4 \<le> n then simd_loop p n (i + 4) (add_epi32 sum4 (loadu p i)) else (i, sum4))"
  by auto
termination by (relation "measure (\<lambda>(_, n, i, _). n - i)") auto

declare simd_loop.simps [simp del]

definition int_add :: "i32 \<Rightarrow> i32 \<Rightarrow> i32 option" where
  "int_add x y = (if sint x + sint y = sint (x + y) then Some (x + y) else None)"

definition add_lanes :: "lanes \<Rightarrow> i32 option" where
  "add_lanes l = (case l of (a, b, c, d) \<Rightarrow>
     case int_add a b of None \<Rightarrow> None | Some x \<Rightarrow>
     (case int_add x c of None \<Rightarrow> None | Some y \<Rightarrow> int_add y d))"

definition sum_simd :: "u32 list \<Rightarrow> u64 option" where
  "sum_simd v =
     (let n = length v; p = v; (i, sum4) = simd_loop p n 0 (0, 0, 0, 0)
      in map_option (\<lambda>t. sum_loop p n i (scast t)) (add_lanes sum4))"

lemma take_drop_Suc: "i < n \<Longrightarrow> n \<le> length p \<Longrightarrow> take (n - i) (drop i p) = p ! i # take (n - Suc i) (drop (Suc i) p)"
  by (metis Cons_nth_drop_Suc Suc_diff_Suc order_less_le_trans take_Suc_Cons)

lemma sum_loop_value: "i \<le> n \<Longrightarrow> n \<le> length p \<Longrightarrow>
    sum_loop p n i s = s + of_nat (sum_list (map unat (take (n - i) (drop i p))))"
proof (induction p n i s rule: sum_loop.induct)
  case (1 p n i s)
  show ?case
  proof (cases "i < n")
    case True
    have "sum_loop p n i s = sum_loop p n (i + 1) (s + ucast (p ! i))" using True by (subst sum_loop.simps) simp
    also have "\<dots> = s + ucast (p ! i) + of_nat (sum_list (map unat (take (n - Suc i) (drop (Suc i) p))))"
      using 1(1) [OF True] True 1(3) by simp
    also have "ucast (p ! i) = (of_nat (unat (p ! i)) :: u64)" by simp
    finally show ?thesis unfolding take_drop_Suc [OF True 1(3)] by simp
  next
    case False
    with 1(2) show ?thesis by (subst sum_loop.simps) simp
  qed
qed

lemma sum_naive_value: "sum_naive v = of_nat (sum_list (map unat v))"
  using sum_loop_value [of 0 "length v" v 0] by (simp add: sum_naive_def)

definition lane_sum :: "lanes \<Rightarrow> nat" where
  "lane_sum l = (case l of (a, b, c, d) \<Rightarrow> unat a + unat b + unat c + unat d)"

lemma unat_add_small: "unat x + unat y < 2 ^ 31 \<Longrightarrow> unat (x + y) = unat x + unat (y :: u32)"
  by (simp add: unat_word_ariths(1))

lemma lane_sum_add:
  assumes "lane_sum x + lane_sum y < 2 ^ 31"
  shows "lane_sum (add_epi32 x y) = lane_sum x + lane_sum y"
  using assms by (auto simp: lane_sum_def add_epi32_def unat_add_small split: prod.splits)

lemma sint_small: "unat x < 2 ^ 31 \<Longrightarrow> sint (x :: i32) = int (unat x)"
  unfolding sint_uint uint_nat by (rule signed_take_bit_int_eq_self) (simp_all add: nat_less_iff del: of_nat_unat int_nat_eq)

lemma int_add_small: "unat x + unat y < 2 ^ 31 \<Longrightarrow> int_add x y = Some (x + y)"
  using unat_add_small [of x y] by (simp add: int_add_def sint_small)

lemma add_lanes_small:
  assumes "lane_sum l < 2 ^ 31"
  shows "\<exists>t. add_lanes l = Some t \<and> unat t = lane_sum l"
proof -
  obtain a b c d where l: "l = (a, b, c, d)" by (cases l)
  have s: "unat a + unat b + unat c + unat d < 2 ^ 31" using assms by (simp add: l lane_sum_def)
  have 1: "int_add a b = Some (a + b)" "unat (a + b) = unat a + unat b"
    using s by (simp_all add: int_add_small unat_add_small)
  have 2: "int_add (a + b) c = Some (a + b + c)" "unat (a + b + c) = unat a + unat b + unat c"
    using s 1(2) by (simp_all add: int_add_small unat_add_small)
  have 3: "int_add (a + b + c) d = Some (a + b + c + d)" "unat (a + b + c + d) = unat a + unat b + unat c + unat d"
    using s 2(2) by (simp_all add: int_add_small unat_add_small)
  show ?thesis using 1(1) 2(1) 3 by (simp add: l add_lanes_def lane_sum_def)
qed

lemma loadu_sum: "i + 4 \<le> n \<Longrightarrow> n \<le> length p \<Longrightarrow>
    sum_list (map unat (take (n - i) (drop i p))) = lane_sum (loadu p i) + sum_list (map unat (take (n - (i + 4)) (drop (i + 4) p)))"
  using take_drop_Suc [of i n p] take_drop_Suc [of "i + 1" n p] take_drop_Suc [of "i + 2" n p] take_drop_Suc [of "i + 3" n p]
  by (simp add: loadu_def lane_sum_def eval_nat_numeral)

lemma simd_loop_sum:
  "i \<le> n \<Longrightarrow> n \<le> length p \<Longrightarrow> lane_sum l + sum_list (map unat (take (n - i) (drop i p))) < 2 ^ 31 \<Longrightarrow>
   simd_loop p n i l = (j, l') \<Longrightarrow>
   j \<le> n \<and> lane_sum l' + sum_list (map unat (take (n - j) (drop j p))) = lane_sum l + sum_list (map unat (take (n - i) (drop i p)))"
proof (induction p n i l arbitrary: j l' rule: simd_loop.induct)
  case (1 p n i l)
  show ?case
  proof (cases "i + 4 \<le> n")
    case True
    from 1(5) True have r: "simd_loop p n (i + 4) (add_epi32 l (loadu p i)) = (j, l')" by (subst (asm) simd_loop.simps) simp
    note s = loadu_sum [OF True 1(3)]
    have "lane_sum (add_epi32 l (loadu p i)) = lane_sum l + lane_sum (loadu p i)"
      using 1(4) unfolding s by (intro lane_sum_add) simp
    with 1(1) [OF True True 1(3) _ r] 1(4) show ?thesis unfolding s by simp
  next
    case False
    with 1(5) have "j = i" "l' = l" by (subst (asm) simd_loop.simps; simp)+
    with 1(2) show ?thesis by simp
  qed
qed

lemma simd_loop_index: "simd_loop p n i l = (j, l') \<Longrightarrow> i \<le> n \<Longrightarrow> j \<le> n \<and> n - j < 4 \<and> 4 dvd j - i \<and> i \<le> j"
proof (induction p n i l arbitrary: j l' rule: simd_loop.induct)
  case (1 p n i l)
  show ?case
  proof (cases "i + 4 \<le> n")
    case True
    from 1(2) True have r: "simd_loop p n (i + 4) (add_epi32 l (loadu p i)) = (j, l')" by (subst (asm) simd_loop.simps) simp
    from 1(1) [OF True r True] have "j \<le> n \<and> n - j < 4 \<and> 4 dvd j - (i + 4) \<and> i + 4 \<le> j" .
    then show ?thesis by presburger
  next
    case False
    with 1(2) have "j = i" by (subst (asm) simd_loop.simps) simp
    with 1(3) False show ?thesis by simp
  qed
qed

lemma sum_simd_small:
  assumes "sum_list (map unat v) < 2 ^ 31"
  shows "sum_simd v = Some (sum_naive v)"
proof -
  obtain j l where r: "simd_loop v (length v) 0 (0, 0, 0, 0) = (j, l)" by (metis surj_pair)
  from simd_loop_sum [OF _ _ _ r] assms
  have j: "j \<le> length v" "lane_sum l + sum_list (map unat (drop j v)) = sum_list (map unat v)"
    by (auto simp: lane_sum_def)
  with assms obtain t where t: "add_lanes l = Some t" "unat t = lane_sum l" using add_lanes_small [of l] by auto
  have "unat t < 2 ^ 31" using j(2) t(2) assms by linarith
  then have "(scast t :: u64) = of_nat (unat t)" by (simp add: scast_eq sint_small)
  then have "sum_loop v (length v) j (scast t) = of_nat (sum_list (map unat v))"
    using sum_loop_value [OF j(1), of v "scast t"] t(2) by (simp add: j(2) [symmetric])
  then show ?thesis by (simp add: sum_simd_def r t sum_naive_value)
qed

text \<open>The vector of the program, \<open>std::iota\<close> from 0.\<close>

definition hot_N :: nat where
  "hot_N = 8 * 1000 * 1000"

definition hot_vector :: "nat \<Rightarrow> u32 list" where
  "hot_vector n = map of_nat [0..<n]"

lemma hot_vector_sum: "n \<le> 2 ^ 32 \<Longrightarrow> 2 * sum_list (map unat (hot_vector n)) = n * (n - 1)"
proof (induction n)
  case (Suc n)
  then have "unat (of_nat n :: u32) = n" by (simp add: unat_of_nat)
  with Suc show ?case by (cases n) (simp_all add: hot_vector_def algebra_simps)
qed (simp add: hot_vector_def)

lemma sint_of_int_u64: "- (2 ^ 63) \<le> k \<Longrightarrow> k < 2 ^ 63 \<Longrightarrow> sint (of_int k :: u64) = k"
  by (simp add: sint_sbintrunc' signed_take_bit_int_eq_self)

lemma sum_simd_range:
  assumes "4 dvd length v" "sum_simd v = Some s"
  shows "- (2 ^ 31) \<le> sint s \<and> sint s < 2 ^ 31"
proof -
  obtain j l where r: "simd_loop v (length v) 0 (0, 0, 0, 0) = (j, l)" by (metis surj_pair)
  from simd_loop_index [OF r] have "j \<le> length v \<and> length v - j < 4 \<and> 4 dvd j" by simp
  with assms(1) have j: "j = length v" by presburger
  from assms(2) r obtain t where "s = scast t" "add_lanes l = Some (t :: i32)"
    by (auto simp: sum_simd_def j sum_loop.simps)
  moreover have "- (2 ^ 31) \<le> sint t" "sint t < 2 ^ 31" using sint_ge [of t] sint_lt [of t] by simp_all
  moreover from this have "sint (scast t :: u64) = sint t" unfolding scast_eq by (intro sint_of_int_u64) simp_all
  ultimately show ?thesis by simp
qed

text \<open>The two scalar sums are equal, and they are the sum of the elements modulo \<open>2^64\<close>. The
  vector version agrees with them as long as the whole sum is below \<open>2^31\<close>. On the vector of the
  program it never does: its lanes are 32 bits wide and the sum is 31999996000000, so whatever it
  prints, if anything is defined at all, is another number.\<close>

theorem vector_sum_bounds:
  "sum_cache_friendly v = sum_naive v \<and> sum_naive v = of_nat (sum_list (map unat v)) \<and>
   (sum_list (map unat v) < 2 ^ 31 \<longrightarrow> sum_simd v = Some (sum_naive v)) \<and>
   sum_naive (hot_vector hot_N) = 31999996000000 \<and> sum_simd (hot_vector hot_N) \<noteq> Some (sum_naive (hot_vector hot_N))"
proof (intro conjI impI)
  show "sum_cache_friendly v = sum_naive v" by (simp add: sum_cache_friendly_def sum_naive_def)
  show "sum_naive v = of_nat (sum_list (map unat v))" by (rule sum_naive_value)
  show "sum_list (map unat v) < 2 ^ 31 \<Longrightarrow> sum_simd v = Some (sum_naive v)" by (rule sum_simd_small)
  have "2 * sum_list (map unat (hot_vector hot_N)) = hot_N * (hot_N - 1)"
    by (rule hot_vector_sum) (simp add: hot_N_def)
  then have "sum_list (map unat (hot_vector hot_N)) = 31999996000000" by (simp add: hot_N_def)
  then show n: "sum_naive (hot_vector hot_N) = 31999996000000" by (simp add: sum_naive_value)
  have "4 dvd length (hot_vector hot_N)" by (simp add: hot_vector_def hot_N_def)
  from sum_simd_range [OF this] show "sum_simd (hot_vector hot_N) \<noteq> Some (sum_naive (hot_vector hot_N))"
    using sint_of_int_u64 [of 31999996000000] unfolding n by fastforce
qed

lemma vector_sum_bounds_witness:
  "sum_simd [1, 2, 3, 4, 5] = Some (sum_naive [1, 2, 3, 4, 5])"
  using vector_sum_bounds [of "[1, 2, 3, 4, 5]"] by simp

subsection \<open>A sweep over a working set\<close>

text \<open>
  One pass touches every \<open>stride\<close>-th element and adds what it reads to \<open>sink\<close>. \<open>run_sweep\<close> returns
  the memory, the sink and the number of touches it reports, or nothing for an empty set.
\<close>

function sweep_pass :: "nat \<Rightarrow> nat \<Rightarrow> nat \<Rightarrow> u64 list \<times> u64 \<Rightarrow> u64 list \<times> u64" where
  "sweep_pass elems stride i (mem, sink) =
     (if 0 < stride \<and> i < elems
      then sweep_pass elems stride (i + stride) (mem[i := mem ! i + 1], sink + (mem ! i + 1))
      else (mem, sink))"
  by pat_completeness auto
termination by (relation "measure (\<lambda>(elems, _, i, _). elems - i)") auto

declare sweep_pass.simps [simp del]

definition reported_touches :: "nat \<Rightarrow> nat \<Rightarrow> nat \<Rightarrow> nat" where
  "reported_touches elems stride passes = (elems div stride + (if elems mod stride \<noteq> 0 then 1 else 0)) * passes"

definition run_sweep :: "nat \<Rightarrow> nat \<Rightarrow> nat \<Rightarrow> u64 list \<Rightarrow> (u64 list \<times> u64 \<times> nat) option" where
  "run_sweep page_size bytes passes mem =
     (let elems = bytes div 8; stride = page_size div 8
      in if elems = 0 \<or> stride = 0 then None
         else let (mem', sink) = (sweep_pass elems stride 0 ^^ passes) (mem, 0)
              in Some (mem', sink, reported_touches elems stride passes))"

text \<open>The indices one pass touches.\<close>

definition touched :: "nat \<Rightarrow> nat \<Rightarrow> nat set" where
  "touched elems stride = {i. i < elems \<and> stride dvd i}"

lemma sweep_pass_mem:
  "0 < stride \<Longrightarrow> stride dvd i \<Longrightarrow> length mem = elems \<Longrightarrow>
   fst (sweep_pass elems stride i (mem, sink)) =
     map (\<lambda>j. if i \<le> j \<and> stride dvd j then mem ! j + 1 else mem ! j) [0..<elems]"
proof (induction elems stride i "(mem, sink)" arbitrary: mem sink rule: sweep_pass.induct)
  case (1 elems stride i mem sink)
  show ?case
  proof (cases "i < elems")
    case True
    have nxt: "i + stride \<le> j" if "i \<le> j" "stride dvd j" "i \<noteq> j" for j
    proof -
      from that 1(3) obtain a b where "i = stride * a" "j = stride * b" by (auto elim!: dvdE)
      with that 1(2) have "a < b" by (metis mult_le_mono2 not_less order_antisym)
      then have "stride * Suc a \<le> stride * b" by (intro mult_le_mono2) simp
      with \<open>i = _\<close> \<open>j = _\<close> show ?thesis by simp
    qed
    have "fst (sweep_pass elems stride i (mem, sink)) =
        fst (sweep_pass elems stride (i + stride) (mem[i := mem ! i + 1], sink + (mem ! i + 1)))"
      using True 1(2) by (subst sweep_pass.simps) simp
    also have "\<dots> = map (\<lambda>j. if i + stride \<le> j \<and> stride dvd j then mem[i := mem ! i + 1] ! j + 1 else mem[i := mem ! i + 1] ! j) [0..<elems]"
      using True 1(2-4) by (intro 1(1)) simp_all
    also have "\<dots> = map (\<lambda>j. if i \<le> j \<and> stride dvd j then mem ! j + 1 else mem ! j) [0..<elems]"
      using True 1(2-4) nxt by (intro map_cong refl) (auto simp: nth_list_update)
    finally show ?thesis .
  next
    case False
    then have "fst (sweep_pass elems stride i (mem, sink)) = mem" by (subst sweep_pass.simps) simp
    also have "mem = map (\<lambda>j. mem ! j) [0..<elems]" by (simp add: 1(4) [symmetric] map_nth)
    also have "\<dots> = map (\<lambda>j. if i \<le> j \<and> stride dvd j then mem ! j + 1 else mem ! j) [0..<elems]"
      using False by (intro map_cong refl) auto
    finally show ?thesis .
  qed
qed

lemma sweeps_mem:
  assumes "0 < stride" "length mem = elems"
  shows "fst ((sweep_pass elems stride 0 ^^ k) (mem, sink)) =
    map (\<lambda>j. if stride dvd j then mem ! j + of_nat k else mem ! j) [0..<elems]"
proof (induction k)
  case 0
  have "(\<lambda>j. if stride dvd j then mem ! j + of_nat 0 else mem ! j) = (\<lambda>j. mem ! j)" by auto
  moreover have "map (\<lambda>j. mem ! j) [0..<elems] = mem" by (simp add: assms(2) [symmetric] map_nth)
  ultimately show ?case by (simp only: funpow_0 fst_conv)
next
  case (Suc k)
  obtain m t where m: "(sweep_pass elems stride 0 ^^ k) (mem, sink) = (m, t)" by fastforce
  with Suc have f: "m = map (\<lambda>j. if stride dvd j then mem ! j + of_nat k else mem ! j) [0..<elems]" by simp
  have "fst (sweep_pass elems stride 0 (m, t)) = map (\<lambda>j. if 0 \<le> j \<and> stride dvd j then m ! j + 1 else m ! j) [0..<elems]"
    using assms f by (intro sweep_pass_mem) simp_all
  also have "\<dots> = map (\<lambda>j. if stride dvd j then mem ! j + of_nat (Suc k) else mem ! j) [0..<elems]"
    unfolding f by (intro map_cong refl) auto
  finally show ?case using m by simp
qed

lemma card_touched:
  assumes "0 < stride"
  shows "card (touched elems stride) * passes = reported_touches elems stride passes"
proof -
  have "touched elems stride = (\<lambda>k. stride * k) ` {k. stride * k < elems}"
    by (auto simp: touched_def elim: dvdE)
  moreover have "{k. stride * k < elems} = {..<elems div stride + (if elems mod stride \<noteq> 0 then 1 else 0)}"
  proof (rule set_eqI)
    fix k
    have e: "elems = stride * (elems div stride) + elems mod stride" by simp
    have m: "elems mod stride < stride" using assms by simp
    show "k \<in> {k. stride * k < elems} \<longleftrightarrow> k \<in> {..<elems div stride + (if elems mod stride \<noteq> 0 then 1 else 0)}"
    proof (cases k "elems div stride" rule: linorder_cases)
      case less
      then have "stride * Suc k \<le> stride * (elems div stride)" by (intro mult_le_mono2) simp
      then have a: "stride * k + stride \<le> stride * (elems div stride)" by simp
      have b: "stride * (elems div stride) \<le> elems" by simp
      from a b assms have "stride * k < elems" by linarith
      with less show ?thesis by simp
    next
      case equal
      then have "elems = stride * k + elems mod stride" using e by simp
      then have "stride * k < elems \<longleftrightarrow> elems mod stride \<noteq> 0" by linarith
      with equal show ?thesis by simp
    next
      case greater
      then have "stride * Suc (elems div stride) \<le> stride * k" by (intro mult_le_mono2) simp
      then have "stride + stride * (elems div stride) \<le> stride * k" by simp
      with e m have "\<not> stride * k < elems" by linarith
      with greater show ?thesis by simp
    qed
  qed
  moreover have "inj_on (\<lambda>k. stride * k) X" for X using assms by (simp add: inj_on_def)
  ultimately show ?thesis by (simp add: card_image reported_touches_def)
qed

text \<open>The sweep adds the number of passes to every touched element, and reports as many touches as
  it makes.\<close>

lemma sweep_counts:
  assumes "length mem = bytes div 8" "run_sweep page_size bytes passes mem = Some (mem', sink, n)"
  shows "mem' = map (\<lambda>j. if j \<in> touched (bytes div 8) (page_size div 8) then mem ! j + of_nat passes else mem ! j) [0..<bytes div 8]"
    and "n = card (touched (bytes div 8) (page_size div 8)) * passes"
proof -
  let ?e = "bytes div 8" and ?s = "page_size div 8"
  from assms(2) have s: "0 < ?s" and r: "fst ((sweep_pass ?e ?s 0 ^^ passes) (mem, 0)) = mem'"
    "n = reported_touches ?e ?s passes"
    by (auto simp: run_sweep_def Let_def split: if_splits prod.splits)
  show "n = card (touched ?e ?s) * passes" using card_touched [OF s] r(2) by simp
  show "mem' = map (\<lambda>j. if j \<in> touched ?e ?s then mem ! j + of_nat passes else mem ! j) [0..<?e]"
    using sweeps_mem [OF s assms(1), of passes 0] r(1) by (auto simp: touched_def)
qed

subsection \<open>Four counters, four threads\<close>

text \<open>The counters of \<open>BadCounters\<close> and \<open>GoodCounters\<close> differ only in their place in memory. A thread
  has its counter and the number of increments it still has to make.\<close>

record counters =
  ct_value :: "nat \<Rightarrow> u64"
  ct_left :: "nat \<Rightarrow> nat"

definition counters_init :: "nat \<Rightarrow> counters" where
  "counters_init iterations = \<lparr>ct_value = (\<lambda>_. 0), ct_left = (\<lambda>_. iterations)\<rparr>"

inductive inc_step :: "counters \<Rightarrow> counters \<Rightarrow> bool" where
  inc: "k < 4 \<Longrightarrow> ct_left s k = Suc n \<Longrightarrow>
    inc_step s (s\<lparr>ct_value := (ct_value s)(k := ct_value s k + 1), ct_left := (ct_left s)(k := n)\<rparr>)"

text \<open>Joined threads have counted every increment, in every interleaving.\<close>

lemma counters_exact:
  assumes "inc_step\<^sup>*\<^sup>* (counters_init iterations) s"
  shows "ct_value s k + of_nat (ct_left s k) = of_nat iterations"
  using assms
proof (induction rule: rtranclp_induct)
  case base
  show ?case by (simp add: counters_init_def)
next
  case (step s t)
  from step.hyps(2) step.IH show ?case by cases (auto simp: algebra_simps)
qed

end
