(* ===== verification/Particle_Layouts.thy ===== *)
theory Particle_Layouts
  imports Prelude
begin

section \<open>Two layouts of the same particles\<close>

text \<open>
  \<open>aos_vs_soa_particles.cpp\<close> runs the same physics over a vector of structures and over a structure
  of vectors. Single-precision arithmetic is a parameter: the theorem holds for every addition and
  multiplication, so it does not depend on rounding, only on the order of the operations.
  \<open>f_milli n\<close> is the literal \<open>n / 1000\<close>, \<open>f_nat\<close> the conversion of an index.
\<close>

record 'f float_ops =
  f_add :: "'f \<Rightarrow> 'f \<Rightarrow> 'f"
  f_mul :: "'f \<Rightarrow> 'f \<Rightarrow> 'f"
  f_milli :: "nat \<Rightarrow> 'f"
  f_nat :: "nat \<Rightarrow> 'f"

subsection \<open>A vector of structures\<close>

record 'f particle_oop =
  po_x :: 'f
  po_y :: 'f
  po_z :: 'f
  po_vx :: 'f
  po_vy :: 'f
  po_vz :: 'f
  po_ax :: 'f
  po_ay :: 'f
  po_az :: 'f
  po_extra :: "'f list"

definition system_integrate_velocity_oop :: "'f float_ops \<Rightarrow> 'f \<Rightarrow> 'f particle_oop list \<Rightarrow> 'f particle_oop list" where
  "system_integrate_velocity_oop F dt ps =
     map (\<lambda>p. p\<lparr>po_vx := f_add F (po_vx p) (f_mul F (po_ax p) dt),
               po_vy := f_add F (po_vy p) (f_mul F (po_ay p) dt),
               po_vz := f_add F (po_vz p) (f_mul F (po_az p) dt)\<rparr>) ps"

definition system_integrate_position_oop :: "'f float_ops \<Rightarrow> 'f \<Rightarrow> 'f particle_oop list \<Rightarrow> 'f particle_oop list" where
  "system_integrate_position_oop F dt ps =
     map (\<lambda>p. p\<lparr>po_x := f_add F (po_x p) (f_mul F (po_vx p) dt),
               po_y := f_add F (po_y p) (f_mul F (po_vy p) dt),
               po_z := f_add F (po_z p) (f_mul F (po_vz p) dt)\<rparr>) ps"

definition render_term :: "'f float_ops \<Rightarrow> 'f \<Rightarrow> 'f \<Rightarrow> 'f \<Rightarrow> 'f" where
  "render_term F x y z =
     f_add F (f_add F (f_mul F x (f_milli F 100)) (f_mul F y (f_milli F 200))) (f_mul F z (f_milli F 300))"

definition system_render_oop :: "'f float_ops \<Rightarrow> 'f particle_oop list \<Rightarrow> 'f" where
  "system_render_oop F ps = fold (\<lambda>p sum. f_add F sum (render_term F (po_x p) (po_y p) (po_z p))) ps (f_milli F 0)"

subsection \<open>A structure of vectors\<close>

record 'f particle_system_dop =
  pd_x :: "'f list"
  pd_y :: "'f list"
  pd_z :: "'f list"
  pd_vx :: "'f list"
  pd_vy :: "'f list"
  pd_vz :: "'f list"
  pd_ax :: "'f list"
  pd_ay :: "'f list"
  pd_az :: "'f list"

definition dop_new :: "'f float_ops \<Rightarrow> nat \<Rightarrow> 'f particle_system_dop" where
  "dop_new F n = (let v = replicate n (f_milli F 0)
     in \<lparr>pd_x = v, pd_y = v, pd_z = v, pd_vx = v, pd_vy = v, pd_vz = v, pd_ax = v, pd_ay = v, pd_az = v\<rparr>)"

definition velocity_step :: "'f float_ops \<Rightarrow> 'f \<Rightarrow> nat \<Rightarrow> 'f particle_system_dop \<Rightarrow> 'f particle_system_dop" where
  "velocity_step F dt i s =
     s\<lparr>pd_vx := (pd_vx s)[i := f_add F (pd_vx s ! i) (f_mul F (pd_ax s ! i) dt)],
       pd_vy := (pd_vy s)[i := f_add F (pd_vy s ! i) (f_mul F (pd_ay s ! i) dt)],
       pd_vz := (pd_vz s)[i := f_add F (pd_vz s ! i) (f_mul F (pd_az s ! i) dt)]\<rparr>"

definition system_integrate_velocity_dop :: "'f float_ops \<Rightarrow> 'f \<Rightarrow> 'f particle_system_dop \<Rightarrow> 'f particle_system_dop" where
  "system_integrate_velocity_dop F dt s = (let n = length (pd_x s) in fold (velocity_step F dt) [0..<n] s)"

definition position_step :: "'f float_ops \<Rightarrow> 'f \<Rightarrow> nat \<Rightarrow> 'f particle_system_dop \<Rightarrow> 'f particle_system_dop" where
  "position_step F dt i s =
     s\<lparr>pd_x := (pd_x s)[i := f_add F (pd_x s ! i) (f_mul F (pd_vx s ! i) dt)],
       pd_y := (pd_y s)[i := f_add F (pd_y s ! i) (f_mul F (pd_vy s ! i) dt)],
       pd_z := (pd_z s)[i := f_add F (pd_z s ! i) (f_mul F (pd_vz s ! i) dt)]\<rparr>"

definition system_integrate_position_dop :: "'f float_ops \<Rightarrow> 'f \<Rightarrow> 'f particle_system_dop \<Rightarrow> 'f particle_system_dop" where
  "system_integrate_position_dop F dt s = (let n = length (pd_x s) in fold (position_step F dt) [0..<n] s)"

definition system_render_dop :: "'f float_ops \<Rightarrow> 'f particle_system_dop \<Rightarrow> 'f" where
  "system_render_dop F s =
     fold (\<lambda>i sum. f_add F sum (render_term F (pd_x s ! i) (pd_y s ! i) (pd_z s ! i))) [0..<length (pd_x s)] (f_milli F 0)"

subsection \<open>The program\<close>

definition init_oop :: "'f float_ops \<Rightarrow> nat \<Rightarrow> 'f particle_oop list" where
  "init_oop F n =
     map (\<lambda>i. \<lparr>po_x = f_mul F (f_nat F i) (f_milli F 1), po_y = f_mul F (f_nat F i) (f_milli F 2),
               po_z = f_mul F (f_nat F i) (f_milli F 3), po_vx = f_milli F 1000, po_vy = f_milli F 2000, po_vz = f_milli F 3000,
               po_ax = f_milli F 100, po_ay = f_milli F 200, po_az = f_milli F 300, po_extra = replicate 32 (f_milli F 0)\<rparr>) [0..<n]"

definition init_dop_step :: "'f float_ops \<Rightarrow> nat \<Rightarrow> 'f particle_system_dop \<Rightarrow> 'f particle_system_dop" where
  "init_dop_step F i s =
     s\<lparr>pd_x := (pd_x s)[i := f_mul F (f_nat F i) (f_milli F 1)], pd_y := (pd_y s)[i := f_mul F (f_nat F i) (f_milli F 2)],
       pd_z := (pd_z s)[i := f_mul F (f_nat F i) (f_milli F 3)],
       pd_vx := (pd_vx s)[i := f_milli F 1000], pd_vy := (pd_vy s)[i := f_milli F 2000], pd_vz := (pd_vz s)[i := f_milli F 3000],
       pd_ax := (pd_ax s)[i := f_milli F 100], pd_ay := (pd_ay s)[i := f_milli F 200], pd_az := (pd_az s)[i := f_milli F 300]\<rparr>"

definition init_dop :: "'f float_ops \<Rightarrow> nat \<Rightarrow> 'f particle_system_dop" where
  "init_dop F n = fold (init_dop_step F) [0..<n] (dop_new F n)"

text \<open>The physics steps, then the render steps over particles that do not change any more.\<close>

definition oop_main :: "'f float_ops \<Rightarrow> nat \<Rightarrow> nat \<Rightarrow> nat \<Rightarrow> 'f" where
  "oop_main F n physics_steps render_steps =
     (let dt = f_milli F 16;
          ps = ((\<lambda>ps. system_integrate_position_oop F dt (system_integrate_velocity_oop F dt ps)) ^^ physics_steps) (init_oop F n)
      in ((\<lambda>sum. f_add F sum (system_render_oop F ps)) ^^ render_steps) (f_milli F 0))"

definition dop_main :: "'f float_ops \<Rightarrow> nat \<Rightarrow> nat \<Rightarrow> nat \<Rightarrow> 'f" where
  "dop_main F n physics_steps render_steps =
     (let dt = f_milli F 16;
          s = ((\<lambda>s. system_integrate_position_dop F dt (system_integrate_velocity_dop F dt s)) ^^ physics_steps) (init_dop F n)
      in ((\<lambda>sum. f_add F sum (system_render_dop F s)) ^^ render_steps) (f_milli F 0))"

subsection \<open>The layouts agree\<close>

definition columns :: "'f particle_oop list \<Rightarrow> 'f particle_system_dop" where
  "columns ps = \<lparr>pd_x = map po_x ps, pd_y = map po_y ps, pd_z = map po_z ps, pd_vx = map po_vx ps, pd_vy = map po_vy ps,
     pd_vz = map po_vz ps, pd_ax = map po_ax ps, pd_ay = map po_ay ps, pd_az = map po_az ps\<rparr>"

text \<open>A loop that updates every index of the columns is a map over the rows.\<close>

lemma loop_columns:
  assumes "\<And>i qs. i < length qs \<Longrightarrow> step i (columns qs) = columns (qs[i := f i (qs ! i)])" and "k \<le> length ps"
  shows "fold step [0..<k] (columns ps) = columns (map (\<lambda>i. if i < k then f i (ps ! i) else ps ! i) [0..<length ps])"
  using assms(2)
proof (induction k)
  case 0
  then show ?case by (simp add: map_nth)
next
  case (Suc k)
  let ?qs = "map (\<lambda>i. if i < k then f i (ps ! i) else ps ! i) [0..<length ps]"
  have "?qs[k := f k (?qs ! k)] = map (\<lambda>i. if i < Suc k then f i (ps ! i) else ps ! i) [0..<length ps]"
    using Suc.prems by (intro nth_equalityI) (auto simp: nth_list_update less_Suc_eq)
  with Suc assms(1) [of k ?qs] show ?case by simp
qed

lemma loop_columns_all:
  assumes "\<And>i qs. i < length qs \<Longrightarrow> step i (columns qs) = columns (qs[i := f (qs ! i)])"
  shows "fold step [0..<length ps] (columns ps) = columns (map f ps)"
proof -
  have "map (\<lambda>i. if i < length ps then f (ps ! i) else ps ! i) [0..<length ps] = map f ps"
    by (intro nth_equalityI) simp_all
  with loop_columns [where f = "\<lambda>_. f" and step = step and k = "length ps" and ps = ps] assms show ?thesis by simp
qed

lemma update_same: "i < length qs \<Longrightarrow> (map g qs)[i := g (qs ! i)] = map g qs"
  by (metis list_update_id nth_map)

lemma velocity_columns: "system_integrate_velocity_dop F dt (columns ps) = columns (system_integrate_velocity_oop F dt ps)"
proof -
  have "length (pd_x (columns ps)) = length ps" by (simp add: columns_def)
  then show ?thesis unfolding system_integrate_velocity_dop_def system_integrate_velocity_oop_def Let_def
    by (simp only:) (rule loop_columns_all, simp add: velocity_step_def columns_def map_update update_same)
qed

lemma position_columns: "system_integrate_position_dop F dt (columns ps) = columns (system_integrate_position_oop F dt ps)"
proof -
  have "length (pd_x (columns ps)) = length ps" by (simp add: columns_def)
  then show ?thesis unfolding system_integrate_position_dop_def system_integrate_position_oop_def Let_def
    by (simp only:) (rule loop_columns_all, simp add: position_step_def columns_def map_update update_same)
qed

lemma render_columns: "system_render_dop F (columns ps) = system_render_oop F ps"
proof -
  have "fold (\<lambda>i sum. f_add F sum (render_term F (po_x (ps ! i)) (po_y (ps ! i)) (po_z (ps ! i)))) [0..<length ps] a =
      fold (\<lambda>p sum. f_add F sum (render_term F (po_x p) (po_y p) (po_z p))) (map (\<lambda>i. ps ! i) [0..<length ps]) a" for a
    by (simp add: fold_map comp_def)
  then have "fold (\<lambda>i sum. f_add F sum (render_term F (po_x (ps ! i)) (po_y (ps ! i)) (po_z (ps ! i)))) [0..<length ps] a =
      fold (\<lambda>p sum. f_add F sum (render_term F (po_x p) (po_y p) (po_z p))) ps a" for a by (simp only: map_nth)
  moreover have "fold (\<lambda>i sum. f_add F sum (render_term F (map po_x ps ! i) (map po_y ps ! i) (map po_z ps ! i))) [0..<length ps] a =
      fold (\<lambda>i sum. f_add F sum (render_term F (po_x (ps ! i)) (po_y (ps ! i)) (po_z (ps ! i)))) [0..<length ps] a" for a
    by (rule fold_cong) simp_all
  ultimately show ?thesis by (simp add: system_render_dop_def system_render_oop_def columns_def)
qed

lemma init_columns: "init_dop F n = columns (init_oop F n)"
proof -
  define g where "g i = \<lparr>po_x = f_mul F (f_nat F i) (f_milli F 1), po_y = f_mul F (f_nat F i) (f_milli F 2),
    po_z = f_mul F (f_nat F i) (f_milli F 3), po_vx = f_milli F 1000, po_vy = f_milli F 2000, po_vz = f_milli F 3000,
    po_ax = f_milli F 100, po_ay = f_milli F 200, po_az = f_milli F 300, po_extra = replicate 32 (f_milli F 0)\<rparr>" for i
  let ?o = "f_milli F 0"
  let ?ps = "replicate n \<lparr>po_x = ?o, po_y = ?o, po_z = ?o, po_vx = ?o, po_vy = ?o, po_vz = ?o, po_ax = ?o, po_ay = ?o, po_az = ?o,
    po_extra = []\<rparr>"
  have "init_dop_step F i (columns qs) = columns (qs[i := g i])" for i qs
    by (simp add: init_dop_step_def columns_def g_def map_update)
  from loop_columns [where f = "\<lambda>i _. g i" and step = "init_dop_step F" and k = n and ps = ?ps, OF this]
  have "fold (init_dop_step F) [0..<n] (columns ?ps) = columns (map g [0..<n])" by (auto intro!: arg_cong [where f = columns])
  moreover have "dop_new F n = columns ?ps" by (simp add: dop_new_def columns_def Let_def)
  moreover have "map g [0..<n] = init_oop F n" by (simp add: init_oop_def g_def)
  ultimately show ?thesis by (simp add: init_dop_def)
qed

text \<open>The structure of vectors holds the columns of the vector of structures: after construction,
  after each of the two integration systems, and both render systems compute the same sum. So the
  two check sums of the program are equal, whatever the arithmetic rounds to.\<close>

theorem layouts_agree:
  "init_dop F n = columns (init_oop F n) \<and>
   system_integrate_velocity_dop F dt (columns ps) = columns (system_integrate_velocity_oop F dt ps) \<and>
   system_integrate_position_dop F dt (columns ps) = columns (system_integrate_position_oop F dt ps) \<and>
   system_render_dop F (columns ps) = system_render_oop F ps \<and>
   dop_main F n physics_steps render_steps = oop_main F n physics_steps render_steps"
proof -
  let ?dt = "f_milli F 16"
  have steps: "((\<lambda>s. system_integrate_position_dop F ?dt (system_integrate_velocity_dop F ?dt s)) ^^ k) (columns qs) =
      columns (((\<lambda>ps. system_integrate_position_oop F ?dt (system_integrate_velocity_oop F ?dt ps)) ^^ k) qs)" for k qs
    by (induction k) (simp_all only: funpow.simps o_apply id_apply velocity_columns position_columns)
  have "dop_main F n physics_steps render_steps = oop_main F n physics_steps render_steps"
    unfolding dop_main_def oop_main_def Let_def init_columns steps render_columns ..
  then show ?thesis by (intro conjI init_columns velocity_columns position_columns render_columns)
qed

end
