(* ===== verification/Error_Values.thy ===== *)
theory Error_Values
  imports Prelude "HOL-Library.Signed_Division"
begin

section \<open>Errors as values\<close>

text \<open>
  The functions of \<open>expected.cpp\<close> and the parsing part of \<open>modern_cpp23_kitchen_sink.cpp\<close>. A
  \<open>std::expected<T, std::string>\<close> is a sum whose left values are messages. An \<open>int\<close> operation
  whose result does not fit into 32 bits is undefined in C++; it is \<open>None\<close> here, so a function
  that can overflow returns an option of an expected value.
\<close>

type_synonym 'a expected = "string + 'a"

definition int_result :: "int \<Rightarrow> int option" where
  "int_result x = (if - (2 ^ 31) \<le> x \<and> x < 2 ^ 31 then Some x else None)"

text \<open>\<open>and_then\<close>, \<open>transform\<close> and \<open>or_else\<close> of \<open>std::expected\<close>, on values that may be undefined.\<close>

definition and_then :: "'a expected option \<Rightarrow> ('a \<Rightarrow> 'b expected option) \<Rightarrow> 'b expected option" where
  "and_then r f = (case r of None \<Rightarrow> None | Some (Inl e) \<Rightarrow> Some (Inl e) | Some (Inr x) \<Rightarrow> f x)"

definition transform :: "'a expected option \<Rightarrow> ('a \<Rightarrow> 'b option) \<Rightarrow> 'b expected option" where
  "transform r f = and_then r (\<lambda>x. map_option Inr (f x))"

definition or_else :: "'a expected option \<Rightarrow> (string \<Rightarrow> 'a expected option) \<Rightarrow> 'a expected option" where
  "or_else r f = (case r of Some (Inl e) \<Rightarrow> f e | _ \<Rightarrow> r)"

lemmas expected_defs = and_then_def transform_def or_else_def

subsection \<open>\<open>expected.cpp\<close>\<close>

definition divide :: "int \<Rightarrow> int \<Rightarrow> int expected option" where
  "divide a b = (if b = 0 then Some (Inl ''division by zero'') else map_option Inr (int_result (a sdiv b)))"

definition multiply :: "int \<Rightarrow> int \<Rightarrow> int expected option" where
  "multiply x factor = map_option Inr (int_result (x * factor))"

definition validate_positive :: "int \<Rightarrow> int expected option" where
  "validate_positive x = Some (if x < 0 then Inl ''result is negative'' else Inr x)"

text \<open>The two chains of \<open>main\<close>, up to what they print.\<close>

definition value_chain :: "int \<Rightarrow> int \<Rightarrow> int \<Rightarrow> int expected option" where
  "value_chain a b factor =
     transform (and_then (and_then (divide a b) (\<lambda>x. multiply x factor)) validate_positive) (\<lambda>x. int_result (x + 1))"

definition failure_chain :: "int \<Rightarrow> int \<Rightarrow> int \<Rightarrow> int expected option" where
  "failure_chain a b factor = or_else (and_then (divide a b) (\<lambda>x. multiply x factor)) (\<lambda>err. Some (Inl err))"

lemma int_result_ok: "- (2 ^ 31) \<le> x \<Longrightarrow> x < 2 ^ 31 \<Longrightarrow> int_result x = Some x"
  by (simp add: int_result_def)

lemma main_values: "value_chain 20 2 3 = Some (Inr 31)" "failure_chain 10 0 3 = Some (Inl ''division by zero'')"
  by code_simp+

text \<open>What the value chain computes, and the four ways in which it does not.\<close>

lemma value_chain_cases:
  "value_chain a b factor =
     (if b = 0 then Some (Inl ''division by zero'')
      else if int_result (a sdiv b) = None \<or> int_result ((a sdiv b) * factor) = None then None
      else if (a sdiv b) * factor < 0 then Some (Inl ''result is negative'')
      else map_option Inr (int_result ((a sdiv b) * factor + 1)))"
proof (cases "b = 0")
  case False
  show ?thesis
  proof (cases "int_result (a sdiv b)")
    case (Some x)
    then have "x = a sdiv b" by (simp add: int_result_def split: if_splits)
    with False Some show ?thesis
      by (cases "int_result (a sdiv b * factor)")
        (auto simp: value_chain_def divide_def multiply_def validate_positive_def expected_defs int_result_def split: if_splits)
  qed (use False in \<open>simp add: value_chain_def divide_def expected_defs\<close>)
qed (simp add: value_chain_def divide_def expected_defs)

subsection \<open>\<open>parse_int\<close>\<close>

definition not_a_digit :: "char \<Rightarrow> string \<Rightarrow> string" where
  "not_a_digit c s = [CHR 0x27, c, CHR 0x27] @ '' is not a digit in '' @ [CHR 0x27] @ s @ [CHR 0x27]"

fun parse_loop :: "string \<Rightarrow> string \<Rightarrow> int \<Rightarrow> int expected option" where
  "parse_loop s [] result = Some (Inr result)"
| "parse_loop s (c # cs) result =
     (if of_char c < (48 :: nat) \<or> (57 :: nat) < of_char c then Some (Inl (not_a_digit c s))
      else case int_result (result * 10) of
             None \<Rightarrow> None
           | Some m \<Rightarrow> (case int_result (m + (of_char c - 48)) of None \<Rightarrow> None | Some r \<Rightarrow> parse_loop s cs r))"

definition parse_int :: "string \<Rightarrow> int expected option" where
  "parse_int s = parse_loop s s 0"

text \<open>The pipeline of \<open>main\<close>: the square of what was parsed.\<close>

definition parse_square :: "string \<Rightarrow> int expected option" where
  "parse_square s = transform (parse_int s) (\<lambda>n. int_result (n * n))"

text \<open>Decimal notation, and the number a string of digits stands for.\<close>

definition is_digit :: "char \<Rightarrow> bool" where
  "is_digit c \<longleftrightarrow> (48 :: nat) \<le> of_char c \<and> of_char c \<le> (57 :: nat)"

definition digit :: "char \<Rightarrow> nat" where
  "digit c = of_char c - 48"

fun decimal :: "nat \<Rightarrow> string" where
  "decimal n = (if n < 10 then [char_of (48 + n)] else decimal (n div 10) @ [char_of (48 + n mod 10)])"

declare decimal.simps [simp del]

definition number :: "string \<Rightarrow> nat \<Rightarrow> nat" where
  "number ds r = foldl (\<lambda>r c. 10 * r + digit c) r ds"

lemma number_simps [simp]: "number [] r = r" "number (c # cs) r = number cs (10 * r + digit c)"
  "number (cs @ [c]) r = 10 * number cs r + digit c"
  by (simp_all add: number_def)

lemma number_mono: "r \<le> number ds r"
proof (induction ds arbitrary: r)
  case (Cons c ds)
  from Cons [of "10 * r + digit c"] show ?case by simp
qed simp

lemma digit_char: "d < 10 \<Longrightarrow> is_digit (char_of (48 + d)) \<and> digit (char_of (48 + d)) = d"
  by (simp add: is_digit_def digit_def of_char_of)

lemma decimal_digits: "(\<forall>c \<in> set (decimal n). is_digit c) \<and> number (decimal n) 0 = n"
proof (induction n rule: decimal.induct)
  case (1 n)
  show ?case
  proof (cases "n < 10")
    case True
    then show ?thesis using digit_char [of n] by (simp add: decimal.simps [of n])
  next
    case False
    then show ?thesis using 1 digit_char [of "n mod 10"] by (simp add: decimal.simps [of n])
  qed
qed

lemma parse_digit:
  assumes "is_digit c" "r < 2 ^ 31"
  shows "parse_loop s (c # cs) (int r) =
    (if 10 * r + digit c < 2 ^ 31 then parse_loop s cs (int (10 * r + digit c)) else None)"
proof -
  have d: "(of_char c :: int) = int (digit c) + 48" "\<not> (of_char c < (48 :: nat) \<or> (57 :: nat) < of_char c)"
    using assms(1) by (simp_all add: is_digit_def digit_def of_char_def)
  show ?thesis using d by (auto simp: int_result_def mult.commute)
qed

lemma parse_prefix:
  assumes "\<forall>c \<in> set ds. is_digit c" "r < 2 ^ 31"
  shows "parse_loop s (ds @ cs) (int r) = (if number ds r < 2 ^ 31 then parse_loop s cs (int (number ds r)) else None)"
  using assms
proof (induction ds arbitrary: r)
  case (Cons c ds)
  have "number ds (10 * r + digit c) < 2 ^ 31 \<Longrightarrow> 10 * r + digit c < 2 ^ 31"
    using number_mono [of "10 * r + digit c" ds] by linarith
  moreover have "parse_loop s ((c # ds) @ cs) (int r) =
      (if 10 * r + digit c < 2 ^ 31 then parse_loop s (ds @ cs) (int (10 * r + digit c)) else None)"
    using parse_digit [of c r s "ds @ cs"] Cons.prems by (simp del: parse_loop.simps)
  moreover have "parse_loop s (ds @ cs) (int (10 * r + digit c)) =
      (if number ds (10 * r + digit c) < 2 ^ 31 then parse_loop s cs (int (number ds (10 * r + digit c))) else None)"
    if "10 * r + digit c < 2 ^ 31"
    using Cons.IH [OF _ that] Cons.prems by simp
  ultimately show ?case by (simp del: parse_loop.simps)
qed simp

text \<open>C34: \<open>parse_int\<close> is the inverse of decimal notation on every number that fits into an \<open>int\<close>. On
  a string of digits it returns their number (0 for the empty string, and whatever the number of
  leading zeros), and it is undefined exactly when that number does not fit. Otherwise the first
  character that is not a digit is named in the error, if the digits before it fit.\<close>

theorem parse_int_roundtrip:
  "(\<forall>n < 2 ^ 31. parse_int (decimal n) = Some (Inr (int n))) \<and>
   (\<forall>ds. (\<forall>c \<in> set ds. is_digit c) \<longrightarrow>
      parse_int ds = (if number ds 0 < 2 ^ 31 then Some (Inr (int (number ds 0))) else None) \<and>
      (\<forall>c rest. \<not> is_digit c \<longrightarrow> parse_int (ds @ c # rest) =
        (if number ds 0 < 2 ^ 31 then Some (Inl (not_a_digit c (ds @ c # rest))) else None)))"
proof -
  have p: "parse_int (ds @ cs) = (if number ds 0 < 2 ^ 31 then parse_loop (ds @ cs) cs (int (number ds 0)) else None)"
    if "\<forall>c \<in> set ds. is_digit c" for ds cs
    using parse_prefix [OF that, of 0 "ds @ cs" cs] by (simp add: parse_int_def)
  have e: "parse_loop s (c # rest) r = Some (Inl (not_a_digit c s))" if "\<not> is_digit c" for c s rest r
    using that by (auto simp: is_digit_def)
  have d: "parse_int ds = (if number ds 0 < 2 ^ 31 then Some (Inr (int (number ds 0))) else None)"
    if "\<forall>c \<in> set ds. is_digit c" for ds
    using p [OF that, of "[]"] by simp
  moreover have "parse_int (decimal n) = Some (Inr (int n))" if "n < 2 ^ 31" for n
    using d [of "decimal n"] decimal_digits [of n] that by simp
  ultimately show ?thesis using p e by simp
qed

lemma parse_int_roundtrip_witness:
  "parse_int (decimal 2147483647) = Some (Inr 2147483647) \<and> parse_int ''42'' = Some (Inr 42)"
proof -
  have "(\<forall>c \<in> set ''42''. is_digit c) \<and> number ''42'' 0 = 42" by code_simp
  with parse_int_roundtrip show ?thesis by fastforce
qed

end
