(* ===== verification/Process_Sync.thy ===== *)
theory Process_Sync
  imports Prelude
begin

section \<open>A parent and a child process\<close>

text \<open>
  \<open>fork_mmap_ipc_sync.cpp\<close>: after \<open>fork\<close>, parent and child meet five times, over a pipe, two atomic
  flags, a process-shared mutex, a condition variable and a semaphore, all in shared memory. Each
  location of the two programs is a constructor; a step is one call or one access. A wait on the
  condition variable releases the mutex and sleeps in one step, and a sleeper may also wake up
  without a signal. Reading from the pipe may fail, or find its end; writing to it may fail, and
  kills the parent when the child, the only reader, has gone. The mutex, condition and semaphore
  calls are taken to succeed. The calls that set up and tear down the shared region are left out;
  closing a descriptor belongs to the step before it, and the child's copy of the message is one step.
\<close>

datatype parent_pc = P_lock | P_set | P_say | P_unlock | P_pipe | P_ready | P_spin | P_lock2 | P_set2 | P_signal | P_unlock2
  | P_post | P_waitpid | P_gone | P_killed

text \<open>\<open>C_asleep b\<close>: in \<open>pthread_cond_wait\<close>, signalled if \<open>b\<close>. \<open>C_failed\<close>: after \<open>_exit(1)\<close>.\<close>

datatype child_pc = C_read | C_ready | C_lock | C_copy | C_unlock | C_lock2 | C_check | C_asleep bool | C_unlock2 | C_sem
  | C_last | C_exited | C_failed

datatype owner = Nobody | Parent | Child

record shared =
  sh_parent_ready :: nat
  sh_child_ready :: nat
  sh_mutex :: owner
  sh_sem :: nat
  sh_counter :: nat
  sh_message :: string
  sh_pipe :: "char list"
  sh_parent :: parent_pc
  sh_child :: child_pc
  sh_read :: "nat \<times> string"
  sh_printed :: nat

definition shared_init :: shared where
  "shared_init = \<lparr>sh_parent_ready = 0, sh_child_ready = 0, sh_mutex = Nobody, sh_sem = 0, sh_counter = 0, sh_message = [],
     sh_pipe = [], sh_parent = P_lock, sh_child = C_read, sh_read = (0, []), sh_printed = 0\<rparr>"

text \<open>
  The parent; \<open>None\<close> while a call blocks. The spin loop is a step that changes nothing. It closes its
  writing end with the step at \<open>P_pipe\<close>; the child closes the reading end after its \<open>read\<close>.
\<close>

definition writer_open :: "parent_pc \<Rightarrow> bool" where
  "writer_open p \<longleftrightarrow> p \<in> {P_lock, P_set, P_say, P_unlock, P_pipe}"

definition parent_step :: "bool \<Rightarrow> shared \<Rightarrow> shared option" where
  "parent_step sem_ok s =
     (case sh_parent s of
        P_lock \<Rightarrow> if sh_mutex s = Nobody then Some (s\<lparr>sh_mutex := Parent, sh_parent := P_set\<rparr>) else None
      | P_set \<Rightarrow> Some (s\<lparr>sh_counter := 10, sh_parent := P_say\<rparr>)
      | P_say \<Rightarrow> Some (s\<lparr>sh_message := ''parent says hi'', sh_parent := P_unlock\<rparr>)
      | P_unlock \<Rightarrow> Some (s\<lparr>sh_mutex := Nobody, sh_parent := P_pipe\<rparr>)
      | P_pipe \<Rightarrow> Some (if sh_child s = C_read then s\<lparr>sh_pipe := sh_pipe s @ ''P'', sh_parent := P_ready\<rparr>
                  else s\<lparr>sh_parent := P_killed\<rparr>)
      | P_ready \<Rightarrow> Some (s\<lparr>sh_parent_ready := 1, sh_parent := P_spin\<rparr>)
      | P_spin \<Rightarrow> Some (if sh_child_ready s = 0 then s else s\<lparr>sh_parent := P_lock2\<rparr>)
      | P_lock2 \<Rightarrow> if sh_mutex s = Nobody then Some (s\<lparr>sh_mutex := Parent, sh_parent := P_set2\<rparr>) else None
      | P_set2 \<Rightarrow> Some (s\<lparr>sh_counter := 20, sh_parent := P_signal\<rparr>)
      | P_signal \<Rightarrow> Some (s\<lparr>sh_child := (case sh_child s of C_asleep _ \<Rightarrow> C_asleep True | c \<Rightarrow> c), sh_parent := P_unlock2\<rparr>)
      | P_unlock2 \<Rightarrow> Some (s\<lparr>sh_mutex := Nobody, sh_parent := P_post\<rparr>)
      | P_post \<Rightarrow> Some (s\<lparr>sh_sem := if sem_ok then sh_sem s + 1 else sh_sem s, sh_parent := P_waitpid\<rparr>)
      | P_waitpid \<Rightarrow> if sh_child s = C_exited \<or> sh_child s = C_failed then Some (s\<lparr>sh_printed := sh_counter s, sh_parent := P_gone\<rparr>) else None
      | P_gone \<Rightarrow> None
      | P_killed \<Rightarrow> None)"

definition child_step :: "bool \<Rightarrow> shared \<Rightarrow> shared option" where
  "child_step sem_ok s =
     (case sh_child s of
        C_read \<Rightarrow> (case sh_pipe s of [] \<Rightarrow> if writer_open (sh_parent s) then None else Some (s\<lparr>sh_child := C_failed\<rparr>)
                   | b # bs \<Rightarrow> Some (s\<lparr>sh_pipe := bs, sh_child := C_ready\<rparr>))
      | C_ready \<Rightarrow> Some (s\<lparr>sh_child_ready := 1, sh_child := C_lock\<rparr>)
      | C_lock \<Rightarrow> if sh_mutex s = Nobody then Some (s\<lparr>sh_mutex := Child, sh_child := C_copy\<rparr>) else None
      | C_copy \<Rightarrow> Some (s\<lparr>sh_read := (sh_counter s, sh_message s), sh_child := C_unlock\<rparr>)
      | C_unlock \<Rightarrow> Some (s\<lparr>sh_mutex := Nobody, sh_child := C_lock2\<rparr>)
      | C_lock2 \<Rightarrow> if sh_mutex s = Nobody then Some (s\<lparr>sh_mutex := Child, sh_child := C_check\<rparr>) else None
      | C_check \<Rightarrow> Some (if sh_counter s < 20 then s\<lparr>sh_mutex := Nobody, sh_child := C_asleep False\<rparr> else s\<lparr>sh_child := C_unlock2\<rparr>)
      | C_asleep b \<Rightarrow> if b \<and> sh_mutex s = Nobody then Some (s\<lparr>sh_mutex := Child, sh_child := C_check\<rparr>) else None
      | C_unlock2 \<Rightarrow> Some (s\<lparr>sh_mutex := Nobody, sh_child := C_sem\<rparr>)
      | C_sem \<Rightarrow> if \<not> sem_ok then Some (s\<lparr>sh_child := C_last\<rparr>)
                 else if 0 < sh_sem s then Some (s\<lparr>sh_sem := sh_sem s - 1, sh_child := C_last\<rparr>) else None
      | C_last \<Rightarrow> Some (s\<lparr>sh_counter := 99, sh_child := C_exited\<rparr>)
      | C_exited \<Rightarrow> None
      | C_failed \<Rightarrow> None)"

text \<open>\<open>faulty\<close>: calls on the pipe may fail.\<close>

inductive ipc_step :: "bool \<Rightarrow> bool \<Rightarrow> shared \<Rightarrow> shared \<Rightarrow> bool" for faulty sem_ok :: bool where
  ipc_parent: "parent_step sem_ok s = Some t \<Longrightarrow> ipc_step faulty sem_ok s t"
| ipc_child: "child_step sem_ok s = Some t \<Longrightarrow> ipc_step faulty sem_ok s t"
| ipc_spurious: "sh_child s = C_asleep b \<Longrightarrow> ipc_step faulty sem_ok s (s\<lparr>sh_child := C_asleep True\<rparr>)"
| ipc_read_fails: "faulty \<Longrightarrow> sh_child s = C_read \<Longrightarrow> ipc_step faulty sem_ok s (s\<lparr>sh_child := C_failed\<rparr>)"
| ipc_write_fails: "faulty \<Longrightarrow> sh_parent s = P_pipe \<Longrightarrow> sh_child s = C_read \<Longrightarrow>
    ipc_step faulty sem_ok s (s\<lparr>sh_parent := P_ready\<rparr>)"

subsection \<open>Where the processes can be\<close>

fun parent_at :: "parent_pc \<Rightarrow> nat" where
  "parent_at P_lock = 0" | "parent_at P_set = 1" | "parent_at P_say = 2" | "parent_at P_unlock = 3" | "parent_at P_pipe = 4"
| "parent_at P_ready = 5" | "parent_at P_spin = 6" | "parent_at P_lock2 = 7" | "parent_at P_set2 = 8" | "parent_at P_signal = 9"
| "parent_at P_killed = 4" | "parent_at P_unlock2 = 10" | "parent_at P_post = 11" | "parent_at P_waitpid = 12" | "parent_at P_gone = 13"

fun child_at :: "child_pc \<Rightarrow> nat" where
  "child_at C_read = 0" | "child_at C_failed = 0" | "child_at C_ready = 1" | "child_at C_lock = 2" | "child_at C_copy = 3" | "child_at C_unlock = 4"
| "child_at C_lock2 = 5" | "child_at C_check = 6" | "child_at (C_asleep b) = 6" | "child_at C_unlock2 = 7" | "child_at C_sem = 8"
| "child_at C_last = 9" | "child_at C_exited = 10"

definition parent_holds :: "parent_pc \<Rightarrow> bool" where
  "parent_holds p \<longleftrightarrow> p \<in> {P_set, P_say, P_unlock, P_set2, P_signal, P_unlock2}"

definition child_holds :: "child_pc \<Rightarrow> bool" where
  "child_holds c \<longleftrightarrow> c \<in> {C_copy, C_unlock, C_check, C_unlock2}"

definition ipc_inv :: "bool \<Rightarrow> shared \<Rightarrow> bool" where
  "ipc_inv sem_ok s \<longleftrightarrow>
     (let p = parent_at (sh_parent s); c = child_at (sh_child s) in
       sh_mutex s = (if parent_holds (sh_parent s) then Parent else if child_holds (sh_child s) then Child else Nobody) \<and>
       \<not> (parent_holds (sh_parent s) \<and> child_holds (sh_child s)) \<and>
       sh_pipe s \<in> {[], ''P''} \<and> (p < 5 \<or> 0 < c \<longrightarrow> sh_pipe s = []) \<and> (0 < c \<longrightarrow> 5 \<le> p) \<and>
       (sh_parent s = P_killed \<longrightarrow> sh_child s = C_failed) \<and>
       sh_child_ready s = (if 2 \<le> c then 1 else 0) \<and> (7 \<le> p \<longrightarrow> 2 \<le> c) \<and>
       sh_counter s = (if c = 10 then 99 else if p \<le> 1 then 0 else if p \<le> 8 then 10 else 20) \<and>
       sh_message s = (if p \<le> 2 then [] else ''parent says hi'') \<and>
       (4 \<le> c \<longrightarrow> sh_read s = (10, ''parent says hi'') \<or> sh_read s = (20, ''parent says hi'')) \<and>
       (7 \<le> c \<longrightarrow> 9 \<le> p) \<and> (sh_child s = C_asleep False \<longrightarrow> p \<le> 9) \<and>
       sh_sem s = (if sem_ok \<and> 12 \<le> p \<and> c \<le> 8 then 1 else 0) \<and> (sem_ok \<and> 9 \<le> c \<longrightarrow> 12 \<le> p) \<and>
       (p = 13 \<longrightarrow> c = 10 \<and> sh_printed s = 99))"

lemma ipc_inv_init: "ipc_inv sem_ok shared_init"
  by (simp add: ipc_inv_def shared_init_def parent_holds_def child_holds_def)

text \<open>The child has failed, or will: nothing is in the pipe, and nothing will come.\<close>

definition lost :: "shared \<Rightarrow> bool" where
  "lost s \<longleftrightarrow> sh_child s = C_failed \<or> (sh_child s = C_read \<and> \<not> writer_open (sh_parent s) \<and> sh_pipe s = [])"

lemma writer_open_at: "writer_open p \<longleftrightarrow> parent_at p < 5 \<and> p \<noteq> P_killed"
  by (cases p) (simp_all add: writer_open_def)

lemma child_at_0: "child_at c = 0 \<longleftrightarrow> c = C_read \<or> c = C_failed"
  by (cases c) simp_all

text \<open>The invariant at a given place of the parent, with the place of the child left open, and the
  other way round; a step that moves neither beyond a meeting point is settled by these alone.\<close>

lemma guarded_some: "(if b then Some x else None) = None \<longleftrightarrow> \<not> b"
  by auto

lemma owner_free: "(if b then Child else Nobody) = Nobody \<longleftrightarrow> \<not> b" "(if b then Parent else Nobody) = Nobody \<longleftrightarrow> \<not> b"
  "(if a then Parent else if b then Child else Nobody) = Nobody \<longleftrightarrow> \<not> a \<and> \<not> b"
  by simp_all

lemmas place_simps = parent_holds_def Let_def guarded_some

lemma parent_step_inv:
  assumes inv: "ipc_inv sem_ok s" and step: "parent_step sem_ok s = Some t"
  shows "ipc_inv sem_ok t"
proof -
  have t: "t = the (parent_step sem_ok s)" and some: "parent_step sem_ok s \<noteq> None" using step by simp_all
  consider "sh_parent s = P_signal" | "sh_parent s = P_pipe" | "sh_parent s \<noteq> P_signal" "sh_parent s \<noteq> P_pipe" by blast
  then show ?thesis
  proof cases
    case 1
    show ?thesis using inv 1 unfolding t
      by (cases "sh_child s") (simp_all add: parent_step_def ipc_inv_def parent_holds_def child_holds_def)
  next
    case 2
    with inv have "child_at (sh_child s) = 0" by (simp add: ipc_inv_def Let_def)
    then have "sh_child s = C_read \<or> sh_child s = C_failed" by (simp add: child_at_0)
    then show ?thesis using inv 2 unfolding t
      by (elim disjE) (simp_all add: parent_step_def ipc_inv_def parent_holds_def child_holds_def)
  next
    case 3
    show ?thesis using inv some 3 unfolding t
      by (cases "sh_parent s") (simp_all add: parent_step_def ipc_inv_def place_simps owner_free, auto)
  qed
qed

lemma child_step_inv:
  assumes inv: "ipc_inv sem_ok s" and step: "child_step sem_ok s = Some t"
  shows "ipc_inv sem_ok t"
proof -
  have t: "t = the (child_step sem_ok s)" and some: "child_step sem_ok s \<noteq> None" using step by simp_all
  show ?thesis
  proof (cases "sh_child s = C_read")
    case True
    show ?thesis
    proof (cases "sh_pipe s")
      case Nil
      then have "\<not> writer_open (sh_parent s)" using True some by (auto simp: child_step_def)
      with True Nil inv show ?thesis unfolding t by (simp add: child_step_def ipc_inv_def child_holds_def Let_def)
    next
      case (Cons b bs)
      with inv have "bs = [] \<and> 5 \<le> parent_at (sh_parent s)" by (auto simp: ipc_inv_def Let_def)
      with True Cons inv show ?thesis unfolding t by (auto simp: child_step_def ipc_inv_def child_holds_def Let_def)
    qed
  next
    case False
    show ?thesis
    proof (cases "sh_child s = C_sem \<and> sem_ok")
      case True
      then have "0 < sh_sem s" using some by (auto simp: child_step_def split: if_splits)
      with True inv have "12 \<le> parent_at (sh_parent s)" by (simp add: ipc_inv_def Let_def split: if_splits)
      with True inv show ?thesis unfolding t by (simp add: child_step_def ipc_inv_def child_holds_def Let_def)
    next
      case no_sem: False
      with inv some False show ?thesis unfolding t
        by (cases "sh_child s") (simp_all add: child_step_def ipc_inv_def child_holds_def Let_def guarded_some owner_free)
    qed
  qed
qed

lemma fault_inv:
  "ipc_inv sem_ok s \<Longrightarrow> sh_child s = C_asleep b \<Longrightarrow> ipc_inv sem_ok (s\<lparr>sh_child := C_asleep True\<rparr>)"
  "ipc_inv sem_ok s \<Longrightarrow> sh_child s = C_read \<Longrightarrow> ipc_inv sem_ok (s\<lparr>sh_child := C_failed\<rparr>)"
  "ipc_inv sem_ok s \<Longrightarrow> sh_parent s = P_pipe \<Longrightarrow> sh_child s = C_read \<Longrightarrow> ipc_inv sem_ok (s\<lparr>sh_parent := P_ready\<rparr>)"
  by (simp_all add: ipc_inv_def child_holds_def parent_holds_def Let_def)

lemma ipc_step_inv: "ipc_step faulty sem_ok s t \<Longrightarrow> ipc_inv sem_ok s \<Longrightarrow> ipc_inv sem_ok t"
  by (erule ipc_step.cases) (auto intro: parent_step_inv child_step_inv fault_inv)

lemma ipc_reach_inv: "(ipc_step faulty sem_ok)\<^sup>*\<^sup>* s t \<Longrightarrow> ipc_inv sem_ok s \<Longrightarrow> ipc_inv sem_ok t"
  by (induction rule: rtranclp_induct) (auto intro: ipc_step_inv)

subsection \<open>The byte in the pipe\<close>

text \<open>Without faults it does not get lost; lost, it stays lost.\<close>

lemma not_lost_step:
  assumes "ipc_step False sem_ok s t" "ipc_inv sem_ok s" "\<not> lost s"
  shows "\<not> lost t"
  using assms(1)
proof cases
  case ipc_parent
  have t: "t = the (parent_step sem_ok s)" and some: "parent_step sem_ok s \<noteq> None" using ipc_parent by simp_all
  show ?thesis using assms(2,3) some unfolding t
    by (cases "sh_parent s"; cases "sh_child s")
      (simp_all add: parent_step_def lost_def writer_open_def ipc_inv_def guarded_some)
next
  case ipc_child
  have t: "t = the (child_step sem_ok s)" and some: "child_step sem_ok s \<noteq> None" using ipc_child by simp_all
  show ?thesis using assms(3) some unfolding t
    by (cases "sh_child s") (auto simp: child_step_def lost_def guarded_some split: list.splits if_splits)
next
  case ipc_spurious
  then show ?thesis by (simp add: lost_def)
qed simp_all

lemma never_lost: "(ipc_step False sem_ok)\<^sup>*\<^sup>* shared_init s \<Longrightarrow> \<not> lost s"
proof (induction rule: rtranclp_induct)
  case base
  show ?case by (simp add: lost_def shared_init_def writer_open_def)
next
  case (step t u)
  show ?case by (rule not_lost_step [OF step.hyps(2) ipc_reach_inv [OF step.hyps(1) ipc_inv_init] step.IH])
qed

lemma lost_step:
  assumes "ipc_step faulty sem_ok s t" "ipc_inv sem_ok s" "lost s"
  shows "lost t"
  using assms(1)
proof cases
  case ipc_parent
  have t: "t = the (parent_step sem_ok s)" and some: "parent_step sem_ok s \<noteq> None" using ipc_parent by simp_all
  show ?thesis using assms(3) some unfolding t
    by (cases "sh_parent s"; cases "sh_child s")
      (simp_all add: parent_step_def lost_def writer_open_def guarded_some)
next
  case ipc_child
  have t: "t = the (child_step sem_ok s)" and some: "child_step sem_ok s \<noteq> None" using ipc_child by simp_all
  show ?thesis using assms(3) some unfolding t
    by (cases "sh_child s") (auto simp: child_step_def lost_def)
qed (use assms(3) in \<open>auto simp: lost_def writer_open_def\<close>)

lemma lost_reach:
  assumes "(ipc_step faulty sem_ok)\<^sup>*\<^sup>* s t" "ipc_inv sem_ok s" "lost s"
  shows "lost t \<and> sh_parent t \<noteq> P_gone"
proof -
  from assms(1) have "lost t"
  proof (induction rule: rtranclp_induct)
    case (step t u)
    show ?case by (rule lost_step [OF step.hyps(2) ipc_reach_inv [OF step.hyps(1) assms(2)] step.IH])
  qed (rule assms(3))
  moreover from this have "child_at (sh_child t) = 0" by (auto simp: lost_def)
  moreover have "ipc_inv sem_ok t" using ipc_reach_inv [OF assms(1,2)] .
  ultimately show ?thesis by (cases "sh_parent t") (simp_all add: ipc_inv_def)
qed

text \<open>Then the child ends with an error, and the parent is killed or spins for good.\<close>

definition abandoned :: "shared \<Rightarrow> bool" where
  "abandoned s \<longleftrightarrow> sh_child s = C_failed \<and> (sh_parent s = P_killed \<or> sh_parent s = P_spin \<and> sh_child_ready s = 0)"

lemma abandoned_stays: "ipc_step faulty sem_ok s t \<Longrightarrow> abandoned s \<Longrightarrow> t = s"
  by (erule ipc_step.cases) (auto simp: abandoned_def parent_step_def child_step_def)

lemma abandoned_forever: "(ipc_step faulty sem_ok)\<^sup>*\<^sup>* s t \<Longrightarrow> abandoned s \<Longrightarrow> t = s"
  by (induction rule: rtranclp_induct) (auto dest: abandoned_stays)

lemma lost_moves:
  assumes "ipc_inv sem_ok s" "lost s" "\<not> abandoned s"
  shows "\<exists>t. ipc_step faulty sem_ok s t \<and> 13 - parent_at (sh_parent t) + (if sh_child t = C_read then 1 else 0) +
      (if sh_parent t = P_killed then 0 else 1) <
    13 - parent_at (sh_parent s) + (if sh_child s = C_read then 1 else 0) + (if sh_parent s = P_killed then 0 else (1::nat))"
proof (cases "sh_child s = C_failed")
  case True
  have "\<exists>t. parent_step sem_ok s = Some t \<and> sh_child t = C_failed \<and> parent_at (sh_parent t) \<le> 13 \<and>
      (parent_at (sh_parent s) < parent_at (sh_parent t) \<or> sh_parent s = P_pipe \<and> sh_parent t = P_killed) \<and> sh_parent s \<noteq> P_killed"
    using assms True
    by (cases "sh_parent s") (simp_all add: parent_step_def abandoned_def ipc_inv_def parent_holds_def child_holds_def)
  then obtain t where "parent_step sem_ok s = Some t" "sh_child t = C_failed" "parent_at (sh_parent t) \<le> 13"
    "parent_at (sh_parent s) < parent_at (sh_parent t) \<or> sh_parent s = P_pipe \<and> sh_parent t = P_killed"
    "sh_parent s \<noteq> P_killed" by blast
  with True show ?thesis by (intro exI [of _ t]) (auto intro: ipc_parent)
next
  case False
  with assms(2) have l: "sh_child s = C_read" "\<not> writer_open (sh_parent s)" "sh_pipe s = []" by (auto simp: lost_def)
  then have "child_step sem_ok s = Some (s\<lparr>sh_child := C_failed\<rparr>)" by (simp add: child_step_def)
  then show ?thesis using l by (intro exI [of _ "s\<lparr>sh_child := C_failed\<rparr>"]) (auto intro: ipc_child)
qed

lemma lost_ends:
  assumes "ipc_inv sem_ok s" "lost s"
  shows "\<exists>t. (ipc_step faulty sem_ok)\<^sup>*\<^sup>* s t \<and> (ipc_inv sem_ok t \<and> lost t) \<and> abandoned t"
  by (rule reaches_end [where I = "\<lambda>s. ipc_inv sem_ok s \<and> lost s" and
        rank = "\<lambda>s. 13 - parent_at (sh_parent s) + (if sh_child s = C_read then 1 else 0) + (if sh_parent s = P_killed then 0 else 1)"])
    (use assms lost_moves lost_step ipc_step_inv in blast)+

subsection \<open>Neither process is stuck\<close>

definition child_left :: "shared \<Rightarrow> nat" where
  "child_left s = (case sh_child s of C_read \<Rightarrow> 12 | C_ready \<Rightarrow> 11 | C_lock \<Rightarrow> 10 | C_copy \<Rightarrow> 9 | C_unlock \<Rightarrow> 8 | C_lock2 \<Rightarrow> 7
     | C_check \<Rightarrow> if sh_counter s < 20 then 6 else 4 | C_asleep _ \<Rightarrow> 5 | C_unlock2 \<Rightarrow> 3 | C_sem \<Rightarrow> 2 | C_last \<Rightarrow> 1 | C_exited \<Rightarrow> 0 | C_failed \<Rightarrow> 0)"

definition left :: "shared \<Rightarrow> nat" where
  "left s = 13 - parent_at (sh_parent s) + child_left s"

definition parent_ready :: "shared \<Rightarrow> bool" where
  "parent_ready s \<longleftrightarrow> (case sh_parent s of P_lock \<Rightarrow> sh_mutex s = Nobody | P_lock2 \<Rightarrow> sh_mutex s = Nobody
     | P_spin \<Rightarrow> sh_child_ready s \<noteq> 0 | P_waitpid \<Rightarrow> sh_child s = C_exited | P_gone \<Rightarrow> False
     | P_set \<Rightarrow> sh_child s \<noteq> C_check | P_pipe \<Rightarrow> sh_child s = C_read | P_killed \<Rightarrow> False | _ \<Rightarrow> True)"

definition child_ready :: "bool \<Rightarrow> shared \<Rightarrow> bool" where
  "child_ready sem_ok s \<longleftrightarrow> (case sh_child s of C_read \<Rightarrow> sh_pipe s \<noteq> [] | C_lock \<Rightarrow> sh_mutex s = Nobody | C_lock2 \<Rightarrow> sh_mutex s = Nobody
     | C_asleep b \<Rightarrow> b \<and> sh_mutex s = Nobody \<and> 20 \<le> sh_counter s | C_sem \<Rightarrow> sem_ok \<longrightarrow> 0 < sh_sem s | C_exited \<Rightarrow> False | C_failed \<Rightarrow> False | _ \<Rightarrow> True)"

lemma parent_moves: "parent_ready s \<Longrightarrow> \<exists>t. parent_step sem_ok s = Some t \<and> left t < left s"
  by (cases "sh_parent s"; cases "sh_child s") (simp_all add: parent_ready_def parent_step_def left_def child_left_def)

lemma child_moves: "child_ready sem_ok s \<Longrightarrow> \<exists>t. child_step sem_ok s = Some t \<and> left t < left s"
  by (cases "sh_child s")
    (auto simp: child_ready_def child_step_def left_def child_left_def neq_Nil_conv)

lemma someone_ready:
  assumes inv: "ipc_inv sem_ok s" and "sh_parent s \<noteq> P_gone" and ok: "\<not> lost s"
  shows "parent_ready s \<or> child_ready sem_ok s"
proof (cases "child_holds (sh_child s)")
  case True
  then show ?thesis by (auto simp: child_holds_def child_ready_def)
next
  case False
  then have nc: "sh_child s \<noteq> C_check" by (auto simp: child_holds_def)
  consider "sh_parent s = P_lock \<or> sh_parent s = P_lock2" | "sh_parent s = P_spin" | "sh_parent s = P_waitpid"
    | "sh_parent s \<notin> {P_lock, P_lock2, P_spin, P_waitpid, P_gone}" using assms(2) by blast
  then show ?thesis
  proof cases
    case 1
    then have "sh_mutex s = Nobody" using inv False by (elim disjE) (simp_all add: ipc_inv_def Let_def parent_holds_def)
    with 1 show ?thesis by (auto simp: parent_ready_def)
  next
    case 2
    with inv False ok show ?thesis
      by (cases "sh_child s") (simp_all add: ipc_inv_def parent_ready_def child_ready_def parent_holds_def lost_def writer_open_def)
  next
    case 3
    with inv False ok show ?thesis
      by (cases "sh_child s") (simp_all add: ipc_inv_def parent_ready_def child_ready_def parent_holds_def child_holds_def lost_def)
  next
    case 4
    have "sh_parent s \<noteq> P_killed" using inv ok by (auto simp: ipc_inv_def lost_def)
    moreover have "sh_parent s = P_pipe \<longrightarrow> sh_child s = C_read"
      using inv ok by (cases "sh_child s") (auto simp: ipc_inv_def lost_def)
    ultimately show ?thesis using 4 nc by (cases "sh_parent s") (simp_all add: parent_ready_def)
  qed
qed

text \<open>C33: Parent and child synchronise correctly. In every interleaving, spurious wake-ups and failing
  calls on the pipe included, they never hold the mutex together; once the child has copied the
  shared data it has the parent's message, with the counter 10 or already 20. Unless the byte in
  the pipe has got lost (the child's \<open>read\<close> has failed, or the parent's \<open>write\<close> has), both can
  come to their end from every reachable state, where the parent prints the child's last counter,
  99: no signal is lost and nothing deadlocks, whether or not unnamed semaphores work. Without
  failing calls the byte never gets lost. Once it has, the parent never ends, and a
  state can be reached that is never left: the child has ended with an error, and the
  parent has been killed by its \<open>write\<close> or spins on \<open>child_ready\<close> forever.\<close>

theorem processes_meet:
  assumes "(ipc_step faulty sem_ok)\<^sup>*\<^sup>* shared_init s"
  shows "\<not> (parent_holds (sh_parent s) \<and> child_holds (sh_child s)) \<and>
    (4 \<le> child_at (sh_child s) \<longrightarrow> fst (sh_read s) \<in> {10, 20} \<and> snd (sh_read s) = ''parent says hi'') \<and>
    (sh_parent s = P_gone \<longrightarrow> sh_child s = C_exited \<and> sh_printed s = 99) \<and>
    (\<not> lost s \<longrightarrow> (\<exists>t. (ipc_step faulty sem_ok)\<^sup>*\<^sup>* s t \<and> sh_parent t = P_gone \<and> sh_child t = C_exited \<and> sh_printed t = 99)) \<and>
    (\<not> faulty \<longrightarrow> \<not> lost s) \<and>
    (lost s \<longrightarrow> (\<forall>t. (ipc_step faulty sem_ok)\<^sup>*\<^sup>* s t \<longrightarrow> sh_parent t \<noteq> P_gone) \<and>
      (\<exists>t. (ipc_step faulty sem_ok)\<^sup>*\<^sup>* s t \<and> sh_child t = C_failed \<and> sh_parent t \<in> {P_spin, P_killed} \<and>
        (\<forall>u. (ipc_step faulty sem_ok)\<^sup>*\<^sup>* t u \<longrightarrow> u = t)))"
proof -
  have inv: "ipc_inv sem_ok s" using ipc_reach_inv [OF assms ipc_inv_init] .
  have gone: "sh_child t = C_exited \<and> sh_printed t = 99" if "ipc_inv sem_ok t" "sh_parent t = P_gone" for t
    using that by (cases "sh_child t") (simp_all add: ipc_inv_def)
  have sound: "ipc_step False sem_ok t u \<Longrightarrow> ipc_step faulty sem_ok t u" for t u
    by (erule ipc_step.cases) (auto intro: ipc_step.intros)
  have "\<exists>t. (ipc_step faulty sem_ok)\<^sup>*\<^sup>* s t \<and> sh_parent t = P_gone \<and> sh_child t = C_exited \<and> sh_printed t = 99" if "\<not> lost s"
  proof -
    have "\<exists>t. (ipc_step False sem_ok)\<^sup>*\<^sup>* s t \<and> (ipc_inv sem_ok t \<and> \<not> lost t) \<and> sh_parent t = P_gone"
    proof (rule reaches_end [where I = "\<lambda>t. ipc_inv sem_ok t \<and> \<not> lost t" and rank = left])
      show "\<exists>u. ipc_step False sem_ok t u \<and> left u < left t" if "ipc_inv sem_ok t \<and> \<not> lost t" "sh_parent t \<noteq> P_gone" for t
        using someone_ready [of sem_ok t] that parent_moves [of t sem_ok] child_moves [of sem_ok t] by (blast intro: ipc_parent ipc_child)
    qed (use inv that not_lost_step ipc_step_inv in blast)+
    with gone show ?thesis using rtranclp_mono [of "ipc_step False sem_ok" "ipc_step faulty sem_ok"] sound by blast
  qed
  moreover have "\<not> (parent_holds (sh_parent s) \<and> child_holds (sh_child s))"
    using inv unfolding ipc_inv_def Let_def by blast
  moreover have "4 \<le> child_at (sh_child s) \<longrightarrow> sh_read s = (10, ''parent says hi'') \<or> sh_read s = (20, ''parent says hi'')"
    using inv unfolding ipc_inv_def Let_def by blast
  then have "4 \<le> child_at (sh_child s) \<longrightarrow> fst (sh_read s) \<in> {10, 20} \<and> snd (sh_read s) = ''parent says hi''" by auto
  moreover have "\<not> faulty \<longrightarrow> \<not> lost s" using never_lost assms by auto
  moreover have "\<exists>t. (ipc_step faulty sem_ok)\<^sup>*\<^sup>* s t \<and> sh_child t = C_failed \<and> sh_parent t \<in> {P_spin, P_killed} \<and>
      (\<forall>u. (ipc_step faulty sem_ok)\<^sup>*\<^sup>* t u \<longrightarrow> u = t)" if "lost s"
    using lost_ends [OF inv that, of faulty] abandoned_forever unfolding abandoned_def by blast
  ultimately show ?thesis using gone [OF inv] lost_reach [OF _ inv] by blast
qed

text \<open>The first run, and one in which \<open>read\<close> fails at once.\<close>

lemma processes_meet_witness:
  "(\<exists>t. (ipc_step False True)\<^sup>*\<^sup>* shared_init t \<and> sh_parent t = P_gone \<and> sh_child t = C_exited \<and> sh_printed t = 99) \<and>
   (\<exists>t. (ipc_step True True)\<^sup>*\<^sup>* shared_init t \<and> lost t \<and> sh_child t = C_failed \<and> (\<forall>u. (ipc_step True True)\<^sup>*\<^sup>* t u \<longrightarrow> u = t))"
proof
  show "\<exists>t. (ipc_step False True)\<^sup>*\<^sup>* shared_init t \<and> sh_parent t = P_gone \<and> sh_child t = C_exited \<and> sh_printed t = 99"
    using processes_meet [of False True shared_init] by blast
  let ?f = "shared_init\<lparr>sh_child := C_failed\<rparr>"
  have f: "(ipc_step True True)\<^sup>*\<^sup>* shared_init ?f" using ipc_read_fails [of True shared_init] by (auto simp: shared_init_def)
  have l: "lost ?f" by (simp add: lost_def)
  obtain t where t: "(ipc_step True True)\<^sup>*\<^sup>* ?f t" "sh_child t = C_failed" "\<forall>u. (ipc_step True True)\<^sup>*\<^sup>* t u \<longrightarrow> u = t"
    using processes_meet [OF f] l by blast
  with f show "\<exists>t. (ipc_step True True)\<^sup>*\<^sup>* shared_init t \<and> lost t \<and> sh_child t = C_failed \<and> (\<forall>u. (ipc_step True True)\<^sup>*\<^sup>* t u \<longrightarrow> u = t)"
    by (intro exI [of _ t]) (auto simp: lost_def)
qed

end
