(* ===== verification/Container_Demo.thy ===== *)
theory Container_Demo
  imports Smart_Iterators Error_Values
begin

section \<open>The demo of \<open>SmartContainer\<close> (\<open>smart_container/demo.cpp\<close>)\<close>

text \<open>
  The demo fills containers with \<open>TestObject\<close>s, whose special members count how often they run.
  The operations of the container are written out here for that type, down to the special member
  each of them calls; forgetting the counters gives the container of \<open>Smart_Container\<close> back. The
  counters settle what becomes of the objects: \<open>emplace_back\<close> constructs over an object that
  \<open>reserve\<close> has already made, so that one is never destroyed. The other sections of the demo are
  scripts over the container operations, whose values are the lines they print.
\<close>

subsection \<open>\<open>TestObject\<close>\<close>

text \<open>An object is its \<open>value_\<close>; the counters are the static members.\<close>

type_synonym test_object = string

record test_counts =
  construction_count :: nat
  destruction_count :: nat
  copy_count :: nat
  move_count :: nat

definition reset_counters :: test_counts where
  "reset_counters = \<lparr>construction_count = 0, destruction_count = 0, copy_count = 0, move_count = 0\<rparr>"

text \<open>
  \<open>ob_born\<close> and \<open>ob_ended\<close> are the runs of constructors and destructors so far, \<open>ob_replaced\<close> the
  objects over which another one was constructed, and \<open>ob_locals\<close> the objects outside of arrays.
\<close>

record objs =
  ob_heap :: "test_object heap"
  ob_counts :: test_counts
  ob_locals :: nat
  ob_born :: nat
  ob_ended :: nat
  ob_replaced :: nat

definition objs_new :: objs where
  "objs_new = \<lparr>ob_heap = heap_empty, ob_counts = reset_counters, ob_locals = 0, ob_born = 0, ob_ended = 0, ob_replaced = 0\<rparr>"

definition reset_objs :: "objs \<Rightarrow> objs" where
  "reset_objs s = s\<lparr>ob_counts := reset_counters\<rparr>"

text \<open>What runs of a constructor, the destructor and the assignments do to the counters.\<close>

definition add_constructions :: "nat \<Rightarrow> test_counts \<Rightarrow> test_counts" where
  "add_constructions n k = k\<lparr>construction_count := construction_count k + n\<rparr>"

definition add_destructions :: "nat \<Rightarrow> test_counts \<Rightarrow> test_counts" where
  "add_destructions n k = k\<lparr>destruction_count := destruction_count k + n\<rparr>"

definition add_copy :: "test_counts \<Rightarrow> test_counts" where
  "add_copy k = k\<lparr>copy_count := copy_count k + 1\<rparr>"

definition add_move :: "test_counts \<Rightarrow> test_counts" where
  "add_move k = k\<lparr>move_count := move_count k + 1\<rparr>"

text \<open>Objects in automatic storage, and the value of the constructor with a prefix and a number.\<close>

definition local_object :: "objs \<Rightarrow> objs" where
  "local_object s = s\<lparr>ob_counts := add_constructions 1 (ob_counts s), ob_born := ob_born s + 1, ob_locals := ob_locals s + 1\<rparr>"

definition end_of_local :: "objs \<Rightarrow> objs" where
  "end_of_local s = s\<lparr>ob_counts := add_destructions 1 (ob_counts s), ob_ended := ob_ended s + 1, ob_locals := ob_locals s - 1\<rparr>"

definition prefix_number :: "string \<Rightarrow> nat \<Rightarrow> test_object" where
  "prefix_number pre n = pre @ decimal n"

subsection \<open>Special members on array cells\<close>

text \<open>\<open>new TestObject[n]\<close> and \<open>delete[]\<close>.\<close>

definition new_objects :: "nat \<Rightarrow> objs \<Rightarrow> nat \<times> objs" where
  "new_objects n s = (case alloc_array ''default'' n (ob_heap s) of (a, h) \<Rightarrow>
     (a, s\<lparr>ob_heap := h, ob_counts := add_constructions n (ob_counts s), ob_born := ob_born s + n\<rparr>))"

definition array_length :: "'a heap \<Rightarrow> nat option \<Rightarrow> nat" where
  "array_length h p = (case Option.bind p (arr h) of None \<Rightarrow> 0 | Some cs \<Rightarrow> length cs)"

definition delete_objects :: "nat option \<Rightarrow> objs \<Rightarrow> sc_error + objs" where
  "delete_objects p s = bindE (delete_array False (ob_heap s) p) (\<lambda>h.
     let n = array_length (ob_heap s) p
     in Inr (s\<lparr>ob_heap := h, ob_counts := add_destructions n (ob_counts s), ob_ended := ob_ended s + n\<rparr>))"

text \<open>\<open>data[i] = v\<close>, and \<open>data[i] = std::move(v)\<close> with what \<open>v\<close> holds afterwards.\<close>

definition copy_assign :: "nat option \<Rightarrow> nat \<Rightarrow> test_object \<Rightarrow> objs \<Rightarrow> sc_error + objs" where
  "copy_assign p i v s = bindE (assign_cell (ob_heap s) p i v) (\<lambda>h. Inr (s\<lparr>ob_heap := h, ob_counts := add_copy (ob_counts s)\<rparr>))"

definition move_assign :: "nat option \<Rightarrow> nat \<Rightarrow> test_object \<Rightarrow> objs \<Rightarrow> sc_error + objs \<times> test_object" where
  "move_assign p i v s = bindE (assign_cell (ob_heap s) p i v) (\<lambda>h.
     Inr (s\<lparr>ob_heap := h, ob_counts := add_move (ob_counts s)\<rparr>, ''moved-from''))"

text \<open>Construction in a cell; the object that lived there, if any, is not destroyed.\<close>

definition construct_at :: "(test_counts \<Rightarrow> test_counts) \<Rightarrow> nat option \<Rightarrow> nat \<Rightarrow> test_object \<Rightarrow> objs \<Rightarrow> sc_error + objs" where
  "construct_at add p i v s = bindE (put_cell (ob_heap s) p i (Live v)) (\<lambda>h.
     Inr (s\<lparr>ob_heap := h, ob_counts := add (ob_counts s), ob_born := ob_born s + 1,
            ob_replaced := ob_replaced s + (case read_cell (ob_heap s) p i of Inl e \<Rightarrow> 0 | Inr w \<Rightarrow> 1)\<rparr>))"

definition destroy_object :: "nat option \<Rightarrow> nat \<Rightarrow> objs \<Rightarrow> sc_error + objs" where
  "destroy_object p i s = bindE (destroy_cell False (ob_heap s) p i) (\<lambda>h.
     Inr (s\<lparr>ob_heap := h, ob_counts := add_destructions 1 (ob_counts s), ob_ended := ob_ended s + 1\<rparr>))"

subsection \<open>The container of \<open>TestObject\<close>s\<close>

fun move_objects :: "nat option \<Rightarrow> nat option \<Rightarrow> nat list \<Rightarrow> objs \<Rightarrow> sc_error + objs" where
  "move_objects src dst [] s = Inr s"
| "move_objects src dst (i # is) s =
     bindE (read_cell (ob_heap s) src i) (\<lambda>v.
     bindE (move_assign dst i v s) (\<lambda>(s, w).
     bindE (assign_cell (ob_heap s) src i w) (\<lambda>h. move_objects src dst is (s\<lparr>ob_heap := h\<rparr>))))"

definition t_reserve :: "nat \<Rightarrow> objs \<times> sc \<Rightarrow> sc_error + objs \<times> sc" where
  "t_reserve new_cap t = (case t of (s, c) \<Rightarrow>
     if new_cap \<le> sc_capacity c then Inr (s, c)
     else
       let (a, s) = new_objects new_cap s in
       bindE (if sc_data c \<noteq> None \<and> 0 < sc_size c then move_objects (sc_data c) (Some a) [0..<sc_size c] s else Inr s) (\<lambda>s.
       bindE (delete_objects (sc_data c) s) (\<lambda>s.
       Inr (s, c\<lparr>sc_data := Some a, sc_capacity := new_cap\<rparr>))))"

definition t_grow_if_full :: "objs \<times> sc \<Rightarrow> sc_error + objs \<times> sc" where
  "t_grow_if_full t = (case t of (s, c) \<Rightarrow>
     if sc_size c = sc_capacity c
     then t_reserve (if sc_capacity c = 0 then 1 else sc_capacity c * 2) (s, c) else Inr (s, c))"

definition t_push_back :: "test_object \<Rightarrow> objs \<times> sc \<Rightarrow> sc_error + objs \<times> sc" where
  "t_push_back v t =
     bindE (t_grow_if_full t) (\<lambda>(s, c).
     bindE (copy_assign (sc_data c) (sc_size c) v s) (\<lambda>s. Inr (s, c\<lparr>sc_size := sc_size c + 1\<rparr>)))"

definition t_push_back_move :: "test_object \<Rightarrow> objs \<times> sc \<Rightarrow> sc_error + (objs \<times> sc) \<times> test_object" where
  "t_push_back_move v t =
     bindE (t_grow_if_full t) (\<lambda>(s, c).
     bindE (move_assign (sc_data c) (sc_size c) v s) (\<lambda>(s, w). Inr ((s, c\<lparr>sc_size := sc_size c + 1\<rparr>), w)))"

definition t_emplace_back :: "test_object \<Rightarrow> objs \<times> sc \<Rightarrow> sc_error + objs \<times> sc" where
  "t_emplace_back v t =
     bindE (t_grow_if_full t) (\<lambda>(s, c).
     bindE (construct_at (add_constructions 1) (sc_data c) (sc_size c) v s) (\<lambda>s. Inr (s, c\<lparr>sc_size := sc_size c + 1\<rparr>)))"

definition t_pop_back :: "objs \<times> sc \<Rightarrow> sc_error + objs \<times> sc" where
  "t_pop_back t = (case t of (s, c) \<Rightarrow>
     if sc_empty c then Inl out_of_range
     else let c = c\<lparr>sc_size := sc_size c - 1\<rparr>
       in bindE (destroy_object (sc_data c) (sc_size c) s) (\<lambda>s. Inr (s, c)))"

fun destroy_objects :: "nat option \<Rightarrow> nat list \<Rightarrow> objs \<Rightarrow> sc_error + objs" where
  "destroy_objects p [] s = Inr s"
| "destroy_objects p (i # is) s = bindE (destroy_object p i s) (destroy_objects p is)"

definition t_clear :: "objs \<times> sc \<Rightarrow> sc_error + objs \<times> sc" where
  "t_clear t = (case t of (s, c) \<Rightarrow>
     bindE (destroy_objects (sc_data c) [0..<sc_size c] s) (\<lambda>s. Inr (s, c\<lparr>sc_size := 0\<rparr>)))"

fun construct_moved :: "nat option \<Rightarrow> nat option \<Rightarrow> nat list \<Rightarrow> objs \<Rightarrow> sc_error + objs" where
  "construct_moved src dst [] s = Inr s"
| "construct_moved src dst (i # is) s =
     bindE (read_cell (ob_heap s) src i) (\<lambda>v.
     bindE (construct_at add_move dst i v s) (\<lambda>s.
     bindE (assign_cell (ob_heap s) src i ''moved-from'') (\<lambda>h. construct_moved src dst is (s\<lparr>ob_heap := h\<rparr>))))"

definition t_shrink_to_fit :: "objs \<times> sc \<Rightarrow> sc_error + objs \<times> sc" where
  "t_shrink_to_fit t = (case t of (s, c) \<Rightarrow>
     if sc_size c < sc_capacity c then
       let (a, s) = new_objects (sc_size c) s in
       bindE (construct_moved (sc_data c) (Some a) [0..<sc_size c] s) (\<lambda>s.
       bindE (destroy_objects (sc_data c) [0..<sc_size c] s) (\<lambda>s.
       bindE (delete_objects (sc_data c) s) (\<lambda>s.
       Inr (s, c\<lparr>sc_data := Some a, sc_capacity := sc_size c\<rparr>))))
     else Inr (s, c))"

definition t_push_back_ref :: "nat option \<Rightarrow> nat \<Rightarrow> objs \<times> sc \<Rightarrow> sc_error + objs \<times> sc" where
  "t_push_back_ref p i t =
     bindE (t_grow_if_full t) (\<lambda>(s, c).
     bindE (read_cell (ob_heap s) p i) (\<lambda>v.
     bindE (copy_assign (sc_data c) (sc_size c) v s) (\<lambda>s. Inr (s, c\<lparr>sc_size := sc_size c + 1\<rparr>))))"

fun t_push_cells :: "nat option \<Rightarrow> nat list \<Rightarrow> objs \<times> sc \<Rightarrow> sc_error + objs \<times> sc" where
  "t_push_cells src [] t = Inr t"
| "t_push_cells src (i # is) t = bindE (t_push_back_ref src i t) (t_push_cells src is)"

definition t_copy :: "objs \<times> sc \<Rightarrow> sc_error + objs \<times> sc" where
  "t_copy t = (case t of (s, other) \<Rightarrow>
     bindE (t_reserve (sc_size other) (s, sc_new)) (t_push_cells (sc_data other) [0..<sc_size other]))"

definition t_destroy :: "objs \<times> sc \<Rightarrow> sc_error + objs" where
  "t_destroy t = (case t of (s, c) \<Rightarrow> delete_objects (sc_data c) s)"

subsection \<open>Sections 3 and 8 of the demo\<close>

text \<open>The values of these definitions are the lines of \<open>print_stats\<close>.\<close>

definition demo_memory_management :: "sc_error + test_counts list" where
  "demo_memory_management =
     (let s = reset_objs objs_new in
      bindE (t_emplace_back ''obj1'' (s, sc_new)) (\<lambda>t.
      bindE (t_emplace_back ''obj2'' t) (\<lambda>(s, objects).
      bindE (t_push_back_move ''obj3'' (local_object s, objects)) (\<lambda>((s, objects), temp).
      let s = end_of_local s; stats1 = ob_counts s in
      bindE (t_copy (s, objects)) (\<lambda>(s, objects_copy).
      let stats2 = ob_counts s in
      bindE (t_destroy (s, objects_copy)) (\<lambda>s.
      bindE (t_destroy (s, objects)) (\<lambda>s.
      Inr [stats1, stats2, ob_counts s])))))))"

definition demo_advanced_operations :: "sc_error + (string list \<times> test_counts list \<times> nat)" where
  "demo_advanced_operations =
     (let s = reset_objs objs_new in
      bindE (t_emplace_back (prefix_number ''item'' 1) (s, sc_new)) (\<lambda>t.
      bindE (t_emplace_back (prefix_number ''item'' 2) t) (\<lambda>(s, objects).
      bindE (t_push_back ''temp_object'' (local_object s, objects)) (\<lambda>t.
      bindE (t_push_back_move ''temp_object'' t) (\<lambda>((s, objects), temp).
      bindE (traverse (cit_deref (ob_heap s)) cit_inc (sc_size objects) (sc_begin_const objects)) (\<lambda>items.
      let stats1 = ob_counts s in
      bindE (t_clear (s, objects)) (\<lambda>(s, objects).
      let stats2 = ob_counts s; s = end_of_local s in
      bindE (t_destroy (s, objects)) (\<lambda>s.
      Inr (items, [stats1, stats2], sc_size objects)))))))))"

subsection \<open>Accounts\<close>

definition live_in :: "'a cell list option \<Rightarrow> nat" where
  "live_in x = (case x of None \<Rightarrow> 0 | Some cs \<Rightarrow> length (filter is_live cs))"

definition live_objects :: "'a heap \<Rightarrow> nat" where
  "live_objects h = (\<Sum>a<fresh h. live_in (arr h a))"

lemma live_array:
  assumes "heap_ok h" "arr h a = Some cs"
  shows "heap_ok (h\<lparr>arr := (arr h)(a := x)\<rparr>)"
    "live_objects (h\<lparr>arr := (arr h)(a := x)\<rparr>) + length (filter is_live cs) = live_objects h + live_in x"
proof -
  have a: "a < fresh h" using assms by (auto simp: heap_ok_def)
  show "heap_ok (h\<lparr>arr := (arr h)(a := x)\<rparr>)" using assms(1) a by (auto simp: heap_ok_def)
  have "(\<Sum>b\<in>{..<fresh h} - {a}. live_in (((arr h)(a := x)) b)) = (\<Sum>b\<in>{..<fresh h} - {a}. live_in (arr h b))"
    by (intro sum.cong) auto
  then show "live_objects (h\<lparr>arr := (arr h)(a := x)\<rparr>) + length (filter is_live cs) = live_objects h + live_in x"
    using a assms(2) sum.remove [of "{..<fresh h}" a "\<lambda>b. live_in (arr h b)"]
      sum.remove [of "{..<fresh h}" a "\<lambda>b. live_in (((arr h)(a := x)) b)"]
    by (simp add: live_objects_def live_in_def)
qed

definition cell_live :: "'a heap \<Rightarrow> nat option \<Rightarrow> nat \<Rightarrow> nat" where
  "cell_live h p i = (case read_cell h p i of Inl e \<Rightarrow> 0 | Inr w \<Rightarrow> 1)"

lemma put_cell_live:
  assumes "put_cell h p i c = Inr h'" "heap_ok h"
  shows "heap_ok h' \<and> live_objects h' + cell_live h p i = live_objects h + of_bool (is_live c)"
proof -
  from assms(1) obtain a cs where a: "p = Some a" "arr h a = Some cs" "i < length cs" "h' = h\<lparr>arr := (arr h)(a \<mapsto> cs[i := c])\<rparr>"
    by (auto simp: put_cell_def split: option.splits if_splits)
  have "cell_live h p i = of_bool (is_live (cs ! i))"
    using a by (cases "cs ! i") (simp_all add: cell_live_def read_cell_def)
  with a live_array [OF assms(2) a(2), of "Some (cs[i := c])"] filter_update [OF a(3), of is_live c] show ?thesis
    by (simp add: live_in_def of_bool_def)
qed

lemma bindE_Inr: "bindE m f = Inr y \<longleftrightarrow> (\<exists>x. m = Inr x \<and> f x = Inr y)"
  by (cases m) simp_all

lemma bindE_assoc: "bindE (bindE m f) g = bindE m (\<lambda>x. bindE (f x) g)"
  by (cases m) simp_all

lemma assign_cell_live:
  assumes "assign_cell h p i v = Inr h'" "heap_ok h"
  shows "heap_ok h' \<and> live_objects h' = live_objects h"
proof -
  from assms(1) obtain w where "read_cell h p i = Inr w" "put_cell h p i (Live v) = Inr h'"
    by (auto simp: assign_cell_def bindE_Inr)
  with put_cell_live [of h p i "Live v" h'] assms(2) show ?thesis by (simp add: cell_live_def)
qed

lemma destroy_cell_live:
  assumes "destroy_cell False h p i = Inr h'" "heap_ok h"
  shows "heap_ok h' \<and> live_objects h' + 1 = live_objects h"
proof -
  from assms(1) obtain w where "read_cell h p i = Inr w" "put_cell h p i Dead = Inr h'"
    by (auto simp: destroy_cell_def bindE_Inr)
  with put_cell_live [of h p i Dead h'] assms(2) show ?thesis by (simp add: cell_live_def)
qed

lemma delete_array_live:
  assumes "delete_array False h p = Inr h'" "heap_ok h"
  shows "heap_ok h' \<and> live_objects h' + array_length h p = live_objects h"
proof (cases p)
  case (Some a)
  with assms(1) obtain cs where a: "arr h a = Some cs" "list_all is_live cs" "h' = h\<lparr>arr := (arr h)(a := None)\<rparr>"
    by (auto simp: delete_array_def split: option.splits if_splits)
  then have "filter is_live cs = cs" by (simp add: filter_id_conv list_all_iff)
  with a Some live_array [OF assms(2) a(1), of None] show ?thesis by (simp add: live_in_def array_length_def)
qed (use assms in \<open>simp add: delete_array_def array_length_def\<close>)

lemma alloc_array_live:
  assumes "alloc_array d n h = (a, h')" "heap_ok h"
  shows "heap_ok h' \<and> live_objects h' = live_objects h + n"
proof -
  have h': "h' = h\<lparr>arr := (arr h)(fresh h \<mapsto> replicate n (Live d)), fresh := fresh h + 1\<rparr>"
    using assms(1) by (auto simp: alloc_array_def)
  have "(\<Sum>b<fresh h. live_in (((arr h)(fresh h \<mapsto> replicate n (Live d))) b)) = (\<Sum>b<fresh h. live_in (arr h b))"
    by (intro sum.cong) auto
  with assms(2) show ?thesis unfolding h' by (auto simp: heap_ok_def live_objects_def live_in_def less_Suc_eq)
qed

text \<open>Every object that was made has been destroyed, or lives, or another one was constructed over it.\<close>

definition accounted :: "objs \<Rightarrow> bool" where
  "accounted s \<longleftrightarrow> heap_ok (ob_heap s) \<and>
     ob_born s = ob_ended s + live_objects (ob_heap s) + ob_locals s + ob_replaced s"

lemma accounted_primitives:
  assumes "accounted s"
  shows "new_objects n s = (a, s') \<Longrightarrow> accounted s'"
    and "delete_objects p s = Inr s' \<Longrightarrow> accounted s'"
    and "copy_assign p i v s = Inr s' \<Longrightarrow> accounted s'"
    and "move_assign p i v s = Inr (s', w) \<Longrightarrow> accounted s'"
    and "construct_at add p i v s = Inr s' \<Longrightarrow> accounted s'"
    and "destroy_object p i s = Inr s' \<Longrightarrow> accounted s'"
    and "assign_cell (ob_heap s) p i v = Inr h \<Longrightarrow> accounted (s\<lparr>ob_heap := h\<rparr>)"
proof -
  have h: "heap_ok (ob_heap s)" and b: "ob_born s = ob_ended s + live_objects (ob_heap s) + ob_locals s + ob_replaced s"
    using assms by (simp_all add: accounted_def)
  show "new_objects n s = (a, s') \<Longrightarrow> accounted s'"
    using b alloc_array_live [OF _ h] by (auto simp: new_objects_def accounted_def split: prod.splits)
  show "delete_objects p s = Inr s' \<Longrightarrow> accounted s'"
    using b delete_array_live [OF _ h] by (fastforce simp: delete_objects_def accounted_def bindE_Inr Let_def)
  show "copy_assign p i v s = Inr s' \<Longrightarrow> accounted s'"
    using b assign_cell_live [OF _ h] by (auto simp: copy_assign_def accounted_def bindE_Inr)
  show "move_assign p i v s = Inr (s', w) \<Longrightarrow> accounted s'"
    using b assign_cell_live [OF _ h] by (auto simp: move_assign_def accounted_def bindE_Inr)
  show "construct_at add p i v s = Inr s' \<Longrightarrow> accounted s'"
    using b put_cell_live [OF _ h] by (fastforce simp: construct_at_def accounted_def bindE_Inr cell_live_def)
  show "destroy_object p i s = Inr s' \<Longrightarrow> accounted s'"
    using b destroy_cell_live [OF _ h] by (fastforce simp: destroy_object_def accounted_def bindE_Inr)
  show "assign_cell (ob_heap s) p i v = Inr h \<Longrightarrow> accounted (s\<lparr>ob_heap := h\<rparr>)"
    using b assign_cell_live [OF _ h] by (simp add: accounted_def)
qed

lemma accounted_loops:
  "move_objects src dst is s = Inr s' \<Longrightarrow> accounted s \<Longrightarrow> accounted s'"
  "construct_moved src dst is s = Inr s' \<Longrightarrow> accounted s \<Longrightarrow> accounted s'"
  "destroy_objects src is s = Inr s' \<Longrightarrow> accounted s \<Longrightarrow> accounted s'"
proof (induction "is" arbitrary: s)
  case (Cons i "is")
  { case 1
    then obtain w s1 x h where s: "move_assign dst i w s = Inr (s1, x)" "assign_cell (ob_heap s1) src i x = Inr h"
      "move_objects src dst is (s1\<lparr>ob_heap := h\<rparr>) = Inr s'" by (auto simp: bindE_Inr)
    from accounted_primitives(4) [OF 1(2) s(1)] accounted_primitives(7) [OF _ s(2)] Cons.IH(1) [OF s(3)]
    show ?case by blast }
  { case 2
    then obtain w s1 h where s: "construct_at add_move dst i w s = Inr s1" "assign_cell (ob_heap s1) src i ''moved-from'' = Inr h"
      "construct_moved src dst is (s1\<lparr>ob_heap := h\<rparr>) = Inr s'" by (auto simp: bindE_Inr)
    from accounted_primitives(5) [OF 2(2) s(1)] accounted_primitives(7) [OF _ s(2)] Cons.IH(2) [OF s(3)]
    show ?case by blast }
  { case 3
    then obtain s1 where s: "destroy_object src i s = Inr s1" "destroy_objects src is s1 = Inr s'" by (auto simp: bindE_Inr)
    from accounted_primitives(6) [OF 3(2) s(1)] Cons.IH(3) [OF s(2)] show ?case by blast }
qed simp_all

lemma accounted_reserve:
  assumes "t_reserve n (s, c) = Inr (s', c')" "accounted s"
  shows "accounted s'"
proof (cases "n \<le> sc_capacity c")
  case False
  obtain a s1 where new: "new_objects n s = (a, s1)" by (cases "new_objects n s")
  with assms False obtain s2 where
    s: "(if sc_data c \<noteq> None \<and> 0 < sc_size c then move_objects (sc_data c) (Some a) [0..<sc_size c] s1 else Inr s1) = Inr s2"
      "delete_objects (sc_data c) s2 = Inr s'" by (auto simp: t_reserve_def bindE_Inr)
  have "accounted s1" by (rule accounted_primitives(1) [OF assms(2) new])
  with s(1) accounted_loops(1) have "accounted s2" by (auto split: if_splits)
  from accounted_primitives(2) [OF this s(2)] show ?thesis .
qed (use assms in \<open>simp add: t_reserve_def\<close>)

lemma accounted_grow: "t_grow_if_full (s, c) = Inr (s', c') \<Longrightarrow> accounted s \<Longrightarrow> accounted s'"
  using accounted_reserve by (auto simp: t_grow_if_full_def split: if_splits)

lemma accounted_ops:
  assumes "accounted s"
  shows "t_push_back v (s, c) = Inr (s', c') \<Longrightarrow> accounted s'"
    "t_push_back_ref p i (s, c) = Inr (s', c') \<Longrightarrow> accounted s'"
    "t_push_back_move v (s, c) = Inr ((s', c'), w) \<Longrightarrow> accounted s'"
    "t_emplace_back v (s, c) = Inr (s', c') \<Longrightarrow> accounted s'"
    "t_pop_back (s, c) = Inr (s', c') \<Longrightarrow> accounted s'"
    "t_clear (s, c) = Inr (s', c') \<Longrightarrow> accounted s'"
proof -
  note g = accounted_grow [OF _ assms]
  show "t_push_back v (s, c) = Inr (s', c') \<Longrightarrow> accounted s'"
    using accounted_primitives(3) [OF g] by (auto simp: t_push_back_def bindE_Inr)
  show "t_push_back_ref p i (s, c) = Inr (s', c') \<Longrightarrow> accounted s'"
    using accounted_primitives(3) [OF g] by (auto simp: t_push_back_ref_def bindE_Inr)
  show "t_push_back_move v (s, c) = Inr ((s', c'), w) \<Longrightarrow> accounted s'"
    using accounted_primitives(4) [OF g] by (auto simp: t_push_back_move_def bindE_Inr)
  show "t_emplace_back v (s, c) = Inr (s', c') \<Longrightarrow> accounted s'"
    using accounted_primitives(5) [OF g] by (auto simp: t_emplace_back_def bindE_Inr)
  show "t_pop_back (s, c) = Inr (s', c') \<Longrightarrow> accounted s'"
    using accounted_primitives(6) [OF assms] by (auto simp: t_pop_back_def bindE_Inr Let_def split: if_splits)
  show "t_clear (s, c) = Inr (s', c') \<Longrightarrow> accounted s'"
    using accounted_loops(3) assms by (auto simp: t_clear_def bindE_Inr)
qed

lemma accounted_shrink:
  assumes "t_shrink_to_fit (s, c) = Inr (s', c')" "accounted s"
  shows "accounted s'"
proof (cases "sc_size c < sc_capacity c")
  case True
  obtain a s1 where new: "new_objects (sc_size c) s = (a, s1)" by (cases "new_objects (sc_size c) s")
  with assms(1) True obtain s2 s3 where s: "construct_moved (sc_data c) (Some a) [0..<sc_size c] s1 = Inr s2"
    "destroy_objects (sc_data c) [0..<sc_size c] s2 = Inr s3" "delete_objects (sc_data c) s3 = Inr s'"
    by (auto simp: t_shrink_to_fit_def bindE_Inr)
  from accounted_primitives(2) [OF accounted_loops(3) [OF s(2) accounted_loops(2) [OF s(1)
      accounted_primitives(1) [OF assms(2) new]]] s(3)] show ?thesis .
qed (use assms in \<open>simp add: t_shrink_to_fit_def\<close>)

subsection \<open>Forgetting the counters\<close>

text \<open>
  \<open>forgets src h s\<close>: the counted state has the heap \<open>h\<close>, except that cells of the array \<open>src\<close> may
  hold moved-from objects where \<open>h\<close> still has the old values.
\<close>

definition same_life :: "'a cell list option \<Rightarrow> 'a cell list option \<Rightarrow> bool" where
  "same_life x y = rel_option (list_all2 (\<lambda>c d. is_live c = is_live d)) x y"

definition forgets :: "nat option \<Rightarrow> test_object heap \<Rightarrow> objs \<Rightarrow> bool" where
  "forgets src h s \<longleftrightarrow> fresh (ob_heap s) = fresh h \<and>
     (\<forall>a. if src = Some a then same_life (arr h a) (arr (ob_heap s) a) else arr (ob_heap s) a = arr h a)"

lemma same_life_refl [simp]: "same_life x x"
  by (simp add: same_life_def option.rel_refl list_all2_refl)

lemma same_life_cases:
  "same_life (Some cs) y \<longleftrightarrow> (\<exists>ds. y = Some ds \<and> length ds = length cs \<and> (\<forall>i<length cs. is_live (cs ! i) = is_live (ds ! i)))"
  "same_life None y \<longleftrightarrow> y = None"
  by (auto simp: same_life_def option_rel_Some1 list_all2_conv_all_nth)

lemma forgets_refl: "forgets src (ob_heap s) s"
  by (simp add: forgets_def)

lemma forgets_None: "forgets None h s \<longleftrightarrow> ob_heap s = h"
  by (auto simp: forgets_def intro!: heap.equality)

lemma forgets_at: "forgets (Some a) h s \<Longrightarrow> same_life (arr h a) (arr (ob_heap s) a)"
  unfolding forgets_def by metis

text \<open>Storing into another array than \<open>src\<close>, and a change of a cell of \<open>src\<close> that keeps its life.\<close>

lemma forgets_put:
  assumes "forgets src h s" "src \<noteq> p"
  shows "case put_cell h p i c of Inl e \<Rightarrow> put_cell (ob_heap s) p i c = Inl e
    | Inr h' \<Rightarrow> \<exists>k. put_cell (ob_heap s) p i c = Inr k \<and> (\<forall>s'. ob_heap s' = k \<longrightarrow> forgets src h' s')"
    and "read_cell (ob_heap s) p i = read_cell h p i"
proof -
  have same: "Option.bind p (arr (ob_heap s)) = Option.bind p (arr h)"
    using assms by (cases p) (auto simp: forgets_def)
  then show "read_cell (ob_heap s) p i = read_cell h p i" by (simp add: read_cell_def)
  show "case put_cell h p i c of Inl e \<Rightarrow> put_cell (ob_heap s) p i c = Inl e
    | Inr h' \<Rightarrow> \<exists>k. put_cell (ob_heap s) p i c = Inr k \<and> (\<forall>s'. ob_heap s' = k \<longrightarrow> forgets src h' s')"
    using assms same by (cases p) (auto simp: put_cell_def forgets_def split: option.splits)
qed

lemma put_cell_other:
  assumes "put_cell h p i c = Inr h'"
  shows "q \<noteq> p \<Longrightarrow> read_cell h' q j = read_cell h q j" "j \<noteq> i \<Longrightarrow> read_cell h' q j = read_cell h q j"
  using assms by (cases q; auto simp: put_cell_def read_cell_def split: option.splits if_splits)+

lemma forgets_life:
  assumes "forgets src h s"
  shows "read_cell h src i = Inl e \<Longrightarrow> read_cell (ob_heap s) src i = Inl e"
    "read_cell h src i = Inr v \<Longrightarrow> \<exists>w. read_cell (ob_heap s) src i = Inr w"
proof -
  have "(\<exists>e. read_cell h src i = Inl e \<and> read_cell (ob_heap s) src i = Inl e) \<or>
      (\<exists>v w. read_cell h src i = Inr v \<and> read_cell (ob_heap s) src i = Inr w)"
  proof (cases "Option.bind src (arr h)")
    case None
    then have "Option.bind src (arr (ob_heap s)) = None"
      using assms by (cases src) (auto simp: same_life_cases dest!: forgets_at)
    with None show ?thesis by (simp add: read_cell_def)
  next
    case (Some cs)
    then obtain ds where "Option.bind src (arr (ob_heap s)) = Some ds" "length ds = length cs"
      "\<forall>i<length cs. is_live (cs ! i) = is_live (ds ! i)"
      using assms by (cases src) (auto simp: same_life_cases dest!: forgets_at)
    with Some show ?thesis by (cases "i < length cs"; cases "cs ! i"; cases "ds ! i") (auto simp: read_cell_def)
  qed
  then show "read_cell h src i = Inl e \<Longrightarrow> read_cell (ob_heap s) src i = Inl e"
    "read_cell h src i = Inr v \<Longrightarrow> \<exists>w. read_cell (ob_heap s) src i = Inr w" by auto
qed

text \<open>A change of a live cell of \<open>src\<close> in the counted heap alone, or of its life in both.\<close>

lemma forgets_src:
  assumes "forgets src h s" "read_cell h src i = Inr v"
  shows "\<exists>k. put_cell (ob_heap s) src i (Live w) = Inr k \<and> (\<forall>s'. ob_heap s' = k \<longrightarrow> forgets src h s')"
    "\<exists>h' k. put_cell h src i c = Inr h' \<and> put_cell (ob_heap s) src i d = Inr k \<and>
       (is_live c = is_live d \<longrightarrow> (\<forall>s'. ob_heap s' = k \<longrightarrow> forgets src h' s'))"
proof -
  from assms(2) obtain a cs where a: "src = Some a" "arr h a = Some cs" "i < length cs" "is_live (cs ! i)"
    by (cases src) (auto simp: read_cell_def split: option.splits if_splits cell.splits)
  with assms(1) obtain ds where ds: "arr (ob_heap s) a = Some ds" "length ds = length cs"
    "\<forall>i<length cs. is_live (cs ! i) = is_live (ds ! i)" using forgets_at [of a h s] by (auto simp: same_life_cases)
  show "\<exists>k. put_cell (ob_heap s) src i (Live w) = Inr k \<and> (\<forall>s'. ob_heap s' = k \<longrightarrow> forgets src h s')"
    using a ds assms(1) by (auto simp: put_cell_def forgets_def same_life_cases nth_list_update)
  show "\<exists>h' k. put_cell h src i c = Inr h' \<and> put_cell (ob_heap s) src i d = Inr k \<and>
       (is_live c = is_live d \<longrightarrow> (\<forall>s'. ob_heap s' = k \<longrightarrow> forgets src h' s'))"
    using a ds assms(1) by (auto simp: put_cell_def forgets_def same_life_cases nth_list_update)
qed

text \<open>\<open>agrees r h s\<close>: a result of the counted code, and the one of the container.\<close>

definition agrees :: "nat option \<Rightarrow> sc_error + test_object heap \<Rightarrow> sc_error + objs \<Rightarrow> bool" where
  "agrees src m n = (case m of Inl e \<Rightarrow> n = Inl e | Inr h \<Rightarrow> \<exists>s. n = Inr s \<and> forgets src h s)"

lemma agrees_simps [simp]:
  "agrees src (Inl e) n \<longleftrightarrow> n = Inl e"
  "agrees src (Inr h) (Inr s) \<longleftrightarrow> forgets src h s"
  "\<not> agrees src (Inr h) (Inl e)"
  by (auto simp: agrees_def)

lemma assign_agrees:
  assumes "forgets src h s" "src \<noteq> p" "\<And>k. ob_heap (f k) = k"
  shows "agrees src (assign_cell h p i v) (bindE (assign_cell (ob_heap s) p i v) (\<lambda>k. Inr (f k)))"
    "agrees src (put_cell h p i (Live v)) (bindE (put_cell (ob_heap s) p i (Live v)) (\<lambda>k. Inr (f k)))"
proof -
  have r: "read_cell (ob_heap s) p i = read_cell h p i" by (rule forgets_put(2) [OF assms(1,2)])
  show put: "agrees src (put_cell h p i (Live v)) (bindE (put_cell (ob_heap s) p i (Live v)) (\<lambda>k. Inr (f k)))"
    using forgets_put(1) [OF assms(1,2), of i "Live v"] assms(3) by (cases "put_cell h p i (Live v)") auto
  show "agrees src (assign_cell h p i v) (bindE (assign_cell (ob_heap s) p i v) (\<lambda>k. Inr (f k)))"
    using put by (cases "read_cell h p i") (simp_all add: assign_cell_def r)
qed

lemma put_both:
  assumes "forgets src h s" "src \<noteq> dst" "put_cell h dst i c = Inr h1"
  obtains k where "put_cell (ob_heap s) dst i c = Inr k" "\<And>s'. ob_heap s' = k \<Longrightarrow> forgets src h1 s'"
  using forgets_put(1) [OF assms(1,2), of i c] assms(3) by auto

text \<open>Marking the cell \<open>i\<close> of \<open>src\<close> as moved from, after cell \<open>i\<close> of \<open>dst\<close> was stored.\<close>

lemma mark_moved:
  assumes "forgets src h s" "src \<noteq> dst" "put_cell h dst i c = Inr h1" "put_cell (ob_heap s) dst i c = Inr (ob_heap s1)"
    "read_cell h src i = Inr v"
  shows "\<exists>k. assign_cell (ob_heap s1) src i w = Inr k \<and> forgets src h1 (s1\<lparr>ob_heap := k\<rparr>) \<and>
    (\<forall>j. j \<noteq> i \<longrightarrow> read_cell (ob_heap s) src j = read_cell h src j \<longrightarrow> read_cell k src j = read_cell h1 src j)"
proof -
  have f1: "forgets src h1 s1" by (rule put_both [OF assms(1-3)]) (simp add: assms(4))
  have r1: "read_cell h1 src i = Inr v" using put_cell_other(1) [OF assms(3,2)] assms(5) by simp
  obtain u where "read_cell (ob_heap s1) src i = Inr u" using forgets_life(2) [OF f1 r1] by blast
  moreover obtain k where k: "put_cell (ob_heap s1) src i (Live w) = Inr k" "\<forall>s'. ob_heap s' = k \<longrightarrow> forgets src h1 s'"
    using forgets_src(1) [OF f1 r1] by blast
  moreover have "read_cell k src j = read_cell h1 src j" if "j \<noteq> i" "read_cell (ob_heap s) src j = read_cell h src j" for j
    using that put_cell_other(2) [OF k(1)] put_cell_other(1) [OF assms(3,2)] put_cell_other(1) [OF assms(4,2)] by simp
  ultimately show ?thesis by (auto simp: assign_cell_def)
qed

lemma move_objects_agree:
  assumes "src \<noteq> dst" "distinct is" "forgets src h s" "\<forall>i\<in>set is. read_cell (ob_heap s) src i = read_cell h src i"
  shows "agrees src (copy_cells h src dst is) (move_objects src dst is s)"
  using assms(2-)
proof (induction "is" arbitrary: h s)
  case (Cons i "is")
  have r: "read_cell (ob_heap s) src i = read_cell h src i" "read_cell (ob_heap s) dst i = read_cell h dst i"
    using Cons.prems(3) forgets_put(2) [OF Cons.prems(2) assms(1)] by simp_all
  show ?case
  proof (cases "read_cell h src i")
    case (Inr v)
    show ?thesis
    proof (cases "assign_cell h dst i v")
      case (Inl e)
      with assign_agrees(1) [OF Cons.prems(2) assms(1), of "\<lambda>k. s\<lparr>ob_heap := k, ob_counts := add_move (ob_counts s)\<rparr>" i v]
      have "assign_cell (ob_heap s) dst i v = Inl e" by (cases "assign_cell (ob_heap s) dst i v") simp_all
      with Inl Inr r show ?thesis by (simp add: move_assign_def)
    next
      case h1: (Inr h1)
      then have p: "put_cell h dst i (Live v) = Inr h1" by (auto simp: assign_cell_def bindE_Inr)
      then obtain k1 where k1: "put_cell (ob_heap s) dst i (Live v) = Inr k1" using put_both [OF Cons.prems(2) assms(1)] by blast
      define s1 where "s1 = s\<lparr>ob_heap := k1, ob_counts := add_move (ob_counts s)\<rparr>"
      have m: "move_assign dst i v s = Inr (s1, ''moved-from'')"
        using h1 k1 r(2) by (auto simp: move_assign_def assign_cell_def bindE_Inr s1_def)
      obtain k where k: "assign_cell (ob_heap s1) src i ''moved-from'' = Inr k" "forgets src h1 (s1\<lparr>ob_heap := k\<rparr>)"
        "\<forall>j. j \<noteq> i \<longrightarrow> read_cell (ob_heap s) src j = read_cell h src j \<longrightarrow> read_cell k src j = read_cell h1 src j"
        using mark_moved [OF Cons.prems(2) assms(1) p _ Inr, of s1] k1 by (auto simp: s1_def)
      have "agrees src (copy_cells h1 src dst is) (move_objects src dst is (s1\<lparr>ob_heap := k\<rparr>))"
        using Cons.prems k by (intro Cons.IH) auto
      with Inr h1 r m k(1) show ?thesis by simp
    qed
  qed (use r in simp)
qed simp

lemma construct_moved_agree:
  assumes "src \<noteq> dst" "distinct is" "forgets src h s" "\<forall>i\<in>set is. read_cell (ob_heap s) src i = read_cell h src i"
  shows "agrees src (move_construct h src dst is) (construct_moved src dst is s)"
  using assms(2-)
proof (induction "is" arbitrary: h s)
  case (Cons i "is")
  have r: "read_cell (ob_heap s) src i = read_cell h src i" using Cons.prems(3) by simp
  show ?case
  proof (cases "read_cell h src i")
    case (Inr v)
    show ?thesis
    proof (cases "put_cell h dst i (Live v)")
      case (Inl e)
      with forgets_put(1) [OF Cons.prems(2) assms(1), of i "Live v"] Inr r show ?thesis by (simp add: construct_at_def)
    next
      case p: (Inr h1)
      then obtain k1 where k1: "put_cell (ob_heap s) dst i (Live v) = Inr k1" using put_both [OF Cons.prems(2) assms(1)] by blast
      obtain s1 where s1: "construct_at add_move dst i v s = Inr s1" "ob_heap s1 = k1"
        using k1 by (simp add: construct_at_def)
      obtain k where k: "assign_cell (ob_heap s1) src i ''moved-from'' = Inr k" "forgets src h1 (s1\<lparr>ob_heap := k\<rparr>)"
        "\<forall>j. j \<noteq> i \<longrightarrow> read_cell (ob_heap s) src j = read_cell h src j \<longrightarrow> read_cell k src j = read_cell h1 src j"
        using mark_moved [OF Cons.prems(2) assms(1) p _ Inr, of s1] k1 s1(2) by auto
      have "agrees src (move_construct h1 src dst is) (construct_moved src dst is (s1\<lparr>ob_heap := k\<rparr>))"
        using Cons.prems k by (intro Cons.IH) auto
      with Inr p r s1(1) k(1) show ?thesis by simp
    qed
  qed (use r in simp)
qed simp

text \<open>Destroying cells of \<open>src\<close>, and its deletion, after which the heaps are the same.\<close>

lemma destroy_object_agree:
  assumes "forgets src h s"
  shows "agrees src (destroy_cell False h src i) (destroy_object src i s)"
proof (cases "read_cell h src i")
  case (Inl e)
  with forgets_life(1) [OF assms Inl] show ?thesis by (simp add: destroy_cell_def destroy_object_def)
next
  case (Inr v)
  obtain w where "read_cell (ob_heap s) src i = Inr w" using forgets_life(2) [OF assms Inr] by blast
  moreover obtain h' k where "put_cell h src i Dead = Inr h'" "put_cell (ob_heap s) src i Dead = Inr k"
    "\<forall>s'. ob_heap s' = k \<longrightarrow> forgets src h' s'" using forgets_src(2) [OF assms Inr, of Dead Dead] by auto
  ultimately show ?thesis using Inr by (simp add: destroy_cell_def destroy_object_def)
qed

lemma agrees_bind:
  assumes "agrees src m n" "\<And>h s. forgets src h s \<Longrightarrow> agrees src' (f h) (g s)"
  shows "agrees src' (bindE m f) (bindE n g)"
  using assms by (cases m; cases n) simp_all

lemma destroy_objects_agree:
  "forgets src h s \<Longrightarrow> agrees src (destroy_range False h src is) (destroy_objects src is s)"
proof (induction "is" arbitrary: h s)
  case (Cons i "is")
  from agrees_bind [OF destroy_object_agree [OF Cons.prems, of i] Cons.IH] show ?case by simp
qed simp

lemma delete_objects_agree:
  assumes "forgets src h s"
  shows "agrees None (delete_array False h src) (delete_objects src s)"
proof (cases src)
  case None
  with assms show ?thesis by (simp add: delete_array_def delete_objects_def forgets_None Let_def)
next
  case (Some a)
  show ?thesis
  proof (cases "arr h a")
    case None
    then have "arr (ob_heap s) a = None" using forgets_at [of a h s] assms Some by (simp add: same_life_cases)
    with None Some show ?thesis by (simp add: delete_array_def delete_objects_def)
  next
    case cs: (Some cs)
    then obtain ds where ds: "arr (ob_heap s) a = Some ds" "length ds = length cs"
      "\<forall>i<length cs. is_live (cs ! i) = is_live (ds ! i)"
      using forgets_at [of a h s] assms Some by (auto simp: same_life_cases)
    then have l: "list_all is_live ds = list_all is_live cs" by (auto simp: list_all_length)
    have "(ob_heap s)\<lparr>arr := (arr (ob_heap s))(a := None)\<rparr> = h\<lparr>arr := (arr h)(a := None)\<rparr>"
      using assms Some by (intro heap.equality) (auto simp: forgets_def)
    with cs ds(1) l Some show ?thesis by (simp add: delete_array_def delete_objects_def forgets_None Let_def)
  qed
qed

text \<open>\<open>same_run\<close>: the counted operation does to its heap and container what the container does.\<close>

definition forget :: "objs \<times> sc \<Rightarrow> test_object heap \<times> sc" where
  "forget t = (ob_heap (fst t), snd t)"

definition same_run :: "sc_error + objs \<times> sc \<Rightarrow> sc_error + test_object heap \<times> sc \<Rightarrow> bool" where
  "same_run n m \<longleftrightarrow> map_sum id forget n = m"

lemma same_run_simps [simp]:
  "same_run (Inl e) m \<longleftrightarrow> m = Inl e" "same_run (Inr (s, c)) m \<longleftrightarrow> m = Inr (ob_heap s, c)"
  by (auto simp: same_run_def forget_def)

lemma same_run_bind:
  assumes "same_run n m" "\<And>s c. n = Inr (s, c) \<Longrightarrow> same_run (g (s, c)) (f (ob_heap s, c))"
  shows "same_run (bindE n g) (bindE m f)"
  using assms by (cases n) auto

lemma same_run_agrees:
  assumes "agrees None m n"
  shows "same_run (bindE n (\<lambda>s. Inr (s, c))) (bindE m (\<lambda>h. Inr (h, c)))"
  using assms by (cases m) (auto simp: agrees_def forgets_None)

text \<open>The array of the container is not the next one to be allocated.\<close>

definition old_data :: "'a heap \<times> sc \<Rightarrow> bool" where
  "old_data t \<longleftrightarrow> (\<forall>a. sc_data (snd t) = Some a \<longrightarrow> a < fresh (fst t))"

lemma new_objects_agree:
  assumes "new_objects n s = (a, s')"
  shows "alloc_array ''default'' n (ob_heap s) = (a, ob_heap s')" "a = fresh (ob_heap s)"
  using assms by (auto simp: new_objects_def alloc_array_def)

lemma t_reserve_same:
  assumes "old_data (ob_heap s, c)"
  shows "same_run (t_reserve n (s, c)) (sc_reserve False ''default'' n (ob_heap s, c))"
proof (cases "n \<le> sc_capacity c")
  case False
  obtain a s1 where new: "new_objects n s = (a, s1)" by (cases "new_objects n s")
  note al = new_objects_agree [OF new]
  have d: "sc_data c \<noteq> Some a" using assms al(2) by (auto simp: old_data_def)
  have "agrees (sc_data c)
      (if sc_data c \<noteq> None \<and> 0 < sc_size c then copy_cells (ob_heap s1) (sc_data c) (Some a) [0..<sc_size c] else Inr (ob_heap s1))
      (if sc_data c \<noteq> None \<and> 0 < sc_size c then move_objects (sc_data c) (Some a) [0..<sc_size c] s1 else Inr s1)"
    using move_objects_agree [OF d, of "[0..<sc_size c]" "ob_heap s1" s1] by (simp add: forgets_refl)
  note ag = agrees_bind [OF this delete_objects_agree]
  from same_run_agrees [OF ag, where c = "c\<lparr>sc_data := Some a, sc_capacity := n\<rparr>"] False new al(1) show ?thesis
    by (simp add: t_reserve_def sc_reserve_def bindE_assoc)
qed (simp add: t_reserve_def sc_reserve_def)

lemma t_grow_same: "old_data (ob_heap s, c) \<Longrightarrow> same_run (t_grow_if_full (s, c)) (grow_if_full False ''default'' (ob_heap s, c))"
  using t_reserve_same by (simp add: t_grow_if_full_def grow_if_full_def)

lemma destroy_objects_same: "map_sum id ob_heap (destroy_objects p is s) = destroy_range False (ob_heap s) p is"
proof (induction "is" arbitrary: s)
  case (Cons i "is")
  then show ?case by (cases "destroy_cell False (ob_heap s) p i") (simp_all add: destroy_object_def)
qed simp

lemma t_ops_same:
  assumes "old_data (ob_heap s, c)"
  shows "same_run (t_push_back v (s, c)) (sc_push_back False ''default'' v (ob_heap s, c))"
    "same_run (bindE (t_push_back_move v (s, c)) (\<lambda>(t, w). Inr t)) (sc_push_back False ''default'' v (ob_heap s, c))"
    "same_run (t_emplace_back v (s, c)) (sc_emplace_back False ''default'' v (ob_heap s, c))"
    "same_run (t_push_back_ref p i (s, c)) (sc_push_back_ref False ''default'' p i (ob_heap s, c))"
    "same_run (t_pop_back (s, c)) (sc_pop_back False (ob_heap s, c))"
    "same_run (t_clear (s, c)) (sc_clear False (ob_heap s, c))"
proof -
  note g = t_grow_same [OF assms]
  have a: "same_run (bindE (copy_assign p i v s) (\<lambda>s. Inr (s, c))) (bindE (assign_cell (ob_heap s) p i v) (\<lambda>h. Inr (h, c)))"
    "same_run (bindE (move_assign p i v s) (\<lambda>(s, w). Inr (s, c))) (bindE (assign_cell (ob_heap s) p i v) (\<lambda>h. Inr (h, c)))"
    "same_run (bindE (construct_at add p i v s) (\<lambda>s. Inr (s, c))) (bindE (put_cell (ob_heap s) p i (Live v)) (\<lambda>h. Inr (h, c)))"
    for p i v s c add
    by (cases "assign_cell (ob_heap s) p i v"; cases "put_cell (ob_heap s) p i (Live v)";
        simp add: copy_assign_def move_assign_def construct_at_def)+
  show "same_run (t_push_back v (s, c)) (sc_push_back False ''default'' v (ob_heap s, c))"
    unfolding t_push_back_def sc_push_back_def by (rule same_run_bind [OF g]) (simp add: a)
  have "same_run (bindE (t_grow_if_full (s, c)) (\<lambda>(s, c). bindE (move_assign (sc_data c) (sc_size c) v s)
      (\<lambda>(s, w). Inr (s, c\<lparr>sc_size := sc_size c + 1\<rparr>)))) (sc_push_back False ''default'' v (ob_heap s, c))"
    unfolding sc_push_back_def by (rule same_run_bind [OF g]) (simp add: a)
  moreover have "bindE (t_push_back_move v (s, c)) (\<lambda>(t, w). Inr t) = bindE (t_grow_if_full (s, c)) (\<lambda>(s, c).
      bindE (move_assign (sc_data c) (sc_size c) v s) (\<lambda>(s, w). Inr (s, c\<lparr>sc_size := sc_size c + 1\<rparr>)))"
    by (simp add: t_push_back_move_def bindE_assoc split_def)
  ultimately show "same_run (bindE (t_push_back_move v (s, c)) (\<lambda>(t, w). Inr t)) (sc_push_back False ''default'' v (ob_heap s, c))"
    by simp
  show "same_run (t_emplace_back v (s, c)) (sc_emplace_back False ''default'' v (ob_heap s, c))"
    unfolding t_emplace_back_def sc_emplace_back_def by (rule same_run_bind [OF g]) (simp add: a)
  show "same_run (t_push_back_ref p i (s, c)) (sc_push_back_ref False ''default'' p i (ob_heap s, c))"
    unfolding t_push_back_ref_def sc_push_back_ref_def
  proof (rule same_run_bind [OF g], unfold prod.case)
    fix s c
    show "same_run (bindE (read_cell (ob_heap s) p i) (\<lambda>v. bindE (copy_assign (sc_data c) (sc_size c) v s)
          (\<lambda>s. Inr (s, c\<lparr>sc_size := sc_size c + 1\<rparr>))))
        (bindE (read_cell (ob_heap s) p i) (\<lambda>v. bindE (assign_cell (ob_heap s) (sc_data c) (sc_size c) v)
          (\<lambda>h. Inr (h, c\<lparr>sc_size := sc_size c + 1\<rparr>))))"
      by (cases "read_cell (ob_heap s) p i") (simp_all add: a)
  qed
  show "same_run (t_pop_back (s, c)) (sc_pop_back False (ob_heap s, c))"
    by (cases "destroy_cell False (ob_heap s) (sc_data c) (sc_size c - 1)")
      (simp_all add: t_pop_back_def sc_pop_back_def destroy_object_def)
  show "same_run (t_clear (s, c)) (sc_clear False (ob_heap s, c))"
    using destroy_objects_same [of "sc_data c" "[0..<sc_size c]" s, symmetric]
    by (cases "destroy_objects (sc_data c) [0..<sc_size c] s") (auto simp: t_clear_def sc_clear_def)
qed

lemma t_shrink_same:
  assumes "old_data (ob_heap s, c)"
  shows "same_run (t_shrink_to_fit (s, c)) (sc_shrink_to_fit False ''default'' (ob_heap s, c))"
proof (cases "sc_size c < sc_capacity c")
  case True
  obtain a s1 where new: "new_objects (sc_size c) s = (a, s1)" by (cases "new_objects (sc_size c) s")
  note al = new_objects_agree [OF new]
  have d: "sc_data c \<noteq> Some a" using assms al(2) by (auto simp: old_data_def)
  have "agrees (sc_data c) (move_construct (ob_heap s1) (sc_data c) (Some a) [0..<sc_size c])
      (construct_moved (sc_data c) (Some a) [0..<sc_size c] s1)"
    by (rule construct_moved_agree [OF d]) (simp_all add: forgets_refl)
  note ag = agrees_bind [OF agrees_bind [OF this destroy_objects_agree] delete_objects_agree]
  from same_run_agrees [OF ag, where c = "c\<lparr>sc_data := Some a, sc_capacity := sc_size c\<rparr>"] True new al(1) show ?thesis
    by (simp add: t_shrink_to_fit_def sc_shrink_to_fit_def bindE_assoc)
qed (simp add: t_shrink_to_fit_def sc_shrink_to_fit_def)

text \<open>The array of the container stays below the next address.\<close>

lemma fresh_cells:
  "put_cell h p i c = Inr h' \<Longrightarrow> fresh h' = fresh h"
  "assign_cell h p i v = Inr h' \<Longrightarrow> fresh h' = fresh h"
  "destroy_cell triv h p i = Inr h' \<Longrightarrow> fresh h' = fresh h"
  "delete_array triv h p = Inr h' \<Longrightarrow> fresh h' = fresh h"
proof -
  show p: "put_cell h p i c = Inr h' \<Longrightarrow> fresh h' = fresh h" for c
    by (auto simp: put_cell_def split: option.splits if_splits)
  show "assign_cell h p i v = Inr h' \<Longrightarrow> fresh h' = fresh h" using p by (auto simp: assign_cell_def bindE_Inr)
  show "destroy_cell triv h p i = Inr h' \<Longrightarrow> fresh h' = fresh h"
    using p by (auto simp: destroy_cell_def bindE_Inr split: if_splits)
  show "delete_array triv h p = Inr h' \<Longrightarrow> fresh h' = fresh h"
    by (auto simp: delete_array_def split: option.splits if_splits)
qed

lemma fresh_loops:
  "copy_cells h src dst is = Inr h' \<Longrightarrow> fresh h' = fresh h"
  "move_construct h src dst is = Inr h' \<Longrightarrow> fresh h' = fresh h"
  "destroy_range triv h src is = Inr h' \<Longrightarrow> fresh h' = fresh h"
proof (induction "is" arbitrary: h)
  case (Cons i "is")
  { case 1 with Cons.IH(1) fresh_cells(2) show ?case by (fastforce simp: bindE_Inr) }
  { case 2 with Cons.IH(2) fresh_cells(1) show ?case by (fastforce simp: bindE_Inr) }
  { case 3 with Cons.IH(3) fresh_cells(3) show ?case by (fastforce simp: bindE_Inr) }
qed simp_all

lemma old_reserve:
  assumes "sc_reserve triv d n (h, c) = Inr t" "old_data (h, c)"
  shows "old_data t"
proof (cases "n \<le> sc_capacity c")
  case False
  obtain a h1 where al: "alloc_array d n h = (a, h1)" by (cases "alloc_array d n h")
  then have f: "fresh h1 = Suc a" by (auto simp: alloc_array_def)
  from assms(1) False al obtain h2 h3 where s:
    "(if sc_data c \<noteq> None \<and> 0 < sc_size c then copy_cells h1 (sc_data c) (Some a) [0..<sc_size c] else Inr h1) = Inr h2"
      "delete_array triv h2 (sc_data c) = Inr h3" "t = (h3, c\<lparr>sc_data := Some a, sc_capacity := n\<rparr>)"
    by (auto simp: sc_reserve_def bindE_Inr)
  from s(1) f have "fresh h2 = Suc a" by (auto simp: fresh_loops(1) split: if_splits)
  with fresh_cells(4) [OF s(2)] s(3) show ?thesis by (simp add: old_data_def)
qed (use assms in \<open>simp add: sc_reserve_def\<close>)

lemma old_grow: "grow_if_full triv d (h, c) = Inr t \<Longrightarrow> old_data (h, c) \<Longrightarrow> old_data t"
  using old_reserve [of triv d _ h c t] by (auto simp: grow_if_full_def split: if_splits)

lemma old_same: "old_data (h, c) \<Longrightarrow> fresh h' = fresh h \<Longrightarrow> sc_data c' = sc_data c \<Longrightarrow> old_data (h', c')"
  by (simp add: old_data_def)

lemma old_shrink:
  assumes "sc_shrink_to_fit triv d (h, c) = Inr t" "old_data (h, c)"
  shows "old_data t"
proof (cases "sc_size c < sc_capacity c")
  case True
  obtain a h1 where al: "alloc_array d (sc_size c) h = (a, h1)" by (cases "alloc_array d (sc_size c) h")
  then have f: "fresh h1 = Suc a" by (auto simp: alloc_array_def)
  from assms(1) True al obtain h2 h3 h4 where s: "move_construct h1 (sc_data c) (Some a) [0..<sc_size c] = Inr h2"
    "destroy_range triv h2 (sc_data c) [0..<sc_size c] = Inr h3" "delete_array triv h3 (sc_data c) = Inr h4"
    "t = (h4, c\<lparr>sc_data := Some a, sc_capacity := sc_size c\<rparr>)"
    by (auto simp: sc_shrink_to_fit_def bindE_Inr)
  from fresh_loops(2) [OF s(1)] fresh_loops(3) [OF s(2)] fresh_cells(4) [OF s(3)] f s(4) show ?thesis
    by (simp add: old_data_def)
qed (use assms in \<open>simp add: sc_shrink_to_fit_def\<close>)

lemma old_ops:
  assumes "old_data (h, c)"
  shows "sc_push_back triv d v (h, c) = Inr t \<Longrightarrow> old_data t"
    "sc_emplace_back triv d v (h, c) = Inr t \<Longrightarrow> old_data t"
    "sc_push_back_ref triv d p i (h, c) = Inr t \<Longrightarrow> old_data t"
    "sc_pop_back triv (h, c) = Inr t \<Longrightarrow> old_data t"
    "sc_clear triv (h, c) = Inr t \<Longrightarrow> old_data t"
proof -
  note g = old_grow [OF _ assms]
  show "sc_push_back triv d v (h, c) = Inr t \<Longrightarrow> old_data t"
    using old_same [OF g fresh_cells(2)] by (auto simp: sc_push_back_def bindE_Inr)
  show "sc_emplace_back triv d v (h, c) = Inr t \<Longrightarrow> old_data t"
    using old_same [OF g fresh_cells(1)] by (auto simp: sc_emplace_back_def bindE_Inr)
  show "sc_push_back_ref triv d p i (h, c) = Inr t \<Longrightarrow> old_data t"
    using old_same [OF g fresh_cells(2)] by (auto simp: sc_push_back_ref_def bindE_Inr)
  show "sc_pop_back triv (h, c) = Inr t \<Longrightarrow> old_data t"
    using old_same [OF assms fresh_cells(3)] by (auto simp: sc_pop_back_def bindE_Inr Let_def split: if_splits)
  show "sc_clear triv (h, c) = Inr t \<Longrightarrow> old_data t"
    using old_same [OF assms fresh_loops(3)] by (auto simp: sc_clear_def bindE_Inr)
qed

subsection \<open>Runs of counted operations\<close>

datatype t_op = Op "test_object sc_op" | Move_back test_object

fun t_step :: "t_op \<Rightarrow> objs \<times> sc \<Rightarrow> sc_error + objs \<times> sc" where
  "t_step (Op (PushBack v)) t = t_push_back v t"
| "t_step (Op (EmplaceBack v)) t = t_emplace_back v t"
| "t_step (Op PopBack) t = t_pop_back t"
| "t_step (Op Clear) t = t_clear t"
| "t_step (Op (Reserve n)) t = t_reserve n t"
| "t_step (Op ShrinkToFit) t = t_shrink_to_fit t"
| "t_step (Move_back v) t = bindE (t_push_back_move v t) (\<lambda>(t, w). Inr t)"

fun t_run :: "t_op list \<Rightarrow> objs \<times> sc \<Rightarrow> sc_error + objs \<times> sc" where
  "t_run [] t = Inr t"
| "t_run (op # ops) t = bindE (t_step op t) (t_run ops)"

text \<open>The same operations of the container, for any type with a destructor.\<close>

fun d_step :: "'a \<Rightarrow> 'a sc_op \<Rightarrow> 'a heap \<times> sc \<Rightarrow> sc_error + 'a heap \<times> sc" where
  "d_step dflt (PushBack v) s = sc_push_back False dflt v s"
| "d_step dflt (EmplaceBack v) s = sc_emplace_back False dflt v s"
| "d_step dflt PopBack s = sc_pop_back False s"
| "d_step dflt Clear s = sc_clear False s"
| "d_step dflt (Reserve n) s = sc_reserve False dflt n s"
| "d_step dflt ShrinkToFit s = sc_shrink_to_fit False dflt s"

fun d_run :: "'a \<Rightarrow> 'a sc_op list \<Rightarrow> 'a heap \<times> sc \<Rightarrow> sc_error + 'a heap \<times> sc" where
  "d_run dflt [] s = Inr s"
| "d_run dflt (op # ops) s = bindE (d_step dflt op s) (d_run dflt ops)"

fun plain :: "t_op \<Rightarrow> test_object sc_op" where
  "plain (Op op) = op"
| "plain (Move_back v) = PushBack v"

lemma t_step_same:
  assumes "old_data (ob_heap s, c)"
  shows "same_run (t_step op (s, c)) (d_step ''default'' (plain op) (ob_heap s, c))"
proof (cases op)
  case (Op x)
  with t_ops_same [OF assms] t_reserve_same [OF assms] t_shrink_same [OF assms] show ?thesis by (cases x) simp_all
next
  case (Move_back v)
  with t_ops_same(2) [OF assms] show ?thesis by simp
qed

lemma old_step:
  assumes "d_step d op (h, c) = Inr t" "old_data (h, c)"
  shows "old_data t"
proof (cases op)
  case (Reserve n)
  with old_reserve [OF _ assms(2), of False d n t] assms(1) show ?thesis by simp
next
  case ShrinkToFit
  with old_shrink [OF _ assms(2), of False d t] assms(1) show ?thesis by simp
qed (use assms(1) old_ops [OF assms(2)] in auto)

lemma t_run_same:
  "old_data (ob_heap s, c) \<Longrightarrow> same_run (t_run ops (s, c)) (d_run ''default'' (map plain ops) (ob_heap s, c))"
proof (induction ops arbitrary: s c)
  case (Cons op ops)
  note st = t_step_same [OF Cons.prems, of op]
  have "same_run (bindE (t_step op (s, c)) (t_run ops))
      (bindE (d_step ''default'' (plain op) (ob_heap s, c)) (d_run ''default'' (map plain ops)))"
  proof (rule same_run_bind [OF st])
    fix s1 c1
    assume "t_step op (s, c) = Inr (s1, c1)"
    with st have "d_step ''default'' (plain op) (ob_heap s, c) = Inr (ob_heap s1, c1)" by simp
    from Cons.IH [OF old_step [OF this Cons.prems]]
    show "same_run (t_run ops (s1, c1)) (d_run ''default'' (map plain ops) (ob_heap s1, c1))" .
  qed
  then show ?case by simp
qed simp

lemma accounted_step:
  assumes "t_step op (s, c) = Inr (s', c')" "accounted s"
  shows "accounted s'"
proof (cases op)
  case (Op x)
  show ?thesis
    using assms(1) accounted_ops [OF assms(2), where c = c and s' = s' and c' = c']
      accounted_reserve [OF _ assms(2), where c = c and s' = s' and c' = c']
      accounted_shrink [OF _ assms(2), where c = c and s' = s' and c' = c']
    unfolding Op by (cases x; simp only: t_step.simps)
next
  case (Move_back v)
  with assms(1) accounted_ops(3) [OF assms(2)] show ?thesis by (auto simp: bindE_Inr)
qed

lemma accounted_run: "t_run ops (s, c) = Inr (s', c') \<Longrightarrow> accounted s \<Longrightarrow> accounted s'"
proof (induction ops arbitrary: s c)
  case (Cons op ops)
  then obtain s1 c1 where "t_step op (s, c) = Inr (s1, c1)" "t_run ops (s1, c1) = Inr (s', c')" by (auto simp: bindE_Inr)
  with Cons.IH [of s1 c1] accounted_step Cons.prems(2) show ?case by blast
qed simp

subsection \<open>Objects that are never destroyed\<close>

text \<open>The array of the container is the only one.\<close>

definition only_data :: "'a heap \<times> sc \<Rightarrow> bool" where
  "only_data t \<longleftrightarrow> dom (arr (fst t)) = set_option (sc_data (snd t))"

lemma dom_cells:
  "put_cell h p i c = Inr h' \<Longrightarrow> dom (arr h') = dom (arr h)"
  "assign_cell h p i v = Inr h' \<Longrightarrow> dom (arr h') = dom (arr h)"
  "delete_array triv h p = Inr h' \<Longrightarrow> dom (arr h') = dom (arr h) - set_option p"
proof -
  show p: "put_cell h p i c = Inr h' \<Longrightarrow> dom (arr h') = dom (arr h)" for c
    by (auto simp: put_cell_def dom_def split: option.splits if_splits)
  show "assign_cell h p i v = Inr h' \<Longrightarrow> dom (arr h') = dom (arr h)"
    unfolding assign_cell_def bindE_Inr using p by blast
  show "delete_array triv h p = Inr h' \<Longrightarrow> dom (arr h') = dom (arr h) - set_option p"
    by (auto simp: delete_array_def split: option.splits if_splits)
qed

lemma dom_copy: "copy_cells h src dst is = Inr h' \<Longrightarrow> dom (arr h') = dom (arr h)"
proof (induction "is" arbitrary: h)
  case (Cons i "is")
  then obtain v h1 where "assign_cell h dst i v = Inr h1" "copy_cells h1 src dst is = Inr h'" by (auto simp: bindE_Inr)
  with Cons.IH dom_cells(2) show ?case by metis
qed simp

lemma only_reserve:
  assumes "sc_reserve triv d n (h, c) = Inr t" "only_data (h, c)" "heap_ok h"
  shows "only_data t"
proof (cases "n \<le> sc_capacity c")
  case False
  define a where "a = fresh h"
  obtain h1 where al: "alloc_array d n h = (a, h1)" and d1: "dom (arr h1) = insert a (dom (arr h))"
    by (simp add: alloc_array_def a_def)
  from assms(1) False al obtain h2 h3 where s:
    "(if sc_data c \<noteq> None \<and> 0 < sc_size c then copy_cells h1 (sc_data c) (Some a) [0..<sc_size c] else Inr h1) = Inr h2"
      "delete_array triv h2 (sc_data c) = Inr h3" "t = (h3, c\<lparr>sc_data := Some a, sc_capacity := n\<rparr>)"
    by (auto simp: sc_reserve_def bindE_Inr)
  have "dom (arr h2) = insert a (dom (arr h))" using s(1) d1 dom_copy [of h1 _ _ _ h2] by (simp split: if_splits)
  moreover have "arr h a = None" using assms(3) by (auto simp: heap_ok_def a_def)
  ultimately show ?thesis using dom_cells(3) [OF s(2)] s(3) assms(2) by (auto simp: only_data_def)
qed (use assms in \<open>simp add: sc_reserve_def\<close>)

lemma only_push:
  assumes "sc_push_back triv d v (h, c) = Inr t \<or> sc_emplace_back triv d v (h, c) = Inr t" "only_data (h, c)" "heap_ok h"
  shows "only_data t"
proof -
  obtain h1 c1 h2 where g: "grow_if_full triv d (h, c) = Inr (h1, c1)" "t = (h2, c1\<lparr>sc_size := sc_size c1 + 1\<rparr>)"
    "assign_cell h1 (sc_data c1) (sc_size c1) v = Inr h2 \<or> put_cell h1 (sc_data c1) (sc_size c1) (Live v) = Inr h2"
    using assms(1) by (auto simp: sc_push_back_def sc_emplace_back_def bindE_Inr)
  have "dom (arr h2) = dom (arr h1)" using g(3) dom_cells(1,2) by metis
  moreover from g(1) have "only_data (h1, c1)"
    using only_reserve [OF _ assms(2,3), of triv d _ "(h1, c1)"] assms(2) by (auto simp: grow_if_full_def split: if_splits)
  ultimately show ?thesis using g(2) by (simp add: only_data_def)
qed

text \<open>
  \<open>tame s\<close>: the counters of constructions and destructions are the runs of all constructors and
  destructors, as long as no copy or move constructor has run.
\<close>

definition tame :: "objs \<Rightarrow> bool" where
  "tame s \<longleftrightarrow> construction_count (ob_counts s) = ob_born s \<and> destruction_count (ob_counts s) = ob_ended s"

definition replaces :: "nat \<Rightarrow> objs \<Rightarrow> objs \<Rightarrow> bool" where
  "replaces n s s' \<longleftrightarrow> ob_replaced s' = ob_replaced s + n \<and> ob_locals s' = ob_locals s \<and> (tame s \<longrightarrow> tame s')"

lemma replaces_trans: "replaces m s s1 \<Longrightarrow> replaces n s1 s2 \<Longrightarrow> replaces (m + n) s s2"
  by (simp add: replaces_def)

lemma replaces_primitives:
  "new_objects n s = (a, s') \<Longrightarrow> replaces 0 s s'"
  "delete_objects p s = Inr s' \<Longrightarrow> replaces 0 s s'"
  "copy_assign p i v s = Inr s' \<Longrightarrow> replaces 0 s s'"
  "move_assign p i v s = Inr (s', w) \<Longrightarrow> replaces 0 s s'"
  "replaces 0 s (s\<lparr>ob_heap := h\<rparr>)"
  "construct_at (add_constructions 1) p i v s = Inr s' \<Longrightarrow> replaces (cell_live (ob_heap s) p i) s s'"
  by (auto simp: new_objects_def delete_objects_def copy_assign_def move_assign_def construct_at_def replaces_def tame_def
    add_constructions_def add_destructions_def add_copy_def add_move_def bindE_Inr Let_def cell_live_def split: prod.splits)

lemma replaces_move: "move_objects src dst is s = Inr s' \<Longrightarrow> replaces 0 s s'"
proof (induction "is" arbitrary: s)
  case (Cons i "is")
  then obtain w s1 x h where s: "move_assign dst i w s = Inr (s1, x)" "move_objects src dst is (s1\<lparr>ob_heap := h\<rparr>) = Inr s'"
    by (auto simp: bindE_Inr)
  from replaces_trans [OF replaces_primitives(4) [OF s(1)] replaces_trans [OF replaces_primitives(5) Cons.IH [OF s(2)]]]
  show ?case by simp
qed (simp add: replaces_def)

lemma replaces_reserve:
  assumes "t_reserve n (s, c) = Inr (s', c')"
  shows "replaces 0 s s'"
proof (cases "n \<le> sc_capacity c")
  case False
  obtain a s1 where new: "new_objects n s = (a, s1)" by (cases "new_objects n s")
  with assms False obtain s2 where
    s: "(if sc_data c \<noteq> None \<and> 0 < sc_size c then move_objects (sc_data c) (Some a) [0..<sc_size c] s1 else Inr s1) = Inr s2"
      "delete_objects (sc_data c) s2 = Inr s'" by (auto simp: t_reserve_def bindE_Inr)
  have "replaces 0 s1 s2" using s(1) replaces_move by (auto simp: replaces_def split: if_splits)
  from replaces_trans [OF replaces_primitives(1) [OF new] replaces_trans [OF this replaces_primitives(2) [OF s(2)]]]
  show ?thesis by simp
qed (use assms in \<open>simp add: t_reserve_def replaces_def\<close>)

lemma replaces_grow: "t_grow_if_full (s, c) = Inr (s', c') \<Longrightarrow> replaces 0 s s'"
  using replaces_reserve by (auto simp: t_grow_if_full_def replaces_def split: if_splits)

lemma replaces_push:
  "t_push_back v (s, c) = Inr (s', c') \<Longrightarrow> replaces 0 s s'"
  "t_push_back_move v (s, c) = Inr ((s', c'), w) \<Longrightarrow> replaces 0 s s'"
proof -
  show "t_push_back v (s, c) = Inr (s', c') \<Longrightarrow> replaces 0 s s'"
    using replaces_trans [OF replaces_grow replaces_primitives(3)] by (fastforce simp: t_push_back_def bindE_Inr)
  show "t_push_back_move v (s, c) = Inr ((s', c'), w) \<Longrightarrow> replaces 0 s s'"
    using replaces_trans [OF replaces_grow replaces_primitives(4)] by (fastforce simp: t_push_back_move_def bindE_Inr)
qed

lemma replaces_emplace:
  assumes "t_emplace_back v (s, c) = Inr (s', c')" "old_data (ob_heap s, c)" "heap_ok (ob_heap s)" "sc_ok (ob_heap s) c xs"
  shows "replaces 1 s s'"
proof -
  from assms(1) obtain s1 c1 where g: "t_grow_if_full (s, c) = Inr (s1, c1)"
    "construct_at (add_constructions 1) (sc_data c1) (sc_size c1) v s1 = Inr s'"
    by (auto simp: t_emplace_back_def bindE_Inr)
  with t_grow_same [OF assms(2)] have "grow_if_full False ''default'' (ob_heap s, c) = Inr (ob_heap s1, c1)" by simp
  with grow_if_full_ok [OF assms(3,4), where triv = False and dflt = "''default''"]
  have "heap_ok (ob_heap s1)" "sc_ok (ob_heap s1) c1 xs" "length xs < sc_capacity c1" by (metis Inr_inject Pair_inject)+
  from sc_append [OF this] obtain h' where "assign_cell (ob_heap s1) (sc_data c1) (sc_size c1) v = Inr h'" by blast
  then have "cell_live (ob_heap s1) (sc_data c1) (sc_size c1) = 1" by (auto simp: assign_cell_def bindE_Inr cell_live_def)
  with replaces_trans [OF replaces_grow [OF g(1)] replaces_primitives(6) [OF g(2)]] show ?thesis by simp
qed

text \<open>Operations that only add objects: the value they add, and whether they construct it in place.\<close>

fun added :: "t_op \<Rightarrow> test_object list" where
  "added (Op (PushBack v)) = [v]"
| "added (Op (EmplaceBack v)) = [v]"
| "added (Move_back v) = [v]"
| "added (Op x) = []"

fun adds :: "t_op \<Rightarrow> bool" where
  "adds (Op x) = (case x of PopBack \<Rightarrow> False | Clear \<Rightarrow> False | ShrinkToFit \<Rightarrow> False | y \<Rightarrow> True)"
| "adds (Move_back v) = True"

fun in_place :: "t_op \<Rightarrow> nat" where
  "in_place (Op x) = (case x of EmplaceBack v \<Rightarrow> 1 | y \<Rightarrow> 0)"
| "in_place (Move_back v) = 0"

definition holds :: "objs \<Rightarrow> sc \<Rightarrow> test_object list \<Rightarrow> bool" where
  "holds s c xs \<longleftrightarrow> heap_ok (ob_heap s) \<and> sc_ok (ob_heap s) c xs \<and> only_data (ob_heap s, c) \<and> old_data (ob_heap s, c)"

lemma holds_push:
  assumes "holds s c xs" "same_run n (sc_push_back False ''default'' v (ob_heap s, c)) \<or>
    same_run n (sc_emplace_back False ''default'' v (ob_heap s, c))"
  shows "\<exists>s' c'. n = Inr (s', c') \<and> holds s' c' (xs @ [v])"
proof -
  have h: "heap_ok (ob_heap s)" "sc_ok (ob_heap s) c xs" "only_data (ob_heap s, c)" "old_data (ob_heap s, c)"
    using assms(1) by (simp_all add: holds_def)
  obtain h' c' where p: "sc_push_back False ''default'' v (ob_heap s, c) = Inr (h', c')"
    "sc_emplace_back False ''default'' v (ob_heap s, c) = Inr (h', c')" "heap_ok h'" "sc_ok h' c' (xs @ [v])"
    using sc_push_ok [OF h(1,2), where triv = False and dflt = "''default''" and v = v] by metis
  have "map_sum id forget n = Inr (h', c')" using assms(2) p(1,2) by (auto simp: same_run_def)
  then obtain s' where "n = Inr (s', c')" "ob_heap s' = h'" by (cases n) (auto simp: forget_def)
  moreover have "only_data (h', c')" "old_data (h', c')"
    using only_push [OF _ h(3,1)] p(1) old_ops(1) [OF h(4) p(1)] by blast+
  ultimately show ?thesis using p(3,4) by (auto simp: holds_def)
qed

lemma holds_reserve:
  assumes "holds s c xs"
  shows "\<exists>s' c'. t_reserve n (s, c) = Inr (s', c') \<and> holds s' c' xs"
proof -
  have h: "heap_ok (ob_heap s)" "sc_ok (ob_heap s) c xs" "only_data (ob_heap s, c)" "old_data (ob_heap s, c)"
    using assms by (simp_all add: holds_def)
  obtain h' c' where p: "sc_reserve False ''default'' n (ob_heap s, c) = Inr (h', c')" "heap_ok h'" "sc_ok h' c' xs"
    using sc_reserve_ok [OF h(1,2), where triv = False and dflt = "''default''" and n = n] by metis
  then obtain s' where "t_reserve n (s, c) = Inr (s', c')" "ob_heap s' = h'"
    using t_reserve_same [OF h(4), of n] by (cases "t_reserve n (s, c)") auto
  with p only_reserve [OF p(1) h(3,1)] old_reserve [OF p(1) h(4)] show ?thesis by (auto simp: holds_def)
qed

lemma adds_step:
  assumes "holds s c xs" "adds op"
  shows "\<exists>s' c'. t_step op (s, c) = Inr (s', c') \<and> holds s' c' (xs @ added op) \<and> replaces (in_place op) s s'"
proof -
  have h: "heap_ok (ob_heap s)" "sc_ok (ob_heap s) c xs" "old_data (ob_heap s, c)"
    using assms(1) by (simp_all add: holds_def)
  consider (push) v where "op = Op (PushBack v)" | (emplace) v where "op = Op (EmplaceBack v)"
    | (reserve) n where "op = Op (Reserve n)" | (move) v where "op = Move_back v"
    using assms(2) by (cases op rule: adds.cases) (auto split: sc_op.splits)
  then show ?thesis
  proof cases
    case push
    from holds_push [OF assms(1), of "t_push_back v (s, c)" v] t_ops_same(1) [OF h(3)]
    obtain s' c' where "t_push_back v (s, c) = Inr (s', c')" "holds s' c' (xs @ [v])" by blast
    with replaces_push(1) push show ?thesis by auto
  next
    case emplace
    from holds_push [OF assms(1), of "t_emplace_back v (s, c)" v] t_ops_same(3) [OF h(3)]
    obtain s' c' where p: "t_emplace_back v (s, c) = Inr (s', c')" "holds s' c' (xs @ [v])" by blast
    with replaces_emplace [OF p(1) h(3,1,2)] emplace show ?thesis by auto
  next
    case reserve
    from holds_reserve [OF assms(1)] obtain s' c' where "t_reserve n (s, c) = Inr (s', c')" "holds s' c' xs" by blast
    with replaces_reserve reserve show ?thesis by auto
  next
    case move
    from holds_push [OF assms(1), of "bindE (t_push_back_move v (s, c)) (\<lambda>(t, w). Inr t)" v] t_ops_same(2) [OF h(3)]
    obtain s' c' where p: "bindE (t_push_back_move v (s, c)) (\<lambda>(t, w). Inr t) = Inr (s', c')" "holds s' c' (xs @ [v])" by blast
    then obtain w where "t_push_back_move v (s, c) = Inr ((s', c'), w)" by (auto simp: bindE_Inr)
    from replaces_push(2) [OF this] p move show ?thesis by auto
  qed
qed

lemma adds_run:
  "holds s c xs \<Longrightarrow> list_all adds ops \<Longrightarrow> \<exists>s' c'. t_run ops (s, c) = Inr (s', c') \<and>
    holds s' c' (xs @ concat (map added ops)) \<and> replaces (sum_list (map in_place ops)) s s'"
proof (induction ops arbitrary: s c xs)
  case Nil
  then show ?case by (simp add: replaces_def)
next
  case (Cons op ops)
  then have op: "adds op" "list_all adds ops" by simp_all
  obtain s1 c1 where 1: "t_step op (s, c) = Inr (s1, c1)" "holds s1 c1 (xs @ added op)" "replaces (in_place op) s s1"
    using adds_step [OF Cons.prems(1) op(1)] by blast
  from Cons.IH [OF 1(2) op(2)] obtain s2 c2 where 2: "t_run ops (s1, c1) = Inr (s2, c2)"
    "holds s2 c2 ((xs @ added op) @ concat (map added ops))" "replaces (sum_list (map in_place ops)) s1 s2" by blast
  with 1 replaces_trans [OF 1(3) 2(3)] show ?case by auto
qed

lemma no_arrays: "dom (arr h) = {} \<Longrightarrow> live_objects h = 0"
  by (simp add: live_objects_def live_in_def)

lemma holds_destroy:
  assumes "holds s c xs" "accounted s"
  shows "\<exists>s'. t_destroy (s, c) = Inr s' \<and> replaces 0 s s' \<and> accounted s' \<and> live_objects (ob_heap s') = 0"
proof -
  have h: "heap_ok (ob_heap s)" "sc_ok (ob_heap s) c xs" "only_data (ob_heap s, c)"
    using assms(1) by (simp_all add: holds_def)
  obtain h' where d: "delete_array False (ob_heap s) (sc_data c) = Inr h'" using sc_delete_ok [OF h(1,2)] by metis
  then obtain s' where s': "t_destroy (s, c) = Inr s'" "ob_heap s' = h'" by (simp add: t_destroy_def delete_objects_def Let_def)
  then have del: "delete_objects (sc_data c) s = Inr s'" by (simp add: t_destroy_def)
  have "dom (arr h') = {}" using dom_cells(3) [OF d] h(3) by (simp add: only_data_def)
  with no_arrays s' replaces_primitives(2) [OF del] accounted_primitives(2) [OF assms(2) del] show ?thesis by blast
qed

lemma objs_new_ok: "holds objs_new sc_new []" "accounted objs_new" "tame objs_new" "ob_locals objs_new = 0" "ob_replaced objs_new = 0"
proof -
  show "holds objs_new sc_new []"
    by (auto simp: holds_def objs_new_def only_data_def old_data_def) (simp_all add: heap_empty_def sc_new_def)
  show "accounted objs_new" using heap_empty_ok by (simp add: accounted_def objs_new_def live_objects_def heap_empty_def)
qed (simp_all add: objs_new_def tame_def reset_counters_def)

subsection \<open>The other sections of the demo\<close>

text \<open>What the sections print: a container, a number, a comparison, an element, or a caught exception.\<close>

datatype 'a line = Items "'a list" | Number nat | Verdict bool | Element 'a | Caught

definition print_container :: "'a heap \<Rightarrow> sc \<Rightarrow> sc_error + 'a line" where
  "print_container h c = bindE (traverse (cit_deref h) cit_inc (sc_size c) (sc_begin_const c)) (\<lambda>xs. Inr (Items xs))"

text \<open>Assignments through the references that \<open>operator[]\<close>, \<open>at\<close> and \<open>*it\<close> return.\<close>

definition set_index :: "nat \<Rightarrow> 'a \<Rightarrow> 'a heap \<times> sc \<Rightarrow> sc_error + 'a heap" where
  "set_index pos v s = (case s of (h, c) \<Rightarrow> assign_cell h (sc_data c) pos v)"

definition set_at :: "nat \<Rightarrow> 'a \<Rightarrow> 'a heap \<times> sc \<Rightarrow> sc_error + 'a heap" where
  "set_at pos v s = (case s of (h, c) \<Rightarrow> if sc_size c \<le> pos then Inl out_of_range else assign_cell h (sc_data c) pos v)"

definition it_assign :: "'a heap \<Rightarrow> iter \<Rightarrow> 'a \<Rightarrow> sc_error + 'a heap" where
  "it_assign h it v = (if snd it < 0 then Inl undefined_behaviour else assign_cell h (fst it) (nat (snd it)) v)"

text \<open>\<open>for (int i : is) container.push_back(f(i))\<close>, printing the size when \<open>shown i\<close>.\<close>

fun push_sizes :: "(int \<Rightarrow> bool) \<Rightarrow> (int \<Rightarrow> int) \<Rightarrow> int list \<Rightarrow> int heap \<times> sc \<Rightarrow> sc_error + (int heap \<times> sc) \<times> int line list" where
  "push_sizes shown f [] s = Inr (s, [])"
| "push_sizes shown f (i # is) s = bindE (sc_push_back True 0 (f i) s) (\<lambda>s. bindE (push_sizes shown f is s) (\<lambda>(t, ls).
     Inr (t, if shown i then Number (sc_size (snd s)) # ls else ls)))"

definition demo_basic_operations :: "sc_error + int line list" where
  "demo_basic_operations =
     bindE (push_sizes (\<lambda>i. True) (\<lambda>i. i * 10) [1..5] (heap_empty, sc_new)) (\<lambda>((h, c), sizes).
     bindE (print_container h c) (\<lambda>l1.
     bindE (sc_front (h, c)) (\<lambda>front.
     bindE (sc_back (h, c)) (\<lambda>back.
     bindE (sc_index 2 (h, c)) (\<lambda>x.
     bindE (sc_at 3 (h, c)) (\<lambda>y.
     bindE (set_index 1 999 (h, c)) (\<lambda>h.
     bindE (set_at 3 777 (h, c)) (\<lambda>h.
     bindE (print_container h c) (\<lambda>l2.
     bindE (sc_pop_back True (h, c)) (\<lambda>(h, c).
     bindE (print_container h c) (\<lambda>l3.
     bindE (sc_destroy True (h, c)) (\<lambda>h.
     Inr ([Verdict (sc_empty sc_new), Number (sc_size sc_new)] @ sizes @ [l1, Element front, Element back, Element x, Element y, l2, l3])))))))))))))"

text \<open>The destructors of several containers, in the order given.\<close>

fun destroy_all :: "bool \<Rightarrow> sc list \<Rightarrow> 'a heap \<Rightarrow> sc_error + 'a heap" where
  "destroy_all triv [] h = Inr h"
| "destroy_all triv (c # cs) h = bindE (sc_destroy triv (h, c)) (destroy_all triv cs)"

definition demo_constructors_and_assignment :: "sc_error + string line list" where
  "demo_constructors_and_assignment =
     bindE (sc_init False [] [''hello'', ''world'', ''from'', ''smart'', ''container''] heap_empty) (\<lambda>(h, words).
     bindE (print_container h words) (\<lambda>l1.
     bindE (sc_copy False [] (h, words)) (\<lambda>(h, words_copy).
     bindE (print_container h words_copy) (\<lambda>l2.
     case sc_move words of (words_moved, words) \<Rightarrow>
     bindE (print_container h words_moved) (\<lambda>l3.
     bindE (print_container h words) (\<lambda>l4.
     bindE (sc_op_assign_copy False False [] sc_new words_copy h) (\<lambda>(h, words_assigned).
     bindE (print_container h words_assigned) (\<lambda>l5.
     bindE (sc_op_assign_move False False sc_new words_copy h) (\<lambda>(h, words_move_assigned, words_copy).
     bindE (print_container h words_move_assigned) (\<lambda>l6.
     bindE (print_container h words_copy) (\<lambda>l7.
     bindE (destroy_all False [words_move_assigned, words_assigned, words_moved, words_copy, words] h) (\<lambda>h.
     Inr [l1, l2, l3, l4, l5, l6, l7]))))))))))))"

text \<open>The loops of the iterator section. The last \<open>--it\<close> of the backward loop makes a pointer before the array.\<close>

fun double_each :: "nat \<Rightarrow> int heap \<Rightarrow> iter \<Rightarrow> sc_error + int heap" where
  "double_each 0 h it = Inr h"
| "double_each (Suc n) h it =
     bindE (it_deref h it) (\<lambda>num. bindE (it_assign h it (num * 2)) (\<lambda>h. double_each n h (it_inc it)))"

fun find_it :: "nat \<Rightarrow> 'a heap \<Rightarrow> 'a \<Rightarrow> iter \<Rightarrow> sc_error + iter" where
  "find_it 0 h v it = Inr it"
| "find_it (Suc n) h v it = bindE (it_deref h it) (\<lambda>w. if w = v then Inr it else find_it n h v (it_inc it))"

fun write_all :: "'a heap \<Rightarrow> iter \<Rightarrow> 'a list \<Rightarrow> sc_error + 'a heap" where
  "write_all h it [] = Inr h"
| "write_all h it (v # vs) = bindE (it_assign h it v) (\<lambda>h. write_all h (it_inc it) vs)"

text \<open>An algorithm of the standard library that rearranges the elements of a container.\<close>

definition rearrange :: "('a list \<Rightarrow> 'a list) \<Rightarrow> 'a heap \<times> sc \<Rightarrow> sc_error + 'a heap" where
  "rearrange f s = (case s of (h, c) \<Rightarrow>
     bindE (traverse (it_deref h) it_inc (sc_size c) (it_begin c)) (\<lambda>xs. write_all h (it_begin c) (f xs)))"

text \<open>
  \<open>for (auto it = end() - 1; it >= begin(); --it)\<close>: after the first element the iterator is moved to
  before the array, which is undefined.
\<close>

fun backward_loop :: "nat \<Rightarrow> 'a heap \<Rightarrow> iter \<Rightarrow> iter \<Rightarrow> sc_error + 'a list" where
  "backward_loop n h it first = (if it_less it first \<noteq> Some False then Inr []
     else case n of 0 \<Rightarrow> Inl undefined_behaviour
       | Suc n \<Rightarrow> bindE (it_deref h it) (\<lambda>v. if it = first then Inl undefined_behaviour
           else bindE (backward_loop n h (it_dec it) first) (\<lambda>vs. Inr (v # vs))))"

definition demo_iterators :: "sc_error + int line list" where
  "demo_iterators =
     bindE (sc_init True 0 [3, 1, 4, 1, 5, 9, 2, 6] heap_empty) (\<lambda>(h, numbers).
     bindE (print_container h numbers) (\<lambda>l1.
     bindE (double_each (sc_size numbers) h (it_begin numbers)) (\<lambda>h.
     bindE (print_container h numbers) (\<lambda>l2.
     bindE (find_it (sc_size numbers) h 8 (it_begin numbers)) (\<lambda>it.
     bindE (if it \<noteq> it_end numbers then bindE (it_deref h it) (\<lambda>v. bindE (it_assign h it 100) (\<lambda>h.
              Inr (h, [Element v, Element (the (it_diff it (it_begin numbers)))]))) else Inr (h, [])) (\<lambda>(h, found).
     bindE (print_container h numbers) (\<lambda>l3.
     bindE (rearrange sort (h, numbers)) (\<lambda>h.
     bindE (print_container h numbers) (\<lambda>l4.
     bindE (traverse (cit_deref h) cit_inc (sc_size numbers) (sc_begin_const numbers)) (\<lambda>xs.
     bindE (backward_loop (sc_size numbers) h (it_sub (it_end numbers) 1) (it_begin numbers)) (\<lambda>back.
     bindE (sc_destroy True (h, numbers)) (\<lambda>h.
     Inr ([l1, l2] @ found @ [l3, l4, Element (foldl (+) 0 xs), Items back])))))))))))))"

definition demo_comparison_and_equality :: "sc_error + int line list" where
  "demo_comparison_and_equality =
     bindE (sc_init True 0 [1, 2, 3, 4, 5 :: int] heap_empty) (\<lambda>(h, container1).
     bindE (sc_init True 0 [1, 2, 3, 4, 5] h) (\<lambda>(h, container2).
     bindE (sc_init True 0 [1, 2, 3, 4, 6] h) (\<lambda>(h, container3).
     bindE (sc_init True 0 [1, 2, 3] h) (\<lambda>(h, container4).
     bindE (print_container h container1) (\<lambda>l1.
     bindE (print_container h container2) (\<lambda>l2.
     bindE (print_container h container3) (\<lambda>l3.
     bindE (print_container h container4) (\<lambda>l4.
     bindE (sc_eq h container1 container2) (\<lambda>b1.
     bindE (sc_eq h container1 container3) (\<lambda>b2.
     bindE (sc_eq h container1 container4) (\<lambda>b3.
     bindE (destroy_all True [container4, container3, container2, container1] h) (\<lambda>h.
     Inr [l1, l2, l3, l4, Verdict b1, Verdict b2, Verdict b3]))))))))))))"

text \<open>\<open>try\<close> a block that prints; an \<open>std::out_of_range\<close> is caught, undefined behaviour is not.\<close>

definition try_catch :: "sc_error + 'a line list \<Rightarrow> sc_error + 'a line list" where
  "try_catch m = (case m of Inl out_of_range \<Rightarrow> Inr [Caught] | r \<Rightarrow> r)"

definition demo_exception_safety :: "sc_error + int line list" where
  "demo_exception_safety =
     bindE (sc_init True 0 [1, 2, 3] heap_empty) (\<lambda>(h, container).
     bindE (print_container h container) (\<lambda>l1.
     bindE (bindE (sc_at 1 (h, container)) (\<lambda>x. bindE (try_catch (bindE (sc_at 10 (h, container)) (\<lambda>y. Inr []))) (\<lambda>ls.
              Inr (Element x # ls)))) (\<lambda>l2.
     bindE (try_catch (bindE (sc_pop_back True (h, sc_new)) (\<lambda>s. Inr []))) (\<lambda>l3.
     bindE (destroy_all True [sc_new, container] h) (\<lambda>h.
     Inr ([l1] @ l2 @ l3))))))"

text \<open>\<open>std::partial_sort\<close> leaves the order behind the sorted part open, so it is a parameter.\<close>

definition demo_standard_algorithms :: "(nat \<Rightarrow> int list \<Rightarrow> int list) \<Rightarrow> sc_error + int line list" where
  "demo_standard_algorithms partial_sort =
     bindE (sc_init True 0 [5, 2, 8, 1, 9, 3] heap_empty) (\<lambda>(h, numbers).
     bindE (print_container h numbers) (\<lambda>l1.
     bindE (find_it (sc_size numbers) h 8 (it_begin numbers)) (\<lambda>found.
     bindE (traverse (it_deref h) it_inc (sc_size numbers) (it_begin numbers)) (\<lambda>xs.
     bindE (double_each (sc_size numbers) h (it_begin numbers)) (\<lambda>h.
     bindE (print_container h numbers) (\<lambda>l2.
     bindE (rearrange (partial_sort 3) (h, numbers)) (\<lambda>h.
     bindE (print_container h numbers) (\<lambda>l3.
     bindE (sc_destroy True (h, numbers)) (\<lambda>h.
     Inr ([l1] @ (if found \<noteq> it_end numbers then [Element (the (it_diff found (it_begin numbers)))] else []) @
       [Number (length (filter even xs)), l2, l3]))))))))))"

definition demo_performance_characteristics :: "sc_error + int line list \<times> nat" where
  "demo_performance_characteristics =
     bindE (push_sizes (\<lambda>i. i \<le> 10 \<or> i mod 5 = 0) (\<lambda>i. i) [1..20] (heap_empty, sc_new)) (\<lambda>((h, c), sizes).
     bindE (sc_shrink_to_fit True 0 (h, c)) (\<lambda>(h', c').
     bindE (sc_destroy True (h', c')) (\<lambda>h.
     Inr (sizes @ [Number (sc_size c), Number (sc_size c')], sc_capacity c'))))"

text \<open>\<open>main\<close> up to the third section.\<close>

definition demo_main :: "sc_error + int line list \<times> string line list \<times> (string list \<times> test_counts list \<times> nat)" where
  "demo_main =
     bindE demo_basic_operations (\<lambda>l1.
     bindE demo_constructors_and_assignment (\<lambda>l2.
     bindE demo_advanced_operations (\<lambda>l3. Inr (l1, l2, l3))))"

subsection \<open>Properties\<close>

lemma counted_run:
  "case t_run ops (objs_new, sc_new) of
      Inl e \<Rightarrow> d_run ''default'' (map plain ops) (heap_empty, sc_new) = Inl e
    | Inr (s, c) \<Rightarrow> d_run ''default'' (map plain ops) (heap_empty, sc_new) = Inr (ob_heap s, c) \<and>
        ob_born s = ob_ended s + live_objects (ob_heap s) + ob_locals s + ob_replaced s"
proof -
  have "old_data (ob_heap objs_new, sc_new)" using objs_new_ok(1) by (simp add: holds_def)
  from t_run_same [OF this, of ops]
  have "same_run (t_run ops (objs_new, sc_new)) (d_run ''default'' (map plain ops) (heap_empty, sc_new))"
    by (simp add: objs_new_def)
  with accounted_run [OF _ objs_new_ok(2), of ops sc_new] show ?thesis
    by (cases "t_run ops (objs_new, sc_new)") (auto simp: accounted_def)
qed

lemma one_lost_per_emplace:
  assumes "list_all adds ops"
  shows "\<exists>s c s'. t_run ops (objs_new, sc_new) = Inr (s, c) \<and>
     it_walk (sc_size c) (ob_heap s) (it_begin c) (it_end c) = Inr (concat (map added ops)) \<and>
     t_destroy (s, c) = Inr s' \<and> live_objects (ob_heap s') = 0 \<and>
     construction_count (ob_counts s') = destruction_count (ob_counts s') + sum_list (map in_place ops)"
proof -
  note new = objs_new_ok
  from adds_run [OF new(1) assms] obtain s c where r: "t_run ops (objs_new, sc_new) = Inr (s, c)"
    "holds s c (concat (map added ops))" "replaces (sum_list (map in_place ops)) objs_new s" by auto
  have acc: "accounted s" using accounted_run [OF r(1) new(2)] .
  obtain s' where d: "t_destroy (s, c) = Inr s'" "replaces 0 s s'" "accounted s'" "live_objects (ob_heap s') = 0"
    using holds_destroy [OF r(2) acc] by blast
  have "construction_count (ob_counts s') = destruction_count (ob_counts s') + sum_list (map in_place ops)"
    using r(3) d(2-4) new(3-5) by (simp add: replaces_def tame_def accounted_def)
  moreover have "it_walk (sc_size c) (ob_heap s) (it_begin c) (it_end c) = Inr (concat (map added ops))"
    using r(2) sc_walk_all by (auto simp: holds_def)
  ultimately show ?thesis using r(1) d(1,4) by blast
qed

lemma partial_sort_section:
  assumes "mset (ps 3 [10, 4, 16, 2, 18, 6]) = mset [10, 4, 16, 2, 18, 6 :: int]"
    "take 3 (ps 3 [10, 4, 16, 2, 18, 6]) = [2, 4, 6]"
  shows "\<exists>rest. demo_standard_algorithms ps = Inr [Items [5, 2, 8, 1, 9, 3], Element 2, Number 2,
    Items [10, 4, 16, 2, 18, 6], Items ([2, 4, 6] @ rest)] \<and> mset rest = mset [10, 16, 18]"
proof -
  define zs where "zs = ps 3 [10, 4, 16, 2, 18, 6]"
  have l: "length zs = 6" using mset_eq_length [OF assms(1)] by (simp add: zs_def)
  define rest where "rest = drop 3 zs"
  have zs: "zs = [2, 4, 6] @ rest" using assms(2) append_take_drop_id [of 3 zs] by (simp add: zs_def rest_def)
  then have "length rest = 3" using l by simp
  then obtain a b c where abc: "rest = [a, b, c]" by (auto simp: numeral_3_eq_3 length_Suc_conv)
  have "mset rest = mset [10, 16, 18]" using assms(1) zs by (simp add: zs_def [symmetric] add_mset_commute)
  have "demo_standard_algorithms (\<lambda>_ _. zs) = Inr [Items [5, 2, 8, 1, 9, 3], Element 2, Number 2,
    Items [10, 4, 16, 2, 18, 6], Items zs]" unfolding zs abc by code_simp
  moreover have "demo_standard_algorithms ps = demo_standard_algorithms (\<lambda>_ _. ps 3 [10, 4, 16, 2, 18, 6])" by code_simp
  ultimately show ?thesis using \<open>mset rest = mset [10, 16, 18]\<close> zs by (auto simp: zs_def [symmetric])
qed

text \<open>C23: Counting the special members of \<open>TestObject\<close> does not change what the container does, and
  the counters add up: whatever operations run, every object that was made has been destroyed, is
  still alive, or was overwritten by a constructor. If the operations only add elements, the
  container holds them in order and can be destroyed; then exactly one object per \<open>emplace_back\<close> is never
  destroyed, although nothing is alive any more. (After a \<open>pop_back\<close> or \<open>clear\<close>, \<open>emplace_back\<close> may
  construct over an object that has been destroyed, and then loses none.)\<close>

theorem objects_accounted:
  "(case t_run ops (objs_new, sc_new) of
      Inl e \<Rightarrow> d_run ''default'' (map plain ops) (heap_empty, sc_new) = Inl e
    | Inr (s, c) \<Rightarrow> d_run ''default'' (map plain ops) (heap_empty, sc_new) = Inr (ob_heap s, c) \<and>
        ob_born s = ob_ended s + live_objects (ob_heap s) + ob_locals s + ob_replaced s) \<and>
   (list_all adds ops \<longrightarrow> (\<exists>s c s'. t_run ops (objs_new, sc_new) = Inr (s, c) \<and>
     it_walk (sc_size c) (ob_heap s) (it_begin c) (it_end c) = Inr (concat (map added ops)) \<and>
     t_destroy (s, c) = Inr s' \<and> live_objects (ob_heap s') = 0 \<and>
     construction_count (ob_counts s') = destruction_count (ob_counts s') + sum_list (map in_place ops)))"
  using counted_run [of ops] one_lost_per_emplace [of ops] by blast

lemma objects_accounted_witness:
  "\<exists>s c s'. t_run [Op (EmplaceBack ''a''), Move_back ''b'', Op (EmplaceBack ''c'')] (objs_new, sc_new) = Inr (s, c) \<and>
     t_destroy (s, c) = Inr s' \<and> construction_count (ob_counts s') = destruction_count (ob_counts s') + 2"
  using objects_accounted [of "[Op (EmplaceBack ''a''), Move_back ''b'', Op (EmplaceBack ''c'')]"] by auto

text \<open>What the sections of the demo come to. The memory section prints 13 constructions and 11
  destructions under the line that all objects should be destroyed. The third section has
  undefined behaviour, since \<open>clear\<close> destroys objects that the container's destructor destroys
  again, and so has the section on iterators, whose last loop runs backwards to before the array.
  (The section on algorithms is above.)\<close>

theorem demo_outcome:
  "demo_memory_management = Inr
     [\<lparr>construction_count = 10, destruction_count = 4, copy_count = 0, move_count = 4\<rparr>,
      \<lparr>construction_count = 13, destruction_count = 4, copy_count = 3, move_count = 4\<rparr>,
      \<lparr>construction_count = 13, destruction_count = 11, copy_count = 3, move_count = 4\<rparr>] \<and>
   demo_advanced_operations = Inl undefined_behaviour \<and> demo_main = Inl undefined_behaviour \<and>
   demo_basic_operations = Inr [Verdict True, Number 0, Number 1, Number 2, Number 3, Number 4, Number 5,
     Items [10, 20, 30, 40, 50], Element 10, Element 50, Element 30, Element 40,
     Items [10, 999, 30, 777, 50], Items [10, 999, 30, 777]] \<and>
   demo_constructors_and_assignment = (let ws = [''hello'', ''world'', ''from'', ''smart'', ''container'']
     in Inr [Items ws, Items ws, Items ws, Items [], Items ws, Items ws, Items []]) \<and>
   demo_iterators = Inl undefined_behaviour \<and>
   demo_comparison_and_equality = Inr [Items [1, 2, 3, 4, 5], Items [1, 2, 3, 4, 5], Items [1, 2, 3, 4, 6],
     Items [1, 2, 3], Verdict True, Verdict False, Verdict False] \<and>
   demo_exception_safety = Inr [Items [1, 2, 3], Element 2, Caught, Caught] \<and>
   demo_performance_characteristics = Inr (map Number ([1, 2, 3, 4, 5, 6, 7, 8, 9, 10] @ [15, 20] @ [20, 20]), 20)"
proof (intro conjI)
  show adv: "demo_advanced_operations = Inl undefined_behaviour" by code_simp
  show basic: "demo_basic_operations = Inr [Verdict True, Number 0, Number 1, Number 2, Number 3, Number 4, Number 5,
     Items [10, 20, 30, 40, 50], Element 10, Element 50, Element 30, Element 40,
     Items [10, 999, 30, 777, 50], Items [10, 999, 30, 777]]" by code_simp
  show ctors: "demo_constructors_and_assignment = (let ws = [''hello'', ''world'', ''from'', ''smart'', ''container'']
     in Inr [Items ws, Items ws, Items ws, Items [], Items ws, Items ws, Items []])" by code_simp
  show "demo_main = Inl undefined_behaviour" by (simp add: demo_main_def basic ctors adv Let_def)
qed (code_simp, code_simp, code_simp, code_simp, code_simp)

end
