(* ===== verification/Ping_Pong.thy ===== *)
theory Ping_Pong
  imports Prelude
begin

section \<open>Ping-pong (\<open>topics/concurrency/context_switch_threads_vs_processes.cpp\<close>)\<close>

text \<open>
  Two threads that hand a turn back and forth under a mutex and a condition variable, and two
  processes that send a byte back and forth through two pipes. The number of rounds, \<open>ITERS\<close>, is
  the parameter \<open>N\<close>. A step of a thread is what it does while it holds the mutex, up to the next
  wait or the next round; a step of a process is one system call, which may fail. Timing and
  output are left out.
\<close>

subsection \<open>\<open>thread_ping_pong\<close>\<close>

text \<open>The numbers are the loop counters; \<open>b\<close> in an \<open>asleep\<close> says that the waiter was notified.\<close>

datatype caller_pc = M_init | M_lock | M_loop nat | M_asleep nat bool | M_join | M_over

datatype worker_pc = W_lock | W_loop nat | W_asleep nat bool | W_over nat

datatype holder = Free | By_main | By_worker

record ping =
  pg_turn :: bool
  pg_over :: bool
  pg_lock :: holder
  pg_main :: caller_pc
  pg_worker :: worker_pc

definition ping_init :: ping where
  "ping_init = \<lparr>pg_turn = False, pg_over = False, pg_lock = Free, pg_main = M_init, pg_worker = W_lock\<rparr>"

text \<open>\<open>cv.notify_one()\<close>: at most one thread waits, the other one is awake.\<close>

definition notify_worker :: "worker_pc \<Rightarrow> worker_pc" where
  "notify_worker w = (case w of W_asleep k b \<Rightarrow> W_asleep k True | v \<Rightarrow> v)"

definition notify_main :: "caller_pc \<Rightarrow> caller_pc" where
  "notify_main m = (case m of M_asleep k b \<Rightarrow> M_asleep k True | v \<Rightarrow> v)"

text \<open>The thread that calls \<open>thread_ping_pong\<close>; \<open>None\<close> while it waits.\<close>

definition caller_turn :: "nat \<Rightarrow> ping \<Rightarrow> ping option" where
  "caller_turn N s =
     (case pg_main s of
        M_init \<Rightarrow> if pg_lock s = Free then Some (s\<lparr>pg_turn := False, pg_main := M_lock\<rparr>) else None
      | M_lock \<Rightarrow> if pg_lock s = Free then Some (s\<lparr>pg_lock := By_main, pg_main := M_loop 0\<rparr>) else None
      | M_loop i \<Rightarrow>
          if i < N then
            if \<not> pg_turn s then Some (s\<lparr>pg_turn := True, pg_worker := notify_worker (pg_worker s), pg_main := M_loop (i + 1)\<rparr>)
            else Some (s\<lparr>pg_lock := Free, pg_main := M_asleep i False\<rparr>)
          else Some (s\<lparr>pg_over := True, pg_worker := notify_worker (pg_worker s), pg_lock := Free, pg_main := M_join\<rparr>)
      | M_asleep i b \<Rightarrow> if b \<and> pg_lock s = Free then Some (s\<lparr>pg_lock := By_main, pg_main := M_loop i\<rparr>) else None
      | M_join \<Rightarrow> (case pg_worker s of W_over k \<Rightarrow> Some (s\<lparr>pg_main := M_over\<rparr>) | _ \<Rightarrow> None)
      | M_over \<Rightarrow> None)"

text \<open>The lambda \<open>worker\<close> with \<open>my_turn = true\<close>.\<close>

definition worker_turn :: "nat \<Rightarrow> ping \<Rightarrow> ping option" where
  "worker_turn N s =
     (case pg_worker s of
        W_lock \<Rightarrow> if pg_lock s = Free then Some (s\<lparr>pg_lock := By_worker, pg_worker := W_loop 0\<rparr>) else None
      | W_loop i \<Rightarrow>
          if i < N then
            if pg_turn s \<or> pg_over s then
              if pg_over s then Some (s\<lparr>pg_lock := Free, pg_worker := W_over i\<rparr>)
              else Some (s\<lparr>pg_turn := \<not> pg_turn s, pg_main := notify_main (pg_main s), pg_worker := W_loop (i + 1)\<rparr>)
            else Some (s\<lparr>pg_lock := Free, pg_worker := W_asleep i False\<rparr>)
          else Some (s\<lparr>pg_lock := Free, pg_worker := W_over i\<rparr>)
      | W_asleep i b \<Rightarrow> if b \<and> pg_lock s = Free then Some (s\<lparr>pg_lock := By_worker, pg_worker := W_loop i\<rparr>) else None
      | W_over i \<Rightarrow> None)"

inductive ping_step :: "nat \<Rightarrow> ping \<Rightarrow> ping \<Rightarrow> bool" for N :: nat where
  ping_main: "caller_turn N s = Some t \<Longrightarrow> ping_step N s t"
| ping_worker: "worker_turn N s = Some t \<Longrightarrow> ping_step N s t"
| ping_wake_main: "pg_main s = M_asleep i b \<Longrightarrow> ping_step N s (s\<lparr>pg_main := M_asleep i True\<rparr>)"
| ping_wake_worker: "pg_worker s = W_asleep i b \<Longrightarrow> ping_step N s (s\<lparr>pg_worker := W_asleep i True\<rparr>)"

text \<open>How often each thread has handed over the turn.\<close>

fun main_turns :: "nat \<Rightarrow> caller_pc \<Rightarrow> nat" where
  "main_turns N (M_loop i) = i"
| "main_turns N (M_asleep i b) = i"
| "main_turns N M_join = N"
| "main_turns N M_over = N"
| "main_turns N m = 0"

fun worker_turns :: "worker_pc \<Rightarrow> nat" where
  "worker_turns W_lock = 0"
| "worker_turns (W_loop i) = i"
| "worker_turns (W_asleep i b) = i"
| "worker_turns (W_over i) = i"

fun ahead :: "bool \<Rightarrow> nat" where
  "ahead True = 1"
| "ahead False = 0"

fun main_in :: "caller_pc \<Rightarrow> bool" where
  "main_in (M_loop i) = True"
| "main_in m = False"

fun worker_in :: "worker_pc \<Rightarrow> bool" where
  "worker_in (W_loop i) = True"
| "worker_in w = False"

definition ping_inv :: "nat \<Rightarrow> ping \<Rightarrow> bool" where
  "ping_inv N s \<longleftrightarrow>
     pg_lock s = (if main_in (pg_main s) then By_main else if worker_in (pg_worker s) then By_worker else Free) \<and>
     \<not> (main_in (pg_main s) \<and> worker_in (pg_worker s)) \<and>
     main_turns N (pg_main s) = worker_turns (pg_worker s) + ahead (pg_turn s) \<and> main_turns N (pg_main s) \<le> N \<and>
     (pg_over s \<longleftrightarrow> pg_main s = M_join \<or> pg_main s = M_over) \<and>
     (\<forall>i b. pg_main s = M_asleep i b \<longrightarrow> i < N \<and> (b \<or> pg_turn s)) \<and>
     (\<forall>i b. pg_worker s = W_asleep i b \<longrightarrow> i < N \<and> (b \<or> \<not> pg_turn s \<and> \<not> pg_over s)) \<and>
     (main_turns N (pg_main s) = N \<and> 0 < N \<longrightarrow> pg_turn s) \<and>
     (\<forall>i. pg_worker s = W_over i \<longrightarrow> pg_over s \<or> N = 0) \<and>
     (pg_main s = M_over \<longrightarrow> (\<exists>i. pg_worker s = W_over i))"

lemma notify_simps [simp]:
  "worker_turns (notify_worker w) = worker_turns w" "worker_in (notify_worker w) = worker_in w"
  "notify_worker w = W_asleep i b \<longleftrightarrow> b \<and> (\<exists>c. w = W_asleep i c)" "notify_worker w = W_over i \<longleftrightarrow> w = W_over i"
  "main_turns N (notify_main m) = main_turns N m" "main_in (notify_main m) = main_in m"
  "notify_main m = M_asleep i b \<longleftrightarrow> b \<and> (\<exists>c. m = M_asleep i c)"
  "notify_main m = M_join \<longleftrightarrow> m = M_join" "notify_main m = M_over \<longleftrightarrow> m = M_over"
  by (cases w; auto simp: notify_worker_def; fail)+ (cases m; auto simp: notify_main_def; fail)+

lemma ping_inv_init: "ping_inv N ping_init"
  by (auto simp: ping_inv_def ping_init_def)

lemma caller_turn_inv:
  assumes "caller_turn N s = Some t" "ping_inv N s"
  shows "ping_inv N t"
proof (cases "pg_main s")
  case M_init
  then have "t = s\<lparr>pg_turn := False, pg_main := M_lock\<rparr>" using assms(1) by (simp add: caller_turn_def split: if_splits)
  with M_init assms(2) show ?thesis by (auto simp: ping_inv_def)
next
  case M_lock
  then have "t = s\<lparr>pg_lock := By_main, pg_main := M_loop 0\<rparr>" "pg_lock s = Free"
    using assms(1) by (simp_all add: caller_turn_def split: if_splits)
  with M_lock assms(2) show ?thesis by (auto simp: ping_inv_def split: if_splits)
next
  case (M_loop i)
  consider (hand) "i < N" "\<not> pg_turn s" | (wait) "i < N" "pg_turn s" | (over) "\<not> i < N" by blast
  then show ?thesis
  proof cases
    case hand
    then have "t = s\<lparr>pg_turn := True, pg_worker := notify_worker (pg_worker s), pg_main := M_loop (i + 1)\<rparr>"
      using assms(1) M_loop by (simp add: caller_turn_def)
    with M_loop hand assms(2) show ?thesis by (auto simp: ping_inv_def)
  next
    case wait
    then have "t = s\<lparr>pg_lock := Free, pg_main := M_asleep i False\<rparr>" using assms(1) M_loop by (simp add: caller_turn_def)
    with M_loop wait assms(2) show ?thesis by (auto simp: ping_inv_def)
  next
    case over
    then have "t = s\<lparr>pg_over := True, pg_worker := notify_worker (pg_worker s), pg_lock := Free, pg_main := M_join\<rparr>"
      using assms(1) M_loop by (simp add: caller_turn_def)
    with M_loop over assms(2) show ?thesis by (auto simp: ping_inv_def)
  qed
next
  case (M_asleep i b)
  then have "t = s\<lparr>pg_lock := By_main, pg_main := M_loop i\<rparr>" "pg_lock s = Free"
    using assms(1) by (simp_all add: caller_turn_def split: if_splits)
  with M_asleep assms(2) show ?thesis by (auto simp: ping_inv_def split: if_splits)
next
  case M_join
  then obtain k where "pg_worker s = W_over k" "t = s\<lparr>pg_main := M_over\<rparr>"
    using assms(1) by (auto simp: caller_turn_def split: worker_pc.splits)
  with M_join assms(2) show ?thesis by (simp add: ping_inv_def)
next
  case M_over
  with assms show ?thesis by (simp add: caller_turn_def)
qed

lemma worker_turn_inv:
  assumes "worker_turn N s = Some t" "ping_inv N s"
  shows "ping_inv N t"
proof (cases "pg_worker s")
  case W_lock
  then have "t = s\<lparr>pg_lock := By_worker, pg_worker := W_loop 0\<rparr>" "pg_lock s = Free"
    using assms(1) by (simp_all add: worker_turn_def split: if_splits)
  with W_lock assms(2) show ?thesis by (simp add: ping_inv_def split: if_splits)
next
  case (W_loop i)
  have free: "\<not> main_in (pg_main s)" using assms(2) W_loop by (simp add: ping_inv_def)
  consider (hand) "i < N" "pg_turn s" "\<not> pg_over s" | (stop) "i < N \<longrightarrow> pg_over s" | (wait) "i < N" "\<not> pg_turn s" "\<not> pg_over s" by blast
  then show ?thesis
  proof cases
    case hand
    then have "t = s\<lparr>pg_turn := False, pg_main := notify_main (pg_main s), pg_worker := W_loop (i + 1)\<rparr>"
      using assms(1) W_loop by (simp add: worker_turn_def)
    moreover have "main_turns N (pg_main s) \<noteq> N"
      using assms(2) hand free by (cases "pg_main s") (simp_all add: ping_inv_def)
    ultimately show ?thesis using W_loop hand free assms(2) by (simp add: ping_inv_def)
  next
    case stop
    then have "t = s\<lparr>pg_lock := Free, pg_worker := W_over i\<rparr>" using assms(1) W_loop by (cases "i < N") (simp_all add: worker_turn_def)
    moreover have "pg_over s \<or> N = 0"
    proof (cases "i < N")
      case False
      with assms(2) W_loop have "\<not> pg_turn s" "main_turns N (pg_main s) = N" by (auto simp: ping_inv_def)
      with assms(2) show ?thesis unfolding ping_inv_def by blast
    qed (use stop in simp)
    ultimately show ?thesis using W_loop free assms(2) by (simp add: ping_inv_def)
  next
    case wait
    then have "t = s\<lparr>pg_lock := Free, pg_worker := W_asleep i False\<rparr>" using assms(1) W_loop by (simp add: worker_turn_def)
    with W_loop wait free assms(2) show ?thesis by (auto simp: ping_inv_def)
  qed
next
  case (W_asleep i b)
  then have "t = s\<lparr>pg_lock := By_worker, pg_worker := W_loop i\<rparr>" "pg_lock s = Free"
    using assms(1) by (simp_all add: worker_turn_def split: if_splits)
  with W_asleep assms(2) show ?thesis by (simp add: ping_inv_def split: if_splits)
next
  case (W_over i)
  with assms show ?thesis by (simp add: worker_turn_def)
qed

lemma ping_step_inv:
  assumes "ping_step N s t" "ping_inv N s"
  shows "ping_inv N t"
  using assms(1)
proof cases
  case ping_main
  from caller_turn_inv [OF this assms(2)] show ?thesis .
next
  case ping_worker
  from worker_turn_inv [OF this assms(2)] show ?thesis .
next
  case ping_wake_main
  with assms(2) show ?thesis by (auto simp: ping_inv_def)
next
  case ping_wake_worker
  with assms(2) show ?thesis by (auto simp: ping_inv_def)
qed

text \<open>What is left to do; a thread that would have to wait is one step further away from its goal.\<close>

definition main_left :: "nat \<Rightarrow> bool \<Rightarrow> caller_pc \<Rightarrow> nat" where
  "main_left N t m = (case m of M_init \<Rightarrow> 7 | M_lock \<Rightarrow> 6 | M_loop i \<Rightarrow> if i < N \<and> t then 4 else 2
     | M_asleep i b \<Rightarrow> 3 | M_join \<Rightarrow> 1 | M_over \<Rightarrow> 0)"

definition worker_left :: "nat \<Rightarrow> bool \<Rightarrow> worker_pc \<Rightarrow> nat" where
  "worker_left N go w = (case w of W_lock \<Rightarrow> 5 | W_loop i \<Rightarrow> if i < N \<and> \<not> go then 4 else 2 | W_asleep i b \<Rightarrow> 3 | W_over i \<Rightarrow> 0)"

definition ping_left :: "nat \<Rightarrow> ping \<Rightarrow> nat" where
  "ping_left N s = 10 * (N - main_turns N (pg_main s)) + 10 * (N - worker_turns (pg_worker s)) +
     main_left N (pg_turn s) (pg_main s) + worker_left N (pg_turn s \<or> pg_over s) (pg_worker s)"

lemmas ping_left_defs = ping_left_def main_left_def worker_left_def

lemma left_notified: "worker_left N True (notify_worker w) \<le> worker_left N go w" "main_left N False (notify_main m) \<le> main_left N t m"
  by (cases w; simp add: worker_left_def notify_worker_def) (cases m; simp add: main_left_def notify_main_def)

lemma main_moves:
  assumes "ping_inv N s" "case pg_main s of M_asleep i b \<Rightarrow> \<not> pg_turn s | M_join \<Rightarrow> \<exists>i. pg_worker s = W_over i | M_over \<Rightarrow> False | _ \<Rightarrow> True"
    "\<not> worker_in (pg_worker s)"
  shows "\<exists>t. caller_turn N s = Some t \<and> ping_left N t < ping_left N s"
proof (cases "pg_main s")
  case (M_loop i)
  note w = left_notified(1) [of N "pg_worker s" "pg_turn s \<or> pg_over s"]
  consider (hand) "i < N" "\<not> pg_turn s" | (wait) "i < N" "pg_turn s" | (over) "\<not> i < N" by blast
  then show ?thesis
  proof cases
    case hand
    then have "N - i = Suc (N - Suc i)" by simp
    with hand M_loop w show ?thesis by (simp add: caller_turn_def ping_left_def main_left_def)
  next
    case wait
    with M_loop show ?thesis by (simp add: caller_turn_def ping_left_def main_left_def)
  next
    case over
    with M_loop w show ?thesis by (simp add: caller_turn_def ping_left_def main_left_def)
  qed
next
  case (M_asleep i b)
  with assms have "\<not> pg_turn s" "pg_lock s = Free" "b" by (auto simp: ping_inv_def)
  with M_asleep show ?thesis by (simp add: caller_turn_def ping_left_def main_left_def)
next
  case M_init
  with assms have "\<not> pg_turn s" "pg_lock s = Free" by (cases "pg_turn s"; simp add: ping_inv_def)+
  with M_init show ?thesis by (simp add: caller_turn_def ping_left_def main_left_def)
next
  case M_lock
  with assms have "\<not> pg_turn s" "pg_lock s = Free" by (cases "pg_turn s"; simp add: ping_inv_def)+
  with M_lock show ?thesis by (simp add: caller_turn_def ping_left_def main_left_def)
next
  case M_join
  with assms(2) obtain i where "pg_worker s = W_over i" by auto
  with M_join show ?thesis by (simp add: caller_turn_def ping_left_def main_left_def)
qed (use assms in simp)

lemma worker_moves:
  assumes "ping_inv N s" "case pg_worker s of W_asleep i b \<Rightarrow> pg_turn s \<or> pg_over s | W_over i \<Rightarrow> False | _ \<Rightarrow> True"
    "\<not> main_in (pg_main s)"
  shows "\<exists>t. worker_turn N s = Some t \<and> ping_left N t < ping_left N s"
proof (cases "pg_worker s")
  case W_lock
  with assms have "pg_lock s = Free" by (simp add: ping_inv_def)
  with W_lock show ?thesis by (simp add: worker_turn_def ping_left_def worker_left_def)
next
  case (W_loop i)
  consider (hand) "i < N" "pg_turn s" "\<not> pg_over s" | (stop) "i < N \<longrightarrow> pg_over s" | (wait) "i < N" "\<not> pg_turn s" "\<not> pg_over s" by blast
  then show ?thesis
  proof cases
    case hand
    then have "N - i = Suc (N - Suc i)" by simp
    with hand W_loop left_notified(2) [of N "pg_main s" "pg_turn s"] show ?thesis
      by (simp add: worker_turn_def ping_left_def worker_left_def)
  next
    case stop
    with W_loop show ?thesis by (cases "i < N") (simp_all add: worker_turn_def ping_left_def worker_left_def)
  next
    case wait
    with W_loop show ?thesis by (simp add: worker_turn_def ping_left_def worker_left_def)
  qed
next
  case (W_asleep i b)
  with assms have "pg_turn s \<or> pg_over s" "pg_lock s = Free" "b" by (auto simp: ping_inv_def)
  with W_asleep show ?thesis by (auto simp: worker_turn_def ping_left_def worker_left_def)
qed (use assms in simp)

lemma ping_moves:
  assumes inv: "ping_inv N s" and "pg_main s \<noteq> M_over"
  shows "\<exists>t. ping_step N s t \<and> ping_left N t < ping_left N s"
proof -
  have "worker_in (pg_worker s) \<or> (case pg_main s of M_asleep i b \<Rightarrow> \<not> pg_turn s | M_join \<Rightarrow> \<exists>i. pg_worker s = W_over i
      | M_over \<Rightarrow> False | _ \<Rightarrow> True) \<or> (\<not> main_in (pg_main s) \<and> (case pg_worker s of W_asleep i b \<Rightarrow> pg_turn s \<or> pg_over s
      | W_over i \<Rightarrow> False | _ \<Rightarrow> True))"
    using assms by (cases "pg_main s"; cases "pg_worker s") (auto simp: ping_inv_def)
  moreover have "\<not> main_in (pg_main s) \<and> (case pg_worker s of W_asleep i b \<Rightarrow> pg_turn s \<or> pg_over s
      | W_over i \<Rightarrow> False | _ \<Rightarrow> True)" if "worker_in (pg_worker s)"
    using that inv by (cases "pg_worker s") (simp_all add: ping_inv_def)
  ultimately show ?thesis
    using main_moves [OF inv] worker_moves [OF inv] by (blast intro: ping_main ping_worker)
qed

lemma ping_reach_inv: "(ping_step N)\<^sup>*\<^sup>* ping_init s \<Longrightarrow> ping_inv N s"
  by (rule reach_keeps [where step = "ping_step N" and I = "ping_inv N", OF _ ping_inv_init]) (auto intro: ping_step_inv)

lemma ping_ends: "ping_inv N s \<Longrightarrow> \<exists>t. (ping_step N)\<^sup>*\<^sup>* s t \<and> ping_inv N t \<and> pg_main t = M_over"
  by (rule reaches_end [where I = "ping_inv N" and rank = "ping_left N"]) (use ping_moves ping_step_inv in blast)+

subsection \<open>\<open>process_ping_pong\<close>\<close>

text \<open>
  The numbers are the loop counters; \<open>W_waits\<close> and \<open>W_reaped\<close> come after the parent has closed its
  ends. A pipe holds bytes that are all 0, so it is their number. A parent that writes to a pipe
  nobody can read from any more is killed by \<open>SIGPIPE\<close>, and so is the child.
\<close>

datatype par_pc = Par_write nat | Par_read nat | Par_close | Par_wait | Par_reaped | Par_killed

datatype chi_pc = Chi_read nat | Chi_write nat | Chi_exit nat | Chi_killed

record pong =
  po_p2c :: nat
  po_c2p :: nat
  po_par :: par_pc
  po_chi :: chi_pc

definition pong_init :: pong where
  "pong_init = \<lparr>po_p2c = 0, po_c2p = 0, po_par = Par_write 0, po_chi = Chi_read 0\<rparr>"

fun par_open :: "par_pc \<Rightarrow> bool" where
  "par_open Par_wait = False"
| "par_open Par_reaped = False"
| "par_open Par_killed = False"
| "par_open p = True"

fun chi_open :: "chi_pc \<Rightarrow> bool" where
  "chi_open (Chi_read i) = True"
| "chi_open (Chi_write i) = True"
| "chi_open c = False"

text \<open>\<open>ok\<close> says whether the system call of this step succeeds; \<open>None\<close> while it blocks.\<close>

definition par_step :: "nat \<Rightarrow> bool \<Rightarrow> pong \<Rightarrow> pong option" where
  "par_step N ok s =
     (case po_par s of
        Par_write i \<Rightarrow>
          if \<not> i < N then Some (s\<lparr>po_par := Par_close\<rparr>)
          else if \<not> ok then Some (s\<lparr>po_par := Par_close\<rparr>)
          else if \<not> chi_open (po_chi s) then Some (s\<lparr>po_par := Par_killed\<rparr>)
          else Some (s\<lparr>po_p2c := po_p2c s + 1, po_par := Par_read i\<rparr>)
      | Par_read i \<Rightarrow>
          if \<not> ok then Some (s\<lparr>po_par := Par_close\<rparr>)
          else if 0 < po_c2p s then Some (s\<lparr>po_c2p := po_c2p s - 1, po_par := Par_write (i + 1)\<rparr>)
          else if \<not> chi_open (po_chi s) then Some (s\<lparr>po_par := Par_close\<rparr>)
          else None
      | Par_close \<Rightarrow> Some (s\<lparr>po_par := Par_wait\<rparr>)
      | Par_wait \<Rightarrow> if \<not> chi_open (po_chi s) then Some (s\<lparr>po_par := Par_reaped\<rparr>) else None
      | Par_reaped \<Rightarrow> None
      | Par_killed \<Rightarrow> None)"

definition chi_step :: "nat \<Rightarrow> bool \<Rightarrow> pong \<Rightarrow> pong option" where
  "chi_step N ok s =
     (case po_chi s of
        Chi_read i \<Rightarrow>
          if \<not> i < N then Some (s\<lparr>po_chi := Chi_exit 0\<rparr>)
          else if \<not> ok then Some (s\<lparr>po_chi := Chi_exit 1\<rparr>)
          else if 0 < po_p2c s then Some (s\<lparr>po_p2c := po_p2c s - 1, po_chi := Chi_write i\<rparr>)
          else if \<not> par_open (po_par s) then Some (s\<lparr>po_chi := Chi_exit 1\<rparr>)
          else None
      | Chi_write i \<Rightarrow>
          if \<not> ok then Some (s\<lparr>po_chi := Chi_exit 1\<rparr>)
          else if \<not> par_open (po_par s) then Some (s\<lparr>po_chi := Chi_killed\<rparr>)
          else Some (s\<lparr>po_c2p := po_c2p s + 1, po_chi := Chi_read (i + 1)\<rparr>)
      | Chi_exit k \<Rightarrow> None
      | Chi_killed \<Rightarrow> None)"

text \<open>System calls may fail if \<open>faulty\<close>.\<close>

inductive pong_step :: "nat \<Rightarrow> bool \<Rightarrow> pong \<Rightarrow> pong \<Rightarrow> bool" for N :: nat and faulty :: bool where
  pong_par: "faulty \<or> ok \<Longrightarrow> par_step N ok s = Some t \<Longrightarrow> pong_step N faulty s t"
| pong_chi: "faulty \<or> ok \<Longrightarrow> chi_step N ok s = Some t \<Longrightarrow> pong_step N faulty s t"

text \<open>Every step brings the two processes closer to their ends, whatever fails.\<close>

definition par_left :: "nat \<Rightarrow> par_pc \<Rightarrow> nat" where
  "par_left N p = (case p of Par_write i \<Rightarrow> 3 * (N - i) + 5 | Par_read i \<Rightarrow> 3 * (N - i) + 4 | Par_close \<Rightarrow> 2 | Par_wait \<Rightarrow> 1 | _ \<Rightarrow> 0)"

definition chi_left :: "nat \<Rightarrow> chi_pc \<Rightarrow> nat" where
  "chi_left N c = (case c of Chi_read i \<Rightarrow> 3 * (N - i) + 3 | Chi_write i \<Rightarrow> 3 * (N - i) + 2 | _ \<Rightarrow> 0)"

definition pong_left :: "nat \<Rightarrow> pong \<Rightarrow> nat" where
  "pong_left N s = par_left N (po_par s) + chi_left N (po_chi s)"

text \<open>Between the parent's write and its read there is one byte under way, unless the child is gone.\<close>

definition under_way :: "pong \<Rightarrow> nat" where
  "under_way s = po_p2c s + po_c2p s + (case po_chi s of Chi_write i \<Rightarrow> 1 | _ \<Rightarrow> 0)"

definition pong_inv :: "nat \<Rightarrow> pong \<Rightarrow> bool" where
  "pong_inv N s \<longleftrightarrow>
     (\<forall>i. po_par s = Par_read i \<longrightarrow> i < N \<and> (chi_open (po_chi s) \<longrightarrow> under_way s = 1)) \<and>
     (\<forall>i. po_par s = Par_write i \<longrightarrow> i \<le> N \<and> (chi_open (po_chi s) \<longrightarrow> under_way s = 0)) \<and>
     (\<forall>i. po_chi s = Chi_write i \<longrightarrow> i < N) \<and>
     (po_par s = Par_reaped \<longrightarrow> \<not> chi_open (po_chi s))"

lemma par_step_inv:
  assumes "par_step N ok s = Some t" "pong_inv N s"
  shows "pong_inv N t \<and> pong_left N t < pong_left N s"
proof (cases "po_par s")
  case (Par_write i)
  consider (finish) "\<not> i < N \<or> \<not> ok" | (kill) "i < N" "ok" "\<not> chi_open (po_chi s)" | (go) "i < N" "ok" "chi_open (po_chi s)" by blast
  then show ?thesis
  proof cases
    case finish
    then have "t = s\<lparr>po_par := Par_close\<rparr>" using assms(1) Par_write by (cases "i < N") (simp_all add: par_step_def)
    with assms(2) Par_write show ?thesis by (simp add: pong_inv_def pong_left_def par_left_def)
  next
    case kill
    then have "t = s\<lparr>po_par := Par_killed\<rparr>" using assms(1) Par_write by (simp add: par_step_def)
    with assms(2) Par_write show ?thesis by (simp add: pong_inv_def pong_left_def par_left_def)
  next
    case go
    then have "t = s\<lparr>po_p2c := po_p2c s + 1, po_par := Par_read i\<rparr>" using assms(1) Par_write by (simp add: par_step_def)
    with assms(2) Par_write go show ?thesis by (simp add: pong_inv_def pong_left_def par_left_def under_way_def)
  qed
next
  case (Par_read i)
  consider (reply) "ok" "0 < po_c2p s" | (finish) "\<not> ok \<or> \<not> chi_open (po_chi s) \<and> \<not> 0 < po_c2p s"
    using assms(1) Par_read by (auto simp: par_step_def split: if_splits)
  then show ?thesis
  proof cases
    case reply
    then have t: "t = s\<lparr>po_c2p := po_c2p s - 1, po_par := Par_write (i + 1)\<rparr>" using assms(1) Par_read by (simp add: par_step_def)
    have "i < N" using assms(2) Par_read by (simp add: pong_inv_def)
    then have "N - i = Suc (N - Suc i)" by simp
    with assms(2) Par_read reply t show ?thesis
      by (auto simp: pong_inv_def pong_left_def par_left_def under_way_def)
  next
    case finish
    then have "t = s\<lparr>po_par := Par_close\<rparr>" using assms(1) Par_read by (cases ok) (simp_all add: par_step_def)
    with assms(2) Par_read show ?thesis by (simp add: pong_inv_def pong_left_def par_left_def)
  qed
qed (use assms in \<open>auto simp: par_step_def pong_inv_def pong_left_def par_left_def split: if_splits\<close>)

lemma chi_step_inv:
  assumes "chi_step N ok s = Some t" "pong_inv N s"
  shows "pong_inv N t \<and> pong_left N t < pong_left N s"
proof (cases "po_chi s")
  case (Chi_read i)
  consider (go) "i < N" "ok" "0 < po_p2c s" | (finish) k where "t = s\<lparr>po_chi := Chi_exit k\<rparr>"
    using assms(1) Chi_read by (auto simp: chi_step_def split: if_splits)
  then show ?thesis
  proof cases
    case go
    then have "t = s\<lparr>po_p2c := po_p2c s - 1, po_chi := Chi_write i\<rparr>" using assms(1) Chi_read by (simp add: chi_step_def)
    with assms(2) Chi_read go show ?thesis by (auto simp: pong_inv_def pong_left_def chi_left_def under_way_def)
  next
    case finish
    with assms(2) Chi_read show ?thesis by (simp add: pong_inv_def pong_left_def chi_left_def)
  qed
next
  case (Chi_write i)
  have i: "i < N" using assms(2) Chi_write by (simp add: pong_inv_def)
  then have n: "N - i = Suc (N - Suc i)" by simp
  consider (go) "t = s\<lparr>po_c2p := po_c2p s + 1, po_chi := Chi_read (i + 1)\<rparr>" | (finish) c where "t = s\<lparr>po_chi := c\<rparr>" "\<not> chi_open c" "chi_left N c = 0"
    "\<forall>j. c \<noteq> Chi_write j"
    using assms(1) Chi_write by (fastforce simp: chi_step_def chi_left_def split: if_splits)
  then show ?thesis
  proof cases
    case go
    with assms(2) Chi_write n show ?thesis by (simp add: pong_inv_def pong_left_def chi_left_def under_way_def)
  next
    case finish
    with assms(2) Chi_write show ?thesis by (simp add: pong_inv_def pong_left_def chi_left_def)
  qed
qed (use assms in \<open>simp_all add: chi_step_def\<close>)

lemma pong_step_inv: "pong_step N faulty s t \<Longrightarrow> pong_inv N s \<Longrightarrow> pong_inv N t \<and> pong_left N t < pong_left N s"
  by (erule pong_step.cases) (blast dest: par_step_inv chi_step_inv)+

lemma pong_bound:
  "(pong_step N faulty ^^ k) pong_init s \<Longrightarrow> k + pong_left N s \<le> 6 * N + 8 \<and> pong_inv N s"
proof (induction k arbitrary: s)
  case 0
  then have "s = pong_init" by simp
  then show ?case by (simp add: pong_inv_def pong_init_def under_way_def pong_left_def par_left_def chi_left_def)
next
  case (Suc k)
  then obtain r where r: "(pong_step N faulty ^^ k) pong_init r" "pong_step N faulty r s" by auto
  from Suc.IH [OF r(1)] pong_step_inv [OF r(2)] show ?case by simp
qed

text \<open>A state in which nothing can move.\<close>

lemma pong_stuck:
  assumes "pong_inv N s" "\<not> (\<exists>t. pong_step N faulty s t)"
  shows "(po_par s = Par_reaped \<or> po_par s = Par_killed) \<and> \<not> chi_open (po_chi s)"
proof -
  have p: "par_step N True s = None" and c: "chi_step N True s = None"
    using assms(2) pong_par [of faulty True N s] pong_chi [of faulty True N s] by (metis not_None_eq)+
  have child: "\<exists>i. po_chi s = Chi_read i \<and> po_p2c s = 0 \<and> par_open (po_par s)" if "chi_open (po_chi s)"
    using that c by (cases "po_chi s") (simp_all add: chi_step_def split: if_splits)
  show ?thesis
  proof (cases "po_par s")
    case (Par_read i)
    then have o: "chi_open (po_chi s)" "po_c2p s = 0" using p by (simp_all add: par_step_def split: if_splits)
    with child have "under_way s = 0" by (auto simp: under_way_def)
    with assms(1) Par_read o(1) show ?thesis by (simp add: pong_inv_def)
  qed (use p child assms(1) in \<open>auto simp: par_step_def pong_inv_def split: if_splits\<close>)
qed

text \<open>Without failures the two processes are in step.\<close>

definition pong_ok :: "nat \<Rightarrow> pong \<Rightarrow> bool" where
  "pong_ok N s \<longleftrightarrow>
     (case po_par s of
        Par_write i \<Rightarrow> i \<le> N \<and> po_p2c s = 0 \<and> po_c2p s = 0 \<and> (po_chi s = Chi_read i \<or> i = N \<and> po_chi s = Chi_exit 0)
      | Par_read i \<Rightarrow> i < N \<and>
          (po_p2c s = 1 \<and> po_c2p s = 0 \<and> po_chi s = Chi_read i \<or> po_p2c s = 0 \<and> po_c2p s = 0 \<and> po_chi s = Chi_write i \<or>
           po_p2c s = 0 \<and> po_c2p s = 1 \<and> (po_chi s = Chi_read (i + 1) \<or> i + 1 = N \<and> po_chi s = Chi_exit 0))
      | Par_killed \<Rightarrow> False
      | p \<Rightarrow> po_p2c s = 0 \<and> po_c2p s = 0 \<and> (p \<noteq> Par_reaped \<and> po_chi s = Chi_read N \<or> po_chi s = Chi_exit 0))"

lemma pong_ok_step:
  assumes "pong_step N False s t" "pong_ok N s"
  shows "pong_ok N t"
  using assms(1)
proof cases
  case (pong_par ok)
  then have t: "t = the (par_step N True s)" and some: "par_step N True s \<noteq> None" by simp_all
  show ?thesis using some assms(2) unfolding t
    by (cases "po_par s") (auto simp: par_step_def pong_ok_def split: if_splits)
next
  case (pong_chi ok)
  then have t: "t = the (chi_step N True s)" and some: "chi_step N True s \<noteq> None" by simp_all
  show ?thesis using some assms(2) unfolding t
    by (cases "po_par s") (auto simp: chi_step_def pong_ok_def split: if_splits)
qed

lemma pong_ok_reach: "(pong_step N False ^^ k) pong_init s \<Longrightarrow> pong_ok N s"
  by (induction k arbitrary: s) (auto simp: pong_ok_def pong_init_def intro: pong_ok_step [unfolded pong_ok_def])

subsection \<open>Properties\<close>

text \<open>C35: Both ping-pongs end. The threads hand over the turn alternately in every interleaving, with
  spurious wake-ups, and from every reachable state the program can end: no wake-up is lost. At the
  end the worker has handed over once less than the main thread, as \<open>done\<close> is set before it can
  answer the last time. The processes take at most \<open>6 * N + 8\<close> system calls and come to an end,
  whichever calls fail: the child is gone, and the parent has reaped it or was killed by a
  signal. If none fails, the child exits with 0 and the parent reaps it.\<close>

theorem ping_pongs_end:
  "((ping_step N)\<^sup>*\<^sup>* ping_init s \<longrightarrow>
      main_turns N (pg_main s) = worker_turns (pg_worker s) + ahead (pg_turn s) \<and>
      (pg_main s = M_over \<longrightarrow> worker_turns (pg_worker s) = N - 1) \<and>
      (\<exists>t. (ping_step N)\<^sup>*\<^sup>* s t \<and> pg_main t = M_over)) \<and>
   ((pong_step N faulty ^^ k) pong_init p \<longrightarrow>
      k \<le> 6 * N + 8 \<and>
      (\<not> (\<exists>q. pong_step N faulty p q) \<longrightarrow>
         (po_par p = Par_reaped \<or> po_par p = Par_killed) \<and> \<not> chi_open (po_chi p) \<and>
         (\<not> faulty \<longrightarrow> po_par p = Par_reaped \<and> po_chi p = Chi_exit 0)))"
proof (intro conjI impI)
  assume "(ping_step N)\<^sup>*\<^sup>* ping_init s"
  then have inv: "ping_inv N s" by (rule ping_reach_inv)
  show t: "main_turns N (pg_main s) = worker_turns (pg_worker s) + ahead (pg_turn s)"
    using inv unfolding ping_inv_def by blast
  show "worker_turns (pg_worker s) = N - 1" if "pg_main s = M_over"
    using t inv that by (cases "pg_turn s") (auto simp: ping_inv_def)
  show "\<exists>t. (ping_step N)\<^sup>*\<^sup>* s t \<and> pg_main t = M_over" using ping_ends [OF inv] by blast
next
  assume run: "(pong_step N faulty ^^ k) pong_init p"
  with pong_bound show "k \<le> 6 * N + 8" by fastforce
  assume stuck: "\<not> (\<exists>q. pong_step N faulty p q)"
  have inv: "pong_inv N p" using pong_bound [OF run] by blast
  show e: "po_par p = Par_reaped \<or> po_par p = Par_killed" "\<not> chi_open (po_chi p)"
    using pong_stuck [OF inv stuck] by blast+
  assume "\<not> faulty"
  with run have "pong_ok N p" using pong_ok_reach by simp
  with e show "po_par p = Par_reaped" "po_chi p = Chi_exit 0" by (auto simp: pong_ok_def)
qed

lemma ping_pongs_end_witness:
  "(\<exists>t. (ping_step 3)\<^sup>*\<^sup>* ping_init t \<and> pg_main t = M_over) \<and> (0 :: nat) \<le> 6 * 3 + 8"
  using ping_pongs_end [where N = 3 and s = ping_init and faulty = False and k = 0 and p = pong_init] by simp

end
