(* ===== verification/Event_Io.thy ===== *)
theory Event_Io
  imports Latency_Connections "HOL-Library.Sublist"
begin

section \<open>A polling echo server\<close>

text \<open>
  \<open>topics/io/tcp_echo_server_nonblocking.cpp\<close>. What the system calls return is an input. The server removes a client by moving the last
  one into its place while it goes through the list, as \<open>v5\<close> of the latency servers does.
\<close>

subsection \<open>The echo server\<close>

datatype accept_result = New_client nat | No_client | Accept_failed

datatype recv_result = Received string | Closed | Try_again | Recv_failed

datatype send_result = Sent nat | Send_failed | Broken_pipe

text \<open>
  \<open>ec_in\<close> and \<open>ec_out\<close> are histories: what was received from a descriptor since it was accepted, and
  what was accepted for sending to it. \<open>ec_seen\<close> are the clients this pass has come to. A \<open>send\<close> to
  a connection that was reset raises \<open>SIGPIPE\<close>, which kills the server.
\<close>

record echo =
  ec_clients :: "nat list"
  ec_fds :: fds
  ec_running :: bool
  ec_killed :: bool
  ec_in :: "nat \<Rightarrow> string"
  ec_out :: "nat \<Rightarrow> string"
  ec_seen :: "nat list"

definition echo_start :: "nat \<Rightarrow> echo" where
  "echo_start listen_fd = \<lparr>ec_clients = [], ec_fds = \<lparr>fd_open = [listen_fd], fd_bad = False\<rparr>, ec_running = True,
     ec_killed = False, ec_in = (\<lambda>fd. []), ec_out = (\<lambda>fd. []), ec_seen = []\<rparr>"

definition echo_accept :: "accept_result \<Rightarrow> echo \<Rightarrow> echo" where
  "echo_accept a s = (case a of
      New_client fd \<Rightarrow> s\<lparr>ec_clients := ec_clients s @ [fd], ec_fds := open_fd fd (ec_fds s),
        ec_in := (ec_in s)(fd := []), ec_out := (ec_out s)(fd := [])\<rparr>
    | No_client \<Rightarrow> s
    | Accept_failed \<Rightarrow> s\<lparr>ec_running := False\<rparr>)"

definition echo_send :: "nat \<Rightarrow> string \<Rightarrow> send_result \<Rightarrow> echo \<Rightarrow> echo" where
  "echo_send fd buf r s = (case r of
      Sent m \<Rightarrow> s\<lparr>ec_out := (ec_out s)(fd := ec_out s fd @ take m buf)\<rparr>
    | Send_failed \<Rightarrow> s
    | Broken_pipe \<Rightarrow> s\<lparr>ec_killed := True\<rparr>)"

definition echo_remove :: "nat \<Rightarrow> echo \<Rightarrow> echo" where
  "echo_remove i s = s\<lparr>ec_fds := close_fd (ec_clients s ! i) (ec_fds s),
     ec_clients := butlast ((ec_clients s)[i := last (ec_clients s)])\<rparr>"

text \<open>\<open>clients[i]\<close> is asked; the second result is whether \<open>i\<close> goes up.\<close>

definition echo_visit :: "(nat \<Rightarrow> recv_result) \<Rightarrow> (nat \<Rightarrow> send_result) \<Rightarrow> nat \<Rightarrow> echo \<Rightarrow> echo \<times> bool" where
  "echo_visit rx tx i s =
     (let fd = ec_clients s ! i; s = s\<lparr>ec_seen := ec_seen s @ [fd]\<rparr> in
      case rx fd of
        Received buf \<Rightarrow> (echo_send fd buf (tx fd) (s\<lparr>ec_in := (ec_in s)(fd := ec_in s fd @ buf)\<rparr>), True)
      | Closed \<Rightarrow> (echo_remove i s, False)
      | Recv_failed \<Rightarrow> (echo_remove i s, False)
      | Try_again \<Rightarrow> (s, True))"

lemma echo_simps [simp]:
  "ec_clients (echo_send fd buf r s) = ec_clients s" "ec_seen (echo_send fd buf r s) = ec_seen s"
  "ec_fds (echo_send fd buf r s) = ec_fds s" "ec_running (echo_send fd buf r s) = ec_running s"
  "ec_in (echo_send fd buf r s) = ec_in s"
  "length (ec_clients (echo_remove i s)) = length (ec_clients s) - 1" "ec_seen (echo_remove i s) = ec_seen s"
  by (simp_all add: echo_send_def echo_remove_def split: send_result.splits)

function echo_scan :: "(nat \<Rightarrow> recv_result) \<Rightarrow> (nat \<Rightarrow> send_result) \<Rightarrow> nat \<Rightarrow> echo \<Rightarrow> echo" where
  "echo_scan rx tx i s =
     (if i < length (ec_clients s) \<and> \<not> ec_killed s then
        (case echo_visit rx tx i s of (s, up) \<Rightarrow> echo_scan rx tx (if up then i + 1 else i) s)
      else s)"
  by pat_completeness auto
termination
  by (relation "measure (\<lambda>(rx, tx, i, s). length (ec_clients s) - i)")
    (auto simp: echo_visit_def Let_def split: recv_result.splits)

declare echo_scan.simps [simp del]

definition echo_exit :: "nat \<Rightarrow> echo \<Rightarrow> echo" where
  "echo_exit listen_fd s = s\<lparr>ec_fds := close_fd listen_fd (fold close_fd (ec_clients s) (ec_fds s)), ec_running := False\<rparr>"

text \<open>One turn of the \<open>while\<close> loop; \<open>time_up\<close> is the test of the clock.\<close>

definition echo_turn :: "nat \<Rightarrow> accept_result \<Rightarrow> (nat \<Rightarrow> recv_result) \<Rightarrow> (nat \<Rightarrow> send_result) \<Rightarrow> bool \<Rightarrow> echo \<Rightarrow> echo" where
  "echo_turn listen_fd acc rx tx time_up s =
     (let s = echo_accept acc s in
      if acc = Accept_failed then echo_exit listen_fd s
      else let s = echo_scan rx tx 0 (s\<lparr>ec_seen := []\<rparr>) in
        if \<not> ec_killed s \<and> ec_clients s = [] \<and> time_up then echo_exit listen_fd s else s)"

text \<open>
  The kernel hands out a descriptor that is not open and never sends more than it was given. With
  \<open>full\<close>, every \<open>send\<close> takes the whole buffer.
\<close>

inductive echo_step :: "nat \<Rightarrow> bool \<Rightarrow> echo \<Rightarrow> echo \<Rightarrow> bool" for listen_fd :: nat and full :: bool where
  turn: "ec_running s \<Longrightarrow> \<not> ec_killed s \<Longrightarrow> (\<forall>fd. acc = New_client fd \<longrightarrow> fd \<notin> set (fd_open (ec_fds s))) \<Longrightarrow>
    (full \<longrightarrow> (\<forall>fd buf. rx fd = Received buf \<longrightarrow> tx fd = Sent (length buf))) \<Longrightarrow>
    echo_step listen_fd full s (echo_turn listen_fd acc rx tx time_up s)"

subsection \<open>What a turn does\<close>

definition echo_ok :: "nat \<Rightarrow> echo \<Rightarrow> bool" where
  "echo_ok l s \<longleftrightarrow> distinct (l # ec_clients s) \<and> set (fd_open (ec_fds s)) = set (l # ec_clients s) \<and> \<not> fd_bad (ec_fds s)"

text \<open>\<open>todo i s\<close>: the clients this pass has still to come to.\<close>

definition todo :: "nat \<Rightarrow> echo \<Rightarrow> nat list" where
  "todo i s = drop i (ec_clients s)"

lemma remove_clients:
  assumes "i < length xs" "distinct xs"
  shows "set (drop i (butlast (xs[i := last xs]))) = set (drop i xs) - {xs ! i}"
proof -
  have "drop i (butlast (xs[i := last xs])) = butlast ((drop i xs)[0 := last (drop i xs)])"
    using assms(1) by (simp add: drop_butlast drop_update_swap)
  with swap_remove_set(2) [of 0 "drop i xs"] assms show ?thesis by simp
qed

lemma echo_visit_ok:
  assumes "echo_ok l s" "i < length (ec_clients s)" "echo_visit rx tx i s = (t, up)"
  shows "echo_ok l t" "set (todo (if up then i + 1 else i) t) = set (todo i s) - {ec_clients s ! i}"
    "ec_seen t = ec_seen s @ [ec_clients s ! i]" "ec_running t = ec_running s"
proof -
  let ?fd = "ec_clients s ! i"
  have d: "distinct (ec_clients s)" and fd: "?fd \<in> set (ec_clients s)" using assms(1,2) by (simp_all add: echo_ok_def)
  have drop: "todo i s = ?fd # drop (i + 1) (ec_clients s)" using assms(2) by (simp add: todo_def Cons_nth_drop_Suc)
  then have stay: "set (drop (i + 1) (ec_clients s)) = set (todo i s) - {?fd}"
    using distinct_drop [OF d, of i] by (auto simp: todo_def)
  note rm = swap_remove_set [OF assms(2) d] remove_clients [OF assms(2) d]
  have all: "echo_ok l t \<and> set (todo (if up then i + 1 else i) t) = set (todo i s) - {?fd} \<and>
      ec_seen t = ec_seen s @ [?fd] \<and> ec_running t = ec_running s"
  proof (cases "rx ?fd")
    case (Received buf)
    with assms stay show ?thesis by (auto simp: echo_visit_def echo_ok_def todo_def Let_def)
  next
    case Try_again
    with assms stay show ?thesis by (auto simp: echo_visit_def echo_ok_def todo_def Let_def)
  next
    case Closed
    with assms rm fd show ?thesis by (auto simp: echo_visit_def echo_ok_def todo_def echo_remove_def Let_def)
  next
    case Recv_failed
    with assms rm fd show ?thesis by (auto simp: echo_visit_def echo_ok_def todo_def echo_remove_def Let_def)
  qed
  then show "echo_ok l t" "set (todo (if up then i + 1 else i) t) = set (todo i s) - {?fd}"
    "ec_seen t = ec_seen s @ [?fd]" "ec_running t = ec_running s" by simp_all
qed

lemma echo_scan_ok:
  assumes "echo_ok l s" "distinct (ec_seen s)" "set (ec_seen s) \<inter> set (todo i s) = {}"
  shows "echo_ok l (echo_scan rx tx i s) \<and> ec_running (echo_scan rx tx i s) = ec_running s \<and> distinct (ec_seen (echo_scan rx tx i s)) \<and>
    set (ec_seen (echo_scan rx tx i s)) \<subseteq> set (ec_seen s) \<union> set (todo i s) \<and>
    (ec_killed (echo_scan rx tx i s) \<or> set (ec_seen (echo_scan rx tx i s)) = set (ec_seen s) \<union> set (todo i s))"
  using assms
proof (induction rx tx i s rule: echo_scan.induct)
  case (1 rx tx i s)
  show ?case
  proof (cases "i < length (ec_clients s) \<and> \<not> ec_killed s")
    case False
    then have "echo_scan rx tx i s = s" by (subst echo_scan.simps) (simp only: if_False)
    moreover have "ec_killed s \<or> todo i s = []" using False by (auto simp: todo_def)
    ultimately show ?thesis using 1(2,3) by auto
  next
    case True
    obtain t up where v: "echo_visit rx tx i s = (t, up)" by (cases "echo_visit rx tx i s")
    have e: "echo_scan rx tx i s = echo_scan rx tx (if up then i + 1 else i) t" by (subst echo_scan.simps) (simp add: True v)
    note t = echo_visit_ok [OF 1(2) conjunct1 [OF True] v]
    have fd: "ec_clients s ! i \<in> set (todo i s)" using True by (simp add: todo_def Cons_nth_drop_Suc [symmetric])
    have "distinct (ec_seen t)" "set (ec_seen t) \<inter> set (todo (if up then i + 1 else i) t) = {}"
      using t(2,3) 1(3,4) fd by auto
    moreover have "set (ec_seen t) \<union> set (todo (if up then i + 1 else i) t) = set (ec_seen s) \<union> set (todo i s)"
      unfolding t(2,3) using fd by auto
    ultimately show ?thesis using 1(1) [OF True v [symmetric] t(1)] unfolding e t(4) by simp
  qed
qed

text \<open>What was sent back is what was received, but for the bytes a \<open>send\<close> did not take.\<close>

definition echoes :: "bool \<Rightarrow> echo \<Rightarrow> bool" where
  "echoes full s \<longleftrightarrow> (\<forall>fd. subseq (ec_out s fd) (ec_in s fd)) \<and>
     (full \<longrightarrow> \<not> ec_killed s \<and> (\<forall>fd. ec_out s fd = ec_in s fd))"

lemma subseq_take: "subseq (take m xs) xs"
  by (metis append_take_drop_id list_emb_append2 subseq_order.order_refl subseq_append_iff list_emb_Nil append_Nil2)

lemma echo_visit_echoes:
  assumes "echoes full s" "full \<Longrightarrow> \<forall>fd buf. rx fd = Received buf \<longrightarrow> tx fd = Sent (length buf)" "echo_visit rx tx i s = (t, up)"
  shows "echoes full t"
proof (cases "rx (ec_clients s ! i)")
  case (Received buf)
  let ?fd = "ec_clients s ! i"
  have t: "t = echo_send ?fd buf (tx ?fd) (s\<lparr>ec_seen := ec_seen s @ [?fd], ec_in := (ec_in s)(?fd := ec_in s ?fd @ buf)\<rparr>)"
    using assms(3) Received by (simp add: echo_visit_def Let_def)
  have sub: "subseq (ec_out s fd) (ec_in s fd)" for fd using assms(1) by (simp add: echoes_def)
  show ?thesis
  proof (cases "tx ?fd")
    case (Sent m)
    have "full \<longrightarrow> take m buf = buf" using assms(2) Received Sent by auto
    with sub assms(1) Sent show ?thesis unfolding t echoes_def
      by (auto simp: echo_send_def intro!: list_emb_append_mono subseq_take)
  next
    case Send_failed
    with assms(2) Received have "\<not> full" by auto
    with sub Send_failed show ?thesis unfolding t echoes_def
      by (auto simp: echo_send_def intro: subseq_order.trans [OF sub] list_emb_append2)
  next
    case Broken_pipe
    with assms(2) Received have "\<not> full" by auto
    with sub Broken_pipe show ?thesis unfolding t echoes_def
      by (auto simp: echo_send_def intro: subseq_order.trans [OF sub] list_emb_append2)
  qed
qed (use assms(1,3) in \<open>auto simp: echo_visit_def echo_remove_def echoes_def Let_def\<close>)

lemma echo_scan_echoes:
  assumes "echoes full s" "full \<Longrightarrow> \<forall>fd buf. rx fd = Received buf \<longrightarrow> tx fd = Sent (length buf)"
  shows "echoes full (echo_scan rx tx i s)"
  using assms
proof (induction rx tx i s rule: echo_scan.induct)
  case (1 rx tx i s)
  show ?case
  proof (cases "i < length (ec_clients s) \<and> \<not> ec_killed s")
    case False
    then have "echo_scan rx tx i s = s" by (subst echo_scan.simps) (simp only: if_False)
    with 1(2) show ?thesis by simp
  next
    case True
    obtain t up where v: "echo_visit rx tx i s = (t, up)" by (cases "echo_visit rx tx i s")
    have e: "echo_scan rx tx i s = echo_scan rx tx (if up then i + 1 else i) t" by (subst echo_scan.simps) (simp add: True v)
    show ?thesis unfolding e by (rule 1(1) [OF True v [symmetric] echo_visit_echoes [OF 1(2,3) v] 1(3)])
  qed
qed

lemma echo_accept_ok:
  assumes "echo_ok l s" "\<forall>fd. acc = New_client fd \<longrightarrow> fd \<notin> set (fd_open (ec_fds s))" "echoes full s"
  shows "echo_ok l (echo_accept acc s) \<and> echoes full (echo_accept acc s)"
  using assms by (cases acc) (auto simp: echo_accept_def echo_ok_def echoes_def)

lemma echo_exit_closes:
  assumes "echo_ok l s"
  shows "fd_open (ec_fds (echo_exit l s)) = [] \<and> \<not> fd_bad (ec_fds (echo_exit l s)) \<and> \<not> ec_running (echo_exit l s)"
  using assms close_all [of "ec_clients s" "ec_fds s"] by (auto simp: echo_exit_def echo_ok_def simp flip: set_empty)

definition echo_inv :: "nat \<Rightarrow> bool \<Rightarrow> echo \<Rightarrow> bool" where
  "echo_inv l full s \<longleftrightarrow> echoes full s \<and>
     (if ec_running s then echo_ok l s else fd_open (ec_fds s) = [] \<and> \<not> fd_bad (ec_fds s))"

lemma echo_exit_echoes: "echoes full s \<Longrightarrow> echoes full (echo_exit l s)"
  by (simp add: echoes_def echo_exit_def)

text \<open>A turn comes to every client once, those included that are moved while it goes on.\<close>

lemma echo_turn_inv:
  assumes "echo_step l full s t" "echo_inv l full s"
  shows "echo_inv l full t"
  using assms(1)
proof cases
  case (turn acc rx tx time_up)
  define s1 where "s1 = echo_accept acc s"
  define s2 where "s2 = echo_scan rx tx 0 (s1\<lparr>ec_seen := []\<rparr>)"
  have s: "echo_ok l s" "echoes full s" using assms(2) turn(2) by (simp_all add: echo_inv_def)
  have 1: "echo_ok l s1" "echoes full s1" using echo_accept_ok [OF s(1) turn(4) s(2)] by (simp_all add: s1_def)
  show ?thesis
  proof (cases "acc = Accept_failed")
    case True
    then have "t = echo_exit l s1" by (simp add: turn(1) echo_turn_def s1_def)
    with echo_exit_closes [OF 1(1)] echo_exit_echoes [OF 1(2)] show ?thesis by (simp add: echo_inv_def)
  next
    case False
    then have run: "ec_running s1" using turn(2) by (cases acc) (simp_all add: s1_def echo_accept_def)
    have "echo_ok l (s1\<lparr>ec_seen := []\<rparr>)" "echoes full (s1\<lparr>ec_seen := []\<rparr>)" using 1 by (simp_all add: echo_ok_def echoes_def)
    with echo_scan_ok [of l "s1\<lparr>ec_seen := []\<rparr>" 0 rx tx] echo_scan_echoes [of full "s1\<lparr>ec_seen := []\<rparr>" rx tx 0] turn(5) run
    have 2: "echo_ok l s2" "echoes full s2" "ec_running s2" by (simp_all add: s2_def)
    have "t = (if \<not> ec_killed s2 \<and> ec_clients s2 = [] \<and> time_up then echo_exit l s2 else s2)"
      using False by (simp add: turn(1) echo_turn_def s1_def s2_def Let_def)
    with 2 echo_exit_closes [OF 2(1)] echo_exit_echoes [OF 2(2)] show ?thesis by (simp add: echo_inv_def)
  qed
qed

lemma echo_reach:
  assumes "(echo_step l full)\<^sup>*\<^sup>* (echo_start l) s"
  shows "echo_inv l full s"
proof (rule reach_keeps [where step = "echo_step l full" and I = "echo_inv l full", OF assms])
  show "echo_inv l full (echo_start l)" by (simp add: echo_inv_def echo_start_def echo_ok_def echoes_def)
qed (rule echo_turn_inv)

subsection \<open>Properties\<close>

lemma echo_scan_end: "length (ec_clients s) \<le> i \<Longrightarrow> echo_scan rx tx i s = s"
  by (subst echo_scan.simps) simp

lemma echo_scan_next:
  "i < length (ec_clients s) \<Longrightarrow> \<not> ec_killed s \<Longrightarrow> echo_visit rx tx i s = (t, True) \<Longrightarrow>
   echo_scan rx tx i s = echo_scan rx tx (i + 1) t"
  by (subst echo_scan.simps) simp

lemma short_send_loses:
  "\<exists>t. (echo_step l False)\<^sup>*\<^sup>* (echo_start l) t \<and> l + 1 \<in> set (ec_clients t) \<and>
     ec_in t (l + 1) = ''hello'' \<and> ec_out t (l + 1) = ''he''"
proof -
  let ?rx = "\<lambda>fd :: nat. Received ''hello''" and ?tx = "\<lambda>fd :: nat. Sent 2"
  define s1 where "s1 = (echo_accept (New_client (l + 1)) (echo_start l))\<lparr>ec_seen := []\<rparr>"
  define t where "t = fst (echo_visit ?rx ?tx 0 s1)"
  have s1: "ec_clients s1 = [l + 1]" "\<not> ec_killed s1" "ec_in s1 (l + 1) = []" "ec_out s1 (l + 1) = []"
    by (simp_all add: s1_def echo_accept_def echo_start_def)
  then have v: "echo_visit ?rx ?tx 0 s1 = (t, True)" by (simp add: t_def echo_visit_def Let_def)
  then have t: "ec_clients t = [l + 1]" "ec_in t (l + 1) = ''hello''" "ec_out t (l + 1) = ''he''"
    using s1 by (auto simp: echo_visit_def echo_send_def Let_def)
  have "echo_scan ?rx ?tx 0 s1 = t" using echo_scan_next [OF _ s1(2) v] echo_scan_end [of t 1] s1(1) t(1) by simp
  then have "echo_turn l (New_client (l + 1)) ?rx ?tx False (echo_start l) = t" by (simp add: echo_turn_def s1_def Let_def)
  moreover have "echo_step l False (echo_start l) (echo_turn l (New_client (l + 1)) ?rx ?tx False (echo_start l))"
    by (rule echo_step.turn) (simp_all add: echo_start_def)
  ultimately show ?thesis using t by (intro exI [of _ t]) auto
qed

text \<open>C36: The echo server keeps its clients: in every reachable state the open descriptors are the
  listening socket and the clients, each once, no descriptor is closed that is not open, and when
  the loop has been left all are closed. A turn comes to every client exactly once, although
  clients are moved while it goes on, unless \<open>SIGPIPE\<close> kills the server. What is sent to a client is
  what was received from it as long as every \<open>send\<close> takes the whole buffer; otherwise bytes are
  missing, since the result of \<open>send\<close> is not looked at.\<close>

theorem echo_server:
  "((echo_step l full)\<^sup>*\<^sup>* (echo_start l) s \<longrightarrow>
      (if ec_running s then distinct (l # ec_clients s) \<and> set (fd_open (ec_fds s)) = set (l # ec_clients s)
       else fd_open (ec_fds s) = []) \<and> \<not> fd_bad (ec_fds s) \<and>
      (\<forall>fd. subseq (ec_out s fd) (ec_in s fd)) \<and> (full \<longrightarrow> \<not> ec_killed s \<and> (\<forall>fd. ec_out s fd = ec_in s fd)) \<and>
      (ec_running s \<longrightarrow> (let t = echo_scan rx tx 0 (s\<lparr>ec_seen := []\<rparr>) in
         distinct (ec_seen t) \<and> (ec_killed t \<or> set (ec_seen t) = set (ec_clients s))))) \<and>
   (\<exists>t. (echo_step l False)\<^sup>*\<^sup>* (echo_start l) t \<and> l + 1 \<in> set (ec_clients t) \<and>
      ec_in t (l + 1) = ''hello'' \<and> ec_out t (l + 1) = ''he'')"
proof (intro conjI impI short_send_loses)
  assume "(echo_step l full)\<^sup>*\<^sup>* (echo_start l) s"
  then have inv: "echo_inv l full s" by (rule echo_reach)
  then show "if ec_running s then distinct (l # ec_clients s) \<and> set (fd_open (ec_fds s)) = set (l # ec_clients s)
      else fd_open (ec_fds s) = []" "\<not> fd_bad (ec_fds s)"
    by (simp_all add: echo_inv_def echo_ok_def split: if_splits)
  show "\<forall>fd. subseq (ec_out s fd) (ec_in s fd)" using inv by (simp add: echo_inv_def echoes_def)
  show "\<not> ec_killed s" "\<forall>fd. ec_out s fd = ec_in s fd" if full
    using inv that by (simp_all add: echo_inv_def echoes_def)
  assume "ec_running s"
  with inv have "echo_ok l (s\<lparr>ec_seen := []\<rparr>)" by (simp add: echo_inv_def echo_ok_def)
  from echo_scan_ok [OF this, of 0 rx tx]
  show "let t = echo_scan rx tx 0 (s\<lparr>ec_seen := []\<rparr>)
    in distinct (ec_seen t) \<and> (ec_killed t \<or> set (ec_seen t) = set (ec_clients s))"
    by (simp add: Let_def todo_def)
qed

lemma echo_server_witness:
  "set (fd_open (ec_fds (echo_start 3))) = {3} \<and> ec_running (echo_start 3)"
  using echo_server [of 3 True "echo_start 3"] by (simp add: echo_start_def)

end
