(* ===== verification/Token_Bucket.thy ===== *)
theory Token_Bucket
  imports Prelude Complex_Main
begin

section \<open>\<open>TokenBucket\<close> (\<open>topics/io/rate_limiter_token_bucket.cpp\<close>)\<close>

text \<open>
  A rate limiter. Its \<open>double\<close> members are real numbers, and every operation on them is the exact
  one followed by a rounding \<open>rnd\<close>, a parameter of which the lemmas use that it is monotone, keeps
  0, and exceeds a number that is not negative by a relative error of at most \<open>u\<close>; rounding to the
  nearest \<open>double\<close> is of this kind with \<open>u = 2 ^ (- 53)\<close> as long as nothing overflows or underflows.
  Clock readings are nanoseconds and inputs. An operation holds the mutex, so it is one step.
\<close>

subsection \<open>Operations\<close>

record token_bucket =
  tb_rate :: real
  tb_capacity :: real
  tb_tokens :: real
  tb_last_refill :: int

definition tb_new :: "real \<Rightarrow> real \<Rightarrow> int \<Rightarrow> token_bucket" where
  "tb_new rate_per_sec burst_size now = \<lparr>tb_rate = rate_per_sec, tb_capacity = burst_size, tb_tokens = burst_size, tb_last_refill = now\<rparr>"

text \<open>\<open>std::chrono::duration<double>(t - last_refill_).count()\<close>\<close>

definition tb_elapsed :: "(real \<Rightarrow> real) \<Rightarrow> int \<Rightarrow> token_bucket \<Rightarrow> real" where
  "tb_elapsed rnd t b = rnd (rnd (of_int (t - tb_last_refill b)) / 10 ^ 9)"

definition tb_refill :: "(real \<Rightarrow> real) \<Rightarrow> int \<Rightarrow> token_bucket \<Rightarrow> token_bucket" where
  "tb_refill rnd t b =
     b\<lparr>tb_tokens := min (tb_capacity b) (rnd (tb_tokens b + rnd (tb_elapsed rnd t b * tb_rate b))), tb_last_refill := t\<rparr>"

definition tb_try_consume :: "(real \<Rightarrow> real) \<Rightarrow> int \<Rightarrow> token_bucket \<Rightarrow> token_bucket \<times> bool" where
  "tb_try_consume rnd t b =
     (let b = tb_refill rnd t b
      in if 1 \<le> tb_tokens b then (b\<lparr>tb_tokens := rnd (tb_tokens b - 1)\<rparr>, True) else (b, False))"

text \<open>One request for each clock reading, as in the loops of \<open>main\<close>; the answers are in order.\<close>

fun tb_requests :: "(real \<Rightarrow> real) \<Rightarrow> int list \<Rightarrow> token_bucket \<Rightarrow> token_bucket \<times> bool list" where
  "tb_requests rnd [] b = (b, [])"
| "tb_requests rnd (t # ts) b =
     (case tb_try_consume rnd t b of (b, ok) \<Rightarrow> case tb_requests rnd ts b of (b, oks) \<Rightarrow> (b, ok # oks))"

definition accepted :: "bool list \<Rightarrow> nat" where
  "accepted oks = length (filter id oks)"

lemma accepted_simps [simp]: "accepted [] = 0" "accepted (ok # oks) = of_bool ok + accepted oks"
  by (simp_all add: accepted_def)

text \<open>The benchmark without a clock: \<open>fetch_sub\<close> on \<open>std::atomic<long long>\<close>.\<close>

fun atomic_decrement :: "nat \<Rightarrow> int \<Rightarrow> nat" where
  "atomic_decrement 0 tokens = 0"
| "atomic_decrement (Suc n) tokens = (if 0 < tokens then 1 else 0) + atomic_decrement n (tokens - 1)"

lemma atomic_decrement_all: "int n \<le> tokens \<Longrightarrow> atomic_decrement n tokens = n"
  by (induction n arbitrary: tokens) auto

subsection \<open>Bounds\<close>

definition rounding :: "real \<Rightarrow> (real \<Rightarrow> real) \<Rightarrow> bool" where
  "rounding u rnd \<longleftrightarrow> 0 \<le> u \<and> mono rnd \<and> rnd 0 = 0 \<and> (\<forall>x \<ge> 0. rnd x \<le> (1 + u) * x)"

lemma roundingD:
  assumes "rounding u rnd" "0 \<le> x"
  shows "0 \<le> rnd x" "rnd x \<le> (1 + u) * x"
  using assms monoD [of rnd 0 x] by (auto simp: rounding_def)

text \<open>The capacity is a \<open>double\<close>, so rounding leaves it as it is.\<close>

definition tb_ok :: "(real \<Rightarrow> real) \<Rightarrow> token_bucket \<Rightarrow> bool" where
  "tb_ok rnd b \<longleftrightarrow> rnd (tb_capacity b) = tb_capacity b \<and> 0 \<le> tb_rate b \<and> 0 \<le> tb_tokens b \<and> tb_tokens b \<le> tb_capacity b"

text \<open>Seconds between two readings.\<close>

definition seconds :: "int \<Rightarrow> int \<Rightarrow> real" where
  "seconds s t = of_int (t - s) / 10 ^ 9"

lemma elapsed_bounds:
  assumes "rounding u rnd" "tb_last_refill b \<le> t"
  shows "0 \<le> tb_elapsed rnd t b" "tb_elapsed rnd t b \<le> (1 + u)\<^sup>2 * seconds (tb_last_refill b) t"
proof -
  have d: "0 \<le> real_of_int (t - tb_last_refill b)" using assms(2) by simp
  note r = roundingD [OF assms(1) d]
  have q: "0 \<le> rnd (of_int (t - tb_last_refill b)) / 10 ^ 9" using r(1) by simp
  then show "0 \<le> tb_elapsed rnd t b" unfolding tb_elapsed_def by (rule roundingD [OF assms(1)])
  have u: "0 \<le> 1 + u" using assms(1) by (simp add: rounding_def)
  have "tb_elapsed rnd t b \<le> (1 + u) * (rnd (of_int (t - tb_last_refill b)) / 10 ^ 9)"
    unfolding tb_elapsed_def by (rule roundingD [OF assms(1) q])
  also have "\<dots> \<le> (1 + u) * (((1 + u) * of_int (t - tb_last_refill b)) / 10 ^ 9)"
    by (rule mult_left_mono [OF divide_right_mono [OF r(2)] u]) simp
  finally show "tb_elapsed rnd t b \<le> (1 + u)\<^sup>2 * seconds (tb_last_refill b) t"
    by (simp add: seconds_def power2_eq_square mult.assoc)
qed

lemma refill_bounds:
  assumes "rounding u rnd" "tb_ok rnd b" "tb_last_refill b \<le> t"
  shows "tb_ok rnd (tb_refill rnd t b)"
    "tb_tokens (tb_refill rnd t b) \<le> tb_tokens b + u * tb_capacity b + (1 + u) ^ 4 * tb_rate b * seconds (tb_last_refill b) t"
proof -
  have b: "0 \<le> tb_rate b" "0 \<le> tb_tokens b" "tb_tokens b \<le> tb_capacity b" using assms(2) by (simp_all add: tb_ok_def)
  have u: "0 \<le> u" "0 \<le> 1 + u" using assms(1) by (simp_all add: rounding_def)
  note el = elapsed_bounds [OF assms(1,3)]
  define inc where "inc = rnd (tb_elapsed rnd t b * tb_rate b)"
  have p: "0 \<le> tb_elapsed rnd t b * tb_rate b" using el(1) b(1) by simp
  have inc: "0 \<le> inc" "inc \<le> (1 + u) * (tb_elapsed rnd t b * tb_rate b)"
    unfolding inc_def by (rule roundingD [OF assms(1) p])+
  have s: "0 \<le> tb_tokens b + inc" using b(2) inc(1) by simp
  have tok: "tb_tokens (tb_refill rnd t b) = min (tb_capacity b) (rnd (tb_tokens b + inc))"
    by (simp add: tb_refill_def inc_def)
  show "tb_ok rnd (tb_refill rnd t b)"
    using b assms(2) roundingD(1) [OF assms(1) s] tok by (auto simp: tb_ok_def tb_refill_def)
  have "rnd (tb_tokens b + inc) \<le> (1 + u) * (tb_tokens b + inc)" by (rule roundingD [OF assms(1) s])
  also have "\<dots> = tb_tokens b + u * tb_tokens b + (1 + u) * inc" by (simp add: algebra_simps)
  also have "u * tb_tokens b \<le> u * tb_capacity b" by (rule mult_left_mono [OF b(3) u(1)])
  also have "(1 + u) * inc \<le> (1 + u) * ((1 + u) * (((1 + u)\<^sup>2 * seconds (tb_last_refill b) t) * tb_rate b))"
    by (rule mult_left_mono [OF order_trans [OF inc(2) mult_left_mono [OF mult_right_mono [OF el(2) b(1)] u(2)]] u(2)])
  also have "\<dots> = (1 + u) ^ 4 * tb_rate b * seconds (tb_last_refill b) t"
    by (simp add: power4_eq_xxxx power2_eq_square algebra_simps)
  finally show "tb_tokens (tb_refill rnd t b) \<le> tb_tokens b + u * tb_capacity b + (1 + u) ^ 4 * tb_rate b * seconds (tb_last_refill b) t"
    unfolding tok by simp
qed

lemma consume_bounds:
  assumes "rounding u rnd" "tb_ok rnd b" "tb_last_refill b \<le> t" "tb_try_consume rnd t b = (c, ok)"
  shows "tb_ok rnd c" "tb_capacity c = tb_capacity b" "tb_rate c = tb_rate b" "tb_last_refill c = t"
    "of_bool ok + tb_tokens c \<le> tb_tokens b + 2 * u * tb_capacity b + (1 + u) ^ 4 * tb_rate b * seconds (tb_last_refill b) t"
proof -
  define r where "r = tb_refill rnd t b"
  note r = refill_bounds [OF assms(1-3), folded r_def]
  have c: "c = (if 1 \<le> tb_tokens r then r\<lparr>tb_tokens := rnd (tb_tokens r - 1)\<rparr> else r)" "ok = (1 \<le> tb_tokens r)"
    using assms(4) by (auto simp: tb_try_consume_def r_def Let_def split: if_splits)
  have k: "tb_capacity r = tb_capacity b" "tb_rate r = tb_rate b" "tb_last_refill r = t" by (simp_all add: r_def tb_refill_def)
  then show "tb_capacity c = tb_capacity b" "tb_rate c = tb_rate b" "tb_last_refill c = t" by (simp_all add: c)
  have u: "0 \<le> u" and cap: "0 \<le> tb_capacity b" using assms(1,2) by (auto simp: rounding_def tb_ok_def)
  have uc: "0 \<le> u * tb_capacity b" using u cap by simp
  show "tb_ok rnd c" and "of_bool ok + tb_tokens c \<le> tb_tokens b + 2 * u * tb_capacity b + (1 + u) ^ 4 * tb_rate b * seconds (tb_last_refill b) t"
  proof (atomize (full), cases "1 \<le> tb_tokens r")
    case True
    then have s: "0 \<le> tb_tokens r - 1" by simp
    have le: "tb_tokens r - 1 \<le> tb_capacity b" and rcap: "rnd (tb_capacity b) = tb_capacity b"
      using r(1) k(1) by (simp_all add: tb_ok_def)
    have "rnd (tb_tokens r - 1) \<le> rnd (tb_capacity b)" using assms(1) le by (auto simp: rounding_def intro: monoD)
    then have "tb_ok rnd c" using True r(1) k rcap roundingD(1) [OF assms(1) s] by (simp add: tb_ok_def c)
    moreover have "u * (tb_tokens r - 1) \<le> u * tb_capacity b" by (rule mult_left_mono [OF le u])
    then have "rnd (tb_tokens r - 1) \<le> tb_tokens r - 1 + u * tb_capacity b"
      using roundingD(2) [OF assms(1) s] by (simp add: algebra_simps)
    ultimately show "tb_ok rnd c \<and> of_bool ok + tb_tokens c \<le> tb_tokens b + 2 * u * tb_capacity b +
        (1 + u) ^ 4 * tb_rate b * seconds (tb_last_refill b) t"
      using True r(2) by (simp add: c)
  next
    case False
    with r k uc show "tb_ok rnd c \<and> of_bool ok + tb_tokens c \<le> tb_tokens b + 2 * u * tb_capacity b + (1 + u) ^ 4 * tb_rate b * seconds (tb_last_refill b) t"
      by (simp add: c)
  qed
qed

lemma requests_bounds:
  assumes "rounding u rnd" "tb_ok rnd b" "sorted (tb_last_refill b # ts)" "tb_requests rnd ts b = (c, oks)"
  shows "tb_ok rnd c \<and> length oks = length ts \<and>
    real (accepted oks) + tb_tokens c \<le> tb_tokens b + 2 * u * tb_capacity b * length ts +
      (1 + u) ^ 4 * tb_rate b * seconds (tb_last_refill b) (last (tb_last_refill b # ts))"
  using assms(2-)
proof (induction ts arbitrary: b oks)
  case Nil
  then show ?case by (simp add: seconds_def)
next
  case (Cons t ts)
  obtain d ok where d: "tb_try_consume rnd t b = (d, ok)" by (cases "tb_try_consume rnd t b")
  obtain oks' where o: "tb_requests rnd ts d = (c, oks')" "oks = ok # oks'"
    using Cons.prems(3) d by (auto split: prod.splits)
  have "tb_last_refill b \<le> t" using Cons.prems(2) by simp
  note b = consume_bounds [OF assms(1) Cons.prems(1) this d]
  have "sorted (tb_last_refill d # ts)" using Cons.prems(2) b(4) by simp
  from Cons.IH [OF b(1) this o(1)] have ih: "tb_ok rnd c" "length oks' = length ts"
    "real (accepted oks') + tb_tokens c \<le> tb_tokens d + 2 * u * tb_capacity b * length ts +
      (1 + u) ^ 4 * tb_rate b * seconds t (last (t # ts))" by (simp_all add: b(2-4))
  have "seconds (tb_last_refill b) t + seconds t (last (t # ts)) = seconds (tb_last_refill b) (last (t # ts))"
    by (simp add: seconds_def diff_divide_distrib)
  then have "(1 + u) ^ 4 * tb_rate b * seconds (tb_last_refill b) t + (1 + u) ^ 4 * tb_rate b * seconds t (last (t # ts)) =
      (1 + u) ^ 4 * tb_rate b * seconds (tb_last_refill b) (last (t # ts))"
    by (simp only: distrib_left [symmetric])
  with ih b(5) o(2) show ?case by (simp add: algebra_simps)
qed

lemma small_bucket:
  assumes "tb_capacity b < 1" "tb_requests rnd ts b = (c, oks)"
  shows "accepted oks = 0"
  using assms
proof (induction ts arbitrary: b oks)
  case (Cons t ts)
  have "tb_try_consume rnd t b = (tb_refill rnd t b, False)" using Cons.prems(1) by (simp add: tb_try_consume_def tb_refill_def)
  with Cons.prems(2) obtain oks' where "tb_requests rnd ts (tb_refill rnd t b) = (c, oks')" "oks = False # oks'"
    by (auto split: prod.splits)
  with Cons.IH [of "tb_refill rnd t b" oks'] Cons.prems(1) show ?case by (simp add: tb_refill_def)
qed simp

lemma full_bucket:
  assumes "rounding u rnd" "tb_ok rnd b" "1 \<le> tb_capacity b" "tb_capacity b \<le> tb_elapsed rnd t b * tb_rate b"
  shows "snd (tb_try_consume rnd t b)"
proof -
  have mono: "x \<le> y \<Longrightarrow> rnd x \<le> rnd y" for x y using assms(1) by (auto simp: rounding_def intro: monoD)
  have cap: "rnd (tb_capacity b) = tb_capacity b" "0 \<le> tb_tokens b" using assms(2) by (simp_all add: tb_ok_def)
  have "tb_capacity b \<le> tb_tokens b + rnd (tb_elapsed rnd t b * tb_rate b)"
    using mono [OF assms(4)] cap by simp
  from mono [OF this] have "tb_tokens (tb_refill rnd t b) = tb_capacity b" by (simp add: tb_refill_def cap(1))
  with assms(3) show ?thesis by (simp add: tb_try_consume_def)
qed

subsection \<open>Properties\<close>

text \<open>C37: The rate limiter keeps its promise. In any sequence of requests at clock readings that do
  not go back, the number of accepted ones is at most the burst size plus the rate times the time
  that passed, up to the rounding of the arithmetic, \<open>2 * u\<close> of the capacity for each request and
  a factor \<open>(1 + u) ^ 4\<close> of the refill; the tokens stay between 0 and the capacity; a request
  after a pause that fills the bucket is accepted. A bucket with a burst size below 1 accepts none.\<close>

theorem token_bucket_limits:
  assumes "rounding u rnd" "rnd burst = burst" "0 \<le> rate" "0 \<le> burst" "sorted (t0 # ts)"
    "tb_requests rnd ts (tb_new rate burst t0) = (b, oks)"
  shows "real (accepted oks) \<le> burst + 2 * u * burst * length ts + (1 + u) ^ 4 * rate * seconds t0 (last (t0 # ts)) \<and>
    length oks = length ts \<and> 0 \<le> tb_tokens b \<and> tb_tokens b \<le> burst \<and>
    (1 \<le> burst \<and> burst \<le> tb_elapsed rnd t b * rate \<longrightarrow> snd (tb_try_consume rnd t b)) \<and>
    (burst < 1 \<longrightarrow> accepted oks = 0)"
proof -
  have new: "tb_ok rnd (tb_new rate burst t0)" using assms(2-4) by (simp add: tb_ok_def tb_new_def)
  have "sorted (tb_last_refill (tb_new rate burst t0) # ts)" using assms(5) by (simp add: tb_new_def)
  note r = requests_bounds [OF assms(1) new this assms(6)]
  have "tb_capacity c = tb_capacity a \<and> tb_rate c = tb_rate a" if "tb_requests rnd ts a = (c, oks)" for ts a c oks
    using that
  proof (induction ts arbitrary: a oks)
    case (Cons t ts)
    then show ?case by (auto simp: tb_try_consume_def tb_refill_def Let_def split: prod.splits if_splits)
  qed simp
  from this [OF assms(6)] have k: "tb_capacity b = burst" "tb_rate b = rate" by (simp_all add: tb_new_def)
  have ok: "tb_ok rnd b" using r by simp
  have "burst < 1 \<longrightarrow> accepted oks = 0" using small_bucket [OF _ assms(6)] by (simp add: tb_new_def)
  moreover have "1 \<le> burst \<and> burst \<le> tb_elapsed rnd t b * rate \<longrightarrow> snd (tb_try_consume rnd t b)"
    using full_bucket [OF assms(1) ok] k by simp
  ultimately show ?thesis using r ok k by (simp add: tb_ok_def tb_new_def)
qed

lemma token_bucket_limits_witness:
  "accepted (snd (tb_requests (\<lambda>x. x) [0, 0, 0, 500000000] (tb_new 2 2 0))) = 3 \<and>
   real (accepted (snd (tb_requests (\<lambda>x. x) [0, 0, 0, 500000000] (tb_new 2 2 0)))) \<le> 2 + 2 * seconds 0 500000000"
proof -
  have id: "rounding 0 (\<lambda>x. x)" by (simp add: rounding_def monoI)
  define r where "r = tb_requests (\<lambda>x. x) [0, 0, 0, 500000000] (tb_new 2 2 0)"
  have "accepted (snd r) = 3"
    by (simp add: r_def tb_new_def tb_try_consume_def tb_refill_def tb_elapsed_def accepted_def Let_def)
  moreover have "real (accepted (snd r)) \<le> 2 + 2 * seconds 0 500000000"
    using token_bucket_limits [where u = 0 and rnd = "\<lambda>x. x" and burst = 2 and rate = 2 and t0 = 0
      and ts = "[0, 0, 0, 500000000]" and b = "fst r" and oks = "snd r", OF id] by (simp add: r_def)
  ultimately show ?thesis by (simp add: r_def)
qed

end
