(* ===== verification/Demo_Programs.thy ===== *)
theory Demo_Programs
  imports Lru_Cache Timer_Wheel Open_Hash Pools Order_Book
begin

section \<open>Programs over one data structure\<close>

text \<open>
  The \<open>main\<close> functions of the cache, the timer wheel, the hash table, the two pools and the order
  book, with their benchmarks. The value of a program is what it prints, that of a benchmark what
  it reads and the state it leaves; timing is left out. The number of operations of a benchmark is
  the parameter \<open>n\<close>, so the theorems do not depend on it. \<open>None\<close> is an operation without a result.
\<close>

named_theorems program_defs \<open>definitions of the programs\<close>

definition value_or :: "'a option \<Rightarrow> 'a \<Rightarrow> 'a" where [program_defs]:
  "value_or x d = (case x of None \<Rightarrow> d | Some v \<Rightarrow> v)"

subsection \<open>\<open>lru_cache.cpp\<close>\<close>

definition lru_main :: "string list option" where [program_defs]:
  "lru_main =
     Option.bind (lru_put 1 ''one'' (lru_new 3)) (\<lambda>cache.
     Option.bind (lru_put 2 ''two'' cache) (\<lambda>cache.
     Option.bind (lru_put (3 :: int) ''three'' cache) (\<lambda>cache.
     let (r1, cache) = lru_get 1 cache in
     Option.bind (lru_put 4 ''four'' cache) (\<lambda>cache.
     let (r2, cache) = lru_get 2 cache; (r3, cache) = lru_get 1 cache; (r4, cache) = lru_get 4 cache
     in Some [value_or r1 ''?'', if r2 = None then ''miss'' else ''hit'', value_or r3 ''?'', value_or r4 ''?'']))))"

text \<open>The benchmark uses \<open>k = 512\<close> keys; its loop counter is an \<open>int\<close> that is not negative.\<close>

fun lru_bench :: "nat \<Rightarrow> nat \<Rightarrow> (nat, nat) lru \<Rightarrow> (nat option list \<times> (nat, nat) lru) option" where
  "lru_bench k 0 cb = Some ([], cb)"
| "lru_bench k (Suc i) cb =
     Option.bind (lru_bench k i cb) (\<lambda>(rs, cb).
     Option.bind (lru_put (i mod k) i cb) (\<lambda>cb.
     let (r, cb) = lru_get (i mod k) cb in Some (rs @ [r], cb)))"

lemma lru_main_prints: "lru_main = Some [''one'', ''miss'', ''one'', ''four'']"
  by (simp add: program_defs lru_new_def lru_put_def lru_get_def Let_def splice_front_def node_value_def)

text \<open>A value that was just put is found, and getting it changes nothing.\<close>

lemma spec_get_put: "spec_get k (spec_put cap k v xs) = (Some v, spec_put cap k v xs)" if "0 < cap"
  using that by (simp add: spec_put_def spec_get_def take_Cons' filter_key_absent) (auto simp: filter_empty_conv dest: in_set_takeD intro!: filter_True)


lemma spec_put_keys:
  assumes "0 < cap" "distinct (map fst xs)" "fst ` set xs \<subseteq> {..<m}" "k < m" "m \<le> cap"
  shows "fst ` set (spec_put cap k v xs) = insert k (fst ` set xs)"
proof -
  define ys where "ys = filter (\<lambda>(q, w). q \<noteq> k) xs"
  have ys: "fst ` set ys = fst ` set xs - {k}" by (force simp: ys_def)
  have "distinct (map fst ys)" unfolding ys_def using assms(2) by (simp add: distinct_map_filter)
  then have "length ys = card (fst ` set ys)" by (metis distinct_card length_map set_map)
  also have "\<dots> \<le> card ({..<m} - {k})" unfolding ys by (rule card_mono) (use assms(3) in auto)
  finally have "length ys < cap" using assms(4,5) by simp
  with assms(1) have "spec_put cap k v xs = (k, v) # ys" by (simp add: spec_put_def ys_def)
  with ys show ?thesis by auto
qed

text \<open>With room for all keys, every \<open>get\<close> of the benchmark hits, with the value just put.\<close>

lemma lru_bench_hits:
  assumes "0 < k" "k \<le> capacity"
  shows "\<exists>cb. lru_bench k n (lru_new capacity) = Some (map Some [0..<n], cb) \<and> lru_ok cb \<and> lru_cap cb = capacity \<and>
    fst ` set (contents cb) = {..<min n k}"
proof (induction n)
  case 0
  show ?case by (simp add: lru_new_ok) (simp add: lru_new_def)
next
  case (Suc n)
  then obtain cb where cb: "lru_bench k n (lru_new capacity) = Some (map Some [0..<n], cb)" "lru_ok cb"
    "lru_cap cb = capacity" "fst ` set (contents cb) = {..<min n k}" by blast
  have cap: "0 < capacity" using assms by simp
  obtain c1 where c1: "lru_put (n mod k) n cb = Some c1" "lru_ok c1" "lru_cap c1 = capacity"
    "contents c1 = spec_put capacity (n mod k) n (contents cb)"
    using lru_put_refines [OF cb(2), of "n mod k" n] cb(3) cap by auto
  obtain r c2 where c2: "lru_get (n mod k) c1 = (r, c2)" by fastforce
  with lru_get_refines [OF c1(2), of "n mod k"] have r: "r = Some n" "lru_ok c2" "contents c2 = contents c1"
    using spec_get_put [OF cap, of "n mod k" n "contents cb"] by (simp_all add: c1(4))
  have "lru_cap c2 = capacity" using lru_get_cap [of "n mod k" c1] c2 c1(3) by simp
  moreover have "fst ` set (contents c2) = insert (n mod k) {..<min n k}"
    unfolding r(3) c1(4) cb(4) [symmetric]
    by (rule spec_put_keys [OF cap, where m = k]) (use cb(2,4) assms in \<open>auto simp: lru_ok_def\<close>)
  moreover have "insert (n mod k) {..<min n k} = {..<min (Suc n) k}"
  proof (cases "n < k")
    case False
    then have "min n k = k" "min (Suc n) k = k" by simp_all
    with assms(1) show ?thesis by (simp add: insert_absorb)
  qed auto
  ultimately show ?case using cb(1) c1(1) c2 r by simp
qed

subsection \<open>\<open>timer_wheel.cpp\<close>\<close>

definition timer_main :: "(string list \<times> string timer_wheel) option" where [program_defs]:
  "timer_main =
     Option.bind (schedule_after 100 ''A at 100ms'' (tw_new 32 50)) (\<lambda>wheel.
     Option.bind (schedule_after 150 ''B at 150ms'' wheel) (\<lambda>wheel.
     map_option (\<lambda>(css, wheel). (concat css, wheel)) (ticks 10 wheel)))"

text \<open>The baseline adds up \<open>uint64_t\<close> values; the benchmark ticks an empty wheel.\<close>

fun empty_loop :: "nat \<Rightarrow> u64" where
  "empty_loop 0 = 0"
| "empty_loop (Suc i) = empty_loop i + of_nat i"

definition timer_bench :: "nat \<Rightarrow> ('c list list \<times> 'c timer_wheel) option" where [program_defs]:
  "timer_bench n = ticks n (tw_new 64 1)"

lemma ticks_numeral: "ticks (numeral k) w = (case tick w of None \<Rightarrow> None
     | Some (cs, w) \<Rightarrow> (case ticks (pred_numeral k) w of None \<Rightarrow> None | Some (css, w) \<Rightarrow> Some (cs # css, w)))"
  by (simp add: numeral_eq_Suc)

lemma timer_main_prints: "map_option fst timer_main = Some [''A at 100ms'', ''B at 150ms'']"
  by (simp add: program_defs schedule_after_def tw_new_def delay_ticks_def quot_trunc_def Let_def ticks_numeral tick_def
    nth_list_update)

lemma empty_loop_sum: "empty_loop n = of_nat (n * (n - 1) div 2)"
proof (induction n)
  case (Suc n)
  have "Suc n * (Suc n - 1) div 2 = n * (n - 1) div 2 + n" by (cases n) (simp_all add: algebra_simps)
  with Suc show ?case by simp
qed simp

text \<open>Ticks of a wheel without callbacks run nothing and turn the wheel.\<close>

lemma ticks_empty:
  assumes "0 < k" "c < k"
  shows "ticks n \<lparr>slots = replicate k [], tick_interval = i, current_slot = c\<rparr> =
    Some (replicate n [], \<lparr>slots = replicate k [], tick_interval = i, current_slot = (c + n) mod k\<rparr>)"
  using assms(2)
proof (induction n arbitrary: c)
  case (Suc n)
  have "(replicate k [])[(c + 1) mod k := []] = replicate k ([] :: 'a list)"
    by (rule nth_equalityI) (auto simp: nth_list_update)
  with assms(1) have "tick \<lparr>slots = replicate k [] :: 'a list list, tick_interval = i, current_slot = c\<rparr> =
      Some ([], \<lparr>slots = replicate k [], tick_interval = i, current_slot = (c + 1) mod k\<rparr>)"
    by (auto simp: tick_def Let_def)
  moreover have "((c + 1) mod k + n) mod k = (c + Suc n) mod k" by (simp add: mod_simps)
  ultimately show ?case using Suc.IH [of "(c + 1) mod k"] assms(1) by (simp del: replicate_Suc) simp
qed simp

lemma timer_bench_turns: "timer_bench n = Some (replicate n [], (tw_new 64 1)\<lparr>current_slot := n mod 64\<rparr>)"
  by (simp add: program_defs tw_new_def ticks_empty del: replicate.simps replicate_Suc)

subsection \<open>\<open>cache_friendly_hash_table.cpp\<close>\<close>

definition hash_main :: "(int \<Rightarrow> nat) \<Rightarrow> (string list \<times> nat) option" where [program_defs]:
  "hash_main hasher =
     Option.bind (oh_insert hasher 1 ''one'' (oh_new 16)) (\<lambda>mp.
     Option.bind (oh_insert hasher 2 ''two'' mp) (\<lambda>mp.
     Option.bind (oh_insert hasher 17 ''seventeen'' mp) (\<lambda>mp.
     Some (map (\<lambda>k. value_or (oh_find hasher k mp) ''?'') [1, 2, 17], oh_size mp))))"

text \<open>
  \<open>i * 2\<close> is an \<open>int\<close>: it does not overflow below \<open>2 ^ 30\<close> keys, so not for the 500000 of the benchmark.
  Here it is a natural number, and what is stated of more keys is stated of such a program.
\<close>

fun hash_fill :: "(nat \<Rightarrow> nat) \<Rightarrow> nat \<Rightarrow> (nat, nat) oh_table \<Rightarrow> (nat, nat) oh_table option" where
  "hash_fill hasher 0 mb = Some mb"
| "hash_fill hasher (Suc i) mb = Option.bind (hash_fill hasher i mb) (oh_insert hasher i (i * 2))"

definition hash_bench :: "(nat \<Rightarrow> nat) \<Rightarrow> nat \<Rightarrow> (nat option list \<times> (nat, nat) oh_table) option" where [program_defs]:
  "hash_bench hasher n =
     map_option (\<lambda>mb. (map (\<lambda>i. oh_find hasher i mb) [0..<n], mb)) (hash_fill hasher n (oh_new 65536))"

lemma hash_main_prints: "hash_main hasher = Some ([''one'', ''two'', ''seventeen''], 3)"
proof -
  have e: "oh_ok hasher (oh_new 16)" "\<And>k. oh_find hasher k (oh_new 16 :: (int, string) oh_table) = None"
    by (simp_all add: new_ok)
  obtain m1 where m1: "oh_insert hasher 1 ''one'' (oh_new 16) = Some m1" "oh_ok hasher m1" "oh_size m1 = 1"
    "\<And>q. oh_find hasher q m1 = (if q = 1 then Some ''one'' else None)"
    using insert_ok [OF e(1), of 1 "''one''"] e(2) by (auto simp: oh_new_def)
  obtain m2 where m2: "oh_insert hasher 2 ''two'' m1 = Some m2" "oh_ok hasher m2" "oh_size m2 = 2"
    "\<And>q. oh_find hasher q m2 = (if q = 2 then Some ''two'' else if q = 1 then Some ''one'' else None)"
    using insert_ok [OF m1(2), of 2 "''two''"] m1(3,4) by auto
  obtain m3 where m3: "oh_insert hasher 17 ''seventeen'' m2 = Some m3" "oh_size m3 = 3"
    "\<And>q. oh_find hasher q m3 = (if q = 17 then Some ''seventeen'' else if q = 2 then Some ''two'' else if q = 1 then Some ''one'' else None)"
    using insert_ok [OF m2(2), of 17 "''seventeen''"] m2(3,4) by auto
  from m1(1) m2(1) m3 show ?thesis by (simp add: program_defs)
qed

lemma hash_bench_finds:
  "\<exists>mb. hash_bench hasher n = Some (map (\<lambda>i. Some (i * 2)) [0..<n], mb) \<and> oh_size mb = n"
proof -
  have "\<exists>mb. hash_fill hasher n (oh_new 65536) = Some mb \<and> oh_ok hasher mb \<and> oh_size mb = n \<and>
    (\<forall>q. oh_find hasher q mb = (if q < n then Some (q * 2) else None))"
  proof (induction n)
    case 0
    show ?case by (simp add: new_ok) (simp add: oh_new_def)
  next
    case (Suc n)
    then obtain mb where mb: "hash_fill hasher n (oh_new 65536) = Some mb" "oh_ok hasher mb" "oh_size mb = n"
      "\<And>q. oh_find hasher q mb = (if q < n then Some (q * 2) else None)" by blast
    from insert_ok [OF mb(2), of n "n * 2"] mb(1,3,4) show ?case by (auto simp: less_Suc_eq)
  qed
  then show ?thesis by (auto simp: program_defs)
qed

subsection \<open>\<open>order_book_matching_engine.cpp\<close>\<close>

text \<open>The fills \<open>main\<close> prints, and the two prices in its last line.\<close>

definition book_main :: "fill list \<times> int \<times> int" where [program_defs]:
  "book_main =
     (let (fills, book) = add_order \<lparr>oid = 1, oside = Sell, price = 100, qty = 50\<rparr> empty_book;
          (fills, book) = add_order \<lparr>oid = 2, oside = Buy, price = 100, qty = 30\<rparr> book;
          printed = fills;
          (fills, book) = add_order \<lparr>oid = 3, oside = Buy, price = 99, qty = 100\<rparr> book
      in (printed, best_bid book, best_ask book))"

definition bench_order :: "nat \<Rightarrow> order" where
  "bench_order i = \<lparr>oid = of_nat i, oside = (if i mod 2 = 0 then Buy else Sell), price = 100 + int (i mod 10), qty = 100\<rparr>"

definition book_bench :: "nat \<Rightarrow> order_book" where [program_defs]:
  "book_bench n = snd (add_orders (map bench_order [0..<n]) empty_book)"

lemmas book_run = add_order_def match_buy.simps match_sell_def match_sell_down.simps match_level.simps Let_def

lemma book_main_prints:
  "book_main = ([\<lparr>order_id = 2, match_id = 1, fprice = 100, fqty = 30\<rparr>], 99, 100)"
  by (simp add: program_defs book_run empty_book_def best_bid_def best_ask_def)

text \<open>Ten orders of the benchmark leave one buyer at 100 and one seller at 109, and trade the rest.\<close>

lemma add_orders_append: "add_orders (xs @ ys) b =
    (let (fs, b) = add_orders xs b; (gs, b) = add_orders ys b in (fs @ gs, b))"
  by (induction xs arbitrary: b) (simp_all add: Let_def split_beta)

definition quiet_book :: "order list \<Rightarrow> order list \<Rightarrow> order_book" where
  "quiet_book bs as = \<lparr>bids = (if bs = [] then [] else [(100, bs)]), asks = (if as = [] then [] else [(109, as)])\<rparr>"

lemma bench_order_at:
  assumes "j < 10"
  shows "bench_order (10 * m + j) =
    \<lparr>oid = of_nat (10 * m + j), oside = (if j mod 2 = 0 then Buy else Sell), price = 100 + int j, qty = 100\<rparr>"
proof -
  have "(10 * m + j) mod 2 = j mod 2" by presburger
  with assms show ?thesis unfolding bench_order_def by simp
qed

text \<open>A sell order above 100 rests; the buy order one higher takes it.\<close>

lemma quiet_trade:
  assumes "bs \<noteq> []" "100 < p" "p < 108"
  shows "add_orders [\<lparr>oid = i, oside = Sell, price = p, qty = 100\<rparr>, \<lparr>oid = j, oside = Buy, price = p + 1, qty = 100\<rparr>] (quiet_book bs as) =
    ([\<lparr>order_id = j, match_id = i, fprice = p, fqty = 100\<rparr>], quiet_book bs as)"
  using assms by (cases "as = []") (simp_all add: quiet_book_def book_run)

lemma quiet_buy: "add_order \<lparr>oid = i, oside = Buy, price = 100, qty = 100\<rparr> (quiet_book bs as) =
    ([], quiet_book (bs @ [\<lparr>oid = i, oside = Buy, price = 100, qty = 100\<rparr>]) as)"
  by (cases "as = []"; cases "bs = []") (simp_all add: quiet_book_def book_run)

lemma quiet_sell: "bs \<noteq> [] \<Longrightarrow> add_order \<lparr>oid = i, oside = Sell, price = 109, qty = 100\<rparr> (quiet_book bs as) =
    ([], quiet_book bs (as @ [\<lparr>oid = i, oside = Sell, price = 109, qty = 100\<rparr>]))"
  by (cases "as = []") (simp_all add: quiet_book_def book_run)

definition cycle_fills :: "nat \<Rightarrow> fill list" where
  "cycle_fills m = map (\<lambda>k. \<lparr>order_id = of_nat (10 * m + (2 * k + 2)), match_id = of_nat (10 * m + (2 * k + 1)),
     fprice = 101 + 2 * int k, fqty = 100\<rparr>) [0..<4]"

lemma bench_cycle:
  "add_orders (map (\<lambda>j. bench_order (10 * m + j)) [0..<10]) (quiet_book bs as) =
   (cycle_fills m, quiet_book (bs @ [bench_order (10 * m)]) (as @ [bench_order (10 * m + 9)]))"
proof -
  define B where "B = bs @ [bench_order (10 * m)]"
  have b: "B \<noteq> []" by (simp add: B_def)
  have pair: "add_orders [bench_order (10 * m + (2 * k + 1)), bench_order (10 * m + (2 * k + 2))] (quiet_book B as) =
      ([\<lparr>order_id = of_nat (10 * m + (2 * k + 2)), match_id = of_nat (10 * m + (2 * k + 1)), fprice = 101 + 2 * int k, fqty = 100\<rparr>],
       quiet_book B as)" if "k < 4" for k
  proof -
    have "bench_order (10 * m + (2 * k + 1)) = \<lparr>oid = of_nat (10 * m + (2 * k + 1)), oside = Sell, price = 101 + 2 * int k, qty = 100\<rparr>"
      using that by (subst bench_order_at) simp_all
    moreover have "bench_order (10 * m + (2 * k + 2)) = \<lparr>oid = of_nat (10 * m + (2 * k + 2)), oside = Buy, price = 101 + 2 * int k + 1, qty = 100\<rparr>"
      using that by (subst bench_order_at) simp_all
    ultimately show ?thesis using quiet_trade [OF b, of "101 + 2 * int k"] that by (simp only:)
  qed
  have all: "map (\<lambda>j. bench_order (10 * m + j)) [0..<10] = [bench_order (10 * m)] @
      concat (map (\<lambda>k. [bench_order (10 * m + (2 * k + 1)), bench_order (10 * m + (2 * k + 2))]) [0..<4]) @ [bench_order (10 * m + 9)]"
    by (simp add: upt_rec numeral_eq_Suc)
  have "add_orders (concat (map (\<lambda>k. [bench_order (10 * m + (2 * k + 1)), bench_order (10 * m + (2 * k + 2))]) ks)) (quiet_book B as) =
      (map (\<lambda>k. \<lparr>order_id = of_nat (10 * m + (2 * k + 2)), match_id = of_nat (10 * m + (2 * k + 1)), fprice = 101 + 2 * int k, fqty = 100\<rparr>) ks,
       quiet_book B as)" if "set ks \<subseteq> {..<4}" for ks
    using that
  proof (induction ks)
    case (Cons k ks)
    then have "k < 4" "set ks \<subseteq> {..<4}" by auto
    note IH = Cons.IH [OF this(2)] and pr = pair [OF this(1)]
    show ?case
      unfolding list.map concat.simps unfolding add_orders_append pr Let_def split_conv IH by simp
  qed simp
  note this [of "[0..<4]"]
  then have "add_orders (concat (map (\<lambda>k. [bench_order (10 * m + (2 * k + 1)), bench_order (10 * m + (2 * k + 2))]) [0..<4])) (quiet_book B as) =
      (cycle_fills m, quiet_book B as)" unfolding cycle_fills_def by (simp only: atLeast0LessThan set_upt subset_refl)
  moreover have "add_orders [bench_order (10 * m)] (quiet_book bs as) = ([], quiet_book B as)"
    using quiet_buy [of "of_nat (10 * m)" bs as] bench_order_at [of 0 m] by (simp add: B_def)
  moreover have "add_orders [bench_order (10 * m + 9)] (quiet_book B as) = ([], quiet_book B (as @ [bench_order (10 * m + 9)]))"
    using quiet_sell [OF b, of "of_nat (10 * m + 9)" as] bench_order_at [of 9 m] by simp
  ultimately show ?thesis
    unfolding all add_orders_append Let_def by (simp only: split_conv append.simps append_Nil2 flip: B_def)
qed

lemma book_bench_settles:
  "add_orders (map bench_order [0..<10 * m]) empty_book =
   (concat (map cycle_fills [0..<m]), quiet_book (map (\<lambda>c. bench_order (10 * c)) [0..<m]) (map (\<lambda>c. bench_order (10 * c + 9)) [0..<m]))"
proof (induction m)
  case 0
  show ?case by (simp add: quiet_book_def empty_book_def)
next
  case (Suc m)
  have "[0..<10 * Suc m] = [0..<10 * m] @ map (\<lambda>j. 10 * m + j) [0..<10]"
    using upt_add_eq_append [of 0 "10 * m" 10] by (simp add: map_add_upt add.commute)
  with Suc bench_cycle [of m] show ?case by (simp add: add_orders_append comp_def)
qed

subsection \<open>\<open>fixed_size_memory_pool.cpp\<close> and \<open>slab_allocator.cpp\<close>\<close>

text \<open>
  The loops of the programs over the operations of an allocator. The objects that a client keeps in
  its blocks are a map from blocks; freeing a block overwrites its object. What the objects put over
  the link in a block is \<open>w\<close>. Using the null pointer has no result.
\<close>

fun alloc_loop :: "('s \<Rightarrow> nat option \<times> 's) \<Rightarrow> nat \<Rightarrow> 's \<Rightarrow> nat option list \<times> 's" where
  "alloc_loop alloc 0 s = ([], s)"
| "alloc_loop alloc (Suc i) s = (let (ps, s) = alloc_loop alloc i s; (p, s) = alloc s in (ps @ [p], s))"

fun order_loop :: "('s \<Rightarrow> nat option \<times> 's) \<Rightarrow> (nat \<Rightarrow> nat option \<Rightarrow> 's \<Rightarrow> 's) \<Rightarrow> (nat \<Rightarrow> 'o) \<Rightarrow> (nat \<Rightarrow> nat option) \<Rightarrow> nat \<Rightarrow> 's \<Rightarrow>
    (nat list \<times> (nat \<rightharpoonup> 'o) \<times> 's) option" where
  "order_loop alloc scribble val w 0 s = Some ([], Map.empty, s)"
| "order_loop alloc scribble val w (Suc i) s =
     Option.bind (order_loop alloc scribble val w i s) (\<lambda>(orders, mem, s).
       case alloc s of (None, s) \<Rightarrow> None
       | (Some a, s) \<Rightarrow> Some (orders @ [a], mem(a \<mapsto> val i), scribble a (w i) s))"

fun print_loop :: "(nat \<Rightarrow> 's \<Rightarrow> 's) \<Rightarrow> nat list \<Rightarrow> (nat \<rightharpoonup> 'o) \<times> 's \<Rightarrow> 'o option list \<times> 's" where
  "print_loop free [] (mem, s) = ([], s)"
| "print_loop free (a # orders) (mem, s) = (let (lines, s') = print_loop free orders (mem(a := None), free a s) in (mem a # lines, s'))"

definition pool_main :: "nat \<Rightarrow> (nat \<Rightarrow> 'o) \<Rightarrow> (nat \<Rightarrow> nat option) \<Rightarrow> nat \<Rightarrow> ('o option list \<times> fpool) option" where [program_defs]:
  "pool_main BlockSize val w n =
     map_option (\<lambda>(orders, mem, pool). print_loop (\<lambda>a. fp_deallocate (Some a)) orders (mem, pool))
       (order_loop (fp_allocate BlockSize) fp_write val w n (fp_new BlockSize))"

definition pool_bench :: "nat \<Rightarrow> nat \<Rightarrow> fpool \<Rightarrow> fpool" where [program_defs]:
  "pool_bench BlockSize n pool = (let (ob, pool) = alloc_loop (fp_allocate BlockSize) n pool in fold fp_deallocate ob pool)"

definition slab_main :: "nat \<Rightarrow> fpool \<Rightarrow> fpool" where [program_defs]:
  "slab_main n pool32 = (let (ptrs, pool32) = alloc_loop sp_allocate n pool32 in fold sp_deallocate ptrs pool32)"

context allocator begin

definition all_free :: "'s \<Rightarrow> bool" where
  "all_free s \<longleftrightarrow> ok s \<and> set (avail s) = owned s"

lemma all_free_partitioned: "all_free s \<longleftrightarrow> partitioned ([], s)"
  using ok_avail by (auto simp: all_free_def partitioned_def)

lemma all_freeD: "all_free s \<Longrightarrow> distinct (avail s)" "all_free s \<Longrightarrow> set (avail s) = owned s"
  using ok_avail by (auto simp: all_free_def)

lemma partitioned_last: "partitioned (a # held, s) \<Longrightarrow> partitioned (held @ [a], s)"
  by (auto simp: partitioned_def)

lemma partitioned_write: "partitioned (held, s) \<Longrightarrow> a \<in> set held \<Longrightarrow> partitioned (held, scribble a v s)"
proof -
  assume p: "partitioned (held, s)" and "a \<in> set held"
  then have "a \<in> owned s" "a \<notin> set (avail s)" using partitionedD(3,4) [OF p] by blast+
  with scribble_avail [OF partitionedD(1) [OF p]] p show ?thesis by (simp add: partitioned_def)
qed

lemma partitioned_head: "partitioned (a # held, s) \<Longrightarrow> partitioned (held, free a s)"
  using partitioned_free [of "a # held" s 0] by simp

lemma order_loop_holds:
  assumes "all_free s" "\<And>s. ok s \<Longrightarrow> fst (alloc s) \<noteq> None"
  shows "\<exists>orders mem s'. order_loop alloc scribble val w n s = Some (orders, mem, s') \<and> partitioned (orders, s') \<and>
    map mem orders = map (\<lambda>i. Some (val i)) [0..<n]"
proof (induction n)
  case 0
  with assms(1) show ?case by (simp add: all_free_partitioned)
next
  case (Suc n)
  then obtain orders mem t where t: "order_loop alloc scribble val w n s = Some (orders, mem, t)" "partitioned (orders, t)"
    "map mem orders = map (\<lambda>i. Some (val i)) [0..<n]" by blast
  obtain a u where u: "alloc t = (Some a, u)"
    using assms(2) [OF partitionedD(1) [OF t(2)]] by (metis option.collapse prod.collapse)
  have p: "partitioned (orders @ [a], u)" by (rule partitioned_last [OF partitioned_alloc [OF t(2) u]])
  then have "a \<notin> set orders" by (simp add: partitioned_def)
  then have "map (mem(a \<mapsto> val n)) (orders @ [a]) = map (\<lambda>i. Some (val i)) [0..<Suc n]"
    using t(3) by simp
  moreover have "partitioned (orders @ [a], scribble a (w n) u)" by (rule partitioned_write [OF p]) simp
  ultimately show ?case using t(1) u by auto
qed

lemma print_loop_reads: "partitioned (orders, s) \<Longrightarrow> \<exists>s'. print_loop free orders (mem, s) = (map mem orders, s') \<and> all_free s'"
proof (induction orders arbitrary: s mem)
  case Nil
  then show ?case by (simp add: all_free_partitioned)
next
  case (Cons a orders)
  then have "a \<notin> set orders" by (simp add: partitioned_def)
  then have same: "map (mem(a := None)) orders = map mem orders" by simp
  from Cons.IH [OF partitioned_head [OF Cons.prems], of "mem(a := None)"] obtain s' where
    "print_loop free orders (mem(a := None), free a s) = (map mem orders, s')" "all_free s'" unfolding same by blast
  then show ?case by (intro exI [of _ s']) (simp del: fun_upd_apply)
qed

lemma alloc_loop_holds:
  assumes "all_free s" "\<And>s. ok s \<Longrightarrow> fst (alloc s) \<noteq> None"
  shows "\<exists>ps s'. alloc_loop alloc n s = (map Some ps, s') \<and> partitioned (ps, s') \<and> length ps = n"
proof (induction n)
  case 0
  with assms(1) show ?case by (simp add: all_free_partitioned)
next
  case (Suc n)
  then obtain ps t where t: "alloc_loop alloc n s = (map Some ps, t)" "partitioned (ps, t)" "length ps = n" by blast
  obtain a u where u: "alloc t = (Some a, u)"
    using assms(2) [OF partitionedD(1) [OF t(2)]] by (metis option.collapse prod.collapse)
  have "partitioned (ps @ [a], u)" by (rule partitioned_last [OF partitioned_alloc [OF t(2) u]])
  with t u show ?case by (intro exI [of _ "ps @ [a]"] exI [of _ u]) simp
qed

lemma free_all: "partitioned (ps, s) \<Longrightarrow> all_free (fold free ps s)"
proof (induction ps arbitrary: s)
  case (Cons a ps)
  from Cons.IH [OF partitioned_head [OF Cons.prems]] show ?case by simp
qed (simp add: all_free_partitioned)

end

lemma fp_never_null: "fp_ok (Suc b) s \<Longrightarrow> fst (fp_allocate (Suc b) s) \<noteq> None"
  by (erule fp_allocate_ok [of "Suc b"]) simp_all

lemma pools_all_free: "fp.all_free b (fp_new (Suc b))" "sp.all_free sp_new"
  unfolding fp.all_free_def sp.all_free_def using fp_new_ok [of "Suc b"] sp_new_ok by auto

lemma fold_Some: "fold (\<lambda>p. f p) (map Some ps) s = fold (\<lambda>a. f (Some a)) ps s"
  by (induction ps arbitrary: s) simp_all

text \<open>The program prints the orders it stored, whatever the size of the blocks; afterwards, and after
  the benchmark, every block is free.\<close>

lemma pool_main_prints:
  "\<exists>pool. pool_main (Suc b) val w n = Some (map (\<lambda>i. Some (val i)) [0..<n], pool) \<and> fp.all_free b pool"
proof -
  obtain orders mem s where s: "order_loop (fp_allocate (Suc b)) fp_write val w n (fp_new (Suc b)) = Some (orders, mem, s)"
    "fp.partitioned b (orders, s)" "map mem orders = map (\<lambda>i. Some (val i)) [0..<n]"
    using fp.order_loop_holds [OF pools_all_free(1) fp_never_null, where val = val and w = w and n = n] by blast
  with fp.print_loop_reads [OF s(2), of mem] show ?thesis by (auto simp: program_defs)
qed

lemma pool_bench_frees: "fp.all_free b pool \<Longrightarrow> fp.all_free b (pool_bench (Suc b) n pool)"
proof -
  assume f: "fp.all_free b pool"
  obtain ps s where s: "alloc_loop (fp_allocate (Suc b)) n pool = (map Some ps, s)" "fp.partitioned b (ps, s)"
    using fp.alloc_loop_holds [OF f fp_never_null] by blast
  from fp.free_all [OF s(2)] s(1) show ?thesis by (simp add: program_defs fold_Some)
qed

lemma slab_main_frees: "sp.all_free pool \<Longrightarrow> sp.all_free (slab_main n pool)"
proof -
  assume f: "sp.all_free pool"
  obtain ps s where s: "alloc_loop sp_allocate n pool = (map Some ps, s)" "sp.partitioned (ps, s)"
    using sp.alloc_loop_holds [OF f] fp_never_null unfolding sp_is_fp by blast
  from sp.free_all [OF s(2)] s(1) show ?thesis by (simp add: program_defs fold_Some)
qed


subsection \<open>Properties\<close>

text \<open>What the programs print before their benchmarks.\<close>

theorem demo_lines:
  "lru_main = Some [''one'', ''miss'', ''one'', ''four'']" "map_option fst timer_main = Some [''A at 100ms'', ''B at 150ms'']"
  "hash_main hasher = Some ([''one'', ''two'', ''seventeen''], 3)"
  "book_main = ([\<lparr>order_id = 2, match_id = 1, fprice = 100, fqty = 30\<rparr>], 99, 100)"
  by (rule lru_main_prints timer_main_prints hash_main_prints book_main_prints)+

text \<open>C38: The benchmarks compute what they mean to, for every number of operations and every hash
  function. Each \<open>get\<close> of the cache hits with the value just put, and 512 of 1024 places are used at
  most; the timer wheel runs nothing and turns by one slot per tick; the hash table finds every key
  with its value, and counts the keys; of every ten orders in the book eight trade in pairs, so one
  buyer at 100 and one seller at 109 are left; the pool's program prints the orders it stored, and
  after its benchmark, as after the slab program, every block the pool owns is free, exactly once.\<close>

theorem benchmarks_compute:
  "(\<exists>cb. lru_bench 512 n (lru_new 1024) = Some (map Some [0..<n], cb) \<and> length (contents cb) = min n 512) \<and>
   timer_bench n = Some (replicate n [], (tw_new 64 1)\<lparr>current_slot := n mod 64\<rparr>) \<and>
   (\<exists>mb. hash_bench hasher n = Some (map (\<lambda>i. Some (i * 2)) [0..<n], mb) \<and> oh_size mb = n) \<and>
   book_bench (10 * n) = quiet_book (map (\<lambda>c. bench_order (10 * c)) [0..<n]) (map (\<lambda>c. bench_order (10 * c + 9)) [0..<n]) \<and>
   (\<exists>pool. pool_main (Suc b) val w n = Some (map (\<lambda>i. Some (val i)) [0..<n], pool) \<and>
      distinct (fp_avail (Suc b) (pool_bench (Suc b) m pool)) \<and>
      set (fp_avail (Suc b) (pool_bench (Suc b) m pool)) = {..<fp_total (Suc b) (pool_bench (Suc b) m pool)}) \<and>
   distinct (fp_avail 256 (slab_main m (slab_main n sp_new))) \<and>
   set (fp_avail 256 (slab_main m (slab_main n sp_new))) = {..<fp_total 256 (slab_main m (slab_main n sp_new))}"
proof (intro conjI)
  obtain cb where cb: "lru_bench 512 n (lru_new 1024) = Some (map Some [0..<n], cb)" "lru_ok cb"
    "fst ` set (contents cb) = {..<min n 512}" using lru_bench_hits [of 512 1024 n] by auto
  then have "length (contents cb) = card {..<min n 512}"
    by (metis distinct_card length_map lru_ok_def set_map)
  with cb(1) show "\<exists>cb. lru_bench 512 n (lru_new 1024) = Some (map Some [0..<n], cb) \<and> length (contents cb) = min n 512"
    by simp
  show "book_bench (10 * n) = quiet_book (map (\<lambda>c. bench_order (10 * c)) [0..<n]) (map (\<lambda>c. bench_order (10 * c + 9)) [0..<n])"
    by (simp add: book_bench_def book_bench_settles)
  obtain pool where pool: "pool_main (Suc b) val w n = Some (map (\<lambda>i. Some (val i)) [0..<n], pool)" "fp.all_free b pool"
    using pool_main_prints by blast
  from fp.all_freeD [OF pool_bench_frees [OF pool(2), of m]] pool(1)
  show "\<exists>pool. pool_main (Suc b) val w n = Some (map (\<lambda>i. Some (val i)) [0..<n], pool) \<and>
      distinct (fp_avail (Suc b) (pool_bench (Suc b) m pool)) \<and>
      set (fp_avail (Suc b) (pool_bench (Suc b) m pool)) = {..<fp_total (Suc b) (pool_bench (Suc b) m pool)}" by blast
  note s = sp.all_freeD [OF slab_main_frees [OF slab_main_frees [OF pools_all_free(2)]], simplified]
  show "distinct (fp_avail 256 (slab_main m (slab_main n sp_new)))"
    "set (fp_avail 256 (slab_main m (slab_main n sp_new))) = {..<fp_total 256 (slab_main m (slab_main n sp_new))}"
    by (rule s)+
qed (rule timer_bench_turns hash_bench_finds)+

end
