(* ===== verification/Kitchen_Sink.thy ===== *)
theory Kitchen_Sink
  imports Error_Values
begin

section \<open>Object lifetimes (\<open>snippets/archive/modern_cpp23_kitchen_sink.cpp\<close>)\<close>

text \<open>
  The rest of the tour: files closed by destructors, virtual calls, a virtual base class, shared and
  weak pointers, and the lists behind the views. What is printed is a list of events, a constructor
  for each format string with the values put into it; lines without a value are left out. An operation that has no defined result, such
  as using an object after its destruction, is \<open>None\<close>, and an invariant says that it does not
  happen. Which files can be opened, and the arithmetic of \<open>double\<close>, are parameters.
\<close>

datatype device_class = Device | Wireless | Sensor | SmartSensor

datatype 'f shape = Circle 'f | Rectangle 'f 'f | Triangle 'f 'f

datatype 'f tour_event =
    Guard_acquired string | Guard_released string | Raii_error string | Expected_result string
  | Device_ctor string | Wireless_ctor int | Sensor_ctor string | Smart_ctor | Device_dtor string
  | Status_device string | Status_wireless int | Status_sensor string | Status_smart string int string
  | Shape_line "'f shape" 'f | Shape_dtor string | Total_area 'f | Unique_area 'f | After_move bool 'f
  | Bus_post string | Bus_destroyed nat | Bus_gone string string | Use_count nat

subsection \<open>\<open>FileGuard\<close>\<close>

text \<open>The files with their contents, the paths of the open streams, and what was printed.\<close>

record 'f world =
  w_files :: "string \<rightharpoonup> string"
  w_open :: "string list"
  w_out :: "'f tour_event list"

definition say :: "'f tour_event \<Rightarrow> 'f world \<Rightarrow> 'f world" where
  "say e w = w\<lparr>w_out := w_out w @ [e]\<rparr>"

record guard =
  g_path :: string
  g_is_open :: bool

text \<open>\<open>ofstream::open\<close> with \<open>trunc\<close>, \<open>close\<close>, and \<open><<\<close>, which does nothing on a closed stream.\<close>

definition file_open :: "(string \<Rightarrow> bool) \<Rightarrow> guard \<Rightarrow> 'f world \<Rightarrow> guard \<times> 'f world" where
  "file_open can g w =
     (if can (g_path g)
      then (g\<lparr>g_is_open := True\<rparr>, w\<lparr>w_files := (w_files w)(g_path g \<mapsto> []), w_open := g_path g # w_open w\<rparr>)
      else (g, w))"

definition file_write :: "string \<Rightarrow> guard \<Rightarrow> 'f world \<Rightarrow> 'f world" where
  "file_write text g w =
     (if g_is_open g then w\<lparr>w_files := (w_files w)(g_path g \<mapsto> the (w_files w (g_path g)) @ text)\<rparr> else w)"

definition guard_destroy :: "guard \<Rightarrow> 'f world \<Rightarrow> 'f world" where
  "guard_destroy g w =
     (if g_is_open g then say (Guard_released (g_path g)) (w\<lparr>w_open := remove1 (g_path g) (w_open w)\<rparr>) else w)"

text \<open>The defaulted move constructor: the new guard, and what is left of the old one.\<close>

definition guard_move :: "guard \<Rightarrow> guard \<times> guard" where
  "guard_move g = (g, \<lparr>g_path = [], g_is_open = False\<rparr>)"

definition cannot_open :: "string \<Rightarrow> string" where
  "cannot_open path = ''Cannot open '' @ [CHR 0x27] @ path @ [CHR 0x27]"

text \<open>The local guard is destroyed at the end of \<open>open\<close>, whether it was moved from or not opened.\<close>

definition guard_open :: "(string \<Rightarrow> bool) \<Rightarrow> string \<Rightarrow> 'f world \<Rightarrow> guard expected \<times> 'f world" where
  "guard_open can path w =
     (let g = \<lparr>g_path = [], g_is_open = False\<rparr>;
          g = g\<lparr>g_path := path\<rparr>;
          (g, w) = file_open can g w
      in if \<not> g_is_open g then (Inl (cannot_open (g_path g)), guard_destroy g w)
         else let w = say (Guard_acquired (g_path g)) w;
                  (result, g) = guard_move g
              in (Inr result, guard_destroy g w))"

definition destroy_expected :: "guard expected \<Rightarrow> 'f world \<Rightarrow> 'f world" where
  "destroy_expected r w = (case r of Inl e \<Rightarrow> w | Inr g \<Rightarrow> guard_destroy g w)"

text \<open>The first block of \<open>main\<close>; its objects are destroyed in reverse order at its end. \<open>*msg\<close> of an
  error would be undefined.\<close>

definition raii_block :: "(string \<Rightarrow> bool) \<Rightarrow> 'f world \<Rightarrow> 'f world option" where
  "raii_block can w =
     (let (result, w) = guard_open can ''/tmp/raii_demo.txt'' w;
          w = (case result of Inr g \<Rightarrow> file_write (''Written safely via RAII'' @ [CHR 0x0A]) g w
               | Inl e \<Rightarrow> say (Raii_error e) w);
          (bad, w) = guard_open can ''/no/such/path/file.txt'' w;
          msg = or_else (transform (Some bad) (\<lambda>g. Some ''opened!'')) (\<lambda>e. Some (Inr (e @ '' [handled]'')))
      in case msg of
           Some (Inr m) \<Rightarrow> Some (destroy_expected result (destroy_expected bad (say (Expected_result m) w)))
         | _ \<Rightarrow> None)"

lemmas guard_defs = guard_open_def guard_destroy_def guard_move_def file_open_def file_write_def say_def destroy_expected_def
  Let_def expected_defs

text \<open>Whatever can be opened, the block closes what it opened, later guards first.\<close>

lemma raii_block_run:
  "raii_block can w = Some
     \<lparr>w_files = (let fs = (if can ''/tmp/raii_demo.txt''
          then (w_files w)(''/tmp/raii_demo.txt'' \<mapsto> ''Written safely via RAII'' @ [CHR 0x0A]) else w_files w)
        in if can ''/no/such/path/file.txt'' then fs(''/no/such/path/file.txt'' \<mapsto> []) else fs),
      w_open = w_open w,
      w_out = w_out w @
        (if can ''/tmp/raii_demo.txt'' then [Guard_acquired ''/tmp/raii_demo.txt''] else [Raii_error (cannot_open ''/tmp/raii_demo.txt'')]) @
        (if can ''/no/such/path/file.txt''
         then [Guard_acquired ''/no/such/path/file.txt'', Expected_result ''opened!'', Guard_released ''/no/such/path/file.txt'']
         else [Expected_result (cannot_open ''/no/such/path/file.txt'' @ '' [handled]'')]) @
        (if can ''/tmp/raii_demo.txt'' then [Guard_released ''/tmp/raii_demo.txt''] else [])\<rparr>"
  unfolding raii_block_def
  by (cases "can ''/tmp/raii_demo.txt''"; cases "can ''/no/such/path/file.txt''")
    (simp_all add: guard_defs)

subsection \<open>The diamond\<close>

text \<open>The direct bases of a class, in order; \<open>True\<close> marks a virtual one.\<close>

fun direct_bases :: "device_class \<Rightarrow> (bool \<times> device_class) list" where
  "direct_bases Device = []"
| "direct_bases Wireless = [(True, Device)]"
| "direct_bases Sensor = [(True, Device)]"
| "direct_bases SmartSensor = [(False, Wireless), (False, Sensor)]"

fun class_depth :: "device_class \<Rightarrow> nat" where
  "class_depth Device = 0"
| "class_depth Wireless = 1"
| "class_depth Sensor = 1"
| "class_depth SmartSensor = 2"

lemma bases_depth: "(v, b) \<in> set (direct_bases c) \<Longrightarrow> class_depth b < class_depth c"
  by (cases c) auto

text \<open>
  The order in which C++ constructs an object of class \<open>c\<close>: first the virtual bases, in the order of
  a depth-first walk from left to right, each once; then, class by class, the other bases before the
  class itself. Destruction goes the other way.
\<close>

function virtual_bases :: "device_class \<Rightarrow> device_class list" where
  "virtual_bases c = rev (remdups (rev (concat (map (\<lambda>(v, b). virtual_bases b @ (if v then [b] else [])) (direct_bases c)))))"
  by pat_completeness auto
termination by (relation "measure class_depth") (auto dest: bases_depth)

function own_order :: "device_class \<Rightarrow> device_class list" where
  "own_order c = concat (map (\<lambda>(v, b). if v then [] else own_order b) (direct_bases c)) @ [c]"
  by pat_completeness auto
termination by (relation "measure class_depth") (auto dest: bases_depth)

declare virtual_bases.simps [simp del] own_order.simps [simp del]

definition construct_order :: "device_class \<Rightarrow> device_class list" where
  "construct_order c = concat (map own_order (virtual_bases c)) @ own_order c"

text \<open>The members; those of a subobject that has not been constructed are \<open>None\<close>.\<close>

record device =
  d_id :: "string option"
  d_freq :: "int option"
  d_type :: "string option"

fun construct :: "string \<Rightarrow> int \<Rightarrow> string \<Rightarrow> device_class \<Rightarrow> device \<times> 'f world \<Rightarrow> device \<times> 'f world" where
  "construct i f t Device (d, w) = (d\<lparr>d_id := Some i\<rparr>, say (Device_ctor i) w)"
| "construct i f t Wireless (d, w) = (d\<lparr>d_freq := Some f\<rparr>, say (Wireless_ctor f) w)"
| "construct i f t Sensor (d, w) = (d\<lparr>d_type := Some t\<rparr>, say (Sensor_ctor t) w)"
| "construct i f t SmartSensor (d, w) = (d, say Smart_ctor w)"

fun destruct :: "device_class \<Rightarrow> device \<times> 'f world \<Rightarrow> device \<times> 'f world" where
  "destruct Device (d, w) = (d\<lparr>d_id := None\<rparr>, case d_id d of None \<Rightarrow> w | Some i \<Rightarrow> say (Device_dtor i) w)"
| "destruct Wireless (d, w) = (d\<lparr>d_freq := None\<rparr>, w)"
| "destruct Sensor (d, w) = (d\<lparr>d_type := None\<rparr>, w)"
| "destruct SmartSensor (d, w) = (d, w)"

text \<open>\<open>status\<close> as each class overrides it. A call through a pointer to a base runs the version of the
  dynamic class of the object.\<close>

function status :: "device_class \<Rightarrow> device \<Rightarrow> 'f tour_event list option" where
  "status Device d = map_option (\<lambda>i. [Status_device i]) (d_id d)"
| "status Wireless d = Option.bind (status Device d) (\<lambda>es. map_option (\<lambda>f. es @ [Status_wireless f]) (d_freq d))"
| "status Sensor d = Option.bind (status Device d) (\<lambda>es. map_option (\<lambda>t. es @ [Status_sensor t]) (d_type d))"
| "status SmartSensor d = Option.bind (d_id d) (\<lambda>i. Option.bind (d_freq d) (\<lambda>f. map_option (\<lambda>t. [Status_smart i f t]) (d_type d)))"
  by pat_completeness auto
termination by (relation "measure (class_depth \<circ> fst)") auto

definition diamond_block :: "device_class \<Rightarrow> string \<Rightarrow> int \<Rightarrow> string \<Rightarrow> 'f world \<Rightarrow> (device \<times> 'f world) option" where
  "diamond_block c i f t w =
     (let (ss, w) = fold (construct i f t) (construct_order c) (\<lparr>d_id = None, d_freq = None, d_type = None\<rparr>, w)
      in map_option (\<lambda>es. fold destruct (rev (construct_order c)) (ss, fold say es w)) (status c ss))"

lemma construct_orders:
  "construct_order Device = [Device]" "construct_order Wireless = [Device, Wireless]"
  "construct_order Sensor = [Device, Sensor]" "construct_order SmartSensor = [Device, Wireless, Sensor, SmartSensor]"
  by (simp_all add: construct_order_def virtual_bases.simps [of Device] virtual_bases.simps [of Wireless]
    virtual_bases.simps [of Sensor] virtual_bases.simps [of SmartSensor] own_order.simps [of Device]
    own_order.simps [of Wireless] own_order.simps [of Sensor] own_order.simps [of SmartSensor])

text \<open>For every class: each subobject is constructed once, after the bases it needs, the class itself
  last; no call reads a member that is not there; and at the end nothing is left of the object.\<close>

lemma construct_once:
  "distinct (construct_order c) \<and> last (construct_order c) = c \<and>
   (\<forall>(v, b) \<in> set (direct_bases c). set (construct_order b) \<subseteq> set (butlast (construct_order c)))"
  by (cases c) (auto simp: construct_orders)

lemma diamond_ends:
  "\<exists>w'. diamond_block c i f t w = Some (\<lparr>d_id = None, d_freq = None, d_type = None\<rparr>, w')"
  by (cases c) (simp_all add: diamond_block_def construct_orders Let_def)

lemma diamond_prints:
  "map_option (w_out \<circ> snd) (diamond_block SmartSensor i f t w) = Some (w_out w @
     [Device_ctor i, Wireless_ctor f, Sensor_ctor t, Smart_ctor, Status_smart i f t, Device_dtor i])"
  by (simp add: diamond_block_def construct_orders say_def Let_def)

subsection \<open>Shapes\<close>

record 'f real_ops =
  r_add :: "'f \<Rightarrow> 'f \<Rightarrow> 'f"
  r_mul :: "'f \<Rightarrow> 'f \<Rightarrow> 'f"
  r_zero :: 'f
  r_half :: 'f
  r_pi :: 'f

text \<open>The overriders of \<open>area\<close>; \<open>describe\<close> prints the shape as \<open>kind\<close> writes it, and its area.\<close>

fun area :: "'f real_ops \<Rightarrow> 'f shape \<Rightarrow> 'f" where
  "area F (Circle r) = r_mul F (r_mul F (r_pi F) r) r"
| "area F (Rectangle w h) = r_mul F w h"
| "area F (Triangle b h) = r_mul F (r_mul F (r_half F) b) h"

definition describe :: "'f real_ops \<Rightarrow> 'f shape \<Rightarrow> 'f world \<Rightarrow> 'f world" where
  "describe F s w = say (Shape_line s (area F s)) w"

fun shape_name :: "'f shape \<Rightarrow> string" where
  "shape_name (Circle r) = ''Circle''"
| "shape_name (Rectangle w h) = ''Rectangle''"
| "shape_name (Triangle b h) = ''Triangle''"

definition shape_destroy :: "'f shape \<Rightarrow> 'f world \<Rightarrow> 'f world" where
  "shape_destroy s w = say (Shape_dtor (shape_name s)) w"

text \<open>A vector may destroy its elements in any order, here \<open>order shapes\<close>; \<open>lit\<close> gives the literals.\<close>

definition shapes_block :: "'f real_ops \<Rightarrow> (nat \<Rightarrow> 'f) \<Rightarrow> ('f shape list \<Rightarrow> 'f shape list) \<Rightarrow> 'f world \<Rightarrow> 'f world" where
  "shapes_block F lit order w =
     (let shapes = [Circle (lit 5), Rectangle (lit 4) (lit 6), Triangle (lit 3) (lit 8)];
          w = fold (describe F) shapes w;
          total = foldl (r_add F) (r_zero F) (map (area F) shapes)
      in fold shape_destroy (order shapes) (say (Total_area total) w))"

lemma fold_say: "fold (\<lambda>x. say (f x)) xs w = w\<lparr>w_out := w_out w @ map f xs\<rparr>"
  by (induction xs arbitrary: w) (simp_all add: say_def)

lemma shapes_block_prints:
  fixes lit :: "nat \<Rightarrow> 'f"
  defines "shapes \<equiv> [Circle (lit 5), Rectangle (lit 4) (lit 6), Triangle (lit 3) (lit 8)]"
  shows "shapes_block F lit order w = w\<lparr>w_out := w_out w @ map (\<lambda>s. Shape_line s (area F s)) shapes @
     Total_area (foldl (r_add F) (r_zero F) (map (area F) shapes)) # map (Shape_dtor \<circ> shape_name) (order shapes)\<rparr>"
  unfolding shapes_block_def describe_def shape_destroy_def Let_def fold_say shapes_def
  by (simp add: say_def comp_def)

subsection \<open>Unique, shared and weak pointers\<close>

text \<open>A \<open>unique_ptr\<close> is an option; a moved-from one is null, and using it is undefined.\<close>

definition unique_part :: "'f real_ops \<Rightarrow> 'f \<Rightarrow> 'f world \<Rightarrow> ('f shape option \<times> 'f shape option \<times> 'f world) option" where
  "unique_part F r w =
     (let u1 = Some (Circle r)
      in Option.bind u1 (\<lambda>c. let w = say (Unique_area (area F c)) w; (u2, u1) = (u1, None)
         in Option.bind u2 (\<lambda>c. Some (u1, u2, say (After_move (u1 \<noteq> None) (area F c)) w))))"

definition unique_destroy :: "'f shape option \<Rightarrow> 'f world \<Rightarrow> 'f world" where
  "unique_destroy u w = (case u of None \<Rightarrow> w | Some s \<Rightarrow> shape_destroy s w)"

text \<open>The \<open>EventBus\<close> under its control block: the number of owners, and the log of the object while it
  is alive. Weak pointers do not count.\<close>

record bus =
  bus_owners :: nat
  bus_log :: "string list option"

definition make_bus :: bus where
  "make_bus = \<lparr>bus_owners = 1, bus_log = Some []\<rparr>"

definition weak_lock :: "bus \<Rightarrow> bus option" where
  "weak_lock b = (if bus_owners b = 0 then None else Some (b\<lparr>bus_owners := bus_owners b + 1\<rparr>))"

text \<open>An owner goes; the last one destroys the bus. Without owners there is nothing to release.\<close>

definition release_owner :: "bus \<times> 'f world \<Rightarrow> (bus \<times> 'f world) option" where
  "release_owner s = (case s of (b, w) \<Rightarrow>
     if bus_owners b = 0 then None
     else if 1 < bus_owners b then Some (b\<lparr>bus_owners := bus_owners b - 1\<rparr>, w)
     else (case bus_log b of None \<Rightarrow> None
           | Some log \<Rightarrow> Some (\<lparr>bus_owners = 0, bus_log = None\<rparr>, say (Bus_destroyed (length log)) w)))"

definition bus_post :: "string \<Rightarrow> bus \<times> 'f world \<Rightarrow> (bus \<times> 'f world) option" where
  "bus_post msg s = (case s of (b, w) \<Rightarrow>
     (case bus_log b of None \<Rightarrow> None | Some log \<Rightarrow> Some (b\<lparr>bus_log := Some (log @ [msg])\<rparr>, say (Bus_post msg) w)))"

definition try_post :: "string \<Rightarrow> string \<Rightarrow> bus \<times> 'f world \<Rightarrow> (bus \<times> 'f world) option" where
  "try_post name msg s = (case s of (b, w) \<Rightarrow>
     (case weak_lock b of
        None \<Rightarrow> Some (b, say (Bus_gone name msg) w)
      | Some b \<Rightarrow> Option.bind (bus_post (name @ '': '' @ msg) (b, w)) release_owner))"

text \<open>A client of the bus: it copies a shared pointer, resets one, or posts through a weak pointer.
  Copying and resetting null pointers have no effect.\<close>

datatype bus_op = Copy_ptr | Reset_ptr | Try_post string string

fun bus_do :: "bus_op \<Rightarrow> bus \<times> 'f world \<Rightarrow> (bus \<times> 'f world) option" where
  "bus_do Copy_ptr (b, w) = Some (if bus_owners b = 0 then b else b\<lparr>bus_owners := bus_owners b + 1\<rparr>, w)"
| "bus_do Reset_ptr (b, w) = (if bus_owners b = 0 then Some (b, w) else release_owner (b, w))"
| "bus_do (Try_post name msg) (b, w) = try_post name msg (b, w)"

fun bus_run :: "bus_op list \<Rightarrow> bus \<times> 'f world \<Rightarrow> (bus \<times> 'f world) option" where
  "bus_run [] s = Some s"
| "bus_run (op # ops) s = Option.bind (bus_do op s) (bus_run ops)"

text \<open>The last block of \<open>main\<close>. At its end the shared pointer is null already, and \<open>u2\<close> owns the circle.\<close>

definition pointers_block :: "'f real_ops \<Rightarrow> (nat \<Rightarrow> 'f) \<Rightarrow> 'f world \<Rightarrow> 'f world option" where
  "pointers_block F lit w =
     Option.bind (unique_part F (lit 3) w) (\<lambda>(u1, u2, w).
     let bus = make_bus; w = say (Use_count (bus_owners bus)) w
     in Option.bind (bus_run [Try_post ''Alice'' ''Hello from Alice'', Try_post ''Bob'' ''Hello from Bob'', Reset_ptr,
           Try_post ''Alice'' ''Is anyone still there?'', Reset_ptr] (bus, w)) (\<lambda>(bus, w).
        Some (unique_destroy u1 (unique_destroy u2 w))))"

text \<open>What a client sees: posts arrive while there is an owner and are dropped afterwards; the bus is
  destroyed when the last owner goes, and says how many posts it got.\<close>

fun bus_story :: "nat \<Rightarrow> nat \<Rightarrow> bus_op list \<Rightarrow> 'f tour_event list" where
  "bus_story k n [] = []"
| "bus_story k n (Copy_ptr # ops) = bus_story (if k = 0 then 0 else k + 1) n ops"
| "bus_story k n (Reset_ptr # ops) = (if k = 1 then Bus_destroyed n # bus_story 0 n ops else bus_story (k - 1) n ops)"
| "bus_story k n (Try_post name msg # ops) =
     (if k = 0 then Bus_gone name msg # bus_story 0 n ops else Bus_post (name @ '': '' @ msg) # bus_story k (n + 1) ops)"

definition bus_ok :: "bus \<Rightarrow> bool" where
  "bus_ok b \<longleftrightarrow> (bus_owners b = 0 \<longleftrightarrow> bus_log b = None)"

definition posts :: "bus \<Rightarrow> nat" where
  "posts b = (case bus_log b of None \<Rightarrow> 0 | Some log \<Rightarrow> length log)"

lemma dead_story: "bus_story 0 n ops = bus_story 0 0 ops" "set (bus_story 0 n ops) \<subseteq> range (case_prod Bus_gone)"
proof (induction ops)
  case (Cons op ops)
  { case 1 from Cons show ?case by (cases op) simp_all }
  { case 2 from Cons show ?case by (cases op) auto }
qed simp_all

lemma bus_do_story:
  assumes "bus_ok b"
  shows "\<exists>b' w' es. bus_do op (b, w) = Some (b', w') \<and> bus_ok b' \<and> w_out w' = w_out w @ es \<and>
    (\<forall>ops. bus_story (bus_owners b) (posts b) (op # ops) = es @ bus_story (bus_owners b') (posts b') ops)"
proof (cases "bus_log b")
  case None
  with assms have "bus_owners b = 0" by (simp add: bus_ok_def)
  with None show ?thesis by (cases op) (auto simp: bus_ok_def posts_def try_post_def weak_lock_def say_def)
next
  case (Some log)
  with assms have "0 < bus_owners b" by (simp add: bus_ok_def)
  with Some show ?thesis
    by (cases op) (auto simp: bus_ok_def posts_def try_post_def weak_lock_def bus_post_def release_owner_def say_def
      intro: dead_story)
qed

lemma bus_run_story:
  "bus_ok b \<Longrightarrow> \<exists>b' w'. bus_run ops (b, w) = Some (b', w') \<and> bus_ok b' \<and>
    w_out w' = w_out w @ bus_story (bus_owners b) (posts b) ops"
proof (induction ops arbitrary: b w)
  case (Cons op ops)
  obtain b1 w1 es where s: "bus_do op (b, w) = Some (b1, w1)" "bus_ok b1" "w_out w1 = w_out w @ es"
    "bus_story (bus_owners b) (posts b) (op # ops) = es @ bus_story (bus_owners b1) (posts b1) ops"
    using bus_do_story [OF Cons.prems] by blast
  from Cons.IH [OF s(2), of w1] show ?case by (simp only: bus_run.simps s bind.bind_lunit append_assoc)
qed simp

text \<open>As long as there is an owner there are only posts; then the bus is destroyed, once.\<close>

lemma bus_story_split:
  "\<exists>before after. bus_story k n ops = before @ after \<and> set before \<subseteq> range Bus_post \<and>
     (after = [] \<or> (\<exists>rest. after = Bus_destroyed (n + length before) # rest \<and> set rest \<subseteq> range (case_prod Bus_gone)))"
  if "0 < k"
  using that
proof (induction k n ops rule: bus_story.induct)
  case (2 k n ops)
  then show ?case by simp
next
  case (3 k n ops)
  show ?case
  proof (cases "k = 1")
    case True
    then show ?thesis using dead_story(2) [of n ops] by (intro exI [of _ "[]"] exI [of _ "Bus_destroyed n # bus_story 0 n ops"]) simp
  next
    case False
    with 3 show ?thesis by simp
  qed
next
  case (4 k n name msg ops)
  then have k: "k \<noteq> 0" by simp
  from 4(2) [OF k 4(3)] obtain before after :: "'a tour_event list" where ih: "bus_story k (n + 1) ops = before @ after" "set before \<subseteq> range Bus_post"
    "after = [] \<or> (\<exists>rest. after = Bus_destroyed (n + 1 + length before) # rest \<and> set rest \<subseteq> range (case_prod Bus_gone))" by blast
  define e where "e = (Bus_post (name @ '': '' @ msg) :: 'a tour_event)"
  have "bus_story k n (Try_post name msg # ops) = (e # before) @ after" using k ih(1) by (simp add: e_def)
  moreover have "set (e # before) \<subseteq> range Bus_post" using ih(2) by (simp add: e_def)
  moreover have "after = [] \<or> (\<exists>rest. after = Bus_destroyed (n + length (e # before)) # rest \<and> set rest \<subseteq> range (case_prod Bus_gone))"
    using ih(3) by simp
  ultimately show ?case by (intro exI conjI)
qed simp

lemma pointers_block_prints: "pointers_block F lit w = Some (w\<lparr>w_out := w_out w @
    [Unique_area (area F (Circle (lit 3))), After_move False (area F (Circle (lit 3))),
     Use_count 1, Bus_post ''Alice: Hello from Alice'', Bus_post ''Bob: Hello from Bob'', Bus_destroyed 2,
     Bus_gone ''Alice'' ''Is anyone still there?'', Shape_dtor ''Circle'']\<rparr>)"
  by (simp add: pointers_block_def unique_part_def unique_destroy_def shape_destroy_def make_bus_def try_post_def
    weak_lock_def bus_post_def release_owner_def say_def Let_def)

subsection \<open>Optional values, views and spans\<close>

definition lookup :: "int \<Rightarrow> string option" where
  "lookup key = (if key = 1 then Some ''Alice'' else if key = 2 then Some ''Bob'' else None)"

definition greeting :: "int \<Rightarrow> string" where
  "greeting key = (case map_option (\<lambda>n. ''Hello, '' @ n @ ''!'') (lookup key) of
     None \<Rightarrow> ''Hello, stranger!'' | Some g \<Rightarrow> g)"

text \<open>The lists behind the lazy views: \<open>iota(a, b)\<close> ends before \<open>b\<close>.\<close>

definition iota :: "int \<Rightarrow> int \<Rightarrow> int list" where
  "iota a b = [a..b - 1]"

definition views_block :: "int list \<times> int \<times> int list" where
  "views_block =
     (take 5 (map (\<lambda>n. n * n) (filter (\<lambda>n. n smod 3 = 0) (iota 1 20))),
      foldl (+) 0 [1, 2, 3, 4, 5],
      map (\<lambda>n. n * n) (iota 1 6))"

text \<open>\<open>subspan\<close> beyond the end is undefined.\<close>

definition subspan :: "'f list \<Rightarrow> nat \<Rightarrow> nat \<Rightarrow> 'f list option" where
  "subspan s offset cnt = (if offset + cnt \<le> length s then Some (take cnt (drop offset s)) else None)"

definition span_block :: "'f list \<Rightarrow> 'f list \<Rightarrow> (string \<times> nat \<times> 'f list) list option" where
  "span_block raw vec =
     (let line = (\<lambda>s label. (label, length s, s))
      in map_option (\<lambda>sub. [line raw ''C-array'', line vec ''vector '', line sub ''subspan'']) (subspan raw 1 3))"

definition parse_block :: "(string \<times> int expected option) list" where
  "parse_block = map (\<lambda>s. (s, parse_square s)) [''42'', ''3x7'', ''100'']"

lemma value_blocks:
  "map greeting [1, 2, 3] = [''Hello, Alice!'', ''Hello, Bob!'', ''Hello, stranger!'']"
  "views_block = ([9, 36, 81, 144, 225], 15, [1, 4, 9, 16, 25])"
  "length raw = 5 \<Longrightarrow> span_block raw vec = Some [(''C-array'', 5, raw), (''vector '', length vec, vec), (''subspan'', 3, take 3 (drop 1 raw))]"
  "parse_block = [(''42'', Some (Inr 1764)), (''3x7'', Some (Inl (not_a_digit (CHR ''x'') ''3x7''))), (''100'', Some (Inr 10000))]"
proof -
  show "map greeting [1, 2, 3] = [''Hello, Alice!'', ''Hello, Bob!'', ''Hello, stranger!'']"
    by (simp add: greeting_def lookup_def)
  show "views_block = ([9, 36, 81, 144, 225], 15, [1, 4, 9, 16, 25])" by code_simp
  show "parse_block = [(''42'', Some (Inr 1764)), (''3x7'', Some (Inl (not_a_digit (CHR ''x'') ''3x7''))), (''100'', Some (Inr 10000))]"
    by code_simp
qed (simp add: span_block_def subspan_def)

subsection \<open>\<open>main\<close>\<close>

text \<open>
  All its sections: what the four without objects compute, and the world they end in. \<open>tenth n\<close> is the
  literal for \<open>n / 10\<close>.
\<close>

definition kitchen_main :: "(string \<Rightarrow> bool) \<Rightarrow> 'f real_ops \<Rightarrow> (nat \<Rightarrow> 'f) \<Rightarrow> (nat \<Rightarrow> 'f) \<Rightarrow> ('f shape list \<Rightarrow> 'f shape list) \<Rightarrow> 'f world \<Rightarrow>
    ((string \<times> int expected) list \<times> string list \<times> (int list \<times> int \<times> int list) \<times> (string \<times> nat \<times> 'f list) list \<times> 'f world) option" where
  "kitchen_main can F lit tenth order w =
     Option.bind (raii_block can w) (\<lambda>w.
     Option.bind (those (map (\<lambda>(s, r). map_option (Pair s) r) parse_block)) (\<lambda>parsed.
     Option.bind (span_block (map tenth [11, 22, 33, 44, 55]) (map tenth [99, 88, 77])) (\<lambda>spans.
     Option.bind (diamond_block SmartSensor ''dev-42'' 2400 ''temperature'' (shapes_block F lit order w)) (\<lambda>(ss, w).
     map_option (\<lambda>w. (parsed, map greeting [1, 2, 3], views_block, spans, w)) (pointers_block F lit w)))))"

lemma kitchen_main_returns: "kitchen_main can F lit tenth order w \<noteq> None"
proof -
  obtain w1 where w1: "raii_block can w = Some w1" by (simp add: raii_block_run)
  obtain ss w2 where "diamond_block SmartSensor ''dev-42'' 2400 ''temperature'' (shapes_block F lit order w1) = Some (ss, w2)"
    using diamond_ends by blast
  with w1 show ?thesis by (simp add: kitchen_main_def pointers_block_prints value_blocks(3,4))
qed

subsection \<open>Property\<close>

text \<open>What a list of events acquires and releases.\<close>

fun acquired :: "'f tour_event list \<Rightarrow> string list" where
  "acquired [] = []"
| "acquired (Guard_acquired p # es) = p # acquired es"
| "acquired (_ # es) = acquired es"

fun released :: "'f tour_event list \<Rightarrow> string list" where
  "released [] = []"
| "released (Guard_released p # es) = p # released es"
| "released (_ # es) = released es"

text \<open>C39: Objects are used only while they live. The file block leaves no stream open, whichever files
  can be opened, and releases what it acquired in reverse order. An object of any class of the
  diamond is built with each subobject once and after its bases, a virtual call finds all members
  it reads, and destruction leaves none. For every sequence of copies, resets and posts, no post
  reaches a bus that was destroyed: the posts come first, then the bus is destroyed once, if the
  last owner goes, with as many events logged as were posted, and later posts are dropped. So \<open>main\<close>
  comes to its end without undefined behaviour, through all its sections.\<close>

theorem lifetimes_respected:
  fixes w :: "'f world"
  shows "(\<exists>w' es. raii_block can w = Some w' \<and> w_out w' = w_out w @ es \<and> w_open w' = w_open w \<and> released es = rev (acquired es)) \<and>
   distinct (construct_order c) \<and> last (construct_order c) = c \<and>
   list_all (\<lambda>(v, b). set (construct_order b) \<subseteq> set (butlast (construct_order c))) (direct_bases c) \<and>
   (\<exists>w'. diamond_block c i f t w = Some (\<lparr>d_id = None, d_freq = None, d_type = None\<rparr>, w')) \<and>
   (\<exists>b w' before after. bus_run ops (make_bus, w) = Some (b, w') \<and> w_out w' = w_out w @ before @ after \<and>
      set before \<subseteq> range Bus_post \<and>
      (after = [] \<or> (\<exists>rest. after = Bus_destroyed (length before) # rest \<and> set rest \<subseteq> range (case_prod Bus_gone)))) \<and>
   kitchen_main can F lit tenth order w \<noteq> None"
proof (intro conjI)
  show "\<exists>w' es. raii_block can w = Some w' \<and> w_out w' = w_out w @ es \<and> w_open w' = w_open w \<and> released es = rev (acquired es)"
    unfolding raii_block_run by (intro exI conjI) (rule refl, simp, simp, simp)
  show "list_all (\<lambda>(v, b). set (construct_order b) \<subseteq> set (butlast (construct_order c))) (direct_bases c)"
    using construct_once [of c] by (auto simp: list_all_iff)
  obtain b w' where r: "bus_run ops (make_bus, w) = Some (b, w')" "w_out w' = w_out w @ bus_story 1 0 ops"
    using bus_run_story [of make_bus ops w] by (auto simp: make_bus_def bus_ok_def posts_def)
  obtain before after :: "'f tour_event list" where "bus_story 1 0 ops = before @ after" "set before \<subseteq> range Bus_post"
    "after = [] \<or> (\<exists>rest. after = Bus_destroyed (0 + length before) # rest \<and> set rest \<subseteq> range (case_prod Bus_gone))"
    using bus_story_split [OF zero_less_one, of 0 ops] by blast
  with r show "\<exists>b w' before after. bus_run ops (make_bus, w) = Some (b, w') \<and> w_out w' = w_out w @ before @ after \<and>
      set before \<subseteq> range Bus_post \<and>
      (after = [] \<or> (\<exists>rest. after = Bus_destroyed (length before) # rest \<and> set rest \<subseteq> range (case_prod Bus_gone)))"
    by (intro exI [of _ b] exI [of _ w'] exI [of _ before] exI [of _ after]) simp
qed (use construct_once diamond_ends kitchen_main_returns in blast)+

end
