(* ===== verification/Monitor_Programs.thy ===== *)
theory Monitor_Programs
  imports Monitors Waiting_Threads
begin

section \<open>The programs around the monitors\<close>

text \<open>
  The \<open>main\<close> functions of \<open>thread_safe_queue.cpp\<close>, \<open>async_logger.cpp\<close>, \<open>bounded_blocking_queue.cpp\<close> and
  \<open>thread_pool.cpp\<close>, with their benchmarks: what each thread does is a step of the monitor it uses,
  chosen by the loop it is in. A state of a program is that of its monitor with the loop counters. A
  spurious wake-up may happen at any time; the theorems say that every other step takes the program
  nearer to its end. The numbers of operations are parameters.
\<close>

subsection \<open>One producer and one consumer that ends with the queue\<close>

text \<open>The producer pushes \<open>n\<close> messages and sets the flag (\<open>set_done\<close>, or the destructor of the logger);
  the consumer is worker 0, whose calls of \<open>wait_and_pop\<close> end with the first false.\<close>

record 'a feed_state =
  fd_i :: nat
  fd_m :: "'a monitor"

definition feed_init :: "'a feed_state" where
  "feed_init = \<lparr>fd_i = 0, fd_m = monitor_init 1\<rparr>"

inductive feed_act :: "nat \<Rightarrow> (nat \<Rightarrow> 'a) \<Rightarrow> 'a feed_state \<Rightarrow> 'a feed_state \<Rightarrow> bool" for n msg where
  feed_push: "fd_i s < n \<Longrightarrow> notify_one (enqueue (msg (fd_i s)) (fd_m s)) m \<Longrightarrow> feed_act n msg s \<lparr>fd_i = fd_i s + 1, fd_m = m\<rparr>"
| feed_close: "fd_i s = n \<Longrightarrow> \<not> mo_done (fd_m s) \<Longrightarrow>
    feed_act n msg s (s\<lparr>fd_m := notify_all ((fd_m s)\<lparr>mo_done := True\<rparr>)\<rparr>)"
| feed_consume: "tsq_wait_and_pop 0 (fd_m s) m \<Longrightarrow> feed_act n msg s (s\<lparr>fd_m := m\<rparr>)"

definition feed_step :: "nat \<Rightarrow> (nat \<Rightarrow> 'a) \<Rightarrow> 'a feed_state \<Rightarrow> 'a feed_state \<Rightarrow> bool" where
  "feed_step n msg s t \<longleftrightarrow> feed_act n msg s t \<or> (\<exists>m. spurious_step 0 (fd_m s) m \<and> t = s\<lparr>fd_m := m\<rparr>)"

definition feed_inv :: "nat \<Rightarrow> (nat \<Rightarrow> 'a) \<Rightarrow> 'a feed_state \<Rightarrow> bool" where
  "feed_inv n msg s \<longleftrightarrow> monitor_inv 1 (fd_m s) \<and> quiet (fd_m s) \<and> in_order (fd_m s) \<and> gone_empty (fd_m s) \<and>
     fd_i s \<le> n \<and> mo_in (fd_m s) = map msg [0..<fd_i s] \<and> (mo_done (fd_m s) \<longrightarrow> fd_i s = n)"

lemma feed_init_inv: "feed_inv n msg feed_init"
  by (simp add: feed_inv_def feed_init_def init_inv [of 1, simplified] init_quiet init_gone_empty)
    (simp add: in_order_def monitor_init_def)

lemma notify_one_fields: "notify_one s t \<Longrightarrow> mo_in t = mo_in s \<and> mo_done t = mo_done s \<and> mo_queue t = mo_queue s"
  by (erule notify_one.cases) simp_all

lemma worker_fields: "worker_step i s t \<Longrightarrow> mo_in t = mo_in s \<and> mo_done t = mo_done s"
  by (erule worker_step.cases) simp_all

lemma feed_act_inv:
  assumes "feed_act n msg s t" "feed_inv n msg s"
  shows "feed_inv n msg t"
  using assms(1)
proof cases
  case (feed_push m)
  note i = assms(2) [unfolded feed_inv_def]
  have nd: "\<not> mo_done (fd_m s)" using i feed_push(2) by auto
  have "monitor_inv 1 m" "quiet m" using i enqueue_notify_inv [OF feed_push(3)] enqueue_quiet [OF feed_push(3)] by blast+
  moreover have "in_order m" "gone_empty m" using i log_accepts [OF feed_push(3) nd] by blast+
  moreover have "mo_in m = map msg [0..<fd_i s + 1]" "mo_done m = mo_done (fd_m s)"
    using i notify_one_fields [OF feed_push(3)] by (simp_all add: enqueue_def)
  ultimately show ?thesis using feed_push nd by (simp add: feed_inv_def)
next
  case feed_close
  with assms(2) set_done_inv [of 1 "fd_m s"] log_closes [of "fd_m s"] show ?thesis
    by (auto simp: feed_inv_def notify_all_def)
next
  case (feed_consume m)
  then have w: "worker_step 0 (fd_m s) m" by (simp add: tsq_wait_and_pop_def)
  with assms(2) worker_fields [OF w] feed_consume(1) show ?thesis
    by (auto simp: feed_inv_def intro: worker_inv worker_quiet worker_in_order worker_gone_empty)
qed

lemma feed_inv_step: "feed_step n msg s t \<Longrightarrow> feed_inv n msg s \<Longrightarrow> feed_inv n msg t"
proof -
  assume "feed_step n msg s t" and i: "feed_inv n msg s"
  then consider "feed_act n msg s t" | m where "spurious_step 0 (fd_m s) m" "t = s\<lparr>fd_m := m\<rparr>" by (auto simp: feed_step_def)
  then show ?thesis
  proof cases
    case 2
    from 2(1) have "mo_in m = mo_in (fd_m s) \<and> mo_done m = mo_done (fd_m s)" by cases simp
    with 2 i show ?thesis
      by (auto simp: feed_inv_def intro: spurious_inv spurious_quiet spurious_in_order spurious_gone_empty)
  qed (use i feed_act_inv in blast)
qed

text \<open>Every step but a spurious wake-up takes this down.\<close>

fun effort :: "'a worker \<Rightarrow> nat" where
  "effort Gone = 0"
| "effort Asleep = 1"
| "effort Ready = 2"
| "effort (Busy x) = 3"

definition feed_left :: "nat \<Rightarrow> 'a feed_state \<Rightarrow> nat" where
  "feed_left n s = 6 * (n - fd_i s) + (if mo_done (fd_m s) then 0 else 2) + 3 * length (mo_queue (fd_m s)) +
     sum_list (map effort (mo_ws (fd_m s)))"

lemma effort_update:
  "i < length ws \<Longrightarrow> sum_list (map effort (ws[i := w])) + effort (ws ! i) = sum_list (map effort ws) + effort w"
proof (induction ws arbitrary: i)
  case (Cons v ws)
  show ?case
  proof (cases i)
    case (Suc j)
    with Cons.IH [of j] Cons.prems show ?thesis by simp
  qed simp
qed simp

lemma worker_effort:
  assumes "worker_step i s t"
  shows "3 * length (mo_queue t) + sum_list (map effort (mo_ws t)) < 3 * length (mo_queue s) + sum_list (map effort (mo_ws s))"
  using assms
proof cases
  case sleeps
  with effort_update [OF sleeps(2), of Asleep] show ?thesis by simp
next
  case leaves
  with effort_update [OF leaves(2), of Gone] show ?thesis by simp
next
  case (takes x xs)
  with effort_update [OF takes(2), of "Busy x"] show ?thesis by simp
next
  case (runs x)
  with effort_update [OF runs(2), of Ready] show ?thesis by simp
qed

lemma notify_effort: "notify_one s t \<Longrightarrow> sum_list (map effort (mo_ws t)) \<le> Suc (sum_list (map effort (mo_ws s)))"
proof (erule notify_one.cases)
  fix i r assume r: "s = r" "t = r\<lparr>mo_ws := (mo_ws r)[i := Ready]\<rparr>" "i < length (mo_ws r)" "mo_ws r ! i = Asleep"
  with effort_update [OF r(3), of Ready] show ?thesis by simp
qed simp

lemma wake_effort: "sum_list (map effort (map wake ws)) \<le> sum_list (map effort ws) + length ws"
proof (induction ws)
  case (Cons w ws)
  have "effort (wake w) \<le> effort w + 1" by (cases w) simp_all
  with Cons show ?case by simp
qed simp

lemma feed_nearer:
  assumes "feed_act n msg s t" "feed_inv n msg s"
  shows "feed_left n t < feed_left n s"
  using assms(1)
proof cases
  case (feed_push m)
  with notify_effort [OF feed_push(3)] notify_one_fields [OF feed_push(3)] show ?thesis
    by (simp add: feed_left_def enqueue_def)
next
  case feed_close
  have "length (mo_ws (fd_m s)) = 1" using assms(2) by (simp add: feed_inv_def monitor_inv_def)
  with feed_close wake_effort [of "mo_ws (fd_m s)"] show ?thesis by (simp add: feed_left_def notify_all_def)
next
  case (feed_consume m)
  then have "worker_step 0 (fd_m s) m" by (simp add: tsq_wait_and_pop_def)
  with worker_effort [OF this] worker_fields [OF this] feed_consume(1) show ?thesis by (simp add: feed_left_def)
qed

text \<open>Only at the end there is nothing left to do.\<close>

definition feed_over :: "nat \<Rightarrow> (nat \<Rightarrow> 'a) \<Rightarrow> 'a feed_state \<Rightarrow> bool" where
  "feed_over n msg s \<longleftrightarrow> fd_i s = n \<and> mo_ws (fd_m s) = [Gone] \<and> mo_out (fd_m s) = map msg [0..<n]"

lemma map_prefix_upt:
  assumes "xs @ ys = map msg [0..<i]"
  shows "\<exists>k \<le> i. xs = map msg [0..<k]"
proof -
  have le: "length xs \<le> i" using arg_cong [OF assms, of length] by simp
  have "xs = take (length xs) (map msg [0..<i])" using assms by (metis append_eq_conv_conj)
  with le have "xs = map msg [0..<length xs]" by (simp add: take_map take_upt)
  with le show ?thesis by blast
qed

lemma feed_out:
  assumes "feed_inv n msg s"
  obtains w where "mo_ws (fd_m s) = [w]" "mo_out (fd_m s) @ busy w @ mo_queue (fd_m s) = map msg [0..<fd_i s]"
  using assms unfolding feed_inv_def in_order_def monitor_inv_def by (metis append.assoc)

lemma notify_exists: "\<exists>t. notify_one s t"
proof (cases "Asleep \<in> set (mo_ws s)")
  case True
  then obtain i where "i < length (mo_ws s)" "mo_ws s ! i = Asleep" by (auto simp: in_set_conv_nth)
  then show ?thesis by (blast intro: wakes)
qed (blast intro: nobody)

lemma feed_can_move:
  assumes "feed_inv n msg s" "\<not> feed_over n msg s"
  shows "\<exists>t. feed_act n msg s t"
proof -
  obtain w where w: "mo_ws (fd_m s) = [w]" "mo_out (fd_m s) @ busy w @ mo_queue (fd_m s) = map msg [0..<fd_i s]"
    using feed_out [OF assms(1)] .
  consider "fd_i s < n" | "fd_i s = n" "\<not> mo_done (fd_m s)" | "fd_i s = n" "mo_done (fd_m s)"
    using assms(1) by (auto simp: feed_inv_def le_less)
  then show ?thesis
  proof cases
    case 1
    with feed_push notify_exists show ?thesis by blast
  next
    case 3
    have "w \<noteq> Gone"
    proof
      assume "w = Gone"
      moreover from this w(1) have "mo_queue (fd_m s) = []" using assms(1) by (simp add: feed_inv_def gone_empty_def)
      ultimately show False using assms(2) w 3(1) by (simp add: feed_over_def)
    qed
    moreover have "w \<noteq> Asleep" using assms(1) 3(2) w(1) by (auto simp: feed_inv_def monitor_inv_def quiet_def)
    ultimately have "w = Ready \<or> (\<exists>x. w = Busy x)" by (cases w) simp_all
    with worker_can_move [of 0 "fd_m s"] w(1) obtain m where "worker_step 0 (fd_m s) m" by auto
    then show ?thesis using feed_consume [of s m] by (auto simp: tsq_wait_and_pop_def)
  qed (use feed_close in blast)
qed

lemma feed_reach: "(feed_step n msg)\<^sup>*\<^sup>* feed_init s \<Longrightarrow> feed_inv n msg s"
  by (erule reach_keeps [where step = "feed_step n msg" and I = "feed_inv n msg"]) (auto intro: feed_init_inv feed_inv_step)

lemma feed_program:
  assumes "(feed_step n msg)\<^sup>*\<^sup>* feed_init s"
  shows "\<exists>k \<le> n. mo_out (fd_m s) = map msg [0..<k]"
    "mo_ws (fd_m s) = [Gone] \<Longrightarrow> mo_out (fd_m s) = map msg [0..<n]"
    "surely_ends (feed_act n msg) (feed_over n msg) s"
proof -
  have i: "feed_inv n msg s" using assms by (rule feed_reach)
  obtain w where w: "mo_ws (fd_m s) = [w]" "mo_out (fd_m s) @ busy w @ mo_queue (fd_m s) = map msg [0..<fd_i s]"
    using feed_out [OF i] .
  have le: "fd_i s \<le> n" using i by (simp add: feed_inv_def)
  from map_prefix_upt [OF w(2)] le show "\<exists>k \<le> n. mo_out (fd_m s) = map msg [0..<k]" by (meson le_trans)
  show "mo_out (fd_m s) = map msg [0..<n]" if "mo_ws (fd_m s) = [Gone]"
    using w that i by (auto simp: feed_inv_def gone_empty_def)
  from i show "surely_ends (feed_act n msg) (feed_over n msg) s"
    by (rule surely_endsI [where I = "feed_inv n msg" and rank = "feed_left n"])
      (simp_all add: feed_act_inv feed_nearer feed_can_move)
qed

text \<open>The program of the logger: three messages and then the benchmark line; \<open>\n\<close> ends each of them.\<close>

definition log_line :: "nat \<Rightarrow> string" where
  "log_line i = (if i = 0 then ''[INFO] start'' else if i = 1 then ''[INFO] processing'' else if i = 2 then ''[INFO] done''
     else ''[INFO] benchmark line'') @ [CHR 0x0A]"

definition logger_main :: "nat \<Rightarrow> string feed_state \<Rightarrow> string feed_state \<Rightarrow> bool" where
  "logger_main bench_ops = feed_step (3 + bench_ops) log_line"

lemma logger_main_prints:
  assumes "(logger_main bench_ops)\<^sup>*\<^sup>* feed_init s" "mo_ws (fd_m s) = [Gone]"
  shows "printed (fd_m s) = concat (map log_line [0..<3 + bench_ops])"
  using feed_program(2) [of "3 + bench_ops" log_line s] assms by (simp add: logger_main_def printed_def)

subsection \<open>The baseline without a condition variable\<close>

definition nsq_push :: "'a \<Rightarrow> 'a list \<Rightarrow> 'a list" where
  "nsq_push v q = q @ [v]"

definition nsq_try_pop :: "'a list \<Rightarrow> 'a option \<times> 'a list" where
  "nsq_try_pop q = (case q of [] \<Rightarrow> (None, []) | v # q \<Rightarrow> (Some v, q))"

record 'a spin_run =
  sr_i :: nat
  sr_q :: "'a list"
  sr_got :: "'a list"

text \<open>The consumer counts what it got, and yields when there is nothing.\<close>

inductive spin_act :: "nat \<Rightarrow> (nat \<Rightarrow> 'a) \<Rightarrow> 'a spin_run \<Rightarrow> 'a spin_run \<Rightarrow> bool" for n msg where
  spin_push: "sr_i s < n \<Longrightarrow> spin_act n msg s (s\<lparr>sr_i := sr_i s + 1, sr_q := nsq_push (msg (sr_i s)) (sr_q s)\<rparr>)"
| spin_pop: "length (sr_got s) < n \<Longrightarrow> nsq_try_pop (sr_q s) = (Some v, q) \<Longrightarrow>
    spin_act n msg s (s\<lparr>sr_q := q, sr_got := sr_got s @ [v]\<rparr>)"
| spin_yield: "length (sr_got s) < n \<Longrightarrow> nsq_try_pop (sr_q s) = (None, q) \<Longrightarrow> spin_act n msg s (s\<lparr>sr_q := q\<rparr>)"

definition spin_inv :: "nat \<Rightarrow> (nat \<Rightarrow> 'a) \<Rightarrow> 'a spin_run \<Rightarrow> bool" where
  "spin_inv n msg s \<longleftrightarrow> sr_got s @ sr_q s = map msg [0..<sr_i s] \<and> sr_i s \<le> n"

lemma spin_act_inv: "spin_act n msg s t \<Longrightarrow> spin_inv n msg s \<Longrightarrow> spin_inv n msg t"
  by (erule spin_act.cases) (auto simp: spin_inv_def nsq_push_def nsq_try_pop_def split: list.splits)

lemma spin_program:
  assumes "(spin_act n msg)\<^sup>*\<^sup>* \<lparr>sr_i = 0, sr_q = [], sr_got = []\<rparr> s"
  shows "\<exists>k \<le> n. sr_got s = map msg [0..<k]" "\<exists>t. (spin_act n msg)\<^sup>*\<^sup>* s t \<and> sr_i t = n \<and> sr_got t = map msg [0..<n]"
proof -
  have "spin_inv n msg \<lparr>sr_i = 0, sr_q = [], sr_got = []\<rparr>" by (simp add: spin_inv_def)
  with assms have i: "spin_inv n msg s" by (induction rule: rtranclp_induct) (auto intro: spin_act_inv)
  then show "\<exists>k \<le> n. sr_got s = map msg [0..<k]" unfolding spin_inv_def by (meson map_prefix_upt le_trans)
  let ?left = "\<lambda>s. 2 * (n - sr_i s) + length (sr_q s)"
  have "\<exists>v. spin_act n msg u v \<and> ?left v < ?left u" if "spin_inv n msg u" "\<not> (sr_i u = n \<and> sr_got u = map msg [0..<n])" for u
  proof (cases "sr_i u < n")
    case True
    then have "?left (u\<lparr>sr_i := sr_i u + 1, sr_q := nsq_push (msg (sr_i u)) (sr_q u)\<rparr>) < ?left u" by (simp add: nsq_push_def)
    with spin_push [OF True] show ?thesis by blast
  next
    case False
    with that have n: "sr_i u = n" "sr_got u @ sr_q u = map msg [0..<n]" by (auto simp: spin_inv_def)
    with that(2) obtain v q where q: "sr_q u = v # q" by (cases "sr_q u") auto
    moreover have "length (sr_got u) < n" using arg_cong [OF n(2), of length] q by simp
    ultimately have "spin_act n msg u (u\<lparr>sr_q := q, sr_got := sr_got u @ [v]\<rparr>)" by (intro spin_pop) (simp_all add: nsq_try_pop_def)
    then show ?thesis using q by force
  qed
  then show "\<exists>t. (spin_act n msg)\<^sup>*\<^sup>* s t \<and> sr_i t = n \<and> sr_got t = map msg [0..<n]"
    using reaches_end [where I = "spin_inv n msg" and rank = ?left and step = "spin_act n msg"
        and final = "\<lambda>u. sr_i u = n \<and> sr_got u = map msg [0..<n]", OF i] spin_act_inv by blast
qed

subsection \<open>\<open>BoundedBlockingQueue\<close>: \<open>n\<close> pushes and \<open>n\<close> pops\<close>

record 'a bounded_run =
  br_i :: nat
  br_j :: nat
  br_q :: "'a blocking_queue"

definition bounded_init :: "'a bounded_run" where
  "bounded_init = \<lparr>br_i = 0, br_j = 0, br_q = bb_init 2\<rparr>"

text \<open>Thread 0 is the producer and thread 1 the consumer; \<open>br_i\<close> and \<open>br_j\<close> count the calls they made.\<close>

inductive bounded_act :: "nat \<Rightarrow> nat \<Rightarrow> (nat \<Rightarrow> 'a) \<Rightarrow> 'a bounded_run \<Rightarrow> 'a bounded_run \<Rightarrow> bool" for MaxSize n msg where
  producer_calls: "br_i s < n \<Longrightarrow> bb_ts (br_q s) ! 0 = B_out \<Longrightarrow>
    bounded_act MaxSize n msg s (s\<lparr>br_i := br_i s + 1, br_q := bb_set 0 (B_push (msg (br_i s))) (br_q s)\<rparr>)"
| consumer_calls: "br_j s < n \<Longrightarrow> bb_ts (br_q s) ! 1 = B_out \<Longrightarrow>
    bounded_act MaxSize n msg s (s\<lparr>br_j := br_j s + 1, br_q := bb_set 1 B_pop (br_q s)\<rparr>)"
| call_goes_on: "bb_ts (br_q s) ! k \<noteq> B_out \<Longrightarrow> bb_step MaxSize k (br_q s) q \<Longrightarrow> bounded_act MaxSize n msg s (s\<lparr>br_q := q\<rparr>)"

definition bounded_step :: "nat \<Rightarrow> nat \<Rightarrow> (nat \<Rightarrow> 'a) \<Rightarrow> 'a bounded_run \<Rightarrow> 'a bounded_run \<Rightarrow> bool" where
  "bounded_step MaxSize n msg s t \<longleftrightarrow> bounded_act MaxSize n msg s t \<or> (\<exists>k q. bb_spurious k (br_q s) q \<and> t = s\<lparr>br_q := q\<rparr>)"

text \<open>The values of the calls of the producer that have not ended, and the pops under way.\<close>

fun in_push :: "'a bb_pc \<Rightarrow> 'a list" where
  "in_push (B_push x) = [x]"
| "in_push (B_push_asleep x) = [x]"
| "in_push _ = []"

fun in_pop :: "'a bb_pc \<Rightarrow> nat" where
  "in_pop B_pop = 1"
| "in_pop B_pop_asleep = 1"
| "in_pop _ = 0"

definition bounded_inv :: "nat \<Rightarrow> nat \<Rightarrow> (nat \<Rightarrow> 'a) \<Rightarrow> 'a bounded_run \<Rightarrow> bool" where
  "bounded_inv MaxSize n msg s \<longleftrightarrow> bb_inv MaxSize (br_q s) \<and> br_i s \<le> n \<and> br_j s \<le> n \<and>
     (\<exists>p c. bb_ts (br_q s) = [p, c] \<and> in_pop p = 0 \<and> in_push c = [] \<and>
        bb_in (br_q s) @ in_push p = map msg [0..<br_i s] \<and> length (bb_got (br_q s)) + in_pop c = br_j s)"

lemma bounded_inv_init: "bounded_inv MaxSize n msg bounded_init"
  by (simp add: bounded_inv_def bounded_init_def bb_init_def bb_inv_def bb_waits_def numeral_2_eq_2)

lemma notify_cases:
  assumes "notify_not_empty s t" "bb_ts s = [p, c]" "in_pop p = 0"
  obtains "t = s" "c \<noteq> B_pop_asleep" | "t = bb_set 1 B_pop s" "c = B_pop_asleep"
  using assms(1)
proof cases
  case (wakes_pop i)
  with assms(2,3) have "i = 1" by (cases i) auto
  with wakes_pop assms(2) that show thesis by auto
qed (use assms(2) that in auto)

lemma notify_full_cases:
  assumes "notify_not_full s t" "bb_ts s = [p, c]" "in_push c = []"
  obtains "t = s" "\<forall>x. p \<noteq> B_push_asleep x" | x where "t = bb_set 0 (B_push x) s" "p = B_push_asleep x"
  using assms(1)
proof cases
  case (wakes_push i x)
  with assms(2,3) have "i = 0" by (cases i) auto
  with wakes_push assms(2) that show thesis by auto
qed (use assms(2) that in auto)

text \<open>What a call that goes on does, with two threads.\<close>

lemma call_cases:
  assumes "bb_step MaxSize k q q'" "bb_ts q = [p, c]" "in_pop p = 0" "in_push c = []" "bb_ts q ! k \<noteq> B_out"
  obtains x where "p = B_push x" "q' = q\<lparr>bb_ts := [B_push_asleep x, c]\<rparr>"
  | x where "p = B_push x" "q' = q\<lparr>bb_queue := bb_queue q @ [x], bb_in := bb_in q @ [x], bb_ts := [B_out, if c = B_pop_asleep then B_pop else c]\<rparr>"
  | "c = B_pop" "q' = q\<lparr>bb_ts := [p, B_pop_asleep]\<rparr>"
  | x xs where "c = B_pop" "bb_queue q = x # xs"
      "q' = q\<lparr>bb_queue := xs, bb_got := bb_got q @ [x], bb_ts := [case p of B_push_asleep y \<Rightarrow> B_push y | _ \<Rightarrow> p, B_out]\<rparr>"
  using assms(1)
proof cases
  case (push_waits x)
  with assms(2,4) have "k = 0" by (cases k) auto
  with push_waits assms(2) that(1) show thesis by (simp add: bb_set_def)
next
  case (push_done x)
  with assms(2,4) have k: "k = 0" by (cases k) auto
  define r where "r = bb_set 0 B_out (q\<lparr>bb_queue := bb_queue q @ [x], bb_in := bb_in q @ [x]\<rparr>)"
  have r: "bb_ts r = [B_out, c]" by (simp add: r_def bb_set_def assms(2))
  from push_done(4) k have "notify_not_empty r q'" by (simp add: r_def)
  then have "q' = r\<lparr>bb_ts := [B_out, if c = B_pop_asleep then B_pop else c]\<rparr>"
    by (rule notify_cases [OF _ r]) (auto simp: bb_set_def r)
  then show thesis using that(2) push_done(2) assms(2) k by (simp add: r_def bb_set_def)
next
  case pop_waits
  with assms(2,3) have "k = 1" by (cases k) auto
  with pop_waits assms(2) that(3) show thesis by (simp add: bb_set_def)
next
  case (pop_done x xs)
  with assms(2,3) have k: "k = 1" by (cases k) auto
  define r where "r = bb_set 1 B_out (q\<lparr>bb_queue := xs, bb_got := bb_got q @ [x]\<rparr>)"
  have r: "bb_ts r = [p, B_out]" by (simp add: r_def bb_set_def assms(2))
  from pop_done(4) k have "notify_not_full r q'" by (simp add: r_def)
  then have "q' = r\<lparr>bb_ts := [case p of B_push_asleep y \<Rightarrow> B_push y | _ \<Rightarrow> p, B_out]\<rparr>"
    by (rule notify_full_cases [OF _ r]) (auto simp: bb_set_def r split: bb_pc.splits)
  then show thesis using that(4) pop_done(2,3) assms(2) k by (simp add: r_def bb_set_def)
qed (use assms(5) in simp_all)

fun call_weight :: "'a bb_pc \<Rightarrow> nat" where
  "call_weight B_out = 0"
| "call_weight (B_push_asleep x) = 1"
| "call_weight B_pop_asleep = 1"
| "call_weight _ = 2"

definition bounded_left :: "nat \<Rightarrow> 'a bounded_run \<Rightarrow> nat" where
  "bounded_left n s = 3 * (n - br_i s) + 3 * (n - br_j s) + sum_list (map call_weight (bb_ts (br_q s)))"

lemma bounded_act_inv:
  assumes "bounded_act MaxSize n msg s t" "bounded_inv MaxSize n msg s"
  shows "bounded_inv MaxSize n msg t \<and> bounded_left n t < bounded_left n s"
proof -
  obtain p c where ts: "bb_ts (br_q s) = [p, c]" "in_pop p = 0" "in_push c = []"
    and h: "bb_in (br_q s) @ in_push p = map msg [0..<br_i s]" "length (bb_got (br_q s)) + in_pop c = br_j s"
    and b: "bb_inv MaxSize (br_q s)" "br_i s \<le> n" "br_j s \<le> n"
    using assms(2) by (auto simp: bounded_inv_def)
  have keep: "bb_inv MaxSize q" if "bb_step MaxSize k (br_q s) q" for k q using bb_step_inv [OF that b(1)] by blast
  from assms(1) show ?thesis
  proof cases
    case producer_calls
    have "bb_step MaxSize 0 (br_q s) (bb_set 0 (B_push (msg (br_i s))) (br_q s))"
      by (rule call_push) (use ts producer_calls in simp_all)
    from keep [OF this] producer_calls ts h b show ?thesis
      by (auto simp: bounded_inv_def bounded_left_def bb_set_def)
  next
    case consumer_calls
    have "bb_step MaxSize 1 (br_q s) (bb_set 1 B_pop (br_q s))" by (rule call_pop) (use ts consumer_calls in simp_all)
    from keep [OF this] consumer_calls ts h b show ?thesis
      by (auto simp: bounded_inv_def bounded_left_def bb_set_def)
  next
    case (call_goes_on k q)
    note q = keep [OF call_goes_on(3)]
    show ?thesis
    proof (cases rule: call_cases [OF call_goes_on(3) ts call_goes_on(2)])
      case (1 x)
      with q ts h b call_goes_on(1) show ?thesis by (auto simp: bounded_inv_def bounded_left_def)
    next
      case (2 x)
      with q ts h b call_goes_on(1) show ?thesis by (cases c) (auto simp: bounded_inv_def bounded_left_def)
    next
      case 3
      with q ts h b call_goes_on(1) show ?thesis by (auto simp: bounded_inv_def bounded_left_def)
    next
      case (4 x xs)
      with q ts h b call_goes_on(1) show ?thesis by (cases p) (auto simp: bounded_inv_def bounded_left_def)
    qed
  qed
qed

lemma bounded_inv_step: "bounded_step MaxSize n msg s t \<Longrightarrow> bounded_inv MaxSize n msg s \<Longrightarrow> bounded_inv MaxSize n msg t"
proof -
  assume "bounded_step MaxSize n msg s t" and i: "bounded_inv MaxSize n msg s"
  then consider "bounded_act MaxSize n msg s t" | k q where "bb_spurious k (br_q s) q" "t = s\<lparr>br_q := q\<rparr>"
    by (auto simp: bounded_step_def)
  then show ?thesis
  proof cases
    case 2
    have q: "bb_inv MaxSize q" using bb_spurious_inv [OF 2(1)] i by (simp add: bounded_inv_def)
    obtain p c where ts: "bb_ts (br_q s) = [p, c]" "in_pop p = 0" "in_push c = []" using i by (auto simp: bounded_inv_def)
    from 2(1) show ?thesis
    proof cases
      case spurious_pop
      with ts have "k = 1" by (cases k) auto
      with spurious_pop ts q i 2(2) show ?thesis by (auto simp: bounded_inv_def bb_set_def)
    next
      case (spurious_push x)
      with ts have "k = 0" by (cases k) auto
      with spurious_push ts q i 2(2) show ?thesis by (auto simp: bounded_inv_def bb_set_def)
    qed
  qed (use i bounded_act_inv in blast)
qed

lemma bounded_reach: "(bounded_step MaxSize n msg)\<^sup>*\<^sup>* bounded_init s \<Longrightarrow> bounded_inv MaxSize n msg s"
  by (erule reach_keeps [where step = "bounded_step MaxSize n msg" and I = "bounded_inv MaxSize n msg"])
    (auto intro: bounded_inv_init bounded_inv_step)

definition bounded_over :: "nat \<Rightarrow> (nat \<Rightarrow> 'a) \<Rightarrow> 'a bounded_run \<Rightarrow> bool" where
  "bounded_over n msg s \<longleftrightarrow> br_i s = n \<and> br_j s = n \<and> set (bb_ts (br_q s)) = {B_out} \<and> bb_got (br_q s) = map msg [0..<n]"

text \<open>The two threads never wait for each other for good: they have made as many pushes as pops at the
  end, so a producer asleep on a full queue finds a consumer that has pops left, and the other way round.\<close>

text \<open>When nothing moves, calls sleep or there are none left.\<close>

lemma bounded_stuck:
  assumes "\<nexists>t. bounded_act MaxSize n msg s t" "bb_ts (br_q s) = [p, c]" "in_pop p = 0" "in_push c = []"
    "br_i s \<le> n" "br_j s \<le> n"
  shows "p = B_out \<and> br_i s = n \<or> (\<exists>x. p = B_push_asleep x)" "c = B_out \<and> br_j s = n \<or> c = B_pop_asleep"
proof -
  have stuck: "\<not> bb_step MaxSize k (br_q s) q" if "bb_ts (br_q s) ! k \<noteq> B_out" for k q
    using call_goes_on [OF that] assms(1) by blast
  have "p \<noteq> B_push x" for x
    using bb_can_move [of 0 "br_q s" MaxSize] stuck [of 0] assms(2) by auto
  moreover have "br_i s = n" if "p = B_out" using producer_calls [of s n MaxSize msg] assms(1,2,5) that by fastforce
  ultimately show "p = B_out \<and> br_i s = n \<or> (\<exists>x. p = B_push_asleep x)" using assms(3) by (cases p) auto
  have "c \<noteq> B_pop"
    using bb_can_move [of 1 "br_q s" MaxSize] stuck [of 1] assms(2) by auto
  moreover have "br_j s = n" if "c = B_out" using consumer_calls [of s n MaxSize msg] assms(1,2,6) that by fastforce
  ultimately show "c = B_out \<and> br_j s = n \<or> c = B_pop_asleep" using assms(4) by (cases c) simp_all
qed

lemma bounded_can_move:
  assumes "0 < MaxSize" "bounded_inv MaxSize n msg s" "\<not> bounded_over n msg s"
  shows "\<exists>t. bounded_act MaxSize n msg s t"
proof (rule ccontr)
  assume stuck: "\<not> ?thesis"
  obtain p c where ts: "bb_ts (br_q s) = [p, c]" "in_pop p = 0" "in_push c = []"
    and h: "bb_in (br_q s) @ in_push p = map msg [0..<br_i s]" "length (bb_got (br_q s)) + in_pop c = br_j s"
    and b: "bb_got (br_q s) @ bb_queue (br_q s) = bb_in (br_q s)" "bb_waits MaxSize 0 0 (length (bb_queue (br_q s))) [p, c]"
      "br_i s \<le> n" "br_j s \<le> n"
    using assms(2) by (auto simp: bounded_inv_def bb_inv_def)
  note who = bounded_stuck [OF stuck ts b(3,4)]
  have len: "length (bb_in (br_q s)) + length (in_push p) = br_i s" using arg_cong [OF h(1), of length] by simp
  have len2: "length (bb_got (br_q s)) + length (bb_queue (br_q s)) = length (bb_in (br_q s))"
    using arg_cong [OF b(1), of length] by simp
  have z: "popping [p, c] = 0" "pushing [p, c] = 0" using who by (auto simp: popping_def pushing_def)
  from who(2) show False
  proof
    assume c: "c = B_out \<and> br_j s = n"
    with h(2) have "length (bb_got (br_q s)) = n" by simp
    with len len2 b(3) have "length (in_push p) = 0" "length (bb_queue (br_q s)) = 0" "br_i s = n" by linarith+
    with who(1) c ts(1) h(1) b(1) assms(3) show False by (auto simp: bounded_over_def)
  next
    assume c: "c = B_pop_asleep"
    with b(2) z have q: "bb_queue (br_q s) = []" by (simp add: bb_waits_def)
    with b(2) z assms(1) have "p \<noteq> B_push_asleep x" for x by (auto simp: bb_waits_def)
    with who(1) have "p = B_out" "br_i s = n" by auto
    with len len2 h(2) c q b(4) show False by simp
  qed
qed

lemma bounded_program:
  assumes "0 < MaxSize" "(bounded_step MaxSize n msg)\<^sup>*\<^sup>* bounded_init s"
  shows "\<exists>k \<le> n. bb_got (br_q s) = map msg [0..<k]" "surely_ends (bounded_act MaxSize n msg) (bounded_over n msg) s"
proof -
  have i: "bounded_inv MaxSize n msg s" using assms(2) by (rule bounded_reach)
  then obtain p where p: "bb_in (br_q s) @ in_push p = map msg [0..<br_i s]" "br_i s \<le> n"
    "bb_got (br_q s) @ bb_queue (br_q s) = bb_in (br_q s)" by (auto simp: bounded_inv_def bb_inv_def)
  have "bb_got (br_q s) @ bb_queue (br_q s) @ in_push p = map msg [0..<br_i s]"
    unfolding append_assoc [symmetric] p(3) by (rule p(1))
  from map_prefix_upt [OF this] p(2) show "\<exists>k \<le> n. bb_got (br_q s) = map msg [0..<k]" by (meson le_trans)
  from i show "surely_ends (bounded_act MaxSize n msg) (bounded_over n msg) s"
    by (rule surely_endsI [where I = "bounded_inv MaxSize n msg" and rank = "bounded_left n"])
      (use bounded_can_move [OF assms(1)] bounded_act_inv in blast)+
qed

subsection \<open>\<open>ThreadPool\<close>: rounds of tasks\<close>

text \<open>
  The main thread submits the tasks of a round, gets their results in order, goes on to the next
  round, and at last destroys the pool; task number \<open>i\<close> has the result \<open>f i\<close>. A future is ready when
  its task has run. \<open>pr_a\<close> and \<open>pr_b\<close> are the tasks of this round still to submit and to get.
\<close>

record 'r pool_run_state =
  pr_a :: nat
  pr_b :: nat
  pr_rounds :: "nat list"
  pr_k :: nat
  pr_got :: "'r list"
  pr_m :: "nat monitor"

definition pool_start :: "nat \<Rightarrow> nat list \<Rightarrow> 'r pool_run_state" where
  "pool_start workers rounds = \<lparr>pr_a = 0, pr_b = 0, pr_rounds = rounds, pr_k = 0, pr_got = [], pr_m = monitor_init workers\<rparr>"

inductive rounds_act :: "(nat \<Rightarrow> 'r) \<Rightarrow> 'r pool_run_state \<Rightarrow> 'r pool_run_state \<Rightarrow> bool" for f where
  main_submit: "0 < pr_a s \<Longrightarrow> tp_submit (length (mo_in (pr_m s))) (pr_m s) = Some m \<Longrightarrow>
    rounds_act f s (s\<lparr>pr_a := pr_a s - 1, pr_m := m\<rparr>)"
| main_get: "pr_a s = 0 \<Longrightarrow> 0 < pr_b s \<Longrightarrow> pr_k s \<in> set (mo_out (pr_m s)) \<Longrightarrow>
    rounds_act f s (s\<lparr>pr_b := pr_b s - 1, pr_k := pr_k s + 1, pr_got := pr_got s @ [f (pr_k s)]\<rparr>)"
| main_round: "pr_a s = 0 \<Longrightarrow> pr_b s = 0 \<Longrightarrow> pr_rounds s = r # rs \<Longrightarrow>
    rounds_act f s (s\<lparr>pr_a := r, pr_b := r, pr_rounds := rs\<rparr>)"
| main_destroy: "pr_a s = 0 \<Longrightarrow> pr_b s = 0 \<Longrightarrow> pr_rounds s = [] \<Longrightarrow> \<not> mo_done (pr_m s) \<Longrightarrow>
    rounds_act f s (s\<lparr>pr_m := tp_stop (pr_m s)\<rparr>)"
| pool_moves: "tp_step (pr_m s) m \<Longrightarrow> rounds_act f s (s\<lparr>pr_m := m\<rparr>)"

definition rounds_step :: "(nat \<Rightarrow> 'r) \<Rightarrow> 'r pool_run_state \<Rightarrow> 'r pool_run_state \<Rightarrow> bool" where
  "rounds_step f s t \<longleftrightarrow> rounds_act f s t \<or> (\<exists>i m. spurious_step i (pr_m s) m \<and> t = s\<lparr>pr_m := m\<rparr>)"

definition pool_prog_inv :: "nat \<Rightarrow> nat \<Rightarrow> (nat \<Rightarrow> 'r) \<Rightarrow> 'r pool_run_state \<Rightarrow> bool" where
  "pool_prog_inv w N f s \<longleftrightarrow> monitor_inv w (pr_m s) \<and> gone_empty (pr_m s) \<and>
     mo_in (pr_m s) = [0..<length (mo_in (pr_m s))] \<and> length (mo_in (pr_m s)) + pr_a s = pr_k s + pr_b s \<and> pr_a s \<le> pr_b s \<and>
     pr_got s = map f [0..<pr_k s] \<and> pr_k s + pr_b s + sum_list (pr_rounds s) = N \<and>
     (mo_done (pr_m s) \<longrightarrow> pr_b s = 0 \<and> pr_rounds s = [])"

lemma pool_start_inv: "pool_prog_inv w (sum_list rounds) f (pool_start w rounds)"
  by (simp add: pool_prog_inv_def pool_start_def init_inv init_gone_empty) (simp add: monitor_init_def)

lemma tp_fields: "tp_step s t \<Longrightarrow> mo_in t = mo_in s \<and> mo_done t = mo_done s"
proof (erule tp_step.cases)
  fix i r r' assume "s = r" "t = r'" "worker_step i r r'"
  then show ?thesis by (simp add: worker_fields)
next
  fix r r' assume "s = r" "t = r'" "notify_one (r\<lparr>mo_notify := mo_notify r - 1\<rparr>) r'"
  with notify_one_fields show ?thesis by fastforce
qed (simp add: notify_all_def)

lemma pool_moves_tpool:
  assumes "tpool_step (pr_m s) m" "mo_in m = mo_in (pr_m s)" "mo_done m = mo_done (pr_m s)" "pool_prog_inv w N f s"
  shows "pool_prog_inv w N f (s\<lparr>pr_m := m\<rparr>)"
  using assms(2-4) pool_inv [OF assms(1)] pool_gone_empty [OF assms(1)] by (simp add: pool_prog_inv_def)

lemma rounds_step_inv:
  assumes "rounds_step f s t" "pool_prog_inv w N f s"
  shows "pool_prog_inv w N f t"
proof -
  consider "rounds_act f s t" | i m where "spurious_step i (pr_m s) m" "t = s\<lparr>pr_m := m\<rparr>"
    using assms(1) by (auto simp: rounds_step_def)
  then show ?thesis
  proof cases
    case 1
    then show ?thesis
    proof cases
      case (main_submit m)
      have "tpool_step (pr_m s) m" using main_submit(3) by (auto simp: tpool_step_def intro: submit)
      with pool_inv pool_gone_empty have "monitor_inv w m" "gone_empty m" using assms(2) by (auto simp: pool_prog_inv_def)
      moreover have "mo_in m = mo_in (pr_m s) @ [length (mo_in (pr_m s))]" "mo_done m = mo_done (pr_m s)" "\<not> mo_done (pr_m s)"
        using main_submit(3) by (auto simp: tp_submit_def enqueue_def split: if_splits)
      moreover from this assms(2) have "mo_in m = [0..<length (mo_in m)]" by (simp add: pool_prog_inv_def)
      ultimately show ?thesis using main_submit(1,2) assms(2) by (auto simp: pool_prog_inv_def)
    next
      case main_destroy
      have "tpool_step (pr_m s) (tp_stop (pr_m s))" using main_destroy(5) by (auto simp: tpool_step_def intro: stop)
      with pool_inv pool_gone_empty have "monitor_inv w (tp_stop (pr_m s))" "gone_empty (tp_stop (pr_m s))"
        using assms(2) by (auto simp: pool_prog_inv_def)
      with main_destroy assms(2) show ?thesis unfolding pool_prog_inv_def by (simp add: tp_stop_def)
    next
      case (pool_moves m)
      have "tpool_step (pr_m s) m" using pool_moves(2) by (simp add: tpool_step_def)
      with pool_moves_tpool assms(2) tp_fields [OF pool_moves(2)] pool_moves(1) show ?thesis by blast
    qed (use assms(2) in \<open>auto simp: pool_prog_inv_def\<close>)
  next
    case 2
    have "tpool_step (pr_m s) m" using 2(1) by (auto simp: tpool_step_def)
    moreover have "mo_in m = mo_in (pr_m s) \<and> mo_done m = mo_done (pr_m s)" using 2(1) by cases simp
    ultimately show ?thesis using pool_moves_tpool assms(2) 2(2) by blast
  qed
qed

definition pool_left :: "nat \<Rightarrow> 'r pool_run_state \<Rightarrow> nat" where
  "pool_left w s = 6 * (pr_a s + sum_list (pr_rounds s)) + pr_b s + sum_list (pr_rounds s) + length (pr_rounds s) +
     (if mo_done (pr_m s) then 0 else w + 2) + (if mo_notify_all (pr_m s) then w + 1 else 0) +
     3 * length (mo_queue (pr_m s)) + 2 * mo_notify (pr_m s) + sum_list (map effort (mo_ws (pr_m s)))"

lemma pool_nearer:
  assumes "rounds_act f s t" "pool_prog_inv w N f s"
  shows "pool_left w t < pool_left w s"
  using assms(1)
proof cases
  case (main_submit m)
  then show ?thesis by (auto simp: pool_left_def tp_submit_def enqueue_def split: if_splits)
next
  case (pool_moves m)
  from pool_moves(2) show ?thesis
  proof cases
    case (tp_worker i)
    have "mo_notify m = mo_notify (pr_m s) \<and> mo_notify_all m = mo_notify_all (pr_m s)" using tp_worker by cases simp_all
    with worker_effort [OF tp_worker] worker_fields [OF tp_worker] pool_moves(1) show ?thesis by (simp add: pool_left_def)
  next
    case tp_notify_one
    have "mo_notify m = mo_notify (pr_m s) - 1 \<and> mo_notify_all m = mo_notify_all (pr_m s)" using tp_notify_one(2) by cases simp_all
    with notify_effort [OF tp_notify_one(2)] notify_one_fields [OF tp_notify_one(2)] tp_notify_one(1) pool_moves(1) show ?thesis
      by (simp add: pool_left_def)
  next
    case tp_notify_all
    have "length (mo_ws (pr_m s)) = w" using assms(2) by (simp add: pool_prog_inv_def monitor_inv_def)
    with wake_effort [of "mo_ws (pr_m s)"] tp_notify_all pool_moves(1) show ?thesis
      by (simp add: pool_left_def notify_all_def)
  qed
qed (simp_all add: pool_left_def tp_stop_def)

definition pool_over :: "nat \<Rightarrow> (nat \<Rightarrow> 'r) \<Rightarrow> 'r pool_run_state \<Rightarrow> bool" where
  "pool_over N f s \<longleftrightarrow> pr_rounds s = [] \<and> pr_b s = 0 \<and> set (mo_ws (pr_m s)) = {Gone} \<and> pr_got s = map f [0..<N]"

lemma pool_worker_moves:
  assumes "pool_prog_inv w N f s" "i < w" "mo_ws (pr_m s) ! i \<noteq> Gone" "mo_queue (pr_m s) \<noteq> [] \<or> mo_done (pr_m s)"
  shows "\<exists>t. rounds_act f s t"
proof -
  have "monitor_inv w (pr_m s)" using assms(1) by (simp add: pool_prog_inv_def)
  moreover obtain t where "notify_one ((pr_m s)\<lparr>mo_notify := mo_notify (pr_m s) - 1\<rparr>) t" using notify_exists by blast
  ultimately have "\<exists>m. tp_step (pr_m s) m" using no_lost_wakeup [OF _ assms(2-4)] tp_step.intros by blast
  then show ?thesis using pool_moves by blast
qed

text \<open>A future that is not ready belongs to a task that is queued or running.\<close>

lemma pool_waits:
  assumes "pool_prog_inv w N f s" "0 < w" "pr_a s = 0" "0 < pr_b s" "pr_k s \<notin> set (mo_out (pr_m s))"
  shows "\<exists>t. rounds_act f s t"
proof -
  let ?m = "pr_m s"
  have i: "mo_started ?m @ mo_queue ?m = mo_in ?m" "mset (mo_started ?m) = mset (mo_out ?m) + in_hand (mo_ws ?m)"
    "length (mo_ws ?m) = w" "\<not> mo_done ?m" "Gone \<in> set (mo_ws ?m) \<longrightarrow> mo_done ?m"
    and n: "mo_in ?m = [0..<length (mo_in ?m)]" "length (mo_in ?m) = pr_k s + pr_b s"
    using assms(1,3,4) by (auto simp: pool_prog_inv_def monitor_inv_def)
  have "pr_k s \<in> set (mo_in ?m)" by (subst n(1)) (use n(2) assms(4) in simp)
  then consider "pr_k s \<in> set (mo_queue ?m)" | "pr_k s \<in># in_hand (mo_ws ?m)"
    using i(1,2) assms(5) by (metis Un_iff set_append set_mset_mset set_mset_union)
  then show ?thesis
  proof cases
    case 1
    have "mo_ws ?m ! 0 \<noteq> Gone" using i(3-5) assms(2) by (metis nth_mem)
    moreover have "mo_queue ?m \<noteq> []" using 1 by auto
    ultimately show ?thesis using pool_worker_moves [OF assms(1,2)] by blast
  next
    case 2
    then obtain v where "v \<in> set (mo_ws ?m)" "pr_k s \<in> set (busy v)" by (auto simp: in_hand_def)
    moreover from this(2) have "v = Busy (pr_k s)" by (cases v) simp_all
    ultimately obtain j where j: "j < length (mo_ws ?m)" "mo_ws ?m ! j = Busy (pr_k s)" by (auto simp: in_set_conv_nth)
    from runs [OF j] show ?thesis using pool_moves tp_worker by blast
  qed
qed

lemma pool_can_move:
  assumes "pool_prog_inv w N f s" "0 < w" "\<not> pool_over N f s"
  shows "\<exists>t. rounds_act f s t"
proof -
  consider "0 < pr_a s" | "pr_a s = 0" "0 < pr_b s" | "pr_b s = 0" "pr_a s = 0" "pr_rounds s \<noteq> []"
    | "pr_b s = 0" "pr_a s = 0" "pr_rounds s = []" by blast
  then show ?thesis
  proof cases
    case 1
    then have "\<not> mo_done (pr_m s)" using assms(1) by (auto simp: pool_prog_inv_def)
    then obtain m where "tp_submit (length (mo_in (pr_m s))) (pr_m s) = Some m" by (simp add: tp_submit_def)
    with main_submit [OF 1] show ?thesis by blast
  next
    case 2
    then show ?thesis using main_get pool_waits [OF assms(1,2)] by (cases "pr_k s \<in> set (mo_out (pr_m s))") blast+
  next
    case 3
    then obtain r rs where "pr_rounds s = r # rs" by (cases "pr_rounds s") auto
    with main_round 3 show ?thesis by blast
  next
    case 4
    show ?thesis
    proof (cases "mo_done (pr_m s)")
      case True
      have l: "length (mo_ws (pr_m s)) = w" and g: "pr_got s = map f [0..<N]"
        using assms(1) 4 by (auto simp: pool_prog_inv_def monitor_inv_def)
      with assms(3) 4 have "set (mo_ws (pr_m s)) \<noteq> {Gone}" by (simp add: pool_over_def)
      with not_gone [of "mo_ws (pr_m s)"] l assms(2) obtain i where "i < w" "mo_ws (pr_m s) ! i \<noteq> Gone" by force
      with pool_worker_moves [OF assms(1)] True show ?thesis by blast
    qed (use main_destroy 4 in blast)
  qed
qed

lemma pool_program:
  assumes "0 < w" "(rounds_step f)\<^sup>*\<^sup>* (pool_start w rounds) s"
  shows "\<exists>k \<le> sum_list rounds. pr_got s = map f [0..<k]"
    "surely_ends (rounds_act f) (pool_over (sum_list rounds) f) s"
proof -
  let ?N = "sum_list rounds"
  have i: "pool_prog_inv w ?N f s"
    using assms(2) by (rule reach_keeps [where step = "rounds_step f" and I = "pool_prog_inv w ?N f"])
      (auto intro: pool_start_inv rounds_step_inv)
  then show "\<exists>k \<le> ?N. pr_got s = map f [0..<k]" by (auto simp: pool_prog_inv_def intro!: exI [of _ "pr_k s"])
  from i show "surely_ends (rounds_act f) (pool_over ?N f) s"
  proof (rule surely_endsI [where I = "pool_prog_inv w ?N f" and rank = "pool_left w"])
    fix u v assume "rounds_act f u v" "pool_prog_inv w ?N f u"
    then show "pool_prog_inv w ?N f v \<and> pool_left w v < pool_left w u"
      using rounds_step_inv [of f u v w ?N] pool_nearer by (simp add: rounds_step_def)
  qed (rule pool_can_move [OF _ assms(1)])
qed

subsection \<open>Property\<close>

text \<open>C40: The programs of the four monitors do their work and end, in every interleaving and with any
  number of spurious wake-ups. The consumer of \<open>ThreadSafeQueue\<close> (and the worker of the logger) has
  taken the first messages in order at any time, all of them when it has left; producer and
  consumer of \<open>BoundedBlockingQueue\<close>, which make as many pushes as pops, never wait for each other
  for good; the futures of \<open>ThreadPool\<close> come out in the order of their tasks, each with its own
  result. From every reachable state on, every run without further spurious wake-ups is finite and
  stops only when the program has done its work.\<close>

theorem monitor_programs_end:
  assumes "0 < MaxSize" "0 < workers"
  shows "(\<forall>s. (feed_step n msg)\<^sup>*\<^sup>* feed_init s \<longrightarrow>
      (\<exists>k \<le> n. mo_out (fd_m s) = map msg [0..<k]) \<and> (mo_ws (fd_m s) = [Gone] \<longrightarrow> mo_out (fd_m s) = map msg [0..<n]) \<and>
      surely_ends (feed_act n msg) (feed_over n msg) s) \<and>
    (\<forall>s. (bounded_step MaxSize n msg)\<^sup>*\<^sup>* bounded_init s \<longrightarrow>
      (\<exists>k \<le> n. bb_got (br_q s) = map msg [0..<k]) \<and> surely_ends (bounded_act MaxSize n msg) (bounded_over n msg) s) \<and>
    (\<forall>s. (rounds_step f)\<^sup>*\<^sup>* (pool_start workers rounds) s \<longrightarrow>
      (\<exists>k \<le> sum_list rounds. pr_got s = map f [0..<k]) \<and> surely_ends (rounds_act f) (pool_over (sum_list rounds) f) s)"
  using feed_program [of n msg] bounded_program [OF assms(1), of n msg] pool_program [OF assms(2), of f rounds] by simp

text \<open>The sizes of the bounded queue and of the pool's first round in the programs, with squares as messages.\<close>

lemma monitor_programs_end_witness:
  "(\<exists>t. (feed_act 6 (\<lambda>i. i * i))\<^sup>*\<^sup>* feed_init t \<and> mo_out (fd_m t) = [0, 1, 4, 9, 16, 25]) \<and>
   (\<exists>t. (bounded_act 3 6 (\<lambda>i. i * i))\<^sup>*\<^sup>* bounded_init t \<and> bb_got (br_q t) = [0, 1, 4, 9, 16, 25]) \<and>
   (\<exists>t. (rounds_act (\<lambda>i. i * i))\<^sup>*\<^sup>* (pool_start 4 [5, 1]) t \<and> pr_got t = [0, 1, 4, 9, 16, 25])"
proof -
  let ?f = "\<lambda>i :: nat. i * i"
  have six: "map ?f [0..<6] = [0, 1, 4, 9, 16, 25]" by (simp add: upt_rec)
  have "(feed_step 6 ?f)\<^sup>*\<^sup>* feed_init feed_init" "(bounded_step 3 6 ?f)\<^sup>*\<^sup>* bounded_init bounded_init"
    "(rounds_step ?f)\<^sup>*\<^sup>* (pool_start 4 [5, 1]) (pool_start 4 [5, 1])" by simp_all
  with monitor_programs_end [of 3 4 6 ?f ?f "[5, 1]"] have
    "surely_ends (feed_act 6 ?f) (feed_over 6 ?f) feed_init" "surely_ends (bounded_act 3 6 ?f) (bounded_over 6 ?f) bounded_init"
    "surely_ends (rounds_act ?f) (pool_over 6 ?f) (pool_start 4 [5, 1])" by simp_all
  from this [THEN surely_ends_reaches] show ?thesis unfolding feed_over_def bounded_over_def pool_over_def six by blast
qed

end
