(* ===== verification/Event_Loop.thy ===== *)
theory Event_Loop
  imports Prelude
begin

section \<open>An event loop on \<open>epoll\<close> or \<open>kqueue\<close>\<close>

text \<open>
  \<open>topics/io/event_loop_epoll_kqueue.cpp\<close>. The two branches of the conditional compilation differ in
  the call that registers a descriptor and in the form of the timeout; the events the kernel
  reports, and whether its calls succeed, are inputs.
\<close>

subsection \<open>Registering a descriptor\<close>

text \<open>
  The watched descriptors are kept by the kernel; one that is closed leaves them. \<open>EPOLL_CTL_ADD\<close>
  fails for a descriptor that is not open or already watched, \<open>EV_ADD\<close> only for the former.
\<close>

type_synonym control = "nat list \<Rightarrow> nat \<Rightarrow> nat list \<Rightarrow> nat list option"

definition epoll_ctl_add :: control where
  "epoll_ctl_add opened fd watch = (if fd \<notin> set opened \<or> fd \<in> set watch then None else Some (watch @ [fd]))"

definition kevent_add :: control where
  "kevent_add opened fd watch = (if fd \<notin> set opened then None else Some (if fd \<in> set watch then watch else watch @ [fd]))"

text \<open>What both promise.\<close>

locale control =
  fixes ctl :: control
  assumes added: "ctl opened fd watch = Some w \<Longrightarrow> distinct watch \<Longrightarrow> distinct w \<and> set w = insert fd (set watch)"
    and adds: "fd \<in> set opened \<Longrightarrow> fd \<notin> set watch \<Longrightarrow> ctl opened fd watch = Some (watch @ [fd])"

interpretation epoll: control epoll_ctl_add
  by unfold_locales (auto simp: epoll_ctl_add_def split: if_splits)

interpretation kqueue: control kevent_add
  by unfold_locales (auto simp: kevent_add_def split: if_splits)

subsection \<open>\<open>EventLoop\<close>\<close>

text \<open>\<open>el_calls\<close> is a history of the callbacks that ran.\<close>

record 'c event_loop =
  el_callbacks :: "nat \<rightharpoonup> 'c"
  el_watch :: "nat list"
  el_calls :: "(nat \<times> 'c) list"

definition el_new :: "'c event_loop" where
  "el_new = \<lparr>el_callbacks = Map.empty, el_watch = [], el_calls = []\<rparr>"

text \<open>\<open>epoll_create1\<close> or \<open>kqueue\<close> fails: the constructor throws.\<close>

definition el_make :: "bool \<Rightarrow> 'c event_loop option" where
  "el_make created = (if created then Some el_new else None)"

text \<open>The result says whether it throws.\<close>

definition el_add_fd :: "control \<Rightarrow> nat list \<Rightarrow> nat \<Rightarrow> 'c \<Rightarrow> 'c event_loop \<Rightarrow> 'c event_loop \<times> bool" where
  "el_add_fd ctl opened fd on_read s =
     (let s = s\<lparr>el_callbacks := (el_callbacks s)(fd \<mapsto> on_read)\<rparr> in
      case ctl opened fd (el_watch s) of None \<Rightarrow> (s, True) | Some w \<Rightarrow> (s\<lparr>el_watch := w\<rparr>, False))"

definition el_closed :: "nat \<Rightarrow> 'c event_loop \<Rightarrow> 'c event_loop" where
  "el_closed fd s = s\<lparr>el_watch := removeAll fd (el_watch s)\<rparr>"

definition el_dispatch :: "nat \<Rightarrow> 'c event_loop \<Rightarrow> 'c event_loop" where
  "el_dispatch fd s = (case el_callbacks s fd of None \<Rightarrow> s | Some cb \<Rightarrow> s\<lparr>el_calls := el_calls s @ [(fd, cb)]\<rparr>)"

text \<open>\<open>None\<close>: the wait fails, as when a signal interrupts it.\<close>

definition el_run_once :: "nat list option \<Rightarrow> 'c event_loop \<Rightarrow> 'c event_loop" where
  "el_run_once events s = (case events of None \<Rightarrow> s | Some fds \<Rightarrow> fold el_dispatch fds s)"

text \<open>\<open>kevent\<close> takes seconds and nanoseconds, and waits for good without them.\<close>

definition kq_timeout :: "int \<Rightarrow> (int \<times> int) option" where
  "kq_timeout timeout_ms = (if 0 \<le> timeout_ms then Some (timeout_ms div 1000, timeout_ms mod 1000 * 1000000) else None)"

lemma kq_timeout_exact:
  assumes "kq_timeout ms = Some (sec, nsec)"
  shows "0 \<le> nsec \<and> nsec < 10 ^ 9 \<and> sec * 10 ^ 9 + nsec = ms * 10 ^ 6"
proof -
  obtain a b where ab: "a = ms div 1000" "b = ms mod 1000" by blast
  then have "ms = a * 1000 + b" "0 \<le> b" "b < 1000" by simp_all
  moreover have "sec = a" "nsec = b * 1000000" using assms ab by (simp_all add: kq_timeout_def split: if_splits)
  ultimately show ?thesis by simp
qed

inductive el_step :: "control \<Rightarrow> 'c event_loop \<Rightarrow> 'c event_loop \<Rightarrow> bool" for ctl where
  el_add: "el_step ctl s (fst (el_add_fd ctl opened fd cb s))"
| el_close: "el_step ctl s (el_closed fd s)"
| el_run: "(\<forall>fds. events = Some fds \<longrightarrow> set fds \<subseteq> set (el_watch s)) \<Longrightarrow> el_step ctl s (el_run_once events s)"

lemma dispatch_all:
  "set fds \<subseteq> dom (el_callbacks s) \<Longrightarrow>
   fold el_dispatch fds s = s\<lparr>el_calls := el_calls s @ map (\<lambda>fd. (fd, the (el_callbacks s fd))) fds\<rparr>"
proof (induction fds arbitrary: s)
  case (Cons fd fds)
  then obtain cb where cb: "el_callbacks s fd = Some cb" by auto
  with Cons.IH [of "el_dispatch fd s"] Cons.prems show ?case by (simp add: el_dispatch_def)
qed simp

context control
begin

lemma watched_have_callbacks:
  assumes "(el_step ctl)\<^sup>*\<^sup>* el_new s"
  shows "distinct (el_watch s) \<and> set (el_watch s) \<subseteq> dom (el_callbacks s)"
  using assms
proof (induction rule: rtranclp_induct)
  case (step s t)
  from step.hyps(2) show ?case
  proof cases
    case (el_add opened fd cb)
    with step.IH added [of opened fd "el_watch s"] show ?thesis by (auto simp: el_add_fd_def Let_def split: option.splits)
  next
    case (el_close fd)
    with step.IH show ?thesis by (auto simp: el_closed_def distinct_removeAll)
  next
    case (el_run events)
    then have "el_watch t = el_watch s \<and> el_callbacks t = el_callbacks s"
      using step.IH dispatch_all [of _ s] by (cases events) (fastforce simp: el_run_once_def)+
    with step.IH show ?thesis by simp
  qed
qed (simp add: el_new_def)

text \<open>A \<open>run_once\<close> calls, for each event the kernel reports and in its order, the callback that was
  given last for that descriptor.\<close>

lemma dispatches:
  assumes "(el_step ctl)\<^sup>*\<^sup>* el_new s" "set fds \<subseteq> set (el_watch s)"
  shows "el_calls (el_run_once (Some fds) s) = el_calls s @ map (\<lambda>fd. (fd, the (el_callbacks s fd))) fds"
  using dispatch_all [of fds s] watched_have_callbacks [OF assms(1)] assms(2) by (force simp: el_run_once_def)

end

text \<open>Adding a descriptor that is already watched: \<open>epoll\<close> throws, but only after the callback was
  replaced; \<open>kqueue\<close> replaces it and goes on.\<close>

theorem branches_differ:
  assumes "fd \<in> set (el_watch s)" "fd \<in> set opened"
  shows "el_add_fd epoll_ctl_add opened fd cb s = (s\<lparr>el_callbacks := (el_callbacks s)(fd \<mapsto> cb)\<rparr>, True)"
    and "el_add_fd kevent_add opened fd cb s = (s\<lparr>el_callbacks := (el_callbacks s)(fd \<mapsto> cb)\<rparr>, False)"
  using assms by (simp_all add: el_add_fd_def epoll_ctl_add_def kevent_add_def)

subsection \<open>The program\<close>

datatype el_line = Pipe_failed | Read_bytes nat | Demo_done

text \<open>The callback reads at most 64 bytes of the pipe. A \<open>read\<close> of an empty pipe with an open write
  end would wait for good: \<open>None\<close>.\<close>

definition pipe_callback :: "string \<times> el_line list \<Rightarrow> (string \<times> el_line list) option" where
  "pipe_callback s = (let (bytes, out) = s; n = min 64 (length bytes)
     in if bytes = [] then None else Some (drop n bytes, out @ [Read_bytes n]))"

fun run_callbacks :: "nat \<Rightarrow> string \<times> el_line list \<Rightarrow> (string \<times> el_line list) option" where
  "run_callbacks 0 s = Some s"
| "run_callbacks (Suc k) s = (case pipe_callback s of None \<Rightarrow> None | Some s' \<Rightarrow> run_callbacks k s')"

text \<open>The lines printed and the exit code, or the exception; \<open>None\<close> when the program does not return.\<close>

definition loop_main :: "control \<Rightarrow> bool \<Rightarrow> (nat \<times> nat) option \<Rightarrow> nat list option \<Rightarrow> (string + el_line list \<times> nat) option" where
  "loop_main ctl created pipe_fds events =
     (case el_make created :: unit event_loop option of
        None \<Rightarrow> Some (Inl ''create'')
      | Some loop \<Rightarrow>
          (case pipe_fds of
             None \<Rightarrow> Some (Inr ([Pipe_failed], 1))
           | Some (r, w) \<Rightarrow>
               (case el_add_fd ctl [r, w] r () loop of
                  (loop, True) \<Rightarrow> Some (Inl ''add'')
                | (loop, False) \<Rightarrow>
                    (case run_callbacks (length (el_calls (el_run_once events loop))) (''hello'', []) of
                       None \<Rightarrow> None
                     | Some (bytes, out) \<Rightarrow> Some (Inr (out @ [Demo_done], 0))))))"

context control
begin

text \<open>The program reads the five bytes when the kernel reports the pipe, on either branch.\<close>

lemma main_reads:
  "loop_main ctl True (Some (r, w)) (Some [r]) = Some (Inr ([Read_bytes 5, Demo_done], 0))"
  "loop_main ctl True (Some (r, w)) None = Some (Inr ([Demo_done], 0))"
  "loop_main ctl True (Some (r, w)) (Some []) = Some (Inr ([Demo_done], 0))"
  using adds [of r "[r, w]" "[]"]
  by (simp_all add: loop_main_def el_make_def el_new_def el_add_fd_def el_run_once_def el_dispatch_def pipe_callback_def)

end

text \<open>The loop of the benchmark has no descriptors, so that \<open>run_once\<close> changes nothing.\<close>

definition loop_bench :: "nat \<Rightarrow> 'c event_loop" where
  "loop_bench bench_iters = (el_run_once (Some []) ^^ bench_iters) el_new"

lemma loop_bench_idle: "loop_bench n = el_new"
  unfolding loop_bench_def by (induction n) (simp_all add: el_run_once_def)

text \<open>Both branches of \<open>EventLoop\<close> dispatch the same: in every reachable state \<open>run_once\<close> calls the
  callbacks that were given last, in the order of the events, and the program prints the same.\<close>

theorem event_loop_dispatches:
  assumes "ctl = epoll_ctl_add \<or> ctl = kevent_add" "(el_step ctl)\<^sup>*\<^sup>* el_new s" "set fds \<subseteq> set (el_watch s)"
  shows "el_calls (el_run_once (Some fds) s) = el_calls s @ map (\<lambda>fd. (fd, the (el_callbacks s fd))) fds \<and>
    loop_main ctl True (Some (r, w)) (Some [r]) = Some (Inr ([Read_bytes 5, Demo_done], 0))"
  using assms epoll.dispatches kqueue.dispatches epoll.main_reads(1) kqueue.main_reads(1) by blast

end
