(* ===== verification/Working_Set.thy ===== *)
theory Working_Set
  imports Hot_Loops Complex_Main
begin

section \<open>The working-set benchmark\<close>

text \<open>
  \<open>working_set_benchmark\<close> of \<open>topics/microarchitecture/working_set_tlb_huge_pages.cpp\<close>, around the sweep of
  \<open>Hot_Loops\<close>: which sizes are swept, what is mapped and unmapped, and the rows of the CSV file. The page
  sizes, the outcome of each \<open>mmap\<close>, the time of each sweep and the rounding of \<open>double\<close> are parameters.
\<close>

definition ws_sizes :: "nat list" where
  "ws_sizes = map (\<lambda>k. k * 1024) [4, 8, 16, 32, 64, 128, 256, 512, 1024, 4 * 1024, 16 * 1024, 32 * 1024,
     64 * 1024, 128 * 1024, 256 * 1024, 512 * 1024, 1024 * 1024]"

definition ws_passes :: nat where "ws_passes = 8"

record ws_result =
  ws_kind :: string
  ws_bytes :: nat
  ws_ns_per_touch :: real

text \<open>\<open>run_sweep\<close> on zeroed memory; \<open>total_ns\<close> is the time it took.\<close>

definition sweep_result :: "(real \<Rightarrow> real) \<Rightarrow> (string \<Rightarrow> nat \<Rightarrow> real) \<Rightarrow> nat \<Rightarrow> string \<Rightarrow> nat \<Rightarrow> ws_result list \<Rightarrow> ws_result list" where
  "sweep_result rnd total_ns page_size kind bytes results =
     (case run_sweep page_size bytes ws_passes (replicate (bytes div 8) 0) of
        None \<Rightarrow> results
      | Some (mem, sink, touches) \<Rightarrow>
          results @ [\<lparr>ws_kind = kind, ws_bytes = bytes, ws_ns_per_touch = rnd (total_ns kind bytes / of_nat touches)\<rparr>])"

definition normal_sweeps :: "(real \<Rightarrow> real) \<Rightarrow> (string \<Rightarrow> nat \<Rightarrow> real) \<Rightarrow> nat \<Rightarrow> ws_result list" where
  "normal_sweeps rnd total_ns page_size = fold (sweep_result rnd total_ns page_size ''normal'') ws_sizes []"

text \<open>
  The state of the second loop: the results, and the lengths of the mappings that are still there.
  \<open>munmap\<close> of huge pages takes only multiples of their size; the code does not look at its result.
\<close>

definition huge_sweep :: "(real \<Rightarrow> real) \<Rightarrow> (string \<Rightarrow> nat \<Rightarrow> real) \<Rightarrow> nat \<Rightarrow> nat \<Rightarrow> (nat \<Rightarrow> bool) \<Rightarrow> nat \<Rightarrow>
    ws_result list \<times> nat list \<Rightarrow> ws_result list \<times> nat list" where
  "huge_sweep rnd total_ns page_size huge_size mapped bytes s =
     (if \<not> mapped bytes then s
      else let (results, maps) = s; maps = maps @ [bytes];
               results = sweep_result rnd total_ns page_size ''huge'' bytes results
           in (results, if huge_size dvd bytes then butlast maps else maps))"

text \<open>A row of the file: kind, bytes, MiB and cost. No file when it cannot be opened.\<close>

definition csv_row :: "ws_result \<Rightarrow> string \<times> nat \<times> real \<times> real" where
  "csv_row r = (ws_kind r, ws_bytes r, of_nat (ws_bytes r) / 1048576, ws_ns_per_touch r)"

definition working_set_benchmark :: "(real \<Rightarrow> real) \<Rightarrow> (string \<Rightarrow> nat \<Rightarrow> real) \<Rightarrow> nat \<Rightarrow> nat \<Rightarrow> (nat \<Rightarrow> bool) \<Rightarrow> bool \<Rightarrow>
    (string \<times> nat \<times> real \<times> real) list option \<times> nat list" where
  "working_set_benchmark rnd total_ns page_size huge_size mapped opens =
     (let results = normal_sweeps rnd total_ns page_size;
          (results, maps) = fold (huge_sweep rnd total_ns page_size huge_size mapped) ws_sizes (results, [])
      in (if opens then Some (map csv_row results) else None, maps))"

subsection \<open>What it writes and what it leaves\<close>

text \<open>The row of one sweep: the time by the number of elements touched, eight times each.\<close>

definition sweep_row :: "(real \<Rightarrow> real) \<Rightarrow> (string \<Rightarrow> nat \<Rightarrow> real) \<Rightarrow> nat \<Rightarrow> string \<Rightarrow> nat \<Rightarrow> string \<times> nat \<times> real \<times> real" where
  "sweep_row rnd total_ns page_size kind bytes =
     (kind, bytes, of_nat bytes / 1048576,
      rnd (total_ns kind bytes / of_nat (card (touched (bytes div 8) (page_size div 8)) * 8)))"

lemma sweep_result_row:
  assumes "8 \<le> page_size" "8 \<le> bytes"
  obtains r where "sweep_result rnd total_ns page_size kind bytes results = results @ [r]"
    "csv_row r = sweep_row rnd total_ns page_size kind bytes"
proof -
  have nz: "bytes div 8 \<noteq> 0" "page_size div 8 \<noteq> 0" using assms by auto
  obtain m where "(sweep_pass (bytes div 8) (page_size div 8) 0 ^^ ws_passes) (replicate (bytes div 8) 0, 0) = m" by blast
  with nz obtain mem sink n where r: "run_sweep page_size bytes ws_passes (replicate (bytes div 8) 0) = Some (mem, sink, n)"
    by (cases m) (simp add: run_sweep_def Let_def)
  have "n = card (touched (bytes div 8) (page_size div 8)) * 8"
    using sweep_counts(2) [OF _ r] by (simp add: ws_passes_def)
  with r that [of "\<lparr>ws_kind = kind, ws_bytes = bytes, ws_ns_per_touch = rnd (total_ns kind bytes / of_nat n)\<rparr>"]
  show thesis by (simp add: sweep_result_def csv_row_def sweep_row_def)
qed

lemma normal_rows:
  assumes "8 \<le> page_size" "\<forall>b \<in> set sizes. 8 \<le> b"
  shows "map csv_row (fold (sweep_result rnd total_ns page_size kind) sizes results) =
    map csv_row results @ map (sweep_row rnd total_ns page_size kind) sizes"
  using assms(2)
proof (induction sizes arbitrary: results)
  case (Cons b sizes)
  then have "8 \<le> b" by simp
  from sweep_result_row [OF assms(1) this, of rnd total_ns kind results] obtain r where
    "sweep_result rnd total_ns page_size kind b results = results @ [r]" "csv_row r = sweep_row rnd total_ns page_size kind b" .
  with Cons show ?case by simp
qed simp

lemma huge_rows:
  assumes "8 \<le> page_size" "\<forall>b \<in> set sizes. 8 \<le> b"
  shows "\<exists>rs. fold (huge_sweep rnd total_ns page_size huge_size mapped) sizes (results, maps) =
      (rs, maps @ [b \<leftarrow> sizes. mapped b \<and> \<not> huge_size dvd b]) \<and>
    map csv_row rs = map csv_row results @ map (sweep_row rnd total_ns page_size ''huge'') [b \<leftarrow> sizes. mapped b]"
  using assms(2)
proof (induction sizes arbitrary: results maps)
  case (Cons b sizes)
  then have "8 \<le> b" by simp
  from sweep_result_row [OF assms(1) this, of rnd total_ns "''huge''" results] obtain r where
    r: "sweep_result rnd total_ns page_size ''huge'' b results = results @ [r]" "csv_row r = sweep_row rnd total_ns page_size ''huge'' b" .
  have step: "huge_sweep rnd total_ns page_size huge_size mapped b (results, maps) =
      (if mapped b then (results @ [r], if huge_size dvd b then maps else maps @ [b]) else (results, maps))"
    by (simp add: huge_sweep_def r(1))
  have sz: "\<forall>b \<in> set sizes. 8 \<le> b" using Cons.prems by simp
  show ?case
  proof (cases "mapped b")
    case True
    with Cons.IH [OF sz, of "results @ [r]" "if huge_size dvd b then maps else maps @ [b]"] show ?thesis
      by (force simp: step r(2))
  next
    case False
    with Cons.IH [OF sz, of results maps] show ?thesis by (simp add: step)
  qed
qed simp

text \<open>The file has a row for every size on normal pages and then one for every size that was mapped
  on huge pages, each with the time of its sweep by eight times the number of elements it touches.
  What was mapped with a size that is no multiple of the huge pages is never unmapped.\<close>

theorem working_set_rows:
  assumes "8 \<le> page_size"
  shows "working_set_benchmark rnd total_ns page_size huge_size mapped opens =
    (if opens then Some (map (sweep_row rnd total_ns page_size ''normal'') ws_sizes @
       map (sweep_row rnd total_ns page_size ''huge'') [b \<leftarrow> ws_sizes. mapped b]) else None,
     [b \<leftarrow> ws_sizes. mapped b \<and> \<not> huge_size dvd b])"
proof -
  have sz: "\<forall>b \<in> set ws_sizes. 8 \<le> b" by (simp add: ws_sizes_def)
  obtain rs where "fold (huge_sweep rnd total_ns page_size huge_size mapped) ws_sizes (normal_sweeps rnd total_ns page_size, []) =
      (rs, [b \<leftarrow> ws_sizes. mapped b \<and> \<not> huge_size dvd b])"
    "map csv_row rs = map csv_row (normal_sweeps rnd total_ns page_size) @ map (sweep_row rnd total_ns page_size ''huge'') [b \<leftarrow> ws_sizes. mapped b]"
    using huge_rows [OF assms sz, of rnd total_ns huge_size mapped _ "[]"] by auto
  with normal_rows [OF assms sz, of rnd total_ns "''normal''" "[]"] show ?thesis
    by (simp add: working_set_benchmark_def normal_sweeps_def)
qed

text \<open>With huge pages of 2 MiB nine of the seventeen mappings, if they succeed, stay.\<close>

lemma working_set_leaks:
  "snd (working_set_benchmark rnd total_ns 4096 (2 * 1024 * 1024) (\<lambda>_. True) opens) =
    map (\<lambda>k. k * 1024) [4, 8, 16, 32, 64, 128, 256, 512, 1024]"
  by (simp add: working_set_rows ws_sizes_def)

end
