(* ===== verification/Latency_Threads.thy ===== *)
theory Latency_Threads
  imports Latency_Variants
begin

section \<open>The threads of \<open>v4\<close>\<close>

text \<open>
  \<open>extras/latency/v4_blocking_tcp_pool_lockfree.cpp\<close> as a whole: the thread that accepts connections, a
  detached handler for each of them, the consumer, the statistics thread and \<open>main\<close>, which closes the
  listening socket to end the first. An operation of the queue or the pool is one step here; that
  the handlers break the queue is in \<open>Latency_Variants\<close>, and what the unprotected pool does to two threads in
  \<open>Latency_Pool\<close>; the end of the program does not depend on what these calls return. Clients, payloads and the clock are inputs.
\<close>

subsection \<open>State\<close>

datatype conn_pc = K_check | K_recv | K_push nat | K_closed
datatype accept_pc = A_setup | A_check | A_call | A_wait | A_done
datatype stats_pc = Sa_check | Sa_sleep | Sa_total u64 | Sa_max u64 i64 | Sa_done
datatype main4_pc = Mn_wait | Mn_close | Mn_join | Mn_exit "(u64 \<times> int \<times> int) option"

text \<open>
  Of \<open>vs_srv\<close> the flag, the consumer, the queue, the pool and the statistics are used.
  \<open>vs_listen\<close> is \<open>g_listen_fd\<close>, \<open>vs_open\<close> whether that socket is open, \<open>vs_dead\<close> whether an exception has
  ended the program, and \<open>vs_lines\<close> what the statistics thread has printed.
\<close>

record v4_state =
  vs_srv :: "(nat spsc_queue, mpool) server"
  vs_conns :: "nat \<rightharpoonup> conn_pc"
  vs_net :: accept_pc
  vs_listen :: "nat option"
  vs_open :: bool
  vs_sta :: stats_pc
  vs_main :: main4_pc
  vs_lines :: "(u64 \<times> int \<times> int) option list"
  vs_dead :: bool

definition v4_start :: "nat list \<Rightarrow> (nat \<Rightarrow> message) \<Rightarrow> v4_state" where
  "v4_start junk m = \<lparr>vs_srv = server_init (sq_new QUEUE_SIZE junk) (mp_new POOL_SIZE) m, vs_conns = Map.empty, vs_net = A_setup,
     vs_listen = None, vs_open = False, vs_sta = Sa_check, vs_main = Mn_wait, vs_lines = [], vs_dead = False\<rparr>"

abbreviation running :: "v4_state \<Rightarrow> bool" where
  "running s \<equiv> sv_run (vs_srv s)"

subsection \<open>The threads\<close>

text \<open>\<open>network_thread\<close> without the return of a waiting \<open>accept\<close>. Calling it on a closed socket fails.\<close>

inductive v4_accept :: "v4_state \<Rightarrow> v4_state \<Rightarrow> bool" where
  listens: "vs_net s = A_setup \<Longrightarrow> v4_accept s (s\<lparr>vs_net := A_check, vs_listen := Some fd, vs_open := True\<rparr>)"
| setup_fails: "vs_net s = A_setup \<Longrightarrow> v4_accept s (s\<lparr>vs_dead := True\<rparr>)"
| goes_on: "vs_net s = A_check \<Longrightarrow> running s \<Longrightarrow> v4_accept s (s\<lparr>vs_net := A_call\<rparr>)"
| ends: "vs_net s = A_check \<Longrightarrow> \<not> running s \<Longrightarrow> v4_accept s (s\<lparr>vs_net := A_done\<rparr>)"
| waits: "vs_net s = A_call \<Longrightarrow> vs_open s \<Longrightarrow> v4_accept s (s\<lparr>vs_net := A_wait\<rparr>)"
| refused: "vs_net s = A_call \<Longrightarrow> \<not> vs_open s \<Longrightarrow> v4_accept s (s\<lparr>vs_net := A_check\<rparr>)"

text \<open>
  A waiting \<open>accept\<close> returns: a client has come, or an error has. Whether closing the socket in
  another thread wakes it is left to the system (\<open>wakes\<close>); where it does not, the call goes on waiting
  for a client.
\<close>

inductive accept_returns :: "bool \<Rightarrow> v4_state \<Rightarrow> v4_state \<Rightarrow> bool" for wakes where
  client: "vs_net s = A_wait \<Longrightarrow> vs_open s \<or> \<not> wakes \<Longrightarrow> vs_conns s conn = None \<Longrightarrow>
    accept_returns wakes s (s\<lparr>vs_net := A_check, vs_conns := (vs_conns s)(conn \<mapsto> K_check)\<rparr>)"
| fails: "vs_net s = A_wait \<Longrightarrow> vs_open s \<or> \<not> wakes \<Longrightarrow> accept_returns wakes s (s\<lparr>vs_net := A_check\<rparr>)"

text \<open>Where \<open>close\<close> wakes it, it fails.\<close>

definition woken :: "bool \<Rightarrow> v4_state \<Rightarrow> v4_state \<Rightarrow> bool" where
  "woken wakes s t \<longleftrightarrow> wakes \<and> \<not> vs_open s \<and> vs_net s = A_wait \<and> t = s\<lparr>vs_net := A_check\<rparr>"

text \<open>\<open>client_handler\<close>, detached.\<close>

inductive v4_handler :: "v4_state \<Rightarrow> v4_state \<Rightarrow> bool" where
  hd_runs: "vs_conns s c = Some K_check \<Longrightarrow> running s \<Longrightarrow> v4_handler s (s\<lparr>vs_conns := (vs_conns s)(c \<mapsto> K_recv)\<rparr>)"
| hd_ends: "vs_conns s c = Some K_check \<Longrightarrow> \<not> running s \<Longrightarrow> v4_handler s (s\<lparr>vs_conns := (vs_conns s)(c \<mapsto> K_closed)\<rparr>)"
| hd_closed: "vs_conns s c = Some K_recv \<Longrightarrow> v4_handler s (s\<lparr>vs_conns := (vs_conns s)(c \<mapsto> K_closed)\<rparr>)"
| hd_receive: "vs_conns s c = Some K_recv \<Longrightarrow> 0 < length buf \<Longrightarrow> length buf \<le> 1024 \<Longrightarrow> mp_alloc (sv_pool (vs_srv s)) = (Some b, p) \<Longrightarrow>
    v4_handler s (s\<lparr>vs_conns := (vs_conns s)(c \<mapsto> K_push b), vs_srv := (vs_srv s)\<lparr>sv_pool := mp_write b v p,
      sv_store := (sv_store (vs_srv s))(b := fill_message ts (sv_seq (vs_srv s)) buf (sv_store (vs_srv s) b)),
      sv_seq := sv_seq (vs_srv s) + 1, sv_in := sv_in (vs_srv s) @ [(ts, buf)]\<rparr>\<rparr>)"
| hd_no_message: "vs_conns s c = Some K_recv \<Longrightarrow> mp_alloc (sv_pool (vs_srv s)) = (None, p) \<Longrightarrow>
    v4_handler s (s\<lparr>vs_conns := (vs_conns s)(c \<mapsto> K_check), vs_srv := (vs_srv s)\<lparr>sv_pool := p, sv_drop := sv_drop (vs_srv s) + 1\<rparr>\<rparr>)"
| hd_push: "vs_conns s c = Some (K_push b) \<Longrightarrow> sq_push QUEUE_SIZE b (sv_queue (vs_srv s)) = (ok, q) \<Longrightarrow>
    v4_handler s (s\<lparr>vs_conns := (vs_conns s)(c \<mapsto> if ok then K_check else K_push b), vs_srv := (vs_srv s)\<lparr>sv_queue := q\<rparr>\<rparr>)"

definition v4_con :: "v4_state \<Rightarrow> v4_state \<Rightarrow> bool" where
  "v4_con s t \<longleftrightarrow> (\<exists>r. con_step (sq_pop QUEUE_SIZE) mp_free (vs_srv s) r \<and> t = s\<lparr>vs_srv := r\<rparr>)"

text \<open>\<open>stats_thread\<close>: it loads the three numbers one after the other, while the consumer goes on.\<close>

inductive v4_stats :: "v4_state \<Rightarrow> v4_state \<Rightarrow> bool" where
  st_runs: "vs_sta s = Sa_check \<Longrightarrow> running s \<Longrightarrow> v4_stats s (s\<lparr>vs_sta := Sa_sleep\<rparr>)"
| st_ends: "vs_sta s = Sa_check \<Longrightarrow> \<not> running s \<Longrightarrow> v4_stats s (s\<lparr>vs_sta := Sa_done\<rparr>)"
| st_count: "vs_sta s = Sa_sleep \<Longrightarrow> v4_stats s (s\<lparr>vs_sta :=
    (if st_count (sv_stats (vs_srv s)) = 0 then Sa_check else Sa_total (st_count (sv_stats (vs_srv s))))\<rparr>)"
| st_total: "vs_sta s = Sa_total c \<Longrightarrow> v4_stats s (s\<lparr>vs_sta := Sa_max c (st_total_ns (sv_stats (vs_srv s)))\<rparr>)"
| st_prints: "vs_sta s = Sa_max c t \<Longrightarrow> v4_stats s (s\<lparr>vs_sta := Sa_check, vs_lines := vs_lines s @
    [stats_line \<lparr>st_total_ns = t, st_count = c, st_max_ns = st_max_ns (sv_stats (vs_srv s))\<rparr>]\<rparr>)"

text \<open>\<open>main\<close>: \<open>cin.get\<close> returns at any time.\<close>

inductive v4_main :: "v4_state \<Rightarrow> v4_state \<Rightarrow> bool" where
  mn_stop: "vs_main s = Mn_wait \<Longrightarrow> v4_main s (s\<lparr>vs_main := Mn_close, vs_srv := (vs_srv s)\<lparr>sv_run := False\<rparr>\<rparr>)"
| mn_close: "vs_main s = Mn_close \<Longrightarrow>
    v4_main s (s\<lparr>vs_main := Mn_join, vs_listen := None, vs_open := (vs_open s \<and> vs_listen s = None)\<rparr>)"
| mn_joined: "vs_main s = Mn_join \<Longrightarrow> vs_net s = A_done \<Longrightarrow> sv_con (vs_srv s) = C_done \<Longrightarrow> vs_sta s = Sa_done \<Longrightarrow>
    v4_main s (s\<lparr>vs_main := Mn_exit (stats_line (sv_stats (vs_srv s)))\<rparr>)"

text \<open>The steps of the four threads that \<open>main\<close> waits for, without and with the clients, and all of them.\<close>

definition v4_own :: "bool \<Rightarrow> v4_state \<Rightarrow> v4_state \<Rightarrow> bool" where
  "v4_own wakes s t \<longleftrightarrow> \<not> vs_dead s \<and> (v4_accept s t \<or> woken wakes s t \<or> v4_con s t \<or> v4_stats s t \<or> v4_main s t)"

definition v4_joined :: "bool \<Rightarrow> v4_state \<Rightarrow> v4_state \<Rightarrow> bool" where
  "v4_joined wakes s t \<longleftrightarrow> v4_own wakes s t \<or> (\<not> vs_dead s \<and> accept_returns wakes s t)"

definition v4_program :: "bool \<Rightarrow> v4_state \<Rightarrow> v4_state \<Rightarrow> bool" where
  "v4_program wakes s t \<longleftrightarrow> v4_joined wakes s t \<or> (\<not> vs_dead s \<and> v4_handler s t)"

subsection \<open>Shutting down\<close>

text \<open>The flag is cleared by \<open>main\<close> alone, and once it has closed the socket nobody waits on an open one.\<close>

definition v4_inv :: "v4_state \<Rightarrow> bool" where
  "v4_inv s \<longleftrightarrow> (running s \<longleftrightarrow> vs_main s = Mn_wait) \<and>
     (vs_net s \<noteq> A_setup \<and> vs_main s \<in> {Mn_wait, Mn_close} \<longrightarrow> vs_listen s \<noteq> None) \<and>
     (vs_net s \<in> {A_call, A_wait} \<and> vs_main s \<notin> {Mn_wait, Mn_close} \<longrightarrow> \<not> vs_open s)"

lemma con_keeps: "con_step pp free r r' \<Longrightarrow> sv_run r' = sv_run r"
  by (erule con_step.cases) simp_all

lemma v4_inv_threads:
  "v4_accept s t \<Longrightarrow> v4_inv s \<Longrightarrow> v4_inv t"
  "accept_returns wakes s t \<Longrightarrow> v4_inv s \<Longrightarrow> v4_inv t"
  "woken wakes s t \<Longrightarrow> v4_inv s \<Longrightarrow> v4_inv t"
  "v4_con s t \<Longrightarrow> v4_inv s \<Longrightarrow> v4_inv t"
  "v4_stats s t \<Longrightarrow> v4_inv s \<Longrightarrow> v4_inv t"
  "v4_main s t \<Longrightarrow> v4_inv s \<Longrightarrow> v4_inv t"
  "v4_handler s t \<Longrightarrow> v4_inv s \<Longrightarrow> v4_inv t"
  subgoal by (erule v4_accept.cases) (auto simp: v4_inv_def)
  subgoal by (erule accept_returns.cases) (simp_all add: v4_inv_def)
  subgoal by (simp add: v4_inv_def woken_def)
  subgoal by (auto simp: v4_inv_def v4_con_def dest: con_keeps)
  subgoal by (erule v4_stats.cases) (simp_all add: v4_inv_def)
  subgoal by (erule v4_main.cases) (auto simp: v4_inv_def)
  subgoal by (erule v4_handler.cases) (simp_all add: v4_inv_def)
  done

lemma v4_inv_step: "v4_program wakes s t \<Longrightarrow> v4_inv s \<Longrightarrow> v4_inv t"
  unfolding v4_program_def v4_joined_def v4_own_def using v4_inv_threads by blast

lemma v4_reach: "(v4_program wakes)\<^sup>*\<^sup>* (v4_start junk m) s \<Longrightarrow> v4_inv s"
proof (induction rule: rtranclp_induct)
  case base
  show ?case by (simp add: v4_inv_def v4_start_def server_init_def)
qed (rule v4_inv_step)

definition v4_over :: "v4_state \<Rightarrow> bool" where
  "v4_over s \<longleftrightarrow> vs_dead s \<or> (\<exists>line. vs_main s = Mn_exit line)"

text \<open>How far the threads are from their ends when the flag is cleared.\<close>

fun net_left :: "accept_pc \<Rightarrow> nat" where
  "net_left A_setup = 5"
| "net_left A_check = 1"
| "net_left A_call = 3"
| "net_left A_wait = 2"
| "net_left A_done = 0"

fun con_left :: "con_pc \<Rightarrow> nat" where
  "con_left C_check = 1"
| "con_left C_poll = 4"
| "con_left (C_hold b) = 3"
| "con_left (C_free b) = 2"
| "con_left C_done = 0"

fun sta_left :: "stats_pc \<Rightarrow> nat" where
  "sta_left Sa_check = 1"
| "sta_left Sa_sleep = 4"
| "sta_left (Sa_total c) = 3"
| "sta_left (Sa_max c t) = 2"
| "sta_left Sa_done = 0"

fun main4_left :: "main4_pc \<Rightarrow> nat" where
  "main4_left Mn_wait = 3"
| "main4_left Mn_close = 2"
| "main4_left Mn_join = 1"
| "main4_left (Mn_exit line) = 0"

definition v4_left :: "v4_state \<Rightarrow> nat" where
  "v4_left s = net_left (vs_net s) + con_left (sv_con (vs_srv s)) + sta_left (vs_sta s) + main4_left (vs_main s) +
     (if vs_dead s then 0 else 1)"

lemma con_nearer: "con_step pp free r r' \<Longrightarrow> \<not> sv_run r \<Longrightarrow> con_left (sv_con r') < con_left (sv_con r)"
  by (erule con_step.cases) simp_all

lemma v4_nearer_threads:
  "v4_accept s t \<Longrightarrow> \<not> running s \<Longrightarrow> \<not> vs_dead s \<Longrightarrow> \<not> running t \<and> v4_left t < v4_left s"
  "accept_returns wakes s t \<Longrightarrow> \<not> running s \<Longrightarrow> \<not> running t \<and> v4_left t < v4_left s"
  "woken wakes s t \<Longrightarrow> \<not> running s \<Longrightarrow> \<not> running t \<and> v4_left t < v4_left s"
  "v4_con s t \<Longrightarrow> \<not> running s \<Longrightarrow> \<not> running t \<and> v4_left t < v4_left s"
  "v4_stats s t \<Longrightarrow> \<not> running s \<Longrightarrow> \<not> running t \<and> v4_left t < v4_left s"
  "v4_main s t \<Longrightarrow> \<not> running s \<Longrightarrow> \<not> running t \<and> v4_left t < v4_left s"
  subgoal by (erule v4_accept.cases) (simp_all add: v4_left_def)
  subgoal by (erule accept_returns.cases) (simp_all add: v4_left_def)
  subgoal by (simp add: v4_left_def woken_def)
  subgoal by (auto simp: v4_left_def v4_con_def dest: con_keeps con_nearer)
  subgoal by (erule v4_stats.cases) (simp_all add: v4_left_def)
  subgoal by (erule v4_main.cases) (simp_all add: v4_left_def)
  done

lemma v4_nearer: "v4_joined wakes s t \<Longrightarrow> \<not> running s \<Longrightarrow> \<not> running t \<and> v4_left t < v4_left s"
  unfolding v4_joined_def v4_own_def using v4_nearer_threads by blast

lemma con_can_move: "sv_con r \<noteq> C_done \<Longrightarrow> \<exists>r'. con_step pp free r r'"
proof (cases "sv_con r")
  case C_check
  then show ?thesis by (cases "sv_run r") (blast intro: con_runs con_leaves)+
next
  case C_poll
  obtain v q where "pp (sv_queue r) = (v, q)" by fastforce
  with C_poll show ?thesis by (cases v) (blast intro: popped pause)+
qed (blast intro: processed freed)+

lemma stats_can_move: "vs_sta s \<noteq> Sa_done \<Longrightarrow> \<exists>t. v4_stats s t"
  by (cases "vs_sta s"; cases "running s") (blast intro: v4_stats.intros)+

lemma v4_can_move:
  assumes "v4_inv s" "\<not> running s" "\<not> v4_over s"
  shows "\<exists>t. v4_own True s t"
proof (rule ccontr)
  assume stuck: "\<not> ?thesis"
  have d: "\<not> vs_dead s" using assms(3) by (simp add: v4_over_def)
  with stuck have no: "\<And>t. \<not> v4_accept s t" "\<And>t. \<not> woken True s t" "\<And>t. \<not> v4_con s t" "\<And>t. \<not> v4_stats s t" "\<And>t. \<not> v4_main s t"
    by (auto simp: v4_own_def)
  have con: "sv_con (vs_srv s) = C_done" using no(3) con_can_move [of "vs_srv s" "sq_pop QUEUE_SIZE" mp_free] unfolding v4_con_def by blast
  have sta: "vs_sta s = Sa_done" using no(4) stats_can_move by blast
  have main: "vs_main s = Mn_join"
    using assms no(5) mn_close by (cases "vs_main s") (auto simp: v4_over_def v4_inv_def)
  have "vs_net s \<noteq> A_done" using no(5) mn_joined main con sta by blast
  moreover have "vs_net s \<noteq> A_wait" using no(2) assms(1) main by (auto simp: woken_def v4_inv_def)
  ultimately show False using no(1) v4_accept.intros by (cases "vs_net s") blast+
qed

text \<open>Where closing the socket wakes \<open>accept\<close>, the program ends once the flag is cleared: the threads that
  are joined make no more than a fixed number of steps, whatever the clients and handlers do, and
  they never wait for a client.\<close>

theorem v4_shuts_down:
  assumes "(v4_program True)\<^sup>*\<^sup>* (v4_start junk m) s" "\<not> running s"
  shows "surely_ends (v4_joined True) v4_over s \<and> (v4_over s \<or> (\<exists>t. v4_own True s t))"
proof
  have i: "v4_inv s" using assms(1) by (rule v4_reach)
  with assms(2) show "v4_over s \<or> (\<exists>t. v4_own True s t)" using v4_can_move by blast
  show "surely_ends (v4_joined True) v4_over s"
  proof (rule surely_endsI [where I = "\<lambda>s. v4_inv s \<and> \<not> running s" and rank = v4_left])
    fix u t assume st: "v4_joined True u t" and u: "v4_inv u \<and> \<not> running u"
    have "v4_program True u t" using st unfolding v4_program_def ..
    with u have "v4_inv t" using v4_inv_step by blast
    with v4_nearer [OF st] u show "(v4_inv t \<and> \<not> running t) \<and> v4_left t < v4_left u" by blast
  next
    fix u assume "v4_inv u \<and> \<not> running u" "\<not> v4_over u"
    then show "\<exists>t. v4_joined True u t" using v4_can_move by (auto simp: v4_joined_def)
  qed (use i assms(2) in simp)
qed

text \<open>Where it does not, as on Linux, \<open>main\<close> can wait for good: \<open>accept\<close> is called before the flag is
  cleared, everybody else has ended, and only a client can bring the program to its end.\<close>

theorem v4_shutdown_can_hang:
  "\<exists>t. (v4_program False)\<^sup>*\<^sup>* (v4_start junk m) t \<and> vs_main t = Mn_join \<and> \<not> vs_dead t \<and> (\<forall>u. \<not> v4_own False t u)"
proof -
  let ?P = "v4_program False"
  define s0 where "s0 = v4_start junk m"
  define s1 where "s1 = s0\<lparr>vs_net := A_check, vs_listen := Some 3, vs_open := True\<rparr>"
  define s2 where "s2 = s1\<lparr>vs_net := A_call\<rparr>"
  define s3 where "s3 = s2\<lparr>vs_net := A_wait\<rparr>"
  define s4 where "s4 = s3\<lparr>vs_main := Mn_close, vs_srv := (vs_srv s3)\<lparr>sv_run := False\<rparr>\<rparr>"
  define s5 where "s5 = s4\<lparr>vs_main := Mn_join, vs_listen := None, vs_open := False\<rparr>"
  define s6 where "s6 = s5\<lparr>vs_srv := (vs_srv s5)\<lparr>sv_con := C_done\<rparr>\<rparr>"
  define s7 where "s7 = s6\<lparr>vs_sta := Sa_done\<rparr>"
  note ds = s7_def s6_def s5_def s4_def s3_def s2_def s1_def s0_def v4_start_def server_init_def
  have "v4_accept s0 s1" unfolding s1_def by (rule listens) (simp add: ds)
  moreover have "v4_accept s1 s2" unfolding s2_def by (rule goes_on) (simp_all add: ds)
  moreover have "v4_accept s2 s3" unfolding s3_def by (rule waits) (simp_all add: ds)
  moreover have "v4_main s3 s4" unfolding s4_def by (rule mn_stop) (simp add: ds)
  moreover have "v4_main s4 s5" using mn_close [of s4] by (simp add: ds)
  moreover have "v4_con s5 s6" using con_leaves [of "vs_srv s5"] by (auto simp: ds v4_con_def)
  moreover have "v4_stats s6 s7" unfolding s7_def by (rule st_ends) (simp_all add: ds)
  ultimately have "?P s0 s1" "?P s1 s2" "?P s2 s3" "?P s3 s4" "?P s4 s5" "?P s5 s6" "?P s6 s7"
    unfolding v4_program_def v4_joined_def v4_own_def by (simp_all add: ds)
  then have "?P\<^sup>*\<^sup>* s0 s7" by (meson rtranclp.rtrancl_into_rtrancl rtranclp.rtrancl_refl)
  moreover have "\<not> v4_own False s7 u" for u
    by (auto simp: v4_own_def woken_def v4_con_def ds elim!: v4_accept.cases v4_stats.cases v4_main.cases con_step.cases)
  moreover have "vs_main s7 = Mn_join" "\<not> vs_dead s7" by (simp_all add: ds)
  ultimately show ?thesis unfolding s0_def by blast
qed

end
