(* ===== verification/Language_Demos.thy ===== *)
theory Language_Demos
  imports Error_Values
begin

section \<open>Small programs on language features\<close>

text \<open>
  What the programs of \<open>topics/language\<close> compute that do more than print a constant: \<open>bit.cpp\<close>,
  \<open>concepts.cpp\<close>, \<open>mdspan.cpp\<close>, \<open>range_views.cpp\<close> and \<open>ref.cpp\<close>.
\<close>

subsection \<open>\<open>std::byteswap\<close>\<close>

definition byteswap :: "u32 \<Rightarrow> u32" where
  "byteswap x = push_bit 24 x OR (push_bit 8 x AND 0xFF0000) OR (drop_bit 8 x AND 0xFF00) OR drop_bit 24 x"

definition bit_main :: "u32 \<times> u32" where
  "bit_main = (let x = 0x12345678; y = byteswap x in (x, y))"

lemma bit_main_swaps: "bit_main = (0x12345678, 0x78563412)"
  by (simp add: bit_main_def byteswap_def)

subsection \<open>A view of a vector as a matrix\<close>

text \<open>\<open>mdspan\<close> keeps the rows one after the other; \<open>m[i, j]\<close> is the element \<open>i * cols + j\<close> of the storage.\<close>

definition md_store :: "nat \<Rightarrow> nat \<Rightarrow> nat \<Rightarrow> 'a \<Rightarrow> 'a list \<Rightarrow> 'a list" where
  "md_store cols i j x storage = storage[i * cols + j := x]"

definition md_fill :: "nat \<Rightarrow> nat \<Rightarrow> (nat \<Rightarrow> nat \<Rightarrow> 'a) \<Rightarrow> 'a list \<Rightarrow> 'a list" where
  "md_fill rows cols f storage = fold (\<lambda>i. fold (\<lambda>j. md_store cols i j (f i j)) [0..<cols]) [0..<rows] storage"

definition mdspan_main :: "nat list" where
  "mdspan_main = md_fill 2 3 (\<lambda>i j. i * 10 + j) (replicate 6 0)"

lemma row_fill:
  "length storage = r * cols \<Longrightarrow> i < r \<Longrightarrow> n \<le> cols \<Longrightarrow>
   fold (\<lambda>j. md_store cols i j (g j)) [0..<n] storage =
     take (i * cols) storage @ map g [0..<n] @ drop (i * cols + n) storage"
proof (induction n)
  case (Suc n)
  have len: "i * cols + n < r * cols"
    using Suc.prems mult_le_mono1 [of "Suc i" r cols] by simp
  with Suc show ?case
    by (simp add: md_store_def list_update_append min_def list_update_beyond flip: Cons_nth_drop_Suc)
qed simp

text \<open>The loops fill the storage row by row, whatever it held.\<close>

lemma md_fill_rows:
  assumes "length storage = rows * cols"
  shows "md_fill rows cols f storage = concat (map (\<lambda>i. map (f i) [0..<cols]) [0..<rows])"
proof -
  have "fold (\<lambda>i. fold (\<lambda>j. md_store cols i j (f i j)) [0..<cols]) [0..<k] storage =
      concat (map (\<lambda>i. map (f i) [0..<cols]) [0..<k]) @ drop (k * cols) storage" if "k \<le> rows" for k
    using that
  proof (induction k)
    case (Suc k)
    let ?c = "concat (map (\<lambda>i. map (f i) [0..<cols]) [0..<k])"
    have len: "length ?c = k * cols" by (induction k) simp_all
    have "length (?c @ drop (k * cols) storage) = rows * cols" using len assms Suc.prems by (simp add: mult_le_mono1)
    from row_fill [OF this, of k cols "f k"] Suc len show ?case by (simp add: add.commute)
  qed simp
  from this [of rows] assms show ?thesis by (simp add: md_fill_def)
qed

lemma mdspan_main_prints: "mdspan_main = [0, 1, 2, 10, 11, 12]"
  by (simp add: mdspan_main_def md_fill_rows upt_rec)

subsection \<open>Views, references and a constrained template\<close>

definition even_squares :: "int list \<Rightarrow> int option list" where
  "even_squares v = map (\<lambda>x. int_result (x * x)) (filter (\<lambda>x. x mod 2 = 0) v)"

lemma range_views_main: "even_squares [1, 2, 3, 4, 5, 6, 7, 8] = map Some [4, 16, 36, 64]"
  by (simp add: even_squares_def int_result_def)

text \<open>\<open>increment\<close> runs in a thread on a reference to the variable of \<open>main\<close>, which reads it after \<open>join\<close>.\<close>

definition increment :: "int \<Rightarrow> int option" where
  "increment x = int_result (x + 1)"

definition add_int :: "int \<Rightarrow> int \<Rightarrow> int option" where
  "add_int a b = int_result (a + b)"

lemma ref_and_concepts_mains: "increment 10 = Some 11" "add_int 2 3 = Some 5"
  by (simp_all add: increment_def add_int_def int_result_def)

end
