(* ===== verification/Lock_Programs.thy ===== *)
theory Lock_Programs
  imports Waiting_Threads Lockfree_Stack
begin

section \<open>The programs around the lock and the stack\<close>

text \<open>
  The \<open>main\<close> functions of \<open>reader_writer_lock.cpp\<close> and \<open>lockfree_stack.cpp\<close>. What each thread does is a
  step of the component it uses, chosen by the loop it is in.
\<close>

subsection \<open>A writer and readers under \<open>ReaderWriterLock\<close>\<close>

datatype rw_line = Write int | Read nat int

text \<open>
  Thread 0 writes, the others read. \<open>lk_left\<close> are the turns each thread still has to begin, \<open>lk_w\<close> the
  index of the writer's loop. \<open>lk_ph\<close> is a thread's place in the block under its guard: at the beginning (0), the
  writer between assignment and print (1), at the end (2).
\<close>

record lock_run =
  lk_rw :: rw_lock
  lk_left :: "nat list"
  lk_ph :: "nat list"
  lk_w :: nat
  lk_value :: int
  lk_out :: "rw_line list"

definition lock_start :: "nat list \<Rightarrow> lock_run" where
  "lock_start turns = \<lparr>lk_rw = rw_init (length turns), lk_left = turns, lk_ph = replicate (length turns) 2,
     lk_w = 0, lk_value = 0, lk_out = []\<rparr>"

inductive lock_act :: "nat \<Rightarrow> lock_run \<Rightarrow> lock_run \<Rightarrow> bool" for k where
  lk_begins: "k < length (rw_ts (lk_rw s)) \<Longrightarrow> rw_ts (lk_rw s) ! k = Outside \<Longrightarrow> 0 < lk_left s ! k \<Longrightarrow>
    lock_act k s (s\<lparr>lk_rw := rw_set k (if k = 0 then W_test else R_test) (lk_rw s),
      lk_left := (lk_left s)[k := lk_left s ! k - 1], lk_ph := (lk_ph s)[k := 0]\<rparr>)"
| lk_reads_lock: "k < length (rw_ts (lk_rw s)) \<Longrightarrow> rw_ts (lk_rw s) ! k = R_test \<Longrightarrow>
    lock_act k s (s\<lparr>lk_rw := lock_read k (lk_rw s)\<rparr>)"
| lk_writes_lock: "k < length (rw_ts (lk_rw s)) \<Longrightarrow> rw_ts (lk_rw s) ! k = W_test \<Longrightarrow>
    lock_act k s (s\<lparr>lk_rw := lock_write k (lk_rw s)\<rparr>)"
| lk_assigns: "k < length (rw_ts (lk_rw s)) \<Longrightarrow> rw_ts (lk_rw s) ! k = W_in \<Longrightarrow> lk_ph s ! k = 0 \<Longrightarrow>
    lock_act k s (s\<lparr>lk_ph := (lk_ph s)[k := 1], lk_value := int (lk_w s) * 10\<rparr>)"
| lk_prints_write: "k < length (rw_ts (lk_rw s)) \<Longrightarrow> rw_ts (lk_rw s) ! k = W_in \<Longrightarrow> lk_ph s ! k = 1 \<Longrightarrow>
    lock_act k s (s\<lparr>lk_ph := (lk_ph s)[k := 2], lk_w := lk_w s + 1, lk_out := lk_out s @ [Write (lk_value s)]\<rparr>)"
| lk_prints_read: "k < length (rw_ts (lk_rw s)) \<Longrightarrow> rw_ts (lk_rw s) ! k = R_in \<Longrightarrow> lk_ph s ! k = 0 \<Longrightarrow>
    lock_act k s (s\<lparr>lk_ph := (lk_ph s)[k := 2], lk_out := lk_out s @ [Read k (lk_value s)]\<rparr>)"
| lk_ends_read: "k < length (rw_ts (lk_rw s)) \<Longrightarrow> rw_ts (lk_rw s) ! k = R_in \<Longrightarrow> lk_ph s ! k = 2 \<Longrightarrow>
    lock_act k s (s\<lparr>lk_rw := unlock_read k (lk_rw s)\<rparr>)"
| lk_ends_write: "k < length (rw_ts (lk_rw s)) \<Longrightarrow> rw_ts (lk_rw s) ! k = W_in \<Longrightarrow> lk_ph s ! k = 2 \<Longrightarrow>
    lock_act k s (s\<lparr>lk_rw := unlock_write k (lk_rw s)\<rparr>)"

definition lock_step :: "lock_run \<Rightarrow> lock_run \<Rightarrow> bool" where
  "lock_step s t \<longleftrightarrow> (\<exists>k. lock_act k s t \<or> (\<exists>r. rw_spurious k (lk_rw s) r \<and> t = s\<lparr>lk_rw := r\<rparr>))"

text \<open>The values written so far, and what a reader may print after them.\<close>

definition written :: "rw_line list \<Rightarrow> int list" where
  "written out = concat (map (\<lambda>l. case l of Write v \<Rightarrow> [v] | Read k v \<Rightarrow> []) out)"

definition fresh_reads :: "rw_line list \<Rightarrow> bool" where
  "fresh_reads out \<longleftrightarrow> (\<forall>i < length out. \<forall>k v. out ! i = Read k v \<longrightarrow> v = last (0 # written (take i out)))"

fun line_of :: "rw_line \<Rightarrow> nat" where
  "line_of (Write v) = 0"
| "line_of (Read k v) = k"

definition lines_of :: "nat \<Rightarrow> rw_line list \<Rightarrow> nat" where
  "lines_of k out = length (filter (\<lambda>l. line_of l = k) out)"

lemma written_snoc [simp]: "written (out @ [Write v]) = written out @ [v]" "written (out @ [Read k v]) = written out"
  by (simp_all add: written_def)

lemma lines_snoc [simp]: "lines_of k (out @ [l]) = lines_of k out + (if line_of l = k then 1 else 0)"
  by (simp add: lines_of_def)

lemma fresh_snoc: "fresh_reads (out @ [l]) \<longleftrightarrow> fresh_reads out \<and> (\<forall>k v. l = Read k v \<longrightarrow> v = last (0 # written out))"
  by (auto simp: fresh_reads_def nth_append less_Suc_eq)

text \<open>
  Under the lock nobody reads while the writer is between assignment and print, which is the only
  time at which the variable is ahead of what was printed.
\<close>

definition side_of :: "nat \<Rightarrow> rw_pc \<Rightarrow> bool" where
  "side_of k u \<longleftrightarrow> (if k = 0 then u \<notin> {R_test, R_asleep, R_in} else u \<notin> {W_test, W_asleep, W_in})"

definition thread_ok :: "nat \<Rightarrow> nat \<Rightarrow> rw_pc \<Rightarrow> nat \<Rightarrow> nat \<Rightarrow> nat \<Rightarrow> bool" where
  "thread_ok k n u ph left lines \<longleftrightarrow> side_of k u \<and> lines + left + (if u \<noteq> Outside \<and> ph < 2 then 1 else 0) = n \<and>
     (u \<notin> {R_in, W_in, Outside} \<longrightarrow> ph = 0) \<and> (u = R_in \<longrightarrow> ph \<noteq> 1) \<and> ph \<le> 2"

definition threads_ok :: "nat list \<Rightarrow> rw_pc list \<Rightarrow> nat list \<Rightarrow> nat list \<Rightarrow> rw_line list \<Rightarrow> bool" where
  "threads_ok turns ts ph left out \<longleftrightarrow> length ts = length turns \<and> length ph = length turns \<and> length left = length turns \<and>
     (\<forall>k < length turns. thread_ok k (turns ! k) (ts ! k) (ph ! k) (left ! k) (lines_of k out))"

definition lk_ahead :: "lock_run \<Rightarrow> bool" where
  "lk_ahead s \<longleftrightarrow> rw_ts (lk_rw s) ! 0 = W_in \<and> lk_ph s ! 0 = 1"

definition lock_inv :: "nat list \<Rightarrow> lock_run \<Rightarrow> bool" where
  "lock_inv turns s \<longleftrightarrow> rw_inv (lk_rw s) \<and> threads_ok turns (rw_ts (lk_rw s)) (lk_ph s) (lk_left s) (lk_out s) \<and> turns \<noteq> [] \<and>
     written (lk_out s) = map (\<lambda>i. int i * 10) [0..<lk_w s] \<and> lk_w s = lines_of 0 (lk_out s) \<and> fresh_reads (lk_out s) \<and>
     lk_value s = (if lk_ahead s then int (lk_w s) * 10 else last (0 # written (lk_out s)))"

lemma thread_ok_wake: "thread_ok k n u ph left lines \<Longrightarrow> thread_ok k n (rw_wake u) ph left lines"
  by (cases u) (auto simp: thread_ok_def side_of_def split: if_splits)

lemma threads_wake: "threads_ok turns ts ph left out \<Longrightarrow> threads_ok turns (map rw_wake ts) ph left out"
  by (simp add: threads_ok_def thread_ok_wake)

lemma threads_set:
  assumes "threads_ok turns ts ph left out" "k < length turns"
    "thread_ok k (turns ! k) u p l (lines_of k out')" "\<And>j. j \<noteq> k \<Longrightarrow> lines_of j out' = lines_of j out"
  shows "threads_ok turns (ts[k := u]) (ph[k := p]) (left[k := l]) out'"
  using assms by (auto simp: threads_ok_def nth_list_update)

lemma lock_ts:
  "rw_ts (rw_set k u r) = (rw_ts r)[k := u]"
  "rw_ts (lock_read k r) = (rw_ts r)[k := if writing r then R_asleep else R_in]"
  "rw_ts (lock_write k r) = (rw_ts r)[k := if writing r \<or> readers r \<noteq> 0 then W_asleep else W_in]"
  "rw_ts (unlock_write k r) = map rw_wake ((rw_ts r)[k := Outside])"
  "rw_ts (unlock_read k r) = (if readers r = 1 then map rw_wake ((rw_ts r)[k := Outside]) else (rw_ts r)[k := Outside])"
  by (auto simp: rw_set_def lock_read_def lock_write_def unlock_read_def unlock_write_def rw_notify_all_def Let_def)

text \<open>A reader inside keeps the writer out.\<close>

lemma no_writer:
  assumes "rw_inv r" "k < length (rw_ts r)" "rw_ts r ! k = R_in" "j < length (rw_ts r)"
  shows "rw_ts r ! j \<noteq> W_in"
proof
  assume w: "rw_ts r ! j = W_in"
  have "R_in \<in> set (rw_ts r)" "W_in \<in> set (rw_ts r)" using assms(2-4) w by (metis nth_mem)+
  then have "inside R_in r \<noteq> 0" "inside W_in r \<noteq> 0" by (auto simp: inside_def filter_empty_conv)
  then show False using assms(1) by (auto simp: rw_inv_def split: if_splits)
qed

lemma lock_lengths:
  assumes "lock_inv turns s"
  shows "length (rw_ts (lk_rw s)) = length turns" "length (lk_ph s) = length turns" "length (lk_left s) = length turns" "0 < length turns"
  using assms by (simp_all add: lock_inv_def threads_ok_def)

lemma lock_thread:
  assumes "lock_inv turns s" "k < length (rw_ts (lk_rw s))"
  shows "thread_ok k (turns ! k) (rw_ts (lk_rw s) ! k) (lk_ph s ! k) (lk_left s ! k) (lines_of k (lk_out s))"
  using assms by (simp add: lock_inv_def threads_ok_def)

text \<open>Steps that neither write nor print, and neither begin nor end the time the writer is ahead.\<close>

lemma lock_inv_quiet:
  assumes "lock_inv turns s" "k < length (rw_ts (lk_rw s))" "rw_inv r" "rw_ts r = (if b then map rw_wake ((rw_ts (lk_rw s))[k := u]) else (rw_ts (lk_rw s))[k := u])"
    "thread_ok k (turns ! k) u p l (lines_of k (lk_out s))"
    "k = 0 \<Longrightarrow> (rw_ts (lk_rw s) ! 0 = W_in \<and> lk_ph s ! 0 = 1) = (u = W_in \<and> p = 1)"
  shows "lock_inv turns (s\<lparr>lk_rw := r, lk_left := (lk_left s)[k := l], lk_ph := (lk_ph s)[k := p]\<rparr>)" (is "lock_inv turns ?t")
proof -
  have th: "threads_ok turns (rw_ts (lk_rw s)) (lk_ph s) (lk_left s) (lk_out s)" using assms(1) by (simp add: lock_inv_def)
  have "threads_ok turns ((rw_ts (lk_rw s))[k := u]) ((lk_ph s)[k := p]) ((lk_left s)[k := l]) (lk_out s)"
    by (rule threads_set [OF th]) (use assms(2,5) lock_lengths [OF assms(1)] in simp_all)
  then have "threads_ok turns (rw_ts r) ((lk_ph s)[k := p]) ((lk_left s)[k := l]) (lk_out s)"
    using assms(4) threads_wake by simp
  moreover have "lk_ahead ?t = lk_ahead s"
    using assms(2,4,6) lock_lengths [OF assms(1)] wake_iff by (auto simp: lk_ahead_def nth_list_update)
  ultimately show ?thesis using assms(1,3) by (simp add: lock_inv_def)
qed

lemma lock_inv_same:
  assumes "lock_inv turns s" "k < length (rw_ts (lk_rw s))" "rw_inv r" "rw_ts r = (if b then map rw_wake ((rw_ts (lk_rw s))[k := u]) else (rw_ts (lk_rw s))[k := u])"
    "thread_ok k (turns ! k) u (lk_ph s ! k) (lk_left s ! k) (lines_of k (lk_out s))"
    "k = 0 \<Longrightarrow> (rw_ts (lk_rw s) ! 0 = W_in \<and> lk_ph s ! 0 = 1) = (u = W_in \<and> lk_ph s ! 0 = 1)"
  shows "lock_inv turns (s\<lparr>lk_rw := r\<rparr>)"
  using lock_inv_quiet [OF assms(1-5)] assms(6) by simp

text \<open>The steps in the block under the guard.\<close>

lemma lock_inv_block:
  assumes "lock_inv turns s" "k < length (rw_ts (lk_rw s))" "thread_ok k (turns ! k) (rw_ts (lk_rw s) ! k) p (lk_left s ! k) (lines_of k out)"
    "\<And>j. j \<noteq> k \<Longrightarrow> lines_of j out = lines_of j (lk_out s)" "written out = map (\<lambda>i. int i * 10) [0..<w]" "w = lines_of 0 out"
    "fresh_reads out" "v = (if rw_ts (lk_rw s) ! 0 = W_in \<and> (lk_ph s)[k := p] ! 0 = 1 then int w * 10 else last (0 # written out))"
  shows "lock_inv turns (s\<lparr>lk_ph := (lk_ph s)[k := p], lk_value := v, lk_w := w, lk_out := out\<rparr>)"
proof -
  have th: "threads_ok turns (rw_ts (lk_rw s)) (lk_ph s) (lk_left s) (lk_out s)" using assms(1) by (simp add: lock_inv_def)
  have "threads_ok turns (rw_ts (lk_rw s)) ((lk_ph s)[k := p]) (lk_left s) out"
    using threads_set [OF th, of k "rw_ts (lk_rw s) ! k" p "lk_left s ! k" out] assms(2-4) lock_lengths [OF assms(1)] by simp
  with assms(1,5-8) show ?thesis by (simp add: lock_inv_def lk_ahead_def)
qed

lemma lock_begins_inv:
  assumes "lock_inv turns s" "k < length (rw_ts (lk_rw s))" "rw_ts (lk_rw s) ! k = Outside" "0 < lk_left s ! k"
  shows "lock_inv turns (s\<lparr>lk_rw := rw_set k (if k = 0 then W_test else R_test) (lk_rw s),
    lk_left := (lk_left s)[k := lk_left s ! k - 1], lk_ph := (lk_ph s)[k := 0]\<rparr>)"
proof (rule lock_inv_quiet [where b = False, OF assms(1,2)])
  have "rw_inv (lk_rw s)" using assms(1) by (simp add: lock_inv_def)
  with guard_inv read_guard [OF assms(2,3)] write_guard [OF assms(2,3)]
  show "rw_inv (rw_set k (if k = 0 then W_test else R_test) (lk_rw s))" by metis
  show "thread_ok k (turns ! k) (if k = 0 then W_test else R_test) 0 (lk_left s ! k - 1) (lines_of k (lk_out s))"
    using lock_thread [OF assms(1,2)] assms(3,4) by (auto simp: thread_ok_def side_of_def)
qed (use assms(3) in \<open>auto simp: lock_ts\<close>)

lemma lock_act_inv:
  assumes "lock_act k s t" "lock_inv turns s"
  shows "lock_inv turns t"
proof -
  have r: "rw_inv (lk_rw s)" and out: "written (lk_out s) = map (\<lambda>i. int i * 10) [0..<lk_w s]" "lk_w s = lines_of 0 (lk_out s)"
    "fresh_reads (lk_out s)" "lk_value s = (if lk_ahead s then int (lk_w s) * 10 else last (0 # written (lk_out s)))"
    using assms(2) by (simp_all add: lock_inv_def)
  note len = lock_lengths [OF assms(2)]
  note ok = lock_thread [OF assms(2), of k, unfolded thread_ok_def side_of_def]
  note same = lock_inv_same [OF assms(2)] and block = lock_inv_block [OF assms(2)]
  from assms(1) show ?thesis
  proof cases
    case lk_begins
    with lock_begins_inv [OF assms(2)] show ?thesis by simp
  next
    case lk_reads_lock
    with same [where b = False, OF lk_reads_lock(2) guard_inv [OF read_lock [OF lk_reads_lock(2,3)] r]] ok show ?thesis
      by (auto simp: lock_ts thread_ok_def side_of_def split: if_splits)
  next
    case lk_writes_lock
    with same [where b = False, OF lk_writes_lock(2) guard_inv [OF write_lock [OF lk_writes_lock(2,3)] r]] ok show ?thesis
      by (auto simp: lock_ts thread_ok_def side_of_def split: if_splits)
  next
    case lk_assigns
    then have k: "k = 0" "lk_ph s ! 0 = 0" using ok by (auto split: if_splits)
    have "lock_inv turns (s\<lparr>lk_ph := (lk_ph s)[k := 1], lk_value := int (lk_w s) * 10, lk_w := lk_w s, lk_out := lk_out s\<rparr>)"
      by (rule block [OF lk_assigns(2)]) (use lk_assigns k ok out len in \<open>simp_all add: thread_ok_def side_of_def\<close>)
    with lk_assigns(1) show ?thesis by simp
  next
    case lk_prints_write
    then have "k = 0" "lk_ahead s" using ok by (auto simp: lk_ahead_def split: if_splits)
    have "lock_inv turns (s\<lparr>lk_ph := (lk_ph s)[k := 2], lk_value := lk_value s, lk_w := lk_w s + 1,
        lk_out := lk_out s @ [Write (lk_value s)]\<rparr>)"
      by (rule block [OF lk_prints_write(2)])
        (use lk_prints_write \<open>k = 0\<close> \<open>lk_ahead s\<close> ok out len in \<open>simp_all add: thread_ok_def side_of_def fresh_snoc\<close>)
    with lk_prints_write(1) show ?thesis by simp
  next
    case lk_prints_read
    then have k: "k \<noteq> 0" "rw_ts (lk_rw s) ! 0 \<noteq> W_in" using ok no_writer [OF r lk_prints_read(2,3), of 0] len by (auto split: if_splits)
    then have v: "lk_value s = last (0 # written (lk_out s))" using out(4) by (simp add: lk_ahead_def)
    have "lock_inv turns (s\<lparr>lk_ph := (lk_ph s)[k := 2], lk_value := lk_value s, lk_w := lk_w s,
        lk_out := lk_out s @ [Read k (lk_value s)]\<rparr>)"
      by (rule block [OF lk_prints_read(2)])
        (use lk_prints_read k v ok out(1-3) len in \<open>simp_all add: thread_ok_def side_of_def fresh_snoc\<close>)
    with lk_prints_read(1) show ?thesis by simp
  next
    case lk_ends_read
    with same [where u = Outside and b = "readers (lk_rw s) = 1",
        OF lk_ends_read(2) guard_inv [OF read_unlock [OF lk_ends_read(2,3)] r]] ok show ?thesis
      by (auto simp: lock_ts thread_ok_def side_of_def split: if_splits)
  next
    case lk_ends_write
    with same [where b = True and u = Outside, OF lk_ends_write(2) guard_inv [OF write_unlock [OF lk_ends_write(2,3)] r]] ok show ?thesis
      by (auto simp: lock_ts thread_ok_def side_of_def split: if_splits)
  qed
qed

lemma lock_spurious_inv:
  assumes "rw_spurious k (lk_rw s) r" "lock_inv turns s"
  shows "lock_inv turns (s\<lparr>lk_rw := r\<rparr>)"
  using assms(1)
proof cases
  case 1
  have "rw_inv r" using rw_spurious_inv [OF assms(1)] assms(2) by (simp add: lock_inv_def)
  moreover have "rw_ts r = (if False then map rw_wake ((rw_ts (lk_rw s))[k := rw_wake (rw_ts (lk_rw s) ! k)])
      else (rw_ts (lk_rw s))[k := rw_wake (rw_ts (lk_rw s) ! k)])" by (simp add: 1(1) lock_ts)
  ultimately show ?thesis
    by (rule lock_inv_same [OF assms(2) 1(2)]) (use lock_thread [OF assms(2) 1(2)] thread_ok_wake wake_iff in auto)
qed

lemma lock_reach:
  assumes "lock_step\<^sup>*\<^sup>* (lock_start turns) s" "turns \<noteq> []"
  shows "lock_inv turns s"
  using assms(1)
proof (induction rule: rtranclp_induct)
  case base
  have "rw_inv (rw_init (length turns))" using rw_reach [of "length turns"] by blast
  with assms(2) show ?case
    by (auto simp: lock_inv_def lock_start_def threads_ok_def thread_ok_def side_of_def lk_ahead_def rw_init_def lines_of_def written_def fresh_reads_def)
next
  case (step s t)
  then show ?case using lock_act_inv lock_spurious_inv by (auto simp: lock_step_def)
qed

subsubsection \<open>It ends\<close>

fun rw_weight :: "nat \<Rightarrow> rw_pc \<Rightarrow> nat \<Rightarrow> nat" where
  "rw_weight n Outside ph = 0"
| "rw_weight n R_in ph = n + (2 - ph)"
| "rw_weight n W_in ph = n + (2 - ph)"
| "rw_weight n R_asleep ph = n + 3"
| "rw_weight n W_asleep ph = n + 3"
| "rw_weight n R_test ph = n + 4"
| "rw_weight n W_test ph = n + 4"

definition share :: "nat \<Rightarrow> lock_run \<Rightarrow> nat \<Rightarrow> nat" where
  "share n s j = rw_weight n (rw_ts (lk_rw s) ! j) (lk_ph s ! j) + (n + 5) * lk_left s ! j"

definition lock_left :: "nat \<Rightarrow> lock_run \<Rightarrow> nat" where
  "lock_left n s = (\<Sum>j<n. share n s j)"

lemma rw_weight_wake: "rw_weight n (rw_wake u) ph \<le> rw_weight n u ph + 1"
  by (cases u) simp_all

lemma less_woken:
  fixes f g :: "nat \<Rightarrow> nat"
  assumes "k < n" "\<And>j. j < n \<Longrightarrow> j \<noteq> k \<Longrightarrow> g j \<le> f j + d" "g k + (n - 1) * d < f k"
  shows "(\<Sum>j<n. g j) < (\<Sum>j<n. f j)"
proof -
  have card: "card ({..<n} - {k}) = n - 1" using assms(1) by simp
  have "(\<Sum>j\<in>{..<n} - {k}. g j) \<le> (\<Sum>j\<in>{..<n} - {k}. f j + d)" using assms(2) by (intro sum_mono) auto
  also have "\<dots> = (\<Sum>j\<in>{..<n} - {k}. f j) + (n - 1) * d" using card by (simp add: sum.distrib)
  finally have "(\<Sum>j\<in>{..<n} - {k}. g j) \<le> (\<Sum>j\<in>{..<n} - {k}. f j) + (n - 1) * d" .
  moreover have split: "(\<Sum>j<n. h j) = h k + (\<Sum>j\<in>{..<n} - {k}. h j)" for h :: "nat \<Rightarrow> nat"
    using assms(1) by (intro sum.remove) auto
  ultimately show ?thesis unfolding split [of g] split [of f] using assms(3) by linarith
qed

lemma share_falls:
  assumes "k < n" "\<And>j. j < n \<Longrightarrow> j \<noteq> k \<Longrightarrow> share n t j = share n s j" "share n t k < share n s k"
  shows "lock_left n t < lock_left n s"
  unfolding lock_left_def by (rule less_woken [of k n _ _ 0]) (use assms in simp_all)

lemma share_woken:
  assumes "k < n" "rw_ts (lk_rw t) = map rw_wake ((rw_ts (lk_rw s))[k := Outside])" "lk_ph t = lk_ph s" "lk_left t = lk_left s"
    "length (rw_ts (lk_rw s)) = n" "rw_ts (lk_rw s) ! k \<in> {R_in, W_in}"
  shows "lock_left n t < lock_left n s"
  unfolding lock_left_def
  by (rule less_woken [of k n _ _ 1]) (use assms rw_weight_wake in \<open>auto simp: share_def\<close>)

lemma lock_nearer:
  assumes "lock_act k s t" "lock_inv turns s"
  shows "lock_left (length turns) t < lock_left (length turns) s"
proof -
  note len = lock_lengths [OF assms(2)]
  note ok = lock_thread [OF assms(2), of k, unfolded thread_ok_def]
  from assms(1) show ?thesis
  proof cases
    case lk_begins
    obtain l where "lk_left s ! k = Suc l" using lk_begins(4) gr0_implies_Suc by blast
    then have "share (length turns) t k < share (length turns) s k"
      using lk_begins(2,3) len by (simp add: share_def lock_ts lk_begins(1))
    moreover have "share (length turns) t j = share (length turns) s j" if "j \<noteq> k" for j
      using that by (simp add: share_def lock_ts lk_begins(1))
    ultimately show ?thesis using lk_begins(2) len(1) share_falls [of k "length turns" t s] by simp
  next
    case lk_ends_read
    show ?thesis
    proof (cases "readers (lk_rw s) = 1")
      case True
      with lk_ends_read len show ?thesis by (intro share_woken [of k]) (simp_all add: lock_ts)
    qed (use lk_ends_read len in \<open>intro share_falls [of k]; simp add: share_def lock_ts\<close>)
  next
    case lk_ends_write
    with len show ?thesis by (intro share_woken [of k]) (simp_all add: lock_ts)
  qed (use len ok in \<open>intro share_falls [of k]; simp add: share_def lock_ts\<close>)+
qed

definition lock_over :: "nat list \<Rightarrow> lock_run \<Rightarrow> bool" where
  "lock_over turns s \<longleftrightarrow> set (rw_ts (lk_rw s)) = {Outside} \<and> (\<forall>k < length turns. lines_of k (lk_out s) = turns ! k) \<and> lk_w s = turns ! 0"

lemma lock_can_move:
  assumes "lock_inv turns s" "\<not> lock_over turns s"
  shows "\<exists>k t. lock_act k s t"
proof (rule ccontr)
  assume stuck: "\<not> ?thesis"
  let ?ts = "rw_ts (lk_rw s)"
  note len = lock_lengths [OF assms(1)]
  have at: "?ts ! k \<in> {Outside, R_asleep, W_asleep} \<and> (?ts ! k = Outside \<longrightarrow> lk_left s ! k = 0)" if k: "k < length ?ts" for k
  proof -
    have "thread_ok k (turns ! k) (?ts ! k) (lk_ph s ! k) (lk_left s ! k) (lines_of k (lk_out s))" using lock_thread [OF assms(1) k] .
    then have "lk_ph s ! k \<le> 2" "?ts ! k = R_in \<longrightarrow> lk_ph s ! k \<noteq> 1" by (simp_all add: thread_ok_def)
    then have "?ts ! k \<noteq> R_in" "?ts ! k \<noteq> W_in" "?ts ! k \<noteq> R_test" "?ts ! k \<noteq> W_test" "?ts ! k = Outside \<longrightarrow> lk_left s ! k = 0"
      using stuck lock_act.intros [OF k] by (auto simp: numeral_2_eq_2 le_Suc_eq)
    then show ?thesis by (cases "?ts ! k") simp_all
  qed
  have "?ts ! k = Outside" if k: "k < length ?ts" for k
  proof (rule ccontr)
    assume "?ts ! k \<noteq> Outside"
    then obtain j r where j: "guard_step j (lk_rw s) r" "?ts ! j \<noteq> Outside"
      using rw_progress [OF _ k] assms(1) by (auto simp: lock_inv_def)
    from j(1) have "j < length ?ts" by cases simp_all
    with at [of j] j show False by (auto elim!: guard_step.cases)
  qed
  then have out: "?ts ! k = Outside \<and> lk_left s ! k = 0" if "k < length turns" for k using at that len by simp
  then have "lines_of k (lk_out s) = turns ! k" if "k < length turns" for k
    using lock_thread [OF assms(1), of k] that len by (simp add: thread_ok_def)
  moreover have "set ?ts = {Outside}" using out len by (auto simp: in_set_conv_nth set_eq_iff)
  moreover have "lk_w s = lines_of 0 (lk_out s)" using assms(1) by (simp add: lock_inv_def)
  ultimately show False using assms(2) len by (simp add: lock_over_def)
qed

text \<open>Readers print the value the writer printed last, the writer goes through 0, 10, 20 and so on, and
  without further spurious wake-ups every run ends with all lines printed.\<close>

theorem lock_program:
  assumes "turns \<noteq> []" "lock_step\<^sup>*\<^sup>* (lock_start turns) s"
  shows "fresh_reads (lk_out s) \<and> written (lk_out s) = map (\<lambda>i. int i * 10) [0..<lk_w s] \<and>
    surely_ends (\<lambda>s t. \<exists>k. lock_act k s t) (lock_over turns) s"
proof -
  have i: "lock_inv turns s" using lock_reach [OF assms(2,1)] .
  moreover have "surely_ends (\<lambda>s t. \<exists>k. lock_act k s t) (lock_over turns) s"
    by (rule surely_endsI [where I = "lock_inv turns" and rank = "lock_left (length turns)", OF i])
      (use lock_act_inv lock_nearer lock_can_move in blast)+
  ultimately show ?thesis by (simp add: lock_inv_def)
qed

subsection \<open>Pushing threads and a popping \<open>main\<close>\<close>

text \<open>
  Thread \<open>t\<close> of \<open>N\<close> pushes \<open>t * M + i\<close> for all \<open>i\<close> below \<open>M\<close>; after all are joined, \<open>main\<close> (thread \<open>N\<close>) pops until
  \<open>pop\<close> returns false. \<open>pi_i\<close> are the loop counters. The benchmark is the program with one thread.
\<close>

record pile =
  pi_stack :: "nat stack"
  pi_i :: "nat \<Rightarrow> nat"
  pi_over :: bool

definition pile_start :: pile where
  "pile_start = \<lparr>pi_stack = stack_init, pi_i = (\<lambda>_. 0), pi_over = False\<rparr>"

inductive pile_act :: "nat \<Rightarrow> nat \<Rightarrow> pile \<Rightarrow> pile \<Rightarrow> bool" for N M where
  pi_calls: "t < N \<Longrightarrow> pi_i s t < M \<Longrightarrow> sk_pc (pi_stack s) t = K_idle \<Longrightarrow>
    pile_act N M s (s\<lparr>pi_stack := goto t (K_push (t * M + pi_i s t)) (pi_stack s), pi_i := (pi_i s)(t := pi_i s t + 1)\<rparr>)"
| pi_pushes: "t < N \<Longrightarrow> sk_pc (pi_stack s) t \<noteq> K_idle \<Longrightarrow> stack_push t (pi_stack s) r \<Longrightarrow> pile_act N M s (s\<lparr>pi_stack := r\<rparr>)"
| pi_joined: "\<forall>t < N. pi_i s t = M \<and> sk_pc (pi_stack s) t = K_idle \<Longrightarrow> sk_pc (pi_stack s) N = K_idle \<Longrightarrow> \<not> pi_over s \<Longrightarrow>
    pile_act N M s (s\<lparr>pi_stack := goto N K_pop (pi_stack s)\<rparr>)"
| pi_pops: "sk_pc (pi_stack s) N \<notin> {K_idle, K_old None} \<Longrightarrow> stack_pop N (pi_stack s) r \<Longrightarrow> pile_act N M s (s\<lparr>pi_stack := r\<rparr>)"
| pi_ends: "sk_pc (pi_stack s) N = K_old None \<Longrightarrow> pile_act N M s (s\<lparr>pi_stack := goto N K_idle (pi_stack s), pi_over := True\<rparr>)"

text \<open>The value of a push under way, and the values of the calls made.\<close>

fun in_push_of :: "'a stack_pc \<Rightarrow> (nat \<Rightarrow> ('a \<times> nat option) option) \<Rightarrow> 'a multiset" where
  "in_push_of (K_push x) nd = {#x#}"
| "in_push_of (K_cas a) nd = (case nd a of None \<Rightarrow> {#} | Some (x, n) \<Rightarrow> {#x#})"
| "in_push_of _ nd = {#}"

definition calls_of :: "nat \<Rightarrow> nat \<Rightarrow> (nat \<Rightarrow> nat) \<Rightarrow> nat multiset" where
  "calls_of N M i = (\<Sum>t<N. mset (map (\<lambda>j. t * M + j) [0..<i t]))"

definition pile_inv :: "nat \<Rightarrow> nat \<Rightarrow> pile \<Rightarrow> bool" where
  "pile_inv N M s \<longleftrightarrow> (\<exists>as. stack_inv N as (pi_stack s)) \<and>
     mset (sk_pushed (pi_stack s)) + (\<Sum>t<N. in_push_of (sk_pc (pi_stack s) t) (sk_node (pi_stack s))) = calls_of N M (pi_i s) \<and>
     (\<forall>t < N. pi_i s t \<le> M) \<and>
     (sk_pc (pi_stack s) N \<noteq> K_idle \<or> pi_over s \<longrightarrow> (\<forall>t < N. pi_i s t = M \<and> sk_pc (pi_stack s) t = K_idle)) \<and>
     (sk_pc (pi_stack s) N = K_old None \<or> pi_over s \<longrightarrow> sk_head (pi_stack s) = None) \<and>
     (pi_over s \<longrightarrow> sk_pc (pi_stack s) N = K_idle)"

lemma sum_but_one:
  fixes f g :: "nat \<Rightarrow> 'a multiset"
  assumes "t < n" "\<And>j. j < n \<Longrightarrow> j \<noteq> t \<Longrightarrow> g j = f j" "x + g t = y + f t"
  shows "x + (\<Sum>j<n. g j) = y + (\<Sum>j<n. f j)"
proof -
  have split: "(\<Sum>j<n. h j) = h t + (\<Sum>j\<in>{..<n} - {t}. h j)" for h :: "nat \<Rightarrow> 'a multiset"
    using assms(1) by (intro sum.remove) auto
  have "(\<Sum>j\<in>{..<n} - {t}. g j) = (\<Sum>j\<in>{..<n} - {t}. f j)" using assms(2) by (intro sum.cong) auto
  with assms(3) show ?thesis unfolding split [of g] split [of f] by (simp add: add.assoc [symmetric])
qed

lemma push_values:
  assumes "stack_push t r r'" "stack_inv p as r" "sk_pc r t \<noteq> K_idle"
  shows "mset (sk_pushed r') + in_push_of (sk_pc r' t) (sk_node r') = mset (sk_pushed r) + in_push_of (sk_pc r t) (sk_node r)"
    and "j \<noteq> t \<Longrightarrow> sk_pc r' j = sk_pc r j \<and> in_push_of (sk_pc r j) (sk_node r') = in_push_of (sk_pc r j) (sk_node r)"
proof -
  have cas: "sk_pc r i = K_cas a \<Longrightarrow> sk_node r a \<noteq> None" "sk_pc r i = K_cas a \<Longrightarrow> sk_pc r k = K_cas a \<Longrightarrow> i = k" for i k a
    using assms(2) by (auto simp: stack_inv_def)
  from assms(1) show "mset (sk_pushed r') + in_push_of (sk_pc r' t) (sk_node r') = mset (sk_pushed r) + in_push_of (sk_pc r t) (sk_node r)"
    by cases (use assms(3) in simp_all)
  from assms(1) show "j \<noteq> t \<Longrightarrow> sk_pc r' j = sk_pc r j \<and> in_push_of (sk_pc r j) (sk_node r') = in_push_of (sk_pc r j) (sk_node r)"
    by cases (use cas in \<open>cases "sk_pc r j"; force\<close>)+
qed

lemma pile_calls_inv:
  assumes "pile_inv N M s" "t < N" "pi_i s t < M" "sk_pc (pi_stack s) t = K_idle"
  shows "pile_inv N M (s\<lparr>pi_stack := goto t (K_push (t * M + pi_i s t)) (pi_stack s), pi_i := (pi_i s)(t := pi_i s t + 1)\<rparr>)"
proof -
  let ?r = "pi_stack s"
  obtain as where i: "stack_inv N as ?r" using assms(1) by (auto simp: pile_inv_def)
  have "stack_push t ?r (goto t (K_push (t * M + pi_i s t)) ?r)" by (rule push_call) (rule assms(4))
  from push_inv [OF this i] have "\<exists>as. stack_inv N as (goto t (K_push (t * M + pi_i s t)) ?r)" .
  moreover have "mset (sk_pushed ?r) + (\<Sum>j<N. in_push_of (sk_pc (goto t (K_push (t * M + pi_i s t)) ?r) j) (sk_node ?r)) =
      (mset (sk_pushed ?r) + {#t * M + pi_i s t#}) + (\<Sum>j<N. in_push_of (sk_pc ?r j) (sk_node ?r))"
    by (rule sum_but_one [OF assms(2)]) (use assms(4) in simp_all)
  moreover have "{#} + calls_of N M ((pi_i s)(t := pi_i s t + 1)) = {#t * M + pi_i s t#} + calls_of N M (pi_i s)"
    unfolding calls_of_def by (rule sum_but_one [OF assms(2)]) simp_all
  moreover have "mset (sk_pushed ?r) + (\<Sum>j<N. in_push_of (sk_pc ?r j) (sk_node ?r)) = calls_of N M (pi_i s)"
    using assms(1) by (simp add: pile_inv_def)
  ultimately have "\<exists>as. stack_inv N as (goto t (K_push (t * M + pi_i s t)) ?r)"
    "mset (sk_pushed ?r) + (\<Sum>j<N. in_push_of (sk_pc (goto t (K_push (t * M + pi_i s t)) ?r) j) (sk_node ?r)) =
      calls_of N M ((pi_i s)(t := pi_i s t + 1))" by (simp_all add: ac_simps)
  moreover have "sk_pc ?r N = K_idle" "\<not> pi_over s" using assms(1-3) by (auto simp: pile_inv_def)
  moreover have "\<forall>j < N. ((pi_i s)(t := pi_i s t + 1)) j \<le> M" using assms(1,3) by (auto simp: pile_inv_def)
  ultimately show ?thesis using assms(2) unfolding pile_inv_def by simp
qed

lemma pile_act_inv:
  assumes "pile_act N M s s'" "pile_inv N M s"
  shows "pile_inv N M s'"
proof -
  obtain as where i: "stack_inv N as (pi_stack s)" using assms(2) by (auto simp: pile_inv_def)
  have pop: "\<exists>as. stack_inv N as r" if "stack_pop N (pi_stack s) r" for r using pop_inv [OF that i] .
  from assms(1) show ?thesis
  proof cases
    case (pi_calls t)
    with pile_calls_inv [OF assms(2)] show ?thesis by simp
  next
    case (pi_pushes t r)
    note v = push_values [OF pi_pushes(4) i pi_pushes(3)]
    have "mset (sk_pushed r) + (\<Sum>j<N. in_push_of (sk_pc r j) (sk_node r)) =
        mset (sk_pushed (pi_stack s)) + (\<Sum>j<N. in_push_of (sk_pc (pi_stack s) j) (sk_node (pi_stack s)))"
      by (rule sum_but_one [OF pi_pushes(2)]) (use v in auto)
    moreover have "\<exists>as. stack_inv N as r" using push_inv [OF pi_pushes(4) i] .
    moreover have "sk_pc (pi_stack s) N = K_idle" "\<not> pi_over s" using assms(2) pi_pushes(2,3) by (auto simp: pile_inv_def)
    moreover have "sk_pc r N = sk_pc (pi_stack s) N" using v(2) [of N] pi_pushes(2) by simp
    ultimately show ?thesis using assms(2) unfolding pi_pushes(1) pile_inv_def by simp
  next
    case pi_joined
    with pop [OF pop_call] assms(2) show ?thesis by (auto simp: pile_inv_def)
  next
    case (pi_pops r)
    then have all: "\<forall>t < N. pi_i s t = M \<and> sk_pc (pi_stack s) t = K_idle" "\<not> pi_over s" using assms(2) by (auto simp: pile_inv_def)
    from pi_pops(3) have "sk_pushed r = sk_pushed (pi_stack s)" "\<forall>t < N. sk_pc r t = K_idle" "sk_pc r N = K_old None \<longrightarrow> sk_head r = None"
      by (cases; use all(1) pi_pops(2) in auto)+
    with pop [OF pi_pops(3)] all assms(2) pi_pops(1) show ?thesis by (simp add: pile_inv_def)
  next
    case pi_ends
    with pop [OF pop_empty] assms(2) show ?thesis by (auto simp: pile_inv_def)
  qed
qed

lemma pile_reach: "(pile_act N M)\<^sup>*\<^sup>* pile_start s \<Longrightarrow> pile_inv N M s"
proof (induction rule: rtranclp_induct)
  case base
  obtain as where "stack_inv N as (stack_init :: nat stack)" using one_popper_reach [of N stack_init] by auto
  then show ?case by (auto simp: pile_inv_def pile_start_def stack_init_def calls_of_def)
qed (rule pile_act_inv)

lemma all_calls: "calls_of N M (\<lambda>_. M) = mset [0..<N * M]"
proof (induction N)
  case (Suc N)
  have "[0..<Suc N * M] = [0..<N * M] @ map (\<lambda>j. N * M + j) [0..<M]"
    using upt_add_eq_append [of 0 "N * M" M] map_add_upt [of "N * M" M] by (simp add: add.commute)
  with Suc show ?case by (simp add: calls_of_def)
qed (simp add: calls_of_def)

text \<open>The program prints that it popped as many values as were pushed, and has popped each of them once.\<close>

theorem pile_program:
  assumes "(pile_act N M)\<^sup>*\<^sup>* pile_start s" "pi_over s"
  shows "mset (sk_popped (pi_stack s)) = mset [0..<N * M] \<and> length (sk_popped (pi_stack s)) = N * M \<and> \<not> sk_bad (pi_stack s)"
proof -
  have i: "pile_inv N M s" using assms(1) by (rule pile_reach)
  then obtain as where as: "stack_inv N as (pi_stack s)" by (auto simp: pile_inv_def)
  have h: "sk_head (pi_stack s) = None" "sk_pc (pi_stack s) N = K_idle" "\<forall>t < N. pi_i s t = M \<and> sk_pc (pi_stack s) t = K_idle"
    using i assms(2) by (auto simp: pile_inv_def)
  have "sk_abs (pi_stack s) = []" using as h(1) by (cases as) (auto simp: stack_inv_def)
  then have "mset (sk_popped (pi_stack s)) = mset (sk_pushed (pi_stack s))" "\<not> sk_bad (pi_stack s)"
    using as h(2) by (simp_all add: stack_inv_def)
  moreover have "calls_of N M (pi_i s) = calls_of N M (\<lambda>_. M)" using h(3) by (simp add: calls_of_def)
  then have "mset (sk_pushed (pi_stack s)) = mset [0..<N * M]" using i h(3) all_calls [of N M] by (simp add: pile_inv_def)
  ultimately have m: "mset (sk_popped (pi_stack s)) = mset [0..<N * M]" "\<not> sk_bad (pi_stack s)" by simp_all
  with mset_eq_length [OF m(1)] show ?thesis by simp
qed

subsection \<open>The baseline under a mutex\<close>

definition ms_push :: "'a \<Rightarrow> 'a list \<Rightarrow> 'a list" where
  "ms_push v st = v # st"

definition ms_pop :: "'a list \<Rightarrow> 'a option \<times> 'a list" where
  "ms_pop st = (case st of [] \<Rightarrow> (None, []) | v # st \<Rightarrow> (Some v, st))"

text \<open>\<open>while (ms.pop(v)) ++cnt\<close>.\<close>

function ms_drain :: "'a list \<Rightarrow> nat \<Rightarrow> nat" where
  "ms_drain st cnt = (case ms_pop st of (None, st) \<Rightarrow> cnt | (Some v, st) \<Rightarrow> ms_drain st (cnt + 1))"
  by auto
termination by (relation "measure (\<lambda>(st, _). length st)") (auto simp: ms_pop_def split: list.splits)

declare ms_drain.simps [simp del]

definition ms_bench :: "nat \<Rightarrow> nat" where
  "ms_bench bench_ops = ms_drain (fold ms_push [0..<bench_ops] []) 0"

lemma ms_drain_counts: "ms_drain st cnt = cnt + length st"
  by (induction st cnt rule: ms_drain.induct) (subst ms_drain.simps, simp add: ms_pop_def split: list.splits)

lemma ms_bench_counts: "ms_bench n = n"
proof -
  have "length (fold ms_push xs st) = length xs + length st" for xs st :: "nat list"
    by (induction xs arbitrary: st) (simp_all add: ms_push_def)
  then show ?thesis by (simp add: ms_bench_def ms_drain_counts)
qed

end
