(* ===== verification/Spec2Isabelle.thy ===== *)
theory Spec2Isabelle
  imports Recon_Properties Recon_Alerts Spsc_Rings Waitfree_Queue Order_Book Pools Lru_Cache
    Timer_Wheel Smart_Container Classic_Algorithms Latency_Variants Latency_Connections
    Smart_Iterators Monitors Waiting_Threads Lockfree_Stack Open_Hash Queue_Drivers
    Buffer_Exchange Parallel_Math Capstone_Pipeline Hot_Loops Particle_Layouts Error_Values Process_Sync Container_Demo Ping_Pong Event_Io Token_Bucket
    Demo_Programs Kitchen_Sink Monitor_Programs
    Event_Loop Working_Set Latency_Threads Language_Demos Lock_Programs
begin

text \<open>
  \<^bold>\<open>A verification library for Learn-Cpp\<close>

  The repository is a collection of C++ programs: data structures and algorithms under
  \<open>topics/\<close>, and two larger exercises under \<open>extras/\<close>: the feed reconcilers of
  \<open>citadel_interview/main.cpp\<close> and the five variants of a low-latency server in \<open>latency/\<close>.
  The programs share no code but a few idioms (a single-producer single-consumer ring, a bounded
  deque under a mutex, a free list), which are written out in every file that uses them. The
  library follows that: one theory per component, and a locale for each idiom, interpreted on
  every copy of it.

  \<^bold>\<open>Theories\<close>

  Shared ground and queues:
  \<^item> \<open>Prelude\<close>: machine integers as words, doubles as bit patterns with the comparison of C++, the
    collections of definitions, index arithmetic, runs of step relations.
  \<^item> \<open>Fifo_Queue\<close>: the locale \<open>bounded_fifo\<close>, its clients (runs of operations, a producer and a
    consumer thread) and the deques under a mutex. \<open>Ring_Index\<close>: the contents of a circular buffer.
    \<open>Spsc_Rings\<close>: the five ring classes. \<open>Spsc_Concurrent\<close>: one of them load by load and store by
    store. \<open>Waitfree_Queue\<close>: the queue with a flag per slot. \<open>Queue_Drivers\<close>: the producer and
    consumer threads of \<open>lockfree_spsc_ring_buffer.cpp\<close>, \<open>market_data_message_queue.cpp\<close> and
    \<open>waitfree_spsc_queue.cpp\<close>. \<open>Buffer_Exchange\<close>: the bump allocator and the pair of rings of
    \<open>notes_spsc_bump_vs_double_ring.cpp\<close>.

  Trading and servers:
  \<^item> \<open>Order_Book\<close>: the matching engine of \<open>order_book_matching_engine.cpp\<close>. \<open>Capstone_Pipeline\<close>:
    \<open>hft_capstone_pipeline.cpp\<close>.
  \<^item> \<open>Recon_Spec\<close>: the data of the reconcilers, \<open>ReconcilerUnorderedScan\<close>, the locales \<open>reconciler\<close> and
    \<open>blind_reconciler\<close> (a class that agrees with the scan but for one id).
    \<open>Recon_Vector\<close>, \<open>Recon_Heap\<close>, \<open>Recon_Direct\<close>, \<open>Recon_Flat\<close>: the other seven classes, over
    \<open>Min_Queue\<close> (the locale of the priority queue and its drain loop), \<open>Expiry_Store\<close> (the locale
    of entries with expiry times under a heap or a timer wheel) and \<open>Flat_Table\<close> (the
    open-addressing table). \<open>Recon_Bench\<close> and \<open>Recon_Workload\<close>: the driver and the program.
    \<open>Recon_Alerts\<close>, \<open>Recon_Properties\<close>: what alerts mean, and how far the classes agree.
  \<^item> \<open>Latency_Server\<close>: the threads the five servers of \<open>extras/latency\<close> have in common, over any queue
    and allocator (the locale \<open>pipeline\<close>). \<open>Latency_Pool\<close>: the same threads on the unlocked pool, load by load
    and store by store (the locale \<open>pool_pipeline\<close>): runs in which no \<open>alloc\<close> overlaps a \<open>free\<close> refine the
    pipeline, others may overwrite a queued message. \<open>Latency_Variants\<close>: \<open>v1\<close> to \<open>v5\<close> (\<open>v1\<close>, \<open>v3\<close> and \<open>v5\<close> on that
    pool), and the race of the handlers of \<open>v4\<close>. \<open>Latency_Connections\<close>: their descriptors. \<open>Latency_Threads\<close>: all threads of \<open>v4\<close> and its shutdown.
  \<^item> \<open>Event_Io\<close>: the echo server. \<open>Event_Loop\<close>: \<open>EventLoop\<close> on \<open>epoll\<close> and \<open>kqueue\<close> (the locale
    \<open>control\<close>). \<open>Token_Bucket\<close>: the rate limiter. \<open>Timer_Wheel\<close>.

  Threads and processes:
  \<^item> \<open>Monitors\<close>: \<open>ThreadPool\<close>, \<open>ThreadSafeQueue\<close>, \<open>AsyncLogger\<close>. \<open>Waiting_Threads\<close>: the reader-writer lock
    and the bounded blocking queue. \<open>Lockfree_Stack\<close>: \<open>LockFreeStack\<close> with its nodes.
    \<open>Monitor_Programs\<close>, \<open>Lock_Programs\<close>: the programs around them. \<open>Process_Sync\<close>: \<open>fork_mmap_ipc_sync.cpp\<close>,
    whose calls on the pipe may fail. \<open>Ping_Pong\<close>:
    \<open>context_switch_threads_vs_processes.cpp\<close>. \<open>Parallel_Math\<close>: the factors and the two programs over them.

  Memory, containers and algorithms:
  \<^item> \<open>Pools\<close>: the locale \<open>allocator\<close>, the three free-list pools, and one of them under two threads.
  \<^item> \<open>Smart_Container\<close>: the vector class over a heap whose cells know whether an object lives in them.
    \<open>Smart_Iterators\<close>: its iterators. \<open>Container_Demo\<close>: its demo, with the counts of special members.
  \<^item> \<open>Lru_Cache\<close>, \<open>Open_Hash\<close>, \<open>Classic_Algorithms\<close>: the programs of these names; \<open>Demo_Programs\<close>: what
    the programs over the cache, the wheel, the hash table, the book and the pools print.
  \<^item> \<open>Hot_Loops\<close>, \<open>Particle_Layouts\<close>, \<open>Working_Set\<close>: the micro-benchmarks, as far as they compute.
  \<^item> \<open>Error_Values\<close>, \<open>Kitchen_Sink\<close>: \<open>expected.cpp\<close> and \<open>modern_cpp23_kitchen_sink.cpp\<close>, parsing
    and errors in the first, lifetimes of objects in the second. \<open>Language_Demos\<close>: five small programs.

  \<^bold>\<open>What the lemmas show\<close>

  Each theory proves that its operations keep the invariant of their state, then what they compute:
  that an implementation refines a list, a map or a stack, or agrees with a reference
  implementation, on every sequence of operations. The theories on threads and processes prove an
  invariant of every reachable state, and from it what has been delivered, that nobody waits for
  good, or a state in which somebody does. Where the code is wrong, the theorem says what it does.

  \<^bold>\<open>How the code is rendered\<close>

  A class is a record of its members, an operation a function that returns its result and the new
  state. \<open>size_t\<close> and \<open>uint64_t\<close> values that the code does arithmetic on near their bounds (time
  stamps, ids, hash values, alert counters, sums) are words; indices below a capacity are
  natural numbers. Signed arithmetic that may overflow has the value \<open>None\<close> when it does. Fields that
  a record keeps only for the proofs are called histories where they are declared.

  A loop that may not end is a \<open>partial_function (option)\<close>, whose value \<open>None\<close>
  is not returning, and every claim about such a loop says when it returns. Fuel is used for loops over
  iterators only (\<open>it_walk\<close> and its like in \<open>Smart_Container\<close> and \<open>Smart_Iterators\<close>), and is the distance of
  the iterators or the number of elements, which is how often the loop runs. Errors and undefined
  behaviour are values of a sum type or \<open>None\<close>.

  Threads and processes are step relations, one constructor for each step that others can see:
  a load, store or exchange of an atomic, or a section under a mutex; programs over a queue whose operations are
  proved to be such steps take each of them as one
  (\<open>alloc\<close> in \<open>v4\<close>, which has races of its own, is one step as well). Steps interleave in any
  order, so atomics are sequentially consistent. Waiting on a condition variable is a state of its own;
  a notification wakes any one sleeper, and sleepers may wake up spuriously.

  What the program does not determine is an argument or a free choice of a step: results
  of system calls, arriving data, clock readings, the address of a new object, hash
  functions, the rounding of \<open>double\<close> operations (an exact operation on reals followed by a function
  that is assumed to be monotone). What is printed is a list of values, a constructor for each format string.

  \<^bold>\<open>Not modelled\<close>

  Measured times and the lines that print them, and the baselines of benchmarks that only read a clock; weak memory
  orders; failing allocations; setting up sockets (except that it can fail in \<open>v4\<close>); the
  statistics threads of \<open>v1\<close>, \<open>v2\<close>, \<open>v3\<close> and \<open>v5\<close>, which only print; the benchmark of
  \<open>ReaderWriterLock\<close>; \<open>print.cpp\<close> and \<open>atomic_ref.cpp\<close>, which have no logic.
\<close>

end
